(* ===== verification/Codec_Prelude.thy ===== *)
theory Codec_Prelude
  imports Main "HOL-Library.Word"
begin

text \<open>
  Shared vocabulary of the development: the C integer types as words, size_t arithmetic
  with its wrap-around written out, byte lists in both byte orders, the generic lemmas on
  words, lists and options that the component theories share, and the two interfaces
  (\<open>prefix_codec\<close> for a matching pair of an encoder and a decoder, \<open>byte_source\<close> for a
  reader that consumes bytes from the front) that several components implement.

  Pointers are 64 bits wide and integers are stored little-endian (the arm64 and x86-64
  targets of the app that links these libraries).
\<close>

unbundle bit_operations_syntax

subsection \<open>Types\<close>

type_synonym u8 = "8 word"
type_synonym u16 = "16 word"
type_synonym u32 = "32 word"
type_synonym u64 = "64 word"
type_synonym bytes = "u8 list"

named_theorems width_simps \<open>masks, shifts and conversions of words as arithmetic\<close>
named_theorems outcome_simps \<open>unfolding of the outcome combinators\<close>

text \<open>Addition of two values of type size_t.\<close>

definition size_add :: "nat \<Rightarrow> nat \<Rightarrow> nat" where
  "size_add a b = (a + b) mod 2 ^ 64"

definition size_sub :: "nat \<Rightarrow> nat \<Rightarrow> nat" where
  "size_sub a b = (a + 2 ^ 64 - b mod 2 ^ 64) mod 2 ^ 64"

lemma size_add_eq [simp]: "a + b < 2 ^ 64 \<Longrightarrow> size_add a b = a + b"
  by (simp add: size_add_def)

lemma size_add_overflow:
  "a < 2 ^ 64 \<Longrightarrow> b < 2 ^ 64 \<Longrightarrow> size_add a b < a \<longleftrightarrow> 2 ^ 64 \<le> a + b"
proof (cases "a + b < 2 ^ 64")
  case True
  then show ?thesis by simp
next
  case False
  moreover assume "a < 2 ^ 64" "b < 2 ^ 64"
  ultimately have "(a + b) mod 2 ^ 64 = a + b - 2 ^ 64"
    by (simp add: le_mod_geq)
  with False \<open>b < 2 ^ 64\<close> show ?thesis by (simp add: size_add_def)
qed

lemma size_add_lt [simp]: "size_add a b < 18446744073709551616"
  by (simp add: size_add_def)

lemma size_sub_eq: "b \<le> a \<Longrightarrow> a < 2 ^ 64 \<Longrightarrow> size_sub a b = a - b"
proof -
  assume a: "b \<le> a" "a < 2 ^ 64"
  then have "a + 2 ^ 64 - b mod 2 ^ 64 = (a - b) + 2 ^ 64" by simp
  then have "size_sub a b = ((a - b) + 2 ^ 64) mod 2 ^ 64" by (simp only: size_sub_def)
  also have "\<dots> = a - b" using a by (simp only: mod_add_self2) simp
  finally show ?thesis .
qed

subsection \<open>Words\<close>

lemma and_mask_word_numerals [width_simps]:
  fixes w :: "'a::len word"
  shows "w AND 0x7F = take_bit 7 w" "w AND 0xFF = take_bit 8 w"
    "w AND 0x3F = take_bit 6 w" "w AND 0x1F = take_bit 5 w"
    "w AND 0x0F = take_bit 4 w" "w AND 0x07 = take_bit 3 w"
    "0x7F AND w = take_bit 7 w" "0xFF AND w = take_bit 8 w"
    "0x3F AND w = take_bit 6 w" "0x1F AND w = take_bit 5 w"
    "0x0F AND w = take_bit 4 w" "0x07 AND w = take_bit 3 w"
  by (simp_all add: take_bit_eq_mask mask_eq_decr_exp ac_simps)

lemma unat_drop_bit [width_simps]: "unat (drop_bit n (w :: 'a::len word)) = unat w div 2 ^ n"
proof -
  have "unat (drop_bit n w) = drop_bit n (unat w)"
    by (rule unat_drop_bit_eq)
  then show ?thesis by (simp only: drop_bit_eq_div)
qed

lemma unat_take_bit [width_simps]: "unat (take_bit n (w :: 'a::len word)) = unat w mod 2 ^ n"
proof -
  have "unat (take_bit n w) = take_bit n (unat w)"
    by (rule unsigned_take_bit_eq)
  then show ?thesis by (simp only: take_bit_eq_mod)
qed

lemma unat_push_bit [width_simps]:
  "unat (push_bit n (w :: 'a::len word)) = (unat w * 2 ^ n) mod 2 ^ LENGTH('a)"
proof -
  have "unat (push_bit n w) = take_bit LENGTH('a) (push_bit n (unat w))"
    by (simp only: unsigned_push_bit_eq)
  then show ?thesis by (simp only: push_bit_eq_mult take_bit_eq_mod)
qed

lemma unat_ucast_word [width_simps]:
  "unat (ucast (w :: 'a::len word) :: 'b::len word) = unat w mod 2 ^ LENGTH('b)"
  by (simp add: unsigned_ucast_eq take_bit_eq_mod)

lemma unat_lt_2p [simp]: "unat (w :: 'a::len word) < 2 ^ LENGTH('a)"
  by (rule unsigned_less)

lemma unat_u8_lt [simp]: "unat (b :: u8) < 256"
  using unat_lt_2p [of b] by simp

lemma unat_u32_lt [simp]: "unat (b :: u32) < 4294967296"
  using unat_lt_2p [of b] by simp

lemma unat_u64_lt [simp]: "unat (b :: u64) < 18446744073709551616"
  using unat_lt_2p [of b] by simp

lemma bit_high_bit: "bit (128 :: int) n \<longleftrightarrow> n = 7"
proof -
  have "bit (push_bit 7 1 :: int) n \<longleftrightarrow> n = 7"
    by (simp only: bit_push_bit_iff bit_1_iff) auto
  then show ?thesis by simp
qed

lemma ucast_of_nat_down:
  "LENGTH('b) \<le> LENGTH('a) \<Longrightarrow> (ucast (of_nat n :: 'a::len word) :: 'b::len word) = of_nat n"
  by (rule bit_word_eqI) (simp add: bit_simps)

text \<open>The high bit and the other seven bits of a byte.\<close>

lemma and_high_bit_u8: "(b :: u8) AND 0x80 = 0 \<longleftrightarrow> unat b < 128"
proof -
  have "b AND 0x80 = (if bit b 7 then 0x80 else 0)"
    by (rule bit_word_eqI) (auto simp: bit_simps bit_high_bit)
  moreover have "bit b 7 \<longleftrightarrow> \<not> unat b < 128"
  proof -
    have "bit b 7 \<longleftrightarrow> bit (unat b) 7" by (simp add: bit_unsigned_iff)
    also have "\<dots> \<longleftrightarrow> odd (unat b div 2 ^ 7)" by (rule bit_iff_odd)
    also have "\<dots> \<longleftrightarrow> \<not> unat b < 128"
    proof -
      have "unat b div 128 < 2"
        using unat_u8_lt [of b] by (simp add: div_less_iff_less_mult)
      then have "unat b div 128 = 0 \<or> unat b div 128 = 1" by arith
      then show ?thesis by (auto simp: div_eq_0_iff)
    qed
    finally show ?thesis .
  qed
  ultimately show ?thesis by auto
qed

lemma ucast_low7: "(ucast ((b :: u8) AND 0x7F) :: 'a::len word) = of_nat (unat b mod 128)"
proof -
  have "(ucast (b AND 0x7F) :: 'a word) = of_nat (unat (b AND 0x7F))" by simp
  then show ?thesis by (simp only: width_simps) simp
qed

lemma leb_byte_unat: "unat (of_nat (n mod 128 + 128) :: u8) = n mod 128 + 128"
proof -
  have "n mod 128 + 128 < 256"
    by (metis add.commute add_less_cancel_left mod_less_divisor numeral_Bit0 zero_less_numeral)
  then show ?thesis by (simp add: unat_of_nat del: of_nat_add)
qed

text \<open>Two words with no bit in common: the disjunction is the sum.\<close>

lemma unat_or_disjoint:
  fixes x y :: "'a::len word"
  assumes "x AND y = 0"
  shows "unat (x OR y) = unat x + unat y"
proof -
  have "unat x AND unat y = unat (x AND y)" by (rule unsigned_and_eq [symmetric])
  with assms have "unat x AND unat y = 0" by simp
  then show ?thesis by (simp add: unsigned_or_eq disjunctive_add_eq_or)
qed

text \<open>Joining a low and a high part with OR adds them at their positions.\<close>

lemma of_nat_or_push_bit:
  assumes "x < 2 ^ k"
  shows "(of_nat (x + 2 ^ k * y) :: 'a::len word) = of_nat x OR push_bit k (of_nat y)"
proof -
  have "(of_nat x :: 'a word) AND push_bit k (of_nat y) = 0"
  proof (rule bit_word_eqI)
    fix n
    have "bit (of_nat x :: 'a word) n \<Longrightarrow> n < k"
    proof (rule ccontr)
      assume a: "bit (of_nat x :: 'a word) n" "\<not> n < k"
      then have "k \<le> n" by simp
      then have "(2::nat) ^ k \<le> 2 ^ n" by (rule power_increasing) simp
      with assms have "x < 2 ^ n" by (rule less_le_trans)
      then have zero: "x div 2 ^ n = 0" by (simp add: div_eq_0_iff)
      from a have "bit x n" by (simp add: bit_simps)
      then have "odd (x div 2 ^ n)" unfolding bit_iff_odd .
      moreover have "even (x div 2 ^ n)" by (subst zero) simp
      ultimately show False by (rule notE)
    qed
    then show "bit ((of_nat x :: 'a word) AND push_bit k (of_nat y)) n \<longleftrightarrow> bit (0 :: 'a word) n"
      by (auto simp: bit_simps)
  qed
  then have "(of_nat x :: 'a word) OR push_bit k (of_nat y) = of_nat x + push_bit k (of_nat y)"
    by (rule disjunctive_add_eq_or [symmetric])
  then show ?thesis by (simp add: push_bit_eq_mult)
qed

subsection \<open>Byte orders\<close>

text \<open>
  The value of a byte string in either byte order, and the bytes of a value. These are the
  reference definitions the shift-and-or code of the components is compared with.
\<close>

fun le_nat :: "bytes \<Rightarrow> nat" where
  "le_nat [] = 0"
| "le_nat (b # bs) = unat b + 256 * le_nat bs"

fun be_nat :: "bytes \<Rightarrow> nat" where
  "be_nat [] = 0"
| "be_nat (b # bs) = unat b * 256 ^ length bs + be_nat bs"

fun le_bytes :: "nat \<Rightarrow> nat \<Rightarrow> bytes" where
  "le_bytes 0 v = []"
| "le_bytes (Suc n) v = of_nat v # le_bytes n (v div 256)"

definition be_bytes :: "nat \<Rightarrow> nat \<Rightarrow> bytes" where
  "be_bytes n v = rev (le_bytes n v)"

lemma length_le_bytes [simp]: "length (le_bytes n v) = n"
  by (induction n arbitrary: v) auto

lemma length_be_bytes [simp]: "length (be_bytes n v) = n"
  by (simp add: be_bytes_def)

lemma unat_of_nat_u8 [simp]: "unat (of_nat v :: u8) = v mod 256"
  by (simp add: unat_of_nat)

lemma le_nat_lt: "le_nat bs < 256 ^ length bs"
proof (induction bs)
  case (Cons b bs)
  have "unat b + 256 * le_nat bs < 256 * (le_nat bs + 1)"
    using unat_u8_lt [of b] by simp
  also have "\<dots> \<le> 256 * 256 ^ length bs" using Cons by simp
  finally show ?case by simp
qed simp

lemma le_nat_le_bytes [simp]: "le_nat (le_bytes n v) = v mod 256 ^ n"
proof (induction n arbitrary: v)
  case (Suc n)
  have "v mod (256 * 256 ^ n) = 256 * (v div 256 mod 256 ^ n) + v mod 256"
    by (rule mod_mult2_eq)
  then show ?case by (simp add: Suc.IH)
qed simp

lemma le_bytes_le_nat [simp]: "le_bytes (length bs) (le_nat bs) = bs"
proof (induction bs)
  case (Cons b bs)
  have "(unat b + 256 * le_nat bs) div 256 = le_nat bs"
    using unat_u8_lt [of b] by simp
  moreover have "(of_nat (unat b + 256 * le_nat bs) :: u8) = b"
    by (rule word_unat_eq_iff [THEN iffD2]) (simp del: of_nat_add of_nat_mult)
  ultimately show ?case using Cons by simp
qed simp

lemma le_bytes_expand:
  "le_bytes 2 v = [of_nat v, of_nat (v div 2 ^ 8)]"
  "le_bytes 3 v = [of_nat v, of_nat (v div 2 ^ 8), of_nat (v div 2 ^ 16)]"
  "le_bytes 4 v = [of_nat v, of_nat (v div 2 ^ 8), of_nat (v div 2 ^ 16), of_nat (v div 2 ^ 24)]"
  "le_bytes 8 v =
     [of_nat v, of_nat (v div 2 ^ 8), of_nat (v div 2 ^ 16), of_nat (v div 2 ^ 24),
      of_nat (v div 2 ^ 32), of_nat (v div 2 ^ 40), of_nat (v div 2 ^ 48), of_nat (v div 2 ^ 56)]"
proof -
  have n: "2 = Suc (Suc 0)" "3 = Suc (Suc (Suc 0))" "4 = Suc (Suc (Suc (Suc 0)))"
    "8 = Suc (Suc (Suc (Suc (Suc (Suc (Suc (Suc 0)))))))" by simp_all
  show "le_bytes 2 v = [of_nat v, of_nat (v div 2 ^ 8)]"
    by (subst (1) n(1)) simp
  show "le_bytes 3 v = [of_nat v, of_nat (v div 2 ^ 8), of_nat (v div 2 ^ 16)]"
    by (subst (1) n(2)) (simp add: div_mult2_eq [symmetric])
  show "le_bytes 4 v = [of_nat v, of_nat (v div 2 ^ 8), of_nat (v div 2 ^ 16), of_nat (v div 2 ^ 24)]"
    by (subst (1) n(3)) (simp add: div_mult2_eq [symmetric])
  show "le_bytes 8 v =
     [of_nat v, of_nat (v div 2 ^ 8), of_nat (v div 2 ^ 16), of_nat (v div 2 ^ 24),
      of_nat (v div 2 ^ 32), of_nat (v div 2 ^ 40), of_nat (v div 2 ^ 48), of_nat (v div 2 ^ 56)]"
    by (subst (1) n(4)) (simp add: div_mult2_eq [symmetric])
qed

lemma of_nat_le_nat_Cons:
  "(of_nat (le_nat (b # bs)) :: 'a::len word) = ucast b OR push_bit 8 (of_nat (le_nat bs))"
proof -
  have "unat b < 2 ^ 8" by simp
  from of_nat_or_push_bit [OF this, of "le_nat bs"]
  show ?thesis by (simp del: of_nat_add of_nat_mult)
qed

text \<open>The same value as a word, computed with shifts.\<close>

fun le_word :: "bytes \<Rightarrow> 'a::len word" where
  "le_word [] = 0"
| "le_word (b # bs) = ucast b OR push_bit 8 (le_word bs)"

lemma le_word_le_nat: "le_word bs = of_nat (le_nat bs)"
proof (induction bs)
  case (Cons b bs)
  then show ?case by (simp only: le_word.simps of_nat_le_nat_Cons)
qed simp

lemma le_word_le_bytes: "le_word (le_bytes n v) = of_nat (v mod 256 ^ n)"
  by (simp add: le_word_le_nat)

lemma le_nat_append: "le_nat (xs @ ys) = le_nat xs + 256 ^ length xs * le_nat ys"
  by (induction xs) (auto simp: algebra_simps)

lemma be_nat_append: "be_nat (xs @ ys) = be_nat xs * 256 ^ length ys + be_nat ys"
  by (induction xs) (auto simp: algebra_simps power_add)

lemma be_nat_rev: "be_nat (rev bs) = le_nat bs"
  by (induction bs) (auto simp: be_nat_append)

lemma be_nat_eq_le: "be_nat bs = le_nat (rev bs)"
  using be_nat_rev [of "rev bs"] by simp

lemma be_nat_lt: "be_nat bs < 256 ^ length bs"
  using le_nat_lt [of "rev bs"] by (simp add: be_nat_eq_le)

lemma be_nat_be_bytes [simp]: "be_nat (be_bytes n v) = v mod 256 ^ n"
  by (simp add: be_bytes_def be_nat_rev)

lemma be_bytes_be_nat [simp]: "be_bytes (length bs) (be_nat bs) = bs"
proof -
  have "le_bytes (length (rev bs)) (le_nat (rev bs)) = rev bs"
    by (rule le_bytes_le_nat)
  then show ?thesis by (simp add: be_bytes_def be_nat_eq_le)
qed

subsection \<open>Interfaces\<close>

text \<open>
  A decoder that undoes an encoder and leaves the rest of the input untouched. \<open>dec\<close>
  returns the value and the bytes it did not consume.
\<close>

locale prefix_codec =
  fixes enc :: "'a \<Rightarrow> bytes"
    and dec :: "bytes \<Rightarrow> ('a \<times> bytes) option"
    and valid :: "'a \<Rightarrow> bool"
  assumes dec_enc: "valid x \<Longrightarrow> dec (enc x @ rest) = Some (x, rest)"
begin

lemma enc_cancel:
  assumes "valid x" "valid y" "enc x @ r = enc y @ s"
  shows "x = y \<and> r = s"
proof -
  have "Some (x, r) = dec (enc x @ r)" using dec_enc [OF assms(1)] by (rule sym)
  also have "\<dots> = dec (enc y @ s)" by (simp only: assms(3))
  also have "\<dots> = Some (y, s)" by (rule dec_enc [OF assms(2)])
  finally show ?thesis by blast
qed

lemma enc_inj: "valid x \<Longrightarrow> valid y \<Longrightarrow> enc x = enc y \<Longrightarrow> x = y"
  using enc_cancel [of x y "[]" "[]"] by simp

lemma enc_not_proper_prefix: "valid x \<Longrightarrow> valid y \<Longrightarrow> enc y = enc x @ r \<Longrightarrow> r = []"
  using enc_cancel [of x y r "[]"] by simp

lemma enc_list_inj:
  "list_all valid xs \<Longrightarrow> list_all valid ys \<Longrightarrow> length xs = length ys \<Longrightarrow>
   concat (map enc xs) @ r = concat (map enc ys) @ s \<Longrightarrow> xs = ys \<and> r = s"
proof (induction xs arbitrary: ys)
  case (Cons x xs)
  then obtain y ys' where ys: "ys = y # ys'" by (cases ys) auto
  with Cons.prems have "enc x @ (concat (map enc xs) @ r) = enc y @ (concat (map enc ys') @ s)"
    by simp
  moreover have "valid x" "valid y" using Cons.prems ys by simp_all
  ultimately have eq: "x = y" "concat (map enc xs) @ r = concat (map enc ys') @ s"
    using enc_cancel by blast+
  from Cons.prems ys have "list_all valid xs" "list_all valid ys'" "length xs = length ys'"
    by simp_all
  with eq(2) have "xs = ys' \<and> r = s" by (intro Cons.IH)
  with eq(1) ys show ?case by simp
qed simp

end

text \<open>
  A decoder that accepts exactly the outputs of the encoder, on all inputs there is \<open>room\<close> for
  (C objects are bounded in size). Then a loop that decodes until nothing is left accepts exactly
  the concatenations of encodings.
\<close>

fun decode_all :: "(bytes \<Rightarrow> ('a \<times> bytes) option) \<Rightarrow> nat \<Rightarrow> bytes \<Rightarrow> 'a list option" where
  "decode_all dec n [] = Some []"
| "decode_all dec 0 (b # bs) = None"
| "decode_all dec (Suc n) (b # bs) =
     (case dec (b # bs) of
        None \<Rightarrow> None
      | Some (x, rest) \<Rightarrow> map_option (Cons x) (decode_all dec n rest))"

locale canonical_codec =
  fixes enc :: "'a \<Rightarrow> bytes"
    and dec :: "bytes \<Rightarrow> ('a \<times> bytes) option"
    and valid :: "'a \<Rightarrow> bool"
    and room :: "bytes \<Rightarrow> bool"
  assumes dec_iff: "room bs \<Longrightarrow> dec bs = Some (x, rest) \<longleftrightarrow> valid x \<and> bs = enc x @ rest"
    and enc_nonempty: "valid x \<Longrightarrow> enc x \<noteq> []"
    and room_suffix: "room (xs @ ys) \<Longrightarrow> room ys"
begin

lemma dec_enc: "room (enc x @ rest) \<Longrightarrow> valid x \<Longrightarrow> dec (enc x @ rest) = Some (x, rest)"
  by (simp add: dec_iff)

lemma enc_cancel:
  assumes "room (enc x @ r)" "valid x" "valid y" "enc x @ r = enc y @ s"
  shows "x = y \<and> r = s"
proof -
  have "dec (enc x @ r) = Some (x, r)" using assms(1,2) by (rule dec_enc)
  moreover have "dec (enc x @ r) = Some (y, s)"
    unfolding assms(4) using assms(1,3) by (intro dec_enc) (simp_all add: assms(4))
  ultimately show ?thesis by simp
qed

lemma decode_all_iff:
  "room bs \<Longrightarrow> length bs \<le> n \<Longrightarrow>
   decode_all dec n bs = Some xs \<longleftrightarrow> list_all valid xs \<and> bs = concat (map enc xs)"
proof (induction n arbitrary: bs xs)
  case 0
  then show ?case by (cases xs) (auto simp: enc_nonempty)
next
  case (Suc n)
  show ?case
  proof (cases "bs = [] \<or> xs = []")
    case True
    then show ?thesis by (cases bs; cases xs) (auto simp: enc_nonempty split: option.splits)
  next
    case False
    then obtain b bs' x ys where bs: "bs = b # bs'" and xs: "xs = x # ys" by (cases bs; cases xs) auto
    have step: "decode_all dec n rest = Some ys \<longleftrightarrow> list_all valid ys \<and> rest = concat (map enc ys)"
      if dec: "dec bs = Some (x, rest)" for rest
    proof -
      have x: "valid x \<and> bs = enc x @ rest"
        by (rule dec_iff [OF Suc.prems(1), THEN iffD1]) (rule dec)
      have "room rest" using Suc.prems(1) room_suffix [of "enc x" rest] x by simp
      moreover have "length rest \<le> n"
        using Suc.prems(2) enc_nonempty [of x] x by (cases "enc x") auto
      ultimately show ?thesis by (rule Suc.IH)
    qed
    have enc: "dec bs = Some (x, rest) \<longleftrightarrow> valid x \<and> bs = enc x @ rest" for rest
      using Suc.prems(1) by (rule dec_iff)
    have "decode_all dec (Suc n) bs = Some (x # ys) \<longleftrightarrow>
        (\<exists>rest. dec bs = Some (x, rest) \<and> decode_all dec n rest = Some ys)"
      unfolding bs by (auto split: option.splits)
    also have "\<dots> \<longleftrightarrow> (\<exists>rest. dec bs = Some (x, rest) \<and> list_all valid ys \<and> rest = concat (map enc ys))"
      using step by blast
    also have "\<dots> \<longleftrightarrow> list_all valid xs \<and> bs = concat (map enc xs)"
      using enc by (auto simp: xs)
    finally show ?thesis unfolding xs .
  qed
qed

end

text \<open>
  A reader of bytes from the front of some remaining input, which fails exactly when not
  enough bytes are left.
\<close>

locale byte_source =
  fixes fetch :: "nat \<Rightarrow> 's \<Rightarrow> (bytes \<times> 's) option"
    and left :: "'s \<Rightarrow> bytes"
    and ok :: "'s \<Rightarrow> bool"
  assumes fetch_ok: "ok s \<Longrightarrow> n \<le> length (left s) \<Longrightarrow>
      \<exists>s'. fetch n s = Some (take n (left s), s') \<and> left s' = drop n (left s) \<and> ok s'"
    and fetch_short: "ok s \<Longrightarrow> length (left s) < n \<Longrightarrow> fetch n s = None"
begin

lemma fetch_Some_iff: "ok s \<Longrightarrow> (\<exists>r. fetch n s = Some r) \<longleftrightarrow> n \<le> length (left s)"
  using fetch_ok [of s n] fetch_short [of s n] by (cases "n \<le> length (left s)") auto

lemma fetch_SomeD:
  assumes "ok s" "fetch n s = Some (bs, s')"
  shows "left s = bs @ left s' \<and> length bs = n \<and> ok s'"
proof (cases "n \<le> length (left s)")
  case True
  then show ?thesis using fetch_ok [OF assms(1) True] assms(2) by auto
next
  case False
  then show ?thesis using fetch_short [OF assms(1)] assms(2) by simp
qed

text \<open>Two reads in a row see the same bytes as one longer read.\<close>

lemma fetch_twice:
  assumes "ok s" "fetch m s = Some (xs, s1)" "fetch n s1 = Some (ys, s2)"
  shows "\<exists>s3. fetch (m + n) s = Some (xs @ ys, s3) \<and> left s3 = left s2"
proof -
  have 1: "left s = xs @ left s1" "length xs = m" "ok s1"
    using fetch_SomeD [OF assms(1,2)] by auto
  have 2: "left s1 = ys @ left s2" "length ys = n"
    using fetch_SomeD [OF 1(3) assms(3)] by auto
  have "m + n \<le> length (left s)" using 1 2 by simp
  then show ?thesis using fetch_ok [OF assms(1), of "m + n"] 1 2 by auto
qed

end

end
