(* ===== verification/Pb_Ostream.thy ===== *)
theory Pb_Ostream
  imports Codec_Prelude
begin

text \<open>
  The output stream of nanopb (pb_encode.c, pb_encode.h): the stream structure, writing to a
  memory buffer, pb_write, and the primitive encoders (varint, svarint, fixed32, fixed64, tag,
  string). A C call that takes the stream by pointer is a function from the stream before the
  call to the result and the stream after it; \<open>None\<close> stands for a call that does not return
  normally (a dereferenced NULL pointer, or a recursion that ran out of fuel).

  The interface \<open>byte_sink\<close> says what a stream callback must do; \<open>emits\<close> says what an encoder
  does to every stream with such a callback and to a sizing stream.
\<close>

subsection \<open>The stream\<close>

record 's pb_ostream =
  os_callback :: "('s \<Rightarrow> bytes \<Rightarrow> bool \<times> 's) option"
  os_state :: 's
  os_max_size :: nat
  os_bytes_written :: nat
  os_errmsg :: "string option"

type_synonym 's enc = "'s pb_ostream \<Rightarrow> (bool \<times> 's pb_ostream) option"

text \<open>PB_SET_ERROR keeps the first message; PB_RETURN_ERROR sets it and returns false.\<close>

definition os_set_error :: "string \<Rightarrow> 's pb_ostream \<Rightarrow> 's pb_ostream" where
  "os_set_error msg s =
     s\<lparr>os_errmsg := (case os_errmsg s of None \<Rightarrow> Some msg | Some m \<Rightarrow> Some m)\<rparr>"

definition os_fail :: "string \<Rightarrow> 's enc" where
  "os_fail msg s = Some (False, os_set_error msg s)"

definition os_return :: "'s enc" where
  "os_return s = Some (True, s)"

text \<open>\<open>os_then f g\<close> is \<open>if (!f(stream)) return false; return g(stream);\<close>.\<close>

definition os_then :: "'s enc \<Rightarrow> 's enc \<Rightarrow> 's enc" where
  "os_then f g s =
     (case f s of
        None \<Rightarrow> None
      | Some (ok, s') \<Rightarrow> if ok then g s' else Some (False, s'))"

text \<open>PB_OSTREAM_SIZING: a stream that only counts. \<open>null\<close> is the NULL state pointer.\<close>

definition pb_ostream_sizing :: "'s \<Rightarrow> 's pb_ostream" where
  "pb_ostream_sizing null =
     \<lparr>os_callback = None, os_state = null, os_max_size = 0, os_bytes_written = 0,
      os_errmsg = None\<rparr>"

subsection \<open>Writing to a memory buffer\<close>

text \<open>The state of a buffer stream: the memory of the buffer and the current write position.\<close>

record obuf =
  ob_mem :: bytes
  ob_pos :: nat

fun store_bytes :: "bytes \<Rightarrow> nat \<Rightarrow> bytes \<Rightarrow> bytes" where
  "store_bytes dest i [] = dest"
| "store_bytes dest i (b # bs) = store_bytes (dest[i := b]) (Suc i) bs"

definition buf_write :: "obuf \<Rightarrow> bytes \<Rightarrow> bool \<times> obuf" where
  "buf_write ob buf =
     (True, ob\<lparr>ob_pos := ob_pos ob + length buf,
               ob_mem := store_bytes (ob_mem ob) (ob_pos ob) buf\<rparr>)"

definition pb_ostream_from_buffer :: "bytes \<Rightarrow> nat \<Rightarrow> obuf pb_ostream" where
  "pb_ostream_from_buffer buf bufsize =
     \<lparr>os_callback = Some buf_write, os_state = \<lparr>ob_mem = buf, ob_pos = 0\<rparr>,
      os_max_size = bufsize, os_bytes_written = 0, os_errmsg = None\<rparr>"

text \<open>
  \<open>buf\<close> is \<open>None\<close> for a NULL pointer, else the bytes readable there, of which \<open>count\<close> are
  written.
\<close>

definition pb_write :: "bytes option \<Rightarrow> nat \<Rightarrow> 's enc" where
  "pb_write buf count s =
     (case if 0 < count then os_callback s else None of
        None \<Rightarrow> Some (True, s\<lparr>os_bytes_written := size_add (os_bytes_written s) count\<rparr>)
      | Some cb \<Rightarrow>
          (let total = size_add (os_bytes_written s) count in
           if total < os_bytes_written s \<or> os_max_size s < total
           then os_fail ''stream full'' s
           else (case buf of
                   None \<Rightarrow> None
                 | Some bs \<Rightarrow>
                     (case cb (os_state s) (take count bs) of
                        (ok, st) \<Rightarrow>
                          if ok
                          then Some (True, s\<lparr>os_state := st, os_bytes_written := total\<rparr>)
                          else os_fail ''io error'' (s\<lparr>os_state := st\<rparr>)))))"

definition pb_write_bytes :: "bytes \<Rightarrow> 's enc" where
  "pb_write_bytes bs = pb_write (Some bs) (length bs)"

subsection \<open>Primitive encoders\<close>

text \<open>The loop of pb_encode_varint that fills its local buffer.\<close>

function varint_loop :: "u64 \<Rightarrow> bytes" where
  "varint_loop value =
     (if value = 0 then []
      else (ucast (value AND 0x7F) OR 0x80) # varint_loop (drop_bit 7 value))"
  by pat_completeness auto
termination
proof (relation "measure unat")
  fix v :: u64
  assume "v \<noteq> 0"
  then have "0 < unat v" by (simp add: unat_gt_0)
  then show "(drop_bit 7 v, v) \<in> measure unat"
    by (simp add: width_simps)
qed simp

declare varint_loop.simps [simp del]

definition varint_bytes :: "u64 \<Rightarrow> bytes" where
  "varint_bytes value =
     (if value \<le> 0x7F then [ucast value]
      else (let buffer = varint_loop value; i = length buffer
            in buffer[i - 1 := (buffer ! (i - 1)) AND 0x7F]))"

definition pb_encode_varint :: "u64 \<Rightarrow> 's enc" where
  "pb_encode_varint value = pb_write_bytes (varint_bytes value)"

definition zigzag :: "u64 \<Rightarrow> u64" where
  "zigzag value = (if value <s 0 then NOT (push_bit 1 value) else push_bit 1 value)"

definition pb_encode_svarint :: "u64 \<Rightarrow> 's enc" where
  "pb_encode_svarint value = pb_encode_varint (zigzag value)"

definition fixed32_bytes :: "u32 \<Rightarrow> bytes" where
  "fixed32_bytes val =
     [ucast (val AND 0xFF), ucast (drop_bit 8 val AND 0xFF),
      ucast (drop_bit 16 val AND 0xFF), ucast (drop_bit 24 val AND 0xFF)]"

definition pb_encode_fixed32 :: "u32 \<Rightarrow> 's enc" where
  "pb_encode_fixed32 val = pb_write_bytes (fixed32_bytes val)"

definition fixed64_bytes :: "u64 \<Rightarrow> bytes" where
  "fixed64_bytes val =
     [ucast (val AND 0xFF), ucast (drop_bit 8 val AND 0xFF),
      ucast (drop_bit 16 val AND 0xFF), ucast (drop_bit 24 val AND 0xFF),
      ucast (drop_bit 32 val AND 0xFF), ucast (drop_bit 40 val AND 0xFF),
      ucast (drop_bit 48 val AND 0xFF), ucast (drop_bit 56 val AND 0xFF)]"

definition pb_encode_fixed64 :: "u64 \<Rightarrow> 's enc" where
  "pb_encode_fixed64 val = pb_write_bytes (fixed64_bytes val)"

datatype pb_wire_type = PB_WT_VARINT | PB_WT_64BIT | PB_WT_STRING | PB_WT_32BIT

fun wire_type_num :: "pb_wire_type \<Rightarrow> u32" where
  "wire_type_num PB_WT_VARINT = 0"
| "wire_type_num PB_WT_64BIT = 1"
| "wire_type_num PB_WT_STRING = 2"
| "wire_type_num PB_WT_32BIT = 5"

definition tag_value :: "pb_wire_type \<Rightarrow> u32 \<Rightarrow> u64" where
  "tag_value wiretype field_number =
     push_bit 3 (ucast field_number) OR ucast (wire_type_num wiretype)"

definition pb_encode_tag :: "pb_wire_type \<Rightarrow> u32 \<Rightarrow> 's enc" where
  "pb_encode_tag wiretype field_number = pb_encode_varint (tag_value wiretype field_number)"

definition pb_encode_string :: "bytes option \<Rightarrow> nat \<Rightarrow> 's enc" where
  "pb_encode_string buffer len =
     os_then (pb_encode_varint (of_nat len)) (pb_write buffer len)"

subsection \<open>Outcomes\<close>

lemma os_then_simps [outcome_simps]:
  "f s = None \<Longrightarrow> os_then f g s = None"
  "f s = Some (True, s') \<Longrightarrow> os_then f g s = g s'"
  "f s = Some (False, s') \<Longrightarrow> os_then f g s = Some (False, s')"
  by (simp_all add: os_then_def)

lemma os_then_Some:
  "os_then f g s = Some (ok, s2) \<longleftrightarrow>
   (\<exists>s1. f s = Some (True, s1) \<and> g s1 = Some (ok, s2)) \<or> (\<not> ok \<and> f s = Some (False, s2))"
  by (auto simp: os_then_def split: option.splits prod.splits if_splits)

lemma os_then_return [simp]: "os_then os_return f = f"
  by (rule ext) (simp add: os_then_def os_return_def)

lemma os_then_assoc: "os_then (os_then f g) h = os_then f (os_then g h)"
  by (rule ext) (auto simp: os_then_def split: option.splits)

lemma os_fail_Some [simp]: "os_fail msg s = Some (ok, s') \<longleftrightarrow> \<not> ok \<and> s' = os_set_error msg s"
  by (auto simp: os_fail_def)

lemma os_set_error_fields [simp]:
  "os_callback (os_set_error msg s) = os_callback s"
  "os_state (os_set_error msg s) = os_state s"
  "os_max_size (os_set_error msg s) = os_max_size s"
  "os_bytes_written (os_set_error msg s) = os_bytes_written s"
  "os_errmsg (os_set_error msg s) \<noteq> None"
  by (simp_all add: os_set_error_def split: option.splits)

subsection \<open>Sizing\<close>

text \<open>An encoder that, on a stream without callback, only adds to the byte count.\<close>

definition sizing :: "'s pb_ostream \<Rightarrow> bool" where
  "sizing s \<longleftrightarrow> os_callback s = None \<and> os_bytes_written s < 2 ^ 64"

definition counts :: "'s enc \<Rightarrow> nat \<Rightarrow> bool" where
  "counts e n \<longleftrightarrow>
     (\<forall>s. sizing s \<longrightarrow>
        e s = Some (True, s\<lparr>os_bytes_written := size_add (os_bytes_written s) n\<rparr>))"

lemma sizing_stream [simp]: "sizing (pb_ostream_sizing null)"
  by (simp add: sizing_def pb_ostream_sizing_def)

lemma countsD:
  "counts e n \<Longrightarrow> sizing s \<Longrightarrow>
   e s = Some (True, s\<lparr>os_bytes_written := size_add (os_bytes_written s) n\<rparr>)"
  by (simp add: counts_def)

lemma size_add_assoc: "size_add (size_add a m) n = size_add a (m + n)"
  by (simp add: size_add_def mod_add_left_eq add.assoc)

lemma size_add_mod: "size_add a (n mod 2 ^ 64) = size_add a n"
  by (simp only: size_add_def mod_add_right_eq)

lemma counts_pb_write: "counts (pb_write buf n) n"
  by (simp add: counts_def sizing_def pb_write_def)

lemma counts_then: "counts e m \<Longrightarrow> counts f n \<Longrightarrow> counts (os_then e f) (m + n)"
  by (simp add: counts_def sizing_def os_then_def size_add_assoc)

subsection \<open>The interface of a stream callback\<close>

text \<open>
  What an encoder relies on: the callback appends the bytes it is given to what the stream
  has stored so far (\<open>content\<close>) as long as they fit into what is still free (\<open>rest\<close>), and
  changes nothing behind them.
\<close>

locale byte_sink =
  fixes sink :: "'s \<Rightarrow> bytes \<Rightarrow> bool \<times> 's"
    and content :: "'s \<Rightarrow> bytes"
    and rest :: "'s \<Rightarrow> bytes"
  assumes sink_ok: "length bs \<le> length (rest st) \<Longrightarrow>
    \<exists>st'. sink st bs = (True, st') \<and> content st' = content st @ bs \<and>
          rest st' = drop (length bs) (rest st)"
begin

text \<open>A stream that writes to the sink, with its limit inside the free space.\<close>

definition writable :: "'s pb_ostream \<Rightarrow> bool" where
  "writable s \<longleftrightarrow> os_callback s = Some sink \<and> os_errmsg s = None \<and>
     os_bytes_written s \<le> os_max_size s \<and> os_max_size s < 2 ^ 63 \<and>
     os_max_size s - os_bytes_written s \<le> length (rest (os_state s))"

text \<open>\<open>s'\<close> is \<open>s\<close> after the bytes \<open>bs\<close> have been written.\<close>

definition wrote :: "'s pb_ostream \<Rightarrow> bytes \<Rightarrow> 's pb_ostream \<Rightarrow> bool" where
  "wrote s bs s' \<longleftrightarrow>
     os_callback s' = os_callback s \<and> os_max_size s' = os_max_size s \<and>
     os_bytes_written s' = os_bytes_written s + length bs \<and>
     os_bytes_written s' \<le> os_max_size s \<and>
     content (os_state s') = content (os_state s) @ bs \<and>
     rest (os_state s') = drop (length bs) (rest (os_state s))"

text \<open>
  \<open>emits e bs\<close>: on a sizing stream the encoder counts the bytes \<open>bs\<close>; on a writable stream
  with room for them it writes exactly them and succeeds; on a writable stream without that
  room it writes a prefix of them and fails with an error message.
\<close>

definition emits :: "'s enc \<Rightarrow> bytes \<Rightarrow> bool" where
  "emits e bs \<longleftrightarrow> (length bs < 2 ^ 63 \<longrightarrow>
     counts e (length bs) \<and>
     (\<forall>s. writable s \<longrightarrow>
        (if os_bytes_written s + length bs \<le> os_max_size s
         then \<exists>s'. e s = Some (True, s') \<and> wrote s bs s' \<and> os_errmsg s' = None
         else \<exists>s' k. e s = Some (False, s') \<and> wrote s (take k bs) s' \<and> os_errmsg s' \<noteq> None)))"

text \<open>\<open>rejects e\<close>: the encoder fails on every stream, whatever the room.\<close>

definition rejects :: "'s enc \<Rightarrow> bool" where
  "rejects e \<longleftrightarrow>
     (\<forall>s. sizing s \<or> writable s \<longrightarrow> (\<exists>s'. e s = Some (False, s')))"

lemma wrote_refl: "writable s \<Longrightarrow> wrote s [] s"
  by (simp add: wrote_def writable_def)

lemma wrote_trans: "wrote s xs s1 \<Longrightarrow> wrote s1 ys s2 \<Longrightarrow> wrote s (xs @ ys) s2"
  by (simp add: wrote_def ac_simps)

lemma wrote_writable:
  "writable s \<Longrightarrow> wrote s bs s' \<Longrightarrow> os_errmsg s' = None \<Longrightarrow> writable s'"
  by (auto simp: writable_def wrote_def)

lemma wrote_room: "wrote s bs s' \<Longrightarrow> os_bytes_written s + length bs \<le> os_max_size s"
  by (simp add: wrote_def)

lemma emitsI:
  assumes "length bs < 2 ^ 63 \<Longrightarrow> counts e (length bs)"
    and "\<And>s. length bs < 2 ^ 63 \<Longrightarrow> writable s \<Longrightarrow> os_bytes_written s + length bs \<le> os_max_size s \<Longrightarrow>
      \<exists>s'. e s = Some (True, s') \<and> wrote s bs s' \<and> os_errmsg s' = None"
    and "\<And>s. length bs < 2 ^ 63 \<Longrightarrow> writable s \<Longrightarrow> \<not> os_bytes_written s + length bs \<le> os_max_size s \<Longrightarrow>
      \<exists>s' k. e s = Some (False, s') \<and> wrote s (take k bs) s' \<and> os_errmsg s' \<noteq> None"
  shows "emits e bs"
  using assms by (simp add: emits_def)

lemma emits_counts: "emits e bs \<Longrightarrow> length bs < 2 ^ 63 \<Longrightarrow> counts e (length bs)"
  by (simp add: emits_def)

lemma emits_fits:
  assumes "emits e bs" "length bs < 2 ^ 63" "writable s"
    "os_bytes_written s + length bs \<le> os_max_size s"
  obtains s' where "e s = Some (True, s')" "wrote s bs s'" "os_errmsg s' = None" "writable s'"
proof -
  from assms have "\<exists>s'. e s = Some (True, s') \<and> wrote s bs s' \<and> os_errmsg s' = None"
    unfolding emits_def by presburger
  then obtain s' where "e s = Some (True, s')" "wrote s bs s'" "os_errmsg s' = None" by blast
  with assms(3) that show ?thesis by (blast intro: wrote_writable)
qed

lemma emits_full:
  assumes "emits e bs" "length bs < 2 ^ 63" "writable s"
    "\<not> os_bytes_written s + length bs \<le> os_max_size s"
  obtains s' k where "e s = Some (False, s')" "wrote s (take k bs) s'" "os_errmsg s' \<noteq> None"
proof -
  from assms have "\<exists>s' k. e s = Some (False, s') \<and> wrote s (take k bs) s' \<and> os_errmsg s' \<noteq> None"
    unfolding emits_def by presburger
  with that show ?thesis by blast
qed

lemma emits_return: "emits os_return []"
  by (rule emitsI)
    (auto simp: os_return_def counts_def sizing_def writable_def wrote_def)


lemma emits_pb_write_bytes: "emits (pb_write_bytes bs) bs"
proof (cases "bs = []")
  case True
  have "pb_write_bytes [] s = os_return s" if "sizing s \<or> writable s" for s :: "'s pb_ostream"
    using that by (auto simp: pb_write_bytes_def pb_write_def os_return_def sizing_def writable_def)
  with emits_return True show ?thesis
    by (simp add: emits_def counts_def writable_def)
next
  case False
  show ?thesis
  proof (rule emitsI)
    show "counts (pb_write_bytes bs) (length bs)"
      by (simp add: pb_write_bytes_def counts_pb_write)
  next
    fix s :: "'s pb_ostream"
    assume s: "writable s" and fits: "os_bytes_written s + length bs \<le> os_max_size s"
    then have "length bs \<le> length (rest (os_state s))" by (auto simp: writable_def)
    then obtain st where "sink (os_state s) bs = (True, st)"
      and "content st = content (os_state s) @ bs"
      and "rest st = drop (length bs) (rest (os_state s))"
      using sink_ok by blast
    with s fits False
    show "\<exists>s'. pb_write_bytes bs s = Some (True, s') \<and> wrote s bs s' \<and> os_errmsg s' = None"
      by (auto simp: pb_write_bytes_def pb_write_def writable_def wrote_def)
  next
    fix s :: "'s pb_ostream"
    assume len: "length bs < 2 ^ 63" and s: "writable s"
      and full: "\<not> os_bytes_written s + length bs \<le> os_max_size s"
    then have "size_add (os_bytes_written s) (length bs) = os_bytes_written s + length bs"
      by (simp add: writable_def)
    with s full False have "pb_write_bytes bs s = os_fail ''stream full'' s"
      by (simp add: pb_write_bytes_def pb_write_def writable_def)
    moreover have "wrote s (take 0 bs) (os_set_error ''stream full'' s)"
      using s by (simp add: wrote_def writable_def)
    ultimately show "\<exists>s' k. pb_write_bytes bs s = Some (False, s') \<and> wrote s (take k bs) s' \<and>
        os_errmsg s' \<noteq> None"
      by (metis os_fail_def os_set_error_fields(5))
  qed
qed

lemma emits_then:
  assumes e: "emits e xs" and f: "emits f ys"
  shows "emits (os_then e f) (xs @ ys)"
proof (rule emitsI)
  assume "length (xs @ ys) < 2 ^ 63"
  with e f show "counts (os_then e f) (length (xs @ ys))"
    by (simp add: counts_then emits_counts)
next
  fix s :: "'s pb_ostream"
  assume len: "length (xs @ ys) < 2 ^ 63" and s: "writable s"
    and fits: "os_bytes_written s + length (xs @ ys) \<le> os_max_size s"
  from e len s fits obtain s1 where 1: "e s = Some (True, s1)" "wrote s xs s1" "writable s1"
    by (elim emits_fits) auto
  from f len 1 fits obtain s2 where 2: "f s1 = Some (True, s2)" "wrote s1 ys s2" "os_errmsg s2 = None"
    by (elim emits_fits [of f ys s1]) (auto simp: wrote_def)
  from 1 2 show "\<exists>s'. os_then e f s = Some (True, s') \<and> wrote s (xs @ ys) s' \<and> os_errmsg s' = None"
    by (auto simp: os_then_simps intro: wrote_trans)
next
  fix s :: "'s pb_ostream"
  assume len: "length (xs @ ys) < 2 ^ 63" and s: "writable s"
    and full: "\<not> os_bytes_written s + length (xs @ ys) \<le> os_max_size s"
  show "\<exists>s' k. os_then e f s = Some (False, s') \<and> wrote s (take k (xs @ ys)) s' \<and> os_errmsg s' \<noteq> None"
  proof (cases "os_bytes_written s + length xs \<le> os_max_size s")
    case True
    from e len s True obtain s1 where 1: "e s = Some (True, s1)" "wrote s xs s1" "writable s1"
      by (elim emits_fits) auto
    from f len 1 full obtain s2 k
      where 2: "f s1 = Some (False, s2)" "wrote s1 (take k ys) s2" "os_errmsg s2 \<noteq> None"
      by (elim emits_full [of f ys s1]) (auto simp: wrote_def)
    from 1 2 have "wrote s (xs @ take k ys) s2" by (blast intro: wrote_trans)
    moreover have "xs @ take k ys = take (length xs + k) (xs @ ys)" by simp
    ultimately show ?thesis using 1 2 by (metis os_then_simps(2))
  next
    case False
    from e len s False obtain s1 k
      where "e s = Some (False, s1)" "wrote s (take k xs) s1" "os_errmsg s1 \<noteq> None"
      by (elim emits_full) auto
    moreover have "take k xs = take (min k (length xs)) (xs @ ys)"
      by (simp add: min_def)
    ultimately show ?thesis by (metis os_then_simps(3))
  qed
qed

lemma rejects_fail: "rejects (os_fail msg)"
  by (simp add: rejects_def os_fail_def)

lemma rejects_then1: "rejects e \<Longrightarrow> rejects (os_then e f)"
  unfolding rejects_def by (meson os_then_simps(3))

end

subsection \<open>Base-128 integers\<close>

text \<open>
  The reference definition of the varint format: seven bits per byte, least significant group
  first, the high bit set on every byte but the last.
\<close>

fun leb128 :: "nat \<Rightarrow> bytes" where
  "leb128 n = (if n < 128 then [of_nat n] else of_nat (n mod 128 + 128) # leb128 (n div 128))"

declare leb128.simps [simp del]

lemma leb128_nonempty [simp]: "leb128 n \<noteq> []"
  by (subst leb128.simps) simp

lemma length_leb128_le: "n < 128 ^ k \<Longrightarrow> 0 < k \<Longrightarrow> length (leb128 n) \<le> k"
proof (induction n arbitrary: k rule: leb128.induct)
  case (1 n)
  show ?case
  proof (cases "n < 128")
    case True
    with 1 show ?thesis by (subst leb128.simps) simp
  next
    case False
    with 1 obtain j where k: "k = Suc j" "0 < j"
      by (cases k; cases "k - 1") auto
    with 1 have "n div 128 < 128 ^ j" by (simp add: div_less_iff_less_mult mult.commute)
    with 1 False k have "length (leb128 (n div 128)) \<le> j" by blast
    with False k show ?thesis by (subst leb128.simps) simp
  qed
qed

lemma or_high_bit:
  fixes w :: u64
  shows "(ucast (w AND 0x7F) OR 0x80 :: u8) = of_nat (unat w mod 128 + 128)"
proof (rule word_unat_eq_iff [THEN iffD2])
  have "(ucast (take_bit 7 w) :: u8) AND 0x80 = 0"
    by (rule bit_word_eqI) (auto simp: bit_simps bit_high_bit)
  then have "unat (ucast (take_bit 7 w) OR 0x80 :: u8) = unat (ucast (take_bit 7 w) :: u8) + 128"
    by (simp add: unat_or_disjoint)
  also have "unat (ucast (take_bit 7 w) :: u8) = unat w mod 128"
    by (simp add: width_simps)
  finally show "unat (ucast (w AND 0x7F) OR 0x80 :: u8) =
      unat (of_nat (unat w mod 128 + 128) :: u8)"
    by (simp add: width_simps del: of_nat_add)
qed


text \<open>The loop computes all groups with the high bit set; the code then clears the last one.\<close>

lemma varint_loop_nonempty: "v \<noteq> 0 \<Longrightarrow> varint_loop v \<noteq> []"
  by (subst varint_loop.simps) simp

lemma clear_high_bit: "n < 128 \<Longrightarrow> (of_nat (n + 128) :: u8) AND 0x7F = of_nat n"
  by (rule word_unat_eq_iff [THEN iffD2]) (simp add: width_simps del: of_nat_add)

lemma varint_loop_leb128:
  "v \<noteq> 0 \<Longrightarrow>
   (varint_loop v)[length (varint_loop v) - 1 :=
      (varint_loop v ! (length (varint_loop v) - 1)) AND 0x7F] = leb128 (unat v)"
proof (induction v rule: varint_loop.induct)
  case (1 v)
  let ?w = "drop_bit 7 v"
  have step: "varint_loop v = of_nat (unat v mod 128 + 128) # varint_loop ?w"
    using "1.prems" by (subst varint_loop.simps) (simp add: or_high_bit)
  have w: "unat ?w = unat v div 128" by (simp add: width_simps)
  show ?case
  proof (cases "?w = 0")
    case True
    with w have "unat v < 128" by (simp add: div_eq_0_iff)
    moreover have "varint_loop ?w = []" using True by (simp add: varint_loop.simps)
    ultimately show ?thesis
      using step by (subst leb128.simps) (simp add: clear_high_bit del: of_nat_add)
  next
    case False
    with w have "\<not> unat v < 128" by (metis div_less unat_eq_zero)
    moreover have "varint_loop ?w \<noteq> []" using False by (rule varint_loop_nonempty)
    moreover note "1.IH" [OF "1.prems" False]
    ultimately show ?thesis using step w
      by (subst leb128.simps) (cases "varint_loop ?w", auto simp: nth_Cons' list_update_code)
  qed
qed

theorem varint_bytes_leb128: "varint_bytes v = leb128 (unat v)"
proof (cases "v \<le> 0x7F")
  case True
  then have "unat v < 128" by (simp add: word_le_nat_alt)
  moreover have "(ucast v :: u8) = of_nat (unat v)" by simp
  ultimately show ?thesis using True by (subst leb128.simps) (simp add: varint_bytes_def)
next
  case False
  then have "v \<noteq> 0" by auto
  from varint_loop_leb128 [OF this] False show ?thesis
    by (simp add: varint_bytes_def Let_def)
qed

lemma length_varint_bytes: "length (varint_bytes v) \<le> 10"
proof -
  have "unat v < 2 ^ 64" by simp
  also have "(2 ^ 64 :: nat) \<le> 128 ^ 10" by simp
  finally show ?thesis by (simp only: varint_bytes_leb128) (rule length_leb128_le, simp_all)
qed

lemma length_varint_bytes_pos: "0 < length (varint_bytes v)"
  by (simp add: varint_bytes_leb128)

lemma length_fixed_bytes [simp]: "length (fixed32_bytes v) = 4" "length (fixed64_bytes w) = 8"
  by (simp_all add: fixed32_bytes_def fixed64_bytes_def)


subsection \<open>The buffer stream is such a sink\<close>

lemma length_store_bytes [simp]: "length (store_bytes dest i bs) = length dest"
  by (induction bs arbitrary: dest i) auto

lemma store_bytes_eq:
  "i + length bs \<le> length dest \<Longrightarrow>
   store_bytes dest i bs = take i dest @ bs @ drop (i + length bs) dest"
proof (induction bs arbitrary: dest i)
  case (Cons b bs)
  then have "store_bytes (dest[i := b]) (Suc i) bs =
      take (Suc i) (dest[i := b]) @ bs @ drop (Suc i + length bs) (dest[i := b])"
    by simp
  moreover have "take (Suc i) (dest[i := b]) = take i dest @ [b]"
    using Cons.prems by (simp add: take_Suc_conv_app_nth)
  ultimately show ?case by simp
qed simp

definition ob_written :: "obuf \<Rightarrow> bytes" where
  "ob_written ob = take (ob_pos ob) (ob_mem ob)"

definition ob_free :: "obuf \<Rightarrow> bytes" where
  "ob_free ob = drop (ob_pos ob) (ob_mem ob)"

lemma ob_mem_split: "ob_mem ob = ob_written ob @ ob_free ob"
  by (simp add: ob_written_def ob_free_def)

lemma buf_write_sink:
  assumes "length bs \<le> length (ob_free ob)"
  shows "\<exists>ob'. buf_write ob bs = (True, ob') \<and> ob_written ob' = ob_written ob @ bs \<and>
     ob_free ob' = drop (length bs) (ob_free ob)"
proof (cases "bs = []")
  case True
  then show ?thesis by (simp add: buf_write_def ob_written_def ob_free_def)
next
  case False
  with assms have "ob_pos ob + length bs \<le> length (ob_mem ob)"
    by (cases "ob_pos ob \<le> length (ob_mem ob)") (auto simp: ob_free_def)
  then show ?thesis
    by (simp add: buf_write_def ob_written_def ob_free_def store_bytes_eq min_absorb2 add.commute)
qed

context byte_sink
begin

lemma emits_varint: "emits (pb_encode_varint v) (varint_bytes v)"
  by (simp add: pb_encode_varint_def emits_pb_write_bytes)

lemma emits_svarint: "emits (pb_encode_svarint v) (varint_bytes (zigzag v))"
  by (simp add: pb_encode_svarint_def emits_varint)

lemma emits_fixed32: "emits (pb_encode_fixed32 w) (fixed32_bytes w)"
  by (simp add: pb_encode_fixed32_def emits_pb_write_bytes)

lemma emits_fixed64: "emits (pb_encode_fixed64 v) (fixed64_bytes v)"
  by (simp add: pb_encode_fixed64_def emits_pb_write_bytes)

lemma emits_tag: "emits (pb_encode_tag wt n) (varint_bytes (tag_value wt n))"
  by (simp add: pb_encode_tag_def emits_varint)

lemma emits_pb_write:
  assumes "n \<le> length bs"
  shows "emits (pb_write (Some bs) n) (take n bs)"
proof -
  have "pb_write (Some bs) n s = pb_write_bytes (take n bs) s" for s :: "'s pb_ostream"
    using assms
    by (cases "os_callback s") (simp_all add: pb_write_bytes_def pb_write_def min_absorb2 Let_def)
  then have "pb_write (Some bs) n = (pb_write_bytes (take n bs) :: 's enc)" by (rule ext)
  with emits_pb_write_bytes show ?thesis by simp
qed

lemma emits_string:
  "n \<le> length bs \<Longrightarrow>
   emits (pb_encode_string (Some bs) n) (varint_bytes (of_nat n) @ take n bs)"
  by (simp add: pb_encode_string_def emits_then emits_varint emits_pb_write)

lemma emits_string_null: "emits (pb_encode_string None 0) (varint_bytes 0)"
proof -
  have "pb_write None 0 s = pb_write_bytes [] s" for s :: "'s pb_ostream"
    by (simp add: pb_write_bytes_def pb_write_def)
  then have "pb_write None 0 = (pb_write_bytes [] :: 's enc)" by (rule ext)
  with emits_then [OF emits_varint emits_pb_write_bytes, of 0 "[]"] show ?thesis
    by (simp add: pb_encode_string_def)
qed

end

interpretation buf: byte_sink buf_write ob_written ob_free
  by unfold_locales (rule buf_write_sink)

lemma buffer_writable:
  "bufsize \<le> length buf \<Longrightarrow> bufsize < 2 ^ 63 \<Longrightarrow>
   buf.writable (pb_ostream_from_buffer buf bufsize)"
  by (simp add: buf.writable_def pb_ostream_from_buffer_def ob_free_def)

text \<open>What an encoder that emits \<open>bs\<close> does to a fresh buffer stream.\<close>

lemma emits_buffer:
  assumes e: "buf.emits e bs" and n: "bufsize \<le> length buf" "bufsize < 2 ^ 63"
    and fits: "length bs \<le> bufsize"
  shows "\<exists>s'. e (pb_ostream_from_buffer buf bufsize) = Some (True, s') \<and>
    os_bytes_written s' = length bs \<and>
    ob_mem (os_state s') = bs @ drop (length bs) buf"
proof -
  let ?s = "pb_ostream_from_buffer buf bufsize"
  have init: "os_bytes_written ?s = 0" "os_max_size ?s = bufsize"
    "ob_written (os_state ?s) = []" "ob_free (os_state ?s) = buf"
    by (simp_all add: pb_ostream_from_buffer_def ob_written_def ob_free_def)
  obtain s' where s': "e ?s = Some (True, s')" "buf.wrote ?s bs s'"
    using e n fits init buf.emits_fits [OF e _ buffer_writable [OF n]] by auto
  then have "ob_mem (os_state s') = bs @ drop (length bs) buf" "os_bytes_written s' = length bs"
    using init by (simp_all add: buf.wrote_def ob_mem_split)
  with s' show ?thesis by blast
qed

lemma emits_buffer_full:
  assumes e: "buf.emits e bs" and n: "bufsize \<le> length buf" "bufsize < 2 ^ 63"
    and full: "bufsize < length bs" and len: "length bs < 2 ^ 63"
  shows "\<exists>s' k. e (pb_ostream_from_buffer buf bufsize) = Some (False, s') \<and> k \<le> bufsize \<and>
    os_errmsg s' \<noteq> None \<and> ob_mem (os_state s') = take k bs @ drop k buf"
proof -
  let ?s = "pb_ostream_from_buffer buf bufsize"
  have init: "os_bytes_written ?s = 0" "os_max_size ?s = bufsize"
    "ob_written (os_state ?s) = []" "ob_free (os_state ?s) = buf"
    by (simp_all add: pb_ostream_from_buffer_def ob_written_def ob_free_def)
  obtain s' k where s': "e ?s = Some (False, s')" "buf.wrote ?s (take k bs) s'" "os_errmsg s' \<noteq> None"
    using full init buf.emits_full [OF e len buffer_writable [OF n]] by auto
  let ?j = "length (take k bs)"
  from s'(2) init have "ob_mem (os_state s') = take k bs @ drop ?j buf" "?j \<le> bufsize"
    by (simp_all add: buf.wrote_def ob_mem_split)
  moreover have "take k bs = take ?j bs" by (simp add: min_def)
  ultimately show ?thesis using s' by metis
qed

end
