(* ===== verification/Pb_Istream.thy ===== *)
theory Pb_Istream
  imports Pb_Ostream
begin

text \<open>
  The input stream of nanopb (pb_decode.c, pb_decode.h): the stream structure, reading from a
  memory buffer or through a user callback, pb_read, the primitive decoders (varint, varint32,
  svarint, fixed32, fixed64, tag), skipping of fields, and the substreams that bound a
  length-delimited field.

  A C call that takes the stream by pointer is a function to \<open>Some (result, stream after)\<close>, where
  the result is \<open>None\<close> when the C function returns false; \<open>None\<close> altogether stands for undefined
  behaviour: a read past the end of the memory the stream points into, or a state pointer of
  the wrong kind. What a failed pb_read may have left in its destination is not modelled.
\<close>

subsection \<open>The stream\<close>

text \<open>
  The state of a stream is a pointer into a buffer (represented by the bytes from that position
  to the end of the buffer) or whatever a user-supplied callback keeps.
\<close>

datatype 'u istate = IBuf bytes | IUser 'u

datatype 'u icallback = Buf_read | User_read "'u \<Rightarrow> nat \<Rightarrow> bool \<times> bytes \<times> 'u"

record 'u pb_istream =
  is_callback :: "'u icallback"
  is_state :: "'u istate"
  is_bytes_left :: nat
  is_errmsg :: "string option"

type_synonym ('u, 'a) dec = "'u pb_istream \<Rightarrow> ('a option \<times> 'u pb_istream) option"

definition is_set_error :: "string \<Rightarrow> 'u pb_istream \<Rightarrow> 'u pb_istream" where
  "is_set_error msg s =
     s\<lparr>is_errmsg := (case is_errmsg s of None \<Rightarrow> Some msg | Some m \<Rightarrow> Some m)\<rparr>"

definition is_fail :: "string \<Rightarrow> ('u, 'a) dec" where
  "is_fail msg s = Some (None, is_set_error msg s)"

definition is_return :: "'a \<Rightarrow> ('u, 'a) dec" where
  "is_return x s = Some (Some x, s)"

text \<open>\<open>is_bind f g\<close> is \<open>if (!f(stream, &x)) return false;\<close> followed by \<open>g\<close> of that \<open>x\<close>.\<close>

definition is_bind :: "('u, 'a) dec \<Rightarrow> ('a \<Rightarrow> ('u, 'b) dec) \<Rightarrow> ('u, 'b) dec" where
  "is_bind f g s =
     (case f s of
        None \<Rightarrow> None
      | Some (None, s') \<Rightarrow> Some (None, s')
      | Some (Some x, s') \<Rightarrow> g x s')"

definition pb_istream_from_buffer :: "bytes \<Rightarrow> nat \<Rightarrow> 'u pb_istream" where
  "pb_istream_from_buffer buf bufsize =
     \<lparr>is_callback = Buf_read, is_state = IBuf buf, is_bytes_left = bufsize, is_errmsg = None\<rparr>"

subsection \<open>Reading\<close>

definition buf_read :: "'u istate \<Rightarrow> nat \<Rightarrow> (bytes \<times> 'u istate) option" where
  "buf_read st count =
     (case st of
        IBuf source \<Rightarrow>
          if count \<le> length source then Some (take count source, IBuf (drop count source)) else None
      | IUser u \<Rightarrow> None)"

text \<open>
  \<open>stream->callback(stream, buf, count)\<close>. A user callback that reports success has filled the
  whole buffer; one that has not is outside of its contract.
\<close>

definition run_callback :: "'u pb_istream \<Rightarrow> nat \<Rightarrow> (bytes option \<times> 'u istate) option" where
  "run_callback s count =
     (case is_callback s of
        Buf_read \<Rightarrow>
          (case buf_read (is_state s) count of
             None \<Rightarrow> None
           | Some (bs, st) \<Rightarrow> Some (Some bs, st))
      | User_read f \<Rightarrow>
          (case is_state s of
             IBuf source \<Rightarrow> None
           | IUser u \<Rightarrow>
               (case f u count of
                  (ok, bs, u') \<Rightarrow>
                    if ok \<and> length bs \<noteq> count then None
                    else Some (if ok then Some bs else None, IUser u'))))"

definition pb_read :: "nat \<Rightarrow> ('u, bytes) dec" where
  "pb_read count s =
     (if count = 0 then Some (Some [], s)
      else if is_bytes_left s < count then is_fail ''end-of-stream'' s
      else (case run_callback s count of
              None \<Rightarrow> None
            | Some (None, st) \<Rightarrow> is_fail ''io error'' (s\<lparr>is_state := st\<rparr>)
            | Some (Some bs, st) \<Rightarrow>
                Some (Some bs, s\<lparr>is_state := st, is_bytes_left := is_bytes_left s - count\<rparr>)))"

text \<open>
  pb_read with a NULL destination: a buffer stream moves on, any other stream is read in
  pieces of 16 bytes into a scratch array.
\<close>

fun skip_chunks :: "nat \<Rightarrow> ('u, unit) dec" where
  "skip_chunks count s =
     (if 16 < count
      then is_bind (pb_read 16) (\<lambda>tmp. skip_chunks (count - 16)) s
      else is_bind (pb_read count) (\<lambda>tmp. is_return ()) s)"

declare skip_chunks.simps [simp del]

definition pb_read_null :: "nat \<Rightarrow> ('u, unit) dec" where
  "pb_read_null count s =
     (if count = 0 then Some (Some (), s)
      else (case is_callback s of
              Buf_read \<Rightarrow> is_bind (pb_read count) (\<lambda>buf. is_return ()) s
            | User_read f \<Rightarrow> skip_chunks count s))"

definition pb_readbyte :: "('u, u8) dec" where
  "pb_readbyte s =
     (if is_bytes_left s = 0 then is_fail ''end-of-stream'' s
      else (case run_callback s 1 of
              None \<Rightarrow> None
            | Some (None, st) \<Rightarrow> is_fail ''io error'' (s\<lparr>is_state := st\<rparr>)
            | Some (Some bs, st) \<Rightarrow>
                (case bs of
                   [] \<Rightarrow> None
                 | b # _ \<Rightarrow>
                     Some (Some b, s\<lparr>is_state := st, is_bytes_left := is_bytes_left s - 1\<rparr>))))"

lemma pb_readbyte_bytes_left:
  "pb_readbyte s = Some (Some b, s') \<Longrightarrow> is_bytes_left s' < is_bytes_left s"
  by (auto simp: pb_readbyte_def is_fail_def split: if_splits option.splits list.splits)

lemma pb_read_bytes_left:
  "pb_read n s = Some (Some bs, s') \<Longrightarrow> is_bytes_left s = is_bytes_left s' + n"
  by (auto simp: pb_read_def is_fail_def split: if_splits option.splits)

lemma run_callback_length: "run_callback s n = Some (Some bs, st) \<Longrightarrow> length bs = n"
  by (auto simp: run_callback_def buf_read_def split: icallback.splits istate.splits option.splits
      if_splits prod.splits)

lemma pb_read_length: "pb_read n s = Some (Some bs, s') \<Longrightarrow> length bs = n"
  by (auto simp: pb_read_def is_fail_def dest: run_callback_length split: if_splits option.splits)

subsection \<open>Varints\<close>

text \<open>
  The do-while loop of pb_decode_varint32_eof. \<open>bitpos\<close> is a uint_fast8_t, eight bits wide on
  the targets, so \<open>bitpos + 7\<close> wraps. The loop ends because every round consumes a byte; it
  returns \<open>result\<close>, \<open>bitpos\<close> and the last \<open>byte\<close>.
\<close>

function varint32_loop :: "u32 \<Rightarrow> u8 \<Rightarrow> ('u, u32 \<times> u8 \<times> u8) dec" where
  "varint32_loop result bitpos s =
     (case pb_readbyte s of
        None \<Rightarrow> None
      | Some (None, s') \<Rightarrow> Some (None, s')
      | Some (Some byte, s') \<Rightarrow>
          if 32 \<le> bitpos \<and> byte AND 0x7F \<noteq> 0 \<and>
             (drop_bit 31 result = 0 \<or> byte \<noteq> (if bitpos < 63 then 0xFF else 0x01))
          then is_fail ''varint overflow'' s'
          else (let result' = (if 32 \<le> bitpos then result
                               else result OR push_bit (unat bitpos) (ucast (byte AND 0x7F)));
                    bitpos' = bitpos + 7
                in if byte AND 0x80 \<noteq> 0 then varint32_loop result' bitpos' s'
                   else Some (Some (result', bitpos', byte), s')))"
  by pat_completeness auto
termination
  by (relation "measure (\<lambda>(result, bitpos, s). is_bytes_left s)")
    (auto dest: pb_readbyte_bytes_left)

declare varint32_loop.simps [simp del]

text \<open>
  The second component of the result is the value stored through the \<open>eof\<close> pointer (false
  when nothing is stored).
\<close>

definition pb_decode_varint32_eof ::
  "'u pb_istream \<Rightarrow> (u32 option \<times> bool \<times> 'u pb_istream) option" where
  "pb_decode_varint32_eof s =
     (case pb_readbyte s of
        None \<Rightarrow> None
      | Some (None, s') \<Rightarrow> Some (None, is_bytes_left s' = 0, s')
      | Some (Some byte, s') \<Rightarrow>
          if byte AND 0x80 = 0 then Some (Some (ucast byte), False, s')
          else (case varint32_loop (ucast (byte AND 0x7F)) 7 s' of
                  None \<Rightarrow> None
                | Some (None, s2) \<Rightarrow> Some (None, False, s2)
                | Some (Some (result, bitpos, byte), s2) \<Rightarrow>
                    if bitpos = 35 \<and> byte AND 0x70 \<noteq> 0
                    then Some (None, False, is_set_error ''varint overflow'' s2)
                    else Some (Some result, False, s2)))"

definition pb_decode_varint32 :: "('u, u32) dec" where
  "pb_decode_varint32 s =
     (case pb_decode_varint32_eof s of
        None \<Rightarrow> None
      | Some (r, eof, s') \<Rightarrow> Some (r, s'))"

function varint64_loop :: "u64 \<Rightarrow> u8 \<Rightarrow> ('u, u64) dec" where
  "varint64_loop result bitpos s =
     (if 64 \<le> bitpos then is_fail ''varint overflow'' s
      else (case pb_readbyte s of
              None \<Rightarrow> None
            | Some (None, s') \<Rightarrow> Some (None, s')
            | Some (Some byte, s') \<Rightarrow>
                (let result' = result OR push_bit (unat bitpos) (ucast (byte AND 0x7F));
                     bitpos' = bitpos + 7
                 in if byte AND 0x80 \<noteq> 0 then varint64_loop result' bitpos' s'
                    else Some (Some result', s'))))"
  by pat_completeness auto
termination
  by (relation "measure (\<lambda>(result, bitpos, s). is_bytes_left s)")
    (auto dest: pb_readbyte_bytes_left)

declare varint64_loop.simps [simp del]

definition pb_decode_varint :: "('u, u64) dec" where
  "pb_decode_varint = varint64_loop 0 0"

definition unzigzag :: "u64 \<Rightarrow> u64" where
  "unzigzag value = (if value AND 1 \<noteq> 0 then NOT (drop_bit 1 value) else drop_bit 1 value)"

definition pb_decode_svarint :: "('u, u64) dec" where
  "pb_decode_svarint = is_bind pb_decode_varint (\<lambda>value. is_return (unzigzag value))"

definition pb_decode_bool :: "('u, bool) dec" where
  "pb_decode_bool = is_bind pb_decode_varint32 (\<lambda>value. is_return (value \<noteq> 0))"

fun fixed32_value :: "bytes \<Rightarrow> u32" where
  "fixed32_value [b0, b1, b2, b3] =
     push_bit 0 (ucast b0) OR push_bit 8 (ucast b1) OR push_bit 16 (ucast b2) OR
     push_bit 24 (ucast b3)"
| "fixed32_value _ = 0"

definition pb_decode_fixed32 :: "('u, u32) dec" where
  "pb_decode_fixed32 = is_bind (pb_read 4) (\<lambda>bytes. is_return (fixed32_value bytes))"

fun fixed64_value :: "bytes \<Rightarrow> u64" where
  "fixed64_value [b0, b1, b2, b3, b4, b5, b6, b7] =
     push_bit 0 (ucast b0) OR push_bit 8 (ucast b1) OR push_bit 16 (ucast b2) OR
     push_bit 24 (ucast b3) OR push_bit 32 (ucast b4) OR push_bit 40 (ucast b5) OR
     push_bit 48 (ucast b6) OR push_bit 56 (ucast b7)"
| "fixed64_value _ = 0"

definition pb_decode_fixed64 :: "('u, u64) dec" where
  "pb_decode_fixed64 = is_bind (pb_read 8) (\<lambda>bytes. is_return (fixed64_value bytes))"

subsection \<open>Tags\<close>

text \<open>
  The results of pb_decode_tag: its return value, what it stores through \<open>wire_type\<close> and
  \<open>tag\<close>, and \<open>*eof\<close>. A wire type is the number in the low three bits of the tag, valid or not.
\<close>

record tag_result =
  tr_ok :: bool
  tr_wire_type :: u32
  tr_tag :: u32
  tr_eof :: bool

definition pb_decode_tag :: "'u pb_istream \<Rightarrow> (tag_result \<times> 'u pb_istream) option" where
  "pb_decode_tag s =
     (case pb_decode_varint32_eof s of
        None \<Rightarrow> None
      | Some (None, eof, s') \<Rightarrow>
          Some (\<lparr>tr_ok = False, tr_wire_type = 0, tr_tag = 0, tr_eof = eof\<rparr>, s')
      | Some (Some temp, eof, s') \<Rightarrow>
          if temp = 0
          then Some (\<lparr>tr_ok = False, tr_wire_type = 0, tr_tag = 0, tr_eof = True\<rparr>, s')
          else Some (\<lparr>tr_ok = True, tr_wire_type = temp AND 7, tr_tag = drop_bit 3 temp,
                      tr_eof = eof\<rparr>, s'))"

subsection \<open>Skipping\<close>

function pb_skip_varint :: "('u, unit) dec" where
  "pb_skip_varint s =
     (case pb_read 1 s of
        None \<Rightarrow> None
      | Some (None, s') \<Rightarrow> Some (None, s')
      | Some (Some bs, s') \<Rightarrow>
          (case bs of
             [] \<Rightarrow> None
           | byte # _ \<Rightarrow>
               if byte AND 0x80 \<noteq> 0 then pb_skip_varint s' else Some (Some (), s')))"
  by pat_completeness auto
termination
  by (relation "measure is_bytes_left") (auto dest!: pb_read_bytes_left)

declare pb_skip_varint.simps [simp del]

definition pb_skip_string :: "('u, unit) dec" where
  "pb_skip_string = is_bind pb_decode_varint32 (\<lambda>len. pb_read_null (unat len))"

definition pb_skip_field :: "u32 \<Rightarrow> ('u, unit) dec" where
  "pb_skip_field wire_type =
     (if wire_type = wire_type_num PB_WT_VARINT then pb_skip_varint
      else if wire_type = wire_type_num PB_WT_64BIT then pb_read_null 8
      else if wire_type = wire_type_num PB_WT_STRING then pb_skip_string
      else if wire_type = wire_type_num PB_WT_32BIT then pb_read_null 4
      else is_fail ''invalid wire_type'')"

text \<open>
  read_raw_value copies one scalar into a buffer of \<open>max_size\<close> bytes. It returns the bytes
  copied (\<open>size\<close> is their number).
\<close>

function raw_varint_loop :: "nat \<Rightarrow> bytes \<Rightarrow> ('u, bytes) dec" where
  "raw_varint_loop max_size buf s =
     (if max_size < Suc (length buf) then Some (None, s)
      else (case pb_read 1 s of
              None \<Rightarrow> None
            | Some (None, s') \<Rightarrow> Some (None, s')
            | Some (Some bs, s') \<Rightarrow>
                (case bs of
                   [] \<Rightarrow> None
                 | byte # _ \<Rightarrow>
                     if byte AND 0x80 \<noteq> 0 then raw_varint_loop max_size (buf @ [byte]) s'
                     else Some (Some (buf @ [byte]), s'))))"
  by pat_completeness auto
termination
  by (relation "measure (\<lambda>(m, b, s). is_bytes_left s)") (auto dest!: pb_read_bytes_left)

declare raw_varint_loop.simps [simp del]

definition read_raw_value :: "u32 \<Rightarrow> nat \<Rightarrow> ('u, bytes) dec" where
  "read_raw_value wire_type max_size =
     (if wire_type = wire_type_num PB_WT_VARINT then raw_varint_loop max_size []
      else if wire_type = wire_type_num PB_WT_64BIT then pb_read 8
      else if wire_type = wire_type_num PB_WT_32BIT then pb_read 4
      else is_fail ''invalid wire_type'')"

subsection \<open>Substreams\<close>

text \<open>
  pb_make_string_substream reads the length and returns the substream; the parent keeps its
  state pointer and gives up the bytes of the substream.
\<close>

definition pb_make_string_substream :: "('u, 'u pb_istream) dec" where
  "pb_make_string_substream =
     is_bind pb_decode_varint32 (\<lambda>len s.
       (if is_bytes_left s < unat len then is_fail ''parent stream too short'' s
        else Some (Some (s\<lparr>is_bytes_left := unat len\<rparr>),
                   s\<lparr>is_bytes_left := is_bytes_left s - unat len\<rparr>)))"

definition pb_close_string_substream :: "'u pb_istream \<Rightarrow> ('u, unit) dec" where
  "pb_close_string_substream substream s =
     (case (if is_bytes_left substream \<noteq> 0
            then pb_read_null (is_bytes_left substream) substream
            else Some (Some (), substream)) of
        None \<Rightarrow> None
      | Some (None, sub') \<Rightarrow> Some (None, s)
      | Some (Some u, sub') \<Rightarrow>
          Some (Some (), s\<lparr>is_state := is_state sub', is_errmsg := is_errmsg sub'\<rparr>))"

subsection \<open>Outcomes\<close>

lemma is_bind_simps [outcome_simps]:
  "f s = None \<Longrightarrow> is_bind f g s = None"
  "f s = Some (None, s') \<Longrightarrow> is_bind f g s = Some (None, s')"
  "f s = Some (Some x, s') \<Longrightarrow> is_bind f g s = g x s'"
  by (simp_all add: is_bind_def)

lemma is_return_simp [simp]: "is_return x s = Some (Some x, s)"
  by (simp add: is_return_def)

subsection \<open>Buffer streams\<close>

text \<open>
  A stream over a memory buffer that holds at least as many bytes as the stream may read;
  \<open>unread s\<close> are those bytes, \<open>advance n s\<close> the stream after \<open>n\<close> of them.
\<close>

definition buffered :: "'u pb_istream \<Rightarrow> bool" where
  "buffered s \<longleftrightarrow> is_callback s = Buf_read \<and>
     (case is_state s of IBuf source \<Rightarrow> is_bytes_left s \<le> length source | IUser u \<Rightarrow> False)"

definition unread :: "'u pb_istream \<Rightarrow> bytes" where
  "unread s = (case is_state s of IBuf source \<Rightarrow> take (is_bytes_left s) source | IUser u \<Rightarrow> [])"

definition advance :: "nat \<Rightarrow> 'u pb_istream \<Rightarrow> 'u pb_istream" where
  "advance n s =
     (case is_state s of
        IBuf source \<Rightarrow>
          s\<lparr>is_state := IBuf (drop n source), is_bytes_left := is_bytes_left s - n\<rparr>
      | IUser u \<Rightarrow> s)"

lemma length_unread: "buffered s \<Longrightarrow> length (unread s) = is_bytes_left s"
  by (auto simp: buffered_def unread_def split: istate.splits)

lemma buffered_advance [simp]: "buffered s \<Longrightarrow> n \<le> is_bytes_left s \<Longrightarrow> buffered (advance n s)"
  by (auto simp: buffered_def advance_def split: istate.splits)

lemma unread_advance [simp]: "buffered s \<Longrightarrow> unread (advance n s) = drop n (unread s)"
  by (auto simp: buffered_def unread_def advance_def take_drop drop_take split: istate.splits)

lemma advance_advance [simp]: "advance m (advance n s) = advance (n + m) s"
  by (auto simp: advance_def add.commute split: istate.splits)

lemma advance_fields [simp]:
  "is_callback (advance n s) = is_callback s" "is_errmsg (advance n s) = is_errmsg s"
  by (simp_all add: advance_def split: istate.splits)

lemma bytes_left_advance [simp]:
  "buffered s \<Longrightarrow> is_bytes_left (advance n s) = is_bytes_left s - n"
  by (auto simp: buffered_def advance_def split: istate.splits)

lemma advance_0 [simp]: "advance 0 s = s"
  by (simp add: advance_def split: istate.splits)

lemma buffered_from_buffer [simp]: "n \<le> length buf \<Longrightarrow> buffered (pb_istream_from_buffer buf n)"
  by (simp add: buffered_def pb_istream_from_buffer_def)

lemma unread_from_buffer [simp]: "unread (pb_istream_from_buffer buf n) = take n buf"
  by (simp add: unread_def pb_istream_from_buffer_def)

lemma pb_read_buffered:
  assumes "buffered s"
  shows "pb_read n s =
    (if n \<le> is_bytes_left s then Some (Some (take n (unread s)), advance n s)
     else is_fail ''end-of-stream'' s)"
  using assms
  by (auto simp: pb_read_def run_callback_def buf_read_def buffered_def unread_def advance_def
      split: istate.splits)

lemma pb_read_null_buffered:
  assumes "buffered s"
  shows "pb_read_null n s =
    (if n \<le> is_bytes_left s then Some (Some (), advance n s)
     else is_fail ''end-of-stream'' s)"
proof -
  have "is_callback s = Buf_read" using assms by (simp add: buffered_def)
  then show ?thesis
    using pb_read_buffered [OF assms, of n]
    by (auto simp: pb_read_null_def is_bind_def is_fail_def)
qed

lemma pb_readbyte_buffered:
  assumes "buffered s"
  shows "pb_readbyte s =
    (case unread s of
       [] \<Rightarrow> is_fail ''end-of-stream'' s
     | b # bs \<Rightarrow> Some (Some b, advance 1 s))"
proof (cases "is_state s")
  case (IBuf source)
  with assms show ?thesis
    by (cases source; cases "is_bytes_left s")
      (auto simp: pb_readbyte_def run_callback_def buf_read_def buffered_def unread_def advance_def)
next
  case (IUser u)
  with assms show ?thesis by (simp add: buffered_def)
qed

text \<open>Reading from a buffer stream is an instance of the shared reader interface.\<close>

definition pb_fetch :: "nat \<Rightarrow> 'u pb_istream \<Rightarrow> (bytes \<times> 'u pb_istream) option" where
  "pb_fetch n s =
     (case pb_read n s of
        Some (Some bs, s') \<Rightarrow> Some (bs, s')
      | _ \<Rightarrow> None)"

interpretation pb_source: byte_source pb_fetch unread buffered
  by unfold_locales
    (auto simp: pb_fetch_def pb_read_buffered length_unread is_fail_def)

end
