(* ===== verification/Pb_Wire.thy ===== *)
theory Pb_Wire
  imports Pb_Istream
begin

text \<open>
  The wire primitives of nanopb, encoder against decoder: what pb_decode_varint and
  pb_decode_varint32 return on every input of a buffer stream, that every primitive decoder
  undoes its encoder, that skipping a field steps over exactly its encoding, and that closing
  a substream leaves the parent behind the length-delimited field.
\<close>

subsection \<open>Reference parser for base-128 integers\<close>

text \<open>\<open>leb_split\<close> cuts the input after its first byte without the high bit.\<close>

fun leb_split :: "bytes \<Rightarrow> (bytes \<times> bytes) option" where
  "leb_split [] = None"
| "leb_split (b # bs) =
     (if b AND 0x80 = 0 then Some ([b], bs)
      else (case leb_split bs of None \<Rightarrow> None | Some (g, r) \<Rightarrow> Some (b # g, r)))"

fun leb_value :: "bytes \<Rightarrow> nat" where
  "leb_value [] = 0"
| "leb_value (b # bs) = unat b mod 128 + 128 * leb_value bs"

lemma leb_split_append: "leb_split bs = Some (g, r) \<Longrightarrow> bs = g @ r \<and> g \<noteq> []"
  by (induction bs arbitrary: g r) (auto split: if_splits option.splits)

lemma leb_split_leb128: "leb_split (leb128 n @ rest) = Some (leb128 n, rest)"
proof (induction n rule: leb128.induct)
  case (1 n)
  show ?case
  proof (cases "n < 128")
    case True
    then show ?thesis by (simp add: leb128.simps [of n] and_high_bit_u8)
  next
    case False
    have "n mod 128 + 128 < 256" by (metis add.commute add_less_cancel_left mod_less_divisor
          numeral_Bit0 zero_less_numeral)
    with False 1 show ?thesis
      by (simp add: leb128.simps [of n] and_high_bit_u8 del: of_nat_add)
  qed
qed

lemma leb_value_leb128 [simp]: "leb_value (leb128 n) = n"
proof (induction n rule: leb128.induct)
  case (1 n)
  show ?case
  proof (cases "n < 128")
    case True
    then show ?thesis by (simp add: leb128.simps [of n])
  next
    case False
    have "(n mod 128 + 128) mod 256 mod 128 = n mod 128"
      by (simp add: mod_mod_cancel)
    with False 1 show ?thesis
      by (simp add: leb128.simps [of n] del: of_nat_add)
  qed
qed

lemma leb_value_lt: "leb_value bs < 128 ^ length bs"
proof (induction bs)
  case (Cons b bs)
  have "unat b mod 128 + 128 * leb_value bs < 128 * (leb_value bs + 1)" by simp
  also have "\<dots> \<le> 128 * 128 ^ length bs" using Cons by simp
  finally show ?case by simp
qed simp

subsection \<open>pb_decode_varint on every input\<close>

lemma of_nat_leb_step:
  assumes "x < 128"
  shows "(of_nat (x + 128 * y) :: 'a::len word) = of_nat x OR push_bit 7 (of_nat y)"
proof -
  have "x < 2 ^ 7" using assms by simp
  from of_nat_or_push_bit [OF this, of y] show ?thesis by (simp del: of_nat_add of_nat_mult)
qed

lemma join_leb_step:
  "push_bit m (of_nat (x mod 128) :: 'a::len word) OR push_bit (m + 7) (of_nat (x div 128)) =
   push_bit m (of_nat x)"
proof -
  have "(of_nat x :: 'a word) = of_nat (x mod 128 + 128 * (x div 128))" by simp
  also have "\<dots> = of_nat (x mod 128) OR push_bit 7 (of_nat (x div 128))"
    by (rule of_nat_leb_step) simp
  finally show ?thesis by (simp add: push_bit_or push_bit_push_bit add.commute)
qed

lemma varint64_loop_eq:
  assumes "buffered s" "k \<le> 10"
  shows "varint64_loop result (of_nat (7 * k)) s =
    (case leb_split (take (10 - k) (unread s)) of
       Some (g, _) \<Rightarrow>
         Some (Some (result OR push_bit (7 * k) (of_nat (leb_value g))), advance (length g) s)
     | None \<Rightarrow>
         if 10 - k \<le> is_bytes_left s then is_fail ''varint overflow'' (advance (10 - k) s)
         else is_fail ''end-of-stream'' (advance (is_bytes_left s) s))"
  using assms
proof (induction "10 - k" arbitrary: k result s)
  case 0
  then show ?case by (subst varint64_loop.simps) simp
next
  case (Suc j)
  then have k: "k < 10" "10 - k = Suc (10 - Suc k)" by auto
  have pos: "unat (of_nat (7 * k) :: u8) = 7 * k"
    using k by (simp del: of_nat_mult)
  then have lt: "\<not> 64 \<le> (of_nat (7 * k) :: u8)"
    using k by (simp add: word_le_nat_alt del: of_nat_mult)
  have next_pos: "(of_nat (7 * k) + 7 :: u8) = of_nat (7 * Suc k)" by simp
  show ?case
  proof (cases "unread s")
    case Nil
    with Suc.prems have "is_bytes_left s = 0" using length_unread [of s] by simp
    with Nil Suc.prems lt k show ?thesis
      by (subst varint64_loop.simps) (simp add: pb_readbyte_buffered is_fail_def)
  next
    case (Cons b bs)
    with Suc.prems have left: "is_bytes_left s = Suc (length bs)"
      using length_unread [of s] by simp
    have byte: "(ucast (b AND 0x7F) :: u64) = of_nat (unat b mod 128)" by (rule ucast_low7)
    let ?r = "result OR push_bit (7 * k) (of_nat (unat b mod 128))"
    have step: "varint64_loop result (of_nat (7 * k)) s =
        (if b AND 0x80 \<noteq> 0 then varint64_loop ?r (of_nat (7 * Suc k)) (advance 1 s)
         else Some (Some ?r, advance 1 s))"
      using lt pos next_pos Cons Suc.prems byte
      by (subst varint64_loop.simps) (simp add: pb_readbyte_buffered add.commute)
    show ?thesis
    proof (cases "b AND 0x80 = 0")
      case True
      then show ?thesis using step Cons k by simp
    next
      case False
      have "buffered (advance 1 s)" using Suc.prems left by simp
      moreover have "j = 10 - Suc k" "Suc k \<le> 10" using Suc.hyps k by auto
      ultimately have IH: "varint64_loop ?r (of_nat (7 * Suc k)) (advance 1 s) =
        (case leb_split (take (10 - Suc k) (unread (advance 1 s))) of
           Some (g, _) \<Rightarrow>
             Some (Some (?r OR push_bit (7 * Suc k) (of_nat (leb_value g))),
                   advance (length g) (advance 1 s))
         | None \<Rightarrow>
             if 10 - Suc k \<le> is_bytes_left (advance 1 s)
             then is_fail ''varint overflow'' (advance (10 - Suc k) (advance 1 s))
             else is_fail ''end-of-stream'' (advance (is_bytes_left (advance 1 s)) (advance 1 s)))"
        by (intro Suc.hyps(1))
      have join: "?r OR push_bit (7 * Suc k) (of_nat n) =
          result OR push_bit (7 * k) (of_nat (unat b mod 128 + 128 * n))" for n
      proof -
        have "push_bit (7 * Suc k) (of_nat n :: u64) = push_bit (7 * k) (push_bit 7 (of_nat n))"
          by (simp add: push_bit_push_bit add.commute)
        then show ?thesis
          by (simp add: of_nat_leb_step push_bit_or or.assoc del: of_nat_add of_nat_mult)
      qed
      show ?thesis
      proof (cases "leb_split (take (10 - Suc k) bs)")
        case None
        then show ?thesis
          using step False IH Cons Suc.prems left k by simp
      next
        case (Some p)
        then obtain g r where "leb_split (take (10 - Suc k) bs) = Some (g, r)" by (cases p) auto
        then show ?thesis
          using step False IH Cons Suc.prems left k join [of "leb_value g"]
          by (simp del: of_nat_add of_nat_mult)
      qed
    qed
  qed
qed

lemma pb_decode_varint_eq:
  assumes "buffered s"
  shows "pb_decode_varint s =
    (case leb_split (take 10 (unread s)) of
       Some (g, _) \<Rightarrow> Some (Some (of_nat (leb_value g)), advance (length g) s)
     | None \<Rightarrow>
         if 10 \<le> is_bytes_left s then is_fail ''varint overflow'' (advance 10 s)
         else is_fail ''end-of-stream'' (advance (is_bytes_left s) s))"
  using varint64_loop_eq [OF assms, of 0 0]
  by (simp add: pb_decode_varint_def split: option.splits)

lemma leb_split_take:
  "leb_split bs = Some (g, r) \<Longrightarrow> length g \<le> n \<Longrightarrow> leb_split (take n bs) = Some (g, take (n - length g) r)"
proof (induction bs arbitrary: g r n)
  case (Cons b bs)
  then show ?case by (cases n) (auto split: if_splits option.splits)
qed simp

lemma pb_decode_varint_encoded:
  assumes "buffered s" "unread s = varint_bytes v @ rest"
  shows "pb_decode_varint s = Some (Some v, advance (length (varint_bytes v)) s)"
proof -
  have "leb_split (unread s) = Some (varint_bytes v, rest)"
    by (simp add: assms varint_bytes_leb128 leb_split_leb128)
  then have "leb_split (take 10 (unread s)) =
      Some (varint_bytes v, take (10 - length (varint_bytes v)) rest)"
    by (rule leb_split_take) (rule length_varint_bytes)
  then show ?thesis
    using assms by (simp add: pb_decode_varint_eq) (simp add: varint_bytes_leb128)
qed

subsection \<open>pb_decode_varint32 on encoded values\<close>

lemma varint32_loop_byte:
  assumes "buffered s" "unread s = b # bs"
  shows "varint32_loop result bitpos s =
    (if 32 \<le> bitpos \<and> b AND 0x7F \<noteq> 0 \<and>
        (drop_bit 31 result = 0 \<or> b \<noteq> (if bitpos < 63 then 0xFF else 0x01))
     then is_fail ''varint overflow'' (advance 1 s)
     else (let result' = (if 32 \<le> bitpos then result
                          else result OR push_bit (unat bitpos) (of_nat (unat b mod 128)))
           in if b AND 0x80 \<noteq> 0 then varint32_loop result' (bitpos + 7) (advance 1 s)
              else Some (Some (result', bitpos + 7, b), advance 1 s)))"
  using assms by (subst varint32_loop.simps) (auto simp: pb_readbyte_buffered ucast_low7 Let_def)

lemma leb_byte_more: "(of_nat (n mod 128 + 128) :: u8) AND 0x80 \<noteq> 0"
  by (simp add: and_high_bit_u8 leb_byte_unat del: of_nat_add)

text \<open>The bit position after \<open>j\<close> bytes.\<close>

lemma leb_bitpos:
  assumes "j \<le> 10"
  shows "unat (of_nat (7 * j) :: u8) = 7 * j" "(of_nat (7 * j) + 7 :: u8) = of_nat (7 * Suc j)"
    "32 \<le> (of_nat (7 * j) :: u8) \<longleftrightarrow> 5 \<le> j" "(of_nat (7 * j) :: u8) < 63 \<longleftrightarrow> j < 9"
    "(of_nat (7 * j) :: u8) = 35 \<longleftrightarrow> j = 5"
proof -
  show pos: "unat (of_nat (7 * j) :: u8) = 7 * j" using assms by (simp del: of_nat_mult)
  show "(of_nat (7 * j) + 7 :: u8) = of_nat (7 * Suc j)" by simp
  have "32 \<le> (of_nat (7 * j) :: u8) \<longleftrightarrow> 32 \<le> 7 * j"
    unfolding word_le_nat_alt pos by simp
  then show "32 \<le> (of_nat (7 * j) :: u8) \<longleftrightarrow> 5 \<le> j" by arith
  have "(of_nat (7 * j) :: u8) < 63 \<longleftrightarrow> 7 * j < 63"
    unfolding word_less_nat_alt pos by simp
  then show "(of_nat (7 * j) :: u8) < 63 \<longleftrightarrow> j < 9" by arith
  have "(of_nat (7 * j) :: u8) = 35 \<longleftrightarrow> 7 * j = 35"
    unfolding word_unat_eq_iff pos by simp
  then show "(of_nat (7 * j) :: u8) = 35 \<longleftrightarrow> j = 5" by arith
qed

lemma varint32_loop_more:
  assumes "buffered s" "unread s = leb128 n @ rest" "128 \<le> n" "j \<le> 4"
  shows "varint32_loop result (of_nat (7 * j)) s =
    varint32_loop (result OR push_bit (7 * j) (of_nat (n mod 128))) (of_nat (7 * Suc j)) (advance 1 s)"
    "unread (advance 1 s) = leb128 (n div 128) @ rest" "buffered (advance 1 s)"
proof -
  have u: "unread s = of_nat (n mod 128 + 128) # leb128 (n div 128) @ rest"
    using assms by (simp add: leb128.simps [of n])
  then show "unread (advance 1 s) = leb128 (n div 128) @ rest"
    using assms(1) by (simp del: of_nat_add)
  have "0 < is_bytes_left s" using u length_unread [OF assms(1)] by (cases "is_bytes_left s") auto
  then show "buffered (advance 1 s)" using assms(1) by simp
  have "unat (of_nat (n mod 128 + 128) :: u8) mod 128 = n mod 128"
    by (simp only: leb_byte_unat) simp
  then show "varint32_loop result (of_nat (7 * j)) s =
    varint32_loop (result OR push_bit (7 * j) (of_nat (n mod 128))) (of_nat (7 * Suc j)) (advance 1 s)"
    using assms leb_bitpos [of j] leb_byte_more [of n]
    by (simp add: varint32_loop_byte [OF assms(1) u] del: of_nat_mult of_nat_add)
qed

lemma unat_ge_low_nibble: "(b :: u8) AND 0x70 \<noteq> 0 \<longleftrightarrow> 16 \<le> unat b mod 128"
proof -
  have m: "(0x70 :: u8) = push_bit 4 (mask 3)" by (simp add: mask_eq_exp_minus_1)
  have "b AND 0x70 = 0 \<longleftrightarrow> drop_bit 4 (take_bit 7 b) = 0"
  proof
    assume *: "b AND 0x70 = 0"
    show "drop_bit 4 (take_bit 7 b) = 0"
    proof (rule bit_word_eqI)
      fix n
      have "\<not> bit (b AND 0x70) (4 + n)" by (simp only: *) simp
      then show "bit (drop_bit 4 (take_bit 7 b)) n = bit 0 n"
        unfolding m by (auto simp: bit_simps)
    qed
  next
    assume *: "drop_bit 4 (take_bit 7 b) = 0"
    show "b AND 0x70 = 0"
    proof (rule bit_word_eqI)
      fix n
      have "\<not> bit (drop_bit 4 (take_bit 7 b)) (n - 4)" by (simp only: *) simp
      then show "bit (b AND 0x70) n = bit 0 n"
        unfolding m by (auto simp: bit_simps)
    qed
  qed
  also have "\<dots> \<longleftrightarrow> unat (drop_bit 4 (take_bit 7 b)) = 0" by (simp only: unat_eq_zero)
  also have "\<dots> \<longleftrightarrow> unat b mod 128 < 16" by (simp add: width_simps div_eq_0_iff)
  finally show ?thesis by auto
qed

lemma varint32_loop_fits:
  assumes "buffered s" "unread s = leb128 n @ rest" "1 \<le> j" "j \<le> 4" "n < 2 ^ (32 - 7 * j)"
  shows "\<exists>p b. varint32_loop result (of_nat (7 * j)) s =
      Some (Some (result OR push_bit (7 * j) (of_nat n), p, b), advance (length (leb128 n)) s) \<and>
      (p = 35 \<longrightarrow> b AND 0x70 = 0)"
  using assms
proof (induction n arbitrary: j s result rule: leb128.induct)
  case (1 n)
  show ?case
  proof (cases "n < 128")
    case True
    with "1.prems" have u: "unread s = of_nat n # rest" by (simp add: leb128.simps [of n])
    have "(of_nat n :: u8) AND 0x80 = 0" "unat (of_nat n :: u8) mod 128 = n"
      using True by (simp_all add: and_high_bit_u8)
    moreover have "j = 4 \<Longrightarrow> (of_nat n :: u8) AND 0x70 = 0"
      using "1.prems" unat_ge_low_nibble [of "of_nat n"] by simp
    ultimately show ?thesis
      using True "1.prems" leb_bitpos [of j] leb_bitpos(5) [of "Suc j"]
      by (auto simp add: varint32_loop_byte [OF "1.prems"(1) u] leb128.simps [of n]
          simp del: of_nat_mult mult_Suc_right)
  next
    case False
    have "j \<noteq> 4" using "1.prems" False by auto
    then have j: "1 \<le> Suc j" "Suc j \<le> 4" using "1.prems" by auto
    have "n < 128 * 2 ^ (32 - 7 * Suc j)"
    proof -
      have "32 - 7 * j = 7 + (32 - 7 * Suc j)" using j by simp
      then show ?thesis using "1.prems"(5) by (simp only: power_add) simp
    qed
    then have n: "n div 128 < 2 ^ (32 - 7 * Suc j)" by (simp add: div_less_iff_less_mult mult.commute)
    have f: "128 \<le> n" "j \<le> 4" using False "1.prems" by auto
    note more = varint32_loop_more [OF "1.prems"(1,2) f]
    note IH = "1.IH" [OF False more(3,2) j n, of "result OR push_bit (7 * j) (of_nat (n mod 128))"]
    have "length (leb128 n) = Suc (length (leb128 (n div 128)))"
      using False by (simp add: leb128.simps [of n])
    moreover have "push_bit (7 * j) (of_nat (n mod 128)) OR push_bit (7 * Suc j) (of_nat (n div 128)) =
        (push_bit (7 * j) (of_nat n) :: u32)"
      using join_leb_step [of "7 * j" n] by (simp add: add.commute)
    ultimately show ?thesis
      using IH more(1) [of result] by (simp add: or.assoc del: of_nat_mult mult_Suc_right)
  qed
qed

lemma varint32_loop_late:
  assumes "buffered s" "unread s = b # bs" "5 \<le> j" "j \<le> 10"
  shows "varint32_loop result (of_nat (7 * j)) s =
    (if b AND 0x7F \<noteq> 0 \<and> (drop_bit 31 result = 0 \<or> b \<noteq> (if j < 9 then 0xFF else 0x01))
     then is_fail ''varint overflow'' (advance 1 s)
     else if b AND 0x80 \<noteq> 0 then varint32_loop result (of_nat (7 * Suc j)) (advance 1 s)
     else Some (Some (result, of_nat (7 * Suc j), b), advance 1 s))"
  using leb_bitpos [of j] assms(3,4)
  by (simp add: varint32_loop_byte [OF assms(1,2)] del: of_nat_mult mult_Suc_right)

lemma low7_zero_iff: "(b :: u8) AND 0x7F = 0 \<longleftrightarrow> unat b mod 128 = 0"
proof -
  have "b AND 0x7F = 0 \<longleftrightarrow> unat (b AND 0x7F) = 0" by (simp only: unat_eq_zero)
  then show ?thesis by (simp only: width_simps) simp
qed

text \<open>Bits beyond the 32nd that are no sign extension are an error.\<close>

lemma varint32_loop_overflow:
  assumes "buffered s" "unread s = leb128 n @ rest" "1 \<le> j" "j \<le> 8"
    "if j \<le> 4 then 2 ^ (32 - 7 * j) \<le> n else 0 < n" "n < 2 ^ (63 - 7 * j)"
  shows "\<exists>s'. varint32_loop result (of_nat (7 * j)) s = is_fail ''varint overflow'' s' \<or>
    (\<exists>r b. varint32_loop result (of_nat (7 * j)) s = Some (Some (r, 35, b), s') \<and> b AND 0x70 \<noteq> 0)"
  using assms
proof (induction n arbitrary: j s result rule: leb128.induct)
  case (1 n)
  show ?case
  proof (cases "n < 128")
    case True
    with "1.prems" have u: "unread s = of_nat n # rest" by (simp add: leb128.simps [of n])
    have b: "(of_nat n :: u8) AND 0x80 = 0" "unat (of_nat n :: u8) = n"
      using True by (simp_all add: and_high_bit_u8)
    have "j \<le> 3 \<Longrightarrow> (2::nat) ^ (32 - 7 * 3) \<le> 2 ^ (32 - 7 * j)"
      by (rule power_increasing) auto
    then have "4 \<le> j" using "1.prems"(5) True by (cases "j \<le> 3") (auto split: if_splits)
    then consider "j = 4" | "5 \<le> j" by fastforce
    then show ?thesis
    proof cases
      case 1
      then have "(of_nat n :: u8) AND 0x70 \<noteq> 0"
        using "1.prems"(5) True b unat_ge_low_nibble [of "of_nat n"] by simp
      with 1 b show ?thesis
        by (auto simp: varint32_loop_byte [OF "1.prems"(1) u])
    next
      case 2
      then have "(of_nat n :: u8) AND 0x7F \<noteq> 0" using "1.prems"(5) True b
        by (simp add: low7_zero_iff)
      moreover have "(of_nat n :: u8) \<noteq> 0xFF" using b True by (auto simp: word_unat_eq_iff)
      moreover have "j < 9" using "1.prems" by simp
      ultimately show ?thesis
        using varint32_loop_late [OF "1.prems"(1) u 2, of result] by auto
    qed
  next
    case False
    then have f: "128 \<le> n" by simp
    have "j \<le> 7"
    proof (rule ccontr)
      assume "\<not> j \<le> 7"
      with "1.prems" have "j = 8" by simp
      with "1.prems"(6) f show False by simp
    qed
    then have "63 - 7 * j = 7 + (63 - 7 * Suc j)" by simp
    then have "n < 128 * 2 ^ (63 - 7 * Suc j)" using "1.prems"(6) by (simp only: power_add) simp
    then have hi: "n div 128 < 2 ^ (63 - 7 * Suc j)"
      by (simp add: div_less_iff_less_mult mult.commute)
    have lo: "if Suc j \<le> 4 then 2 ^ (32 - 7 * Suc j) \<le> n div 128 else 0 < n div 128"
    proof (cases "Suc j \<le> 4")
      case True
      then have "32 - 7 * j = 7 + (32 - 7 * Suc j)" by simp
      then have "128 * 2 ^ (32 - 7 * Suc j) \<le> n"
        using "1.prems"(5) True by (simp only: power_add) simp
      then show ?thesis using True by (simp add: less_eq_div_iff_mult_less_eq mult.commute)
    next
      case False
      then show ?thesis using f by (simp add: div_greater_zero_iff)
    qed
    have j: "1 \<le> Suc j" "Suc j \<le> 8" using \<open>j \<le> 7\<close> by auto
    show ?thesis
    proof (cases "j \<le> 4")
      case True
      note more = varint32_loop_more [OF "1.prems"(1,2) f True]
      show ?thesis
        using "1.IH" [OF False more(3,2) j lo hi] more(1) [of result] by metis
    next
      case j4: False
      then have j5: "5 \<le> j" by simp
      have u: "unread s = of_nat (n mod 128 + 128) # leb128 (n div 128) @ rest"
        using False "1.prems"(2) by (simp add: leb128.simps [of n])
      have "0 < is_bytes_left s" using u length_unread [OF "1.prems"(1)]
        by (cases "is_bytes_left s") auto
      then have s': "buffered (advance 1 s)" "unread (advance 1 s) = leb128 (n div 128) @ rest"
        using "1.prems"(1) u by (simp_all del: of_nat_add)
      have "varint32_loop result (of_nat (7 * j)) s = is_fail ''varint overflow'' (advance 1 s) \<or>
          varint32_loop result (of_nat (7 * j)) s =
          varint32_loop result (of_nat (7 * Suc j)) (advance 1 s)"
        using varint32_loop_late [OF "1.prems"(1) u j5, of result] \<open>j \<le> 7\<close> leb_byte_more [of n]
        by (simp del: of_nat_add of_nat_mult mult_Suc_right)
      with "1.IH" [OF False s' j lo hi, of result] show ?thesis by (elim disjE) auto
    qed
  qed
qed

text \<open>
  A sign-extended negative number: ten bytes, of which the last five must repeat the sign.
\<close>

lemma varint32_loop_sign_tail:
  assumes "buffered s" "unread s = leb128 (2 ^ (64 - 7 * j) - 1) @ rest" "5 \<le> j" "j \<le> 9"
    "drop_bit 31 result \<noteq> 0"
  shows "\<exists>b. varint32_loop result (of_nat (7 * j)) s = Some (Some (result, 70, b), advance (10 - j) s)"
  using assms
proof (induction "9 - j" arbitrary: j s)
  case 0
  then have j: "j = 9" by simp
  with 0 have u: "unread s = 1 # rest" by (simp add: leb128.simps [of "Suc 0"])
  show ?case
    using varint32_loop_late [OF 0(2) u 0(4), of result] j 0 by simp
next
  case (Suc d)
  then have j: "j \<le> 8" "d = 9 - Suc j" "5 \<le> Suc j" "Suc j \<le> 9" by auto
  have e: "64 - 7 * j = 7 + (64 - 7 * Suc j)" using j by simp
  define m :: nat where "m = 2 ^ (64 - 7 * Suc j) - 1"
  have "1 \<le> (2::nat) ^ (64 - 7 * Suc j)" by simp
  then have n: "2 ^ (64 - 7 * j) - 1 = 127 + 128 * m"
    unfolding e m_def power_add by (simp add: algebra_simps)
  have "1 \<le> m"
  proof -
    have "(2::nat) ^ 1 \<le> 2 ^ (64 - 7 * Suc j)" using j by (intro power_increasing) auto
    then show ?thesis by (simp add: m_def)
  qed
  then have u: "unread s = 0xFF # leb128 m @ rest"
    using Suc.prems(2) unfolding n by (subst (asm) leb128.simps) simp
  have "0 < is_bytes_left s" using u length_unread [OF Suc.prems(1)]
    by (cases "is_bytes_left s") auto
  then have s': "buffered (advance 1 s)" "unread (advance 1 s) = leb128 (2 ^ (64 - 7 * Suc j) - 1) @ rest"
    using Suc.prems(1) u by (simp_all add: m_def)
  note IH = Suc.hyps(1) [OF j(2) s' j(3,4) Suc.prems(5)]
  moreover have "1 + (10 - Suc j) = 10 - j" using j by simp
  ultimately show ?case
    using varint32_loop_late [OF Suc.prems(1) u Suc.prems(3), of result] j Suc.prems(5)
    by simp
qed

lemma varint32_loop_sign:
  assumes "buffered s" "unread s = leb128 n @ rest" "1 \<le> j" "j \<le> 4"
    "2 ^ (64 - 7 * j) - 2 ^ (31 - 7 * j) \<le> n" "n < 2 ^ (64 - 7 * j)"
    "drop_bit 31 (result OR push_bit (7 * j) (of_nat n)) \<noteq> (0 :: u32)"
  shows "\<exists>b. varint32_loop result (of_nat (7 * j)) s =
    Some (Some (result OR push_bit (7 * j) (of_nat n), 70, b), advance (10 - j) s)"
  using assms
proof (induction "4 - j" arbitrary: j s n result)
  case 0
  then have j: "j = 4" by simp
  have n: "128 \<le> n" "n div 128 = 2 ^ (64 - 7 * 5) - 1" using 0 j by auto
  note more = varint32_loop_more [OF 0(2,3) n(1) 0(5)]
  have "result OR push_bit (7 * j) (of_nat (n mod 128)) = result OR push_bit (7 * j) (of_nat n)"
  proof -
    have "push_bit 35 (of_nat (n div 128) :: u32) = 0"
      by (rule bit_word_eqI) (auto simp: bit_simps)
    then show ?thesis using join_leb_step [of "7 * j" n, where 'a = 32] j by simp
  qed
  then show ?case
    using more(1) [of result] 0(8) j more(2)
      varint32_loop_sign_tail [OF more(3), of 5 rest "result OR push_bit (7 * j) (of_nat n)"]
    by (simp add: n(2))
next
  case (Suc d)
  then have j: "j \<le> 3" "d = 4 - Suc j" "1 \<le> Suc j" "Suc j \<le> 4" by auto
  have e: "64 - 7 * j = 7 + (64 - 7 * Suc j)" "31 - 7 * j = 7 + (31 - 7 * Suc j)" using j by auto
  have lo: "2 ^ (64 - 7 * Suc j) - 2 ^ (31 - 7 * Suc j) \<le> n div 128"
    using Suc.prems(5) unfolding e power_add
    by (simp add: less_eq_div_iff_mult_less_eq algebra_simps diff_mult_distrib)
  have hi: "n div 128 < 2 ^ (64 - 7 * Suc j)"
    using Suc.prems(6) unfolding e power_add
    by (simp add: div_less_iff_less_mult mult.commute)
  have "(2::nat) ^ (31 - 7 * Suc j) < 2 ^ (64 - 7 * Suc j)" using j by (intro power_strict_increasing) auto
  then have "0 < (2::nat) ^ (64 - 7 * Suc j) - 2 ^ (31 - 7 * Suc j)" by (simp only: zero_less_diff)
  with lo have "n div 128 \<noteq> 0" by linarith
  then have big: "128 \<le> n" by (simp add: div_eq_0_iff)
  note more = varint32_loop_more [OF Suc.prems(1,2) big Suc.prems(4)]
  have join: "push_bit (7 * j) (of_nat (n mod 128)) OR push_bit (7 * Suc j) (of_nat (n div 128)) =
      (push_bit (7 * j) (of_nat n) :: u32)"
    using join_leb_step [of "7 * j" n] by (simp add: add.commute)
  have "drop_bit 31 ((result OR push_bit (7 * j) (of_nat (n mod 128))) OR
      push_bit (7 * Suc j) (of_nat (n div 128))) \<noteq> 0"
    using Suc.prems(7) unfolding or.assoc join .
  note IH = Suc.hyps(1) [OF j(2) more(3,2) j(3,4) lo hi this]
  moreover have "1 + (10 - Suc j) = 10 - j" using j by simp
  ultimately show ?case
    unfolding or.assoc join more(1) [of result] by (simp del: mult_Suc_right)
qed

text \<open>pb_decode_varint32 past its first byte.\<close>

lemma pb_decode_varint32_eof_more:
  assumes "buffered s" "unread s = leb128 n @ rest" "128 \<le> n"
  shows "pb_decode_varint32_eof s =
      (case varint32_loop (of_nat (n mod 128)) (of_nat (7 * 1)) (advance 1 s) of
         None \<Rightarrow> None
       | Some (None, s2) \<Rightarrow> Some (None, False, s2)
       | Some (Some (result, bitpos, byte), s2) \<Rightarrow>
           if bitpos = 35 \<and> byte AND 0x70 \<noteq> 0
           then Some (None, False, is_set_error ''varint overflow'' s2)
           else Some (Some result, False, s2))"
    "unread (advance 1 s) = leb128 (n div 128) @ rest" "buffered (advance 1 s)"
proof -
  have u: "unread s = of_nat (n mod 128 + 128) # leb128 (n div 128) @ rest"
    using assms by (simp add: leb128.simps [of n])
  have "unat (of_nat (n mod 128 + 128) :: u8) mod 128 = n mod 128"
    by (simp only: leb_byte_unat) simp
  then show "pb_decode_varint32_eof s =
      (case varint32_loop (of_nat (n mod 128)) (of_nat (7 * 1)) (advance 1 s) of
         None \<Rightarrow> None
       | Some (None, s2) \<Rightarrow> Some (None, False, s2)
       | Some (Some (result, bitpos, byte), s2) \<Rightarrow>
           if bitpos = 35 \<and> byte AND 0x70 \<noteq> 0
           then Some (None, False, is_set_error ''varint overflow'' s2)
           else Some (Some result, False, s2))"
    using u leb_byte_more [of n]
    by (simp add: pb_decode_varint32_eof_def pb_readbyte_buffered [OF assms(1)] ucast_low7 del: of_nat_add)
  show "unread (advance 1 s) = leb128 (n div 128) @ rest"
    using assms(1) u by (simp del: of_nat_add)
  have "0 < is_bytes_left s" using u length_unread [OF assms(1)] by (cases "is_bytes_left s") auto
  then show "buffered (advance 1 s)" using assms(1) by simp
qed

lemma pb_decode_varint32_eof_fits:
  assumes "buffered s" "unread s = leb128 n @ rest" "n < 2 ^ 32"
  shows "pb_decode_varint32_eof s = Some (Some (of_nat n), False, advance (length (leb128 n)) s)"
proof (cases "n < 128")
  case True
  with assms(2) have u: "unread s = of_nat n # rest" by (simp add: leb128.simps [of n])
  have "(of_nat n :: u8) AND 0x80 = 0" using True by (simp add: and_high_bit_u8)
  moreover have "(ucast (of_nat n :: u8) :: u32) = of_nat n"
    using True by (simp add: word_unat_eq_iff width_simps unat_of_nat)
  ultimately show ?thesis using True u
    by (simp add: pb_decode_varint32_eof_def pb_readbyte_buffered [OF assms(1)] leb128.simps [of n])
next
  case False
  then have big: "128 \<le> n" by simp
  note first = pb_decode_varint32_eof_more [OF assms(1,2) big]
  have lt: "n div 128 < 2 ^ (32 - 7 * 1)" using assms(3) by (simp add: div_less_iff_less_mult)
  obtain p b where loop: "varint32_loop (of_nat (n mod 128)) (of_nat (7 * 1)) (advance 1 s) =
      Some (Some (of_nat (n mod 128) OR push_bit (7 * 1) (of_nat (n div 128)), p, b),
            advance (length (leb128 (n div 128))) (advance 1 s))" and pb: "p = 35 \<longrightarrow> b AND 0x70 = 0"
    using varint32_loop_fits [OF first(3,2) _ _ lt] by fastforce
  have "of_nat (n mod 128) OR push_bit (7 * 1) (of_nat (n div 128)) = (of_nat n :: u32)"
    using join_leb_step [of 0 n] by simp
  moreover have "length (leb128 n) = Suc (length (leb128 (n div 128)))"
    using False by (simp add: leb128.simps [of n])
  ultimately show ?thesis using first(1) loop pb by (auto simp del: of_nat_mult)
qed

lemma pb_decode_varint32_eof_sign:
  assumes "buffered s" "unread s = leb128 n @ rest" "2 ^ 64 - 2 ^ 31 \<le> n" "n < 2 ^ 64"
  shows "pb_decode_varint32_eof s = Some (Some (of_nat n), False, advance 10 s)"
proof -
  have big: "128 \<le> n" using assms(3) by simp
  note first = pb_decode_varint32_eof_more [OF assms(1,2) big]
  have lo: "2 ^ (64 - 7 * 1) - 2 ^ (31 - 7 * 1) \<le> n div 128"
    using assms(3) by (simp add: less_eq_div_iff_mult_less_eq)
  have hi: "n div 128 < 2 ^ (64 - 7 * 1)" using assms(4) by (simp add: div_less_iff_less_mult)
  have value_eq: "of_nat (n mod 128) OR push_bit (7 * 1) (of_nat (n div 128)) = (of_nat n :: u32)"
    using join_leb_step [of 0 n] by simp
  have "unat (drop_bit 31 (of_nat n :: u32)) = n mod 2 ^ 32 div 2 ^ 31"
    by (simp add: width_simps unat_of_nat)
  moreover have "2 ^ 31 \<le> n mod 2 ^ 32"
  proof -
    define q r where "q = n div 2 ^ 32" and "r = n mod 2 ^ 32"
    have "q < 4294967296" using assms(4) by (simp add: q_def div_less_iff_less_mult)
    moreover have "n = 4294967296 * q + r" by (simp add: q_def r_def)
    moreover have "18446744071562067968 \<le> n" using assms(3) by simp
    ultimately have "2147483648 \<le> r" by linarith
    then show ?thesis by (simp add: r_def)
  qed
  ultimately have "drop_bit 31 (of_nat n :: u32) \<noteq> 0"
    by (auto simp: div_eq_0_iff)
  then obtain b where "varint32_loop (of_nat (n mod 128)) (of_nat (7 * 1)) (advance 1 s) =
      Some (Some (of_nat n, 70, b), advance 9 (advance 1 s))"
    using varint32_loop_sign [OF first(3,2) _ _ lo hi, of "of_nat (n mod 128)"] 
    unfolding value_eq by fastforce
  then show ?thesis using first(1) by simp
qed

lemma pb_decode_varint32_eof_overflow:
  assumes "buffered s" "unread s = leb128 n @ rest" "2 ^ 32 \<le> n" "n < 2 ^ 63"
  shows "\<exists>s'. pb_decode_varint32_eof s = Some (None, False, is_set_error ''varint overflow'' s')"
proof -
  have big: "128 \<le> n" using assms(3) by simp
  note first = pb_decode_varint32_eof_more [OF assms(1,2) big]
  have lo: "if (1::nat) \<le> 4 then 2 ^ (32 - 7 * 1) \<le> n div 128 else 0 < n div 128"
    using assms(3) by (simp add: less_eq_div_iff_mult_less_eq)
  have hi: "n div 128 < 2 ^ (63 - 7 * 1)" using assms(4) by (simp add: div_less_iff_less_mult)
  show ?thesis
    using varint32_loop_overflow [OF first(3,2) _ _ lo hi, of "of_nat (n mod 128)"] first(1)
    by (auto simp: is_fail_def)
qed

lemma pb_decode_varint32_encoded:
  assumes "buffered s" "unread s = varint_bytes v @ rest" "unat v < 2 ^ 32 \<or> 2 ^ 64 - 2 ^ 31 \<le> unat v"
  shows "pb_decode_varint32 s = Some (Some (ucast v), advance (length (varint_bytes v)) s)"
  using assms(3)
proof
  assume "unat v < 2 ^ 32"
  then show ?thesis
    using pb_decode_varint32_eof_fits [OF assms(1), of "unat v" rest] assms(2)
    by (simp add: pb_decode_varint32_def varint_bytes_leb128)
next
  assume big: "2 ^ 64 - 2 ^ 31 \<le> unat v"
  have "length (varint_bytes v) = 10"
  proof -
    have "\<not> length (leb128 (unat v)) \<le> 9"
    proof
      assume "length (leb128 (unat v)) \<le> 9"
      then have "(128::nat) ^ length (leb128 (unat v)) \<le> 128 ^ 9" by (intro power_increasing) auto
      moreover have "unat v < 128 ^ length (leb128 (unat v))"
        using leb_value_lt [of "leb128 (unat v)"] by simp
      ultimately have "unat v < 128 ^ 9" by linarith
      with big show False by simp
    qed
    then show ?thesis using length_varint_bytes [of v] by (simp add: varint_bytes_leb128)
  qed
  then show ?thesis
    using pb_decode_varint32_eof_sign [OF assms(1), of "unat v" rest] assms(2) big
    by (simp add: pb_decode_varint32_def varint_bytes_leb128)
qed

subsection \<open>Zigzag and fixed-width values\<close>

lemma drop_push_sign:
  "bit v 63 \<Longrightarrow> NOT (drop_bit 1 (NOT (push_bit 1 v))) = (v :: u64)"
  "\<not> bit v 63 \<Longrightarrow> drop_bit 1 (push_bit 1 v) = (v :: u64)"
proof -
  have cases: "n < 63 \<or> n = 63" if "n < LENGTH(64)" for n :: nat using that by auto
  show "NOT (drop_bit 1 (NOT (push_bit 1 v))) = v" if "bit v 63"
  proof (rule bit_word_eqI)
    fix n assume "n < LENGTH(64)"
    with cases [OF this] that show "bit (NOT (drop_bit 1 (NOT (push_bit 1 v)))) n = bit v n"
      unfolding bit_drop_bit_eq bit_not_iff bit_push_bit_iff o_apply possible_bit_word by auto
  qed
  show "drop_bit 1 (push_bit 1 v) = v" if "\<not> bit v 63"
  proof (rule bit_word_eqI)
    fix n assume "n < LENGTH(64)"
    with cases [OF this] that show "bit (drop_bit 1 (push_bit 1 v)) n = bit v n"
      unfolding bit_drop_bit_eq bit_push_bit_iff o_apply possible_bit_word by auto
  qed
qed

lemma unzigzag_zigzag [simp]: "unzigzag (zigzag v) = v"
proof -
  have neg: "v <s 0 \<longleftrightarrow> bit v 63" 
    using bit_last_iff [of v] by (simp add: word_sless_alt)
  have odd: "w AND 1 \<noteq> 0 \<longleftrightarrow> bit w 0" for w :: u64
    by (simp add: and_one_eq bit_0 odd_iff_mod_2_eq_one)
  show ?thesis
  proof (cases "bit v 63")
    case True
    then have "zigzag v = NOT (push_bit 1 v)" by (simp add: zigzag_def neg)
    moreover have "bit (NOT (push_bit 1 v)) 0" unfolding bit_not_iff bit_push_bit_iff by simp
    ultimately have "unzigzag (zigzag v) = NOT (drop_bit 1 (NOT (push_bit 1 v)))"
      by (simp only: unzigzag_def odd) simp
    also have "\<dots> = v"
      using True by (rule drop_push_sign(1))
    finally show ?thesis .
  next
    case False
    then have "zigzag v = push_bit 1 v" by (simp add: zigzag_def neg)
    moreover have "\<not> bit (push_bit 1 v) 0" unfolding bit_push_bit_iff by simp
    ultimately have "unzigzag (zigzag v) = drop_bit 1 (push_bit 1 v)"
      by (simp only: unzigzag_def odd) simp
    also have "\<dots> = v"
      using False by (rule drop_push_sign(2))
    finally show ?thesis .
  qed
qed

lemma pb_decode_svarint_encoded:
  assumes "buffered s" "unread s = varint_bytes (zigzag v) @ rest"
  shows "pb_decode_svarint s = Some (Some v, advance (length (varint_bytes (zigzag v))) s)"
  using pb_decode_varint_encoded [OF assms] by (simp add: pb_decode_svarint_def is_bind_def)

lemma fixed_bytes_le_bytes:
  "fixed32_bytes v = le_bytes 4 (unat v)" "fixed64_bytes w = le_bytes 8 (unat w)"
  unfolding fixed32_bytes_def fixed64_bytes_def le_bytes_expand
  by (simp_all add: word_unat_eq_iff width_simps)

lemma fixed32_value_le_nat: "length bs = 4 \<Longrightarrow> fixed32_value bs = of_nat (le_nat bs)"
  by (auto simp: length_Suc_conv eval_nat_numeral of_nat_le_nat_Cons push_bit_or push_bit_push_bit
      or.assoc simp del: le_nat.simps(2))

lemma fixed64_value_le_nat: "length bs = 8 \<Longrightarrow> fixed64_value bs = of_nat (le_nat bs)"
  by (auto simp: length_Suc_conv eval_nat_numeral of_nat_le_nat_Cons push_bit_or push_bit_push_bit
      or.assoc simp del: le_nat.simps(2))

lemma fixed_value_bytes [simp]:
  "fixed32_value (fixed32_bytes v) = v" "fixed64_value (fixed64_bytes w) = w"
  by (simp_all add: fixed32_value_le_nat fixed64_value_le_nat fixed_bytes_le_bytes)

lemma pb_decode_fixed32_encoded:
  assumes "buffered s" "unread s = fixed32_bytes v @ rest"
  shows "pb_decode_fixed32 s = Some (Some v, advance 4 s)"
proof -
  have "4 \<le> is_bytes_left s" using assms length_unread [of s] by simp
  then show ?thesis
    using assms by (simp add: pb_decode_fixed32_def is_bind_def pb_read_buffered)
qed

lemma pb_decode_fixed64_encoded:
  assumes "buffered s" "unread s = fixed64_bytes v @ rest"
  shows "pb_decode_fixed64 s = Some (Some v, advance 8 s)"
proof -
  have "8 \<le> is_bytes_left s" using assms length_unread [of s] by simp
  then show ?thesis
    using assms by (simp add: pb_decode_fixed64_def is_bind_def pb_read_buffered)
qed

subsection \<open>Tags\<close>

lemma wire_type_num_lt: "unat (wire_type_num wt) < 8"
  by (cases wt) auto

lemma unat_tag_value: "unat (tag_value wt n) = 8 * unat n + unat (wire_type_num wt)"
proof -
  have "unat (wire_type_num wt) < 2 ^ 3" using wire_type_num_lt [of wt] by simp
  from of_nat_or_push_bit [OF this, where 'a = 64, of "unat n"]
  have eq: "tag_value wt n = of_nat (unat (wire_type_num wt) + 8 * unat n)"
    unfolding tag_value_def by (simp add: or.commute del: of_nat_add of_nat_mult)
  have "unat (wire_type_num wt) + 8 * unat n < 18446744073709551616"
    using wire_type_num_lt [of wt] unat_u32_lt [of n] by linarith
  then show ?thesis unfolding eq by (simp add: unat_of_nat del: of_nat_add of_nat_mult)
qed

lemma pb_decode_tag_encoded:
  assumes "buffered s" "unread s = varint_bytes (tag_value wt n) @ rest"
    "unat n < 2 ^ 29" "n \<noteq> 0"
  shows "pb_decode_tag s =
    Some (\<lparr>tr_ok = True, tr_wire_type = wire_type_num wt, tr_tag = n, tr_eof = False\<rparr>,
          advance (length (varint_bytes (tag_value wt n))) s)"
proof -
  define t :: nat where "t = 8 * unat n + unat (wire_type_num wt)"
  have lt: "t < 2 ^ 32" using assms(3) wire_type_num_lt [of wt] by (simp add: t_def)
  have "unread s = leb128 t @ rest" using assms(2) by (simp add: varint_bytes_leb128 unat_tag_value t_def)
  from pb_decode_varint32_eof_fits [OF assms(1) this lt]
  have dec: "pb_decode_varint32_eof s = Some (Some (of_nat t), False, advance (length (leb128 t)) s)" .
  have t: "unat (of_nat t :: u32) = t" using lt by (simp add: unat_of_nat)
  have "0 < unat n" using assms(4) by (simp add: unat_gt_0)
  then have "0 < t" by (simp add: t_def)
  then have nz: "(of_nat t :: u32) \<noteq> 0" using t by (metis less_irrefl unat_0)
  have "(of_nat t :: u32) AND 7 = wire_type_num wt"
    using wire_type_num_lt [of wt] by (simp add: word_unat_eq_iff width_simps t) (simp add: t_def)
  moreover have "drop_bit 3 (of_nat t :: u32) = n"
    using wire_type_num_lt [of wt] by (simp add: word_unat_eq_iff width_simps t) (simp add: t_def)
  ultimately show ?thesis
    using dec nz by (simp add: pb_decode_tag_def varint_bytes_leb128 unat_tag_value t_def)
qed

subsection \<open>Skipping\<close>

lemma pb_skip_varint_eq:
  assumes "buffered s"
  shows "pb_skip_varint s =
    (case leb_split (unread s) of
       Some (g, _) \<Rightarrow> Some (Some (), advance (length g) s)
     | None \<Rightarrow> is_fail ''end-of-stream'' (advance (is_bytes_left s) s))"
  using assms
proof (induction "unread s" arbitrary: s)
  case Nil
  then have "is_bytes_left s = 0" using length_unread [of s] by simp
  with Nil(1) [symmetric] Nil(2) show ?case
    by (subst pb_skip_varint.simps) (simp add: pb_read_buffered is_fail_def)
next
  case (Cons b bs)
  have left: "is_bytes_left s = Suc (length bs)"
    using length_unread [OF Cons.prems] Cons.hyps(2) [symmetric] by simp
  have "bs = unread (advance 1 s)" "buffered (advance 1 s)"
    using Cons.prems Cons.hyps(2) [symmetric] left by simp_all
  note IH = Cons.hyps(1) [OF this]
  have step: "pb_skip_varint s =
      (if b AND 0x80 \<noteq> 0 then pb_skip_varint (advance 1 s) else Some (Some (), advance 1 s))"
    using Cons.prems Cons.hyps(2) [symmetric] left
    by (subst pb_skip_varint.simps) (simp add: pb_read_buffered)
  show ?case
    using step IH Cons.hyps(2) [symmetric] Cons.prems left
    by (cases "leb_split bs") (auto simp: is_fail_def)
qed

text \<open>The encodings that follow a tag, by wire type.\<close>

datatype raw_value = Raw_varint u64 | Raw_fixed64 u64 | Raw_string bytes | Raw_fixed32 u32

fun raw_type :: "raw_value \<Rightarrow> pb_wire_type" where
  "raw_type (Raw_varint v) = PB_WT_VARINT"
| "raw_type (Raw_fixed64 v) = PB_WT_64BIT"
| "raw_type (Raw_string bs) = PB_WT_STRING"
| "raw_type (Raw_fixed32 v) = PB_WT_32BIT"

fun raw_bytes :: "raw_value \<Rightarrow> bytes" where
  "raw_bytes (Raw_varint v) = varint_bytes v"
| "raw_bytes (Raw_fixed64 v) = fixed64_bytes v"
| "raw_bytes (Raw_string bs) = varint_bytes (of_nat (length bs)) @ bs"
| "raw_bytes (Raw_fixed32 v) = fixed32_bytes v"

fun raw_fits :: "raw_value \<Rightarrow> bool" where
  "raw_fits (Raw_string bs) \<longleftrightarrow> length bs < 2 ^ 32"
| "raw_fits r \<longleftrightarrow> True"

lemma pb_decode_varint32_length:
  assumes "buffered s" "unread s = varint_bytes (of_nat n) @ rest" "n < 2 ^ 32"
  shows "pb_decode_varint32 s = Some (Some (of_nat n), advance (length (varint_bytes (of_nat n))) s)"
    "unat (of_nat n :: u32) = n"
proof -
  have u: "unat (of_nat n :: u64) = n" using assms(3) by (simp add: unat_of_nat)
  moreover show "unat (of_nat n :: u32) = n" using assms(3) by (simp add: unat_of_nat)
  moreover have "ucast (of_nat n :: u64) = (of_nat n :: u32)"
    using u by (metis of_nat_unat)
  ultimately show "pb_decode_varint32 s = Some (Some (of_nat n), advance (length (varint_bytes (of_nat n))) s)"
    using pb_decode_varint32_encoded [OF assms(1,2)] assms(3) by simp
qed

lemma pb_skip_field_encoded:
  assumes "buffered s" "unread s = raw_bytes r @ rest" "raw_fits r"
  shows "pb_skip_field (wire_type_num (raw_type r)) s =
    Some (Some (), advance (length (raw_bytes r)) s)"
proof -
  have left: "is_bytes_left s = length (raw_bytes r @ rest)"
    using length_unread [OF assms(1)] assms(2) by simp
  show ?thesis
  proof (cases r)
    case (Raw_varint v)
    then show ?thesis
      using assms by (simp add: pb_skip_field_def pb_skip_varint_eq varint_bytes_leb128 leb_split_leb128)
  next
    case (Raw_string bs)
    then have len: "length bs < 2 ^ 32"
      and u: "unread s = varint_bytes (of_nat (length bs)) @ (bs @ rest)" using assms by simp_all
    note dec = pb_decode_varint32_length [OF assms(1) u len]
    have "buffered (advance (length (varint_bytes (of_nat (length bs)))) s)"
      using assms(1) left Raw_string by simp
    then show ?thesis
      using dec left Raw_string assms(1)
      by (simp add: pb_skip_field_def pb_skip_string_def is_bind_def pb_read_null_buffered)
  qed (use assms left in \<open>simp_all add: pb_skip_field_def pb_read_null_buffered\<close>)
qed

subsection \<open>Length-delimited substreams\<close>

lemma pb_make_string_substream_encoded:
  assumes "buffered s" "unread s = varint_bytes (of_nat n) @ rest" "n < 2 ^ 32" "n \<le> length rest"
  defines "h \<equiv> length (varint_bytes (of_nat n))"
  shows "pb_make_string_substream s =
    Some (Some ((advance h s)\<lparr>is_bytes_left := n\<rparr>),
          (advance h s)\<lparr>is_bytes_left := is_bytes_left s - h - n\<rparr>)"
proof -
  have "h + length rest = is_bytes_left s"
    using length_unread [OF assms(1)] assms(2) by (simp add: h_def)
  then have "\<not> is_bytes_left s - h < n" using assms(4) by linarith
  then show ?thesis
    using pb_decode_varint32_length [OF assms(1-3)] assms(1,4)
    by (simp add: pb_make_string_substream_def is_bind_def h_def [symmetric])
qed

lemma bytes_left_update_bounds:
  assumes "buffered s" "n \<le> is_bytes_left s"
  shows "buffered (s\<lparr>is_bytes_left := n\<rparr>)" "unread (s\<lparr>is_bytes_left := n\<rparr>) = take n (unread s)"
  using assms by (auto simp: buffered_def unread_def min_def split: istate.splits)

lemma pb_close_string_substream_eq:
  assumes "buffered s" "n \<le> is_bytes_left s" "k \<le> n"
  shows "pb_close_string_substream (advance k (s\<lparr>is_bytes_left := n\<rparr>))
      (s\<lparr>is_bytes_left := is_bytes_left s - n\<rparr>) = Some (Some (), advance n s)"
proof -
  let ?sub = "advance k (s\<lparr>is_bytes_left := n\<rparr>)"
  have sub: "buffered ?sub" "is_bytes_left ?sub = n - k"
    using bytes_left_update_bounds [OF assms(1,2)] assms(3) by simp_all
  have "pb_read_null (n - k) ?sub = Some (Some (), advance (n - k) ?sub)"
    using sub by (simp add: pb_read_null_buffered del: advance_advance)
  moreover have "is_state (advance (n - k) ?sub) = is_state (advance n s)"
    "is_errmsg (advance (n - k) ?sub) = is_errmsg s"
    using assms(1,3) by (auto simp: buffered_def advance_def split: istate.splits)
  moreover have "n - k = 0 \<Longrightarrow> is_state ?sub = is_state (advance n s)"
    using assms(1,3) by (auto simp: buffered_def advance_def split: istate.splits)
  moreover have "s\<lparr>is_bytes_left := is_bytes_left s - n, is_state := is_state (advance n s),
      is_errmsg := is_errmsg s\<rparr> = advance n s"
    using assms(1) by (auto simp: buffered_def advance_def split: istate.splits)
  ultimately show ?thesis
    using sub by (cases "n - k = 0") (simp_all add: pb_close_string_substream_def del: advance_advance)
qed

lemma substream_close_encoded:
  assumes "buffered s" "unread s = varint_bytes (of_nat n) @ rest" "n < 2 ^ 32" "n \<le> length rest"
    "k \<le> n"
  shows "\<exists>sub parent. pb_make_string_substream s = Some (Some sub, parent) \<and>
    buffered sub \<and> unread sub = take n rest \<and>
    pb_close_string_substream (advance k sub) parent =
      Some (Some (), advance (length (varint_bytes (of_nat n)) + n) s)"
proof -
  let ?h = "length (varint_bytes (of_nat n))"
  have left: "is_bytes_left s = ?h + length rest" using length_unread [OF assms(1)] assms(2) by simp
  then have s': "buffered (advance ?h s)" "n \<le> is_bytes_left (advance ?h s)"
    "unread (advance ?h s) = rest" using assms(1,2,4) by simp_all
  show ?thesis
    using pb_make_string_substream_encoded [OF assms(1-4)] bytes_left_update_bounds [OF s'(1,2)] s'(3)
      pb_close_string_substream_eq [OF s'(1,2) assms(5)] assms(1)
    by simp
qed

subsection \<open>The primitive codecs as instances of the codec interface\<close>

definition run_buffer :: "(unit, 'a) dec \<Rightarrow> bytes \<Rightarrow> ('a \<times> bytes) option" where
  "run_buffer f bs =
     (case f (pb_istream_from_buffer bs (length bs)) of
        Some (Some x, s) \<Rightarrow> Some (x, unread s)
      | _ \<Rightarrow> None)"

lemma run_buffer_encoded:
  assumes "\<And>s. buffered s \<Longrightarrow> unread s = bs @ rest \<Longrightarrow> f s = Some (Some x, advance (length bs) s)"
  shows "run_buffer f (bs @ rest) = Some (x, rest)"
  using assms [of "pb_istream_from_buffer (bs @ rest) (length (bs @ rest))"]
  by (simp add: run_buffer_def)

interpretation varint_codec: prefix_codec varint_bytes "run_buffer pb_decode_varint" "\<lambda>_. True"
  by unfold_locales (rule run_buffer_encoded, rule pb_decode_varint_encoded)

interpretation svarint_codec:
  prefix_codec "\<lambda>v. varint_bytes (zigzag v)" "run_buffer pb_decode_svarint" "\<lambda>_. True"
  by unfold_locales (rule run_buffer_encoded, rule pb_decode_svarint_encoded)

interpretation fixed32_codec:
  prefix_codec fixed32_bytes "run_buffer pb_decode_fixed32" "\<lambda>_. True"
  by unfold_locales (rule run_buffer_encoded, simp add: pb_decode_fixed32_encoded)

interpretation fixed64_codec:
  prefix_codec fixed64_bytes "run_buffer pb_decode_fixed64" "\<lambda>_. True"
  by unfold_locales (rule run_buffer_encoded, simp add: pb_decode_fixed64_encoded)

subsection \<open>Padded varints\<close>

lemma leb_split_continued: "leb_split (replicate k 0x80) = None"
  by (induction k) simp_all

text \<open>A varint padded with empty continuation bytes: the loop keeps its result and \<open>bitpos\<close> goes round.\<close>

lemma varint32_loop_padding:
  assumes "buffered s" "unread s = replicate k 0x80 @ b # rest"
  shows "varint32_loop 0 p s = varint32_loop 0 (p + of_nat (7 * k)) (advance k s) \<and>
    buffered (advance k s) \<and> unread (advance k s) = b # rest"
  using assms
proof (induction k arbitrary: s p)
  case (Suc k)
  have u: "unread s = 0x80 # (replicate k 0x80 @ b # rest)" using Suc.prems(2) by simp
  have left: "0 < is_bytes_left s" using u length_unread [OF Suc.prems(1)] by simp
  then have s1: "buffered (advance 1 s)" "unread (advance 1 s) = replicate k 0x80 @ b # rest"
    using Suc.prems(1) u by simp_all
  have "varint32_loop 0 p s = varint32_loop 0 (p + 7) (advance 1 s)"
    by (subst varint32_loop.simps) (simp add: pb_readbyte_buffered [OF Suc.prems(1)] u)
  moreover have "p + 7 + of_nat (7 * k) = p + of_nat (7 * Suc k)" by simp
  ultimately show ?case using Suc.IH [OF s1, of "p + 7"] by (metis advance_advance plus_1_eq_Suc)
qed simp

lemma pb_decode_varint32_padded:
  assumes "buffered s" "unread s = replicate k 0x80 @ b # rest" "0 < k" "unat b < 128"
  defines "p \<equiv> 7 * k mod 256"
  shows "pb_decode_varint32 s =
    (if 32 \<le> p \<and> b \<noteq> 0 \<or> p = 28 \<and> 16 \<le> unat b
     then is_fail ''varint overflow'' (advance (Suc k) s)
     else Some (Some (if p < 32 then push_bit p (ucast b) else 0), advance (Suc k) s))"
proof -
  obtain k' where k: "k = Suc k'" using assms(3) by (cases k) auto
  have u: "unread s = 0x80 # (replicate k' 0x80 @ b # rest)" using assms(2) k by simp
  have left: "0 < is_bytes_left s" using u length_unread [OF assms(1)] by simp
  then have s1: "buffered (advance 1 s)" "unread (advance 1 s) = replicate k' 0x80 @ b # rest"
    using assms(1) u by simp_all
  note pad = varint32_loop_padding [OF s1, of 7]
  have bitpos: "(7 :: u8) + of_nat (7 * k') = of_nat p"
  proof -
    have "(7 :: u8) + of_nat (7 * k') = of_nat (7 * k)" by (simp add: k)
    also have "\<dots> = of_nat p" unfolding p_def by (rule word_unat_eq_iff [THEN iffD2]) (simp only: unat_of_nat_u8 mod_mod_trivial)
    finally show ?thesis .
  qed
  have p: "p mod 256 = p" by (simp add: p_def)
  have b: "b AND 0x80 = 0" "unat b mod 128 = unat b" "b AND 0x7F \<noteq> 0 \<longleftrightarrow> b \<noteq> 0" "b \<noteq> 0xFF"
    using assms(4) by (auto simp: and_high_bit_u8 low7_zero_iff unat_eq_0)
  have nibble: "b AND 0x70 \<noteq> 0 \<longleftrightarrow> 16 \<le> unat b"
    using assms(4) unat_ge_low_nibble [of b] by auto
  have le: "32 \<le> (of_nat p :: u8) \<longleftrightarrow> 32 \<le> p" by (simp add: word_le_nat_alt p)
  have late: "(of_nat p :: u8) + 7 = 35 \<longleftrightarrow> p = 28"
  proof -
    have "(of_nat p :: u8) + 7 = 35 \<longleftrightarrow> (of_nat p :: u8) = 28" by (simp add: eq_diff_eq [symmetric])
    then show ?thesis by (simp add: word_unat_eq_iff p)
  qed
  have s2: "buffered (advance k s)" "unread (advance k s) = b # rest" "advance 1 (advance k s) = advance (Suc k) s"
    using pad k by auto
  have loop: "varint32_loop 0 (of_nat p) (advance k s) =
      (if 32 \<le> p \<and> b \<noteq> 0 then is_fail ''varint overflow'' (advance (Suc k) s)
       else Some (Some (if p < 32 then push_bit p (ucast b) else 0, of_nat p + 7, b), advance (Suc k) s))"
    using varint32_loop_byte [OF s2(1,2), of 0 "of_nat p"] b s2(3)
    by (auto simp: le p Let_def not_le)
  have "varint32_loop 0 7 (advance 1 s) = varint32_loop 0 (of_nat p) (advance k s)"
    using pad bitpos k by (metis advance_advance plus_1_eq_Suc)
  then have "pb_decode_varint32_eof s =
      (case varint32_loop 0 (of_nat p) (advance k s) of
         None \<Rightarrow> None
       | Some (None, s2) \<Rightarrow> Some (None, False, s2)
       | Some (Some (result, bitpos, byte), s2) \<Rightarrow>
           if bitpos = 35 \<and> byte AND 0x70 \<noteq> 0
           then Some (None, False, is_set_error ''varint overflow'' s2)
           else Some (Some result, False, s2))"
    by (simp add: pb_decode_varint32_eof_def pb_readbyte_buffered [OF assms(1)] u)
  then show ?thesis
    unfolding loop by (auto simp: pb_decode_varint32_def is_fail_def late nibble)
qed

subsection \<open>Properties\<close>

text \<open>
  C20. On every buffer stream pb_decode_varint returns the base-128 value of the bytes up to the
  first one without a continuation bit, modulo 2 to the 64, and stops right behind that byte;
  if the first ten bytes all have the bit, it fails with "varint overflow" after ten bytes, and
  if the input ends first, with "end-of-stream".
\<close>

theorem decode_varint_every_input:
  assumes "buffered s"
  shows "pb_decode_varint s =
    (case leb_split (take 10 (unread s)) of
       Some (g, _) \<Rightarrow> Some (Some (of_nat (leb_value g)), advance (length g) s)
     | None \<Rightarrow>
         if 10 \<le> is_bytes_left s then is_fail ''varint overflow'' (advance 10 s)
         else is_fail ''end-of-stream'' (advance (is_bytes_left s) s))"
  by (rule pb_decode_varint_eq) (rule assms)

theorem decode_varint_every_input_witness:
  "pb_decode_varint (pb_istream_from_buffer [0xAC, 0x02, 0x7F] 3) =
   Some (Some 300, advance (length [0xAC, 0x02 :: u8]) (pb_istream_from_buffer [0xAC, 0x02, 0x7F] 3 :: unit pb_istream))"
  using decode_varint_every_input [of "pb_istream_from_buffer [0xAC, 0x02, 0x7F] 3 :: unit pb_istream"]
  by (simp add: and_high_bit_u8)

text \<open>
  What pb_encode_varint writes to a buffer stream with room for it, pb_decode_varint reads
  back from that buffer: same value, and the reader stops where the writer stopped.
\<close>

theorem varint_buffer_round_trip:
  assumes "bufsize \<le> length buf" "bufsize < 2 ^ 63" "length (leb128 (unat v)) \<le> bufsize"
  shows "\<exists>out. pb_encode_varint v (pb_ostream_from_buffer buf bufsize) = Some (True, out) \<and>
    (let inp = pb_istream_from_buffer (ob_mem (os_state out)) bufsize :: unit pb_istream
     in pb_decode_varint inp = Some (Some v, advance (os_bytes_written out) inp))"
proof -
  have fits: "length (varint_bytes v) \<le> bufsize" using assms(3) by (simp add: varint_bytes_leb128)
  obtain out where out: "pb_encode_varint v (pb_ostream_from_buffer buf bufsize) = Some (True, out)"
    "os_bytes_written out = length (varint_bytes v)"
    "ob_mem (os_state out) = varint_bytes v @ drop (length (varint_bytes v)) buf"
    using emits_buffer [OF buf.emits_varint assms(1,2) fits] by blast
  then show ?thesis
    using assms(1) fits
    by (simp add: pb_decode_varint_encoded [where rest = "take (bufsize - length (varint_bytes v))
          (drop (length (varint_bytes v)) buf)"])
qed

theorem varint_buffer_round_trip_witness:
  "\<exists>out. pb_encode_varint 300 (pb_ostream_from_buffer (replicate 4 0) 4) = Some (True, out) \<and>
    (let inp = pb_istream_from_buffer (ob_mem (os_state out)) 4 :: unit pb_istream
     in pb_decode_varint inp = Some (Some 300, advance (os_bytes_written out) inp))"
  by (rule varint_buffer_round_trip) (simp_all add: leb128.simps)

text \<open>
  pb_decode_varint32 after pb_encode_varint: a value below 2 to the 32 and a sign-extended
  negative 32-bit number decode to their low 32 bits; any other value below 2 to the 63 is
  refused with "varint overflow".
\<close>

theorem decode_varint32_of_varint64:
  assumes "buffered s" "unread s = varint_bytes v @ rest"
  shows "(unat v < 2 ^ 32 \<or> 2 ^ 64 - 2 ^ 31 \<le> unat v \<longrightarrow>
      pb_decode_varint32 s = Some (Some (ucast v), advance (length (varint_bytes v)) s)) \<and>
    (2 ^ 32 \<le> unat v \<and> unat v < 2 ^ 63 \<longrightarrow>
      (\<exists>s'. pb_decode_varint32 s = Some (None, is_set_error ''varint overflow'' s')))"
proof (intro conjI impI)
  assume "unat v < 2 ^ 32 \<or> 2 ^ 64 - 2 ^ 31 \<le> unat v"
  then show "pb_decode_varint32 s = Some (Some (ucast v), advance (length (varint_bytes v)) s)"
    by (rule pb_decode_varint32_encoded [OF assms])
next
  assume "2 ^ 32 \<le> unat v \<and> unat v < 2 ^ 63"
  then show "\<exists>s'. pb_decode_varint32 s = Some (None, is_set_error ''varint overflow'' s')"
    using pb_decode_varint32_eof_overflow [OF assms(1), of "unat v" rest] assms(2)
    by (auto simp: pb_decode_varint32_def varint_bytes_leb128)
qed

theorem decode_varint32_of_varint64_witness:
  "let s = pb_istream_from_buffer (varint_bytes (- 2)) (length (varint_bytes (- 2))) :: unit pb_istream
   in pb_decode_varint32 s = Some (Some (- 2), advance (length (varint_bytes (- 2))) s)"
  using decode_varint32_of_varint64 [of "pb_istream_from_buffer (varint_bytes (- 2))
      (length (varint_bytes (- 2))) :: unit pb_istream" "- 2" "[]"]
  by simp

text \<open>
  C21. The width of \<open>bitpos\<close> shows through. For every varint padded to more than ten bytes (k
  continuation bytes without value bits, k at least ten, then a last byte b), pb_decode_varint
  reports an overflow after ten bytes, but pb_decode_varint32 places the last byte at bit 7 k
  modulo 256: it accepts a zero byte always, and another one when that position is below 32 (and
  b fits into the four bits left at position 28), with b shifted to that position as the value.
\<close>

theorem decode_varint32_overlong:
  assumes "buffered s" "unread s = replicate k 0x80 @ b # rest" "10 \<le> k" "unat b < 128"
  defines "p \<equiv> 7 * k mod 256"
  shows "pb_decode_varint s = is_fail ''varint overflow'' (advance 10 s) \<and>
    pb_decode_varint32 s =
      (if 32 \<le> p \<and> b \<noteq> 0 \<or> p = 28 \<and> 16 \<le> unat b
       then is_fail ''varint overflow'' (advance (Suc k) s)
       else Some (Some (if p < 32 then push_bit p (ucast b) else 0), advance (Suc k) s))"
proof
  have "take 10 (unread s) = replicate 10 0x80" using assms(2,3) by (simp add: min_def)
  moreover have "10 \<le> is_bytes_left s" using length_unread [OF assms(1)] assms(2,3) by simp
  ultimately show "pb_decode_varint s = is_fail ''varint overflow'' (advance 10 s)"
    by (simp only: pb_decode_varint_eq [OF assms(1)] leb_split_continued) simp
  have "0 < k" using assms(3) by simp
  from pb_decode_varint32_padded [OF assms(1,2) this assms(4)]
  show "pb_decode_varint32 s =
      (if 32 \<le> p \<and> b \<noteq> 0 \<or> p = 28 \<and> 16 \<le> unat b
       then is_fail ''varint overflow'' (advance (Suc k) s)
       else Some (Some (if p < 32 then push_bit p (ucast b) else 0), advance (Suc k) s))"
    unfolding p_def .
qed

theorem decode_varint32_overlong_witness:
  "let s = pb_istream_from_buffer (replicate 37 0x80 @ [1]) 38 :: unit pb_istream
   in pb_decode_varint32 s = Some (Some 8, advance 38 s) \<and>
      pb_decode_varint s = is_fail ''varint overflow'' (advance 10 s)"
proof -
  let ?s = "pb_istream_from_buffer (replicate 37 0x80 @ [1]) 38 :: unit pb_istream"
  have "buffered ?s" "unread ?s = replicate 37 0x80 @ 1 # []" by simp_all
  from decode_varint32_overlong [OF this] show ?thesis by (simp add: Let_def)
qed

text \<open>
  C22. Signed and fixed-width values survive the trip: decoding the zigzag varint, or the
  little-endian bytes, of a value gives it back and consumes exactly its encoding.
\<close>

theorem scalar_round_trips:
  "(buffered s \<and> unread s = varint_bytes (zigzag v) @ rest \<longrightarrow>
      pb_decode_svarint s = Some (Some v, advance (length (varint_bytes (zigzag v))) s)) \<and>
   (buffered s \<and> unread s = fixed32_bytes w @ rest \<longrightarrow>
      pb_decode_fixed32 s = Some (Some w, advance 4 s)) \<and>
   (buffered s \<and> unread s = fixed64_bytes v @ rest \<longrightarrow>
      pb_decode_fixed64 s = Some (Some v, advance 8 s))"
  by (simp add: pb_decode_svarint_encoded pb_decode_fixed32_encoded pb_decode_fixed64_encoded)

theorem scalar_round_trips_witness:
  "let s = pb_istream_from_buffer (varint_bytes (zigzag (- 3))) (length (varint_bytes (zigzag (- 3))))
         :: unit pb_istream
   in pb_decode_svarint s = Some (Some (- 3), advance (length (varint_bytes (zigzag (- 3)))) s)"
  using scalar_round_trips [of "pb_istream_from_buffer (varint_bytes (zigzag (- 3)))
      (length (varint_bytes (zigzag (- 3)))) :: unit pb_istream" "- 3" "[]" 0]
  by simp

text \<open>
  A reader that knows nothing about a field steps over exactly that field: pb_decode_tag
  recovers the field number and wire type that pb_encode_tag wrote, and pb_skip_field with that
  wire type then consumes the encoded value and nothing else.
\<close>

theorem tag_then_skip:
  assumes "buffered s" "unread s = varint_bytes (tag_value (raw_type r) n) @ raw_bytes r @ rest"
    "unat n < 2 ^ 29" "n \<noteq> 0" "raw_fits r"
  shows "\<exists>tr s1. pb_decode_tag s = Some (tr, s1) \<and> tr_ok tr \<and> tr_tag tr = n \<and>
    pb_skip_field (tr_wire_type tr) s1 =
      Some (Some (), advance (length (varint_bytes (tag_value (raw_type r) n) @ raw_bytes r)) s)"
proof -
  let ?h = "length (varint_bytes (tag_value (raw_type r) n))"
  have "?h \<le> is_bytes_left s" using length_unread [OF assms(1)] assms(2) by simp
  then have s1: "buffered (advance ?h s)" "unread (advance ?h s) = raw_bytes r @ rest"
    using assms(1,2) by simp_all
  show ?thesis
    using pb_decode_tag_encoded [OF assms(1-4)] pb_skip_field_encoded [OF s1 assms(5)] by simp
qed

theorem tag_then_skip_witness:
  "\<exists>tr s1. pb_decode_tag (pb_istream_from_buffer [0x1A, 0x02, 0x61, 0x62, 0x08] 5 :: unit pb_istream) =
      Some (tr, s1) \<and> tr_ok tr \<and> tr_tag tr = 3 \<and>
    pb_skip_field (tr_wire_type tr) s1 =
      Some (Some (), advance (length (varint_bytes (tag_value (raw_type (Raw_string [0x61, 0x62])) 3) @
        raw_bytes (Raw_string [0x61, 0x62]))) (pb_istream_from_buffer [0x1A, 0x02, 0x61, 0x62, 0x08] 5))"
  by (rule tag_then_skip [where rest = "[0x08]"])
    (simp_all add: varint_bytes_leb128 unat_tag_value leb128.simps)

text \<open>
  A substream sees exactly the length-delimited field, and closing it, however much of it
  was read, leaves the parent right behind the field.
\<close>

theorem substream_bounds_field:
  assumes "buffered s" "unread s = varint_bytes (of_nat n) @ rest" "n < 2 ^ 32" "n \<le> length rest"
    "k \<le> n"
  shows "\<exists>sub parent. pb_make_string_substream s = Some (Some sub, parent) \<and>
    buffered sub \<and> unread sub = take n rest \<and>
    pb_close_string_substream (advance k sub) parent =
      Some (Some (), advance (length (varint_bytes (of_nat n)) + n) s)"
  using assms by (rule substream_close_encoded)

theorem substream_bounds_field_witness:
  "\<exists>sub parent. pb_make_string_substream
        (pb_istream_from_buffer [0x02, 0x61, 0x62, 0x08] 4 :: unit pb_istream) = Some (Some sub, parent) \<and>
    buffered sub \<and> unread sub = take 2 [0x61, 0x62, 0x08] \<and>
    pb_close_string_substream (advance 1 sub) parent =
      Some (Some (), advance (length (varint_bytes (of_nat 2)) + 2)
        (pb_istream_from_buffer [0x02, 0x61, 0x62, 0x08] 4))"
  by (rule substream_bounds_field)
    (simp_all add: varint_bytes_leb128 leb128.simps)

end
