(* ===== verification/Pb_Field.thy ===== *)
theory Pb_Field
  imports Pb_Wire
begin

text \<open>
  Message structures as nanopb sees them (pb.h, pb_common.c): byte-addressed memory, the field
  descriptors, and the iterator that walks the fields of a message structure.

  Memory maps an address to a byte where something is stored and is undefined elsewhere, so an
  access outside of live objects is the value \<open>None\<close>; 0 is the NULL pointer. A descriptor array is
  the list of its entries up to the PB_LAST_FIELD terminator.
\<close>

subsection \<open>Memory\<close>

type_synonym mem = "nat \<Rightarrow> u8 option"

fun load_bytes :: "mem \<Rightarrow> nat \<Rightarrow> nat \<Rightarrow> bytes option" where
  "load_bytes m a 0 = Some []"
| "load_bytes m a (Suc n) =
     (case m a of
        None \<Rightarrow> None
      | Some b \<Rightarrow> (case load_bytes m (Suc a) n of None \<Rightarrow> None | Some bs \<Rightarrow> Some (b # bs)))"

text \<open>Integers and pointers are read little-endian.\<close>

definition load_word :: "mem \<Rightarrow> nat \<Rightarrow> nat \<Rightarrow> 'a::len word option" where
  "load_word m a n = map_option le_word (load_bytes m a n)"

definition load_u32 :: "mem \<Rightarrow> nat \<Rightarrow> u32 option" where
  "load_u32 m a = load_word m a 4"

definition load_u64 :: "mem \<Rightarrow> nat \<Rightarrow> u64 option" where
  "load_u64 m a = load_word m a 8"

definition load_ptr :: "mem \<Rightarrow> nat \<Rightarrow> nat option" where
  "load_ptr m a = map_option unat (load_u64 m a)"

fun store_mem :: "mem \<Rightarrow> nat \<Rightarrow> bytes \<Rightarrow> mem option" where
  "store_mem m a [] = Some m"
| "store_mem m a (b # bs) =
     (case m a of None \<Rightarrow> None | Some _ \<Rightarrow> store_mem (m(a \<mapsto> b)) (Suc a) bs)"

definition region :: "mem \<Rightarrow> nat \<Rightarrow> nat \<Rightarrow> bool" where
  "region m a n \<longleftrightarrow> (\<forall>i<n. m (a + i) \<noteq> None)"

lemma region_0 [simp]: "region m a 0"
  by (simp add: region_def)

lemma region_Suc: "region m a (Suc n) \<longleftrightarrow> m a \<noteq> None \<and> region m (Suc a) n"
  by (auto simp: region_def less_Suc_eq_0_disj)

lemma load_bytes_None_iff: "load_bytes m a n = None \<longleftrightarrow> \<not> region m a n"
proof (induction n arbitrary: a)
  case (Suc n)
  show ?case
    using Suc.IH [of "Suc a"]
    by (cases "m a"; cases "load_bytes m (Suc a) n") (auto simp: region_Suc)
qed simp

lemma load_bytes_Some_iff: "(\<exists>bs. load_bytes m a n = Some bs) \<longleftrightarrow> region m a n"
  using load_bytes_None_iff [of m a n] by auto

lemma length_load_bytes: "load_bytes m a n = Some bs \<Longrightarrow> length bs = n"
  by (induction n arbitrary: a bs) (auto split: option.splits)

lemma region_update: "m a \<noteq> None \<Longrightarrow> region (m(a \<mapsto> b)) c n = region m c n"
  by (auto simp: region_def)

lemma store_mem_None_iff: "store_mem m a bs = None \<longleftrightarrow> \<not> region m a (length bs)"
  by (induction bs arbitrary: a m) (auto simp: region_Suc region_update split: option.splits)

lemma store_mem_Some_iff: "(\<exists>m'. store_mem m a bs = Some m') \<longleftrightarrow> region m a (length bs)"
  using store_mem_None_iff [of m a bs] by auto

lemma store_mem_lookup:
  "store_mem m a bs = Some m' \<Longrightarrow>
   m' x = (if a \<le> x \<and> x < a + length bs then Some (bs ! (x - a)) else m x)"
proof (induction bs arbitrary: a m)
  case (Cons b bs)
  then have IH: "m' x = (if Suc a \<le> x \<and> x < Suc a + length bs then Some (bs ! (x - Suc a))
      else (m(a \<mapsto> b)) x)"
    by (auto split: option.splits)
  then show ?case by (cases "x = a") (auto simp: nth_Cons' Suc_diff_Suc)
qed auto

lemma store_mem_dom: "store_mem m a bs = Some m' \<Longrightarrow> (m' x = None \<longleftrightarrow> m x = None)"
  by (induction bs arbitrary: a m) (auto split: option.splits if_splits)

lemma load_bytes_cong: "(\<And>i. i < n \<Longrightarrow> m (a + i) = m' (a + i)) \<Longrightarrow> load_bytes m a n = load_bytes m' a n"
proof (induction n arbitrary: a)
  case (Suc n)
  have "m a = m' a" using Suc.prems [of 0] by simp
  moreover have "load_bytes m (Suc a) n = load_bytes m' (Suc a) n"
    using Suc.prems [of "Suc i" for i] by (intro Suc.IH) auto
  ultimately show ?case by (simp split: option.splits)
qed simp

lemma load_bytes_nth: "load_bytes m a n = Some bs \<Longrightarrow> i < n \<Longrightarrow> m (a + i) = Some (bs ! i)"
proof (induction n arbitrary: a i bs)
  case (Suc n)
  then show ?case
    by (cases i) (auto split: option.splits dest: Suc.IH [of "Suc a"])
qed simp

text \<open>A load of what was just stored, and of what a store did not touch.\<close>

lemma load_store_same:
  assumes "store_mem m a bs = Some m'"
  shows "load_bytes m' a (length bs) = Some bs"
proof -
  have "region m' a (length bs)"
    using assms store_mem_Some_iff [of m a bs] store_mem_dom [OF assms] by (auto simp: region_def)
  then obtain cs where cs: "load_bytes m' a (length bs) = Some cs"
    using load_bytes_Some_iff by blast
  have "cs = bs"
  proof (rule nth_equalityI)
    show "length cs = length bs" using length_load_bytes [OF cs] .
    fix i assume "i < length cs"
    then have "i < length bs" using length_load_bytes [OF cs] by simp
    then show "cs ! i = bs ! i"
      using load_bytes_nth [OF cs, of i] store_mem_lookup [OF assms, of "a + i"] by simp
  qed
  with cs show ?thesis by simp
qed

lemma load_store_other:
  assumes "store_mem m a bs = Some m'" "a + length bs \<le> c \<or> c + n \<le> a"
  shows "load_bytes m' c n = load_bytes m c n"
  using assms(2) by (intro load_bytes_cong) (auto simp: store_mem_lookup [OF assms(1)])

subsection \<open>Field descriptors\<close>

abbreviation (input) PB_LTYPE_BOOL :: u8 where "PB_LTYPE_BOOL \<equiv> 0x00"
abbreviation (input) PB_LTYPE_VARINT :: u8 where "PB_LTYPE_VARINT \<equiv> 0x01"
abbreviation (input) PB_LTYPE_UVARINT :: u8 where "PB_LTYPE_UVARINT \<equiv> 0x02"
abbreviation (input) PB_LTYPE_SVARINT :: u8 where "PB_LTYPE_SVARINT \<equiv> 0x03"
abbreviation (input) PB_LTYPE_FIXED32 :: u8 where "PB_LTYPE_FIXED32 \<equiv> 0x04"
abbreviation (input) PB_LTYPE_FIXED64 :: u8 where "PB_LTYPE_FIXED64 \<equiv> 0x05"
abbreviation (input) PB_LTYPE_LAST_PACKABLE :: u8 where "PB_LTYPE_LAST_PACKABLE \<equiv> 0x05"
abbreviation (input) PB_LTYPE_BYTES :: u8 where "PB_LTYPE_BYTES \<equiv> 0x06"
abbreviation (input) PB_LTYPE_STRING :: u8 where "PB_LTYPE_STRING \<equiv> 0x07"
abbreviation (input) PB_LTYPE_SUBMESSAGE :: u8 where "PB_LTYPE_SUBMESSAGE \<equiv> 0x08"
abbreviation (input) PB_LTYPE_EXTENSION :: u8 where "PB_LTYPE_EXTENSION \<equiv> 0x09"
abbreviation (input) PB_LTYPE_FIXED_LENGTH_BYTES :: u8 where "PB_LTYPE_FIXED_LENGTH_BYTES \<equiv> 0x0A"

abbreviation (input) PB_HTYPE_REQUIRED :: u8 where "PB_HTYPE_REQUIRED \<equiv> 0x00"
abbreviation (input) PB_HTYPE_OPTIONAL :: u8 where "PB_HTYPE_OPTIONAL \<equiv> 0x10"
abbreviation (input) PB_HTYPE_REPEATED :: u8 where "PB_HTYPE_REPEATED \<equiv> 0x20"
abbreviation (input) PB_HTYPE_ONEOF :: u8 where "PB_HTYPE_ONEOF \<equiv> 0x30"

abbreviation (input) PB_ATYPE_STATIC :: u8 where "PB_ATYPE_STATIC \<equiv> 0x00"
abbreviation (input) PB_ATYPE_POINTER :: u8 where "PB_ATYPE_POINTER \<equiv> 0x80"
abbreviation (input) PB_ATYPE_CALLBACK :: u8 where "PB_ATYPE_CALLBACK \<equiv> 0x40"

definition PB_ATYPE :: "u8 \<Rightarrow> u8" where "PB_ATYPE x = x AND 0xC0"
definition PB_HTYPE :: "u8 \<Rightarrow> u8" where "PB_HTYPE x = x AND 0x30"
definition PB_LTYPE :: "u8 \<Rightarrow> u8" where "PB_LTYPE x = x AND 0x0F"

abbreviation (input) PB_SIZE_MAX :: u32 where "PB_SIZE_MAX \<equiv> 0xFFFFFFFF"

record pb_field =
  f_tag :: u32
  f_type :: u8
  f_data_offset :: u32
  f_size_offset :: int
  f_data_size :: u32
  f_array_size :: u32
  f_ptr :: nat

definition PB_LAST_FIELD :: pb_field where
  "PB_LAST_FIELD =
     \<lparr>f_tag = 0, f_type = 0, f_data_offset = 0, f_size_offset = 0, f_data_size = 0,
      f_array_size = 0, f_ptr = 0\<rparr>"

text \<open>Descriptor arrays by their address.\<close>

type_synonym descs = "nat \<Rightarrow> pb_field list option"

definition field_at :: "pb_field list \<Rightarrow> nat \<Rightarrow> pb_field" where
  "field_at fs i = (if i < length fs then fs ! i else PB_LAST_FIELD)"

subsection \<open>The field iterator\<close>

text \<open>
  Where the count or presence flag of a field is stored: in memory, or in the local variable
  \<open>fixed_count_size\<close> of pb_decode_noinit.
\<close>

datatype size_loc = At nat | Fixed_count

text \<open>\<open>it_start\<close> is the descriptor array, \<open>it_pos\<close> the index of the current entry in it.\<close>

record pb_iter =
  it_start :: "pb_field list"
  it_pos :: nat
  it_required_field_index :: nat
  it_dest_struct :: nat
  it_pData :: nat
  it_pSize :: size_loc

abbreviation it_field :: "pb_iter \<Rightarrow> pb_field" where
  "it_field it \<equiv> field_at (it_start it) (it_pos it)"

definition offset_addr :: "nat \<Rightarrow> int \<Rightarrow> nat" where
  "offset_addr a off = nat (int a + off)"

definition pb_field_iter_begin :: "pb_field list \<Rightarrow> nat \<Rightarrow> bool \<times> pb_iter" where
  "pb_field_iter_begin fs dest_struct =
     (let pos = field_at fs 0;
          pData = (if dest_struct = 0 then 0 else dest_struct + unat (f_data_offset pos));
          pSize = (if dest_struct = 0 then 0 else offset_addr pData (f_size_offset pos))
      in (f_tag pos \<noteq> 0,
          \<lparr>it_start = fs, it_pos = 0, it_required_field_index = 0,
           it_dest_struct = dest_struct, it_pData = pData, it_pSize = At pSize\<rparr>))"

definition pb_field_iter_next :: "pb_iter \<Rightarrow> bool \<times> pb_iter" where
  "pb_field_iter_next iter =
     (let prev_field = it_field iter in
      if f_tag prev_field = 0 then (False, iter)
      else
        (let iter = iter\<lparr>it_pos := Suc (it_pos iter)\<rparr>; pos = it_field iter in
         if f_tag pos = 0
         then (False, snd (pb_field_iter_begin (it_start iter) (it_dest_struct iter)))
         else if PB_HTYPE (f_type prev_field) = PB_HTYPE_ONEOF \<and>
                 PB_HTYPE (f_type pos) = PB_HTYPE_ONEOF \<and> f_data_offset pos = PB_SIZE_MAX
         then (True, iter)
         else
           (let prev_size =
                  (if PB_ATYPE (f_type prev_field) = PB_ATYPE_STATIC \<and>
                      PB_HTYPE (f_type prev_field) = PB_HTYPE_REPEATED
                   then unat (f_data_size prev_field) * unat (f_array_size prev_field)
                   else if PB_ATYPE (f_type prev_field) = PB_ATYPE_POINTER then 8
                   else unat (f_data_size prev_field));
                iter = (if PB_HTYPE (f_type prev_field) = PB_HTYPE_REQUIRED
                        then iter\<lparr>it_required_field_index := Suc (it_required_field_index iter)\<rparr>
                        else iter);
                pData = it_pData iter + prev_size + unat (f_data_offset pos)
            in (True, iter\<lparr>it_pData := pData,
                           it_pSize := At (offset_addr pData (f_size_offset pos))\<rparr>))))"

text \<open>
  The do-while loop of pb_field_iter_find. The fuel bounds the rounds; one more than the number
  of fields is enough (below).
\<close>

fun iter_find_loop :: "nat \<Rightarrow> nat \<Rightarrow> pb_iter \<Rightarrow> u32 \<Rightarrow> (bool \<times> pb_iter) option" where
  "iter_find_loop 0 start iter tag = None"
| "iter_find_loop (Suc n) start iter tag =
     (if f_tag (it_field iter) = tag \<and> PB_LTYPE (f_type (it_field iter)) \<noteq> PB_LTYPE_EXTENSION
      then Some (True, iter)
      else (let iter = snd (pb_field_iter_next iter) in
            if it_pos iter \<noteq> start then iter_find_loop n start iter tag
            else Some (False, iter)))"

definition pb_field_iter_find :: "pb_iter \<Rightarrow> u32 \<Rightarrow> (bool \<times> pb_iter) option" where
  "pb_field_iter_find iter tag =
     iter_find_loop (Suc (length (it_start iter))) (it_pos iter) iter tag"

lemma iter_next_start [simp]:
  "it_start (snd (pb_field_iter_next it)) = it_start it"
  "it_dest_struct (snd (pb_field_iter_next it)) = it_dest_struct it"
  by (simp_all add: pb_field_iter_next_def pb_field_iter_begin_def Let_def)

lemma iter_next_TrueD:
  "pb_field_iter_next it = (True, it') \<Longrightarrow>
   it_pos it' = Suc (it_pos it) \<and> it_start it' = it_start it \<and> it_pos it' < length (it_start it)"
  by (auto simp: pb_field_iter_next_def Let_def field_at_def PB_LAST_FIELD_def split: if_splits)

text \<open>The loop \<open>do ... while (pb_field_iter_next(&iter))\<close> as the list of its iterators.\<close>

function iter_list :: "pb_iter \<Rightarrow> pb_iter list" where
  "iter_list it =
     it # (case pb_field_iter_next it of
             (ok, it') \<Rightarrow> if ok then iter_list it' else [])"
  by pat_completeness auto
termination
proof (relation "measure (\<lambda>it. length (it_start it) - it_pos it)")
  fix it ok it'
  assume "(ok, it') = pb_field_iter_next it" ok
  then have "pb_field_iter_next it = (True, it')" by simp
  from iter_next_TrueD [OF this]
  show "(it', it) \<in> measure (\<lambda>it. length (it_start it) - it_pos it)" by auto
qed simp

declare iter_list.simps [simp del]

subsection \<open>Where the iterator points\<close>

text \<open>Descriptors without a terminator inside; nothing else is asked of them here.\<close>

definition fields_ok :: "pb_field list \<Rightarrow> bool" where
  "fields_ok fs \<longleftrightarrow> fs \<noteq> [] \<and> (\<forall>f\<in>set fs. f_tag f \<noteq> 0)"

text \<open>The iterator at entry \<open>i\<close>, from the beginning.\<close>

fun iter_at :: "pb_field list \<Rightarrow> nat \<Rightarrow> nat \<Rightarrow> pb_iter" where
  "iter_at fs dest 0 = snd (pb_field_iter_begin fs dest)"
| "iter_at fs dest (Suc i) = snd (pb_field_iter_next (iter_at fs dest i))"

lemma field_at_tag: "fields_ok fs \<Longrightarrow> f_tag (field_at fs i) \<noteq> 0 \<longleftrightarrow> i < length fs"
  by (auto simp: fields_ok_def field_at_def PB_LAST_FIELD_def)

lemma iter_begin_ok: "fields_ok fs \<Longrightarrow> pb_field_iter_begin fs dest = (True, iter_at fs dest 0)"
  using field_at_tag [of fs 0] by (auto simp: pb_field_iter_begin_def Let_def fields_ok_def)

lemma iter_next_cases:
  assumes "fields_ok (it_start it)" "it_pos it < length (it_start it)"
  shows "it_start (snd (pb_field_iter_next it)) = it_start it \<and>
     it_dest_struct (snd (pb_field_iter_next it)) = it_dest_struct it \<and>
     (if Suc (it_pos it) < length (it_start it)
      then fst (pb_field_iter_next it) \<and> it_pos (snd (pb_field_iter_next it)) = Suc (it_pos it)
      else pb_field_iter_next it = (False, iter_at (it_start it) (it_dest_struct it) 0))"
  using field_at_tag [OF assms(1), of "it_pos it"] field_at_tag [OF assms(1), of "Suc (it_pos it)"]
    assms(2)
  by (auto simp: pb_field_iter_next_def pb_field_iter_begin_def Let_def)

lemma iter_at_fields:
  assumes "fields_ok fs" "i < length fs"
  shows "it_start (iter_at fs dest i) = fs \<and> it_pos (iter_at fs dest i) = i \<and>
    it_dest_struct (iter_at fs dest i) = dest"
  using assms(2)
proof (induction i)
  case 0
  then show ?case by (simp add: pb_field_iter_begin_def Let_def)
next
  case (Suc i)
  then show ?case using iter_next_cases [of "iter_at fs dest i"] assms(1) by simp
qed

lemma iter_next_at:
  assumes "fields_ok fs" "i < length fs"
  shows "pb_field_iter_next (iter_at fs dest i) =
    (if Suc i < length fs then (True, iter_at fs dest (Suc i)) else (False, iter_at fs dest 0))"
  using iter_next_cases [of "iter_at fs dest i"] iter_at_fields [OF assms, of dest] assms
  by (cases "pb_field_iter_next (iter_at fs dest i)") auto

lemma iter_list_at:
  assumes "fields_ok fs" "i < length fs"
  shows "iter_list (iter_at fs dest i) = map (iter_at fs dest) [i ..< length fs]"
  using assms(2)
proof (induction "length fs - i" arbitrary: i)
  case (Suc d)
  show ?case
  proof (cases "Suc i < length fs")
    case True
    have "d = length fs - Suc i" using Suc.hyps(2) by simp
    then show ?thesis
      using Suc.hyps(1) [of "Suc i"] True Suc.prems iter_next_at [OF assms(1) Suc.prems]
      by (subst iter_list.simps) (simp add: upt_conv_Cons del: iter_at.simps)
  next
    case False
    then have "length fs = Suc i" using Suc.prems by simp
    then show ?thesis
      using iter_next_at [OF assms(1) Suc.prems]
      by (subst iter_list.simps) (simp del: iter_at.simps)
  qed
qed simp

subsection \<open>Finding a field\<close>

definition is_field :: "pb_field list \<Rightarrow> u32 \<Rightarrow> nat \<Rightarrow> bool" where
  "is_field fs tag i \<longleftrightarrow>
     f_tag (field_at fs i) = tag \<and> PB_LTYPE (f_type (field_at fs i)) \<noteq> PB_LTYPE_EXTENSION"

text \<open>The entries from \<open>p\<close> on, in the order of the iterator, up to the one before \<open>start\<close>.\<close>

definition entries_from :: "nat \<Rightarrow> nat \<Rightarrow> nat \<Rightarrow> nat list" where
  "entries_from len start p = (if start \<le> p then [p ..< len] @ [0 ..< start] else [p ..< start])"

definition next_index :: "nat \<Rightarrow> nat \<Rightarrow> nat" where
  "next_index len p = (if Suc p < len then Suc p else 0)"

lemma entries_from_step:
  assumes "p < len" "start < len"
  shows "entries_from len start p =
    p # (if next_index len p = start then [] else entries_from len start (next_index len p))"
proof (cases "start \<le> p")
  case True
  show ?thesis
  proof (cases "Suc p < len")
    case False
    with assms have "len = Suc p" by simp
    with True show ?thesis by (auto simp: entries_from_def next_index_def)
  qed (use True assms in \<open>auto simp: entries_from_def next_index_def upt_conv_Cons\<close>)
next
  case False
  with assms show ?thesis
    by (cases "Suc p = start") (auto simp: entries_from_def next_index_def upt_conv_Cons)
qed

lemma iter_find_loop_at:
  assumes "fields_ok fs" "p < length fs" "start < length fs"
    "length (entries_from (length fs) start p) \<le> n"
  shows "iter_find_loop n start (iter_at fs dest p) tag =
    Some (case List.find (is_field fs tag) (entries_from (length fs) start p) of
            Some j \<Rightarrow> (True, iter_at fs dest j)
          | None \<Rightarrow> (False, iter_at fs dest start))"
  using assms(2,4)
proof (induction n arbitrary: p)
  case 0
  then show ?case using entries_from_step [OF 0(1) assms(3)] by simp
next
  case (Suc n)
  note step = entries_from_step [OF Suc.prems(1) assms(3)]
  note at = iter_at_fields [OF assms(1) Suc.prems(1), of dest]
  have lt: "next_index (length fs) p < length fs"
    using Suc.prems(1) by (auto simp: next_index_def)
  have nx: "snd (pb_field_iter_next (iter_at fs dest p)) = iter_at fs dest (next_index (length fs) p)"
    using iter_next_at [OF assms(1) Suc.prems(1), of dest] by (simp add: next_index_def del: iter_at.simps)
  have pos: "it_pos (iter_at fs dest (next_index (length fs) p)) = next_index (length fs) p"
    using iter_at_fields [OF assms(1) lt, of dest] by simp
  show ?case
  proof (cases "is_field fs tag p")
    case True
    then show ?thesis using step at by (simp add: is_field_def Let_def)
  next
    case False
    then have "iter_find_loop (Suc n) start (iter_at fs dest p) tag =
        (if next_index (length fs) p \<noteq> start
         then iter_find_loop n start (iter_at fs dest (next_index (length fs) p)) tag
         else Some (False, iter_at fs dest start))"
      using at nx pos by (auto simp: is_field_def Let_def simp del: iter_at.simps)
    moreover have "next_index (length fs) p \<noteq> start \<Longrightarrow>
        iter_find_loop n start (iter_at fs dest (next_index (length fs) p)) tag =
        Some (case List.find (is_field fs tag)
                (entries_from (length fs) start (next_index (length fs) p)) of
            Some j \<Rightarrow> (True, iter_at fs dest j)
          | None \<Rightarrow> (False, iter_at fs dest start))"
      using Suc.prems(2) step by (intro Suc.IH lt) simp
    ultimately show ?thesis using step False by (simp del: iter_at.simps)
  qed
qed

lemma pb_field_iter_find_at:
  assumes "fields_ok fs" "p < length fs"
  shows "pb_field_iter_find (iter_at fs dest p) tag =
    Some (case List.find (is_field fs tag) ([p ..< length fs] @ [0 ..< p]) of
            Some j \<Rightarrow> (True, iter_at fs dest j)
          | None \<Rightarrow> (False, iter_at fs dest p))"
  using iter_find_loop_at [OF assms(1,2,2), of "Suc (length fs)" dest tag]
    iter_at_fields [OF assms, of dest] assms(2)
  by (simp add: pb_field_iter_find_def entries_from_def)

subsection \<open>Properties\<close>

text \<open>
  C25. pb_field_iter_begin and pb_field_iter_next visit every field of a message once, in the order
  of the descriptors, and end with the iterator back at the first field.
\<close>

theorem iterator_visits_every_field:
  assumes "fields_ok fs"
  shows "map it_pos (iter_list (snd (pb_field_iter_begin fs dest))) = [0 ..< length fs] \<and>
    pb_field_iter_next (last (iter_list (snd (pb_field_iter_begin fs dest)))) =
      (False, snd (pb_field_iter_begin fs dest))"
proof -
  have len: "0 < length fs" using assms by (simp add: fields_ok_def)
  have "map it_pos (map (iter_at fs dest) [0 ..< length fs]) = map id [0 ..< length fs]"
    unfolding map_map by (rule map_cong) (simp_all add: iter_at_fields [OF assms])
  moreover have "iter_list (snd (pb_field_iter_begin fs dest)) = map (iter_at fs dest) [0 ..< length fs]"
    using iter_list_at [OF assms len] by simp
  moreover have "last (map (iter_at fs dest) [0 ..< length fs]) = iter_at fs dest (length fs - 1)"
    using len by (subst last_map) auto
  moreover have "pb_field_iter_next (iter_at fs dest (length fs - 1)) = (False, iter_at fs dest 0)"
    using iter_next_at [OF assms, of "length fs - 1"] len by simp
  ultimately show ?thesis by simp
qed

theorem iterator_visits_every_field_witness:
  "let fs = [PB_LAST_FIELD\<lparr>f_tag := 1, f_data_size := 4\<rparr>, PB_LAST_FIELD\<lparr>f_tag := 3\<rparr>] in
   map it_pos (iter_list (snd (pb_field_iter_begin fs 100))) = [0 ..< length fs]"
  using iterator_visits_every_field [of "[PB_LAST_FIELD\<lparr>f_tag := 1, f_data_size := 4\<rparr>,
      PB_LAST_FIELD\<lparr>f_tag := 3\<rparr>]" 100]
  by (simp add: fields_ok_def)

text \<open>
  C26. From any position pb_field_iter_find terminates and finds the first field with the tag, in
  cyclic order, that is no extension placeholder; the iterator then has the data and size
  pointers of that field. When there is none it ends where it started.
\<close>

theorem iterator_find_complete:
  assumes "fields_ok fs" "p < length fs"
  shows "pb_field_iter_find (iter_at fs dest p) tag =
    Some (case List.find (is_field fs tag) ([p ..< length fs] @ [0 ..< p]) of
            Some j \<Rightarrow> (True, iter_at fs dest j)
          | None \<Rightarrow> (False, iter_at fs dest p))"
  using assms by (rule pb_field_iter_find_at)

theorem iterator_find_complete_witness:
  "let fs = [PB_LAST_FIELD\<lparr>f_tag := 1, f_data_size := 4\<rparr>, PB_LAST_FIELD\<lparr>f_tag := 3\<rparr>] in
   pb_field_iter_find (iter_at fs 100 1) 1 = Some (True, iter_at fs 100 0)"
  using iterator_find_complete [of "[PB_LAST_FIELD\<lparr>f_tag := 1, f_data_size := 4\<rparr>,
      PB_LAST_FIELD\<lparr>f_tag := 3\<rparr>]" 1 100 1]
  by (simp add: fields_ok_def is_field_def field_at_def PB_LTYPE_def PB_LAST_FIELD_def)

end
