(* ===== verification/Pb_Encode.thy ===== *)
theory Pb_Encode
  imports Pb_Field
begin

text \<open>
  The message encoder of nanopb (pb_encode.c): arrays, the proto3 default check, static, pointer,
  callback and extension fields, pb_encode and its variants, submessages, and the field encoders.

  Messages nest, so pb_encode takes a fuel argument that bounds the nesting depth (and the length
  of extension lists, which live in memory); running out of it is \<open>None\<close>, like a read outside of
  live memory or a call through a NULL function pointer. User functions (encoding callbacks and
  custom extension encoders) are parameters, found by their address.
\<close>

subsection \<open>The environment of an encoder\<close>

text \<open>
  What an encoder reads: memory, descriptor arrays, the user's functions by address (with the
  descriptor and the address of \<open>arg\<close>, or with the address of the pb_extension_t), and the NULL
  stream state of PB_OSTREAM_SIZING.
\<close>

record 's enc_env =
  ee_mem :: mem
  ee_descs :: descs
  ee_callback :: "nat \<Rightarrow> pb_field \<Rightarrow> nat \<Rightarrow> 's enc"
  ee_extension :: "nat \<Rightarrow> nat \<Rightarrow> 's enc"
  ee_null :: 's

text \<open>The encoder continues with a value read from memory.\<close>

definition with_value :: "'a option \<Rightarrow> ('a \<Rightarrow> 's enc) \<Rightarrow> 's enc" where
  "with_value x f s = (case x of None \<Rightarrow> None | Some v \<Rightarrow> f v s)"

definition os_undefined :: "'s enc" where
  "os_undefined s = None"

definition safe_read_bool :: "mem \<Rightarrow> nat \<Rightarrow> bool option" where
  "safe_read_bool m p = map_option (\<lambda>b. b \<noteq> 0) (m p)"

subsection \<open>Tags\<close>

definition field_wire_type :: "u8 \<Rightarrow> pb_wire_type option" where
  "field_wire_type ltype =
     (if ltype = PB_LTYPE_BOOL \<or> ltype = PB_LTYPE_VARINT \<or> ltype = PB_LTYPE_UVARINT \<or>
         ltype = PB_LTYPE_SVARINT then Some PB_WT_VARINT
      else if ltype = PB_LTYPE_FIXED32 then Some PB_WT_32BIT
      else if ltype = PB_LTYPE_FIXED64 then Some PB_WT_64BIT
      else if ltype = PB_LTYPE_BYTES \<or> ltype = PB_LTYPE_STRING \<or>
              ltype = PB_LTYPE_SUBMESSAGE \<or> ltype = PB_LTYPE_FIXED_LENGTH_BYTES
      then Some PB_WT_STRING
      else None)"

definition pb_encode_tag_for_field :: "pb_field \<Rightarrow> 's enc" where
  "pb_encode_tag_for_field f =
     (case field_wire_type (PB_LTYPE (f_type f)) of
        None \<Rightarrow> os_fail ''invalid field type''
      | Some wiretype \<Rightarrow> pb_encode_tag wiretype (f_tag f))"

subsection \<open>Submessages\<close>

text \<open>\<open>sub\<close> is pb_encode, one nesting level deeper: descriptor address, structure address.\<close>

definition pb_encode_submessage ::
  "'s \<Rightarrow> (nat \<Rightarrow> nat \<Rightarrow> 's enc) \<Rightarrow> nat \<Rightarrow> nat \<Rightarrow> 's enc" where
  "pb_encode_submessage null sub flds src s =
     (case sub flds src (pb_ostream_sizing null) of
        None \<Rightarrow> None
      | Some (ok, substream) \<Rightarrow>
          if \<not> ok then Some (False, s\<lparr>os_errmsg := os_errmsg substream\<rparr>)
          else
            (let size = os_bytes_written substream in
             os_then (pb_encode_varint (of_nat size))
               (\<lambda>s. if os_callback s = None then pb_write None size s
                     else if os_max_size s < size_add (os_bytes_written s) size
                     then os_fail ''stream full'' s
                     else
                       (case sub flds src
                               \<lparr>os_callback = os_callback s, os_state = os_state s,
                                os_max_size = size, os_bytes_written = 0, os_errmsg = None\<rparr> of
                          None \<Rightarrow> None
                        | Some (status, substream) \<Rightarrow>
                            (let s = s\<lparr>os_bytes_written :=
                                         size_add (os_bytes_written s) (os_bytes_written substream),
                                       os_state := os_state substream,
                                       os_errmsg := os_errmsg substream\<rparr>
                             in if os_bytes_written substream \<noteq> size
                                then os_fail ''submsg size changed'' s
                                else Some (status, s)))) s))"

subsection \<open>Field encoders\<close>

definition pb_enc_bool :: "mem \<Rightarrow> pb_field \<Rightarrow> nat \<Rightarrow> 's enc" where
  "pb_enc_bool m f src =
     with_value (safe_read_bool m src) (\<lambda>b. pb_encode_varint (if b then 1 else 0))"

text \<open>An integer of \<open>data_size\<close> bytes in memory, converted to 64 bits with or without sign.\<close>

definition load_signed :: "mem \<Rightarrow> nat \<Rightarrow> nat \<Rightarrow> u64 option" where
  "load_signed m src data_size =
     map_option (signed_take_bit (8 * data_size - 1)) (load_word m src data_size)"

definition load_unsigned :: "mem \<Rightarrow> nat \<Rightarrow> nat \<Rightarrow> u64 option" where
  "load_unsigned m src data_size = load_word m src data_size"

definition int_size :: "u32 \<Rightarrow> bool" where
  "int_size data_size \<longleftrightarrow> data_size = 1 \<or> data_size = 2 \<or> data_size = 4 \<or> data_size = 8"

definition pb_enc_varint :: "mem \<Rightarrow> pb_field \<Rightarrow> nat \<Rightarrow> 's enc" where
  "pb_enc_varint m f src =
     (if int_size (f_data_size f)
      then with_value (load_signed m src (unat (f_data_size f))) pb_encode_varint
      else os_fail ''invalid data_size'')"

definition pb_enc_uvarint :: "mem \<Rightarrow> pb_field \<Rightarrow> nat \<Rightarrow> 's enc" where
  "pb_enc_uvarint m f src =
     (if int_size (f_data_size f)
      then with_value (load_unsigned m src (unat (f_data_size f))) pb_encode_varint
      else os_fail ''invalid data_size'')"

definition pb_enc_svarint :: "mem \<Rightarrow> pb_field \<Rightarrow> nat \<Rightarrow> 's enc" where
  "pb_enc_svarint m f src =
     (if int_size (f_data_size f)
      then with_value (load_signed m src (unat (f_data_size f))) pb_encode_svarint
      else os_fail ''invalid data_size'')"

definition pb_enc_fixed32 :: "mem \<Rightarrow> pb_field \<Rightarrow> nat \<Rightarrow> 's enc" where
  "pb_enc_fixed32 m f src = with_value (load_u32 m src) pb_encode_fixed32"

definition pb_enc_fixed64 :: "mem \<Rightarrow> pb_field \<Rightarrow> nat \<Rightarrow> 's enc" where
  "pb_enc_fixed64 m f src = with_value (load_unsigned m src 8) pb_encode_fixed64"

definition pb_enc_bytes :: "mem \<Rightarrow> pb_field \<Rightarrow> nat \<Rightarrow> 's enc" where
  "pb_enc_bytes m f src =
     (if src = 0 then pb_encode_string None 0
      else with_value (load_u32 m src) (\<lambda>size.
        if PB_ATYPE (f_type f) = PB_ATYPE_STATIC \<and> size_sub (unat (f_data_size f)) 4 < unat size
        then os_fail ''bytes size exceeded''
        else pb_encode_string (load_bytes m (src + 4) (unat size)) (unat size)))"

text \<open>The loop that looks for the end of a string of at most \<open>max_size\<close> bytes.\<close>

function string_size :: "mem \<Rightarrow> nat \<Rightarrow> nat \<Rightarrow> nat \<Rightarrow> nat option" where
  "string_size m max_size i p =
     (if i < max_size
      then (case m p of
              None \<Rightarrow> None
            | Some c \<Rightarrow> if c \<noteq> 0 then string_size m max_size (Suc i) (Suc p) else Some i)
      else Some i)"
  by pat_completeness auto
termination
  by (relation "measure (\<lambda>(m, max_size, i, p). max_size - i)") auto

declare string_size.simps [simp del]

definition pb_enc_string :: "mem \<Rightarrow> pb_field \<Rightarrow> nat \<Rightarrow> 's enc" where
  "pb_enc_string m f src =
     (let max_size = (if PB_ATYPE (f_type f) = PB_ATYPE_POINTER then 2 ^ 64 - 1
                      else unat (f_data_size f))
      in if src = 0 then pb_encode_string None 0
         else with_value (string_size m max_size 0 src)
                (\<lambda>size. pb_encode_string (load_bytes m src size) size))"

definition pb_enc_submessage ::
  "'s \<Rightarrow> (nat \<Rightarrow> nat \<Rightarrow> 's enc) \<Rightarrow> pb_field \<Rightarrow> nat \<Rightarrow> 's enc" where
  "pb_enc_submessage null sub f src =
     (if f_ptr f = 0 then os_fail ''invalid field descriptor''
      else pb_encode_submessage null sub (f_ptr f) src)"

definition pb_enc_fixed_length_bytes :: "mem \<Rightarrow> pb_field \<Rightarrow> nat \<Rightarrow> 's enc" where
  "pb_enc_fixed_length_bytes m f src =
     pb_encode_string (if src = 0 then None else load_bytes m src (unat (f_data_size f)))
       (unat (f_data_size f))"

text \<open>The table PB_ENCODERS; a NULL entry or an index outside of it cannot be called.\<close>

definition PB_ENCODERS ::
  "'s enc_env \<Rightarrow> (nat \<Rightarrow> nat \<Rightarrow> 's enc) \<Rightarrow> u8 \<Rightarrow> pb_field \<Rightarrow> nat \<Rightarrow> 's enc" where
  "PB_ENCODERS env sub ltype =
     (let m = ee_mem env in
      if ltype = 0 then pb_enc_bool m
      else if ltype = 1 then pb_enc_varint m
      else if ltype = 2 then pb_enc_uvarint m
      else if ltype = 3 then pb_enc_svarint m
      else if ltype = 4 then pb_enc_fixed32 m
      else if ltype = 5 then pb_enc_fixed64 m
      else if ltype = 6 then pb_enc_bytes m
      else if ltype = 7 then pb_enc_string m
      else if ltype = 8 then pb_enc_submessage (ee_null env) sub
      else if ltype = 10 then pb_enc_fixed_length_bytes m
      else (\<lambda>f src. os_undefined))"

subsection \<open>Arrays\<close>

text \<open>\<open>count\<close> items, \<open>step\<close> bytes apart.\<close>

fun encode_items :: "(nat \<Rightarrow> 's enc) \<Rightarrow> nat \<Rightarrow> nat \<Rightarrow> nat \<Rightarrow> 's enc" where
  "encode_items item step 0 p = os_return"
| "encode_items item step (Suc count) p =
     os_then (item p) (encode_items item step count (p + step))"

definition encode_array ::
  "'s enc_env \<Rightarrow> pb_field \<Rightarrow> nat \<Rightarrow> nat \<Rightarrow> (pb_field \<Rightarrow> nat \<Rightarrow> 's enc) \<Rightarrow> 's enc" where
  "encode_array env f pData count func s =
     (let step = unat (f_data_size f); ltype = PB_LTYPE (f_type f) in
      if count = 0 then os_return s
      else if PB_ATYPE (f_type f) \<noteq> PB_ATYPE_POINTER \<and> unat (f_array_size f) < count
      then os_fail ''array max size exceeded'' s
      else if ltype \<le> PB_LTYPE_LAST_PACKABLE then
        os_then (pb_encode_tag PB_WT_STRING (f_tag f))
          (\<lambda>s. case (if ltype = PB_LTYPE_FIXED32 then Some (Some (4 * count))
                     else if ltype = PB_LTYPE_FIXED64 then Some (Some (8 * count))
                     else (case encode_items (func f) step count pData
                                  (pb_ostream_sizing (ee_null env)) of
                             None \<Rightarrow> None
                           | Some (ok, sizestream) \<Rightarrow>
                               Some (if ok then Some (os_bytes_written sizestream) else None))) of
                 None \<Rightarrow> None
               | Some None \<Rightarrow> Some (False, s)
               | Some (Some len) \<Rightarrow>
                   os_then (pb_encode_varint (of_nat len))
                     (\<lambda>s. if os_callback s = None then pb_write None len s
                           else encode_items (func f) step count pData s) s) s
      else
        encode_items
          (\<lambda>p. os_then (pb_encode_tag_for_field f)
             (if PB_ATYPE (f_type f) = PB_ATYPE_POINTER \<and>
                 (ltype = PB_LTYPE_STRING \<or> ltype = PB_LTYPE_BYTES)
              then with_value (load_ptr (ee_mem env) p) (func f)
              else func f p)) step count pData s)"

subsection \<open>The proto3 default check\<close>

function fields_all :: "(pb_iter \<Rightarrow> bool option) \<Rightarrow> pb_iter \<Rightarrow> bool option" where
  "fields_all check iter =
     (case check iter of
        None \<Rightarrow> None
      | Some ok \<Rightarrow>
          if \<not> ok then Some False
          else (case pb_field_iter_next iter of
                  (again, iter') \<Rightarrow> if again then fields_all check iter' else Some True))"
  by pat_completeness auto
termination
proof (relation "measure (\<lambda>(check, it). length (it_start it) - it_pos it)")
  fix it again it'
  assume "(again, it') = pb_field_iter_next it" again
  then have "pb_field_iter_next it = (True, it')" by simp
  from iter_next_TrueD [OF this]
  show "((check, it'), (check, it)) \<in> measure (\<lambda>(check, it). length (it_start it) - it_pos it)"
    for check by auto
qed simp

declare fields_all.simps [simp del]

definition all_zero :: "mem \<Rightarrow> nat \<Rightarrow> nat \<Rightarrow> bool option" where
  "all_zero m p n = map_option (\<lambda>bs. \<forall>b\<in>set bs. b = 0) (load_bytes m p n)"

fun pb_check_proto3_default_value :: "nat \<Rightarrow> mem \<Rightarrow> descs \<Rightarrow> pb_field \<Rightarrow> nat \<Rightarrow> bool option" where
  "pb_check_proto3_default_value 0 m ds f pData = None"
| "pb_check_proto3_default_value (Suc n) m ds f pData =
     (let type = f_type f; pSize = offset_addr pData (f_size_offset f); ltype = PB_LTYPE type;
          count_zero = map_option (\<lambda>c. c = 0) (load_u32 m pSize);
          proto3_value =
            (if PB_ATYPE type = PB_ATYPE_STATIC \<and> ltype = PB_LTYPE_BYTES
             then map_option (\<lambda>size. size = 0) (load_u32 m pData)
             else if PB_ATYPE type = PB_ATYPE_STATIC \<and> ltype = PB_LTYPE_STRING
             then map_option (\<lambda>c. c = 0) (m pData)
             else if PB_ATYPE type = PB_ATYPE_STATIC \<and> ltype = PB_LTYPE_FIXED_LENGTH_BYTES
             then Some (f_data_size f = 0)
             else if PB_ATYPE type = PB_ATYPE_STATIC \<and> ltype = PB_LTYPE_SUBMESSAGE
             then (case ds (f_ptr f) of
                     None \<Rightarrow> None
                   | Some fs \<Rightarrow>
                       (case pb_field_iter_begin fs pData of
                          (nonempty, iter) \<Rightarrow>
                            if nonempty
                            then fields_all (\<lambda>it. pb_check_proto3_default_value n m ds
                                                    (it_field it) (it_pData it)) iter
                            else Some True))
             else if PB_ATYPE type = PB_ATYPE_POINTER \<and> PB_LTYPE_LAST_PACKABLE < ltype
             then map_option (\<lambda>p. p = 0) (load_ptr m pData)
             else all_zero m pData (unat (f_data_size f)))
      in if PB_HTYPE type = PB_HTYPE_REQUIRED then Some False
         else if PB_HTYPE type = PB_HTYPE_REPEATED \<and> f_size_offset f \<noteq> 0 then count_zero
         else if PB_HTYPE type = PB_HTYPE_REPEATED \<and> PB_ATYPE type = PB_ATYPE_STATIC
         then Some False
         else if PB_HTYPE type = PB_HTYPE_ONEOF then count_zero
         else if PB_HTYPE type = PB_HTYPE_OPTIONAL \<and> f_size_offset f \<noteq> 0
         then map_option Not (safe_read_bool m pSize)
         else proto3_value)"

declare pb_check_proto3_default_value.simps [simp del]

subsection \<open>Fields\<close>

text \<open>
  \<open>check\<close> is pb_check_proto3_default_value. \<open>has\<close> is what safe_read_bool(pSize) reads: the has_ flag
  in memory or the local \<open>implicit_has\<close>.
\<close>

definition encode_basic_field ::
  "'s enc_env \<Rightarrow> (nat \<Rightarrow> nat \<Rightarrow> 's enc) \<Rightarrow> (pb_field \<Rightarrow> nat \<Rightarrow> bool option) \<Rightarrow> pb_field \<Rightarrow>
   nat \<Rightarrow> 's enc" where
  "encode_basic_field env sub check f pData0 s =
     (let m = ee_mem env; type = f_type f; func = PB_ENCODERS env sub (PB_LTYPE type);
          pSize = offset_addr pData0 (f_size_offset f);
          pointer = (PB_ATYPE type = PB_ATYPE_POINTER)
      in
      (case (if f_size_offset f \<noteq> 0 then Some True
             else if PB_HTYPE type = PB_HTYPE_OPTIONAL then map_option Not (check f pData0)
             else Some True) of
         None \<Rightarrow> None
       | Some implicit_has0 \<Rightarrow>
       (case (if pointer then load_ptr m pData0 else Some pData0) of
          None \<Rightarrow> None
        | Some pData \<Rightarrow>
            (let implicit_has = (if pointer then pData \<noteq> 0 else implicit_has0);
                 has = (if f_size_offset f \<noteq> 0 then safe_read_bool m pSize else Some implicit_has);
                 encode_one = os_then (pb_encode_tag_for_field f) (func f pData)
             in if PB_HTYPE type = PB_HTYPE_REQUIRED
                then (if pData = 0 then os_fail ''missing required field'' s else encode_one s)
                else if PB_HTYPE type = PB_HTYPE_OPTIONAL
                then with_value has (\<lambda>h. if h then encode_one else os_return) s
                else if PB_HTYPE type = PB_HTYPE_REPEATED
                then with_value (if f_size_offset f \<noteq> 0 then load_u32 m pSize
                                 else Some (f_array_size f))
                       (\<lambda>count. encode_array env f pData (unat count) func) s
                else with_value (if f_size_offset f \<noteq> 0 then load_u32 m pSize else None)
                       (\<lambda>which. if which = f_tag f then encode_one else os_return) s))))"

text \<open>A pb_callback_t: the function pointer, then \<open>arg\<close>.\<close>

definition encode_callback_field :: "'s enc_env \<Rightarrow> pb_field \<Rightarrow> nat \<Rightarrow> 's enc" where
  "encode_callback_field env f pData =
     with_value (load_ptr (ee_mem env) pData) (\<lambda>encode s.
       if encode \<noteq> 0
       then (case ee_callback env encode f (pData + 8) s of
               None \<Rightarrow> None
             | Some (ok, s') \<Rightarrow> if ok then Some (True, s') else os_fail ''callback error'' s')
       else Some (True, s))"

definition encode_field ::
  "'s enc_env \<Rightarrow> (nat \<Rightarrow> nat \<Rightarrow> 's enc) \<Rightarrow> (pb_field \<Rightarrow> nat \<Rightarrow> bool option) \<Rightarrow> pb_field \<Rightarrow>
   nat \<Rightarrow> 's enc" where
  "encode_field env sub check f pData =
     (let atype = PB_ATYPE (f_type f) in
      if atype = PB_ATYPE_STATIC \<or> atype = PB_ATYPE_POINTER
      then encode_basic_field env sub check f pData
      else if atype = PB_ATYPE_CALLBACK then encode_callback_field env f pData
      else os_fail ''invalid field type'')"

text \<open>
  A pb_extension_t: \<open>type\<close>, \<open>dest\<close>, \<open>next\<close> and \<open>found\<close>, at offsets 0, 8, 16 and 24; a
  pb_extension_type_t: \<open>decode\<close>, \<open>encode\<close> and \<open>arg\<close>, at offsets 0, 8 and 16. \<open>arg\<close> points to the
  descriptor of the extension field.
\<close>

definition default_extension_encoder ::
  "'s enc_env \<Rightarrow> (nat \<Rightarrow> nat \<Rightarrow> 's enc) \<Rightarrow> (pb_field \<Rightarrow> nat \<Rightarrow> bool option) \<Rightarrow> nat \<Rightarrow> 's enc" where
  "default_extension_encoder env sub check extension =
     with_value (load_ptr (ee_mem env) extension) (\<lambda>type.
     with_value (load_ptr (ee_mem env) (type + 16)) (\<lambda>arg.
     with_value (ee_descs env arg) (\<lambda>fs.
       (let f = field_at fs 0 in
        if PB_ATYPE (f_type f) = PB_ATYPE_POINTER
        then encode_field env sub check f (extension + 8)
        else with_value (load_ptr (ee_mem env) (extension + 8)) (encode_field env sub check f)))))"

fun encode_extension_loop ::
  "nat \<Rightarrow> 's enc_env \<Rightarrow> (nat \<Rightarrow> nat \<Rightarrow> 's enc) \<Rightarrow> (pb_field \<Rightarrow> nat \<Rightarrow> bool option) \<Rightarrow> nat \<Rightarrow> 's enc" where
  "encode_extension_loop 0 env sub check extension = os_undefined"
| "encode_extension_loop (Suc n) env sub check extension =
     (if extension = 0 then os_return
      else
        with_value (load_ptr (ee_mem env) extension) (\<lambda>type.
        with_value (load_ptr (ee_mem env) (type + 8)) (\<lambda>encode.
          os_then (if encode \<noteq> 0 then ee_extension env encode extension
                   else default_extension_encoder env sub check extension)
            (with_value (load_ptr (ee_mem env) (extension + 16))
               (encode_extension_loop n env sub check)))))"

definition encode_extension_field ::
  "nat \<Rightarrow> 's enc_env \<Rightarrow> (nat \<Rightarrow> nat \<Rightarrow> 's enc) \<Rightarrow> (pb_field \<Rightarrow> nat \<Rightarrow> bool option) \<Rightarrow> nat \<Rightarrow> 's enc" where
  "encode_extension_field n env sub check pData =
     with_value (load_ptr (ee_mem env) pData) (encode_extension_loop n env sub check)"

subsection \<open>Messages\<close>

function fields_loop :: "(pb_iter \<Rightarrow> 's enc) \<Rightarrow> pb_iter \<Rightarrow> 's enc" where
  "fields_loop body iter =
     os_then (body iter)
       (case pb_field_iter_next iter of
          (again, iter') \<Rightarrow> if again then fields_loop body iter' else os_return)"
  by pat_completeness auto
termination
proof (relation "measure (\<lambda>(body, it). length (it_start it) - it_pos it)")
  fix it again it'
  assume "(again, it') = pb_field_iter_next it" again
  then have "pb_field_iter_next it = (True, it')" by simp
  from iter_next_TrueD [OF this]
  show "((body, it'), (body, it)) \<in> measure (\<lambda>(body, it). length (it_start it) - it_pos it)"
    for body by auto
qed simp

declare fields_loop.simps [simp del]

fun pb_encode :: "nat \<Rightarrow> 's enc_env \<Rightarrow> nat \<Rightarrow> nat \<Rightarrow> 's enc" where
  "pb_encode 0 env flds src_struct = os_undefined"
| "pb_encode (Suc n) env flds src_struct =
     with_value (ee_descs env flds) (\<lambda>fs.
       (case pb_field_iter_begin fs src_struct of
          (nonempty, iter) \<Rightarrow>
            if nonempty
            then fields_loop
                   (\<lambda>it. if PB_LTYPE (f_type (it_field it)) = PB_LTYPE_EXTENSION
                         then encode_extension_field (Suc n) env (pb_encode n env)
                                (pb_check_proto3_default_value (Suc n) (ee_mem env) (ee_descs env))
                                (it_pData it)
                         else encode_field env (pb_encode n env)
                                (pb_check_proto3_default_value (Suc n) (ee_mem env) (ee_descs env))
                                (it_field it) (it_pData it)) iter
            else os_return))"

definition pb_encode_delimited :: "nat \<Rightarrow> 's enc_env \<Rightarrow> nat \<Rightarrow> nat \<Rightarrow> 's enc" where
  "pb_encode_delimited n env flds src_struct =
     pb_encode_submessage (ee_null env) (pb_encode n env) flds src_struct"

definition pb_encode_nullterminated :: "nat \<Rightarrow> 's enc_env \<Rightarrow> nat \<Rightarrow> nat \<Rightarrow> 's enc" where
  "pb_encode_nullterminated n env flds src_struct =
     os_then (pb_encode n env flds src_struct) (pb_write (Some [0]) 1)"

text \<open>\<open>Some None\<close> is the return value false; \<open>Some (Some size)\<close> is true with \<open>*size\<close> set.\<close>

definition pb_get_encoded_size :: "nat \<Rightarrow> 's enc_env \<Rightarrow> nat \<Rightarrow> nat \<Rightarrow> nat option option" where
  "pb_get_encoded_size n env flds src_struct =
     (case pb_encode n env flds src_struct (pb_ostream_sizing (ee_null env)) of
        None \<Rightarrow> None
      | Some (ok, s) \<Rightarrow> Some (if ok then Some (os_bytes_written s) else None))"

end
