(* ===== verification/Pb_Encode_Spec.thy ===== *)
theory Pb_Encode_Spec
  imports Pb_Encode
begin

text \<open>
  What pb_encode promises: the list of wire records a message in memory stands for, without
  streams, sizes or passes, and the proof that the encoder writes exactly the bytes of those
  records to every stream that has room for them, counts them on a sizing stream, and fails
  with a message on a stream that is too small.
\<close>

subsection \<open>Records on the wire\<close>

type_synonym wire_record = "u32 \<times> raw_value"

definition record_bytes :: "wire_record \<Rightarrow> bytes" where
  "record_bytes r = varint_bytes (tag_value (raw_type (snd r)) (fst r)) @ raw_bytes (snd r)"

definition records_bytes :: "wire_record list \<Rightarrow> bytes" where
  "records_bytes rs = concat (map record_bytes rs)"

lemma records_bytes_simps [simp]:
  "records_bytes [] = []" "records_bytes (r # rs) = record_bytes r @ records_bytes rs"
  "records_bytes (rs @ rs') = records_bytes rs @ records_bytes rs'"
  by (simp_all add: records_bytes_def)

lemma records_bytes_concat: "records_bytes (concat rss) = concat (map records_bytes rss)"
  by (induction rss) simp_all

subsection \<open>The records of a message in memory\<close>

text \<open>The value one field encoder writes; \<open>sub\<close> gives the records of a submessage.\<close>

definition value_of ::
  "mem \<Rightarrow> (nat \<Rightarrow> nat \<Rightarrow> wire_record list option) \<Rightarrow> pb_field \<Rightarrow> nat \<Rightarrow> raw_value option" where
  "value_of m sub f src =
     (let ltype = PB_LTYPE (f_type f); n = unat (f_data_size f) in
      if ltype = PB_LTYPE_BOOL
      then map_option (\<lambda>b. Raw_varint (if b then 1 else 0)) (safe_read_bool m src)
      else if ltype = PB_LTYPE_VARINT
      then (if int_size (f_data_size f) then map_option Raw_varint (load_signed m src n) else None)
      else if ltype = PB_LTYPE_UVARINT
      then (if int_size (f_data_size f) then map_option Raw_varint (load_unsigned m src n) else None)
      else if ltype = PB_LTYPE_SVARINT
      then (if int_size (f_data_size f)
            then map_option (\<lambda>v. Raw_varint (zigzag v)) (load_signed m src n) else None)
      else if ltype = PB_LTYPE_FIXED32 then map_option Raw_fixed32 (load_u32 m src)
      else if ltype = PB_LTYPE_FIXED64 then map_option Raw_fixed64 (load_unsigned m src 8)
      else if ltype = PB_LTYPE_BYTES
      then (if src = 0 then Some (Raw_string [])
            else (case load_u32 m src of
                    None \<Rightarrow> None
                  | Some c \<Rightarrow>
                      if PB_ATYPE (f_type f) = PB_ATYPE_STATIC \<and> size_sub n 4 < unat c then None
                      else map_option Raw_string (load_bytes m (src + 4) (unat c))))
      else if ltype = PB_LTYPE_STRING
      then (if src = 0 then Some (Raw_string [])
            else (case string_size m (if PB_ATYPE (f_type f) = PB_ATYPE_POINTER then 2 ^ 64 - 1 else n)
                         0 src of
                    None \<Rightarrow> None
                  | Some c \<Rightarrow> map_option Raw_string (load_bytes m src c)))
      else if ltype = PB_LTYPE_SUBMESSAGE
      then (if f_ptr f = 0 then None
            else map_option (\<lambda>rs. Raw_string (records_bytes rs)) (sub (f_ptr f) src))
      else if ltype = PB_LTYPE_FIXED_LENGTH_BYTES
      then (if src = 0 then None else map_option Raw_string (load_bytes m src n))
      else None)"

definition item_addrs :: "nat \<Rightarrow> nat \<Rightarrow> nat \<Rightarrow> nat list" where
  "item_addrs step n p = map (\<lambda>i. p + i * step) [0 ..< n]"

text \<open>An array: one packed record, or one record per item; an empty array has no record.\<close>

definition array_records ::
  "mem \<Rightarrow> (nat \<Rightarrow> nat \<Rightarrow> wire_record list option) \<Rightarrow> pb_field \<Rightarrow> nat \<Rightarrow> nat \<Rightarrow>
   wire_record list option" where
  "array_records m sub f pData n =
     (let step = unat (f_data_size f); ltype = PB_LTYPE (f_type f);
          pointer = (PB_ATYPE (f_type f) = PB_ATYPE_POINTER) in
      if n = 0 then Some []
      else if \<not> pointer \<and> unat (f_array_size f) < n then None
      else if ltype \<le> PB_LTYPE_LAST_PACKABLE
      then map_option (\<lambda>vs. [(f_tag f, Raw_string (concat (map raw_bytes vs)))])
             (those (map (value_of m sub f) (item_addrs step n pData)))
      else map_option (map (Pair (f_tag f)))
             (those (map (\<lambda>p. if pointer \<and> (ltype = PB_LTYPE_STRING \<or> ltype = PB_LTYPE_BYTES)
                              then Option.bind (load_ptr m p) (value_of m sub f)
                              else value_of m sub f p)
                       (item_addrs step n pData))))"

text \<open>Whether a singular field is there; \<open>None\<close> when a required pointer is NULL.\<close>

definition field_present ::
  "mem \<Rightarrow> (pb_field \<Rightarrow> nat \<Rightarrow> bool option) \<Rightarrow> pb_field \<Rightarrow> nat \<Rightarrow> nat \<Rightarrow> bool option" where
  "field_present m check f pData0 pData =
     (let pSize = offset_addr pData0 (f_size_offset f); htype = PB_HTYPE (f_type f) in
      if htype = PB_HTYPE_REQUIRED then (if pData = 0 then None else Some True)
      else if htype = PB_HTYPE_OPTIONAL
      then (if f_size_offset f \<noteq> 0 then safe_read_bool m pSize
            else map_option (\<lambda>is_default. if PB_ATYPE (f_type f) = PB_ATYPE_POINTER then pData \<noteq> 0
                                          else \<not> is_default) (check f pData0))
      else if f_size_offset f \<noteq> 0 then map_option (\<lambda>which. which = f_tag f) (load_u32 m pSize)
      else None)"

definition field_records ::
  "mem \<Rightarrow> (nat \<Rightarrow> nat \<Rightarrow> wire_record list option) \<Rightarrow> (pb_field \<Rightarrow> nat \<Rightarrow> bool option) \<Rightarrow>
   pb_field \<Rightarrow> nat \<Rightarrow> wire_record list option" where
  "field_records m sub check f pData0 =
     (let atype = PB_ATYPE (f_type f) in
      if PB_LTYPE (f_type f) = PB_LTYPE_EXTENSION \<or> atype = PB_ATYPE_CALLBACK
      then (if load_ptr m pData0 = Some 0 then Some [] else None)
      else if atype = PB_ATYPE_STATIC \<or> atype = PB_ATYPE_POINTER
      then
        (case (if atype = PB_ATYPE_POINTER then load_ptr m pData0 else Some pData0) of
           None \<Rightarrow> None
         | Some pData \<Rightarrow>
             if PB_HTYPE (f_type f) = PB_HTYPE_REPEATED
             then Option.bind (if f_size_offset f \<noteq> 0
                               then load_u32 m (offset_addr pData0 (f_size_offset f))
                               else Some (f_array_size f))
                    (\<lambda>c. array_records m sub f pData (unat c))
             else (case field_present m check f pData0 pData of
                     None \<Rightarrow> None
                   | Some there \<Rightarrow>
                       if there then map_option (\<lambda>v. [(f_tag f, v)]) (value_of m sub f pData)
                       else Some []))
      else None)"

text \<open>
  The records of a message with no user functions in it: callbacks and extension lists are NULL.
  The fuel bounds the nesting depth. Whether a singular field without presence flag is there is
  taken from the code's own check here, so that the facts below hold for every message; the theory
  Pb_Proto3 replaces the check by the rule of proto3.
\<close>

fun message_records :: "nat \<Rightarrow> mem \<Rightarrow> descs \<Rightarrow> nat \<Rightarrow> nat \<Rightarrow> wire_record list option" where
  "message_records 0 m ds flds src = None"
| "message_records (Suc n) m ds flds src =
     (case ds flds of
        None \<Rightarrow> None
      | Some fs \<Rightarrow>
          (case pb_field_iter_begin fs src of
             (nonempty, iter) \<Rightarrow>
               if nonempty
               then map_option concat (those (map
                      (\<lambda>it. field_records m (message_records n m ds)
                              (pb_check_proto3_default_value (Suc n) m ds) (it_field it) (it_pData it))
                      (iter_list iter)))
               else Some []))"

subsection \<open>Lemmas on lists of optional values\<close>

lemma those_Some_iff: "those xs = Some ys \<longleftrightarrow> xs = map Some ys"
proof (induction xs arbitrary: ys)
  case (Cons x xs)
  show ?case
  proof (cases x)
    case (Some a)
    with Cons show ?thesis by (cases ys) auto
  qed auto
qed auto

lemma those_map_Some:
  "those (map f xs) = Some ys \<Longrightarrow> list_all2 (\<lambda>x y. f x = Some y) xs ys"
proof (induction xs arbitrary: ys)
  case (Cons x xs)
  then show ?case by (auto split: option.splits)
qed simp

lemma with_value_Some [simp]: "with_value (Some v) f = f v"
  by (rule ext) (simp add: with_value_def)

subsection \<open>Encoders emit records\<close>

context byte_sink
begin

lemma emits_cong:
  "(length bs < 2 ^ 63 \<Longrightarrow> e = e') \<Longrightarrow> emits e' bs \<Longrightarrow> emits e bs"
  unfolding emits_def by blast

text \<open>A pass that only counts, then a pass that writes.\<close>

lemma emits_if_sizing:
  assumes "emits e bs"
  shows "emits (\<lambda>s. if os_callback s = None then pb_write None (length bs) s else e s) bs"
proof (rule emitsI)
  show "counts (\<lambda>s. if os_callback s = None then pb_write None (length bs) s else e s) (length bs)"
    using counts_pb_write [of None "length bs"] by (simp add: counts_def sizing_def)
next
  fix s :: "'s pb_ostream"
  assume s: "length bs < 2 ^ 63" "writable s" "os_bytes_written s + length bs \<le> os_max_size s"
  have "os_callback s \<noteq> None" using s by (simp add: writable_def)
  then show "\<exists>s'. (if os_callback s = None then pb_write None (length bs) s else e s) = Some (True, s') \<and>
      wrote s bs s' \<and> os_errmsg s' = None"
    using emits_fits [OF assms s] by (metis (no_types))
next
  fix s :: "'s pb_ostream"
  assume s: "length bs < 2 ^ 63" "writable s" "\<not> os_bytes_written s + length bs \<le> os_max_size s"
  have "os_callback s \<noteq> None" using s by (simp add: writable_def)
  then show "\<exists>s' k. (if os_callback s = None then pb_write None (length bs) s else e s) = Some (False, s') \<and>
      wrote s (take k bs) s' \<and> os_errmsg s' \<noteq> None"
    using emits_full [OF assms s] by (metis (no_types))
qed

lemma sizing_pass:
  assumes "emits e bs" "length bs < 2 ^ 63"
  shows "e (pb_ostream_sizing null) =
    Some (True, (pb_ostream_sizing null)\<lparr>os_bytes_written := length bs\<rparr>)"
  using countsD [OF emits_counts [OF assms] sizing_stream, of null] assms(2)
  by (simp add: pb_ostream_sizing_def)

lemma emits_pb_encode_submessage:
  assumes sub: "emits (sub flds src) bs"
  shows "emits (pb_encode_submessage null sub flds src) (varint_bytes (of_nat (length bs)) @ bs)"
proof (rule emits_cong)
  let ?n = "length bs"
  let ?inner = "\<lambda>s. \<lparr>os_callback = os_callback s, os_state = os_state s, os_max_size = ?n,
      os_bytes_written = 0, os_errmsg = None\<rparr>"
  let ?body = "\<lambda>s. if os_callback s = None then pb_write None ?n s
     else if os_max_size s < size_add (os_bytes_written s) ?n then os_fail ''stream full'' s
     else (case sub flds src (?inner s) of
             None \<Rightarrow> None
           | Some (status, substream) \<Rightarrow>
               (let s = s\<lparr>os_bytes_written := size_add (os_bytes_written s) (os_bytes_written substream),
                          os_state := os_state substream, os_errmsg := os_errmsg substream\<rparr>
                in if os_bytes_written substream \<noteq> ?n then os_fail ''submsg size changed'' s
                   else Some (status, s)))"
  show "pb_encode_submessage null sub flds src = os_then (pb_encode_varint (of_nat ?n)) ?body"
    if "length (varint_bytes (of_nat ?n) @ bs) < 2 ^ 63"
  proof
    fix s
    have "?n < 2 ^ 63" using that by simp
    note pass = sizing_pass [OF sub this, of null]
    have "os_bytes_written ((pb_ostream_sizing null)\<lparr>os_bytes_written := ?n\<rparr>) = ?n" by simp
    then show "pb_encode_submessage null sub flds src s = os_then (pb_encode_varint (of_nat ?n)) ?body s"
      by (simp only: pb_encode_submessage_def pass option.case prod.case Let_def not_True_eq_False
          if_False)
  qed
  have "emits ?body bs"
  proof (rule emitsI)
    show "counts ?body ?n"
      using counts_pb_write [of None ?n] by (simp add: counts_def sizing_def)
  next
    fix s :: "'s pb_ostream"
    assume n: "?n < 2 ^ 63" and s: "writable s" and fits: "os_bytes_written s + ?n \<le> os_max_size s"
    have inner: "writable (?inner s)" using s fits n by (auto simp: writable_def)
    have room: "os_bytes_written (?inner s) + ?n \<le> os_max_size (?inner s)" by simp
    obtain s' where s': "sub flds src (?inner s) = Some (True, s')" "wrote (?inner s) bs s'"
      "os_errmsg s' = None"
      using emits_fits [OF sub n inner room] by blast
    have "size_add (os_bytes_written s) ?n = os_bytes_written s + ?n"
      using s fits by (intro size_add_eq) (auto simp: writable_def)
    moreover have "os_callback s = Some sink" using s by (simp add: writable_def)
    moreover have "os_bytes_written s' = ?n" using s'(2) by (simp add: wrote_def)
    ultimately have body: "?body s = Some (True, s\<lparr>os_bytes_written := os_bytes_written s + ?n,
        os_state := os_state s', os_errmsg := None\<rparr>)"
      using s'(1,3) fits by simp
    have w: "wrote s bs (s\<lparr>os_bytes_written := os_bytes_written s + ?n, os_state := os_state s',
        os_errmsg := None\<rparr>)"
      using s'(2) fits by (simp add: wrote_def)
    show "\<exists>s'. ?body s = Some (True, s') \<and> wrote s bs s' \<and> os_errmsg s' = None"
      by (rule exI, rule conjI, rule body, rule conjI, rule w) simp
  next
    fix s :: "'s pb_ostream"
    assume n: "?n < 2 ^ 63" and s: "writable s" and full: "\<not> os_bytes_written s + ?n \<le> os_max_size s"
    then have "size_add (os_bytes_written s) ?n = os_bytes_written s + ?n"
      by (intro size_add_eq) (auto simp: writable_def)
    with s full have body: "?body s = Some (False, os_set_error ''stream full'' s)"
      by (simp add: writable_def os_fail_def)
    have w: "wrote s (take 0 bs) (os_set_error ''stream full'' s)"
      using s by (simp add: wrote_def writable_def)
    show "\<exists>s' k. ?body s = Some (False, s') \<and> wrote s (take k bs) s' \<and> os_errmsg s' \<noteq> None"
      by (rule exI, rule exI, rule conjI, rule body, rule conjI, rule w) simp
  qed
  then show "emits (os_then (pb_encode_varint (of_nat ?n)) ?body) (varint_bytes (of_nat ?n) @ bs)"
    by (intro emits_then emits_varint)
qed

lemma emits_string_value:
  assumes "length bs = n"
  shows "emits (pb_encode_string (Some bs) n) (raw_bytes (Raw_string bs))"
  using emits_string [of n bs] assms by simp

text \<open>Every field encoder writes the value the specification gives for it.\<close>

lemma emits_value:
  assumes sub: "\<And>a b rs. subrec a b = Some rs \<Longrightarrow> emits (sub a b) (records_bytes rs)"
    and v: "value_of (ee_mem env) subrec f src = Some v"
  shows "emits (PB_ENCODERS env sub (PB_LTYPE (f_type f)) f src) (raw_bytes v)"
proof -
  consider "PB_LTYPE (f_type f) \<in> {0, 1, 2, 3, 4, 5}" | "PB_LTYPE (f_type f) = 6"
    | "PB_LTYPE (f_type f) = 7" | "PB_LTYPE (f_type f) = 8" | "PB_LTYPE (f_type f) = 10"
    using v by (auto simp: value_of_def Let_def split: if_splits)
  then show ?thesis
  proof cases
    case 1
    then show ?thesis
      using v
      by (auto simp: value_of_def PB_ENCODERS_def Let_def pb_enc_bool_def pb_enc_varint_def
          pb_enc_uvarint_def pb_enc_svarint_def pb_enc_fixed32_def pb_enc_fixed64_def
          emits_varint emits_svarint emits_fixed32 emits_fixed64 split: if_splits)
  next
    case 2
    then show ?thesis
      using v
      by (auto simp: value_of_def PB_ENCODERS_def Let_def pb_enc_bytes_def emits_string_null
          length_load_bytes simp del: raw_bytes.simps(3)
          intro!: emits_string_value split: if_splits option.splits)
        (simp add: emits_string_null)
  next
    case 3
    then show ?thesis
      using v
      by (auto simp: value_of_def PB_ENCODERS_def Let_def pb_enc_string_def
          length_load_bytes simp del: raw_bytes.simps(3)
          intro!: emits_string_value split: if_splits option.splits)
        (simp_all add: emits_string_null)
  next
    case 4
    then obtain rs where "subrec (f_ptr f) src = Some rs" "v = Raw_string (records_bytes rs)" "f_ptr f \<noteq> 0"
      using v by (auto simp: value_of_def Let_def split: if_splits)
    with 4 show ?thesis
      by (auto simp: PB_ENCODERS_def Let_def pb_enc_submessage_def
          intro!: emits_pb_encode_submessage sub)
  next
    case 5
    then show ?thesis
      using v
      by (auto simp: value_of_def PB_ENCODERS_def Let_def pb_enc_fixed_length_bytes_def
          length_load_bytes simp del: raw_bytes.simps(3)
          intro!: emits_string_value split: if_splits option.splits)
  qed
qed

text \<open>The value of a field has the wire type of the field's tag.\<close>

lemma emits_tag_value:
  assumes sub: "\<And>a b rs. subrec a b = Some rs \<Longrightarrow> emits (sub a b) (records_bytes rs)"
    and v: "value_of (ee_mem env) subrec f src = Some v"
  shows "emits (os_then (pb_encode_tag_for_field f)
    (PB_ENCODERS env sub (PB_LTYPE (f_type f)) f src)) (record_bytes (f_tag f, v))"
proof -
  have "field_wire_type (PB_LTYPE (f_type f)) = Some (raw_type v)"
    using v by (auto simp: value_of_def Let_def field_wire_type_def split: if_splits option.splits)
  then have "pb_encode_tag_for_field f = (pb_encode_tag (raw_type v) (f_tag f) :: 's enc)"
    by (simp add: pb_encode_tag_for_field_def)
  then show ?thesis
    using emits_then [OF emits_tag emits_value [OF sub v]] by (simp add: record_bytes_def)
qed

lemma emits_items:
  assumes "list_all2 (\<lambda>p bs. emits (item p) bs) (item_addrs step n p) bss"
  shows "emits (encode_items item step n p) (concat bss)"
  using assms
proof (induction n arbitrary: p bss)
  case 0
  then show ?case by (simp add: item_addrs_def emits_return)
next
  case (Suc n)
  have addrs: "item_addrs step (Suc n) p = p # item_addrs step n (p + step)"
  proof -
    have "map (\<lambda>i. p + i * step) [0 ..< Suc n] = p # map (\<lambda>i. p + i * step) (map Suc [0 ..< n])"
      by (simp only: upt_conv_Cons map_Suc_upt) simp
    then show ?thesis by (simp add: item_addrs_def algebra_simps del: upt_Suc)
  qed
  with Suc.prems obtain b bss' where "bss = b # bss'" "emits (item p) b"
    "list_all2 (\<lambda>p bs. emits (item p) bs) (item_addrs step n (p + step)) bss'"
    by (auto simp: list_all2_Cons1)
  with Suc.IH show ?case by (simp add: emits_then)
qed

lemma fixed_items_length:
  assumes "list_all2 (\<lambda>p v. value_of m sub f p = Some v) ps vs" "ps \<noteq> []"
  shows "PB_LTYPE (f_type f) = 4 \<Longrightarrow> length (concat (map raw_bytes vs)) = 4 * length ps"
    "PB_LTYPE (f_type f) = 5 \<Longrightarrow> length (concat (map raw_bytes vs)) = 8 * length ps"
  using assms(1) by (induction rule: list_all2_induct) (auto simp: value_of_def)

lemma emits_packed:
  assumes items: "emits (encode_items (func f) (unat (f_data_size f)) n pData) bs"
    and size4: "PB_LTYPE (f_type f) = 4 \<Longrightarrow> length bs = 4 * n"
    and size8: "PB_LTYPE (f_type f) = 5 \<Longrightarrow> length bs = 8 * n"
    and n: "n \<noteq> 0" and bound: "PB_ATYPE (f_type f) \<noteq> PB_ATYPE_POINTER \<Longrightarrow> n \<le> unat (f_array_size f)"
    and packable: "PB_LTYPE (f_type f) \<le> PB_LTYPE_LAST_PACKABLE"
  shows "emits (encode_array env f pData n func) (record_bytes (f_tag f, Raw_string bs))"
proof (rule emits_cong)
  let ?rest = "os_then (pb_encode_varint (of_nat (length bs)))
    (\<lambda>s. if os_callback s = None then pb_write None (length bs) s
          else encode_items (func f) (unat (f_data_size f)) n pData s)"
  show "encode_array env f pData n func = os_then (pb_encode_tag PB_WT_STRING (f_tag f)) ?rest"
    if "length (record_bytes (f_tag f, Raw_string bs)) < 2 ^ 63"
  proof
    fix s
    have len: "length bs < 2 ^ 63" using that by (simp add: record_bytes_def)
    have total: "(if PB_LTYPE (f_type f) = PB_LTYPE_FIXED32 then Some (Some (4 * n))
         else if PB_LTYPE (f_type f) = PB_LTYPE_FIXED64 then Some (Some (8 * n))
         else (case encode_items (func f) (unat (f_data_size f)) n pData
                      (pb_ostream_sizing (ee_null env)) of
                 None \<Rightarrow> None
               | Some (ok, sizestream) \<Rightarrow>
                   Some (if ok then Some (os_bytes_written sizestream) else None))) =
        Some (Some (length bs))"
      using size4 size8 sizing_pass [OF items len, of "ee_null env"] by auto
    show "encode_array env f pData n func s = os_then (pb_encode_tag PB_WT_STRING (f_tag f)) ?rest s"
      using n bound packable unfolding encode_array_def Let_def total by auto
  qed
  have "emits ?rest (raw_bytes (Raw_string bs))"
    using emits_then [OF emits_varint emits_if_sizing [OF items]] by simp
  then show "emits (os_then (pb_encode_tag PB_WT_STRING (f_tag f)) ?rest)
      (record_bytes (f_tag f, Raw_string bs))"
    using emits_then [OF emits_tag] by (simp add: record_bytes_def)
qed

lemma emits_array:
  assumes sub: "\<And>a b rs. subrec a b = Some rs \<Longrightarrow> emits (sub a b) (records_bytes rs)"
    and rs: "array_records (ee_mem env) subrec f pData n = Some rs"
  shows "emits (encode_array env f pData n (PB_ENCODERS env sub (PB_LTYPE (f_type f))))
    (records_bytes rs)"
proof (cases "n = 0")
  case True
  then have "encode_array env f pData n (PB_ENCODERS env sub (PB_LTYPE (f_type f))) = os_return"
    by (auto simp: encode_array_def)
  then show ?thesis using rs True emits_return by (simp add: array_records_def)
next
  case False
  then have bound: "PB_ATYPE (f_type f) \<noteq> PB_ATYPE_POINTER \<Longrightarrow> n \<le> unat (f_array_size f)"
    using rs by (auto simp: array_records_def Let_def split: if_splits)
  let ?step = "unat (f_data_size f)"
  show ?thesis
  proof (cases "PB_LTYPE (f_type f) \<le> PB_LTYPE_LAST_PACKABLE")
    case True
    then obtain vs where vs: "those (map (value_of (ee_mem env) subrec f) (item_addrs ?step n pData)) = Some vs"
      "rs = [(f_tag f, Raw_string (concat (map raw_bytes vs)))]"
      using rs False bound by (auto simp: array_records_def Let_def split: if_splits)
    note vals = those_map_Some [OF vs(1)]
    have "list_all2 (\<lambda>p bs. emits (PB_ENCODERS env sub (PB_LTYPE (f_type f)) f p) bs)
        (item_addrs ?step n pData) (map raw_bytes vs)"
      unfolding list.rel_map using vals by (rule list.rel_mono_strong) (rule emits_value [OF sub])
    note items = emits_items [OF this]
    have ne: "item_addrs ?step n pData \<noteq> []" "length (item_addrs ?step n pData) = n"
      using False by (simp_all add: item_addrs_def)
    have "emits (encode_array env f pData n (PB_ENCODERS env sub (PB_LTYPE (f_type f))))
        (record_bytes (f_tag f, Raw_string (concat (map raw_bytes vs))))"
      by (rule emits_packed [where func = "PB_ENCODERS env sub (PB_LTYPE (f_type f))", OF items])
        (use fixed_items_length [OF vals ne(1)] ne(2) False bound True in auto)
    then show ?thesis using vs(2) by simp
  next
    case unpacked: False
    let ?indirect = "PB_ATYPE (f_type f) = PB_ATYPE_POINTER \<and>
      (PB_LTYPE (f_type f) = PB_LTYPE_STRING \<or> PB_LTYPE (f_type f) = PB_LTYPE_BYTES)"
    let ?val = "\<lambda>p. if ?indirect then Option.bind (load_ptr (ee_mem env) p) (value_of (ee_mem env) subrec f)
        else value_of (ee_mem env) subrec f p"
    let ?item = "\<lambda>p. os_then (pb_encode_tag_for_field f)
        (if ?indirect then with_value (load_ptr (ee_mem env) p)
            (PB_ENCODERS env sub (PB_LTYPE (f_type f)) f)
         else PB_ENCODERS env sub (PB_LTYPE (f_type f)) f p)"
    obtain vs where vs: "those (map ?val (item_addrs ?step n pData)) = Some vs"
      "rs = map (Pair (f_tag f)) vs"
      using rs False bound unpacked by (auto simp: array_records_def Let_def split: if_splits)
    have one: "emits (?item p) (record_bytes (f_tag f, v))" if "?val p = Some v" for p v
    proof (cases ?indirect)
      case True
      with that obtain q where "load_ptr (ee_mem env) p = Some q" "value_of (ee_mem env) subrec f q = Some v"
        by (cases "load_ptr (ee_mem env) p") auto
      with True show ?thesis using emits_tag_value [OF sub, where src = q and v = v] by simp
    next
      case False
      with that show ?thesis using emits_tag_value [OF sub, where src = p and v = v] by auto
    qed
    have "list_all2 (\<lambda>p bs. emits (?item p) bs) (item_addrs ?step n pData)
        (map (\<lambda>v. record_bytes (f_tag f, v)) vs)"
      unfolding list.rel_map using those_map_Some [OF vs(1)] by (rule list.rel_mono_strong) (rule one)
    note items = emits_items [OF this]
    have "encode_array env f pData n (PB_ENCODERS env sub (PB_LTYPE (f_type f))) =
        encode_items ?item ?step n pData"
      using False bound unpacked by (intro ext) (auto simp: encode_array_def Let_def)
    then show ?thesis using items vs(2) by (simp add: records_bytes_def comp_def)
  qed
qed

lemma emits_basic_field:
  assumes sub: "\<And>a b rs. subrec a b = Some rs \<Longrightarrow> emits (sub a b) (records_bytes rs)"
    and atype: "PB_ATYPE (f_type f) = PB_ATYPE_STATIC \<or> PB_ATYPE (f_type f) = PB_ATYPE_POINTER"
    and ltype: "PB_LTYPE (f_type f) \<noteq> PB_LTYPE_EXTENSION"
    and rs: "field_records (ee_mem env) subrec check f pData0 = Some rs"
  shows "emits (encode_basic_field env sub check f pData0) (records_bytes rs)"
proof -
  let ?m = "ee_mem env" and ?pSize = "offset_addr pData0 (f_size_offset f)"
  let ?func = "PB_ENCODERS env sub (PB_LTYPE (f_type f))"
  obtain pData where pData: "(if PB_ATYPE (f_type f) = PB_ATYPE_POINTER then load_ptr ?m pData0
      else Some pData0) = Some pData"
    using rs atype ltype by (auto simp: field_records_def Let_def split: if_splits option.splits)
  let ?one = "os_then (pb_encode_tag_for_field f) (?func f pData)"
  show ?thesis
  proof (cases "PB_HTYPE (f_type f) = PB_HTYPE_REPEATED")
    case True
    then obtain c where c: "(if f_size_offset f \<noteq> 0 then load_u32 ?m ?pSize else Some (f_array_size f)) = Some c"
      "array_records ?m subrec f pData (unat c) = Some rs"
      using rs atype ltype pData
      by (auto simp: field_records_def Let_def bind_eq_Some_conv split: if_splits)
    have "encode_basic_field env sub check f pData0 = encode_array env f pData (unat c) ?func"
      using True pData c(1) unfolding encode_basic_field_def Let_def by (intro ext) auto
    then show ?thesis using emits_array [OF sub c(2)] by simp
  next
    case single: False
    then obtain there where there: "field_present ?m check f pData0 pData = Some there"
      "(if there then map_option (\<lambda>v. [(f_tag f, v)]) (value_of ?m subrec f pData) else Some []) = Some rs"
      using rs atype ltype pData
      by (auto simp: field_records_def Let_def split: if_splits option.splits)
    have "encode_basic_field env sub check f pData0 = (if there then ?one else os_return)"
    proof
      fix s
      show "encode_basic_field env sub check f pData0 s = (if there then ?one else os_return) s"
        using there(1) single pData unfolding encode_basic_field_def Let_def field_present_def
        by (auto split: if_splits option.splits)
    qed
    moreover have "there \<Longrightarrow> emits ?one (records_bytes rs)"
      using there(2) emits_tag_value [OF sub, where src = pData] by auto
    ultimately show ?thesis using there(2) emits_return by (cases there) auto
  qed
qed

lemma emits_field:
  assumes sub: "\<And>a b rs. subrec a b = Some rs \<Longrightarrow> emits (sub a b) (records_bytes rs)"
    and rs: "field_records (ee_mem env) subrec check f pData0 = Some rs"
  shows "emits (if PB_LTYPE (f_type f) = PB_LTYPE_EXTENSION
                then encode_extension_field (Suc n) env sub check pData0
                else encode_field env sub check f pData0) (records_bytes rs)"
proof -
  consider "PB_LTYPE (f_type f) = PB_LTYPE_EXTENSION"
    | "PB_LTYPE (f_type f) \<noteq> PB_LTYPE_EXTENSION" "PB_ATYPE (f_type f) = PB_ATYPE_CALLBACK"
    | "PB_LTYPE (f_type f) \<noteq> PB_LTYPE_EXTENSION"
      "PB_ATYPE (f_type f) = PB_ATYPE_STATIC \<or> PB_ATYPE (f_type f) = PB_ATYPE_POINTER"
    using rs by (auto simp: field_records_def Let_def split: if_splits)
  then show ?thesis
  proof cases
    case 1
    with rs show ?thesis
      using emits_return by (auto simp: field_records_def encode_extension_field_def split: if_splits)
  next
    case 2
    with rs have null: "load_ptr (ee_mem env) pData0 = Some 0" "rs = []"
      by (auto simp: field_records_def split: if_splits)
    then have "encode_callback_field env f pData0 = os_return"
      by (auto simp: encode_callback_field_def os_return_def)
    with 2 null show ?thesis using emits_return by (simp add: encode_field_def Let_def)
  next
    case 3
    then show ?thesis using emits_basic_field [OF sub 3(2,1) rs] by (auto simp: encode_field_def Let_def)
  qed
qed

lemma emits_fields_loop:
  assumes "\<And>it'. it' \<in> set (iter_list it) \<Longrightarrow> emits (body it') (w it')"
  shows "emits (fields_loop body it) (concat (map w (iter_list it)))"
  using assms
proof (induction it rule: iter_list.induct)
  case (1 it)
  obtain again it' where nx: "pb_field_iter_next it = (again, it')" by force
  have head: "emits (body it) (w it)"
    by (rule 1(2)) (subst iter_list.simps, simp)
  show ?case
  proof (cases again)
    case True
    have "emits (body x) (w x)" if "x \<in> set (iter_list it')" for x
      by (rule 1(2)) (use that nx True in \<open>subst iter_list.simps, simp\<close>)
    then have "emits (fields_loop body it') (concat (map w (iter_list it')))"
      using 1(1) [OF nx [symmetric] True] by blast
    from emits_then [OF head this] show ?thesis
      using nx True by (subst fields_loop.simps, subst iter_list.simps) simp
  next
    case False
    from emits_then [OF head emits_return] show ?thesis
      using nx False by (subst fields_loop.simps, subst iter_list.simps) simp
  qed
qed

text \<open>The refinement: pb_encode writes the bytes of the records the message stands for.\<close>

lemma emits_message:
  "message_records n (ee_mem env) (ee_descs env) flds src = Some rs \<Longrightarrow>
   emits (pb_encode n env flds src) (records_bytes rs)"
proof (induction n arbitrary: flds src rs)
  case (Suc n)
  let ?check = "pb_check_proto3_default_value (Suc n) (ee_mem env) (ee_descs env)"
  let ?recs = "\<lambda>it. field_records (ee_mem env) (message_records n (ee_mem env) (ee_descs env)) ?check
      (it_field it) (it_pData it)"
  let ?body = "\<lambda>it. if PB_LTYPE (f_type (it_field it)) = PB_LTYPE_EXTENSION
      then encode_extension_field (Suc n) env (pb_encode n env) ?check (it_pData it)
      else encode_field env (pb_encode n env) ?check (it_field it) (it_pData it)"
  obtain fs where fs: "ee_descs env flds = Some fs"
    using Suc.prems by (auto split: option.splits)
  obtain nonempty iter where start: "pb_field_iter_begin fs src = (nonempty, iter)" by force
  show ?case
  proof (cases nonempty)
    case False
    then show ?thesis using Suc.prems fs start emits_return by auto
  next
    case True
    then obtain rss where rss: "those (map ?recs (iter_list iter)) = Some rss" "rs = concat rss"
      using Suc.prems fs start by auto
    then have all: "map ?recs (iter_list iter) = map Some rss" by (simp only: those_Some_iff)
    have loop: "emits (fields_loop ?body iter)
        (concat (map (\<lambda>it. records_bytes (the (?recs it))) (iter_list iter)))"
    proof (rule emits_fields_loop)
      fix it
      assume "it \<in> set (iter_list iter)"
      then have "?recs it \<in> set (map Some rss)" unfolding all [symmetric] by simp
      then obtain r where "?recs it = Some r" by auto
      then have "?recs it = Some (the (?recs it))" by simp
      with Suc.IH show "emits (?body it) (records_bytes (the (?recs it)))" by (rule emits_field)
    qed
    have "map (\<lambda>it. the (?recs it)) (iter_list iter) = rss"
      using arg_cong [OF all, of "map the"] by (simp add: comp_def)
    then have "map (\<lambda>it. records_bytes (the (?recs it))) (iter_list iter) = map records_bytes rss"
      by (metis (no_types, lifting) list.map_comp comp_def map_eq_conv)
    then have "concat (map (\<lambda>it. records_bytes (the (?recs it))) (iter_list iter)) = records_bytes rs"
      by (simp add: rss(2) records_bytes_concat)
    with loop show ?thesis using fs start True by simp
  qed
qed simp

end

lemma counts_nullterminated_zero: "pb_write (Some [0]) 1 = (pb_write_bytes [0] :: 's enc)"
  by (simp add: pb_write_bytes_def)

subsection \<open>A small message\<close>

text \<open>
  A structure with a required int32 at offset 0 and a static repeated uint32 field (count at
  offset 4, two entries from offset 8), holding -2 and the array 1, 300; it lies at address 16.
\<close>

definition mem_at :: "nat \<Rightarrow> bytes \<Rightarrow> mem" where
  "mem_at base bs a = (if base \<le> a \<and> a < base + length bs then Some (bs ! (a - base)) else None)"

definition sample_fields :: "pb_field list" where
  "sample_fields =
     [\<lparr>f_tag = 1, f_type = 0x01, f_data_offset = 0, f_size_offset = 0, f_data_size = 4,
       f_array_size = 0, f_ptr = 0\<rparr>,
      \<lparr>f_tag = 2, f_type = 0x22, f_data_offset = 4, f_size_offset = -4, f_data_size = 4,
       f_array_size = 2, f_ptr = 0\<rparr>]"

definition no_state :: obuf where
  "no_state = \<lparr>ob_mem = [], ob_pos = 0\<rparr>"

definition sample_env :: "'s \<Rightarrow> 's enc_env" where
  "sample_env null =
     \<lparr>ee_mem = mem_at 16 [0xFE, 0xFF, 0xFF, 0xFF, 2, 0, 0, 0, 1, 0, 0, 0, 0x2C, 1, 0, 0],
      ee_descs = (\<lambda>a. if a = 8 then Some sample_fields else None),
      ee_callback = (\<lambda>a f arg. os_undefined), ee_extension = (\<lambda>a e. os_undefined),
      ee_null = null\<rparr>"

definition sample_records :: "wire_record list" where
  "sample_records = [(1, Raw_varint (- 2)), (2, Raw_string [0x01, 0xAC, 0x02])]"

lemma sample_message:
  "message_records 1 (ee_mem (sample_env null)) (ee_descs (sample_env null)) 8 16 =
   Some sample_records"
  by code_simp

lemma sample_length: "length (records_bytes sample_records) = 16"
  by code_simp

subsection \<open>Properties\<close>

text \<open>
  C16. pb_encode into a buffer that is too small returns false with an error message set, and
  what it wrote is a prefix of the encoding that stays inside the given size.
\<close>

theorem encode_respects_bufsize:
  assumes "message_records n (ee_mem env) (ee_descs env) flds src = Some rs"
    "bufsize \<le> length buf" "bufsize < length (records_bytes rs)" "length (records_bytes rs) < 2 ^ 63"
  shows "\<exists>out k. pb_encode n env flds src (pb_ostream_from_buffer buf bufsize) = Some (False, out) \<and>
    k \<le> bufsize \<and> os_errmsg out \<noteq> None \<and>
    ob_mem (os_state out) = take k (records_bytes rs) @ drop k buf"
  by (rule emits_buffer_full [OF buf.emits_message [OF assms(1)] assms(2) _ assms(3,4)])
    (use assms(3,4) in simp)

theorem encode_respects_bufsize_witness:
  "\<exists>out k. pb_encode 1 (sample_env no_state) 8 16 (pb_ostream_from_buffer (replicate 20 0) 15) = Some (False, out) \<and>
    k \<le> 15 \<and> os_errmsg out \<noteq> None \<and>
    ob_mem (os_state out) = take k (records_bytes sample_records) @ drop k (replicate 20 0)"
  by (rule encode_respects_bufsize [OF sample_message]) (simp_all add: sample_length)

text \<open>
  C19. The sizing pass agrees with the writing pass: pb_get_encoded_size returns the number of
  bytes pb_encode writes, so a buffer of that size is always enough.
\<close>

theorem encoded_size_is_enough:
  assumes "message_records n (ee_mem env) (ee_descs env) flds src = Some rs"
    "length (records_bytes rs) < 2 ^ 63"
  shows "\<exists>len. pb_get_encoded_size n env flds src = Some (Some len) \<and>
    (\<exists>out. pb_encode n env flds src (pb_ostream_from_buffer (replicate len 0) len) = Some (True, out) \<and>
       os_bytes_written out = len \<and> ob_mem (os_state out) = records_bytes rs)"
proof -
  let ?len = "length (records_bytes rs)"
  note emits = buf.emits_message [OF assms(1)]
  have "pb_get_encoded_size n env flds src = Some (Some ?len)"
    using buf.sizing_pass [OF emits assms(2)] by (simp add: pb_get_encoded_size_def)
  moreover have "\<exists>out. pb_encode n env flds src (pb_ostream_from_buffer (replicate ?len 0) ?len) = Some (True, out) \<and>
      os_bytes_written out = ?len \<and> ob_mem (os_state out) = records_bytes rs @ drop ?len (replicate ?len 0)"
    by (rule emits_buffer [OF emits]) (use assms(2) in auto)
  ultimately show ?thesis by simp
qed

theorem encoded_size_is_enough_witness:
  "\<exists>len. pb_get_encoded_size 1 (sample_env no_state) 8 16 = Some (Some len) \<and>
    (\<exists>out. pb_encode 1 (sample_env no_state) 8 16 (pb_ostream_from_buffer (replicate len 0) len) = Some (True, out) \<and>
       os_bytes_written out = len \<and> ob_mem (os_state out) = records_bytes sample_records)"
  by (rule encoded_size_is_enough [OF sample_message]) (simp add: sample_length)

text \<open>
  C23. The framed variants: pb_encode_delimited writes the length of the encoding as a varint in
  front of it, pb_encode_nullterminated a zero byte behind it.
\<close>

theorem framed_encodings:
  assumes "message_records n (ee_mem env) (ee_descs env) flds src = Some rs"
    "bufsize \<le> length buf" "length (records_bytes rs) + 10 \<le> bufsize" "bufsize < 2 ^ 63"
  shows "(\<exists>out. pb_encode_delimited n env flds src (pb_ostream_from_buffer buf bufsize) = Some (True, out) \<and>
      take (os_bytes_written out) (ob_mem (os_state out)) =
        leb128 (length (records_bytes rs)) @ records_bytes rs) \<and>
    (\<exists>out. pb_encode_nullterminated n env flds src (pb_ostream_from_buffer buf bufsize) = Some (True, out) \<and>
      take (os_bytes_written out) (ob_mem (os_state out)) = records_bytes rs @ [0])"
proof -
  let ?bs = "records_bytes rs" and ?v = "varint_bytes (of_nat (length (records_bytes rs)))"
  note emits = buf.emits_message [OF assms(1)]
  have len: "length ?bs < 18446744073709551616" using assms(3,4) by simp
  have v: "?v = leb128 (length ?bs)"
    using len by (simp add: varint_bytes_leb128 unat_of_nat)
  have delimited: "buf.emits (pb_encode_delimited n env flds src) (?v @ ?bs)"
    unfolding pb_encode_delimited_def by (rule buf.emits_pb_encode_submessage) (rule emits)
  have nullterm: "buf.emits (pb_encode_nullterminated n env flds src) (?bs @ [0])"
    unfolding pb_encode_nullterminated_def counts_nullterminated_zero
    by (rule buf.emits_then [OF emits buf.emits_pb_write_bytes])
  have "length (?v @ ?bs) \<le> bufsize" "length (?bs @ [0]) \<le> bufsize"
    using assms(3) length_varint_bytes [of "of_nat (length ?bs)"] by auto
  from emits_buffer [OF delimited assms(2,4) this(1)] emits_buffer [OF nullterm assms(2,4) this(2)]
  show ?thesis unfolding v [symmetric] by force
qed

theorem framed_encodings_witness:
  "\<exists>out. pb_encode_nullterminated 1 (sample_env no_state) 8 16 (pb_ostream_from_buffer (replicate 30 0) 30) =
      Some (True, out) \<and>
    take (os_bytes_written out) (ob_mem (os_state out)) = records_bytes sample_records @ [0]"
  using framed_encodings [OF sample_message, of 30 "replicate 30 0"] by (simp add: sample_length)

end
