(* ===== verification/Pb_Proto3.thy ===== *)
theory Pb_Proto3
  imports Pb_Encode_Spec
begin

text \<open>
  When a proto3 field is on the wire, said by the values alone: a singular field without a presence
  flag is written if and only if its value is not the default of its type (zero, false, the empty
  string, a submessage whose own encoding is empty), an allocated one if and only if its pointer is
  not NULL. The records of a message by this rule do not mention the code's own check
  pb_check_proto3_default_value; the refinement shows that the check decides the rule, and the
  last part shows where it does not: pointers to packable types in a proto3 submessage.
\<close>

subsection \<open>Default values\<close>

definition is_default_value :: "raw_value \<Rightarrow> bool" where
  "is_default_value v \<longleftrightarrow> v \<in> {Raw_varint 0, Raw_fixed32 0, Raw_fixed64 0, Raw_string []}"

text \<open>A descriptor whose size is the one of its scalar type; a static string has room for its end.\<close>

definition proper_size :: "pb_field \<Rightarrow> bool" where
  "proper_size f =
     (let ltype = PB_LTYPE (f_type f); n = f_data_size f in
      if ltype = PB_LTYPE_BOOL then n = 1
      else if ltype = PB_LTYPE_VARINT \<or> ltype = PB_LTYPE_UVARINT \<or> ltype = PB_LTYPE_SVARINT then int_size n
      else if ltype = PB_LTYPE_FIXED32 then n = 4
      else if ltype = PB_LTYPE_FIXED64 then n = 8
      else if ltype = PB_LTYPE_STRING then n \<noteq> 0
      else True)"

subsection \<open>Submessages inside the structure\<close>

text \<open>
  What is asked of the fields \<open>its\<close> of a submessage that is embedded without a presence flag, for
  its encoding to tell whether it is empty: arrays have a count or a fixed positive size; the tag
  of a union is zero or the number of one of its members; callback fields are optional or repeated
  and all zero; and no allocated field of a packable type lies at an address that is a multiple of
  256 to the size of the type.
\<close>

definition union_tag_ok :: "mem \<Rightarrow> pb_iter list \<Rightarrow> nat \<Rightarrow> bool" where
  "union_tag_ok m its pSize =
     (load_u32 m pSize = Some 0 \<or>
      list_ex (\<lambda>it. PB_HTYPE (f_type (it_field it)) = PB_HTYPE_ONEOF \<and>
                    offset_addr (it_pData it) (f_size_offset (it_field it)) = pSize \<and>
                    load_u32 m pSize = Some (f_tag (it_field it))) its)"

definition pointer_visible :: "mem \<Rightarrow> pb_field \<Rightarrow> nat \<Rightarrow> bool" where
  "pointer_visible m f p =
     (case load_ptr m p of
        None \<Rightarrow> True
      | Some q \<Rightarrow> q = 0 \<or> q mod 256 ^ unat (f_data_size f) \<noteq> 0)"

definition embedded_field_ok :: "mem \<Rightarrow> pb_iter list \<Rightarrow> pb_iter \<Rightarrow> bool" where
  "embedded_field_ok m its it =
     (let f = it_field it; p = it_pData it; htype = PB_HTYPE (f_type f); atype = PB_ATYPE (f_type f);
          ltype = PB_LTYPE (f_type f) in
      (htype = PB_HTYPE_REPEATED \<and> f_size_offset f = 0 \<and> atype \<noteq> PB_ATYPE_CALLBACK \<longrightarrow>
         atype = PB_ATYPE_STATIC \<and> f_array_size f \<noteq> 0) \<and>
      (htype = PB_HTYPE_ONEOF \<longrightarrow> union_tag_ok m its (offset_addr p (f_size_offset f))) \<and>
      (ltype = PB_LTYPE_EXTENSION \<or> atype = PB_ATYPE_CALLBACK \<longrightarrow>
         atype = PB_ATYPE_CALLBACK \<and> (htype = PB_HTYPE_OPTIONAL \<or> htype = PB_HTYPE_REPEATED) \<and>
         f_size_offset f = 0 \<and> load_bytes m p (unat (f_data_size f)) = Some (replicate (unat (f_data_size f)) 0)) \<and>
      (if htype = PB_HTYPE_OPTIONAL \<and> f_size_offset f = 0 \<and> atype = PB_ATYPE_POINTER \<and>
          ltype \<le> PB_LTYPE_LAST_PACKABLE
       then pointer_visible m f p else True))"

definition embedded_ok :: "mem \<Rightarrow> descs \<Rightarrow> nat \<Rightarrow> nat \<Rightarrow> bool" where
  "embedded_ok m ds flds src =
     (case ds flds of
        None \<Rightarrow> False
      | Some fs \<Rightarrow>
          (case pb_field_iter_begin fs src of
             (nonempty, iter) \<Rightarrow> nonempty \<longrightarrow> list_all (embedded_field_ok m (iter_list iter)) (iter_list iter)))"

subsection \<open>The records by the rule of proto3\<close>

text \<open>Whether a singular field without presence flag is absent; \<open>sub\<close> gives a submessage's records.\<close>

definition proto3_default ::
  "mem \<Rightarrow> descs \<Rightarrow> (nat \<Rightarrow> nat \<Rightarrow> wire_record list option) \<Rightarrow> pb_field \<Rightarrow> nat \<Rightarrow> bool option" where
  "proto3_default m ds sub f p =
     (if PB_ATYPE (f_type f) = PB_ATYPE_POINTER
      then (if PB_LTYPE (f_type f) \<le> PB_LTYPE_LAST_PACKABLE \<and> \<not> proper_size f then None
            else map_option (\<lambda>q. q = 0) (load_ptr m p))
      else if PB_LTYPE (f_type f) = PB_LTYPE_SUBMESSAGE \<and> \<not> embedded_ok m ds (f_ptr f) p then None
      else if p \<noteq> 0 \<and> proper_size f then map_option is_default_value (value_of m sub f p)
      else None)"

fun proto3_records :: "nat \<Rightarrow> mem \<Rightarrow> descs \<Rightarrow> nat \<Rightarrow> nat \<Rightarrow> wire_record list option" where
  "proto3_records 0 m ds flds src = None"
| "proto3_records (Suc n) m ds flds src =
     (case ds flds of
        None \<Rightarrow> None
      | Some fs \<Rightarrow>
          (case pb_field_iter_begin fs src of
             (nonempty, iter) \<Rightarrow>
               if nonempty
               then map_option concat (those (map
                      (\<lambda>it. field_records m (proto3_records n m ds)
                              (proto3_default m ds (proto3_records n m ds)) (it_field it) (it_pData it))
                      (iter_list iter)))
               else Some []))"

subsection \<open>More defined submessages give more defined records\<close>

lemma those_mono:
  assumes "\<And>x y. x \<in> set xs \<Longrightarrow> g x = Some y \<Longrightarrow> h x = Some y" "those (map g xs) = Some ys"
  shows "those (map h xs) = Some ys"
  using assms
proof (induction xs arbitrary: ys)
  case (Cons x xs)
  then show ?case by (auto split: option.splits)
qed simp

lemma value_of_leaf:
  "PB_LTYPE (f_type f) \<noteq> PB_LTYPE_SUBMESSAGE \<Longrightarrow> value_of m sub f src = value_of m sub' f src"
  unfolding value_of_def Let_def by (simp cong: if_cong)

lemma value_of_submessage:
  "PB_LTYPE (f_type f) = PB_LTYPE_SUBMESSAGE \<Longrightarrow>
   value_of m sub f src =
     (if f_ptr f = 0 then None else map_option (\<lambda>rs. Raw_string (records_bytes rs)) (sub (f_ptr f) src))"
  unfolding value_of_def Let_def by simp

lemma value_of_mono:
  assumes "\<And>a b r. sub a b = Some r \<Longrightarrow> sub' a b = Some r" "value_of m sub f src = Some v"
  shows "value_of m sub' f src = Some v"
proof (cases "PB_LTYPE (f_type f) = PB_LTYPE_SUBMESSAGE")
  case True
  then show ?thesis
    using assms(2) by (auto simp: value_of_submessage split: if_splits dest: assms(1))
next
  case False
  then show ?thesis using assms(2) value_of_leaf [of f m sub src sub'] by simp
qed

lemma array_records_mono:
  assumes sub: "\<And>a b r. sub a b = Some r \<Longrightarrow> sub' a b = Some r"
    and rs: "array_records m sub f p n = Some rs"
  shows "array_records m sub' f p n = Some rs"
proof -
  note val = value_of_mono [of sub sub', OF sub]
  let ?item = "\<lambda>sub p. if PB_ATYPE (f_type f) = PB_ATYPE_POINTER \<and>
      (PB_LTYPE (f_type f) = PB_LTYPE_STRING \<or> PB_LTYPE (f_type f) = PB_LTYPE_BYTES)
    then Option.bind (load_ptr m p) (value_of m sub f) else value_of m sub f p"
  have item: "?item sub' q = Some v" if "?item sub q = Some v" for q v
    using that val by (auto simp: bind_eq_Some_conv split: if_splits)
  let ?ps = "item_addrs (unat (f_data_size f)) n p"
  have packed: "those (map (value_of m sub' f) ?ps) = Some vs"
    if "those (map (value_of m sub f) ?ps) = Some vs" for vs
    by (rule those_mono [OF _ that]) (rule val)
  have unpacked: "those (map (?item sub') ?ps) = Some vs"
    if "those (map (?item sub) ?ps) = Some vs" for vs
    by (rule those_mono [OF _ that]) (rule item)
  consider "n = 0" | "n \<noteq> 0" "PB_LTYPE (f_type f) \<le> PB_LTYPE_LAST_PACKABLE"
    | "n \<noteq> 0" "\<not> PB_LTYPE (f_type f) \<le> PB_LTYPE_LAST_PACKABLE" by blast
  then show ?thesis
  proof cases
    case 1
    then show ?thesis using rs by (simp add: array_records_def)
  next
    case 2
    then show ?thesis
      using rs packed unfolding array_records_def Let_def
      by (simp split: if_split_asm) (auto dest: packed)
  next
    case 3
    then have bound: "\<not> (PB_ATYPE (f_type f) \<noteq> PB_ATYPE_POINTER \<and> unat (f_array_size f) < n)"
      and "map_option (map (Pair (f_tag f))) (those (map (?item sub) ?ps)) = Some rs"
      using rs unfolding array_records_def Let_def by (metis (no_types, lifting) option.distinct(1))+
    then obtain vs where "those (map (?item sub) ?ps) = Some vs" "rs = map (Pair (f_tag f)) vs" by blast
    with 3 bound show ?thesis
      unfolding array_records_def Let_def by (simp only: unpacked if_False option.map)
  qed
qed

text \<open>
  The presence decision is asked only for optional fields without flag, and for allocated ones it
  only has to be defined.
\<close>

definition decides :: "(pb_field \<Rightarrow> nat \<Rightarrow> bool option) \<Rightarrow> (pb_field \<Rightarrow> nat \<Rightarrow> bool option) \<Rightarrow> bool" where
  "decides spec check \<longleftrightarrow>
     (\<forall>f p b. PB_HTYPE (f_type f) = PB_HTYPE_OPTIONAL \<longrightarrow> f_size_offset f = 0 \<longrightarrow>
        PB_ATYPE (f_type f) = PB_ATYPE_STATIC \<or> PB_ATYPE (f_type f) = PB_ATYPE_POINTER \<longrightarrow>
        spec f p = Some b \<longrightarrow>
        (\<exists>b'. check f p = Some b' \<and> (PB_ATYPE (f_type f) = PB_ATYPE_STATIC \<longrightarrow> b' = b)))"

lemma decidesD:
  assumes "decides spec check" "PB_HTYPE (f_type f) = PB_HTYPE_OPTIONAL" "f_size_offset f = 0"
    "PB_ATYPE (f_type f) = PB_ATYPE_STATIC \<or> PB_ATYPE (f_type f) = PB_ATYPE_POINTER" "spec f p = Some b"
  shows "\<exists>b'. check f p = Some b' \<and> (PB_ATYPE (f_type f) = PB_ATYPE_STATIC \<longrightarrow> b' = b)"
  using assms unfolding decides_def by blast

lemma field_present_decided:
  assumes "decides spec check"
    "PB_ATYPE (f_type f) = PB_ATYPE_STATIC \<or> PB_ATYPE (f_type f) = PB_ATYPE_POINTER"
    "field_present m spec f p0 p = Some b"
  shows "field_present m check f p0 p = Some b"
proof (cases "PB_HTYPE (f_type f) = PB_HTYPE_OPTIONAL \<and> f_size_offset f = 0")
  case True
  then obtain d where d: "spec f p0 = Some d"
    "b = (if PB_ATYPE (f_type f) = PB_ATYPE_POINTER then p \<noteq> 0 else \<not> d)"
    using assms(3) by (auto simp: field_present_def Let_def)
  obtain b' where "check f p0 = Some b'" "PB_ATYPE (f_type f) = PB_ATYPE_STATIC \<longrightarrow> b' = d"
    using decidesD [where spec = spec and check = check, OF assms(1) _ _ assms(2) d(1)] True by blast
  with True d(2) assms(2) show ?thesis by (auto simp: field_present_def Let_def)
next
  case False
  then show ?thesis using assms(3) by (auto simp: field_present_def Let_def split: if_splits)
qed

lemma field_records_decided:
  assumes sub: "\<And>a b r. sub a b = Some r \<Longrightarrow> sub' a b = Some r" and dec: "decides spec check"
    and rs: "field_records m sub spec f p0 = Some rs"
  shows "field_records m sub' check f p0 = Some rs"
proof (cases "PB_LTYPE (f_type f) = PB_LTYPE_EXTENSION \<or> PB_ATYPE (f_type f) = PB_ATYPE_CALLBACK")
  case True
  then show ?thesis using rs by (auto simp: field_records_def)
next
  case False
  then have atype: "PB_ATYPE (f_type f) = PB_ATYPE_STATIC \<or> PB_ATYPE (f_type f) = PB_ATYPE_POINTER"
    using rs by (auto simp: field_records_def Let_def split: if_splits)
  obtain p where p: "(if PB_ATYPE (f_type f) = PB_ATYPE_POINTER then load_ptr m p0 else Some p0) = Some p"
    using rs False atype by (auto simp: field_records_def Let_def split: if_splits option.splits)
  show ?thesis
  proof (cases "PB_HTYPE (f_type f) = PB_HTYPE_REPEATED")
    case True
    then show ?thesis
      using rs False atype p array_records_mono [of sub sub', OF sub]
      by (auto simp: field_records_def Let_def bind_eq_Some_conv split: if_splits)
  next
    case single: False
    then obtain there where there: "field_present m spec f p0 p = Some there"
      "(if there then map_option (\<lambda>v. [(f_tag f, v)]) (value_of m sub f p) else Some []) = Some rs"
      using rs False atype p by (auto simp: field_records_def Let_def split: if_splits option.splits)
    have "field_present m check f p0 p = Some there"
      by (rule field_present_decided [OF dec atype there(1)])
    then show ?thesis
      using there(2) False atype p single value_of_mono [of sub sub', OF sub]
      by (auto simp: field_records_def Let_def split: if_splits)
  qed
qed

subsection \<open>Zero bytes and default values\<close>

lemma le_nat_zero_iff: "le_nat bs = 0 \<longleftrightarrow> (\<forall>b\<in>set bs. b = 0)"
  by (induction bs) (auto simp: unat_eq_0)

lemma le_word_zero_iff:
  assumes "8 * length bs \<le> LENGTH('a)"
  shows "(le_word bs :: 'a::len word) = 0 \<longleftrightarrow> (\<forall>b\<in>set bs. b = 0)"
proof -
  have "le_nat bs < 256 ^ length bs" by (rule le_nat_lt)
  also have "(256 :: nat) ^ length bs = 2 ^ (8 * length bs)" by (simp add: power_mult)
  also have "\<dots> \<le> 2 ^ LENGTH('a)" using assms by (intro power_increasing) auto
  finally have "unat (le_word bs :: 'a word) = le_nat bs"
    by (simp add: le_word_le_nat unat_of_nat)
  then show ?thesis by (metis le_nat_zero_iff unat_eq_0)
qed

lemma all_zero_word:
  assumes "(load_word m p n :: 'a::len word option) = Some w" "8 * n \<le> LENGTH('a)"
  shows "all_zero m p n = Some (w = 0)"
proof -
  obtain bs where bs: "load_bytes m p n = Some bs" "w = le_word bs"
    using assms(1) by (auto simp: load_word_def)
  then show ?thesis
    using le_word_zero_iff [of bs, where 'a = 'a] assms(2) length_load_bytes [OF bs(1)]
    by (simp add: all_zero_def)
qed

lemma take_load_bytes: "load_bytes m p n = Some bs \<Longrightarrow> k \<le> n \<Longrightarrow> load_bytes m p k = Some (take k bs)"
proof (induction n arbitrary: p bs k)
  case (Suc n)
  show ?case
  proof (cases k)
    case (Suc k')
    with Suc.prems obtain b bs' where "m p = Some b" "load_bytes m (Suc p) n = Some bs'" "bs = b # bs'"
      by (auto split: option.splits)
    then show ?thesis using Suc.IH [of "Suc p" bs' k'] Suc Suc.prems(2) by simp
  qed simp
qed simp

text \<open>The first \<open>k\<close> bytes of a pointer are zero when it is a multiple of 256 to the \<open>k\<close>.\<close>

lemma all_zero_pointer:
  assumes "load_ptr m p = Some q" "k \<le> 8"
  shows "all_zero m p k = Some (q mod 256 ^ k = 0)"
proof -
  obtain bs where bs: "load_bytes m p 8 = Some bs" "q = unat (le_word bs :: u64)"
    using assms(1) by (auto simp: load_ptr_def load_u64_def load_word_def)
  have len: "length bs = 8" using length_load_bytes [OF bs(1)] .
  have "le_nat bs < 256 ^ 8" using le_nat_lt [of bs] len by simp
  then have "q = le_nat bs" by (simp add: bs(2) le_word_le_nat unat_of_nat)
  also have "\<dots> = le_nat (take k bs) + 256 ^ k * le_nat (drop k bs)"
    using le_nat_append [of "take k bs" "drop k bs"] assms(2) len by simp
  finally have "q mod 256 ^ k = le_nat (take k bs) mod 256 ^ k" by simp
  also have "\<dots> = le_nat (take k bs)" using le_nat_lt [of "take k bs"] assms(2) len by simp
  finally show ?thesis
    using take_load_bytes [OF bs(1) assms(2)] by (simp add: all_zero_def le_nat_zero_iff)
qed

lemma signed_take_bit_zero_iff:
  assumes "take_bit (Suc k) w = (w :: u64)"
  shows "signed_take_bit k w = 0 \<longleftrightarrow> w = 0"
proof
  assume "signed_take_bit k w = 0"
  then have "take_bit (Suc k) (signed_take_bit k w) = 0" by simp
  then show "w = 0" using assms by (simp add: take_bit_signed_take_bit)
qed simp

lemma load_word_take_bit:
  assumes "(load_word m p n :: u64 option) = Some w" "8 * n \<le> 64"
  shows "take_bit (8 * n) w = w"
proof -
  obtain bs where bs: "load_bytes m p n = Some bs" "w = le_word bs"
    using assms(1) by (auto simp: load_word_def)
  have len: "length bs = n" using length_load_bytes [OF bs(1)] .
  have "le_nat bs < 256 ^ n" using le_nat_lt [of bs] len by simp
  also have "(256 :: nat) ^ n = 2 ^ (8 * n)" by (simp add: power_mult)
  finally have lt: "le_nat bs < 2 ^ (8 * n)" .
  moreover have "(2 :: nat) ^ (8 * n) \<le> 2 ^ 64" using assms(2) by (intro power_increasing) auto
  ultimately have "unat w = le_nat bs" by (simp add: bs(2) le_word_le_nat unat_of_nat)
  with lt show ?thesis by (simp add: word_unat_eq_iff width_simps)
qed

lemma zigzag_zero_iff: "zigzag v = 0 \<longleftrightarrow> v = 0"
proof -
  have "zigzag 0 = 0" by (simp add: zigzag_def)
  then show ?thesis by (metis unzigzag_zigzag)
qed

lemma scalar_default:
  assumes "PB_LTYPE (f_type f) \<le> PB_LTYPE_LAST_PACKABLE" "proper_size f" "value_of m sub f p = Some v"
  shows "all_zero m p (unat (f_data_size f)) = Some (is_default_value v)"
proof -
  let ?n = "unat (f_data_size f)"
  have lt: "PB_LTYPE (f_type f) = 0 \<or> PB_LTYPE (f_type f) = 1 \<or> PB_LTYPE (f_type f) = 2 \<or>
      PB_LTYPE (f_type f) = 3 \<or> PB_LTYPE (f_type f) = 4 \<or> PB_LTYPE (f_type f) = 5"
    using assms(3) assms(1) by (auto simp: value_of_def Let_def split: if_splits)
  have int: "0 < ?n \<and> 8 * ?n \<le> 64" if "int_size (f_data_size f)"
    using that by (auto simp: int_size_def)
  have signed: "all_zero m p ?n = Some (w = 0)"
    if w: "load_signed m p ?n = Some w" "int_size (f_data_size f)" for w
  proof -
    obtain x where x: "(load_word m p ?n :: u64 option) = Some x" "w = signed_take_bit (8 * ?n - 1) x"
      using w(1) unfolding load_signed_def by blast
    have "Suc (8 * ?n - 1) = 8 * ?n" using int [OF w(2)] by simp
    then have "take_bit (Suc (8 * ?n - 1)) x = x"
      using load_word_take_bit [OF x(1)] int [OF w(2)] by simp
    then show ?thesis
      using all_zero_word [OF x(1)] int [OF w(2)] x(2) signed_take_bit_zero_iff by simp
  qed
  from lt show ?thesis
  proof (elim disjE)
    assume *: "PB_LTYPE (f_type f) = 0"
    then obtain b where "m p = Some b" "v = Raw_varint (if b \<noteq> 0 then 1 else 0)"
      using assms(3) by (auto simp: value_of_def safe_read_bool_def split: if_splits)
    moreover have "?n = 1" using * assms(2) by (simp add: proper_size_def)
    ultimately show ?thesis by (simp add: all_zero_def is_default_value_def)
  next
    assume *: "PB_LTYPE (f_type f) = 1"
    then show ?thesis
      using assms(3) signed by (auto simp: value_of_def is_default_value_def split: if_splits)
  next
    assume *: "PB_LTYPE (f_type f) = 2"
    then obtain w where "(load_word m p ?n :: u64 option) = Some w" "v = Raw_varint w" "int_size (f_data_size f)"
      using assms(3) by (auto simp: value_of_def load_unsigned_def split: if_splits)
    then show ?thesis using all_zero_word [where 'a = 64] int by (auto simp: is_default_value_def)
  next
    assume *: "PB_LTYPE (f_type f) = 3"
    then show ?thesis
      using assms(3) signed by (auto simp: value_of_def is_default_value_def zigzag_zero_iff split: if_splits)
  next
    assume *: "PB_LTYPE (f_type f) = 4"
    then obtain w where "(load_word m p 4 :: u32 option) = Some w" "v = Raw_fixed32 w"
      using assms(3) by (auto simp: value_of_def load_u32_def)
    moreover have "?n = 4" using * assms(2) by (simp add: proper_size_def)
    ultimately show ?thesis using all_zero_word [where 'a = 32] by (auto simp: is_default_value_def)
  next
    assume *: "PB_LTYPE (f_type f) = 5"
    then obtain w where "(load_word m p 8 :: u64 option) = Some w" "v = Raw_fixed64 w"
      using assms(3) by (auto simp: value_of_def load_unsigned_def)
    moreover have "?n = 8" using * assms(2) by (simp add: proper_size_def)
    ultimately show ?thesis using all_zero_word [where 'a = 64] by (auto simp: is_default_value_def)
  qed
qed

lemma bytes_default:
  assumes "PB_LTYPE (f_type f) = PB_LTYPE_BYTES" "p \<noteq> 0" "value_of m sub f p = Some v"
  shows "map_option (\<lambda>size. size = 0) (load_u32 m p) = Some (is_default_value v)"
proof -
  obtain c bs where "load_u32 m p = Some c" "load_bytes m (p + 4) (unat c) = Some bs" "v = Raw_string bs"
    using assms by (auto simp: value_of_def Let_def split: option.splits if_splits)
  then show ?thesis
    using length_load_bytes [of m "p + 4" "unat c" bs] by (auto simp: is_default_value_def unat_eq_0)
qed

lemma string_size_bounds:
  "string_size m max_size i p = Some c \<Longrightarrow> i < max_size \<Longrightarrow> i \<le> c \<and> m p \<noteq> None \<and> (m p = Some 0 \<longleftrightarrow> c = i)"
proof (induction "max_size - i" arbitrary: i p)
  case (Suc d)
  obtain b where b: "m p = Some b"
    using Suc.prems by (subst (asm) string_size.simps) (auto split: option.splits if_splits)
  show ?case
  proof (cases "b = 0")
    case True
    then show ?thesis using Suc.prems b by (subst (asm) string_size.simps) simp
  next
    case False
    then have rest: "string_size m max_size (Suc i) (Suc p) = Some c"
      using Suc.prems b by (subst (asm) string_size.simps) simp
    have "Suc i \<le> c"
    proof (cases "Suc i < max_size")
      case True
      then show ?thesis using Suc.hyps(1) [OF _ rest] Suc.hyps(2) by simp
    next
      case stop: False
      then show ?thesis using rest by (subst (asm) string_size.simps) simp
    qed
    with False b show ?thesis by auto
  qed
qed simp

lemma string_default:
  assumes "PB_LTYPE (f_type f) = PB_LTYPE_STRING" "PB_ATYPE (f_type f) = PB_ATYPE_STATIC" "p \<noteq> 0"
    "f_data_size f \<noteq> 0" "value_of m sub f p = Some v"
  shows "map_option (\<lambda>c. c = 0) (m p) = Some (is_default_value v)"
proof -
  obtain c bs where c: "string_size m (unat (f_data_size f)) 0 p = Some c" "load_bytes m p c = Some bs"
    "v = Raw_string bs"
    using assms by (auto simp: value_of_def Let_def split: option.splits if_splits)
  have "0 < unat (f_data_size f)" using assms(4) by (simp add: unat_gt_0)
  from string_size_bounds [OF c(1) this] c(3) length_load_bytes [OF c(2)]
  show ?thesis by (auto simp: is_default_value_def)
qed

lemma fixed_bytes_default:
  assumes "PB_LTYPE (f_type f) = PB_LTYPE_FIXED_LENGTH_BYTES" "value_of m sub f p = Some v" "p \<noteq> 0"
  shows "(f_data_size f = 0) = is_default_value v"
proof -
  obtain bs where "load_bytes m p (unat (f_data_size f)) = Some bs" "v = Raw_string bs"
    using assms by (auto simp: value_of_def Let_def split: option.splits if_splits)
  then show ?thesis
    using length_load_bytes [of m p "unat (f_data_size f)" bs] by (auto simp: is_default_value_def unat_eq_0)
qed

subsection \<open>The check decides the rule\<close>

lemma fields_all_eq:
  "(\<And>it'. it' \<in> set (iter_list it) \<Longrightarrow> chk it' = Some (c it')) \<Longrightarrow>
   fields_all chk it = Some (\<forall>it'\<in>set (iter_list it). c it')"
proof (induction it rule: iter_list.induct)
  case (1 it)
  obtain again it' where nx: "pb_field_iter_next it = (again, it')" by force
  have head: "chk it = Some (c it)" by (rule 1(2)) (subst iter_list.simps, simp)
  show ?case
  proof (cases again)
    case True
    have "chk x = Some (c x)" if "x \<in> set (iter_list it')" for x
      by (rule 1(2)) (use that nx True in \<open>subst iter_list.simps, simp\<close>)
    then have "fields_all chk it' = Some (\<forall>x\<in>set (iter_list it'). c x)"
      using 1(1) [OF nx [symmetric] True] by blast
    then show ?thesis
      using head nx True by (subst fields_all.simps, subst iter_list.simps) simp
  next
    case False
    then show ?thesis
      using head nx by (subst fields_all.simps, subst iter_list.simps) simp
  qed
qed

lemma iter_list_tags:
  "it' \<in> set (iter_list it) \<Longrightarrow> f_tag (it_field it) \<noteq> 0 \<Longrightarrow> f_tag (it_field it') \<noteq> 0"
proof (induction it rule: iter_list.induct)
  case (1 it)
  obtain again nxt where nx: "pb_field_iter_next it = (again, nxt)" by force
  have tag: "again \<Longrightarrow> f_tag (it_field nxt) \<noteq> 0"
    using nx by (auto simp: pb_field_iter_next_def Let_def split: if_splits)
  have "it' = it \<or> again \<and> it' \<in> set (iter_list nxt)"
    using 1(2) nx by (subst (asm) iter_list.simps) (auto split: if_splits)
  then show ?case using 1(1) [OF nx [symmetric]] 1(3) tag by blast
qed

text \<open>What the check says of one field, by the presence rules of the code.\<close>

lemma check_required: "PB_HTYPE (f_type f) = PB_HTYPE_REQUIRED \<Longrightarrow>
    pb_check_proto3_default_value (Suc n) m ds f p = Some False"
  by (simp add: pb_check_proto3_default_value.simps Let_def)

lemma check_repeated:
  assumes "PB_HTYPE (f_type f) = PB_HTYPE_REPEATED"
  shows "f_size_offset f \<noteq> 0 \<Longrightarrow> pb_check_proto3_default_value (Suc n) m ds f p =
      map_option (\<lambda>c. c = 0) (load_u32 m (offset_addr p (f_size_offset f)))"
    "f_size_offset f = 0 \<Longrightarrow> PB_ATYPE (f_type f) = PB_ATYPE_STATIC \<Longrightarrow>
      pb_check_proto3_default_value (Suc n) m ds f p = Some False"
  using assms by (simp_all add: pb_check_proto3_default_value.simps Let_def)

lemma check_oneof: "PB_HTYPE (f_type f) = PB_HTYPE_ONEOF \<Longrightarrow>
    pb_check_proto3_default_value (Suc n) m ds f p =
      map_option (\<lambda>c. c = 0) (load_u32 m (offset_addr p (f_size_offset f)))"
  by (simp add: pb_check_proto3_default_value.simps Let_def)

lemma check_flagged: "PB_HTYPE (f_type f) = PB_HTYPE_OPTIONAL \<Longrightarrow> f_size_offset f \<noteq> 0 \<Longrightarrow>
    pb_check_proto3_default_value (Suc n) m ds f p =
      map_option Not (safe_read_bool m (offset_addr p (f_size_offset f)))"
  by (simp add: pb_check_proto3_default_value.simps Let_def)

lemma check_callback:
  assumes "PB_HTYPE (f_type f) = PB_HTYPE_OPTIONAL \<or> PB_HTYPE (f_type f) = PB_HTYPE_REPEATED"
    "f_size_offset f = 0" "PB_ATYPE (f_type f) = PB_ATYPE_CALLBACK"
    "load_bytes m p (unat (f_data_size f)) = Some (replicate (unat (f_data_size f)) 0)"
  shows "pb_check_proto3_default_value (Suc n) m ds f p = Some True"
  using assms by (auto simp: pb_check_proto3_default_value.simps Let_def all_zero_def)

lemma check_pointer:
  assumes "PB_HTYPE (f_type f) = PB_HTYPE_OPTIONAL" "f_size_offset f = 0"
    "PB_ATYPE (f_type f) = PB_ATYPE_POINTER" "load_ptr m p = Some q"
  shows "PB_LTYPE_LAST_PACKABLE < PB_LTYPE (f_type f) \<Longrightarrow>
      pb_check_proto3_default_value (Suc n) m ds f p = Some (q = 0)"
    "PB_LTYPE (f_type f) \<le> PB_LTYPE_LAST_PACKABLE \<Longrightarrow> unat (f_data_size f) \<le> 8 \<Longrightarrow>
      pb_check_proto3_default_value (Suc n) m ds f p = Some (q mod 256 ^ unat (f_data_size f) = 0)"
  using assms all_zero_pointer [OF assms(4)]
  by (auto simp: pb_check_proto3_default_value.simps Let_def)

lemma packable_size:
  assumes "proper_size f" "PB_LTYPE (f_type f) \<le> PB_LTYPE_LAST_PACKABLE"
  shows "unat (f_data_size f) \<le> 8"
proof -
  have "PB_LTYPE (f_type f) = 0 \<or> PB_LTYPE (f_type f) = 1 \<or> PB_LTYPE (f_type f) = 2 \<or>
      PB_LTYPE (f_type f) = 3 \<or> PB_LTYPE (f_type f) = 4 \<or> PB_LTYPE (f_type f) = 5"
  proof -
    have "unat (PB_LTYPE (f_type f)) \<le> 5" using assms(2) by (simp add: word_le_nat_alt)
    then have "unat (PB_LTYPE (f_type f)) \<in> {0, 1, 2, 3, 4, 5}" by auto
    then show ?thesis by (auto simp: word_unat_eq_iff)
  qed
  then show ?thesis using assms(1) by (auto simp: proper_size_def int_size_def Let_def)
qed

lemma check_static_leaf:
  assumes "PB_HTYPE (f_type f) = PB_HTYPE_OPTIONAL" "f_size_offset f = 0"
    "PB_ATYPE (f_type f) = PB_ATYPE_STATIC" "PB_LTYPE (f_type f) \<noteq> PB_LTYPE_SUBMESSAGE"
    "proper_size f" "p \<noteq> 0" "value_of m sub f p = Some v"
  shows "pb_check_proto3_default_value (Suc n) m ds f p = Some (is_default_value v)"
proof -
  have not8: "\<not> PB_LTYPE (f_type f) \<le> PB_LTYPE_LAST_PACKABLE \<Longrightarrow> PB_LTYPE (f_type f) \<in> {6, 7, 10}"
    using assms(4,7) by (auto simp: value_of_def Let_def split: if_splits)
  consider "PB_LTYPE (f_type f) \<le> PB_LTYPE_LAST_PACKABLE" | "PB_LTYPE (f_type f) = PB_LTYPE_BYTES"
    | "PB_LTYPE (f_type f) = PB_LTYPE_STRING" | "PB_LTYPE (f_type f) = PB_LTYPE_FIXED_LENGTH_BYTES"
    using not8 by auto
  then show ?thesis
  proof cases
    case 1
    then show ?thesis
      using assms(1-4) scalar_default [OF 1 assms(5,7)]
      by (auto simp: pb_check_proto3_default_value.simps Let_def)
  next
    case 2
    then show ?thesis
      using assms(1-4) bytes_default [OF 2 assms(6,7)]
      by (simp add: pb_check_proto3_default_value.simps Let_def)
  next
    case 3
    then have "f_data_size f \<noteq> 0" using assms(5) by (simp add: proper_size_def)
    with 3 show ?thesis
      using assms(1-4) string_default [OF 3 assms(3,6) _ assms(7)]
      by (simp add: pb_check_proto3_default_value.simps Let_def)
  next
    case 4
    then show ?thesis
      using assms(1-4) fixed_bytes_default [OF 4 assms(7,6)]
      by (simp add: pb_check_proto3_default_value.simps Let_def)
  qed
qed

lemma record_bytes_nonempty: "record_bytes r \<noteq> []"
  using length_varint_bytes_pos [of "tag_value (raw_type (snd r)) (fst r)"]
  by (auto simp: record_bytes_def)

lemma records_bytes_Nil_iff: "records_bytes rs = [] \<longleftrightarrow> rs = []"
  by (cases rs) (simp_all add: record_bytes_nonempty)

text \<open>The records of a field that is stored in or allocated for the structure.\<close>

lemma field_records_cases:
  assumes "field_records m sub check f p0 = Some r"
    "PB_LTYPE (f_type f) \<noteq> PB_LTYPE_EXTENSION" "PB_ATYPE (f_type f) \<noteq> PB_ATYPE_CALLBACK"
  obtains p where "PB_ATYPE (f_type f) = PB_ATYPE_STATIC \<and> p = p0 \<or>
      PB_ATYPE (f_type f) = PB_ATYPE_POINTER \<and> load_ptr m p0 = Some p"
    "PB_HTYPE (f_type f) = PB_HTYPE_REPEATED \<longrightarrow>
      (\<exists>c. (if f_size_offset f \<noteq> 0 then load_u32 m (offset_addr p0 (f_size_offset f))
            else Some (f_array_size f)) = Some c \<and> array_records m sub f p (unat c) = Some r)"
    "PB_HTYPE (f_type f) \<noteq> PB_HTYPE_REPEATED \<longrightarrow>
      (\<exists>there. field_present m check f p0 p = Some there \<and>
        (if there then \<exists>v. value_of m sub f p = Some v \<and> r = [(f_tag f, v)] else r = []))"
proof -
  have atype: "PB_ATYPE (f_type f) = PB_ATYPE_STATIC \<or> PB_ATYPE (f_type f) = PB_ATYPE_POINTER"
    using assms by (auto simp: field_records_def Let_def split: if_splits)
  obtain p where p: "(if PB_ATYPE (f_type f) = PB_ATYPE_POINTER then load_ptr m p0 else Some p0) = Some p"
    using assms atype by (auto simp: field_records_def Let_def split: if_splits option.splits)
  show ?thesis
  proof
    show "PB_ATYPE (f_type f) = PB_ATYPE_STATIC \<and> p = p0 \<or>
        PB_ATYPE (f_type f) = PB_ATYPE_POINTER \<and> load_ptr m p0 = Some p"
      using atype p by auto
  next
    show "PB_HTYPE (f_type f) = PB_HTYPE_REPEATED \<longrightarrow>
      (\<exists>c. (if f_size_offset f \<noteq> 0 then load_u32 m (offset_addr p0 (f_size_offset f))
            else Some (f_array_size f)) = Some c \<and> array_records m sub f p (unat c) = Some r)"
      using assms atype p by (auto simp: field_records_def Let_def bind_eq_Some_conv split: if_splits)
  next
    show "PB_HTYPE (f_type f) \<noteq> PB_HTYPE_REPEATED \<longrightarrow>
      (\<exists>there. field_present m check f p0 p = Some there \<and>
        (if there then \<exists>v. value_of m sub f p = Some v \<and> r = [(f_tag f, v)] else r = []))"
      using assms atype p by (auto simp: field_records_def Let_def split: if_splits option.splits)
  qed
qed

lemma array_records_empty:
  assumes "array_records m sub f p n = Some r"
  shows "r = [] \<longleftrightarrow> n = 0"
proof (cases "n = 0")
  case True
  then show ?thesis using assms by (simp add: array_records_def)
next
  case False
  have len: "length (item_addrs k n p) = n" for k by (simp add: item_addrs_def)
  have those_len: "those (map g (item_addrs k n p)) = Some vs \<Longrightarrow> vs \<noteq> []" for g k and vs :: "raw_value list"
    using False len [of k] by (auto simp: those_Some_iff)
  show ?thesis
    using assms False unfolding array_records_def Let_def
    by (auto dest: those_len split: if_split_asm)
qed

lemma PB_HTYPE_cases:
  "PB_HTYPE x = PB_HTYPE_REQUIRED \<or> PB_HTYPE x = PB_HTYPE_OPTIONAL \<or>
   PB_HTYPE x = PB_HTYPE_REPEATED \<or> PB_HTYPE x = PB_HTYPE_ONEOF"
proof -
  define y where "y = take_bit 2 (drop_bit 4 x)"
  have m: "(0x30 :: u8) = push_bit 4 (mask 2)" by (simp add: mask_eq_exp_minus_1)
  have eq: "PB_HTYPE x = push_bit 4 y"
    unfolding PB_HTYPE_def y_def m by (rule bit_word_eqI) (auto simp: bit_simps)
  have "unat y < 2 ^ 2" unfolding y_def by (simp add: width_simps)
  then have "unat y \<in> {0, 1, 2, 3}" by auto
  then have "y = 0 \<or> y = 1 \<or> y = 2 \<or> y = 3" by (auto simp: word_unat_eq_iff)
  then show ?thesis unfolding eq by (elim disjE) simp_all
qed

lemma check_field:
  assumes recs: "field_records m sub (proto3_default m ds sub) (it_field it) (it_pData it) = Some r"
    and ok: "embedded_field_ok m its it" and tag: "f_tag (it_field it) \<noteq> 0"
    and dec: "decides (proto3_default m ds sub) (pb_check_proto3_default_value (Suc n) m ds)"
  shows "\<exists>c. pb_check_proto3_default_value (Suc n) m ds (it_field it) (it_pData it) = Some c \<and>
    (c \<longrightarrow> r = []) \<and>
    (\<not> c \<longrightarrow> r \<noteq> [] \<or> PB_HTYPE (f_type (it_field it)) = PB_HTYPE_ONEOF \<and>
       load_u32 m (offset_addr (it_pData it) (f_size_offset (it_field it))) \<noteq> Some 0)"
proof -
  define f p0 where "f = it_field it" and "p0 = it_pData it"
  let ?chk = "pb_check_proto3_default_value (Suc n) m ds f p0"
  note ok = ok [unfolded embedded_field_ok_def Let_def, folded f_def p0_def]
  note recs = recs [folded f_def p0_def]
  have main: "\<exists>c. ?chk = Some c \<and> (c \<longrightarrow> r = []) \<and>
    (\<not> c \<longrightarrow> r \<noteq> [] \<or> PB_HTYPE (f_type f) = PB_HTYPE_ONEOF \<and>
       load_u32 m (offset_addr p0 (f_size_offset f)) \<noteq> Some 0)"
  proof (cases "PB_LTYPE (f_type f) = PB_LTYPE_EXTENSION \<or> PB_ATYPE (f_type f) = PB_ATYPE_CALLBACK")
    case True
    then have "r = []" using recs by (auto simp: field_records_def split: if_splits)
    moreover have "?chk = Some True" using True ok by (intro check_callback) blast+
    ultimately show ?thesis by (intro exI [of _ True]) simp
  next
    case False
    then have plain: "PB_LTYPE (f_type f) \<noteq> PB_LTYPE_EXTENSION" "PB_ATYPE (f_type f) \<noteq> PB_ATYPE_CALLBACK"
      by simp_all
    obtain p where p: "PB_ATYPE (f_type f) = PB_ATYPE_STATIC \<and> p = p0 \<or>
        PB_ATYPE (f_type f) = PB_ATYPE_POINTER \<and> load_ptr m p0 = Some p"
      and rep: "PB_HTYPE (f_type f) = PB_HTYPE_REPEATED \<longrightarrow>
        (\<exists>c. (if f_size_offset f \<noteq> 0 then load_u32 m (offset_addr p0 (f_size_offset f))
              else Some (f_array_size f)) = Some c \<and> array_records m sub f p (unat c) = Some r)"
      and single: "PB_HTYPE (f_type f) \<noteq> PB_HTYPE_REPEATED \<longrightarrow>
        (\<exists>there. field_present m (proto3_default m ds sub) f p0 p = Some there \<and>
          (if there then \<exists>v. value_of m sub f p = Some v \<and> r = [(f_tag f, v)] else r = []))"
      by (rule field_records_cases [OF recs plain])
    consider "PB_HTYPE (f_type f) = PB_HTYPE_REQUIRED" | "PB_HTYPE (f_type f) = PB_HTYPE_REPEATED"
      | "PB_HTYPE (f_type f) = PB_HTYPE_ONEOF"
      | "PB_HTYPE (f_type f) = PB_HTYPE_OPTIONAL" "f_size_offset f \<noteq> 0"
      | "PB_HTYPE (f_type f) = PB_HTYPE_OPTIONAL" "f_size_offset f = 0"
      using PB_HTYPE_cases [of "f_type f"] by blast
    then show ?thesis
    proof cases
      case 1
      then show ?thesis
        using single by (auto simp: check_required field_present_def split: if_splits)
    next
      case 2
      then obtain c where c: "(if f_size_offset f \<noteq> 0 then load_u32 m (offset_addr p0 (f_size_offset f))
           else Some (f_array_size f)) = Some c" "array_records m sub f p (unat c) = Some r"
        using rep by blast
      have "r = [] \<longleftrightarrow> c = 0" using array_records_empty [OF c(2)] by (simp add: unat_eq_0)
      then show ?thesis
        using 2 c(1) ok plain check_repeated [OF 2] by (cases "f_size_offset f = 0") auto
    next
      case 3
      then show ?thesis
        using single tag [folded f_def] by (auto simp: check_oneof field_present_def split: if_splits)
    next
      case 4
      then show ?thesis
        using single by (auto simp: check_flagged field_present_def split: if_splits)
    next
      case 5
      from 5 single obtain there where there: "field_present m (proto3_default m ds sub) f p0 p = Some there"
        "if there then \<exists>v. value_of m sub f p = Some v \<and> r = [(f_tag f, v)] else r = []" by auto
      then obtain d where d: "proto3_default m ds sub f p0 = Some d"
        "there = (if PB_ATYPE (f_type f) = PB_ATYPE_POINTER then p \<noteq> 0 else \<not> d)"
        using 5 by (auto simp: field_present_def)
      from p show ?thesis
      proof (elim disjE)
        assume static: "PB_ATYPE (f_type f) = PB_ATYPE_STATIC \<and> p = p0"
        then have "?chk = Some d" using decidesD [OF dec 5 _ d(1)] by auto
        then show ?thesis using d(2) there(2) static by (auto split: if_splits)
      next
        assume pointer: "PB_ATYPE (f_type f) = PB_ATYPE_POINTER \<and> load_ptr m p0 = Some p"
        have "?chk = Some (p = 0)"
        proof (cases "PB_LTYPE (f_type f) \<le> PB_LTYPE_LAST_PACKABLE")
          case True
          then have size: "unat (f_data_size f) \<le> 8"
            using d(1) pointer by (intro packable_size) (auto simp: proto3_default_def split: if_splits)
          have "p = 0 \<or> p mod 256 ^ unat (f_data_size f) \<noteq> 0"
            using ok 5 pointer True by (auto simp: pointer_visible_def)
          then show ?thesis
            using check_pointer(2) [OF 5 _ _ True size, of m p0 p] pointer by auto
        next
          case False
          then show ?thesis using check_pointer(1) [OF 5, of m p0 p] pointer by auto
        qed
        then show ?thesis using d(2) there(2) pointer by (auto split: if_splits)
      qed
    qed
  qed
  then show ?thesis unfolding f_def p0_def .
qed

text \<open>An embedded submessage is default for the check if and only if its encoding is empty.\<close>

lemma check_embedded:
  assumes recs: "those (map (\<lambda>it. field_records m sub (proto3_default m ds sub) (it_field it) (it_pData it))
      (iter_list iter)) = Some rss"
    and ok: "list_all (embedded_field_ok m (iter_list iter)) (iter_list iter)"
    and tag: "f_tag (it_field iter) \<noteq> 0"
    and dec: "decides (proto3_default m ds sub) (pb_check_proto3_default_value (Suc n) m ds)"
  shows "fields_all (\<lambda>it. pb_check_proto3_default_value (Suc n) m ds (it_field it) (it_pData it)) iter =
    Some (concat rss = [])"
proof -
  let ?its = "iter_list iter"
  let ?rec = "\<lambda>it. field_records m sub (proto3_default m ds sub) (it_field it) (it_pData it)"
  let ?chk = "\<lambda>it. pb_check_proto3_default_value (Suc n) m ds (it_field it) (it_pData it)"
  have rss: "map ?rec ?its = map Some rss" using recs by (simp only: those_Some_iff)
  have rec: "\<exists>r\<in>set rss. ?rec it = Some r" if "it \<in> set ?its" for it
  proof -
    have "?rec it \<in> set (map Some rss)" unfolding rss [symmetric] using that by simp
    then show ?thesis by auto
  qed
  have rec': "\<exists>it\<in>set ?its. ?rec it = Some r" if "r \<in> set rss" for r
  proof -
    have "Some r \<in> set (map ?rec ?its)" unfolding rss using that by simp
    then show ?thesis by force
  qed
  have okI: "embedded_field_ok m ?its it" if "it \<in> set ?its" for it
    using ok that by (simp add: list_all_iff)
  have chk: "\<exists>c. ?chk it = Some c \<and> (c \<longrightarrow> r = []) \<and>
      (\<not> c \<longrightarrow> r \<noteq> [] \<or> PB_HTYPE (f_type (it_field it)) = PB_HTYPE_ONEOF \<and>
         load_u32 m (offset_addr (it_pData it) (f_size_offset (it_field it))) \<noteq> Some 0)"
    if "it \<in> set ?its" "?rec it = Some r" for it r
    using that okI iter_list_tags [OF _ tag] dec by (intro check_field) auto
  define c where "c = (\<lambda>it. the (?chk it))"
  have c: "?chk it = Some (c it)" if it: "it \<in> set ?its" for it
  proof -
    obtain r where "?rec it = Some r" using rec [OF it] by blast
    then obtain b where "?chk it = Some b" using chk [OF it] by blast
    then show ?thesis by (simp add: c_def)
  qed
  have "(\<forall>it\<in>set ?its. c it) \<longleftrightarrow> concat rss = []"
  proof
    assume all: "\<forall>it\<in>set ?its. c it"
    have "r = []" if r: "r \<in> set rss" for r
    proof -
      obtain it where it: "it \<in> set ?its" "?rec it = Some r" using rec' [OF r] by blast
      then show ?thesis using chk [OF it] c [OF it(1)] all by auto
    qed
    then show "concat rss = []" by simp
  next
    assume none: "concat rss = []"
    show "\<forall>it\<in>set ?its. c it"
    proof (rule ballI, rule ccontr)
      fix it assume it: "it \<in> set ?its" "\<not> c it"
      obtain r where r: "r \<in> set rss" "?rec it = Some r" using rec [OF it(1)] by blast
      let ?pSize = "offset_addr (it_pData it) (f_size_offset (it_field it))"
      have "r = []" using none r(1) by simp
      then have one: "PB_HTYPE (f_type (it_field it)) = PB_HTYPE_ONEOF" "load_u32 m ?pSize \<noteq> Some 0"
        using chk [OF it(1) r(2)] c [OF it(1)] it(2) by auto
      then have "union_tag_ok m ?its ?pSize" using okI [OF it(1)] by (simp add: embedded_field_ok_def Let_def)
      then obtain it' where it': "it' \<in> set ?its" "PB_HTYPE (f_type (it_field it')) = PB_HTYPE_ONEOF"
        "offset_addr (it_pData it') (f_size_offset (it_field it')) = ?pSize"
        "load_u32 m ?pSize = Some (f_tag (it_field it'))"
        using one(2) by (auto simp: union_tag_ok_def list_ex_iff)
      obtain r' where r': "r' \<in> set rss" "?rec it' = Some r'" using rec [OF it'(1)] by blast
      have plain: "PB_LTYPE (f_type (it_field it')) \<noteq> PB_LTYPE_EXTENSION"
        "PB_ATYPE (f_type (it_field it')) \<noteq> PB_ATYPE_CALLBACK"
        using okI [OF it'(1)] it'(2) by (auto simp: embedded_field_ok_def Let_def)
      have "PB_HTYPE (f_type (it_field it')) \<noteq> PB_HTYPE_REPEATED" using it'(2) by simp
      then obtain p there where there:
        "field_present m (proto3_default m ds sub) (it_field it') (it_pData it') p = Some there"
        "if there then \<exists>v. value_of m sub (it_field it') p = Some v \<and> r' = [(f_tag (it_field it'), v)] else r' = []"
        using field_records_cases [OF r'(2) plain] by metis
      have "there" using there(1) it'(2,3,4) by (auto simp: field_present_def split: if_splits)
      then have "r' \<noteq> []" using there(2) by auto
      then show False using none r'(1) by simp
    qed
  qed
  then show ?thesis using fields_all_eq [of iter ?chk c] c by simp
qed

lemma check_leaf_or_pointer:
  assumes f: "PB_HTYPE (f_type f) = PB_HTYPE_OPTIONAL" "f_size_offset f = 0"
      "PB_ATYPE (f_type f) = PB_ATYPE_STATIC \<or> PB_ATYPE (f_type f) = PB_ATYPE_POINTER"
    and spec: "proto3_default m ds sub f p = Some b"
    and leaf: "PB_ATYPE (f_type f) = PB_ATYPE_STATIC \<Longrightarrow> PB_LTYPE (f_type f) \<noteq> PB_LTYPE_SUBMESSAGE"
  shows "\<exists>b'. pb_check_proto3_default_value (Suc n) m ds f p = Some b' \<and>
    (PB_ATYPE (f_type f) = PB_ATYPE_STATIC \<longrightarrow> b' = b)"
  using f(3)
proof (elim disjE)
  assume static: "PB_ATYPE (f_type f) = PB_ATYPE_STATIC"
  then obtain v where "p \<noteq> 0" "proper_size f" "value_of m sub f p = Some v" "b = is_default_value v"
    using spec leaf by (auto simp: proto3_default_def split: if_splits)
  then show ?thesis using check_static_leaf [OF f(1,2) static leaf [OF static]] by blast
next
  assume pointer: "PB_ATYPE (f_type f) = PB_ATYPE_POINTER"
  then obtain q where q: "load_ptr m p = Some q"
    using spec by (auto simp: proto3_default_def split: if_splits)
  show ?thesis
  proof (cases "PB_LTYPE (f_type f) \<le> PB_LTYPE_LAST_PACKABLE")
    case True
    then have "unat (f_data_size f) \<le> 8"
      using spec pointer by (intro packable_size) (auto simp: proto3_default_def split: if_splits)
    then show ?thesis using check_pointer(2) [OF f(1,2) pointer q True] pointer by simp
  next
    case False
    then show ?thesis using check_pointer(1) [OF f(1,2) pointer q] pointer by simp
  qed
qed

lemma check_decides:
  "decides (proto3_default m ds (proto3_records n m ds)) (pb_check_proto3_default_value (Suc n) m ds)"
proof (induction n)
  case 0
  show ?case
    unfolding decides_def
  proof (intro allI impI)
    fix f p b
    assume f: "PB_HTYPE (f_type f) = PB_HTYPE_OPTIONAL" "f_size_offset f = 0"
      "PB_ATYPE (f_type f) = PB_ATYPE_STATIC \<or> PB_ATYPE (f_type f) = PB_ATYPE_POINTER"
      and spec: "proto3_default m ds (proto3_records 0 m ds) f p = Some b"
    have "PB_ATYPE (f_type f) = PB_ATYPE_STATIC \<Longrightarrow> PB_LTYPE (f_type f) \<noteq> PB_LTYPE_SUBMESSAGE"
      using spec by (auto simp: proto3_default_def value_of_submessage split: if_splits)
    then show "\<exists>b'. pb_check_proto3_default_value (Suc 0) m ds f p = Some b' \<and>
        (PB_ATYPE (f_type f) = PB_ATYPE_STATIC \<longrightarrow> b' = b)"
      using check_leaf_or_pointer [OF f spec] by blast
  qed
next
  case (Suc n)
  show ?case
    unfolding decides_def
  proof (intro allI impI)
    fix f p b
    assume f: "PB_HTYPE (f_type f) = PB_HTYPE_OPTIONAL" "f_size_offset f = 0"
      "PB_ATYPE (f_type f) = PB_ATYPE_STATIC \<or> PB_ATYPE (f_type f) = PB_ATYPE_POINTER"
      and spec: "proto3_default m ds (proto3_records (Suc n) m ds) f p = Some b"
    show "\<exists>b'. pb_check_proto3_default_value (Suc (Suc n)) m ds f p = Some b' \<and>
        (PB_ATYPE (f_type f) = PB_ATYPE_STATIC \<longrightarrow> b' = b)"
    proof (cases "PB_ATYPE (f_type f) = PB_ATYPE_STATIC \<and> PB_LTYPE (f_type f) = PB_LTYPE_SUBMESSAGE")
      case True
      then obtain rs where rs: "proto3_records (Suc n) m ds (f_ptr f) p = Some rs"
        "b = is_default_value (Raw_string (records_bytes rs))" "embedded_ok m ds (f_ptr f) p"
        using spec by (auto simp: proto3_default_def value_of_submessage split: if_splits)
      have b: "b = (rs = [])" by (simp add: rs(2) is_default_value_def records_bytes_Nil_iff)
      obtain fs where fs: "ds (f_ptr f) = Some fs" using rs(1) by (auto split: option.splits)
      obtain nonempty iter where start: "pb_field_iter_begin fs p = (nonempty, iter)" by force
      have "pb_check_proto3_default_value (Suc (Suc n)) m ds f p = Some b"
      proof (cases nonempty)
        case False
        then show ?thesis
          using True f(1,2) fs start rs(1) b
          by (simp add: pb_check_proto3_default_value.simps(2) [of "Suc n"] Let_def)
      next
        case ne: True
        then obtain rss where rss: "those (map (\<lambda>it. field_records m (proto3_records n m ds)
              (proto3_default m ds (proto3_records n m ds)) (it_field it) (it_pData it)) (iter_list iter)) = Some rss"
          "rs = concat rss"
          using rs(1) fs start by auto
        have ok: "list_all (embedded_field_ok m (iter_list iter)) (iter_list iter)"
          using rs(3) fs start ne by (simp add: embedded_ok_def)
        have tag: "f_tag (it_field iter) \<noteq> 0"
          using start ne by (auto simp: pb_field_iter_begin_def Let_def)
        show ?thesis
          using True f(1,2) fs start ne check_embedded [OF rss(1) ok tag Suc.IH] rss(2) b
          by (simp add: pb_check_proto3_default_value.simps(2) [of "Suc n"] Let_def)
      qed
      then show ?thesis by blast
    next
      case False
      then show ?thesis using check_leaf_or_pointer [OF f spec] by blast
    qed
  qed
qed

lemma records_by_check:
  "proto3_records n m ds flds src = Some rs \<Longrightarrow> message_records n m ds flds src = Some rs"
proof (induction n arbitrary: flds src rs)
  case (Suc n)
  obtain fs where fs: "ds flds = Some fs" using Suc.prems by (auto split: option.splits)
  obtain nonempty iter where start: "pb_field_iter_begin fs src = (nonempty, iter)" by force
  show ?case
  proof (cases nonempty)
    case False
    then show ?thesis using Suc.prems fs start by simp
  next
    case True
    then obtain rss where rss: "those (map (\<lambda>it. field_records m (proto3_records n m ds)
          (proto3_default m ds (proto3_records n m ds)) (it_field it) (it_pData it)) (iter_list iter)) = Some rss"
      "rs = concat rss"
      using Suc.prems fs start by auto
    have "those (map (\<lambda>it. field_records m (message_records n m ds)
          (pb_check_proto3_default_value (Suc n) m ds) (it_field it) (it_pData it)) (iter_list iter)) = Some rss"
      by (rule those_mono [OF _ rss(1)], rule field_records_decided [OF Suc.IH check_decides])
    then show ?thesis using rss(2) fs start True by simp
  qed
qed simp

subsection \<open>A pointer the check takes for a value\<close>

text \<open>
  A message of one embedded submessage, which has one allocated field of a packable type. When the
  address of the value is a multiple of 256 to its size, the check finds the submessage empty.
\<close>

lemma iter_list_single:
  assumes "f_tag f \<noteq> 0"
  shows "iter_list (snd (pb_field_iter_begin [f] src)) = [snd (pb_field_iter_begin [f] src)]"
  using assms
  by (subst iter_list.simps)
    (simp add: pb_field_iter_next_def pb_field_iter_begin_def field_at_def PB_LAST_FIELD_def Let_def)

lemma iter_begin_single:
  assumes "f_tag f \<noteq> 0" "src \<noteq> 0"
  shows "fst (pb_field_iter_begin [f] src)" "it_field (snd (pb_field_iter_begin [f] src)) = f"
    "it_pData (snd (pb_field_iter_begin [f] src)) = src + unat (f_data_offset f)"
  using assms by (simp_all add: pb_field_iter_begin_def field_at_def Let_def)

lemma check_pointer_submessage:
  assumes "PB_HTYPE (f_type g) = PB_HTYPE_OPTIONAL" "f_size_offset g = 0"
    "PB_ATYPE (f_type g) = PB_ATYPE_STATIC" "PB_LTYPE (f_type g) = PB_LTYPE_SUBMESSAGE"
    "ds (f_ptr g) = Some [f]" "f_tag f \<noteq> 0" "p \<noteq> 0"
    "pb_check_proto3_default_value (Suc n) m ds f (p + unat (f_data_offset f)) = Some b"
  shows "pb_check_proto3_default_value (Suc (Suc n)) m ds g p = Some b"
proof -
  obtain ne iter where start: "pb_field_iter_begin [f] p = (ne, iter)" by force
  then have it: "ne" "it_field iter = f" "it_pData iter = p + unat (f_data_offset f)"
    and list: "iter_list iter = [iter]"
    using iter_begin_single [OF assms(6,7)] iter_list_single [OF assms(6), of p] by simp_all
  have "fields_all (\<lambda>it. pb_check_proto3_default_value (Suc n) m ds (it_field it) (it_pData it)) iter = Some b"
    using fields_all_eq [of iter _ "\<lambda>_. b"] list it assms(8) by simp
  then show ?thesis
    using assms(1-5) start it(1) by (simp add: pb_check_proto3_default_value.simps(2) [of "Suc n"] Let_def)
qed

lemma single_pointer_records:
  assumes "ds flds = Some [f]" "f_tag f \<noteq> 0" "src \<noteq> 0"
    "PB_HTYPE (f_type f) = PB_HTYPE_OPTIONAL" "f_size_offset f = 0" "PB_ATYPE (f_type f) = PB_ATYPE_POINTER"
    "PB_LTYPE (f_type f) \<le> PB_LTYPE_LAST_PACKABLE" "proper_size f"
    "load_ptr m (src + unat (f_data_offset f)) = Some q" "q \<noteq> 0" "value_of m (\<lambda>_ _. None) f q = Some v"
  shows "proto3_records (Suc n) m ds flds src = Some [(f_tag f, v)]"
proof -
  obtain ne iter where start: "pb_field_iter_begin [f] src = (ne, iter)" by force
  then have it: "ne" "it_field iter = f" "it_pData iter = src + unat (f_data_offset f)"
    and list: "iter_list iter = [iter]"
    using iter_begin_single [OF assms(2,3)] iter_list_single [OF assms(2), of src] by simp_all
  have not9: "PB_LTYPE (f_type f) \<noteq> PB_LTYPE_EXTENSION" "PB_LTYPE (f_type f) \<noteq> PB_LTYPE_SUBMESSAGE"
    using assms(7) by auto
  have "value_of m (proto3_records n m ds) f q = Some v"
    using value_of_leaf [OF not9(2), of m "proto3_records n m ds" q "\<lambda>_ _. None"] assms(11) by simp
  then have "field_records m (proto3_records n m ds) (proto3_default m ds (proto3_records n m ds)) f
      (src + unat (f_data_offset f)) = Some [(f_tag f, v)]"
    using assms(4-10) not9 by (simp add: field_records_def field_present_def proto3_default_def)
  then show ?thesis using assms(1) start it list by simp
qed

lemma encode_absent_submessage:
  assumes "ee_descs env flds = Some [g]" "f_tag g \<noteq> 0" "src \<noteq> 0"
    "PB_HTYPE (f_type g) = PB_HTYPE_OPTIONAL" "f_size_offset g = 0"
    "PB_ATYPE (f_type g) = PB_ATYPE_STATIC" "PB_LTYPE (f_type g) = PB_LTYPE_SUBMESSAGE"
    "pb_check_proto3_default_value (Suc n) (ee_mem env) (ee_descs env) g (src + unat (f_data_offset g)) = Some True"
  shows "pb_encode (Suc n) env flds src s = Some (True, s)"
proof -
  obtain ne iter where start: "pb_field_iter_begin [g] src = (ne, iter)" by force
  then have it: "ne" "it_field iter = g" "it_pData iter = src + unat (f_data_offset g)"
    using iter_begin_single [OF assms(2,3)] by simp_all
  have nx: "fst (pb_field_iter_next iter) = False"
  proof -
    have "iter = snd (pb_field_iter_begin [g] src)" using start by simp
    then show ?thesis
      using assms(2)
      by (simp add: pb_field_iter_next_def pb_field_iter_begin_def field_at_def PB_LAST_FIELD_def Let_def)
  qed
  obtain it' where nx: "pb_field_iter_next iter = (False, it')" using nx by (metis prod.collapse)
  have "encode_basic_field env sub (pb_check_proto3_default_value (Suc n) (ee_mem env) (ee_descs env)) g
      (src + unat (f_data_offset g)) s = Some (True, s)" for sub
    using assms(4-8) by (simp add: encode_basic_field_def Let_def with_value_def os_return_def)
  then show ?thesis
    using assms(1,6,7) start it nx
    by (subst pb_encode.simps, subst fields_loop.simps)
      (simp add: encode_field_def Let_def os_then_def os_return_def)
qed

subsection \<open>Properties\<close>

text \<open>
  C1. pb_encode into a buffer with room writes exactly the wire records the message in memory
  stands for, at the start of the buffer and nothing behind them, returns true, and reports
  their length in bytes_written. The records are those of the proto3 rule, which does not use the
  code's own default check: a singular field without presence flag is there if and only if its value is
  not the default one (a submessage: if its encoding is not empty), an allocated one if and only if
  its pointer is not NULL. The rule gives records for messages without user functions whose
  descriptors have the sizes of their types, and whose embedded submessages without presence flag
  have valid union tags, counted or fixed arrays and no allocated packable value at an address that
  is a multiple of 256 to its size.
\<close>

theorem encode_writes_records:
  assumes "proto3_records n (ee_mem env) (ee_descs env) flds src = Some rs"
    "bufsize \<le> length buf" "bufsize < 2 ^ 63" "length (records_bytes rs) \<le> bufsize"
  shows "\<exists>out. pb_encode n env flds src (pb_ostream_from_buffer buf bufsize) = Some (True, out) \<and>
    os_bytes_written out = length (records_bytes rs) \<and>
    ob_mem (os_state out) = records_bytes rs @ drop (length (records_bytes rs)) buf"
  by (rule emits_buffer [OF buf.emits_message [OF records_by_check [OF assms(1)]] assms(2-4)])

text \<open>
  A structure at address 16: an embedded submessage (a bool, three bytes of padding that are not
  zero, a uint32) without presence flag, and a uint32 that is zero.
\<close>

definition proto3_env :: "obuf enc_env" where
  "proto3_env =
     \<lparr>ee_mem = mem_at 16 [0, 0xAA, 0xAA, 0xAA, 5, 0, 0, 0, 0, 0, 0, 0],
      ee_descs = (\<lambda>a.
        if a = 8 then Some
          [\<lparr>f_tag = 1, f_type = 0x18, f_data_offset = 0, f_size_offset = 0, f_data_size = 8,
            f_array_size = 0, f_ptr = 24\<rparr>,
           \<lparr>f_tag = 2, f_type = 0x12, f_data_offset = 0, f_size_offset = 0, f_data_size = 4,
            f_array_size = 0, f_ptr = 0\<rparr>]
        else if a = 24 then Some
          [\<lparr>f_tag = 1, f_type = 0x10, f_data_offset = 0, f_size_offset = 0, f_data_size = 1,
            f_array_size = 0, f_ptr = 0\<rparr>,
           \<lparr>f_tag = 2, f_type = 0x12, f_data_offset = 3, f_size_offset = 0, f_data_size = 4,
            f_array_size = 0, f_ptr = 0\<rparr>]
        else None),
      ee_callback = (\<lambda>a f arg. os_undefined), ee_extension = (\<lambda>a e. os_undefined),
      ee_null = no_state\<rparr>"

lemma proto3_message:
  "proto3_records 2 (ee_mem proto3_env) (ee_descs proto3_env) 8 16 = Some [(1, Raw_string [0x10, 0x05])]"
  "records_bytes [(1, Raw_string [0x10, 0x05])] = [0x0A, 0x02, 0x10, 0x05]"
  by code_simp+

theorem encode_writes_records_witness:
  "\<exists>out. pb_encode 2 proto3_env 8 16 (pb_ostream_from_buffer (replicate 6 9) 6) = Some (True, out) \<and>
    os_bytes_written out = 4 \<and> ob_mem (os_state out) = [0x0A, 0x02, 0x10, 0x05, 9, 9]"
proof -
  let ?bs = "[0x0A, 0x02, 0x10, 0x05] :: bytes"
  have len: "length ?bs = 4" by simp
  have rest: "?bs @ drop 4 (replicate 6 9) = [0x0A, 0x02, 0x10, 0x05, 9, 9]"
    by (simp add: eval_nat_numeral)
  have fits: "6 \<le> length (replicate 6 (9 :: u8))" "(6 :: nat) < 2 ^ 63" "(4 :: nat) \<le> 6" by simp_all
  from encode_writes_records [OF proto3_message(1) fits(1,2)] fits(3) show ?thesis
    unfolding proto3_message(2) len rest by blast
qed

text \<open>
  C24. A value can be lost: in a message that is one embedded submessage with one allocated field
  of a packable type, whenever the address of the value is a multiple of 256 to the size of its
  type, pb_encode writes nothing at all and reports success, although the pointer is not NULL and
  pb_encode of the submessage itself writes the field.
\<close>

theorem proto3_pointer_value_lost:
  assumes "ee_descs env flds = Some [g]" "f_tag g \<noteq> 0" "src \<noteq> 0"
    "PB_HTYPE (f_type g) = PB_HTYPE_OPTIONAL" "f_size_offset g = 0"
    "PB_ATYPE (f_type g) = PB_ATYPE_STATIC" "PB_LTYPE (f_type g) = PB_LTYPE_SUBMESSAGE"
    "ee_descs env (f_ptr g) = Some [f]" "f_tag f \<noteq> 0"
    "PB_HTYPE (f_type f) = PB_HTYPE_OPTIONAL" "f_size_offset f = 0"
    "PB_ATYPE (f_type f) = PB_ATYPE_POINTER" "PB_LTYPE (f_type f) \<le> PB_LTYPE_LAST_PACKABLE" "proper_size f"
    "load_ptr (ee_mem env) (src + unat (f_data_offset g) + unat (f_data_offset f)) = Some q"
    "q \<noteq> 0" "q mod 256 ^ unat (f_data_size f) = 0"
    "value_of (ee_mem env) (\<lambda>_ _. None) f q = Some v"
    "bufsize \<le> length buf" "bufsize < 2 ^ 63" "length (record_bytes (f_tag f, v)) \<le> bufsize"
  shows "pb_encode (Suc (Suc n)) env flds src (pb_ostream_from_buffer buf bufsize) =
      Some (True, pb_ostream_from_buffer buf bufsize) \<and>
    (\<exists>out. pb_encode (Suc n) env (f_ptr g) (src + unat (f_data_offset g)) (pb_ostream_from_buffer buf bufsize) =
        Some (True, out) \<and>
      take (os_bytes_written out) (ob_mem (os_state out)) = record_bytes (f_tag f, v))"
proof
  let ?m = "ee_mem env" and ?ds = "ee_descs env" and ?p = "src + unat (f_data_offset g)"
  have p: "?p \<noteq> 0" using assms(3) by simp
  have "pb_check_proto3_default_value (Suc n) ?m ?ds f (?p + unat (f_data_offset f)) = Some True"
    using check_pointer(2) [OF assms(10-12,15,13) packable_size [OF assms(14,13)]] assms(17) by simp
  from check_pointer_submessage [OF assms(4-9) p this]
  show "pb_encode (Suc (Suc n)) env flds src (pb_ostream_from_buffer buf bufsize) =
      Some (True, pb_ostream_from_buffer buf bufsize)"
    by (rule encode_absent_submessage [OF assms(1-7)])
  have "proto3_records (Suc n) ?m ?ds (f_ptr g) ?p = Some [(f_tag f, v)]"
    by (rule single_pointer_records [where q = q and src = ?p]) (use assms(8-16,18) p in simp_all)
  from emits_buffer [OF buf.emits_message [OF records_by_check [OF this]] assms(19,20)] assms(21)
  show "\<exists>out. pb_encode (Suc n) env (f_ptr g) ?p (pb_ostream_from_buffer buf bufsize) = Some (True, out) \<and>
      take (os_bytes_written out) (ob_mem (os_state out)) = record_bytes (f_tag f, v)"
    by force
qed

text \<open>
  A structure at address 16 that is one proto3 submessage with one dynamically allocated bool,
  which is true and stored at address 256.
\<close>

definition pointer_env :: "obuf enc_env" where
  "pointer_env =
     \<lparr>ee_mem = (\<lambda>a. if a = 256 then Some 1 else mem_at 16 [0, 1, 0, 0, 0, 0, 0, 0] a),
      ee_descs = (\<lambda>a. if a = 8
         then Some [\<lparr>f_tag = 1, f_type = 0x18, f_data_offset = 0, f_size_offset = 0,
                     f_data_size = 8, f_array_size = 0, f_ptr = 24\<rparr>]
         else if a = 24
         then Some [\<lparr>f_tag = 1, f_type = 0x90, f_data_offset = 0, f_size_offset = 0,
                     f_data_size = 1, f_array_size = 0, f_ptr = 0\<rparr>]
         else None),
      ee_callback = (\<lambda>a f arg. os_undefined), ee_extension = (\<lambda>a e. os_undefined),
      ee_null = no_state\<rparr>"

theorem proto3_pointer_value_lost_witness:
  "pb_encode 2 pointer_env 8 16 (pb_ostream_from_buffer [0, 0] 2) =
     Some (True, pb_ostream_from_buffer [0, 0] 2) \<and>
   (\<exists>out. pb_encode 1 pointer_env 24 16 (pb_ostream_from_buffer [0, 0] 2) = Some (True, out) \<and>
      take (os_bytes_written out) (ob_mem (os_state out)) = [0x08, 0x01])"
proof -
  define g where "g = the (ee_descs pointer_env 8) ! 0"
  define f where "f = the (ee_descs pointer_env 24) ! 0"
  have g: "ee_descs pointer_env 8 = Some [g]" "f_tag g \<noteq> 0" "PB_HTYPE (f_type g) = PB_HTYPE_OPTIONAL"
    "f_size_offset g = 0" "PB_ATYPE (f_type g) = PB_ATYPE_STATIC"
    "PB_LTYPE (f_type g) = PB_LTYPE_SUBMESSAGE" "ee_descs pointer_env (f_ptr g) = Some [f]"
    unfolding g_def f_def by code_simp+
  have f: "f_tag f \<noteq> 0" "PB_HTYPE (f_type f) = PB_HTYPE_OPTIONAL" "f_size_offset f = 0"
    "PB_ATYPE (f_type f) = PB_ATYPE_POINTER" "PB_LTYPE (f_type f) \<le> PB_LTYPE_LAST_PACKABLE" "proper_size f"
    unfolding f_def by code_simp+
  have m: "load_ptr (ee_mem pointer_env) (16 + unat (f_data_offset g) + unat (f_data_offset f)) = Some 256"
    "(256 :: nat) mod 256 ^ unat (f_data_size f) = 0"
    "value_of (ee_mem pointer_env) (\<lambda>_ _. None) f 256 = Some (Raw_varint 1)"
    "length (record_bytes (f_tag f, Raw_varint 1)) \<le> 2"
    unfolding g_def f_def by code_simp+
  have concl: "record_bytes (f_tag f, Raw_varint 1) = [0x08, 0x01]" "f_ptr g = 24"
    "16 + unat (f_data_offset g) = 16"
    unfolding g_def f_def by code_simp+
  show ?thesis
    using proto3_pointer_value_lost [OF g(1,2) _ g(3-7) f m(1) _ m(2,3) _ _ m(4), of "[0, 0]" 0]
    unfolding concl by (simp only: Suc_1 One_nat_def [symmetric]) simp
qed

end
