(* ===== verification/Pb_Heap.thy ===== *)
theory Pb_Heap
  imports Pb_Field
begin

text \<open>
  The memory a decoder writes: bytes, the live heap blocks, and the functions of nanopb that only
  touch memory (pb_decode.c): initialising a message to its defaults and releasing what a message
  owns. Memory functions return \<open>None\<close> for an access outside of live memory, a free of a pointer
  that is no live block, and for running out of fuel, which bounds nesting and the length of
  extension lists.
\<close>

subsection \<open>Memory with a heap\<close>

text \<open>
  \<open>dm_blocks\<close> gives the size of the heap block that starts at an address. \<open>dm_fixed_count\<close> is
  the variable \<open>fixed_count_size\<close> of the pb_decode_noinit that is running.
\<close>

record dmem =
  dm_mem :: mem
  dm_blocks :: "nat \<Rightarrow> nat option"
  dm_fixed_count :: u32

text \<open>
  The C library's allocator: the address it returns for a request (0 when it fails), which may
  depend on everything allocated so far, and what fresh memory happens to contain.
\<close>

record allocator =
  al_choose :: "dmem \<Rightarrow> nat \<Rightarrow> nat"
  al_junk :: "nat \<Rightarrow> u8"

definition store :: "nat \<Rightarrow> bytes \<Rightarrow> dmem \<Rightarrow> dmem option" where
  "store a bs m = map_option (\<lambda>mem'. m\<lparr>dm_mem := mem'\<rparr>) (store_mem (dm_mem m) a bs)"

text \<open>Integers in little-endian order.\<close>

fun word_bytes :: "nat \<Rightarrow> 'a::len word \<Rightarrow> bytes" where
  "word_bytes 0 v = []"
| "word_bytes (Suc n) v = ucast v # word_bytes n (drop_bit 8 v)"

definition store_u32 :: "nat \<Rightarrow> u32 \<Rightarrow> dmem \<Rightarrow> dmem option" where
  "store_u32 a v = store a (word_bytes 4 v)"

definition store_ptr :: "nat \<Rightarrow> nat \<Rightarrow> dmem \<Rightarrow> dmem option" where
  "store_ptr a p = store a (word_bytes 8 (of_nat p :: u64))"

definition store_bool :: "nat \<Rightarrow> bool \<Rightarrow> dmem \<Rightarrow> dmem option" where
  "store_bool a b = store a [if b then 1 else 0]"

definition memset_zero :: "nat \<Rightarrow> nat \<Rightarrow> dmem \<Rightarrow> dmem option" where
  "memset_zero a n = store a (replicate n 0)"

definition memcpy :: "nat \<Rightarrow> nat \<Rightarrow> nat \<Rightarrow> dmem \<Rightarrow> dmem option" where
  "memcpy dest src n m =
     (case load_bytes (dm_mem m) src n of None \<Rightarrow> None | Some bs \<Rightarrow> store dest bs m)"

text \<open>What \<open>iter->pSize\<close> points to, read and written as a pb_size_t or as a bool.\<close>

definition load_size :: "size_loc \<Rightarrow> dmem \<Rightarrow> u32 option" where
  "load_size loc m =
     (case loc of At a \<Rightarrow> load_u32 (dm_mem m) a | Fixed_count \<Rightarrow> Some (dm_fixed_count m))"

definition store_size :: "size_loc \<Rightarrow> u32 \<Rightarrow> dmem \<Rightarrow> dmem option" where
  "store_size loc v m =
     (case loc of At a \<Rightarrow> store_u32 a v m | Fixed_count \<Rightarrow> Some (m\<lparr>dm_fixed_count := v\<rparr>))"

definition store_flag :: "size_loc \<Rightarrow> bool \<Rightarrow> dmem \<Rightarrow> dmem option" where
  "store_flag loc b m = (case loc of At a \<Rightarrow> store_bool a b m | Fixed_count \<Rightarrow> None)"

definition pb_free :: "nat \<Rightarrow> dmem \<Rightarrow> dmem option" where
  "pb_free ptr m =
     (if ptr = 0 then Some m
      else (case dm_blocks m ptr of
              None \<Rightarrow> None
            | Some n \<Rightarrow>
                Some (m\<lparr>dm_mem := (\<lambda>a. if ptr \<le> a \<and> a < ptr + n then None else dm_mem m a),
                        dm_blocks := (dm_blocks m)(ptr := None)\<rparr>)))"

text \<open>realloc: a fresh block with the old contents, or 0 and nothing changed.\<close>

definition pb_realloc :: "allocator \<Rightarrow> nat \<Rightarrow> nat \<Rightarrow> dmem \<Rightarrow> (nat \<times> dmem) option" where
  "pb_realloc al ptr n m =
     (case (if ptr = 0 then Some 0 else dm_blocks m ptr) of
        None \<Rightarrow> None
      | Some old \<Rightarrow>
          (let a = al_choose al m n in
           if a = 0 then Some (0, m)
           else
             (case pb_free ptr m of
                None \<Rightarrow> None
              | Some m' \<Rightarrow>
                  Some (a, m'\<lparr>dm_mem := (\<lambda>x. if a \<le> x \<and> x < a + n
                                   then (if x - a < old then dm_mem m (ptr + (x - a))
                                         else Some (al_junk al x))
                                   else dm_mem m' x),
                             dm_blocks := (dm_blocks m')(a \<mapsto> n)\<rparr>))))"

subsection \<open>Walking fields and extensions\<close>

function mem_fields_loop :: "(pb_iter \<Rightarrow> dmem \<Rightarrow> dmem option) \<Rightarrow> pb_iter \<Rightarrow> dmem \<Rightarrow> dmem option" where
  "mem_fields_loop body iter m =
     (case body iter m of
        None \<Rightarrow> None
      | Some m' \<Rightarrow>
          (case pb_field_iter_next iter of
             (again, iter') \<Rightarrow> if again then mem_fields_loop body iter' m' else Some m'))"
  by pat_completeness auto
termination
proof (relation "measure (\<lambda>(body, it, m). length (it_start it) - it_pos it)")
  fix it again it'
  assume "(again, it') = pb_field_iter_next it" again
  then have "pb_field_iter_next it = (True, it')" by simp
  from iter_next_TrueD [OF this]
  show "((body, it', m'), (body, it, m)) \<in> measure (\<lambda>(body, it, m). length (it_start it) - it_pos it)"
    for body :: "pb_iter \<Rightarrow> dmem \<Rightarrow> dmem option" and m m' by auto
qed simp

declare mem_fields_loop.simps [simp del]

text \<open>\<open>while (ext != NULL) { ...; ext = ext->next; }\<close>\<close>

fun extension_loop :: "nat \<Rightarrow> (nat \<Rightarrow> dmem \<Rightarrow> dmem option) \<Rightarrow> nat \<Rightarrow> dmem \<Rightarrow> dmem option" where
  "extension_loop 0 body ext m = None"
| "extension_loop (Suc n) body ext m =
     (if ext = 0 then Some m
      else (case body ext m of
              None \<Rightarrow> None
            | Some m' \<Rightarrow>
                (case load_ptr (dm_mem m') (ext + 16) of
                   None \<Rightarrow> None
                 | Some nxt \<Rightarrow> extension_loop n body nxt m')))"

definition iter_from_extension :: "descs \<Rightarrow> dmem \<Rightarrow> nat \<Rightarrow> pb_iter option" where
  "iter_from_extension ds m extension =
     (case load_ptr (dm_mem m) extension of
        None \<Rightarrow> None
      | Some type \<Rightarrow>
     (case load_ptr (dm_mem m) (type + 16) of
        None \<Rightarrow> None
      | Some arg \<Rightarrow>
     (case ds arg of
        None \<Rightarrow> None
      | Some fs \<Rightarrow>
     (case load_ptr (dm_mem m) (extension + 8) of
        None \<Rightarrow> None
      | Some dest \<Rightarrow>
          (let iter = snd (pb_field_iter_begin fs dest);
               pData = (if PB_ATYPE (f_type (field_at fs 0)) = PB_ATYPE_POINTER
                        then extension + 8 else dest)
           in Some (iter\<lparr>it_pData := pData, it_pSize := At (extension + 24)\<rparr>))))))"

subsection \<open>Default values\<close>

fun pb_field_set_to_default :: "nat \<Rightarrow> descs \<Rightarrow> pb_iter \<Rightarrow> dmem \<Rightarrow> dmem option"
  and pb_message_set_to_defaults :: "nat \<Rightarrow> descs \<Rightarrow> nat \<Rightarrow> nat \<Rightarrow> dmem \<Rightarrow> dmem option" where
  "pb_field_set_to_default 0 ds iter m = None"
| "pb_field_set_to_default (Suc n) ds iter m =
     (let f = it_field iter; type = f_type f; pData = it_pData iter; pSize = it_pSize iter;
          htype = PB_HTYPE type; atype = PB_ATYPE type in
      if PB_LTYPE type = PB_LTYPE_EXTENSION then
        (case load_ptr (dm_mem m) pData of
           None \<Rightarrow> None
         | Some ext \<Rightarrow>
             extension_loop n
               (\<lambda>ext m. case store_bool (ext + 24) False m of
                          None \<Rightarrow> None
                        | Some m \<Rightarrow>
                            (case iter_from_extension ds m ext of
                               None \<Rightarrow> None
                             | Some ext_iter \<Rightarrow> pb_field_set_to_default n ds ext_iter m)) ext m)
      else if atype = PB_ATYPE_STATIC then
        (let counted = (htype = PB_HTYPE_REPEATED \<or> htype = PB_HTYPE_ONEOF) in
         case (if htype = PB_HTYPE_OPTIONAL \<and> pSize \<noteq> At pData then store_flag pSize False m
               else if counted then store_size pSize 0 m
               else Some m) of
           None \<Rightarrow> None
         | Some m \<Rightarrow>
             if counted then Some m
             else if PB_LTYPE type = PB_LTYPE_SUBMESSAGE
             then pb_message_set_to_defaults n ds (f_ptr f) pData m
             else if f_ptr f \<noteq> 0 then memcpy pData (f_ptr f) (unat (f_data_size f)) m
             else memset_zero pData (unat (f_data_size f)) m)
      else if atype = PB_ATYPE_POINTER then
        (case store_ptr pData 0 m of
           None \<Rightarrow> None
         | Some m \<Rightarrow>
             if htype = PB_HTYPE_REPEATED \<or> htype = PB_HTYPE_ONEOF then store_size pSize 0 m
             else Some m)
      else Some m)"
| "pb_message_set_to_defaults 0 ds flds dest m = None"
| "pb_message_set_to_defaults (Suc n) ds flds dest m =
     (case ds flds of
        None \<Rightarrow> None
      | Some fs \<Rightarrow>
          (case pb_field_iter_begin fs dest of
             (nonempty, iter) \<Rightarrow>
               if nonempty then mem_fields_loop (pb_field_set_to_default n ds) iter m else Some m))"

declare pb_field_set_to_default.simps [simp del] pb_message_set_to_defaults.simps [simp del]

subsection \<open>Releasing a message\<close>

fun release_strings :: "nat \<Rightarrow> nat \<Rightarrow> dmem \<Rightarrow> dmem option" where
  "release_strings 0 pItem m = Some m"
| "release_strings (Suc count) pItem m =
     (case load_ptr (dm_mem m) pItem of
        None \<Rightarrow> None
      | Some p \<Rightarrow>
     (case pb_free p m of
        None \<Rightarrow> None
      | Some m \<Rightarrow>
     (case store_ptr pItem 0 m of
        None \<Rightarrow> None
      | Some m \<Rightarrow> release_strings count (pItem + 8) m)))"

fun release_items :: "(nat \<Rightarrow> dmem \<Rightarrow> dmem option) \<Rightarrow> nat \<Rightarrow> nat \<Rightarrow> nat \<Rightarrow> dmem \<Rightarrow> dmem option" where
  "release_items release step 0 pItem m = Some m"
| "release_items release step (Suc count) pItem m =
     (case release pItem m of
        None \<Rightarrow> None
      | Some m \<Rightarrow> release_items release step count (pItem + step) m)"

text \<open>The last part of pb_release_single_field, for fields of pointer allocation.\<close>

definition release_pointer :: "pb_iter \<Rightarrow> dmem \<Rightarrow> dmem option" where
  "release_pointer iter m =
     (let type = f_type (it_field iter); pData = it_pData iter; pSize = it_pSize iter;
          repeated = (PB_HTYPE type = PB_HTYPE_REPEATED) in
      case (if repeated \<and> (PB_LTYPE type = PB_LTYPE_STRING \<or> PB_LTYPE type = PB_LTYPE_BYTES)
            then (case load_ptr (dm_mem m) pData of
                    None \<Rightarrow> None
                  | Some pItem \<Rightarrow>
                      (case load_size pSize m of
                         None \<Rightarrow> None
                       | Some count \<Rightarrow> release_strings (unat count) pItem m))
            else Some m) of
        None \<Rightarrow> None
      | Some m \<Rightarrow>
     (case (if repeated then store_size pSize 0 m else Some m) of
        None \<Rightarrow> None
      | Some m \<Rightarrow>
     (case load_ptr (dm_mem m) pData of
        None \<Rightarrow> None
      | Some p \<Rightarrow>
     (case pb_free p m of
        None \<Rightarrow> None
      | Some m \<Rightarrow> store_ptr pData 0 m))))"

text \<open>How many submessages a field holds, and where the first one is.\<close>

definition submessage_count :: "pb_iter \<Rightarrow> dmem \<Rightarrow> u32 option" where
  "submessage_count iter m =
     (let f = it_field iter; type = f_type f; static = (PB_ATYPE type = PB_ATYPE_STATIC) in
      if PB_HTYPE type \<noteq> PB_HTYPE_REPEATED then Some 1
      else
        (case (if static \<and> it_pSize iter = At (it_pData iter) then Some (f_array_size f)
               else load_size (it_pSize iter) m) of
           None \<Rightarrow> None
         | Some count \<Rightarrow> Some (if static \<and> f_array_size f < count then f_array_size f else count)))"

fun pb_release_single_field :: "nat \<Rightarrow> descs \<Rightarrow> pb_iter \<Rightarrow> dmem \<Rightarrow> dmem option"
  and pb_release :: "nat \<Rightarrow> descs \<Rightarrow> nat \<Rightarrow> nat \<Rightarrow> dmem \<Rightarrow> dmem option" where
  "pb_release_single_field 0 ds iter m = None"
| "pb_release_single_field (Suc n) ds iter m =
     (let f = it_field iter; type = f_type f; pData = it_pData iter;
          pointer = (PB_ATYPE type = PB_ATYPE_POINTER) in
      case (if PB_HTYPE type = PB_HTYPE_ONEOF
            then map_option (\<lambda>which. which = f_tag f) (load_size (it_pSize iter) m)
            else Some True) of
        None \<Rightarrow> None
      | Some current \<Rightarrow>
          if \<not> current then Some m
          else
            (case (if PB_LTYPE type = PB_LTYPE_EXTENSION
                   then (case load_ptr (dm_mem m) pData of
                           None \<Rightarrow> None
                         | Some ext \<Rightarrow>
                             extension_loop n
                               (\<lambda>ext m. case iter_from_extension ds m ext of
                                          None \<Rightarrow> None
                                        | Some ext_iter \<Rightarrow> pb_release_single_field n ds ext_iter m)
                               ext m)
                   else if PB_LTYPE type = PB_LTYPE_SUBMESSAGE \<and> PB_ATYPE type \<noteq> PB_ATYPE_CALLBACK
                   then (case (if pointer then load_ptr (dm_mem m) pData else Some pData) of
                           None \<Rightarrow> None
                         | Some pItem \<Rightarrow>
                             (case submessage_count iter m of
                                None \<Rightarrow> None
                              | Some count \<Rightarrow>
                                  if pItem = 0 then Some m
                                  else release_items (pb_release n ds (f_ptr f))
                                         (unat (f_data_size f)) (unat count) pItem m))
                   else Some m) of
               None \<Rightarrow> None
             | Some m \<Rightarrow> if pointer then release_pointer iter m else Some m))"
| "pb_release 0 ds flds dest m = None"
| "pb_release (Suc n) ds flds dest m =
     (if dest = 0 then Some m
      else
        (case ds flds of
           None \<Rightarrow> None
         | Some fs \<Rightarrow>
             (case pb_field_iter_begin fs dest of
                (nonempty, iter) \<Rightarrow>
                  if nonempty then mem_fields_loop (pb_release_single_field n ds) iter m
                  else Some m)))"

declare pb_release_single_field.simps [simp del] pb_release.simps [simp del]

end
