(* ===== verification/Pb_Decode.thy ===== *)
theory Pb_Decode
  imports Pb_Heap
begin

text \<open>
  The message decoder of nanopb (pb_decode.c): field decoders, allocation, static, pointer,
  callback and extension fields, unions, pb_decode_noinit with its bookkeeping of required and
  fixed-count fields, and pb_decode with its variants.

  A decoder takes the stream and the memory and returns the C function's result with both after
  the call. The fuel of pb_decode bounds the nesting of messages, the length of extension lists
  and how often the user's callback is called for one field.
\<close>

subsection \<open>The environment and outcomes of a decoder\<close>

type_synonym 'u mdec = "'u pb_istream \<Rightarrow> dmem \<Rightarrow> (bool \<times> 'u pb_istream \<times> dmem) option"

text \<open>
  Descriptors, the allocator, and the user's functions by address: a decoding callback gets the
  stream, the descriptor and the address of \<open>arg\<close>; an extension decoder the stream, the address
  of the extension, the tag and the wire type.
\<close>

record 'u dec_env =
  de_descs :: descs
  de_depth :: nat
  de_alloc :: allocator
  de_callback :: "nat \<Rightarrow> pb_field \<Rightarrow> nat \<Rightarrow> 'u mdec"
  de_extension :: "nat \<Rightarrow> nat \<Rightarrow> u32 \<Rightarrow> u32 \<Rightarrow> 'u mdec"

definition md_return :: "'u mdec" where
  "md_return s m = Some (True, s, m)"

definition md_fail :: "string \<Rightarrow> 'u mdec" where
  "md_fail msg s m = Some (False, is_set_error msg s, m)"

definition md_false :: "'u mdec" where
  "md_false s m = Some (False, s, m)"

definition md_undefined :: "'u mdec" where
  "md_undefined s m = None"

text \<open>\<open>if (!f(...)) return false;\<close> and then \<open>g\<close>.\<close>

definition md_then :: "'u mdec \<Rightarrow> 'u mdec \<Rightarrow> 'u mdec" where
  "md_then f g s m =
     (case f s m of
        None \<Rightarrow> None
      | Some (ok, s, m) \<Rightarrow> if ok then g s m else Some (False, s, m))"

text \<open>A read from the stream that must succeed, a read from memory, and a write to memory.\<close>

definition md_read :: "('u, 'a) dec \<Rightarrow> ('a \<Rightarrow> 'u mdec) \<Rightarrow> 'u mdec" where
  "md_read f g s m =
     (case f s of
        None \<Rightarrow> None
      | Some (None, s) \<Rightarrow> Some (False, s, m)
      | Some (Some x, s) \<Rightarrow> g x s m)"

definition md_load :: "(dmem \<Rightarrow> 'a option) \<Rightarrow> ('a \<Rightarrow> 'u mdec) \<Rightarrow> 'u mdec" where
  "md_load l g s m = (case l m of None \<Rightarrow> None | Some x \<Rightarrow> g x s m)"

definition md_store :: "(dmem \<Rightarrow> dmem option) \<Rightarrow> 'u mdec \<Rightarrow> 'u mdec" where
  "md_store w g s m = (case w m of None \<Rightarrow> None | Some m \<Rightarrow> g s m)"

abbreviation (input) ptr_at :: "nat \<Rightarrow> dmem \<Rightarrow> nat option" where
  "ptr_at a m \<equiv> load_ptr (dm_mem m) a"

definition pb_read_to :: "nat \<Rightarrow> nat \<Rightarrow> 'u mdec" where
  "pb_read_to dest n = md_read (pb_read n) (\<lambda>bs. md_store (store dest bs) md_return)"

subsection \<open>Allocation\<close>

definition allocate_field :: "allocator \<Rightarrow> nat \<Rightarrow> nat \<Rightarrow> nat \<Rightarrow> 'u mdec" where
  "allocate_field al pData data_size array_size =
     md_load (ptr_at pData) (\<lambda>ptr.
       if data_size = 0 \<or> array_size = 0 then md_fail ''invalid size''
       else if (2 ^ 32 \<le> data_size \<or> 2 ^ 32 \<le> array_size) \<and> (2 ^ 64 - 1) div array_size < data_size
       then md_fail ''size too large''
       else (\<lambda>s m.
         case pb_realloc al ptr (array_size * data_size) m of
           None \<Rightarrow> None
         | Some (ptr, m) \<Rightarrow>
             if ptr = 0 then md_fail ''realloc failed'' s m
             else md_store (store_ptr pData ptr) md_return s m))"

definition initialize_pointer_field :: "nat \<Rightarrow> descs \<Rightarrow> nat \<Rightarrow> pb_iter \<Rightarrow> dmem \<Rightarrow> dmem option" where
  "initialize_pointer_field n ds pItem iter m =
     (let f = it_field iter; ltype = PB_LTYPE (f_type f) in
      if ltype = PB_LTYPE_STRING \<or> ltype = PB_LTYPE_BYTES then store_ptr pItem 0 m
      else if ltype = PB_LTYPE_SUBMESSAGE
      then (case memset_zero pItem (unat (f_data_size f)) m of
              None \<Rightarrow> None
            | Some m \<Rightarrow> pb_message_set_to_defaults n ds (f_ptr f) pItem m)
      else Some m)"

subsection \<open>Field decoders\<close>

definition pb_dec_bool :: "pb_field \<Rightarrow> nat \<Rightarrow> 'u mdec" where
  "pb_dec_bool f dest =
     md_read pb_decode_varint32 (\<lambda>v. md_store (store_bool dest (v \<noteq> 0)) md_return)"

text \<open>An integer is stored in \<open>data_size\<close> bytes; what was stored is compared with the value.\<close>

definition store_checked_int :: "u32 \<Rightarrow> nat \<Rightarrow> u64 \<Rightarrow> u64 \<Rightarrow> 'u mdec" where
  "store_checked_int data_size dest v clamped =
     md_store (store dest (word_bytes (unat data_size) v))
       (if clamped \<noteq> v then md_fail ''integer too large'' else md_return)"

definition is_int_size :: "u32 \<Rightarrow> bool" where
  "is_int_size data_size \<longleftrightarrow> data_size = 8 \<or> data_size = 4 \<or> data_size = 2 \<or> data_size = 1"

definition pb_dec_varint :: "pb_field \<Rightarrow> nat \<Rightarrow> 'u mdec" where
  "pb_dec_varint f dest =
     md_read pb_decode_varint (\<lambda>v.
       (let svalue = (if f_data_size f = 8 then v else signed_take_bit 31 v) in
        if is_int_size (f_data_size f)
        then store_checked_int (f_data_size f) dest svalue
               (signed_take_bit (8 * unat (f_data_size f) - 1) svalue)
        else md_fail ''invalid data_size''))"

definition pb_dec_uvarint :: "pb_field \<Rightarrow> nat \<Rightarrow> 'u mdec" where
  "pb_dec_uvarint f dest =
     md_read pb_decode_varint (\<lambda>v.
       if is_int_size (f_data_size f)
       then store_checked_int (f_data_size f) dest v (take_bit (8 * unat (f_data_size f)) v)
       else md_fail ''invalid data_size'')"

definition pb_dec_svarint :: "pb_field \<Rightarrow> nat \<Rightarrow> 'u mdec" where
  "pb_dec_svarint f dest =
     md_read pb_decode_svarint (\<lambda>v.
       if is_int_size (f_data_size f)
       then store_checked_int (f_data_size f) dest v
              (signed_take_bit (8 * unat (f_data_size f) - 1) v)
       else md_fail ''invalid data_size'')"

definition pb_dec_fixed32 :: "pb_field \<Rightarrow> nat \<Rightarrow> 'u mdec" where
  "pb_dec_fixed32 f dest =
     md_read pb_decode_fixed32 (\<lambda>v. md_store (store dest (word_bytes 4 v)) md_return)"

definition pb_dec_fixed64 :: "pb_field \<Rightarrow> nat \<Rightarrow> 'u mdec" where
  "pb_dec_fixed64 f dest =
     md_read pb_decode_fixed64 (\<lambda>v. md_store (store dest (word_bytes 8 v)) md_return)"

definition pb_dec_bytes :: "allocator \<Rightarrow> pb_field \<Rightarrow> nat \<Rightarrow> 'u mdec" where
  "pb_dec_bytes al f dest =
     md_read pb_decode_varint32 (\<lambda>len.
       (let alloc_size = size_add (unat len) 4;
            finish = (\<lambda>bdest. md_store (store_u32 bdest len) (pb_read_to (bdest + 4) (unat len)))
        in
        if PB_SIZE_MAX < len then md_fail ''bytes overflow''
        else if alloc_size < unat len then md_fail ''size too large''
        else if PB_ATYPE (f_type f) = PB_ATYPE_POINTER then
          (\<lambda>s. if is_bytes_left s < unat len then md_fail ''end-of-stream'' s
               else md_then (allocate_field al dest alloc_size 1) (md_load (ptr_at dest) finish) s)
        else if unat (f_data_size f) < alloc_size then md_fail ''bytes overflow''
        else finish dest))"

text \<open>The terminator is stored whether or not the read succeeded.\<close>

definition read_string_to :: "nat \<Rightarrow> nat \<Rightarrow> 'u mdec" where
  "read_string_to dest n s m =
     (case pb_read_to dest n s m of
        None \<Rightarrow> None
      | Some (status, s, m) \<Rightarrow>
          (case store (dest + n) [0] m of
             None \<Rightarrow> None
           | Some m \<Rightarrow> Some (status, s, m)))"

definition pb_dec_string :: "allocator \<Rightarrow> pb_field \<Rightarrow> nat \<Rightarrow> 'u mdec" where
  "pb_dec_string al f dest =
     md_read pb_decode_varint32 (\<lambda>len.
       (let alloc_size = len + 1 in
        if alloc_size < len then md_fail ''size too large''
        else if PB_ATYPE (f_type f) = PB_ATYPE_POINTER then
          (\<lambda>s. if is_bytes_left s < unat len then md_fail ''end-of-stream'' s
               else md_then (allocate_field al dest (unat alloc_size) 1)
                      (md_load (ptr_at dest) (\<lambda>dest. read_string_to dest (unat len))) s)
        else if f_data_size f < alloc_size then md_fail ''string overflow''
        else read_string_to dest (unat len)))"

text \<open>A substream, what is done with it, and its closing.\<close>

definition with_substream :: "'u mdec \<Rightarrow> 'u mdec" where
  "with_substream f =
     md_read pb_make_string_substream (\<lambda>substream s m.
       case f substream m of
         None \<Rightarrow> None
       | Some (status, substream, m) \<Rightarrow>
           md_read (pb_close_string_substream substream)
             (\<lambda>_. if status then md_return else md_false) s m)"

text \<open>\<open>dec init\<close> is pb_decode or pb_decode_noinit, one level deeper.\<close>

definition pb_dec_submessage :: "(bool \<Rightarrow> nat \<Rightarrow> nat \<Rightarrow> 'u mdec) \<Rightarrow> pb_field \<Rightarrow> nat \<Rightarrow> 'u mdec" where
  "pb_dec_submessage dec f dest =
     (if f_ptr f = 0
      then md_read pb_make_string_substream (\<lambda>_. md_fail ''invalid field descriptor'')
      else with_substream
             (dec (PB_HTYPE (f_type f) = PB_HTYPE_REPEATED) (f_ptr f) dest))"

definition pb_dec_fixed_length_bytes :: "pb_field \<Rightarrow> nat \<Rightarrow> 'u mdec" where
  "pb_dec_fixed_length_bytes f dest =
     md_read pb_decode_varint32 (\<lambda>len.
       if PB_SIZE_MAX < len then md_fail ''bytes overflow''
       else if len = 0 then md_store (memset_zero dest (unat (f_data_size f))) md_return
       else if len \<noteq> f_data_size f then md_fail ''incorrect fixed length bytes size''
       else pb_read_to dest (unat (f_data_size f)))"

definition PB_DECODERS ::
  "allocator \<Rightarrow> (bool \<Rightarrow> nat \<Rightarrow> nat \<Rightarrow> 'u mdec) \<Rightarrow> u8 \<Rightarrow> pb_field \<Rightarrow> nat \<Rightarrow> 'u mdec" where
  "PB_DECODERS al dec ltype =
     (if ltype = 0 then pb_dec_bool
      else if ltype = 1 then pb_dec_varint
      else if ltype = 2 then pb_dec_uvarint
      else if ltype = 3 then pb_dec_svarint
      else if ltype = 4 then pb_dec_fixed32
      else if ltype = 5 then pb_dec_fixed64
      else if ltype = 6 then pb_dec_bytes al
      else if ltype = 7 then pb_dec_string al
      else if ltype = 8 then pb_dec_submessage dec
      else if ltype = 10 then pb_dec_fixed_length_bytes
      else (\<lambda>f dest. md_undefined))"

subsection \<open>Static fields\<close>

text \<open>The address of entry \<open>*size\<close>: the product is computed in 32 bits.\<close>

definition entry_addr :: "nat \<Rightarrow> pb_field \<Rightarrow> u32 \<Rightarrow> nat" where
  "entry_addr base f index = base + unat (f_data_size f * index)"

text \<open>The loop over a packed static array; one round per item, each at least one byte long.\<close>

fun static_packed_loop :: "nat \<Rightarrow> (nat \<Rightarrow> 'u mdec) \<Rightarrow> pb_iter \<Rightarrow> 'u mdec" where
  "static_packed_loop 0 func iter = md_undefined"
| "static_packed_loop (Suc k) func iter =
     (let f = it_field iter in
      md_load (load_size (it_pSize iter)) (\<lambda>len sub.
        if 0 < is_bytes_left sub \<and> len < f_array_size f
        then md_then (func (entry_addr (it_pData iter) f len))
               (md_load (load_size (it_pSize iter)) (\<lambda>len.
                  md_store (store_size (it_pSize iter) (len + 1)) (static_packed_loop k func iter))) sub
        else md_return sub))"

definition decode_static_field ::
  "nat \<Rightarrow> 'u dec_env \<Rightarrow> (bool \<Rightarrow> nat \<Rightarrow> nat \<Rightarrow> 'u mdec) \<Rightarrow> u32 \<Rightarrow> pb_iter \<Rightarrow> 'u mdec" where
  "decode_static_field n env dec wire_type iter =
     (let f = it_field iter; type = f_type f; htype = PB_HTYPE type; ltype = PB_LTYPE type;
          pData = it_pData iter; pSize = it_pSize iter;
          func = PB_DECODERS (de_alloc env) dec ltype f in
      if htype = PB_HTYPE_REQUIRED then func pData
      else if htype = PB_HTYPE_OPTIONAL
      then md_store (if pSize \<noteq> At pData then store_flag pSize True else Some) (func pData)
      else if htype = PB_HTYPE_REPEATED then
        (if wire_type = 2 \<and> ltype \<le> PB_LTYPE_LAST_PACKABLE
         then md_read pb_make_string_substream (\<lambda>substream s m.
                (case static_packed_loop (Suc (is_bytes_left substream)) func iter substream m of
                   None \<Rightarrow> None
                 | Some (status, substream, m) \<Rightarrow>
                     if is_bytes_left substream \<noteq> 0 then md_fail ''array overflow'' s m
                     else md_read (pb_close_string_substream substream)
                            (\<lambda>_. if status then md_return else md_false) s m))
         else md_load (load_size pSize) (\<lambda>len.
                md_store (store_size pSize (len + 1))
                  (if f_array_size f \<le> len then md_fail ''array overflow''
                   else func (entry_addr pData f len))))
      else
        md_load (load_size pSize) (\<lambda>which.
          md_store
            (if ltype = PB_LTYPE_SUBMESSAGE \<and> which \<noteq> f_tag f
             then (\<lambda>m. case memset_zero pData (unat (f_data_size f)) m of
                         None \<Rightarrow> None
                       | Some m \<Rightarrow> pb_message_set_to_defaults n (de_descs env) (f_ptr f) pData m)
             else Some)
            (md_store (store_size pSize (f_tag f)) (func pData))))"

subsection \<open>Pointer fields\<close>

text \<open>
  The loop over a packed array that is allocated as it grows. Next to the substream and memory it
  returns the parent stream, whose error message it may set.
\<close>

fun pointer_packed_loop ::
  "nat \<Rightarrow> nat \<Rightarrow> 'u dec_env \<Rightarrow> (nat \<Rightarrow> 'u mdec) \<Rightarrow> pb_iter \<Rightarrow> nat \<Rightarrow> 'u pb_istream \<Rightarrow> 'u pb_istream \<Rightarrow>
   dmem \<Rightarrow> (bool \<times> 'u pb_istream \<times> 'u pb_istream \<times> dmem) option" where
  "pointer_packed_loop 0 n env func iter allocated s sub m = None"
| "pointer_packed_loop (Suc k) n env func iter allocated s sub m =
     (let f = it_field iter; pData = it_pData iter; pSize = it_pSize iter in
      if is_bytes_left sub = 0 then Some (True, s, sub, m)
      else
        (case load_size pSize m of
           None \<Rightarrow> None
         | Some len \<Rightarrow>
             if len = PB_SIZE_MAX
             then Some (False, s\<lparr>is_errmsg := Some ''too many array entries''\<rparr>, sub, m)
             else if allocated < unat len + 1 \<and> f_data_size f = 0 then None
             else
               (let grow = allocated < unat len + 1;
                    remain = (is_bytes_left sub - 1) div unat (f_data_size f) + 1;
                    allocated =
                      (if grow
                       then (if remain < size_sub 4294967295 allocated
                             then size_add allocated remain else size_add allocated 1)
                       else allocated)
                in
                (case (if grow
                       then allocate_field (de_alloc env) pData (unat (f_data_size f)) allocated sub m
                       else md_return sub m) of
                   None \<Rightarrow> None
                 | Some (ok, sub, m) \<Rightarrow>
                     if \<not> ok then Some (False, s, sub, m)
                     else
                       (case ptr_at pData m of
                          None \<Rightarrow> None
                        | Some base \<Rightarrow>
                            (let pItem = entry_addr base f len in
                             if pItem = 0 then Some (False, s, sub, m)
                             else
                               (case initialize_pointer_field n (de_descs env) pItem iter m of
                                  None \<Rightarrow> None
                                | Some m \<Rightarrow>
                                    (case func pItem sub m of
                                       None \<Rightarrow> None
                                     | Some (ok, sub, m) \<Rightarrow>
                                         if \<not> ok then Some (False, s, sub, m)
                                         else
                                           (case load_size pSize m of
                                              None \<Rightarrow> None
                                            | Some len \<Rightarrow>
                                                (case store_size pSize (len + 1) m of
                                                   None \<Rightarrow> None
                                                 | Some m \<Rightarrow>
                                                     pointer_packed_loop k n env func iter allocated s sub m))))))))))"

definition decode_pointer_field ::
  "nat \<Rightarrow> 'u dec_env \<Rightarrow> (bool \<Rightarrow> nat \<Rightarrow> nat \<Rightarrow> 'u mdec) \<Rightarrow> u32 \<Rightarrow> pb_iter \<Rightarrow> 'u mdec" where
  "decode_pointer_field n env dec wire_type iter =
     (let f = it_field iter; type = f_type f; htype = PB_HTYPE type; ltype = PB_LTYPE type;
          pData = it_pData iter; pSize = it_pSize iter;
          func = PB_DECODERS (de_alloc env) dec ltype f in
      if htype = PB_HTYPE_REPEATED then
        (if wire_type = 2 \<and> ltype \<le> PB_LTYPE_LAST_PACKABLE
         then md_load (load_size pSize) (\<lambda>len.
                md_read pb_make_string_substream (\<lambda>substream s m.
                  (case pointer_packed_loop (Suc (is_bytes_left substream)) n env func iter
                          (unat len) s substream m of
                     None \<Rightarrow> None
                   | Some (status, s, substream, m) \<Rightarrow>
                       md_read (pb_close_string_substream substream)
                         (\<lambda>_. if status then md_return else md_false) s m)))
         else md_load (load_size pSize) (\<lambda>len.
                if len = PB_SIZE_MAX then md_fail ''too many array entries''
                else
                  md_then (allocate_field (de_alloc env) pData (unat (f_data_size f)) (unat (len + 1)))
                    (md_load (ptr_at pData) (\<lambda>base.
                     md_load (load_size pSize) (\<lambda>len.
                       (let pItem = entry_addr base f len in
                        md_store (store_size pSize (len + 1))
                          (md_store (initialize_pointer_field n (de_descs env) pItem iter)
                             (func pItem))))))))
      else
        md_store
          (\<lambda>m. if ltype = PB_LTYPE_SUBMESSAGE
               then (case ptr_at pData m of
                       None \<Rightarrow> None
                     | Some p \<Rightarrow>
                         if p \<noteq> 0 then pb_release_single_field n (de_descs env) iter m else Some m)
               else Some m)
          (md_store (if htype = PB_HTYPE_ONEOF then store_size pSize (f_tag f) else Some)
             (if ltype = PB_LTYPE_STRING \<or> ltype = PB_LTYPE_BYTES then func pData
              else
                md_then (allocate_field (de_alloc env) pData (unat (f_data_size f)) 1)
                  (md_load (ptr_at pData) (\<lambda>p.
                     md_store (initialize_pointer_field n (de_descs env) p iter)
                       (md_load (ptr_at pData) func))))))"

subsection \<open>Callback fields\<close>

text \<open>
  The do-while loop that hands the substream to the user's function until it is used up; the
  function pointer is read from the structure in every round.
\<close>

fun callback_loop ::
  "nat \<Rightarrow> 'u dec_env \<Rightarrow> pb_field \<Rightarrow> nat \<Rightarrow> 'u pb_istream \<Rightarrow> dmem \<Rightarrow> (bool \<times> 'u pb_istream \<times> dmem) option" where
  "callback_loop 0 env f pData sub m = None"
| "callback_loop (Suc k) env f pData sub m =
     (case ptr_at pData m of
        None \<Rightarrow> None
      | Some decode \<Rightarrow>
          (case de_callback env decode f (pData + 8) sub m of
             None \<Rightarrow> None
           | Some (ok, sub, m) \<Rightarrow>
               if \<not> ok then Some (False, sub, m)
               else if is_bytes_left sub \<noteq> 0 then callback_loop k env f pData sub m
               else Some (True, sub, m)))"

definition decode_callback_field :: "nat \<Rightarrow> 'u dec_env \<Rightarrow> u32 \<Rightarrow> pb_iter \<Rightarrow> 'u mdec" where
  "decode_callback_field n env wire_type iter =
     (let f = it_field iter; pData = it_pData iter;
          skip = md_read (pb_skip_field wire_type) (\<lambda>_. md_return) in
      if pData = 0 then skip
      else
        md_load (ptr_at pData) (\<lambda>decode.
          if decode = 0 then skip
          else if wire_type = 2 then
            md_read pb_make_string_substream (\<lambda>substream s m.
              case callback_loop n env f pData substream m of
                None \<Rightarrow> None
              | Some (ok, substream, m) \<Rightarrow>
                  if \<not> ok then md_fail ''callback failed'' s m
                  else md_read (pb_close_string_substream substream) (\<lambda>_. md_return) s m)
          else
            md_read (read_raw_value wire_type 10) (\<lambda>buffer s m.
              case de_callback env decode f (pData + 8)
                     (pb_istream_from_buffer buffer (length buffer)) m of
                None \<Rightarrow> None
              | Some (ok, substream, m) \<Rightarrow> Some (ok, s, m))))"

subsection \<open>Unions\<close>

text \<open>The iterator is returned because the search for the old field moves it.\<close>

type_synonym 'u iter_dec =
  "'u pb_istream \<Rightarrow> dmem \<Rightarrow> (bool \<times> pb_iter \<times> 'u pb_istream \<times> dmem) option"

definition pb_release_union_field :: "nat \<Rightarrow> descs \<Rightarrow> pb_iter \<Rightarrow> 'u iter_dec" where
  "pb_release_union_field n ds iter s m =
     (let new_tag = f_tag (it_field iter) in
      case load_size (it_pSize iter) m of
        None \<Rightarrow> None
      | Some old_tag \<Rightarrow>
          if old_tag = 0 \<or> old_tag = new_tag then Some (True, iter, s, m)
          else
            (case pb_field_iter_find iter old_tag of
               None \<Rightarrow> None
             | Some (found, iter) \<Rightarrow>
                 if \<not> found then Some (False, iter, is_set_error ''invalid union tag'' s, m)
                 else
                   (case pb_release_single_field n ds iter m of
                      None \<Rightarrow> None
                    | Some m \<Rightarrow>
                        (case pb_field_iter_find iter new_tag of
                           None \<Rightarrow> None
                         | Some (found, iter) \<Rightarrow>
                             if \<not> found then Some (False, iter, is_set_error ''iterator error'' s, m)
                             else if PB_ATYPE (f_type (it_field iter)) = PB_ATYPE_POINTER
                             then (case store_ptr (it_pData iter) 0 m of
                                     None \<Rightarrow> None
                                   | Some m \<Rightarrow> Some (True, iter, s, m))
                             else Some (True, iter, s, m)))))"

definition decode_field ::
  "nat \<Rightarrow> 'u dec_env \<Rightarrow> (bool \<Rightarrow> nat \<Rightarrow> nat \<Rightarrow> 'u mdec) \<Rightarrow> u32 \<Rightarrow> pb_iter \<Rightarrow> 'u iter_dec" where
  "decode_field n env dec wire_type iter s m =
     (case (if PB_HTYPE (f_type (it_field iter)) = PB_HTYPE_ONEOF
            then pb_release_union_field n (de_descs env) iter s m
            else Some (True, iter, s, m)) of
        None \<Rightarrow> None
      | Some (ok, iter, s, m) \<Rightarrow>
          if \<not> ok then Some (False, iter, s, m)
          else
            (let atype = PB_ATYPE (f_type (it_field iter)) in
             map_option (\<lambda>(ok, s, m). (ok, iter, s, m))
               ((if atype = PB_ATYPE_STATIC then decode_static_field n env dec wire_type iter
                 else if atype = PB_ATYPE_POINTER then decode_pointer_field n env dec wire_type iter
                 else if atype = PB_ATYPE_CALLBACK then decode_callback_field n env wire_type iter
                 else md_fail ''invalid field type'') s m)))"

subsection \<open>Extensions\<close>

definition default_extension_decoder ::
  "nat \<Rightarrow> 'u dec_env \<Rightarrow> (bool \<Rightarrow> nat \<Rightarrow> nat \<Rightarrow> 'u mdec) \<Rightarrow> nat \<Rightarrow> u32 \<Rightarrow> u32 \<Rightarrow> 'u mdec" where
  "default_extension_decoder n env dec extension tag wire_type =
     md_load (ptr_at extension) (\<lambda>type.
     md_load (ptr_at (type + 16)) (\<lambda>arg.
     md_load (\<lambda>_. de_descs env arg) (\<lambda>fs.
       if f_tag (field_at fs 0) \<noteq> tag then md_return
       else
         md_load (\<lambda>m. iter_from_extension (de_descs env) m extension) (\<lambda>iter.
           md_store (store_bool (extension + 24) True) (\<lambda>s m.
             map_option (\<lambda>(ok, iter, s, m). (ok, s, m)) (decode_field n env dec wire_type iter s m))))))"

fun decode_extension_loop ::
  "nat \<Rightarrow> nat \<Rightarrow> 'u dec_env \<Rightarrow> (bool \<Rightarrow> nat \<Rightarrow> nat \<Rightarrow> 'u mdec) \<Rightarrow> u32 \<Rightarrow> u32 \<Rightarrow> nat \<Rightarrow> nat \<Rightarrow> 'u mdec" where
  "decode_extension_loop 0 n env dec tag wire_type pos extension = md_undefined"
| "decode_extension_loop (Suc k) n env dec tag wire_type pos extension =
     (\<lambda>s. if extension \<noteq> 0 \<and> pos = is_bytes_left s
          then md_load (ptr_at extension) (\<lambda>type.
               md_load (ptr_at type) (\<lambda>decode.
                 md_then (if decode \<noteq> 0 then de_extension env decode extension tag wire_type
                          else default_extension_decoder n env dec extension tag wire_type)
                   (md_load (ptr_at (extension + 16))
                      (decode_extension_loop k n env dec tag wire_type pos)))) s
          else md_return s)"

definition decode_extension ::
  "nat \<Rightarrow> 'u dec_env \<Rightarrow> (bool \<Rightarrow> nat \<Rightarrow> nat \<Rightarrow> 'u mdec) \<Rightarrow> u32 \<Rightarrow> u32 \<Rightarrow> pb_iter \<Rightarrow> 'u mdec" where
  "decode_extension n env dec tag wire_type iter =
     md_load (ptr_at (it_pData iter)) (\<lambda>extension s.
       decode_extension_loop n n env dec tag wire_type (is_bytes_left s) extension s)"

fun find_extension_loop :: "nat \<Rightarrow> nat \<Rightarrow> pb_iter \<Rightarrow> (bool \<times> pb_iter) option" where
  "find_extension_loop 0 start iter = None"
| "find_extension_loop (Suc n) start iter =
     (if PB_LTYPE (f_type (it_field iter)) = PB_LTYPE_EXTENSION then Some (True, iter)
      else (let iter = snd (pb_field_iter_next iter) in
            if it_pos iter \<noteq> start then find_extension_loop n start iter
            else Some (False, iter)))"

definition find_extension_field :: "pb_iter \<Rightarrow> (bool \<times> pb_iter) option" where
  "find_extension_field iter =
     find_extension_loop (Suc (length (it_start iter))) (it_pos iter) iter"

subsection \<open>Messages\<close>

text \<open>
  The local variables of pb_decode_noinit: the iterator, \<open>fields_seen\<close> (two words, for
  PB_MAX_REQUIRED_FIELDS = 64), \<open>extension_range_start\<close> and \<open>fixed_count_field\<close> as the index of
  its descriptor.
\<close>

record dec_locals =
  dl_iter :: pb_iter
  dl_seen :: "u32 \<times> u32"
  dl_extension_start :: u32
  dl_fixed_count_field :: "nat option"

definition mark_seen :: "nat \<Rightarrow> u32 \<times> u32 \<Rightarrow> u32 \<times> u32" where
  "mark_seen i seen =
     (let tmp = push_bit (i mod 32) 1 in
      if i div 32 = 0 then (fst seen OR tmp, snd seen) else (fst seen, snd seen OR tmp))"

text \<open>Whether the last fixed-count array got all its elements.\<close>

definition fixed_count_complete :: "dec_locals \<Rightarrow> dmem \<Rightarrow> bool" where
  "fixed_count_complete l m =
     (case dl_fixed_count_field l of
        None \<Rightarrow> True
      | Some i \<Rightarrow> dm_fixed_count m = f_array_size (field_at (it_start (dl_iter l)) i))"

text \<open>
  What one round does with a field of the message: switch to the local counter for an array
  without a count in the structure, note a required field, decode. \<open>dl_iter\<close> is at the field.
\<close>

definition decode_known_field ::
  "'u dec_env \<Rightarrow> (bool \<Rightarrow> nat \<Rightarrow> nat \<Rightarrow> 'u mdec) \<Rightarrow> u32 \<Rightarrow> dec_locals \<Rightarrow> 'u pb_istream \<Rightarrow> dmem \<Rightarrow>
   (bool \<times> dec_locals \<times> 'u pb_istream \<times> dmem) option" where
  "decode_known_field env dec wire_type l s m =
     (let iter = dl_iter l; f = it_field iter;
          fixed = (PB_HTYPE (f_type f) = PB_HTYPE_REPEATED \<and> it_pSize iter = At (it_pData iter));
          switch = (fixed \<and> dl_fixed_count_field l \<noteq> Some (it_pos iter)) in
      if switch \<and> \<not> fixed_count_complete l m
      then Some (False, l, is_set_error ''wrong size for fixed count field'' s, m)
      else
        (let m = (if switch then m\<lparr>dm_fixed_count := 0\<rparr> else m);
             l = (if switch then l\<lparr>dl_fixed_count_field := Some (it_pos iter)\<rparr> else l);
             l = (if fixed then l\<lparr>dl_iter := iter\<lparr>it_pSize := Fixed_count\<rparr>\<rparr> else l);
             l = (if PB_HTYPE (f_type f) = PB_HTYPE_REQUIRED \<and> it_required_field_index iter < 64
                  then l\<lparr>dl_seen := mark_seen (it_required_field_index iter) (dl_seen l)\<rparr>
                  else l)
         in
         (case decode_field (de_depth env) env dec wire_type (dl_iter l) s m of
            None \<Rightarrow> None
          | Some (ok, iter, s, m) \<Rightarrow> Some (ok, l\<lparr>dl_iter := iter\<rparr>, s, m))))"

text \<open>What one round does with a tag that no field has: the extension field, else skip.\<close>

definition decode_unknown_field ::
  "'u dec_env \<Rightarrow> (bool \<Rightarrow> nat \<Rightarrow> nat \<Rightarrow> 'u mdec) \<Rightarrow> u32 \<Rightarrow> u32 \<Rightarrow> dec_locals \<Rightarrow> 'u pb_istream \<Rightarrow> dmem \<Rightarrow>
   (bool \<times> dec_locals \<times> 'u pb_istream \<times> dmem) option" where
  "decode_unknown_field env dec tag wire_type l s m =
     (let skip = (\<lambda>l s m. map_option (\<lambda>(ok, s). (ok \<noteq> None, l, s, m)) (pb_skip_field wire_type s)) in
      if tag < dl_extension_start l then skip l s m
      else
        (case find_extension_field (dl_iter l) of
           None \<Rightarrow> None
         | Some (found, iter) \<Rightarrow>
             (let l = l\<lparr>dl_iter := iter,
                        dl_extension_start := (if found then f_tag (it_field iter) else 0xFFFFFFFF)\<rparr> in
              if tag < dl_extension_start l then skip l s m
              else
                (let pos = is_bytes_left s in
                 case decode_extension (de_depth env) env dec tag wire_type iter s m of
                   None \<Rightarrow> None
                 | Some (ok, s, m) \<Rightarrow>
                     if \<not> ok then Some (False, l, s, m)
                     else if pos \<noteq> is_bytes_left s then Some (True, l, s, m)
                     else skip l s m))))"

text \<open>
  The main loop. Every round reads at least the byte of a tag, so one round more than there are
  bytes is enough (unless a user's extension decoder puts bytes back).
\<close>

fun decode_rounds ::
  "nat \<Rightarrow> 'u dec_env \<Rightarrow> (bool \<Rightarrow> nat \<Rightarrow> nat \<Rightarrow> 'u mdec) \<Rightarrow> dec_locals \<Rightarrow> 'u pb_istream \<Rightarrow> dmem \<Rightarrow>
   (bool \<times> dec_locals \<times> 'u pb_istream \<times> dmem) option" where
  "decode_rounds 0 env dec l s m = None"
| "decode_rounds (Suc k) env dec l s m =
     (if is_bytes_left s = 0 then Some (True, l, s, m)
      else
        (case pb_decode_tag s of
           None \<Rightarrow> None
         | Some (t, s) \<Rightarrow>
             if \<not> tr_ok t then Some (tr_eof t, l, s, m)
             else
               (case pb_field_iter_find (dl_iter l) (tr_tag t) of
                  None \<Rightarrow> None
                | Some (found, iter) \<Rightarrow>
                    (let l = l\<lparr>dl_iter := iter\<rparr> in
                     case (if found then decode_known_field env dec (tr_wire_type t) l s m
                           else decode_unknown_field env dec (tr_tag t) (tr_wire_type t) l s m) of
                       None \<Rightarrow> None
                     | Some (ok, l, s, m) \<Rightarrow>
                         if \<not> ok then Some (False, l, s, m) else decode_rounds k env dec l s m))))"

text \<open>The number of required fields, found by stepping to the end of the descriptor array.\<close>

definition required_field_count :: "pb_iter \<Rightarrow> nat" where
  "required_field_count iter =
     (let last_iter = last (iter_list iter);
          iter = snd (pb_field_iter_next last_iter);
          req_field_count = it_required_field_index last_iter
      in min 64
           (if PB_HTYPE (f_type (it_field last_iter)) = PB_HTYPE_REQUIRED \<and> f_tag (it_field iter) \<noteq> 0
            then Suc req_field_count else req_field_count))"

definition required_fields_seen :: "nat \<Rightarrow> u32 \<times> u32 \<Rightarrow> bool" where
  "required_fields_seen n seen =
     (list_all (\<lambda>i. (if i = 0 then fst seen else snd seen) = 0xFFFFFFFF) [0 ..< n div 32] \<and>
      (n mod 32 \<noteq> 0 \<longrightarrow>
       (if n div 32 = 0 then fst seen else snd seen) = drop_bit (32 - n mod 32) 0xFFFFFFFF))"

fun pb_decode_noinit :: "nat \<Rightarrow> 'u dec_env \<Rightarrow> nat \<Rightarrow> nat \<Rightarrow> 'u mdec"
  and pb_decode :: "nat \<Rightarrow> 'u dec_env \<Rightarrow> nat \<Rightarrow> nat \<Rightarrow> 'u mdec" where
  "pb_decode_noinit 0 env flds dest_struct s m = None"
| "pb_decode_noinit (Suc n) env flds dest_struct s m =
     (case de_descs env flds of
        None \<Rightarrow> None
      | Some fs \<Rightarrow>
          (let outer_count = dm_fixed_count m;
               l = \<lparr>dl_iter = snd (pb_field_iter_begin fs dest_struct), dl_seen = (0, 0),
                    dl_extension_start = 0, dl_fixed_count_field = None\<rparr>;
               dec = (\<lambda>init. if init then pb_decode n env else pb_decode_noinit n env);
               leave = (\<lambda>(ok, s, m). (ok, s, m\<lparr>dm_fixed_count := outer_count\<rparr>))
           in map_option leave
                (case decode_rounds (Suc (is_bytes_left s)) env dec l s (m\<lparr>dm_fixed_count := 0\<rparr>) of
                   None \<Rightarrow> None
                 | Some (ok, l, s, m) \<Rightarrow>
                     if \<not> ok then Some (False, s, m)
                     else if \<not> fixed_count_complete l m
                     then md_fail ''wrong size for fixed count field'' s m
                     else if \<not> required_fields_seen (required_field_count (dl_iter l)) (dl_seen l)
                     then md_fail ''missing required field'' s m
                     else Some (True, s, m))))"
| "pb_decode 0 env flds dest_struct s m = None"
| "pb_decode (Suc n) env flds dest_struct s m =
     (case pb_message_set_to_defaults (de_depth env) (de_descs env) flds dest_struct m of
        None \<Rightarrow> None
      | Some m \<Rightarrow>
          (case pb_decode_noinit n env flds dest_struct s m of
             None \<Rightarrow> None
           | Some (status, s, m) \<Rightarrow>
               if status then Some (True, s, m)
               else
                 (case pb_release (de_depth env) (de_descs env) flds dest_struct m of
                    None \<Rightarrow> None
                  | Some m \<Rightarrow> Some (False, s, m))))"

declare pb_decode_noinit.simps [simp del] pb_decode.simps [simp del]

definition pb_decode_delimited_noinit :: "nat \<Rightarrow> 'u dec_env \<Rightarrow> nat \<Rightarrow> nat \<Rightarrow> 'u mdec" where
  "pb_decode_delimited_noinit n env flds dest_struct =
     with_substream (pb_decode_noinit n env flds dest_struct)"

definition pb_decode_delimited :: "nat \<Rightarrow> 'u dec_env \<Rightarrow> nat \<Rightarrow> nat \<Rightarrow> 'u mdec" where
  "pb_decode_delimited n env flds dest_struct = with_substream (pb_decode n env flds dest_struct)"

definition pb_decode_nullterminated :: "nat \<Rightarrow> 'u dec_env \<Rightarrow> nat \<Rightarrow> nat \<Rightarrow> 'u mdec" where
  "pb_decode_nullterminated n env flds dest_struct = pb_decode n env flds dest_struct"

end
