(* ===== verification/Pb_Decode_Spec.thy ===== *)
theory Pb_Decode_Spec
  imports Pb_Decode Pb_Encode_Spec
begin

text \<open>
  What the decoder of nanopb promises: unknown fields are stepped over without touching memory,
  every scalar decoder undoes its encoder and refuses what does not fit, required fields are
  counted and checked exactly, static arrays are never overrun, and allocation sizes do not wrap.
\<close>

subsection \<open>Required fields\<close>

definition is_required :: "pb_field \<Rightarrow> bool" where
  "is_required f \<longleftrightarrow> PB_HTYPE (f_type f) = PB_HTYPE_REQUIRED"

lemma iter_required_index:
  assumes "fields_ok fs" "i < length fs"
  shows "it_required_field_index (iter_at fs dest i) = length (filter is_required (take i fs))"
  using assms(2)
proof (induction i)
  case 0
  then show ?case by (simp add: pb_field_iter_begin_def Let_def)
next
  case (Suc i)
  then have i: "i < length fs" by simp
  note at = iter_at_fields [OF assms(1) i, of dest]
  have tags: "f_tag (fs ! i) \<noteq> 0" "f_tag (fs ! Suc i) \<noteq> 0"
    using assms(1) Suc.prems by (auto simp: fields_ok_def)
  have "it_required_field_index (snd (pb_field_iter_next (iter_at fs dest i))) =
      it_required_field_index (iter_at fs dest i) + (if is_required (fs ! i) then 1 else 0)"
    using at tags Suc.prems i
    by (auto simp: pb_field_iter_next_def Let_def field_at_def is_required_def)
  then show ?case
    using Suc.IH [OF i] i by (simp add: take_Suc_conv_app_nth)
qed

lemma required_field_count_at:
  assumes "fields_ok fs" "p < length fs"
  shows "required_field_count (iter_at fs dest p) = min 64 (length (filter is_required fs))"
proof -
  let ?last = "iter_at fs dest (length fs - 1)"
  have len: "0 < length fs" using assms(2) by (cases fs) auto
  have "[p ..< length fs] \<noteq> []" using assms(2) len by (simp add: not_le)
  then have last: "last (iter_list (iter_at fs dest p)) = ?last"
    using iter_list_at [OF assms, of dest] by (simp add: last_map)
  have n1: "length fs - 1 < length fs" using len by simp
  have nx: "snd (pb_field_iter_next ?last) = iter_at fs dest 0"
    using iter_next_at [OF assms(1) n1, of dest] len by simp
  have tag: "f_tag (it_field (iter_at fs dest 0)) \<noteq> 0"
    using iter_at_fields [OF assms(1) len, of dest] field_at_tag [OF assms(1), of 0] len by simp
  have fs: "fs = take (length fs - 1) fs @ [fs ! (length fs - 1)]"
    using len by (metis Suc_pred' n1 take_Suc_conv_app_nth take_all_iff le_refl)
  have "length (filter is_required fs) =
      length (filter is_required (take (length fs - 1) fs)) +
      (if is_required (fs ! (length fs - 1)) then 1 else 0)"
    by (subst fs) simp
  moreover have "it_field ?last = fs ! (length fs - 1)"
    using iter_at_fields [OF assms(1) n1, of dest] n1 by (simp add: field_at_def)
  ultimately show ?thesis
    unfolding required_field_count_def Let_def last nx
    using iter_required_index [OF assms(1) n1, of dest] tag by (simp add: is_required_def)
qed

text \<open>The bits noted so far, as a set of required-field indices.\<close>

definition seen_bit :: "u32 \<times> u32 \<Rightarrow> nat \<Rightarrow> bool" where
  "seen_bit seen i \<longleftrightarrow> bit (if i div 32 = 0 then fst seen else snd seen) (i mod 32)"

lemma seen_bit_mark:
  assumes "i < 64" "j < 64"
  shows "seen_bit (mark_seen i seen) j \<longleftrightarrow> j = i \<or> seen_bit seen j"
proof -
  have bit1: "bit (push_bit a (1 :: u32)) b \<longleftrightarrow> a = b" if "a < 32" "b < 32" for a b
    using that by (auto simp: bit_simps)
  have lt: "i mod 32 < 32" "j mod 32 < 32" by simp_all
  have same: "i = j \<longleftrightarrow> i div 32 = j div 32 \<and> i mod 32 = j mod 32"
    by (metis mod_div_mult_eq)
  have "i div 32 < 2" "j div 32 < 2" using assms by (simp_all add: div_less_iff_less_mult)
  then have d: "i div 32 = 0 \<or> i div 32 = 1" "j div 32 = 0 \<or> j div 32 = 1" by auto
  from d same bit1 [OF lt] show ?thesis
    by (auto simp: seen_bit_def mark_seen_def Let_def bit_or_iff)
qed

lemma all_ones_bits: "(w :: u32) = 0xFFFFFFFF \<longleftrightarrow> (\<forall>k<32. bit w k)"
proof -
  have "(0xFFFFFFFF :: u32) = mask 32" by (simp add: mask_eq_exp_minus_1)
  then have "w = 0xFFFFFFFF \<longleftrightarrow> (\<forall>k<32. bit w k = bit (mask 32 :: u32) k)"
    by (auto intro: bit_word_eqI)
  then show ?thesis by (simp add: bit_mask_iff)
qed

lemma low_ones_bits:
  assumes "r < 32" "r \<noteq> 0"
  shows "(w :: u32) = drop_bit (32 - r) 0xFFFFFFFF \<longleftrightarrow> (\<forall>k<32. bit w k \<longleftrightarrow> k < r)"
proof -
  have m: "(0xFFFFFFFF :: u32) = mask 32" by (simp add: mask_eq_exp_minus_1)
  have "bit (drop_bit (32 - r) (mask 32) :: u32) k \<longleftrightarrow> k < r" if "k < 32" for k
    using assms that by (auto simp: bit_drop_bit_eq bit_mask_iff)
  then show ?thesis
    unfolding m by (auto intro: bit_word_eqI)
qed

lemma required_fields_seen_iff:
  assumes "n \<le> 64" "\<And>i. i < 64 \<Longrightarrow> seen_bit seen i \<Longrightarrow> i < n"
  shows "required_fields_seen n seen \<longleftrightarrow> (\<forall>i<n. seen_bit seen i)"
proof -
  have w0: "bit (fst seen) k \<longleftrightarrow> seen_bit seen k" if "k < 32" for k
    using that by (simp add: seen_bit_def)
  have w1: "bit (snd seen) k \<longleftrightarrow> seen_bit seen (32 + k)" if "k < 32" for k
  proof -
    have "(32 + k) div 32 = Suc (k div 32)" "k div 32 = 0" "(32 + k) mod 32 = k"
      using that by simp_all
    then show ?thesis by (simp add: seen_bit_def)
  qed
  consider "n < 32" | "32 \<le> n" "n < 64" | "n = 64" using assms(1) by linarith
  then show ?thesis
  proof cases
    case 1
    then have "n div 32 = 0" "n mod 32 = n" by simp_all
    then have "required_fields_seen n seen \<longleftrightarrow> (n = 0 \<or> (\<forall>k<32. bit (fst seen) k \<longleftrightarrow> k < n))"
      using low_ones_bits [OF 1] by (auto simp: required_fields_seen_def)
    also have "\<dots> \<longleftrightarrow> (\<forall>i<n. seen_bit seen i)"
      using 1 w0 assms(2) by auto
    finally show ?thesis .
  next
    case 2
    define r where "r = n - 32"
    with 2 have r: "n = 32 + r" "r < 32" by simp_all
    then have "n div 32 = 1" "n mod 32 = r" by simp_all
    then have "required_fields_seen n seen \<longleftrightarrow>
        (\<forall>k<32. bit (fst seen) k) \<and> (r = 0 \<or> (\<forall>k<32. bit (snd seen) k \<longleftrightarrow> k < r))"
      using low_ones_bits [OF r(2)] by (auto simp: required_fields_seen_def all_ones_bits)
    also have "\<dots> \<longleftrightarrow> (\<forall>k<32. seen_bit seen k) \<and> (\<forall>k<r. seen_bit seen (32 + k))"
    proof -
      have hi: "seen_bit seen (32 + k) \<Longrightarrow> k < 32 \<Longrightarrow> k < r" for k
        using assms(2) [of "32 + k"] r(1) by simp
      have "bit (snd seen) k \<longleftrightarrow> k < r" if "\<forall>k<r. seen_bit seen (32 + k)" "k < 32" for k
        using that w1 hi by blast
      moreover have "seen_bit seen (32 + k)"
        if "r = 0 \<or> (\<forall>k<32. bit (snd seen) k \<longleftrightarrow> k < r)" "k < r" for k
        using that w1 [of k] r(2) by auto
      moreover have "(\<forall>k<32. bit (fst seen) k) \<longleftrightarrow> (\<forall>k<32. seen_bit seen k)" using w0 by simp
      ultimately show ?thesis by blast
    qed
    also have "\<dots> \<longleftrightarrow> (\<forall>i<n. seen_bit seen i)"
    proof -
      have "i < 32 \<or> (\<exists>k<r. i = 32 + k)" if "i < n" for i
        using that r by presburger
      then show ?thesis using r by fastforce
    qed
    finally show ?thesis .
  next
    case 3
    then have "required_fields_seen n seen \<longleftrightarrow>
        (\<forall>k<32. bit (fst seen) k) \<and> (\<forall>k<32. bit (snd seen) k)"
      by (simp add: required_fields_seen_def all_ones_bits numeral_2_eq_2)
    also have "\<dots> \<longleftrightarrow> (\<forall>k<32. seen_bit seen k) \<and> (\<forall>k<32. seen_bit seen (32 + k))"
      using w0 w1 by simp
    also have "\<dots> \<longleftrightarrow> (\<forall>i<n. seen_bit seen i)"
    proof -
      have "i < 32 \<or> (\<exists>k<32. i = 32 + k)" if "i < n" for i
        using that 3 by presburger
      then show ?thesis using 3 by fastforce
    qed
    finally show ?thesis .
  qed
qed

lemma seen_bit_fold:
  assumes "set is \<subseteq> {..<64}" "j < 64"
  shows "seen_bit (fold mark_seen is seen) j \<longleftrightarrow> j \<in> set is \<or> seen_bit seen j"
  using assms(1) by (induction "is" arbitrary: seen) (auto simp: seen_bit_mark assms(2))

lemma seen_bit_none: "\<not> seen_bit (0, 0) i"
  by (simp add: seen_bit_def)

subsection \<open>Integers in memory\<close>

lemma word_bytes_le_bytes: "word_bytes n v = le_bytes n (unat v)"
proof (induction n arbitrary: v)
  case (Suc n)
  have "unat (drop_bit 8 v) = unat v div 256" by (simp add: width_simps)
  moreover have "(ucast v :: u8) = of_nat (unat v)" by simp
  ultimately show ?case by (simp add: Suc.IH)
qed simp

lemma length_word_bytes [simp]: "length (word_bytes n v) = n"
  by (simp add: word_bytes_le_bytes)

lemma le_bytes_mod: "le_bytes n (v mod 256 ^ n) = le_bytes n v"
proof -
  have "le_nat (le_bytes n v) = v mod 256 ^ n" by simp
  then show ?thesis by (metis le_bytes_le_nat length_le_bytes)
qed

lemma word_bytes_take_bit: "word_bytes n (take_bit (8 * n) v) = word_bytes n v"
proof -
  have "(256 :: nat) ^ n = 2 ^ (8 * n)" by (simp add: power_mult)
  then show ?thesis
    using le_bytes_mod [of n "unat v"] by (simp add: word_bytes_le_bytes width_simps)
qed

lemma word_bytes_le_word:
  assumes "8 * length bs \<le> LENGTH('a)"
  shows "word_bytes (length bs) (le_word bs :: 'a::len word) = bs"
proof -
  have "le_nat bs < 256 ^ length bs" by (rule le_nat_lt)
  also have "(256 :: nat) ^ length bs = 2 ^ (8 * length bs)" by (simp add: power_mult)
  also have "(2 :: nat) ^ (8 * length bs) \<le> 2 ^ LENGTH('a)" using assms by (intro power_increasing) auto
  finally have "unat (le_word bs :: 'a word) = le_nat bs"
    by (simp add: le_word_le_nat unat_of_nat)
  then show ?thesis by (simp add: word_bytes_le_bytes)
qed

lemma word_bytes_signed:
  assumes "0 < n"
  shows "word_bytes n (signed_take_bit (8 * n - 1) v) = word_bytes n v"
proof -
  have "take_bit (8 * n) (signed_take_bit (8 * n - 1) v) = take_bit (8 * n) v"
    using assms by (simp add: take_bit_signed_take_bit)
  then show ?thesis by (metis word_bytes_take_bit)
qed

subsection \<open>Outcomes of decoding steps\<close>

text \<open>\<open>stored m a bs m'\<close>: \<open>m'\<close> is \<open>m\<close> with the bytes at \<open>a\<close> overwritten.\<close>

definition stored :: "dmem \<Rightarrow> nat \<Rightarrow> bytes \<Rightarrow> dmem \<Rightarrow> bool" where
  "stored m a bs m' \<longleftrightarrow>
     load_bytes (dm_mem m') a (length bs) = Some bs \<and>
     (\<forall>x. \<not> (a \<le> x \<and> x < a + length bs) \<longrightarrow> dm_mem m' x = dm_mem m x) \<and>
     (\<forall>x. dm_mem m' x = None \<longleftrightarrow> dm_mem m x = None) \<and>
     dm_blocks m' = dm_blocks m \<and> dm_fixed_count m' = dm_fixed_count m"

lemma store_region:
  assumes "region (dm_mem m) a (length bs)"
  obtains m' where "store a bs m = Some m'" "stored m a bs m'"
proof -
  obtain mem' where mem': "store_mem (dm_mem m) a bs = Some mem'"
    using assms store_mem_Some_iff by blast
  have "stored m a bs (m\<lparr>dm_mem := mem'\<rparr>)"
    using load_store_same [OF mem'] store_mem_lookup [OF mem'] store_mem_dom [OF mem']
    by (simp add: stored_def)
  with mem' that show ?thesis by (simp add: store_def)
qed

lemma store_stored: "store a bs m = Some m' \<Longrightarrow> stored m a bs m'"
proof -
  assume *: "store a bs m = Some m'"
  then obtain mem' where mem': "store_mem (dm_mem m) a bs = Some mem'" "m' = m\<lparr>dm_mem := mem'\<rparr>"
    by (auto simp: store_def)
  then have "region (dm_mem m) a (length bs)" using store_mem_Some_iff by blast
  with * show ?thesis by (elim store_region) simp
qed

lemma md_read_Some: "f s = Some (Some x, s') \<Longrightarrow> md_read f g s m = g x s' m"
  by (simp add: md_read_def)

lemma md_store_Some: "w m = Some m' \<Longrightarrow> md_store w g s m = g s m'"
  by (simp add: md_store_def)

lemma md_load_Some: "l m = Some x \<Longrightarrow> md_load l g s m = g x s m"
  by (simp add: md_load_def)

lemma store_checked_int_eq:
  assumes "region (dm_mem m) dest (unat n)"
  shows "\<exists>m'. stored m dest (word_bytes (unat n) v) m' \<and>
    store_checked_int n dest v clamped s m =
      (if clamped = v then Some (True, s, m')
       else Some (False, is_set_error ''integer too large'' s, m'))"
proof -
  obtain m' where m': "store dest (word_bytes (unat n) v) m = Some m'"
    "stored m dest (word_bytes (unat n) v) m'"
    using store_region [of m dest "word_bytes (unat n) v"] assms by auto
  then show ?thesis
    by (auto simp: store_checked_int_def md_store_def md_return_def md_fail_def)
qed

lemma int_size_cases: "int_size n \<Longrightarrow> is_int_size n \<and> (n = 1 \<or> n = 2 \<or> n = 4 \<or> n = 8)"
  by (auto simp: int_size_def is_int_size_def)

subsection \<open>Decoders undo encoders\<close>

text \<open>The bytes a scalar field occupies.\<close>

definition scalar_size :: "pb_field \<Rightarrow> nat" where
  "scalar_size f =
     (if PB_LTYPE (f_type f) = PB_LTYPE_BOOL then 1
      else if PB_LTYPE (f_type f) = PB_LTYPE_FIXED32 then 4
      else if PB_LTYPE (f_type f) = PB_LTYPE_FIXED64 then 8
      else unat (f_data_size f))"

definition canonical_scalar :: "pb_field \<Rightarrow> bytes \<Rightarrow> bytes" where
  "canonical_scalar f bs =
     (if PB_LTYPE (f_type f) = PB_LTYPE_BOOL then map (\<lambda>b. if b \<noteq> 0 then 1 else 0) bs else bs)"

lemma load_word_Some:
  "load_word m a n = Some w \<Longrightarrow> \<exists>bs. load_bytes m a n = Some bs \<and> length bs = n \<and> w = le_word bs"
  by (auto simp: load_word_def length_load_bytes)

lemma signed_round_trip:
  assumes "load_signed mem src (unat n) = Some v" "int_size n"
  shows "\<exists>bs. load_bytes mem src (unat n) = Some bs \<and> word_bytes (unat n) v = bs \<and>
    signed_take_bit (8 * unat n - 1) v = v \<and> (n \<noteq> 8 \<longrightarrow> signed_take_bit 31 v = v)"
proof -
  obtain w where w: "load_word mem src (unat n) = Some w" "v = signed_take_bit (8 * unat n - 1) w"
    using assms(1) by (auto simp: load_signed_def)
  obtain bs where bs: "load_bytes mem src (unat n) = Some bs" "length bs = unat n" "w = le_word bs"
    using load_word_Some [OF w(1)] by blast
  have n: "0 < unat n" "8 * unat n \<le> 64" "n \<noteq> 8 \<Longrightarrow> 8 * unat n - 1 \<le> 31"
    using assms(2) by (auto simp: int_size_def)
  have "word_bytes (unat n) v = word_bytes (unat n) w"
    using word_bytes_signed [OF n(1)] by (simp add: w(2))
  also have "\<dots> = bs" using word_bytes_le_word [of bs, where 'a = 64] bs n by simp
  finally have "word_bytes (unat n) v = bs" .
  moreover have "signed_take_bit (8 * unat n - 1) v = v" by (simp add: w(2))
  moreover have "n \<noteq> 8 \<Longrightarrow> signed_take_bit 31 v = v"
    using n(3) by (simp add: w(2) min_absorb2)
  ultimately show ?thesis using bs(1) by blast
qed

lemma unsigned_round_trip:
  assumes "load_unsigned mem src n = Some v" "8 * n \<le> 64"
  shows "\<exists>bs. load_bytes mem src n = Some bs \<and> word_bytes n v = bs \<and> take_bit (8 * n) v = v"
proof -
  obtain bs where bs: "load_bytes mem src n = Some bs" "length bs = n" "v = le_word bs"
    using load_word_Some assms(1) unfolding load_unsigned_def by blast
  have wb: "word_bytes n v = bs" using word_bytes_le_word [of bs, where 'a = 64] bs assms(2) by simp
  have "le_nat bs < 256 ^ n" using le_nat_lt [of bs] bs(2) by simp
  also have "(256 :: nat) ^ n = 2 ^ (8 * n)" by (simp add: power_mult)
  finally have "take_bit (8 * n) v = v"
    unfolding bs(3) le_word_le_nat by (simp add: take_bit_of_nat take_bit_nat_eq_self)
  with wb bs(1) show ?thesis by blast
qed

lemma decode_scalar_encoded:
  assumes enc: "value_of mem sub f src = Some v" and scalar: "PB_LTYPE (f_type f) \<le> PB_LTYPE_LAST_PACKABLE"
    and s: "buffered s" "unread s = raw_bytes v @ rest"
    and room: "region (dm_mem m) dest (scalar_size f)"
  shows "\<exists>bs m'. load_bytes mem src (scalar_size f) = Some bs \<and>
    PB_DECODERS al dec (PB_LTYPE (f_type f)) f dest s m =
      Some (True, advance (length (raw_bytes v)) s, m') \<and>
    stored m dest (canonical_scalar f bs) m'"
proof -
  have "PB_LTYPE (f_type f) = 0 \<or> PB_LTYPE (f_type f) = 1 \<or> PB_LTYPE (f_type f) = 2 \<or>
      PB_LTYPE (f_type f) = 3 \<or> PB_LTYPE (f_type f) = 4 \<or> PB_LTYPE (f_type f) = 5"
    (is "?L = 0 \<or> _")
  proof -
    have "unat ?L \<le> 5" using scalar by (simp add: word_le_nat_alt)
    then have "unat ?L = 0 \<or> unat ?L = 1 \<or> unat ?L = 2 \<or> unat ?L = 3 \<or> unat ?L = 4 \<or> unat ?L = 5"
      by linarith
    then show ?thesis by (auto simp: word_unat_eq_iff)
  qed
  then consider "?L = 0" | "?L = 1" | "?L = 2" | "?L = 3" | "?L = 4" | "?L = 5" by blast
  then show ?thesis
  proof cases
    case 1
    then obtain b where b: "mem src = Some b" "v = Raw_varint (if b \<noteq> 0 then 1 else 0)"
      using enc by (auto simp: value_of_def safe_read_bool_def split: if_splits)
    let ?w = "(if b \<noteq> 0 then 1 else 0) :: u64"
    have u: "unread s = varint_bytes ?w @ rest" using s(2) b(2) by simp
    have dec: "pb_decode_varint32 s = Some (Some (ucast ?w), advance (length (varint_bytes ?w)) s)"
      using pb_decode_varint32_encoded [OF s(1) u] by auto
    have nz: "(ucast ?w :: u32) \<noteq> 0 \<longleftrightarrow> b \<noteq> 0" by simp
    obtain m' where m': "store dest [if b \<noteq> 0 then 1 else 0] m = Some m'"
      "stored m dest [if b \<noteq> 0 then 1 else 0] m'"
      using store_region [of m dest "[if b \<noteq> 0 then 1 else 0]"] room 1 by (auto simp: scalar_size_def)
    have "pb_dec_bool f dest s m = Some (True, advance (length (varint_bytes ?w)) s, m')"
      using m'(1) nz unfolding pb_dec_bool_def md_read_Some [of pb_decode_varint32, OF dec]
      by (simp add: md_store_def store_bool_def md_return_def)
    moreover have "load_bytes mem src 1 = Some [b]" using b(1) by simp
    ultimately show ?thesis
      using 1 m'(2) b by (simp add: PB_DECODERS_def scalar_size_def canonical_scalar_def)
  next
    case 2
    then obtain w where w: "load_signed mem src (unat (f_data_size f)) = Some w" "v = Raw_varint w"
      "int_size (f_data_size f)"
      using enc by (auto simp: value_of_def Let_def split: if_splits)
    obtain bs where bs: "load_bytes mem src (unat (f_data_size f)) = Some bs"
      "word_bytes (unat (f_data_size f)) w = bs"
      "signed_take_bit (8 * unat (f_data_size f) - 1) w = w"
      "f_data_size f \<noteq> 8 \<longrightarrow> signed_take_bit 31 w = w"
      using signed_round_trip [OF w(1,3)] by blast
    have size: "is_int_size (f_data_size f)" using int_size_cases [OF w(3)] by blast
    have room': "region (dm_mem m) dest (unat (f_data_size f))" using room 2 by (simp add: scalar_size_def)
    have "unread s = varint_bytes w @ rest" using s(2) w(2) by simp
    note dec = pb_decode_varint_encoded [OF s(1) this]
    obtain m' where "stored m dest bs m'"
      "store_checked_int (f_data_size f) dest w w (advance (length (varint_bytes w)) s) m =
        Some (True, advance (length (varint_bytes w)) s, m')"
      using store_checked_int_eq [OF room', of w w] bs(2) by auto
    then show ?thesis
      using 2 bs size w(2) unfolding PB_DECODERS_def pb_dec_varint_def
      by (auto simp: md_read_Some [of pb_decode_varint, OF dec] scalar_size_def canonical_scalar_def)
  next
    case 3
    then obtain w where w: "load_unsigned mem src (unat (f_data_size f)) = Some w" "v = Raw_varint w"
      "int_size (f_data_size f)"
      using enc by (auto simp: value_of_def Let_def split: if_splits)
    have "8 * unat (f_data_size f) \<le> 64" using w(3) by (auto simp: int_size_def)
    from unsigned_round_trip [OF w(1) this] obtain bs
      where bs: "load_bytes mem src (unat (f_data_size f)) = Some bs"
        "word_bytes (unat (f_data_size f)) w = bs" "take_bit (8 * unat (f_data_size f)) w = w" by blast
    have size: "is_int_size (f_data_size f)" using int_size_cases [OF w(3)] by blast
    have room': "region (dm_mem m) dest (unat (f_data_size f))" using room 3 by (simp add: scalar_size_def)
    have "unread s = varint_bytes w @ rest" using s(2) w(2) by simp
    note dec = pb_decode_varint_encoded [OF s(1) this]
    obtain m' where "stored m dest bs m'"
      "store_checked_int (f_data_size f) dest w w (advance (length (varint_bytes w)) s) m =
        Some (True, advance (length (varint_bytes w)) s, m')"
      using store_checked_int_eq [OF room', of w w] bs(2) by auto
    then show ?thesis
      using 3 bs size w(2) unfolding PB_DECODERS_def pb_dec_uvarint_def
      by (auto simp: md_read_Some [of pb_decode_varint, OF dec] scalar_size_def canonical_scalar_def)
  next
    case 4
    then obtain w where w: "load_signed mem src (unat (f_data_size f)) = Some w"
      "v = Raw_varint (zigzag w)" "int_size (f_data_size f)"
      using enc by (auto simp: value_of_def Let_def split: if_splits)
    obtain bs where bs: "load_bytes mem src (unat (f_data_size f)) = Some bs"
      "word_bytes (unat (f_data_size f)) w = bs"
      "signed_take_bit (8 * unat (f_data_size f) - 1) w = w"
      using signed_round_trip [OF w(1,3)] by blast
    have size: "is_int_size (f_data_size f)" using int_size_cases [OF w(3)] by blast
    have room': "region (dm_mem m) dest (unat (f_data_size f))" using room 4 by (simp add: scalar_size_def)
    have "unread s = varint_bytes (zigzag w) @ rest" using s(2) w(2) by simp
    note dec = pb_decode_svarint_encoded [OF s(1) this]
    obtain m' where "stored m dest bs m'"
      "store_checked_int (f_data_size f) dest w w (advance (length (varint_bytes (zigzag w))) s) m =
        Some (True, advance (length (varint_bytes (zigzag w))) s, m')"
      using store_checked_int_eq [OF room', of w w] bs(2) by auto
    then show ?thesis
      using 4 bs size w(2) unfolding PB_DECODERS_def pb_dec_svarint_def
      by (auto simp: md_read_Some [of pb_decode_svarint, OF dec] scalar_size_def canonical_scalar_def)
  next
    case 5
    then obtain w where w: "load_u32 mem src = Some w" "v = Raw_fixed32 w"
      using enc by (auto simp: value_of_def Let_def split: if_splits)
    obtain bs where bs: "load_bytes mem src 4 = Some bs" "length bs = 4" "w = le_word bs"
      using load_word_Some w(1) unfolding load_u32_def by blast
    have wb: "word_bytes 4 w = bs" using word_bytes_le_word [of bs, where 'a = 32] bs by simp
    have "unread s = fixed32_bytes w @ rest" using s(2) w(2) by simp
    note dec = pb_decode_fixed32_encoded [OF s(1) this]
    obtain m' where "store dest bs m = Some m'" "stored m dest bs m'"
      using store_region [of m dest bs] room 5 bs(2) by (auto simp: scalar_size_def)
    then show ?thesis
      using 5 bs w(2) wb unfolding PB_DECODERS_def pb_dec_fixed32_def
      by (simp add: md_read_Some [of pb_decode_fixed32, OF dec] md_store_def md_return_def scalar_size_def canonical_scalar_def)
  next
    case 6
    then obtain w where w: "load_unsigned mem src 8 = Some w" "v = Raw_fixed64 w"
      using enc by (auto simp: value_of_def Let_def split: if_splits)
    obtain bs where bs: "load_bytes mem src 8 = Some bs" "length bs = 8" "word_bytes 8 w = bs"
      using unsigned_round_trip [OF w(1)] length_load_bytes by force
    have "unread s = fixed64_bytes w @ rest" using s(2) w(2) by simp
    note dec = pb_decode_fixed64_encoded [OF s(1) this]
    obtain m' where "store dest bs m = Some m'" "stored m dest bs m'"
      using store_region [of m dest bs] room 6 bs(2) by (auto simp: scalar_size_def)
    then show ?thesis
      using 6 bs w(2) unfolding PB_DECODERS_def pb_dec_fixed64_def
      by (simp add: md_read_Some [of pb_decode_fixed64, OF dec] md_store_def md_return_def scalar_size_def canonical_scalar_def)
  qed
qed

subsection \<open>Unknown fields\<close>

text \<open>
  A descriptor array without a terminator inside; it may be empty, and the iterator then stays at
  the terminator, so that there is one position at least.
\<close>

definition entries_ok :: "pb_field list \<Rightarrow> bool" where
  "entries_ok fs \<longleftrightarrow> (\<forall>f\<in>set fs. f_tag f \<noteq> 0)"

lemma entries_ok_cases: "entries_ok fs \<Longrightarrow> fs = [] \<or> fields_ok fs"
  by (auto simp: entries_ok_def fields_ok_def)

lemma iter_next_empty: "pb_field_iter_next (iter_at [] dest 0) = (False, iter_at [] dest 0)"
  by (simp add: pb_field_iter_next_def pb_field_iter_begin_def field_at_def PB_LAST_FIELD_def Let_def)

lemma iter_at_empty:
  "it_field (iter_at [] dest 0) = PB_LAST_FIELD" "it_pos (iter_at [] dest 0) = 0"
  "it_start (iter_at [] dest 0) = []"
  by (simp_all add: pb_field_iter_begin_def field_at_def Let_def)

lemma position_empty: "p < max 1 (length []) \<Longrightarrow> p = 0"
  by simp

lemma position_nonempty: "fields_ok fs \<Longrightarrow> p < max 1 (length fs) \<longleftrightarrow> p < length fs"
  by (cases fs) (auto simp: fields_ok_def)

lemma iter_find_absent:
  assumes "entries_ok fs" "p < max 1 (length fs)" "tag \<noteq> 0" "\<forall>f\<in>set fs. f_tag f \<noteq> tag"
  shows "pb_field_iter_find (iter_at fs dest p) tag = Some (False, iter_at fs dest p)"
proof (cases "fs = []")
  case True
  then have p: "p = 0" using assms(2) by simp
  show ?thesis
    using assms(3) iter_next_empty [of dest] iter_at_empty [of dest]
    unfolding True p pb_field_iter_find_def
    by (simp add: PB_LAST_FIELD_def del: iter_at.simps)
next
  case False
  then have fs: "fields_ok fs" using entries_ok_cases [OF assms(1)] by simp
  then have p: "p < length fs" using assms(2) position_nonempty by simp
  have "\<not> is_field fs tag i" if "i < length fs" for i
    using assms(4) that by (auto simp: is_field_def field_at_def)
  then have "List.find (is_field fs tag) ([p ..< length fs] @ [0 ..< p]) = None"
    using p by (auto simp: find_None_iff)
  then show ?thesis using pb_field_iter_find_at [OF fs p, of dest tag] by simp
qed

text \<open>The search for an extension field ends at one, or where it began.\<close>

lemma find_extension_loop_ends:
  assumes "fields_ok fs" "p < length fs" "start < length fs"
    "length (entries_from (length fs) start p) \<le> n"
  shows "\<exists>found j. find_extension_loop n start (iter_at fs dest p) = Some (found, iter_at fs dest j) \<and>
    j < length fs \<and> (found \<longrightarrow> PB_LTYPE (f_type (fs ! j)) = PB_LTYPE_EXTENSION)"
  using assms(2,4)
proof (induction n arbitrary: p)
  case 0
  then show ?case using entries_from_step [OF 0(1) assms(3)] by simp
next
  case (Suc n)
  note step = entries_from_step [OF Suc.prems(1) assms(3)]
  have lt: "next_index (length fs) p < length fs"
    using Suc.prems(1) by (auto simp: next_index_def)
  have nx: "snd (pb_field_iter_next (iter_at fs dest p)) = iter_at fs dest (next_index (length fs) p)"
    using iter_next_at [OF assms(1) Suc.prems(1), of dest] by (simp add: next_index_def del: iter_at.simps)
  have pos: "it_pos (iter_at fs dest (next_index (length fs) p)) = next_index (length fs) p"
    using iter_at_fields [OF assms(1) lt, of dest] by simp
  have field: "it_field (iter_at fs dest p) = fs ! p"
    using iter_at_fields [OF assms(1) Suc.prems(1), of dest] Suc.prems(1) by (simp add: field_at_def)
  show ?case
  proof (cases "PB_LTYPE (f_type (fs ! p)) = PB_LTYPE_EXTENSION")
    case True
    then show ?thesis using field Suc.prems(1) by auto
  next
    case False
    then have "find_extension_loop (Suc n) start (iter_at fs dest p) =
        (if next_index (length fs) p \<noteq> start
         then find_extension_loop n start (iter_at fs dest (next_index (length fs) p))
         else Some (False, iter_at fs dest start))"
      using nx pos field by (auto simp: Let_def simp del: iter_at.simps)
    moreover have "next_index (length fs) p \<noteq> start \<Longrightarrow> \<exists>found j.
        find_extension_loop n start (iter_at fs dest (next_index (length fs) p)) =
          Some (found, iter_at fs dest j) \<and>
        j < length fs \<and> (found \<longrightarrow> PB_LTYPE (f_type (fs ! j)) = PB_LTYPE_EXTENSION)"
      using Suc.prems(2) step by (intro Suc.IH lt) simp
    ultimately show ?thesis using assms(3) by (auto simp del: iter_at.simps)
  qed
qed

lemma find_extension_field_ends:
  assumes "entries_ok fs" "p < max 1 (length fs)"
  shows "\<exists>found j. find_extension_field (iter_at fs dest p) = Some (found, iter_at fs dest j) \<and>
    j < max 1 (length fs) \<and> (found \<longrightarrow> j < length fs \<and> PB_LTYPE (f_type (fs ! j)) = PB_LTYPE_EXTENSION)"
proof (cases "fs = []")
  case True
  then have p: "p = 0" using assms(2) by simp
  have "find_extension_field (iter_at [] dest 0) = Some (False, iter_at [] dest 0)"
    using iter_next_empty [of dest] iter_at_empty [of dest]
    unfolding find_extension_field_def
    by (simp add: PB_LAST_FIELD_def PB_LTYPE_def del: iter_at.simps)
  then show ?thesis unfolding True p by auto
next
  case False
  then have fs: "fields_ok fs" using entries_ok_cases [OF assms(1)] by simp
  then have p: "p < length fs" using assms(2) position_nonempty by simp
  have "length (entries_from (length fs) p p) \<le> Suc (length fs)"
    using p by (simp add: entries_from_def)
  from find_extension_loop_ends [OF fs p p this, of dest] show ?thesis
    using iter_at_fields [OF fs p, of dest] position_nonempty [OF fs]
    by (auto simp: find_extension_field_def simp del: find_extension_loop.simps)
qed

text \<open>A record that the decoder can parse, with a field number no field of the message has.\<close>

definition unknown_to :: "pb_field list \<Rightarrow> wire_record \<Rightarrow> bool" where
  "unknown_to fs r \<longleftrightarrow> raw_fits (snd r) \<and> fst r \<noteq> 0 \<and> unat (fst r) < 2 ^ 29 \<and>
     (\<forall>f\<in>set fs. f_tag f \<noteq> fst r)"

text \<open>No extensions are registered: the list head in every extension field is NULL.\<close>

definition no_extensions :: "pb_field list \<Rightarrow> nat \<Rightarrow> mem \<Rightarrow> bool" where
  "no_extensions fs dest m \<longleftrightarrow>
     (\<forall>i<length fs. PB_LTYPE (f_type (fs ! i)) = PB_LTYPE_EXTENSION \<longrightarrow>
        load_ptr m (it_pData (iter_at fs dest i)) = Some 0)"

lemma decode_extension_none:
  "load_ptr (dm_mem m) (it_pData iter) = Some 0 \<Longrightarrow> 0 < n \<Longrightarrow>
   decode_extension n env dec tag wire_type iter s m = Some (True, s, m)"
  by (cases n) (simp_all add: decode_extension_def md_load_def md_return_def)

lemma decode_unknown_skips:
  assumes fs: "entries_ok fs" "no_extensions fs dest (dm_mem m)" "0 < de_depth env" "p < max 1 (length fs)"
    and l: "dl_iter l = iter_at fs dest p"
    and s: "buffered s" "unread s = raw_bytes v @ rest" "raw_fits v" and tag: "unat tag < 2 ^ 29"
  shows "\<exists>l' q. decode_unknown_field env dec tag (wire_type_num (raw_type v)) l s m =
      Some (True, l', advance (length (raw_bytes v)) s, m) \<and>
    dl_iter l' = iter_at fs dest q \<and> q < max 1 (length fs) \<and>
    dl_seen l' = dl_seen l \<and> dl_fixed_count_field l' = dl_fixed_count_field l"
proof -
  note skip = pb_skip_field_encoded [OF s]
  have lt: "tag < 0xFFFFFFFF" using tag by (simp add: word_less_nat_alt)
  obtain found j where j: "find_extension_field (iter_at fs dest p) = Some (found, iter_at fs dest j)"
    "j < max 1 (length fs)" "found \<longrightarrow> j < length fs \<and> PB_LTYPE (f_type (fs ! j)) = PB_LTYPE_EXTENSION"
    using find_extension_field_ends [OF fs(1,4), of dest] by blast
  have ext: "found \<Longrightarrow> decode_extension (de_depth env) env dec tag wt (iter_at fs dest j) s m = Some (True, s, m)"
    for wt
    using j(3) fs(2,3) by (intro decode_extension_none) (auto simp: no_extensions_def)
  show ?thesis
  proof (cases "tag < dl_extension_start l")
    case True
    then show ?thesis using skip l fs(4) by (auto simp: decode_unknown_field_def)
  next
    case False
    then show ?thesis
      using skip lt j(1,2) ext l
      by (cases found) (auto simp: decode_unknown_field_def Let_def simp del: iter_at.simps)
  qed
qed

lemma decode_rounds_unknown:
  assumes fs: "entries_ok fs" "no_extensions fs dest (dm_mem m)" "0 < de_depth env"
  shows "list_all (unknown_to fs) rs \<Longrightarrow> buffered s \<Longrightarrow> unread s = records_bytes rs \<Longrightarrow>
    dl_iter l = iter_at fs dest p \<Longrightarrow> p < max 1 (length fs) \<Longrightarrow> length rs < k \<Longrightarrow>
    \<exists>l' q. decode_rounds k env dec l s m = Some (True, l', advance (length (records_bytes rs)) s, m) \<and>
      dl_iter l' = iter_at fs dest q \<and> q < max 1 (length fs) \<and> dl_seen l' = dl_seen l \<and>
      dl_fixed_count_field l' = dl_fixed_count_field l"
proof (induction rs arbitrary: k l s p)
  case Nil
  then obtain k' where "k = Suc k'" by (cases k) auto
  moreover have "is_bytes_left s = 0" using length_unread [OF Nil(2)] Nil(3) by simp
  ultimately show ?case using Nil by auto
next
  case (Cons r rs)
  obtain k' where k: "k = Suc k'" "length rs < k'" using Cons.prems(6) by (cases k) auto
  obtain tag v where r: "r = (tag, v)" by force
  let ?h = "varint_bytes (tag_value (raw_type v) tag)"
  have ok: "raw_fits v" "tag \<noteq> 0" "unat tag < 2 ^ 29" and fresh: "\<forall>f\<in>set fs. f_tag f \<noteq> tag"
    using Cons.prems(1) r by (auto simp: unknown_to_def)
  have rest: "list_all (unknown_to fs) rs" using Cons.prems(1) by simp
  have u: "unread s = ?h @ (raw_bytes v @ records_bytes rs)"
    using Cons.prems(3) r by (simp add: record_bytes_def)
  have left: "is_bytes_left s = length (?h @ raw_bytes v @ records_bytes rs)"
    using length_unread [OF Cons.prems(2)] u by simp
  then have nonzero: "is_bytes_left s \<noteq> 0" using length_varint_bytes_pos [of "tag_value (raw_type v) tag"]
    by simp
  note tag = pb_decode_tag_encoded [OF Cons.prems(2) u ok(3,2)]
  have s1: "buffered (advance (length ?h) s)" "unread (advance (length ?h) s) = raw_bytes v @ records_bytes rs"
    using Cons.prems(2) u left by simp_all
  have find: "pb_field_iter_find (dl_iter l) tag = Some (False, iter_at fs dest p)"
    unfolding Cons.prems(4) by (rule iter_find_absent [OF fs(1) Cons.prems(5) ok(2) fresh])
  have same: "l\<lparr>dl_iter := iter_at fs dest p\<rparr> = l" using Cons.prems(4) by (cases l) simp
  obtain l1 q where l1: "decode_unknown_field env dec tag (wire_type_num (raw_type v)) l
        (advance (length ?h) s) m =
      Some (True, l1, advance (length (raw_bytes v)) (advance (length ?h) s), m)"
    "dl_iter l1 = iter_at fs dest q" "q < max 1 (length fs)"
    "dl_seen l1 = dl_seen l" "dl_fixed_count_field l1 = dl_fixed_count_field l"
    using decode_unknown_skips [OF fs Cons.prems(5,4) s1 ok(1,3)] by blast
  have s2: "buffered (advance (length ?h + length (raw_bytes v)) s)"
    "unread (advance (length ?h + length (raw_bytes v)) s) = records_bytes rs"
    using Cons.prems(2) u left by simp_all
  obtain l2 q' where l2: "decode_rounds k' env dec l1 (advance (length ?h + length (raw_bytes v)) s) m =
      Some (True, l2, advance (length (records_bytes rs)) (advance (length ?h + length (raw_bytes v)) s), m)"
    "dl_iter l2 = iter_at fs dest q'" "q' < max 1 (length fs)" "dl_seen l2 = dl_seen l1"
    "dl_fixed_count_field l2 = dl_fixed_count_field l1"
    using Cons.IH [OF rest s2 l1(2,3) k(2)] by blast
  have "decode_rounds k env dec l s m = decode_rounds k' env dec l1
      (advance (length ?h + length (raw_bytes v)) s) m"
    using nonzero tag find same l1(1) by (simp add: k(1) Let_def del: iter_at.simps)
  then show ?case using l2 l1(4,5) r by (auto simp: record_bytes_def add.assoc simp del: iter_at.simps)
qed

lemma records_bytes_length: "length rs \<le> length (records_bytes rs)"
proof (induction rs)
  case (Cons r rs)
  have "0 < length (record_bytes r)"
    using length_varint_bytes_pos [of "tag_value (raw_type (snd r)) (fst r)"]
    by (simp add: record_bytes_def)
  with Cons show ?case
    by (simp only: list.size records_bytes_simps length_append)
qed simp

lemma required_field_count_position:
  assumes "entries_ok fs" "p < max 1 (length fs)"
  shows "required_field_count (iter_at fs dest p) = min 64 (length (filter is_required fs))"
proof (cases "fs = []")
  case True
  then have p: "p = 0" using assms(2) by simp
  have "iter_list (iter_at [] dest 0) = [iter_at [] dest 0]"
    by (subst iter_list.simps) (simp add: iter_next_empty del: iter_at.simps)
  then show ?thesis
    unfolding True p
    by (simp add: required_field_count_def iter_next_empty iter_at_empty PB_LAST_FIELD_def del: iter_at.simps)
      (simp add: pb_field_iter_begin_def field_at_def PB_LAST_FIELD_def Let_def)
next
  case False
  then have fs: "fields_ok fs" using entries_ok_cases [OF assms(1)] by simp
  then show ?thesis using required_field_count_at [OF fs] assms(2) position_nonempty by simp
qed

text \<open>No bit is noted: only a message without required fields passes.\<close>

lemma no_required_field_seen: "k \<le> 64 \<Longrightarrow> required_fields_seen k (0, 0) \<longleftrightarrow> k = 0"
  using required_fields_seen_iff [of k "(0, 0)"] seen_bit_none by blast

lemma pb_decode_noinit_unknown:
  assumes "de_descs env flds = Some fs" "entries_ok fs" "no_extensions fs dest (dm_mem m)"
    "0 < de_depth env" "list_all (unknown_to fs) rs" "buffered s" "unread s = records_bytes rs"
  shows "pb_decode_noinit (Suc n) env flds dest s m =
    (if filter is_required fs = [] then Some (True, advance (length (records_bytes rs)) s, m)
     else Some (False, is_set_error ''missing required field'' (advance (length (records_bytes rs)) s), m))"
proof -
  let ?l = "\<lparr>dl_iter = snd (pb_field_iter_begin fs dest), dl_seen = (0, 0), dl_extension_start = 0,
      dl_fixed_count_field = None\<rparr>"
  have k: "length rs < Suc (is_bytes_left s)"
    using records_bytes_length [of rs] length_unread [OF assms(6)] assms(7) by simp
  have ext: "no_extensions fs dest (dm_mem (m\<lparr>dm_fixed_count := 0\<rparr>))" using assms(3) by simp
  have start: "dl_iter ?l = iter_at fs dest 0" "0 < max 1 (length fs)" by auto
  obtain l' q where l': "decode_rounds (Suc (is_bytes_left s)) env
        (\<lambda>init. if init then pb_decode n env else pb_decode_noinit n env) ?l s (m\<lparr>dm_fixed_count := 0\<rparr>) =
      Some (True, l', advance (length (records_bytes rs)) s, m\<lparr>dm_fixed_count := 0\<rparr>)"
    "dl_iter l' = iter_at fs dest q" "q < max 1 (length fs)" "dl_seen l' = (0, 0)"
    "dl_fixed_count_field l' = None"
    using decode_rounds_unknown [OF assms(2) ext assms(4,5,6,7) start k,
        of "\<lambda>init. if init then pb_decode n env else pb_decode_noinit n env"]
    by auto
  have "required_fields_seen (required_field_count (dl_iter l')) (dl_seen l') \<longleftrightarrow>
      filter is_required fs = []"
    unfolding l'(2,4) required_field_count_position [OF assms(2) l'(3)]
    by (subst no_required_field_seen) (auto simp: min_def)
  then show ?thesis
    using l'(1,5) assms(1)
    by (simp add: pb_decode_noinit.simps Let_def fixed_count_complete_def md_fail_def
        del: decode_rounds.simps)
qed

subsection \<open>Where decoders write\<close>

text \<open>\<open>writes_in A f\<close>: whatever the stream holds, \<open>f\<close> changes memory only at addresses in \<open>A\<close>.\<close>

definition changes_in :: "nat set \<Rightarrow> dmem \<Rightarrow> dmem \<Rightarrow> bool" where
  "changes_in A m m' \<longleftrightarrow> (\<forall>x. x \<notin> A \<longrightarrow> dm_mem m' x = dm_mem m x)"

definition writes_in :: "nat set \<Rightarrow> 'u mdec \<Rightarrow> bool" where
  "writes_in A f \<longleftrightarrow> (\<forall>s m ok s' m'. f s m = Some (ok, s', m') \<longrightarrow> changes_in A m m')"

lemma changes_in_refl [simp]: "changes_in A m m"
  by (simp add: changes_in_def)

lemma changes_in_trans: "changes_in A m m1 \<Longrightarrow> changes_in A m1 m2 \<Longrightarrow> changes_in A m m2"
  by (simp add: changes_in_def)

lemma changes_in_store:
  "store a bs m = Some m' \<Longrightarrow> {a ..< a + length bs} \<subseteq> A \<Longrightarrow> changes_in A m m'"
  using store_stored [of a bs m m'] by (auto simp: stored_def changes_in_def subset_iff)

lemma writes_in_step:
  "writes_in A md_return" "writes_in A md_false" "writes_in A md_undefined" "writes_in A (md_fail msg)"
  by (simp_all add: writes_in_def md_return_def md_false_def md_undefined_def md_fail_def)

lemma writes_in_read: "(\<And>x. writes_in A (g x)) \<Longrightarrow> writes_in A (md_read f g)"
  by (auto simp: writes_in_def md_read_def split: option.splits)

lemma writes_in_load: "(\<And>x. writes_in A (g x)) \<Longrightarrow> writes_in A (md_load l g)"
  by (auto simp: writes_in_def md_load_def split: option.splits)

lemma writes_in_store:
  "(\<And>m m'. w m = Some m' \<Longrightarrow> changes_in A m m') \<Longrightarrow> writes_in A g \<Longrightarrow> writes_in A (md_store w g)"
  unfolding writes_in_def md_store_def by (fastforce split: option.splits intro: changes_in_trans)

lemma writes_in_if: "(b \<Longrightarrow> writes_in A f) \<Longrightarrow> (\<not> b \<Longrightarrow> writes_in A g) \<Longrightarrow> writes_in A (if b then f else g)"
  by simp

lemma writes_in_read_to:
  assumes "{dest ..< dest + n} \<subseteq> A"
  shows "writes_in A (pb_read_to dest n)"
proof -
  have "changes_in A m m'" if "pb_read_to dest n s m = Some (ok, s', m')" for s ok s' m m'
    using that assms
    by (auto simp: pb_read_to_def md_read_def md_store_def md_return_def
        dest: pb_read_length changes_in_store split: option.splits)
      (metis changes_in_store pb_read_length)
  then show ?thesis unfolding writes_in_def by blast
qed

lemma writes_in_read_string:
  assumes "{dest ..< dest + (n + 1)} \<subseteq> A"
  shows "writes_in A (read_string_to dest n)"
  unfolding writes_in_def
proof (intro allI impI)
  fix s m ok s' m'
  assume run: "read_string_to dest n s m = Some (ok, s', m')"
  then obtain s1 m1 where 1: "pb_read_to dest n s m = Some (ok, s1, m1)" "store (dest + n) [0] m1 = Some m'"
    by (auto simp: read_string_to_def split: option.splits)
  have "writes_in A (pb_read_to dest n)" using assms by (intro writes_in_read_to) auto
  then have "changes_in A m m1" using 1(1) unfolding writes_in_def by blast
  moreover have "changes_in A m1 m'" using 1(2) by (rule changes_in_store) (use assms in auto)
  ultimately show "changes_in A m m'" by (rule changes_in_trans)
qed

lemmas writes_in_rules = writes_in_step writes_in_read writes_in_load writes_in_if writes_in_read_to

lemma writes_in_checked_int:
  "{dest ..< dest + unat n} \<subseteq> A \<Longrightarrow> writes_in A (store_checked_int n dest v c)"
  unfolding store_checked_int_def
  by (intro writes_in_store writes_in_if writes_in_step) (erule changes_in_store, simp only: length_word_bytes)

text \<open>
  The leaf decoders of statically allocated data stay inside the \<open>data_size\<close> bytes of their
  field, for any input. The descriptor must leave room for what a scalar decoder stores.
\<close>

lemma leaf_decoder_writes_in:
  assumes "PB_ATYPE (f_type f) = PB_ATYPE_STATIC" "PB_LTYPE (f_type f) \<noteq> PB_LTYPE_SUBMESSAGE"
    "PB_LTYPE (f_type f) \<le> PB_LTYPE_LAST_PACKABLE \<longrightarrow> scalar_size f \<le> unat (f_data_size f)"
  shows "writes_in {dest ..< dest + unat (f_data_size f)} (PB_DECODERS al dec (PB_LTYPE (f_type f)) f dest)"
proof -
  let ?A = "{dest ..< dest + unat (f_data_size f)}"
  have size: "unat (f_data_size f) = 8 \<or> unat (f_data_size f) = 4 \<or> unat (f_data_size f) = 2 \<or>
      unat (f_data_size f) = 1" if "is_int_size (f_data_size f)"
    using that by (auto simp: is_int_size_def)
  have "writes_in ?A (pb_dec_bool f dest)" if "1 \<le> unat (f_data_size f)"
    unfolding pb_dec_bool_def store_bool_def
    by (intro writes_in_read writes_in_store writes_in_step) (erule changes_in_store, use that in auto)
  moreover have "writes_in ?A (pb_dec_varint f dest)" "writes_in ?A (pb_dec_uvarint f dest)"
    "writes_in ?A (pb_dec_svarint f dest)"
    unfolding pb_dec_varint_def pb_dec_uvarint_def pb_dec_svarint_def Let_def
    by (intro writes_in_rules writes_in_checked_int; simp)+
  moreover have "writes_in ?A (pb_dec_fixed32 f dest)" if "4 \<le> unat (f_data_size f)"
    unfolding pb_dec_fixed32_def
    by (intro writes_in_read writes_in_store writes_in_step) (erule changes_in_store, use that in auto)
  moreover have "writes_in ?A (pb_dec_fixed64 f dest)" if "8 \<le> unat (f_data_size f)"
    unfolding pb_dec_fixed64_def
    by (intro writes_in_read writes_in_store writes_in_step) (erule changes_in_store, use that in auto)
  moreover have "writes_in ?A (pb_dec_fixed_length_bytes f dest)"
    unfolding pb_dec_fixed_length_bytes_def memset_zero_def
    by (intro writes_in_rules writes_in_store) (erule changes_in_store, auto)
  moreover have "writes_in ?A (pb_dec_bytes al f dest)"
  proof -
    have "writes_in ?A (md_store (store_u32 dest len) (pb_read_to (dest + 4) (unat len)))"
      if "size_add (unat len) 4 \<le> unat (f_data_size f)" for len
    proof -
      have "unat len + 4 < 18446744073709551616" using unat_u32_lt [of len] by linarith
      then have "size_add (unat len) 4 = unat len + 4" by simp
      with that have "unat len + 4 \<le> unat (f_data_size f)" by simp
      then show ?thesis unfolding store_u32_def
        by (intro writes_in_store writes_in_read_to) (erule changes_in_store, auto)
    qed
    then show ?thesis
      using assms(1) unfolding pb_dec_bytes_def Let_def
      by (intro writes_in_read writes_in_if writes_in_step) (simp_all add: not_less)
  qed
  moreover have "writes_in ?A (pb_dec_string al f dest)"
  proof -
    have "writes_in ?A (read_string_to dest (unat len))"
      if "\<not> len + 1 < len" "len + 1 \<le> f_data_size f" for len :: u32
    proof -
      have "unat (len + 1) = unat len + 1"
      proof -
        have "1 + len \<noteq> 0"
        proof
          assume "1 + len = 0"
          then have "len + 1 = 0" by (simp add: add.commute)
          with that(1) have "len = 0" by (simp add: word_gt_0)
          with \<open>1 + len = 0\<close> show False by simp
        qed
        then have "unat (1 + len) = Suc (unat len)" by (rule unatSuc)
        then show ?thesis by (simp add: add.commute)
      qed
      then have le: "unat len + 1 \<le> unat (f_data_size f)" using that(2) by (simp add: word_le_nat_alt)
      then show ?thesis by (intro writes_in_read_string) auto
    qed
    then show ?thesis
      using assms(1) unfolding pb_dec_string_def Let_def
      by (intro writes_in_read writes_in_if writes_in_step) (simp_all add: not_less)
  qed
  ultimately show ?thesis
    using assms(2,3) by (auto simp: PB_DECODERS_def scalar_size_def writes_in_step)
qed

text \<open>A submessage stays inside its entry if the decoder it is handed to does.\<close>

lemma writes_in_substream:
  assumes "writes_in A f"
  shows "writes_in A (with_substream f)"
proof -
  have "writes_in A (\<lambda>s m. case f sub m of
         None \<Rightarrow> None
       | Some (status, substream, m) \<Rightarrow>
           md_read (pb_close_string_substream substream) (\<lambda>_. if status then md_return else md_false) s m)" for sub
  proof -
    have tail: "writes_in A (md_read (pb_close_string_substream ss) (\<lambda>_. if status then md_return else md_false))"
      for ss and status :: bool
      by (intro writes_in_read writes_in_if writes_in_step)
    show ?thesis
      using assms tail unfolding writes_in_def by (fastforce split: option.splits intro: changes_in_trans)
  qed
  then show ?thesis unfolding with_substream_def by (rule writes_in_read)
qed

lemma entry_decoder_writes_in:
  fixes dec :: "bool \<Rightarrow> nat \<Rightarrow> nat \<Rightarrow> 'u mdec"
  assumes "PB_ATYPE (f_type f) = PB_ATYPE_STATIC"
    "PB_LTYPE (f_type f) \<le> PB_LTYPE_LAST_PACKABLE \<longrightarrow> scalar_size f \<le> unat (f_data_size f)"
    "PB_LTYPE (f_type f) = PB_LTYPE_SUBMESSAGE \<Longrightarrow>
      writes_in {dest ..< dest + unat (f_data_size f)}
        (dec (PB_HTYPE (f_type f) = PB_HTYPE_REPEATED) (f_ptr f) dest)"
  shows "writes_in {dest ..< dest + unat (f_data_size f)} (PB_DECODERS al dec (PB_LTYPE (f_type f)) f dest)"
proof (cases "PB_LTYPE (f_type f) = PB_LTYPE_SUBMESSAGE")
  case True
  have "writes_in {dest ..< dest + unat (f_data_size f)}
      (md_read pb_make_string_substream (\<lambda>_. md_fail ''invalid field descriptor'') :: 'u mdec)"
    by (intro writes_in_read writes_in_step)
  with True show ?thesis
    using writes_in_substream [OF assms(3)] by (simp add: PB_DECODERS_def pb_dec_submessage_def)
next
  case False
  then show ?thesis by (intro leaf_decoder_writes_in assms(1,2))
qed

text \<open>A repeated field of packable type in static storage: the array and its counter.\<close>

lemma changes_in_store_size:
  "store_size (At sz) v m = Some m' \<Longrightarrow> {sz ..< sz + 4} \<subseteq> A \<Longrightarrow> changes_in A m m'"
  unfolding store_size_def store_u32_def by (simp, erule changes_in_store) simp

lemma entry_inside:
  assumes "unat (f_data_size f) * unat (f_array_size f) < 2 ^ 32" "index < f_array_size f"
  shows "{entry_addr base f index ..< entry_addr base f index + unat (f_data_size f)} \<subseteq>
    {base ..< base + unat (f_data_size f) * unat (f_array_size f)}"
proof -
  have i: "unat index < unat (f_array_size f)" using assms(2) by (simp add: word_less_nat_alt)
  then have "unat (f_data_size f) * unat index \<le> unat (f_data_size f) * unat (f_array_size f)"
    by (intro mult_le_mono2) simp
  from le_less_trans [OF this assms(1)]
  have lt: "unat (f_data_size f) * unat index < 2 ^ LENGTH(32)" by (simp only: len_num1 len_bit0) simp
  have "unat (f_data_size f * index) = unat (f_data_size f) * unat index mod 2 ^ LENGTH(32)"
    by (rule unat_word_ariths)
  also have "\<dots> = unat (f_data_size f) * unat index" using lt by (rule mod_less)
  finally have "unat (f_data_size f * index) = unat (f_data_size f) * unat index" .
  moreover have "unat (f_data_size f) * Suc (unat index) \<le> unat (f_data_size f) * unat (f_array_size f)"
    using i by (intro mult_le_mono2) simp
  ultimately show ?thesis by (auto simp: entry_addr_def)
qed

lemma static_packed_loop_writes_in:
  assumes "it_pSize iter = At sz" "{sz ..< sz + 4} \<subseteq> A"
    "\<And>i. i < f_array_size (it_field iter) \<Longrightarrow> writes_in A (func (entry_addr (it_pData iter) (it_field iter) i))"
  shows "writes_in A (static_packed_loop k func iter)"
proof (induction k)
  case (Suc k)
  have inner: "writes_in A (md_load (load_size (it_pSize iter)) (\<lambda>len.
      md_store (store_size (it_pSize iter) (len + 1)) (static_packed_loop k func iter)))"
    using Suc assms(1,2)
    by (intro writes_in_load writes_in_store) (auto intro: changes_in_store_size)
  have "changes_in A m m'"
    if run: "static_packed_loop (Suc k) func iter s m = Some (ok, s', m')" for s m ok s' m'
  proof -
    obtain len where len: "load_size (it_pSize iter) m = Some len"
      using run by (auto simp: md_load_def Let_def split: option.splits)
    show ?thesis
    proof (cases "0 < is_bytes_left s \<and> len < f_array_size (it_field iter)")
      case True
      with run len obtain ok1 s1 m1
        where 1: "func (entry_addr (it_pData iter) (it_field iter) len) s m = Some (ok1, s1, m1)"
          and 2: "(if ok1 then md_load (load_size (it_pSize iter)) (\<lambda>len.
              md_store (store_size (it_pSize iter) (len + 1)) (static_packed_loop k func iter)) s1 m1
            else Some (False, s1, m1)) = Some (ok, s', m')"
        by (auto simp: md_load_def [of _ _ s m] md_then_def Let_def split: option.splits)
      have "changes_in A m m1" using 1 assms(3) True unfolding writes_in_def by blast
      moreover have "changes_in A m1 m'"
        using 2 inner unfolding writes_in_def by (cases ok1) auto
      ultimately show ?thesis by (rule changes_in_trans)
    next
      case False
      with run len show ?thesis by (auto simp: md_load_def md_return_def Let_def)
    qed
  qed
  then show ?case unfolding writes_in_def by blast
qed (simp add: writes_in_step)

lemma writes_in_packed_tail:
  assumes "writes_in A loop"
  shows "writes_in A (\<lambda>s m.
      (case loop sub m of
         None \<Rightarrow> None
       | Some (status, substream, m) \<Rightarrow>
           if is_bytes_left substream \<noteq> 0 then md_fail msg s m
           else md_read (pb_close_string_substream substream)
                  (\<lambda>_. if status then md_return else md_false) s m))"
  unfolding writes_in_def
proof (intro allI impI)
  fix s m ok s' m'
  assume run: "(case loop sub m of
         None \<Rightarrow> None
       | Some (status, substream, m) \<Rightarrow>
           if is_bytes_left substream \<noteq> 0 then md_fail msg s m
           else md_read (pb_close_string_substream substream)
                  (\<lambda>_. if status then md_return else md_false) s m) = Some (ok, s', m')"
  then obtain status ss m1 where 1: "loop sub m = Some (status, ss, m1)"
    by (auto split: option.splits)
  with assms have "changes_in A m m1" unfolding writes_in_def by blast
  moreover have "changes_in A m1 m'"
  proof (cases "is_bytes_left ss \<noteq> 0")
    case True
    with run 1 show ?thesis by (auto simp: md_fail_def)
  next
    case False
    have "writes_in A (md_read (pb_close_string_substream ss) (\<lambda>_. if status then md_return else md_false))"
      by (intro writes_in_rules)
    with run 1 False show ?thesis unfolding writes_in_def by auto
  qed
  ultimately show "changes_in A m m'" by (rule changes_in_trans)
qed

lemma static_array_writes_in:
  fixes iter :: pb_iter
  defines "f \<equiv> it_field iter"
  defines "array \<equiv> {it_pData iter ..< it_pData iter + unat (f_data_size f) * unat (f_array_size f)}"
  assumes rep: "PB_HTYPE (f_type f) = PB_HTYPE_REPEATED" and static: "PB_ATYPE (f_type f) = PB_ATYPE_STATIC"
    and inner: "PB_LTYPE (f_type f) = PB_LTYPE_SUBMESSAGE \<longrightarrow>
      (\<forall>d. writes_in {d ..< d + unat (f_data_size f)} (dec True (f_ptr f) d))"
    and room: "PB_LTYPE (f_type f) \<le> PB_LTYPE_LAST_PACKABLE \<longrightarrow> scalar_size f \<le> unat (f_data_size f)"
    and bound: "unat (f_data_size f) * unat (f_array_size f) < 2 ^ 32"
    and loc: "it_pSize iter = At sz"
  shows "writes_in (array \<union> {sz ..< sz + 4}) (decode_static_field n env dec wire_type iter)"
proof -
  let ?A = "array \<union> {sz ..< sz + 4}" and ?func = "PB_DECODERS (de_alloc env) dec (PB_LTYPE (f_type f)) f"
  have item: "writes_in ?A (?func (entry_addr (it_pData iter) f i))" if "i < f_array_size f" for i
  proof -
    have "writes_in {entry_addr (it_pData iter) f i ..< entry_addr (it_pData iter) f i + unat (f_data_size f)}
        (?func (entry_addr (it_pData iter) f i))"
      by (rule entry_decoder_writes_in [OF static room]) (use inner rep in simp)
    moreover have "{entry_addr (it_pData iter) f i ..<
        entry_addr (it_pData iter) f i + unat (f_data_size f)} \<subseteq> ?A"
      using entry_inside [OF bound that, of "it_pData iter"] unfolding array_def by blast
    ultimately show ?thesis unfolding writes_in_def changes_in_def by blast
  qed
  have loop: "writes_in ?A (static_packed_loop k ?func iter)" for k
    using item by (intro static_packed_loop_writes_in [OF loc]) (auto simp: f_def)
  have packed: "writes_in ?A (md_read pb_make_string_substream (\<lambda>substream s m.
      (case static_packed_loop (Suc (is_bytes_left substream)) ?func iter substream m of
         None \<Rightarrow> None
       | Some (status, substream, m) \<Rightarrow>
           if is_bytes_left substream \<noteq> 0 then md_fail ''array overflow'' s m
           else md_read (pb_close_string_substream substream)
                  (\<lambda>_. if status then md_return else md_false) s m)))"
  proof (rule writes_in_read)
    fix sub
    show "writes_in ?A (\<lambda>s m.
      (case static_packed_loop (Suc (is_bytes_left sub)) ?func iter sub m of
         None \<Rightarrow> None
       | Some (status, substream, m) \<Rightarrow>
           if is_bytes_left substream \<noteq> 0 then md_fail ''array overflow'' s m
           else md_read (pb_close_string_substream substream)
                  (\<lambda>_. if status then md_return else md_false) s m))"
      by (rule writes_in_packed_tail) (rule loop)
  qed
  have single: "writes_in ?A (md_load (load_size (it_pSize iter)) (\<lambda>len.
      md_store (store_size (it_pSize iter) (len + 1))
        (if f_array_size f \<le> len then md_fail ''array overflow''
         else ?func (entry_addr (it_pData iter) f len))))"
    using item loc
    by (intro writes_in_load writes_in_store writes_in_if writes_in_step)
      (auto intro: changes_in_store_size simp: not_le)
  show ?thesis
    using rep packed single unfolding decode_static_field_def Let_def f_def [symmetric]
    by (auto simp: writes_in_step split: if_splits)
qed

subsection \<open>Integer ranges and allocation sizes\<close>

lemma sint_signed_take_bit: "k < 64 \<Longrightarrow> sint (signed_take_bit k (v :: u64)) = signed_take_bit k (sint v)"
  by (cases "k = 63"; rule bit_eqI) (auto simp: bit_simps min_def)

lemma signed_take_bit_u64_iff:
  assumes "k < 64"
  shows "signed_take_bit k (v :: u64) = v \<longleftrightarrow> - (2 ^ k) \<le> sint v \<and> sint v < 2 ^ k"
proof -
  have "signed_take_bit k v = v \<longleftrightarrow> sint (signed_take_bit k v) = sint v"
    by (simp add: word_eq_iff_signed)
  also have "\<dots> \<longleftrightarrow> signed_take_bit k (sint v) = sint v" by (simp add: sint_signed_take_bit assms)
  also have "\<dots> \<longleftrightarrow> - (2 ^ k) \<le> sint v \<and> sint v < 2 ^ k" by (rule signed_take_bit_int_eq_self_iff)
  finally show ?thesis .
qed

lemma take_bit_u64_iff: "take_bit k (v :: u64) = v \<longleftrightarrow> unat v < 2 ^ k"
proof -
  have "take_bit k v = v \<longleftrightarrow> unat v mod 2 ^ k = unat v"
    by (simp add: word_unat_eq_iff width_simps)
  also have "\<dots> \<longleftrightarrow> unat v < 2 ^ k"
    by (metis mod_less mod_less_divisor zero_less_numeral zero_less_power)
  finally show ?thesis .
qed

lemma allocation_check_iff:
  assumes "0 < array_size"
  shows "(2 ^ 32 \<le> data_size \<or> 2 ^ 32 \<le> array_size) \<and> (2 ^ 64 - 1) div array_size < data_size \<longleftrightarrow>
    2 ^ 64 \<le> array_size * (data_size :: nat)"
proof -
  have "(2 ^ 64 - 1) div array_size < data_size \<longleftrightarrow> 2 ^ 64 - 1 < data_size * array_size"
    using assms by (rule div_less_iff_less_mult)
  also have "\<dots> \<longleftrightarrow> 2 ^ 64 \<le> array_size * data_size" by (simp add: mult.commute) linarith
  finally have div: "(2 ^ 64 - 1) div array_size < data_size \<longleftrightarrow> 2 ^ 64 \<le> array_size * data_size" .
  have "array_size * data_size < 2 ^ 64" if "data_size < 2 ^ 32" "array_size < 2 ^ 32"
  proof -
    have "array_size * data_size \<le> array_size * 2 ^ 32" using that(1) by simp
    also have "\<dots> < 2 ^ 32 * 2 ^ 32" using that(2) by simp
    finally show ?thesis by (simp flip: power_add)
  qed
  with div show ?thesis by (meson not_less)
qed

lemma pb_dec_uvarint_encoded:
  assumes "buffered s" "unread s = varint_bytes v @ rest" "is_int_size (f_data_size f)"
    "region (dm_mem m) dest (unat (f_data_size f))"
  shows "\<exists>m'. stored m dest (word_bytes (unat (f_data_size f)) v) m' \<and>
    pb_dec_uvarint f dest s m =
      (if unat v < 2 ^ (8 * unat (f_data_size f))
       then Some (True, advance (length (varint_bytes v)) s, m')
       else Some (False, is_set_error ''integer too large'' (advance (length (varint_bytes v)) s), m'))"
  using store_checked_int_eq [OF assms(4), of v "take_bit (8 * unat (f_data_size f)) v"
      "advance (length (varint_bytes v)) s"] assms(3)
  unfolding pb_dec_uvarint_def md_read_Some [of pb_decode_varint, OF pb_decode_varint_encoded [OF assms(1,2)]]
  by (simp add: take_bit_u64_iff)

lemma int_size_bound: "is_int_size n \<Longrightarrow> 8 * unat n - 1 < 64"
  by (auto simp: is_int_size_def)

lemma pb_dec_varint_encoded:
  assumes "buffered s" "unread s = varint_bytes v @ rest" "is_int_size (f_data_size f)"
    "region (dm_mem m) dest (unat (f_data_size f))"
  defines "w \<equiv> (if f_data_size f = 8 then v else signed_take_bit 31 v)"
  shows "\<exists>m'. stored m dest (word_bytes (unat (f_data_size f)) w) m' \<and>
    pb_dec_varint f dest s m =
      (if - (2 ^ (8 * unat (f_data_size f) - 1)) \<le> sint w \<and> sint w < 2 ^ (8 * unat (f_data_size f) - 1)
       then Some (True, advance (length (varint_bytes v)) s, m')
       else Some (False, is_set_error ''integer too large'' (advance (length (varint_bytes v)) s), m'))"
  using store_checked_int_eq [OF assms(4), of w "signed_take_bit (8 * unat (f_data_size f) - 1) w"
      "advance (length (varint_bytes v)) s"] assms(3) int_size_bound [OF assms(3)]
  unfolding pb_dec_varint_def md_read_Some [of pb_decode_varint, OF pb_decode_varint_encoded [OF assms(1,2)]]
  by (simp add: signed_take_bit_u64_iff w_def [symmetric] del: One_nat_def)

subsection \<open>Properties\<close>

text \<open>A decoder environment without user functions; the allocator always fails.\<close>

definition plain_env :: "descs \<Rightarrow> unit dec_env" where
  "plain_env ds =
     \<lparr>de_descs = ds, de_depth = 4,
      de_alloc = \<lparr>al_choose = (\<lambda>m n. 0), al_junk = (\<lambda>a. 0)\<rparr>,
      de_callback = (\<lambda>a f arg. md_undefined), de_extension = (\<lambda>a e t w. md_undefined)\<rparr>"

definition plain_mem :: "nat \<Rightarrow> bytes \<Rightarrow> dmem" where
  "plain_mem a bs = \<lparr>dm_mem = mem_at a bs, dm_blocks = (\<lambda>_. None), dm_fixed_count = 0\<rparr>"

definition optional_uint32 :: "u32 \<Rightarrow> pb_field" where
  "optional_uint32 tag =
     \<lparr>f_tag = tag, f_type = 0x12, f_data_offset = 0, f_size_offset = 0, f_data_size = 4,
      f_array_size = 0, f_ptr = 0\<rparr>"

text \<open>
  C2. Forward compatibility: pb_decode_noinit on the encoding of any records whose field numbers
  the message does not have reads all of it and leaves the memory as it was. It succeeds if and
  only if the message has no required field, and fails with "missing required field" otherwise.
  The message may be empty and may have extension fields, as long as no extensions are registered
  in them (their list head is NULL).
\<close>

theorem unknown_fields_are_skipped:
  assumes "de_descs env flds = Some fs" "entries_ok fs" "no_extensions fs dest (dm_mem m)"
    "0 < de_depth env" "list_all (unknown_to fs) rs" "buffered s" "unread s = records_bytes rs"
  shows "pb_decode_noinit (Suc n) env flds dest s m =
    (if filter is_required fs = [] then Some (True, advance (length (records_bytes rs)) s, m)
     else Some (False, is_set_error ''missing required field'' (advance (length (records_bytes rs)) s), m))"
  using assms by (rule pb_decode_noinit_unknown)

text \<open>A message with an optional uint32, an extension field at address 24 and, if asked for, a required int32.\<close>

definition extensible_fields :: "bool \<Rightarrow> pb_field list" where
  "extensible_fields required =
     [optional_uint32 7,
      \<lparr>f_tag = 100, f_type = 0x59, f_data_offset = 4, f_size_offset = 0, f_data_size = 8,
       f_array_size = 0, f_ptr = 0\<rparr>] @
     (if required
      then [\<lparr>f_tag = 3, f_type = 0x01, f_data_offset = 0, f_size_offset = 0, f_data_size = 4,
             f_array_size = 0, f_ptr = 0\<rparr>]
      else [])"

definition extensible_mem :: dmem where
  "extensible_mem = plain_mem 16 (replicate 20 0)"

lemma extensible_fields_ok:
  "entries_ok (extensible_fields r)" "no_extensions (extensible_fields r) 16 (dm_mem extensible_mem)"
  "filter is_required (extensible_fields r) = [] \<longleftrightarrow> \<not> r"
  "list_all (unknown_to (extensible_fields False)) sample_records"
  "list_all (unknown_to (extensible_fields True)) sample_records"
proof -
  have "entries_ok (extensible_fields True)" "entries_ok (extensible_fields False)"
    by (simp_all add: extensible_fields_def entries_ok_def optional_uint32_def)
  then show "entries_ok (extensible_fields r)" by (cases r) simp_all
  have "load_ptr (dm_mem extensible_mem) (it_pData (iter_at (extensible_fields True) 16 1)) = Some 0"
    "load_ptr (dm_mem extensible_mem) (it_pData (iter_at (extensible_fields False) 16 1)) = Some 0"
    by code_simp+
  moreover have "PB_LTYPE (f_type (extensible_fields r ! 0)) \<noteq> PB_LTYPE_EXTENSION"
    "r \<Longrightarrow> PB_LTYPE (f_type (extensible_fields r ! 2)) \<noteq> PB_LTYPE_EXTENSION"
    by (simp_all add: extensible_fields_def optional_uint32_def PB_LTYPE_def)
  moreover have "i = 0 \<or> i = 1 \<or> i = 2 \<and> r" if "i < length (extensible_fields r)" for i
    using that by (auto simp: extensible_fields_def split: if_splits)
  ultimately show "no_extensions (extensible_fields r) 16 (dm_mem extensible_mem)"
    unfolding no_extensions_def by (cases r) (metis (full_types))+
  show "filter is_required (extensible_fields r) = [] \<longleftrightarrow> \<not> r"
    by (simp add: extensible_fields_def is_required_def optional_uint32_def PB_HTYPE_def)
  show "list_all (unknown_to (extensible_fields False)) sample_records"
    "list_all (unknown_to (extensible_fields True)) sample_records"
    by (simp_all add: sample_records_def unknown_to_def extensible_fields_def optional_uint32_def)
qed

theorem unknown_fields_are_skipped_witness:
  "let s = pb_istream_from_buffer (records_bytes sample_records) (length (records_bytes sample_records)) in
   pb_decode_noinit 1 (plain_env (\<lambda>_. Some (extensible_fields False))) 8 16 s extensible_mem =
     Some (True, advance (length (records_bytes sample_records)) s, extensible_mem) \<and>
   pb_decode_noinit 1 (plain_env (\<lambda>_. Some (extensible_fields True))) 8 16 s extensible_mem =
     Some (False, is_set_error ''missing required field'' (advance (length (records_bytes sample_records)) s),
           extensible_mem)"
proof -
  let ?s = "pb_istream_from_buffer (records_bytes sample_records) (length (records_bytes sample_records))
      :: unit pb_istream"
  have s: "buffered ?s" "unread ?s = records_bytes sample_records" by simp_all
  have env: "de_descs (plain_env (\<lambda>_. Some fs)) 8 = Some fs" "0 < de_depth (plain_env (\<lambda>_. Some fs))" for fs
    by (simp_all add: plain_env_def)
  show ?thesis
    using unknown_fields_are_skipped [OF env(1) extensible_fields_ok(1,2) env(2) extensible_fields_ok(4) s, of 0]
      unknown_fields_are_skipped [OF env(1) extensible_fields_ok(1,2) env(2) extensible_fields_ok(5) s, of 0]
    by (simp add: Let_def extensible_fields_ok(3))
qed

text \<open>
  C7. Every scalar field survives encoding and decoding: what the field encoder wrote for the
  value in memory, the decoder for the same descriptor stores back byte for byte (a bool as 0 or
  1), consuming exactly the encoding and changing nothing else.
\<close>

theorem scalar_field_round_trip:
  assumes "value_of (ee_mem env) subrec f src = Some v" "PB_LTYPE (f_type f) \<le> PB_LTYPE_LAST_PACKABLE"
    "bufsize \<le> length buf" "bufsize < 2 ^ 63" "length (raw_bytes v) \<le> bufsize"
    "region (dm_mem m) dest (scalar_size f)"
  shows "\<exists>out bs m'.
    PB_ENCODERS env sub (PB_LTYPE (f_type f)) f src (pb_ostream_from_buffer buf bufsize) = Some (True, out) \<and>
    load_bytes (ee_mem env) src (scalar_size f) = Some bs \<and>
    stored m dest (canonical_scalar f bs) m' \<and>
    (let inp = pb_istream_from_buffer (ob_mem (os_state out)) bufsize :: unit pb_istream in
     PB_DECODERS al dec (PB_LTYPE (f_type f)) f dest inp m =
       Some (True, advance (os_bytes_written out) inp, m'))"
proof -
  have leaf: "PB_LTYPE (f_type f) \<noteq> 8" using assms(2) by auto
  have v: "value_of (ee_mem env) (\<lambda>_ _. None) f src = Some v"
  proof -
    have "value_of (ee_mem env) (\<lambda>_ _. None) f src = value_of (ee_mem env) subrec f src"
      using leaf unfolding value_of_def Let_def by (simp cong: if_cong)
    then show ?thesis using assms(1) by simp
  qed
  have emits: "buf.emits (PB_ENCODERS env sub (PB_LTYPE (f_type f)) f src) (raw_bytes v)"
    by (rule buf.emits_value [OF _ v]) simp
  obtain out where out: "PB_ENCODERS env sub (PB_LTYPE (f_type f)) f src (pb_ostream_from_buffer buf bufsize) =
      Some (True, out)" "os_bytes_written out = length (raw_bytes v)"
    "ob_mem (os_state out) = raw_bytes v @ drop (length (raw_bytes v)) buf"
    using emits_buffer [OF emits assms(3-5)] by blast
  let ?inp = "pb_istream_from_buffer (ob_mem (os_state out)) bufsize :: unit pb_istream"
  have inp: "buffered ?inp" using out(3) assms(3,5) by simp
  have "unread ?inp = raw_bytes v @ take (bufsize - length (raw_bytes v)) (drop (length (raw_bytes v)) buf)"
    using out(3) assms(5) by simp
  from decode_scalar_encoded [OF assms(1,2) inp this assms(6), of al dec] out(1,2)
  show ?thesis unfolding Let_def by metis
qed

theorem scalar_field_round_trip_witness:
  "\<exists>out bs m'.
    PB_ENCODERS (sample_env no_state) (\<lambda>_ _. os_undefined) (PB_LTYPE (f_type (sample_fields ! 0)))
      (sample_fields ! 0) 16 (pb_ostream_from_buffer (replicate 10 0) 10) = Some (True, out) \<and>
    load_bytes (ee_mem (sample_env no_state)) 16 (scalar_size (sample_fields ! 0)) = Some bs \<and>
    stored (plain_mem 16 [0, 0, 0, 0]) 16 (canonical_scalar (sample_fields ! 0) bs) m' \<and>
    (let inp = pb_istream_from_buffer (ob_mem (os_state out)) 10 :: unit pb_istream in
     PB_DECODERS (de_alloc (plain_env (\<lambda>_. None))) (\<lambda>_ _ _. md_undefined)
       (PB_LTYPE (f_type (sample_fields ! 0))) (sample_fields ! 0) 16 inp (plain_mem 16 [0, 0, 0, 0]) =
       Some (True, advance (os_bytes_written out) inp, m'))"
proof (rule scalar_field_round_trip)
  show "value_of (ee_mem (sample_env no_state)) (\<lambda>_ _. None) (sample_fields ! 0) 16 = Some (Raw_varint (- 2))"
    by code_simp
  show "PB_LTYPE (f_type (sample_fields ! 0)) \<le> PB_LTYPE_LAST_PACKABLE" by code_simp
  show "length (raw_bytes (Raw_varint (- 2))) \<le> 10" by code_simp
  have "load_bytes (dm_mem (plain_mem 16 [0, 0, 0, 0])) 16 (scalar_size (sample_fields ! 0)) = Some [0, 0, 0, 0]"
    by code_simp
  then show "region (dm_mem (plain_mem 16 [0, 0, 0, 0])) 16 (scalar_size (sample_fields ! 0))"
    using load_bytes_Some_iff by blast
qed simp_all

text \<open>
  C27. What the integer decoders accept and store, for every encoded 64-bit value v and field of
  data_size n = 1, 2, 4 or 8 bytes. pb_dec_uvarint succeeds if and only if v is below 256 to the n.
  pb_dec_varint first cuts v to its low 32 bits with their sign unless n is 8 (so that 2 to the 32
  plus 5 is taken as 5), and succeeds if and only if the result lies in the signed range of n bytes.
  Both consume exactly the varint, store the low n bytes of the value whether or not it fits,
  change no other memory, and report "integer too large" when it does not.
\<close>

theorem integers_are_range_checked:
  assumes "buffered s" "unread s = varint_bytes v @ rest" "is_int_size (f_data_size f)"
    "region (dm_mem m) dest (unat (f_data_size f))"
  defines "n \<equiv> unat (f_data_size f)" and "s' \<equiv> advance (length (varint_bytes v)) s"
  defines "w \<equiv> (if f_data_size f = 8 then v else signed_take_bit 31 v)"
  shows "(\<exists>m'. stored m dest (le_bytes n (unat v)) m' \<and>
      pb_dec_uvarint f dest s m =
        (if unat v < 256 ^ n then Some (True, s', m')
         else Some (False, is_set_error ''integer too large'' s', m'))) \<and>
    (\<exists>m'. stored m dest (le_bytes n (unat w)) m' \<and>
      pb_dec_varint f dest s m =
        (if - (256 ^ n) \<le> 2 * sint w \<and> 2 * sint w < 256 ^ n then Some (True, s', m')
         else Some (False, is_set_error ''integer too large'' s', m')))"
proof -
  have pow: "(2 :: nat) ^ (8 * n) = 256 ^ n" by (simp add: power_mult)
  have "0 < n" using assms(3) unfolding n_def by (auto simp: is_int_size_def)
  then have "(256 :: int) ^ n = 2 * 2 ^ (8 * n - 1)"
    by (cases n) (simp_all add: power_mult power_add [symmetric] del: power_Suc, simp add: power_add power_mult)
  then have range: "- (2 ^ (8 * n - 1)) \<le> sint w \<and> sint w < 2 ^ (8 * n - 1) \<longleftrightarrow>
      - (256 ^ n) \<le> 2 * sint w \<and> 2 * sint w < 256 ^ n" by linarith
  show ?thesis
    using pb_dec_uvarint_encoded [where dest = dest and m = m and f = f, OF assms(1-4), folded n_def s'_def]
      pb_dec_varint_encoded [where dest = dest and m = m and f = f, OF assms(1-4),
        folded n_def s'_def, folded w_def]
    unfolding pow range word_bytes_le_bytes by blast
qed

theorem integers_are_range_checked_witness:
  "let s = pb_istream_from_buffer (varint_bytes (2 ^ 32 + 5)) (length (varint_bytes (2 ^ 32 + 5))) :: unit pb_istream;
       s' = advance (length (varint_bytes (2 ^ 32 + 5))) s; m = plain_mem 16 [9, 9, 9, 9]
   in (\<exists>m'. pb_dec_uvarint (optional_uint32 7) 16 s m =
          Some (False, is_set_error ''integer too large'' s', m') \<and> load_bytes (dm_mem m') 16 4 = Some [5, 0, 0, 0]) \<and>
      (\<exists>m'. pb_dec_varint (optional_uint32 7) 16 s m = Some (True, s', m') \<and>
          load_bytes (dm_mem m') 16 4 = Some [5, 0, 0, 0])"
proof -
  let ?s = "pb_istream_from_buffer (varint_bytes (2 ^ 32 + 5)) (length (varint_bytes (2 ^ 32 + 5))) :: unit pb_istream"
  let ?m = "plain_mem 16 [9, 9, 9, 9]" and ?f = "optional_uint32 7"
  have s: "buffered ?s" "unread ?s = varint_bytes (2 ^ 32 + 5) @ []" by simp_all
  have size: "f_data_size ?f = 4" "is_int_size (f_data_size ?f)" "unat (f_data_size ?f) = 4"
    by code_simp+
  have "load_bytes (dm_mem ?m) 16 (unat (f_data_size ?f)) = Some [9, 9, 9, 9]" by code_simp
  then have region: "region (dm_mem ?m) 16 (unat (f_data_size ?f))" using load_bytes_Some_iff by blast
  have w: "signed_take_bit 31 (2 ^ 32 + 5 :: u64) = 5" by code_simp
  have bytes: "le_bytes 4 (unat (2 ^ 32 + 5 :: u64)) = [5, 0, 0, 0]" "le_bytes 4 (unat (5 :: u64)) = [5, 0, 0, 0]"
    "le_bytes 4 5 = [5, 0, 0, 0]" "le_bytes 4 4294967301 = [5, 0, 0, 0]"
    by (simp_all add: le_bytes_expand)
  have big: "\<not> unat (2 ^ 32 + 5 :: u64) < 256 ^ 4" "sint (5 :: u64) = 5" by simp_all
  have load: "load_bytes (dm_mem m') 16 4 = Some [5, 0, 0, 0]" if "stored ?m 16 [5, 0, 0, 0] m'" for m'
    using that by (simp add: stored_def eval_nat_numeral)
  from integers_are_range_checked [OF s size(2) region, unfolded size w bytes big] show ?thesis
    using load big(1) by (auto simp: Let_def bytes(3,4))
qed

text \<open>
  C28. The required-field check is exact: pb_decode_noinit counts the required fields of the
  message (64 at most), and accepts the bits it noted for the fields it saw if and only if it
  saw every one of them.
\<close>

theorem required_fields_are_exact:
  assumes "fields_ok fs" "p < length fs"
    "set is \<subseteq> {..< min 64 (length (filter is_required fs))}"
  shows "required_fields_seen (required_field_count (iter_at fs dest p)) (fold mark_seen is (0, 0)) \<longleftrightarrow>
    set is = {..< min 64 (length (filter is_required fs))}"
proof -
  let ?n = "min 64 (length (filter is_required fs))"
  have sub: "set is \<subseteq> {..<64}" using assms(3) by auto
  have bits: "seen_bit (fold mark_seen is (0, 0)) j \<longleftrightarrow> j \<in> set is" if "j < 64" for j
    using seen_bit_fold [OF sub that] seen_bit_none by blast
  have "required_fields_seen ?n (fold mark_seen is (0, 0)) \<longleftrightarrow>
      (\<forall>i<?n. seen_bit (fold mark_seen is (0, 0)) i)"
    using bits assms(3) by (intro required_fields_seen_iff) auto
  also have "\<dots> \<longleftrightarrow> (\<forall>i<?n. i \<in> set is)" using bits by (metis min_less_iff_conj)
  also have "\<dots> \<longleftrightarrow> set is = {..<?n}" using assms(3) by blast
  finally show ?thesis unfolding required_field_count_at [OF assms(1,2)] .
qed

theorem required_fields_are_exact_witness:
  "\<not> required_fields_seen (required_field_count (iter_at sample_fields 16 1)) (fold mark_seen [] (0, 0))"
proof -
  have 1: "fields_ok sample_fields" "1 < length sample_fields" by code_simp+
  have "length (filter is_required sample_fields) = 1" by code_simp
  then show ?thesis using required_fields_are_exact [OF 1, of "[]" 16] by (auto simp: lessThan_def)
qed

text \<open>
  C8. Whatever the input, decoding into a repeated field with static storage (packed or not, any
  type of entry) changes memory only inside its array and its counter, whether the call succeeds or
  fails. Asked of the descriptor: the entries have room for the scalar type they hold, the array
  is smaller than 2 to the 32 bytes (the index product is computed in 32 bits), the counter is in
  memory; and if the entries are submessages, the decoder that the entry is handed to stays inside
  the entry it is given.
\<close>

theorem static_array_is_not_overrun:
  assumes "PB_HTYPE (f_type (it_field iter)) = PB_HTYPE_REPEATED"
    "PB_ATYPE (f_type (it_field iter)) = PB_ATYPE_STATIC"
    "PB_LTYPE (f_type (it_field iter)) = PB_LTYPE_SUBMESSAGE \<longrightarrow>
       (\<forall>d. writes_in {d ..< d + unat (f_data_size (it_field iter))} (dec True (f_ptr (it_field iter)) d))"
    "PB_LTYPE (f_type (it_field iter)) \<le> PB_LTYPE_LAST_PACKABLE \<longrightarrow>
       scalar_size (it_field iter) \<le> unat (f_data_size (it_field iter))"
    "unat (f_data_size (it_field iter)) * unat (f_array_size (it_field iter)) < 2 ^ 32"
    "it_pSize iter = At sz"
    "decode_static_field n env dec wire_type iter s m = Some (ok, s', m')"
    "dm_mem m' x \<noteq> dm_mem m x"
  shows "(it_pData iter \<le> x \<and>
      x < it_pData iter + unat (f_data_size (it_field iter)) * unat (f_array_size (it_field iter))) \<or>
    (sz \<le> x \<and> x < sz + 4)"
proof -
  have "writes_in ({it_pData iter ..< it_pData iter +
        unat (f_data_size (it_field iter)) * unat (f_array_size (it_field iter))} \<union> {sz ..< sz + 4})
      (decode_static_field n env dec wire_type iter)"
    by (rule static_array_writes_in [where dec = dec, OF assms(1-6)])
  with assms(7,8) show ?thesis unfolding writes_in_def changes_in_def by fastforce
qed

text \<open>
  A static array of two uint32 at address 24 with its counter at 20, one entry used, and four
  bytes of other data on either side; the packed input has two items, one more than there is room for.
\<close>

definition counted_iter :: pb_iter where
  "counted_iter = iter_at sample_fields 16 1"

definition counted_mem :: dmem where
  "counted_mem = plain_mem 16 [7, 7, 7, 7, 1, 0, 0, 0, 9, 0, 0, 0, 0, 0, 0, 0, 7, 7, 7, 7]"

lemma counted_iter_facts:
  "PB_HTYPE (f_type (it_field counted_iter)) = PB_HTYPE_REPEATED"
  "PB_ATYPE (f_type (it_field counted_iter)) = PB_ATYPE_STATIC"
  "PB_LTYPE (f_type (it_field counted_iter)) = 2"
  "scalar_size (it_field counted_iter) \<le> unat (f_data_size (it_field counted_iter))"
  "unat (f_data_size (it_field counted_iter)) * unat (f_array_size (it_field counted_iter)) = 8"
  "it_pSize counted_iter = At 20" "it_pData counted_iter = 24"
  by code_simp+

lemma counted_decode:
  "case decode_static_field 4 (plain_env (\<lambda>_. None)) (\<lambda>_ _ _. md_undefined) 2 counted_iter
      (pb_istream_from_buffer [2, 5, 6] 3) counted_mem of
     None \<Rightarrow> False
   | Some (ok, s', m') \<Rightarrow> \<not> ok \<and> load_bytes (dm_mem m') 16 20 =
       Some [7, 7, 7, 7, 2, 0, 0, 0, 9, 0, 0, 0, 5, 0, 0, 0, 7, 7, 7, 7]"
  by code_simp

theorem static_array_is_not_overrun_witness:
  "\<exists>s' m'. decode_static_field 4 (plain_env (\<lambda>_. None)) (\<lambda>_ _ _. md_undefined) 2 counted_iter
      (pb_istream_from_buffer [2, 5, 6] 3) counted_mem = Some (False, s', m') \<and>
    load_bytes (dm_mem m') 16 20 = Some [7, 7, 7, 7, 2, 0, 0, 0, 9, 0, 0, 0, 5, 0, 0, 0, 7, 7, 7, 7] \<and>
    (\<forall>x. dm_mem m' x \<noteq> dm_mem counted_mem x \<longrightarrow> 20 \<le> x \<and> x < 32)"
proof -
  obtain s' m' where run: "decode_static_field 4 (plain_env (\<lambda>_. None)) (\<lambda>_ _ _. md_undefined) 2 counted_iter
      (pb_istream_from_buffer [2, 5, 6] 3) counted_mem = Some (False, s', m')"
    and after: "load_bytes (dm_mem m') 16 20 = Some [7, 7, 7, 7, 2, 0, 0, 0, 9, 0, 0, 0, 5, 0, 0, 0, 7, 7, 7, 7]"
    using counted_decode by (auto split: option.splits)
  have bound: "unat (f_data_size (it_field counted_iter)) * unat (f_array_size (it_field counted_iter)) < 2 ^ 32"
    unfolding counted_iter_facts(5) by simp
  have "20 \<le> x \<and> x < 32" if x: "dm_mem m' x \<noteq> dm_mem counted_mem x" for x
    using static_array_is_not_overrun [OF counted_iter_facts(1,2) _ _ bound counted_iter_facts(6) run x]
      counted_iter_facts(3,4)
    unfolding counted_iter_facts(5,7) by auto
  with run after show ?thesis by blast
qed

text \<open>
  C29. allocate_field never asks the allocator for a wrapped size: it reports "size too large"
  exactly when the product of the sizes does not fit in 64 bits, and passes the exact product
  on otherwise.
\<close>

theorem allocation_size_does_not_wrap:
  assumes "load_ptr (dm_mem m) pData = Some ptr" "0 < data_size" "0 < array_size"
  shows "allocate_field al pData data_size array_size s m =
    (if 2 ^ 64 \<le> array_size * data_size then Some (False, is_set_error ''size too large'' s, m)
     else (case pb_realloc al ptr (array_size * data_size) m of
             None \<Rightarrow> None
           | Some (p, m1) \<Rightarrow>
               if p = 0 then Some (False, is_set_error ''realloc failed'' s, m1)
               else (case store_ptr pData p m1 of None \<Rightarrow> None | Some m2 \<Rightarrow> Some (True, s, m2))))"
proof -
  have "((2 ^ 32 \<le> data_size \<or> 2 ^ 32 \<le> array_size) \<and> (2 ^ 64 - 1) div array_size < data_size) =
      (2 ^ 64 \<le> array_size * data_size)"
    by (rule allocation_check_iff) (rule assms(3))
  then show ?thesis
    using assms unfolding allocate_field_def md_load_def
    by (auto simp: md_fail_def md_store_def md_return_def split: option.splits)
qed

theorem allocation_size_does_not_wrap_witness:
  "\<exists>s'. allocate_field (de_alloc (plain_env (\<lambda>_. None))) 16 (2 ^ 40) (2 ^ 24)
      (pb_istream_from_buffer [] 0 :: unit pb_istream) (plain_mem 16 [0, 0, 0, 0, 0, 0, 0, 0]) =
    Some (False, s', plain_mem 16 [0, 0, 0, 0, 0, 0, 0, 0])"
proof -
  have "load_ptr (dm_mem (plain_mem 16 [0, 0, 0, 0, 0, 0, 0, 0])) 16 = Some 0" by code_simp
  from allocation_size_does_not_wrap [OF this, of "2 ^ 40" "2 ^ 24" "de_alloc (plain_env (\<lambda>_. None))"
      "pb_istream_from_buffer [] 0 :: unit pb_istream"]
  show ?thesis by simp
qed

text \<open>
  C30. The index arithmetic of array entries does wrap: in the loop that decodes a packed array into
  memory allocated for it, the item with index 2 to the 29 of an array of 8-byte entries is decoded
  into entry 0, although there is room for all of the entries.
\<close>

theorem entry_address_wraps:
  assumes "f_data_size (it_field iter) = 8" "PB_LTYPE (f_type (it_field iter)) \<le> PB_LTYPE_LAST_PACKABLE"
    "is_bytes_left sub \<noteq> 0" "load_size (it_pSize iter) m = Some 0x20000000" "0x20000000 < allocated"
    "load_ptr (dm_mem m) (it_pData iter) = Some base" "base \<noteq> 0"
  shows "pointer_packed_loop (Suc k) n env func iter allocated s sub m =
    (case func base sub m of
       None \<Rightarrow> None
     | Some (ok, sub, m) \<Rightarrow>
         if \<not> ok then Some (False, s, sub, m)
         else (case load_size (it_pSize iter) m of
                 None \<Rightarrow> None
               | Some len \<Rightarrow>
                   (case store_size (it_pSize iter) (len + 1) m of
                      None \<Rightarrow> None
                    | Some m \<Rightarrow> pointer_packed_loop k n env func iter allocated s sub m)))"
proof -
  have "PB_LTYPE (f_type (it_field iter)) \<noteq> PB_LTYPE_STRING" "PB_LTYPE (f_type (it_field iter)) \<noteq> PB_LTYPE_BYTES"
    "PB_LTYPE (f_type (it_field iter)) \<noteq> PB_LTYPE_SUBMESSAGE"
    using assms(2) by auto
  then have init: "initialize_pointer_field n (de_descs env) base iter m = Some m"
    unfolding initialize_pointer_field_def Let_def by simp
  have "entry_addr base (it_field iter) 0x20000000 = base"
    using assms(1) by (simp add: entry_addr_def)
  then show ?thesis
    using assms(3-7) init by (simp add: Let_def md_return_def)
qed

text \<open>A packed int64 array whose counter has reached 2 to the 29, its entries at address 64.\<close>

definition big_array_iter :: pb_iter where
  "big_array_iter = (iter_at [(optional_uint32 7)\<lparr>f_data_size := 8\<rparr>] 16 0)
     \<lparr>it_pSize := At 16, it_pData := 24\<rparr>"

definition big_array_mem :: dmem where
  "big_array_mem = plain_mem 16 [0, 0, 0, 0x20, 0, 0, 0, 0, 64, 0, 0, 0, 0, 0, 0, 0]"

theorem entry_address_wraps_witness:
  "pointer_packed_loop (Suc 0) 1 (plain_env (\<lambda>_. None)) (\<lambda>a s m. Some (a \<noteq> 64, s, m)) big_array_iter 0x20000001
     (pb_istream_from_buffer [5] 1 :: unit pb_istream) (pb_istream_from_buffer [5] 1) big_array_mem =
   Some (False, pb_istream_from_buffer [5] 1, pb_istream_from_buffer [5] 1, big_array_mem)"
proof -
  have 1: "f_data_size (it_field big_array_iter) = 8"
    "PB_LTYPE (f_type (it_field big_array_iter)) \<le> PB_LTYPE_LAST_PACKABLE"
    "load_size (it_pSize big_array_iter) big_array_mem = Some 0x20000000"
    "load_ptr (dm_mem big_array_mem) (it_pData big_array_iter) = Some 64"
    by code_simp+
  show ?thesis
    using entry_address_wraps [OF 1(1,2) _ 1(3) _ 1(4), of "pb_istream_from_buffer [5] 1 :: unit pb_istream"
        "0x20000001" 0 1 "plain_env (\<lambda>_. None)" "\<lambda>a s m. Some (a \<noteq> 64, s, m)"]
    by (simp add: pb_istream_from_buffer_def del: pointer_packed_loop.simps)
qed

lemma field_at_empty: "field_at [] i = PB_LAST_FIELD"
  by (simp add: field_at_def)

lemma pb_decode_tag_zero:
  assumes "buffered s" "unread s = wt # rest" "0 < unat wt" "unat wt < 8"
  shows "pb_decode_tag s =
    Some (\<lparr>tr_ok = True, tr_wire_type = ucast wt AND 7, tr_tag = 0, tr_eof = False\<rparr>, advance 1 s)"
proof -
  have "wt AND 0x80 = 0" using assms(4) by (simp add: and_high_bit_u8)
  moreover have "(ucast wt :: u32) \<noteq> 0" using assms(3,4) by (simp add: word_unat_eq_iff width_simps)
  moreover have "drop_bit 3 (ucast wt :: u32) = 0"
    using assms(4) by (simp add: word_unat_eq_iff width_simps)
  ultimately show ?thesis
    using assms(2) by (simp add: pb_decode_tag_def pb_decode_varint32_eof_def pb_readbyte_buffered [OF assms(1)])
qed

text \<open>The terminator is a descriptor of a required bool at the start of the structure.\<close>

lemma decode_terminator:
  assumes "buffered s" "unread s = varint_bytes v @ rest" "unat v < 2 ^ 32" "region (dm_mem m) dest 1"
  shows "\<exists>m'. stored m dest [if v \<noteq> 0 then 1 else 0] m' \<and>
    decode_known_field env dec wt
      \<lparr>dl_iter = iter_at [] dest 0, dl_seen = (0, 0), dl_extension_start = 0, dl_fixed_count_field = None\<rparr> s m =
    Some (True, \<lparr>dl_iter = iter_at [] dest 0, dl_seen = (1, 0), dl_extension_start = 0,
                 dl_fixed_count_field = None\<rparr>,
          advance (length (varint_bytes v)) s, m')"
proof -
  have nz: "(ucast v :: u32) \<noteq> 0 \<longleftrightarrow> v \<noteq> 0"
    using assms(3) by (auto simp: word_unat_eq_iff width_simps)
  obtain m' where m': "store dest [if v \<noteq> 0 then 1 else 0] m = Some m'"
    "stored m dest [if v \<noteq> 0 then 1 else 0] m'"
    using store_region [of m dest "[if v \<noteq> 0 then 1 else 0]"] assms(4) by auto
  have dec: "pb_decode_varint32 s = Some (Some (ucast v), advance (length (varint_bytes v)) s)"
    using pb_decode_varint32_encoded [OF assms(1,2)] assms(3) by simp
  have bool: "pb_dec_bool PB_LAST_FIELD dest s m = Some (True, advance (length (varint_bytes v)) s, m')"
    using m'(1) nz unfolding pb_dec_bool_def md_read_Some [of pb_decode_varint32, OF dec]
    by (auto simp: store_bool_def md_store_def md_return_def)
  have pData: "it_pData (iter_at [] dest 0) = dest" "it_required_field_index (iter_at [] dest 0) = 0"
    by (simp_all add: pb_field_iter_begin_def field_at_def PB_LAST_FIELD_def Let_def)
  have field: "PB_HTYPE (f_type PB_LAST_FIELD) = 0" "PB_ATYPE (f_type PB_LAST_FIELD) = 0"
    "PB_LTYPE (f_type PB_LAST_FIELD) = 0"
    by (simp_all add: PB_LAST_FIELD_def PB_HTYPE_def PB_ATYPE_def PB_LTYPE_def)
  have "decode_field (de_depth env) env dec wt (iter_at [] dest 0) s m =
      Some (True, iter_at [] dest 0, advance (length (varint_bytes v)) s, m')"
    using bool field pData
    by (simp add: decode_field_def decode_static_field_def PB_DECODERS_def iter_at_empty field_at_empty Let_def
        del: iter_at.simps)
  then show ?thesis
    using m'(2) field pData
    by (auto simp: decode_known_field_def mark_seen_def iter_at_empty field_at_empty Let_def
        simp del: iter_at.simps)
qed

text \<open>
  C31. A message without fields does not reject field number 0: the terminator of its descriptor
  array matches, so that for every such message, every tag byte from 1 to 7 (field number 0 with a
  wire type other than 0; the byte 0 ends a message) and every value below 2 to the 32
  behind it, pb_decode_noinit succeeds and stores the value as a bool in the first byte of the
  structure.
\<close>

theorem empty_message_stores_field_zero:
  assumes "de_descs env flds = Some []" "buffered s" "unread s = wt # varint_bytes v"
    "0 < unat wt" "unat wt < 8" "unat v < 2 ^ 32" "region (dm_mem m) dest 1"
  shows "\<exists>m'. stored m dest [if v \<noteq> 0 then 1 else 0] m' \<and>
    pb_decode_noinit (Suc n) env flds dest s m = Some (True, advance (is_bytes_left s) s, m')"
proof -
  let ?m = "m\<lparr>dm_fixed_count := 0\<rparr>" and ?s = "advance 1 s" and ?s' = "advance (is_bytes_left s) s"
  let ?dec = "\<lambda>init. if init then pb_decode n env else pb_decode_noinit n env"
  let ?l = "\<lambda>seen. \<lparr>dl_iter = iter_at [] dest 0, dl_seen = seen, dl_extension_start = 0,
      dl_fixed_count_field = None\<rparr>"
  have left: "is_bytes_left s = Suc (length (varint_bytes v))"
    using length_unread [OF assms(2)] assms(3) by simp
  then have s1: "buffered ?s" "unread ?s = varint_bytes v @ []"
    using assms(2,3) by simp_all
  have region: "region (dm_mem ?m) dest 1" using assms(7) by simp
  obtain m1 where m1: "stored ?m dest [if v \<noteq> 0 then 1 else 0] m1"
    "decode_known_field env ?dec (ucast wt AND 7) (?l (0, 0)) ?s ?m = Some (True, ?l (1, 0), ?s', m1)"
    using decode_terminator [OF s1 assms(6) region, of env ?dec "ucast wt AND 7"] left by auto
  have find: "pb_field_iter_find (iter_at [] dest 0) 0 = Some (True, iter_at [] dest 0)"
    unfolding pb_field_iter_find_def
    by (simp add: iter_at_empty field_at_empty PB_LAST_FIELD_def PB_LTYPE_def del: iter_at.simps)
  have done0: "is_bytes_left ?s' = 0" using assms(2) by simp
  have rounds: "decode_rounds (Suc (is_bytes_left s)) env ?dec (?l (0, 0)) s ?m = Some (True, ?l (1, 0), ?s', m1)"
    using left pb_decode_tag_zero [OF assms(2,3,4,5)] find m1(2) done0
    by (simp add: Let_def del: iter_at.simps)
  have count: "required_field_count (iter_at [] dest 0) = 0"
    using required_field_count_position [of "[]" 0 dest] by (simp add: entries_ok_def del: iter_at.simps)
  have "stored m dest [if v \<noteq> 0 then 1 else 0] (m1\<lparr>dm_fixed_count := dm_fixed_count m\<rparr>)"
    using m1(1) by (simp add: stored_def)
  moreover have "pb_decode_noinit (Suc n) env flds dest s m =
      Some (True, ?s', m1\<lparr>dm_fixed_count := dm_fixed_count m\<rparr>)"
    using assms(1) rounds count
    by (simp add: pb_decode_noinit.simps Let_def fixed_count_complete_def required_fields_seen_def
        del: decode_rounds.simps)
  ultimately show ?thesis by blast
qed

theorem empty_message_stores_field_zero_witness:
  "\<exists>m'. load_bytes (dm_mem m') 16 1 = Some [1] \<and>
    (let s = pb_istream_from_buffer [0x02, 0x05] 2 in
     pb_decode_noinit 1 (plain_env (\<lambda>_. Some [])) 8 16 s (plain_mem 16 [0]) = Some (True, advance 2 s, m'))"
proof -
  let ?s = "pb_istream_from_buffer [0x02, 0x05] 2 :: unit pb_istream"
  have s: "buffered ?s" "is_bytes_left ?s = 2" by simp (simp add: pb_istream_from_buffer_def)
  have "varint_bytes 5 = [0x05]" by code_simp
  then have u: "unread ?s = 0x02 # varint_bytes 5" by simp
  have "load_bytes (dm_mem (plain_mem 16 [0])) 16 1 = Some [0]" by code_simp
  then have region: "region (dm_mem (plain_mem 16 [0])) 16 1" using load_bytes_Some_iff by blast
  have env: "de_descs (plain_env (\<lambda>_. Some [])) 8 = Some []" by (simp add: plain_env_def)
  from empty_message_stores_field_zero [OF env s(1) u _ _ _ region, of 0] show ?thesis
    unfolding s(2) by (auto simp: stored_def Let_def)
qed

end
