(* ===== verification/Cbs.thy ===== *)
theory Cbs
  imports Codec_Prelude
begin

text \<open>
  The CBS type of BoringSSL (crypto/bytestring/cbs.c): a window on bytes owned by somebody else,
  from which parsers take bytes off the front. A parser returns what it stored through its output
  parameters, or \<open>None\<close> for the return value 0, together with the CBS it leaves behind; what a
  failing call may have stored in an output parameter is not part of the model. The functions that
  copy data out take the allocator's answer as a parameter.
\<close>

subsection \<open>The window and the parsers on it\<close>

text \<open>
  \<open>c_data\<close> are the bytes from the data pointer to the end of the buffer it points into, \<open>c_len\<close>
  how many of them belong to the window.
\<close>

record CBS =
  c_data :: bytes
  c_len :: nat

type_synonym 'a parser = "CBS \<Rightarrow> 'a option \<times> CBS"

text \<open>\<open>if (!f(cbs, &x)) return 0;\<close> and then \<open>g x\<close>; and the two ways to return.\<close>

definition p_bind :: "'a parser \<Rightarrow> ('a \<Rightarrow> 'b parser) \<Rightarrow> 'b parser" where
  "p_bind f g c = (case f c of (None, c) \<Rightarrow> (None, c) | (Some x, c) \<Rightarrow> g x c)"

definition p_return :: "'a \<Rightarrow> 'a parser" where
  "p_return x c = (Some x, c)"

definition p_fail :: "'a parser" where
  "p_fail c = (None, c)"

definition CBS_init :: "bytes \<Rightarrow> nat \<Rightarrow> CBS" where
  "CBS_init data len = \<lparr>c_data = data, c_len = len\<rparr>"

definition cbs_get :: "nat \<Rightarrow> bytes parser" where
  "cbs_get n cbs =
     (if c_len cbs < n then (None, cbs)
      else (Some (c_data cbs), cbs\<lparr>c_data := drop n (c_data cbs), c_len := c_len cbs - n\<rparr>))"

definition CBS_skip :: "nat \<Rightarrow> unit parser" where
  "CBS_skip len = p_bind (cbs_get len) (\<lambda>dummy. p_return ())"

definition CBS_data :: "CBS \<Rightarrow> bytes" where
  "CBS_data cbs = c_data cbs"

definition CBS_len :: "CBS \<Rightarrow> nat" where
  "CBS_len cbs = c_len cbs"

subsection \<open>Copies and comparisons\<close>

text \<open>
  \<open>alloc n\<close> tells whether the allocator serves a request for n bytes. The result of CBS_stow is
  the new buffer (\<open>[]\<close> for the NULL pointer of an empty CBS).
\<close>

definition OPENSSL_memdup :: "(nat \<Rightarrow> bool) \<Rightarrow> bytes \<Rightarrow> nat \<Rightarrow> bytes option" where
  "OPENSSL_memdup alloc data n =
     (if n = 0 then None else if \<not> alloc n then None else Some (take n data))"

definition CBS_stow :: "(nat \<Rightarrow> bool) \<Rightarrow> CBS \<Rightarrow> bytes option" where
  "CBS_stow alloc cbs =
     (if c_len cbs = 0 then Some [] else OPENSSL_memdup alloc (c_data cbs) (c_len cbs))"

fun OPENSSL_strnlen :: "bytes \<Rightarrow> nat \<Rightarrow> nat" where
  "OPENSSL_strnlen s 0 = 0"
| "OPENSSL_strnlen [] (Suc n) = 0"
| "OPENSSL_strnlen (b # s) (Suc n) = (if b = 0 then 0 else Suc (OPENSSL_strnlen s n))"

definition OPENSSL_strndup :: "(nat \<Rightarrow> bool) \<Rightarrow> bytes \<Rightarrow> nat \<Rightarrow> bytes option" where
  "OPENSSL_strndup alloc str n =
     (let n = OPENSSL_strnlen str n; alloc_size = size_add n 1 in
      if alloc_size < n then None
      else if \<not> alloc alloc_size then None
      else Some (take n str @ [0]))"

definition CBS_strdup :: "(nat \<Rightarrow> bool) \<Rightarrow> CBS \<Rightarrow> bytes option" where
  "CBS_strdup alloc cbs = OPENSSL_strndup alloc (c_data cbs) (c_len cbs)"

fun OPENSSL_memchr :: "bytes \<Rightarrow> u8 \<Rightarrow> nat \<Rightarrow> nat option" where
  "OPENSSL_memchr s c 0 = None"
| "OPENSSL_memchr [] c (Suc n) = None"
| "OPENSSL_memchr (b # s) c (Suc n) =
     (if b = c then Some 0 else map_option Suc (OPENSSL_memchr s c n))"

definition CBS_contains_zero_byte :: "CBS \<Rightarrow> bool" where
  "CBS_contains_zero_byte cbs = (OPENSSL_memchr (c_data cbs) 0 (c_len cbs) \<noteq> None)"

fun memcmp_loop :: "u8 \<Rightarrow> bytes \<Rightarrow> bytes \<Rightarrow> nat \<Rightarrow> u8" where
  "memcmp_loop x a b 0 = x"
| "memcmp_loop x a b (Suc n) = memcmp_loop (x OR (hd a XOR hd b)) (tl a) (tl b) n"

definition CRYPTO_memcmp :: "bytes \<Rightarrow> bytes \<Rightarrow> nat \<Rightarrow> u8" where
  "CRYPTO_memcmp a b len = memcmp_loop 0 a b len"

definition CBS_mem_equal :: "CBS \<Rightarrow> bytes \<Rightarrow> nat \<Rightarrow> bool" where
  "CBS_mem_equal cbs data len =
     (if len \<noteq> c_len cbs then False else CRYPTO_memcmp (c_data cbs) data len = 0)"

subsection \<open>Integers\<close>

fun get_u_loop :: "u64 \<Rightarrow> bytes \<Rightarrow> nat \<Rightarrow> u64" where
  "get_u_loop result data 0 = result"
| "get_u_loop result data (Suc n) = get_u_loop (push_bit 8 result OR ucast (hd data)) (tl data) n"

definition cbs_get_u :: "nat \<Rightarrow> u64 parser" where
  "cbs_get_u len = p_bind (cbs_get len) (\<lambda>data. p_return (get_u_loop 0 data len))"

definition CBS_get_u8 :: "u8 parser" where
  "CBS_get_u8 = p_bind (cbs_get 1) (\<lambda>v. p_return (hd v))"

definition CBS_get_u16 :: "u16 parser" where
  "CBS_get_u16 = p_bind (cbs_get_u 2) (\<lambda>v. p_return (ucast v))"

definition CRYPTO_bswap2 :: "u16 \<Rightarrow> u16" where
  "CRYPTO_bswap2 x = (drop_bit 8 x OR push_bit 8 x)"

definition CBS_get_u16le :: "u16 parser" where
  "CBS_get_u16le = p_bind CBS_get_u16 (\<lambda>out. p_return (CRYPTO_bswap2 out))"

definition CBS_get_u24 :: "u32 parser" where
  "CBS_get_u24 = p_bind (cbs_get_u 3) (\<lambda>v. p_return (ucast v))"

definition CBS_get_u32 :: "u32 parser" where
  "CBS_get_u32 = p_bind (cbs_get_u 4) (\<lambda>v. p_return (ucast v))"

definition CRYPTO_bswap4 :: "u32 \<Rightarrow> u32" where
  "CRYPTO_bswap4 x =
     (let x = drop_bit 16 x OR push_bit 16 x in
      drop_bit 8 (x AND 0xff00ff00) OR push_bit 8 (x AND 0x00ff00ff))"

definition CBS_get_u32le :: "u32 parser" where
  "CBS_get_u32le = p_bind CBS_get_u32 (\<lambda>out. p_return (CRYPTO_bswap4 out))"

definition CBS_get_u64 :: "u64 parser" where
  "CBS_get_u64 = cbs_get_u 8"

definition CRYPTO_bswap8 :: "u64 \<Rightarrow> u64" where
  "CRYPTO_bswap8 x =
     (ucast (CRYPTO_bswap4 (ucast (drop_bit 32 x))) OR push_bit 32 (ucast (CRYPTO_bswap4 (ucast x))))"

definition CBS_get_u64le :: "u64 parser" where
  "CBS_get_u64le = p_bind (cbs_get_u 8) (\<lambda>out. p_return (CRYPTO_bswap8 out))"

definition CBS_get_last_u8 :: "u8 parser" where
  "CBS_get_last_u8 cbs =
     (if c_len cbs = 0 then (None, cbs)
      else (Some (c_data cbs ! (c_len cbs - 1)), cbs\<lparr>c_len := c_len cbs - 1\<rparr>))"

subsection \<open>Byte strings\<close>

definition CBS_get_bytes :: "nat \<Rightarrow> CBS parser" where
  "CBS_get_bytes len = p_bind (cbs_get len) (\<lambda>v. p_return (CBS_init v len))"

definition CBS_copy_bytes :: "nat \<Rightarrow> bytes parser" where
  "CBS_copy_bytes len = p_bind (cbs_get len) (\<lambda>v. p_return (take len v))"

definition cbs_get_length_prefixed :: "nat \<Rightarrow> CBS parser" where
  "cbs_get_length_prefixed len_len = p_bind (cbs_get_u len_len) (\<lambda>len. CBS_get_bytes (unat len))"

definition CBS_get_u8_length_prefixed :: "CBS parser" where
  "CBS_get_u8_length_prefixed = cbs_get_length_prefixed 1"

definition CBS_get_u16_length_prefixed :: "CBS parser" where
  "CBS_get_u16_length_prefixed = cbs_get_length_prefixed 2"

definition CBS_get_u24_length_prefixed :: "CBS parser" where
  "CBS_get_u24_length_prefixed = cbs_get_length_prefixed 3"

definition CBS_get_until_first :: "u8 \<Rightarrow> CBS parser" where
  "CBS_get_until_first c cbs =
     (case OPENSSL_memchr (CBS_data cbs) c (CBS_len cbs) of
        None \<Rightarrow> (None, cbs)
      | Some split \<Rightarrow> CBS_get_bytes split cbs)"

subsection \<open>What a window shows, and parsers as functions of it\<close>

text \<open>
  A window is well formed when it lies inside its buffer, which like any C object has less than
  2 to the 63 bytes. The parsers see nothing but \<open>view\<close>: \<open>reads_as\<close> says that one behaves as a
  function on the bytes of the window, on every well-formed window and in case of failure too,
  and that what it leaves of the window is well formed.
\<close>

definition view :: "CBS \<Rightarrow> bytes" where
  "view cbs = take (c_len cbs) (c_data cbs)"

definition wf_cbs :: "CBS \<Rightarrow> bool" where
  "wf_cbs cbs \<longleftrightarrow> c_len cbs \<le> length (c_data cbs) \<and> c_len cbs < 2 ^ 63"

definition reads_as :: "('a \<Rightarrow> 'b \<Rightarrow> bool) \<Rightarrow> 'a parser \<Rightarrow> (bytes \<Rightarrow> ('b \<times> bytes) option) \<Rightarrow> bool" where
  "reads_as R p q \<longleftrightarrow>
     (\<forall>c. wf_cbs c \<longrightarrow>
        (case p c of (r, c') \<Rightarrow>
           wf_cbs c' \<and> c_len c' \<le> c_len c \<and>
           (case q (view c) of
              None \<Rightarrow> r = None
            | Some (y, rest) \<Rightarrow> (\<exists>x. r = Some x \<and> R x y) \<and> view c' = rest)))"

definition shows_bytes :: "CBS \<Rightarrow> bytes \<Rightarrow> bool" where
  "shows_bytes c bs \<longleftrightarrow> wf_cbs c \<and> view c = bs"

named_theorems reads \<open>what the parsers read, as functions of the window's bytes\<close>

lemma length_view [simp]: "wf_cbs c \<Longrightarrow> length (view c) = c_len c"
  by (simp add: view_def wf_cbs_def)

lemma CBS_len_zero: "wf_cbs c \<Longrightarrow> CBS_len c = 0 \<longleftrightarrow> view c = []"
  unfolding CBS_len_def by (metis length_view length_0_conv)

lemma view_CBS_init [simp]: "view (CBS_init data n) = take n data"
  by (simp add: view_def CBS_init_def)

lemma wf_CBS_init [simp]: "wf_cbs (CBS_init data n) \<longleftrightarrow> n \<le> length data \<and> n < 2 ^ 63"
  by (simp add: wf_cbs_def CBS_init_def)

lemma reads_asD:
  assumes "reads_as R p q" "wf_cbs c" "p c = (r, c')"
  shows "wf_cbs c'" "c_len c' \<le> c_len c"
    "q (view c) = None \<Longrightarrow> r = None"
    "q (view c) = Some (y, rest) \<Longrightarrow> (\<exists>x. r = Some x \<and> R x y) \<and> view c' = rest"
  using assms unfolding reads_as_def by auto

lemma reads_as_Some_iff:
  assumes "reads_as (=) p q" "wf_cbs c"
  shows "(\<exists>c'. p c = (Some x, c') \<and> view c' = rest) \<longleftrightarrow> q (view c) = Some (x, rest)"
proof -
  obtain r c' where p: "p c = (r, c')" by (cases "p c")
  show ?thesis
    using reads_asD [OF assms p] by (cases "q (view c)") (auto simp: p)
qed

text \<open>The functions of byte lists that the parsers compute, composed like the parsers.\<close>

definition b_bind :: "(bytes \<Rightarrow> ('a \<times> bytes) option) \<Rightarrow> ('a \<Rightarrow> bytes \<Rightarrow> ('b \<times> bytes) option) \<Rightarrow>
  bytes \<Rightarrow> ('b \<times> bytes) option" where
  "b_bind f g bs = (case f bs of None \<Rightarrow> None | Some (x, bs) \<Rightarrow> g x bs)"

definition b_take :: "nat \<Rightarrow> bytes \<Rightarrow> (bytes \<times> bytes) option" where
  "b_take n bs = (if length bs < n then None else Some (take n bs, drop n bs))"

definition b_be :: "nat \<Rightarrow> bytes \<Rightarrow> (nat \<times> bytes) option" where
  "b_be n bs = (if length bs < n then None else Some (be_nat (take n bs), drop n bs))"

definition b_le :: "nat \<Rightarrow> bytes \<Rightarrow> (nat \<times> bytes) option" where
  "b_le n bs = (if length bs < n then None else Some (le_nat (take n bs), drop n bs))"

lemma reads_as_bind:
  assumes "reads_as R p q" "\<And>x y. R x y \<Longrightarrow> reads_as S (f x) (g y)"
  shows "reads_as S (p_bind p f) (b_bind q g)"
  unfolding reads_as_def
proof (intro allI impI)
  fix c assume wf: "wf_cbs c"
  obtain r c' where p: "p c = (r, c')" by (cases "p c")
  note 1 = reads_asD [OF assms(1) wf p]
  show "case p_bind p f c of (r, c') \<Rightarrow> wf_cbs c' \<and> c_len c' \<le> c_len c \<and>
      (case b_bind q g (view c) of None \<Rightarrow> r = None
       | Some (y, rest) \<Rightarrow> (\<exists>x. r = Some x \<and> S x y) \<and> view c' = rest)"
  proof (cases "q (view c)")
    case None
    then show ?thesis using 1 by (simp add: p_bind_def b_bind_def p)
  next
    case (Some yr)
    obtain y rest where yr: "yr = (y, rest)" by (cases yr)
    with 1(4) Some obtain x where x: "r = Some x" "R x y" "view c' = rest" by blast
    obtain r2 c2 where f: "f x c' = (r2, c2)" by (cases "f x c'")
    note 2 = reads_asD [OF assms(2) [OF x(2)] 1(1) f]
    show ?thesis
      using 1(2) 2 x by (auto simp: p_bind_def b_bind_def p Some yr f split: option.splits)
  qed
qed

lemma reads_as_return: "R x y \<Longrightarrow> reads_as R (p_return x) (\<lambda>bs. Some (y, bs))"
  by (simp add: reads_as_def p_return_def)

lemma reads_as_fail: "reads_as R p_fail (\<lambda>bs. None)"
  by (simp add: reads_as_def p_fail_def)

lemma reads_as_strengthen:
  assumes "reads_as R p q" "\<And>bs x y rest. q bs = Some (y, rest) \<Longrightarrow> R x y \<Longrightarrow> S x y"
  shows "reads_as S p q"
  unfolding reads_as_def
proof (intro allI impI)
  fix c assume wf: "wf_cbs c"
  obtain r c' where p: "p c = (r, c')" by (cases "p c")
  show "case p c of (r, c') \<Rightarrow> wf_cbs c' \<and> c_len c' \<le> c_len c \<and>
      (case q (view c) of None \<Rightarrow> r = None
       | Some (y, rest) \<Rightarrow> (\<exists>x. r = Some x \<and> S x y) \<and> view c' = rest)"
    using reads_asD [OF assms(1) wf p] assms(2) by (auto simp: p split: option.splits)
qed

lemma reads_as_mono: "reads_as R p q \<Longrightarrow> (\<And>x y. R x y \<Longrightarrow> S x y) \<Longrightarrow> reads_as S p q"
  unfolding reads_as_def by (fastforce split: option.splits)

lemma reads_as_cong: "reads_as R p q \<Longrightarrow> (\<And>bs. q bs = q' bs) \<Longrightarrow> reads_as R p q'"
  by (simp add: reads_as_def)

text \<open>A parser that returns a value computed from the one another parser returns.\<close>

lemma reads_as_map:
  assumes "reads_as R p q" "\<And>x y. R x y \<Longrightarrow> S (f x) (g y)"
  shows "reads_as S (p_bind p (\<lambda>x. p_return (f x))) (\<lambda>bs. map_option (apfst g) (q bs))"
proof -
  have "reads_as S (p_bind p (\<lambda>x. p_return (f x))) (b_bind q (\<lambda>y bs. Some (g y, bs)))"
    by (intro reads_as_bind [OF assms(1)] reads_as_return assms(2))
  then show ?thesis
    by (rule reads_as_cong) (auto simp: b_bind_def split: option.splits)
qed

lemma reads_as_map_id:
  assumes "reads_as R p q" "\<And>x y. R x y \<Longrightarrow> S (f x) y"
  shows "reads_as S (p_bind p (\<lambda>x. p_return (f x))) q"
proof -
  have "reads_as S (p_bind p (\<lambda>x. p_return (f x))) (\<lambda>bs. map_option (apfst id) (q bs))"
    by (rule reads_as_map [OF assms(1)]) (simp add: assms(2))
  then show ?thesis
    by (rule reads_as_cong) (simp add: apfst_def map_prod.id option.map_id)
qed

lemma cbs_get_reads:
  "reads_as (\<lambda>v bs. take n v = bs \<and> n \<le> length v \<and> n < 2 ^ 63) (cbs_get n) (b_take n)"
  by (auto simp: reads_as_def cbs_get_def b_take_def wf_cbs_def view_def take_drop min_def)

lemma CBS_skip_reads [reads]: "reads_as (\<lambda>_ _. True) (CBS_skip n) (b_take n)"
  unfolding CBS_skip_def by (rule reads_as_map_id [OF cbs_get_reads]) simp

lemma CBS_get_bytes_reads [reads]: "reads_as shows_bytes (CBS_get_bytes n) (b_take n)"
  unfolding CBS_get_bytes_def by (rule reads_as_map_id [OF cbs_get_reads]) (auto simp: shows_bytes_def)

lemma CBS_copy_bytes_reads [reads]: "reads_as (=) (CBS_copy_bytes n) (b_take n)"
  unfolding CBS_copy_bytes_def by (rule reads_as_map_id [OF cbs_get_reads]) auto

text \<open>A parser run on a buffer of its own, as a function of byte lists.\<close>

definition run_cbs :: "('a \<Rightarrow> 'b) \<Rightarrow> 'a parser \<Rightarrow> bytes \<Rightarrow> ('b \<times> bytes) option" where
  "run_cbs f p bs =
     (case p (CBS_init bs (length bs)) of (None, c) \<Rightarrow> None | (Some x, c) \<Rightarrow> Some (f x, view c))"

definition cbs_room :: "bytes \<Rightarrow> bool" where
  "cbs_room bs \<longleftrightarrow> length bs < 2 ^ 63"

lemma run_cbs_eq:
  assumes "reads_as (\<lambda>x y. f x = y) p q" "cbs_room bs"
  shows "run_cbs f p bs = q bs"
proof -
  obtain r c' where p: "p (CBS_init bs (length bs)) = (r, c')" by (cases "p (CBS_init bs (length bs))")
  have "wf_cbs (CBS_init bs (length bs))" using assms(2) by (simp add: cbs_room_def)
  from reads_asD [OF assms(1) this p] show ?thesis
    by (cases "q bs") (auto simp: run_cbs_def p)
qed

subsection \<open>Integers read are the big-endian or little-endian value of their bytes\<close>

lemma be_nat_snoc: "be_nat (bs @ [b]) = 256 * be_nat bs + unat b"
  by (simp add: be_nat_append)

lemma of_nat_be_nat_snoc:
  "(of_nat (be_nat (bs @ [b])) :: 'a::len word) = push_bit 8 (of_nat (be_nat bs)) OR ucast b"
proof -
  have "unat b < 2 ^ 8" by simp
  from of_nat_or_push_bit [OF this, of "be_nat bs"]
  show ?thesis by (simp add: be_nat_snoc add.commute or.commute)
qed

lemma get_u_loop_value:
  "n \<le> length data \<Longrightarrow>
   get_u_loop (of_nat (be_nat bs)) data n = of_nat (be_nat (bs @ take n data))"
proof (induction n arbitrary: bs data)
  case (Suc n)
  then obtain b data' where data: "data = b # data'" by (cases data) auto
  have "get_u_loop (of_nat (be_nat bs)) data (Suc n) = get_u_loop (of_nat (be_nat (bs @ [b]))) data' n"
    by (simp only: data get_u_loop.simps list.sel of_nat_be_nat_snoc)
  also have "\<dots> = of_nat (be_nat ((bs @ [b]) @ take n data'))"
    using Suc.prems data by (intro Suc.IH) simp
  finally show ?case by (simp add: data)
qed simp

lemma cbs_get_u_reads [reads]: "reads_as (\<lambda>w v. w = of_nat v) (cbs_get_u n) (b_be n)"
proof -
  have "reads_as (\<lambda>w v. w = of_nat v) (cbs_get_u n) (\<lambda>bs. map_option (apfst be_nat) (b_take n bs))"
    unfolding cbs_get_u_def
  proof (rule reads_as_map [OF cbs_get_reads])
    fix v bs :: bytes assume "take n v = bs \<and> n \<le> length v \<and> n < 2 ^ 63"
    then show "get_u_loop 0 v n = of_nat (be_nat bs)"
      using get_u_loop_value [of n v "[]"] by simp
  qed
  then show ?thesis by (rule reads_as_cong) (simp add: b_take_def b_be_def)
qed

lemma CBS_get_u8_reads [reads]: "reads_as (\<lambda>w v. w = of_nat v) CBS_get_u8 (b_be 1)"
proof -
  have "reads_as (\<lambda>w v. w = of_nat v) CBS_get_u8 (\<lambda>bs. map_option (apfst be_nat) (b_take 1 bs))"
    unfolding CBS_get_u8_def
  proof (rule reads_as_map [OF cbs_get_reads])
    fix v bs :: bytes assume "take 1 v = bs \<and> 1 \<le> length v \<and> (1 :: nat) < 2 ^ 63"
    then show "hd v = of_nat (be_nat bs)" by (cases v) auto
  qed
  then show ?thesis by (rule reads_as_cong) (simp add: b_take_def b_be_def)
qed

lemma CBS_get_u16_reads [reads]: "reads_as (\<lambda>w v. w = of_nat v) CBS_get_u16 (b_be 2)"
  unfolding CBS_get_u16_def by (rule reads_as_map_id [OF cbs_get_u_reads]) (simp add: ucast_of_nat_down)

lemma CBS_get_u24_reads [reads]: "reads_as (\<lambda>w v. w = of_nat v) CBS_get_u24 (b_be 3)"
  unfolding CBS_get_u24_def by (rule reads_as_map_id [OF cbs_get_u_reads]) (simp add: ucast_of_nat_down)

lemma CBS_get_u32_reads [reads]: "reads_as (\<lambda>w v. w = of_nat v) CBS_get_u32 (b_be 4)"
  unfolding CBS_get_u32_def by (rule reads_as_map_id [OF cbs_get_u_reads]) (simp add: ucast_of_nat_down)

lemma CBS_get_u64_reads [reads]: "reads_as (\<lambda>w v. w = of_nat v) CBS_get_u64 (b_be 8)"
  unfolding CBS_get_u64_def by (rule cbs_get_u_reads)

text \<open>Swapping the bytes of a big-endian value gives the little-endian one.\<close>

lemma not_bit_u8 [simp]: "8 \<le> n \<Longrightarrow> \<not> bit (b :: u8) n"
  using bit_imp_le_length [of b n] by auto

lemma of_nat_be_nat_foldl:
  "(of_nat (be_nat bs) :: 'a::len word) = foldl (\<lambda>r b. push_bit 8 r OR ucast b) 0 bs"
proof (induction bs rule: rev_induct)
  case (snoc b bs)
  then show ?case by (simp only: of_nat_be_nat_snoc foldl_append foldl.simps)
qed simp

lemma CRYPTO_bswap2_be: "CRYPTO_bswap2 (of_nat (be_nat [a, b])) = of_nat (le_nat [a, b])"
proof -
  have be: "(of_nat (be_nat [a, b]) :: u16) = push_bit 8 (ucast a) OR ucast b"
    by (simp only: of_nat_be_nat_foldl) simp
  have le: "(of_nat (le_nat [a, b]) :: u16) = ucast a OR push_bit 8 (ucast b)"
    by (simp only: of_nat_le_nat_Cons le_nat.simps(1)) simp
  show ?thesis unfolding be le CRYPTO_bswap2_def
    by (rule bit_word_eqI) (auto simp: bit_simps)
qed

lemma CRYPTO_bswap4_be:
  "CRYPTO_bswap4 (of_nat (be_nat [a, b, c, d])) = of_nat (le_nat [a, b, c, d])"
proof -
  have be: "(of_nat (be_nat [a, b, c, d]) :: u32) =
      push_bit 8 (push_bit 8 (push_bit 8 (ucast a) OR ucast b) OR ucast c) OR ucast d"
    by (simp only: of_nat_be_nat_foldl) simp
  have le: "(of_nat (le_nat [a, b, c, d]) :: u32) =
      ucast a OR push_bit 8 (ucast b OR push_bit 8 (ucast c OR push_bit 8 (ucast d)))"
    by (simp only: of_nat_le_nat_Cons le_nat.simps(1)) simp
  have hi: "(0xff00ff00 :: u32) = push_bit 24 (mask 8) OR push_bit 8 (mask 8)" by code_simp
  have lo: "(0x00ff00ff :: u32) = push_bit 16 (mask 8) OR mask 8" by code_simp
  show ?thesis
  proof (rule bit_word_eqI)
    fix n assume "n < LENGTH(32)"
    then have "n < 32" by simp
    then have "n = n mod 8 \<or> n = n mod 8 + 8 \<or> n = n mod 8 + 16 \<or> n = n mod 8 + 24" by presburger
    then obtain k where "k < 8" "n = k \<or> n = k + 8 \<or> n = k + 16 \<or> n = k + 24"
      by (metis mod_less_divisor zero_less_numeral)
    then show "bit (CRYPTO_bswap4 (of_nat (be_nat [a, b, c, d]))) n \<longleftrightarrow>
        bit (of_nat (le_nat [a, b, c, d]) :: u32) n"
      unfolding be le CRYPTO_bswap4_def Let_def hi lo
      by (elim disjE) (simp_all add: bit_simps)
  qed
qed

lemma CRYPTO_bswap8_be:
  "CRYPTO_bswap8 (of_nat (be_nat [a, b, c, d, e, f, g, h])) = of_nat (le_nat [a, b, c, d, e, f, g, h])"
proof -
  let ?hi = "be_nat [a, b, c, d]" and ?lo = "be_nat [e, f, g, h]"
  let ?w = "of_nat (be_nat [a, b, c, d, e, f, g, h]) :: u64"
  have split: "be_nat [a, b, c, d, e, f, g, h] = ?lo + 2 ^ 32 * ?hi"
    using be_nat_append [of "[a, b, c, d]" "[e, f, g, h]"] by simp
  have lo: "?lo < 2 ^ 32" using be_nat_lt [of "[e, f, g, h]"] by simp
  have hi: "?hi < 2 ^ 32" using be_nat_lt [of "[a, b, c, d]"] by simp
  have w: "unat ?w = ?lo + 2 ^ 32 * ?hi"
    using lo hi unfolding split by (simp add: unat_of_nat del: be_nat.simps of_nat_add of_nat_mult)
  have "(ucast (drop_bit 32 ?w) :: u32) = of_nat ?hi"
    using w lo by (intro word_unat_eq_iff [THEN iffD2])
      (simp add: width_simps unat_of_nat del: be_nat.simps)
  moreover have "(ucast ?w :: u32) = of_nat ?lo"
    using w lo hi by (intro word_unat_eq_iff [THEN iffD2])
      (simp add: width_simps unat_of_nat del: be_nat.simps of_nat_add of_nat_mult)
  ultimately have swap: "CRYPTO_bswap8 ?w =
      ucast (of_nat (le_nat [a, b, c, d]) :: u32) OR push_bit 32 (ucast (of_nat (le_nat [e, f, g, h]) :: u32))"
    unfolding CRYPTO_bswap8_def by (simp only: CRYPTO_bswap4_be)
  have widen: "(ucast (of_nat (le_nat [p, q, r, s]) :: u32) :: u64) = of_nat (le_nat [p, q, r, s])" for p q r s
    using le_nat_lt [of "[p, q, r, s]"]
    by (intro word_unat_eq_iff [THEN iffD2]) (simp add: width_simps unat_of_nat del: le_nat.simps)
  have low: "le_nat [a, b, c, d] < 2 ^ 32" using le_nat_lt [of "[a, b, c, d]"] by simp
  have "le_nat [a, b, c, d, e, f, g, h] = le_nat [a, b, c, d] + 2 ^ 32 * le_nat [e, f, g, h]"
    using le_nat_append [of "[a, b, c, d]" "[e, f, g, h]"] by simp
  then show ?thesis
    unfolding swap widen by (simp only: of_nat_or_push_bit [OF low])
qed

text \<open>The little-endian readers.\<close>

lemma reads_as_swapped:
  assumes "reads_as (\<lambda>w v. w = of_nat v) p (b_be n)"
    "\<And>bs. length bs = n \<Longrightarrow> f (of_nat (be_nat bs)) = of_nat (le_nat bs)"
  shows "reads_as (\<lambda>w v. w = of_nat v) (p_bind p (\<lambda>x. p_return (f x))) (b_le n)"
proof -
  have "reads_as (\<lambda>w bs. w = of_nat (be_nat bs) \<and> length bs = n) p (b_take n)"
    using assms(1) by (auto simp: reads_as_def b_be_def b_take_def split: if_splits)
  then have "reads_as (\<lambda>w v. w = of_nat v) (p_bind p (\<lambda>x. p_return (f x)))
      (\<lambda>bs. map_option (apfst le_nat) (b_take n bs))"
    by (rule reads_as_map) (auto simp: assms(2))
  then show ?thesis
    by (rule reads_as_cong) (simp add: b_take_def b_le_def)
qed

lemma length_explicit:
  "length bs = 2 \<Longrightarrow> \<exists>a b. bs = [a, b]"
  "length bs = 4 \<Longrightarrow> \<exists>a b c d. bs = [a, b, c, d]"
  "length bs = 8 \<Longrightarrow> \<exists>a b c d e f g h. bs = [a, b, c, d, e, f, g, h]"
  by (simp_all add: numeral_2_eq_2 eval_nat_numeral length_Suc_conv) blast+

lemma CBS_get_u16le_reads [reads]: "reads_as (\<lambda>w v. w = of_nat v) CBS_get_u16le (b_le 2)"
  unfolding CBS_get_u16le_def
  by (rule reads_as_swapped [OF CBS_get_u16_reads]) (use length_explicit(1) CRYPTO_bswap2_be in blast)

lemma CBS_get_u32le_reads [reads]: "reads_as (\<lambda>w v. w = of_nat v) CBS_get_u32le (b_le 4)"
  unfolding CBS_get_u32le_def
  by (rule reads_as_swapped [OF CBS_get_u32_reads]) (use length_explicit(2) CRYPTO_bswap4_be in blast)

lemma CBS_get_u64le_reads [reads]: "reads_as (\<lambda>w v. w = of_nat v) CBS_get_u64le (b_le 8)"
  unfolding CBS_get_u64le_def
  by (rule reads_as_swapped [OF cbs_get_u_reads]) (use length_explicit(3) CRYPTO_bswap8_be in blast)

lemma CBS_get_last_u8_reads [reads]:
  "reads_as (=) CBS_get_last_u8 (\<lambda>bs. if bs = [] then None else Some (last bs, butlast bs))"
  unfolding reads_as_def
proof (intro allI impI)
  fix c assume wf: "wf_cbs c"
  show "case CBS_get_last_u8 c of (r, c') \<Rightarrow> wf_cbs c' \<and> c_len c' \<le> c_len c \<and>
      (case if view c = [] then None else Some (last (view c), butlast (view c)) of
         None \<Rightarrow> r = None
       | Some (y, rest) \<Rightarrow> (\<exists>x. r = Some x \<and> x = y) \<and> view c' = rest)"
  proof (cases "c_len c = 0")
    case True
    then show ?thesis using wf by (simp add: CBS_get_last_u8_def view_def)
  next
    case False
    with wf have "c_len c - 1 < length (c_data c)" "view c \<noteq> []"
      by (auto simp: wf_cbs_def view_def)
    then show ?thesis
      using False wf by (auto simp: CBS_get_last_u8_def wf_cbs_def view_def last_conv_nth butlast_take min_def)
  qed
qed

text \<open>Length-prefixed strings.\<close>

definition b_prefixed :: "nat \<Rightarrow> bytes \<Rightarrow> (bytes \<times> bytes) option" where
  "b_prefixed k = b_bind (b_be k) b_take"

lemma be_nat_take_lt: "be_nat (take n bs) < 256 ^ n"
proof -
  have "be_nat (take n bs) < 256 ^ length (take n bs)" by (rule be_nat_lt)
  also have "\<dots> \<le> 256 ^ n" by (intro power_increasing) auto
  finally show ?thesis .
qed

lemma cbs_get_length_prefixed_reads [reads]:
  assumes "k \<le> 8"
  shows "reads_as shows_bytes (cbs_get_length_prefixed k) (b_prefixed k)"
proof -
  have pow: "(256 :: nat) ^ k \<le> 2 ^ 64"
  proof -
    have "(256 :: nat) ^ k \<le> 256 ^ 8" using assms by (intro power_increasing) auto
    then show ?thesis by simp
  qed
  have "reads_as (\<lambda>w v. unat w = v) (cbs_get_u k) (b_be k)"
  proof (rule reads_as_strengthen [OF cbs_get_u_reads])
    fix bs rest and w :: u64 and v :: nat
    assume "b_be k bs = Some (v, rest)" "w = of_nat v"
    then have "v < 256 ^ k" "w = of_nat v"
      using be_nat_take_lt [of k bs] by (auto simp: b_be_def split: if_splits)
    then show "unat w = v" using pow by (simp add: unat_of_nat)
  qed
  then show ?thesis
    unfolding cbs_get_length_prefixed_def b_prefixed_def
    by (rule reads_as_bind) (auto intro: CBS_get_bytes_reads)
qed

subsection \<open>Searching, comparing and copying\<close>

lemma memchr_Some_iff:
  "OPENSSL_memchr s c n = Some i \<longleftrightarrow>
     i < n \<and> i < length s \<and> s ! i = c \<and> c \<notin> set (take i s)"
proof (induction s c n arbitrary: i rule: OPENSSL_memchr.induct)
  case (3 b s c n)
  then show ?case by (cases i) auto
qed auto

lemma memchr_None_iff:
  "n \<le> length s \<Longrightarrow> OPENSSL_memchr s c n = None \<longleftrightarrow> c \<notin> set (take n s)"
  by (induction s c n rule: OPENSSL_memchr.induct) auto

lemma CBS_get_until_first_reads [reads]:
  "reads_as shows_bytes (CBS_get_until_first c)
     (\<lambda>bs. if c \<in> set bs then Some (takeWhile (\<lambda>b. b \<noteq> c) bs, dropWhile (\<lambda>b. b \<noteq> c) bs) else None)"
  unfolding reads_as_def
proof (intro allI impI)
  fix cbs assume wf: "wf_cbs cbs"
  then have len: "c_len cbs \<le> length (c_data cbs)" by (simp add: wf_cbs_def)
  show "case CBS_get_until_first c cbs of (r, c') \<Rightarrow> wf_cbs c' \<and> c_len c' \<le> c_len cbs \<and>
      (case if c \<in> set (view cbs)
            then Some (takeWhile (\<lambda>b. b \<noteq> c) (view cbs), dropWhile (\<lambda>b. b \<noteq> c) (view cbs)) else None of
         None \<Rightarrow> r = None
       | Some (y, rest) \<Rightarrow> (\<exists>x. r = Some x \<and> shows_bytes x y) \<and> view c' = rest)"
  proof (cases "OPENSSL_memchr (c_data cbs) c (c_len cbs)")
    case None
    then have "CBS_get_until_first c cbs = (None, cbs)"
      by (simp add: CBS_get_until_first_def CBS_data_def CBS_len_def)
    moreover have "c \<notin> set (view cbs)"
      using memchr_None_iff [OF len, of c] None by (simp add: view_def)
    ultimately show ?thesis using wf by simp
  next
    case (Some i)
    then have i: "i < c_len cbs" "c_data cbs ! i = c" "c \<notin> set (take i (c_data cbs))"
      by (auto simp: memchr_Some_iff)
    have "i < length (view cbs)" "view cbs ! i = c" using i len wf by (simp_all add: view_def)
    then have split: "view cbs = take i (view cbs) @ c # drop (Suc i) (view cbs)"
      using id_take_nth_drop by metis
    have notin: "c \<notin> set (take i (view cbs))" using i len by (simp add: view_def min_def)
    have tw: "takeWhile (\<lambda>b. b \<noteq> c) (view cbs) = take i (view cbs)"
      using notin by (subst split) (subst takeWhile_append2; auto)
    have dw: "dropWhile (\<lambda>b. b \<noteq> c) (view cbs) = drop i (view cbs)"
      using tw by (metis append_take_drop_id takeWhile_dropWhile_id same_append_eq)
    have "c \<in> set (view cbs)" by (subst split) simp
    moreover obtain r c' where p: "CBS_get_bytes i cbs = (r, c')" by (cases "CBS_get_bytes i cbs")
    have "\<not> length (view cbs) < i" using i wf by simp
    ultimately show ?thesis
      using reads_asD [OF CBS_get_bytes_reads wf p] Some
      by (simp add: CBS_get_until_first_def CBS_data_def CBS_len_def p b_take_def tw dw)
  qed
qed

lemma memcmp_loop_zero_iff:
  "n \<le> length a \<Longrightarrow> n \<le> length b \<Longrightarrow>
   memcmp_loop x a b n = 0 \<longleftrightarrow> x = 0 \<and> take n a = take n b"
proof (induction n arbitrary: x a b)
  case (Suc n)
  then obtain p a' q b' where ab: "a = p # a'" "b = q # b'" by (cases a; cases b) auto
  with Suc.prems have "memcmp_loop x a b (Suc n) = 0 \<longleftrightarrow> (x OR (p XOR q)) = 0 \<and> take n a' = take n b'"
    by (simp add: Suc.IH)
  also have "(x OR (p XOR q)) = 0 \<longleftrightarrow> x = 0 \<and> p XOR q = 0" by (simp add: or_eq_0_iff)
  also have "p XOR q = 0 \<longleftrightarrow> p = q" by (auto simp: bit_eq_iff bit_simps)
  finally show ?case by (auto simp: ab)
qed simp

lemma CBS_mem_equal_iff:
  assumes "wf_cbs c" "len \<le> length data"
  shows "CBS_mem_equal c data len \<longleftrightarrow> view c = take len data"
proof (cases "len = c_len c")
  case True
  with assms show ?thesis
    by (simp add: CBS_mem_equal_def CRYPTO_memcmp_def memcmp_loop_zero_iff wf_cbs_def view_def)
next
  case False
  then have "length (view c) \<noteq> length (take len data)" using assms by simp
  then show ?thesis using False by (auto simp: CBS_mem_equal_def)
qed

lemma CBS_contains_zero_byte_iff:
  "wf_cbs c \<Longrightarrow> CBS_contains_zero_byte c \<longleftrightarrow> 0 \<in> set (view c)"
  by (simp add: CBS_contains_zero_byte_def memchr_None_iff wf_cbs_def view_def)

lemma CBS_stow_eq:
  "wf_cbs c \<Longrightarrow> CBS_stow alloc c = (if view c = [] \<or> alloc (length (view c)) then Some (view c) else None)"
  by (auto simp: CBS_stow_def OPENSSL_memdup_def view_def wf_cbs_def)

lemma strnlen_takeWhile:
  "n \<le> length s \<Longrightarrow> OPENSSL_strnlen s n = length (takeWhile (\<lambda>b. b \<noteq> 0) (take n s))"
  by (induction s n rule: OPENSSL_strnlen.induct) auto

lemma take_strnlen:
  "n \<le> length s \<Longrightarrow> take (OPENSSL_strnlen s n) s = takeWhile (\<lambda>b. b \<noteq> 0) (take n s)"
  by (induction s n rule: OPENSSL_strnlen.induct) auto

lemma CBS_strdup_eq:
  assumes "wf_cbs c"
  shows "CBS_strdup alloc c =
    (let t = takeWhile (\<lambda>b. b \<noteq> 0) (view c) in if alloc (length t + 1) then Some (t @ [0]) else None)"
proof -
  have len: "c_len c \<le> length (c_data c)" "c_len c < 2 ^ 63" using assms by (auto simp: wf_cbs_def)
  have "OPENSSL_strnlen (c_data c) (c_len c) \<le> c_len c"
    using length_takeWhile_le [of "\<lambda>b. b \<noteq> 0" "take (c_len c) (c_data c)"] len
    by (simp add: strnlen_takeWhile)
  with len have "size_add (OPENSSL_strnlen (c_data c) (c_len c)) 1 = OPENSSL_strnlen (c_data c) (c_len c) + 1"
    by (intro size_add_eq) simp
  then show ?thesis
    using len
    by (simp add: CBS_strdup_def OPENSSL_strndup_def Let_def take_strnlen view_def)
      (simp add: strnlen_takeWhile)
qed

subsection \<open>The byte source interface\<close>

definition cbs_fetch :: "nat \<Rightarrow> CBS \<Rightarrow> (bytes \<times> CBS) option" where
  "cbs_fetch n c = (case CBS_copy_bytes n c of (None, c) \<Rightarrow> None | (Some bs, c) \<Rightarrow> Some (bs, c))"

interpretation cbs_source: byte_source cbs_fetch view wf_cbs
proof
  fix s n assume wf: "wf_cbs s"
  obtain r s' where p: "CBS_copy_bytes n s = (r, s')" by (cases "CBS_copy_bytes n s")
  note facts = reads_asD [OF CBS_copy_bytes_reads wf p]
  show "n \<le> length (view s) \<Longrightarrow>
      \<exists>s'. cbs_fetch n s = Some (take n (view s), s') \<and> view s' = drop n (view s) \<and> wf_cbs s'"
    using facts by (auto simp: cbs_fetch_def p b_take_def)
  show "length (view s) < n \<Longrightarrow> cbs_fetch n s = None"
    using facts by (auto simp: cbs_fetch_def p b_take_def)
qed

subsection \<open>Properties\<close>

text \<open>
  The copying and comparing functions see exactly the window: CBS_mem_equal compares it in
  length and content, CBS_contains_zero_byte and CBS_strdup look for a zero byte in it (the copy
  stops there), and CBS_stow copies all of it; a copy fails only when the allocator refuses.
\<close>

theorem window_copies_and_comparisons:
  assumes "wf_cbs c" "len \<le> length data"
  shows "(CBS_mem_equal c data len \<longleftrightarrow> view c = take len data) \<and>
    (CBS_contains_zero_byte c \<longleftrightarrow> 0 \<in> set (view c)) \<and>
    CBS_stow alloc c = (if view c = [] \<or> alloc (length (view c)) then Some (view c) else None) \<and>
    CBS_strdup alloc c =
      (let t = takeWhile (\<lambda>b. b \<noteq> 0) (view c) in if alloc (length t + 1) then Some (t @ [0]) else None)"
  using assms
  by (intro conjI CBS_mem_equal_iff CBS_contains_zero_byte_iff CBS_stow_eq CBS_strdup_eq)

theorem window_copies_and_comparisons_witness:
  "CBS_strdup (\<lambda>n. True) (CBS_init [104, 105, 0, 33, 34] 4) = Some [104, 105, 0] \<and>
   \<not> CBS_mem_equal (CBS_init [104, 105, 0, 33, 34] 4) [104, 105, 0, 34] 4"
  using window_copies_and_comparisons [of "CBS_init [104, 105, 0, 33, 34] 4" 4 "[104, 105, 0, 34]" "\<lambda>n. True"]
  by (simp add: Let_def)

text \<open>
  Every reader of an integer or of a length-prefixed string is the corresponding function of
  the bytes in the window: it succeeds exactly when enough bytes are there, takes off exactly those,
  and returns their big- or little-endian value (or the bytes the length announces). The bytes
  of the buffer behind the window have no influence.
\<close>

theorem window_readers:
  "reads_as (\<lambda>w v. w = of_nat v) CBS_get_u8 (b_be 1) \<and>
   reads_as (\<lambda>w v. w = of_nat v) CBS_get_u16 (b_be 2) \<and>
   reads_as (\<lambda>w v. w = of_nat v) CBS_get_u24 (b_be 3) \<and>
   reads_as (\<lambda>w v. w = of_nat v) CBS_get_u32 (b_be 4) \<and>
   reads_as (\<lambda>w v. w = of_nat v) CBS_get_u64 (b_be 8) \<and>
   reads_as (\<lambda>w v. w = of_nat v) CBS_get_u16le (b_le 2) \<and>
   reads_as (\<lambda>w v. w = of_nat v) CBS_get_u32le (b_le 4) \<and>
   reads_as (\<lambda>w v. w = of_nat v) CBS_get_u64le (b_le 8) \<and>
   reads_as shows_bytes CBS_get_u8_length_prefixed (b_prefixed 1) \<and>
   reads_as shows_bytes CBS_get_u16_length_prefixed (b_prefixed 2) \<and>
   reads_as shows_bytes CBS_get_u24_length_prefixed (b_prefixed 3)"
  unfolding CBS_get_u8_length_prefixed_def CBS_get_u16_length_prefixed_def CBS_get_u24_length_prefixed_def
  by (intro conjI reads) simp_all

end
