(* ===== verification/Cbb.thy ===== *)
theory Cbb
  imports Cbs
begin

text \<open>
  The CBB type of BoringSSL (crypto/bytestring/cbb.c): a growing buffer with length prefixes that
  are filled in when the thing they precede is complete. A top-level CBB, its pending child, the
  pending child of that one and so on write to one buffer; the model keeps this linked list as a
  list of the pending children, outermost first, and names a CBB by its depth (0 for the top-level
  one). A CBB deeper than the list is one that has been flushed: its base pointer is NULL, and
  every operation on it fails. The allocator's answers are a parameter, as are the contents of
  memory it hands out.
\<close>

subsection \<open>The buffer\<close>

text \<open>\<open>bb_buf\<close> are the \<open>cap\<close> bytes of the buffer, of which the first \<open>bb_len\<close> are valid.\<close>

record cbb_buffer =
  bb_buf :: bytes
  bb_len :: nat
  bb_can_resize :: bool
  bb_error :: bool

abbreviation bb_cap :: "cbb_buffer \<Rightarrow> nat" where
  "bb_cap b \<equiv> length (bb_buf b)"

record pending =
  pd_offset :: nat
  pd_len_len :: nat
  pd_is_asn1 :: bool

record CBB =
  cb_base :: cbb_buffer
  cb_chain :: "pending list"

record heap =
  hp_serves :: "nat \<Rightarrow> bool"
  hp_junk :: "nat \<Rightarrow> u8"

definition fresh_bytes :: "heap \<Rightarrow> nat \<Rightarrow> bytes" where
  "fresh_bytes hp n = map (hp_junk hp) [0 ..< n]"

definition cbb_init :: "bytes \<Rightarrow> bool \<Rightarrow> CBB" where
  "cbb_init buf can_resize =
     \<lparr>cb_base = \<lparr>bb_buf = buf, bb_len = 0, bb_can_resize = can_resize, bb_error = False\<rparr>, cb_chain = []\<rparr>"

text \<open>\<open>sizeof(struct cbb_buffer_st)\<close> is 32: a pointer, two sizes and two chars.\<close>

definition CBB_init :: "heap \<Rightarrow> nat \<Rightarrow> CBB option" where
  "CBB_init hp initial_capacity =
     (if 0 < initial_capacity \<and> \<not> hp_serves hp initial_capacity then None
      else if \<not> hp_serves hp 32 then None
      else Some (cbb_init (fresh_bytes hp initial_capacity) True))"

definition CBB_init_fixed :: "heap \<Rightarrow> bytes \<Rightarrow> CBB option" where
  "CBB_init_fixed hp buf = (if \<not> hp_serves hp 32 then None else Some (cbb_init buf False))"

text \<open>The output parameter of the two functions is the old length, as an offset into the buffer.\<close>

definition cbb_buffer_reserve :: "heap \<Rightarrow> nat \<Rightarrow> cbb_buffer \<Rightarrow> bool \<times> cbb_buffer" where
  "cbb_buffer_reserve hp len base =
     (let newlen = size_add (bb_len base) len in
      if newlen < bb_len base then (False, base\<lparr>bb_error := True\<rparr>)
      else if bb_cap base < newlen
      then
        (if \<not> bb_can_resize base then (False, base\<lparr>bb_error := True\<rparr>)
         else
           (let newcap = (bb_cap base * 2) mod 2 ^ 64;
                newcap = (if newcap < bb_cap base \<or> newcap < newlen then newlen else newcap) in
            if \<not> hp_serves hp newcap then (False, base\<lparr>bb_error := True\<rparr>)
            else (True, base\<lparr>bb_buf := bb_buf base @ drop (bb_cap base) (fresh_bytes hp newcap)\<rparr>)))
      else (True, base))"

definition cbb_buffer_add :: "heap \<Rightarrow> nat \<Rightarrow> cbb_buffer \<Rightarrow> bool \<times> cbb_buffer" where
  "cbb_buffer_add hp len base =
     (case cbb_buffer_reserve hp len base of
        (ok, base) \<Rightarrow> if \<not> ok then (False, base) else (True, base\<lparr>bb_len := bb_len base + len\<rparr>))"

text \<open>Storing the low bytes of a word, last byte first, and what is left of the word.\<close>

fun put_be :: "nat \<Rightarrow> nat \<Rightarrow> u64 \<Rightarrow> bytes \<Rightarrow> u64 \<times> bytes" where
  "put_be off 0 v buf = (v, buf)"
| "put_be off (Suc i) v buf = put_be off i (drop_bit 8 v) (buf[off + i := ucast v])"

definition cbb_buffer_add_u :: "heap \<Rightarrow> u64 \<Rightarrow> nat \<Rightarrow> cbb_buffer \<Rightarrow> bool \<times> cbb_buffer" where
  "cbb_buffer_add_u hp v len_len base =
     (if len_len = 0 then (True, base)
      else
        (let off = bb_len base in
         case cbb_buffer_add hp len_len base of
           (ok, base) \<Rightarrow>
             if \<not> ok then (False, base)
             else
               (case put_be off len_len v (bb_buf base) of
                  (v, buf) \<Rightarrow>
                    let base = base\<lparr>bb_buf := buf\<rparr> in
                    if v \<noteq> 0 then (False, base\<lparr>bb_error := True\<rparr>) else (True, base))))"

subsection \<open>Flushing\<close>

definition memmove_at :: "nat \<Rightarrow> nat \<Rightarrow> nat \<Rightarrow> bytes \<Rightarrow> bytes" where
  "memmove_at dst src n buf = take dst buf @ take n (drop src buf) @ drop (dst + n) buf"

text \<open>Sets the error flag: the \<open>err\<close> label of CBB_flush.\<close>

definition cbb_error :: "CBB \<Rightarrow> bool \<times> CBB" where
  "cbb_error cbb = (False, cbb\<lparr>cb_base := (cb_base cbb)\<lparr>bb_error := True\<rparr>\<rparr>)"

text \<open>
  The length bytes of an ASN.1 child: how many there are, the first one, and the length that
  remains to be written behind it.
\<close>

definition asn1_length_form :: "nat \<Rightarrow> (nat \<times> u8 \<times> nat) option" where
  "asn1_length_form len =
     (if 0xFFFFFFFE < len then None
      else if 0xFFFFFF < len then Some (5, 0x80 OR 4, len)
      else if 0xFFFF < len then Some (4, 0x80 OR 3, len)
      else if 0xFF < len then Some (3, 0x80 OR 2, len)
      else if 0x7F < len then Some (2, 0x80 OR 1, len)
      else Some (1, of_nat len, 0))"

text \<open>Writing the prefix of the child at the end of the list, whose own children are flushed.\<close>

definition flush_prefix :: "heap \<Rightarrow> pending \<Rightarrow> nat \<Rightarrow> cbb_buffer \<Rightarrow> bool \<times> cbb_buffer" where
  "flush_prefix hp child len base =
     (let child_start = pd_offset child + pd_len_len child in
      if pd_is_asn1 child then
        (case asn1_length_form len of
           None \<Rightarrow> (False, base)
         | Some (len_len, initial_length_byte, rest) \<Rightarrow>
             (let extra_bytes = len_len - 1 in
              case (if len_len \<noteq> 1 then cbb_buffer_add hp extra_bytes base else (True, base)) of
                (ok, base) \<Rightarrow>
                  if \<not> ok then (False, base)
                  else
                    (let buf = (if len_len \<noteq> 1
                                then memmove_at (child_start + extra_bytes) child_start rest (bb_buf base)
                                else bb_buf base);
                         buf = buf[pd_offset child := initial_length_byte] in
                     case put_be (pd_offset child + 1) (len_len - 1) (of_nat rest) buf of
                       (left, buf) \<Rightarrow> (left = 0, base\<lparr>bb_buf := buf\<rparr>))))
      else
        (case put_be (pd_offset child) (pd_len_len child) (of_nat len) (bb_buf base) of
           (left, buf) \<Rightarrow> (left = 0, base\<lparr>bb_buf := buf\<rparr>)))"

function CBB_flush :: "heap \<Rightarrow> nat \<Rightarrow> CBB \<Rightarrow> bool \<times> CBB" where
  "CBB_flush hp d cbb =
     (if length (cb_chain cbb) < d \<or> bb_error (cb_base cbb) then (False, cbb)
      else if length (cb_chain cbb) = d \<or> pd_len_len (cb_chain cbb ! d) = 0 then (True, cbb)
      else
        (let child = cb_chain cbb ! d;
             child_start = size_add (pd_offset child) (pd_len_len child) in
         case CBB_flush hp (Suc d) cbb of
           (ok, cbb) \<Rightarrow>
             if \<not> ok then cbb_error cbb
             else if child_start < pd_offset child \<or> bb_len (cb_base cbb) < child_start then cbb_error cbb
             else
               (case flush_prefix hp child (bb_len (cb_base cbb) - child_start) (cb_base cbb) of
                  (ok, base) \<Rightarrow>
                    let cbb = cbb\<lparr>cb_base := base\<rparr> in
                    if \<not> ok then cbb_error cbb
                    else (True, cbb\<lparr>cb_chain := take d (cb_chain cbb)\<rparr>))))"
  by pat_completeness auto

termination
  by (relation "measure (\<lambda>(hp, d, cbb). length (cb_chain cbb) - d)") auto

declare CBB_flush.simps [simp del]

text \<open>What every writer does first.\<close>

definition flushed :: "heap \<Rightarrow> nat \<Rightarrow> (CBB \<Rightarrow> bool \<times> CBB) \<Rightarrow> CBB \<Rightarrow> bool \<times> CBB" where
  "flushed hp d write cbb =
     (case CBB_flush hp d cbb of (ok, cbb) \<Rightarrow> if \<not> ok then (False, cbb) else write cbb)"

definition on_base :: "(cbb_buffer \<Rightarrow> bool \<times> cbb_buffer) \<Rightarrow> CBB \<Rightarrow> bool \<times> CBB" where
  "on_base f cbb = (case f (cb_base cbb) of (ok, base) \<Rightarrow> (ok, cbb\<lparr>cb_base := base\<rparr>))"

text \<open>\<open>if (!f(...) || !g(...)) return 0;\<close>\<close>

definition cbb_then :: "(CBB \<Rightarrow> bool \<times> CBB) \<Rightarrow> (CBB \<Rightarrow> bool \<times> CBB) \<Rightarrow> CBB \<Rightarrow> bool \<times> CBB" where
  "cbb_then f g cbb = (case f cbb of (ok, cbb) \<Rightarrow> if \<not> ok then (False, cbb) else g cbb)"

text \<open>
  CBB_cleanup frees a top-level CBB, so that its base pointer is NULL: \<open>None\<close>. CBB_finish returns
  the valid bytes and cleans up; \<open>want\<close> tells that both output pointers are given.
\<close>

definition CBB_cleanup :: "nat \<Rightarrow> CBB \<Rightarrow> CBB option" where
  "CBB_cleanup d cbb = (if 0 < d then Some cbb else None)"

definition CBB_finish :: "heap \<Rightarrow> nat \<Rightarrow> bool \<Rightarrow> CBB \<Rightarrow> bytes option \<times> CBB option" where
  "CBB_finish hp d want cbb =
     (if 0 < d then (None, Some cbb)
      else
        (case CBB_flush hp d cbb of
           (ok, cbb) \<Rightarrow>
             if \<not> ok then (None, Some cbb)
             else if bb_can_resize (cb_base cbb) \<and> \<not> want then (None, Some cbb)
             else (Some (take (bb_len (cb_base cbb)) (bb_buf (cb_base cbb))), CBB_cleanup d cbb)))"

subsection \<open>Operations\<close>

text \<open>Where the contents of a CBB start: behind its own length prefix.\<close>

definition cbb_start :: "nat \<Rightarrow> CBB \<Rightarrow> nat" where
  "cbb_start d cbb =
     (if d = 0 then 0
      else pd_offset (cb_chain cbb ! (d - 1)) + pd_len_len (cb_chain cbb ! (d - 1)))"

definition CBB_data :: "nat \<Rightarrow> CBB \<Rightarrow> bytes" where
  "CBB_data d cbb = drop (cbb_start d cbb) (bb_buf (cb_base cbb))"

definition CBB_len :: "nat \<Rightarrow> CBB \<Rightarrow> nat" where
  "CBB_len d cbb = bb_len (cb_base cbb) - cbb_start d cbb"

definition store_at :: "nat \<Rightarrow> bytes \<Rightarrow> cbb_buffer \<Rightarrow> cbb_buffer" where
  "store_at off bs base =
     base\<lparr>bb_buf := take off (bb_buf base) @ bs @ drop (off + length bs) (bb_buf base)\<rparr>"

text \<open>Makes room for some bytes and stores them.\<close>

definition cbb_buffer_append :: "heap \<Rightarrow> bytes \<Rightarrow> cbb_buffer \<Rightarrow> bool \<times> cbb_buffer" where
  "cbb_buffer_append hp bs base =
     (let off = bb_len base in
      case cbb_buffer_add hp (length bs) base of
        (ok, base) \<Rightarrow> if \<not> ok then (False, base) else (True, store_at off bs base))"

definition push_child :: "nat \<Rightarrow> nat \<Rightarrow> nat \<Rightarrow> bool \<Rightarrow> CBB \<Rightarrow> CBB" where
  "push_child d off len_len is_asn1 cbb =
     cbb\<lparr>cb_chain := take d (cb_chain cbb) @ [\<lparr>pd_offset = off, pd_len_len = len_len, pd_is_asn1 = is_asn1\<rparr>]\<rparr>"

definition cbb_add_length_prefixed :: "heap \<Rightarrow> nat \<Rightarrow> nat \<Rightarrow> CBB \<Rightarrow> bool \<times> CBB" where
  "cbb_add_length_prefixed hp d len_len = flushed hp d (\<lambda>cbb.
     let off = bb_len (cb_base cbb) in
     case on_base (cbb_buffer_append hp (replicate len_len 0)) cbb of
       (ok, cbb) \<Rightarrow> if \<not> ok then (False, cbb) else (True, push_child d off len_len False cbb))"

definition CBB_add_u8_length_prefixed :: "heap \<Rightarrow> nat \<Rightarrow> CBB \<Rightarrow> bool \<times> CBB" where
  "CBB_add_u8_length_prefixed hp d = cbb_add_length_prefixed hp d 1"

definition CBB_add_u16_length_prefixed :: "heap \<Rightarrow> nat \<Rightarrow> CBB \<Rightarrow> bool \<times> CBB" where
  "CBB_add_u16_length_prefixed hp d = cbb_add_length_prefixed hp d 2"

definition CBB_add_u24_length_prefixed :: "heap \<Rightarrow> nat \<Rightarrow> CBB \<Rightarrow> bool \<times> CBB" where
  "CBB_add_u24_length_prefixed hp d = cbb_add_length_prefixed hp d 3"

definition CBB_add_bytes :: "heap \<Rightarrow> nat \<Rightarrow> bytes \<Rightarrow> CBB \<Rightarrow> bool \<times> CBB" where
  "CBB_add_bytes hp d data = flushed hp d (on_base (cbb_buffer_append hp data))"

text \<open>The space is left as it is for the caller to fill.\<close>

definition CBB_add_space :: "heap \<Rightarrow> nat \<Rightarrow> nat \<Rightarrow> CBB \<Rightarrow> bool \<times> CBB" where
  "CBB_add_space hp d len = flushed hp d (on_base (cbb_buffer_add hp len))"

definition CBB_add_zeros :: "heap \<Rightarrow> nat \<Rightarrow> nat \<Rightarrow> CBB \<Rightarrow> bool \<times> CBB" where
  "CBB_add_zeros hp d len cbb =
     (case CBB_add_space hp d len cbb of
        (ok, cbb) \<Rightarrow>
          if \<not> ok then (False, cbb)
          else (True, cbb\<lparr>cb_base := store_at (bb_len (cb_base cbb) - len) (replicate len 0) (cb_base cbb)\<rparr>))"

definition CBB_reserve :: "heap \<Rightarrow> nat \<Rightarrow> nat \<Rightarrow> CBB \<Rightarrow> bool \<times> CBB" where
  "CBB_reserve hp d len = flushed hp d (on_base (cbb_buffer_reserve hp len))"

definition CBB_did_write :: "nat \<Rightarrow> nat \<Rightarrow> CBB \<Rightarrow> bool \<times> CBB" where
  "CBB_did_write d len cbb =
     (let newlen = size_add (bb_len (cb_base cbb)) len in
      if length (cb_chain cbb) \<noteq> d \<or> newlen < bb_len (cb_base cbb) \<or> bb_cap (cb_base cbb) < newlen
      then (False, cbb)
      else (True, cbb\<lparr>cb_base := (cb_base cbb)\<lparr>bb_len := newlen\<rparr>\<rparr>))"

definition CBB_add_u8 :: "heap \<Rightarrow> nat \<Rightarrow> u8 \<Rightarrow> CBB \<Rightarrow> bool \<times> CBB" where
  "CBB_add_u8 hp d v = flushed hp d (on_base (cbb_buffer_add_u hp (ucast v) 1))"

definition CBB_add_u16 :: "heap \<Rightarrow> nat \<Rightarrow> u16 \<Rightarrow> CBB \<Rightarrow> bool \<times> CBB" where
  "CBB_add_u16 hp d v = flushed hp d (on_base (cbb_buffer_add_u hp (ucast v) 2))"

definition CBB_add_u16le :: "heap \<Rightarrow> nat \<Rightarrow> u16 \<Rightarrow> CBB \<Rightarrow> bool \<times> CBB" where
  "CBB_add_u16le hp d v = CBB_add_u16 hp d (CRYPTO_bswap2 v)"

definition CBB_add_u24 :: "heap \<Rightarrow> nat \<Rightarrow> u32 \<Rightarrow> CBB \<Rightarrow> bool \<times> CBB" where
  "CBB_add_u24 hp d v = flushed hp d (on_base (cbb_buffer_add_u hp (ucast v) 3))"

definition CBB_add_u32 :: "heap \<Rightarrow> nat \<Rightarrow> u32 \<Rightarrow> CBB \<Rightarrow> bool \<times> CBB" where
  "CBB_add_u32 hp d v = flushed hp d (on_base (cbb_buffer_add_u hp (ucast v) 4))"

definition CBB_add_u32le :: "heap \<Rightarrow> nat \<Rightarrow> u32 \<Rightarrow> CBB \<Rightarrow> bool \<times> CBB" where
  "CBB_add_u32le hp d v = CBB_add_u32 hp d (CRYPTO_bswap4 v)"

definition CBB_add_u64 :: "heap \<Rightarrow> nat \<Rightarrow> u64 \<Rightarrow> CBB \<Rightarrow> bool \<times> CBB" where
  "CBB_add_u64 hp d v = flushed hp d (on_base (cbb_buffer_add_u hp v 8))"

definition CBB_add_u64le :: "heap \<Rightarrow> nat \<Rightarrow> u64 \<Rightarrow> CBB \<Rightarrow> bool \<times> CBB" where
  "CBB_add_u64le hp d v = CBB_add_u64 hp d (CRYPTO_bswap8 v)"

definition CBB_discard_child :: "nat \<Rightarrow> CBB \<Rightarrow> CBB" where
  "CBB_discard_child d cbb =
     (if length (cb_chain cbb) \<le> d then cbb
      else cbb\<lparr>cb_base := (cb_base cbb)\<lparr>bb_len := pd_offset (cb_chain cbb ! d)\<rparr>,
               cb_chain := take d (cb_chain cbb)\<rparr>)"

end
