(* ===== verification/Cbs_Asn1.thy ===== *)
theory Cbs_Asn1
  imports Cbs
begin

text \<open>
  The ASN.1 parsers of crypto/bytestring/cbs.c: tags with base-128 numbers, DER and BER elements,
  INTEGER, BOOLEAN, BIT STRING and optional fields. The functions follow the code; below them stand
  the DER encoding as a specification and the theorems that relate the two.
\<close>

subsection \<open>Tags and elements\<close>

abbreviation (input) CBS_ASN1_TAG_SHIFT :: nat where "CBS_ASN1_TAG_SHIFT \<equiv> 24"
abbreviation (input) CBS_ASN1_CONSTRUCTED :: u32 where "CBS_ASN1_CONSTRUCTED \<equiv> 0x20000000"
abbreviation (input) CBS_ASN1_TAG_NUMBER_MASK :: u32 where "CBS_ASN1_TAG_NUMBER_MASK \<equiv> 0x1FFFFFFF"
abbreviation (input) CBS_ASN1_BOOLEAN :: u32 where "CBS_ASN1_BOOLEAN \<equiv> 1"
abbreviation (input) CBS_ASN1_INTEGER :: u32 where "CBS_ASN1_INTEGER \<equiv> 2"
abbreviation (input) CBS_ASN1_BITSTRING :: u32 where "CBS_ASN1_BITSTRING \<equiv> 3"
abbreviation (input) CBS_ASN1_OCTETSTRING :: u32 where "CBS_ASN1_OCTETSTRING \<equiv> 4"

lemma CBS_get_u8_shorter: "CBS_get_u8 c = (Some b, c') \<Longrightarrow> c_len c' < c_len c"
  by (auto simp: CBS_get_u8_def p_bind_def p_return_def cbs_get_def split: if_splits)

function base128_loop :: "u64 \<Rightarrow> u64 parser" where
  "base128_loop v cbs =
     (case CBS_get_u8 cbs of
        (None, cbs') \<Rightarrow> (None, cbs')
      | (Some b, cbs') \<Rightarrow>
          if drop_bit (64 - 7) v \<noteq> 0 then (None, cbs')
          else if v = 0 \<and> b = 0x80 then (None, cbs')
          else
            (let v = push_bit 7 v OR ucast (b AND 0x7F) in
             if b AND 0x80 \<noteq> 0 then base128_loop v cbs' else (Some v, cbs')))"
  by pat_completeness auto

termination
  by (relation "measure (\<lambda>(v, cbs). c_len cbs)") (auto dest: CBS_get_u8_shorter [OF sym])

declare base128_loop.simps [simp del]

definition parse_base128_integer :: "u64 parser" where
  "parse_base128_integer = base128_loop 0"

definition parse_asn1_tag :: "u32 parser" where
  "parse_asn1_tag = p_bind CBS_get_u8 (\<lambda>tag_byte.
     let tag = push_bit CBS_ASN1_TAG_SHIFT (ucast tag_byte AND 0xE0 :: u32);
         tag_number = ucast (tag_byte AND 0x1F) :: u32 in
     if tag_number = 0x1F
     then p_bind parse_base128_integer (\<lambda>v.
            if ucast CBS_ASN1_TAG_NUMBER_MASK < v \<or> v < 0x1F then p_fail
            else p_return (tag OR ucast v))
     else p_return (tag OR tag_number))"

text \<open>
  The result holds the element, its tag, the length of its header and whether a form that only
  BER allows was seen. The CBS is left alone when the function fails.
\<close>

definition cbs_get_any_asn1_element :: "bool \<Rightarrow> (CBS \<times> u32 \<times> nat \<times> bool) parser" where
  "cbs_get_any_asn1_element ber_ok cbs =
     (case parse_asn1_tag cbs of
        (None, header) \<Rightarrow> (None, cbs)
      | (Some tag, header) \<Rightarrow>
          (case CBS_get_u8 header of
             (None, header) \<Rightarrow> (None, cbs)
           | (Some length_byte, header) \<Rightarrow>
               (let header_len = size_sub (CBS_len cbs) (CBS_len header);
                    get = (\<lambda>len hl ber_found.
                             p_bind (CBS_get_bytes len) (\<lambda>out. p_return (out, tag, hl, ber_found)) cbs) in
                if length_byte AND 0x80 = 0
                then get (size_add (unat length_byte) header_len) header_len False
                else
                  (let num_bytes = unat (length_byte AND 0x7F) in
                   if ber_ok \<and> tag AND CBS_ASN1_CONSTRUCTED \<noteq> 0 \<and> num_bytes = 0
                   then get header_len header_len True
                   else if num_bytes = 0 \<or> 4 < num_bytes then (None, cbs)
                   else
                     (case cbs_get_u num_bytes header of
                        (None, header) \<Rightarrow> (None, cbs)
                      | (Some len64, header) \<Rightarrow>
                          if len64 < 128 \<and> \<not> ber_ok then (None, cbs)
                          else if drop_bit ((num_bytes - 1) * 8) len64 = 0 \<and> \<not> ber_ok then (None, cbs)
                          else
                            (let len = unat len64 in
                             if size_add (size_add len header_len) num_bytes < len then (None, cbs)
                             else get (size_add len (size_add header_len num_bytes))
                                    (size_add header_len num_bytes)
                                    (len64 < 128 \<or> drop_bit ((num_bytes - 1) * 8) len64 = 0)))))))"

definition CBS_get_any_asn1_element :: "(CBS \<times> u32 \<times> nat) parser" where
  "CBS_get_any_asn1_element =
     p_bind (cbs_get_any_asn1_element False) (\<lambda>(out, tag, header_len, _). p_return (out, tag, header_len))"

definition CBS_get_any_ber_asn1_element :: "(CBS \<times> u32 \<times> nat \<times> bool) parser" where
  "CBS_get_any_ber_asn1_element = cbs_get_any_asn1_element True"

definition CBS_get_any_asn1 :: "(CBS \<times> u32) parser" where
  "CBS_get_any_asn1 = p_bind CBS_get_any_asn1_element (\<lambda>(out, tag, header_len) cbs.
     case CBS_skip header_len out of
       (None, out) \<Rightarrow> (None, cbs)
     | (Some _, out) \<Rightarrow> (Some (out, tag), cbs))"

definition cbs_get_asn1 :: "u32 \<Rightarrow> bool \<Rightarrow> CBS parser" where
  "cbs_get_asn1 tag_value skip_header = p_bind CBS_get_any_asn1_element (\<lambda>(out, tag, header_len) cbs.
     if tag \<noteq> tag_value then (None, cbs)
     else if skip_header
     then (case CBS_skip header_len out of
             (None, out) \<Rightarrow> (None, cbs)
           | (Some _, out) \<Rightarrow> (Some out, cbs))
     else (Some out, cbs))"

definition CBS_get_asn1 :: "u32 \<Rightarrow> CBS parser" where
  "CBS_get_asn1 tag_value = cbs_get_asn1 tag_value True"

definition CBS_get_asn1_element :: "u32 \<Rightarrow> CBS parser" where
  "CBS_get_asn1_element tag_value = cbs_get_asn1 tag_value False"

definition CBS_peek_asn1_tag :: "u32 \<Rightarrow> CBS \<Rightarrow> bool" where
  "CBS_peek_asn1_tag tag_value cbs =
     (if CBS_len cbs < 1 then False
      else (case parse_asn1_tag cbs of
              (None, copy) \<Rightarrow> False
            | (Some actual_tag, copy) \<Rightarrow> tag_value = actual_tag))"

subsection \<open>INTEGER, BOOLEAN and BIT STRING\<close>

text \<open>Whether the contents are a valid INTEGER, and then whether it is negative.\<close>

definition CBS_is_valid_asn1_integer :: "CBS \<Rightarrow> bool option" where
  "CBS_is_valid_asn1_integer cbs =
     (case CBS_get_u8 cbs of
        (None, copy) \<Rightarrow> None
      | (Some first_byte, copy) \<Rightarrow>
          (let is_negative = (first_byte AND 0x80 \<noteq> 0) in
           case CBS_get_u8 copy of
             (None, copy) \<Rightarrow> Some is_negative
           | (Some second_byte, copy) \<Rightarrow>
               if (first_byte = 0x00 \<and> second_byte AND 0x80 = 0) \<or>
                  (first_byte = 0xFF \<and> second_byte AND 0x80 \<noteq> 0)
               then None else Some is_negative))"

definition CBS_is_unsigned_asn1_integer :: "CBS \<Rightarrow> bool" where
  "CBS_is_unsigned_asn1_integer cbs = (CBS_is_valid_asn1_integer cbs = Some False)"

fun asn1_uint64_loop :: "u64 \<Rightarrow> bytes \<Rightarrow> nat \<Rightarrow> u64 option" where
  "asn1_uint64_loop out data 0 = Some out"
| "asn1_uint64_loop out data (Suc n) =
     (if drop_bit 56 out \<noteq> 0 then None
      else asn1_uint64_loop (push_bit 8 out OR ucast (hd data)) (tl data) n)"

definition CBS_get_asn1_uint64 :: "u64 parser" where
  "CBS_get_asn1_uint64 = p_bind (CBS_get_asn1 CBS_ASN1_INTEGER) (\<lambda>bytes cbs.
     if \<not> CBS_is_unsigned_asn1_integer bytes then (None, cbs)
     else (asn1_uint64_loop 0 (CBS_data bytes) (CBS_len bytes), cbs))"

text \<open>
  The union of an int64_t and its eight bytes, least significant first; the int64_t is the word,
  read with its sign.
\<close>

definition CBS_get_asn1_int64 :: "u64 parser" where
  "CBS_get_asn1_int64 = p_bind (CBS_get_asn1 CBS_ASN1_INTEGER) (\<lambda>bytes cbs.
     case CBS_is_valid_asn1_integer bytes of
       None \<Rightarrow> (None, cbs)
     | Some is_negative \<Rightarrow>
         (let data = CBS_data bytes; len = CBS_len bytes in
          if 8 < len then (None, cbs)
          else
            (let u = replicate 8 (if is_negative then 0xFF else 0);
                 u = fold (\<lambda>i u. u[i := data ! (len - i - 1)]) [0 ..< len] u in
             (Some (le_word u), cbs))))"

definition CBS_get_asn1_bool :: "bool parser" where
  "CBS_get_asn1_bool = p_bind (CBS_get_asn1 CBS_ASN1_BOOLEAN) (\<lambda>bytes cbs.
     if CBS_len bytes \<noteq> 1 then (None, cbs)
     else
       (let v = CBS_data bytes ! 0 in
        if v \<noteq> 0 \<and> v \<noteq> 0xFF then (None, cbs) else (Some (v \<noteq> 0), cbs)))"

definition CBS_is_valid_asn1_bitstring :: "CBS \<Rightarrow> bool" where
  "CBS_is_valid_asn1_bitstring cbs =
     (case CBS_get_u8 cbs of
        (None, inp) \<Rightarrow> False
      | (Some num_unused_bits, inp) \<Rightarrow>
          if 7 < num_unused_bits then False
          else if num_unused_bits = 0 then True
          else (case CBS_get_last_u8 inp of
                  (None, inp) \<Rightarrow> False
                | (Some last_byte, inp) \<Rightarrow>
                    last_byte AND (push_bit (unat num_unused_bits) 1 - 1) = 0))"

definition CBS_asn1_bitstring_has_bit :: "u32 \<Rightarrow> CBS \<Rightarrow> bool" where
  "CBS_asn1_bitstring_has_bit bt cbs =
     (if \<not> CBS_is_valid_asn1_bitstring cbs then False
      else
        (let byte_num = drop_bit 3 bt + 1; bit_num = 7 - (bt AND 7) in
         unat byte_num < CBS_len cbs \<and>
         CBS_data cbs ! unat byte_num AND push_bit (unat bit_num) 1 \<noteq> 0))"

subsection \<open>Optional fields\<close>

text \<open>\<open>None\<close> inside \<open>Some\<close>: the field is not there and the call succeeds.\<close>

definition CBS_get_optional_asn1 :: "u32 \<Rightarrow> CBS option parser" where
  "CBS_get_optional_asn1 tag cbs =
     (if CBS_peek_asn1_tag tag cbs
      then p_bind (CBS_get_asn1 tag) (\<lambda>out. p_return (Some out)) cbs
      else (Some None, cbs))"

text \<open>A field whose contents must be exactly what the inner parser reads.\<close>

definition CBS_get_optional_asn1_octet_string :: "u32 \<Rightarrow> (CBS \<times> bool) parser" where
  "CBS_get_optional_asn1_octet_string tag = p_bind (CBS_get_optional_asn1 tag) (\<lambda>child cbs.
     case child of
       None \<Rightarrow> (Some (CBS_init [] 0, False), cbs)
     | Some child \<Rightarrow>
         (case CBS_get_asn1 CBS_ASN1_OCTETSTRING child of
            (None, child) \<Rightarrow> (None, cbs)
          | (Some out, child) \<Rightarrow>
              if CBS_len child \<noteq> 0 then (None, cbs) else (Some (out, True), cbs)))"

definition CBS_get_optional_asn1_uint64 :: "u32 \<Rightarrow> u64 \<Rightarrow> u64 parser" where
  "CBS_get_optional_asn1_uint64 tag default_value = p_bind (CBS_get_optional_asn1 tag) (\<lambda>child cbs.
     case child of
       None \<Rightarrow> (Some default_value, cbs)
     | Some child \<Rightarrow>
         (case CBS_get_asn1_uint64 child of
            (None, child) \<Rightarrow> (None, cbs)
          | (Some out, child) \<Rightarrow> if CBS_len child \<noteq> 0 then (None, cbs) else (Some out, cbs)))"

definition CBS_get_optional_asn1_bool :: "u32 \<Rightarrow> int \<Rightarrow> int parser" where
  "CBS_get_optional_asn1_bool tag default_value = p_bind (CBS_get_optional_asn1 tag) (\<lambda>child cbs.
     case child of
       None \<Rightarrow> (Some default_value, cbs)
     | Some child \<Rightarrow>
         (case CBS_get_asn1 CBS_ASN1_BOOLEAN child of
            (None, child) \<Rightarrow> (None, cbs)
          | (Some child2, child) \<Rightarrow>
              if CBS_len child2 \<noteq> 1 \<or> CBS_len child \<noteq> 0 then (None, cbs)
              else
                (let boolean = CBS_data child2 ! 0 in
                 if boolean = 0 then (Some 0, cbs)
                 else if boolean = 0xFF then (Some 1, cbs)
                 else (None, cbs))))"

end
