(* ===== verification/Asn1_Der.thy ===== *)
theory Asn1_Der
  imports Cbs_Asn1
begin

text \<open>
  The DER encoding as a specification: base-128 numbers, tags, lengths and elements, as functions
  from values to bytes. The parsers of Cbs_Asn1 accept exactly these encodings, which makes them
  canonical codecs; the BER parser accepts more, which is described by \<open>b_element\<close>.
\<close>

subsection \<open>Base-128 numbers\<close>

fun base128_high :: "nat \<Rightarrow> bytes" where
  "base128_high n = (if n = 0 then [] else base128_high (n div 128) @ [of_nat (n mod 128 + 128)])"

declare base128_high.simps [simp del]

definition base128 :: "nat \<Rightarrow> bytes" where
  "base128 n = base128_high (n div 128) @ [of_nat (n mod 128)]"

fun b_base128 :: "nat \<Rightarrow> bytes \<Rightarrow> (nat \<times> bytes) option" where
  "b_base128 v [] = None"
| "b_base128 v (b # bs) =
     (if 2 ^ 57 \<le> v \<or> (v = 0 \<and> b = 128) then None
      else if 128 \<le> unat b then b_base128 (128 * v + unat b mod 128) bs
      else Some (128 * v + unat b mod 128, bs))"

lemma not_128_le_mod [simp]: "\<not> 128 \<le> n mod (128 :: nat)"
  by (simp add: not_le)

lemma base128_high_0 [simp]: "base128_high 0 = []"
  by (simp add: base128_high.simps)

lemma base128_high_snoc:
  "(v, n) \<noteq> (0, 0) \<Longrightarrow> n < 128 \<Longrightarrow> base128_high (128 * v + n) = base128_high v @ [of_nat (n + 128)]"
  by (subst base128_high.simps) auto

lemma base128_last: "n < 128 \<Longrightarrow> base128 (128 * v + n) = base128_high v @ [of_nat n]"
  by (simp add: base128_def)

lemma u8_split: "(b :: u8) = of_nat (unat b mod 128 + (if 128 \<le> unat b then 128 else 0))"
proof -
  have *: "unat b = unat b mod 128 + (if 128 \<le> unat b then 128 else 0)"
  proof (cases "128 \<le> unat b")
    case True
    then obtain k where k: "unat b = 128 + k" using le_Suc_ex by blast
    then have "k < 128" using unat_u8_lt [of b] by simp
    with k show ?thesis by simp
  qed simp
  show ?thesis by (subst * [symmetric]) simp
qed

lemma b_base128_sound:
  "b_base128 v bs = Some (w, rest) \<Longrightarrow> v < 2 ^ 64 \<Longrightarrow> w < 2 ^ 64 \<and> base128_high v @ bs = base128 w @ rest"
proof (induction v bs rule: b_base128.induct)
  case (2 v b bs)
  let ?n = "unat b mod 128"
  from "2.prems" have guard: "v < 2 ^ 57" "\<not> (v = 0 \<and> b = 128)" by (auto split: if_splits)
  then have bound: "128 * v + ?n < 2 ^ 64" by simp
  show ?case
  proof (cases "128 \<le> unat b")
    case True
    with guard have nz: "(v, ?n) \<noteq> (0, 0)" using u8_split [of b] by auto
    have "b = of_nat (?n + 128)" using u8_split [of b] True by simp
    then have "base128_high v @ b # bs = base128_high (128 * v + ?n) @ bs"
      using base128_high_snoc [OF nz] by simp
    moreover have "w < 2 ^ 64 \<and> base128_high (128 * v + ?n) @ bs = base128 w @ rest"
      using "2.IH" "2.prems" guard True bound by auto
    ultimately show ?thesis by simp
  next
    case False
    then have "b = of_nat ?n" using u8_split [of b] by simp
    then have "base128_high v @ b # bs = base128 (128 * v + ?n) @ bs"
      using base128_last [of ?n v] by simp
    then show ?thesis using "2.prems" guard False bound by auto
  qed
qed simp

lemma b_base128_high:
  "n < 2 ^ 57 \<Longrightarrow> b_base128 0 (base128_high n @ rest) = b_base128 n rest"
proof (induction n arbitrary: rest rule: base128_high.induct)
  case (1 n)
  show ?case
  proof (cases "n = 0")
    case False
    let ?b = "of_nat (n mod 128 + 128) :: u8"
    have b: "unat ?b = n mod 128 + 128" by (simp add: unat_of_nat del: of_nat_add)
    have "base128_high n @ rest = base128_high (n div 128) @ ?b # rest"
      using False by (subst base128_high.simps) simp
    then have "b_base128 0 (base128_high n @ rest) = b_base128 (n div 128) (?b # rest)"
      using 1 False by simp
    moreover have "?b = 128 \<longleftrightarrow> n mod 128 = 0" by (simp add: word_unat_eq_iff b del: of_nat_add)
    ultimately show ?thesis
      using 1(2) False b by (auto simp del: of_nat_add)
  qed simp
qed

lemma b_base128_iff: "b_base128 0 bs = Some (n, rest) \<longleftrightarrow> n < 2 ^ 64 \<and> bs = base128 n @ rest"
proof
  assume "b_base128 0 bs = Some (n, rest)"
  then show "n < 2 ^ 64 \<and> bs = base128 n @ rest" using b_base128_sound [of 0 bs n rest] by simp
next
  assume a: "n < 2 ^ 64 \<and> bs = base128 n @ rest"
  let ?b = "of_nat (n mod 128) :: u8"
  have b: "unat ?b = n mod 128" by (simp add: unat_of_nat)
  then have "?b \<noteq> 128" by (auto simp: word_unat_eq_iff)
  have small: "n div 128 < 2 ^ 57" "n mod 128 < 128" using a by auto
  have "b_base128 0 bs = b_base128 (n div 128) (?b # rest)"
    using a b_base128_high [OF small(1)] by (simp add: base128_def del: b_base128.simps)
  also have "\<dots> = Some (n, rest)" using a b \<open>?b \<noteq> 128\<close> small by simp
  finally show "b_base128 0 bs = Some (n, rest)" .
qed

text \<open>The loop of the code adds the seven bits with a shift and an OR.\<close>

lemma base128_step:
  fixes b :: u8
  assumes "n < 2 ^ 57"
  shows "push_bit 7 (of_nat n) OR ucast (b AND 0x7F) = (of_nat (128 * n + unat b mod 128) :: u64)"
proof -
  have "(ucast (b AND 0x7F) :: u64) = of_nat (unat b mod 128)"
    by (rule word_unat_eq_iff [THEN iffD2]) (simp add: width_simps unat_of_nat)
  moreover have "(of_nat (unat b mod 128 + 2 ^ 7 * n) :: u64) = of_nat (unat b mod 128) OR push_bit 7 (of_nat n)"
    by (rule of_nat_or_push_bit) simp
  ultimately show ?thesis by (simp add: or.commute add.commute)
qed

text \<open>One round of the loop on the bytes of the window.\<close>

lemma CBS_get_u8_view:
  assumes "wf_cbs c"
  shows "(case view c of
      [] \<Rightarrow> \<exists>c'. CBS_get_u8 c = (None, c') \<and> wf_cbs c' \<and> c_len c' \<le> c_len c
    | b # bs \<Rightarrow> \<exists>c'. CBS_get_u8 c = (Some b, c') \<and> wf_cbs c' \<and> c_len c' < c_len c \<and> view c' = bs)"
proof -
  obtain r c' where p: "CBS_get_u8 c = (r, c')" by (cases "CBS_get_u8 c")
  note facts = reads_asD [OF CBS_get_u8_reads assms p]
  show ?thesis
  proof (cases "view c")
    case Nil
    then show ?thesis using facts(1-3) p by (auto simp: b_be_def)
  next
    case (Cons b bs)
    then have "b_be 1 (view c) = Some (unat b, bs)" by (simp add: b_be_def)
    from facts(4) [OF this] have r: "r = Some b" "view c' = bs" by auto
    moreover have "c_len c' < c_len c" using CBS_get_u8_shorter [of c b c'] p r by simp
    ultimately show ?thesis using facts(1) p Cons by auto
  qed
qed

lemma drop_57_iff: "n < 2 ^ 64 \<Longrightarrow> drop_bit 57 (of_nat n :: u64) \<noteq> 0 \<longleftrightarrow> 2 ^ 57 \<le> n"
  by (simp add: word_unat_eq_iff unat_drop_bit unat_of_nat div_eq_0_iff not_less)

lemma base128_loop_view:
  assumes "n < 2 ^ 64" "wf_cbs c" "base128_loop (of_nat n) c = (r, c')"
  shows "wf_cbs c' \<and> c_len c' \<le> c_len c \<and>
    (case b_base128 n (view c) of
       None \<Rightarrow> r = None
     | Some (v, rest) \<Rightarrow> (\<exists>w. r = Some w \<and> unat w = v) \<and> view c' = rest)"
  using assms
proof (induction "view c" arbitrary: n c)
  case Nil
  then show ?case
    using CBS_get_u8_view [OF Nil(3)] by (subst (asm) base128_loop.simps) auto
next
  case (Cons b bs)
  obtain c1 where c1: "CBS_get_u8 c = (Some b, c1)" "wf_cbs c1" "c_len c1 < c_len c" "view c1 = bs"
    using CBS_get_u8_view [OF Cons.prems(2)] Cons.hyps(2) by (auto split: list.splits)
  let ?m = "128 * n + unat b mod 128"
  note unfold = base128_loop.simps [of "of_nat n" c]
  show ?case
  proof (cases "2 ^ 57 \<le> n \<or> (n = 0 \<and> b = 128)")
    case True
    have zero: "(of_nat n :: u64) = 0 \<longleftrightarrow> n = 0"
      using Cons.prems(1) by (simp add: word_unat_eq_iff unat_of_nat)
    have "r = None \<and> c' = c1"
      using Cons.prems(3) True drop_57_iff [OF Cons.prems(1)] unfolding unfold c1(1) zero
      by (auto split: if_splits)
    then show ?thesis using c1 True by (auto simp flip: Cons.hyps(2))
  next
    case False
    have "unat b mod 128 < 128" by simp
    moreover have "n < 144115188075855872" using False by simp
    ultimately have "?m < 18446744073709551616" by linarith
    then have m: "?m < 2 ^ 64" by simp
    have zero: "(of_nat n :: u64) = 0 \<longleftrightarrow> n = 0"
      using Cons.prems(1) by (simp add: word_unat_eq_iff unat_of_nat)
    have step: "base128_loop (of_nat n) c =
        (if 128 \<le> unat b then base128_loop (of_nat ?m) c1 else (Some (of_nat ?m), c1))"
      using False drop_57_iff [OF Cons.prems(1)] base128_step [of n b] unfolding unfold c1(1) zero
      by (auto simp: Let_def and_high_bit_u8 simp del: of_nat_add of_nat_mult)
    show ?thesis
    proof (cases "128 \<le> unat b")
      case True
      then have "base128_loop (of_nat ?m) c1 = (r, c')" using step Cons.prems(3) by simp
      from Cons.hyps(1) [OF c1(4) [symmetric] m c1(2) this] show ?thesis
        using True False c1 by (auto simp flip: Cons.hyps(2) split: option.splits)
    next
      case small: False
      then show ?thesis
        using step Cons.prems(3) False c1 m
        by (auto simp: unat_of_nat simp flip: Cons.hyps(2) simp del: of_nat_add of_nat_mult)
    qed
  qed
qed

lemma parse_base128_integer_reads [reads]:
  "reads_as (\<lambda>w v. unat w = v) parse_base128_integer (b_base128 0)"
  unfolding reads_as_def parse_base128_integer_def
  using base128_loop_view [of 0] by (auto split: prod.split)

subsection \<open>Tags\<close>

text \<open>
  A tag as the code keeps it: class and constructed bit in the top three bits, the number in the
  other 29.
\<close>

definition der_tag :: "u32 \<Rightarrow> bytes" where
  "der_tag t =
     (let c = unat t div 2 ^ 29; n = unat t mod 2 ^ 29 in
      if n < 31 then [of_nat (32 * c + n)] else of_nat (32 * c + 31) # base128 n)"

fun b_tag :: "bytes \<Rightarrow> (u32 \<times> bytes) option" where
  "b_tag [] = None"
| "b_tag (b # bs) =
     (let c = unat b div 32; n = unat b mod 32 in
      if n = 31
      then (case b_base128 0 bs of
              None \<Rightarrow> None
            | Some (v, rest) \<Rightarrow>
                if 2 ^ 29 \<le> v \<or> v < 31 then None else Some (of_nat (v + 2 ^ 29 * c), rest))
      else Some (of_nat (n + 2 ^ 29 * c), bs))"

lemma u8_div_32: "unat (b :: u8) div 32 < 8"
  using unat_u8_lt [of b] by (simp add: div_less_iff_less_mult)

lemma tag_parts:
  assumes "c < 8" "v < 2 ^ 29"
  shows "unat (of_nat (v + 2 ^ 29 * c) :: u32) div 2 ^ 29 = c"
    "unat (of_nat (v + 2 ^ 29 * c) :: u32) mod 2 ^ 29 = v"
proof -
  have "v + 2 ^ 29 * c < 2 ^ 32" using assms by simp
  then have u: "unat (of_nat (v + 2 ^ 29 * c) :: u32) = v + 2 ^ 29 * c"
    by (simp add: unat_of_nat del: of_nat_add of_nat_mult)
  show "unat (of_nat (v + 2 ^ 29 * c) :: u32) div 2 ^ 29 = c"
    "unat (of_nat (v + 2 ^ 29 * c) :: u32) mod 2 ^ 29 = v"
    using assms(2) unfolding u by simp_all
qed

lemma tag_of_parts: "(of_nat (unat t mod 2 ^ 29 + 2 ^ 29 * (unat t div 2 ^ 29)) :: u32) = t"
  by (simp only: mod_mult_div_eq) simp

lemma tag_class: "unat (t :: u32) div 2 ^ 29 < 8"
  using unat_u32_lt [of t] by (simp add: div_less_iff_less_mult)

lemma first_byte:
  assumes "c < 8" "n < 32"
  shows "unat (of_nat (32 * c + n) :: u8) div 32 = c" "unat (of_nat (32 * c + n) :: u8) mod 32 = n"
proof -
  have "32 * c + n < 256" using assms by simp
  then have u: "unat (of_nat (32 * c + n) :: u8) = 32 * c + n"
    by (simp add: unat_of_nat del: of_nat_add of_nat_mult)
  show "unat (of_nat (32 * c + n) :: u8) div 32 = c" "unat (of_nat (32 * c + n) :: u8) mod 32 = n"
    using assms(2) unfolding u by simp_all
qed

lemma of_first_byte: "(of_nat (32 * (unat b div 32) + unat b mod 32) :: u8) = b"
  by (simp only: mult_div_mod_eq) simp

lemma b_tag_sound: "b_tag bs = Some (t, rest) \<Longrightarrow> bs = der_tag t @ rest"
proof (cases bs)
  case (Cons b bs')
  assume tag: "b_tag bs = Some (t, rest)"
  let ?c = "unat b div 32" and ?n = "unat b mod 32"
  show ?thesis
  proof (cases "?n = 31")
    case True
    then obtain v where v: "b_base128 0 bs' = Some (v, rest)" "v < 2 ^ 29" "31 \<le> v"
      "t = of_nat (v + 2 ^ 29 * ?c)"
      using tag Cons by (auto simp del: of_nat_add of_nat_mult split: option.splits if_splits)
    note parts = tag_parts [OF u8_div_32 v(2), of b]
    have "b = of_nat (32 * ?c + 31)" using of_first_byte [of b] True by simp
    moreover have "bs' = base128 v @ rest" using v(1) b_base128_iff by blast
    ultimately show ?thesis
      using v(3) unfolding Cons der_tag_def v(4) parts Let_def by simp
  next
    case False
    then have t: "t = of_nat (?n + 2 ^ 29 * ?c)" "rest = bs'"
      using tag Cons by (auto simp del: of_nat_add of_nat_mult)
    have "?n < 32" by simp
    then have n: "?n < 2 ^ 29" "?n < 31" using False by auto
    note parts = tag_parts [OF u8_div_32 n(1), of b]
    show ?thesis
      using n(2) of_first_byte [of b] unfolding Cons der_tag_def t parts Let_def by simp
  qed
qed simp

lemma b_tag_complete: "b_tag (der_tag t @ rest) = Some (t, rest)"
proof -
  let ?c = "unat t div 2 ^ 29" and ?n = "unat t mod 2 ^ 29"
  have c: "?c < 8" by (rule tag_class)
  have t: "of_nat (?n + 2 ^ 29 * ?c) = t" by (rule tag_of_parts)
  show ?thesis
  proof (cases "?n < 31")
    case True
    then have n: "?n < 32" by simp
    have "b_tag (of_nat (32 * ?c + ?n) # rest) = Some (t, rest)"
      unfolding b_tag.simps Let_def first_byte [OF c n] t using True by simp
    then show ?thesis using True by (simp add: der_tag_def Let_def)
  next
    case False
    have n: "(31 :: nat) < 32" by simp
    have lt: "?n < 2 ^ 29" by (rule mod_less_divisor) simp
    then have "b_base128 0 (base128 ?n @ rest) = Some (?n, rest)" by (simp add: b_base128_iff)
    then have "b_tag (of_nat (32 * ?c + 31) # base128 ?n @ rest) = Some (t, rest)"
      unfolding b_tag.simps Let_def first_byte [OF c n] using False lt by (simp add: t del: of_nat_add of_nat_mult)
    then show ?thesis using False by (simp add: der_tag_def Let_def)
  qed
qed

lemma b_tag_iff: "b_tag bs = Some (t, rest) \<longleftrightarrow> bs = der_tag t @ rest"
  using b_tag_sound b_tag_complete by blast

text \<open>The words of the code.\<close>

lemma tag_byte_class: "push_bit 24 (ucast (b :: u8) AND 0xE0 :: u32) = push_bit 29 (of_nat (unat b div 32))"
proof -
  have m: "(0xE0 :: u32) = push_bit 5 (mask 3)" by code_simp
  have "(ucast b AND 0xE0 :: u32) = push_bit 5 (ucast (drop_bit 5 b))"
    unfolding m by (rule bit_word_eqI) (auto simp: bit_simps dest: bit_imp_le_length)
  also have "(ucast (drop_bit 5 b) :: u32) = of_nat (unat (drop_bit 5 b))" by simp
  also have "unat (drop_bit 5 b) = unat b div 32" by (simp add: width_simps)
  finally show ?thesis by simp
qed

lemma tag_byte_number: "(ucast ((b :: u8) AND 0x1F) :: u32) = of_nat (unat b mod 32)"
proof -
  have "(ucast (b AND 0x1F) :: u32) = of_nat (unat (b AND 0x1F))" by simp
  then show ?thesis by (simp only: width_simps) simp
qed

lemma of_nat_tag:
  "v < 2 ^ 29 \<Longrightarrow> push_bit 24 (ucast (b :: u8) AND 0xE0 :: u32) OR of_nat v = of_nat (v + 2 ^ 29 * (unat b div 32))"
  unfolding tag_byte_class by (subst of_nat_or_push_bit) (simp_all add: or.commute)

lemma CBS_get_u8_unat: "reads_as (\<lambda>w v. unat w = v) CBS_get_u8 (b_be 1)"
proof (rule reads_as_strengthen [OF CBS_get_u8_reads])
  fix bs rest and w :: u8 and v :: nat
  assume "b_be 1 bs = Some (v, rest)" "w = of_nat v"
  then show "unat w = v"
    using be_nat_take_lt [of 1 bs] by (auto simp: b_be_def unat_of_nat split: if_splits)
qed

lemma parse_asn1_tag_reads [reads]: "reads_as (=) parse_asn1_tag b_tag"
proof -
  let ?long = "\<lambda>b. b_bind (b_base128 0) (\<lambda>v rest.
     if 2 ^ 29 \<le> v \<or> v < 31 then None else Some (of_nat (v + 2 ^ 29 * (b div 32)) :: u32, rest))"
  let ?q = "b_bind (b_be 1) (\<lambda>b.
     if b mod 32 = 31 then ?long b else (\<lambda>bs. Some (of_nat (b mod 32 + 2 ^ 29 * (b div 32)), bs)))"
  have "reads_as (=) parse_asn1_tag ?q"
    unfolding parse_asn1_tag_def Let_def
  proof (rule reads_as_bind [OF CBS_get_u8_unat])
    fix b :: u8 and n :: nat assume n: "unat b = n"
    have number: "(ucast (b AND 0x1F) :: u32) = 0x1F \<longleftrightarrow> n mod 32 = 31"
      unfolding tag_byte_number n by (simp add: word_unat_eq_iff unat_of_nat)
    have long: "reads_as (=)
        (p_bind parse_base128_integer (\<lambda>v.
           if ucast CBS_ASN1_TAG_NUMBER_MASK < v \<or> v < 0x1F then p_fail
           else p_return (push_bit CBS_ASN1_TAG_SHIFT (ucast b AND 0xE0) OR ucast v))) (?long n)"
    proof (rule reads_as_bind [OF parse_base128_integer_reads])
      fix v :: u64 and k :: nat assume k: "unat v = k"
      then have v: "v = of_nat k" by (simp flip: k)
      have range: "ucast CBS_ASN1_TAG_NUMBER_MASK < v \<or> v < 0x1F \<longleftrightarrow> 2 ^ 29 \<le> k \<or> k < 31"
        using k by (auto simp: word_less_nat_alt)
      have "push_bit CBS_ASN1_TAG_SHIFT (ucast b AND 0xE0 :: u32) OR ucast v = of_nat (k + 2 ^ 29 * (n div 32))"
        if "k < 2 ^ 29"
        using of_nat_tag [OF that, of b] n unfolding v by (simp add: ucast_of_nat_down)
      then show "reads_as (=)
          (if ucast CBS_ASN1_TAG_NUMBER_MASK < v \<or> v < 0x1F then p_fail
           else p_return (push_bit CBS_ASN1_TAG_SHIFT (ucast b AND 0xE0) OR ucast v))
          (\<lambda>rest. if 2 ^ 29 \<le> k \<or> k < 31 then None else Some (of_nat (k + 2 ^ 29 * (n div 32)) :: u32, rest))"
        unfolding range by (auto intro!: reads_as_fail reads_as_return)
    qed
    have "push_bit CBS_ASN1_TAG_SHIFT (ucast b AND 0xE0 :: u32) OR ucast (b AND 0x1F) =
        of_nat (n mod 32 + 2 ^ 29 * (n div 32))"
      using of_nat_tag [of "n mod 32" b] n unfolding tag_byte_number
      by (simp add: order_less_trans [OF mod_less_divisor])
    then show "reads_as (=)
        (if ucast (b AND 0x1F) = (0x1F :: u32)
         then p_bind parse_base128_integer (\<lambda>v.
           if ucast CBS_ASN1_TAG_NUMBER_MASK < v \<or> v < 0x1F then p_fail
           else p_return (push_bit CBS_ASN1_TAG_SHIFT (ucast b AND 0xE0) OR ucast v))
         else p_return (push_bit CBS_ASN1_TAG_SHIFT (ucast b AND 0xE0) OR ucast (b AND 0x1F)))
        (if n mod 32 = 31 then ?long n else (\<lambda>bs. Some (of_nat (n mod 32 + 2 ^ 29 * (n div 32)), bs)))"
      unfolding number using long by (auto intro: reads_as_return)
  qed
  moreover have "?q bs = b_tag bs" for bs
    by (cases bs) (auto simp: b_bind_def b_be_def Let_def split: option.splits)
  ultimately show ?thesis by (rule reads_as_cong)
qed

subsection \<open>Lengths\<close>

definition length_bytes :: "nat \<Rightarrow> nat" where
  "length_bytes n = (if n < 2 ^ 8 then 1 else if n < 2 ^ 16 then 2 else if n < 2 ^ 24 then 3 else 4)"

definition der_length :: "nat \<Rightarrow> bytes" where
  "der_length n =
     (if n < 128 then [of_nat n] else of_nat (128 + length_bytes n) # be_bytes (length_bytes n) n)"

fun b_length :: "bytes \<Rightarrow> (nat \<times> bytes) option" where
  "b_length [] = None"
| "b_length (b # bs) =
     (if unat b < 128 then Some (unat b, bs)
      else
        (let k = unat b - 128 in
         if k = 0 \<or> 4 < k then None
         else (case b_be k bs of
                 None \<Rightarrow> None
               | Some (n, rest) \<Rightarrow> if n < 128 \<or> n < 256 ^ (k - 1) then None else Some (n, rest))))"

lemma length_bytes_eqI:
  assumes "1 \<le> k" "k \<le> 4" "128 \<le> n" "256 ^ (k - 1) \<le> n" "n < 256 ^ k"
  shows "length_bytes n = k"
proof -
  consider "k = 1" | "k = 2" | "k = 3" | "k = 4" using assms(1,2) by linarith
  then show ?thesis using assms(3-5) by cases (simp_all add: length_bytes_def)
qed

lemma length_bytes_range:
  assumes "n < 2 ^ 32" "128 \<le> n"
  shows "1 \<le> length_bytes n" "length_bytes n \<le> 4" "256 ^ (length_bytes n - 1) \<le> n" "n < 256 ^ length_bytes n"
  using assms by (auto simp: length_bytes_def)

lemma b_length_iff: "b_length bs = Some (n, rest) \<longleftrightarrow> n < 2 ^ 32 \<and> bs = der_length n @ rest"
proof
  assume len: "b_length bs = Some (n, rest)"
  then obtain b bs' where bs: "bs = b # bs'" by (cases bs) auto
  show "n < 2 ^ 32 \<and> bs = der_length n @ rest"
  proof (cases "unat b < 128")
    case True
    then have "n = unat b" "rest = bs'" using len bs by auto
    moreover have "b = of_nat (unat b)" by simp
    ultimately show ?thesis using True bs by (simp add: der_length_def)
  next
    case False
    let ?k = "unat b - 128"
    have k: "1 \<le> ?k" "?k \<le> 4" and n: "b_be ?k bs' = Some (n, rest)" "128 \<le> n" "256 ^ (?k - 1) \<le> n"
      using len False unfolding bs by (auto simp: Let_def split: if_splits option.splits)
    have be: "n = be_nat (take ?k bs')" "rest = drop ?k bs'" "length (take ?k bs') = ?k"
      using n(1) by (auto simp: b_be_def split: if_splits)
    have lt: "n < 256 ^ ?k" using be_nat_take_lt [of ?k bs'] be(1) by simp
    then have lb: "length_bytes n = ?k" by (intro length_bytes_eqI k n)
    have "(256 :: nat) ^ ?k \<le> 256 ^ 4" using k(2) by (intro power_increasing) auto
    then have "n < 2 ^ 32" using lt by simp
    moreover have "be_bytes ?k n = take ?k bs'"
      using be_bytes_be_nat [of "take ?k bs'"] be(1,3) by simp
    moreover have "b = of_nat (128 + ?k)" using False by simp
    ultimately show ?thesis
      using n(2) be(2) unfolding bs der_length_def lb by simp
  qed
next
  assume a: "n < 2 ^ 32 \<and> bs = der_length n @ rest"
  show "b_length bs = Some (n, rest)"
  proof (cases "n < 128")
    case True
    then show ?thesis using a by (simp add: der_length_def unat_of_nat)
  next
    case False
    then have "128 \<le> n" by simp
    note range = length_bytes_range [OF conjunct1 [OF a] this]
    let ?k = "length_bytes n"
    have b: "unat (of_nat (128 + ?k) :: u8) = 128 + ?k"
      using range(2) by (simp add: unat_of_nat del: of_nat_add)
    have "b_be ?k (be_bytes ?k n @ rest) = Some (n, rest)"
      using range(4) by (simp add: b_be_def)
    then show ?thesis
      using a False range b by (simp add: der_length_def Let_def not_le not_less del: of_nat_add)
  qed
qed

subsection \<open>Elements\<close>

definition der_element :: "u32 \<Rightarrow> bytes \<Rightarrow> bytes" where
  "der_element t contents = der_tag t @ der_length (length contents) @ contents"

text \<open>The element parser of DER, and with \<open>ber\<close> what the code accepts of BER.\<close>

definition b_der :: "bytes \<Rightarrow> ((u32 \<times> bytes) \<times> bytes) option" where
  "b_der = b_bind b_tag (\<lambda>t. b_bind b_length (\<lambda>n. b_bind (b_take n) (\<lambda>contents rest. Some ((t, contents), rest))))"

lemma b_der_iff:
  "b_der bs = Some ((t, contents), rest) \<longleftrightarrow> length contents < 2 ^ 32 \<and> bs = der_element t contents @ rest"
proof
  assume "b_der bs = Some ((t, contents), rest)"
  then obtain r1 n r2 where 1: "b_tag bs = Some (t, r1)" "b_length r1 = Some (n, r2)"
    "b_take n r2 = Some (contents, rest)"
    by (auto simp: b_der_def b_bind_def split: option.splits)
  from 1(3) have "contents @ rest = r2" "length contents = n" by (auto simp: b_take_def split: if_splits)
  with 1(1,2) show "length contents < 2 ^ 32 \<and> bs = der_element t contents @ rest"
    unfolding b_tag_iff b_length_iff der_element_def by simp
next
  assume a: "length contents < 2 ^ 32 \<and> bs = der_element t contents @ rest"
  have "b_length (der_length (length contents) @ contents @ rest) = Some (length contents, contents @ rest)"
    using a by (simp add: b_length_iff)
  then show "b_der bs = Some ((t, contents), rest)"
    using a by (simp add: b_der_def b_bind_def der_element_def b_tag_complete b_take_def)
qed

definition b_element :: "bool \<Rightarrow> bytes \<Rightarrow> ((bytes \<times> u32 \<times> nat \<times> bool) \<times> bytes) option" where
  "b_element ber bs =
     (case b_tag bs of
        None \<Rightarrow> None
      | Some (t, []) \<Rightarrow> None
      | Some (t, b # h) \<Rightarrow>
          (let hl = length bs - length h;
               cut = (\<lambda>total hl f. if length bs < total then None
                                    else Some ((take total bs, t, hl, f), drop total bs)) in
           if unat b < 128 then cut (hl + unat b) hl False
           else
             (let k = unat b - 128 in
              if ber \<and> t AND CBS_ASN1_CONSTRUCTED \<noteq> 0 \<and> k = 0 then cut hl hl True
              else if k = 0 \<or> 4 < k then None
              else (case b_be k h of
                      None \<Rightarrow> None
                    | Some (n, rest) \<Rightarrow>
                        (let f = (n < 128 \<or> n < 256 ^ (k - 1)) in
                         if f \<and> \<not> ber then None else cut (hl + k + n) (hl + k) f)))))"

text \<open>Without \<open>ber\<close>, the elements are those of DER.\<close>

lemma b_element_b_length:
  assumes "b_tag bs = Some (t, h)"
  shows "b_element False bs =
    (case b_length h of
       None \<Rightarrow> None
     | Some (n, r) \<Rightarrow>
         (let hdr = length bs - length r in
          if length r < n then None else Some ((take (hdr + n) bs, t, hdr, False), drop (hdr + n) bs)))"
proof (cases h)
  case Nil
  then show ?thesis using assms by (simp add: b_element_def)
next
  case (Cons b h')
  have bs: "bs = der_tag t @ b # h'" using assms Cons b_tag_iff by simp
  show ?thesis
  proof (cases "unat b < 128")
    case True
    then show ?thesis using assms Cons bs by (simp add: b_element_def Let_def)
  next
    case False
    then obtain k where k: "unat b = 128 + k" using le_Suc_ex [of 128 "unat b"] by auto
    show ?thesis
    proof (cases "b_be (unat b - 128) h'")
      case None
      then show ?thesis using assms Cons False by (simp add: b_element_def Let_def)
    next
      case (Some nr)
      obtain n r where nr: "nr = (n, r)" by (cases nr)
      have "length h' = (unat b - 128) + length r"
        using Some nr by (auto simp: b_be_def split: if_splits)
      then have h': "length h' = k + length r" using k by simp
      have hdr: "length bs - length r = length bs - length h' + k"
        and short: "length bs < length bs - length h' + k + n \<longleftrightarrow> length r < n"
        using bs h' by auto
      have be: "b_be k h' = Some (n, r)" using Some nr k by simp
      show ?thesis
        unfolding b_element_def assms Cons by (simp add: k be Let_def hdr short)
    qed
  qed
qed

lemma b_element_der:
  "b_element False bs =
     map_option (\<lambda>((t, contents), rest).
        ((der_element t contents, t, length (der_tag t @ der_length (length contents)), False), rest)) (b_der bs)"
proof (cases "b_tag bs")
  case None
  then show ?thesis by (simp add: b_element_def b_der_def b_bind_def)
next
  case (Some th)
  obtain t h where th: "th = (t, h)" by (cases th)
  note tag = Some [unfolded th]
  show ?thesis
  proof (cases "b_length h")
    case None
    then show ?thesis using tag by (simp add: b_element_b_length [OF tag] b_der_def b_bind_def)
  next
    case (Some nr)
    obtain n r where nr: "nr = (n, r)" by (cases nr)
    have bs: "bs = der_tag t @ der_length n @ r"
      using b_tag_iff [THEN iffD1, OF tag] b_length_iff [THEN iffD1, OF Some [unfolded nr]] by simp
    show ?thesis
    proof (cases "length r < n")
      case True
      then show ?thesis
        using tag Some nr by (simp add: b_element_b_length [OF tag] b_der_def b_bind_def b_take_def)
    next
      case False
      then show ?thesis
        using Some nr unfolding b_element_b_length [OF tag]
        by (simp add: tag b_der_def b_bind_def b_take_def der_element_def) (simp add: bs)
    qed
  qed
qed

lemma unat_high_bit_byte:
  assumes "\<not> unat b < 128"
  shows "unat ((b :: u8) AND 0x7F) = unat b - 128"
proof -
  obtain k where k: "unat b = 128 + k" using assms le_Suc_ex [of 128 "unat b"] by auto
  then have "k < 128" using unat_u8_lt [of b] by simp
  then show ?thesis by (simp add: width_simps k)
qed

text \<open>What \<open>reads_as\<close> says of one window.\<close>

definition outcome :: "('a \<Rightarrow> 'b \<Rightarrow> bool) \<Rightarrow> CBS \<Rightarrow> 'a option \<times> CBS \<Rightarrow> ('b \<times> bytes) option \<Rightarrow> bool" where
  "outcome R c pr qr \<longleftrightarrow>
     (case pr of (r, c') \<Rightarrow>
        wf_cbs c' \<and> c_len c' \<le> c_len c \<and>
        (case qr of None \<Rightarrow> r = None | Some (y, rest) \<Rightarrow> (\<exists>x. r = Some x \<and> R x y) \<and> view c' = rest))"

lemma reads_as_outcome: "reads_as R p q \<longleftrightarrow> (\<forall>c. wf_cbs c \<longrightarrow> outcome R c (p c) (q (view c)))"
  by (simp add: reads_as_def outcome_def)

lemma outcome_fail [simp]: "wf_cbs c \<Longrightarrow> outcome R c (None, c) None"
  by (simp add: outcome_def)

abbreviation (input) same_element :: "CBS \<times> 'x \<Rightarrow> bytes \<times> 'x \<Rightarrow> bool" where
  "same_element \<equiv> \<lambda>(out, x1) (bs, x2). shows_bytes out bs \<and> x1 = x2"

lemma get_element:
  assumes "wf_cbs c"
  shows "outcome same_element c (p_bind (CBS_get_bytes k) (\<lambda>out. p_return (out, x)) c)
    (if length (view c) < k then None else Some ((take k (view c), x), drop k (view c)))"
proof -
  have "reads_as same_element (p_bind (CBS_get_bytes k) (\<lambda>out. p_return (out, x)))
      (\<lambda>bs. map_option (apfst (\<lambda>b. (b, x))) (b_take k bs))"
    by (rule reads_as_map [OF CBS_get_bytes_reads]) simp
  then have "outcome same_element c (p_bind (CBS_get_bytes k) (\<lambda>out. p_return (out, x)) c)
      (map_option (apfst (\<lambda>b. (b, x))) (b_take k (view c)))"
    using assms unfolding reads_as_outcome by blast
  moreover have "map_option (apfst (\<lambda>b. (b, x))) (b_take k (view c)) =
      (if length (view c) < k then None else Some ((take k (view c), x), drop k (view c)))"
    by (simp add: b_take_def)
  ultimately show ?thesis by simp
qed

lemma cbs_get_any_asn1_element_at:
  assumes wf: "wf_cbs c"
  shows "outcome same_element c (cbs_get_any_asn1_element ber c) (b_element ber (view c))"
proof -
  obtain r1 c1 where p1: "parse_asn1_tag c = (r1, c1)" by (cases "parse_asn1_tag c")
  note tag = reads_asD [OF parse_asn1_tag_reads wf p1]
  have len: "c_len c < 2 ^ 63" "length (view c) = c_len c" using wf by (simp_all add: wf_cbs_def)
  show ?thesis
  proof (cases "b_tag (view c)")
    case None
    then show ?thesis using tag(3) wf by (simp add: b_element_def cbs_get_any_asn1_element_def p1)
  next
    case (Some th)
    obtain t h where th: "th = (t, h)" by (cases th)
    have r1: "r1 = Some t" "view c1 = h" using tag(4) Some th by auto
    show ?thesis
    proof (cases h)
      case Nil
      then show ?thesis
        using Some th r1 wf CBS_get_u8_view [OF tag(1)]
        by (auto simp: b_element_def cbs_get_any_asn1_element_def p1)
    next
      case (Cons b h')
      then obtain c2 where c2: "CBS_get_u8 c1 = (Some b, c2)" "wf_cbs c2" "c_len c2 < c_len c1" "view c2 = h'"
        using CBS_get_u8_view [OF tag(1)] r1(2) by auto
      let ?hl = "length (view c) - length h'"
      have "c_len c2 \<le> c_len c" using c2(3) tag(2) by simp
      then have hl: "size_sub (CBS_len c) (CBS_len c2) = ?hl" "?hl < 2 ^ 63"
        using len c2(2,4) by (auto simp: CBS_len_def size_sub_eq)
      show ?thesis
      proof (cases "unat b < 128")
        case True
        then have add: "size_add (unat b) ?hl = ?hl + unat b" using hl by (simp add: add.commute)
        have "cbs_get_any_asn1_element ber c =
            p_bind (CBS_get_bytes (?hl + unat b)) (\<lambda>out. p_return (out, t, ?hl, False)) c"
          using True by (simp add: cbs_get_any_asn1_element_def p1 r1 c2(1) Let_def hl add and_high_bit_u8)
        moreover have "b_element ber (view c) =
            (if length (view c) < ?hl + unat b then None
             else Some ((take (?hl + unat b) (view c), t, ?hl, False), drop (?hl + unat b) (view c)))"
          using True Some th Cons by (simp add: b_element_def Let_def)
        ultimately show ?thesis by (simp only: get_element [OF wf])
      next
        case False
        let ?k = "unat b - 128"
        have k: "unat (b AND 0x7F) = ?k" using False by (rule unat_high_bit_byte)
        have long: "b AND 0x80 \<noteq> 0" using False by (simp add: and_high_bit_u8)
        note element = cbs_get_any_asn1_element_def [of ber c, unfolded p1 r1(1) prod.case option.case c2(1) Let_def hl(1) k]
        let ?cut = "\<lambda>total hl f. if length (view c) < total then None
          else Some ((take total (view c), t, hl, f), drop total (view c))"
        have spec: "b_element ber (view c) =
            (if ber \<and> t AND CBS_ASN1_CONSTRUCTED \<noteq> 0 \<and> ?k = 0 then ?cut ?hl ?hl True
             else if ?k = 0 \<or> 4 < ?k then None
             else (case b_be ?k h' of
                     None \<Rightarrow> None
                   | Some (n, rest) \<Rightarrow>
                       if (n < 128 \<or> n < 256 ^ (?k - 1)) \<and> \<not> ber then None
                       else ?cut (?hl + ?k + n) (?hl + ?k) (n < 128 \<or> n < 256 ^ (?k - 1))))"
          unfolding b_element_def Some th Cons by (simp only: option.case prod.case list.case Let_def False if_False)
        show ?thesis
        proof (cases "ber \<and> t AND CBS_ASN1_CONSTRUCTED \<noteq> 0 \<and> ?k = 0")
          case True
          show ?thesis
            unfolding spec element if_P [OF True] using long by (simp only: if_False) (rule get_element [OF wf])
        next
          case definite: False
          show ?thesis
          proof (cases "?k = 0 \<or> 4 < ?k")
            case True
            show ?thesis
              unfolding spec element if_not_P [OF definite] if_P [OF True] using wf long by simp
          next
            case range: False
            obtain r3 c3 where p3: "cbs_get_u ?k c2 = (r3, c3)" by (cases "cbs_get_u ?k c2")
            note num = reads_asD [OF cbs_get_u_reads c2(2) p3]
            show ?thesis
            proof (cases "b_be ?k h'")
              case None
              then show ?thesis
                unfolding spec element if_not_P [OF definite] if_not_P [OF range] p3
                using num(3) c2(4) wf long by simp
            next
              case (Some nr)
              obtain n rest where nr: "nr = (n, rest)" by (cases nr)
              have r3: "r3 = Some (of_nat n)" using num(4) c2(4) Some nr by simp
              have n: "n < 256 ^ ?k" using be_nat_take_lt [of ?k h'] Some nr by (auto simp: b_be_def split: if_splits)
              have "(256 :: nat) ^ ?k \<le> 256 ^ 4" using range by (intro power_increasing) auto
              then have n32: "n < 2 ^ 32" using n by simp
              then have u: "unat (of_nat n :: u64) = n" by (simp add: unat_of_nat)
              have small: "(of_nat n :: u64) < 128 \<longleftrightarrow> n < 128" by (simp add: word_less_nat_alt u)
              have wide: "drop_bit ((?k - 1) * 8) (of_nat n :: u64) = 0 \<longleftrightarrow> n < 256 ^ (?k - 1)"
                by (simp add: word_unat_eq_iff unat_drop_bit u div_eq_0_iff power_mult mult.commute)
              have k4: "?k \<le> 4" using range by simp
              have sizes: "size_add n ?hl = n + ?hl" "size_add (n + ?hl) ?k = n + ?hl + ?k"
                "size_add ?hl ?k = ?hl + ?k" "size_add n (?hl + ?k) = ?hl + ?k + n"
                using n32 hl(2) k4 by (simp_all add: size_add_eq)
              note steps = spec element if_not_P [OF definite] if_not_P [OF range] p3 r3 u small wide sizes
                Some nr prod.case option.case if_not_P [OF long]
              show ?thesis
              proof (cases "ber \<or> \<not> (n < 128 \<or> n < 256 ^ (?k - 1))")
                case True
                then have ok: "\<not> (n < 128 \<and> \<not> ber)" "\<not> (n < 256 ^ (?k - 1) \<and> \<not> ber)"
                  "\<not> ((n < 128 \<or> n < 256 ^ (?k - 1)) \<and> \<not> ber)" "\<not> n + ?hl + ?k < n" by auto
                show ?thesis
                  unfolding steps if_not_P [OF ok(1)] if_not_P [OF ok(2)] if_not_P [OF ok(3)] if_not_P [OF ok(4)]
                  by (rule get_element [OF wf])
              next
                case False
                then show ?thesis unfolding steps using wf by auto
              qed
            qed
          qed
        qed
      qed
    qed
  qed
qed

lemma cbs_get_any_asn1_element_reads:
  "reads_as same_element (cbs_get_any_asn1_element ber) (b_element ber)"
  using cbs_get_any_asn1_element_at by (simp add: reads_as_outcome)

subsection \<open>Elements with a given tag\<close>

definition b_asn1 :: "u32 \<Rightarrow> bytes \<Rightarrow> (bytes \<times> bytes) option" where
  "b_asn1 tag bs =
     (case b_der bs of
        None \<Rightarrow> None
      | Some ((t, contents), rest) \<Rightarrow> if t = tag then Some (contents, rest) else None)"

lemma b_asn1_iff:
  "b_asn1 tag bs = Some (contents, rest) \<longleftrightarrow> length contents < 2 ^ 32 \<and> bs = der_element tag contents @ rest"
  using b_der_iff [of bs tag contents rest] by (auto simp: b_asn1_def split: option.splits if_splits)

lemma CBS_get_any_asn1_element_reads:
  "reads_as (\<lambda>(out, t, hl) (tag, contents). shows_bytes out (der_element tag contents) \<and> t = tag \<and>
       hl = length (der_tag tag @ der_length (length contents)))
     CBS_get_any_asn1_element b_der"
proof -
  let ?g = "\<lambda>(tag, contents). (der_element tag contents, tag, length (der_tag tag @ der_length (length contents)), False)"
  have element: "reads_as (\<lambda>x y. same_element x (?g y)) (cbs_get_any_asn1_element False) b_der"
    unfolding reads_as_outcome
  proof (intro allI impI)
    fix c assume "wf_cbs c"
    then have "outcome same_element c (cbs_get_any_asn1_element False c) (map_option (apfst ?g) (b_der (view c)))"
      using cbs_get_any_asn1_element_at [of c False] by (simp add: b_element_der apfst_def map_prod_def case_prod_unfold)
    then show "outcome (\<lambda>x y. same_element x (?g y)) c (cbs_get_any_asn1_element False c) (b_der (view c))"
      by (auto simp: outcome_def case_prod_unfold split: option.splits)
  qed
  have get: "CBS_get_any_asn1_element =
      p_bind (cbs_get_any_asn1_element False) (\<lambda>x. p_return (case x of (out, tag, hl, f) \<Rightarrow> (out, tag, hl)))"
    unfolding CBS_get_any_asn1_element_def by (simp add: case_prod_unfold)
  show ?thesis
    unfolding get by (rule reads_as_map_id [OF element]) auto
qed

text \<open>Skipping the header of an element that has just been read cannot fail.\<close>

lemma skip_header:
  assumes "shows_bytes out (header @ contents)"
  shows "\<exists>u out'. CBS_skip (length header) out = (Some u, out') \<and> shows_bytes out' contents"
proof -
  obtain r out' where p: "CBS_skip (length header) out = (r, out')" by (cases "CBS_skip (length header) out")
  have "b_take (length header) (view out) = Some (header, contents)"
    using assms by (simp add: shows_bytes_def b_take_def)
  then show ?thesis
    using reads_asD [OF CBS_skip_reads _ p] assms by (auto simp: shows_bytes_def p)
qed

lemma skip_element_header:
  assumes "shows_bytes out (der_element tag contents)"
  shows "\<exists>u out'. CBS_skip (length (der_tag tag) + length (der_length (length contents))) out = (Some u, out') \<and>
    shows_bytes out' contents"
  using skip_header [of out "der_tag tag @ der_length (length contents)" contents] assms
  by (simp add: der_element_def)

text \<open>A parser followed by a decision that leaves the window alone.\<close>

lemma reads_as_decide:
  assumes "reads_as R p q"
    "\<And>x y. R x y \<Longrightarrow> \<exists>r. (\<forall>c. f x c = (r, c)) \<and> (case g y of None \<Rightarrow> r = None | Some z \<Rightarrow> \<exists>w. r = Some w \<and> S w z)"
  shows "reads_as S (p_bind p f) (\<lambda>bs. case q bs of
    None \<Rightarrow> None | Some (y, rest) \<Rightarrow> (case g y of None \<Rightarrow> None | Some z \<Rightarrow> Some (z, rest)))"
proof -
  have "reads_as S (p_bind p f) (b_bind q (\<lambda>y rest. case g y of None \<Rightarrow> None | Some z \<Rightarrow> Some (z, rest)))"
  proof (rule reads_as_bind [OF assms(1)])
    fix x y assume "R x y"
    then obtain r where "\<forall>c. f x c = (r, c)" "case g y of None \<Rightarrow> r = None | Some z \<Rightarrow> \<exists>w. r = Some w \<and> S w z"
      using assms(2) by blast
    then show "reads_as S (f x) (\<lambda>rest. case g y of None \<Rightarrow> None | Some z \<Rightarrow> Some (z, rest))"
      by (auto simp: reads_as_def split: option.splits)
  qed
  then show ?thesis by (simp add: b_bind_def [abs_def])
qed

lemma CBS_get_any_asn1_reads [reads]:
  "reads_as (\<lambda>(out, t) (tag, contents). shows_bytes out contents \<and> t = tag) CBS_get_any_asn1 b_der"
proof -
  have "reads_as (\<lambda>(out, t) (tag, contents). shows_bytes out contents \<and> t = tag) CBS_get_any_asn1
      (\<lambda>bs. case b_der bs of None \<Rightarrow> None | Some (y, rest) \<Rightarrow> (case Some y of None \<Rightarrow> None | Some z \<Rightarrow> Some (z, rest)))"
    unfolding CBS_get_any_asn1_def
    by (rule reads_as_decide [OF CBS_get_any_asn1_element_reads])
      (use skip_element_header in fastforce)
  then show ?thesis by (rule reads_as_cong) (auto split: option.splits)
qed

lemma cbs_get_asn1_reads:
  "reads_as (\<lambda>out contents. shows_bytes out (if skip then contents else der_element tag contents))
     (cbs_get_asn1 tag skip) (b_asn1 tag)"
proof -
  have "reads_as (\<lambda>out contents. shows_bytes out (if skip then contents else der_element tag contents))
      (cbs_get_asn1 tag skip)
      (\<lambda>bs. case b_der bs of None \<Rightarrow> None | Some (y, rest) \<Rightarrow>
         (case (if fst y = tag then Some (snd y) else None) of None \<Rightarrow> None | Some z \<Rightarrow> Some (z, rest)))"
    unfolding cbs_get_asn1_def
    by (rule reads_as_decide [OF CBS_get_any_asn1_element_reads])
      (use skip_element_header in \<open>fastforce simp: case_prod_unfold\<close>)
  then show ?thesis by (rule reads_as_cong) (auto simp: b_asn1_def split: option.splits)
qed

lemma CBS_get_asn1_reads [reads]: "reads_as shows_bytes (CBS_get_asn1 tag) (b_asn1 tag)"
  unfolding CBS_get_asn1_def using cbs_get_asn1_reads [of True tag] by simp

lemma CBS_get_asn1_element_reads [reads]:
  "reads_as (\<lambda>out contents. shows_bytes out (der_element tag contents)) (CBS_get_asn1_element tag) (b_asn1 tag)"
  unfolding CBS_get_asn1_element_def using cbs_get_asn1_reads [of False tag] by simp

end
