(* ===== verification/Asn1_Values.thy ===== *)
theory Asn1_Values
  imports Asn1_Der
begin

text \<open>
  INTEGER, BOOLEAN, BIT STRING and optional fields: the parsers of crypto/bytestring/cbs.c read
  exactly the minimal two's complement encodings, the two encodings of a boolean, and fields whose
  contents are exactly one value. The base-128 and element parsers are canonical codecs.
\<close>

subsection \<open>Canonical codecs\<close>

interpretation base128_codec: canonical_codec base128 "run_cbs unat parse_base128_integer" "\<lambda>n. n < 2 ^ 64" cbs_room
proof
  fix bs :: bytes and n rest assume room: "cbs_room bs"
  have "reads_as (\<lambda>w v. unat w = v) parse_base128_integer (b_base128 0)"
    by (rule parse_base128_integer_reads)
  from run_cbs_eq [OF this room]
  show "run_cbs unat parse_base128_integer bs = Some (n, rest) \<longleftrightarrow> n < 2 ^ 64 \<and> bs = base128 n @ rest"
    by (simp add: b_base128_iff)
qed (auto simp: base128_def cbs_room_def)

definition read_element :: "bytes \<Rightarrow> ((u32 \<times> bytes) \<times> bytes) option" where
  "read_element = run_cbs (\<lambda>(out, tag). (tag, view out)) CBS_get_any_asn1"

lemma der_tag_nonempty: "der_tag t \<noteq> []"
  by (simp add: der_tag_def Let_def)

lemma read_element_eq: "cbs_room bs \<Longrightarrow> read_element bs = b_der bs"
  unfolding read_element_def
  by (rule run_cbs_eq, rule reads_as_mono [OF CBS_get_any_asn1_reads]) (auto simp: shows_bytes_def)

interpretation element_codec: canonical_codec "\<lambda>(tag, contents). der_element tag contents" read_element
  "\<lambda>(tag, contents). length contents < 2 ^ 32" cbs_room
proof
  fix bs rest and x :: "u32 \<times> bytes" assume "cbs_room bs"
  then show "read_element bs = Some (x, rest) \<longleftrightarrow>
      (case x of (tag, contents) \<Rightarrow> length contents < 2 ^ 32) \<and>
      bs = (case x of (tag, contents) \<Rightarrow> der_element tag contents) @ rest"
    by (cases x) (simp add: read_element_eq b_der_iff)
qed (auto simp: der_element_def der_tag_nonempty cbs_room_def)

subsection \<open>INTEGER\<close>

text \<open>Two's complement, most significant byte first, without a redundant first byte.\<close>

definition int_value :: "bytes \<Rightarrow> int" where
  "int_value bs = int (be_nat bs) - (if 128 \<le> unat (hd bs) then 256 ^ length bs else 0)"

fun minimal_int :: "bytes \<Rightarrow> bool" where
  "minimal_int [] = False"
| "minimal_int [b] = True"
| "minimal_int (b # b' # bs) \<longleftrightarrow> \<not> (b = 0 \<and> unat b' < 128) \<and> \<not> (b = 0xFF \<and> 128 \<le> unat b')"

lemma CBS_is_valid_asn1_integer_eq:
  assumes "shows_bytes c bs"
  shows "CBS_is_valid_asn1_integer c = (if minimal_int bs then Some (128 \<le> unat (hd bs)) else None)"
proof -
  have wf: "wf_cbs c" "view c = bs" using assms by (auto simp: shows_bytes_def)
  show ?thesis
  proof (cases bs)
    case Nil
    then show ?thesis using CBS_get_u8_view [OF wf(1)] wf(2) by (auto simp: CBS_is_valid_asn1_integer_def)
  next
    case (Cons b bs')
    then obtain c1 where c1: "CBS_get_u8 c = (Some b, c1)" "wf_cbs c1" "view c1 = bs'"
      using CBS_get_u8_view [OF wf(1)] wf(2) by auto
    show ?thesis
    proof (cases bs')
      case Nil
      then show ?thesis
        using CBS_get_u8_view [OF c1(2)] c1 Cons
        by (auto simp: CBS_is_valid_asn1_integer_def and_high_bit_u8 Let_def)
    next
      case second: (Cons b' bs'')
      then obtain c2 where "CBS_get_u8 c1 = (Some b', c2)"
        using CBS_get_u8_view [OF c1(2)] c1 by auto
      then show ?thesis
        using c1 Cons second by (auto simp: CBS_is_valid_asn1_integer_def and_high_bit_u8 Let_def)
    qed
  qed
qed

lemma be_nat_Cons_bounds:
  "unat b * 256 ^ length bs \<le> be_nat (b # bs)" "be_nat (b # bs) < (unat b + 1) * 256 ^ length bs"
  using be_nat_lt [of bs] by simp_all

lemma uint64_loop_eq:
  "n \<le> length data \<Longrightarrow> be_nat pre < 2 ^ 64 \<Longrightarrow>
   asn1_uint64_loop (of_nat (be_nat pre)) data n =
     (if be_nat (pre @ take n data) < 2 ^ 64 then Some (of_nat (be_nat (pre @ take n data))) else None)"
proof (induction n arbitrary: pre data)
  case (Suc n)
  then obtain b data' where data: "data = b # data'" by (cases data) auto
  have full: "drop_bit 56 (of_nat (be_nat pre) :: u64) \<noteq> 0 \<longleftrightarrow> 2 ^ 56 \<le> be_nat pre"
    using Suc.prems(2) by (simp add: word_unat_eq_iff unat_drop_bit unat_of_nat div_eq_0_iff not_less)
  show ?case
  proof (cases "2 ^ 56 \<le> be_nat pre")
    case True
    have "be_nat pre * 256 ^ Suc (length (take n data')) \<le> be_nat (pre @ take (Suc n) data)"
      by (simp add: data be_nat_append)
    moreover have "be_nat pre * 256 \<le> be_nat pre * 256 ^ Suc (length (take n data'))" by simp
    moreover have "2 ^ 64 \<le> be_nat pre * 256" using True by simp
    ultimately have "\<not> be_nat (pre @ take (Suc n) data) < 2 ^ 64" by (meson le_trans not_le)
    then show ?thesis using True full by (simp add: data)
  next
    case False
    then have "be_nat pre < 72057594037927936" by simp
    then have "256 * be_nat pre + unat b < 18446744073709551616" using unat_u8_lt [of b] by linarith
    then have "be_nat (pre @ [b]) < 2 ^ 64" by (simp add: be_nat_snoc)
    then have "asn1_uint64_loop (of_nat (be_nat (pre @ [b]))) data' n =
        (if be_nat ((pre @ [b]) @ take n data') < 2 ^ 64 then Some (of_nat (be_nat ((pre @ [b]) @ take n data'))) else None)"
      using Suc.prems(1) data by (intro Suc.IH) auto
    then show ?thesis using False full by (simp add: data of_nat_be_nat_snoc)
  qed
qed auto

lemma int_value_bounds:
  assumes "bs \<noteq> []"
  shows "- (128 * 256 ^ (length bs - 1)) \<le> int_value bs" "int_value bs < 128 * 256 ^ (length bs - 1)"
    "0 \<le> int_value bs \<longleftrightarrow> unat (hd bs) < 128"
proof -
  obtain b r where bs: "bs = b # r" using assms by (cases bs) auto
  obtain n where n: "unat b = n" by simp
  let ?p = "256 ^ length r :: int"
  have be: "int (be_nat bs) = int n * ?p + int (be_nat r)" by (simp add: bs n)
  have r: "int (be_nat r) < ?p" using be_nat_lt [of r] by (metis of_nat_less_iff of_nat_numeral of_nat_power)
  have b: "int n < 256" using unat_u8_lt [of b] n by simp
  have p: "0 < ?p" by simp
  have "- (128 * ?p) \<le> int_value bs \<and> int_value bs < 128 * ?p \<and> (0 \<le> int_value bs \<longleftrightarrow> n < 128)"
  proof (cases "n < 128")
    case True
    then have v: "int_value bs = int n * ?p + int (be_nat r)" using be by (simp add: int_value_def bs n)
    have "int n * ?p \<le> 127 * ?p" using True p by (intro mult_right_mono) linarith+
    moreover have "0 \<le> int n * ?p" by simp
    ultimately have "- (128 * ?p) \<le> int_value bs" "int_value bs < 128 * ?p" "0 \<le> int_value bs"
      using v r p by linarith+
    then show ?thesis using True by blast
  next
    case False
    have v: "int_value bs = (int n - 256) * ?p + int (be_nat r)"
      using False be by (simp add: int_value_def bs n algebra_simps)
    have "- 128 * ?p \<le> (int n - 256) * ?p" using False p by (intro mult_right_mono) linarith+
    moreover have "(int n - 256) * ?p \<le> - 1 * ?p" using b p by (intro mult_right_mono) linarith+
    ultimately have "- (128 * ?p) \<le> int_value bs" "int_value bs < 128 * ?p" "int_value bs < 0"
      using v r p by linarith+
    then show ?thesis using False by linarith
  qed
  then show "- (128 * 256 ^ (length bs - 1)) \<le> int_value bs" "int_value bs < 128 * 256 ^ (length bs - 1)"
    "0 \<le> int_value bs \<longleftrightarrow> unat (hd bs) < 128"
    by (simp_all add: bs n)
qed

lemma minimal_int_range:
  assumes "minimal_int bs" "length bs = Suc (Suc k)"
  shows "int_value bs < - (128 * 256 ^ k) \<or> 128 * 256 ^ k \<le> int_value bs"
proof -
  obtain b b' r where bs: "bs = b # b' # r" "length r = k"
    using assms(2) by (cases bs; cases "tl bs") auto
  obtain n n' where n: "unat b = n" "unat b' = n'" by simp
  let ?p = "256 ^ k :: int" and ?w = "256 * int n + int n'"
  have be: "int (be_nat bs) = ?w * ?p + int (be_nat r)" by (simp add: bs n algebra_simps)
  have r: "int (be_nat r) < ?p" using be_nat_lt [of r] bs(2) by (metis of_nat_less_iff of_nat_numeral of_nat_power)
  have p: "0 < ?p" by simp
  have lt: "n < 256" "n' < 256" using unat_u8_lt [of b] unat_u8_lt [of b'] n by simp_all
  have zero: "b = 0 \<longleftrightarrow> n = 0" and ff: "b = 0xFF \<longleftrightarrow> n = 255" by (simp_all add: word_unat_eq_iff n)
  have minimal: "\<not> (n = 0 \<and> n' < 128)" "\<not> (n = 255 \<and> 128 \<le> n')"
    using assms(1) unfolding bs minimal_int.simps zero ff n by auto
  show ?thesis
  proof (cases "128 \<le> n")
    case True
    have "?w - 65536 \<le> - 129" using minimal True lt by linarith
    then have "(?w - 65536) * ?p \<le> - 129 * ?p" using p by (intro mult_right_mono) linarith+
    moreover have "int_value bs = (?w - 65536) * ?p + int (be_nat r)"
      using True be bs(2) by (simp add: int_value_def bs n algebra_simps)
    ultimately show ?thesis using r by linarith
  next
    case False
    have "128 \<le> ?w" using minimal by linarith
    then have "128 * ?p \<le> ?w * ?p" using p by (intro mult_right_mono) linarith+
    moreover have "int_value bs = ?w * ?p + int (be_nat r)" using False be by (simp add: int_value_def bs n)
    ultimately show ?thesis by linarith
  qed
qed

lemma minimal_int_nonempty: "minimal_int bs \<Longrightarrow> bs \<noteq> []"
  by auto

lemma minimal_int_length_le:
  assumes "minimal_int a" "minimal_int b" "int_value a = int_value b"
  shows "length a \<le> length b"
proof (rule ccontr)
  assume longer: "\<not> length a \<le> length b"
  have ne: "a \<noteq> []" "b \<noteq> []" using assms(1,2) by auto
  then obtain k where k: "length a = Suc (Suc k)" "length b - 1 \<le> k"
    using longer by (cases a; cases "tl a"; cases b) auto
  have "(256 :: int) ^ (length b - 1) \<le> 256 ^ k" using k(2) by (intro power_increasing) auto
  then show False
    using minimal_int_range [OF assms(1) k(1)] int_value_bounds(1,2) [OF ne(2)] assms(3) by linarith
qed

lemma minimal_int_unique:
  assumes "minimal_int a" "minimal_int b" "int_value a = int_value b"
  shows "a = b"
proof -
  have len: "length a = length b" using minimal_int_length_le assms by (intro antisym) metis+
  have "unat (hd a) < 128 \<longleftrightarrow> unat (hd b) < 128"
    using int_value_bounds(3) assms minimal_int_nonempty by metis
  then have "be_nat a = be_nat b" using assms(3) len by (auto simp: int_value_def not_le [symmetric] split: if_splits)
  then show "a = b" using be_bytes_be_nat [of a] be_bytes_be_nat [of b] len by metis
qed

subsection \<open>The integer parsers\<close>

text \<open>A value read from the contents of an element.\<close>

definition b_contents :: "u32 \<Rightarrow> (bytes \<Rightarrow> 'a option) \<Rightarrow> bytes \<Rightarrow> ('a \<times> bytes) option" where
  "b_contents tag f bs =
     (case b_asn1 tag bs of
        None \<Rightarrow> None
      | Some (contents, rest) \<Rightarrow> (case f contents of None \<Rightarrow> None | Some v \<Rightarrow> Some (v, rest)))"

lemma b_contents_iff:
  "b_contents tag f bs = Some (v, rest) \<longleftrightarrow>
     (\<exists>contents. f contents = Some v \<and> length contents < 2 ^ 32 \<and> bs = der_element tag contents @ rest)"
proof -
  have "b_contents tag f bs = Some (v, rest) \<longleftrightarrow> (\<exists>contents. b_asn1 tag bs = Some (contents, rest) \<and> f contents = Some v)"
    by (auto simp: b_contents_def split: option.splits)
  then show ?thesis unfolding b_asn1_iff by blast
qed

lemma reads_contents:
  assumes "\<And>out contents. shows_bytes out contents \<Longrightarrow>
    \<exists>r. (\<forall>c. f out c = (r, c)) \<and> (case g contents of None \<Rightarrow> r = None | Some z \<Rightarrow> \<exists>w. r = Some w \<and> S w z)"
  shows "reads_as S (p_bind (CBS_get_asn1 tag) f) (b_contents tag g)"
  using reads_as_decide [where S = S, OF CBS_get_asn1_reads assms] by (simp add: b_contents_def [abs_def])

definition int_in :: "int \<Rightarrow> int \<Rightarrow> bytes \<Rightarrow> int option" where
  "int_in lo hi contents =
     (if minimal_int contents \<and> lo \<le> int_value contents \<and> int_value contents < hi
      then Some (int_value contents) else None)"

lemma shows_bytes_data:
  assumes "shows_bytes c bs"
  shows "c_len c = length bs" "length bs \<le> length (c_data c)" "take (length bs) (c_data c) = bs"
  using assms by (auto simp: shows_bytes_def wf_cbs_def view_def)

lemma shows_bytes_nth: "shows_bytes c bs \<Longrightarrow> i < length bs \<Longrightarrow> c_data c ! i = bs ! i"
  using shows_bytes_data(3) nth_take by metis

lemma CBS_get_asn1_uint64_reads [reads]:
  "reads_as (\<lambda>w v. uint w = v) CBS_get_asn1_uint64 (b_contents CBS_ASN1_INTEGER (int_in 0 (2 ^ 64)))"
  unfolding CBS_get_asn1_uint64_def
proof (rule reads_contents)
  fix out contents assume out: "shows_bytes out contents"
  let ?r = "if CBS_is_unsigned_asn1_integer out then asn1_uint64_loop 0 (CBS_data out) (CBS_len out) else None"
  have sign: "CBS_is_unsigned_asn1_integer out \<longleftrightarrow> minimal_int contents \<and> 0 \<le> int_value contents"
    unfolding CBS_is_unsigned_asn1_integer_def CBS_is_valid_asn1_integer_eq [OF out]
    using int_value_bounds(3) [OF minimal_int_nonempty] by (auto simp: not_le)
  have loop: "asn1_uint64_loop 0 (CBS_data out) (CBS_len out) =
      (if be_nat contents < 2 ^ 64 then Some (of_nat (be_nat contents)) else None)"
    using uint64_loop_eq [of "length contents" "c_data out" "[]"] shows_bytes_data [OF out]
    by (simp add: CBS_data_def CBS_len_def)
  have val: "int_value contents = int (be_nat contents)" if "minimal_int contents" "0 \<le> int_value contents"
    using that int_value_bounds(3) [OF minimal_int_nonempty] by (auto simp: int_value_def split: if_splits)
  have "case int_in 0 (2 ^ 64) contents of None \<Rightarrow> ?r = None | Some z \<Rightarrow> \<exists>w. ?r = Some w \<and> uint w = z"
    unfolding sign loop int_in_def using val by (auto simp: unsigned_of_nat take_bit_nat_eq_self)
  then show "\<exists>r. (\<forall>c. (if \<not> CBS_is_unsigned_asn1_integer out then (None, c)
        else (asn1_uint64_loop 0 (CBS_data out) (CBS_len out), c)) = (r, c)) \<and>
      (case int_in 0 (2 ^ 64) contents of None \<Rightarrow> r = None | Some z \<Rightarrow> \<exists>w. r = Some w \<and> uint w = z)"
    by (intro exI [of _ ?r]) auto
qed

text \<open>The sign-extending copy into eight bytes.\<close>

lemma fold_update:
  "n \<le> length u \<Longrightarrow> fold (\<lambda>i u. u[i := f i]) [0 ..< n] u = map f [0 ..< n] @ drop n u"
proof (induction n)
  case (Suc n)
  then have "fold (\<lambda>i u. u[i := f i]) [0 ..< Suc n] u = (map f [0 ..< n] @ drop n u)[n := f n]" by simp
  also have "drop n u = u ! n # drop (Suc n) u" using Suc.prems by (simp add: Cons_nth_drop_Suc)
  finally show ?case by (simp add: list_update_append)
qed simp

lemma le_nat_replicate: "le_nat (replicate k 0) = 0" "le_nat (replicate k 0xFF) + 1 = 256 ^ k"
  by (induction k) simp_all

lemma int64_bytes:
  assumes "length bs \<le> 8" "n = length bs"
  shows "fold (\<lambda>i u. u[i := bs ! (n - i - 1)]) [0 ..< n] (replicate 8 s) = rev bs @ replicate (8 - n) s"
proof -
  have "map (\<lambda>i. bs ! (n - i - 1)) [0 ..< n] = rev bs"
    using assms(2) by (auto intro!: nth_equalityI simp: rev_nth)
  then show ?thesis using assms by (simp add: fold_update)
qed

lemma sint_of_int_value:
  assumes "bs \<noteq> []" "length bs \<le> 8"
  shows "sint (le_word (rev bs @ replicate (8 - length bs) (if 128 \<le> unat (hd bs) then 0xFF else 0)) :: u64) =
    int_value bs"
proof -
  let ?n = "length bs" and ?u = "rev bs @ replicate (8 - length bs) (if 128 \<le> unat (hd bs) then 0xFF else 0)"
  have p8: "(256 :: nat) ^ ?n * 256 ^ (8 - ?n) = 2 ^ 64"
    using assms(2) by (simp flip: power_add)
  have u: "int (le_nat ?u) = int_value bs + (if 128 \<le> unat (hd bs) then 2 ^ 64 else 0)"
  proof (cases "128 \<le> unat (hd bs)")
    case True
    have "le_nat ?u + 256 ^ ?n = be_nat bs + 256 ^ ?n * (le_nat (replicate (8 - ?n) 0xFF) + 1)"
      using True by (simp add: le_nat_append be_nat_eq_le)
    also have "\<dots> = be_nat bs + 2 ^ 64" unfolding le_nat_replicate(2) p8 ..
    finally have "int (le_nat ?u + 256 ^ ?n) = int (be_nat bs + 2 ^ 64)" by (simp only:)
    then have "int (le_nat ?u) + 256 ^ ?n = int (be_nat bs) + 2 ^ 64"
      unfolding of_nat_add of_nat_power of_nat_numeral .
    then show ?thesis using True by (simp add: int_value_def)
  next
    case False
    then show ?thesis by (simp add: le_nat_append be_nat_eq_le int_value_def le_nat_replicate(1))
  qed
  have "(le_word ?u :: u64) = word_of_int (int (le_nat ?u))" unfolding le_word_le_nat by simp
  also have "\<dots> = word_of_int (int_value bs)" unfolding u by (simp add: word_of_int_eq_iff)
  finally have w: "(le_word ?u :: u64) = word_of_int (int_value bs)" .
  have "(256 :: int) ^ (?n - 1) \<le> 256 ^ 7" using assms(2) by (intro power_increasing) auto
  then have "- (2 ^ 63) \<le> int_value bs" "int_value bs < 2 ^ 63"
    using int_value_bounds(1,2) [OF assms(1)] by simp_all
  then show ?thesis unfolding w by (simp add: signed_of_int signed_take_bit_int_eq_self)
qed

lemma CBS_get_asn1_int64_reads [reads]:
  "reads_as (\<lambda>w v. sint w = v) CBS_get_asn1_int64
     (b_contents CBS_ASN1_INTEGER (int_in (- (2 ^ 63)) (2 ^ 63)))"
  unfolding CBS_get_asn1_int64_def
proof (rule reads_contents)
  fix out contents assume out: "shows_bytes out contents"
  show "\<exists>r. (\<forall>c. (case CBS_is_valid_asn1_integer out of
       None \<Rightarrow> (None, c)
     | Some is_negative \<Rightarrow>
         (let data = CBS_data out; len = CBS_len out in
          if 8 < len then (None, c)
          else
            (let u = replicate 8 (if is_negative then 0xFF else 0);
                 u = fold (\<lambda>i u. u[i := data ! (len - i - 1)]) [0 ..< len] u in
             (Some (le_word u), c)))) = (r, c)) \<and>
      (case int_in (- (2 ^ 63)) (2 ^ 63) contents of None \<Rightarrow> r = None | Some z \<Rightarrow> \<exists>w :: u64. r = Some w \<and> sint w = z)"
  proof (cases "minimal_int contents")
    case False
    then show ?thesis by (simp add: CBS_is_valid_asn1_integer_eq [OF out] int_in_def)
  next
    case minimal: True
    note ne = minimal_int_nonempty [OF minimal]
    have len: "CBS_len out = length contents" using shows_bytes_data [OF out] by (simp add: CBS_len_def)
    show ?thesis
    proof (cases "8 < length contents")
      case True
      then obtain k where k: "length contents = Suc (Suc k)" "7 \<le> k"
        by (cases contents; cases "tl contents") auto
      have "(256 :: int) ^ 7 \<le> 256 ^ k" using k(2) by (intro power_increasing) auto
      then have "int_in (- (2 ^ 63)) (2 ^ 63) contents = None"
        using minimal_int_range [OF minimal k(1)] by (auto simp: int_in_def)
      then show ?thesis using True minimal by (simp add: CBS_is_valid_asn1_integer_eq [OF out] len)
    next
      case False
      let ?s = "if 128 \<le> unat (hd contents) then 0xFF else 0 :: u8"
      have "fold (\<lambda>i u. u[i := CBS_data out ! (length contents - i - 1)]) [0 ..< length contents] (replicate 8 ?s) =
          fold (\<lambda>i u. u[i := contents ! (length contents - i - 1)]) [0 ..< length contents] (replicate 8 ?s)"
        by (rule fold_cong) (auto simp: CBS_data_def shows_bytes_nth [OF out])
      then have bytes: "fold (\<lambda>i u. u[i := CBS_data out ! (length contents - i - 1)]) [0 ..< length contents] (replicate 8 ?s) =
          rev contents @ replicate (8 - length contents) ?s"
        using int64_bytes [of contents "length contents" ?s] False by simp
      have "(256 :: int) ^ (length contents - 1) \<le> 256 ^ 7" using False by (intro power_increasing) auto
      then have "int_in (- (2 ^ 63)) (2 ^ 63) contents = Some (int_value contents)"
        using int_value_bounds(1,2) [OF ne] minimal by (simp add: int_in_def)
      then show ?thesis
        unfolding CBS_is_valid_asn1_integer_eq [OF out] if_P [OF minimal] option.case Let_def len bytes
        using False sint_of_int_value [OF ne] by (simp add: not_less)
    qed
  qed
qed

subsection \<open>BOOLEAN and optional fields\<close>

definition bool_contents :: "bytes \<Rightarrow> bool option" where
  "bool_contents contents =
     (if contents = [0] then Some False else if contents = [0xFF] then Some True else None)"

lemma CBS_get_asn1_bool_reads [reads]:
  "reads_as (=) CBS_get_asn1_bool (b_contents CBS_ASN1_BOOLEAN bool_contents)"
  unfolding CBS_get_asn1_bool_def
proof (rule reads_contents)
  fix out contents assume out: "shows_bytes out contents"
  have len: "CBS_len out = length contents" using shows_bytes_data [OF out] by (simp add: CBS_len_def)
  show "\<exists>r. (\<forall>c. (if CBS_len out \<noteq> 1 then (None, c)
      else (let v = CBS_data out ! 0 in if v \<noteq> 0 \<and> v \<noteq> 0xFF then (None, c) else (Some (v \<noteq> 0), c))) = (r, c)) \<and>
      (case bool_contents contents of None \<Rightarrow> r = None | Some z \<Rightarrow> \<exists>w. r = Some w \<and> w = z)"
  proof (cases "length contents = 1")
    case False
    then have "contents \<noteq> [b]" for b by auto
    then show ?thesis using False by (simp add: len bool_contents_def)
  next
    case True
    then obtain b where b: "contents = [b]" by (cases contents) auto
    then have "CBS_data out ! 0 = b" using shows_bytes_nth [OF out, of 0] by (simp add: CBS_data_def)
    then show ?thesis by (auto simp: len b bool_contents_def)
  qed
qed

lemma CBS_peek_asn1_tag_eq:
  assumes "wf_cbs c"
  shows "CBS_peek_asn1_tag tag c \<longleftrightarrow> (\<exists>rest. b_tag (view c) = Some (tag, rest))"
proof -
  obtain r c' where p: "parse_asn1_tag c = (r, c')" by (cases "parse_asn1_tag c")
  note tag = reads_asD [OF parse_asn1_tag_reads assms p]
  have "CBS_len c < 1 \<Longrightarrow> view c = []" by (simp add: CBS_len_def view_def)
  then show ?thesis
    using tag(3,4) by (cases "b_tag (view c)") (auto simp: CBS_peek_asn1_tag_def p)
qed

definition b_optional :: "u32 \<Rightarrow> bytes \<Rightarrow> (bytes option \<times> bytes) option" where
  "b_optional tag bs =
     (if \<exists>rest. b_tag bs = Some (tag, rest) then map_option (apfst Some) (b_asn1 tag bs)
      else Some (None, bs))"

lemma CBS_get_optional_asn1_reads [reads]:
  "reads_as (rel_option shows_bytes) (CBS_get_optional_asn1 tag) (b_optional tag)"
  unfolding reads_as_outcome
proof (intro allI impI)
  fix c assume wf: "wf_cbs c"
  show "outcome (rel_option shows_bytes) c (CBS_get_optional_asn1 tag c) (b_optional tag (view c))"
  proof (cases "\<exists>rest. b_tag (view c) = Some (tag, rest)")
    case True
    have "reads_as (rel_option shows_bytes) (p_bind (CBS_get_asn1 tag) (\<lambda>out. p_return (Some out)))
        (\<lambda>bs. map_option (apfst Some) (b_asn1 tag bs))"
      by (rule reads_as_map [OF CBS_get_asn1_reads]) simp
    then show ?thesis
      using True wf unfolding reads_as_outcome
      by (simp add: CBS_get_optional_asn1_def CBS_peek_asn1_tag_eq [OF wf] b_optional_def)
  next
    case False
    then show ?thesis
      using wf by (simp add: CBS_get_optional_asn1_def CBS_peek_asn1_tag_eq [OF wf] b_optional_def outcome_def)
  qed
qed

text \<open>A value that fills all of the contents.\<close>

definition exactly :: "(bytes \<Rightarrow> ('a \<times> bytes) option) \<Rightarrow> bytes \<Rightarrow> 'a option" where
  "exactly q bs = (case q bs of Some (v, []) \<Rightarrow> Some v | _ \<Rightarrow> None)"

lemma exactly_Some_iff: "exactly q bs = Some v \<longleftrightarrow> q bs = Some (v, [])"
  by (auto simp: exactly_def split: option.splits list.splits)

definition b_optional_value :: "u32 \<Rightarrow> (bytes \<Rightarrow> ('a \<times> bytes) option) \<Rightarrow> 'a \<Rightarrow> bytes \<Rightarrow> ('a \<times> bytes) option" where
  "b_optional_value tag q d bs =
     (case b_optional tag bs of
        None \<Rightarrow> None
      | Some (y, rest) \<Rightarrow>
          (case (case y of None \<Rightarrow> Some d | Some contents \<Rightarrow> exactly q contents) of
             None \<Rightarrow> None | Some v \<Rightarrow> Some (v, rest)))"

lemma reads_optional_value:
  assumes d: "\<forall>c. f None c = (Some e, c)" "S e d"
    and inner: "\<And>child contents. shows_bytes child contents \<Longrightarrow>
      \<exists>r. (\<forall>c. f (Some child) c = (r, c)) \<and>
          (case exactly q contents of None \<Rightarrow> r = None | Some z \<Rightarrow> \<exists>w. r = Some w \<and> S w z)"
  shows "reads_as S (p_bind (CBS_get_optional_asn1 tag) f) (b_optional_value tag q d)"
proof -
  have "\<exists>r. (\<forall>c. f x c = (r, c)) \<and>
      (case (case y of None \<Rightarrow> Some d | Some contents \<Rightarrow> exactly q contents) of
         None \<Rightarrow> r = None | Some z \<Rightarrow> \<exists>w. r = Some w \<and> S w z)"
    if "rel_option shows_bytes x y" for x y
    using that d inner by cases auto
  from reads_as_decide [where S = S, OF CBS_get_optional_asn1_reads this]
  show ?thesis by (simp add: b_optional_value_def [abs_def])
qed

text \<open>What an inner parser finds in the contents, and whether it leaves anything.\<close>

lemma inner_parser:
  assumes "reads_as R p q" "shows_bytes child contents" "p child = (r, child')"
  shows "case exactly q contents of
      None \<Rightarrow> r = None \<or> CBS_len child' \<noteq> 0
    | Some v \<Rightarrow> (\<exists>x. r = Some x \<and> R x v) \<and> CBS_len child' = 0"
proof -
  have wf: "wf_cbs child" "view child = contents" using assms(2) by (auto simp: shows_bytes_def)
  note facts = reads_asD [OF assms(1) wf(1) assms(3)]
  have len: "length (view child') = CBS_len child'" using facts(1) by (simp add: CBS_len_def)
  show ?thesis
    using facts(3,4) len unfolding wf(2) exactly_def by (auto split: option.splits list.splits)
qed

lemma CBS_get_optional_asn1_uint64_reads [reads]:
  assumes "uint d = d'"
  shows "reads_as (\<lambda>w v. uint w = v) (CBS_get_optional_asn1_uint64 tag d)
    (b_optional_value tag (b_contents CBS_ASN1_INTEGER (int_in 0 (2 ^ 64))) d')"
  unfolding CBS_get_optional_asn1_uint64_def
proof (rule reads_optional_value [where e = d])
  fix child contents assume child: "shows_bytes child contents"
  obtain r child' where p: "CBS_get_asn1_uint64 child = (r, child')" by (cases "CBS_get_asn1_uint64 child")
  show "\<exists>r. (\<forall>c. (case Some child of None \<Rightarrow> (Some d, c)
      | Some child \<Rightarrow> (case CBS_get_asn1_uint64 child of (None, child) \<Rightarrow> (None, c)
          | (Some out, child) \<Rightarrow> if CBS_len child \<noteq> 0 then (None, c) else (Some out, c))) = (r, c)) \<and>
      (case exactly (b_contents CBS_ASN1_INTEGER (int_in 0 (2 ^ 64))) contents of
         None \<Rightarrow> r = None | Some z \<Rightarrow> \<exists>w. r = Some w \<and> uint w = z)"
    using inner_parser [OF CBS_get_asn1_uint64_reads child p] by (auto simp: p split: option.splits)
qed (simp_all add: assms)

lemma CBS_get_optional_asn1_octet_string_reads [reads]:
  "reads_as (\<lambda>(out, present) v. shows_bytes out (case v of None \<Rightarrow> [] | Some bs \<Rightarrow> bs) \<and> (present \<longleftrightarrow> v \<noteq> None))
     (CBS_get_optional_asn1_octet_string tag)
     (b_optional_value tag (\<lambda>bs. map_option (apfst Some) (b_asn1 CBS_ASN1_OCTETSTRING bs)) None)"
  unfolding CBS_get_optional_asn1_octet_string_def
proof (rule reads_optional_value [where e = "(CBS_init [] 0, False)"])
  let ?S = "\<lambda>(out, present) v. shows_bytes out (case v of None \<Rightarrow> [] | Some bs \<Rightarrow> bs) \<and> (present \<longleftrightarrow> v \<noteq> None)"
  show "?S (CBS_init [] 0, False) None" by (simp add: shows_bytes_def)
  fix child contents assume child: "shows_bytes child contents"
  obtain r child' where p: "CBS_get_asn1 CBS_ASN1_OCTETSTRING child = (r, child')"
    by (cases "CBS_get_asn1 CBS_ASN1_OCTETSTRING child")
  have ex: "exactly (\<lambda>bs. map_option (apfst Some) (b_asn1 CBS_ASN1_OCTETSTRING bs)) contents =
      map_option Some (exactly (b_asn1 CBS_ASN1_OCTETSTRING) contents)"
    by (auto simp: exactly_def split: option.splits list.splits)
  show "\<exists>r. (\<forall>c. (case Some child of None \<Rightarrow> (Some (CBS_init [] 0, False), c)
      | Some child \<Rightarrow> (case CBS_get_asn1 CBS_ASN1_OCTETSTRING child of (None, child) \<Rightarrow> (None, c)
          | (Some out, child) \<Rightarrow> if CBS_len child \<noteq> 0 then (None, c) else (Some (out, True), c))) = (r, c)) \<and>
      (case exactly (\<lambda>bs. map_option (apfst Some) (b_asn1 CBS_ASN1_OCTETSTRING bs)) contents of
         None \<Rightarrow> r = None | Some z \<Rightarrow> \<exists>w. r = Some w \<and> ?S w z)"
    unfolding ex
    using inner_parser [OF CBS_get_asn1_reads child p] by (auto simp: p split: option.splits)
qed simp

lemma CBS_get_optional_asn1_bool_reads [reads]:
  "reads_as (\<lambda>w v. (w = 0 \<or> w = 1) \<and> v = (w = 1)) (CBS_get_optional_asn1_bool tag (if d then 1 else 0))
     (b_optional_value tag (b_contents CBS_ASN1_BOOLEAN bool_contents) d)"
  unfolding CBS_get_optional_asn1_bool_def
proof (rule reads_optional_value [where e = "if d then 1 else 0"])
  fix child contents assume child: "shows_bytes child contents"
  obtain r child' where p: "CBS_get_asn1 CBS_ASN1_BOOLEAN child = (r, child')"
    by (cases "CBS_get_asn1 CBS_ASN1_BOOLEAN child")
  have ex: "exactly (b_contents CBS_ASN1_BOOLEAN bool_contents) contents =
      (case exactly (b_asn1 CBS_ASN1_BOOLEAN) contents of None \<Rightarrow> None | Some cs \<Rightarrow> bool_contents cs)"
    by (auto simp: exactly_def b_contents_def split: option.splits list.splits)
  note found = inner_parser [OF CBS_get_asn1_reads child p]
  show "\<exists>r. (\<forall>c. (case Some child of None \<Rightarrow> (Some (if d then 1 else 0), c)
      | Some child \<Rightarrow> (case CBS_get_asn1 CBS_ASN1_BOOLEAN child of (None, child) \<Rightarrow> (None, c)
          | (Some child2, child) \<Rightarrow>
              if CBS_len child2 \<noteq> 1 \<or> CBS_len child \<noteq> 0 then (None, c)
              else (let boolean = CBS_data child2 ! 0 in
                    if boolean = 0 then (Some 0, c)
                    else if boolean = 0xFF then (Some 1, c) else (None, c)))) = (r, c)) \<and>
      (case exactly (b_contents CBS_ASN1_BOOLEAN bool_contents) contents of
         None \<Rightarrow> r = None | Some z \<Rightarrow> \<exists>w :: int. r = Some w \<and> (w = 0 \<or> w = 1) \<and> z = (w = 1))"
  proof (cases "exactly (b_asn1 CBS_ASN1_BOOLEAN) contents")
    case None
    then show ?thesis using found unfolding ex by (auto simp: p split: option.splits)
  next
    case (Some cs)
    then obtain child2 where c2: "r = Some child2" "shows_bytes child2 cs" "CBS_len child' = 0"
      using found by auto
    have len: "CBS_len child2 = length cs" using shows_bytes_data [OF c2(2)] by (simp add: CBS_len_def)
    show ?thesis
    proof (cases "length cs = 1")
      case False
      then have "cs \<noteq> [b]" for b by auto
      then show ?thesis using False Some c2 unfolding ex by (simp add: p len bool_contents_def)
    next
      case True
      then obtain b where b: "cs = [b]" by (cases cs) auto
      then have "CBS_data child2 ! 0 = b" using shows_bytes_nth [OF c2(2), of 0] by (simp add: CBS_data_def)
      then show ?thesis using Some c2 unfolding ex by (simp add: p len b bool_contents_def Let_def)
    qed
  qed
qed simp_all

subsection \<open>BIT STRING\<close>

text \<open>
  The contents are the number of unused bits of the last byte, and the bytes; bit 0 is the most
  significant bit of the first of them.
\<close>

definition valid_bitstring :: "bytes \<Rightarrow> bool" where
  "valid_bitstring bs =
     (case bs of
        [] \<Rightarrow> False
      | u # data \<Rightarrow> unat u \<le> 7 \<and> (u = 0 \<or> (data \<noteq> [] \<and> take_bit (unat u) (last data) = 0)))"

definition bitstring_bit :: "bytes \<Rightarrow> nat \<Rightarrow> bool" where
  "bitstring_bit bs i = (i div 8 < length (tl bs) \<and> bit (tl bs ! (i div 8)) (7 - i mod 8))"

lemma CBS_is_valid_asn1_bitstring_eq:
  assumes "shows_bytes c bs"
  shows "CBS_is_valid_asn1_bitstring c \<longleftrightarrow> valid_bitstring bs"
proof -
  have wf: "wf_cbs c" "view c = bs" using assms by (auto simp: shows_bytes_def)
  show ?thesis
  proof (cases bs)
    case Nil
    then show ?thesis
      using CBS_get_u8_view [OF wf(1)] wf(2) by (auto simp: CBS_is_valid_asn1_bitstring_def valid_bitstring_def)
  next
    case (Cons u data)
    then obtain c1 where c1: "CBS_get_u8 c = (Some u, c1)" "wf_cbs c1" "view c1 = data"
      using CBS_get_u8_view [OF wf(1)] wf(2) by auto
    obtain r c2 where p: "CBS_get_last_u8 c1 = (r, c2)" by (cases "CBS_get_last_u8 c1")
    note last = reads_asD [OF CBS_get_last_u8_reads c1(2) p]
    have mask: "w AND (push_bit (unat u) 1 - 1) = take_bit (unat u) w" for w :: u8
      by (simp add: take_bit_eq_mask mask_eq_exp_minus_1 push_bit_eq_mult)
    have u: "7 < u \<longleftrightarrow> \<not> unat u \<le> 7" by (simp add: word_less_nat_alt not_le)
    show ?thesis
      using last(3,4) c1 Cons p mask
      by (cases "data = []") (auto simp: CBS_is_valid_asn1_bitstring_def valid_bitstring_def u)
  qed
qed

lemma CBS_asn1_bitstring_has_bit_eq:
  assumes "shows_bytes c bs"
  shows "CBS_asn1_bitstring_has_bit i c \<longleftrightarrow> valid_bitstring bs \<and> bitstring_bit bs (unat i)"
proof (cases bs)
  case Nil
  then show ?thesis
    by (simp add: CBS_asn1_bitstring_has_bit_def CBS_is_valid_asn1_bitstring_eq [OF assms] valid_bitstring_def)
next
  case (Cons u data)
  have byte: "unat (drop_bit 3 i + 1) = unat i div 8 + 1"
  proof -
    have "unat (drop_bit 3 i) = unat i div 8" by (simp add: width_simps)
    moreover have "unat i div 8 < 536870912" by (rule less_mult_imp_div_less) simp
    ultimately show ?thesis by (simp add: unat_word_ariths)
  qed
  have mod8: "unat i mod 8 < 8" by simp
  have low: "unat (i AND 7) = unat i mod 8" by (simp add: width_simps)
  have "i AND 7 \<le> 7" using mod8 low by (simp add: word_le_nat_alt)
  then have bt: "unat (7 - (i AND 7)) = 7 - unat i mod 8"
    using low by (simp add: unat_sub)
  have mask: "w AND push_bit n 1 \<noteq> 0 \<longleftrightarrow> bit w n" for w :: u8 and n
    by (simp only: bit_iff_and_push_bit_not_eq_0)
  then have mask2: "w AND 2 ^ n \<noteq> 0 \<longleftrightarrow> bit w n" for w :: u8 and n
    by (simp add: push_bit_eq_mult)
  have data: "CBS_data c ! Suc (unat i div 8) = data ! (unat i div 8)" if "unat i div 8 < length data"
    using shows_bytes_nth [OF assms, of "Suc (unat i div 8)"] that Cons by (simp add: CBS_data_def)
  have len: "CBS_len c = Suc (length data)" using shows_bytes_data [OF assms] Cons by (simp add: CBS_len_def)
  show ?thesis
    using data Cons
    by (auto simp: mask2 CBS_asn1_bitstring_has_bit_def CBS_is_valid_asn1_bitstring_eq [OF assms] Let_def byte bt len bitstring_bit_def)
qed

subsection \<open>Properties\<close>

lemma reads_as_ex_iff:
  assumes "reads_as (\<lambda>x y. f x = y) p q" "wf_cbs c"
  shows "(\<exists>x c'. p c = (Some x, c') \<and> f x = y \<and> view c' = rest) \<longleftrightarrow> q (view c) = Some (y, rest)"
proof -
  obtain r c' where p: "p c = (r, c')" by (cases "p c")
  show ?thesis
    using reads_asD [OF assms p] p by (cases "q (view c)") auto
qed

lemma b_element_der_form:
  "b_element True bs = Some ((e, tag, hl, False), rest) \<longleftrightarrow> b_element False bs = Some ((e, tag, hl, False), rest)"
proof (cases "b_tag bs")
  case (Some th)
  obtain t h where th: "th = (t, h)" by (cases th)
  show ?thesis
  proof (cases h)
    case (Cons b h')
    note b_tag = Some [unfolded th Cons]
    show ?thesis
    proof (cases "unat b < 128")
      case False
      then show ?thesis
        by (cases "b_be (unat b - 128) h'") (simp_all add: b_element_def b_tag Let_def case_prod_unfold)
    qed (simp add: b_element_def b_tag)
  qed (simp add: b_element_def Some th)
qed (simp add: b_element_def)

lemma int_in_iff:
  "int_in lo hi cs = Some v \<longleftrightarrow> minimal_int cs \<and> int_value cs = v \<and> lo \<le> v \<and> v < hi"
  by (auto simp: int_in_def)

text \<open>
  C5. The DER element parser accepts exactly the DER encodings: CBS_get_any_asn1 finds an element
  with a tag and contents if and only if the window starts with the one encoding of that tag, of
  the length (below 2 to the 32) and the contents; it leaves what follows.
\<close>

theorem der_elements_exact:
  assumes "wf_cbs c"
  shows "(\<exists>out c'. CBS_get_any_asn1 c = (Some (out, tag), c') \<and> view out = contents \<and> view c' = rest) \<longleftrightarrow>
    length contents < 2 ^ 32 \<and> view c = der_element tag contents @ rest"
proof -
  have "reads_as (\<lambda>x y. (case x of (out, t) \<Rightarrow> (t, view out)) = y) CBS_get_any_asn1 b_der"
    by (rule reads_as_mono [OF CBS_get_any_asn1_reads]) (auto simp: shows_bytes_def)
  from reads_as_ex_iff [OF this assms, of "(tag, contents)" rest] show ?thesis
    unfolding b_der_iff by auto
qed

theorem der_elements_exact_witness:
  "\<exists>out c'. CBS_get_any_asn1 (CBS_init [0x04, 0x02, 0xAA, 0xBB, 0x05, 0x00] 6) = (Some (out, 4), c') \<and>
     view out = [0xAA, 0xBB] \<and> view c' = [0x05, 0x00]"
proof -
  have "wf_cbs (CBS_init [0x04, 0x02, 0xAA, 0xBB, 0x05, 0x00] 6)" by simp
  from der_elements_exact [OF this, of 4 "[0xAA, 0xBB]" "[0x05, 0x00]"] show ?thesis
    by (simp add: der_element_def der_tag_def der_length_def)
qed

text \<open>
  The BER element parser extends the DER one: it accepts every DER element with the same
  result, and reports a BER-only form (an indefinite or non-minimal length) exactly for what the
  DER parser refuses.
\<close>

theorem ber_parser_extends_der:
  assumes "wf_cbs c"
  shows "(\<exists>out c'. CBS_get_any_ber_asn1_element c = (Some (out, tag, hl, False), c') \<and> view out = e \<and> view c' = rest) \<longleftrightarrow>
    (\<exists>out c'. CBS_get_any_asn1_element c = (Some (out, tag, hl), c') \<and> view out = e \<and> view c' = rest)"
proof -
  have elem: "reads_as (\<lambda>x y. apfst view x = y) (cbs_get_any_asn1_element ber) (b_element ber)" for ber
    by (rule reads_as_mono [OF cbs_get_any_asn1_element_reads]) (auto simp: shows_bytes_def)
  have ber: "(\<exists>out c'. cbs_get_any_asn1_element ber c = (Some (out, tag, hl, False), c') \<and> view out = e \<and> view c' = rest) \<longleftrightarrow>
      b_element ber (view c) = Some ((e, tag, hl, False), rest)" for ber
    using reads_as_ex_iff [OF elem [of ber] assms, of "(e, tag, hl, False)" rest] by auto
  have "b_element True (view c) = Some ((e, tag, hl, False), rest) \<longleftrightarrow>
      b_element False (view c) = Some ((e, tag, hl, False), rest)"
    by (rule b_element_der_form)
  moreover have "(\<exists>out c'. CBS_get_any_asn1_element c = (Some (out, tag, hl), c') \<and> view out = e \<and> view c' = rest) \<longleftrightarrow>
      (\<exists>out c'. cbs_get_any_asn1_element False c = (Some (out, tag, hl, False), c') \<and> view out = e \<and> view c' = rest)"
  proof (cases "cbs_get_any_asn1_element False c")
    case (Pair r c')
    show ?thesis
    proof (cases r)
      case (Some x)
      obtain out t k f where x: "x = (out, t, k, f)" by (cases x)
      have "b_element False (view c) = Some ((view out, t, k, f), view c')"
        using reads_as_ex_iff [OF elem [of False] assms, of "(view out, t, k, f)" "view c'"] Pair Some x by simp
      then have "\<not> f" by (auto simp: b_element_der)
      then show ?thesis by (simp add: CBS_get_any_asn1_element_def p_bind_def p_return_def Pair Some x)
    qed (simp add: CBS_get_any_asn1_element_def p_bind_def Pair)
  qed
  ultimately show ?thesis unfolding CBS_get_any_ber_asn1_element_def using ber by simp
qed

theorem ber_parser_extends_der_witness:
  "(\<exists>out c'. CBS_get_any_ber_asn1_element (CBS_init [0x04, 0x01, 0xAA] 3) = (Some (out, 4, 2, False), c') \<and>
      view out = [0x04, 0x01, 0xAA] \<and> view c' = []) \<longleftrightarrow>
   (\<exists>out c'. CBS_get_any_asn1_element (CBS_init [0x04, 0x01, 0xAA] 3) = (Some (out, 4, 2), c') \<and>
      view out = [0x04, 0x01, 0xAA] \<and> view c' = [])"
  by (rule ber_parser_extends_der) simp

text \<open>
  C37. The integer parsers accept exactly the minimal two's complement encodings of the values that
  fit: CBS_get_asn1_uint64 those from 0 to 2 to the 64, CBS_get_asn1_int64 those of 64 signed bits;
  and a value has only one minimal encoding.
\<close>

theorem asn1_integers_exact:
  assumes "wf_cbs c"
  shows "((\<exists>w c'. CBS_get_asn1_uint64 c = (Some w, c') \<and> uint w = v \<and> view c' = rest) \<longleftrightarrow>
      0 \<le> v \<and> v < 2 ^ 64 \<and>
      (\<exists>cs. minimal_int cs \<and> int_value cs = v \<and> length cs < 2 ^ 32 \<and> view c = der_element 2 cs @ rest)) \<and>
    ((\<exists>w c'. CBS_get_asn1_int64 c = (Some w, c') \<and> sint w = v \<and> view c' = rest) \<longleftrightarrow>
      - (2 ^ 63) \<le> v \<and> v < 2 ^ 63 \<and>
      (\<exists>cs. minimal_int cs \<and> int_value cs = v \<and> length cs < 2 ^ 32 \<and> view c = der_element 2 cs @ rest)) \<and>
    (minimal_int a \<and> minimal_int b \<and> int_value a = int_value b \<longrightarrow> a = b)"
proof -
  note uint64 = reads_as_ex_iff [OF CBS_get_asn1_uint64_reads assms, of v rest]
  note int64 = reads_as_ex_iff [OF CBS_get_asn1_int64_reads assms, of v rest]
  show ?thesis
    unfolding uint64 int64 b_contents_iff int_in_iff using minimal_int_unique [of a b] by blast
qed

theorem asn1_integers_exact_witness:
  "\<exists>w c'. CBS_get_asn1_int64 (CBS_init [0x02, 0x02, 0xFF, 0x38] 4) = (Some w, c') \<and> sint w = - 200 \<and> view c' = []"
proof -
  let ?c = "CBS_init [0x02, 0x02, 0xFF, 0x38] 4"
  have wf: "wf_cbs ?c" by simp
  have "minimal_int [0xFF, 0x38]" "int_value [0xFF, 0x38] = - 200"
    by (simp_all add: int_value_def)
  moreover have "view ?c = der_element 2 [0xFF, 0x38] @ []"
    by (simp add: der_element_def der_tag_def der_length_def)
  ultimately have "\<exists>cs. minimal_int cs \<and> int_value cs = - 200 \<and> length cs < 2 ^ 32 \<and>
      view ?c = der_element 2 cs @ []"
    by (intro exI [of _ "[0xFF, 0x38]"] conjI) (assumption | simp)+
  then show ?thesis
    by (intro asn1_integers_exact [OF wf, of "- 200" "[]" "[]" "[]", THEN conjunct2, THEN conjunct1, THEN iffD2]) simp
qed

lemma b_optional_value_iff:
  "b_optional_value tag q v0 bs = Some (v, rest) \<longleftrightarrow>
     (if \<exists>r. bs = der_tag tag @ r
      then \<exists>field. length field < 2 ^ 32 \<and> bs = der_element tag field @ rest \<and> q field = Some (v, [])
      else v = v0 \<and> rest = bs)"
proof -
  have tag: "(\<exists>r. bs = der_tag tag @ r) \<longleftrightarrow> (\<exists>r. b_tag bs = Some (tag, r))"
    by (simp add: b_tag_iff)
  show ?thesis
  proof (cases "\<exists>r. b_tag bs = Some (tag, r)")
    case True
    have "b_optional_value tag q v0 bs = Some (v, rest) \<longleftrightarrow>
        (\<exists>field. b_asn1 tag bs = Some (field, rest) \<and> exactly q field = Some v)"
      using True by (auto simp: b_optional_value_def b_optional_def split: option.splits)
    then show ?thesis unfolding tag exactly_Some_iff b_asn1_iff if_P [OF True] by blast
  next
    case False
    then show ?thesis unfolding tag by (auto simp: b_optional_value_def b_optional_def)
  qed
qed

text \<open>
  An optional field is absent exactly when the window does not start with its tag, and then the
  parsers return the default and leave the window alone; when it is there, its contents must be
  exactly one DER integer (or boolean), and an error is reported otherwise.
\<close>

theorem optional_fields:
  assumes "wf_cbs c"
  shows "((\<exists>w c'. CBS_get_optional_asn1_uint64 tag d c = (Some w, c') \<and> uint w = v \<and> view c' = rest) \<longleftrightarrow>
      (if \<exists>r. view c = der_tag tag @ r
       then \<exists>field cs. view c = der_element tag field @ rest \<and> length field < 2 ^ 32 \<and>
              field = der_element 2 cs \<and> length cs < 2 ^ 32 \<and> minimal_int cs \<and> int_value cs = v \<and> 0 \<le> v \<and> v < 2 ^ 64
       else v = uint d \<and> rest = view c)) \<and>
    ((\<exists>w c'. CBS_get_optional_asn1_bool tag (if e then 1 else 0) c = (Some w, c') \<and> (w = 1) = b \<and> view c' = rest) \<longleftrightarrow>
      (if \<exists>r. view c = der_tag tag @ r
       then view c = der_element tag (der_element 1 [if b then 0xFF else 0]) @ rest
       else b = e \<and> rest = view c))"
proof (intro conjI)
  show "(\<exists>w c'. CBS_get_optional_asn1_uint64 tag d c = (Some w, c') \<and> uint w = v \<and> view c' = rest) \<longleftrightarrow>
      (if \<exists>r. view c = der_tag tag @ r
       then \<exists>field cs. view c = der_element tag field @ rest \<and> length field < 2 ^ 32 \<and>
              field = der_element 2 cs \<and> length cs < 2 ^ 32 \<and> minimal_int cs \<and> int_value cs = v \<and> 0 \<le> v \<and> v < 2 ^ 64
       else v = uint d \<and> rest = view c)"
    unfolding reads_as_ex_iff [OF CBS_get_optional_asn1_uint64_reads [OF refl] assms]
      b_optional_value_iff b_contents_iff int_in_iff append_Nil2
    by (intro if_cong refl) blast
  have bool: "reads_as (\<lambda>w v. (w = 1) = v) (CBS_get_optional_asn1_bool tag (if e then 1 else 0))
      (b_optional_value tag (b_contents CBS_ASN1_BOOLEAN bool_contents) e)"
    by (rule reads_as_mono [OF CBS_get_optional_asn1_bool_reads]) simp
  have small: "length (der_element 1 [x]) < 2 ^ 32" for x
    by (simp add: der_element_def der_tag_def der_length_def)
  have contents: "bool_contents cs = Some b \<longleftrightarrow> cs = [if b then 0xFF else 0]" for cs
    by (auto simp: bool_contents_def)
  show "(\<exists>w c'. CBS_get_optional_asn1_bool tag (if e then 1 else 0) c = (Some w, c') \<and> (w = 1) = b \<and> view c' = rest) \<longleftrightarrow>
      (if \<exists>r. view c = der_tag tag @ r
       then view c = der_element tag (der_element 1 [if b then 0xFF else 0]) @ rest
       else b = e \<and> rest = view c)"
    unfolding reads_as_ex_iff [OF bool assms] b_optional_value_iff b_contents_iff contents append_Nil2
    using small by (intro if_cong refl) auto
qed

theorem optional_fields_witness:
  "\<exists>w c'. CBS_get_optional_asn1_uint64 0xA0000000 7 (CBS_init [0x02, 0x01, 0x05] 3) = (Some w, c') \<and>
     uint w = 7 \<and> view c' = [0x02, 0x01, 0x05]"
proof -
  have wf: "wf_cbs (CBS_init [0x02, 0x01, 0x05] 3)" by simp
  have absent: "\<not> (\<exists>r. view (CBS_init [0x02, 0x01, 0x05] 3) = der_tag 0xA0000000 @ r)"
    by (simp add: der_tag_def Let_def)
  show ?thesis
    by (rule optional_fields [OF wf, where tag = "0xA0000000" and d = "7" and v = "7" and rest = "[0x02, 0x01, 0x05]",
          THEN conjunct1, THEN iffD2]) (simp only: absent if_False, simp)
qed

text \<open>
  CBS_asn1_bitstring_has_bit tells whether a bit of a BIT STRING is set: the contents must be
  valid (at most seven unused bits, all zero), bit 0 is the top bit of the first byte, and bits past
  the end count as not set; for every 32-bit index, without reading outside of the contents.
\<close>

theorem bitstring_bits:
  assumes "wf_cbs c"
  shows "CBS_asn1_bitstring_has_bit i c \<longleftrightarrow> valid_bitstring (view c) \<and> bitstring_bit (view c) (unat i)"
  using assms by (intro CBS_asn1_bitstring_has_bit_eq) (simp add: shows_bytes_def)

theorem bitstring_bits_witness:
  "CBS_asn1_bitstring_has_bit 1 (CBS_init [0x04, 0x50] 2) \<and> \<not> CBS_asn1_bitstring_has_bit 8 (CBS_init [0x04, 0x50, 0xFF] 2)"
proof -
  have wf: "wf_cbs (CBS_init [0x04, 0x50] 2)" "wf_cbs (CBS_init [0x04, 0x50, 0xFF] 2)" by simp_all
  have 1: "valid_bitstring [0x04, 0x50]" "bitstring_bit [0x04, 0x50] 1" "\<not> bitstring_bit [0x04, 0x50] 8"
    by code_simp+
  show ?thesis
    using bitstring_bits [OF wf(1), of 1] bitstring_bits [OF wf(2), of 8] 1 by simp
qed

end
