(* ===== verification/Cbb_Spec.thy ===== *)
theory Cbb_Spec
  imports Cbb Asn1_Values
begin

text \<open>
  What a CBB promises, as an abstract builder: the contents of the top-level CBB and of its
  pending children, and no buffer, offsets or lengths. Closing a child puts its length before its
  contents. The theorems show that the operations of Cbb keep the buffer well formed, that they do
  to the abstract builder what they should, and that they fail only for lack of memory or for a
  length that its prefix cannot hold.
\<close>

subsection \<open>The abstract builder\<close>

datatype prefix = Prefix nat | Asn1

type_synonym builder = "bytes \<times> (prefix \<times> bytes) list"

fun close_child :: "prefix \<Rightarrow> bytes \<Rightarrow> bytes option" where
  "close_child (Prefix k) c = (if length c < 256 ^ k then Some (be_bytes k (length c) @ c) else None)"
| "close_child Asn1 c = (if length c \<le> 0xFFFFFFFE then Some (der_length (length c) @ c) else None)"

text \<open>All the children closed, innermost first.\<close>

fun collapse :: "bytes \<Rightarrow> (prefix \<times> bytes) list \<Rightarrow> bytes option" where
  "collapse c [] = Some c"
| "collapse c ((p, b) # fs) =
     (case collapse b fs of
        None \<Rightarrow> None
      | Some b' \<Rightarrow> map_option (\<lambda>e. c @ e) (close_child p b'))"

text \<open>The children of the CBB at a depth closed.\<close>

fun builder_flush :: "nat \<Rightarrow> builder \<Rightarrow> builder option" where
  "builder_flush 0 (c, fs) = map_option (\<lambda>c'. (c', [])) (collapse c fs)"
| "builder_flush (Suc d) (c, []) = None"
| "builder_flush (Suc d) (c, (p, b) # fs) =
     map_option (\<lambda>(b', fs'). (c, (p, b') # fs')) (builder_flush d (b, fs))"

text \<open>Bytes added to the CBB at a depth that has no child.\<close>

fun builder_append :: "nat \<Rightarrow> bytes \<Rightarrow> builder \<Rightarrow> builder" where
  "builder_append 0 bs (c, fs) = (c @ bs, fs)"
| "builder_append (Suc d) bs (c, []) = (c, [])"
| "builder_append (Suc d) bs (c, (p, b) # fs) =
     (case builder_append d bs (b, fs) of (b', fs') \<Rightarrow> (c, (p, b') # fs'))"

definition builder_push :: "prefix \<Rightarrow> builder \<Rightarrow> builder" where
  "builder_push p b = (fst b, snd b @ [(p, [])])"

subsection \<open>The buffer\<close>

definition wf_base :: "cbb_buffer \<Rightarrow> bool" where
  "wf_base b \<longleftrightarrow> bb_len b \<le> bb_cap b \<and> bb_cap b < 2 ^ 64"

definition valid_bytes :: "cbb_buffer \<Rightarrow> bytes" where
  "valid_bytes b = take (bb_len b) (bb_buf b)"

text \<open>There is room for so many bytes, or the buffer may grow and memory is always served.\<close>

definition ample :: "heap \<Rightarrow> nat \<Rightarrow> cbb_buffer \<Rightarrow> bool" where
  "ample hp n b \<longleftrightarrow>
     bb_len b + n \<le> bb_cap b \<or> (\<forall>k. hp_serves hp k) \<and> bb_can_resize b \<and> bb_len b + n < 2 ^ 64"

lemma ample_mono: "ample hp n b \<Longrightarrow> m \<le> n \<Longrightarrow> ample hp m b"
  by (auto simp: ample_def)

lemma length_valid_bytes [simp]: "wf_base b \<Longrightarrow> length (valid_bytes b) = bb_len b"
  by (simp add: valid_bytes_def wf_base_def)

lemma length_fresh_bytes [simp]: "length (fresh_bytes hp n) = n"
  by (simp add: fresh_bytes_def)

text \<open>What the buffer operations keep.\<close>

definition keeps :: "cbb_buffer \<Rightarrow> cbb_buffer \<Rightarrow> bool" where
  "keeps b b' \<longleftrightarrow>
     wf_base b' \<and> bb_can_resize b' = bb_can_resize b \<and> bb_cap b \<le> bb_cap b' \<and>
     (\<not> bb_can_resize b \<longrightarrow> bb_cap b' = bb_cap b)"

lemma reserve_spec:
  assumes wf: "wf_base b" and n: "n < 2 ^ 64" and res: "cbb_buffer_reserve hp n b = (ok, b')"
  shows "keeps b b' \<and> bb_len b' = bb_len b \<and> valid_bytes b' = valid_bytes b \<and>
    (if ok then bb_len b + n \<le> bb_cap b' \<and> bb_error b' = bb_error b else bb_error b') \<and>
    (ample hp n b \<longrightarrow> ok)"
proof -
  let ?new = "size_add (bb_len b) n"
  have len: "bb_len b < 2 ^ 64" using wf by (simp add: wf_base_def)
  have over: "?new < bb_len b \<longleftrightarrow> 2 ^ 64 \<le> bb_len b + n" by (rule size_add_overflow [OF len n])
  show ?thesis
  proof (cases "2 ^ 64 \<le> bb_len b + n")
    case True
    then have "\<not> ok" "b' = b\<lparr>bb_error := True\<rparr>"
      using res over by (auto simp: cbb_buffer_reserve_def Let_def)
    then show ?thesis using wf True by (auto simp: keeps_def wf_base_def valid_bytes_def ample_def)
  next
    case False
    then have new: "?new = bb_len b + n" "\<not> ?new < bb_len b" by (simp_all add: over)
    let ?cap = "if (bb_cap b * 2) mod 2 ^ 64 < bb_cap b \<or> (bb_cap b * 2) mod 2 ^ 64 < bb_len b + n
      then bb_len b + n else (bb_cap b * 2) mod 2 ^ 64"
    have cap: "bb_len b + n \<le> ?cap" "?cap < 2 ^ 64" using False by auto
    have unfold: "cbb_buffer_reserve hp n b =
        (if bb_cap b < bb_len b + n
         then if \<not> bb_can_resize b \<or> \<not> hp_serves hp ?cap then (False, b\<lparr>bb_error := True\<rparr>)
              else (True, b\<lparr>bb_buf := bb_buf b @ drop (bb_cap b) (fresh_bytes hp ?cap)\<rparr>)
         else (True, b))"
      using new by (simp add: cbb_buffer_reserve_def Let_def)
    show ?thesis
    proof (cases "bb_cap b < bb_len b + n")
      case fits: False
      then have "ok" "b' = b" using res unfolding unfold by auto
      then show ?thesis using wf fits by (simp add: keeps_def)
    next
      case grow: True
      show ?thesis
      proof (cases "\<not> bb_can_resize b \<or> \<not> hp_serves hp ?cap")
        case True
        then have "\<not> ok" "b' = b\<lparr>bb_error := True\<rparr>" using res grow unfolding unfold by auto
        then show ?thesis using wf True grow by (auto simp: keeps_def wf_base_def valid_bytes_def ample_def)
      next
        case False
        then have ok: "ok" "b' = b\<lparr>bb_buf := bb_buf b @ drop (bb_cap b) (fresh_bytes hp ?cap)\<rparr>"
          using res grow unfolding unfold by auto
        have "bb_cap b' = ?cap" using ok(2) cap(1) grow by simp
        moreover have "bb_can_resize b" using False by blast
        ultimately show ?thesis using wf ok cap by (simp add: keeps_def wf_base_def valid_bytes_def)
      qed
    qed
  qed
qed

lemma add_spec:
  assumes wf: "wf_base b" and n: "n < 2 ^ 64" and res: "cbb_buffer_add hp n b = (ok, b')"
  shows "keeps b b' \<and> take (bb_len b) (bb_buf b') = valid_bytes b \<and>
    (if ok then bb_len b' = bb_len b + n \<and> bb_error b' = bb_error b else bb_error b' \<and> bb_len b' = bb_len b) \<and>
    (ample hp n b \<longrightarrow> ok)"
proof -
  obtain ok1 b1 where r: "cbb_buffer_reserve hp n b = (ok1, b1)" by (cases "cbb_buffer_reserve hp n b")
  note spec = reserve_spec [OF wf n r]
  have b': "ok = ok1" "b' = (if ok1 then b1\<lparr>bb_len := bb_len b1 + n\<rparr> else b1)"
    using res r by (auto simp: cbb_buffer_add_def split: if_splits)
  show ?thesis using spec unfolding b' by (auto simp: keeps_def wf_base_def valid_bytes_def)
qed

text \<open>Storing bytes in room that has just been made.\<close>

lemma store_after_add:
  assumes wf: "wf_base b" and n: "length bs < 2 ^ 64" and res: "cbb_buffer_add hp (length bs) b = (True, b1)"
  shows "valid_bytes (store_at (bb_len b) bs b1) = valid_bytes b @ bs" "keeps b (store_at (bb_len b) bs b1)"
    "bb_error (store_at (bb_len b) bs b1) = bb_error b"
proof -
  note spec = add_spec [OF wf n res]
  have len: "bb_len b1 = bb_len b + length bs" "bb_len b1 \<le> bb_cap b1" "take (bb_len b) (bb_buf b1) = valid_bytes b"
    using spec by (auto simp: keeps_def wf_base_def)
  then show "valid_bytes (store_at (bb_len b) bs b1) = valid_bytes b @ bs"
    using wf by (simp add: store_at_def valid_bytes_def wf_base_def)
  have "bb_cap (store_at (bb_len b) bs b1) = bb_cap b1" using len wf by (simp add: store_at_def)
  then show "keeps b (store_at (bb_len b) bs b1)" "bb_error (store_at (bb_len b) bs b1) = bb_error b"
    using spec by (auto simp: keeps_def wf_base_def store_at_def)
qed

lemma append_spec:
  assumes wf: "wf_base b" and n: "length bs < 2 ^ 64" and res: "cbb_buffer_append hp bs b = (ok, b')"
  shows "keeps b b' \<and>
    (if ok then valid_bytes b' = valid_bytes b @ bs \<and> bb_error b' = bb_error b
     else bb_error b' \<and> bb_len b' = bb_len b) \<and> (ample hp (length bs) b \<longrightarrow> ok)"
proof -
  obtain ok1 b1 where r: "cbb_buffer_add hp (length bs) b = (ok1, b1)" by (cases "cbb_buffer_add hp (length bs) b")
  note spec = add_spec [OF wf n r]
  show ?thesis
  proof (cases ok1)
    case True
    then have "ok" "b' = store_at (bb_len b) bs b1" using res r by (auto simp: cbb_buffer_append_def)
    then show ?thesis using store_after_add [OF wf n] r True by simp
  next
    case False
    then have "\<not> ok" "b' = b1" using res r by (auto simp: cbb_buffer_append_def)
    then show ?thesis using spec False by simp
  qed
qed

text \<open>The big-endian stores.\<close>

lemma be_bytes_Suc: "be_bytes (Suc n) v = be_bytes n (v div 256) @ [of_nat v]"
  by (simp add: be_bytes_def)

lemma put_be_spec:
  "off + k \<le> length buf \<Longrightarrow>
   put_be off k v buf = (drop_bit (8 * k) v, take off buf @ be_bytes k (unat v) @ drop (off + k) buf)"
proof (induction k arbitrary: v buf)
  case (Suc k)
  have "unat (drop_bit 8 v) = unat v div 256" by (simp add: width_simps)
  moreover have "(ucast v :: u8) = of_nat (unat v)" by simp
  moreover have "drop (off + k) (buf[off + k := ucast v]) = ucast v # drop (Suc (off + k)) buf"
    using Suc.prems by (subst drop_update_swap) (auto simp: Cons_nth_drop_Suc [symmetric])
  moreover have "drop_bit (8 * k) (drop_bit 8 v) = drop_bit (8 * Suc k) v"
    by (simp add: drop_bit_drop_bit add.commute)
  ultimately show ?case using Suc.prems by (simp add: Suc.IH be_bytes_Suc)
qed (simp add: be_bytes_def)

lemma drop_bit_zero_iff: "drop_bit (8 * k) (v :: u64) = 0 \<longleftrightarrow> unat v < 256 ^ k"
proof -
  have "drop_bit (8 * k) v = 0 \<longleftrightarrow> unat v div 2 ^ (8 * k) = 0"
    by (simp only: word_unat_eq_iff unat_drop_bit) simp
  also have "\<dots> \<longleftrightarrow> unat v < 2 ^ (8 * k)" by (simp add: div_eq_0_iff)
  finally show ?thesis by (simp add: power_mult)
qed

lemma add_u_spec:
  assumes wf: "wf_base b" and k: "0 < k" "k \<le> 8" and res: "cbb_buffer_add_u hp v k b = (ok, b')"
  shows "keeps b b' \<and>
    (if ok then unat v < 256 ^ k \<and> valid_bytes b' = valid_bytes b @ be_bytes k (unat v) \<and> bb_error b' = bb_error b
     else bb_error b') \<and> bb_len b \<le> bb_len b' \<and> (ample hp k b \<and> unat v < 256 ^ k \<longrightarrow> ok)"
proof -
  have n: "length (be_bytes k (unat v)) < 2 ^ 64" using k by simp
  obtain ok1 b1 where r: "cbb_buffer_add hp k b = (ok1, b1)" by (cases "cbb_buffer_add hp k b")
  have spec: "keeps b b1 \<and> take (bb_len b) (bb_buf b1) = valid_bytes b \<and>
      (if ok1 then bb_len b1 = bb_len b + k \<and> bb_error b1 = bb_error b else bb_error b1 \<and> bb_len b1 = bb_len b) \<and>
      (ample hp k b \<longrightarrow> ok1)"
    using add_spec [OF wf _ r] k by simp
  show ?thesis
  proof (cases ok1)
    case False
    then have "\<not> ok" "b' = b1" using res r k by (auto simp: cbb_buffer_add_u_def Let_def)
    then show ?thesis using spec False by auto
  next
    case True
    then have room: "bb_len b + k \<le> bb_cap b1" using spec by (simp add: keeps_def wf_base_def)
    let ?s = "store_at (bb_len b) (be_bytes k (unat v)) b1"
    have res': "ok \<longleftrightarrow> unat v < 256 ^ k" "b' = (if ok then ?s else ?s\<lparr>bb_error := True\<rparr>)"
      using res r k True put_be_spec [OF room, of v]
      by (auto simp: cbb_buffer_add_u_def Let_def drop_bit_zero_iff store_at_def split: if_splits)
    have "keeps b ?s" "valid_bytes ?s = valid_bytes b @ be_bytes k (unat v)" "bb_error ?s = bb_error b"
      using store_after_add [OF wf n] r True by simp_all
    moreover have "bb_len ?s = bb_len b + k" using spec True by (simp add: store_at_def)
    ultimately show ?thesis using res' by (auto simp: keeps_def wf_base_def)
  qed
qed

subsection \<open>Well-formed CBBs and the builder they stand for\<close>

fun chain_ok :: "nat \<Rightarrow> pending list \<Rightarrow> nat \<Rightarrow> bool" where
  "chain_ok start [] len \<longleftrightarrow> start \<le> len"
| "chain_ok start (p # ps) len \<longleftrightarrow>
     start \<le> pd_offset p \<and> 1 \<le> pd_len_len p \<and> pd_len_len p \<le> 8 \<and> (pd_is_asn1 p \<longrightarrow> pd_len_len p = 1) \<and>
     chain_ok (pd_offset p + pd_len_len p) ps len"

definition wf_cbb :: "CBB \<Rightarrow> bool" where
  "wf_cbb cbb \<longleftrightarrow> wf_base (cb_base cbb) \<and> chain_ok 0 (cb_chain cbb) (bb_len (cb_base cbb))"

definition kind_of :: "pending \<Rightarrow> prefix" where
  "kind_of p = (if pd_is_asn1 p then Asn1 else Prefix (pd_len_len p))"

fun contents_from :: "bytes \<Rightarrow> nat \<Rightarrow> pending list \<Rightarrow> builder" where
  "contents_from v start [] = (drop start v, [])"
| "contents_from v start (p # ps) =
     (take (pd_offset p - start) (drop start v),
      (case contents_from v (pd_offset p + pd_len_len p) ps of (c, fs) \<Rightarrow> (kind_of p, c) # fs))"

definition builder_of :: "CBB \<Rightarrow> builder" where
  "builder_of cbb = contents_from (valid_bytes (cb_base cbb)) 0 (cb_chain cbb)"

lemma chain_ok_le: "chain_ok start ps len \<Longrightarrow> start \<le> len"
  by (induction ps arbitrary: start) fastforce+

lemma chain_ok_mono: "chain_ok start ps len \<Longrightarrow> len \<le> len' \<Longrightarrow> chain_ok start ps len'"
  by (induction ps arbitrary: start) auto

lemma length_contents_from [simp]: "length (snd (contents_from v start ps)) = length ps"
  by (induction ps arbitrary: start) (auto simp: case_prod_unfold)

text \<open>The first child's prefix is all that follows the contents of its parent.\<close>

lemma be_bytes_1: "be_bytes 1 n = [of_nat n]"
  by (simp add: be_bytes_def)

lemma asn1_length_form_spec:
  assumes "asn1_length_form n = Some (k, b, rest)"
  shows "n \<le> 0xFFFFFFFE" "der_length n = b # be_bytes (k - 1) rest" "rest < 256 ^ (k - 1)" "1 \<le> k" "k \<le> 5"
    "k \<noteq> 1 \<Longrightarrow> rest = n" "rest < 2 ^ 32"
  using assms
  by (auto simp: asn1_length_form_def der_length_def length_bytes_def be_bytes_def split: if_splits)

lemma asn1_length_form_None: "asn1_length_form n = None \<longleftrightarrow> 0xFFFFFFFE < n"
  by (auto simp: asn1_length_form_def)

lemma flush_prefix_plain:
  assumes wf: "wf_base b" and p: "pd_offset p + pd_len_len p \<le> bb_len b" "pd_len_len p \<le> 8" "\<not> pd_is_asn1 p"
    and res: "flush_prefix hp p (bb_len b - (pd_offset p + pd_len_len p)) b = (ok, b')"
  shows "keeps b b' \<and> bb_len b' = bb_len b \<and> bb_error b' = bb_error b \<and>
    (let c = drop (pd_offset p + pd_len_len p) (valid_bytes b) in
     (ok \<longleftrightarrow> close_child (kind_of p) c \<noteq> None) \<and>
     (ok \<longrightarrow> valid_bytes b' = take (pd_offset p) (valid_bytes b) @ the (close_child (kind_of p) c)))"
proof -
  let ?off = "pd_offset p" and ?k = "pd_len_len p"
  let ?n = "bb_len b - (?off + ?k)"
  have wf': "bb_len b \<le> bb_cap b" "bb_cap b < 2 ^ 64" using wf by (auto simp: wf_base_def)
  have n: "unat (of_nat ?n :: u64) = ?n" using wf' by (simp add: unat_of_nat)
  have room: "?off + ?k \<le> bb_cap b" using p(1) wf' by simp
  have put: "put_be ?off ?k (of_nat ?n) (bb_buf b) =
      (drop_bit (8 * ?k) (of_nat ?n), take ?off (bb_buf b) @ be_bytes ?k ?n @ drop (?off + ?k) (bb_buf b))"
    using put_be_spec [OF room, of "of_nat ?n"] unfolding n .
  have res': "ok \<longleftrightarrow> ?n < 256 ^ ?k"
    "b' = b\<lparr>bb_buf := take ?off (bb_buf b) @ be_bytes ?k ?n @ drop (?off + ?k) (bb_buf b)\<rparr>"
    using res p(3) unfolding flush_prefix_def Let_def put by (auto simp: drop_bit_zero_iff n)
  have "length (drop (?off + ?k) (valid_bytes b)) = ?n" using wf by simp
  moreover have "valid_bytes b' = take ?off (valid_bytes b) @ be_bytes ?k ?n @ drop (?off + ?k) (valid_bytes b)"
    using p(1) wf' unfolding res'(2) by (simp add: valid_bytes_def drop_take min_absorb2 le_diff_conv2)
  ultimately show ?thesis
    using p(3) res' room wf by (auto simp: Let_def kind_of_def keeps_def wf_base_def)
qed

lemma length_asn1_prefix: "close_child Asn1 c = Some e \<Longrightarrow> length e - Suc (length c) \<le> 4"
  by (auto simp: der_length_def length_bytes_def split: if_splits)

lemma flush_prefix_asn1:
  assumes wf: "wf_base b" and p: "pd_offset p + 1 \<le> bb_len b" "pd_len_len p = 1" "pd_is_asn1 p"
    and res: "flush_prefix hp p (bb_len b - (pd_offset p + pd_len_len p)) b = (ok, b')"
  shows "keeps b b' \<and> bb_len b \<le> bb_len b' \<and>
    bb_len b' \<le> bb_len b + 4 \<and>
    (let c = drop (pd_offset p + pd_len_len p) (valid_bytes b) in
     (ok \<longrightarrow> close_child (kind_of p) c \<noteq> None \<and> bb_error b' = bb_error b \<and>
        valid_bytes b' = take (pd_offset p) (valid_bytes b) @ the (close_child (kind_of p) c)) \<and>
     (\<forall>e. close_child (kind_of p) c = Some e \<longrightarrow> ample hp (length e - Suc (length c)) b \<longrightarrow> ok))"
proof -
  let ?off = "pd_offset p"
  let ?n = "bb_len b - Suc ?off"
  have wf': "bb_len b \<le> bb_cap b" "bb_cap b < 2 ^ 64" using wf by (auto simp: wf_base_def)
  have c: "length (drop (Suc ?off) (valid_bytes b)) = ?n" using wf by simp
  show ?thesis
  proof (cases "asn1_length_form ?n")
    case None
    then have "\<not> ok" "b' = b" using res p by (auto simp: flush_prefix_def)
    moreover have "0xFFFFFFFE < ?n" using None by (simp only: asn1_length_form_None)
    ultimately show ?thesis using wf p by (auto simp: keeps_def kind_of_def)
  next
    case (Some kbr)
    obtain k ib rest where kbr: "kbr = (k, ib, rest)" by (cases kbr)
    note form = asn1_length_form_spec [OF Some [unfolded kbr]]
    have close: "close_child (kind_of p) (drop (Suc ?off) (valid_bytes b)) =
        Some (ib # be_bytes (k - 1) rest @ drop (Suc ?off) (valid_bytes b))"
      using form(1,2) p c by (simp add: kind_of_def)
    have rest: "unat (of_nat rest :: u64) = rest" using form(7) by (simp add: unat_of_nat)
    have left: "drop_bit (8 * (k - 1)) (of_nat rest :: u64) = 0"
      using form(3) by (simp add: drop_bit_zero_iff rest)
    show ?thesis
    proof (cases "k = 1")
      case True
      have off: "?off < bb_cap b" using p(1) wf' by simp
      have "ok" "b' = b\<lparr>bb_buf := (bb_buf b)[?off := ib]\<rparr>"
        using res p Some kbr True left by (auto simp: flush_prefix_def)
      moreover have "take (bb_len b) ((bb_buf b)[?off := ib]) =
          take ?off (valid_bytes b) @ ib # drop (Suc ?off) (valid_bytes b)"
        using off p(1) by (simp add: valid_bytes_def upd_conv_take_nth_drop take_Cons' drop_take min_def)
      ultimately show ?thesis
        using close True wf p by (simp add: keeps_def wf_base_def valid_bytes_def be_bytes_def Let_def)
    next
      case False
      then have rn: "rest = ?n" using form(6) by simp
      obtain ok1 b1 where add: "cbb_buffer_add hp (k - 1) b = (ok1, b1)" by (cases "cbb_buffer_add hp (k - 1) b")
      have spec: "keeps b b1 \<and> take (bb_len b) (bb_buf b1) = valid_bytes b \<and>
          (if ok1 then bb_len b1 = bb_len b + (k - 1) \<and> bb_error b1 = bb_error b
           else bb_error b1 \<and> bb_len b1 = bb_len b) \<and> (ample hp (k - 1) b \<longrightarrow> ok1)"
        by (rule add_spec [OF wf _ add]) (use form(5) in simp)
      show ?thesis
      proof (cases ok1)
        case no: False
        then have "\<not> ok" "b' = b1" using res p Some kbr False add by (auto simp: flush_prefix_def)
        then show ?thesis using spec no close p(2) by (auto simp: Let_def)
      next
        case True
        let ?v = "take (bb_len b) (bb_buf b1)"
        define buf where "buf = (memmove_at (Suc ?off + (k - 1)) (Suc ?off) rest (bb_buf b1))[?off := ib]"
        have len: "bb_len b + (k - 1) \<le> bb_cap b1" "length ?v = bb_len b"
          using spec True wf' by (auto simp: keeps_def wf_base_def)
        have mm: "memmove_at (Suc ?off + (k - 1)) (Suc ?off) rest (bb_buf b1) =
            take (Suc ?off + (k - 1)) (bb_buf b1) @ drop (Suc ?off) ?v @ drop (bb_len b + (k - 1)) (bb_buf b1)"
          using p(1) len(1) unfolding memmove_at_def rn by (simp add: drop_take add.commute)
        have lbuf: "length buf = bb_cap b1" using p(1) len unfolding buf_def mm by simp
        have low: "take (Suc ?off) buf = take ?off ?v @ [ib]"
          using p(1) len unfolding buf_def mm by (simp add: take_Suc_conv_app_nth min_def)
        have high: "drop (Suc ?off + (k - 1)) buf = drop (Suc ?off) ?v @ drop (bb_len b + (k - 1)) (bb_buf b1)"
          using p(1) len unfolding buf_def mm by simp
        have room: "Suc ?off + (k - 1) \<le> length buf" using p(1) len lbuf by simp
        have put: "put_be (Suc ?off) (k - 1) (of_nat rest) buf =
            (0, take ?off ?v @ ib # be_bytes (k - 1) rest @ drop (Suc ?off) ?v @ drop (bb_len b + (k - 1)) (bb_buf b1))"
          using put_be_spec [OF room, of "of_nat rest"] left unfolding low high rest by simp
        have "(ok, b') = (True, b1\<lparr>bb_buf := take ?off ?v @ ib # be_bytes (k - 1) rest @ drop (Suc ?off) ?v @
            drop (bb_len b + (k - 1)) (bb_buf b1)\<rparr>)"
          using res p(2,3) Some kbr False True add put unfolding buf_def by (simp add: flush_prefix_def Let_def)
        then have res': "ok" "b' = b1\<lparr>bb_buf := take ?off ?v @ ib # be_bytes (k - 1) rest @ drop (Suc ?off) ?v @
            drop (bb_len b + (k - 1)) (bb_buf b1)\<rparr>" by auto
        have l1: "bb_len b1 = bb_len b + (k - 1)" "?v = valid_bytes b" using spec True by auto
        define new where "new = take ?off ?v @ ib # be_bytes (k - 1) rest @ drop (Suc ?off) ?v"
        have "length new = bb_len b1" using p(1) len l1 unfolding new_def by simp
        moreover have "bb_buf b' = new @ drop (bb_len b + (k - 1)) (bb_buf b1)" "bb_len b' = bb_len b1"
          unfolding res'(2) new_def by simp_all
        ultimately have "valid_bytes b' = new" by (simp add: valid_bytes_def)
        moreover have "keeps b b'" "bb_len b \<le> bb_len b'" "bb_error b' = bb_error b"
          using spec True p(1) len l1 form(4) unfolding res'(2) by (auto simp: keeps_def wf_base_def)
        moreover have "bb_len b' \<le> bb_len b + 4" using l1(1) form(5) unfolding res'(2) by simp
        ultimately show ?thesis using close l1(2) res'(1) p by (simp add: Let_def new_def)
      qed
    qed
  qed
qed

lemma flush_prefix_spec:
  assumes wf: "wf_base b" and p: "pd_offset p + pd_len_len p \<le> bb_len b" "pd_len_len p \<le> 8"
      "pd_is_asn1 p \<longrightarrow> pd_len_len p = 1"
    and res: "flush_prefix hp p (bb_len b - (pd_offset p + pd_len_len p)) b = (ok, b')"
  shows "keeps b b' \<and> bb_len b \<le> bb_len b' \<and> bb_len b' \<le> bb_len b + 4 \<and>
    (let c = drop (pd_offset p + pd_len_len p) (valid_bytes b) in
     (ok \<longrightarrow> close_child (kind_of p) c \<noteq> None \<and> bb_error b' = bb_error b \<and>
        valid_bytes b' = take (pd_offset p) (valid_bytes b) @ the (close_child (kind_of p) c)) \<and>
     (\<forall>e. close_child (kind_of p) c = Some e \<longrightarrow> ample hp (length e - (pd_len_len p + length c)) b \<longrightarrow> ok) \<and>
     (ample hp 4 b \<and> close_child (kind_of p) c \<noteq> None \<longrightarrow> ok))"
proof (cases "pd_is_asn1 p")
  case True
  let ?c = "drop (pd_offset p + pd_len_len p) (valid_bytes b)"
  have kind: "kind_of p = Asn1" "pd_len_len p = 1" using True p by (simp_all add: kind_of_def)
  note facts = flush_prefix_asn1 [OF wf _ kind(2) True res] p
  have "ample hp 4 b \<and> close_child (kind_of p) ?c \<noteq> None \<Longrightarrow> ok"
  proof -
    assume a: "ample hp 4 b \<and> close_child (kind_of p) ?c \<noteq> None"
    then obtain e where e: "close_child (kind_of p) ?c = Some e" by blast
    then have "ample hp (length e - Suc (length ?c)) b" using a length_asn1_prefix unfolding kind(1) by (blast intro: ample_mono)
    then show ok using facts e kind(2) by (simp add: Let_def)
  qed
  then show ?thesis using facts kind(2) by (simp add: Let_def)
next
  case False
  then show ?thesis using flush_prefix_plain [OF wf p(1,2) False res] by (simp add: Let_def)
qed

subsection \<open>Flushing\<close>

lemma chain_ok_snoc:
  "chain_ok s (ps @ [p]) len \<longleftrightarrow> chain_ok s ps (pd_offset p) \<and> 1 \<le> pd_len_len p \<and> pd_len_len p \<le> 8 \<and>
     (pd_is_asn1 p \<longrightarrow> pd_len_len p = 1) \<and> pd_offset p + pd_len_len p \<le> len"
  by (induction ps arbitrary: s) auto

lemma chain_ok_split:
  "chain_ok s (ps @ p # qs) len \<Longrightarrow> chain_ok s ps (pd_offset p) \<and> 1 \<le> pd_len_len p \<and> pd_len_len p \<le> 8 \<and>
     (pd_is_asn1 p \<longrightarrow> pd_len_len p = 1) \<and> chain_ok (pd_offset p + pd_len_len p) qs len"
  by (induction ps arbitrary: s) auto

lemma contents_from_close:
  assumes "chain_ok s ps (pd_offset p)" "pd_offset p \<le> length v"
    "close_child (kind_of p) (drop (pd_offset p + pd_len_len p) v) = Some e"
  shows "builder_flush (length ps) (contents_from v s (ps @ [p])) = Some (contents_from (take (pd_offset p) v @ e) s ps)"
  using assms(1)
proof (induction ps arbitrary: s)
  case Nil
  then show ?case using assms(2,3) by (simp add: drop_take)
next
  case (Cons q ps)
  let ?s = "pd_offset q + pd_len_len q"
  have ok: "chain_ok ?s ps (pd_offset p)" using Cons.prems by simp
  from Cons.IH [OF ok] have IH: "builder_flush (length ps) (contents_from v ?s (ps @ [p])) =
      Some (contents_from (take (pd_offset p) v @ e) ?s ps)" .
  obtain c fs where c: "contents_from v ?s (ps @ [p]) = (c, fs)" by fastforce
  obtain c' fs' where c': "contents_from (take (pd_offset p) v @ e) ?s ps = (c', fs')" by fastforce
  have q: "s \<le> pd_offset q" "pd_offset q \<le> pd_offset p" using Cons.prems chain_ok_le [OF ok] by auto
  then have "take (pd_offset q - s) (drop s (take (pd_offset p) v @ e)) = take (pd_offset q - s) (drop s v)"
    using assms(2) by (simp add: drop_take min_absorb1 diff_le_mono)
  then show ?case using IH c c' by simp
qed

lemma contents_from_close_None:
  assumes "close_child (kind_of p) (drop (pd_offset p + pd_len_len p) v) = None"
  shows "builder_flush (length ps) (contents_from v s (ps @ [p])) = None"
  using assms by (induction ps arbitrary: s) (auto simp: case_prod_unfold split: prod.splits)

lemma builder_flush_Suc:
  "d < length fs \<Longrightarrow>
   builder_flush d (c, fs) = Option.bind (builder_flush (Suc d) (c, fs)) (builder_flush d)"
proof (induction d arbitrary: c fs)
  case 0
  then obtain p b fs' where "fs = (p, b) # fs'" by (cases fs) auto
  then show ?case by (cases "collapse b fs'") auto
next
  case (Suc d)
  then obtain p b fs' where fs: "fs = (p, b) # fs'" by (cases fs) auto
  then have "builder_flush d (b, fs') = Option.bind (builder_flush (Suc d) (b, fs')) (builder_flush d)"
    using Suc by simp
  then show ?case by (cases "builder_flush (Suc d) (b, fs')") (auto simp: fs)
qed

lemma builder_flush_all: "d = length fs \<Longrightarrow> builder_flush d (c, fs) = Some (c, fs)"
proof (induction d arbitrary: c fs)
  case (Suc d)
  then show ?case by (cases fs) auto
qed simp

definition flush_facts :: "heap \<Rightarrow> nat \<Rightarrow> CBB \<Rightarrow> bool \<Rightarrow> CBB \<Rightarrow> bool" where
  "flush_facts hp d cbb ok cbb' \<longleftrightarrow>
     wf_cbb cbb' \<and> keeps (cb_base cbb) (cb_base cbb') \<and>
     bb_len (cb_base cbb') \<le> bb_len (cb_base cbb) + 4 * (length (cb_chain cbb) - d) \<and>
     (ok \<longrightarrow> d \<le> length (cb_chain cbb) \<and> \<not> bb_error (cb_base cbb) \<and> \<not> bb_error (cb_base cbb') \<and>
        cb_chain cbb' = take d (cb_chain cbb) \<and> builder_flush d (builder_of cbb) = Some (builder_of cbb')) \<and>
     (\<not> ok \<longrightarrow> length (cb_chain cbb) < d \<or> bb_error (cb_base cbb')) \<and>
     (d \<le> length (cb_chain cbb) \<and> \<not> bb_error (cb_base cbb) \<and> ample hp (4 * (length (cb_chain cbb) - d)) (cb_base cbb) \<and>
        builder_flush d (builder_of cbb) \<noteq> None \<longrightarrow> ok)"

lemma CBB_flush_facts:
  "wf_cbb cbb \<Longrightarrow> CBB_flush hp d cbb = (ok, cbb') \<Longrightarrow> flush_facts hp d cbb ok cbb'"
proof (induction hp d cbb arbitrary: ok cbb' rule: CBB_flush.induct)
  case (1 hp d cbb)
  let ?chain = "cb_chain cbb"
  note wf = "1.prems"(1)
  have base: "wf_base (cb_base cbb)" "chain_ok 0 ?chain (bb_len (cb_base cbb))" using wf by (auto simp: wf_cbb_def)
  have frames: "length (snd (builder_of cbb)) = length ?chain" by (simp add: builder_of_def)
  have keep0: "keeps (cb_base cbb) (cb_base cbb)" using base by (simp add: keeps_def)
  show ?case
  proof (cases "length ?chain < d \<or> bb_error (cb_base cbb)")
    case True
    then have "\<not> ok" "cbb' = cbb" using "1.prems"(2) by (auto simp: CBB_flush.simps)
    then show ?thesis using True wf keep0 by (auto simp: flush_facts_def)
  next
    case live: False
    show ?thesis
    proof (cases "length ?chain = d")
      case True
      then have "ok" "cbb' = cbb" using "1.prems"(2) live by (auto simp: CBB_flush.simps)
      moreover have "builder_flush d (builder_of cbb) = Some (builder_of cbb)"
        using builder_flush_all [of d "snd (builder_of cbb)" "fst (builder_of cbb)"] frames True by simp
      ultimately show ?thesis using True live wf keep0 by (auto simp: flush_facts_def)
    next
      case False
      then have d: "d < length ?chain" using live by simp
      let ?p = "?chain ! d"
      have split: "?chain = take d ?chain @ ?p # drop (Suc d) ?chain" using d by (simp add: id_take_nth_drop)
      have chain: "chain_ok 0 (take d ?chain) (pd_offset ?p)" "1 \<le> pd_len_len ?p" "pd_len_len ?p \<le> 8"
        "pd_is_asn1 ?p \<longrightarrow> pd_len_len ?p = 1" "pd_offset ?p + pd_len_len ?p \<le> bb_len (cb_base cbb)"
        using chain_ok_split [of 0 "take d ?chain" ?p "drop (Suc d) ?chain"] base(2) split chain_ok_le by metis+
      obtain ok1 cbb1 where rec: "CBB_flush hp (Suc d) cbb = (ok1, cbb1)" by (cases "CBB_flush hp (Suc d) cbb")
      have nz: "\<not> (length ?chain = d \<or> pd_len_len ?p = 0)" using False chain(2) by simp
      have IH: "flush_facts hp (Suc d) cbb ok1 cbb1"
        by (rule "1.IH" [OF live nz refl refl wf rec])
      let ?start = "pd_offset ?p + pd_len_len ?p"
      have start: "size_add (pd_offset ?p) (pd_len_len ?p) = ?start"
        using chain(5) base(1) by (intro size_add_eq) (simp add: wf_base_def)
      have step: "CBB_flush hp d cbb =
          (if \<not> ok1 then cbb_error cbb1
           else if bb_len (cb_base cbb1) < ?start then cbb_error cbb1
           else case flush_prefix hp ?p (bb_len (cb_base cbb1) - ?start) (cb_base cbb1) of
             (ok, b) \<Rightarrow> if \<not> ok then cbb_error (cbb1\<lparr>cb_base := b\<rparr>)
                        else (True, cbb1\<lparr>cb_base := b, cb_chain := take d (cb_chain cbb1)\<rparr>))"
        by (subst CBB_flush.simps) (auto simp: live nz rec start Let_def split: prod.splits)
      have reach: "builder_flush d (builder_of cbb) = Option.bind (builder_flush (Suc d) (builder_of cbb)) (builder_flush d)"
        using builder_flush_Suc [of d "snd (builder_of cbb)" "fst (builder_of cbb)"] d frames by simp
      have room: "ample hp (4 * (length ?chain - d)) (cb_base cbb) \<Longrightarrow> ample hp (4 * (length ?chain - Suc d)) (cb_base cbb)"
        by (rule ample_mono) auto
      note inner = IH [unfolded flush_facts_def]
      have parts: "wf_cbb cbb1" "keeps (cb_base cbb) (cb_base cbb1)"
        "bb_len (cb_base cbb1) \<le> bb_len (cb_base cbb) + 4 * (length ?chain - d)"
        using inner by auto
      show ?thesis
      proof (cases ok1)
        case False
        then have res: "\<not> ok" "cbb' = cbb1\<lparr>cb_base := (cb_base cbb1)\<lparr>bb_error := True\<rparr>\<rparr>"
          using "1.prems"(2) step by (auto simp: cbb_error_def)
        have "\<not> (ample hp (4 * (length ?chain - d)) (cb_base cbb) \<and> builder_flush d (builder_of cbb) \<noteq> None)"
        proof
          assume a: "ample hp (4 * (length ?chain - d)) (cb_base cbb) \<and> builder_flush d (builder_of cbb) \<noteq> None"
          then have "builder_flush (Suc d) (builder_of cbb) \<noteq> None" using reach by (cases "builder_flush (Suc d) (builder_of cbb)") auto
          moreover have "Suc d \<le> length ?chain" using d by simp
          ultimately show False using inner live room a False by blast
        qed
        moreover have "wf_cbb cbb'" "keeps (cb_base cbb) (cb_base cbb')"
          "bb_len (cb_base cbb') \<le> bb_len (cb_base cbb) + 4 * (length ?chain - d)"
          using parts unfolding res(2) by (simp_all add: wf_cbb_def wf_base_def keeps_def)
        ultimately show ?thesis using d unfolding flush_facts_def by (simp add: res)
      next
        case True
        have ok1: "\<not> bb_error (cb_base cbb1)" "builder_flush (Suc d) (builder_of cbb) = Some (builder_of cbb1)"
          "cb_chain cbb1 = take (Suc d) ?chain"
          using inner True by blast+
        have inner_len: "bb_len (cb_base cbb1) + 4 \<le> bb_len (cb_base cbb) + 4 * (length ?chain - d)"
        proof -
          have "bb_len (cb_base cbb1) \<le> bb_len (cb_base cbb) + 4 * (length ?chain - Suc d)" using inner by blast
          then show ?thesis using d by linarith
        qed
        have chain1: "cb_chain cbb1 = take d ?chain @ [?p]"
          using ok1(3) d by (simp add: take_Suc_conv_app_nth)
        have wf1: "wf_base (cb_base cbb1)" "chain_ok 0 (take d ?chain) (pd_offset ?p)" "?start \<le> bb_len (cb_base cbb1)"
          using parts(1) unfolding wf_cbb_def chain1 chain_ok_snoc by blast+
        obtain ok2 b2 where fp: "flush_prefix hp ?p (bb_len (cb_base cbb1) - ?start) (cb_base cbb1) = (ok2, b2)"
          by (cases "flush_prefix hp ?p (bb_len (cb_base cbb1) - ?start) (cb_base cbb1)")
        note prefix = flush_prefix_spec [OF wf1(1,3) chain(3,4) fp]
        have grow: "keeps (cb_base cbb1) b2" "bb_len (cb_base cbb1) \<le> bb_len b2" "bb_len b2 \<le> bb_len (cb_base cbb1) + 4"
          using prefix by blast+
        let ?v = "valid_bytes (cb_base cbb1)"
        have b1: "builder_of cbb1 = contents_from ?v 0 (take d ?chain @ [?p])" by (simp add: builder_of_def chain1)
        have flush1: "builder_flush d (builder_of cbb) = builder_flush d (builder_of cbb1)"
          using ok1(2) reach by simp
        have ldt: "length (take d ?chain) = d" using d by simp
        show ?thesis
        proof (cases ok2)
          case ok2: True
          then have res: "ok" "cbb' = cbb1\<lparr>cb_base := b2, cb_chain := take d ?chain\<rparr>"
            using "1.prems"(2) step True wf1(3) fp chain1 d by auto
          obtain e where e: "close_child (kind_of ?p) (drop ?start ?v) = Some e"
            "valid_bytes b2 = take (pd_offset ?p) ?v @ e" "bb_error b2 = bb_error (cb_base cbb1)"
            using prefix ok2 by (auto simp: Let_def)
          have "pd_offset ?p \<le> length ?v" using wf1 by simp
          from contents_from_close [OF wf1(2) this e(1)]
          have "builder_flush d (builder_of cbb) = Some (builder_of cbb')"
            unfolding flush1 b1 ldt by (simp add: builder_of_def res(2) e(2))
          moreover have "chain_ok 0 (take d ?chain) (bb_len b2)"
            using wf1(3) grow(2) by (intro chain_ok_mono [OF wf1(2)]) linarith
          ultimately show ?thesis
            using ok1(1) live parts(2,3) inner_len grow e(3) d res(1)
            unfolding flush_facts_def res(2) by (simp add: wf_cbb_def keeps_def)
        next
          case False
          let ?b = "b2\<lparr>bb_error := True\<rparr>"
          have res: "\<not> ok" "cbb' = cbb1\<lparr>cb_base := ?b\<rparr>"
            using "1.prems"(2) step True wf1(3) fp False by (auto simp: cbb_error_def)
          have "chain_ok 0 (cb_chain cbb1) (bb_len b2)"
            using parts(1) grow(2) chain_ok_mono unfolding wf_cbb_def by blast
          moreover have "\<not> (ample hp (4 * (length ?chain - d)) (cb_base cbb) \<and> builder_flush d (builder_of cbb) \<noteq> None)"
          proof
            assume a: "ample hp (4 * (length ?chain - d)) (cb_base cbb) \<and> builder_flush d (builder_of cbb) \<noteq> None"
            have "builder_flush d (contents_from ?v 0 (take d ?chain @ [?p])) \<noteq> None"
              using a unfolding flush1 b1 by (rule conjunct2)
            then have "close_child (kind_of ?p) (drop ?start ?v) \<noteq> None"
              using contents_from_close_None [of ?p ?v "take d ?chain" 0] unfolding ldt by (rule contrapos_nn)
            moreover have "ample hp 4 (cb_base cbb1)"
              using a parts(2) inner_len d by (auto simp: ample_def keeps_def)
            ultimately show False using prefix False by (simp add: Let_def)
          qed
          ultimately show ?thesis
            using parts(2) inner_len grow d res(1)
            unfolding flush_facts_def res(2) by (simp add: wf_cbb_def keeps_def wf_base_def)
        qed
      qed
    qed
  qed
qed

end
