(* ===== verification/Cbb_Builder.thy ===== *)
theory Cbb_Builder
  imports Cbb_Spec
begin

text \<open>
  What a writer to a CBB does to the bytes and to the abstract builder of Cbb_Spec: three contracts
  (appending bytes to a CBB without children, changing the builder by a function, and the same
  after the children are closed), how they compose, and the writers of cbb.c that meet them.
\<close>

subsection \<open>Writers that append\<close>

text \<open>
  Run on a CBB without pending children, the writer appends the bytes and leaves no child; it fails
  only for lack of memory or if the condition does not hold, and then sets the error flag.
\<close>

definition appends :: "heap \<Rightarrow> nat \<Rightarrow> bytes \<Rightarrow> bool \<Rightarrow> (CBB \<Rightarrow> bool \<times> CBB) \<Rightarrow> bool" where
  "appends hp d bs P w \<longleftrightarrow>
     (\<forall>cbb ok cbb'. wf_cbb cbb \<longrightarrow> length (cb_chain cbb) = d \<longrightarrow> \<not> bb_error (cb_base cbb) \<longrightarrow> w cbb = (ok, cbb') \<longrightarrow>
        wf_cbb cbb' \<and> keeps (cb_base cbb) (cb_base cbb') \<and>
        (ok \<longrightarrow> P \<and> cb_chain cbb' = cb_chain cbb \<and> valid_bytes (cb_base cbb') = valid_bytes (cb_base cbb) @ bs) \<and>
        (ok \<longleftrightarrow> \<not> bb_error (cb_base cbb')) \<and>
        (P \<longrightarrow> ample hp (length bs) (cb_base cbb) \<longrightarrow> ok))"

lemma appendsD:
  assumes "appends hp d bs P w" "wf_cbb cbb" "length (cb_chain cbb) = d" "\<not> bb_error (cb_base cbb)" "w cbb = (ok, cbb')"
  shows "wf_cbb cbb'" "keeps (cb_base cbb) (cb_base cbb')"
    "ok \<Longrightarrow> P \<and> cb_chain cbb' = cb_chain cbb \<and> valid_bytes (cb_base cbb') = valid_bytes (cb_base cbb) @ bs"
    "ok \<longleftrightarrow> \<not> bb_error (cb_base cbb')" "P \<Longrightarrow> ample hp (length bs) (cb_base cbb) \<Longrightarrow> ok"
  using assms unfolding appends_def by blast+

named_theorems writers \<open>what the writers append\<close>

lemma wf_base_keeps: "keeps b b' \<Longrightarrow> wf_base b'"
  by (simp add: keeps_def)

lemma bb_len_valid: "wf_base b \<Longrightarrow> bb_len b = length (valid_bytes b)"
  by simp

lemma keeps_trans: "keeps a b \<Longrightarrow> keeps b c \<Longrightarrow> keeps a c"
  by (auto simp: keeps_def)

lemma ample_after:
  assumes "ample hp (m + n) b" "keeps b b'" "bb_len b' = bb_len b + m"
  shows "ample hp n b'"
  using assms by (auto simp: ample_def keeps_def)

lemma flush_none: "length (cb_chain cbb) = d \<Longrightarrow> \<not> bb_error (cb_base cbb) \<Longrightarrow> CBB_flush hp d cbb = (True, cbb)"
  by (simp add: CBB_flush.simps)

lemma flushed_none:
  "length (cb_chain cbb) = d \<Longrightarrow> \<not> bb_error (cb_base cbb) \<Longrightarrow> flushed hp d w cbb = w cbb"
  by (simp add: flushed_def flush_none)

lemma appends_eq:
  assumes "appends hp d bs P w"
    and eq: "\<And>cbb. length (cb_chain cbb) = d \<Longrightarrow> \<not> bb_error (cb_base cbb) \<Longrightarrow> w' cbb = w cbb"
  shows "appends hp d bs P w'"
  unfolding appends_def
proof (intro allI impI)
  fix cbb ok cbb'
  assume a: "wf_cbb cbb" "length (cb_chain cbb) = d" "\<not> bb_error (cb_base cbb)" "w' cbb = (ok, cbb')"
  have "w cbb = (ok, cbb')" using a(4) eq [OF a(2,3)] by simp
  from appendsD [OF assms(1) a(1-3) this]
  show "wf_cbb cbb' \<and> keeps (cb_base cbb) (cb_base cbb') \<and>
      (ok \<longrightarrow> P \<and> cb_chain cbb' = cb_chain cbb \<and> valid_bytes (cb_base cbb') = valid_bytes (cb_base cbb) @ bs) \<and>
      (ok \<longleftrightarrow> \<not> bb_error (cb_base cbb')) \<and> (P \<longrightarrow> ample hp (length bs) (cb_base cbb) \<longrightarrow> ok)"
    by blast
qed

lemma appends_flushed: "appends hp d bs P w \<Longrightarrow> appends hp d bs P (flushed hp d w)"
  by (erule appends_eq) (rule flushed_none)

lemma appends_return: "P \<Longrightarrow> appends hp d [] P (Pair True)"
  unfolding appends_def by (intro allI impI) (simp add: wf_cbb_def keeps_def)

lemma appends_flush: "P \<Longrightarrow> appends hp d [] P (CBB_flush hp d)"
  unfolding appends_def by (intro allI impI) (simp add: flush_none wf_cbb_def keeps_def)

lemma appends_cong: "appends hp d bs P w \<Longrightarrow> bs = bs' \<Longrightarrow> P = P' \<Longrightarrow> appends hp d bs' P' w"
  by simp

lemma appends_then:
  assumes 1: "appends hp d bs P w" and 2: "P \<Longrightarrow> appends hp d cs Q w'"
  shows "appends hp d (bs @ cs) (P \<and> Q) (cbb_then w w')"
  unfolding appends_def
proof (intro allI impI)
  fix cbb ok cbb'
  assume wf: "wf_cbb cbb" and d: "length (cb_chain cbb) = d" and e: "\<not> bb_error (cb_base cbb)"
    and run: "cbb_then w w' cbb = (ok, cbb')"
  obtain ok1 c1 where w: "w cbb = (ok1, c1)" by fastforce
  note A = appendsD [OF 1 wf d e w]
  have len: "ok1 \<Longrightarrow> bb_len (cb_base c1) = bb_len (cb_base cbb) + length bs"
    using A(1,3) wf bb_len_valid by (fastforce simp: wf_cbb_def)
  show "wf_cbb cbb' \<and> keeps (cb_base cbb) (cb_base cbb') \<and>
      (ok \<longrightarrow> (P \<and> Q) \<and> cb_chain cbb' = cb_chain cbb \<and>
         valid_bytes (cb_base cbb') = valid_bytes (cb_base cbb) @ bs @ cs) \<and>
      (ok \<longleftrightarrow> \<not> bb_error (cb_base cbb')) \<and> (P \<and> Q \<longrightarrow> ample hp (length (bs @ cs)) (cb_base cbb) \<longrightarrow> ok)"
  proof (cases ok1)
    case False
    then have "\<not> ok" "cbb' = c1" using run w by (auto simp: cbb_then_def)
    moreover have "ample hp (length (bs @ cs)) (cb_base cbb) \<Longrightarrow> ample hp (length bs) (cb_base cbb)"
      by (rule ample_mono) auto
    ultimately show ?thesis using A False by blast
  next
    case True
    then have run2: "w' c1 = (ok, cbb')" using run w by (simp add: cbb_then_def)
    have d1: "length (cb_chain c1) = d" "\<not> bb_error (cb_base c1)" P using A True d by auto
    note B = appendsD [OF 2 [OF d1(3)] A(1) d1(1,2) run2]
    have "ample hp (length (bs @ cs)) (cb_base cbb) \<Longrightarrow> ample hp (length cs) (cb_base c1)"
      using len [OF True] A(2) by (auto intro: ample_after)
    then show ?thesis using B A(3) [OF True] keeps_trans [OF A(2) B(2)] by auto
  qed
qed

lemma wf_cbb_grow:
  "wf_cbb cbb \<Longrightarrow> wf_base b \<Longrightarrow> bb_len (cb_base cbb) \<le> bb_len b \<Longrightarrow> wf_cbb (cbb\<lparr>cb_base := b\<rparr>)"
  by (auto simp: wf_cbb_def intro: chain_ok_mono)

lemma appends_bytes:
  assumes "length bs < 2 ^ 64"
  shows "appends hp d bs True (on_base (cbb_buffer_append hp bs))"
  unfolding appends_def
proof (intro allI impI)
  fix cbb ok cbb'
  assume wf: "wf_cbb cbb" and e: "\<not> bb_error (cb_base cbb)" and run: "on_base (cbb_buffer_append hp bs) cbb = (ok, cbb')"
  obtain b where b: "cbb_buffer_append hp bs (cb_base cbb) = (ok, b)" "cbb' = cbb\<lparr>cb_base := b\<rparr>"
    using run by (auto simp: on_base_def split: prod.splits)
  have wfb: "wf_base (cb_base cbb)" using wf by (simp add: wf_cbb_def)
  note spec = append_spec [OF wfb assms b(1)]
  have "bb_len (cb_base cbb) \<le> bb_len b"
  proof (cases ok)
    case True
    then have "length (valid_bytes b) = length (valid_bytes (cb_base cbb)) + length bs" using spec by simp
    moreover have "wf_base b" using spec wf_base_keeps by blast
    ultimately show ?thesis using wfb by simp
  qed (use spec in simp)
  then have "wf_cbb cbb'" using wf spec unfolding b(2) by (auto intro: wf_cbb_grow wf_base_keeps)
  then show "wf_cbb cbb' \<and> keeps (cb_base cbb) (cb_base cbb') \<and>
      (ok \<longrightarrow> True \<and> cb_chain cbb' = cb_chain cbb \<and> valid_bytes (cb_base cbb') = valid_bytes (cb_base cbb) @ bs) \<and>
      (ok \<longleftrightarrow> \<not> bb_error (cb_base cbb')) \<and> (True \<longrightarrow> ample hp (length bs) (cb_base cbb) \<longrightarrow> ok)"
    using spec e unfolding b(2) by (auto split: if_splits)
qed

lemma appends_u:
  assumes k: "0 < k" "k \<le> 8"
  shows "appends hp d (be_bytes k (unat v)) (unat v < 256 ^ k) (on_base (cbb_buffer_add_u hp v k))"
  unfolding appends_def
proof (intro allI impI)
  fix cbb ok cbb'
  assume wf: "wf_cbb cbb" and e: "\<not> bb_error (cb_base cbb)" and run: "on_base (cbb_buffer_add_u hp v k) cbb = (ok, cbb')"
  obtain b where b: "cbb_buffer_add_u hp v k (cb_base cbb) = (ok, b)" "cbb' = cbb\<lparr>cb_base := b\<rparr>"
    using run by (auto simp: on_base_def split: prod.splits)
  have wfb: "wf_base (cb_base cbb)" using wf by (simp add: wf_cbb_def)
  note spec = add_u_spec [OF wfb k b(1)]
  have "wf_cbb cbb'" using wf spec unfolding b(2) by (auto intro: wf_cbb_grow wf_base_keeps)
  then show "wf_cbb cbb' \<and> keeps (cb_base cbb) (cb_base cbb') \<and>
      (ok \<longrightarrow> unat v < 256 ^ k \<and> cb_chain cbb' = cb_chain cbb \<and>
         valid_bytes (cb_base cbb') = valid_bytes (cb_base cbb) @ be_bytes k (unat v)) \<and>
      (ok \<longleftrightarrow> \<not> bb_error (cb_base cbb')) \<and>
      (unat v < 256 ^ k \<longrightarrow> ample hp (length (be_bytes k (unat v))) (cb_base cbb) \<longrightarrow> ok)"
    using spec e unfolding b(2) by (auto split: if_splits)
qed

lemma CBB_add_bytes_appends [writers]: "length bs < 2 ^ 64 \<Longrightarrow> appends hp d bs True (CBB_add_bytes hp d bs)"
  by (simp add: CBB_add_bytes_def appends_flushed appends_bytes)

lemma unat_ucast_u64: "LENGTH('a) \<le> 64 \<Longrightarrow> unat (ucast (v :: 'a::len word) :: u64) = unat v"
proof -
  assume "LENGTH('a) \<le> 64"
  then have "(2 :: nat) ^ LENGTH('a) \<le> 2 ^ 64" by (intro power_increasing) simp_all
  then have "unat v < 2 ^ 64" by (rule less_le_trans [OF unat_lt_2p])
  then show ?thesis by (simp add: unat_ucast_word)
qed

text \<open>A number of at most eight bytes, from a word that may be narrower.\<close>

lemma appends_ucast:
  assumes "0 < k" "k \<le> 8" "LENGTH('a) \<le> 64"
  shows "appends hp d (be_bytes k (unat v)) (unat v < 256 ^ k)
    (flushed hp d (on_base (cbb_buffer_add_u hp (ucast (v :: 'a::len word)) k)))"
  using appends_flushed [OF appends_u [OF assms(1,2), of hp d "ucast v"]]
  unfolding unat_ucast_u64 [OF assms(3)] .

lemma CBB_add_u8_appends [writers]: "appends hp d [v] True (CBB_add_u8 hp d v)"
  using appends_ucast [of 1 hp d v] by (simp add: CBB_add_u8_def be_bytes_1 [simplified])

lemma CBB_add_u16_appends [writers]: "appends hp d (be_bytes 2 (unat v)) True (CBB_add_u16 hp d v)"
proof -
  have "unat v < 65536" using unat_lt_2p [of v] by simp
  then show ?thesis using appends_ucast [of 2 hp d v] by (simp add: CBB_add_u16_def)
qed

lemma CBB_add_u24_appends [writers]:
  "appends hp d (be_bytes 3 (unat v)) (unat v < 2 ^ 24) (CBB_add_u24 hp d v)"
  using appends_ucast [of 3 hp d v] by (simp add: CBB_add_u24_def)

lemma CBB_add_u32_appends [writers]: "appends hp d (be_bytes 4 (unat v)) True (CBB_add_u32 hp d v)"
  using appends_ucast [of 4 hp d v] by (simp add: CBB_add_u32_def)

lemma CBB_add_u64_appends [writers]: "appends hp d (be_bytes 8 (unat v)) True (CBB_add_u64 hp d v)"
proof -
  have "unat v < 18446744073709551616" by simp
  then show ?thesis
    using appends_flushed [OF appends_u [of 8 hp d v]]
    by (simp add: CBB_add_u64_def)
qed

subsection \<open>Writers on the abstract builder\<close>

lemma contents_from_append:
  "chain_ok s ps (length v) \<Longrightarrow> contents_from (v @ bs) s ps = builder_append (length ps) bs (contents_from v s ps)"
proof (induction ps arbitrary: s)
  case (Cons p ps)
  then have "s \<le> pd_offset p" "pd_offset p \<le> length v" using chain_ok_le [of _ ps "length v"] by fastforce+
  then have "take (pd_offset p - s) (drop s (v @ bs)) = take (pd_offset p - s) (drop s v)" by simp
  then show ?case using Cons by (auto split: prod.splits)
qed simp

lemma contents_from_push:
  "chain_ok s ps (length v) \<Longrightarrow> pd_offset p = length v \<Longrightarrow> pd_len_len p = length bs \<Longrightarrow>
   contents_from (v @ bs) s (ps @ [p]) = builder_push (kind_of p) (contents_from v s ps)"
proof (induction ps arbitrary: s)
  case (Cons q ps)
  then have "s \<le> pd_offset q" "pd_offset q \<le> length v" using chain_ok_le [of _ ps "length v"] by fastforce+
  then have "take (pd_offset q - s) (drop s (v @ bs)) = take (pd_offset q - s) (drop s v)" by simp
  then show ?case using Cons by (auto simp: builder_push_def split: prod.splits)
qed (simp add: builder_push_def)

text \<open>Run on a CBB without pending children, the writer changes the builder by a function.\<close>

definition transforms :: "heap \<Rightarrow> nat \<Rightarrow> (builder \<Rightarrow> builder) \<Rightarrow> nat \<Rightarrow> bool \<Rightarrow> (CBB \<Rightarrow> bool \<times> CBB) \<Rightarrow> bool" where
  "transforms hp d f n P w \<longleftrightarrow>
     (\<forall>cbb ok cbb'. wf_cbb cbb \<longrightarrow> length (cb_chain cbb) = d \<longrightarrow> \<not> bb_error (cb_base cbb) \<longrightarrow> w cbb = (ok, cbb') \<longrightarrow>
        wf_cbb cbb' \<and> keeps (cb_base cbb) (cb_base cbb') \<and>
        (ok \<longrightarrow> P \<and> builder_of cbb' = f (builder_of cbb) \<and> bb_len (cb_base cbb') \<le> bb_len (cb_base cbb) + n) \<and>
        (ok \<longleftrightarrow> \<not> bb_error (cb_base cbb')) \<and> (P \<longrightarrow> ample hp n (cb_base cbb) \<longrightarrow> ok))"

lemma transformsD:
  assumes "transforms hp d f n P w" "wf_cbb cbb" "length (cb_chain cbb) = d" "\<not> bb_error (cb_base cbb)" "w cbb = (ok, cbb')"
  shows "wf_cbb cbb'" "keeps (cb_base cbb) (cb_base cbb')" "ok \<Longrightarrow> P \<and> builder_of cbb' = f (builder_of cbb) \<and> bb_len (cb_base cbb') \<le> bb_len (cb_base cbb) + n"
    "ok \<longleftrightarrow> \<not> bb_error (cb_base cbb')" "P \<Longrightarrow> ample hp n (cb_base cbb) \<Longrightarrow> ok"
  using assms unfolding transforms_def by blast+

text \<open>Run on any CBB, the writer first closes the children of the one it is given.\<close>

definition simulates :: "heap \<Rightarrow> nat \<Rightarrow> (builder \<Rightarrow> builder) \<Rightarrow> nat \<Rightarrow> bool \<Rightarrow> (CBB \<Rightarrow> bool \<times> CBB) \<Rightarrow> bool" where
  "simulates hp d f n P w \<longleftrightarrow>
     (\<forall>cbb ok cbb'. wf_cbb cbb \<longrightarrow> w cbb = (ok, cbb') \<longrightarrow>
        wf_cbb cbb' \<and> keeps (cb_base cbb) (cb_base cbb') \<and>
        (ok \<longrightarrow> d \<le> length (cb_chain cbb) \<and> \<not> bb_error (cb_base cbb) \<and> \<not> bb_error (cb_base cbb') \<and> P \<and>
           map_option f (builder_flush d (builder_of cbb)) = Some (builder_of cbb') \<and>
           bb_len (cb_base cbb') \<le> bb_len (cb_base cbb) + (4 * (length (cb_chain cbb) - d) + n)) \<and>
        (\<not> ok \<longrightarrow> length (cb_chain cbb) < d \<or> bb_error (cb_base cbb')) \<and>
        (P \<longrightarrow> d \<le> length (cb_chain cbb) \<longrightarrow> \<not> bb_error (cb_base cbb) \<longrightarrow>
           ample hp (4 * (length (cb_chain cbb) - d) + n) (cb_base cbb) \<longrightarrow>
           builder_flush d (builder_of cbb) \<noteq> None \<longrightarrow> ok))"

lemma builder_of_append:
  assumes "wf_cbb cbb" "cb_chain cbb' = cb_chain cbb"
    "valid_bytes (cb_base cbb') = valid_bytes (cb_base cbb) @ bs"
  shows "builder_of cbb' = builder_append (length (cb_chain cbb)) bs (builder_of cbb)"
  using assms by (simp add: builder_of_def wf_cbb_def contents_from_append)

lemma transforms_appends:
  assumes "appends hp d bs P w"
  shows "transforms hp d (builder_append d bs) (length bs) P w"
  unfolding transforms_def
proof (intro allI impI)
  fix cbb ok cbb'
  assume a: "wf_cbb cbb" "length (cb_chain cbb) = d" "\<not> bb_error (cb_base cbb)" "w cbb = (ok, cbb')"
  note A = appendsD [OF assms a]
  have "ok \<Longrightarrow> builder_of cbb' = builder_append d bs (builder_of cbb)"
    using A(3) builder_of_append [OF a(1), of cbb' bs] a(2) by simp
  moreover have "ok \<Longrightarrow> bb_len (cb_base cbb') \<le> bb_len (cb_base cbb) + length bs"
    using A(1,3) a(1) bb_len_valid by (fastforce simp: wf_cbb_def)
  ultimately show "wf_cbb cbb' \<and> keeps (cb_base cbb) (cb_base cbb') \<and>
      (ok \<longrightarrow> P \<and> builder_of cbb' = builder_append d bs (builder_of cbb) \<and>
         bb_len (cb_base cbb') \<le> bb_len (cb_base cbb) + length bs) \<and>
      (ok \<longleftrightarrow> \<not> bb_error (cb_base cbb')) \<and> (P \<longrightarrow> ample hp (length bs) (cb_base cbb) \<longrightarrow> ok)"
    using A by blast
qed

lemma transforms_then:
  assumes 1: "appends hp d bs P w" and 2: "transforms hp d f n Q w'"
  shows "transforms hp d (\<lambda>b. f (builder_append d bs b)) (length bs + n) (P \<and> Q) (cbb_then w w')"
  unfolding transforms_def
proof (intro allI impI)
  fix cbb ok cbb'
  assume wf: "wf_cbb cbb" and d: "length (cb_chain cbb) = d" and e: "\<not> bb_error (cb_base cbb)"
    and run: "cbb_then w w' cbb = (ok, cbb')"
  obtain ok1 c1 where w: "w cbb = (ok1, c1)" by fastforce
  note A = appendsD [OF 1 wf d e w]
  have len: "ok1 \<Longrightarrow> bb_len (cb_base c1) = bb_len (cb_base cbb) + length bs"
    using A(1,3) wf bb_len_valid by (fastforce simp: wf_cbb_def)
  have more: "ample hp (length bs + n) (cb_base cbb) \<Longrightarrow> ample hp (length bs) (cb_base cbb)"
    by (rule ample_mono) auto
  show "wf_cbb cbb' \<and> keeps (cb_base cbb) (cb_base cbb') \<and>
      (ok \<longrightarrow> (P \<and> Q) \<and> builder_of cbb' = f (builder_append d bs (builder_of cbb)) \<and>
         bb_len (cb_base cbb') \<le> bb_len (cb_base cbb) + (length bs + n)) \<and>
      (ok \<longleftrightarrow> \<not> bb_error (cb_base cbb')) \<and> (P \<and> Q \<longrightarrow> ample hp (length bs + n) (cb_base cbb) \<longrightarrow> ok)"
  proof (cases ok1)
    case False
    then have "\<not> ok" "cbb' = c1" using run w by (auto simp: cbb_then_def)
    then show ?thesis using A False more by blast
  next
    case True
    then have run2: "w' c1 = (ok, cbb')" using run w by (simp add: cbb_then_def)
    have d1: "length (cb_chain c1) = d" "\<not> bb_error (cb_base c1)" P using A True d by auto
    note B = transformsD [OF 2 A(1) d1(1,2) run2]
    have "builder_of c1 = builder_append d bs (builder_of cbb)"
      using A(3) [OF True] builder_of_append [OF wf, of c1 bs] d by simp
    moreover have "ample hp (length bs + n) (cb_base cbb) \<Longrightarrow> ample hp n (cb_base c1)"
      using len [OF True] A(2) by (auto intro: ample_after)
    ultimately show ?thesis using B d1(3) keeps_trans [OF A(2) B(2)] len [OF True] by auto
  qed
qed

lemma simulates_flushed:
  assumes "transforms hp d f n P w"
  shows "simulates hp d f n P (flushed hp d w)"
  unfolding simulates_def
proof (intro allI impI)
  fix cbb ok cbb'
  assume wf: "wf_cbb cbb" and run: "flushed hp d w cbb = (ok, cbb')"
  obtain ok1 c1 where fl: "CBB_flush hp d cbb = (ok1, c1)" by fastforce
  note F = CBB_flush_facts [OF wf fl, unfolded flush_facts_def]
  let ?n = "4 * (length (cb_chain cbb) - d)"
  have more: "ample hp (?n + n) (cb_base cbb) \<Longrightarrow> ample hp ?n (cb_base cbb)" by (rule ample_mono) auto
  show "wf_cbb cbb' \<and> keeps (cb_base cbb) (cb_base cbb') \<and>
      (ok \<longrightarrow> d \<le> length (cb_chain cbb) \<and> \<not> bb_error (cb_base cbb) \<and> \<not> bb_error (cb_base cbb') \<and> P \<and>
         map_option f (builder_flush d (builder_of cbb)) = Some (builder_of cbb') \<and>
         bb_len (cb_base cbb') \<le> bb_len (cb_base cbb) + (?n + n)) \<and>
      (\<not> ok \<longrightarrow> length (cb_chain cbb) < d \<or> bb_error (cb_base cbb')) \<and>
      (P \<longrightarrow> d \<le> length (cb_chain cbb) \<longrightarrow> \<not> bb_error (cb_base cbb) \<longrightarrow> ample hp (?n + n) (cb_base cbb) \<longrightarrow>
         builder_flush d (builder_of cbb) \<noteq> None \<longrightarrow> ok)"
  proof (cases ok1)
    case False
    then have "\<not> ok" "cbb' = c1" using run fl by (auto simp: flushed_def)
    then show ?thesis using F False more by blast
  next
    case True
    then have run2: "w c1 = (ok, cbb')" using run fl by (simp add: flushed_def)
    have F1: "wf_cbb c1" "keeps (cb_base cbb) (cb_base c1)" "d \<le> length (cb_chain cbb)" "\<not> bb_error (cb_base cbb)"
      "\<not> bb_error (cb_base c1)" "cb_chain c1 = take d (cb_chain cbb)"
      "builder_flush d (builder_of cbb) = Some (builder_of c1)" "bb_len (cb_base c1) \<le> bb_len (cb_base cbb) + ?n"
      using F True by blast+
    have d1: "length (cb_chain c1) = d" using F1 by simp
    note B = transformsD [OF assms F1(1) d1 F1(5) run2]
    have "ample hp (?n + n) (cb_base cbb) \<Longrightarrow> ample hp n (cb_base c1)"
      using F1(2,8) by (auto simp: ample_def keeps_def)
    then show ?thesis using B F1 keeps_trans [OF F1(2) B(2)] by auto
  qed
qed

lemma simulates_appends: "appends hp d bs P w \<Longrightarrow> simulates hp d (builder_append d bs) (length bs) P (flushed hp d w)"
  by (rule simulates_flushed) (rule transforms_appends)

text \<open>Writers that leave a new child.\<close>

definition opener :: "nat \<Rightarrow> nat \<Rightarrow> bool \<Rightarrow> (CBB \<Rightarrow> bool \<times> CBB) \<Rightarrow> CBB \<Rightarrow> bool \<times> CBB" where
  "opener d k is_asn1 w cbb =
     (let off = bb_len (cb_base cbb) in
      case w cbb of (ok, cbb) \<Rightarrow> if \<not> ok then (False, cbb) else (True, push_child d off k is_asn1 cbb))"

lemma transforms_opener:
  assumes w: "appends hp d (replicate k 0) True w" and k: "1 \<le> k" "k \<le> 8" "is_asn1 \<longrightarrow> k = 1"
  shows "transforms hp d (builder_push (if is_asn1 then Asn1 else Prefix k)) k True (opener d k is_asn1 w)"
  unfolding transforms_def
proof (intro allI impI)
  fix cbb ok cbb'
  assume wf: "wf_cbb cbb" and d: "length (cb_chain cbb) = d" and e: "\<not> bb_error (cb_base cbb)"
    and run: "opener d k is_asn1 w cbb = (ok, cbb')"
  obtain ok1 c1 where w1: "w cbb = (ok1, c1)" by fastforce
  note A = appendsD [OF w wf d e w1]
  let ?p = "\<lparr>pd_offset = bb_len (cb_base cbb), pd_len_len = k, pd_is_asn1 = is_asn1\<rparr>"
  have base: "wf_base (cb_base cbb)" "chain_ok 0 (cb_chain cbb) (bb_len (cb_base cbb))" using wf by (simp_all add: wf_cbb_def)
  have len: "ok1 \<Longrightarrow> bb_len (cb_base c1) = bb_len (cb_base cbb) + k"
    using A(1,3) wf bb_len_valid by (fastforce simp: wf_cbb_def)
  show "wf_cbb cbb' \<and> keeps (cb_base cbb) (cb_base cbb') \<and>
      (ok \<longrightarrow> True \<and> builder_of cbb' = builder_push (if is_asn1 then Asn1 else Prefix k) (builder_of cbb) \<and>
         bb_len (cb_base cbb') \<le> bb_len (cb_base cbb) + k) \<and>
      (ok \<longleftrightarrow> \<not> bb_error (cb_base cbb')) \<and> (True \<longrightarrow> ample hp k (cb_base cbb) \<longrightarrow> ok)"
  proof (cases ok1)
    case False
    then have "\<not> ok" "cbb' = c1" using run w1 by (auto simp: opener_def)
    moreover have "ample hp k (cb_base cbb) \<Longrightarrow> ok1" using A(5) by simp
    ultimately show ?thesis using A(1,2,4) False by blast
  next
    case True
    then have ok: "ok" "cb_base cbb' = cb_base c1" "cb_chain cbb' = cb_chain cbb @ [?p]"
      using run w1 A(3) d by (auto simp: opener_def push_child_def)
    have "valid_bytes (cb_base c1) = valid_bytes (cb_base cbb) @ replicate k 0" using A(3) True by simp
    then have "builder_of cbb' = builder_push (kind_of ?p) (builder_of cbb)"
      using base by (simp add: builder_of_def ok contents_from_push)
    moreover have "wf_cbb cbb'"
      using A(1) base k len [OF True] by (simp add: wf_cbb_def ok chain_ok_snoc)
    ultimately show ?thesis using A ok True len by (simp add: kind_of_def)
  qed
qed

end
