(* ===== verification/Cbb_Asn1.thy ===== *)
theory Cbb_Asn1
  imports Cbb Cbs_Asn1
begin

text \<open>
  The ASN.1 writers of crypto/bytestring/cbb.c (elements, integers, strings, booleans, object
  identifiers from their dotted form, SET OF) and CBS_asn1_oid_to_text of cbs.c, which prints into
  a CBB.
\<close>

subsection \<open>Elements\<close>

function base128_length_loop :: "nat \<Rightarrow> u64 \<Rightarrow> nat" where
  "base128_length_loop len_len copy =
     (if 0 < copy then base128_length_loop (Suc len_len) (drop_bit 7 copy) else len_len)"
  by pat_completeness auto

termination
proof (relation "measure (\<lambda>(len_len, copy). unat copy)")
  fix len_len :: nat and copy :: u64
  assume "0 < copy"
  then show "((Suc len_len, drop_bit 7 copy), (len_len, copy)) \<in> measure (\<lambda>(len_len, copy). unat copy)"
    by (simp add: unat_drop_bit word_less_nat_alt)
qed simp

declare base128_length_loop.simps [simp del]

text \<open>The loop that counts \<open>i\<close> down to 0.\<close>

fun base128_emit :: "heap \<Rightarrow> nat \<Rightarrow> u64 \<Rightarrow> nat \<Rightarrow> CBB \<Rightarrow> bool \<times> CBB" where
  "base128_emit hp d v 0 cbb = (True, cbb)"
| "base128_emit hp d v (Suc i) cbb =
     (let byte = ucast (drop_bit (7 * i) v) AND 0x7F;
          byte = (if i \<noteq> 0 then byte OR 0x80 else byte) in
      cbb_then (CBB_add_u8 hp d byte) (base128_emit hp d v i) cbb)"

definition add_base128_integer :: "heap \<Rightarrow> nat \<Rightarrow> u64 \<Rightarrow> CBB \<Rightarrow> bool \<times> CBB" where
  "add_base128_integer hp d v =
     (let len_len = base128_length_loop 0 v;
          len_len = (if len_len = 0 then 1 else len_len) in
      base128_emit hp d v len_len)"

text \<open>The new child is the CBB at the next depth.\<close>

definition CBB_add_asn1 :: "heap \<Rightarrow> nat \<Rightarrow> u32 \<Rightarrow> CBB \<Rightarrow> bool \<times> CBB" where
  "CBB_add_asn1 hp d tag =
     (let tag_bits = ucast (drop_bit CBS_ASN1_TAG_SHIFT tag) AND 0xE0 :: u8;
          tag_number = tag AND CBS_ASN1_TAG_NUMBER_MASK in
      cbb_then (CBB_flush hp d)
        (cbb_then
          (if 0x1F \<le> tag_number
           then cbb_then (CBB_add_u8 hp d (tag_bits OR 0x1F)) (add_base128_integer hp d (ucast tag_number))
           else CBB_add_u8 hp d (tag_bits OR ucast tag_number))
          (\<lambda>cbb. let off = bb_len (cb_base cbb) in
             case CBB_add_u8 hp d 0 cbb of
               (ok, cbb) \<Rightarrow> if \<not> ok then (False, cbb) else (True, push_child d off 1 True cbb))))"

subsection \<open>Values\<close>

text \<open>The loop over the bytes of a value, most significant first; \<open>k\<close> bytes are left.\<close>

fun uint64_emit :: "heap \<Rightarrow> nat \<Rightarrow> u64 \<Rightarrow> bool \<Rightarrow> nat \<Rightarrow> CBB \<Rightarrow> bool \<times> bool \<times> CBB" where
  "uint64_emit hp d v started 0 cbb = (True, started, cbb)"
| "uint64_emit hp d v started (Suc k) cbb =
     (let byte = ucast (drop_bit (8 * k) v) :: u8 in
      if \<not> started \<and> byte = 0 then uint64_emit hp d v started k cbb
      else
        (case (if \<not> started \<and> byte AND 0x80 \<noteq> 0 then CBB_add_u8 hp d 0 cbb else (True, cbb)) of
           (ok, cbb) \<Rightarrow>
             if \<not> ok then (False, started, cbb)
             else
               (case CBB_add_u8 hp d byte cbb of
                  (ok, cbb) \<Rightarrow> if \<not> ok then (False, True, cbb) else uint64_emit hp d v True k cbb)))"

definition CBB_add_asn1_uint64 :: "heap \<Rightarrow> nat \<Rightarrow> u64 \<Rightarrow> CBB \<Rightarrow> bool \<times> CBB" where
  "CBB_add_asn1_uint64 hp d v = cbb_then (CBB_add_asn1 hp d CBS_ASN1_INTEGER) (\<lambda>cbb.
     case uint64_emit hp (Suc d) v False 8 cbb of
       (ok, started, cbb) \<Rightarrow>
         if \<not> ok then (False, cbb)
         else cbb_then (if \<not> started then CBB_add_u8 hp (Suc d) 0 else Pair True) (CBB_flush hp d) cbb)"

text \<open>The index of the first byte of a negative number to keep.\<close>

fun skip_sign_bytes :: "bytes \<Rightarrow> nat \<Rightarrow> nat" where
  "skip_sign_bytes u 0 = 0"
| "skip_sign_bytes u (Suc i) =
     (if u ! Suc i = 0xFF \<and> u ! i AND 0x80 \<noteq> 0 then skip_sign_bytes u i else Suc i)"

text \<open>Bytes from an index down to 0.\<close>

fun emit_down :: "heap \<Rightarrow> nat \<Rightarrow> bytes \<Rightarrow> nat \<Rightarrow> CBB \<Rightarrow> bool \<times> CBB" where
  "emit_down hp d u 0 = Pair True"
| "emit_down hp d u (Suc i) = cbb_then (CBB_add_u8 hp d (u ! i)) (emit_down hp d u i)"

definition CBB_add_asn1_int64 :: "heap \<Rightarrow> nat \<Rightarrow> u64 \<Rightarrow> CBB \<Rightarrow> bool \<times> CBB" where
  "CBB_add_asn1_int64 hp d v =
     (if 0 \<le> sint v then CBB_add_asn1_uint64 hp d v
      else
        (let u = le_bytes 8 (unat v); start = skip_sign_bytes u 7 in
         cbb_then (CBB_add_asn1 hp d CBS_ASN1_INTEGER)
           (cbb_then (emit_down hp (Suc d) u (Suc start)) (CBB_flush hp d))))"

definition CBB_add_asn1_octet_string :: "heap \<Rightarrow> nat \<Rightarrow> bytes \<Rightarrow> CBB \<Rightarrow> bool \<times> CBB" where
  "CBB_add_asn1_octet_string hp d data =
     cbb_then (CBB_add_asn1 hp d CBS_ASN1_OCTETSTRING)
       (cbb_then (CBB_add_bytes hp (Suc d) data) (CBB_flush hp d))"

definition CBB_add_asn1_bool :: "heap \<Rightarrow> nat \<Rightarrow> int \<Rightarrow> CBB \<Rightarrow> bool \<times> CBB" where
  "CBB_add_asn1_bool hp d v =
     cbb_then (CBB_add_asn1 hp d CBS_ASN1_BOOLEAN)
       (cbb_then (CBB_add_u8 hp (Suc d) (if v \<noteq> 0 then 0xFF else 0)) (CBB_flush hp d))"

subsection \<open>Object identifiers as text\<close>

abbreviation (input) ascii_dot :: u8 where "ascii_dot \<equiv> 46"
abbreviation (input) ascii_0 :: u8 where "ascii_0 \<equiv> 48"
abbreviation (input) ascii_9 :: u8 where "ascii_9 \<equiv> 57"
abbreviation (input) UINT64_MAX :: u64 where "UINT64_MAX \<equiv> 0xFFFFFFFFFFFFFFFF"

function dotted_loop :: "u64 \<Rightarrow> bool \<Rightarrow> u64 parser" where
  "dotted_loop out seen_digit cbs =
     (case CBS_get_u8 cbs of
        (None, cbs') \<Rightarrow> (if seen_digit then Some out else None, cbs')
      | (Some u, cbs') \<Rightarrow>
          if u = ascii_dot \<and> 0 < CBS_len cbs' then (if seen_digit then Some out else None, cbs')
          else if u < ascii_0 \<or> ascii_9 < u \<or> (seen_digit \<and> out = 0) \<or> UINT64_MAX div 10 < out \<or>
                  UINT64_MAX - ucast (u - ascii_0) < out * 10
          then (None, cbs')
          else dotted_loop (out * 10 + ucast (u - ascii_0)) True cbs')"
  by pat_completeness auto

termination
  by (relation "measure (\<lambda>(out, seen, cbs). c_len cbs)") (auto dest: CBS_get_u8_shorter [OF sym])

declare dotted_loop.simps [simp del]

definition parse_dotted_decimal :: "u64 parser" where
  "parse_dotted_decimal = dotted_loop 0 False"

lemma dotted_loop_shorter:
  "dotted_loop out False c = (Some v, c') \<Longrightarrow> c_len c' < c_len c"
proof -
  have le: "c_len c' \<le> c_len c" if "dotted_loop out seen c = (r, c')" for out seen c r c'
    using that
  proof (induction out seen c rule: dotted_loop.induct)
    case (1 out seen c)
    show ?case
    proof (cases "CBS_get_u8 c")
      case (Pair r1 c1)
      have "c_len c1 \<le> c_len c"
        using Pair by (auto simp: CBS_get_u8_def p_bind_def p_return_def cbs_get_def split: if_splits)
      then show ?thesis
        using 1 Pair by (cases r1) (auto simp: dotted_loop.simps [of out seen c] split: if_splits)
    qed
  qed
  assume a: "dotted_loop out False c = (Some v, c')"
  show ?thesis
  proof (cases "CBS_get_u8 c")
    case (Pair r1 c1)
    with a obtain u where u: "r1 = Some u" by (cases r1) (auto simp: dotted_loop.simps [of out False c])
    with Pair have "c_len c1 < c_len c" by (auto dest: CBS_get_u8_shorter)
    moreover have "c_len c' \<le> c_len c1"
      using a Pair u le by (auto simp: dotted_loop.simps [of out False c] split: if_splits)
    ultimately show ?thesis by simp
  qed
qed

text \<open>The remaining components of the identifier.\<close>

function oid_components :: "heap \<Rightarrow> nat \<Rightarrow> CBS \<Rightarrow> CBB \<Rightarrow> bool \<times> CBB" where
  "oid_components hp d cbs cbb =
     (if CBS_len cbs = 0 then (True, cbb)
      else
        (case parse_dotted_decimal cbs of
           (None, cbs') \<Rightarrow> (False, cbb)
         | (Some a, cbs') \<Rightarrow>
             (case add_base128_integer hp d a cbb of
                (ok, cbb) \<Rightarrow> if \<not> ok then (False, cbb) else oid_components hp d cbs' cbb)))"
  by pat_completeness auto

termination
  by (relation "measure (\<lambda>(hp, d, cbs, cbb). c_len cbs)")
    (auto simp: parse_dotted_decimal_def dest: dotted_loop_shorter [OF sym])

declare oid_components.simps [simp del]

definition CBB_add_asn1_oid_from_text :: "heap \<Rightarrow> nat \<Rightarrow> bytes \<Rightarrow> nat \<Rightarrow> CBB \<Rightarrow> bool \<times> CBB" where
  "CBB_add_asn1_oid_from_text hp d txt len = cbb_then (CBB_flush hp d) (\<lambda>cbb.
     case parse_dotted_decimal (CBS_init txt len) of
       (None, cbs) \<Rightarrow> (False, cbb)
     | (Some a, cbs) \<Rightarrow>
         (case parse_dotted_decimal cbs of
            (None, cbs) \<Rightarrow> (False, cbb)
          | (Some b, cbs) \<Rightarrow>
              if 2 < a \<or> (a < 2 \<and> 39 < b) \<or> UINT64_MAX - 80 < b then (False, cbb)
              else cbb_then (add_base128_integer hp d (40 * a + b)) (oid_components hp d cbs) cbb))"

text \<open>\<open>"%" PRIu64\<close>: the decimal digits of a number.\<close>

fun decimal :: "nat \<Rightarrow> bytes" where
  "decimal n = (if n < 10 then [of_nat (48 + n)] else decimal (n div 10) @ [of_nat (48 + n mod 10)])"

declare decimal.simps [simp del]

definition add_decimal :: "heap \<Rightarrow> nat \<Rightarrow> u64 \<Rightarrow> CBB \<Rightarrow> bool \<times> CBB" where
  "add_decimal hp d v = CBB_add_bytes hp d (decimal (unat v))"

lemma base128_loop_shorter: "base128_loop v c = (Some w, c') \<Longrightarrow> c_len c' < c_len c"
proof (induction v c rule: base128_loop.induct)
  case (1 v c)
  show ?case
  proof (cases "CBS_get_u8 c")
    case (Pair r1 c1)
    with "1.prems" obtain b where b: "r1 = Some b" by (cases r1) (auto simp: base128_loop.simps [of v c])
    with Pair have "c_len c1 < c_len c" by (auto dest: CBS_get_u8_shorter)
    then show ?thesis
      using 1 Pair b by (force simp: base128_loop.simps [of v c] Let_def split: if_splits)
  qed
qed

function oid_text_loop :: "heap \<Rightarrow> CBS \<Rightarrow> CBB \<Rightarrow> bool \<times> CBB" where
  "oid_text_loop hp copy cbb =
     (if CBS_len copy = 0 then (True, cbb)
      else
        (case parse_base128_integer copy of
           (None, copy') \<Rightarrow> (False, cbb)
         | (Some v, copy') \<Rightarrow>
             (case cbb_then (CBB_add_u8 hp 0 ascii_dot) (add_decimal hp 0 v) cbb of
                (ok, cbb) \<Rightarrow> if \<not> ok then (False, cbb) else oid_text_loop hp copy' cbb)))"
  by pat_completeness auto

termination
  by (relation "measure (\<lambda>(hp, copy, cbb). c_len copy)")
    (auto simp: parse_base128_integer_def dest: base128_loop_shorter [OF sym])

declare oid_text_loop.simps [simp del]

definition CBS_asn1_oid_to_text :: "heap \<Rightarrow> CBS \<Rightarrow> bytes option" where
  "CBS_asn1_oid_to_text hp cbs =
     (case CBB_init hp 32 of
        None \<Rightarrow> None
      | Some cbb \<Rightarrow>
          (case parse_base128_integer cbs of
             (None, copy) \<Rightarrow> None
           | (Some v, copy) \<Rightarrow>
               (case cbb_then
                       (if 80 \<le> v
                        then cbb_then (CBB_add_bytes hp 0 [50, ascii_dot]) (add_decimal hp 0 (v - 80))
                        else cbb_then (add_decimal hp 0 (v div 40))
                               (cbb_then (CBB_add_u8 hp 0 ascii_dot) (add_decimal hp 0 (v mod 40))))
                       (cbb_then (oid_text_loop hp copy) (CBB_add_u8 hp 0 0)) cbb of
                  (ok, cbb) \<Rightarrow> if \<not> ok then None else fst (CBB_finish hp 0 True cbb))))"

subsection \<open>SET OF\<close>

definition memcmp_sign :: "bytes \<Rightarrow> bytes \<Rightarrow> int" where
  "memcmp_sign a b =
     (case filter (\<lambda>(x, y). x \<noteq> y) (zip a b) of
        [] \<Rightarrow> 0
      | (x, y) # _ \<Rightarrow> if x < y then - 1 else 1)"

definition compare_set_of_element :: "bytes \<Rightarrow> bytes \<Rightarrow> int" where
  "compare_set_of_element a b =
     (let a_len = length a; b_len = length b; min_len = min a_len b_len;
          ret = memcmp_sign (take min_len a) (take min_len b) in
      if ret \<noteq> 0 then ret
      else if a_len = b_len then 0
      else if a_len < b_len then - 1 else 1)"

text \<open>The library's qsort: elements that compare equal are the same bytes, so their order is free.\<close>

fun insert_element :: "bytes \<Rightarrow> bytes list \<Rightarrow> bytes list" where
  "insert_element x [] = [x]"
| "insert_element x (y # ys) =
     (if compare_set_of_element x y \<le> 0 then x # y # ys else y # insert_element x ys)"

definition qsort_elements :: "bytes list \<Rightarrow> bytes list" where
  "qsort_elements xs = foldr insert_element xs []"

text \<open>
  The loops that cut the contents into elements. Every element is at least two bytes long, so a
  round for every byte is enough.
\<close>

fun split_elements :: "nat \<Rightarrow> CBS \<Rightarrow> bytes list option" where
  "split_elements n cbs =
     (if CBS_len cbs = 0 then Some []
      else
        (case n of
           0 \<Rightarrow> None
         | Suc n \<Rightarrow>
             (case CBS_get_any_asn1_element cbs of
                (None, cbs) \<Rightarrow> None
              | (Some (child, _, _), cbs) \<Rightarrow>
                  map_option (Cons (take (CBS_len child) (CBS_data child))) (split_elements n cbs))))"

declare split_elements.simps [simp del]

fun add_elements :: "heap \<Rightarrow> nat \<Rightarrow> bytes list \<Rightarrow> CBB \<Rightarrow> bool \<times> CBB" where
  "add_elements hp d [] = Pair True"
| "add_elements hp d (e # es) = cbb_then (CBB_add_bytes hp d e) (add_elements hp d es)"

text \<open>\<open>sizeof(CBS)\<close> is 16.\<close>

definition CBB_flush_asn1_set_of :: "heap \<Rightarrow> nat \<Rightarrow> CBB \<Rightarrow> bool \<times> CBB" where
  "CBB_flush_asn1_set_of hp d = cbb_then (CBB_flush hp d) (\<lambda>cbb.
     let buf_len = CBB_len d cbb in
     case split_elements buf_len (CBS_init (CBB_data d cbb) buf_len) of
       None \<Rightarrow> (False, cbb)
     | Some children \<Rightarrow>
         (let num_children = length children in
          if num_children < 2 then (True, cbb)
          else if (2 ^ 64 - 1) div 16 < num_children then (False, cbb)
          else if \<not> hp_serves hp buf_len \<or> \<not> hp_serves hp (num_children * 16) then (False, cbb)
          else add_elements hp d (qsort_elements children)
                 (cbb\<lparr>cb_base := (cb_base cbb)\<lparr>bb_len := cbb_start d cbb\<rparr>\<rparr>)))"

end
