(* ===== verification/Cbb_Writers.thy ===== *)
theory Cbb_Writers
  imports Cbb_Builder Cbb_Asn1
begin

text \<open>
  The contracts of Cbb_Builder for the writers that open children and for flushing, reserving and
  ASN.1 headers. The base-128 numbers and tags that cbb.c writes are the ones of Asn1_Der.
\<close>

subsection \<open>Base-128 numbers and tags\<close>

text \<open>The bytes of the loop of add_base128_integer.\<close>

fun emit_bytes :: "nat \<Rightarrow> nat \<Rightarrow> bytes" where
  "emit_bytes 0 n = []"
| "emit_bytes (Suc i) n = of_nat (n div 128 ^ i mod 128 + (if i \<noteq> 0 then 128 else 0)) # emit_bytes i n"

lemma low7_byte: "ucast w AND 0x7F = (of_nat (unat (w :: u64) mod 128) :: u8)"
proof -
  have "ucast w AND 0x7F = (ucast (w AND 0x7F) :: u8)" by (rule bit_word_eqI) (auto simp: bit_simps)
  also have "w AND 0x7F = of_nat (unat w mod 128)"
  proof -
    have "unat (take_bit 7 w) = unat w mod 128" using unat_take_bit [of 7 w] by simp
    then have "take_bit 7 w = of_nat (unat w mod 128)" by (simp flip: \<open>unat (take_bit 7 w) = unat w mod 128\<close>)
    then show ?thesis unfolding and_mask_word_numerals .
  qed
  also have "(ucast (of_nat (unat w mod 128) :: u64) :: u8) = of_nat (unat w mod 128)"
    by (rule ucast_of_nat_down) simp
  finally show ?thesis .
qed

lemma or_high_bit_u8: "n < 128 \<Longrightarrow> (of_nat n :: u8) OR 0x80 = of_nat (n + 128)"
  using of_nat_or_push_bit [of n 7 1, where 'a = 8, symmetric] by (simp add: push_bit_eq_mult)

lemma base128_emit_appends:
  "appends hp d (emit_bytes L (unat v)) True (base128_emit hp d v L)"
proof (induction L)
  case 0
  have "base128_emit hp d v 0 = Pair True" by (simp add: fun_eq_iff)
  then show ?case using appends_return [of True hp d] by simp
next
  case (Suc i)
  let ?b = "(of_nat (unat v div 128 ^ i mod 128 + (if i \<noteq> 0 then 128 else 0))) :: u8"
  have low: "(ucast (drop_bit (7 * i) v) AND 0x7F :: u8) = of_nat (unat v div 128 ^ i mod 128)"
    by (simp add: low7_byte unat_drop_bit power_mult)
  have step: "base128_emit hp d v (Suc i) = cbb_then (CBB_add_u8 hp d ?b) (base128_emit hp d v i)"
    by (rule ext) (simp add: Let_def low or_high_bit_u8 del: of_nat_add)
  show ?case
    unfolding step using appends_then [OF CBB_add_u8_appends Suc, of ?b] by simp
qed

fun high_bytes :: "nat \<Rightarrow> nat \<Rightarrow> bytes" where
  "high_bytes 0 n = []"
| "high_bytes (Suc i) n = of_nat (n div 128 ^ i mod 128 + 128) # high_bytes i n"

lemma emit_bytes_high: "emit_bytes (Suc i) n = high_bytes i (n div 128) @ [of_nat (n mod 128)]"
  by (induction i) (simp_all add: div_mult2_eq)

lemma high_bytes_snoc: "high_bytes (Suc i) n = high_bytes i (n div 128) @ [of_nat (n mod 128 + 128)]"
  by (induction i) (simp_all add: div_mult2_eq)

lemma high_bytes_base128: "high_bytes (length (base128_high n)) n = base128_high n"
proof (induction n rule: base128_high.induct)
  case (1 n)
  show ?case
  proof (cases "n = 0")
    case False
    then have "base128_high n = base128_high (n div 128) @ [of_nat (n mod 128 + 128)]"
      by (subst base128_high.simps) simp
    then show ?thesis using 1 False by (simp add: high_bytes_snoc del: high_bytes.simps)
  qed simp
qed

lemma emit_bytes_base128:
  "emit_bytes (if base128_high n = [] then 1 else length (base128_high n)) n = base128 n"
proof (cases "n = 0")
  case False
  then have "length (base128_high n) = Suc (length (base128_high (n div 128)))" "base128_high n \<noteq> []"
    by (subst base128_high.simps, simp)+
  then show ?thesis by (simp add: emit_bytes_high high_bytes_base128 base128_def del: emit_bytes.simps)
qed (simp add: base128_def)

lemma base128_length_loop_eq: "base128_length_loop k v = k + length (base128_high (unat v))"
proof (induction k v rule: base128_length_loop.induct)
  case (1 k v)
  show ?case
  proof (cases "v = 0")
    case False
    then have "0 < v" "unat v \<noteq> 0" by (simp_all add: word_gt_0 unat_eq_0)
    then show ?thesis
      using 1 by (subst base128_length_loop.simps, subst base128_high.simps) (simp add: unat_drop_bit)
  qed (subst base128_length_loop.simps, simp)
qed

lemma add_base128_integer_appends [writers]:
  "appends hp d (base128 (unat v)) True (add_base128_integer hp d v)"
  using base128_emit_appends [of hp d "if base128_high (unat v) = [] then 1 else length (base128_high (unat v))" v]
  unfolding emit_bytes_base128
  by (simp add: add_base128_integer_def base128_length_loop_eq Let_def split: if_splits)

text \<open>The header of CBB_add_asn1.\<close>

definition add_tag :: "heap \<Rightarrow> nat \<Rightarrow> u32 \<Rightarrow> CBB \<Rightarrow> bool \<times> CBB" where
  "add_tag hp d tag =
     (let tag_bits = ucast (drop_bit CBS_ASN1_TAG_SHIFT tag) AND 0xE0 :: u8;
          tag_number = tag AND CBS_ASN1_TAG_NUMBER_MASK in
      if 0x1F \<le> tag_number
      then cbb_then (CBB_add_u8 hp d (tag_bits OR 0x1F)) (add_base128_integer hp d (ucast tag_number))
      else CBB_add_u8 hp d (tag_bits OR ucast tag_number))"

lemma CBB_add_asn1_eq:
  "CBB_add_asn1 hp d tag = flushed hp d (cbb_then (add_tag hp d tag) (opener d 1 True (CBB_add_u8 hp d 0)))"
  unfolding CBB_add_asn1_def flushed_def [abs_def] cbb_then_def [abs_def] add_tag_def opener_def [abs_def] Let_def
  by (rule refl)

lemma tag_class_bits: "(ucast (drop_bit 24 (t :: u32)) AND 0xE0 :: u8) = push_bit 5 (of_nat (unat t div 2 ^ 29))"
proof -
  have "(of_nat (unat t div 2 ^ 29) :: u8) = ucast (drop_bit 29 t)"
  proof -
    have "unat t div 2 ^ 29 < 8" by (rule tag_class)
    then show ?thesis by (simp add: word_unat_eq_iff unat_ucast_word unat_drop_bit)
  qed
  moreover have "(ucast (drop_bit 24 t) AND 0xE0 :: u8) = push_bit 5 (ucast (drop_bit 29 t))"
  proof (rule bit_word_eqI)
    fix n assume "n < LENGTH(8)"
    then have "n = 0 \<or> n = 1 \<or> n = 2 \<or> n = 3 \<or> n = 4 \<or> n = 5 \<or> n = 6 \<or> n = 7" by auto
    then show "bit (ucast (drop_bit 24 t) AND 0xE0 :: u8) n = bit (push_bit 5 (ucast (drop_bit 29 t)) :: u8) n"
      by (elim disjE) (simp_all add: bit_simps)
  qed
  ultimately show ?thesis by simp
qed

lemma tag_byte:
  assumes "n < 32"
  shows "(ucast (drop_bit 24 (t :: u32)) AND 0xE0 :: u8) OR of_nat n = of_nat (32 * (unat t div 2 ^ 29) + n)"
  using of_nat_or_push_bit [of n 5 "unat t div 2 ^ 29", where 'a = 8] assms
  by (simp add: tag_class_bits add.commute or.commute)

lemma tag_number_unat: "unat ((t :: u32) AND 0x1FFFFFFF) = unat t mod 2 ^ 29"
proof -
  have "t AND 0x1FFFFFFF = take_bit 29 t" by (simp add: take_bit_eq_mask mask_eq_decr_exp)
  then show ?thesis by (simp only: unat_take_bit)
qed


lemma add_tag_appends: "appends hp d (der_tag t) True (add_tag hp d t)"
proof -
  let ?c = "unat t div 2 ^ 29" and ?n = "unat t mod 2 ^ 29"
  let ?bits = "ucast (drop_bit 24 t) AND 0xE0 :: u8"
  have big: "0x1F \<le> t AND 0x1FFFFFFF \<longleftrightarrow> 31 \<le> ?n" by (simp add: word_le_nat_alt tag_number_unat)
  show ?thesis
  proof (cases "31 \<le> ?n")
    case True
    have "appends hp d (of_nat (32 * ?c + 31) # base128 ?n) True
      (cbb_then (CBB_add_u8 hp d (?bits OR 0x1F)) (add_base128_integer hp d (ucast (t AND 0x1FFFFFFF))))"
      using appends_then [OF CBB_add_u8_appends add_base128_integer_appends, of hp d "?bits OR 0x1F" "ucast (t AND 0x1FFFFFFF)"]
        tag_byte [of 31 t]
      by (simp add: unat_ucast_u64 tag_number_unat del: of_nat_add of_nat_mult)
    then show ?thesis using True big by (simp add: add_tag_def der_tag_def Let_def)
  next
    case False
    have "(ucast (t AND 0x1FFFFFFF) :: u8) = of_nat ?n"
      using False by (simp add: word_unat_eq_iff unat_ucast_word tag_number_unat)
    then have "appends hp d [of_nat (32 * ?c + ?n)] True (CBB_add_u8 hp d (?bits OR ucast (t AND 0x1FFFFFFF)))"
      using CBB_add_u8_appends [of hp d "?bits OR ucast (t AND 0x1FFFFFFF)"] tag_byte [of ?n t] False
      by (simp del: of_nat_add of_nat_mult)
    then show ?thesis using False big by (simp add: add_tag_def der_tag_def Let_def)
  qed
qed

lemma CBB_add_asn1_simulates:
  "simulates hp d (\<lambda>b. builder_push Asn1 (builder_append d (der_tag t) b)) (length (der_tag t) + 1) True (CBB_add_asn1 hp d t)"
proof -
  have "transforms hp d (builder_push Asn1) 1 True (opener d 1 True (CBB_add_u8 hp d 0))"
    using transforms_opener [of hp d 1 "CBB_add_u8 hp d 0" True] CBB_add_u8_appends [of hp d 0] by simp
  from simulates_flushed [OF transforms_then [OF add_tag_appends this]] show ?thesis
    unfolding CBB_add_asn1_eq by simp
qed

lemma cbb_add_length_prefixed_simulates:
  assumes "1 \<le> k" "k \<le> 8"
  shows "simulates hp d (builder_push (Prefix k)) k True (cbb_add_length_prefixed hp d k)"
proof -
  have "appends hp d (replicate k 0) True (on_base (cbb_buffer_append hp (replicate k 0)))"
    using assms by (intro appends_bytes) simp
  moreover have "cbb_add_length_prefixed hp d k = flushed hp d (opener d k False (on_base (cbb_buffer_append hp (replicate k 0))))"
    unfolding cbb_add_length_prefixed_def opener_def [abs_def] by (rule refl)
  ultimately show ?thesis using simulates_flushed [OF transforms_opener, of hp d k _ False] assms by simp
qed

subsection \<open>The other writers\<close>

lemma CBB_flush_simulates: "simulates hp d id 0 True (CBB_flush hp d)"
proof -
  have "CBB_flush hp d = flushed hp d (Pair True)"
    by (rule ext) (auto simp: flushed_def split: prod.splits)
  moreover have "transforms hp d id 0 True (Pair True)"
    unfolding transforms_def by (intro allI impI) (simp add: wf_cbb_def keeps_def)
  ultimately show ?thesis using simulates_flushed by metis
qed

lemma on_base_transforms_reserve:
  assumes "n < 2 ^ 64"
  shows "transforms hp d id n True (on_base (cbb_buffer_reserve hp n))"
  unfolding transforms_def
proof (intro allI impI)
  fix cbb ok cbb'
  assume wf: "wf_cbb cbb" and e: "\<not> bb_error (cb_base cbb)" and run: "on_base (cbb_buffer_reserve hp n) cbb = (ok, cbb')"
  obtain b where b: "cbb_buffer_reserve hp n (cb_base cbb) = (ok, b)" "cbb' = cbb\<lparr>cb_base := b\<rparr>"
    using run by (auto simp: on_base_def split: prod.splits)
  have wfb: "wf_base (cb_base cbb)" using wf by (simp add: wf_cbb_def)
  note spec = reserve_spec [OF wfb assms b(1)]
  have "wf_cbb cbb'" using wf spec unfolding b(2) by (intro wf_cbb_grow) (auto intro: wf_base_keeps)
  then show "wf_cbb cbb' \<and> keeps (cb_base cbb) (cb_base cbb') \<and> 
      (ok \<longrightarrow> True \<and> builder_of cbb' = id (builder_of cbb) \<and> bb_len (cb_base cbb') \<le> bb_len (cb_base cbb) + n) \<and>
      (ok \<longleftrightarrow> \<not> bb_error (cb_base cbb')) \<and> (True \<longrightarrow> ample hp n (cb_base cbb) \<longrightarrow> ok)"
    using spec e unfolding b(2) by (auto simp: builder_of_def split: if_splits)
qed

lemma CBB_reserve_simulates: "n < 2 ^ 64 \<Longrightarrow> simulates hp d id n True (CBB_reserve hp d n)"
  unfolding CBB_reserve_def by (intro simulates_flushed on_base_transforms_reserve)

lemma cbb_buffer_add_len: "cbb_buffer_add hp n b = (True, b') \<Longrightarrow> bb_len b' = bb_len b + n"
  by (auto simp: cbb_buffer_add_def cbb_buffer_reserve_def Let_def split: if_splits)

lemma CBB_add_zeros_eq: "CBB_add_zeros hp d n = flushed hp d (on_base (cbb_buffer_append hp (replicate n 0)))"
proof (rule ext)
  fix cbb
  obtain ok1 c1 where fl: "CBB_flush hp d cbb = (ok1, c1)" by fastforce
  obtain ok2 b2 where add: "cbb_buffer_add hp n (cb_base c1) = (ok2, b2)" by fastforce
  show "CBB_add_zeros hp d n cbb = flushed hp d (on_base (cbb_buffer_append hp (replicate n 0))) cbb"
    using fl add cbb_buffer_add_len [of hp n "cb_base c1" b2]
    by (cases ok1; cases ok2)
      (simp_all add: CBB_add_zeros_def CBB_add_space_def flushed_def on_base_def cbb_buffer_append_def)
qed

text \<open>Space for the caller to fill: the bytes are not known, their number is.\<close>

lemma CBB_add_space_wf:
  assumes wf: "wf_cbb cbb" and n: "n < 2 ^ 64" and run: "CBB_add_space hp d n cbb = (ok, cbb')"
  shows "wf_cbb cbb' \<and> keeps (cb_base cbb) (cb_base cbb') \<and> (bb_error (cb_base cbb) \<longrightarrow> bb_error (cb_base cbb'))"
proof -
  obtain ok1 c1 where fl: "CBB_flush hp d cbb = (ok1, c1)" by fastforce
  note F = CBB_flush_facts [OF wf fl, unfolded flush_facts_def]
  have err: "bb_error (cb_base cbb) \<Longrightarrow> c1 = cbb \<and> \<not> ok1" using fl by (simp add: CBB_flush.simps)
  show ?thesis
  proof (cases ok1)
    case False
    then have "cbb' = c1" using run fl by (simp add: CBB_add_space_def flushed_def)
    moreover have "wf_cbb c1" "keeps (cb_base cbb) (cb_base c1)" using F by blast+
    ultimately show ?thesis using err by blast
  next
    case True
    obtain b where b: "cbb_buffer_add hp n (cb_base c1) = (ok, b)" "cbb' = c1\<lparr>cb_base := b\<rparr>"
      using run fl True by (auto simp: CBB_add_space_def flushed_def on_base_def split: prod.splits)
    have F1: "wf_cbb c1" "keeps (cb_base cbb) (cb_base c1)" using F by blast+
    then have wfb: "wf_base (cb_base c1)" by (simp add: wf_cbb_def)
    note spec = add_spec [OF wfb n b(1)]
    have "keeps (cb_base c1) b" "bb_len (cb_base c1) \<le> bb_len b" using spec by (simp_all split: if_splits)
    then have "wf_cbb cbb'" "keeps (cb_base cbb) (cb_base cbb')"
      using F1 keeps_trans unfolding b(2) by (auto intro: wf_cbb_grow wf_base_keeps)
    then show ?thesis using err True by blast
  qed
qed

lemma CBB_did_write_wf:
  assumes wf: "wf_cbb cbb" and n: "n < 2 ^ 64" and run: "CBB_did_write d n cbb = (ok, cbb')"
  shows "wf_cbb cbb' \<and> keeps (cb_base cbb) (cb_base cbb') \<and> bb_error (cb_base cbb') = bb_error (cb_base cbb)"
proof -
  have wfb: "wf_base (cb_base cbb)" using wf by (simp add: wf_cbb_def)
  let ?b = "(cb_base cbb)\<lparr>bb_len := size_add (bb_len (cb_base cbb)) n\<rparr>"
  show ?thesis
  proof (cases ok)
    case True
    then have ok: "bb_len (cb_base cbb) \<le> bb_len ?b" "bb_len ?b \<le> bb_cap (cb_base cbb)" "cbb' = cbb\<lparr>cb_base := ?b\<rparr>"
      using run by (auto simp: CBB_did_write_def Let_def split: if_splits)
    then have "keeps (cb_base cbb) ?b" using wfb by (simp add: keeps_def wf_base_def)
    moreover have "wf_cbb cbb'" unfolding ok(3) using wf ok(1) calculation by (auto intro!: wf_cbb_grow wf_base_keeps)
    ultimately show ?thesis by (simp add: ok(3))
  next
    case False
    then have "cbb' = cbb" using run by (auto simp: CBB_did_write_def Let_def split: if_splits)
    then show ?thesis using wf wfb by (simp add: keeps_def)
  qed
qed

text \<open>The little-endian writers.\<close>

lemma be_bytes_le_nat: "length bs = n \<Longrightarrow> be_bytes n (le_nat bs) = rev bs"
  by (metis be_bytes_def le_bytes_le_nat)

lemma be_bytes_bswap:
  fixes f :: "'a::len word \<Rightarrow> 'a word"
  assumes swap: "\<And>bs. length bs = n \<Longrightarrow> f (of_nat (be_nat bs)) = of_nat (le_nat bs)" and n: "8 * n = LENGTH('a)"
  shows "be_bytes n (unat (f v)) = le_bytes n (unat v)"
proof -
  let ?bs = "be_bytes n (unat v)"
  have p: "256 ^ n = (2 :: nat) ^ LENGTH('a)" using n by (simp add: power_mult flip: n)
  have "be_nat ?bs = unat v" using unat_lt_2p [of v] by (simp add: p)
  then have "f v = of_nat (le_nat ?bs)" using swap [of ?bs] by simp
  moreover have "le_nat ?bs < 2 ^ LENGTH('a)" using le_nat_lt [of ?bs] by (simp add: p)
  ultimately have "unat (f v) = le_nat ?bs" by (simp add: unat_of_nat)
  then show ?thesis by (simp add: be_bytes_le_nat) (simp add: be_bytes_def)
qed

end
