(* ===== verification/Cbb_Program.thy ===== *)
theory Cbb_Program
  imports Cbb_Writers
begin

text \<open>
  Programs over a CBB: a syntax of its operations, their execution by the model of cbb.c, and what
  each does to the abstract builder. The properties are the refinement of the builder, the
  invariant of every reachable CBB, progress when there is room, and what a failure leaves behind.
\<close>

subsection \<open>Operations and programs\<close>

datatype cbb_op =
    Bytes bytes | Zeros nat | U8 u8 | U16 u16 | U16le u16 | U24 u32 | U32 u32 | U32le u32 | U64 u64 | U64le u64
  | Child_u8 | Child_u16 | Child_u24 | Child_asn1 u32 | Flush | Reserve nat | Discard

fun perform :: "heap \<Rightarrow> nat \<Rightarrow> cbb_op \<Rightarrow> CBB \<Rightarrow> bool \<times> CBB" where
  "perform hp d (Bytes bs) = CBB_add_bytes hp d bs"
| "perform hp d (Zeros n) = CBB_add_zeros hp d n"
| "perform hp d (U8 v) = CBB_add_u8 hp d v"
| "perform hp d (U16 v) = CBB_add_u16 hp d v"
| "perform hp d (U16le v) = CBB_add_u16le hp d v"
| "perform hp d (U24 v) = CBB_add_u24 hp d v"
| "perform hp d (U32 v) = CBB_add_u32 hp d v"
| "perform hp d (U32le v) = CBB_add_u32le hp d v"
| "perform hp d (U64 v) = CBB_add_u64 hp d v"
| "perform hp d (U64le v) = CBB_add_u64le hp d v"
| "perform hp d Child_u8 = CBB_add_u8_length_prefixed hp d"
| "perform hp d Child_u16 = CBB_add_u16_length_prefixed hp d"
| "perform hp d Child_u24 = CBB_add_u24_length_prefixed hp d"
| "perform hp d (Child_asn1 t) = CBB_add_asn1 hp d t"
| "perform hp d Flush = CBB_flush hp d"
| "perform hp d (Reserve n) = CBB_reserve hp d n"
| "perform hp d Discard = Pair True \<circ> CBB_discard_child d"

text \<open>The arguments that are sizes are values of type \<open>size_t\<close>.\<close>

fun op_fits :: "cbb_op \<Rightarrow> bool" where
  "op_fits (Bytes bs) \<longleftrightarrow> length bs < 2 ^ 64"
| "op_fits (Zeros n) \<longleftrightarrow> n < 2 ^ 64"
| "op_fits (Reserve n) \<longleftrightarrow> n < 2 ^ 64"
| "op_fits op \<longleftrightarrow> True"

fun op_valid :: "cbb_op \<Rightarrow> bool" where
  "op_valid (U24 v) \<longleftrightarrow> unat v < 2 ^ 24"
| "op_valid op \<longleftrightarrow> True"

fun op_bytes :: "cbb_op \<Rightarrow> bytes" where
  "op_bytes (Bytes bs) = bs"
| "op_bytes (Zeros n) = replicate n 0"
| "op_bytes (U8 v) = be_bytes 1 (unat v)"
| "op_bytes (U16 v) = be_bytes 2 (unat v)"
| "op_bytes (U16le v) = le_bytes 2 (unat v)"
| "op_bytes (U24 v) = be_bytes 3 (unat v)"
| "op_bytes (U32 v) = be_bytes 4 (unat v)"
| "op_bytes (U32le v) = le_bytes 4 (unat v)"
| "op_bytes (U64 v) = be_bytes 8 (unat v)"
| "op_bytes (U64le v) = le_bytes 8 (unat v)"
| "op_bytes (Child_asn1 t) = der_tag t"
| "op_bytes op = []"

fun op_child :: "cbb_op \<Rightarrow> prefix option" where
  "op_child Child_u8 = Some (Prefix 1)"
| "op_child Child_u16 = Some (Prefix 2)"
| "op_child Child_u24 = Some (Prefix 3)"
| "op_child (Child_asn1 t) = Some Asn1"
| "op_child op = None"

fun prefix_room :: "prefix \<Rightarrow> nat" where
  "prefix_room (Prefix k) = k"
| "prefix_room Asn1 = 1"

definition op_effect :: "nat \<Rightarrow> cbb_op \<Rightarrow> builder \<Rightarrow> builder" where
  "op_effect d op b =
     (case op_child op of
        None \<Rightarrow> builder_append d (op_bytes op) b
      | Some p \<Rightarrow> builder_push p (builder_append d (op_bytes op) b))"

text \<open>How many bytes an operation adds at once, and later in front of the child it opens.\<close>

definition op_need :: "cbb_op \<Rightarrow> nat" where
  "op_need op =
     (case op of Reserve n \<Rightarrow> n
      | _ \<Rightarrow> length (op_bytes op) + (case op_child op of None \<Rightarrow> 0 | Some p \<Rightarrow> prefix_room p))"

definition builder_op :: "nat \<Rightarrow> cbb_op \<Rightarrow> builder \<Rightarrow> builder option" where
  "builder_op d op b =
     (if op = Discard then Some (fst b, take d (snd b))
      else if op_valid op then map_option (op_effect d op) (builder_flush d b) else None)"

text \<open>A program names the CBB of each operation by its depth and stops at the first failure.\<close>

type_synonym cbb_program = "(nat \<times> cbb_op) list"

fun run_program :: "heap \<Rightarrow> cbb_program \<Rightarrow> CBB \<Rightarrow> bool \<times> CBB" where
  "run_program hp [] cbb = (True, cbb)"
| "run_program hp ((d, op) # ops) cbb =
     (case perform hp d op cbb of (ok, cbb) \<Rightarrow> if \<not> ok then (False, cbb) else run_program hp ops cbb)"

fun builder_run :: "cbb_program \<Rightarrow> builder \<Rightarrow> builder option" where
  "builder_run [] b = Some b"
| "builder_run ((d, op) # ops) b = Option.bind (builder_op d op b) (builder_run ops)"

fun program_need :: "cbb_program \<Rightarrow> nat" where
  "program_need [] = 0"
| "program_need ((d, op) # ops) = op_need op + 4 * (if op_child op = None then 0 else 1) + program_need ops"

subsection \<open>Each operation does what the builder does\<close>

lemma builder_append_Nil [simp]: "builder_append d [] b = b"
proof (induction d arbitrary: b)
  case 0
  then show ?case by (cases b) simp
next
  case (Suc d)
  then show ?case by (cases b; cases "snd b") (auto split: prod.splits)
qed

lemma builder_append_id: "builder_append d [] = id"
  by (simp add: fun_eq_iff)

lemma op_effect_simps:
  "op_child op = None \<Longrightarrow> op_effect d op = builder_append d (op_bytes op)"
  "op_child op = Some p \<Longrightarrow> op_effect d op = (\<lambda>b. builder_push p (builder_append d (op_bytes op) b))"
  by (simp_all add: op_effect_def fun_eq_iff)

lemma bswap_bytes:
  "be_bytes 2 (unat (CRYPTO_bswap2 v)) = le_bytes 2 (unat v)"
  "be_bytes 4 (unat (CRYPTO_bswap4 w)) = le_bytes 4 (unat w)"
  "be_bytes 8 (unat (CRYPTO_bswap8 x)) = le_bytes 8 (unat x)"
proof -
  show "be_bytes 2 (unat (CRYPTO_bswap2 v)) = le_bytes 2 (unat v)"
    by (rule be_bytes_bswap) (use length_explicit(1) CRYPTO_bswap2_be in blast, simp)
  show "be_bytes 4 (unat (CRYPTO_bswap4 w)) = le_bytes 4 (unat w)"
    by (rule be_bytes_bswap) (use length_explicit(2) CRYPTO_bswap4_be in blast, simp)
  show "be_bytes 8 (unat (CRYPTO_bswap8 x)) = le_bytes 8 (unat x)"
    by (rule be_bytes_bswap) (use length_explicit(3) CRYPTO_bswap8_be in blast, simp)
qed

lemma simulates_bytes:
  "length bs < 2 ^ 64 \<Longrightarrow>
   simulates hp d (builder_append d bs) (length bs) True (flushed hp d (on_base (cbb_buffer_append hp bs)))"
  by (intro simulates_appends appends_bytes)

lemma simulates_u:
  assumes "0 < k" "k \<le> 8" "LENGTH('a) \<le> 64"
  shows "simulates hp d (builder_append d (be_bytes k (unat v))) k (unat v < 256 ^ k)
    (flushed hp d (on_base (cbb_buffer_add_u hp (ucast (v :: 'a::len word)) k)))"
  using simulates_appends [OF appends_u [OF assms(1,2), of hp d "ucast v"]]
  unfolding unat_ucast_u64 [OF assms(3)] by simp

text \<open>A whole word always fits.\<close>

lemma simulates_word:
  assumes "0 < k" "LENGTH('a) = 8 * k" "k \<le> 8"
  shows "simulates hp d (builder_append d (be_bytes k (unat v))) k True
    (flushed hp d (on_base (cbb_buffer_add_u hp (ucast (v :: 'a::len word)) k)))"
proof -
  have "unat v < 256 ^ k" using unat_lt_2p [of v] assms(2) by (simp add: power_mult)
  then show ?thesis using simulates_u [of k hp d v] assms by simp
qed

lemma perform_simulates:
  assumes "op \<noteq> Discard" "op_fits op"
  shows "simulates hp d (op_effect d op) (op_need op) (op_valid op) (perform hp d op)"
proof (cases op)
  case (Bytes bs)
  then show ?thesis
    using simulates_bytes [of bs hp d] assms(2) by (simp add: op_effect_simps op_need_def CBB_add_bytes_def)
next
  case (Zeros n)
  then show ?thesis
    using simulates_bytes [of "replicate n 0" hp d] assms(2) by (simp add: op_effect_simps op_need_def CBB_add_zeros_eq)
next
  case (U8 v)
  then show ?thesis using simulates_word [of 1 hp d v] by (simp add: op_effect_simps op_need_def CBB_add_u8_def)
next
  case (U16 v)
  then show ?thesis using simulates_word [of 2 hp d v] by (simp add: op_effect_simps op_need_def CBB_add_u16_def)
next
  case (U16le v)
  then show ?thesis
    using simulates_word [of 2 hp d "CRYPTO_bswap2 v"]
    by (simp add: op_effect_simps op_need_def CBB_add_u16le_def CBB_add_u16_def bswap_bytes)
next
  case (U24 v)
  then show ?thesis using simulates_u [of 3 hp d v] by (simp add: op_effect_simps op_need_def CBB_add_u24_def)
next
  case (U32 v)
  then show ?thesis using simulates_word [of 4 hp d v] by (simp add: op_effect_simps op_need_def CBB_add_u32_def)
next
  case (U32le v)
  then show ?thesis
    using simulates_word [of 4 hp d "CRYPTO_bswap4 v"]
    by (simp add: op_effect_simps op_need_def CBB_add_u32le_def CBB_add_u32_def bswap_bytes)
next
  case (U64 v)
  then show ?thesis using simulates_word [of 8 hp d v] by (simp add: op_effect_simps op_need_def CBB_add_u64_def)
next
  case (U64le v)
  then show ?thesis
    using simulates_word [of 8 hp d "CRYPTO_bswap8 v"]
    by (simp add: op_effect_simps op_need_def CBB_add_u64le_def CBB_add_u64_def bswap_bytes)
next
  case Child_u8
  then show ?thesis
    using cbb_add_length_prefixed_simulates [of 1 hp d]
    by (simp add: op_effect_simps op_need_def CBB_add_u8_length_prefixed_def)
next
  case Child_u16
  then show ?thesis
    using cbb_add_length_prefixed_simulates [of 2 hp d]
    by (simp add: op_effect_simps op_need_def CBB_add_u16_length_prefixed_def flip: numeral_2_eq_2)
next
  case Child_u24
  then show ?thesis
    using cbb_add_length_prefixed_simulates [of 3 hp d]
    by (simp add: op_effect_simps op_need_def CBB_add_u24_length_prefixed_def)
next
  case (Child_asn1 t)
  then show ?thesis
    using CBB_add_asn1_simulates [of hp d t] by (simp add: op_effect_simps op_need_def)
next
  case Flush
  then show ?thesis
    using CBB_flush_simulates [of hp d] by (simp add: op_effect_simps op_need_def builder_append_id)
next
  case (Reserve n)
  then show ?thesis
    using CBB_reserve_simulates [of n hp d] assms(2) by (simp add: op_effect_simps op_need_def builder_append_id)
qed (use assms in simp)

lemma contents_from_discard:
  "chain_ok s (ps @ p # qs) (length v) \<Longrightarrow>
   contents_from (take (pd_offset p) v) s ps =
     (fst (contents_from v s (ps @ p # qs)), take (length ps) (snd (contents_from v s (ps @ p # qs))))"
proof (induction ps arbitrary: s)
  case Nil
  then show ?case by (simp add: drop_take)
next
  case (Cons q ps)
  then have le: "s \<le> pd_offset q" "pd_offset q \<le> pd_offset p"
    using chain_ok_split [of "pd_offset q + pd_len_len q" ps p qs "length v"] chain_ok_le by fastforce+
  then have "take (pd_offset q - s) (drop s (take (pd_offset p) v)) = take (pd_offset q - s) (drop s v)"
    by (simp add: drop_take min_absorb1 diff_le_mono)
  then show ?case using Cons by (auto split: prod.splits)
qed

lemma CBB_discard_child_spec:
  assumes wf: "wf_cbb cbb"
  shows "wf_cbb (CBB_discard_child d cbb)" "keeps (cb_base cbb) (cb_base (CBB_discard_child d cbb))"
    "builder_of (CBB_discard_child d cbb) = (fst (builder_of cbb), take d (snd (builder_of cbb)))"
    "bb_len (cb_base (CBB_discard_child d cbb)) \<le> bb_len (cb_base cbb)"
    "bb_error (cb_base (CBB_discard_child d cbb)) = bb_error (cb_base cbb)"
proof -
  let ?chain = "cb_chain cbb" and ?v = "valid_bytes (cb_base cbb)"
  have base: "wf_base (cb_base cbb)" "chain_ok 0 ?chain (bb_len (cb_base cbb))" using wf by (simp_all add: wf_cbb_def)
  let ?goal = "wf_cbb (CBB_discard_child d cbb) \<and> keeps (cb_base cbb) (cb_base (CBB_discard_child d cbb)) \<and>
    builder_of (CBB_discard_child d cbb) = (fst (builder_of cbb), take d (snd (builder_of cbb))) \<and>
    bb_len (cb_base (CBB_discard_child d cbb)) \<le> bb_len (cb_base cbb) \<and>
    bb_error (cb_base (CBB_discard_child d cbb)) = bb_error (cb_base cbb)"
  have ?goal
  proof (cases "length ?chain \<le> d")
    case True
    then have "CBB_discard_child d cbb = cbb" by (simp add: CBB_discard_child_def)
    moreover have "length (snd (builder_of cbb)) \<le> d" using True by (simp add: builder_of_def)
    ultimately show ?thesis using wf base by (simp add: keeps_def)
  next
    case False
    then have d: "d < length ?chain" by simp
    let ?p = "?chain ! d"
    have split: "?chain = take d ?chain @ ?p # drop (Suc d) ?chain" using d by (simp add: id_take_nth_drop)
    have ok: "chain_ok 0 (take d ?chain @ ?p # drop (Suc d) ?chain) (length ?v)" using base split by simp
    have off: "chain_ok 0 (take d ?chain) (pd_offset ?p)" "pd_offset ?p \<le> bb_len (cb_base cbb)"
      using chain_ok_split [OF ok] chain_ok_le [of "pd_offset ?p + pd_len_len ?p" "drop (Suc d) ?chain" "length ?v"] base(1)
      by auto
    have res: "CBB_discard_child d cbb =
        cbb\<lparr>cb_base := (cb_base cbb)\<lparr>bb_len := pd_offset ?p\<rparr>, cb_chain := take d ?chain\<rparr>"
      using d by (simp add: CBB_discard_child_def)
    have "builder_of (CBB_discard_child d cbb) = contents_from (take (pd_offset ?p) ?v) 0 (take d ?chain)"
      using off(2) by (simp add: builder_of_def res valid_bytes_def min_absorb1)
    also have "\<dots> = (fst (builder_of cbb), take d (snd (builder_of cbb)))"
      using contents_from_discard [OF ok] d by (simp add: builder_of_def flip: split)
    finally show ?thesis using off base by (simp add: res wf_cbb_def keeps_def wf_base_def)
  qed
  then show "wf_cbb (CBB_discard_child d cbb)" "keeps (cb_base cbb) (cb_base (CBB_discard_child d cbb))"
    "builder_of (CBB_discard_child d cbb) = (fst (builder_of cbb), take d (snd (builder_of cbb)))"
    "bb_len (cb_base (CBB_discard_child d cbb)) \<le> bb_len (cb_base cbb)"
    "bb_error (cb_base (CBB_discard_child d cbb)) = bb_error (cb_base cbb)"
    by blast+
qed

text \<open>Every operation, those without a contract included.\<close>

lemma perform_facts:
  assumes wf: "wf_cbb cbb" and fits: "op_fits op" and run: "perform hp d op cbb = (ok, cbb')"
  shows "wf_cbb cbb'" "keeps (cb_base cbb) (cb_base cbb')"
    "ok \<Longrightarrow> builder_op d op (builder_of cbb) = Some (builder_of cbb')"
    "ok \<Longrightarrow> bb_len (cb_base cbb') \<le> bb_len (cb_base cbb) + (4 * (length (cb_chain cbb) - d) + op_need op)"
    "\<not> ok \<Longrightarrow> length (cb_chain cbb) < d \<or> bb_error (cb_base cbb')"
    "ok \<Longrightarrow> op \<noteq> Discard \<Longrightarrow> \<not> bb_error (cb_base cbb) \<and> \<not> bb_error (cb_base cbb')"
    "op \<noteq> Discard \<Longrightarrow> d \<le> length (cb_chain cbb) \<Longrightarrow> \<not> bb_error (cb_base cbb) \<Longrightarrow>
       ample hp (4 * (length (cb_chain cbb) - d) + op_need op) (cb_base cbb) \<Longrightarrow>
       builder_op d op (builder_of cbb) \<noteq> None \<Longrightarrow> ok"
proof -
  have all: "wf_cbb cbb' \<and> keeps (cb_base cbb) (cb_base cbb') \<and>
    (ok \<longrightarrow> builder_op d op (builder_of cbb) = Some (builder_of cbb') \<and>
       bb_len (cb_base cbb') \<le> bb_len (cb_base cbb) + (4 * (length (cb_chain cbb) - d) + op_need op) \<and>
       (op \<noteq> Discard \<longrightarrow> \<not> bb_error (cb_base cbb) \<and> \<not> bb_error (cb_base cbb'))) \<and>
    (\<not> ok \<longrightarrow> length (cb_chain cbb) < d \<or> bb_error (cb_base cbb')) \<and>
    (op \<noteq> Discard \<and> d \<le> length (cb_chain cbb) \<and> \<not> bb_error (cb_base cbb) \<and>
       ample hp (4 * (length (cb_chain cbb) - d) + op_need op) (cb_base cbb) \<and>
       builder_op d op (builder_of cbb) \<noteq> None \<longrightarrow> ok)"
  proof (cases "op = Discard")
    case True
    then have "ok" "cbb' = CBB_discard_child d cbb" using run by simp_all
    then show ?thesis
      using CBB_discard_child_spec [OF wf, of d] True by (simp add: builder_op_def)
  next
    case False
    have valid: "builder_op d op b = (if op_valid op then map_option (op_effect d op) (builder_flush d b) else None)" for b
      using False by (simp add: builder_op_def)
    show ?thesis
      using perform_simulates [OF False fits, of hp d, unfolded simulates_def, rule_format, OF wf run] False
      unfolding valid by auto
  qed
  then show "wf_cbb cbb'" "keeps (cb_base cbb) (cb_base cbb')"
    "ok \<Longrightarrow> builder_op d op (builder_of cbb) = Some (builder_of cbb')"
    "ok \<Longrightarrow> bb_len (cb_base cbb') \<le> bb_len (cb_base cbb) + (4 * (length (cb_chain cbb) - d) + op_need op)"
    "\<not> ok \<Longrightarrow> length (cb_chain cbb) < d \<or> bb_error (cb_base cbb')"
    "ok \<Longrightarrow> op \<noteq> Discard \<Longrightarrow> \<not> bb_error (cb_base cbb) \<and> \<not> bb_error (cb_base cbb')"
    "op \<noteq> Discard \<Longrightarrow> d \<le> length (cb_chain cbb) \<Longrightarrow> \<not> bb_error (cb_base cbb) \<Longrightarrow>
       ample hp (4 * (length (cb_chain cbb) - d) + op_need op) (cb_base cbb) \<Longrightarrow>
       builder_op d op (builder_of cbb) \<noteq> None \<Longrightarrow> ok"
    by blast+
qed

lemma perform_error:
  "bb_error (cb_base cbb) \<Longrightarrow> op \<noteq> Discard \<Longrightarrow> perform hp d op cbb = (False, cbb)"
  by (cases op)
    (simp_all add: CBB_add_bytes_def CBB_add_zeros_eq CBB_add_u8_def CBB_add_u16_def CBB_add_u16le_def CBB_add_u24_def
      CBB_add_u32_def CBB_add_u32le_def CBB_add_u64_def CBB_add_u64le_def CBB_add_u8_length_prefixed_def
      CBB_add_u16_length_prefixed_def CBB_add_u24_length_prefixed_def cbb_add_length_prefixed_def CBB_add_asn1_eq
      CBB_reserve_def flushed_def CBB_flush.simps)

lemma flush_not_error: "fst (CBB_flush hp d cbb) \<Longrightarrow> \<not> bb_error (cb_base cbb)"
  by (auto simp: CBB_flush.simps)

lemma CBB_finish_Some:
  assumes "wf_cbb cbb" "fst (CBB_finish hp 0 want cbb) = Some out"
  shows "builder_flush 0 (builder_of cbb) = Some (out, [])" "\<not> bb_error (cb_base cbb)"
proof -
  obtain ok c1 where fl: "CBB_flush hp 0 cbb = (ok, c1)" by fastforce
  have res: "ok" "out = valid_bytes (cb_base c1)"
    using assms(2) fl by (auto simp: CBB_finish_def valid_bytes_def split: if_splits)
  have F: "cb_chain c1 = take 0 (cb_chain cbb)" "\<not> bb_error (cb_base cbb)"
    "builder_flush 0 (builder_of cbb) = Some (builder_of c1)"
    using CBB_flush_facts [OF assms(1) fl, unfolded flush_facts_def] res(1) by blast+
  then show "builder_flush 0 (builder_of cbb) = Some (out, [])" "\<not> bb_error (cb_base cbb)"
    using res(2) by (simp_all add: builder_of_def)
qed

lemma CBB_finish_complete:
  assumes "wf_cbb cbb" "\<not> bb_error (cb_base cbb)" "ample hp (4 * length (cb_chain cbb)) (cb_base cbb)"
    "builder_flush 0 (builder_of cbb) = Some (out, [])"
  shows "CBB_finish hp 0 True cbb = (Some out, None)"
proof -
  obtain ok c1 where fl: "CBB_flush hp 0 cbb = (ok, c1)" by fastforce
  note F = CBB_flush_facts [OF assms(1) fl, unfolded flush_facts_def]
  have "0 \<le> length (cb_chain cbb) \<and> \<not> bb_error (cb_base cbb) \<and>
      ample hp (4 * (length (cb_chain cbb) - 0)) (cb_base cbb) \<and> builder_flush 0 (builder_of cbb) \<noteq> None"
    using assms by simp
  then have ok: "ok" using F by blast
  then have "cb_chain c1 = take 0 (cb_chain cbb)" "builder_flush 0 (builder_of cbb) = Some (builder_of c1)"
    using F by blast+
  then have "valid_bytes (cb_base c1) = out" using assms(4) by (simp add: builder_of_def)
  then show ?thesis using fl ok by (simp add: CBB_finish_def CBB_cleanup_def valid_bytes_def)
qed

lemma length_builder_flush: "builder_flush d b = Some b' \<Longrightarrow> length (snd b') = d \<and> d \<le> length (snd b)"
proof (induction d b arbitrary: b' rule: builder_flush.induct)
  case (3 d c p b fs)
  then obtain q where q: "builder_flush d (b, fs) = Some q" "b' = (c, (p, fst q) # snd q)"
    by (auto split: prod.splits)
  then show ?case using "3.IH" [OF q(1)] by simp
qed auto

lemma length_builder_append [simp]: "length (snd (builder_append d bs b)) = length (snd b)"
proof (induction d bs b rule: builder_append.induct)
  case (3 d bs c p b fs)
  then show ?case by (cases "builder_append d bs (b, fs)") simp
qed auto

lemma length_builder_op:
  assumes "builder_op d op b = Some b'" "op \<noteq> Discard"
  shows "length (snd b') = d + (if op_child op = None then 0 else 1)" "d \<le> length (snd b)"
proof -
  obtain b1 where b1: "builder_flush d b = Some b1" "b' = op_effect d op b1"
    using assms by (auto simp: builder_op_def split: if_splits)
  then show "length (snd b') = d + (if op_child op = None then 0 else 1)" "d \<le> length (snd b)"
    using length_builder_flush [OF b1(1)] by (auto simp: op_effect_def builder_push_def split: option.split)
qed

lemma length_builder_of [simp]: "length (snd (builder_of cbb)) = length (cb_chain cbb)"
  by (simp add: builder_of_def)

lemma ample_step:
  "ample hp n b \<Longrightarrow> keeps b b' \<Longrightarrow> bb_len b' + m \<le> bb_len b + n \<Longrightarrow> ample hp m b'"
  by (auto simp: ample_def keeps_def)

lemma program_sound:
  assumes "wf_cbb cbb" "\<forall>(d, op) \<in> set ops. op_fits op" "run_program hp ops cbb = (True, cbb')"
  shows "wf_cbb cbb' \<and> builder_run ops (builder_of cbb) = Some (builder_of cbb')"
  using assms
proof (induction ops arbitrary: cbb)
  case (Cons o1 ops)
  obtain d op where o1: "o1 = (d, op)" by fastforce
  obtain ok c1 where p: "perform hp d op cbb = (ok, c1)" by fastforce
  have "ok" "run_program hp ops c1 = (True, cbb')" using Cons.prems(3) p by (auto simp: o1 split: if_splits)
  moreover have "op_fits op" using Cons.prems(2) by (simp add: o1)
  moreover note perform_facts [OF Cons.prems(1) this p]
  ultimately show ?case using Cons.IH [of c1] Cons.prems(2) by (simp add: o1)
qed simp

lemma program_complete:
  assumes "wf_cbb cbb" "\<not> bb_error (cb_base cbb)" "\<forall>(d, op) \<in> set ops. op_fits op"
    "builder_run ops (builder_of cbb) = Some b" "ample hp (4 * length (cb_chain cbb) + program_need ops) (cb_base cbb)"
  shows "\<exists>cbb'. run_program hp ops cbb = (True, cbb') \<and> wf_cbb cbb' \<and> \<not> bb_error (cb_base cbb') \<and>
    builder_of cbb' = b \<and> ample hp (4 * length (cb_chain cbb')) (cb_base cbb')"
  using assms
proof (induction ops arbitrary: cbb)
  case (Cons o1 ops)
  obtain d op where o1: "o1 = (d, op)" by fastforce
  obtain ok c1 where p: "perform hp d op cbb = (ok, c1)" by fastforce
  have fits: "op_fits op" using Cons.prems(3) by (simp add: o1)
  obtain b1 where b1: "builder_op d op (builder_of cbb) = Some b1" "builder_run ops b1 = Some b"
    using Cons.prems(4) by (auto simp: o1 split: Option.bind_splits)
  note P = perform_facts [OF Cons.prems(1) fits p]
  let ?k = "if op_child op = None then 0 else 1"
  have "ok \<and> \<not> bb_error (cb_base c1) \<and>
      bb_len (cb_base c1) + 4 * length (cb_chain c1) \<le> bb_len (cb_base cbb) + 4 * length (cb_chain cbb) + op_need op + 4 * ?k"
  proof (cases "op = Discard")
    case True
    then have c1: "ok" "c1 = CBB_discard_child d cbb" using p by simp_all
    have "length (cb_chain c1) \<le> length (cb_chain cbb)" by (simp add: c1(2) CBB_discard_child_def)
    moreover note CBB_discard_child_spec(4,5) [OF Cons.prems(1), of d]
    ultimately show ?thesis using Cons.prems(2) c1 by simp
  next
    case False
    have d: "d \<le> length (cb_chain cbb)" using length_builder_op(2) [OF b1(1) False] by simp
    have "ample hp (4 * (length (cb_chain cbb) - d) + op_need op) (cb_base cbb)"
      by (rule ample_mono [OF Cons.prems(5)]) (simp add: o1)
    then have ok: "ok" using P(7) [OF False d Cons.prems(2)] b1(1) by simp
    then have "builder_of c1 = b1" using P(3) b1(1) by simp
    then have "length (cb_chain c1) = d + ?k" using length_builder_op(1) [OF b1(1) False] by (metis length_builder_of)
    then show ?thesis using ok P(4,6) False d by auto
  qed
  then have ok: "ok" "\<not> bb_error (cb_base c1)" "builder_of c1 = b1"
    and len: "bb_len (cb_base c1) + 4 * length (cb_chain c1) \<le> bb_len (cb_base cbb) + 4 * length (cb_chain cbb) + op_need op + 4 * ?k"
    using P(3) b1(1) by auto
  have "ample hp (4 * length (cb_chain c1) + program_need ops) (cb_base c1)"
    by (rule ample_step [OF Cons.prems(5) P(2)]) (use len in \<open>simp add: o1\<close>)
  from Cons.IH [OF P(1) ok(2) _ _ this] Cons.prems(3) b1(2) ok p show ?case by (simp add: o1)
qed simp

subsection \<open>What is reachable\<close>

text \<open>
  All calls a caller may make, in any order, on any depth and whatever their outcome, with sizes of
  type \<open>size_t\<close>; CBB_add_space and CBB_did_write let the caller fill the space itself.
\<close>

inductive cbb_reach :: "heap \<Rightarrow> CBB \<Rightarrow> CBB \<Rightarrow> bool" for hp where
  reach_here: "cbb_reach hp cbb cbb"
| reach_perform: "cbb_reach hp cbb c1 \<Longrightarrow> op_fits op \<Longrightarrow> cbb_reach hp cbb (snd (perform hp d op c1))"
| reach_space: "cbb_reach hp cbb c1 \<Longrightarrow> n < 2 ^ 64 \<Longrightarrow> cbb_reach hp cbb (snd (CBB_add_space hp d n c1))"
| reach_did_write: "cbb_reach hp cbb c1 \<Longrightarrow> n < 2 ^ 64 \<Longrightarrow> cbb_reach hp cbb (snd (CBB_did_write d n c1))"

lemma reach_facts:
  "cbb_reach hp cbb c \<Longrightarrow> wf_cbb cbb \<Longrightarrow>
   wf_cbb c \<and> keeps (cb_base cbb) (cb_base c) \<and> (bb_error (cb_base cbb) \<longrightarrow> bb_error (cb_base c))"
proof (induction rule: cbb_reach.induct)
  case (reach_here cbb)
  then show ?case by (simp add: wf_cbb_def keeps_def)
next
  case (reach_perform cbb c1 op d)
  obtain ok c2 where p: "perform hp d op c1 = (ok, c2)" by fastforce
  have IH: "wf_cbb c1" "keeps (cb_base cbb) (cb_base c1)" "bb_error (cb_base cbb) \<longrightarrow> bb_error (cb_base c1)"
    using reach_perform by blast+
  note P = perform_facts [OF IH(1) reach_perform.hyps(2) p]
  have "bb_error (cb_base c1) \<Longrightarrow> bb_error (cb_base c2)"
  proof (cases "op = Discard")
    case True
    then show "bb_error (cb_base c1) \<Longrightarrow> bb_error (cb_base c2)"
      using p CBB_discard_child_spec(5) [OF IH(1), of d] by simp
  qed (use perform_error [of c1 op hp d] p in simp)
  then show ?case using IH P(1) keeps_trans [OF IH(2) P(2)] p by simp
next
  case (reach_space cbb c1 n d)
  obtain ok c2 where p: "CBB_add_space hp d n c1 = (ok, c2)" by fastforce
  have IH: "wf_cbb c1" "keeps (cb_base cbb) (cb_base c1)" "bb_error (cb_base cbb) \<longrightarrow> bb_error (cb_base c1)"
    using reach_space by blast+
  show ?case using CBB_add_space_wf [OF IH(1) reach_space.hyps(2) p] IH(3) keeps_trans [OF IH(2)] p by auto
next
  case (reach_did_write cbb c1 n d)
  obtain ok c2 where p: "CBB_did_write d n c1 = (ok, c2)" by fastforce
  have IH: "wf_cbb c1" "keeps (cb_base cbb) (cb_base c1)" "bb_error (cb_base cbb) \<longrightarrow> bb_error (cb_base c1)"
    using reach_did_write by blast+
  show ?case using CBB_did_write_wf [OF IH(1) reach_did_write.hyps(2) p] IH(3) keeps_trans [OF IH(2)] p by auto
qed

lemma wf_cbb_init: "length buf < 2 ^ 64 \<Longrightarrow> wf_cbb (cbb_init buf r)"
  by (simp add: cbb_init_def wf_cbb_def wf_base_def)

lemma wf_CBB_init: "CBB_init hp n = Some cbb \<Longrightarrow> n < 2 ^ 64 \<Longrightarrow> wf_cbb cbb"
  by (auto simp: CBB_init_def wf_cbb_init split: if_splits)

lemma wf_CBB_init_fixed: "CBB_init_fixed hp buf = Some cbb \<Longrightarrow> length buf < 2 ^ 64 \<Longrightarrow> wf_cbb cbb"
  by (auto simp: CBB_init_fixed_def wf_cbb_init split: if_splits)

lemma builder_of_init [simp]: "builder_of (cbb_init buf r) = ([], [])"
  by (simp add: builder_of_def cbb_init_def valid_bytes_def)

end
