(* ===== verification/Cbb_Properties.thy ===== *)
theory Cbb_Properties
  imports Cbb_Program "HOL-Library.Code_Target_Nat"
begin

text \<open>
  The properties of the CBB component, over programs of its operations. The concrete inputs of the
  witnesses are evaluated with natural numbers as binary integers, because capacities are reduced
  modulo the size of \<open>size_t\<close>.
\<close>

subsection \<open>Properties\<close>

lemma builder_flush_code [code]:
  "builder_flush d b =
     (if d = 0 then map_option (\<lambda>c'. (c', [])) (collapse (fst b) (snd b))
      else case snd b of
        [] \<Rightarrow> None
      | (p, b1) # fs \<Rightarrow> map_option (\<lambda>(b', fs'). (fst b, (p, b') # fs')) (builder_flush (d - 1) (b1, fs)))"
  by (cases "(d, b)" rule: builder_flush.cases) auto

lemma builder_append_code [code]:
  "builder_append d bs b =
     (if d = 0 then (fst b @ bs, snd b)
      else case snd b of
        [] \<Rightarrow> (fst b, [])
      | (p, b1) # fs \<Rightarrow> (case builder_append (d - 1) bs (b1, fs) of (b', fs') \<Rightarrow> (fst b, (p, b') # fs')))"
  by (cases "(d, bs, b)" rule: builder_append.cases) auto

definition sample_heap :: heap where
  "sample_heap = \<lparr>hp_serves = (\<lambda>n. n \<le> 64), hp_junk = (\<lambda>i. 0xAA)\<rparr>"

definition sample_program :: cbb_program where
  "sample_program = [(0, Child_asn1 0x20000010), (1, Child_u16), (2, Bytes [7, 8]), (1, U16le 0x0102), (0, U8 1)]"

text \<open>
  C3. Every program of CBB operations that succeeds has changed the abstract builder the way the
  builder's own semantics says (bytes appended to the named CBB, children closed behind their
  lengths, discarded children gone), and when CBB_finish then returns bytes, they are the builder's
  contents with all children closed.
\<close>

theorem cbb_refines_builder:
  assumes "wf_cbb cbb" "\<forall>(d, op) \<in> set ops. op_fits op" "run_program hp ops cbb = (True, cbb')"
    "fst (CBB_finish hp 0 want cbb') = Some out"
  shows "\<exists>b. builder_run ops (builder_of cbb) = Some b \<and> b = builder_of cbb' \<and> builder_flush 0 b = Some (out, [])"
  using program_sound [OF assms(1-3)] CBB_finish_Some(1) [OF _ assms(4)] by blast

theorem cbb_refines_builder_witness:
  "\<exists>cbb'. run_program sample_heap sample_program (cbb_init [] True) = (True, cbb') \<and>
     builder_run sample_program (builder_of (cbb_init [] True)) = Some (builder_of cbb') \<and>
     builder_flush 0 (builder_of cbb') = Some ([0x30, 6, 0, 2, 7, 8, 2, 1, 1], [])"
proof -
  let ?c = "cbb_init [] True"
  let ?c' = "snd (run_program sample_heap sample_program ?c)"
  have run: "run_program sample_heap sample_program ?c = (True, ?c')" by code_simp
  have fin: "fst (CBB_finish sample_heap 0 True ?c') = Some [0x30, 6, 0, 2, 7, 8, 2, 1, 1]" by code_simp
  have fits: "\<forall>(d, op) \<in> set sample_program. op_fits op" by (simp add: sample_program_def)
  have wf: "wf_cbb ?c" by (simp add: wf_cbb_init)
  from cbb_refines_builder [OF wf fits run fin]
  have "builder_run sample_program (builder_of ?c) = Some (builder_of ?c') \<and>
      builder_flush 0 (builder_of ?c') = Some ([0x30, 6, 0, 2, 7, 8, 2, 1, 1], [])" by blast
  with run show ?thesis by blast
qed

text \<open>
  C4. Progress: when the builder's semantics gives a result and there is room, either in the buffer
  or because it may grow and memory is served, then every operation of the program succeeds and
  CBB_finish returns exactly that result. The room needed is what the operations add, with four
  more bytes for each child, since a long-form ASN.1 length may take five bytes.
\<close>

theorem cbb_programs_complete:
  assumes "wf_cbb cbb" "\<not> bb_error (cb_base cbb)" "\<forall>(d, op) \<in> set ops. op_fits op"
    "builder_run ops (builder_of cbb) = Some b" "builder_flush 0 b = Some (out, [])"
    "ample hp (4 * length (cb_chain cbb) + program_need ops) (cb_base cbb)"
  shows "\<exists>cbb'. run_program hp ops cbb = (True, cbb') \<and> CBB_finish hp 0 True cbb' = (Some out, None)"
proof -
  obtain cbb' where c: "run_program hp ops cbb = (True, cbb')" "wf_cbb cbb'" "\<not> bb_error (cb_base cbb')"
    "builder_of cbb' = b" "ample hp (4 * length (cb_chain cbb')) (cb_base cbb')"
    using program_complete [OF assms(1-4,6)] by blast
  have "builder_flush 0 (builder_of cbb') = Some (out, [])" using c(4) assms(5) by simp
  from CBB_finish_complete [OF c(2,3,5) this] c(1) show ?thesis by blast
qed

theorem cbb_programs_complete_witness:
  "\<exists>cbb'. run_program sample_heap sample_program (cbb_init (replicate 24 0) False) = (True, cbb') \<and>
     CBB_finish sample_heap 0 True cbb' = (Some [0x30, 6, 0, 2, 7, 8, 2, 1, 1], None)"
proof -
  let ?c = "cbb_init (replicate 24 0) False"
  have wf: "wf_cbb ?c" by (simp add: wf_cbb_init)
  have err: "\<not> bb_error (cb_base ?c)" by (simp add: cbb_init_def)
  have fits: "\<forall>(d, op) \<in> set sample_program. op_fits op" by (simp add: sample_program_def)
  let ?b = "([], [(Asn1, [0, 2, 7, 8, 2, 1])]) :: builder"
  have "builder_run sample_program ([], []) = Some ([0x30, 6, 0, 2, 7, 8, 2, 1, 1], [])"
    by code_simp
  then have run: "builder_run sample_program (builder_of ?c) = Some ([0x30, 6, 0, 2, 7, 8, 2, 1, 1], [])" by simp
  have fl: "builder_flush 0 ([0x30, 6, 0, 2, 7, 8, 2, 1, 1], []) = Some ([0x30, 6, 0, 2, 7, 8, 2, 1, 1] :: bytes, [])" by simp
  have "program_need sample_program = 17" by code_simp
  then have "ample sample_heap (4 * length (cb_chain ?c) + program_need sample_program) (cb_base ?c)"
    by (simp add: ample_def cbb_init_def)
  from cbb_programs_complete [OF wf err fits run fl this] show ?thesis .
qed

text \<open>
  C32. Invariant of every CBB that calls can reach from CBB_init or CBB_init_fixed, whether they
  succeed or fail: the valid bytes lie inside the buffer, the length fields of the pending children
  lie inside the valid bytes, in order and without overlap, and a fixed buffer keeps its capacity,
  so that nothing is written beyond it.
\<close>

theorem cbb_reachable_wf:
  assumes "CBB_init hp n = Some c0 \<and> n < 2 ^ 64 \<or> CBB_init_fixed hp buf = Some c0 \<and> length buf < 2 ^ 64"
    "cbb_reach hp c0 c"
  shows "bb_len (cb_base c) \<le> bb_cap (cb_base c) \<and> bb_cap (cb_base c) < 2 ^ 64 \<and>
    chain_ok 0 (cb_chain c) (bb_len (cb_base c)) \<and>
    (\<not> bb_can_resize (cb_base c0) \<longrightarrow> bb_cap (cb_base c) = bb_cap (cb_base c0))"
proof -
  have "wf_cbb c0" using assms(1) wf_CBB_init wf_CBB_init_fixed by blast
  then have "wf_cbb c" "keeps (cb_base c0) (cb_base c)" using reach_facts [OF assms(2)] by blast+
  then show ?thesis by (simp add: wf_cbb_def wf_base_def keeps_def)
qed

theorem cbb_reachable_wf_witness:
  "let c0 = cbb_init (replicate 3 0) False;
       c = snd (perform sample_heap 1 (U16 7) (snd (perform sample_heap 0 Child_u16 c0))) in
   bb_cap (cb_base c) = 3 \<and> chain_ok 0 (cb_chain c) (bb_len (cb_base c)) \<and> bb_error (cb_base c)"
proof -
  let ?start = "cbb_init (replicate 3 0) False"
  let ?c = "snd (perform sample_heap 1 (U16 7) (snd (perform sample_heap 0 Child_u16 ?start)))"
  have "CBB_init_fixed sample_heap (replicate 3 0) = Some ?start" by (simp add: CBB_init_fixed_def sample_heap_def)
  then have init: "CBB_init sample_heap 0 = Some ?start \<and> (0 :: nat) < 2 ^ 64 \<or>
      CBB_init_fixed sample_heap (replicate 3 0) = Some ?start \<and> length (replicate 3 (0 :: u8)) < 2 ^ 64" by simp
  have "cbb_reach sample_heap ?start (snd (perform sample_heap 0 Child_u16 ?start))"
    by (rule reach_perform [OF reach_here]) simp
  then have reach: "cbb_reach sample_heap ?start ?c" by (rule reach_perform) simp
  have "bb_error (cb_base ?c)" by code_simp
  then show ?thesis
    using cbb_reachable_wf [OF init reach] by (simp add: Let_def) (simp add: cbb_init_def)
qed

end
