(* ===== verification/Asn1_Writers.thy ===== *)
theory Asn1_Writers
  imports Cbb_Properties
begin

text \<open>
  The ASN.1 writers of crypto/bytestring/cbb.c append DER elements: what CBB_add_asn1_uint64,
  CBB_add_asn1_int64, CBB_add_asn1_octet_string and CBB_add_asn1_bool write is the one encoding that
  the parsers of cbs.c accept for the value.
\<close>

subsection \<open>A child opened, filled and closed\<close>

lemma CBB_add_asn1_opens:
  assumes wf: "wf_cbb cbb" and d: "length (cb_chain cbb) = d" and e: "\<not> bb_error (cb_base cbb)"
    and run: "CBB_add_asn1 hp d t cbb = (ok, c1)"
  shows "wf_cbb c1" "keeps (cb_base cbb) (cb_base c1)" "ok \<longleftrightarrow> \<not> bb_error (cb_base c1)"
    "ok \<Longrightarrow> cb_chain c1 = cb_chain cbb @
       [\<lparr>pd_offset = bb_len (cb_base cbb) + length (der_tag t), pd_len_len = 1, pd_is_asn1 = True\<rparr>]"
    "ok \<Longrightarrow> valid_bytes (cb_base c1) = valid_bytes (cb_base cbb) @ der_tag t @ [0]"
    "ample hp (length (der_tag t) + 1) (cb_base cbb) \<Longrightarrow> ok"
proof -
  let ?w = "cbb_then (add_tag hp d t) (opener d 1 True (CBB_add_u8 hp d 0))"
  have run1: "?w cbb = (ok, c1)" using run d e by (simp add: CBB_add_asn1_eq flushed_none)
  have "transforms hp d (builder_push Asn1) 1 True (opener d 1 True (CBB_add_u8 hp d 0))"
    using transforms_opener [of hp d 1 "CBB_add_u8 hp d 0" True] CBB_add_u8_appends [of hp d 0] by simp
  note T = transformsD [OF transforms_then [OF add_tag_appends this] wf d e run1]
  show "wf_cbb c1" "keeps (cb_base cbb) (cb_base c1)" "ok \<longleftrightarrow> \<not> bb_error (cb_base c1)"
    "ample hp (length (der_tag t) + 1) (cb_base cbb) \<Longrightarrow> ok"
    using T by simp_all
  obtain ok2 c2 where 2: "add_tag hp d t cbb = (ok2, c2)" by fastforce
  note A = appendsD [OF add_tag_appends wf d e 2]
  obtain ok3 c3 where 3: "CBB_add_u8 hp d 0 c2 = (ok3, c3)" by fastforce
  assume ok
  then have ok2: ok2 using run1 2 by (auto simp: cbb_then_def split: if_splits)
  have d2: "length (cb_chain c2) = d" "\<not> bb_error (cb_base c2)" using A ok2 d by auto
  note B = appendsD [OF CBB_add_u8_appends A(1) d2 3]
  have ok3: ok3 and c1: "c1 = push_child d (bb_len (cb_base c2)) 1 True c3"
    using run1 \<open>ok\<close> 2 3 ok2 by (auto simp: cbb_then_def opener_def split: if_splits)
  have len: "bb_len (cb_base c2) = bb_len (cb_base cbb) + length (der_tag t)"
    using A(1,3) ok2 wf bb_len_valid by (fastforce simp: wf_cbb_def)
  show "cb_chain c1 = cb_chain cbb @
      [\<lparr>pd_offset = bb_len (cb_base cbb) + length (der_tag t), pd_len_len = 1, pd_is_asn1 = True\<rparr>]"
    using A(3) B(3) ok2 ok3 d len by (simp add: c1 push_child_def)
  show "valid_bytes (cb_base c1) = valid_bytes (cb_base cbb) @ der_tag t @ [0]"
    using A(3) B(3) ok2 ok3 by (simp add: c1 push_child_def)
qed

lemma flush_child:
  assumes wf: "wf_cbb c" and chain: "cb_chain c = ps @ [p]" and d: "length ps = d" and e: "\<not> bb_error (cb_base c)"
    and run: "CBB_flush hp d c = (ok, c')"
  shows "wf_cbb c'" "keeps (cb_base c) (cb_base c')" "ok \<longleftrightarrow> \<not> bb_error (cb_base c')"
    "ok \<Longrightarrow> cb_chain c' = ps"
    "ok \<Longrightarrow> \<exists>b. close_child (kind_of p) (drop (pd_offset p + pd_len_len p) (valid_bytes (cb_base c))) = Some b \<and>
       valid_bytes (cb_base c') = take (pd_offset p) (valid_bytes (cb_base c)) @ b"
    "close_child (kind_of p) (drop (pd_offset p + pd_len_len p) (valid_bytes (cb_base c))) = Some b \<Longrightarrow>
       ample hp (length b - (bb_len (cb_base c) - pd_offset p)) (cb_base c) \<Longrightarrow> ok"
proof -
  note F = CBB_flush_facts [OF wf run, unfolded flush_facts_def]
  show "wf_cbb c'" "keeps (cb_base c) (cb_base c')" using F by blast+
  have yes: "ok \<Longrightarrow> \<not> bb_error (cb_base c') \<and> cb_chain c' = take d (cb_chain c)" using F by blast
  have no: "\<not> ok \<Longrightarrow> length (cb_chain c) < d \<or> bb_error (cb_base c')" using F by blast
  show "ok \<longleftrightarrow> \<not> bb_error (cb_base c')" using yes no d by (cases ok) (simp_all add: chain)
  show "ok \<Longrightarrow> cb_chain c' = ps" using yes d by (simp add: chain)
  have base: "wf_base (cb_base c)" "1 \<le> pd_len_len p" "pd_len_len p \<le> 8" "pd_is_asn1 p \<longrightarrow> pd_len_len p = 1"
    "pd_offset p + pd_len_len p \<le> bb_len (cb_base c)"
    using wf unfolding wf_cbb_def chain chain_ok_snoc by blast+
  let ?start = "pd_offset p + pd_len_len p"
  have inner: "CBB_flush hp (Suc d) c = (True, c)" using chain d e by (simp add: flush_none)
  have start: "size_add (pd_offset p) (pd_len_len p) = ?start"
    using base(1,5) by (intro size_add_eq) (simp add: wf_base_def)
  have nth: "cb_chain c ! d = p" "length (cb_chain c) = Suc d" "take d (cb_chain c) = ps" using chain d by auto
  obtain ok1 b1 where fp: "flush_prefix hp p (bb_len (cb_base c) - ?start) (cb_base c) = (ok1, b1)" by fastforce
  have step: "CBB_flush hp d c = (if \<not> ok1 then cbb_error (c\<lparr>cb_base := b1\<rparr>) else (True, c\<lparr>cb_base := b1, cb_chain := ps\<rparr>))"
    using base e nth inner start fp by (subst CBB_flush.simps) (auto simp: Let_def)
  note P = flush_prefix_spec [OF base(1,5,3,4) fp]
  have ok: "ok = ok1" using step run by (auto simp: cbb_error_def split: if_splits)
  {
    assume "ok"
    then have "c' = c\<lparr>cb_base := b1, cb_chain := ps\<rparr>" using step run ok by simp
    then show "\<exists>b. close_child (kind_of p) (drop ?start (valid_bytes (cb_base c))) = Some b \<and>
        valid_bytes (cb_base c') = take (pd_offset p) (valid_bytes (cb_base c)) @ b"
      using P \<open>ok\<close> ok by (auto simp: Let_def)
  next
    assume b: "close_child (kind_of p) (drop ?start (valid_bytes (cb_base c))) = Some b"
      and room: "ample hp (length b - (bb_len (cb_base c) - pd_offset p)) (cb_base c)"
    have "pd_len_len p + length (drop ?start (valid_bytes (cb_base c))) = bb_len (cb_base c) - pd_offset p"
      using base(1,5) by simp
    then show "ok" using P b room ok by (auto simp: Let_def)
  }
qed

lemma appends_asn1:
  assumes w: "appends hp (Suc d) bs P w"
  shows "appends hp d (der_element t bs) (P \<and> length bs \<le> 0xFFFFFFFE)
    (cbb_then (CBB_add_asn1 hp d t) (cbb_then w (CBB_flush hp d)))"
  unfolding appends_def
proof (intro allI impI)
  fix cbb ok cbb'
  assume wf: "wf_cbb cbb" and d: "length (cb_chain cbb) = d" and e: "\<not> bb_error (cb_base cbb)"
    and run: "cbb_then (CBB_add_asn1 hp d t) (cbb_then w (CBB_flush hp d)) cbb = (ok, cbb')"
  let ?base = "cb_base cbb" and ?n = "length (der_element t bs)"
  have more: "m \<le> ?n \<Longrightarrow> ample hp ?n ?base \<Longrightarrow> ample hp m ?base" for m by (erule ample_mono)
  have n: "?n = length (der_tag t) + length (der_length (length bs)) + length bs" "1 \<le> length (der_length (length bs))"
    by (simp_all add: der_element_def der_length_def)
  obtain ok1 c1 where 1: "CBB_add_asn1 hp d t cbb = (ok1, c1)" by fastforce
  note A = CBB_add_asn1_opens [OF wf d e 1]
  show "wf_cbb cbb' \<and> keeps ?base (cb_base cbb') \<and>
      (ok \<longrightarrow> (P \<and> length bs \<le> 0xFFFFFFFE) \<and> cb_chain cbb' = cb_chain cbb \<and>
         valid_bytes (cb_base cbb') = valid_bytes ?base @ der_element t bs) \<and>
      (ok \<longleftrightarrow> \<not> bb_error (cb_base cbb')) \<and> (P \<and> length bs \<le> 0xFFFFFFFE \<longrightarrow> ample hp ?n ?base \<longrightarrow> ok)"
  proof (cases ok1)
    case False
    then have "\<not> ok" "cbb' = c1" using run 1 by (auto simp: cbb_then_def)
    then show ?thesis using A(1-3,6) more [of "length (der_tag t) + 1"] n False by auto
  next
    case ok1: True
    let ?p = "\<lparr>pd_offset = bb_len ?base + length (der_tag t), pd_len_len = 1, pd_is_asn1 = True\<rparr>"
    obtain ok2 c2 where 2: "w c1 = (ok2, c2)" by fastforce
    have d1: "length (cb_chain c1) = Suc d" "\<not> bb_error (cb_base c1)" using A ok1 d by auto
    note B = appendsD [OF w A(1) d1 2]
    have wfb: "wf_base ?base" "wf_base (cb_base c1)" "wf_base (cb_base c2)" using wf A(1) B(1) by (simp_all add: wf_cbb_def)
    have len1: "bb_len (cb_base c1) = bb_len ?base + length (der_tag t) + 1"
      using A(5) [OF ok1] bb_len_valid [OF wfb(1)] bb_len_valid [OF wfb(2)] by simp
    have room1: "ample hp ?n ?base \<Longrightarrow> ample hp (length bs) (cb_base c1)"
      using n by (auto intro: ample_step [OF _ A(2)] simp: len1)
    note keeps2 = keeps_trans [OF A(2) B(2)]
    show ?thesis
    proof (cases ok2)
      case False
      then have "\<not> ok" "cbb' = c2" using run 1 2 ok1 by (auto simp: cbb_then_def)
      then show ?thesis using B(1,4,5) keeps2 room1 False by auto
    next
      case ok2: True
      have v2: "valid_bytes (cb_base c2) = valid_bytes ?base @ der_tag t @ [0] @ bs" "cb_chain c2 = cb_chain cbb @ [?p]" P
        using A(4,5) B(3) ok1 ok2 by auto
      have run3: "CBB_flush hp d c2 = (ok, cbb')" using run 1 2 ok1 ok2 by (simp add: cbb_then_def)
      note C = flush_child [OF B(1) v2(2) d _ run3]
      have e2: "\<not> bb_error (cb_base c2)" using B(4) ok2 by simp
      have len2: "bb_len (cb_base c2) = bb_len ?base + length (der_tag t) + 1 + length bs"
        using v2(1) bb_len_valid [OF wfb(1)] bb_len_valid [OF wfb(3)] by simp
      have child: "drop (bb_len ?base + length (der_tag t) + 1) (valid_bytes (cb_base c2)) = bs"
        "take (bb_len ?base + length (der_tag t)) (valid_bytes (cb_base c2)) = valid_bytes ?base @ der_tag t"
        using wfb(1) by (simp_all add: v2(1))
      have kind: "kind_of ?p = Asn1" by (simp add: kind_of_def)
      have "P \<and> length bs \<le> 0xFFFFFFFE \<and> ample hp ?n ?base \<Longrightarrow> ok"
      proof -
        assume a: "P \<and> length bs \<le> 0xFFFFFFFE \<and> ample hp ?n ?base"
        have "ample hp (length (der_length (length bs) @ bs) - (bb_len (cb_base c2) - pd_offset ?p)) (cb_base c2)"
          using a n by (intro ample_step [OF _ keeps2]) (auto simp: len2)
        then show ok using C(6) [OF e2, of "der_length (length bs) @ bs"] a child(1) kind by simp
      qed
      then show ?thesis
        using C(1-5) e2 keeps_trans [OF keeps2] child kind v2(3) by (auto simp: der_element_def split: if_splits)
    qed
  qed
qed

subsection \<open>Strings and booleans\<close>

lemma CBB_add_asn1_octet_string_appends:
  assumes "length data < 2 ^ 64"
  shows "appends hp d (der_element 4 data) (length data \<le> 0xFFFFFFFE) (CBB_add_asn1_octet_string hp d data)"
  using appends_asn1 [OF CBB_add_bytes_appends [OF assms], of hp d 4] by (simp add: CBB_add_asn1_octet_string_def)

lemma CBB_add_asn1_bool_appends:
  "appends hp d (der_element 1 [if v \<noteq> 0 then 0xFF else 0]) True (CBB_add_asn1_bool hp d v)"
  using appends_asn1 [OF CBB_add_u8_appends, of hp d 1 "if v \<noteq> 0 then 0xFF else 0"]
  by (simp add: CBB_add_asn1_bool_def)

subsection \<open>Unsigned integers\<close>

lemma be_bytes_Cons: "be_bytes (Suc k) n = of_nat (n div 256 ^ k) # be_bytes k n"
proof (induction k arbitrary: n)
  case (Suc k)
  have "be_bytes (Suc (Suc k)) n = be_bytes (Suc k) (n div 256) @ [of_nat n]" by (rule be_bytes_Suc)
  also have "\<dots> = (of_nat (n div 256 div 256 ^ k) # be_bytes k (n div 256)) @ [of_nat n]"
    by (simp only: Suc.IH [of "n div 256"])
  also have "\<dots> = of_nat (n div 256 ^ Suc k) # (be_bytes k (n div 256) @ [of_nat n])" by (simp add: div_mult2_eq)
  also have "\<dots> = of_nat (n div 256 ^ Suc k) # be_bytes (Suc k) n" by (simp only: be_bytes_Suc)
  finally show ?case .
qed (simp add: be_bytes_def)

fun uint_bytes :: "nat \<Rightarrow> bool \<Rightarrow> nat \<Rightarrow> bytes" where
  "uint_bytes n started 0 = (if started then [] else [0])"
| "uint_bytes n started (Suc k) =
     (let b = of_nat (n div 256 ^ k) :: u8 in
      if \<not> started \<and> b = 0 then uint_bytes n False k
      else (if \<not> started \<and> 128 \<le> unat b then [0] else []) @ b # uint_bytes n True k)"

definition uint64_writer :: "heap \<Rightarrow> nat \<Rightarrow> u64 \<Rightarrow> bool \<Rightarrow> nat \<Rightarrow> CBB \<Rightarrow> bool \<times> CBB" where
  "uint64_writer hp d v started k cbb =
     (case uint64_emit hp d v started k cbb of
        (ok, started, cbb) \<Rightarrow> if \<not> ok then (False, cbb) else (if \<not> started then CBB_add_u8 hp d 0 else Pair True) cbb)"

lemma CBB_add_asn1_uint64_eq:
  "CBB_add_asn1_uint64 hp d v =
     cbb_then (CBB_add_asn1 hp d 2) (cbb_then (uint64_writer hp (Suc d) v False 8) (CBB_flush hp d))"
  unfolding CBB_add_asn1_uint64_def
  by (rule arg_cong [of _ _ "cbb_then (CBB_add_asn1 hp d 2)"]) (auto simp: fun_eq_iff uint64_writer_def cbb_then_def split: prod.split)

lemma uint64_writer_Suc:
  "uint64_writer hp d v started (Suc k) =
     (let b = of_nat (unat v div 256 ^ k) :: u8 in
      if \<not> started \<and> b = 0 then uint64_writer hp d v False k
      else cbb_then (if \<not> started \<and> 128 \<le> unat b then CBB_add_u8 hp d 0 else Pair True)
             (cbb_then (CBB_add_u8 hp d b) (uint64_writer hp d v True k)))"
proof -
  have b: "(ucast (drop_bit (8 * k) v) :: u8) = of_nat (unat v div 256 ^ k)"
    by (simp add: word_unat_eq_iff unat_ucast_word unat_drop_bit power_mult)
  have high: "(of_nat (unat v div 256 ^ k) :: u8) AND 0x80 \<noteq> 0 \<longleftrightarrow> 128 \<le> unat (of_nat (unat v div 256 ^ k) :: u8)"
    using and_high_bit_u8 [of "of_nat (unat v div 256 ^ k)"] by (simp add: not_less del: unat_of_nat_u8)
  show ?thesis
    unfolding fun_eq_iff uint64_writer_def cbb_then_def uint64_emit.simps Let_def b high
    by (auto split: prod.split simp del: unat_of_nat_u8)
qed

lemma cbb_then_Pair [simp]: "cbb_then (Pair True) w = w"
  by (simp add: fun_eq_iff cbb_then_def)

lemma uint64_writer_appends: "appends hp d (uint_bytes (unat v) started k) True (uint64_writer hp d v started k)"
proof (induction k arbitrary: started)
  case 0
  have "uint64_writer hp d v started 0 = (if \<not> started then CBB_add_u8 hp d 0 else Pair True)"
    by (simp add: fun_eq_iff uint64_writer_def)
  then show ?case using CBB_add_u8_appends [of hp d 0] appends_return [of True hp d] by simp
next
  case (Suc k)
  let ?b = "of_nat (unat v div 256 ^ k) :: u8"
  have rest: "appends hp d (?b # uint_bytes (unat v) True k) True (cbb_then (CBB_add_u8 hp d ?b) (uint64_writer hp d v True k))"
    using appends_then [OF CBB_add_u8_appends Suc.IH, of ?b True] by simp
  have first: "appends hp d (if c then [0] else []) True (if c then CBB_add_u8 hp d 0 else Pair True)" for c
    using CBB_add_u8_appends [of hp d 0] appends_return [of True hp d] by simp
  from appends_then [OF first rest, of "\<not> started \<and> 128 \<le> unat ?b"] Suc.IH [of False] show ?case
    unfolding uint64_writer_Suc uint_bytes.simps Let_def by (cases started) (simp_all del: unat_of_nat_u8)
qed

lemma uint_bytes_started: "uint_bytes n True k = be_bytes k n"
  by (induction k) (simp_all add: be_bytes_Cons Let_def, simp add: be_bytes_def)

lemma uint_bytes_value: "minimal_int (uint_bytes n False k) \<and> int_value (uint_bytes n False k) = int (n mod 256 ^ k)"
proof (induction k)
  case (Suc k)
  let ?b = "of_nat (n div 256 ^ k) :: u8"
  have split: "n mod 256 ^ Suc k = 256 ^ k * unat ?b + n mod 256 ^ k"
    by (simp only: power_Suc2 mod_mult2_eq unat_of_nat_u8)
  have len: "be_nat (be_bytes k n) = n mod 256 ^ k" "length (be_bytes k n) = k" by simp_all
  show ?case
  proof (cases "?b = 0")
    case True
    then have "uint_bytes n False (Suc k) = uint_bytes n False k" by (simp add: Let_def)
    moreover have "n mod 256 ^ Suc k = n mod 256 ^ k" unfolding split True by simp
    ultimately show ?thesis using Suc by simp
  next
    case False
    have bytes: "uint_bytes n False (Suc k) = (if 128 \<le> unat ?b then [0] else []) @ ?b # be_bytes k n"
      using False by (simp only: uint_bytes.simps Let_def uint_bytes_started simp_thms if_False)
    have "minimal_int (?b # be_bytes k n)" if "unat ?b < 128"
    proof (cases "be_bytes k n")
      case (Cons c cs)
      have "?b \<noteq> 0xFF" using that by (auto simp del: unat_of_nat_u8)
      then show ?thesis using False by (simp add: Cons)
    qed simp
    moreover have "int_value (?b # be_bytes k n) = int (n mod 256 ^ Suc k)" if "unat ?b < 128"
      using that len unfolding split by (simp add: int_value_def del: unat_of_nat_u8)
    moreover have "minimal_int (0 # ?b # be_bytes k n)" if "128 \<le> unat ?b"
      using that by (simp del: unat_of_nat_u8)
    moreover have "int_value (0 # ?b # be_bytes k n) = int (n mod 256 ^ Suc k)"
      using len unfolding split by (simp add: int_value_def del: unat_of_nat_u8)
    ultimately show ?thesis unfolding bytes by (cases "128 \<le> unat ?b") (simp_all del: unat_of_nat_u8)
  qed
qed (simp add: int_value_def)

lemma CBB_add_asn1_uint64_appends:
  "\<exists>cs. minimal_int cs \<and> int_value cs = uint v \<and> length cs \<le> 9 \<and>
     appends hp d (der_element 2 cs) True (CBB_add_asn1_uint64 hp d v)"
proof (intro exI conjI)
  let ?cs = "uint_bytes (unat v) False 8"
  have "unat v mod 256 ^ 8 = unat v" using unat_u64_lt [of v] by simp
  then show "minimal_int ?cs" "int_value ?cs = uint v" using uint_bytes_value [of "unat v" 8] by simp_all
  have "length (uint_bytes n False k) \<le> Suc k" for n k
    by (induction k) (auto simp: Let_def le_SucI uint_bytes_started)
  from this [of "unat v" 8] show len: "length ?cs \<le> 9" by simp
  show "appends hp d (der_element 2 ?cs) True (CBB_add_asn1_uint64 hp d v)"
    using appends_asn1 [OF uint64_writer_appends, of hp d 2 v False 8] len unfolding CBB_add_asn1_uint64_eq by simp
qed

subsection \<open>Signed integers\<close>

lemma emit_down_appends:
  "n \<le> length u \<Longrightarrow> appends hp d (rev (take n u)) True (emit_down hp d u n)"
proof (induction n)
  case (Suc n)
  then have "appends hp d (rev (take n u)) True (emit_down hp d u n)" by simp
  from appends_then [OF CBB_add_u8_appends [of hp d "u ! n"] this] Suc.prems show ?case
    by (simp add: take_Suc_conv_app_nth)
qed (use appends_return [of True hp d] in simp)

lemma int_value_extend:
  assumes "128 \<le> unat b"
  shows "int_value (0xFF # b # bs) = int_value (b # bs)"
proof -
  have "be_nat (0xFF # b # bs) = 255 * 256 ^ Suc (length bs) + be_nat (b # bs)" by simp
  then show ?thesis using assms by (simp add: int_value_def del: be_nat.simps)
qed

lemma skip_sign_bytes_spec:
  assumes "128 \<le> unat (u ! i)" "i < length u"
  shows "skip_sign_bytes u i \<le> i \<and> minimal_int (rev (take (Suc (skip_sign_bytes u i)) u)) \<and>
    int_value (rev (take (Suc (skip_sign_bytes u i)) u)) = int_value (rev (take (Suc i) u))"
  using assms
proof (induction i)
  case 0
  then show ?case by (simp add: take_Suc_conv_app_nth)
next
  case (Suc i)
  let ?r = "rev (take i u)"
  have rev2: "rev (take (Suc (Suc i)) u) = u ! Suc i # u ! i # ?r" "rev (take (Suc i) u) = u ! i # ?r"
    using Suc.prems by (simp_all add: take_Suc_conv_app_nth)
  have high: "u ! i AND 0x80 \<noteq> 0 \<longleftrightarrow> 128 \<le> unat (u ! i)" by (simp add: and_high_bit_u8 not_less)
  show ?case
  proof (cases "u ! Suc i = 0xFF \<and> 128 \<le> unat (u ! i)")
    case True
    then have skip: "skip_sign_bytes u (Suc i) = skip_sign_bytes u i" using high by simp
    have "int_value (rev (take (Suc (Suc i)) u)) = int_value (rev (take (Suc i) u))"
      unfolding rev2 using True int_value_extend by simp
    then show ?thesis unfolding skip using Suc True by simp
  next
    case False
    then have skip: "skip_sign_bytes u (Suc i) = Suc i" using high by auto
    have "minimal_int (u ! Suc i # u ! i # ?r)" using False Suc.prems(1) by auto
    then show ?thesis unfolding skip rev2 by simp
  qed
qed

lemma sint_bytes: "int_value (rev (le_bytes 8 (unat v))) = sint (v :: u64)"
proof -
  let ?bs = "rev (le_bytes 8 (unat v))"
  have "?bs \<noteq> []" "length ?bs = 8" using length_le_bytes [of 8 "unat v"] by (auto simp del: length_le_bytes)
  then have "int_value ?bs = sint (le_word (le_bytes 8 (unat v)) :: u64)" using sint_of_int_value [of ?bs] by simp
  also have "(le_word (le_bytes 8 (unat v)) :: u64) = v" using unat_u64_lt [of v] by (simp add: le_word_le_bytes)
  finally show ?thesis .
qed

lemma sint_negative:
  assumes "sint (v :: u64) < 0"
  shows "128 \<le> unat (le_bytes 8 (unat v) ! 7)"
proof -
  let ?u = "le_bytes 8 (unat v)"
  have "hd (rev ?u) = ?u ! 7"
    using length_le_bytes [of 8 "unat v"] by (subst hd_rev, subst last_conv_nth) (auto simp del: length_le_bytes)
  moreover have "128 \<le> unat (hd (rev ?u))"
    using assms sint_bytes [of v] by (auto simp: int_value_def split: if_splits)
  ultimately show ?thesis by simp
qed

text \<open>Whatever the sign: one element with the minimal contents of the value.\<close>

lemma CBB_add_asn1_int64_appends:
  "\<exists>cs. minimal_int cs \<and> int_value cs = sint v \<and> length cs \<le> 9 \<and>
     appends hp d (der_element 2 cs) True (CBB_add_asn1_int64 hp d v)"
proof (cases "0 \<le> sint v")
  case True
  then have "CBB_add_asn1_int64 hp d v = CBB_add_asn1_uint64 hp d v" by (simp add: CBB_add_asn1_int64_def fun_eq_iff)
  moreover have "uint v = sint v"
    using True sint_lt [of v] by (subst uint_sint) (simp add: take_bit_int_eq_self)
  ultimately show ?thesis using CBB_add_asn1_uint64_appends [of v hp d] by simp
next
  case False
  let ?u = "le_bytes 8 (unat v)"
  let ?s = "skip_sign_bytes ?u 7"
  let ?cs = "rev (take (Suc ?s) ?u)"
  have neg: "128 \<le> unat (?u ! 7)" using sint_negative [of v] False by simp
  have "7 < length ?u" by simp
  note skip = skip_sign_bytes_spec [OF neg this]
  have "take (Suc 7) ?u = ?u" by simp
  then have vals: "minimal_int ?cs" "int_value ?cs = sint v" "?s \<le> 7" using skip sint_bytes [of v] by simp_all
  have "appends hp (Suc d) ?cs True (emit_down hp (Suc d) ?u (Suc ?s))" using vals(3) by (intro emit_down_appends) simp
  from appends_asn1 [OF this, of 2] have "appends hp d (der_element 2 ?cs) True (CBB_add_asn1_int64 hp d v)"
    using False vals(3) by (simp add: CBB_add_asn1_int64_def Let_def del: emit_down.simps)
  moreover have "length ?cs \<le> 9" using vals(3) by simp
  ultimately show ?thesis using vals(1,2) by blast
qed

subsection \<open>Written and read back\<close>

text \<open>What a writer leaves in a new CBB.\<close>

definition written :: "heap \<Rightarrow> nat \<Rightarrow> (CBB \<Rightarrow> bool \<times> CBB) \<Rightarrow> bytes option" where
  "written hp n w =
     (case CBB_init hp n of
        None \<Rightarrow> None
      | Some cbb \<Rightarrow> (case w cbb of (ok, cbb) \<Rightarrow> if \<not> ok then None else fst (CBB_finish hp 0 True cbb)))"

lemma written_eq:
  assumes hp: "\<forall>k. hp_serves hp k" and n: "n < 2 ^ 64" and w: "appends hp 0 bs P w" and P: P and len: "length bs < 2 ^ 64"
  shows "written hp n w = Some bs"
proof -
  let ?c = "cbb_init (fresh_bytes hp n) True"
  have init: "CBB_init hp n = Some ?c" using hp by (simp add: CBB_init_def)
  have wf: "wf_cbb ?c" using n by (intro wf_cbb_init) simp
  obtain ok c1 where run: "w ?c = (ok, c1)" by fastforce
  have c: "length (cb_chain ?c) = 0" "\<not> bb_error (cb_base ?c)" by (simp_all add: cbb_init_def)
  note A = appendsD [OF w wf c run]
  have room: "ample hp (length bs) (cb_base ?c)" using hp len by (simp add: ample_def cbb_init_def)
  then have ok: ok using A(5) P by simp
  have c1: "cb_chain c1 = []" "valid_bytes (cb_base c1) = bs"
    using A(3) ok by (simp_all add: cbb_init_def valid_bytes_def)
  have "\<not> bb_error (cb_base c1)" using A(4) ok by simp
  then have "CBB_flush hp 0 c1 = (True, c1)" using c1(1) by (simp add: flush_none)
  then have "fst (CBB_finish hp 0 True c1) = Some bs" using c1(2) by (simp add: CBB_finish_def valid_bytes_def)
  then show ?thesis using init run ok by (simp add: written_def)
qed

lemma length_base128_high: "k < 128 ^ i \<Longrightarrow> length (base128_high k) \<le> i"
proof (induction i arbitrary: k)
  case (Suc i)
  show ?case
  proof (cases "k = 0")
    case False
    have "k div 128 < 128 ^ i" using Suc.prems by (simp add: div_less_iff_less_mult mult.commute)
    then show ?thesis using Suc.IH [of "k div 128"] by (subst base128_high.simps) (simp add: False)
  qed simp
qed simp

lemma length_base128:
  assumes "n < 2 ^ 64"
  shows "length (base128 n) \<le> 10"
proof -
  have "n div 128 < 128 ^ 9" using assms by (simp add: div_less_iff_less_mult)
  from length_base128_high [OF this] show ?thesis by (simp add: base128_def)
qed

lemma length_der_element: "length (der_element t bs) \<le> 16 + length bs"
proof -
  have "unat t mod 2 ^ 29 < 2 ^ 64" by (rule less_trans [of _ "2 ^ 29"]) simp_all
  from length_base128 [OF this] have "length (der_tag t) \<le> 11" by (simp add: der_tag_def Let_def)
  then show ?thesis by (simp add: der_element_def der_length_def length_bytes_def)
qed

lemma cbs_room_element: "length bs < 2 ^ 32 \<Longrightarrow> cbs_room (der_element t bs)"
  using length_der_element [of t bs] by (simp add: cbs_room_def)

lemma write_read:
  assumes hp: "\<forall>k. hp_serves hp k" "n < 2 ^ 64" and w: "appends hp 0 (der_element t cs) P w" P
    and r: "reads_as (\<lambda>x y. f x = y) p q" "q (der_element t cs) = Some (y, [])" and len: "length cs < 2 ^ 32"
  shows "Option.bind (written hp n w) (run_cbs f p) = Some (y, [])"
proof -
  have "length (der_element t cs) < 2 ^ 64" using length_der_element [of t cs] len by simp
  then show ?thesis
    using written_eq [OF hp w] run_cbs_eq [OF r(1) cbs_room_element [OF len]] r(2) by simp
qed

lemma b_contents_element:
  "f cs = Some y \<Longrightarrow> length cs < 2 ^ 32 \<Longrightarrow> b_contents t f (der_element t cs) = Some (y, [])"
  using b_contents_iff [of t f "der_element t cs" y "[]"] by auto

text \<open>
  C6. What the ASN.1 writers write, the parsers read back: for every 64-bit value, every string of
  at most 2 to the 32 minus 2 bytes and every truth value, the writer succeeds on a new CBB when
  memory is served, and the parser returns that value and leaves nothing.
\<close>

theorem asn1_write_read:
  assumes "\<forall>k. hp_serves hp k" "n < 2 ^ 64" "length data \<le> 0xFFFFFFFE"
  shows "Option.bind (written hp n (CBB_add_asn1_uint64 hp 0 v)) (run_cbs uint CBS_get_asn1_uint64) = Some (uint v, []) \<and>
    Option.bind (written hp n (CBB_add_asn1_int64 hp 0 v)) (run_cbs sint CBS_get_asn1_int64) = Some (sint v, []) \<and>
    Option.bind (written hp n (CBB_add_asn1_octet_string hp 0 data)) (run_cbs view (CBS_get_asn1 4)) = Some (data, []) \<and>
    Option.bind (written hp n (CBB_add_asn1_bool hp 0 b)) (run_cbs id CBS_get_asn1_bool) = Some (b \<noteq> 0, [])"
proof -
  obtain cs where cs: "minimal_int cs" "int_value cs = uint v" "length cs \<le> 9"
    "appends hp 0 (der_element 2 cs) True (CBB_add_asn1_uint64 hp 0 v)"
    using CBB_add_asn1_uint64_appends [of v hp 0] by blast
  have "int_in 0 (2 ^ 64) cs = Some (uint v)" using cs uint_lt2p [of v] by (simp add: int_in_iff)
  then have 1: "Option.bind (written hp n (CBB_add_asn1_uint64 hp 0 v)) (run_cbs uint CBS_get_asn1_uint64) = Some (uint v, [])"
    using write_read [OF assms(1,2) cs(4) _ CBS_get_asn1_uint64_reads] cs(3) by (simp add: b_contents_element)
  obtain ds where ds: "minimal_int ds" "int_value ds = sint v" "length ds \<le> 9"
    "appends hp 0 (der_element 2 ds) True (CBB_add_asn1_int64 hp 0 v)"
    using CBB_add_asn1_int64_appends [of v hp 0] by blast
  have "int_in (- (2 ^ 63)) (2 ^ 63) ds = Some (sint v)"
    using ds sint_lt [of v] sint_ge [of v] by (simp add: int_in_iff)
  then have 2: "Option.bind (written hp n (CBB_add_asn1_int64 hp 0 v)) (run_cbs sint CBS_get_asn1_int64) = Some (sint v, [])"
    using write_read [OF assms(1,2) ds(4) _ CBS_get_asn1_int64_reads] ds(3) by (simp add: b_contents_element)
  have data: "length data < 2 ^ 64" "length data < 2 ^ 32" using assms(3) by simp_all
  have "reads_as (\<lambda>x y. view x = y) (CBS_get_asn1 4) (b_asn1 4)"
    by (rule reads_as_mono [OF CBS_get_asn1_reads]) (simp add: shows_bytes_def)
  from write_read [OF assms(1,2) CBB_add_asn1_octet_string_appends [OF data(1)] assms(3) this _ data(2)]
  have 3: "Option.bind (written hp n (CBB_add_asn1_octet_string hp 0 data)) (run_cbs view (CBS_get_asn1 4)) = Some (data, [])"
    using data(2) by (simp add: b_asn1_iff)
  have "reads_as (\<lambda>x y. id x = y) CBS_get_asn1_bool (b_contents 1 bool_contents)"
    by (rule reads_as_mono [OF CBS_get_asn1_bool_reads]) simp
  moreover have "b_contents 1 bool_contents (der_element 1 [if b \<noteq> 0 then 0xFF else 0]) = Some (b \<noteq> 0, [])"
    by (intro b_contents_element) (simp_all add: bool_contents_def)
  ultimately have 4: "Option.bind (written hp n (CBB_add_asn1_bool hp 0 b)) (run_cbs id CBS_get_asn1_bool) = Some (b \<noteq> 0, [])"
    by (rule write_read [OF assms(1,2) CBB_add_asn1_bool_appends [of hp 0 b] TrueI]) simp
  show ?thesis using 1 2 3 4 by blast
qed

theorem asn1_write_read_witness:
  "Option.bind (written (sample_heap\<lparr>hp_serves := \<lambda>k. True\<rparr>) 4 (CBB_add_asn1_int64 (sample_heap\<lparr>hp_serves := \<lambda>k. True\<rparr>) 0 (- 129)))
     (run_cbs sint CBS_get_asn1_int64) = Some (- 129, [])"
proof -
  have "\<forall>k. hp_serves (sample_heap\<lparr>hp_serves := \<lambda>k. True\<rparr>) k" by simp
  from asn1_write_read [OF this, of 4 "[]" "- 129"] show ?thesis by simp
qed

end
