(* ===== verification/Asn1_Oid.thy ===== *)
theory Asn1_Oid
  imports Asn1_Writers
begin

text \<open>
  Object identifiers between their dotted text and their DER contents: CBB_add_asn1_oid_from_text
  and CBS_asn1_oid_to_text are inverse to each other, and each accepts exactly the well-formed
  inputs. The decimal parser accepts a component without leading zeros that fits 64 bits.
\<close>

subsection \<open>Decimal components\<close>

fun b_dots :: "nat \<Rightarrow> bool \<Rightarrow> bytes \<Rightarrow> (nat \<times> bytes) option" where
  "b_dots v seen [] = (if seen then Some (v, []) else None)"
| "b_dots v seen (u # us) =
     (if u = 46 \<and> us \<noteq> [] then (if seen then Some (v, us) else None)
      else if u < 48 \<or> 57 < u \<or> (seen \<and> v = 0) \<or> 2 ^ 64 \<le> 10 * v + (unat u - 48) then None
      else b_dots (10 * v + (unat u - 48)) True us)"

lemma digit_guard:
  fixes u :: u8 and out :: u64
  assumes "48 \<le> u" "u \<le> 57"
  shows "(UINT64_MAX div 10 < out \<or> UINT64_MAX - ucast (u - 48) < out * 10) \<longleftrightarrow> 2 ^ 64 \<le> 10 * unat out + (unat u - 48)"
    "\<not> (2 ^ 64 \<le> 10 * unat out + (unat u - 48)) \<Longrightarrow> unat (out * 10 + ucast (u - 48)) = 10 * unat out + (unat u - 48)"
proof -
  let ?d = "unat u - 48"
  have u: "48 \<le> unat u" "unat u \<le> 57" using assms by (simp_all add: word_le_nat_alt)
  have "unat (u - 48) = ?d" using assms(1) by (simp add: unat_sub)
  then have d: "unat (ucast (u - 48) :: u64) = ?d" "?d \<le> 9" using u by (simp_all add: unat_ucast_u64)
  have max: "unat (UINT64_MAX div 10 :: u64) = 1844674407370955161" "unat (UINT64_MAX :: u64) = 18446744073709551615"
    by (simp_all add: unat_div)
  have "ucast (u - 48) \<le> (UINT64_MAX :: u64)" using d by (simp add: word_le_nat_alt)
  then have sub: "unat (UINT64_MAX - ucast (u - 48) :: u64) = 18446744073709551615 - ?d" using d max by (simp add: unat_sub)
  have mult: "unat (out * 10) = 10 * unat out" if "unat out \<le> 1844674407370955161"
    using that by (simp add: unat_word_ariths)
  show "(UINT64_MAX div 10 < out \<or> UINT64_MAX - ucast (u - 48) < out * 10) \<longleftrightarrow> 2 ^ 64 \<le> 10 * unat out + ?d"
  proof (cases "unat out \<le> 1844674407370955161")
    case True
    then have "UINT64_MAX div 10 < out \<longleftrightarrow> False" unfolding word_less_nat_alt max by simp
    moreover have "UINT64_MAX - ucast (u - 48) < out * 10 \<longleftrightarrow> 18446744073709551615 - ?d < 10 * unat out"
      unfolding word_less_nat_alt sub mult [OF True] ..
    ultimately show ?thesis using d(2) by simp linarith
  next
    case False
    then have "UINT64_MAX div 10 < out" unfolding word_less_nat_alt max by simp
    then show ?thesis using False by simp
  qed
  assume "\<not> 2 ^ 64 \<le> 10 * unat out + ?d"
  then have lt: "10 * unat out + ?d < 18446744073709551616" by simp
  then have "unat out \<le> 1844674407370955161" by simp
  from mult [OF this] have "unat (out * 10 + ucast (u - 48)) = (10 * unat out + ?d) mod 18446744073709551616"
    using d(1) by (simp add: unat_word_ariths)
  then show "unat (out * 10 + ucast (u - 48)) = 10 * unat out + ?d" using lt by simp
qed

lemma dotted_loop_outcome:
  "wf_cbs c \<Longrightarrow> outcome (\<lambda>w n. unat w = n) c (dotted_loop out seen c) (b_dots (unat out) seen (view c))"
proof (induction out seen c rule: dotted_loop.induct)
  case (1 out seen c)
  note view1 = CBS_get_u8_view [OF "1.prems"]
  show ?case
  proof (cases "view c")
    case Nil
    then obtain c1 where "CBS_get_u8 c = (None, c1)" "wf_cbs c1" "c_len c1 \<le> c_len c" "c_len c = 0"
      using view1 "1.prems" length_view [OF "1.prems"] by auto
    moreover have "view c1 = []" using calculation by (simp add: view_def)
    ultimately show ?thesis using Nil by (simp add: dotted_loop.simps [of out seen c] outcome_def)
  next
    case (Cons u us)
    then obtain c1 where c1: "CBS_get_u8 c = (Some u, c1)" "wf_cbs c1" "c_len c1 < c_len c" "view c1 = us"
      using view1 by auto
    have len: "0 < CBS_len c1 \<longleftrightarrow> us \<noteq> []"
      unfolding CBS_len_def length_view [OF c1(2), symmetric] c1(4) by simp
    show ?thesis
    proof (cases "u = 46 \<and> us \<noteq> []")
      case True
      then show ?thesis using c1 len Cons by (simp add: dotted_loop.simps [of out seen c] outcome_def)
    next
      case dot: False
      then have dot': "\<not> (u = 46 \<and> 0 < CBS_len c1)" using len by simp
      have zero: "out = 0 \<longleftrightarrow> unat out = 0" by (simp add: unat_eq_0)
      show ?thesis
      proof (cases "u < 48 \<or> 57 < u")
        case True
        then have "dotted_loop out seen c = (None, c1)"
          using c1(1) dot' by (simp only: dotted_loop.simps [of out seen c]) auto
        moreover have "b_dots (unat out) seen (view c) = None" using True dot unfolding Cons by auto
        ultimately show ?thesis using c1 by (simp add: outcome_def)
      next
        case False
        then have u: "48 \<le> u" "u \<le> 57" by (simp_all add: not_less)
        show ?thesis
        proof (cases "(seen \<and> unat out = 0) \<or> 2 ^ 64 \<le> 10 * unat out + (unat u - 48)")
          case True
          then have "(seen \<and> out = 0) \<or> UINT64_MAX div 10 < out \<or> UINT64_MAX - ucast (u - 48) < out * 10"
            using digit_guard(1) [OF u, of out] zero by blast
          then have "dotted_loop out seen c = (None, c1)"
            using c1(1) dot' by (simp only: dotted_loop.simps [of out seen c]) auto
          moreover have "b_dots (unat out) seen (view c) = None" using True dot unfolding Cons by auto
          ultimately show ?thesis using c1 by (simp add: outcome_def)
        next
          case ok: False
          then have guard: "\<not> (u < 48 \<or> 57 < u \<or> (seen \<and> out = 0) \<or> UINT64_MAX div 10 < out \<or> UINT64_MAX - ucast (u - 48) < out * 10)"
            using digit_guard(1) [OF u, of out] zero False by blast
          then have "dotted_loop out seen c = dotted_loop (out * 10 + ucast (u - 48)) True c1"
            using c1(1) dot' by (subst dotted_loop.simps) (simp only: option.case prod.case if_False)
          moreover have "b_dots (unat out) seen (view c) = b_dots (unat (out * 10 + ucast (u - 48))) True (view c1)"
            using ok dot False digit_guard(2) [OF u, of out] unfolding Cons c1(4) by auto
          moreover have "outcome (\<lambda>w n. unat w = n) c1 (dotted_loop (out * 10 + ucast (u - 48)) True c1)
              (b_dots (unat (out * 10 + ucast (u - 48))) True (view c1))"
            using "1.IH" [OF c1(1) [symmetric] refl dot' guard c1(2)] by simp
          moreover obtain r c2 where "dotted_loop (out * 10 + ucast (u - 48)) True c1 = (r, c2)" by fastforce
          ultimately show ?thesis using c1(3) by (simp add: outcome_def)
        qed
      qed
    qed
  qed
qed

lemma parse_dotted_decimal_reads [reads]: "reads_as (\<lambda>w n. unat w = n) parse_dotted_decimal (b_dots 0 False)"
  using dotted_loop_outcome [of _ 0 False] by (simp add: reads_as_outcome parse_dotted_decimal_def)

lemma decimal_small: "n < 10 \<Longrightarrow> decimal n = [of_nat (48 + n)]"
  by (simp add: decimal.simps)

lemma decimal_snoc: "0 < v \<Longrightarrow> d < 10 \<Longrightarrow> decimal (10 * v + d) = decimal v @ [of_nat (48 + d)]"
  by (subst decimal.simps) simp

lemma decimal_nonempty [simp]: "decimal n \<noteq> []"
  by (subst decimal.simps) simp

lemma length_decimal: "n < 10 ^ k \<Longrightarrow> 0 < k \<Longrightarrow> length (decimal n) \<le> k"
proof (induction k arbitrary: n)
  case (Suc k)
  show ?case
  proof (cases "n < 10")
    case False
    then have "10 < (10 :: nat) ^ Suc k" using Suc.prems by linarith
    then have "0 < k" by (cases k) simp_all
    moreover have "n div 10 < 10 ^ k" using Suc.prems by (simp add: div_less_iff_less_mult mult.commute)
    ultimately show ?thesis using Suc.IH [of "n div 10"] False by (subst decimal.simps) simp
  qed (simp add: decimal_small)
qed simp

text \<open>What follows a component: the end, or a dot that is not the last byte.\<close>

definition terminated :: "bytes \<Rightarrow> bytes \<Rightarrow> bool" where
  "terminated tail rest \<longleftrightarrow> tail = [] \<and> rest = [] \<or> tail = 46 # rest \<and> rest \<noteq> []"

lemma b_dots_sound:
  "b_dots v seen bs = Some (n, rest) \<Longrightarrow> v < 2 ^ 64 \<Longrightarrow> seen \<or> v = 0 \<Longrightarrow>
   n < 2 ^ 64 \<and> (\<exists>tail. (if seen then decimal v else []) @ bs = decimal n @ tail \<and> terminated tail rest)"
proof (induction v seen bs rule: b_dots.induct)
  case (1 v seen)
  then show ?case by (auto simp: terminated_def split: if_splits)
next
  case (2 v seen u us)
  show ?case
  proof (cases "u = 46 \<and> us \<noteq> []")
    case True
    then show ?thesis using 2 by (auto simp: terminated_def split: if_splits)
  next
    case dot: False
    let ?d = "unat u - 48"
    have ok: "48 \<le> u" "u \<le> 57" "\<not> (seen \<and> v = 0)" "10 * v + ?d < 2 ^ 64" "b_dots (10 * v + ?d) True us = Some (n, rest)"
      using "2.prems"(1) dot by (auto split: if_splits)
    have u: "48 \<le> unat u" "unat u \<le> 57" using ok(1,2) by (simp_all add: word_le_nat_alt)
    then have byte: "of_nat (48 + ?d) = u" "?d < 10" by (simp_all del: of_nat_add)
    have eq: "(if seen then decimal v else []) @ u # us = decimal (10 * v + ?d) @ us"
      using decimal_snoc [of v ?d] decimal_small [of ?d] ok(3) byte "2.prems"(3) by (auto simp del: of_nat_add)
    show ?thesis unfolding eq
    proof -
      have "\<not> (u < 48 \<or> 57 < u \<or> (seen \<and> v = 0) \<or> 2 ^ 64 \<le> 10 * v + ?d)" using ok(1-4) by auto
      from "2.IH" [OF dot this ok(5) ok(4)]
      show "n < 2 ^ 64 \<and> (\<exists>tail. decimal (10 * v + ?d) @ us = decimal n @ tail \<and> terminated tail rest)" by simp
    qed
  qed
qed

lemma b_dots_decimal:
  "n < 2 ^ 64 \<Longrightarrow> b_dots 0 False (decimal n @ tail) = b_dots n True tail"
proof (induction n arbitrary: tail rule: decimal.induct)
  case (1 n)
  have digit: "unat (of_nat (48 + d) :: u8) = 48 + d" "((of_nat (48 + d) :: u8) < 48) = False" "(57 < (of_nat (48 + d) :: u8)) = False"
    "(of_nat (48 + d) :: u8) \<noteq> 46" if "d < 10" for d
    using that by (simp_all add: word_le_nat_alt word_less_nat_alt word_unat_eq_iff del: of_nat_add)
  show ?case
  proof (cases "n < 10")
    case True
    then show ?thesis using digit [of n] by (simp add: decimal_small leD del: of_nat_add)
  next
    case False
    let ?d = "n mod 10"
    have "decimal n @ tail = decimal (n div 10) @ of_nat (48 + ?d) # tail"
      using False by (subst decimal.simps) simp
    also have "b_dots 0 False \<dots> = b_dots (n div 10) True (of_nat (48 + ?d) # tail)"
      using "1.IH" [of "of_nat (48 + ?d) # tail"] False "1.prems"(1) digit(4) [of ?d] by (simp del: of_nat_add)
    also have "\<dots> = b_dots n True tail"
      using False "1.prems"(1) digit [of ?d] by (simp add: leD not_le div_eq_0_iff del: of_nat_add)
    finally show ?thesis .
  qed
qed

lemma b_dots_iff:
  "b_dots 0 False bs = Some (n, rest) \<longleftrightarrow> n < 2 ^ 64 \<and> (\<exists>tail. bs = decimal n @ tail \<and> terminated tail rest)"
proof
  assume "b_dots 0 False bs = Some (n, rest)"
  from b_dots_sound [OF this] show "n < 2 ^ 64 \<and> (\<exists>tail. bs = decimal n @ tail \<and> terminated tail rest)" by simp
next
  assume "n < 2 ^ 64 \<and> (\<exists>tail. bs = decimal n @ tail \<and> terminated tail rest)"
  then obtain tail where t: "n < 2 ^ 64" "bs = decimal n @ tail" "terminated tail rest" by blast
  then have "b_dots 0 False bs = b_dots n True tail" using b_dots_decimal by blast
  then show "b_dots 0 False bs = Some (n, rest)" using t(3) by (auto simp: terminated_def)
qed

subsection \<open>Dotted text and DER contents\<close>

fun dotted :: "nat list \<Rightarrow> bytes" where
  "dotted [] = []"
| "dotted [n] = decimal n"
| "dotted (n # m # ns) = decimal n @ 46 # dotted (m # ns)"

lemma dotted_nonempty: "dotted (n # ns) \<noteq> []"
  by (cases ns) simp_all

lemma dotted_terminated: "\<exists>tail. dotted (n # ns) = decimal n @ tail \<and> terminated tail (dotted ns)"
  by (cases ns) (auto simp: terminated_def dotted_nonempty)

lemma terminated_dotted: "terminated tail (dotted ns) \<Longrightarrow> decimal n @ tail = dotted (n # ns)"
  by (cases ns) (auto simp: terminated_def dotted_nonempty)

lemma dotted_Cons: "dotted (n # ns) = decimal n @ concat (map (\<lambda>m. 46 # decimal m) ns)"
  by (induction ns arbitrary: n) simp_all

lemma b_dots_dotted: "n < 2 ^ 64 \<Longrightarrow> b_dots 0 False (dotted (n # ns)) = Some (n, dotted ns)"
  using b_dots_iff dotted_terminated by blast

lemma dotted_parsed:
  "b_dots 0 False bs = Some (n, dotted ns) \<Longrightarrow> bs = dotted (n # ns) \<and> n < 2 ^ 64"
  using b_dots_iff terminated_dotted by metis

fun valid_oid :: "nat list \<Rightarrow> bool" where
  "valid_oid (a # b # ns) \<longleftrightarrow>
     a \<le> 2 \<and> (a < 2 \<longrightarrow> b \<le> 39) \<and> b \<le> 2 ^ 64 - 1 - 80 \<and> (\<forall>n \<in> set ns. n < 2 ^ 64)"
| "valid_oid ns \<longleftrightarrow> False"

fun oid_contents :: "nat list \<Rightarrow> bytes" where
  "oid_contents (a # b # ns) = base128 (40 * a + b) @ concat (map base128 ns)"
| "oid_contents ns = []"

subsection \<open>Writing the contents\<close>

text \<open>How a writer that may stop without an error flag leaves a CBB without children.\<close>

definition adds :: "CBB \<Rightarrow> bytes \<Rightarrow> CBB \<Rightarrow> bool" where
  "adds cbb bs cbb' \<longleftrightarrow>
     wf_cbb cbb' \<and> keeps (cb_base cbb) (cb_base cbb') \<and> \<not> bb_error (cb_base cbb') \<and> cb_chain cbb' = cb_chain cbb \<and>
     valid_bytes (cb_base cbb') = valid_bytes (cb_base cbb) @ bs"

lemma adds_trans: "adds a xs b \<Longrightarrow> adds b ys c \<Longrightarrow> adds a (xs @ ys) c"
  using keeps_trans by (auto simp: adds_def)

lemma appends_adds:
  assumes "appends hp d bs P w" "wf_cbb cbb" "length (cb_chain cbb) = d" "\<not> bb_error (cb_base cbb)" "w cbb = (ok, cbb')"
  shows "ok \<Longrightarrow> adds cbb bs cbb'" "P \<Longrightarrow> ample hp (length bs) (cb_base cbb) \<Longrightarrow> ok"
  using appendsD [OF assms] by (auto simp: adds_def)

lemma adds_ample:
  assumes "wf_cbb cbb" "adds cbb bs cbb'" "ample hp (length bs + n) (cb_base cbb)"
  shows "ample hp n (cb_base cbb')"
proof -
  have "bb_len (cb_base cbb') = bb_len (cb_base cbb) + length bs"
    using assms(1,2) bb_len_valid by (fastforce simp: adds_def wf_cbb_def)
  then show ?thesis using assms(2,3) by (auto simp: adds_def intro: ample_after)
qed

text \<open>
  The two directions are the same loop: parse a number, write it in the other form, until the window
  is empty. The interface of such a loop: a parser for the input form \<open>text\<close> of a list of numbers,
  a writer for the output form \<open>out\<close> of one number, and the equation of the loop.
\<close>

locale transcription =
  fixes hp :: heap and d :: nat
    and parse :: "u64 parser" and parsed :: "bytes \<Rightarrow> (nat \<times> bytes) option" and text_of :: "nat list \<Rightarrow> bytes"
    and out :: "nat \<Rightarrow> bytes" and put :: "u64 \<Rightarrow> CBB \<Rightarrow> bool \<times> CBB"
    and loop :: "CBS \<Rightarrow> CBB \<Rightarrow> bool \<times> CBB"
  assumes parses: "reads_as (\<lambda>a n. unat a = n) parse parsed"
    and shorter: "parse c = (Some a, c') \<Longrightarrow> c_len c' < c_len c"
    and writes: "appends hp d (out (unat a)) True (put a)"
    and loop_eq: "loop c cbb =
      (if CBS_len c = 0 then (True, cbb)
       else case parse c of
         (None, c') \<Rightarrow> (False, cbb)
       | (Some a, c') \<Rightarrow> (case put a cbb of (ok, cbb) \<Rightarrow> if \<not> ok then (False, cbb) else loop c' cbb))"
    and text_Nil: "text_of [] = []"
    and text_Cons: "text_of (n # ns) \<noteq> []"
    and parse_text: "n < 2 ^ 64 \<Longrightarrow> parsed (text_of (n # ns)) = Some (n, text_of ns)"
    and text_parsed: "parsed bs = Some (n, text_of ns) \<Longrightarrow> bs = text_of (n # ns) \<and> n < 2 ^ 64"
begin

lemma transcribes:
  assumes "wf_cbs c" "wf_cbb cbb" "length (cb_chain cbb) = d" "\<not> bb_error (cb_base cbb)" "loop c cbb = (ok, cbb')"
  shows "(ok \<longrightarrow> (\<exists>ns. view c = text_of ns \<and> (\<forall>n \<in> set ns. n < 2 ^ 64) \<and> adds cbb (concat (map out ns)) cbb')) \<and>
    (\<forall>ns. view c = text_of ns \<longrightarrow> (\<forall>n \<in> set ns. n < 2 ^ 64) \<longrightarrow>
       ample hp (length (concat (map out ns))) (cb_base cbb) \<longrightarrow> ok)"
  using assms
proof (induction "c_len c" arbitrary: c cbb rule: less_induct)
  case less
  have len: "CBS_len c = 0 \<longleftrightarrow> view c = []" using length_view [OF less.prems(1)] by (auto simp: CBS_len_def)
  show ?case
  proof (cases "CBS_len c = 0")
    case True
    then have "ok" "cbb' = cbb" using less.prems(5) by (auto simp: loop_eq [of c cbb])
    moreover have "adds cbb [] cbb" using less.prems by (simp add: adds_def wf_cbb_def keeps_def)
    ultimately show ?thesis using True len by (intro conjI impI exI [of _ "[]"]) (simp_all add: text_Nil)
  next
    case False
    then have some: "view c \<noteq> []" using len by simp
    have shape: "\<exists>m ms. ns = m # ms" if "view c = text_of ns" for ns using that some text_Nil by (cases ns) auto
    obtain r c1 where p: "parse c = (r, c1)" by fastforce
    note P = reads_asD [OF parses less.prems(1) p]
    show ?thesis
    proof (cases "parsed (view c)")
      case None
      then have "\<not> ok" using P(3) p False less.prems(5) by (simp add: loop_eq [of c cbb])
      moreover have "\<not> (view c = text_of ns \<and> (\<forall>n \<in> set ns. n < 2 ^ 64))" for ns
        using shape [of ns] None parse_text by fastforce
      ultimately show ?thesis by blast
    next
      case (Some nr)
      obtain n rest where nr: "nr = (n, rest)" by (cases nr)
      obtain a where a: "r = Some a" "unat a = n" "view c1 = rest" using P(4) Some nr by blast
      obtain ok2 cbb2 where w: "put a cbb = (ok2, cbb2)" by fastforce
      note A = appends_adds [OF writes less.prems(2-4) w, unfolded a(2)]
      have all: "m = n \<and> rest = text_of ms" if "view c = text_of (m # ms)" "m < 2 ^ 64" for m ms
        using that parse_text [of m ms] Some nr by simp
      show ?thesis
      proof (cases ok2)
        case no: False
        then have "\<not> ok" using p a w False less.prems(5) by (simp add: loop_eq [of c cbb])
        moreover have "\<not> ample hp (length (concat (map out ns))) (cb_base cbb)"
          if "view c = text_of ns" "\<forall>n \<in> set ns. n < 2 ^ 64" for ns
        proof
          assume room: "ample hp (length (concat (map out ns))) (cb_base cbb)"
          obtain m ms where ns: "ns = m # ms" using shape \<open>view c = text_of ns\<close> by blast
          then have "m = n" using all that by simp
          then have "length (out n) \<le> length (concat (map out ns))" by (simp add: ns)
          then show False using A(2) no ample_mono [OF room] by blast
        qed
        ultimately show ?thesis by blast
      next
        case True
        note adds = A(1) [OF True]
        have run: "loop c1 cbb2 = (ok, cbb')" using p a w True False less.prems(5) by (simp add: loop_eq [of c cbb])
        have c2: "wf_cbb cbb2" "length (cb_chain cbb2) = d" "\<not> bb_error (cb_base cbb2)"
          using adds less.prems(3) by (simp_all add: adds_def)
        have "c_len c1 < c_len c" using shorter p a(1) by blast
        note IH = less.hyps [OF this P(1) c2 run]
        have sound: "\<exists>ns. view c = text_of ns \<and> (\<forall>n \<in> set ns. n < 2 ^ 64) \<and> adds cbb (concat (map out ns)) cbb'" if ok
        proof -
          obtain ns where ns: "view c1 = text_of ns" "\<forall>n \<in> set ns. n < 2 ^ 64" "adds cbb2 (concat (map out ns)) cbb'"
            using IH \<open>ok\<close> by blast
          have "parsed (view c) = Some (n, text_of ns)" using Some nr a(3) ns(1) by simp
          then have "view c = text_of (n # ns)" "n < 2 ^ 64" using text_parsed by blast+
          then show ?thesis using ns(2) adds_trans [OF adds ns(3)] by (intro exI [of _ "n # ns"]) simp
        qed
        have complete: "ok" if "view c = text_of ns" "\<forall>n \<in> set ns. n < 2 ^ 64"
          "ample hp (length (concat (map out ns))) (cb_base cbb)" for ns
        proof -
          obtain m ms where ns: "ns = m # ms" using shape \<open>view c = text_of ns\<close> by blast
          then have m: "m = n" "rest = text_of ms" using all that by simp_all
          have "ample hp (length (concat (map out ms))) (cb_base cbb2)"
            using that(3) by (intro adds_ample [OF less.prems(2) adds]) (simp add: ns m(1))
          then show ok using IH that(2) a(3) m(2) by (simp add: ns)
        qed
        from sound complete show ?thesis by blast
      qed
    qed
  qed
qed

end

interpretation oid_writer: transcription hp d parse_dotted_decimal "b_dots 0 False" dotted base128
  "add_base128_integer hp d" "oid_components hp d"
  for hp d
proof
  show "reads_as (\<lambda>a n. unat a = n) parse_dotted_decimal (b_dots 0 False)" by (rule parse_dotted_decimal_reads)
  show "parse_dotted_decimal c = (Some a, c') \<Longrightarrow> c_len c' < c_len c" for c a c'
    unfolding parse_dotted_decimal_def by (rule dotted_loop_shorter)
  show "oid_components hp d c cbb =
      (if CBS_len c = 0 then (True, cbb)
       else case parse_dotted_decimal c of
         (None, c') \<Rightarrow> (False, cbb)
       | (Some a, c') \<Rightarrow>
           (case add_base128_integer hp d a cbb of (ok, cbb) \<Rightarrow> if \<not> ok then (False, cbb) else oid_components hp d c' cbb))"
    for c cbb by (rule oid_components.simps)
  show "n < 2 ^ 64 \<Longrightarrow> b_dots 0 False (dotted (n # ns)) = Some (n, dotted ns)" for n ns by (rule b_dots_dotted)
  show "b_dots 0 False bs = Some (n, dotted ns) \<Longrightarrow> bs = dotted (n # ns) \<and> n < 2 ^ 64" for bs n ns by (rule dotted_parsed)
qed (rule add_base128_integer_appends, simp_all add: dotted_nonempty)

lemma length_decimal_u64: "length (decimal (unat (v :: u64))) \<le> 20"
proof -
  have "unat v < 10 ^ 20" by (rule less_trans [OF unat_u64_lt]) simp
  then show ?thesis by (intro length_decimal) simp_all
qed

lemma add_decimal_appends [writers]: "appends hp d (decimal (unat v)) True (add_decimal hp d v)"
proof -
  have "length (decimal (unat v)) < 2 ^ 64" by (rule le_less_trans [OF length_decimal_u64]) simp
  then show ?thesis unfolding add_decimal_def by (rule CBB_add_bytes_appends)
qed

interpretation oid_printer: transcription hp 0 parse_base128_integer "b_base128 0" "\<lambda>ns. concat (map base128 ns)"
  "\<lambda>n. 46 # decimal n" "\<lambda>v. cbb_then (CBB_add_u8 hp 0 ascii_dot) (add_decimal hp 0 v)" "oid_text_loop hp"
  for hp
proof
  show "reads_as (\<lambda>a n. unat a = n) parse_base128_integer (b_base128 0)" by (rule parse_base128_integer_reads)
  show "parse_base128_integer c = (Some a, c') \<Longrightarrow> c_len c' < c_len c" for c a c'
    unfolding parse_base128_integer_def by (rule base128_loop_shorter)
  show "appends hp 0 (46 # decimal (unat a)) True (cbb_then (CBB_add_u8 hp 0 ascii_dot) (add_decimal hp 0 a))" for a
    using appends_then [OF CBB_add_u8_appends add_decimal_appends, of hp 0 46 a] by simp
  show "n < 2 ^ 64 \<Longrightarrow> b_base128 0 (concat (map base128 (n # ns))) = Some (n, concat (map base128 ns))" for n ns
    by (simp add: b_base128_iff)
  show "b_base128 0 bs = Some (n, concat (map base128 ns)) \<Longrightarrow> bs = concat (map base128 (n # ns)) \<and> n < 2 ^ 64" for bs n ns
    by (simp add: b_base128_iff)
  show "oid_text_loop hp c cbb =
      (if CBS_len c = 0 then (True, cbb)
       else case parse_base128_integer c of
         (None, c') \<Rightarrow> (False, cbb)
       | (Some a, c') \<Rightarrow>
           (case cbb_then (CBB_add_u8 hp 0 ascii_dot) (add_decimal hp 0 a) cbb of
              (ok, cbb) \<Rightarrow> if \<not> ok then (False, cbb) else oid_text_loop hp c' cbb))"
    for c cbb by (rule oid_text_loop.simps)
qed (simp_all add: base128_def)

lemma length_concat_base128:
  "\<forall>n \<in> set ns. n < 2 ^ 64 \<Longrightarrow> length (concat (map base128 ns)) \<le> 10 * length ns"
  by (induction ns) (auto dest: length_base128 [simplified] intro: add_mono)

lemma length_dotted: "length ns \<le> length (dotted ns)"
proof (cases ns)
  case (Cons n ms)
  have "length ms \<le> length (concat (map (\<lambda>m. 46 # decimal m) ms))" by (induction ms) auto
  moreover have "1 \<le> length (decimal n)" using decimal_nonempty [of n] by (cases "decimal n") auto
  ultimately show ?thesis by (simp add: Cons dotted_Cons)
qed simp

lemma finish_adds:
  assumes "adds (cbb_init buf r) bs c1"
  shows "fst (CBB_finish hp 0 True c1) = Some bs"
proof -
  have c1: "cb_chain c1 = []" "valid_bytes (cb_base c1) = bs" "\<not> bb_error (cb_base c1)"
    using assms by (simp_all add: adds_def cbb_init_def valid_bytes_def)
  then have "CBB_flush hp 0 c1 = (True, c1)" by (simp add: flush_none)
  then show ?thesis using c1(2) by (simp add: CBB_finish_def valid_bytes_def)
qed

lemma dotted_inj:
  "dotted ns = dotted ms \<Longrightarrow> \<forall>n \<in> set ns. n < 2 ^ 64 \<Longrightarrow> \<forall>n \<in> set ms. n < 2 ^ 64 \<Longrightarrow> ns = ms"
proof (induction ns arbitrary: ms)
  case Nil
  then have "dotted ms = []" by simp
  then show ?case using dotted_nonempty by (cases ms) auto
next
  case (Cons n ns)
  then obtain m ms' where ms: "ms = m # ms'" using dotted_nonempty [of n ns] by (cases ms) auto
  have "Some (n, dotted ns) = Some (m, dotted ms')"
    using Cons.prems b_dots_dotted [of n ns] b_dots_dotted [of m ms'] by (simp add: ms)
  then show ?case using Cons by (simp add: ms)
qed

lemma first_component:
  fixes a b :: u64
  assumes "unat a \<le> 2" "unat b \<le> 2 ^ 64 - 1 - 80"
  shows "unat (40 * a + b) = 40 * unat a + unat b"
proof -
  have "unat (40 * a) = 40 * unat a" using assms(1) by (simp add: unat_word_ariths)
  then show ?thesis using assms by (simp add: unat_word_ariths)
qed

lemma from_text_spec:
  assumes wf: "wf_cbb cbb" "length (cb_chain cbb) = d" "\<not> bb_error (cb_base cbb)" and short: "length txt < 2 ^ 63"
    and run: "CBB_add_asn1_oid_from_text hp d txt (length txt) cbb = (ok, cbb')"
  shows "(ok \<longrightarrow> (\<exists>ns. valid_oid ns \<and> txt = dotted ns \<and> adds cbb (oid_contents ns) cbb')) \<and>
    (\<forall>ns. valid_oid ns \<longrightarrow> txt = dotted ns \<longrightarrow> ample hp (length (oid_contents ns)) (cb_base cbb) \<longrightarrow> ok)"
proof -
  let ?c = "CBS_init txt (length txt)"
  have wfc: "wf_cbs ?c" "view ?c = txt" using short by simp_all
  have fl: "CBB_flush hp d cbb = (True, cbb)" using wf by (simp add: flush_none)
  obtain r1 c1 where p1: "parse_dotted_decimal ?c = (r1, c1)" by fastforce
  note P1 = reads_asD [OF parse_dotted_decimal_reads wfc(1) p1, unfolded wfc(2)]
  obtain r2 c2 where p2: "parse_dotted_decimal c1 = (r2, c2)" by fastforce
  note P2 = reads_asD [OF parse_dotted_decimal_reads P1(1) p2]
  have shape: "\<exists>a b ms. ns = a # b # ms \<and> b_dots 0 False txt = Some (a, dotted (b # ms)) \<and>
      b_dots 0 False (dotted (b # ms)) = Some (b, dotted ms)" if "valid_oid ns" "txt = dotted ns" for ns
  proof -
    obtain a b ms where ns: "ns = a # b # ms" using \<open>valid_oid ns\<close> by (cases ns rule: valid_oid.cases) auto
    then have "a < 2 ^ 64" "b < 2 ^ 64" using that(1) by simp_all
    then show ?thesis using b_dots_dotted that(2) ns by blast
  qed
  show ?thesis
  proof (cases "\<exists>a r1' b r2'. b_dots 0 False txt = Some (a, r1') \<and> b_dots 0 False r1' = Some (b, r2')")
    case False
    have "r1 = None \<or> r2 = None"
    proof (cases "b_dots 0 False txt")
      case (Some ar)
      obtain a r1' where ar: "ar = (a, r1')" by (cases ar)
      have "view c1 = r1'" using P1(4) [OF Some [unfolded ar]] by blast
      moreover have "b_dots 0 False r1' = None"
      proof (cases "b_dots 0 False r1'")
        case (Some br)
        then show ?thesis using \<open>b_dots 0 False txt = Some ar\<close> ar False by (cases br) blast
      qed
      ultimately show ?thesis using P2(3) by simp
    qed (use P1(3) in simp)
    then have "\<not> ok" using run fl p1 p2 by (auto simp: CBB_add_asn1_oid_from_text_def cbb_then_def split: option.splits)
    then show ?thesis using shape False by blast
  next
    case True
    then obtain a r1' b r2' where q: "b_dots 0 False txt = Some (a, r1')" "b_dots 0 False r1' = Some (b, r2')" by blast
    obtain wa where a: "r1 = Some wa" "unat wa = a" "view c1 = r1'" using P1(4) [OF q(1)] by blast
    obtain wb where b: "r2 = Some wb" "unat wb = b" "view c2 = r2'" using P2(4) [unfolded a(3), OF q(2)] by blast
    have txt_of: "txt = dotted (a # b # ms)" if "r2' = dotted ms" for ms
      using that q dotted_parsed by blast
    have of_txt: "ns = a # b # ms \<Longrightarrow> r2' = dotted ms" if "valid_oid ns" "txt = dotted ns" for ns ms
      using shape [OF that] q by auto
    have heads: "\<exists>ms. ns = a # b # ms" if "valid_oid ns" "txt = dotted ns" for ns
      using shape [OF that] q by auto
    let ?bad = "2 < wa \<or> (wa < 2 \<and> 39 < wb) \<or> UINT64_MAX - 80 < wb"
    have bad: "?bad \<longleftrightarrow> \<not> (a \<le> 2 \<and> (a < 2 \<longrightarrow> b \<le> 39) \<and> b \<le> 2 ^ 64 - 1 - 80)"
      by (simp add: word_less_nat_alt a(2) b(2)) linarith
    show ?thesis
    proof (cases ?bad)
      case True
      then have "\<not> ok" using run fl p1 p2 a b by (auto simp: CBB_add_asn1_oid_from_text_def cbb_then_def)
      moreover have "\<not> (valid_oid ns \<and> txt = dotted ns)" for ns using heads bad True by fastforce
      ultimately show ?thesis by blast
    next
      case good: False
      let ?first = "40 * wa + wb"
      have first: "unat ?first = 40 * a + b" using good first_component [of wa wb] a(2) b(2) bad by blast
      obtain ok3 c3 where w: "add_base128_integer hp d ?first cbb = (ok3, c3)" by fastforce
      note A = appends_adds [OF add_base128_integer_appends wf w, unfolded first]
      have run3: "(if \<not> ok3 then (False, c3) else oid_components hp d c2 c3) = (ok, cbb')"
      proof -
        have g: "(2 < wa \<or> wa < 2 \<and> 39 < wb \<or> UINT64_MAX - 80 < wb) = False" using good by blast
        show ?thesis using run fl p1 p2 a(1) b(1) w
          unfolding CBB_add_asn1_oid_from_text_def cbb_then_def
          by (simp only: prod.case option.case g if_False) simp
      qed
      show ?thesis
      proof (cases ok3)
        case no: False
        have "\<not> ample hp (length (oid_contents ns)) (cb_base cbb)" if ns: "valid_oid ns" "txt = dotted ns" for ns
        proof
          assume room: "ample hp (length (oid_contents ns)) (cb_base cbb)"
          obtain ms where "ns = a # b # ms" using heads [OF ns] by blast
          then have "ample hp (length (base128 (40 * a + b))) (cb_base cbb)" by (intro ample_mono [OF room]) simp
          then show False using A(2) no by simp
        qed
        then show ?thesis using run3 no by auto
      next
        case True
        note adds = A(1) [OF True]
        have c3: "wf_cbb c3" "length (cb_chain c3) = d" "\<not> bb_error (cb_base c3)" using adds wf(2) by (simp_all add: adds_def)
        have "oid_components hp d c2 c3 = (ok, cbb')" using run3 True by simp
        note S = oid_writer.transcribes [OF P2(1) c3 this, unfolded b(3)]
        have "\<exists>ns. valid_oid ns \<and> txt = dotted ns \<and> adds cbb (oid_contents ns) cbb'" if ok
        proof -
          obtain ms where ms: "r2' = dotted ms" "\<forall>n \<in> set ms. n < 2 ^ 64" "adds c3 (concat (map base128 ms)) cbb'"
            using S \<open>ok\<close> by blast
          have "a \<le> 2 \<and> (a < 2 \<longrightarrow> b \<le> 39) \<and> b \<le> 2 ^ 64 - 1 - 80" using good bad by blast
          then have "valid_oid (a # b # ms)" using ms(2) by simp
          then show ?thesis
            using txt_of [OF ms(1)] adds_trans [OF adds ms(3)] by (intro exI [of _ "a # b # ms"]) (simp del: dotted.simps)
        qed
        moreover have "ok" if ns: "valid_oid ns" "txt = dotted ns" "ample hp (length (oid_contents ns)) (cb_base cbb)" for ns
        proof -
          obtain ms where ms: "ns = a # b # ms" using heads [OF ns(1,2)] by blast
          then have "r2' = dotted ms" "\<forall>n \<in> set ms. n < 2 ^ 64" using of_txt [OF ns(1,2)] ns(1) by simp_all
          moreover have "ample hp (length (concat (map base128 ms))) (cb_base c3)"
            using ns(3) by (intro adds_ample [OF wf(1) adds]) (simp add: ms)
          ultimately show ok using S by blast
        qed
        ultimately show ?thesis by blast
      qed
    qed
  qed
qed

lemma length_oid_contents: "valid_oid ns \<Longrightarrow> length (oid_contents ns) \<le> 10 * length ns"
proof (induction ns rule: valid_oid.induct)
  case (1 a b ns)
  have "length (base128 (40 * a + b)) \<le> 10" using 1 by (intro length_base128) simp
  moreover have "length (concat (map base128 ns)) \<le> 10 * length ns" using 1 by (intro length_concat_base128) simp
  ultimately show ?case by simp
qed simp_all

lemma valid_oid_fits: "valid_oid ns \<Longrightarrow> \<forall>n \<in> set ns. n < 2 ^ 64"
  by (cases ns rule: valid_oid.cases) auto

text \<open>
  C34. The text form of an object identifier: on a new CBB and with memory served,
  CBB_add_asn1_oid_from_text succeeds exactly on the dotted decimal form, without leading zeros, of
  an identifier whose first two components are in range and whose components fit 64 bits, and then
  writes its DER contents.
\<close>

theorem oid_from_text_exact:
  assumes "\<forall>k. hp_serves hp k" "n < 2 ^ 64" "length txt < 2 ^ 60"
  shows "written hp n (CBB_add_asn1_oid_from_text hp 0 txt (length txt)) = Some out \<longleftrightarrow>
    (\<exists>ns. valid_oid ns \<and> txt = dotted ns \<and> out = oid_contents ns)"
proof -
  let ?c = "cbb_init (fresh_bytes hp n) True"
  have init: "CBB_init hp n = Some ?c" using assms(1) by (simp add: CBB_init_def)
  have wf: "wf_cbb ?c" "length (cb_chain ?c) = 0" "\<not> bb_error (cb_base ?c)"
    using assms(2) by (intro wf_cbb_init) (simp_all add: cbb_init_def)
  obtain ok c1 where run: "CBB_add_asn1_oid_from_text hp 0 txt (length txt) ?c = (ok, c1)" by fastforce
  have "length txt < 2 ^ 63" using assms(3) by simp
  note S = from_text_spec [OF wf this run]
  have res: "written hp n (CBB_add_asn1_oid_from_text hp 0 txt (length txt)) = (if ok then fst (CBB_finish hp 0 True c1) else None)"
    using init run by (simp add: written_def)
  have room: "ample hp (length (oid_contents ns)) (cb_base ?c)" if "valid_oid ns" "txt = dotted ns" for ns
  proof -
    have "length (oid_contents ns) \<le> 10 * length txt"
      using length_oid_contents [OF that(1)] length_dotted [of ns] that(2) by simp
    then show ?thesis using assms(1,3) by (simp add: ample_def cbb_init_def)
  qed
  have sound: "\<exists>ns. valid_oid ns \<and> txt = dotted ns \<and> fst (CBB_finish hp 0 True c1) = Some (oid_contents ns)" if ok
    using S that finish_adds by blast
  show ?thesis
  proof
    assume "written hp n (CBB_add_asn1_oid_from_text hp 0 txt (length txt)) = Some out"
    then have "ok" "fst (CBB_finish hp 0 True c1) = Some out" by (simp_all add: res split: if_splits)
    then show "\<exists>ns. valid_oid ns \<and> txt = dotted ns \<and> out = oid_contents ns" using sound by auto
  next
    assume "\<exists>ns. valid_oid ns \<and> txt = dotted ns \<and> out = oid_contents ns"
    then obtain ns where ns: "valid_oid ns" "txt = dotted ns" "out = oid_contents ns" by blast
    then have ok: ok using S room by blast
    then obtain ms where ms: "valid_oid ms" "txt = dotted ms" "fst (CBB_finish hp 0 True c1) = Some (oid_contents ms)"
      using sound by blast
    then have "ms = ns" using dotted_inj valid_oid_fits ns by metis
    then show "written hp n (CBB_add_asn1_oid_from_text hp 0 txt (length txt)) = Some out" using ok ms ns(3) res by simp
  qed
qed

end
