(* ===== verification/Asn1_Oid_Text.thy ===== *)
theory Asn1_Oid_Text
  imports Asn1_Oid
begin

text \<open>
  Printing: CBS_asn1_oid_to_text returns the dotted text of exactly the windows that hold the DER
  contents of an object identifier, so that it is the inverse of CBB_add_asn1_oid_from_text.
\<close>

definition oid_head :: "nat \<Rightarrow> nat \<times> nat" where
  "oid_head n = (if 80 \<le> n then (2, n - 80) else (n div 40, n mod 40))"

lemma oid_head_unique:
  "n < 2 ^ 64 \<Longrightarrow>
   (a \<le> 2 \<and> (a < 2 \<longrightarrow> b \<le> 39) \<and> b \<le> 2 ^ 64 - 1 - 80 \<and> 40 * a + b = n) \<longleftrightarrow> oid_head n = (a, b)"
proof
  assume n: "n < 2 ^ 64" and a: "a \<le> 2 \<and> (a < 2 \<longrightarrow> b \<le> 39) \<and> b \<le> 2 ^ 64 - 1 - 80 \<and> 40 * a + b = n"
  show "oid_head n = (a, b)"
  proof (cases "a = 2")
    case True
    then show ?thesis using a by (auto simp: oid_head_def)
  next
    case False
    then have "b < 40" "n = b + a * 40" "a < 2" using a by auto
    then show ?thesis by (auto simp: oid_head_def)
  qed
next
  assume "n < 2 ^ 64" "oid_head n = (a, b)"
  then show "a \<le> 2 \<and> (a < 2 \<longrightarrow> b \<le> 39) \<and> b \<le> 2 ^ 64 - 1 - 80 \<and> 40 * a + b = n"
    by (auto simp: oid_head_def split: if_splits)
qed

definition print_head :: "heap \<Rightarrow> u64 \<Rightarrow> CBB \<Rightarrow> bool \<times> CBB" where
  "print_head hp v =
     (if 80 \<le> v
      then cbb_then (CBB_add_bytes hp 0 [50, ascii_dot]) (add_decimal hp 0 (v - 80))
      else cbb_then (add_decimal hp 0 (v div 40)) (cbb_then (CBB_add_u8 hp 0 ascii_dot) (add_decimal hp 0 (v mod 40))))"

lemma print_head_appends:
  assumes "oid_head (unat v) = (a, b)"
  shows "appends hp 0 (decimal a @ 46 # decimal b) True (print_head hp v)"
proof (cases "80 \<le> v")
  case True
  then have v: "80 \<le> unat v" "unat (v - 80) = unat v - 80" by (simp_all add: word_le_nat_alt unat_sub)
  then have ab: "a = 2" "b = unat (v - 80)" using assms by (simp_all add: oid_head_def)
  have "decimal 2 = [50]" by (simp add: decimal_small)
  then show ?thesis
    using appends_then [OF CBB_add_bytes_appends add_decimal_appends, of "[50, 46]" hp 0 "v - 80"] True
    by (simp add: print_head_def ab)
next
  case False
  then have ab: "a = unat (v div 40)" "b = unat (v mod 40)"
    using assms by (simp_all add: oid_head_def word_le_nat_alt unat_div unat_mod)
  have "appends hp 0 (46 # decimal (unat (v mod 40))) True (cbb_then (CBB_add_u8 hp 0 46) (add_decimal hp 0 (v mod 40)))"
    using appends_then [OF CBB_add_u8_appends add_decimal_appends, of hp 0 46 "v mod 40"] by simp
  from appends_then [OF add_decimal_appends this, of "v div 40"] show ?thesis
    using False by (simp add: print_head_def ab)
qed

lemma length_concat_decimal:
  "\<forall>n \<in> set ns. n < 2 ^ 64 \<Longrightarrow> length (concat (map (\<lambda>n. 46 # decimal n) ns)) \<le> 21 * length ns"
proof (induction ns)
  case (Cons n ns)
  have "n < 2 ^ 64" using Cons.prems by simp
  then have "n < 10 ^ 20" by (rule less_trans) simp
  then have "length (decimal n) \<le> 20" by (rule length_decimal) simp
  then show ?case using Cons by simp
qed simp

lemma length_base128_list: "length ns \<le> length (concat (map base128 ns))"
  by (induction ns) (auto simp: base128_def)

lemma base128_list_inj:
  "concat (map base128 ns) = concat (map base128 ms) \<Longrightarrow>
   \<forall>n \<in> set ns. n < 2 ^ 64 \<Longrightarrow> \<forall>n \<in> set ms. n < 2 ^ 64 \<Longrightarrow> ns = ms"
proof (induction ns arbitrary: ms)
  case Nil
  then show ?case by (cases ms) (simp_all add: base128_def)
next
  case (Cons n ns)
  then obtain m ms' where ms: "ms = m # ms'" by (cases ms) (simp_all add: base128_def)
  have "b_base128 0 (base128 n @ concat (map base128 ns)) = Some (n, concat (map base128 ns))"
    using Cons.prems(2) by (simp add: b_base128_iff)
  moreover have "b_base128 0 (base128 m @ concat (map base128 ms')) = Some (m, concat (map base128 ms'))"
    using Cons.prems(3) by (simp add: b_base128_iff ms)
  moreover have "base128 n @ concat (map base128 ns) = base128 m @ concat (map base128 ms')"
    using Cons.prems(1) by (simp add: ms)
  ultimately have eq: "n = m" "concat (map base128 ns) = concat (map base128 ms')" by (metis option.inject prod.inject)+
  have "ns = ms'" by (rule Cons.IH [OF eq(2)]) (use Cons.prems(2,3) in \<open>simp_all add: ms\<close>)
  then show ?case using eq(1) by (simp add: ms)
qed

text \<open>The parts of an identifier, read off its contents.\<close>

lemma oid_contents_parts:
  assumes "n < 2 ^ 64" "oid_head n = (a, b)"
  shows "valid_oid ns \<and> oid_contents ns = base128 n @ rest \<longleftrightarrow>
    (\<exists>zs. ns = a # b # zs \<and> rest = concat (map base128 zs) \<and> (\<forall>z \<in> set zs. z < 2 ^ 64))"
proof
  assume v: "valid_oid ns \<and> oid_contents ns = base128 n @ rest"
  then obtain x y zs where xy: "ns = x # y # zs" by (cases ns rule: valid_oid.cases) auto
  have "b_base128 0 (base128 n @ rest) = Some (n, rest)" using assms(1) by (simp add: b_base128_iff)
  moreover have "b_base128 0 (oid_contents ns) = Some (40 * x + y, concat (map base128 zs))"
    using v by (simp add: xy b_base128_iff)
  ultimately have "40 * x + y = n" "rest = concat (map base128 zs)" using v by simp_all
  moreover have "oid_head n = (x, y)" using oid_head_unique [OF assms(1), of x y] v xy calculation(1) by simp
  ultimately show "\<exists>zs. ns = a # b # zs \<and> rest = concat (map base128 zs) \<and> (\<forall>z \<in> set zs. z < 2 ^ 64)"
    using assms(2) xy v by simp
next
  assume "\<exists>zs. ns = a # b # zs \<and> rest = concat (map base128 zs) \<and> (\<forall>z \<in> set zs. z < 2 ^ 64)"
  then show "valid_oid ns \<and> oid_contents ns = base128 n @ rest"
    using oid_head_unique [OF assms(1), of a b] assms(2) by auto
qed

text \<open>The loop over the remaining components and the terminating zero byte, behind what is already printed.\<close>

definition print_rest :: "heap \<Rightarrow> CBS \<Rightarrow> CBB \<Rightarrow> bool \<times> CBB" where
  "print_rest hp copy = cbb_then (oid_text_loop hp copy) (CBB_add_u8 hp 0 0)"

lemma print_rest_spec:
  assumes hp: "\<forall>k. hp_serves hp k" and copy: "wf_cbs copy" "c_len copy < 2 ^ 58"
    and c1: "adds (cbb_init buf True) front c1" "length front \<le> 41" "length buf < 2 ^ 64"
    and run: "print_rest hp copy c1 = (ok, c3)"
  shows "ok \<and> fst (CBB_finish hp 0 True c3) = Some out \<longleftrightarrow>
    (\<exists>zs. view copy = concat (map base128 zs) \<and> (\<forall>z \<in> set zs. z < 2 ^ 64) \<and>
       out = front @ concat (map (\<lambda>n. 46 # decimal n) zs) @ [0])"
proof -
  let ?c0 = "cbb_init buf True" and ?dots = "\<lambda>zs. concat (map (\<lambda>n. 46 # decimal n) zs)"
  have wf: "wf_cbb ?c0" using c1(3) by (rule wf_cbb_init)
  have room: "ample hp k (cb_base ?c0)" if "k < 2 ^ 64" for k using hp that by (simp add: ample_def cbb_init_def)
  have wf1: "wf_cbb c1" "length (cb_chain c1) = 0" "\<not> bb_error (cb_base c1)"
    using c1(1) by (simp_all add: adds_def cbb_init_def)
  obtain ok2 c2 where w2: "oid_text_loop hp copy c1 = (ok2, c2)" by fastforce
  note L = oid_printer.transcribes [OF copy(1) wf1 w2]
  have len: "length (front @ ?dots zs) + 1 < 2 ^ 64"
    if "view copy = concat (map base128 zs)" "\<forall>z \<in> set zs. z < 2 ^ 64" for zs
  proof -
    have "length zs \<le> c_len copy" using length_base128_list [of zs] length_view [OF copy(1)] that(1) by simp
    then show ?thesis using length_concat_decimal [OF that(2)] c1(2) copy(2) by simp
  qed
  have finished: "ok \<and> fst (CBB_finish hp 0 True c3) = Some (front @ ?dots zs @ [0])"
    if zs: "view copy = concat (map base128 zs)" "\<forall>z \<in> set zs. z < 2 ^ 64" "adds c1 (?dots zs) c2" and ok2 for zs
  proof -
    have adds2: "adds ?c0 (front @ ?dots zs) c2" by (rule adds_trans [OF c1(1) zs(3)])
    have wf2: "wf_cbb c2" "length (cb_chain c2) = 0" "\<not> bb_error (cb_base c2)"
      using adds2 by (simp_all add: adds_def cbb_init_def)
    obtain ok3 c4 where w3: "CBB_add_u8 hp 0 0 c2 = (ok3, c4)" by fastforce
    have "ample hp 1 (cb_base c2)" using len [OF zs(1,2)] by (intro adds_ample [OF wf adds2] room)
    then have ok3: ok3 using appends_adds(2) [OF CBB_add_u8_appends wf2 w3] by simp
    have "adds ?c0 ((front @ ?dots zs) @ [0]) c4"
      by (rule adds_trans [OF adds2 appends_adds(1) [OF CBB_add_u8_appends wf2 w3 ok3]])
    then show ?thesis using finish_adds run w2 w3 ok3 \<open>ok2\<close> by (simp add: print_rest_def cbb_then_def)
  qed
  show ?thesis
  proof
    assume a: "ok \<and> fst (CBB_finish hp 0 True c3) = Some out"
    then have ok2 using run w2 by (auto simp: print_rest_def cbb_then_def split: if_splits)
    then obtain zs where zs: "view copy = concat (map base128 zs)" "\<forall>z \<in> set zs. z < 2 ^ 64" "adds c1 (?dots zs) c2"
      using L by blast
    then show "\<exists>zs. view copy = concat (map base128 zs) \<and> (\<forall>z \<in> set zs. z < 2 ^ 64) \<and> out = front @ ?dots zs @ [0]"
      using finished [OF zs \<open>ok2\<close>] a by auto
  next
    assume "\<exists>zs. view copy = concat (map base128 zs) \<and> (\<forall>z \<in> set zs. z < 2 ^ 64) \<and> out = front @ ?dots zs @ [0]"
    then obtain zs where zs: "view copy = concat (map base128 zs)" "\<forall>z \<in> set zs. z < 2 ^ 64" "out = front @ ?dots zs @ [0]"
      by blast
    have "ample hp (length (?dots zs)) (cb_base c1)"
      using len [OF zs(1,2)] by (intro adds_ample [OF wf c1(1)] room) simp
    then have ok2: ok2 using L zs(1,2) by blast
    then obtain zs' where zs': "view copy = concat (map base128 zs')" "\<forall>z \<in> set zs'. z < 2 ^ 64" "adds c1 (?dots zs') c2"
      using L by blast
    have "zs' = zs" using base128_list_inj [of zs' zs] zs zs' by simp
    then show "ok \<and> fst (CBB_finish hp 0 True c3) = Some out" using finished [OF zs' ok2] zs(3) by simp
  qed
qed

text \<open>
  C35. CBS_asn1_oid_to_text, with memory served, returns a text exactly for the windows that hold the
  DER contents of an object identifier, and it is the identifier's dotted decimal form with a
  terminating zero byte.
\<close>

theorem oid_to_text_exact:
  assumes "\<forall>k. hp_serves hp k" "wf_cbs c" "c_len c < 2 ^ 58"
  shows "CBS_asn1_oid_to_text hp c = Some t \<longleftrightarrow>
    (\<exists>ns. valid_oid ns \<and> view c = oid_contents ns \<and> t = dotted ns @ [0])"
proof -
  let ?c0 = "cbb_init (fresh_bytes hp 32) True"
  have init: "CBB_init hp 32 = Some ?c0" using assms(1) by (simp add: CBB_init_def)
  have wf: "wf_cbb ?c0" "length (cb_chain ?c0) = 0" "\<not> bb_error (cb_base ?c0)"
    by (intro wf_cbb_init) (simp_all add: cbb_init_def)
  obtain r copy where p: "parse_base128_integer c = (r, copy)" by fastforce
  note P = reads_asD [OF parse_base128_integer_reads assms(2) p]
  show ?thesis
  proof (cases "b_base128 0 (view c)")
    case None
    then have "CBS_asn1_oid_to_text hp c = None" using P(3) p init by (simp add: CBS_asn1_oid_to_text_def)
    moreover have "\<exists>n rest. b_base128 0 (oid_contents ns) = Some (n, rest)" if v: "valid_oid ns" for ns
    proof -
      obtain x y zs where ns: "ns = x # y # zs" using v by (cases ns rule: valid_oid.cases) auto
      have "b_base128 0 (oid_contents ns) = Some (40 * x + y, concat (map base128 zs))"
        using v by (simp add: ns b_base128_iff)
      then show ?thesis by blast
    qed
    ultimately show ?thesis using None by fastforce
  next
    case (Some nr)
    obtain n rest where nr: "nr = (n, rest)" by (cases nr)
    obtain v where v: "r = Some v" "unat v = n" "view copy = rest" using P(4) Some nr by blast
    have n: "n < 2 ^ 64" "view c = base128 n @ rest" using Some nr by (simp_all add: b_base128_iff)
    obtain a b where ab: "oid_head n = (a, b)" by fastforce
    have "a \<le> 2 \<and> (a < 2 \<longrightarrow> b \<le> 39) \<and> b \<le> 2 ^ 64 - 1 - 80 \<and> 40 * a + b = n"
      using oid_head_unique [OF n(1)] ab by blast
    then have short: "length (decimal a) \<le> 20" "length (decimal b) \<le> 20" by (intro length_decimal; simp)+
    obtain ok1 c1 where w1: "print_head hp v ?c0 = (ok1, c1)" by fastforce
    have "appends hp 0 (decimal a @ 46 # decimal b) True (print_head hp v)" using print_head_appends ab v(2) by blast
    note A = appends_adds [OF this wf w1]
    have "ample hp (length (decimal a @ 46 # decimal b)) (cb_base ?c0)"
      using assms(1) short by (simp add: ample_def cbb_init_def)
    then have ok1: ok1 using A(2) by blast
    obtain ok c3 where w3: "print_rest hp copy c1 = (ok, c3)" by fastforce
    have copy: "c_len copy < 2 ^ 58" using P(2) assms(3) by simp
    have front: "length (decimal a @ 46 # decimal b) \<le> 41" using short by simp
    have "CBS_asn1_oid_to_text hp c = (if ok then fst (CBB_finish hp 0 True c3) else None)"
      using init p v(1) w1 ok1 w3 unfolding CBS_asn1_oid_to_text_def print_head_def [symmetric] print_rest_def
      by (simp add: cbb_then_def)
    then have "CBS_asn1_oid_to_text hp c = Some t \<longleftrightarrow> ok \<and> fst (CBB_finish hp 0 True c3) = Some t" by simp
    also have "\<dots> \<longleftrightarrow> (\<exists>zs. rest = concat (map base128 zs) \<and> (\<forall>z \<in> set zs. z < 2 ^ 64) \<and> t = dotted (a # b # zs) @ [0])"
      using print_rest_spec [OF assms(1) P(1) copy A(1) [OF ok1] front _ w3, of t] v(3) by (simp add: dotted_Cons)
    finally show ?thesis unfolding n(2) using oid_contents_parts [OF n(1) ab, of _ rest] by (metis (full_types))
  qed
qed

definition sample_oid :: bytes where
  "sample_oid = [49, 46, 50, 46, 56, 52, 48]"

lemma sample_oid_dotted: "sample_oid = dotted [1, 2, 840]" "valid_oid [1, 2, 840]" "oid_contents [1, 2, 840] = [42, 0x86, 0x48]"
  by code_simp+

theorem oid_from_text_exact_witness:
  "written \<lparr>hp_serves = \<lambda>k. True, hp_junk = \<lambda>i. 0\<rparr> 4
     (CBB_add_asn1_oid_from_text \<lparr>hp_serves = \<lambda>k. True, hp_junk = \<lambda>i. 0\<rparr> 0 sample_oid 7) = Some [42, 0x86, 0x48]"
proof -
  let ?hp = "\<lparr>hp_serves = \<lambda>k. True, hp_junk = \<lambda>i. 0\<rparr>"
  have hp: "\<forall>k. hp_serves ?hp k" by simp
  have len: "length sample_oid = 7" "length sample_oid < 2 ^ 60" by (simp_all add: sample_oid_def)
  have four: "(4 :: nat) < 2 ^ 64" by simp
  have "\<exists>ns. valid_oid ns \<and> sample_oid = dotted ns \<and> [42, 0x86, 0x48] = oid_contents ns"
    by (intro exI [of _ "[1, 2, 840]"] conjI sample_oid_dotted sample_oid_dotted(3) [symmetric])
  from oid_from_text_exact [OF hp four len(2), THEN iffD2, OF this] show ?thesis unfolding len(1) .
qed

theorem oid_to_text_exact_witness:
  "CBS_asn1_oid_to_text \<lparr>hp_serves = \<lambda>k. True, hp_junk = \<lambda>i. 0\<rparr> (CBS_init [42, 0x86, 0x48] 3) = Some (sample_oid @ [0])"
proof -
  let ?hp = "\<lparr>hp_serves = \<lambda>k. True, hp_junk = \<lambda>i. 0\<rparr>" and ?c = "CBS_init [42, 0x86, 0x48] 3"
  have hp: "\<forall>k. hp_serves ?hp k" by simp
  have wf: "wf_cbs ?c" by simp
  have len: "c_len ?c < 2 ^ 58" by (simp add: CBS_init_def)
  have "view ?c = [42, 0x86, 0x48]" by simp
  then have "view ?c = oid_contents [1, 2, 840]" by (simp only: sample_oid_dotted(3))
  moreover have "sample_oid @ [0] = dotted [1, 2, 840] @ [0]" by (simp only: sample_oid_dotted(1))
  ultimately have "\<exists>ns. valid_oid ns \<and> view ?c = oid_contents ns \<and> sample_oid @ [0] = dotted ns @ [0]"
    using sample_oid_dotted(2) by blast
  then show ?thesis by (rule oid_to_text_exact [OF hp wf len, THEN iffD2])
qed

end
