(* ===== verification/Asn1_Set_Of.thy ===== *)
theory Asn1_Set_Of
  imports Asn1_Writers "HOL-Library.List_Lexorder"
begin

text \<open>
  CBB_flush_asn1_set_of: the elements in the contents of a CBB are brought into the order of their
  encodings, as DER wants for SET OF. The comparison of crypto/bytestring/cbb.c is the lexicographic
  order of byte strings, so that the result is the sorted permutation.
\<close>

subsection \<open>The order\<close>

lemma memcmp_sign_Cons:
  "memcmp_sign (x # a) (y # b) = (if x \<noteq> y then if x < y then - 1 else 1 else memcmp_sign a b)"
  by (simp add: memcmp_sign_def)

lemma compare_set_of_element_Cons:
  "compare_set_of_element (x # a) (y # b) =
     (if x \<noteq> y then if x < y then - 1 else 1 else compare_set_of_element a b)"
  by (simp add: compare_set_of_element_def memcmp_sign_Cons Let_def)

lemma compare_set_of_element_le: "compare_set_of_element a b \<le> 0 \<longleftrightarrow> a \<le> b"
proof (induction a arbitrary: b)
  case Nil
  then show ?case by (cases b) (simp_all add: compare_set_of_element_def memcmp_sign_def)
next
  case (Cons x a)
  show ?case
  proof (cases b)
    case Nil
    then show ?thesis by (simp add: compare_set_of_element_def memcmp_sign_def)
  next
    case (Cons y b')
    then show ?thesis using Cons.IH [of b'] by (auto simp: compare_set_of_element_Cons)
  qed
qed

lemma insert_element_insort: "insert_element x xs = insort x xs"
  by (induction xs) (simp_all add: compare_set_of_element_le)

lemma qsort_elements_sort: "qsort_elements es = sort es"
proof -
  have "insert_element = insort" by (intro ext) (rule insert_element_insort)
  then show ?thesis by (simp add: qsort_elements_def sort_key_def)
qed

subsection \<open>The elements\<close>

definition is_element :: "bytes \<Rightarrow> bool" where
  "is_element e \<longleftrightarrow> (\<exists>t cs. length cs < 2 ^ 32 \<and> e = der_element t cs)"

lemma get_element_view:
  assumes "wf_cbs c"
  shows "(\<exists>child t hl c'. CBS_get_any_asn1_element c = (Some (child, t, hl), c') \<and> is_element (view child) \<and> wf_cbs child \<and>
       view c = view child @ view c' \<and> wf_cbs c' \<and> c_len c' < c_len c) \<or>
    ((\<exists>c'. CBS_get_any_asn1_element c = (None, c')) \<and> (\<forall>e rest. is_element e \<longrightarrow> view c \<noteq> e @ rest))"
proof -
  obtain r c' where p: "CBS_get_any_asn1_element c = (r, c')" by fastforce
  note R = reads_asD [OF CBS_get_any_asn1_element_reads assms p]
  show ?thesis
  proof (cases "b_der (view c)")
    case None
    have "view c \<noteq> e @ rest" if "is_element e" for e rest
    proof
      assume "view c = e @ rest"
      moreover obtain t cs where "length cs < 2 ^ 32" "e = der_element t cs" using \<open>is_element e\<close> by (auto simp: is_element_def)
      ultimately have "b_der (view c) = Some ((t, cs), rest)" by (simp add: b_der_iff)
      then show False using None by simp
    qed
    then show ?thesis using R(3) [OF None] p by blast
  next
    case (Some x)
    obtain t cs rest where x: "x = ((t, cs), rest)" by (metis prod.exhaust)
    then obtain child hl where res: "r = Some (child, t, hl)" "shows_bytes child (der_element t cs)" "view c' = rest"
      using R(4) [of "(t, cs)" rest] Some by auto
    have e: "length cs < 2 ^ 32" "view c = der_element t cs @ rest" using Some x by (simp_all add: b_der_iff)
    have "0 < length (der_element t cs)" by (simp add: der_element_def der_tag_nonempty)
    moreover have "c_len c = length (der_element t cs) + c_len c'"
      using e(2) res(3) by (simp flip: length_view [OF assms] length_view [OF R(1)])
    ultimately have "c_len c' < c_len c" by linarith
    moreover have "view child = der_element t cs" "wf_cbs child" using res(2) by (simp_all add: shows_bytes_def)
    moreover have "is_element (der_element t cs)" using e(1) unfolding is_element_def by blast
    ultimately show ?thesis
      using p res(1,3) e(2) R(1)
      by (intro disjI1 exI [of _ child] exI [of _ t] exI [of _ hl] exI [of _ c']) simp
  qed
qed

lemma element_prefix:
  assumes "is_element e" "is_element e'" "e @ r = e' @ r'"
  shows "e = e' \<and> r = r'"
proof -
  obtain t cs t' cs' where e: "length cs < 2 ^ 32" "e = der_element t cs" "length cs' < 2 ^ 32" "e' = der_element t' cs'"
    using assms(1,2) by (auto simp: is_element_def)
  have "b_der (e @ r) = Some ((t, cs), r)" "b_der (e' @ r') = Some ((t', cs'), r')" using e by (simp_all add: b_der_iff)
  then have "((t, cs), r) = ((t', cs'), r')" using assms(3) by (metis option.inject)
  then show ?thesis using e by simp
qed

lemma element_nonempty: "is_element e \<Longrightarrow> e \<noteq> []"
  by (auto simp: is_element_def der_element_def der_tag_nonempty)

lemma split_elements_Some:
  "wf_cbs c \<Longrightarrow> c_len c \<le> n \<Longrightarrow>
   split_elements n c = Some es \<longleftrightarrow> (\<forall>e \<in> set es. is_element e) \<and> view c = concat es"
proof (induction n arbitrary: c es)
  case 0
  then have "CBS_len c = 0" "view c = []" by (simp_all add: CBS_len_def view_def)
  then show ?case using element_nonempty by (subst split_elements.simps) (auto simp: eq_commute [of "[]"] concat_eq_Nil_conv)
next
  case (Suc n)
  show ?case
  proof (cases "CBS_len c = 0")
    case True
    then have "view c = []" by (simp add: CBS_len_def view_def)
    then show ?thesis using True element_nonempty
      by (subst split_elements.simps) (auto simp: eq_commute [of "[]"] concat_eq_Nil_conv)
  next
    case False
    then have some: "view c \<noteq> []" using length_view [OF Suc.prems(1)] by (auto simp: CBS_len_def)
    from get_element_view [OF Suc.prems(1)] show ?thesis
    proof (elim disjE exE conjE)
      fix child t hl c'
      assume g: "CBS_get_any_asn1_element c = (Some (child, t, hl), c')" "is_element (view child)" "wf_cbs child"
        "view c = view child @ view c'" "wf_cbs c'" "c_len c' < c_len c"
      have take: "take (CBS_len child) (CBS_data child) = view child" by (simp add: CBS_len_def CBS_data_def view_def)
      have "split_elements (Suc n) c = map_option (Cons (view child)) (split_elements n c')"
        using False g(1) by (subst split_elements.simps) (simp add: take)
      moreover have "split_elements n c' = Some es' \<longleftrightarrow> (\<forall>e \<in> set es'. is_element e) \<and> view c' = concat es'" for es'
        using Suc.IH [OF g(5)] g(6) Suc.prems(2) by simp
      ultimately have "split_elements (Suc n) c = Some es \<longleftrightarrow>
          (\<exists>es'. es = view child # es' \<and> (\<forall>e \<in> set es'. is_element e) \<and> view c' = concat es')" by auto
      also have "\<dots> \<longleftrightarrow> (\<forall>e \<in> set es. is_element e) \<and> view c = concat es"
      proof
        assume a: "(\<forall>e \<in> set es. is_element e) \<and> view c = concat es"
        then obtain e es' where es: "es = e # es'" using some by (cases es) auto
        have "view child = e \<and> view c' = concat es'" using a g(2,4) by (intro element_prefix) (simp_all add: es)
        then show "\<exists>es'. es = view child # es' \<and> (\<forall>e \<in> set es'. is_element e) \<and> view c' = concat es'"
          using a es by simp
      qed (use g(2,4) in auto)
      finally show ?thesis .
    next
      fix c' assume g: "\<forall>e rest. is_element e \<longrightarrow> view c \<noteq> e @ rest" "CBS_get_any_asn1_element c = (None, c')"
      then have "split_elements (Suc n) c = None" using False by (subst split_elements.simps) simp
      moreover have "\<not> ((\<forall>e \<in> set es. is_element e) \<and> view c = concat es)"
      proof
        assume a: "(\<forall>e \<in> set es. is_element e) \<and> view c = concat es"
        then obtain e es' where es: "es = e # es'" using some by (cases es) auto
        then have "is_element e" "view c = e @ concat es'" using a by simp_all
        then show False using g(1) by blast
      qed
      ultimately show ?thesis by simp
    qed
  qed
qed

subsection \<open>Rewriting the contents\<close>

lemma add_elements_appends:
  "length (concat es) < 2 ^ 64 \<Longrightarrow> appends hp d (concat es) True (add_elements hp d es)"
proof (induction es)
  case (Cons e es)
  then have "appends hp d e True (CBB_add_bytes hp d e)" "appends hp d (concat es) True (add_elements hp d es)"
    by (simp_all add: CBB_add_bytes_appends)
  from appends_then [OF this] show ?case by simp
qed (simp add: appends_return)

lemma sort_short: "length xs < 2 \<Longrightarrow> sort xs = xs"
proof (cases xs)
  case (Cons x ys)
  assume "length xs < 2"
  then show ?thesis using Cons by simp
qed simp

lemma cbb_start_le:
  assumes "wf_cbb cbb" "length (cb_chain cbb) = d"
  shows "cbb_start d cbb \<le> bb_len (cb_base cbb)" "chain_ok 0 (cb_chain cbb) (cbb_start d cbb)"
proof -
  have "cbb_start d cbb \<le> bb_len (cb_base cbb) \<and> chain_ok 0 (cb_chain cbb) (cbb_start d cbb)"
  proof (cases "cb_chain cbb" rule: rev_cases)
    case Nil
    then show ?thesis using assms(2) by (simp add: cbb_start_def)
  next
    case (snoc ps p)
    then have "cbb_start d cbb = pd_offset p + pd_len_len p" using assms(2) by (auto simp: cbb_start_def nth_append)
    then show ?thesis using assms(1) by (simp add: wf_cbb_def snoc chain_ok_snoc)
  qed
  then show "cbb_start d cbb \<le> bb_len (cb_base cbb)" "chain_ok 0 (cb_chain cbb) (cbb_start d cbb)" by blast+
qed

lemma length_concat_elements: "\<forall>e \<in> set es. is_element e \<Longrightarrow> length es \<le> length (concat es)"
proof (induction es)
  case (Cons e es)
  then have "1 \<le> length e" using element_nonempty [of e] by (cases e) auto
  then show ?case using Cons by simp
qed simp

lemma length_concat_sort: "length (concat (sort es)) = length (concat (es :: bytes list))"
proof -
  have "length (concat (insort e es)) = length e + length (concat es)" for e :: bytes and es
    by (induction es) auto
  then show ?thesis by (induction es) simp_all
qed

text \<open>The buffer cut off at the start of the contents and filled again.\<close>

lemma contents_rewritten:
  assumes wf: "wf_cbb cbb" "length (cb_chain cbb) = d" "\<not> bb_error (cb_base cbb)"
    and es: "drop (cbb_start d cbb) (valid_bytes (cb_base cbb)) = concat es"
    and run: "add_elements hp d (qsort_elements es) (cbb\<lparr>cb_base := (cb_base cbb)\<lparr>bb_len := cbb_start d cbb\<rparr>\<rparr>) = (ok, cbb')"
  shows "ok \<and> wf_cbb cbb' \<and> cb_chain cbb' = cb_chain cbb \<and>
    valid_bytes (cb_base cbb') = take (cbb_start d cbb) (valid_bytes (cb_base cbb)) @ concat (sort es)"
proof -
  let ?base = "cb_base cbb" and ?start = "cbb_start d cbb"
  let ?rewound = "cbb\<lparr>cb_base := ?base\<lparr>bb_len := ?start\<rparr>\<rparr>"
  note start = cbb_start_le [OF wf(1,2)]
  have wfb: "wf_base ?base" using wf(1) by (simp add: wf_cbb_def)
  have len: "length (concat (sort es)) = bb_len ?base - ?start"
    unfolding length_concat_sort es [symmetric] using wfb by simp
  have "length (concat (sort es)) < 2 ^ 64" using wfb unfolding len wf_base_def by linarith
  from add_elements_appends [OF this, of hp d]
  have w: "appends hp d (concat (sort es)) True (add_elements hp d (qsort_elements es))" by (simp add: qsort_elements_sort)
  have wf': "wf_cbb ?rewound" using start wfb by (simp add: wf_cbb_def wf_base_def)
  have r: "length (cb_chain ?rewound) = d" "\<not> bb_error (cb_base ?rewound)" using wf(2,3) by simp_all
  note A = appendsD [OF w wf' r run]
  have "ample hp (length (concat (sort es))) (cb_base ?rewound)"
    using start(1) wfb by (simp add: ample_def len wf_base_def)
  then have ok: ok using A(5) by simp
  have "valid_bytes (cb_base ?rewound) = take ?start (valid_bytes ?base)"
    using start(1) by (simp add: valid_bytes_def min_absorb1)
  then show ?thesis using A(1,3) ok by simp
qed

text \<open>
  C36. CBB_flush_asn1_set_of on a CBB without pending children, with memory served: it succeeds
  exactly when the contents are a sequence of DER elements, and then the contents become the same
  elements in the lexicographic order of their encodings, without growing; otherwise nothing changes.
\<close>

theorem set_of_sorted:
  assumes "wf_cbb cbb" "length (cb_chain cbb) = d" "\<not> bb_error (cb_base cbb)" "\<forall>k. hp_serves hp k"
    "bb_len (cb_base cbb) < 2 ^ 60" "drop (cbb_start d cbb) (valid_bytes (cb_base cbb)) = contents"
    "CBB_flush_asn1_set_of hp d cbb = (ok, cbb')"
  shows "(ok \<longleftrightarrow> (\<exists>es. (\<forall>e \<in> set es. is_element e) \<and> contents = concat es)) \<and> (ok \<or> cbb' = cbb) \<and>
    (\<forall>es. (\<forall>e \<in> set es. is_element e) \<longrightarrow> contents = concat es \<longrightarrow>
       wf_cbb cbb' \<and> cb_chain cbb' = cb_chain cbb \<and>
       valid_bytes (cb_base cbb') = take (cbb_start d cbb) (valid_bytes (cb_base cbb)) @ concat (sort es))"
proof -
  let ?base = "cb_base cbb" and ?start = "cbb_start d cbb"
  note start = cbb_start_le [OF assms(1,2)]
  have wfb: "wf_base ?base" using assms(1) by (simp add: wf_cbb_def)
  let ?n = "CBB_len d cbb"
  let ?c = "CBS_init (CBB_data d cbb) ?n"
  have n: "?n = bb_len ?base - ?start" by (simp add: CBB_len_def)
  have view: "view ?c = contents"
    using assms(6) by (simp add: CBB_data_def n valid_bytes_def drop_take)
  have wfc: "wf_cbs ?c" using wfb start(1) assms(5) by (simp add: CBB_data_def n wf_base_def) linarith
  have len: "length contents = ?n" using wfb by (simp add: n flip: assms(6))
  note split = split_elements_Some [OF wfc, of ?n, unfolded view]
  have split_iff: "split_elements ?n ?c = Some es \<longleftrightarrow> (\<forall>e \<in> set es. is_element e) \<and> contents = concat es" for es
    by (rule split) (simp add: CBS_init_def)
  have fl: "CBB_flush hp d cbb = (True, cbb)" using assms(2,3) by (rule flush_none)
  show ?thesis
  proof (cases "split_elements ?n ?c")
    case None
    then have "\<not> ok" "cbb' = cbb" using assms(7) fl by (simp_all add: CBB_flush_asn1_set_of_def cbb_then_def Let_def)
    then show ?thesis using None split_iff by auto
  next
    case (Some es)
    then have es: "\<forall>e \<in> set es. is_element e" "contents = concat es" using split_iff by blast+
    have unique: "es' = es" if "\<forall>e \<in> set es'. is_element e" "contents = concat es'" for es'
      using that Some split_iff [of es'] by simp
    have size: "length (concat es) < 2 ^ 60" "length es < 2 ^ 60"
      using es len n assms(5) length_concat_elements [OF es(1)] by auto
    have "ok \<and> wf_cbb cbb' \<and> cb_chain cbb' = cb_chain cbb \<and>
        valid_bytes (cb_base cbb') = take ?start (valid_bytes ?base) @ concat (sort es)"
    proof (cases "length es < 2")
      case True
      then have "ok" "cbb' = cbb" using assms(7) fl Some by (simp_all add: CBB_flush_asn1_set_of_def cbb_then_def Let_def)
      then show ?thesis using assms(1,6) es(2) sort_short [OF True] append_take_drop_id [of ?start "valid_bytes ?base"] by simp
    next
      case False
      then have run: "add_elements hp d (qsort_elements es) (cbb\<lparr>cb_base := ?base\<lparr>bb_len := ?start\<rparr>\<rparr>) = (ok, cbb')"
        using assms(4,7) fl Some size(2) by (simp add: CBB_flush_asn1_set_of_def cbb_then_def Let_def)
      have "drop ?start (valid_bytes ?base) = concat es" using assms(6) es(2) by simp
      from contents_rewritten [OF assms(1-3) this run] show ?thesis .
    qed
    then show ?thesis using es unique by blast
  qed
qed

theorem set_of_sorted_witness:
  "\<exists>cbb'. CBB_flush_asn1_set_of \<lparr>hp_serves = \<lambda>k. True, hp_junk = \<lambda>i. 0\<rparr> 0
      (cbb_init [4, 1, 9, 2, 1, 7] False\<lparr>cb_base := \<lparr>bb_buf = [4, 1, 9, 2, 1, 7], bb_len = 6, bb_can_resize = False, bb_error = False\<rparr>\<rparr>) =
      (True, cbb') \<and> valid_bytes (cb_base cbb') = [2, 1, 7, 4, 1, 9]"
proof -
  let ?hp = "\<lparr>hp_serves = \<lambda>k. True, hp_junk = \<lambda>i. 0\<rparr>"
  let ?cbb = "cbb_init [4, 1, 9, 2, 1, 7] False\<lparr>cb_base :=
      \<lparr>bb_buf = [4, 1, 9, 2, 1, 7], bb_len = 6, bb_can_resize = False, bb_error = False\<rparr>\<rparr>"
  obtain ok cbb' where run: "CBB_flush_asn1_set_of ?hp 0 ?cbb = (ok, cbb')" by fastforce
  have wf: "wf_cbb ?cbb" by (simp add: cbb_init_def wf_cbb_def wf_base_def)
  have d: "length (cb_chain ?cbb) = 0" "\<not> bb_error (cb_base ?cbb)" by (simp_all add: cbb_init_def)
  have hp: "\<forall>k. hp_serves ?hp k" by simp
  have len: "bb_len (cb_base ?cbb) < 2 ^ 60" by simp
  have data: "drop (cbb_start 0 ?cbb) (valid_bytes (cb_base ?cbb)) = [4, 1, 9, 2, 1, 7]"
    by (simp add: cbb_start_def valid_bytes_def)
  have "is_element [4, 1, 9]" "is_element [2, 1, 7]"
    unfolding is_element_def
    by (rule exI [of _ 4], rule exI [of _ "[9]"], simp add: der_element_def der_tag_def der_length_def)
      (rule exI [of _ 2], rule exI [of _ "[7]"], simp add: der_element_def der_tag_def der_length_def)
  then have es: "\<forall>e \<in> set [[4, 1, 9], [2, 1, 7]]. is_element e" by simp
  have cat: "[4, 1, 9, 2, 1, 7] = concat [[4, 1, 9], [2, 1, 7 :: u8]]" by simp
  note S = set_of_sorted [OF wf d hp len data run]
  have "ok" using S es cat by blast
  moreover have "valid_bytes (cb_base cbb') =
      take (cbb_start 0 ?cbb) (valid_bytes (cb_base ?cbb)) @ concat (sort [[4, 1, 9], [2, 1, 7]])"
    using S es cat by blast
  moreover have "sort [[4, 1, 9], [2, 1, 7 :: u8]] = [[2, 1, 7], [4, 1, 9]]" by (simp add: word_less_nat_alt)
  ultimately show ?thesis using run by (simp add: cbb_start_def)
qed

end
