(* ===== verification/Cbb_Failure.thy ===== *)
theory Cbb_Failure
  imports Asn1_Oid Asn1_Set_Of
begin

text \<open>
  What a failed call leaves behind. Every operation of crypto/bytestring/cbb.c that goes through
  cbb_buffer_add, cbb_buffer_reserve, cbb_buffer_add_u or CBB_flush sets \<open>error\<close> when it fails
  on a live CBB, and from then on the CBB yields nothing. Three operations can fail without setting it:
  CBB_did_write, CBB_add_asn1_oid_from_text on malformed text, and CBB_flush_asn1_set_of on contents
  that are not a series of elements.
\<close>

subsection \<open>Failures that set the error flag\<close>

lemma CBB_add_space_fails:
  assumes wf: "wf_cbb c" and n: "n < 2 ^ 64" and d: "d \<le> length (cb_chain c)"
    and run: "CBB_add_space hp d n c = (False, c1)"
  shows "wf_cbb c1 \<and> bb_error (cb_base c1)"
proof -
  obtain ok1 c2 where fl: "CBB_flush hp d c = (ok1, c2)" by fastforce
  note F = CBB_flush_facts [OF wf fl, unfolded flush_facts_def]
  have "bb_error (cb_base c1)"
  proof (cases ok1)
    case False
    then have "c1 = c2" using run fl by (simp add: CBB_add_space_def flushed_def)
    then show ?thesis using F False d by auto
  next
    case True
    obtain b where b: "cbb_buffer_add hp n (cb_base c2) = (False, b)" "c1 = c2\<lparr>cb_base := b\<rparr>"
      using run fl True by (auto simp: CBB_add_space_def flushed_def on_base_def split: prod.splits)
    have "wf_base (cb_base c2)" using F by (simp add: wf_cbb_def)
    from add_spec [OF this n b(1)] show ?thesis by (simp add: b(2))
  qed
  then show ?thesis using CBB_add_space_wf [OF wf n run] by blast
qed

lemma CBB_add_asn1_flushes:
  "CBB_add_asn1 hp d t c = (case CBB_flush hp d c of (ok, c2) \<Rightarrow> if ok then CBB_add_asn1 hp d t c2 else (False, c2))"
  if "wf_cbb c"
proof -
  obtain ok c2 where fl: "CBB_flush hp d c = (ok, c2)" by fastforce
  note F = CBB_flush_facts [OF that fl, unfolded flush_facts_def]
  have "CBB_flush hp d c2 = (True, c2)" if ok
    using F that by (intro flush_none) auto
  then show ?thesis using fl by (auto simp: CBB_add_asn1_eq flushed_def)
qed

text \<open>An element written in one call: whichever step fails, the flag is set.\<close>

lemma asn1_value_fails:
  assumes w: "appends hp d bs P (cbb_then (CBB_add_asn1 hp d t) w)"
    and wf: "wf_cbb c" and d: "d \<le> length (cb_chain c)"
    and run: "cbb_then (CBB_add_asn1 hp d t) w c = (False, c1)"
  shows "wf_cbb c1 \<and> bb_error (cb_base c1)"
proof -
  obtain ok c2 where fl: "CBB_flush hp d c = (ok, c2)" by fastforce
  note F = CBB_flush_facts [OF wf fl, unfolded flush_facts_def]
  show ?thesis
  proof (cases ok)
    case False
    then have "c1 = c2" using run fl by (simp add: cbb_then_def CBB_add_asn1_flushes [OF wf, of hp d t])
    then show ?thesis using F False d by auto
  next
    case True
    then have "cbb_then (CBB_add_asn1 hp d t) w c2 = (False, c1)"
      using run fl by (simp add: cbb_then_def CBB_add_asn1_flushes [OF wf, of hp d t])
    moreover have "wf_cbb c2" "length (cb_chain c2) = d" "\<not> bb_error (cb_base c2)" using F True d by auto
    ultimately show ?thesis using appendsD(1,4) [OF w] by blast
  qed
qed

lemmas asn1_value_writers = CBB_add_asn1_uint64_def CBB_add_asn1_int64_def CBB_add_asn1_octet_string_def
  CBB_add_asn1_bool_def

lemma CBB_add_asn1_uint64_fails:
  assumes "wf_cbb c" "d \<le> length (cb_chain c)" "CBB_add_asn1_uint64 hp d v c = (False, c1)"
  shows "wf_cbb c1 \<and> bb_error (cb_base c1)"
  using asn1_value_fails [OF _ assms(1,2)] assms(3) CBB_add_asn1_uint64_appends [where hp = hp and d = d and v = v]
  unfolding CBB_add_asn1_uint64_def by blast

lemma CBB_add_asn1_int64_fails:
  assumes "wf_cbb c" "d \<le> length (cb_chain c)" "CBB_add_asn1_int64 hp d v c = (False, c1)"
  shows "wf_cbb c1 \<and> bb_error (cb_base c1)"
proof (cases "0 \<le> sint v")
  case True
  then show ?thesis using CBB_add_asn1_uint64_fails [OF assms(1,2)] assms(3) by (simp add: CBB_add_asn1_int64_def)
next
  case False
  have e: "CBB_add_asn1_int64 hp d v = (let u = le_bytes 8 (unat v); start = skip_sign_bytes u 7 in
      cbb_then (CBB_add_asn1 hp d CBS_ASN1_INTEGER)
        (cbb_then (emit_down hp (Suc d) u (Suc start)) (CBB_flush hp d)))"
    using False by (simp add: CBB_add_asn1_int64_def)
  show ?thesis
    using asn1_value_fails [OF _ assms(1,2)] assms(3) CBB_add_asn1_int64_appends [where hp = hp and d = d and v = v]
    unfolding e Let_def by blast
qed

lemma CBB_add_asn1_octet_string_fails:
  assumes "wf_cbb c" "d \<le> length (cb_chain c)" "length data < 2 ^ 64"
    "CBB_add_asn1_octet_string hp d data c = (False, c1)"
  shows "wf_cbb c1 \<and> bb_error (cb_base c1)"
  using asn1_value_fails [OF _ assms(1,2)] assms(4) CBB_add_asn1_octet_string_appends [OF assms(3), of hp d]
  unfolding CBB_add_asn1_octet_string_def by blast

lemma CBB_add_asn1_bool_fails:
  assumes "wf_cbb c" "d \<le> length (cb_chain c)" "CBB_add_asn1_bool hp d v c = (False, c1)"
  shows "wf_cbb c1 \<and> bb_error (cb_base c1)"
  using asn1_value_fails [OF _ assms(1,2)] assms(3) CBB_add_asn1_bool_appends [of hp d v]
  unfolding CBB_add_asn1_bool_def by blast

lemma perform_fails:
  assumes "wf_cbb c" "d \<le> length (cb_chain c)" "op_fits op" "perform hp d op c = (False, c1)"
  shows "wf_cbb c1 \<and> bb_error (cb_base c1)"
  using perform_facts [OF assms(1,3,4)] assms(2) by simp

subsection \<open>Calls on a CBB whose error flag is set\<close>

lemma flush_error: "bb_error (cb_base c) \<Longrightarrow> CBB_flush hp d c = (False, c)"
  by (simp add: CBB_flush.simps)

lemma writers_error:
  assumes "bb_error (cb_base c)"
  shows "CBB_add_space hp d n c = (False, c)" "CBB_add_asn1_uint64 hp d v c = (False, c)"
    "CBB_add_asn1_int64 hp d v c = (False, c)" "CBB_add_asn1_octet_string hp d data c = (False, c)"
    "CBB_add_asn1_bool hp d i c = (False, c)" "CBB_add_asn1_oid_from_text hp d str len c = (False, c)"
    "CBB_flush_asn1_set_of hp d c = (False, c)"
  using flush_error [OF assms, of hp d]
  by (simp_all add: asn1_value_writers CBB_add_space_def CBB_add_asn1_oid_from_text_def CBB_flush_asn1_set_of_def
      CBB_add_asn1_eq flushed_def cbb_then_def Let_def)

text \<open>
  The three that fail silently. An object identifier that is malformed after its second component
  leaves the components written so far, and CBB_finish hands them out.
\<close>

lemma did_write_failure_is_silent: "CBB_did_write d n c = (False, c1) \<Longrightarrow> c1 = c"
  by (auto simp: CBB_did_write_def Let_def split: if_splits)

lemma oid_text_failure_is_silent:
  "let c1 = snd (CBB_add_asn1_oid_from_text sample_heap 0 [49, 46, 50, 46, 120] 5 (cbb_init (replicate 9 0) False)) in
   fst (CBB_add_asn1_oid_from_text sample_heap 0 [49, 46, 50, 46, 120] 5 (cbb_init (replicate 9 0) False)) = False \<and>
   \<not> bb_error (cb_base c1) \<and> fst (CBB_finish sample_heap 0 True c1) = Some [42]"
  by code_simp

lemma set_of_failure_is_silent:
  "let c = snd (CBB_add_u8 sample_heap 0 0x30 (cbb_init (replicate 9 0) False)) in
   CBB_flush_asn1_set_of sample_heap 0 c = (False, c) \<and> \<not> bb_error (cb_base c)"
  by code_simp

text \<open>
  C33. The error flag is sticky. Let one of these calls on a live CBB fail: an operation of
  \<^const>\<open>perform\<close> (the byte and integer writers, CBB_add_zeros, the openers of length-prefixed
  and ASN.1 children, CBB_flush, CBB_reserve), CBB_add_space, or one of CBB_add_asn1_uint64,
  CBB_add_asn1_int64, CBB_add_asn1_octet_string and CBB_add_asn1_bool, the sizes being values of
  \<open>size_t\<close>. Then, whatever further calls are made, each of these operations fails and changes
  nothing, so do CBB_add_asn1_oid_from_text and CBB_flush_asn1_set_of, and CBB_finish returns nothing:
  truncated output cannot be obtained. CBB_discard_child, which cannot fail, is excepted. Nothing is
  claimed of a first failure of CBB_did_write, CBB_add_asn1_oid_from_text or CBB_flush_asn1_set_of,
  which need not set the flag (\<open>did_write_failure_is_silent\<close>,
  \<open>oid_text_failure_is_silent\<close>, \<open>set_of_failure_is_silent\<close>).
\<close>

theorem cbb_failure_sticks:
  assumes "wf_cbb c" "d \<le> length (cb_chain c)" "op_fits op" "n < 2 ^ 64" "length data < 2 ^ 64"
    "f \<in> {perform hp d op, CBB_add_space hp d n, CBB_add_asn1_uint64 hp d v, CBB_add_asn1_int64 hp d v,
       CBB_add_asn1_octet_string hp d data, CBB_add_asn1_bool hp d i}"
    "f c = (False, c1)" "cbb_reach hp c1 c2"
  shows "fst (CBB_finish hp 0 want c2) = None \<and> (\<forall>d' op'. op' = Discard \<or> perform hp d' op' c2 = (False, c2)) \<and>
    (\<forall>d' m v' data' i' str len. CBB_add_space hp d' m c2 = (False, c2) \<and>
       CBB_add_asn1_uint64 hp d' v' c2 = (False, c2) \<and> CBB_add_asn1_int64 hp d' v' c2 = (False, c2) \<and>
       CBB_add_asn1_octet_string hp d' data' c2 = (False, c2) \<and> CBB_add_asn1_bool hp d' i' c2 = (False, c2) \<and>
       CBB_add_asn1_oid_from_text hp d' str len c2 = (False, c2) \<and> CBB_flush_asn1_set_of hp d' c2 = (False, c2))"
proof -
  have "wf_cbb c1 \<and> bb_error (cb_base c1)"
    using assms(6,7) perform_fails [OF assms(1-3)] CBB_add_space_fails [OF assms(1,4,2)]
      CBB_add_asn1_uint64_fails [OF assms(1,2)] CBB_add_asn1_int64_fails [OF assms(1,2)]
      CBB_add_asn1_octet_string_fails [OF assms(1,2,5)] CBB_add_asn1_bool_fails [OF assms(1,2)] by blast
  then have err: "bb_error (cb_base c2)" "wf_cbb c2" using reach_facts [OF assms(8)] by blast+
  then have "fst (CBB_finish hp 0 want c2) = None"
    using CBB_finish_Some(2) [OF err(2)] by (cases "fst (CBB_finish hp 0 want c2)") auto
  then show ?thesis using perform_error [OF err(1)] writers_error [OF err(1)] by auto
qed

text \<open>An octet string that does not fit a fixed buffer, then a byte that would: both fail, and so does CBB_finish.\<close>

theorem cbb_failure_sticks_witness:
  "let c1 = snd (CBB_add_asn1_octet_string sample_heap 0 [1, 2, 3] (cbb_init (replicate 4 0) False));
       c2 = snd (perform sample_heap 0 (U8 1) c1) in
   fst (CBB_finish sample_heap 0 True c2) = None \<and> perform sample_heap 0 (U8 2) c2 = (False, c2)"
proof -
  let ?c = "cbb_init (replicate 4 0) False"
  let ?f = "CBB_add_asn1_octet_string sample_heap 0 [1, 2, 3]"
  have run: "?f ?c = (False, snd (?f ?c))" by code_simp
  have reach: "cbb_reach sample_heap (snd (?f ?c)) (snd (perform sample_heap 0 (U8 1) (snd (?f ?c))))"
    by (rule reach_perform [OF reach_here]) simp
  have wf: "wf_cbb ?c" by (simp add: wf_cbb_init)
  note sticks = cbb_failure_sticks [where c = ?c and d = 0 and op = Flush and n = 0 and data = "[1, 2, 3]" and
      f = ?f and hp = sample_heap and v = 0 and i = 0 and want = True, OF wf _ _ _ _ _ run reach]
  let ?c2 = "snd (perform sample_heap 0 (U8 1) (snd (?f ?c)))"
  have "fst (CBB_finish sample_heap 0 True ?c2) = None" by (rule conjunct1 [OF sticks]) simp_all
  moreover have "U8 2 = Discard \<or> perform sample_heap 0 (U8 2) ?c2 = (False, ?c2)"
    by (rule conjunct1 [OF conjunct2 [OF sticks], THEN spec, THEN spec]) simp_all
  ultimately show ?thesis by (simp only: Let_def cbb_op.distinct simp_thms)
qed

end
