(* ===== verification/Unicode.thy ===== *)
theory Unicode
  imports Cbb_Writers
begin

text \<open>
  Characters in the four encodings of ASN.1 strings: the readers and writers of
  crypto/bytestring/unicode.c for UTF-8, Latin-1, UCS-2 and UTF-32 (both big-endian). Each reader
  accepts exactly what the writer of the same encoding writes, for the code points it can encode.
\<close>

subsection \<open>Code points\<close>

definition is_valid_code_point :: "u32 \<Rightarrow> bool" where
  "is_valid_code_point v =
     (if 0x10ffff < v \<or> v AND 0xfffe = 0xfffe \<or> (0xfdd0 \<le> v \<and> v \<le> 0xfdef) \<or> (0xd800 \<le> v \<and> v \<le> 0xdfff)
      then False else True)"

text \<open>A byte with the bottom n bits set, and one with the top n bits set.\<close>

definition BOTTOM_BITS :: "nat \<Rightarrow> u8" where
  "BOTTOM_BITS n = ucast (push_bit n (1 :: u32) - 1)"

definition TOP_BITS :: "nat \<Rightarrow> u8" where
  "TOP_BITS n = NOT (BOTTOM_BITS (8 - n))"

subsection \<open>Readers\<close>

text \<open>The loop over the continuation bytes of a UTF-8 sequence.\<close>

fun utf8_loop :: "nat \<Rightarrow> u32 \<Rightarrow> u32 parser" where
  "utf8_loop 0 v = p_return v"
| "utf8_loop (Suc len) v = p_bind CBS_get_u8 (\<lambda>c.
     if c AND TOP_BITS 2 \<noteq> TOP_BITS 1 then p_fail
     else utf8_loop len (push_bit 6 v OR ucast (c AND BOTTOM_BITS 6)))"

definition utf8_tail :: "nat \<Rightarrow> u32 \<Rightarrow> u32 \<Rightarrow> u32 parser" where
  "utf8_tail len lower_bound v = p_bind (utf8_loop len v) (\<lambda>v.
     if \<not> is_valid_code_point v \<or> v < lower_bound then p_fail else p_return v)"

definition cbs_get_utf8 :: "u32 parser" where
  "cbs_get_utf8 = p_bind CBS_get_u8 (\<lambda>c.
     if c \<le> 0x7f then p_return (ucast c)
     else if c AND TOP_BITS 3 = TOP_BITS 2 then utf8_tail 1 0x80 (ucast (c AND BOTTOM_BITS 5))
     else if c AND TOP_BITS 4 = TOP_BITS 3 then utf8_tail 2 0x800 (ucast (c AND BOTTOM_BITS 4))
     else if c AND TOP_BITS 5 = TOP_BITS 4 then utf8_tail 3 0x10000 (ucast (c AND BOTTOM_BITS 3))
     else p_fail)"

definition cbs_get_latin1 :: "u32 parser" where
  "cbs_get_latin1 = p_bind CBS_get_u8 (\<lambda>c. p_return (ucast c))"

definition cbs_get_ucs2_be :: "u32 parser" where
  "cbs_get_ucs2_be = p_bind CBS_get_u16 (\<lambda>c.
     if \<not> is_valid_code_point (ucast c) then p_fail else p_return (ucast c))"

definition cbs_get_utf32_be :: "u32 parser" where
  "cbs_get_utf32_be = p_bind CBS_get_u32 (\<lambda>c. if \<not> is_valid_code_point c then p_fail else p_return c)"

subsection \<open>Writers\<close>

definition cbb_get_utf8_len :: "u32 \<Rightarrow> nat" where
  "cbb_get_utf8_len u = (if u \<le> 0x7f then 1 else if u \<le> 0x7ff then 2 else if u \<le> 0xffff then 3 else 4)"

definition cbb_add_utf8 :: "heap \<Rightarrow> nat \<Rightarrow> u32 \<Rightarrow> CBB \<Rightarrow> bool \<times> CBB" where
  "cbb_add_utf8 hp d u =
     (if \<not> is_valid_code_point u then Pair False
      else if u \<le> 0x7f then CBB_add_u8 hp d (ucast u)
      else if u \<le> 0x7ff then
        cbb_then (CBB_add_u8 hp d (ucast (ucast (TOP_BITS 2) OR drop_bit 6 u)))
          (CBB_add_u8 hp d (ucast (ucast (TOP_BITS 1) OR (u AND ucast (BOTTOM_BITS 6)))))
      else if u \<le> 0xffff then
        cbb_then (CBB_add_u8 hp d (ucast (ucast (TOP_BITS 3) OR drop_bit 12 u)))
          (cbb_then (CBB_add_u8 hp d (ucast (ucast (TOP_BITS 1) OR (drop_bit 6 u AND ucast (BOTTOM_BITS 6)))))
            (CBB_add_u8 hp d (ucast (ucast (TOP_BITS 1) OR (u AND ucast (BOTTOM_BITS 6))))))
      else if u \<le> 0x10ffff then
        cbb_then (CBB_add_u8 hp d (ucast (ucast (TOP_BITS 4) OR drop_bit 18 u)))
          (cbb_then (CBB_add_u8 hp d (ucast (ucast (TOP_BITS 1) OR (drop_bit 12 u AND ucast (BOTTOM_BITS 6)))))
            (cbb_then (CBB_add_u8 hp d (ucast (ucast (TOP_BITS 1) OR (drop_bit 6 u AND ucast (BOTTOM_BITS 6)))))
              (CBB_add_u8 hp d (ucast (ucast (TOP_BITS 1) OR (u AND ucast (BOTTOM_BITS 6)))))))
      else Pair False)"

definition cbb_add_latin1 :: "heap \<Rightarrow> nat \<Rightarrow> u32 \<Rightarrow> CBB \<Rightarrow> bool \<times> CBB" where
  "cbb_add_latin1 hp d u = (if u \<le> 0xff then CBB_add_u8 hp d (ucast u) else Pair False)"

definition cbb_add_ucs2_be :: "heap \<Rightarrow> nat \<Rightarrow> u32 \<Rightarrow> CBB \<Rightarrow> bool \<times> CBB" where
  "cbb_add_ucs2_be hp d u =
     (if u \<le> 0xffff \<and> is_valid_code_point u then CBB_add_u16 hp d (ucast u) else Pair False)"

definition cbb_add_utf32_be :: "heap \<Rightarrow> nat \<Rightarrow> u32 \<Rightarrow> CBB \<Rightarrow> bool \<times> CBB" where
  "cbb_add_utf32_be hp d u = (if is_valid_code_point u then CBB_add_u32 hp d u else Pair False)"

subsection \<open>The encodings\<close>

text \<open>
  A code point is a number below 0x110000 that is neither a surrogate nor a noncharacter. In UTF-8
  its low digits to the base 64 are continuation bytes, behind a byte that has the first digit and
  tells how many of them there are.
\<close>

definition code_point :: "nat \<Rightarrow> bool" where
  "code_point n \<longleftrightarrow> n < 0x110000 \<and> n mod 0x10000 < 0xfffe \<and> \<not> (0xfdd0 \<le> n \<and> n < 0xfdf0) \<and> \<not> (0xd800 \<le> n \<and> n < 0xe000)"

fun continuation :: "nat \<Rightarrow> nat \<Rightarrow> bytes" where
  "continuation 0 n = []"
| "continuation (Suc k) n = of_nat (0x80 + n div 64 ^ k mod 64) # continuation k n"

definition utf8 :: "nat \<Rightarrow> bytes" where
  "utf8 n =
     (if n < 0x80 then [of_nat n]
      else if n < 0x800 then of_nat (0xC0 + n div 64) # continuation 1 n
      else if n < 0x10000 then of_nat (0xE0 + n div 64 ^ 2) # continuation 2 n
      else of_nat (0xF0 + n div 64 ^ 3) # continuation 3 n)"

lemma length_continuation [simp]: "length (continuation k n) = k"
  by (induction k) simp_all

lemma length_utf8: "length (utf8 n) = (if n < 0x80 then 1 else if n < 0x800 then 2 else if n < 0x10000 then 3 else 4)"
  by (simp add: utf8_def)

lemma utf8_nonempty: "utf8 n \<noteq> []"
  by (simp add: utf8_def)

lemma bits_values:
  "BOTTOM_BITS 6 = 0x3F" "BOTTOM_BITS 5 = 0x1F" "BOTTOM_BITS 4 = 0xF" "BOTTOM_BITS 3 = 7"
  "TOP_BITS 1 = 0x80" "TOP_BITS 2 = 0xC0" "TOP_BITS 3 = 0xE0" "TOP_BITS 4 = 0xF0" "TOP_BITS 5 = 0xF8"
  by (simp_all add: BOTTOM_BITS_def TOP_BITS_def)

subsection \<open>The words of the code as numbers\<close>

lemma is_valid_code_point_iff: "is_valid_code_point v \<longleftrightarrow> code_point (unat v)"
proof -
  have mask: "(0xfffe :: u32) = push_bit 1 (mask 15)" by (simp add: mask_eq_decr_exp)
  have "v AND push_bit 1 (mask 15) = push_bit 1 (take_bit 15 (drop_bit 1 v))"
    by (rule bit_word_eqI) (auto simp: bit_simps simp del: push_bit_of_1 push_bit_Suc)
  then have "v AND 0xfffe = push_bit 1 (take_bit 15 (drop_bit 1 v))" by (simp only: mask)
  then have "unat (v AND 0xfffe) = (unat v div 2 ^ 1 mod 2 ^ 15 * 2 ^ 1) mod 2 ^ LENGTH(32)"
    by (simp only: width_simps)
  then have "unat (v AND 0xfffe) = 2 * (unat v div 2 mod 32768)"
    by (simp add: mult.commute)
  then have "v AND 0xfffe = 0xfffe \<longleftrightarrow> unat v div 2 mod 32768 = 32767"
    by (auto simp: word_unat_eq_iff)
  also have "\<dots> \<longleftrightarrow> 0xfffe \<le> unat v mod 0x10000"
  proof -
    have "unat v mod (2 * 32768) = 2 * (unat v div 2 mod 32768) + unat v mod 2" by (rule mod_mult2_eq)
    moreover have "unat v div 2 mod 32768 < 32768" "unat v mod 2 < 2" by simp_all
    ultimately show ?thesis by simp linarith
  qed
  finally show ?thesis
    by (auto simp: is_valid_code_point_def code_point_def word_le_nat_alt word_less_nat_alt not_le not_less)
qed

lemma and_top_bits: "unat ((c :: u8) AND NOT (mask k)) = unat c div 2 ^ k * 2 ^ k"
proof -
  have "c AND NOT (mask k) = push_bit k (drop_bit k c)"
    by (rule bit_word_eqI) (auto simp: bit_simps)
  then have "unat (c AND NOT (mask k)) = (unat c div 2 ^ k * 2 ^ k) mod 256" by (simp add: width_simps)
  moreover have "unat c div 2 ^ k * 2 ^ k < 256"
    by (rule le_less_trans [OF div_times_less_eq_dividend]) simp
  ultimately show ?thesis by simp
qed

lemma top_bits_iff:
  "(c :: u8) AND 0xC0 = 0x80 \<longleftrightarrow> unat c div 64 = 2"
  "c AND 0xE0 = 0xC0 \<longleftrightarrow> unat c div 32 = 6"
  "c AND 0xF0 = 0xE0 \<longleftrightarrow> unat c div 16 = 14"
  "c AND 0xF8 = 0xF0 \<longleftrightarrow> unat c div 8 = 30"
proof -
  have m: "(0xC0 :: u8) = NOT (mask 6)" "(0xE0 :: u8) = NOT (mask 5)" "(0xF0 :: u8) = NOT (mask 4)"
    "(0xF8 :: u8) = NOT (mask 3)"
    by (simp_all add: mask_eq_decr_exp)
  have "unat (c AND 0xC0) = unat c div 64 * 64" "unat (c AND 0xE0) = unat c div 32 * 32"
    "unat (c AND 0xF0) = unat c div 16 * 16" "unat (c AND 0xF8) = unat c div 8 * 8"
    unfolding m and_top_bits by simp_all
  then show "c AND 0xC0 = 0x80 \<longleftrightarrow> unat c div 64 = 2" "c AND 0xE0 = 0xC0 \<longleftrightarrow> unat c div 32 = 6"
    "c AND 0xF0 = 0xE0 \<longleftrightarrow> unat c div 16 = 14" "c AND 0xF8 = 0xF0 \<longleftrightarrow> unat c div 8 = 30"
    by (simp_all add: word_unat_eq_iff)
qed

subsection \<open>The readers as functions of bytes\<close>

definition b_u8 :: "bytes \<Rightarrow> (u8 \<times> bytes) option" where
  "b_u8 bs = (case bs of [] \<Rightarrow> None | b # bs \<Rightarrow> Some (b, bs))"

lemma CBS_get_u8_byte: "reads_as (=) CBS_get_u8 b_u8"
proof -
  have "reads_as (=) CBS_get_u8 (\<lambda>bs. map_option (apfst hd) (b_take 1 bs))"
    unfolding CBS_get_u8_def
  proof (rule reads_as_map [OF cbs_get_reads])
    fix v bs :: bytes assume "take 1 v = bs \<and> 1 \<le> length v \<and> (1 :: nat) < 2 ^ 63"
    then show "hd v = hd bs" by (cases v) auto
  qed
  then show ?thesis by (rule reads_as_cong) (simp add: b_take_def b_u8_def split: list.split)
qed

fun b_continuation :: "nat \<Rightarrow> nat \<Rightarrow> bytes \<Rightarrow> (nat \<times> bytes) option" where
  "b_continuation 0 v bs = Some (v, bs)"
| "b_continuation (Suc k) v [] = None"
| "b_continuation (Suc k) v (b # bs) =
     (if unat b div 64 \<noteq> 2 then None else b_continuation k (unat b mod 64 + 64 * v) bs)"

lemma base64_digit: "q = n mod 64 + 64 * v \<and> n div 64 = 2 \<longleftrightarrow> q div 64 = v \<and> n = 0x80 + q mod (64 :: nat)"
proof (intro iffI conjI)
  have n: "n = n div 64 * 64 + n mod 64" by simp
  have q: "q = q div 64 * 64 + q mod 64" by simp
  {
    assume a: "q = n mod 64 + 64 * v \<and> n div 64 = 2"
    then show "q div 64 = v" by simp
    show "n = 0x80 + q mod 64" using a n by simp
  next
    assume a: "q div 64 = v \<and> n = 0x80 + q mod 64"
    then have "n mod 64 = q mod 64" by (simp add: mod_add_eq [of 128 64, symmetric])
    then show "q = n mod 64 + 64 * v" using a q by simp
    show "n div 64 = 2" using a by (simp add: div_add1_eq [of 128])
  }
qed

lemma b_continuation_iff:
  "b_continuation k v bs = Some (w, rest) \<longleftrightarrow> w div 64 ^ k = v \<and> bs = continuation k w @ rest"
proof (induction k arbitrary: v bs)
  case (Suc k)
  show ?case
  proof (cases bs)
    case (Cons b bs')
    have "w div 64 ^ k = unat b mod 64 + 64 * v \<and> unat b div 64 = 2 \<longleftrightarrow>
        w div 64 ^ k div 64 = v \<and> b = of_nat (0x80 + w div 64 ^ k mod 64)"
    proof -
      have "b = of_nat (0x80 + w div 64 ^ k mod 64) \<longleftrightarrow> unat b = 0x80 + w div 64 ^ k mod 64"
      proof -
        have "0x80 + w div 64 ^ k mod 64 < 256" using mod_less_divisor [of 64 "w div 64 ^ k"] by simp
        then have "unat (of_nat (0x80 + w div 64 ^ k mod 64) :: u8) = 0x80 + w div 64 ^ k mod 64"
          by (simp only: unat_of_nat_u8 mod_less)
        then show ?thesis by (metis word_unat_eq_iff)
      qed
      then show ?thesis by (simp only: base64_digit)
    qed
    then show ?thesis using Suc.IH [of "unat b mod 64 + 64 * v" bs']
      by (auto simp: Cons div_mult2_eq mult.commute [of 64])
  qed auto
qed auto

lemma utf8_loop_reads:
  "reads_as (\<lambda>w v. w = of_nat v) (utf8_loop k (of_nat v)) (b_continuation k v)"
proof (induction k arbitrary: v)
  case (Suc k)
  have "reads_as (\<lambda>w v. w = of_nat v) (utf8_loop (Suc k) (of_nat v))
      (b_bind b_u8 (\<lambda>b. if unat b div 64 \<noteq> 2 then (\<lambda>bs. None) else b_continuation k (unat b mod 64 + 64 * v)))"
    unfolding utf8_loop.simps
  proof (rule reads_as_bind [OF CBS_get_u8_byte])
    fix c b :: u8 assume "c = b"
    have "(ucast (b AND 0x3F) :: u32) = of_nat (unat (b AND 0x3F))" by simp
    also have "\<dots> = of_nat (unat b mod 2 ^ 6)" by (simp only: width_simps)
    finally have "push_bit 6 (of_nat v) OR ucast (b AND 0x3F) = (of_nat (unat b mod 64 + 64 * v) :: u32)"
      using of_nat_or_push_bit [of "unat b mod 2 ^ 6" 6 v, where 'a = 32]
      by (simp add: or.commute del: of_nat_add of_nat_mult)
    then show "reads_as (\<lambda>w v. w = of_nat v)
        (if c AND TOP_BITS 2 \<noteq> TOP_BITS 1 then p_fail
         else utf8_loop k (push_bit 6 (of_nat v) OR ucast (c AND BOTTOM_BITS 6)))
        (if unat b div 64 \<noteq> 2 then (\<lambda>bs. None) else b_continuation k (unat b mod 64 + 64 * v))"
      using Suc.IH [of "unat b mod 64 + 64 * v"] \<open>c = b\<close>
      by (simp only: bits_values top_bits_iff) (simp add: reads_as_fail)
  qed
  then show ?case
    by (rule reads_as_cong) (auto simp: b_bind_def b_u8_def split: list.split)
next
  case (0 v)
  show ?case unfolding utf8_loop.simps
    by (rule reads_as_cong [OF reads_as_return [of "\<lambda>w v. w = of_nat v" "of_nat v" v]]) simp_all
qed

definition b_tail :: "nat \<Rightarrow> nat \<Rightarrow> nat \<Rightarrow> bytes \<Rightarrow> (nat \<times> bytes) option" where
  "b_tail k lower v = b_bind (b_continuation k v) (\<lambda>v bs. if code_point v \<and> lower \<le> v then Some (v, bs) else None)"

definition b_utf8 :: "bytes \<Rightarrow> (nat \<times> bytes) option" where
  "b_utf8 = b_bind b_u8 (\<lambda>b.
     if unat b < 0x80 then (\<lambda>bs. Some (unat b, bs))
     else if unat b div 32 = 6 then b_tail 1 0x80 (unat b mod 32)
     else if unat b div 16 = 14 then b_tail 2 0x800 (unat b mod 16)
     else if unat b div 8 = 30 then b_tail 3 0x10000 (unat b mod 8)
     else (\<lambda>bs. None))"

lemma code_point_lt: "code_point n \<Longrightarrow> n < 0x110000"
  by (simp add: code_point_def)

lemma b_tail_iff:
  "b_tail k lower v bs = Some (w, rest) \<longleftrightarrow>
     code_point w \<and> lower \<le> w \<and> w div 64 ^ k = v \<and> bs = continuation k w @ rest"
  by (auto simp: b_tail_def b_bind_def b_continuation_iff split: option.splits)
    (metis b_continuation_iff option.distinct(1) option.inject prod.inject)+

lemma utf8_tail_reads:
  assumes "v < 64" "k \<le> 3" "lower < 2 ^ 32"
  shows "reads_as (\<lambda>w v. unat w = v) (utf8_tail k (of_nat lower) (of_nat v)) (b_tail k lower v)"
proof -
  have "reads_as (\<lambda>w v. w = of_nat v \<and> v < 2 ^ 32) (utf8_loop k (of_nat v)) (b_continuation k v)"
  proof (rule reads_as_strengthen [OF utf8_loop_reads])
    fix bs rest and x :: u32 and y
    assume "b_continuation k v bs = Some (y, rest)" "x = of_nat y"
    then have y: "y div 64 ^ k = v" "x = of_nat y" by (simp_all add: b_continuation_iff)
    have "(64 :: nat) ^ k \<le> 64 ^ 3" using assms(2) by (intro power_increasing) simp_all
    moreover have "y < 64 ^ k * Suc (y div 64 ^ k)" by (simp add: dividend_less_times_div)
    ultimately have "y < 64 ^ 3 * Suc (y div 64 ^ k)"
      by (meson less_le_trans mult_le_mono1)
    also have "\<dots> \<le> 64 ^ 3 * 64" using y(1) assms(1) by simp
    finally show "x = of_nat y \<and> y < 2 ^ 32" using y(2) by simp
  qed
  then show ?thesis
    unfolding utf8_tail_def b_tail_def
  proof (rule reads_as_bind)
    fix x :: u32 and y assume "x = of_nat y \<and> y < 2 ^ 32"
    then have "unat x = y" by (simp add: unat_of_nat)
    moreover have "unat (of_nat lower :: u32) = lower" using assms(3) by (simp add: unat_of_nat)
    ultimately show "reads_as (\<lambda>w v. unat w = v)
        (if \<not> is_valid_code_point x \<or> x < of_nat lower then p_fail else p_return x)
        (\<lambda>bs. if code_point y \<and> lower \<le> y then Some (y, bs) else None)"
      by (cases "code_point y"; cases "lower \<le> y")
        (simp_all add: is_valid_code_point_iff word_less_nat_alt not_less reads_as_fail reads_as_return)
  qed
qed

lemma ucast_low_u8: "(ucast ((b :: u8) AND 0x1F) :: u32) = of_nat (unat b mod 32)"
  "(ucast (b AND 0xF) :: u32) = of_nat (unat b mod 16)" "(ucast (b AND 7) :: u32) = of_nat (unat b mod 8)"
  by (simp_all add: word_unat_eq_iff width_simps unat_of_nat)

lemma cbs_get_utf8_reads [reads]: "reads_as (\<lambda>w v. unat w = v) cbs_get_utf8 b_utf8"
  unfolding cbs_get_utf8_def b_utf8_def
proof (rule reads_as_bind [OF CBS_get_u8_byte])
  fix c b :: u8 assume cb: "c = b"
  have m: "unat b mod 32 < 64" "unat b mod 16 < 64" "unat b mod 8 < 64"
    by (rule less_trans [OF mod_less_divisor], simp_all)+
  have le: "c \<le> 0x7F \<longleftrightarrow> unat b < 0x80" using cb by (simp add: word_le_nat_alt) linarith
  have t: "reads_as (\<lambda>w v. unat w = v) (utf8_tail 1 0x80 (ucast (c AND BOTTOM_BITS 5))) (b_tail 1 0x80 (unat b mod 32))"
    "reads_as (\<lambda>w v. unat w = v) (utf8_tail 2 0x800 (ucast (c AND BOTTOM_BITS 4))) (b_tail 2 0x800 (unat b mod 16))"
    "reads_as (\<lambda>w v. unat w = v) (utf8_tail 3 0x10000 (ucast (c AND BOTTOM_BITS 3))) (b_tail 3 0x10000 (unat b mod 8))"
    using utf8_tail_reads [OF m(1), of 1 "0x80"] utf8_tail_reads [OF m(2), of 2 "0x800"]
      utf8_tail_reads [OF m(3), of 3 "0x10000"]
    by (simp_all only: cb bits_values ucast_low_u8) simp_all
  have r: "reads_as (\<lambda>w v. unat w = v) (p_return (ucast c :: u32)) (\<lambda>bs. Some (unat b, bs))"
    using unat_u8_lt [of b] by (intro reads_as_return) (simp add: cb width_simps del: unat_u8_lt)
  show "reads_as (\<lambda>w v. unat w = v)
      (if c \<le> 0x7f then p_return (ucast c)
       else if c AND TOP_BITS 3 = TOP_BITS 2 then utf8_tail 1 0x80 (ucast (c AND BOTTOM_BITS 5))
       else if c AND TOP_BITS 4 = TOP_BITS 3 then utf8_tail 2 0x800 (ucast (c AND BOTTOM_BITS 4))
       else if c AND TOP_BITS 5 = TOP_BITS 4 then utf8_tail 3 0x10000 (ucast (c AND BOTTOM_BITS 3))
       else p_fail)
      (if unat b < 0x80 then (\<lambda>bs. Some (unat b, bs))
       else if unat b div 32 = 6 then b_tail 1 0x80 (unat b mod 32)
       else if unat b div 16 = 14 then b_tail 2 0x800 (unat b mod 16)
       else if unat b div 8 = 30 then b_tail 3 0x10000 (unat b mod 8)
       else (\<lambda>bs. None))"
    unfolding le using t r
    by (simp only: bits_values top_bits_iff cb) (simp add: reads_as_fail)
qed

lemma lead_byte: "0 < m \<Longrightarrow> u div m = h \<and> q = u mod m \<longleftrightarrow> q < m \<and> u = h * m + (q :: nat)"
  by auto

lemma b_utf8_Cons:
  "b_utf8 (b # r) = Some (n, rest) \<longleftrightarrow> code_point n \<and>
     (n < 0x80 \<and> unat b = n \<and> r = rest \<or>
      0x80 \<le> n \<and> n < 0x800 \<and> unat b = 0xC0 + n div 64 \<and> r = continuation 1 n @ rest \<or>
      0x800 \<le> n \<and> n < 0x10000 \<and> unat b = 0xE0 + n div 64 ^ 2 \<and> r = continuation 2 n @ rest \<or>
      0x10000 \<le> n \<and> unat b = 0xF0 + n div 64 ^ 3 \<and> r = continuation 3 n @ rest)"
    (is "_ \<longleftrightarrow> ?rhs")
proof -
  let ?u = "unat b"
  have disj: "\<not> (?u < 0x80 \<and> ?u div 32 = 6)" "\<not> (?u < 0x80 \<and> ?u div 16 = 14)" "\<not> (?u < 0x80 \<and> ?u div 8 = 30)"
    "\<not> (?u div 32 = 6 \<and> ?u div 16 = 14)" "\<not> (?u div 32 = 6 \<and> ?u div 8 = 30)" "\<not> (?u div 16 = 14 \<and> ?u div 8 = 30)"
    by linarith+
  have "b_utf8 (b # r) = Some (n, rest) \<longleftrightarrow>
      ?u < 0x80 \<and> n = ?u \<and> r = rest \<or>
      ?u div 32 = 6 \<and> b_tail 1 0x80 (?u mod 32) r = Some (n, rest) \<or>
      ?u div 16 = 14 \<and> b_tail 2 0x800 (?u mod 16) r = Some (n, rest) \<or>
      ?u div 8 = 30 \<and> b_tail 3 0x10000 (?u mod 8) r = Some (n, rest)"
    using disj by (auto simp: b_utf8_def b_bind_def b_u8_def simp del: unat_u8_lt split: if_splits)
  also have "\<dots> \<longleftrightarrow>
      n < 0x80 \<and> ?u = n \<and> r = rest \<or>
      code_point n \<and> 0x80 \<le> n \<and> (?u div 32 = 6 \<and> n div 64 ^ 1 = ?u mod 32) \<and> r = continuation 1 n @ rest \<or>
      code_point n \<and> 0x800 \<le> n \<and> (?u div 16 = 14 \<and> n div 64 ^ 2 = ?u mod 16) \<and> r = continuation 2 n @ rest \<or>
      code_point n \<and> 0x10000 \<le> n \<and> (?u div 8 = 30 \<and> n div 64 ^ 3 = ?u mod 8) \<and> r = continuation 3 n @ rest"
    unfolding b_tail_iff by blast
  also have "\<dots> \<longleftrightarrow> ?rhs"
  proof -
    have "n < 0x80 \<Longrightarrow> code_point n" by (simp add: code_point_def)
    moreover have "code_point n \<Longrightarrow> n div 64 ^ 3 < 8" using code_point_lt [of n] by simp
    moreover have "n div 64 ^ 1 < 32 \<longleftrightarrow> n < 0x800" "n div 64 ^ 2 < 16 \<longleftrightarrow> n < 0x10000"
      by (simp_all add: div_less_iff_less_mult)
    moreover have "(6 :: nat) * 32 = 0xC0" "(14 :: nat) * 16 = 0xE0" "(30 :: nat) * 8 = 0xF0" "n div 64 ^ 1 = n div 64" by simp_all
    ultimately show ?thesis by (simp only: lead_byte [OF zero_less_numeral]) blast
  qed
  finally show ?thesis .
qed

lemma b_utf8_iff: "b_utf8 bs = Some (n, rest) \<longleftrightarrow> code_point n \<and> bs = utf8 n @ rest"
proof (cases bs)
  case (Cons b r)
  have lead: "b = of_nat x \<longleftrightarrow> unat b = x" if "x < 256" for x
    using that by (auto simp: word_unat_eq_iff)
  have lt: "n < 0x80 \<Longrightarrow> n < 256" "n < 0x800 \<Longrightarrow> 0xC0 + n div 64 < 256" "n < 0x10000 \<Longrightarrow> 0xE0 + n div 64 ^ 2 < 256"
    "code_point n \<Longrightarrow> 0xF0 + n div 64 ^ 3 < 256"
    using code_point_lt [of n] by (simp_all add: less_mult_imp_div_less)
  show ?thesis unfolding Cons b_utf8_Cons
    using lead [OF lt(1)] lead [OF lt(2)] lead [OF lt(3)] lead [OF lt(4)] by (auto simp: utf8_def simp del: of_nat_add)
qed (simp add: b_utf8_def b_bind_def b_u8_def utf8_def)

interpretation utf8_codec: canonical_codec utf8 "run_cbs unat cbs_get_utf8" code_point cbs_room
proof
  fix bs :: bytes and n rest assume "cbs_room bs"
  then show "run_cbs unat cbs_get_utf8 bs = Some (n, rest) \<longleftrightarrow> code_point n \<and> bs = utf8 n @ rest"
    by (simp add: run_cbs_eq [OF cbs_get_utf8_reads] b_utf8_iff)
qed (auto simp: utf8_nonempty cbs_room_def)

subsection \<open>The writers append the encodings\<close>

lemma joined_byte:
  assumes "unat w = x" "x < 2 ^ k" "c = push_bit k y" "b = x + 2 ^ k * unat y"
  shows "(ucast (ucast (c :: u8) OR (w :: u32)) :: u8) = of_nat b"
proof -
  have "(ucast (ucast c OR w) :: u8) = c OR ucast w"
    by (rule bit_word_eqI) (auto simp: bit_simps)
  also have "\<dots> = of_nat x OR push_bit k (of_nat (unat y))"
    by (simp add: assms(3) or.commute flip: assms(1))
  also have "\<dots> = of_nat b" unfolding assms(4) by (rule of_nat_or_push_bit [OF assms(2), symmetric])
  finally show ?thesis .
qed

lemma utf8_lead_bytes:
  "unat u < 0x800 \<Longrightarrow> (ucast (ucast (TOP_BITS 2) OR drop_bit 6 (u :: u32)) :: u8) = of_nat (0xC0 + unat u div 64)"
  "unat u < 0x10000 \<Longrightarrow> (ucast (ucast (TOP_BITS 3) OR drop_bit 12 u) :: u8) = of_nat (0xE0 + unat u div 64 ^ 2)"
  "unat u < 0x200000 \<Longrightarrow> (ucast (ucast (TOP_BITS 4) OR drop_bit 18 u) :: u8) = of_nat (0xF0 + unat u div 64 ^ 3)"
proof -
  have v: "unat (drop_bit 6 u) = unat u div 64" "unat (drop_bit 12 u) = unat u div 64 ^ 2" "unat (drop_bit 18 u) = unat u div 64 ^ 3"
    by (simp_all add: unat_drop_bit)
  have b: "(0xC0 :: u8) = push_bit 5 6" "(0xE0 :: u8) = push_bit 4 14" "(0xF0 :: u8) = push_bit 3 30" by simp_all
  show "(ucast (ucast (TOP_BITS 2) OR drop_bit 6 u) :: u8) = of_nat (0xC0 + unat u div 64)" if "unat u < 0x800"
    unfolding bits_values by (rule joined_byte [OF v(1) _ b(1)]) (use that in \<open>simp_all add: less_mult_imp_div_less\<close>)
  show "(ucast (ucast (TOP_BITS 3) OR drop_bit 12 u) :: u8) = of_nat (0xE0 + unat u div 64 ^ 2)" if "unat u < 0x10000"
    unfolding bits_values by (rule joined_byte [OF v(2) _ b(2)]) (use that in \<open>simp_all add: less_mult_imp_div_less\<close>)
  show "(ucast (ucast (TOP_BITS 4) OR drop_bit 18 u) :: u8) = of_nat (0xF0 + unat u div 64 ^ 3)" if "unat u < 0x200000"
    unfolding bits_values by (rule joined_byte [OF v(3) _ b(3)]) (use that in \<open>simp_all add: less_mult_imp_div_less\<close>)
qed

lemma utf8_continuation_byte:
  "(ucast (ucast (TOP_BITS 1) OR ((u :: u32) AND ucast (BOTTOM_BITS 6))) :: u8) = of_nat (0x80 + unat u mod 64)"
proof -
  have "(ucast (0x3F :: u8) :: u32) = 0x3F" by simp
  then have w: "unat (u AND ucast (BOTTOM_BITS 6)) = unat u mod 2 ^ 6" by (simp only: bits_values width_simps)
  have b: "(0x80 :: u8) = push_bit 6 2" by simp
  show ?thesis unfolding bits_values(5)
    by (rule joined_byte [OF w _ b]) simp_all
qed

lemma appends_u8_then:
  "appends hp d bs True w \<Longrightarrow> appends hp d (b # bs) True (cbb_then (CBB_add_u8 hp d b) w)"
  using appends_then [OF CBB_add_u8_appends, of hp d bs True w b] by simp

lemma cbb_add_utf8_appends [writers]:
  assumes "code_point (unat u)"
  shows "appends hp d (utf8 (unat u)) True (cbb_add_utf8 hp d u)"
proof -
  let ?n = "unat u"
  have lt: "?n < 0x110000" using assms by (rule code_point_lt)
  have valid: "is_valid_code_point u" using assms by (simp add: is_valid_code_point_iff)
  have one: "(ucast u :: u8) = of_nat ?n" by simp
  have c: "unat (drop_bit 6 u) = ?n div 64" "unat (drop_bit 12 u) = ?n div 64 ^ 2" by (simp_all add: unat_drop_bit)
  have le: "u \<le> 0x7f \<longleftrightarrow> ?n < 0x80" "u \<le> 0x7ff \<longleftrightarrow> ?n < 0x800" "u \<le> 0xffff \<longleftrightarrow> ?n < 0x10000"
      "u \<le> 0x10ffff \<longleftrightarrow> ?n < 0x110000"
    by (simp_all add: word_le_nat_alt, linarith+)
  note code = cbb_add_utf8_def valid le utf8_lead_bytes utf8_continuation_byte c
  consider "?n < 0x80" | "0x80 \<le> ?n" "?n < 0x800" | "0x800 \<le> ?n" "?n < 0x10000" | "0x10000 \<le> ?n" by linarith
  then show ?thesis
  proof cases
    case 1
    then have "cbb_add_utf8 hp d u = CBB_add_u8 hp d (of_nat ?n)" "utf8 ?n = [of_nat ?n]"
      by (simp_all add: code utf8_def)
    then show ?thesis by (simp only: CBB_add_u8_appends)
  next
    case 2
    then have "cbb_add_utf8 hp d u = cbb_then (CBB_add_u8 hp d (of_nat (0xC0 + ?n div 64)))
        (CBB_add_u8 hp d (of_nat (0x80 + ?n mod 64)))"
      by (simp add: code del: of_nat_add One_nat_def)
    moreover have "utf8 ?n = [of_nat (0xC0 + ?n div 64), of_nat (0x80 + ?n mod 64)]"
      using 2 by (simp add: utf8_def del: of_nat_add)
    ultimately show ?thesis by (simp only: appends_u8_then CBB_add_u8_appends)
  next
    case 3
    then have "cbb_add_utf8 hp d u = cbb_then (CBB_add_u8 hp d (of_nat (0xE0 + ?n div 64 ^ 2)))
        (cbb_then (CBB_add_u8 hp d (of_nat (0x80 + ?n div 64 mod 64))) (CBB_add_u8 hp d (of_nat (0x80 + ?n mod 64))))"
      by (simp add: code del: of_nat_add One_nat_def)
    moreover have "utf8 ?n = [of_nat (0xE0 + ?n div 64 ^ 2), of_nat (0x80 + ?n div 64 mod 64), of_nat (0x80 + ?n mod 64)]"
      using 3 by (simp add: utf8_def numeral_2_eq_2 del: of_nat_add)
    ultimately show ?thesis by (simp only: appends_u8_then CBB_add_u8_appends)
  next
    case 4
    then have "cbb_add_utf8 hp d u = cbb_then (CBB_add_u8 hp d (of_nat (0xF0 + ?n div 64 ^ 3)))
        (cbb_then (CBB_add_u8 hp d (of_nat (0x80 + ?n div 64 ^ 2 mod 64)))
          (cbb_then (CBB_add_u8 hp d (of_nat (0x80 + ?n div 64 mod 64))) (CBB_add_u8 hp d (of_nat (0x80 + ?n mod 64)))))"
      using lt by (simp add: code del: of_nat_add One_nat_def)
    moreover have "utf8 ?n = [of_nat (0xF0 + ?n div 64 ^ 3), of_nat (0x80 + ?n div 64 ^ 2 mod 64),
        of_nat (0x80 + ?n div 64 mod 64), of_nat (0x80 + ?n mod 64)]"
      using 4 by (simp add: utf8_def numeral_3_eq_3 del: of_nat_add)
    ultimately show ?thesis by (simp only: appends_u8_then CBB_add_u8_appends)
  qed
qed

end
