(* ===== verification/Asn1_Mbstring.thy ===== *)
theory Asn1_Mbstring
  imports Unicode Asn1_Writers
begin

text \<open>
  Strings converted between encodings: ASN1_mbstring_ncopy of crypto/asn1/a_mbstr.c with the
  ASN1_STRING objects of crypto/asn1/asn1_lib.c. A first pass over the input counts the characters
  and finds the types that can represent them, a second one converts them.
\<close>

subsection \<open>ASN1_STRING\<close>

text \<open>\<open>as_data\<close> is the allocated buffer, \<open>None\<close> for a NULL pointer; \<open>as_length\<close> leaves out the terminator.\<close>

record ASN1_STRING =
  as_length :: int
  as_type :: int
  as_data :: "bytes option"
  as_flags :: int

text \<open>\<open>sizeof(ASN1_STRING)\<close> is 24.\<close>

definition ASN1_STRING_type_new :: "heap \<Rightarrow> int \<Rightarrow> ASN1_STRING option" where
  "ASN1_STRING_type_new hp type =
     (if \<not> hp_serves hp 24 then None
      else Some \<lparr>as_length = 0, as_type = type, as_data = None, as_flags = 0\<rparr>)"

definition ASN1_STRING_new :: "heap \<Rightarrow> ASN1_STRING option" where
  "ASN1_STRING_new hp = ASN1_STRING_type_new hp 4"

text \<open>The length of a terminated string, and a size converted to an int.\<close>

definition strlen :: "bytes \<Rightarrow> nat" where
  "strlen s = length (takeWhile (\<lambda>b. b \<noteq> 0) s)"

definition int_of_size :: "nat \<Rightarrow> int" where
  "int_of_size n = sint (of_nat n :: 32 word)"

definition OPENSSL_realloc :: "heap \<Rightarrow> bytes option \<Rightarrow> nat \<Rightarrow> bytes option" where
  "OPENSSL_realloc hp orig new_size =
     (if \<not> hp_serves hp new_size then None
      else
        (case orig of
           None \<Rightarrow> Some (fresh_bytes hp new_size)
         | Some old \<Rightarrow> (let to_copy = min (length old) new_size in
             Some (take to_copy old @ drop to_copy (fresh_bytes hp new_size)))))"

definition ASN1_STRING_set :: "heap \<Rightarrow> ASN1_STRING \<Rightarrow> bytes option \<Rightarrow> int \<Rightarrow> bool \<times> ASN1_STRING" where
  "ASN1_STRING_set hp str data len =
     (if len < 0 \<and> data = None then (False, str)
      else
        (let len = (if len < 0 then int_of_size (strlen (the data)) else len) in
         case (if as_length str \<le> len \<or> as_data str = None
               then OPENSSL_realloc hp (as_data str) (nat (len + 1)) else as_data str) of
           None \<Rightarrow> (False, str)
         | Some buf \<Rightarrow>
             (let buf = (case data of
                           None \<Rightarrow> buf
                         | Some data \<Rightarrow> (take (nat len) data @ drop (nat len) buf)[nat len := 0]) in
              (True, str\<lparr>as_length := len, as_data := Some buf\<rparr>))))"

definition ASN1_STRING_copy :: "heap \<Rightarrow> ASN1_STRING \<Rightarrow> ASN1_STRING option \<Rightarrow> bool \<times> ASN1_STRING" where
  "ASN1_STRING_copy hp dst str =
     (case str of
        None \<Rightarrow> (False, dst)
      | Some str \<Rightarrow>
          (case ASN1_STRING_set hp dst (as_data str) (as_length str) of
             (ok, dst) \<Rightarrow>
               if \<not> ok then (False, dst)
               else (True, dst\<lparr>as_type := as_type str, as_flags := as_flags str\<rparr>)))"

definition ASN1_STRING_dup :: "heap \<Rightarrow> ASN1_STRING option \<Rightarrow> ASN1_STRING option" where
  "ASN1_STRING_dup hp str =
     (case str of
        None \<Rightarrow> None
      | Some s \<Rightarrow>
          (case ASN1_STRING_new hp of
             None \<Rightarrow> None
           | Some ret \<Rightarrow> (case ASN1_STRING_copy hp ret str of (ok, ret) \<Rightarrow> if \<not> ok then None else Some ret)))"

subsection \<open>Formats and types\<close>

abbreviation MBSTRING_UTF8 :: int where "MBSTRING_UTF8 \<equiv> 0x1000"
abbreviation MBSTRING_ASC :: int where "MBSTRING_ASC \<equiv> 0x1001"
abbreviation MBSTRING_BMP :: int where "MBSTRING_BMP \<equiv> 0x1002"
abbreviation MBSTRING_UNIV :: int where "MBSTRING_UNIV \<equiv> 0x1004"

abbreviation V_ASN1_UTF8STRING :: int where "V_ASN1_UTF8STRING \<equiv> 12"
abbreviation V_ASN1_PRINTABLESTRING :: int where "V_ASN1_PRINTABLESTRING \<equiv> 19"
abbreviation V_ASN1_T61STRING :: int where "V_ASN1_T61STRING \<equiv> 20"
abbreviation V_ASN1_IA5STRING :: int where "V_ASN1_IA5STRING \<equiv> 22"
abbreviation V_ASN1_UNIVERSALSTRING :: int where "V_ASN1_UNIVERSALSTRING \<equiv> 28"
abbreviation V_ASN1_BMPSTRING :: int where "V_ASN1_BMPSTRING \<equiv> 30"

abbreviation B_ASN1_PRINTABLESTRING :: u64 where "B_ASN1_PRINTABLESTRING \<equiv> 0x0002"
abbreviation B_ASN1_T61STRING :: u64 where "B_ASN1_T61STRING \<equiv> 0x0004"
abbreviation B_ASN1_IA5STRING :: u64 where "B_ASN1_IA5STRING \<equiv> 0x0010"
abbreviation B_ASN1_UNIVERSALSTRING :: u64 where "B_ASN1_UNIVERSALSTRING \<equiv> 0x0100"
abbreviation B_ASN1_BMPSTRING :: u64 where "B_ASN1_BMPSTRING \<equiv> 0x0800"
abbreviation B_ASN1_UTF8STRING :: u64 where "B_ASN1_UTF8STRING \<equiv> 0x2000"

definition DIRSTRING_TYPE :: u64 where
  "DIRSTRING_TYPE =
     (B_ASN1_PRINTABLESTRING OR B_ASN1_T61STRING OR B_ASN1_BMPSTRING OR B_ASN1_UTF8STRING)"

text \<open>Letters, digits, space and the characters \<open>' ( ) + , - . / : = ?\<close>.\<close>

definition asn1_is_printable :: "u32 \<Rightarrow> bool" where
  "asn1_is_printable v =
     (if 0x7f < v then False
      else (97 \<le> v \<and> v \<le> 122) \<or> (65 \<le> v \<and> v \<le> 90) \<or> (48 \<le> v \<and> v \<le> 57) \<or>
        v = 32 \<or> v = 39 \<or> v = 40 \<or> v = 41 \<or> v = 43 \<or> v = 44 \<or> v = 45 \<or> v = 46 \<or>
        v = 47 \<or> v = 58 \<or> v = 61 \<or> v = 63)"

datatype mb_error =
    Unknown_format | Invalid_bmpstring | Invalid_universalstring | Invalid_utf8string | Internal_error
  | Illegal_characters | String_too_short | String_too_long | Malloc_failure

definition decode_func :: "int \<Rightarrow> (u32 parser \<times> mb_error) option" where
  "decode_func inform =
     (if inform = MBSTRING_BMP then Some (cbs_get_ucs2_be, Invalid_bmpstring)
      else if inform = MBSTRING_UNIV then Some (cbs_get_utf32_be, Invalid_universalstring)
      else if inform = MBSTRING_UTF8 then Some (cbs_get_utf8, Invalid_utf8string)
      else if inform = MBSTRING_ASC then Some (cbs_get_latin1, Internal_error)
      else None)"

definition decode_char :: "int \<Rightarrow> u32 parser" where
  "decode_char inform = (case decode_func inform of None \<Rightarrow> p_fail | Some (f, e) \<Rightarrow> f)"

text \<open>The output formats that remain possible after a character.\<close>

definition narrow_mask :: "u64 \<Rightarrow> u32 \<Rightarrow> u64" where
  "narrow_mask formats c =
     (let formats = (if formats AND B_ASN1_PRINTABLESTRING \<noteq> 0 \<and> \<not> asn1_is_printable c
                  then formats AND NOT B_ASN1_PRINTABLESTRING else formats);
          formats = (if formats AND B_ASN1_IA5STRING \<noteq> 0 \<and> 127 < c then formats AND NOT B_ASN1_IA5STRING else formats);
          formats = (if formats AND B_ASN1_T61STRING \<noteq> 0 \<and> 0xff < c then formats AND NOT B_ASN1_T61STRING else formats) in
      if formats AND B_ASN1_BMPSTRING \<noteq> 0 \<and> 0xffff < c then formats AND NOT B_ASN1_BMPSTRING else formats)"

lemma p_bind_le:
  assumes "\<And>c r c'. p c = (r, c') \<Longrightarrow> c_len c' \<le> c_len c" "\<And>x c r c'. f x c = (r, c') \<Longrightarrow> c_len c' \<le> c_len c"
    "p_bind p f c = (r, c')"
  shows "c_len c' \<le> c_len c"
  using assms by (fastforce simp: p_bind_def split: prod.splits option.splits intro: order_trans)

lemma p_bind_less:
  assumes "\<And>c x c'. p c = (Some x, c') \<Longrightarrow> c_len c' < c_len c" "\<And>x c r c'. f x c = (r, c') \<Longrightarrow> c_len c' \<le> c_len c"
    "p_bind p f c = (Some y, c')"
  shows "c_len c' < c_len c"
  using assms by (fastforce simp: p_bind_def split: prod.splits option.splits intro: le_less_trans)

lemma p_return_le: "p_return x c = (r, c') \<Longrightarrow> c_len c' \<le> c_len c"
  by (simp add: p_return_def)

lemma p_fail_le: "p_fail c = (r, c') \<Longrightarrow> c_len c' \<le> c_len c"
  by (simp add: p_fail_def)

lemma cbs_get_le: "cbs_get n c = (r, c') \<Longrightarrow> c_len c' \<le> c_len c"
  by (auto simp: cbs_get_def split: if_splits)

lemma cbs_get_less: "0 < n \<Longrightarrow> cbs_get n c = (Some x, c') \<Longrightarrow> c_len c' < c_len c"
  by (auto simp: cbs_get_def split: if_splits)

lemma CBS_get_u8_le: "CBS_get_u8 c = (r, c') \<Longrightarrow> c_len c' \<le> c_len c"
  unfolding CBS_get_u8_def by (erule p_bind_le [rotated 2]) (erule cbs_get_le p_return_le)+

lemma utf8_loop_le: "utf8_loop k v c = (r, c') \<Longrightarrow> c_len c' \<le> c_len c"
proof (induction k arbitrary: v c r c')
  case (Suc k)
  show ?case
    by (rule p_bind_le [OF _ _ Suc.prems [unfolded utf8_loop.simps]])
      (auto split: if_splits dest: CBS_get_u8_le p_fail_le Suc.IH)
qed (simp add: p_return_def)

lemma utf8_tail_le: "utf8_tail k lower v c = (r, c') \<Longrightarrow> c_len c' \<le> c_len c"
  unfolding utf8_tail_def
  by (erule p_bind_le [rotated 2]) (auto split: if_splits dest: utf8_loop_le p_return_le p_fail_le)

lemma get_u_less:
  assumes "0 < n" "cbs_get_u n c = (Some x, c')"
  shows "c_len c' < c_len c"
  by (rule p_bind_less [OF _ _ assms(2) [unfolded cbs_get_u_def]])
    (auto dest: cbs_get_less [OF assms(1)] p_return_le)

lemma CBS_get_u16_less: "CBS_get_u16 c = (Some x, c') \<Longrightarrow> c_len c' < c_len c"
  unfolding CBS_get_u16_def by (erule p_bind_less [rotated 2]) (auto dest: get_u_less [of 2, simplified] p_return_le)

lemma CBS_get_u32_less: "CBS_get_u32 c = (Some x, c') \<Longrightarrow> c_len c' < c_len c"
  unfolding CBS_get_u32_def by (erule p_bind_less [rotated 2]) (auto dest: get_u_less [of 4, simplified] p_return_le)

lemma decode_char_less: "decode_char inform c = (Some x, c') \<Longrightarrow> c_len c' < c_len c"
proof -
  assume a: "decode_char inform c = (Some x, c')"
  have 1: "cbs_get_ucs2_be c = (Some x, c') \<Longrightarrow> ?thesis"
    unfolding cbs_get_ucs2_be_def
    by (erule p_bind_less [rotated 2]) (auto split: if_splits dest: CBS_get_u16_less p_return_le p_fail_le)
  have 2: "cbs_get_utf32_be c = (Some x, c') \<Longrightarrow> ?thesis"
    unfolding cbs_get_utf32_be_def
    by (erule p_bind_less [rotated 2]) (auto split: if_splits dest: CBS_get_u32_less p_return_le p_fail_le)
  have 3: "cbs_get_utf8 c = (Some x, c') \<Longrightarrow> ?thesis"
    unfolding cbs_get_utf8_def
    by (erule p_bind_less [rotated 2]) (auto split: if_splits dest: CBS_get_u8_shorter p_return_le p_fail_le utf8_tail_le)
  have 4: "cbs_get_latin1 c = (Some x, c') \<Longrightarrow> ?thesis"
    unfolding cbs_get_latin1_def by (erule p_bind_less [rotated 2]) (auto dest: CBS_get_u8_shorter p_return_le)
  show ?thesis
    using a 1 2 3 4 by (auto simp: decode_char_def decode_func_def p_fail_def split: if_splits)
qed

text \<open>
  The first pass: counts the characters and the bytes they take in UTF-8 (at most twice the bytes of
  the input) and narrows the mask down to the types that can represent them all.
\<close>

function mb_scan :: "int \<Rightarrow> mb_error \<Rightarrow> nat \<Rightarrow> u64 \<Rightarrow> nat \<Rightarrow> CBS \<Rightarrow> mb_error + (nat \<times> u64 \<times> nat)" where
  "mb_scan inform err nchar formats utf8_len cbs =
     (if CBS_len cbs = 0 then Inr (nchar, formats, utf8_len)
      else
        (case decode_char inform cbs of
           (None, cbs) \<Rightarrow> Inl err
         | (Some c, cbs) \<Rightarrow>
             if nchar = 0 \<and> (inform = MBSTRING_BMP \<or> inform = MBSTRING_UNIV) \<and> c = 0xfeff
             then Inl Illegal_characters
             else
               (let formats = narrow_mask formats c in
                if formats = 0 then Inl Illegal_characters
                else mb_scan inform err (nchar + 1) formats (utf8_len + cbb_get_utf8_len c) cbs)))"
  by pat_completeness auto

termination
  by (relation "measure (\<lambda>(inform, err, nchar, formats, utf8_len, cbs). c_len cbs)")
    (auto dest: decode_char_less [OF sym])

declare mb_scan.simps [simp del]

text \<open>
  The type for the formats left, with the output format and the size estimate that go with it.
\<close>

definition choose_type :: "u64 \<Rightarrow> nat \<Rightarrow> nat \<Rightarrow> (int \<times> int \<times> nat) option" where
  "choose_type formats nchar utf8_len =
     (if formats AND B_ASN1_PRINTABLESTRING \<noteq> 0 then Some (V_ASN1_PRINTABLESTRING, MBSTRING_ASC, nchar)
      else if formats AND B_ASN1_IA5STRING \<noteq> 0 then Some (V_ASN1_IA5STRING, MBSTRING_ASC, nchar)
      else if formats AND B_ASN1_T61STRING \<noteq> 0 then Some (V_ASN1_T61STRING, MBSTRING_ASC, nchar)
      else if formats AND B_ASN1_BMPSTRING \<noteq> 0 then Some (V_ASN1_BMPSTRING, MBSTRING_BMP, 2 * nchar)
      else if formats AND B_ASN1_UNIVERSALSTRING \<noteq> 0 then Some (V_ASN1_UNIVERSALSTRING, MBSTRING_UNIV, 4 * nchar)
      else if formats AND B_ASN1_UTF8STRING \<noteq> 0 then Some (V_ASN1_UTF8STRING, MBSTRING_UTF8, utf8_len)
      else None)"

definition encode_func :: "int \<Rightarrow> heap \<Rightarrow> nat \<Rightarrow> u32 \<Rightarrow> CBB \<Rightarrow> bool \<times> CBB" where
  "encode_func outform =
     (if outform = MBSTRING_BMP then cbb_add_ucs2_be
      else if outform = MBSTRING_UNIV then cbb_add_utf32_be
      else if outform = MBSTRING_UTF8 then cbb_add_utf8
      else cbb_add_latin1)"

function mb_convert :: "heap \<Rightarrow> int \<Rightarrow> int \<Rightarrow> CBS \<Rightarrow> CBB \<Rightarrow> bool \<times> CBB" where
  "mb_convert hp inform outform cbs cbb =
     (if CBS_len cbs = 0 then (True, cbb)
      else
        (case decode_char inform cbs of
           (None, cbs) \<Rightarrow> (False, cbb)
         | (Some c, cbs) \<Rightarrow>
             (case encode_func outform hp 0 c cbb of
                (ok, cbb) \<Rightarrow> if \<not> ok then (False, cbb) else mb_convert hp inform outform cbs cbb)))"
  by pat_completeness auto

termination
  by (relation "measure (\<lambda>(hp, inform, outform, cbs, cbb). c_len cbs)") (auto dest: decode_char_less [OF sym])

declare mb_convert.simps [simp del]

subsection \<open>The conversion\<close>

text \<open>
  The output parameter may be NULL (\<open>None\<close>), or point to NULL or to an object. After the call it
  is \<open>Null\<close>, an object, or a pointer to an object that the call has freed.
\<close>

datatype string_pointer = Null | Object ASN1_STRING | Freed

definition out_error :: "bool \<Rightarrow> ASN1_STRING \<Rightarrow> string_pointer" where
  "out_error free_out dest = (if free_out then Freed else Object dest)"

definition mb_store :: "heap \<Rightarrow> bool \<Rightarrow> ASN1_STRING \<Rightarrow> bytes \<Rightarrow> int \<Rightarrow> int \<Rightarrow> int \<Rightarrow> int \<Rightarrow> nat \<Rightarrow>
    (mb_error + int) \<times> string_pointer" where
  "mb_store hp free_out dest inp len inform str_type outform size_estimate =
     (if inform = outform then
        (case ASN1_STRING_set hp dest (Some inp) len of
           (ok, dest) \<Rightarrow> if \<not> ok then (Inl Malloc_failure, Object dest) else (Inr str_type, Object dest))
      else
        (case CBB_init hp (size_estimate + 1) of
           None \<Rightarrow> (Inl Malloc_failure, out_error free_out dest)
         | Some cbb \<Rightarrow>
             (case mb_convert hp inform outform (CBS_init inp (nat (len mod 2 ^ 64))) cbb of
                (ok, cbb) \<Rightarrow>
                  if \<not> ok then (Inl Internal_error, out_error free_out dest)
                  else
                    (case CBB_add_u8 hp 0 0 cbb of
                       (ok, cbb) \<Rightarrow>
                         if \<not> ok then (Inl Internal_error, out_error free_out dest)
                         else
                           (case CBB_finish hp 0 True cbb of
                              (None, cbb) \<Rightarrow> (Inl Internal_error, out_error free_out dest)
                            | (Some data, cbb) \<Rightarrow>
                                if length data < 1 \<or> 2 ^ 31 - 1 < length data
                                then (Inl Internal_error, out_error free_out dest)
                                else (Inr str_type,
                                  Object (dest\<lparr>as_length := int (length data - 1), as_data := Some data\<rparr>)))))))"

definition ASN1_mbstring_ncopy :: "heap \<Rightarrow> ASN1_STRING option option \<Rightarrow> bytes \<Rightarrow> int \<Rightarrow> int \<Rightarrow> u64 \<Rightarrow> int \<Rightarrow> int \<Rightarrow>
    (mb_error + int) \<times> string_pointer" where
  "ASN1_mbstring_ncopy hp out inp len inform mask' minsize maxsize =
     (let unchanged = (case out of Some (Some s) \<Rightarrow> Object s | _ \<Rightarrow> Null);
          len = (if len = - 1 then int_of_size (strlen inp) else len);
          formats = (if mask' = 0 then DIRSTRING_TYPE else mask') in
      case decode_func inform of
        None \<Rightarrow> (Inl Unknown_format, unchanged)
      | Some (f, err) \<Rightarrow>
          (case mb_scan inform err 0 formats 0 (CBS_init inp (nat (len mod 2 ^ 64))) of
             Inl e \<Rightarrow> (Inl e, unchanged)
           | Inr (nchar, formats, utf8_len) \<Rightarrow>
               if 0 < minsize \<and> int nchar < minsize then (Inl String_too_short, unchanged)
               else if 0 < maxsize \<and> maxsize < int nchar then (Inl String_too_long, unchanged)
               else
                 (case choose_type formats nchar utf8_len of
                    None \<Rightarrow> (Inl Illegal_characters, unchanged)
                  | Some (str_type, outform, size_estimate) \<Rightarrow>
                      (case out of
                         None \<Rightarrow> (Inr str_type, unchanged)
                       | Some (Some s) \<Rightarrow>
                           (let dest = (if as_data s = None then s else s\<lparr>as_length := 0, as_data := None\<rparr>);
                                dest = dest\<lparr>as_type := str_type\<rparr> in
                            mb_store hp False dest inp len inform str_type outform size_estimate)
                       | Some None \<Rightarrow>
                           (case ASN1_STRING_type_new hp str_type of
                              None \<Rightarrow> (Inl Malloc_failure, unchanged)
                            | Some dest \<Rightarrow> mb_store hp True dest inp len inform str_type outform size_estimate)))))"

definition ASN1_mbstring_copy :: "heap \<Rightarrow> ASN1_STRING option option \<Rightarrow> bytes \<Rightarrow> int \<Rightarrow> int \<Rightarrow> u64 \<Rightarrow>
    (mb_error + int) \<times> string_pointer" where
  "ASN1_mbstring_copy hp out inp len inform mask' = ASN1_mbstring_ncopy hp out inp len inform mask' 0 0"

end
