(* ===== verification/Asn1_Mbstring_Spec.thy ===== *)
theory Asn1_Mbstring_Spec
  imports Asn1_Mbstring
begin

text \<open>
  What ASN1_mbstring_ncopy does: the conversion succeeds for exactly the inputs that are well
  formed, within the size limits and representable; it chooses the first permitted type that can
  represent the characters, and encodes the same characters in it.
\<close>

subsection \<open>Characters in the four formats\<close>

definition known_format :: "int \<Rightarrow> bool" where
  "known_format f \<longleftrightarrow> f = MBSTRING_UTF8 \<or> f = MBSTRING_ASC \<or> f = MBSTRING_BMP \<or> f = MBSTRING_UNIV"

definition char_ok :: "int \<Rightarrow> nat \<Rightarrow> bool" where
  "char_ok f n =
     (if f = MBSTRING_BMP then code_point n \<and> n < 0x10000
      else if f = MBSTRING_UNIV \<or> f = MBSTRING_UTF8 then code_point n
      else n < 0x100)"

definition char_bytes :: "int \<Rightarrow> nat \<Rightarrow> bytes" where
  "char_bytes f n =
     (if f = MBSTRING_BMP then be_bytes 2 n
      else if f = MBSTRING_UNIV then be_bytes 4 n
      else if f = MBSTRING_UTF8 then utf8 n
      else [of_nat n])"

definition b_filter :: "(nat \<Rightarrow> bool) \<Rightarrow> (bytes \<Rightarrow> (nat \<times> bytes) option) \<Rightarrow> bytes \<Rightarrow> (nat \<times> bytes) option" where
  "b_filter P q = b_bind q (\<lambda>n bs. if P n then Some (n, bs) else None)"

definition b_char :: "int \<Rightarrow> bytes \<Rightarrow> (nat \<times> bytes) option" where
  "b_char f =
     (if f = MBSTRING_BMP then b_filter code_point (b_be 2)
      else if f = MBSTRING_UNIV then b_filter code_point (b_be 4)
      else if f = MBSTRING_UTF8 then b_utf8
      else b_be 1)"

lemma b_filter_iff: "b_filter P q bs = Some (n, rest) \<longleftrightarrow> q bs = Some (n, rest) \<and> P n"
  by (auto simp: b_filter_def b_bind_def split: option.splits)

lemma b_be_iff: "b_be k bs = Some (n, rest) \<longleftrightarrow> n < 256 ^ k \<and> bs = be_bytes k n @ rest"
proof
  assume "b_be k bs = Some (n, rest)"
  then have k: "k \<le> length bs" "n = be_nat (take k bs)" "rest = drop k bs" by (auto simp: b_be_def split: if_splits)
  then have "length (take k bs) = k" by simp
  then have "n < 256 ^ k" "be_bytes k n = take k bs"
    using k(2) be_nat_lt [of "take k bs"] be_bytes_be_nat [of "take k bs"] by simp_all
  then show "n < 256 ^ k \<and> bs = be_bytes k n @ rest" using k(3) by simp
next
  assume "n < 256 ^ k \<and> bs = be_bytes k n @ rest"
  then show "b_be k bs = Some (n, rest)" by (simp add: b_be_def)
qed

lemma code_point_below: "n < 0x100 \<Longrightarrow> code_point n"
  by (simp add: code_point_def)

lemma char_ok_code_point: "char_ok f n \<Longrightarrow> code_point n"
  by (auto simp: char_ok_def code_point_below split: if_splits)

lemma char_ok_lt: "char_ok f n \<Longrightarrow> n < 0x110000"
  by (rule code_point_lt) (rule char_ok_code_point)

lemma char_bytes_nonempty: "char_bytes f n \<noteq> []"
proof -
  have "0 < k \<Longrightarrow> be_bytes k n \<noteq> []" for k by (simp flip: length_greater_0_conv)
  then show ?thesis by (simp add: char_bytes_def utf8_nonempty)
qed

lemma length_char_bytes_pos [simp]: "0 < length (char_bytes f n)"
  using char_bytes_nonempty [of f n] by simp

lemma length_char_bytes: "length (char_bytes f n) \<le> 4"
  by (simp add: char_bytes_def length_utf8)

lemma b_char_iff:
  assumes "known_format f"
  shows "b_char f bs = Some (n, rest) \<longleftrightarrow> char_ok f n \<and> bs = char_bytes f n @ rest"
proof -
  have "code_point n \<Longrightarrow> n < 4294967296" using code_point_lt [of n] by simp
  then show ?thesis
    using assms by (auto simp: known_format_def b_char_def char_ok_def char_bytes_def b_filter_iff b_be_iff b_utf8_iff
      be_bytes_1 [simplified])
qed

lemma reads_as_valid:
  assumes "reads_as (\<lambda>w v. w = of_nat v) p (b_be k)" "256 ^ k \<le> (2 :: nat) ^ LENGTH('a)" "LENGTH('a) \<le> 32"
  shows "reads_as (\<lambda>w v. unat w = v)
    (p_bind p (\<lambda>c. if \<not> is_valid_code_point (ucast (c :: 'a::len word)) then p_fail else p_return (ucast c :: u32)))
    (b_filter code_point (b_be k))"
proof -
  have "reads_as (\<lambda>w v. unat w = v) p (b_be k)"
  proof (rule reads_as_strengthen [OF assms(1)])
    fix bs rest and x :: "'a word" and y assume "b_be k bs = Some (y, rest)" "x = of_nat y"
    then show "unat x = y" using assms(2) by (simp add: b_be_iff unat_of_nat)
  qed
  then show ?thesis
    unfolding b_filter_def
  proof (rule reads_as_bind)
    fix x :: "'a word" and y assume x: "unat x = y"
    have "(2 :: nat) ^ LENGTH('a) \<le> 2 ^ 32" using assms(3) by (intro power_increasing) simp_all
    then have "unat x < 2 ^ 32" using unat_lt_2p [of x] by (rule less_le_trans [rotated])
    then have "unat (ucast x :: u32) = y" using x by (simp add: unat_ucast_word)
    then show "reads_as (\<lambda>w v. unat w = v) (if \<not> is_valid_code_point (ucast x) then p_fail else p_return (ucast x :: u32))
        (\<lambda>bs. if code_point y then Some (y, bs) else None)"
      using reads_as_return [of "\<lambda>w v. unat w = v" "ucast x :: u32" y]
      by (cases "code_point y") (simp_all add: is_valid_code_point_iff reads_as_fail)
  qed
qed

lemma decode_char_reads:
  assumes "known_format f"
  shows "reads_as (\<lambda>w v. unat w = v) (decode_char f) (b_char f)"
proof -
  have bmp: "reads_as (\<lambda>w v. unat w = v) cbs_get_ucs2_be (b_filter code_point (b_be 2))"
    using reads_as_valid [OF CBS_get_u16_reads] by (simp add: cbs_get_ucs2_be_def)
  have univ: "reads_as (\<lambda>w v. unat w = v) cbs_get_utf32_be (b_filter code_point (b_be 4))"
  proof -
    have id: "(ucast c :: u32) = c" for c by (rule bit_word_eqI) (simp add: bit_simps)
    have "cbs_get_utf32_be = p_bind CBS_get_u32
        (\<lambda>c. if \<not> is_valid_code_point (ucast c) then p_fail else p_return (ucast c))"
      unfolding cbs_get_utf32_be_def by (rule arg_cong [of _ _ "p_bind CBS_get_u32"]) (rule ext, simp only: id)
    then show ?thesis using reads_as_valid [OF CBS_get_u32_reads] by simp
  qed
  have "reads_as (\<lambda>w v. unat w = v) cbs_get_latin1 (\<lambda>bs. map_option (apfst unat) (b_u8 bs))"
    unfolding cbs_get_latin1_def by (rule reads_as_map [OF CBS_get_u8_byte]) (simp add: unat_ucast_word mod_less [OF less_trans [OF unat_u8_lt]])
  then have asc: "reads_as (\<lambda>w v. unat w = v) cbs_get_latin1 (b_be 1)"
    by (rule reads_as_cong) (simp add: b_u8_def b_be_def split: list.split)
  show ?thesis
    using assms bmp univ asc cbs_get_utf8_reads by (auto simp: known_format_def decode_char_def decode_func_def b_char_def)
qed

subsection \<open>The types that can represent the characters\<close>

text \<open>What the characters of a type are, and the types in order of preference with mask bit and format.\<close>

definition represents :: "int \<Rightarrow> nat \<Rightarrow> bool" where
  "represents t n =
     (if t = V_ASN1_PRINTABLESTRING then asn1_is_printable (of_nat n)
      else if t = V_ASN1_IA5STRING then n < 0x80
      else if t = V_ASN1_T61STRING then n < 0x100
      else if t = V_ASN1_BMPSTRING then n < 0x10000
      else True)"

definition string_types :: "(int \<times> u64 \<times> int) list" where
  "string_types =
     [(V_ASN1_PRINTABLESTRING, B_ASN1_PRINTABLESTRING, MBSTRING_ASC), (V_ASN1_IA5STRING, B_ASN1_IA5STRING, MBSTRING_ASC),
      (V_ASN1_T61STRING, B_ASN1_T61STRING, MBSTRING_ASC), (V_ASN1_BMPSTRING, B_ASN1_BMPSTRING, MBSTRING_BMP),
      (V_ASN1_UNIVERSALSTRING, B_ASN1_UNIVERSALSTRING, MBSTRING_UNIV), (V_ASN1_UTF8STRING, B_ASN1_UTF8STRING, MBSTRING_UTF8)]"

definition best_type :: "u64 \<Rightarrow> nat list \<Rightarrow> (int \<times> u64 \<times> int) option" where
  "best_type formats cs = find (\<lambda>(t, b, f). formats AND b \<noteq> 0 \<and> list_all (represents t) cs) string_types"

definition narrow :: "u64 \<Rightarrow> nat list \<Rightarrow> u64" where
  "narrow formats cs = foldl (\<lambda>m n. narrow_mask m (of_nat n)) formats cs"

lemma narrow_Cons [simp]: "narrow formats (c # cs) = narrow (narrow_mask formats (of_nat c)) cs"
  by (simp add: narrow_def)

lemma narrow_Nil [simp]: "narrow formats [] = formats"
  by (simp add: narrow_def)

lemma narrow_0 [simp]: "narrow 0 cs = 0"
  by (induction cs) (simp_all add: narrow_mask_def)

text \<open>A mask tested and cleared at single bits.\<close>

lemma and_exp_iff: "(m :: u64) AND 2 ^ i \<noteq> 0 \<longleftrightarrow> bit m i \<and> i < 64"
proof -
  have "m AND 2 ^ i = (if bit m i then push_bit i 1 else 0)"
    by (rule bit_word_eqI) (auto simp: bit_simps)
  moreover have "(push_bit i 1 :: u64) \<noteq> 0 \<longleftrightarrow> i < 64"
  proof
    show "i < 64" if "(push_bit i 1 :: u64) \<noteq> 0"
    proof (rule ccontr)
      assume "\<not> i < 64"
      then have "(push_bit i 1 :: u64) = 0" by (intro bit_word_eqI) (simp add: bit_simps)
      with that show False by contradiction
    qed
    assume "i < 64"
    then have "bit (push_bit i 1 :: u64) i" by (simp add: bit_simps)
    then show "(push_bit i 1 :: u64) \<noteq> 0" by (metis bit_0_eq bot_apply bot_bool_def)
  qed
  moreover have "bit m i \<Longrightarrow> i < 64" using bit_imp_le_length [of m i] by simp
  ultimately show ?thesis by auto
qed

lemma test_bits:
  "(m :: u64) AND 2 = 0 \<longleftrightarrow> \<not> bit m 1" "m AND 4 = 0 \<longleftrightarrow> \<not> bit m 2" "m AND 16 = 0 \<longleftrightarrow> \<not> bit m 4"
  "m AND 256 = 0 \<longleftrightarrow> \<not> bit m 8" "m AND 2048 = 0 \<longleftrightarrow> \<not> bit m 11" "m AND 8192 = 0 \<longleftrightarrow> \<not> bit m 13"
  using and_exp_iff [of m 1] and_exp_iff [of m 2] and_exp_iff [of m 4] and_exp_iff [of m 8] and_exp_iff [of m 11]
    and_exp_iff [of m 13] by auto

lemma clear_exp: "bit ((m :: u64) AND NOT (2 ^ i)) j \<longleftrightarrow> bit m j \<and> j \<noteq> i"
  using bit_imp_le_length [of m j] by (auto simp: bit_simps)

lemma clear_bits:
  "bit ((m :: u64) AND NOT 2) j \<longleftrightarrow> bit m j \<and> j \<noteq> 1" "bit (m AND NOT 4) j \<longleftrightarrow> bit m j \<and> j \<noteq> 2"
  "bit (m AND NOT 16) j \<longleftrightarrow> bit m j \<and> j \<noteq> 4" "bit (m AND NOT 2048) j \<longleftrightarrow> bit m j \<and> j \<noteq> 11"
  using clear_exp [of m 1 j] clear_exp [of m 2 j] clear_exp [of m 4 j] clear_exp [of m 11 j] by simp_all

lemma cleared:
  "bit (if (m :: u64) AND 2 \<noteq> 0 \<and> P then m AND NOT 2 else m) j \<longleftrightarrow> bit m j \<and> (j = 1 \<longrightarrow> \<not> P)"
  "bit (if m AND 16 \<noteq> 0 \<and> P then m AND NOT 16 else m) j \<longleftrightarrow> bit m j \<and> (j = 4 \<longrightarrow> \<not> P)"
  "bit (if m AND 4 \<noteq> 0 \<and> P then m AND NOT 4 else m) j \<longleftrightarrow> bit m j \<and> (j = 2 \<longrightarrow> \<not> P)"
  "bit (if m AND 2048 \<noteq> 0 \<and> P then m AND NOT 2048 else m) j \<longleftrightarrow> bit m j \<and> (j = 11 \<longrightarrow> \<not> P)"
  by (auto simp only: test_bits clear_bits not_not split: if_splits)

lemma narrow_mask_bits:
  "bit (narrow_mask m c) j \<longleftrightarrow> bit m j \<and> (j = 1 \<longrightarrow> asn1_is_printable c) \<and> (j = 4 \<longrightarrow> c \<le> 127) \<and>
     (j = 2 \<longrightarrow> c \<le> 0xff) \<and> (j = 11 \<longrightarrow> c \<le> 0xffff)"
  unfolding narrow_mask_def Let_def cleared not_less not_not by blast

lemma represents_simps:
  "represents V_ASN1_PRINTABLESTRING n = asn1_is_printable (of_nat n)" "represents V_ASN1_IA5STRING n \<longleftrightarrow> n < 0x80"
  "represents V_ASN1_T61STRING n \<longleftrightarrow> n < 0x100" "represents V_ASN1_BMPSTRING n \<longleftrightarrow> n < 0x10000"
  by (simp_all add: represents_def)

lemma narrow_bits:
  assumes "\<forall>n \<in> set cs. n < 0x110000"
  shows "bit (narrow m cs) j \<longleftrightarrow> bit m j \<and> (j = 1 \<longrightarrow> list_all (represents V_ASN1_PRINTABLESTRING) cs) \<and>
     (j = 4 \<longrightarrow> list_all (represents V_ASN1_IA5STRING) cs) \<and> (j = 2 \<longrightarrow> list_all (represents V_ASN1_T61STRING) cs) \<and>
     (j = 11 \<longrightarrow> list_all (represents V_ASN1_BMPSTRING) cs)"
  using assms
proof (induction cs arbitrary: m)
  case (Cons n cs)
  have n: "unat (of_nat n :: u32) = n" using Cons.prems by (simp add: unat_of_nat)
  then have le: "(of_nat n :: u32) \<le> 127 \<longleftrightarrow> n < 0x80" "(of_nat n :: u32) \<le> 0xff \<longleftrightarrow> n < 0x100"
    "(of_nat n :: u32) \<le> 0xffff \<longleftrightarrow> n < 0x10000"
    by (simp_all add: word_le_nat_alt, linarith+)
  have "\<forall>n \<in> set cs. n < 0x110000" using Cons.prems by simp
  from Cons.IH [OF this, of "narrow_mask m (of_nat n)"] show ?case
    unfolding narrow_Cons narrow_mask_bits le list.pred_inject represents_simps by blast
qed simp

lemma choose_type_narrow:
  assumes "\<forall>n \<in> set cs. n < 0x110000"
  shows "(case choose_type (narrow m cs) k u of None \<Rightarrow> None | Some (t, f, e) \<Rightarrow> Some (t, f)) =
    (case best_type m cs of None \<Rightarrow> None | Some (t, b, f) \<Rightarrow> Some (t, f))"
  unfolding choose_type_def best_type_def string_types_def test_bits narrow_bits [OF assms]
  by (simp add: represents_def test_bits Ball_set [symmetric])

subsection \<open>The first pass\<close>

definition has_bom :: "int \<Rightarrow> nat list \<Rightarrow> bool" where
  "has_bom f cs \<longleftrightarrow> (f = MBSTRING_BMP \<or> f = MBSTRING_UNIV) \<and> cs \<noteq> [] \<and> hd cs = 0xfeff"

definition encoded :: "int \<Rightarrow> nat list \<Rightarrow> bytes" where
  "encoded f cs = concat (map (char_bytes f) cs)"

lemma encoded_simps [simp]: "encoded f [] = []" "encoded f (n # cs) = char_bytes f n @ encoded f cs"
  by (simp_all add: encoded_def)

lemma cbb_get_utf8_len_eq: "cbb_get_utf8_len u = length (utf8 (unat u))"
  by (simp add: cbb_get_utf8_len_def length_utf8 word_le_nat_alt)

text \<open>What the decoder makes of a window that is not empty.\<close>

lemma decode_char_cases:
  assumes "known_format f" "wf_cbs c" "CBS_len c \<noteq> 0"
  obtains (Invalid) c' where "decode_char f c = (None, c')" "\<And>cs. list_all (char_ok f) cs \<Longrightarrow> view c \<noteq> encoded f cs"
  | (Valid) w c' where "decode_char f c = (Some w, c')" "wf_cbs c'" "c_len c' < c_len c" "char_ok f (unat w)"
      "view c = char_bytes f (unat w) @ view c'"
      "\<And>cs. list_all (char_ok f) cs \<and> view c = encoded f cs \<longleftrightarrow>
         (\<exists>cs'. cs = unat w # cs' \<and> list_all (char_ok f) cs' \<and> view c' = encoded f cs')"
proof -
  obtain r c' where dec: "decode_char f c = (r, c')" by fastforce
  note R = reads_asD [OF decode_char_reads [OF assms(1)] assms(2) dec]
  have some: "view c \<noteq> []" using assms(3) CBS_len_zero [OF assms(2)] by simp
  have first: "\<exists>n cs'. cs = n # cs' \<and> b_char f (view c) = Some (n, encoded f cs')"
    if "list_all (char_ok f) cs" "view c = encoded f cs" for cs
    using that some by (cases cs) (auto simp: b_char_iff [OF assms(1)])
  show thesis
  proof (cases "b_char f (view c)")
    case None
    then have "r = None" using R(3) by simp
    then show thesis using Invalid dec first None by fastforce
  next
    case (Some p)
    then obtain n rest where p: "b_char f (view c) = Some (n, rest)" by (cases p) auto
    with R(4) obtain w where w: "r = Some w" "unat w = n" "view c' = rest" by blast
    have n: "char_ok f n" "view c = char_bytes f n @ rest" using p by (simp_all add: b_char_iff [OF assms(1)])
    have "list_all (char_ok f) cs \<and> view c = encoded f cs \<longleftrightarrow>
        (\<exists>cs'. cs = n # cs' \<and> list_all (char_ok f) cs' \<and> rest = encoded f cs')" for cs
    proof
      assume a: "list_all (char_ok f) cs \<and> view c = encoded f cs"
      then obtain n' cs' where cs': "cs = n' # cs'" "b_char f (view c) = Some (n', encoded f cs')" using first by blast
      then have "n' = n" "rest = encoded f cs'" using p by simp_all
      then show "\<exists>cs'. cs = n # cs' \<and> list_all (char_ok f) cs' \<and> rest = encoded f cs'" using cs'(1) a by simp
    next
      assume "\<exists>cs'. cs = n # cs' \<and> list_all (char_ok f) cs' \<and> rest = encoded f cs'"
      then show "list_all (char_ok f) cs \<and> view c = encoded f cs" using n by auto
    qed
    then show thesis
      using Valid [of w c'] dec w n R(1) decode_char_less [of f c w c'] by simp
  qed
qed

lemma ex_Cons:
  "(\<And>cs. P cs \<longleftrightarrow> (\<exists>cs'. cs = x # cs' \<and> P' cs')) \<Longrightarrow> (\<exists>cs. P cs \<and> Q cs) \<longleftrightarrow> (\<exists>cs. P' cs \<and> Q (x # cs))"
  by (simp add: ex_simps) (metis list.inject)

lemma ex_constant: "(\<exists>x. A x \<and> B x \<and> P \<and> Q \<and> R x) \<longleftrightarrow> P \<and> Q \<and> (\<exists>x. A x \<and> B x \<and> R x)"
  by blast

lemma mb_scan_iff:
  assumes "known_format f" "wf_cbs c" "formats \<noteq> 0"
  shows "mb_scan f err k formats u c = Inr (n, m, v) \<longleftrightarrow>
    (\<exists>cs. list_all (char_ok f) cs \<and> view c = encoded f cs \<and> \<not> (k = 0 \<and> has_bom f cs) \<and>
      m = narrow formats cs \<and> m \<noteq> 0 \<and> n = k + length cs \<and> v = u + length (encoded MBSTRING_UTF8 cs))"
  using assms(2,3)
proof (induction "c_len c" arbitrary: c k formats u rule: less_induct)
  case less
  show ?case
  proof (cases "CBS_len c = 0")
    case True
    then have "view c = []" using CBS_len_zero [OF less.prems(1)] by blast
    then have nil: "list_all (char_ok f) cs \<and> view c = encoded f cs \<longleftrightarrow> cs = []" for cs
      using char_bytes_nonempty by (cases cs) auto
    have "(\<exists>cs. list_all (char_ok f) cs \<and> view c = encoded f cs \<and> Q cs) \<longleftrightarrow> Q []" for Q
      by (simp only: conj_assoc [symmetric] nil) simp
    from this [of "\<lambda>cs. \<not> (k = 0 \<and> has_bom f cs) \<and> m = narrow formats cs \<and> m \<noteq> 0 \<and> n = k + length cs \<and>
        v = u + length (encoded MBSTRING_UTF8 cs)"]
    show ?thesis
      using less.prems(2) by (subst mb_scan.simps) (auto simp: True has_bom_def)
  next
    case False
    from assms(1) less.prems(1) False show ?thesis
    proof (cases rule: decode_char_cases)
      case (Invalid c')
      then show ?thesis by (subst mb_scan.simps) (use False in auto)
    next
      case (Valid w c')
      let ?m = "narrow_mask formats w"
      have bom: "has_bom f (unat w # cs) \<longleftrightarrow> (f = MBSTRING_BMP \<or> f = MBSTRING_UNIV) \<and> w = 0xfeff" for cs
        by (simp add: has_bom_def word_unat_eq_iff)
      have step: "mb_scan f err k formats u c =
          (if k = 0 \<and> (f = MBSTRING_BMP \<or> f = MBSTRING_UNIV) \<and> w = 0xfeff then Inl Illegal_characters
           else if ?m = 0 then Inl Illegal_characters
           else mb_scan f err (k + 1) ?m (u + cbb_get_utf8_len w) c')"
        by (subst mb_scan.simps) (use False Valid(1) in \<open>simp add: Let_def\<close>)
      let ?Q = "\<lambda>k formats u cs. \<not> (k = 0 \<and> has_bom f cs) \<and> m = narrow formats cs \<and> m \<noteq> 0 \<and> n = k + length cs \<and>
        v = u + length (encoded MBSTRING_UTF8 cs)"
      let ?bom = "k = 0 \<and> (f = MBSTRING_BMP \<or> f = MBSTRING_UNIV) \<and> w = 0xfeff"
      have Q: "?Q k formats u (unat w # cs) \<longleftrightarrow> \<not> ?bom \<and> ?m \<noteq> 0 \<and> ?Q (k + 1) ?m (u + cbb_get_utf8_len w) cs" for cs
        by (cases "?m = 0") (auto simp: bom cbb_get_utf8_len_eq char_bytes_def)
      have "(\<exists>cs. list_all (char_ok f) cs \<and> view c = encoded f cs \<and> ?Q k formats u cs) \<longleftrightarrow>
          (\<exists>cs. list_all (char_ok f) cs \<and> view c' = encoded f cs \<and> ?Q k formats u (unat w # cs))"
        using ex_Cons [of "\<lambda>cs. list_all (char_ok f) cs \<and> view c = encoded f cs" "unat w"
          "\<lambda>cs. list_all (char_ok f) cs \<and> view c' = encoded f cs" "?Q k formats u", OF Valid(6)]
        by (simp only: conj_assoc)
      also have "\<dots> \<longleftrightarrow> \<not> ?bom \<and> ?m \<noteq> 0 \<and> (\<exists>cs. list_all (char_ok f) cs \<and> view c' = encoded f cs \<and>
          ?Q (k + 1) ?m (u + cbb_get_utf8_len w) cs)"
        unfolding Q by (rule ex_constant)
      also have "\<dots> \<longleftrightarrow> mb_scan f err k formats u c = Inr (n, m, v)"
        using less.hyps [OF Valid(3,2), of ?m "k + 1" "u + cbb_get_utf8_len w"] unfolding step
        by (cases ?bom; cases "?m = 0") (simp_all, blast)
      finally show ?thesis by blast
    qed
  qed
qed

subsection \<open>The second pass\<close>

lemma encode_func_appends:
  assumes "known_format f" "char_ok f (unat w)"
  shows "appends hp 0 (char_bytes f (unat w)) True (encode_func f hp 0 w)"
proof -
  have le: "w \<le> 0xffff \<longleftrightarrow> unat w < 0x10000" "w \<le> 0xff \<longleftrightarrow> unat w < 0x100" by (simp_all add: word_le_nat_alt, linarith+)
  have u: "unat w < 0x10000 \<Longrightarrow> unat (ucast w :: u16) = unat w" "(ucast w :: u8) = of_nat (unat w)"
    by (simp_all add: unat_ucast_word)
  from assms(1) consider "f = MBSTRING_BMP" | "f = MBSTRING_UNIV" | "f = MBSTRING_UTF8" | "f = MBSTRING_ASC"
    unfolding known_format_def by blast
  then show ?thesis
  proof cases
    case 1
    then have "char_bytes f (unat w) = be_bytes 2 (unat (ucast w :: u16))" "encode_func f hp 0 w = CBB_add_u16 hp 0 (ucast w)"
      using assms(2) u(1) by (simp_all add: encode_func_def char_bytes_def char_ok_def cbb_add_ucs2_be_def is_valid_code_point_iff le)
    then show ?thesis by (simp only: CBB_add_u16_appends)
  next
    case 2
    then have "char_bytes f (unat w) = be_bytes 4 (unat w)" "encode_func f hp 0 w = CBB_add_u32 hp 0 w"
      using assms(2) by (simp_all add: encode_func_def char_bytes_def char_ok_def cbb_add_utf32_be_def is_valid_code_point_iff)
    then show ?thesis by (simp only: CBB_add_u32_appends)
  next
    case 3
    then have "char_bytes f (unat w) = utf8 (unat w)" "encode_func f hp 0 w = cbb_add_utf8 hp 0 w"
      by (simp_all add: encode_func_def char_bytes_def)
    then show ?thesis using cbb_add_utf8_appends [OF char_ok_code_point [OF assms(2)]] by (simp only:)
  next
    case 4
    then have "char_bytes f (unat w) = [of_nat (unat w)]" "encode_func f hp 0 w = CBB_add_u8 hp 0 (of_nat (unat w))"
      using assms(2) u(2) by (simp_all add: encode_func_def char_bytes_def char_ok_def cbb_add_latin1_def le)
    then show ?thesis by (simp only: CBB_add_u8_appends)
  qed
qed

lemma mb_convert_appends:
  assumes "known_format f" "known_format g"
  shows "wf_cbs c \<Longrightarrow> view c = encoded f cs \<Longrightarrow> list_all (char_ok f) cs \<Longrightarrow> list_all (char_ok g) cs \<Longrightarrow>
    appends hp 0 (encoded g cs) True (mb_convert hp f g c)"
proof (induction cs arbitrary: c)
  case Nil
  then have "CBS_len c = 0" using CBS_len_zero [OF Nil.prems(1)] by simp
  then have "mb_convert hp f g c = Pair True" by (subst mb_convert.simps [abs_def]) (simp add: fun_eq_iff)
  then show ?case by (simp add: appends_return)
next
  case (Cons n cs)
  have len: "CBS_len c \<noteq> 0"
    using CBS_len_zero [OF Cons.prems(1)] Cons.prems(2) char_bytes_nonempty by simp
  from assms(1) Cons.prems(1) len show ?case
  proof (cases rule: decode_char_cases)
    case (Invalid c')
    then show ?thesis using Cons.prems(2,3) by blast
  next
    case (Valid w c')
    then have w: "n = unat w" "view c' = encoded f cs" using Cons.prems(2,3) by blast+
    have ok: "list_all (char_ok f) cs" "list_all (char_ok g) cs" "char_ok g (unat w)" using Cons.prems(3,4) w by simp_all
    have "mb_convert hp f g c = cbb_then (encode_func g hp 0 w) (mb_convert hp f g c')"
      by (rule ext, subst mb_convert.simps) (simp add: len Valid(1) cbb_then_def)
    then show ?thesis
      using appends_then [OF encode_func_appends [OF assms(2) ok(3)] Cons.IH [OF Valid(2) w(2) ok(1,2)]] w(1) by simp
  qed
qed

subsection \<open>The conversion\<close>

lemma ASN1_STRING_set_new:
  assumes "\<forall>k. hp_serves hp k" "0 \<le> len" "nat len \<le> length inp" "as_data dest = None"
  shows "ASN1_STRING_set hp dest (Some inp) len =
    (True, dest\<lparr>as_length := len, as_data := Some (take (nat len) inp @ [0])\<rparr>)"
proof -
  have "nat (len + 1) = Suc (nat len)" using assms(2) by simp
  then have "drop (nat len) (fresh_bytes hp (nat (len + 1))) = [fresh_bytes hp (nat (len + 1)) ! nat len]"
    by (intro nth_equalityI) (simp_all add: nth_append)
  moreover have "length (take (nat len) inp) = nat len" using assms(3) by simp
  ultimately show ?thesis
    using assms by (simp add: ASN1_STRING_set_def OPENSSL_realloc_def Let_def list_update_append)
qed

lemma length_encoded: "length (encoded f cs) \<le> 4 * length cs"
  using length_char_bytes [of f] by (induction cs) (simp_all add: add_mono)

lemma length_encoded_ge: "length cs \<le> length (encoded f cs)"
proof (induction cs)
  case (Cons n cs)
  moreover have "1 \<le> length (char_bytes f n)" using length_char_bytes_pos [of f n] by linarith
  ultimately show ?case by simp
qed simp

text \<open>What the object must hold in the end.\<close>

definition holds_string :: "string_pointer \<Rightarrow> int \<Rightarrow> bytes \<Rightarrow> bool" where
  "holds_string p t bs \<longleftrightarrow>
     (\<exists>dest. p = Object dest \<and> as_type dest = t \<and> as_length dest = int (length bs) \<and> as_data dest = Some (bs @ [0]))"

lemma mb_store_spec:
  assumes hp: "\<forall>k. hp_serves hp k" and f: "known_format f" "known_format g"
    and len: "0 \<le> len" "nat len \<le> length inp" "len < 2 ^ 29" and n: "estimate < 2 ^ 63"
    and cs: "take (nat len) inp = encoded f cs" "list_all (char_ok f) cs" "list_all (char_ok g) cs"
    and dest: "as_data dest = None" "as_type dest = t"
  shows "\<exists>p. mb_store hp free_out dest inp len f t g estimate = (Inr t, p) \<and> holds_string p t (encoded g cs)"
proof (cases "f = g")
  case True
  have "length (encoded f cs) = nat len" using len(2) by (simp flip: cs(1))
  then show ?thesis
    using ASN1_STRING_set_new [OF hp len(1,2) dest(1)] True len(1) dest cs(1)
    by (simp add: mb_store_def holds_string_def)
next
  case False
  let ?c = "CBS_init inp (nat (len mod 2 ^ 64))" and ?out = "encoded g cs @ [0]"
  have "len mod 2 ^ 64 = len" using len by simp
  then have c: "wf_cbs ?c" "view ?c = encoded f cs" using len by (simp_all add: cs(1) nat_less_iff)
  have "length cs \<le> nat len" using length_encoded_ge [of cs f] len(2) by (simp flip: cs(1))
  then have short: "length ?out < 2 ^ 31" using length_encoded [of g cs] len(3) by simp
  let ?w = "cbb_then (mb_convert hp f g ?c) (CBB_add_u8 hp 0 0)"
  have w: "appends hp 0 ?out True ?w"
    using appends_then [OF mb_convert_appends [OF f c cs(2,3)] CBB_add_u8_appends, of hp 0] by simp
  have "written hp (estimate + 1) ?w = Some ?out"
    by (rule written_eq [OF hp _ w]) (use n short in simp_all)
  then have "\<exists>p. mb_store hp free_out dest inp len f t g estimate = (Inr t, p) \<and>
      p = Object (dest\<lparr>as_length := int (length ?out - 1), as_data := Some ?out\<rparr>)"
    using False short
    by (auto simp: mb_store_def written_def cbb_then_def split: option.splits prod.splits if_splits)
  then show ?thesis using dest(2) by (auto simp: holds_string_def)
qed

text \<open>The bounds on the number of characters.\<close>

definition size_ok :: "int \<Rightarrow> int \<Rightarrow> nat \<Rightarrow> bool" where
  "size_ok minsize maxsize n \<longleftrightarrow> (0 < minsize \<longrightarrow> minsize \<le> int n) \<and> (0 < maxsize \<longrightarrow> int n \<le> maxsize)"

text \<open>The bytes of the string that the input is to become, and its type.\<close>

definition recoded :: "int \<Rightarrow> u64 \<Rightarrow> int \<Rightarrow> int \<Rightarrow> bytes \<Rightarrow> int \<Rightarrow> bytes \<Rightarrow> bool" where
  "recoded f formats minsize maxsize inp t bs \<longleftrightarrow>
     (\<exists>cs b g. list_all (char_ok f) cs \<and> inp = encoded f cs \<and> \<not> has_bom f cs \<and>
        size_ok minsize maxsize (length cs) \<and>
        best_type (if formats = 0 then DIRSTRING_TYPE else formats) cs = Some (t, b, g) \<and> bs = encoded g cs)"

lemma printable_lt: "asn1_is_printable (of_nat n) \<Longrightarrow> n < 0x110000 \<Longrightarrow> n < 0x100"
  by (simp add: asn1_is_printable_def word_less_nat_alt unat_of_nat split: if_splits)

lemma best_type_format:
  assumes "best_type formats cs = Some (t, b, g)" "list_all (char_ok f) cs"
  shows "known_format g" "list_all (char_ok g) cs"
proof -
  have in_types: "(t, b, g) \<in> set string_types" and rep: "list_all (represents t) cs"
    using assms(1) nth_mem by (fastforce simp: best_type_def find_Some_iff)+
  then show "known_format g" by (auto simp: string_types_def known_format_def)
  have cs: "\<forall>n \<in> set cs. code_point n \<and> n < 0x110000 \<and> represents t n"
    using assms(2) rep char_ok_code_point char_ok_lt by (metis (full_types) list_all_iff)
  from in_types consider "t = V_ASN1_PRINTABLESTRING \<and> g = MBSTRING_ASC" | "t = V_ASN1_IA5STRING \<and> g = MBSTRING_ASC"
    | "t = V_ASN1_T61STRING \<and> g = MBSTRING_ASC" | "t = V_ASN1_BMPSTRING \<and> g = MBSTRING_BMP"
    | "g = MBSTRING_UNIV \<or> g = MBSTRING_UTF8"
    unfolding string_types_def by fastforce
  then have "\<forall>n \<in> set cs. char_ok g n"
    by cases (use cs printable_lt in \<open>auto simp: char_ok_def represents_simps\<close>)
  then show "list_all (char_ok g) cs" by (simp add: list_all_iff)
qed

lemma choose_type_cases:
  assumes "list_all (char_ok f) cs"
  shows "best_type m cs = Some (t, b, g) \<Longrightarrow> \<exists>e. choose_type (narrow m cs) k u = Some (t, g, e)"
    "choose_type (narrow m cs) k u = Some (t, g, e) \<Longrightarrow> \<exists>b. best_type m cs = Some (t, b, g)"
proof -
  have "\<forall>n \<in> set cs. n < 0x110000" using assms char_ok_lt by (auto simp: list_all_iff)
  note eq = choose_type_narrow [OF this, of m k u]
  show "best_type m cs = Some (t, b, g) \<Longrightarrow> \<exists>e. choose_type (narrow m cs) k u = Some (t, g, e)"
    using eq by (auto split: option.splits prod.splits)
  show "choose_type (narrow m cs) k u = Some (t, g, e) \<Longrightarrow> \<exists>b. best_type m cs = Some (t, b, g)"
    using eq by (auto split: option.splits prod.splits)
qed

lemma choose_type_estimate: "choose_type m k u = Some (t, g, e) \<Longrightarrow> e \<le> 4 * k + u"
  by (auto simp: choose_type_def split: if_splits)

lemma choose_type_zero [simp]: "choose_type 0 k u = None"
  by (simp add: choose_type_def)

lemma decode_func_known: "known_format f \<Longrightarrow> \<exists>p e. decode_func f = Some (p, e)"
  by (auto simp: known_format_def decode_func_def)

lemma mb_store_type: "fst (mb_store hp fo dest inp len f t g e) = Inr t' \<Longrightarrow> t' = t"
  by (auto simp: mb_store_def split: if_splits prod.splits option.splits)

lemma ncopy_stores:
  assumes "decode_func inform = Some (p, err)" "0 \<le> len" "len < 2 ^ 29" "hp_serves hp 24"
    and scan: "mb_scan inform err 0 (if formats = 0 then DIRSTRING_TYPE else formats) 0 (CBS_init inp (nat len)) = Inr (n, m, u)"
    and ok: "size_ok minsize maxsize n" "choose_type m n u = Some (t, g, e)"
  shows "\<exists>free_out dest. as_data dest = None \<and> as_type dest = t \<and>
    ASN1_mbstring_ncopy hp (Some out) inp len inform formats minsize maxsize = mb_store hp free_out dest inp len inform t g e"
proof -
  have "len mod 2 ^ 64 = len" "len \<noteq> - 1" using assms by simp_all
  then have eq: "ASN1_mbstring_ncopy hp (Some out) inp len inform formats minsize maxsize =
      (case out of
         Some s \<Rightarrow> mb_store hp False
           ((if as_data s = None then s else s\<lparr>as_length := 0, as_data := None\<rparr>)\<lparr>as_type := t\<rparr>) inp len inform t g e
       | None \<Rightarrow> mb_store hp True \<lparr>as_length = 0, as_type = t, as_data = None, as_flags = 0\<rparr> inp len inform t g e)"
    using assms by (cases out) (auto simp: ASN1_mbstring_ncopy_def Let_def size_ok_def ASN1_STRING_type_new_def)
  show ?thesis
  proof (cases out)
    case (Some s)
    with eq show ?thesis
      by (intro exI [of _ False]
        exI [of _ "(if as_data s = None then s else s\<lparr>as_length := 0, as_data := None\<rparr>)\<lparr>as_type := t\<rparr>"]) simp
  next
    case None
    with eq show ?thesis
      by (intro exI [of _ True] exI [of _ "\<lparr>as_length = 0, as_type = t, as_data = None, as_flags = 0\<rparr>"]) simp
  qed
qed

lemma ncopy_success:
  assumes "decode_func inform = Some (p, err)" "0 \<le> len" "len < 2 ^ 29"
    and "fst (ASN1_mbstring_ncopy hp (Some out) inp len inform formats minsize maxsize) = Inr t"
  shows "\<exists>n m u g e.
    mb_scan inform err 0 (if formats = 0 then DIRSTRING_TYPE else formats) 0 (CBS_init inp (nat len)) = Inr (n, m, u) \<and>
    size_ok minsize maxsize n \<and> choose_type m n u = Some (t, g, e)"
proof -
  have "len mod 2 ^ 64 = len" "len \<noteq> - 1" using assms by simp_all
  then show ?thesis
    using assms by (auto simp: ASN1_mbstring_ncopy_def Let_def size_ok_def not_less
      split: sum.splits prod.splits if_splits option.splits dest!: mb_store_type)
qed

text \<open>
  C9. ASN1_mbstring_ncopy, given memory and an input of less than 2 to the 29 bytes: it succeeds with
  type t exactly if the input is a sequence of characters in the input format, without byte-order
  mark and within the size limits, and t is the first permitted type that can represent all of
  them. The string it then stores encodes the same characters in the format of that type, with a
  terminator behind them.
\<close>

theorem mbstring_recodes:
  assumes hp: "\<forall>k. hp_serves hp k" and inform: "known_format inform"
    and len: "0 \<le> len" "nat len \<le> length inp" "len < 2 ^ 29"
  shows "(fst (ASN1_mbstring_ncopy hp (Some out) inp len inform formats minsize maxsize) = Inr t \<longleftrightarrow>
      (\<exists>bs. recoded inform formats minsize maxsize (take (nat len) inp) t bs)) \<and>
    (\<forall>bs. recoded inform formats minsize maxsize (take (nat len) inp) t bs \<longrightarrow>
      holds_string (snd (ASN1_mbstring_ncopy hp (Some out) inp len inform formats minsize maxsize)) t bs)"
    (is "(fst ?R = _ \<longleftrightarrow> _) \<and> _")
proof -
  let ?formats = "if formats = 0 then DIRSTRING_TYPE else formats" and ?c = "CBS_init inp (nat len)"
  have nz: "?formats \<noteq> 0" by (simp add: DIRSTRING_TYPE_def)
  have c: "wf_cbs ?c" "view ?c = take (nat len) inp" using len by (simp_all add: nat_less_iff)
  obtain p err where dec: "decode_func inform = Some (p, err)" using decode_func_known [OF inform] by blast
  note scan = mb_scan_iff [OF inform c(1) nz, of err 0, unfolded c(2)]
  have serves: "hp_serves hp 24" using hp by blast
  have stored: "fst ?R = Inr t \<and> holds_string (snd ?R) t bs"
    if rec: "recoded inform formats minsize maxsize (take (nat len) inp) t bs" for bs
  proof -
    from rec obtain cs b g where cs: "list_all (char_ok inform) cs" "take (nat len) inp = encoded inform cs"
      "\<not> has_bom inform cs" "size_ok minsize maxsize (length cs)" "best_type ?formats cs = Some (t, b, g)" "bs = encoded g cs"
      unfolding recoded_def by blast
    let ?m = "narrow ?formats cs" and ?u = "length (encoded MBSTRING_UTF8 cs)"
    obtain e where e: "choose_type ?m (length cs) ?u = Some (t, g, e)" using choose_type_cases(1) [OF cs(1,5)] by blast
    then have "?m \<noteq> 0" by auto
    then have sc: "mb_scan inform err 0 ?formats 0 ?c = Inr (length cs, ?m, ?u)" using scan cs by auto
    have "length cs \<le> nat len" using length_encoded_ge [of cs inform] len(2) by (simp flip: cs(2))
    moreover have "nat len < 2 ^ 29" using len(3) by (simp add: nat_less_iff len(1))
    ultimately have "e < 2 ^ 63"
      using choose_type_estimate [OF e] length_encoded [of MBSTRING_UTF8 cs] by simp
    note store = mb_store_spec [OF hp inform best_type_format(1) [OF cs(5,1)] len this cs(2,1) best_type_format(2) [OF cs(5,1)]]
    from ncopy_stores [OF dec len(1,3) serves sc cs(4) e, of out] obtain fo dest where
      "as_data dest = None" "as_type dest = t" "?R = mb_store hp fo dest inp len inform t g e" by blast
    then show ?thesis using store [of dest t fo] cs(6) by auto
  qed
  have "\<exists>bs. recoded inform formats minsize maxsize (take (nat len) inp) t bs" if "fst ?R = Inr t"
  proof -
    from ncopy_success [OF dec len(1,3) that] obtain n m u g e where
      sc: "mb_scan inform err 0 ?formats 0 ?c = Inr (n, m, u)" "size_ok minsize maxsize n" "choose_type m n u = Some (t, g, e)"
      by blast
    then obtain cs where cs: "list_all (char_ok inform) cs" "take (nat len) inp = encoded inform cs" "\<not> has_bom inform cs"
      "m = narrow ?formats cs" "n = length cs" unfolding scan by auto
    then obtain b where "best_type ?formats cs = Some (t, b, g)" using choose_type_cases(2) sc(3) by blast
    then show ?thesis using cs sc(2) unfolding recoded_def by blast
  qed
  then show ?thesis using stored by blast
qed

text \<open>\<open>A\<close> and e with an acute accent in UTF-8 become a T61String, the first type of a DirectoryString that has both.\<close>

theorem mbstring_recodes_witness:
  "\<exists>p. ASN1_mbstring_ncopy (sample_heap\<lparr>hp_serves := \<lambda>k. True\<rparr>) (Some None) [0x41, 0xC3, 0xA9] 3 MBSTRING_UTF8 0 1 10 =
     (Inr V_ASN1_T61STRING, p) \<and> holds_string p V_ASN1_T61STRING [0x41, 0xE9]"
proof -
  have cs: "list_all (char_ok MBSTRING_UTF8) [0x41, 0xE9]" "take (nat 3) [0x41, 0xC3, 0xA9] = encoded MBSTRING_UTF8 [0x41, 0xE9]"
    "\<not> has_bom MBSTRING_UTF8 [0x41, 0xE9]" "size_ok 1 10 (length [0x41, 0xE9 :: nat])"
    "best_type DIRSTRING_TYPE [0x41, 0xE9] = Some (V_ASN1_T61STRING, B_ASN1_T61STRING, MBSTRING_ASC)"
    "[0x41, 0xE9] = encoded MBSTRING_ASC [0x41, 0xE9]"
    by code_simp+
  then have "recoded MBSTRING_UTF8 0 1 10 (take (nat 3) [0x41, 0xC3, 0xA9]) V_ASN1_T61STRING [0x41, 0xE9]"
    unfolding recoded_def by (intro exI conjI) (simp_all only: if_True simp_thms)
  note recoded = this
  have "\<forall>k. hp_serves (sample_heap\<lparr>hp_serves := \<lambda>k. True\<rparr>) k" "known_format MBSTRING_UTF8"
    "0 \<le> (3 :: int)" "nat 3 \<le> length [0x41, 0xC3, 0xA9 :: u8]" "(3 :: int) < 2 ^ 29"
    by (simp_all add: known_format_def)
  note main = mbstring_recodes [OF this, of None 0 1 10 V_ASN1_T61STRING]
  show ?thesis (is "\<exists>p. ?R = _ \<and> _")
  proof (intro exI conjI)
    show "?R = (Inr V_ASN1_T61STRING, snd ?R)"
      using conjunct1 [OF main, THEN iffD2, OF exI, OF recoded] by (simp only: prod_eq_iff fst_conv snd_conv)
    show "holds_string (snd ?R) V_ASN1_T61STRING [0x41, 0xE9]"
      by (rule conjunct2 [OF main, rule_format]) (rule recoded)
  qed
qed

text \<open>
  Without memory for the conversion, a call that was to allocate the string frees it again but
  leaves the output parameter pointing to it.
\<close>

theorem ncopy_leaves_freed_pointer:
  "ASN1_mbstring_ncopy (sample_heap\<lparr>hp_serves := \<lambda>k. k = 24\<rparr>) (Some None) [0xC3, 0xA9] 2 MBSTRING_UTF8 0 0 0 =
     (Inl Malloc_failure, Freed)"
  by code_simp

end
