(* ===== verification/Ber.thy ===== *)
theory Ber
  imports Asn1_Writers
begin

text \<open>
  The conversion of BER to DER, crypto/bytestring/ber.c, and the last step of the i2d functions,
  crypto/bytestring/asn1_compat.c. A first walk looks for forms that only BER allows, a second one
  parses the elements and writes them to a CBB with definite lengths and primitive strings. Both
  walks take fuel; every round takes at least one byte off a window, so that the length of the
  window is enough.
\<close>

abbreviation (input) kMaxDepth :: nat where "kMaxDepth \<equiv> 2048"

text \<open>The universal string types, with or without the constructed bit.\<close>

definition is_string_type :: "u32 \<Rightarrow> bool" where
  "is_string_type tag =
     (tag AND NOT CBS_ASN1_CONSTRUCTED \<in> {4, 12, 18, 19, 20, 21, 22, 25, 26, 27, 28, 30})"

subsection \<open>Looking for BER\<close>

text \<open>
  The loop carries what \<open>*ber_found\<close> holds: each element overwrites it, and so does the walk over
  the contents of an element.
\<close>

fun find_ber_loop :: "nat \<Rightarrow> nat \<Rightarrow> bool \<Rightarrow> CBS \<Rightarrow> bool option" where
  "find_ber_loop n depth ber_found cbs =
     (if CBS_len cbs = 0 then Some ber_found
      else
        (case n of
           0 \<Rightarrow> None
         | Suc n \<Rightarrow>
             (case CBS_get_any_ber_asn1_element cbs of
                (None, cbs) \<Rightarrow> None
              | (Some (contents, tag, header_len, ber_found), cbs) \<Rightarrow>
                  if ber_found then Some True
                  else if tag AND CBS_ASN1_CONSTRUCTED \<noteq> 0 then
                    (if is_string_type tag then Some True
                     else
                       (case CBS_skip header_len contents of
                          (None, contents) \<Rightarrow> None
                        | (Some _, contents) \<Rightarrow>
                            if kMaxDepth < depth + 1 then None
                            else
                              (case find_ber_loop n (depth + 1) False contents of
                                 None \<Rightarrow> None
                               | Some ber_found \<Rightarrow> find_ber_loop n depth ber_found cbs)))
                  else find_ber_loop n depth ber_found cbs)))"

declare find_ber_loop.simps [simp del]

definition cbs_find_ber :: "nat \<Rightarrow> CBS \<Rightarrow> bool option" where
  "cbs_find_ber depth orig_in =
     (if kMaxDepth < depth then None
      else find_ber_loop (CBS_len orig_in) depth False (CBS_init (CBS_data orig_in) (CBS_len orig_in)))"

subsection \<open>Conversion\<close>

definition is_eoc :: "nat \<Rightarrow> CBS \<Rightarrow> bool" where
  "is_eoc header_len contents =
     (header_len = 2 \<and> CBS_len contents = 2 \<and> memcmp_sign (take 2 (CBS_data contents)) [0, 0] = 0)"

text \<open>
  Where the contents of an element go, and the tag of the string that they are fragments of: into
  \<open>out\<close> itself inside a constructed string, otherwise into a new child of it.
\<close>

definition open_contents :: "heap \<Rightarrow> nat \<Rightarrow> u32 \<Rightarrow> u32 \<Rightarrow> CBB \<Rightarrow> bool \<times> nat \<times> u32 \<times> CBB" where
  "open_contents hp d string_tag tag cbb =
     (if string_tag \<noteq> 0
      then (tag AND NOT CBS_ASN1_CONSTRUCTED = string_tag, d, string_tag, cbb)
      else
        (let is_string = tag AND CBS_ASN1_CONSTRUCTED \<noteq> 0 \<and> is_string_type tag;
             out_tag = (if is_string then tag AND NOT CBS_ASN1_CONSTRUCTED else tag) in
         case CBB_add_asn1 hp d out_tag cbb of
           (ok, cbb) \<Rightarrow> (ok, Suc d, if is_string then out_tag else string_tag, cbb)))"

text \<open>
  A call and the rounds of its loop are one function, since they differ in nothing but the test of
  the depth, which does not change in the loop.
\<close>

fun cbs_convert_ber :: "heap \<Rightarrow> nat \<Rightarrow> nat \<Rightarrow> u32 \<Rightarrow> bool \<Rightarrow> nat \<Rightarrow> CBS \<Rightarrow> CBB \<Rightarrow> bool \<times> CBS \<times> CBB" where
  "cbs_convert_ber hp n d string_tag looking_for_eoc depth cbs cbb =
     (if kMaxDepth < depth then (False, cbs, cbb)
      else if CBS_len cbs = 0 then (\<not> looking_for_eoc, cbs, cbb)
      else
        (case n of
           0 \<Rightarrow> (False, cbs, cbb)
         | Suc n \<Rightarrow>
             (case CBS_get_any_ber_asn1_element cbs of
                (None, cbs) \<Rightarrow> (False, cbs, cbb)
              | (Some (contents, tag, header_len, ber_found), cbs) \<Rightarrow>
                  if is_eoc header_len contents then (looking_for_eoc, cbs, cbb)
                  else
                    (case open_contents hp d string_tag tag cbb of
                       (ok, out_contents, child_string_tag, cbb) \<Rightarrow>
                         if \<not> ok then (False, cbs, cbb)
                         else if CBS_len contents = header_len \<and> 0 < header_len \<and> CBS_data contents ! (header_len - 1) = 0x80
                         then
                           (case cbs_convert_ber hp n out_contents child_string_tag True (depth + 1) cbs cbb of
                              (ok, cbs, cbb) \<Rightarrow>
                                if \<not> ok then (False, cbs, cbb)
                                else
                                  (case CBB_flush hp d cbb of
                                     (ok, cbb) \<Rightarrow>
                                       if \<not> ok then (False, cbs, cbb)
                                       else cbs_convert_ber hp n d string_tag looking_for_eoc depth cbs cbb))
                         else
                           (case CBS_skip header_len contents of
                              (None, contents) \<Rightarrow> (False, cbs, cbb)
                            | (Some _, contents) \<Rightarrow>
                                (case (if tag AND CBS_ASN1_CONSTRUCTED \<noteq> 0
                                       then (case cbs_convert_ber hp n out_contents child_string_tag False (depth + 1) contents cbb of
                                               (ok, contents, cbb) \<Rightarrow> (ok, cbb))
                                       else CBB_add_bytes hp out_contents (take (CBS_len contents) (CBS_data contents)) cbb) of
                                   (ok, cbb) \<Rightarrow>
                                     if \<not> ok then (False, cbs, cbb)
                                     else
                                       (case CBB_flush hp d cbb of
                                          (ok, cbb) \<Rightarrow>
                                            if \<not> ok then (False, cbs, cbb)
                                            else cbs_convert_ber hp n d string_tag looking_for_eoc depth cbs cbb)))))))"

declare cbs_convert_ber.simps [simp del]

text \<open>The result is the new window and, if the data was converted, the storage the caller has to free.\<close>

definition CBS_asn1_ber_to_der :: "heap \<Rightarrow> (CBS \<times> bytes option) parser" where
  "CBS_asn1_ber_to_der hp cbs =
     (case cbs_find_ber 0 cbs of
        None \<Rightarrow> (None, cbs)
      | Some conversion_needed \<Rightarrow>
          if \<not> conversion_needed then
            p_bind CBS_get_any_asn1_element (\<lambda>(out, tag, header_len). p_return (out, None)) cbs
          else
            (case CBB_init hp (CBS_len cbs) of
               None \<Rightarrow> (None, cbs)
             | Some cbb \<Rightarrow>
                 (case cbs_convert_ber hp (CBS_len cbs) 0 0 False 0 cbs cbb of
                    (ok, cbs, cbb) \<Rightarrow>
                      if \<not> ok then (None, cbs)
                      else
                        (case CBB_finish hp 0 True cbb of
                           (None, cbb) \<Rightarrow> (None, cbs)
                         | (Some storage, cbb) \<Rightarrow> (Some (CBS_init storage (length storage), Some storage), cbs)))))"

subsection \<open>Implicitly tagged strings\<close>

fun implicit_string_loop :: "heap \<Rightarrow> nat \<Rightarrow> u32 \<Rightarrow> CBS \<Rightarrow> CBB \<Rightarrow> bool \<times> CBB" where
  "implicit_string_loop hp n inner_tag child cbb =
     (if CBS_len child = 0 then (True, cbb)
      else
        (case n of
           0 \<Rightarrow> (False, cbb)
         | Suc n \<Rightarrow>
             (case CBS_get_asn1 inner_tag child of
                (None, child) \<Rightarrow> (False, cbb)
              | (Some chunk, child) \<Rightarrow>
                  (case CBB_add_bytes hp 0 (take (CBS_len chunk) (CBS_data chunk)) cbb of
                     (ok, cbb) \<Rightarrow> if \<not> ok then (False, cbb) else implicit_string_loop hp n inner_tag child cbb))))"

declare implicit_string_loop.simps [simp del]

definition CBS_get_asn1_implicit_string :: "heap \<Rightarrow> u32 \<Rightarrow> u32 \<Rightarrow> (CBS \<times> bytes option) parser" where
  "CBS_get_asn1_implicit_string hp outer_tag inner_tag cbs =
     (if CBS_peek_asn1_tag outer_tag cbs
      then p_bind (CBS_get_asn1 outer_tag) (\<lambda>out. p_return (out, None)) cbs
      else
        (case CBB_init hp (CBS_len cbs) of
           None \<Rightarrow> (None, cbs)
         | Some result \<Rightarrow>
             (case CBS_get_asn1 (outer_tag OR CBS_ASN1_CONSTRUCTED) cbs of
                (None, cbs) \<Rightarrow> (None, cbs)
              | (Some child, cbs) \<Rightarrow>
                  (case implicit_string_loop hp (CBS_len child) inner_tag child result of
                     (ok, result) \<Rightarrow>
                       if \<not> ok then (None, cbs)
                       else
                         (case CBB_finish hp 0 True result of
                            (None, result) \<Rightarrow> (None, cbs)
                          | (Some data, result) \<Rightarrow> (Some (CBS_init data (length data), Some data), cbs))))))"

subsection \<open>The end of an i2d function\<close>

text \<open>
  The output pointer is NULL, points to NULL, or points to a buffer of the caller. Afterwards it is
  as before, or points to the new allocation, or into the buffer, behind the bytes written.
\<close>

datatype i2d_target = No_output | Allocate | Buffer bytes

datatype i2d_output = Unchanged | Allocated bytes | Advanced bytes nat

definition CBB_finish_i2d :: "heap \<Rightarrow> i2d_target \<Rightarrow> CBB \<Rightarrow> int \<times> i2d_output" where
  "CBB_finish_i2d hp outp cbb =
     (case CBB_finish hp 0 True cbb of
        (None, cbb) \<Rightarrow> (- 1, Unchanged)
      | (Some der, cbb) \<Rightarrow>
          if 2 ^ 31 - 1 < length der then (- 1, Unchanged)
          else
            (int (length der),
             case outp of
               No_output \<Rightarrow> Unchanged
             | Allocate \<Rightarrow> Allocated der
             | Buffer buf \<Rightarrow> Advanced (der @ drop (length der) buf) (length der)))"

end
