(* ===== verification/Ber_Spec.thy ===== *)
theory Ber_Spec
  imports Ber
begin

text \<open>
  The grammar of BER, values in BER as trees, and the DER encoding of such a tree. The conversion of
  crypto/bytestring/ber.c accepts exactly the sequences of BER elements whose nesting stays within
  its bound and whose constructed strings consist of fragments of their own type, and writes the
  DER encoding of the values.
\<close>

subsection \<open>The grammar\<close>

abbreviation (input) constructed :: "u32 \<Rightarrow> bool" where
  "constructed t \<equiv> t AND CBS_ASN1_CONSTRUCTED \<noteq> 0"

abbreviation (input) primitive_tag :: "u32 \<Rightarrow> u32" where
  "primitive_tag t \<equiv> t AND NOT CBS_ASN1_CONSTRUCTED"

datatype ber = Primitive u32 bytes | Constructed u32 "ber list"

text \<open>The definite forms of a length: short, or long with up to four bytes, not always the fewest.\<close>

definition ber_length :: "nat \<Rightarrow> bytes \<Rightarrow> bool" where
  "ber_length n l \<longleftrightarrow>
     n < 128 \<and> l = [of_nat n] \<or> (\<exists>k. 1 \<le> k \<and> k \<le> 4 \<and> n < 256 ^ k \<and> l = of_nat (128 + k) # be_bytes k n)"

text \<open>The two zero bytes that end an indefinite length are not an element.\<close>

inductive ber_one :: "ber \<Rightarrow> bytes \<Rightarrow> bool" and ber_seq :: "ber list \<Rightarrow> bytes \<Rightarrow> bool" where
  primitive: "\<not> constructed t \<Longrightarrow> ber_length (length body) l \<Longrightarrow> der_tag t @ l @ body \<noteq> [0, 0] \<Longrightarrow>
    ber_one (Primitive t body) (der_tag t @ l @ body)"
| definite: "constructed t \<Longrightarrow> ber_seq ts body \<Longrightarrow> ber_length (length body) l \<Longrightarrow>
    ber_one (Constructed t ts) (der_tag t @ l @ body)"
| indefinite: "constructed t \<Longrightarrow> ber_seq ts body \<Longrightarrow>
    ber_one (Constructed t ts) (der_tag t @ [0x80] @ body @ [0, 0])"
| none: "ber_seq [] []"
| more: "ber_one t bs \<Longrightarrow> ber_seq ts cs \<Longrightarrow> ber_seq (t # ts) (bs @ cs)"

fun height :: "ber \<Rightarrow> nat" where
  "height (Primitive t body) = 0"
| "height (Constructed t ts) = Suc (foldr max (map height ts) 0)"

definition heights :: "ber list \<Rightarrow> nat" where
  "heights ts = foldr max (map height ts) 0"

subsection \<open>The values in DER\<close>

fun join :: "bytes option list \<Rightarrow> bytes option" where
  "join [] = Some []"
| "join (x # xs) = (case x of None \<Rightarrow> None | Some bs \<Rightarrow> map_option ((@) bs) (join xs))"

text \<open>The writer takes contents of up to 0xFFFFFFFE bytes.\<close>

definition der_checked :: "u32 \<Rightarrow> bytes \<Rightarrow> bytes option" where
  "der_checked t body = (if length body \<le> 0xFFFFFFFE then Some (der_element t body) else None)"

fun fragment :: "u32 \<Rightarrow> ber \<Rightarrow> bytes option" where
  "fragment s (Primitive t body) = (if primitive_tag t = s then Some body else None)"
| "fragment s (Constructed t ts) = (if primitive_tag t = s then join (map (fragment s) ts) else None)"

fun ber_der :: "ber \<Rightarrow> bytes option" where
  "ber_der (Primitive t body) = der_checked t body"
| "ber_der (Constructed t ts) =
     (if is_string_type t
      then Option.bind (join (map (fragment (primitive_tag t)) ts)) (der_checked (primitive_tag t))
      else Option.bind (join (map ber_der ts)) (der_checked t))"

text \<open>What is written for elements: fragments inside a constructed string, DER elsewhere.\<close>

definition written_as :: "u32 \<Rightarrow> ber \<Rightarrow> bytes option" where
  "written_as s t = (if s \<noteq> 0 then fragment s t else ber_der t)"

subsection \<open>The element parser and the grammar\<close>

lemma definite_element:
  assumes "ber_length (length body) l"
  shows "\<exists>f. b_element True (der_tag t @ l @ body @ rest) =
    Some ((der_tag t @ l @ body, t, length (der_tag t @ l), f), rest)"
proof -
  let ?n = "length body"
  have tag: "b_tag (der_tag t @ l @ body @ rest) = Some (t, l @ body @ rest)" by (rule b_tag_complete)
  from assms consider "?n < 128" "l = [of_nat ?n]"
    | k where "1 \<le> k" "k \<le> 4" "?n < 256 ^ k" "l = of_nat (128 + k) # be_bytes k ?n"
    unfolding ber_length_def by blast
  then show ?thesis
  proof cases
    case 1
    then show ?thesis using tag by (intro exI [of _ False]) (simp add: b_element_def Let_def unat_of_nat)
  next
    case (2 k)
    have u: "unat (of_nat (128 + k) :: u8) = 128 + k" using 2(2) by (simp add: unat_of_nat del: of_nat_add)
    have be: "b_be k (be_bytes k ?n @ body @ rest) = Some (?n, body @ rest)" using 2(3) by (simp add: b_be_def)
    have tag': "b_tag (der_tag t @ of_nat (128 + k) # be_bytes k ?n @ body @ rest) =
        Some (t, of_nat (128 + k) # be_bytes k ?n @ body @ rest)"
      by (rule b_tag_complete)
    have "k \<noteq> 0" "\<not> 4 < k" using 2(1,2) by simp_all
    then show ?thesis
      by (intro exI [of _ "?n < 128 \<or> ?n < 256 ^ (k - 1)"])
        (simp add: b_element_def tag' u be Let_def 2(4) del: of_nat_add)
  qed
qed

lemma indefinite_element:
  assumes "constructed t"
  shows "b_element True (der_tag t @ 0x80 # rest) = Some ((der_tag t @ [0x80], t, length (der_tag t @ [0x80 :: u8]), True), rest)"
  using assms b_tag_complete [of t "0x80 # rest"] by (simp add: b_element_def Let_def)

lemma b_element_cases:
  assumes "b_element True bs = Some ((e, t, hl, f), rest)"
  obtains (definite) l body where "ber_length (length body) l" "e = der_tag t @ l @ body" "hl = length (der_tag t @ l)"
      "bs = e @ rest"
  | (indefinite) "constructed t" "e = der_tag t @ [0x80]" "hl = length e" "bs = e @ rest"
proof -
  obtain b h where tag: "b_tag bs = Some (t, b # h)"
    using assms by (auto simp: b_element_def Let_def split: option.splits list.splits if_splits)
  then have bs: "bs = der_tag t @ b # h" by (simp add: b_tag_iff)
  have len: "length bs - length h = length (der_tag t) + 1" by (simp add: bs)
  show thesis
  proof (cases "unat b < 128")
    case True
    then have e: "\<not> length bs < length (der_tag t) + 1 + unat b" "e = take (length (der_tag t) + 1 + unat b) bs"
      "hl = length (der_tag t) + 1" "rest = drop (length (der_tag t) + 1 + unat b) bs"
      using assms by (auto simp: b_element_def tag len Let_def split: if_splits)
    then have "ber_length (length (take (unat b) h)) [b]" using True bs by (simp add: ber_length_def)
    then show thesis using definite [of "take (unat b) h" "[b]"] e bs by simp
  next
    case False
    then obtain k where k: "unat b = 128 + k" using le_Suc_ex [of 128 "unat b"] by auto
    have "b = of_nat (unat b)" by simp
    then have b: "b = of_nat (128 + k)" by (simp only: k)
    show thesis
    proof (cases "k = 0")
      case True
      then have "b = 0x80" "constructed t" "e = take (length (der_tag t) + 1) bs" "hl = length (der_tag t) + 1"
        "rest = drop (length (der_tag t) + 1) bs"
        using assms k b by (auto simp: b_element_def tag len Let_def split: if_splits)
      then show thesis using indefinite bs by simp
    next
      case False
      then obtain n r where n: "k \<le> 4" "b_be k h = Some (n, r)" "\<not> length bs < length (der_tag t) + 1 + k + n"
        "e = take (length (der_tag t) + 1 + k + n) bs" "hl = length (der_tag t) + 1 + k"
        "rest = drop (length (der_tag t) + 1 + k + n) bs"
        using assms k by (auto simp: b_element_def tag len Let_def split: if_splits option.splits)
      have h: "h = be_bytes k n @ r" "n < 256 ^ k"
        using n(2) be_nat_take_lt [of k h] be_bytes_be_nat [of "take k h"] by (auto simp: b_be_def split: if_splits)
      then have "ber_length (length (take n r)) (b # be_bytes k n)"
        using n(1,3) False bs unfolding ber_length_def b by (intro disjI2 exI [of _ k]) simp
      then show thesis using definite [of "take n r" "b # be_bytes k n"] n h bs by simp
    qed
  qed
qed

lemma ber_length_nonempty: "ber_length n l \<Longrightarrow> l \<noteq> []"
  by (auto simp: ber_length_def)

lemma ber_length_zero:
  assumes "ber_length 0 l"
  shows "last l = 0"
proof (cases "l = [of_nat 0]")
  case False
  then obtain k where k: "1 \<le> k" "l = of_nat (128 + k) # be_bytes k 0" using assms by (auto simp: ber_length_def)
  then obtain j where "k = Suc j" by (cases k) auto
  then show ?thesis using be_bytes_Suc [of j 0] k(2) by simp
qed simp


lemma b_element_facts:
  assumes "b_element True bs = Some ((e, t, hl, f), rest)"
  shows "bs = e @ rest" "hl \<le> length e" "0 < hl"
    "length e = hl \<and> e ! (hl - 1) = 0x80 \<longleftrightarrow> constructed t \<and> e = der_tag t @ [0x80]"
proof -
  have "bs = e @ rest \<and> hl \<le> length e \<and> 0 < hl \<and>
      (length e = hl \<and> e ! (hl - 1) = 0x80 \<longleftrightarrow> constructed t \<and> e = der_tag t @ [0x80])"
    using assms
  proof (cases rule: b_element_cases)
    case (definite l body)
    have l: "l \<noteq> []" using definite(1) by (rule ber_length_nonempty)
    have e: "length e = hl \<longleftrightarrow> body = []" using definite(2,3) by auto
    have "e ! (hl - 1) \<noteq> 0x80" if "body = []"
    proof -
      have "e ! (hl - 1) = last e" using e that l definite(2) by (simp add: last_conv_nth)
      also have "\<dots> = last l" using definite(2) l that by simp
      also have "\<dots> = 0" using definite(1) that by (intro ber_length_zero) simp
      finally show ?thesis by simp
    qed
    moreover have "l \<noteq> [0x80]" if "body = []" using ber_length_zero [of l] definite(1) that by auto
    moreover have "e = der_tag t @ [0x80] \<Longrightarrow> body = []"
      using definite(2) l by (cases l) auto
    ultimately show ?thesis using definite e l by auto
  next
    case indefinite
    then show ?thesis by (auto simp: nth_append)
  qed
  then show "bs = e @ rest" "hl \<le> length e" "0 < hl"
    "length e = hl \<and> e ! (hl - 1) = 0x80 \<longleftrightarrow> constructed t \<and> e = der_tag t @ [0x80]" by blast+
qed

subsection \<open>Parsing a window into trees\<close>

fun forest :: "nat \<Rightarrow> bool \<Rightarrow> nat \<Rightarrow> bytes \<Rightarrow> (ber list \<times> bytes) option" where
  "forest n eoc depth bs =
     (if kMaxDepth < depth then None
      else if bs = [] then (if eoc then None else Some ([], []))
      else
        (case n of
           0 \<Rightarrow> None
         | Suc n \<Rightarrow>
             (case b_element True bs of
                None \<Rightarrow> None
              | Some ((e, t, hl, f), rest) \<Rightarrow>
                  if hl = 2 \<and> e = [0, 0] then (if eoc then Some ([], rest) else None)
                  else if length e = hl \<and> e ! (hl - 1) = 0x80 then
                    (case forest n True (depth + 1) rest of
                       None \<Rightarrow> None
                     | Some (ts, rest) \<Rightarrow> map_option (apfst (Cons (Constructed t ts))) (forest n eoc depth rest))
                  else if constructed t then
                    (case forest n False (depth + 1) (drop hl e) of
                       None \<Rightarrow> None
                     | Some (ts, _) \<Rightarrow> map_option (apfst (Cons (Constructed t ts))) (forest n eoc depth rest))
                  else map_option (apfst (Cons (Primitive t (drop hl e)))) (forest n eoc depth rest))))"

declare forest.simps [simp del]

lemma forest_numeral:
  "forest (numeral k) eoc depth bs =
     (if kMaxDepth < depth then None
      else if bs = [] then (if eoc then None else Some ([], []))
      else
        (let n = pred_numeral k in
         case b_element True bs of
           None \<Rightarrow> None
         | Some ((e, t, hl, f), rest) \<Rightarrow>
             if hl = 2 \<and> e = [0, 0] then (if eoc then Some ([], rest) else None)
             else if length e = hl \<and> e ! (hl - 1) = 0x80 then
               (case forest n True (depth + 1) rest of
                  None \<Rightarrow> None
                | Some (ts, rest) \<Rightarrow> map_option (apfst (Cons (Constructed t ts))) (forest n eoc depth rest))
             else if constructed t then
               (case forest n False (depth + 1) (drop hl e) of
                  None \<Rightarrow> None
                | Some (ts, _) \<Rightarrow> map_option (apfst (Cons (Constructed t ts))) (forest n eoc depth rest))
             else map_option (apfst (Cons (Primitive t (drop hl e)))) (forest n eoc depth rest)))"
  by (subst forest.simps) (simp only: numeral_eq_Suc nat.case Let_def)

text \<open>The end of a sequence: of the window, or the two zero bytes.\<close>

definition closed :: "bool \<Rightarrow> bytes \<Rightarrow> bytes \<Rightarrow> bool" where
  "closed eoc end_bytes rest \<longleftrightarrow> (if eoc then end_bytes = [0, 0] @ rest else end_bytes = [] \<and> rest = [])"

lemma eoc_element: "b_element True ([0, 0] @ rest) = Some (([0, 0], 0, 2, False), rest)"
proof -
  have "der_tag 0 = [0]" by (simp add: der_tag_def)
  moreover have "ber_length (length ([] :: bytes)) [0]" by (simp add: ber_length_def)
  ultimately obtain f where "b_element True ([0, 0] @ rest) = Some (([0, 0], 0, 2, f), rest)"
    using definite_element [of "[]" "[0]" 0 rest] by auto
  then show ?thesis by (auto simp: b_element_def Let_def split: option.splits list.splits if_splits)
qed

lemma heights_simps [simp]: "heights [] = 0" "heights (b # ts) = max (height b) (heights ts)"
  "height (Constructed t ts) = Suc (heights ts)"
  by (simp_all add: heights_def)

declare height.simps(2) [simp del]

text \<open>One round of the parser, on each kind of element.\<close>

lemma forest_Nil: "depth \<le> kMaxDepth \<Longrightarrow> forest n eoc depth [] = (if eoc then None else Some ([], []))"
  by (subst forest.simps) simp

lemma forest_step:
  assumes "depth \<le> kMaxDepth" "bs \<noteq> []" "b_element True bs = Some ((e, t, hl, f), rest)"
  shows "forest (Suc n) eoc depth bs =
    (if hl = 2 \<and> e = [0, 0] then (if eoc then Some ([], rest) else None)
     else if constructed t \<and> e = der_tag t @ [0x80] then
       (case forest n True (depth + 1) rest of
          None \<Rightarrow> None
        | Some (ts, rest) \<Rightarrow> map_option (apfst (Cons (Constructed t ts))) (forest n eoc depth rest))
     else if constructed t then
       (case forest n False (depth + 1) (drop hl e) of
          None \<Rightarrow> None
        | Some (ts, _) \<Rightarrow> map_option (apfst (Cons (Constructed t ts))) (forest n eoc depth rest))
     else map_option (apfst (Cons (Primitive t (drop hl e)))) (forest n eoc depth rest))"
proof -
  have "\<not> kMaxDepth < depth" using assms(1) by simp
  then show ?thesis
    by (subst forest.simps) (simp only: assms(2,3) if_False nat.case option.case prod.case b_element_facts(4) [OF assms(3)])
qed

lemma b_element_Nil [simp]: "b_element ber [] = None"
  by (simp add: b_element_def)

lemma forest_sound:
  "forest n eoc depth bs = Some (ts, rest) \<Longrightarrow>
   \<exists>body end_bytes. bs = body @ end_bytes \<and> closed eoc end_bytes rest \<and> ber_seq ts body \<and> depth + heights ts \<le> kMaxDepth"
proof (induction n arbitrary: eoc depth bs ts rest)
  case 0
  then show ?case by (subst (asm) forest.simps) (auto simp: closed_def ber_one_ber_seq.none split: if_splits)
next
  case (Suc n)
  have depth: "depth \<le> kMaxDepth" using Suc.prems by (subst (asm) forest.simps) (auto split: if_splits)
  show ?case
  proof (cases "bs = []")
    case True
    then show ?thesis
      using Suc.prems depth by (auto simp: forest_Nil closed_def ber_one_ber_seq.none split: if_splits)
  next
    case False
    then obtain e t hl f r where elem: "b_element True bs = Some ((e, t, hl, f), r)"
      using Suc.prems by (subst (asm) forest.simps) (auto split: if_splits option.splits)
    note step = Suc.prems [unfolded forest_step [OF depth False elem]] and facts = b_element_facts [OF elem]
    have more: "\<exists>body end_bytes. bs = body @ end_bytes \<and> closed eoc end_bytes rest \<and> ber_seq ts body \<and>
        depth + heights ts \<le> kMaxDepth"
      if one: "ber_one u bs1" "bs = bs1 @ r'" "depth + height u \<le> kMaxDepth"
        and tail: "map_option (apfst (Cons u)) (forest n eoc depth r') = Some (ts, rest)" for u bs1 r'
    proof -
      obtain ts' where ts': "ts = u # ts'" "forest n eoc depth r' = Some (ts', rest)"
        using tail by (auto simp: apfst_def map_prod_def split: prod.splits)
      from Suc.IH [OF ts'(2)] obtain body end_bytes where
        "r' = body @ end_bytes" "closed eoc end_bytes rest" "ber_seq ts' body" "depth + heights ts' \<le> kMaxDepth" by blast
      then show ?thesis
        using one ts'(1) ber_one_ber_seq.more [OF one(1), of ts' body]
        by (intro exI [of _ "bs1 @ body"] exI [of _ end_bytes]) simp
    qed
    show ?thesis
    proof (cases "hl = 2 \<and> e = [0, 0]")
      case True
      then show ?thesis
        using step facts(1) depth
        by (intro exI [of _ "[]"] exI [of _ bs]) (auto simp: closed_def ber_one_ber_seq.none split: if_splits)
    next
      case no_eoc: False
      from elem show ?thesis
      proof (cases rule: b_element_cases)
        case indefinite
        then obtain us r' where us: "forest n True (depth + 1) r = Some (us, r')"
          "map_option (apfst (Cons (Constructed t us))) (forest n eoc depth r') = Some (ts, rest)"
          using step no_eoc by (auto split: option.splits)
        from Suc.IH [OF us(1)] obtain body where body: "r = body @ [0, 0] @ r'" "ber_seq us body"
          "depth + 1 + heights us \<le> kMaxDepth" by (auto simp: closed_def)
        show ?thesis
          using indefinite body by (intro more [OF ber_one_ber_seq.indefinite [OF indefinite(1) body(2)] _ _ us(2)]) auto
      next
        case (definite l body)
        have "\<not> (constructed t \<and> e = der_tag t @ [0x80])"
        proof
          assume a: "constructed t \<and> e = der_tag t @ [0x80]"
          then have "l @ body = [0x80]" using definite(2) by simp
          then have "l = [0x80]" "body = []" using ber_length_nonempty [OF definite(1)] by (cases l; simp)+
          then show False using ber_length_zero definite(1) by fastforce
        qed
        note step = step [unfolded if_not_P [OF no_eoc] if_not_P [OF this]]
        have drop: "drop hl e = body" by (simp add: definite)
        show ?thesis
        proof (cases "constructed t")
          case True
          then obtain us r' where us: "forest n False (depth + 1) body = Some (us, r')"
            "map_option (apfst (Cons (Constructed t us))) (forest n eoc depth r) = Some (ts, rest)"
            using step drop by (auto split: option.splits)
          from Suc.IH [OF us(1)] have body: "ber_seq us body" "depth + 1 + heights us \<le> kMaxDepth" by (auto simp: closed_def)
          show ?thesis
            using definite body by (intro more [OF ber_one_ber_seq.definite [OF True body(1) definite(1)] _ _ us(2)]) auto
        next
          case False
          have "der_tag t @ l @ body \<noteq> [0, 0]"
          proof
            assume a: "der_tag t @ l @ body = [0, 0]"
            then have "length (der_tag t @ l @ body) = 2" by simp
            moreover have "0 < length (der_tag t)" "0 < length l"
              using der_tag_nonempty [of t] ber_length_nonempty [OF definite(1)] by simp_all
            ultimately have "length body = 0" unfolding length_append by linarith
            then have "body = []" by simp
            then show False using a no_eoc definite(2,3) by (metis append.right_neutral length_Cons list.size(3) numeral_2_eq_2)
          qed
          then show ?thesis
            using definite step False drop depth
            by (intro more [OF ber_one_ber_seq.primitive [OF False definite(1)]]) auto
        qed
      qed
    qed
  qed
qed

lemma der_tag_zero: "der_tag t = [0] \<Longrightarrow> t = 0"
proof -
  assume "der_tag t = [0]"
  moreover have "der_tag 0 = [0]" by (simp add: der_tag_def)
  ultimately show "t = 0" using b_tag_complete [of t "[]"] b_tag_complete [of 0 "[]"] by simp
qed

lemma not_eoc_constructed:
  assumes "constructed t" "l \<noteq> []"
  shows "der_tag t @ l @ body \<noteq> [0, 0]"
proof
  assume a: "der_tag t @ l @ body = [0, 0]"
  then have "length (der_tag t @ l @ body) = 2" by simp
  moreover have "0 < length (der_tag t)" "0 < length l" using der_tag_nonempty [of t] assms(2) by simp_all
  ultimately have "length (der_tag t) = 1" unfolding length_append by linarith
  then have "der_tag t = [0]" using a by (cases "der_tag t") auto
  then have "t = 0" by (rule der_tag_zero)
  then show False using assms(1) by simp
qed

lemma forest_complete:
  shows "ber_one u bs \<Longrightarrow> length (bs @ tail) \<le> Suc n \<Longrightarrow> depth + height u \<le> kMaxDepth \<Longrightarrow>
      forest (Suc n) eoc depth (bs @ tail) = map_option (apfst (Cons u)) (forest n eoc depth tail)"
    and "ber_seq ts bs \<Longrightarrow> closed eoc end_bytes rest \<Longrightarrow> length (bs @ end_bytes) \<le> n \<Longrightarrow>
      depth + heights ts \<le> kMaxDepth \<Longrightarrow> forest n eoc depth (bs @ end_bytes) = Some (ts, rest)"
proof (induction arbitrary: tail n depth eoc and end_bytes rest n depth eoc rule: ber_one_ber_seq.inducts)
  case (primitive t body l)
  obtain f where elem: "b_element True ((der_tag t @ l @ body) @ tail) =
      Some ((der_tag t @ l @ body, t, length (der_tag t @ l), f), tail)"
    using definite_element [OF primitive.hyps(2)] by auto
  show ?case
    by (subst forest_step [OF _ _ elem]) (use primitive der_tag_nonempty in auto)
next
  case (definite t ts body l)
  obtain f where elem: "b_element True ((der_tag t @ l @ body) @ tail) =
      Some ((der_tag t @ l @ body, t, length (der_tag t @ l), f), tail)"
    using definite_element [OF definite.hyps(3)] by auto
  have l: "l \<noteq> []" using definite.hyps(3) by (rule ber_length_nonempty)
  have "\<not> (constructed t \<and> der_tag t @ l @ body = der_tag t @ [0x80])"
  proof
    assume "constructed t \<and> der_tag t @ l @ body = der_tag t @ [0x80]"
    then have "l = [0x80]" "body = []" using l by (cases l; simp)+
    then show False using ber_length_zero definite.hyps(3) by fastforce
  qed
  moreover have "forest n False (depth + 1) body = Some (ts, [])"
  proof -
    have "0 < length l" using l by simp
    then have "length body \<le> n" using definite.prems(1) unfolding length_append by linarith
    then show ?thesis using definite.IH [of False "[]" "[]" n "depth + 1"] definite.prems(2) by (simp add: closed_def)
  qed
  moreover have "drop (length (der_tag t @ l)) (der_tag t @ l @ body) = body" by simp
  ultimately show ?case
    using not_eoc_constructed [OF definite.hyps(1) l, of body] definite.prems definite.hyps(1)
    by (subst forest_step [OF _ _ elem]) (simp_all add: der_tag_nonempty)
next
  case (indefinite t ts body)
  have elem: "b_element True ((der_tag t @ [0x80] @ body @ [0, 0]) @ tail) =
      Some ((der_tag t @ [0x80], t, length (der_tag t @ [0x80 :: u8]), True), body @ [0, 0] @ tail)"
    using indefinite_element [OF indefinite.hyps(1), of "body @ [0, 0] @ tail"] by simp
  have "forest n True (depth + 1) (body @ [0, 0] @ tail) = Some (ts, tail)"
    using indefinite.IH [of True "[0, 0] @ tail" tail n "depth + 1"] indefinite.prems by (simp add: closed_def)
  then show ?case
    using indefinite.prems indefinite.hyps(1) by (subst forest_step [OF _ _ elem]) simp_all
next
  case none
  then show ?case
  proof (cases eoc)
    case True
    then have e: "end_bytes = [0, 0] @ rest" using none.prems by (simp add: closed_def)
    then obtain m where "n = Suc m" using none.prems by (cases n) auto
    then show ?thesis
      using e True none.prems forest_step [OF _ _ eoc_element, of depth rest m eoc] by simp
  qed (simp add: forest_Nil closed_def)
next
  case (more t bs ts cs)
  have "bs \<noteq> []" using more.hyps(1) der_tag_nonempty by (auto elim: ber_one.cases)
  then have "0 < length bs" by simp
  then have "length (cs @ end_bytes) < n" using more.prems(2) unfolding length_append by linarith
  then obtain m where m: "n = Suc m" "length (cs @ end_bytes) \<le> m" by (cases n) auto
  have "forest m eoc depth (cs @ end_bytes) = Some (ts, rest)"
    using more.IH(2) [OF more.prems(1) m(2)] more.prems(3) by simp
  then show ?case
    using more.IH(1) [of "cs @ end_bytes" m depth eoc] more.prems m(1) by simp
qed

text \<open>The parser accepts exactly what the grammar generates.\<close>

lemma forest_iff:
  assumes "length bs \<le> n"
  shows "forest n False depth bs = Some (ts, []) \<longleftrightarrow> ber_seq ts bs \<and> depth + heights ts \<le> kMaxDepth"
proof
  assume "forest n False depth bs = Some (ts, [])"
  from forest_sound [OF this] show "ber_seq ts bs \<and> depth + heights ts \<le> kMaxDepth" by (auto simp: closed_def)
next
  assume "ber_seq ts bs \<and> depth + heights ts \<le> kMaxDepth"
  then show "forest n False depth bs = Some (ts, [])"
    using forest_complete(2) [of ts bs False "[]" "[]" n depth] assms by (simp add: closed_def)
qed

lemma forest_rest: "forest n False depth bs = Some (ts, rest) \<Longrightarrow> rest = []"
  using forest_sound [of n False depth bs ts rest] by (auto simp: closed_def)

subsection \<open>Writers that produce bytes or fail\<close>

definition ready :: "nat \<Rightarrow> CBB \<Rightarrow> bool" where
  "ready d cbb \<longleftrightarrow> wf_cbb cbb \<and> length (cb_chain cbb) = d \<and> \<not> bb_error (cb_base cbb)"

definition does :: "heap \<Rightarrow> nat \<Rightarrow> bytes option \<Rightarrow> (CBB \<Rightarrow> bool \<times> CBB) \<Rightarrow> bool" where
  "does hp d x w \<longleftrightarrow>
     (case x of None \<Rightarrow> (\<forall>cbb. ready d cbb \<longrightarrow> \<not> fst (w cbb)) | Some bs \<Rightarrow> appends hp d bs True w)"

lemma appends_ready:
  assumes "appends hp d bs P w" "ready d cbb" "w cbb = (True, cbb')"
  shows "P" "ready d cbb'"
  using appendsD [OF assms(1) _ _ _ assms(3)] assms(2) by (auto simp: ready_def)

lemma does_None: "(\<And>cbb. ready d cbb \<Longrightarrow> \<not> fst (w cbb)) \<Longrightarrow> does hp d None w"
  by (simp add: does_def)

lemma does_Some: "appends hp d bs True w \<Longrightarrow> does hp d (Some bs) w"
  by (simp add: does_def)

lemma does_then:
  assumes "does hp d x w" "does hp d y w'"
  shows "does hp d (join [x, y]) (cbb_then w w')"
proof (cases "x = None \<or> y = None")
  case True
  have "does hp d None (cbb_then w w')"
  proof (rule does_None)
    fix cbb assume r: "ready d cbb"
    obtain ok cbb1 where w: "w cbb = (ok, cbb1)" by fastforce
    show "\<not> fst (cbb_then w w' cbb)"
    proof (cases "ok \<and> x \<noteq> None")
      case ok: True
      then obtain bs where "appends hp d bs True w" using assms(1) by (auto simp: does_def)
      then have "ready d cbb1" by (rule appends_ready(2) [OF _ r]) (use w ok in simp)
      then have "\<not> fst (w' cbb1)" using True ok assms(2) by (auto simp: does_def)
      then show ?thesis using w by (simp add: cbb_then_def)
    next
      case False
      have "\<not> ok"
      proof
        assume ok
        then have "\<not> fst (w cbb)" using assms(1) r False by (simp add: does_def)
        then show False using w \<open>ok\<close> by simp
      qed
      then show ?thesis using w by (simp add: cbb_then_def)
    qed
  qed
  moreover have "join [x, y] = None" using True by (auto split: option.splits)
  ultimately show ?thesis by simp
next
  case False
  then obtain bs cs where "x = Some bs" "y = Some cs" by auto
  then show ?thesis using assms appends_then [of hp d bs True w cs True w'] by (simp add: does_def)
qed

lemma does_flush: "does hp d x w \<Longrightarrow> does hp d x (cbb_then w (CBB_flush hp d))"
  using does_then [of hp d x w "Some []" "CBB_flush hp d"] appends_flush [of True hp d]
  by (cases x) (auto simp: does_def)

lemma does_asn1:
  assumes "does hp (Suc d) x w"
  shows "does hp d (Option.bind x (der_checked t)) (cbb_then (CBB_add_asn1 hp d t) (cbb_then w (CBB_flush hp d)))"
proof (cases x)
  case None
  have "does hp d None (cbb_then (CBB_add_asn1 hp d t) (cbb_then w (CBB_flush hp d)))"
  proof (rule does_None)
    fix cbb assume r: "ready d cbb"
    obtain ok c1 where 1: "CBB_add_asn1 hp d t cbb = (ok, c1)" by fastforce
    have "ok \<Longrightarrow> ready (Suc d) c1"
      using CBB_add_asn1_opens [OF _ _ _ 1] r by (auto simp: ready_def)
    then have "ok \<Longrightarrow> \<not> fst (w c1)" using assms None by (simp add: does_def)
    then show "\<not> fst (cbb_then (CBB_add_asn1 hp d t) (cbb_then w (CBB_flush hp d)) cbb)"
      using 1 by (cases "w c1") (auto simp: cbb_then_def)
  qed
  then show ?thesis using None by simp
next
  case (Some bs)
  then have w: "appends hp (Suc d) bs True w" using assms by (simp add: does_def)
  note A = appends_asn1 [OF w, of t]
  show ?thesis
  proof (cases "length bs \<le> 0xFFFFFFFE")
    case True
    then show ?thesis using A Some by (simp add: does_def der_checked_def)
  next
    case False
    have "does hp d None (cbb_then (CBB_add_asn1 hp d t) (cbb_then w (CBB_flush hp d)))"
    proof (rule does_None)
      fix cbb assume "ready d cbb"
      then show "\<not> fst (cbb_then (CBB_add_asn1 hp d t) (cbb_then w (CBB_flush hp d)) cbb)"
        using appends_ready(1) [OF A] False by (cases "cbb_then (CBB_add_asn1 hp d t) (cbb_then w (CBB_flush hp d)) cbb") auto
    qed
    then show ?thesis using False Some by (simp add: der_checked_def)
  qed
qed

subsection \<open>What stands around the contents of an element\<close>

definition out_tag :: "u32 \<Rightarrow> u32" where
  "out_tag t = (if constructed t \<and> is_string_type t then primitive_tag t else t)"

definition child_tag :: "u32 \<Rightarrow> u32 \<Rightarrow> u32" where
  "child_tag s t = (if s \<noteq> 0 then s else if constructed t \<and> is_string_type t then primitive_tag t else 0)"

definition child_depth :: "u32 \<Rightarrow> nat \<Rightarrow> nat" where
  "child_depth s d = (if s \<noteq> 0 then d else Suc d)"

definition enclosed :: "u32 \<Rightarrow> u32 \<Rightarrow> bytes option \<Rightarrow> bytes option" where
  "enclosed s t x =
     (if s \<noteq> 0 then (if primitive_tag t = s then x else None) else Option.bind x (der_checked (out_tag t)))"

definition enclosing :: "heap \<Rightarrow> nat \<Rightarrow> u32 \<Rightarrow> u32 \<Rightarrow> (CBB \<Rightarrow> bool \<times> CBB) \<Rightarrow> CBB \<Rightarrow> bool \<times> CBB" where
  "enclosing hp d s t w =
     (if s \<noteq> 0 then (if primitive_tag t = s then cbb_then w (CBB_flush hp d) else Pair False)
      else cbb_then (CBB_add_asn1 hp d (out_tag t)) (cbb_then w (CBB_flush hp d)))"

lemma enclosing_does:
  assumes "does hp (child_depth s d) x w"
  shows "does hp d (enclosed s t x) (enclosing hp d s t w)"
proof (cases "s = 0")
  case True
  then show ?thesis using does_asn1 [of hp d x w "out_tag t"] assms
    by (simp add: enclosed_def enclosing_def child_depth_def)
next
  case False
  then show ?thesis using does_flush [of hp d x w] assms
    by (auto simp: enclosed_def enclosing_def child_depth_def intro: does_None)
qed

lemma string_type_nonzero: "is_string_type t \<Longrightarrow> primitive_tag t \<noteq> 0"
  by (auto simp: is_string_type_def)

lemma written_as_Constructed:
  assumes "constructed t"
  shows "written_as s (Constructed t ts) = enclosed s t (join (map (written_as (child_tag s t)) ts))"
proof -
  have "written_as s' = (if s' \<noteq> 0 then fragment s' else ber_der)" for s' by (auto simp: written_as_def)
  then show ?thesis
    using string_type_nonzero [of t] assms by (auto simp: enclosed_def child_tag_def out_tag_def)
qed

lemma written_as_Primitive:
  "\<not> constructed t \<Longrightarrow> written_as s (Primitive t body) = enclosed s t (Some body)"
  by (simp add: written_as_def enclosed_def out_tag_def)

subsection \<open>The conversion writes what the trees stand for\<close>

definition conv :: "heap \<Rightarrow> nat \<Rightarrow> nat \<Rightarrow> u32 \<Rightarrow> bool \<Rightarrow> nat \<Rightarrow> CBS \<Rightarrow> CBB \<Rightarrow> bool \<times> CBB" where
  "conv hp n d s eoc depth c cbb = (case cbs_convert_ber hp n d s eoc depth c cbb of (ok, c', cbb') \<Rightarrow> (ok, cbb'))"

text \<open>Where a successful call leaves the window does not depend on the CBB.\<close>

definition leaves :: "heap \<Rightarrow> nat \<Rightarrow> nat \<Rightarrow> u32 \<Rightarrow> bool \<Rightarrow> nat \<Rightarrow> CBS \<Rightarrow> CBS \<Rightarrow> bool" where
  "leaves hp n d s eoc depth c c' \<longleftrightarrow>
     (\<forall>cbb cbb' c1. cbs_convert_ber hp n d s eoc depth c cbb = (True, c1, cbb') \<longrightarrow> c1 = c')"

lemma get_ber_element:
  assumes "wf_cbs c"
  obtains (Malformed) c' where "CBS_get_any_ber_asn1_element c = (None, c')" "b_element True (view c) = None"
  | (Element) out t hl f c' where "CBS_get_any_ber_asn1_element c = (Some (out, t, hl, f), c')"
      "b_element True (view c) = Some ((view out, t, hl, f), view c')" "wf_cbs out" "wf_cbs c'"
proof -
  obtain r c' where g: "CBS_get_any_ber_asn1_element c = (r, c')" by fastforce
  note R = reads_asD [OF cbs_get_any_asn1_element_reads assms g [unfolded CBS_get_any_ber_asn1_element_def]]
  show thesis
  proof (cases "b_element True (view c)")
    case None
    then show thesis using Malformed g R(3) by simp
  next
    case (Some p)
    obtain e t hl f rest where p: "p = ((e, t, hl, f), rest)" by (metis prod.exhaust)
    with R(4) Some obtain out where "r = Some (out, t, hl, f)" "shows_bytes out e" "view c' = rest" by fastforce
    then show thesis using Element g Some p R(1) by (auto simp: shows_bytes_def)
  qed
qed

lemma ber_header_skipped:
  assumes "wf_cbs out" "hl \<le> length (view out)"
  obtains c' where "CBS_skip hl out = (Some (), c')" "wf_cbs c'" "view c' = drop hl (view out)"
proof -
  obtain r c' where g: "CBS_skip hl out = (r, c')" by fastforce
  have "b_take hl (view out) = Some (take hl (view out), drop hl (view out))" using assms(2) by (simp add: b_take_def)
  from reads_asD(1) [OF CBS_skip_reads assms(1) g] reads_asD(4) [OF CBS_skip_reads assms(1) g this] show thesis
    using that g by auto
qed

lemma is_eoc_view:
  assumes "wf_cbs out"
  shows "is_eoc hl out \<longleftrightarrow> hl = 2 \<and> view out = [0, 0]"
proof (cases "CBS_len out = 2")
  case True
  then have v: "view out = take 2 (CBS_data out)" "length (view out) = 2"
    using length_view [OF assms] by (simp_all add: view_def CBS_len_def CBS_data_def)
  then obtain a b where ab: "view out = [a, b]" using length_explicit(1) by blast
  have "memcmp_sign [a, b] [0, 0] = 0 \<longleftrightarrow> a = 0 \<and> b = 0"
    by (simp add: memcmp_sign_def)
  then show ?thesis using True ab v by (auto simp: is_eoc_def)
next
  case False
  then have "length (view out) \<noteq> 2" using length_view [OF assms] by (simp add: CBS_len_def)
  then show ?thesis using False by (auto simp: is_eoc_def)
qed

lemma indefinite_test:
  assumes "wf_cbs out" "0 < hl" "hl \<le> length (view out)"
  shows "CBS_len out = hl \<and> 0 < hl \<and> CBS_data out ! (hl - 1) = 0x80 \<longleftrightarrow>
    length (view out) = hl \<and> view out ! (hl - 1) = 0x80"
  using assms length_view [OF assms(1)] by (auto simp: CBS_len_def CBS_data_def view_def)

lemma open_contents_enclosing:
  "(case open_contents hp d s t cbb of
      (ok, d', s', cbb) \<Rightarrow> if \<not> ok then (False, cbb) else cbb_then (w d' s') (CBB_flush hp d) cbb) =
   enclosing hp d s t (w (child_depth s d) (child_tag s t)) cbb"
  by (auto simp: open_contents_def enclosing_def child_depth_def child_tag_def out_tag_def cbb_then_def Let_def
      split: prod.split)

text \<open>The part of a round behind the tests, for a function \<open>I\<close> that writes the contents.\<close>

definition round_of :: "heap \<Rightarrow> nat \<Rightarrow> nat \<Rightarrow> u32 \<Rightarrow> bool \<Rightarrow> nat \<Rightarrow> u32 \<Rightarrow> CBS \<Rightarrow>
    (nat \<Rightarrow> u32 \<Rightarrow> CBB \<Rightarrow> bool \<times> CBS \<times> CBB) \<Rightarrow> CBB \<Rightarrow> bool \<times> CBS \<times> CBB" where
  "round_of hp n d s eoc depth t c1 I cbb =
     (case open_contents hp d s t cbb of
        (ok, d', s', cbb) \<Rightarrow>
          if \<not> ok then (False, c1, cbb)
          else
            (case I d' s' cbb of
               (ok, c', cbb) \<Rightarrow>
                 if \<not> ok then (False, c', cbb)
                 else
                   (case CBB_flush hp d cbb of
                      (ok, cbb) \<Rightarrow>
                        if \<not> ok then (False, c', cbb) else cbs_convert_ber hp n d s eoc depth c' cbb)))"

definition no_window :: "bool \<times> CBS \<times> CBB \<Rightarrow> bool \<times> CBB" where
  "no_window r = (case r of (ok, c, cbb) \<Rightarrow> (ok, cbb))"

lemma no_window_fst: "fst (no_window r) = fst r"
  by (simp add: no_window_def split: prod.split)

lemma round_of_shape:
  assumes "\<forall>cbb c' cbb'. I (child_depth s d) (child_tag s t) cbb = (True, c', cbb') \<longrightarrow> c' = ce"
  shows "no_window (round_of hp n d s eoc depth t c1 I cbb) =
      cbb_then (enclosing hp d s t (\<lambda>cbb. no_window (I (child_depth s d) (child_tag s t) cbb))) (conv hp n d s eoc depth ce) cbb"
    and "leaves hp n d s eoc depth ce cf \<Longrightarrow> round_of hp n d s eoc depth t c1 I cbb = (True, c', cbb') \<Longrightarrow> c' = cf"
proof -
  let ?I = "I (child_depth s d) (child_tag s t)"
  obtain ok0 d' s' cbb0 where o: "open_contents hp d s t cbb = (ok0, d', s', cbb0)" by (metis prod.exhaust)
  have ds: "ok0 \<Longrightarrow> d' = child_depth s d \<and> s' = child_tag s t"
    using o by (auto simp: open_contents_def child_depth_def child_tag_def Let_def split: if_splits prod.splits)
  obtain ok1 c' cbb1 where i: "?I cbb0 = (ok1, c', cbb1)" by (metis prod.exhaust)
  have c': "ok1 \<Longrightarrow> c' = ce" using assms i by (metis (full_types))
  have e: "enclosing hp d s t (\<lambda>cbb. no_window (?I cbb)) cbb =
      (if \<not> ok0 then (False, cbb0) else if \<not> ok1 then (False, cbb1) else CBB_flush hp d cbb1)"
    using open_contents_enclosing [where hp = hp and d = d and s = s and t = t and cbb = cbb and
        w = "\<lambda>d' s' cbb. no_window (I d' s' cbb)"] o ds i
    by (auto simp: cbb_then_def no_window_def)
  obtain ok2 cbb2 where f: "CBB_flush hp d cbb1 = (ok2, cbb2)" by fastforce
  have r: "round_of hp n d s eoc depth t c1 I cbb =
      (if \<not> ok0 then (False, c1, cbb0) else if \<not> ok1 then (False, c', cbb1)
       else if \<not> ok2 then (False, c', cbb2) else cbs_convert_ber hp n d s eoc depth c' cbb2)"
    using o ds i f by (auto simp: round_of_def)
  show "no_window (round_of hp n d s eoc depth t c1 I cbb) =
      cbb_then (enclosing hp d s t (\<lambda>cbb. no_window (?I cbb))) (conv hp n d s eoc depth ce) cbb"
    unfolding r using e f c' by (auto simp: cbb_then_def no_window_def conv_def)
  show "leaves hp n d s eoc depth ce cf \<Longrightarrow> round_of hp n d s eoc depth t c1 I cbb = (True, c'', cbb') \<Longrightarrow> c'' = cf" for c''
    unfolding r leaves_def using c' by (auto split: if_splits)
qed

lemma round_of_success:
  assumes "fst (round_of hp n d s eoc depth t c1 I cbb)"
  shows "fst (enclosing hp d s t (\<lambda>cbb. no_window (I (child_depth s d) (child_tag s t) cbb)) cbb)"
proof -
  obtain ok0 d' s' cbb0 where o: "open_contents hp d s t cbb = (ok0, d', s', cbb0)" by (metis prod.exhaust)
  then have ds: "ok0 \<Longrightarrow> d' = child_depth s d \<and> s' = child_tag s t"
    by (auto simp: open_contents_def child_depth_def child_tag_def Let_def split: if_splits prod.splits)
  then have "ok0" "I (child_depth s d) (child_tag s t) cbb0 = I d' s' cbb0"
    using assms o by (auto simp: round_of_def split: if_splits)
  then show ?thesis
    using assms o open_contents_enclosing [where hp = hp and d = d and s = s and t = t and cbb = cbb and
        w = "\<lambda>d' s' cbb. no_window (I d' s' cbb)", symmetric]
    by (auto simp: round_of_def cbb_then_def no_window_def split: prod.splits if_splits)
qed

lemma conv_no_window: "conv hp n d s eoc depth c cbb = no_window (cbs_convert_ber hp n d s eoc depth c cbb)"
  by (simp add: conv_def no_window_def)

text \<open>A window that starts with an element other than the end of an indefinite length.\<close>

definition element_at :: "CBS \<Rightarrow> CBS \<Rightarrow> u32 \<Rightarrow> nat \<Rightarrow> CBS \<Rightarrow> bool" where
  "element_at c out t hl c1 \<longleftrightarrow>
     CBS_len c \<noteq> 0 \<and> wf_cbs out \<and> \<not> (hl = 2 \<and> view out = [0, 0]) \<and>
     (\<exists>f. CBS_get_any_ber_asn1_element c = (Some (out, t, hl, f), c1) \<and>
        b_element True (view c) = Some ((view out, t, hl, f), view c1))"

lemma round_unfold:
  assumes at: "element_at c out t hl c1" and depth: "depth \<le> kMaxDepth"
  shows "cbs_convert_ber hp (Suc n) d s eoc depth c cbb =
     (case open_contents hp d s t cbb of
        (ok, d', s', cbb) \<Rightarrow>
          if \<not> ok then (False, c1, cbb)
          else if constructed t \<and> view out = der_tag t @ [0x80] then
            (case cbs_convert_ber hp n d' s' True (depth + 1) c1 cbb of
               (ok, c', cbb) \<Rightarrow>
                 if \<not> ok then (False, c', cbb)
                 else (case CBB_flush hp d cbb of
                         (ok, cbb) \<Rightarrow> if \<not> ok then (False, c', cbb) else cbs_convert_ber hp n d s eoc depth c' cbb))
          else
            (case CBS_skip hl out of
               (None, body) \<Rightarrow> (False, c1, cbb)
             | (Some _, body) \<Rightarrow>
                 (case (if constructed t
                        then (case cbs_convert_ber hp n d' s' False (depth + 1) body cbb of (ok, c', cbb) \<Rightarrow> (ok, cbb))
                        else CBB_add_bytes hp d' (take (CBS_len body) (CBS_data body)) cbb) of
                    (ok, cbb) \<Rightarrow>
                      if \<not> ok then (False, c1, cbb)
                      else (case CBB_flush hp d cbb of
                              (ok, cbb) \<Rightarrow> if \<not> ok then (False, c1, cbb) else cbs_convert_ber hp n d s eoc depth c1 cbb))))"
proof -
  from at obtain f where get: "CBS_get_any_ber_asn1_element c = (Some (out, t, hl, f), c1)"
    and elem: "b_element True (view c) = Some ((view out, t, hl, f), view c1)"
    and c: "CBS_len c \<noteq> 0" "wf_cbs out" "\<not> (hl = 2 \<and> view out = [0, 0])" by (auto simp: element_at_def)
  have d: "\<not> kMaxDepth < depth" using depth by simp
  note facts = b_element_facts [OF elem]
  have eoc: "\<not> is_eoc hl out" using c(3) is_eoc_view [OF c(2)] by blast
  show ?thesis
    by (subst cbs_convert_ber.simps)
      (simp only: d c(1) get eoc indefinite_test [OF c(2) facts(3,2)] facts(4) if_False nat.case option.case prod.case)
qed

lemma conv_indefinite:
  assumes at: "element_at c out t hl c1" "depth \<le> kMaxDepth" and "constructed t \<and> view out = der_tag t @ [0x80]"
  shows "leaves hp n (child_depth s d) (child_tag s t) True (depth + 1) c1 c2 \<Longrightarrow>
      conv hp (Suc n) d s eoc depth c =
      cbb_then (enclosing hp d s t (conv hp n (child_depth s d) (child_tag s t) True (depth + 1) c1)) (conv hp n d s eoc depth c2)"
    "leaves hp n (child_depth s d) (child_tag s t) True (depth + 1) c1 c2 \<Longrightarrow>
      leaves hp n d s eoc depth c2 c3 \<Longrightarrow> leaves hp (Suc n) d s eoc depth c c3"
    "fst (conv hp (Suc n) d s eoc depth c cbb) \<Longrightarrow>
      fst (enclosing hp d s t (conv hp n (child_depth s d) (child_tag s t) True (depth + 1) c1) cbb)"
proof -
  let ?I = "\<lambda>d' s'. cbs_convert_ber hp n d' s' True (depth + 1) c1"
  have eq: "cbs_convert_ber hp (Suc n) d s eoc depth c cbb = round_of hp n d s eoc depth t c1 ?I cbb" for cbb
    unfolding round_unfold [OF at] round_of_def if_P [OF assms(3)] ..
  show "fst (conv hp (Suc n) d s eoc depth c cbb) \<Longrightarrow>
      fst (enclosing hp d s t (conv hp n (child_depth s d) (child_tag s t) True (depth + 1) c1) cbb)"
    using round_of_success [where I = ?I and s = s and d = d and t = t and cbb = cbb and hp = hp and n = n and eoc = eoc]
    by (simp only: conv_no_window [abs_def] eq no_window_fst)
  assume "leaves hp n (child_depth s d) (child_tag s t) True (depth + 1) c1 c2"
  then have I: "\<forall>cbb c' cbb'. ?I (child_depth s d) (child_tag s t) cbb = (True, c', cbb') \<longrightarrow> c' = c2"
    by (simp add: leaves_def)
  note shape = round_of_shape [where I = ?I and s = s and d = d and t = t and ce = c2, OF I]
  show "conv hp (Suc n) d s eoc depth c =
      cbb_then (enclosing hp d s t (conv hp n (child_depth s d) (child_tag s t) True (depth + 1) c1)) (conv hp n d s eoc depth c2)"
    by (rule ext) (simp only: conv_no_window [abs_def] eq shape(1))
  show "leaves hp n d s eoc depth c2 c3 \<Longrightarrow> leaves hp (Suc n) d s eoc depth c c3"
    using shape(2) unfolding leaves_def [of hp "Suc n"] eq by blast
qed

lemma conv_definite:
  assumes at: "element_at c out t hl c1" "depth \<le> kMaxDepth" and "\<not> (constructed t \<and> view out = der_tag t @ [0x80])" "CBS_skip hl out = (Some (), body)"
    "w = (if constructed t then conv hp n (child_depth s d) (child_tag s t) False (depth + 1) body
          else CBB_add_bytes hp (child_depth s d) (take (CBS_len body) (CBS_data body)))"
  shows "conv hp (Suc n) d s eoc depth c = cbb_then (enclosing hp d s t w) (conv hp n d s eoc depth c1)"
    "leaves hp n d s eoc depth c1 c3 \<Longrightarrow> leaves hp (Suc n) d s eoc depth c c3"
proof -
  let ?I = "\<lambda>d' s' cbb. case (if constructed t
                        then (case cbs_convert_ber hp n d' s' False (depth + 1) body cbb of (ok, c', cbb) \<Rightarrow> (ok, cbb))
                        else CBB_add_bytes hp d' (take (CBS_len body) (CBS_data body)) cbb) of (ok, cbb) \<Rightarrow> (ok, c1, cbb)"
  have eq: "cbs_convert_ber hp (Suc n) d s eoc depth c cbb = round_of hp n d s eoc depth t c1 ?I cbb" for cbb
    unfolding round_unfold [OF at] round_of_def if_not_P [OF assms(3)] assms(4) by (auto split: prod.split)
  have I: "\<forall>cbb c' cbb'. ?I (child_depth s d) (child_tag s t) cbb = (True, c', cbb') \<longrightarrow> c' = c1"
    by (auto split: prod.splits)
  note shape = round_of_shape [where I = ?I and s = s and d = d and t = t and ce = c1, OF I]
  have w: "no_window (?I (child_depth s d) (child_tag s t) cbb) = w cbb" for cbb
    unfolding assms(5) by (auto simp: no_window_def conv_def split: prod.split)
  show "conv hp (Suc n) d s eoc depth c = cbb_then (enclosing hp d s t w) (conv hp n d s eoc depth c1)"
    by (rule ext) (simp only: conv_no_window [of _ "Suc n"] eq shape(1) w)
  show "leaves hp n d s eoc depth c1 c3 \<Longrightarrow> leaves hp (Suc n) d s eoc depth c c3"
    using shape(2) unfolding leaves_def [of hp "Suc n"] eq by blast
qed

text \<open>The outcome of a call: no success, or the bytes of the trees and the rest of the window.\<close>

definition conv_outcome :: "heap \<Rightarrow> nat \<Rightarrow> nat \<Rightarrow> u32 \<Rightarrow> bool \<Rightarrow> nat \<Rightarrow> CBS \<Rightarrow> (ber list \<times> bytes) option \<Rightarrow> bool" where
  "conv_outcome hp n d s eoc depth c r \<longleftrightarrow>
     (case r of
        None \<Rightarrow> does hp d None (conv hp n d s eoc depth c)
      | Some (ts, rest) \<Rightarrow>
          does hp d (join (map (written_as s) ts)) (conv hp n d s eoc depth c) \<and>
          (\<exists>c'. wf_cbs c' \<and> view c' = rest \<and> leaves hp n d s eoc depth c c'))"

lemma conv_outcome_end:
  assumes "\<And>cbb. cbs_convert_ber hp n d s eoc depth c cbb = (ok, c', cbb)"
  shows "\<not> ok \<Longrightarrow> conv_outcome hp n d s eoc depth c None"
    "ok \<Longrightarrow> wf_cbs c' \<Longrightarrow> conv_outcome hp n d s eoc depth c (Some ([], view c'))"
proof -
  have "conv hp n d s eoc depth c = Pair ok" by (rule ext) (simp add: conv_def assms)
  then show "\<not> ok \<Longrightarrow> conv_outcome hp n d s eoc depth c None"
    "ok \<Longrightarrow> wf_cbs c' \<Longrightarrow> conv_outcome hp n d s eoc depth c (Some ([], view c'))"
    using appends_return [of True hp d]
    by (auto simp: conv_outcome_def leaves_def assms does_def)
qed

lemma does_then_Cons:
  "does hp d x w \<Longrightarrow> does hp d (join xs) w' \<Longrightarrow> does hp d (join (x # xs)) (cbb_then w w')"
  using does_then [of hp d x w "join xs" w'] by (cases "join xs") (auto split: option.splits)

lemma does_then_fails:
  "does hp d x w \<Longrightarrow> x = None \<or> y = None \<Longrightarrow> does hp d y w' \<Longrightarrow> does hp d None (cbb_then w w')"
  using does_then [of hp d x w y w'] by (auto split: option.splits)

text \<open>An element whose contents behave as \<open>x\<close> says, and the rest of the sequence.\<close>

lemma conv_outcome_more:
  assumes conv: "conv hp (Suc n) d s eoc depth c = cbb_then (enclosing hp d s t w) (conv hp n d s eoc depth c1)"
    and leaves: "\<And>c2. leaves hp n d s eoc depth c1 c2 \<Longrightarrow> leaves hp (Suc n) d s eoc depth c c2"
    and w: "does hp (child_depth s d) x w" and u: "written_as s u = enclosed s t x"
    and rest: "conv_outcome hp n d s eoc depth c1 r"
  shows "conv_outcome hp (Suc n) d s eoc depth c (map_option (apfst (Cons u)) r)"
proof (cases r)
  case None
  then have "does hp d None (conv hp n d s eoc depth c1)" using rest by (simp add: conv_outcome_def)
  then have "does hp d None (conv hp (Suc n) d s eoc depth c)"
    unfolding conv by (intro does_then_fails [OF enclosing_does [OF w], where y = None]) simp_all
  then show ?thesis using None by (simp add: conv_outcome_def)
next
  case (Some p)
  obtain ts rest' where p: "r = Some (ts, rest')" using Some by (cases p) auto
  then have "does hp d (join (written_as s u # map (written_as s) ts)) (conv hp (Suc n) d s eoc depth c)"
    unfolding conv u using rest by (intro does_then_Cons enclosing_does [OF w]) (simp add: conv_outcome_def)
  moreover have "\<exists>c'. wf_cbs c' \<and> view c' = rest' \<and> leaves hp (Suc n) d s eoc depth c c'"
    using rest leaves p by (auto simp: conv_outcome_def)
  ultimately show ?thesis using p by (simp add: conv_outcome_def)
qed

lemma conv_outcome_inner_fails:
  assumes "does hp (child_depth s d) None w" "\<And>cbb. ready d cbb \<Longrightarrow> fst (conv hp (Suc n) d s eoc depth c cbb) \<Longrightarrow> fst (enclosing hp d s t w cbb)"
  shows "conv_outcome hp (Suc n) d s eoc depth c None"
proof -
  have "enclosed s t None = None" by (simp add: enclosed_def)
  then have "does hp d None (enclosing hp d s t w)" using enclosing_does [OF assms(1), of t] by simp
  then show ?thesis using assms(2) by (auto simp: conv_outcome_def does_def)
qed

lemma conv_outcome_Nil:
  assumes c: "wf_cbs c" "CBS_len c = 0" and depth: "depth \<le> kMaxDepth"
  shows "conv_outcome hp n d s eoc depth c (forest n eoc depth (view c))"
proof -
  have "view c = []" using CBS_len_zero [OF c(1)] c(2) by blast
  then have f: "forest n eoc depth (view c) = (if eoc then None else Some ([], view c))" using depth by (simp add: forest_Nil)
  have "cbs_convert_ber hp n d s eoc depth c cbb = (\<not> eoc, c, cbb)" for cbb
    using c depth by (subst cbs_convert_ber.simps) simp
  from conv_outcome_end [OF this] show ?thesis unfolding f using c(1) by simp
qed

lemma conv_outcome_stuck:
  assumes "kMaxDepth < depth \<or> CBS_len c \<noteq> 0 \<and> (n = 0 \<or> (\<exists>c'. CBS_get_any_ber_asn1_element c = (None, c')))"
  shows "conv_outcome hp n d s eoc depth c None"
proof -
  obtain c' where "\<And>cbb. cbs_convert_ber hp n d s eoc depth c cbb = (False, c', cbb)"
  proof (cases "kMaxDepth < depth \<or> CBS_len c \<noteq> 0 \<and> n = 0")
    case True
    then show thesis by (intro that [of c], subst cbs_convert_ber.simps) auto
  next
    case False
    then obtain c' m where "CBS_get_any_ber_asn1_element c = (None, c')" "n = Suc m" "CBS_len c \<noteq> 0" "\<not> kMaxDepth < depth"
      using assms by (cases n) auto
    then show thesis by (intro that [of c'], subst cbs_convert_ber.simps) simp
  qed
  from conv_outcome_end(1) [OF this] show ?thesis by simp
qed

text \<open>The rounds on an element, given that shorter runs behave as the trees say.\<close>

lemma conv_outcome_indefinite:
  assumes at: "element_at c out t hl c1" "depth \<le> kMaxDepth" and ind: "constructed t \<and> view out = der_tag t @ [0x80]"
    and wf: "wf_cbs c1" "view c \<noteq> []"
    and IH: "\<And>d s eoc depth c. wf_cbs c \<Longrightarrow> conv_outcome hp n d s eoc depth c (forest n eoc depth (view c))"
  shows "conv_outcome hp (Suc n) d s eoc depth c (forest (Suc n) eoc depth (view c))"
proof -
  from at(1) obtain f where elem: "b_element True (view c) = Some ((view out, t, hl, f), view c1)"
    and no_eoc: "\<not> (hl = 2 \<and> view out = [0, 0])" by (auto simp: element_at_def)
  note step = forest_step [OF at(2) wf(2) elem, unfolded if_not_P [OF no_eoc] if_P [OF ind]]
  note round = conv_indefinite [OF at ind, where hp = hp and n = n and d = d and s = s and eoc = eoc]
  note inner = IH [OF wf(1), of "child_depth s d" "child_tag s t" True "depth + 1", unfolded conv_outcome_def]
  show ?thesis
  proof (cases "forest n True (depth + 1) (view c1)")
    case None
    then have "does hp (child_depth s d) None (conv hp n (child_depth s d) (child_tag s t) True (depth + 1) c1)"
      using inner by simp
    from conv_outcome_inner_fails [OF this round(3)] show ?thesis using step None by simp
  next
    case (Some p)
    obtain us r' where us: "forest n True (depth + 1) (view c1) = Some (us, r')" using Some by (cases p) auto
    with inner obtain c2 where in1: "does hp (child_depth s d) (join (map (written_as (child_tag s t)) us))
        (conv hp n (child_depth s d) (child_tag s t) True (depth + 1) c1)"
      "wf_cbs c2" "view c2 = r'" "leaves hp n (child_depth s d) (child_tag s t) True (depth + 1) c1 c2" by auto
    have "conv_outcome hp (Suc n) d s eoc depth c (map_option (apfst (Cons (Constructed t us))) (forest n eoc depth (view c2)))"
      using ind by (intro conv_outcome_more [OF round(1,2) [OF in1(4)] in1(1) written_as_Constructed IH] in1) auto
    then show ?thesis using step us in1(3) by simp
  qed
qed

lemma conv_outcome_definite:
  assumes at: "element_at c out t hl c1" "depth \<le> kMaxDepth" and def: "\<not> (constructed t \<and> view out = der_tag t @ [0x80])"
    and wf: "wf_cbs c1" "view c \<noteq> []"
    and IH: "\<And>d s eoc depth c. wf_cbs c \<Longrightarrow> conv_outcome hp n d s eoc depth c (forest n eoc depth (view c))"
  shows "conv_outcome hp (Suc n) d s eoc depth c (forest (Suc n) eoc depth (view c))"
proof -
  from at(1) obtain f where elem: "b_element True (view c) = Some ((view out, t, hl, f), view c1)"
    and out: "wf_cbs out" "\<not> (hl = 2 \<and> view out = [0, 0])" by (auto simp: element_at_def)
  note step = forest_step [OF at(2) wf(2) elem, unfolded if_not_P [OF out(2)] if_not_P [OF def]]
  obtain body where body: "CBS_skip hl out = (Some (), body)" "wf_cbs body" "view body = drop hl (view out)"
    using ber_header_skipped [OF out(1) b_element_facts(2) [OF elem]] by blast
  note round = conv_definite [OF at def body(1) refl, where hp = hp and n = n and d = d and s = s and eoc = eoc]
  show ?thesis
  proof (cases "constructed t")
    case True
    note inner = IH [OF body(2), of "child_depth s d" "child_tag s t" False "depth + 1", unfolded conv_outcome_def body(3)]
    show ?thesis
    proof (cases "forest n False (depth + 1) (drop hl (view out))")
      case None
      then have "does hp (child_depth s d) None (conv hp n (child_depth s d) (child_tag s t) False (depth + 1) body)"
        using inner by simp
      moreover have "fst (enclosing hp d s t (conv hp n (child_depth s d) (child_tag s t) False (depth + 1) body) cbb)"
        if "fst (conv hp (Suc n) d s eoc depth c cbb)" for cbb
        using that True unfolding round(1) by (auto simp: cbb_then_def split: prod.splits if_splits)
      ultimately have "conv_outcome hp (Suc n) d s eoc depth c None" by (rule conv_outcome_inner_fails)
      then show ?thesis using step True None by simp
    next
      case (Some p)
      obtain us r' where us: "forest n False (depth + 1) (drop hl (view out)) = Some (us, r')" using Some by (cases p) auto
      with inner have in1: "does hp (child_depth s d) (join (map (written_as (child_tag s t)) us))
          (conv hp n (child_depth s d) (child_tag s t) False (depth + 1) body)" by auto
      have "conv_outcome hp (Suc n) d s eoc depth c (map_option (apfst (Cons (Constructed t us))) (forest n eoc depth (view c1)))"
        using True in1 by (intro conv_outcome_more [OF round(1,2) _ written_as_Constructed IH] wf) simp_all
      then show ?thesis using step True us by simp
    qed
  next
    case False
    have "take (CBS_len body) (CBS_data body) = view body" by (simp add: view_def CBS_len_def CBS_data_def)
    moreover have "length (view body) < 2 ^ 64" using body(2) by (simp add: wf_cbs_def)
    ultimately have "does hp (child_depth s d) (Some (drop hl (view out)))
        (CBB_add_bytes hp (child_depth s d) (take (CBS_len body) (CBS_data body)))"
      using CBB_add_bytes_appends body(3) by (simp add: does_Some)
    then have "conv_outcome hp (Suc n) d s eoc depth c
        (map_option (apfst (Cons (Primitive t (drop hl (view out))))) (forest n eoc depth (view c1)))"
      using False by (intro conv_outcome_more [OF round(1,2) _ written_as_Primitive IH] wf) simp_all
    then show ?thesis using step False by simp
  qed
qed

lemma conv_outcome_holds:
  "wf_cbs c \<Longrightarrow> conv_outcome hp n d s eoc depth c (forest n eoc depth (view c))"
proof (induction n arbitrary: d s eoc depth c)
  case 0
  show ?case
  proof (cases "kMaxDepth < depth \<or> CBS_len c \<noteq> 0")
    case True
    then have "forest 0 eoc depth (view c) = None"
      using CBS_len_zero [OF 0] by (subst forest.simps) auto
    then show ?thesis using conv_outcome_stuck [of depth c 0] True by auto
  next
    case False
    then show ?thesis using conv_outcome_Nil [OF 0] by simp
  qed
next
  case (Suc n)
  show ?case
  proof (cases "kMaxDepth < depth")
    case True
    then have "forest (Suc n) eoc depth (view c) = None" by (subst forest.simps) simp
    then show ?thesis using conv_outcome_stuck [of depth c] True by simp
  next
    case depth: False
    then have depth': "depth \<le> kMaxDepth" by simp
    show ?thesis
    proof (cases "CBS_len c = 0")
      case True
      then show ?thesis by (rule conv_outcome_Nil [OF Suc.prems _ depth'])
    next
      case False
      then have some: "view c \<noteq> []" using CBS_len_zero [OF Suc.prems] by simp
      from Suc.prems show ?thesis
      proof (cases rule: get_ber_element)
        case (Malformed c')
        then have "forest (Suc n) eoc depth (view c) = None" using some by (subst forest.simps) simp
        then show ?thesis using conv_outcome_stuck [of depth c] False Malformed(1) by auto
      next
        case (Element out t hl f c1)
        show ?thesis
        proof (cases "hl = 2 \<and> view out = [0, 0]")
          case True
          have "cbs_convert_ber hp (Suc n) d s eoc depth c cbb = (eoc, c1, cbb)" for cbb
            using False depth Element(1) is_eoc_view [OF Element(3)] True by (subst cbs_convert_ber.simps) simp
          from conv_outcome_end [OF this] show ?thesis
            using forest_step [OF depth' some Element(2)] True Element(4) by simp
        next
          case no_eoc: False
          have at: "element_at c out t hl c1" using False Element no_eoc unfolding element_at_def by blast
          show ?thesis
            using conv_outcome_indefinite [OF at depth' _ Element(4) some Suc.IH]
              conv_outcome_definite [OF at depth' _ Element(4) some Suc.IH] by blast
        qed
      qed
    qed
  qed
qed

subsection \<open>The size of the result\<close>

lemma length_der_length: "length (der_length n) \<le> 5"
  by (simp add: der_length_def length_bytes_def)

lemma length_der_element_le: "length (der_element t body) \<le> length (der_tag t) + 5 + length body"
  using length_der_length [of "length body"] by (simp add: der_element_def)

lemma string_tag_short: "is_string_type t \<Longrightarrow> length (der_tag (primitive_tag t)) \<le> 1"
  by (auto simp: is_string_type_def der_tag_def)

lemma enclosed_length:
  assumes "enclosed s t x = Some out" "\<And>body'. x = Some body' \<Longrightarrow> length body' \<le> n"
  shows "length out \<le> length (der_tag t) + 5 + n"
proof -
  obtain body where body: "x = Some body" "length body \<le> n" using assms by (auto simp: enclosed_def split: if_splits bind_splits)
  show ?thesis
  proof (cases "s = 0")
    case True
    then have "out = der_element (out_tag t) body"
      using assms(1) body(1) by (auto simp: enclosed_def der_checked_def split: if_splits)
    moreover have "length (der_tag (out_tag t)) \<le> length (der_tag t)"
      using string_tag_short [of t] der_tag_nonempty [of t] by (cases "der_tag t") (auto simp: out_tag_def)
    ultimately show ?thesis using length_der_element_le [of "out_tag t" body] body(2) by simp
  next
    case False
    then show ?thesis using assms(1) body by (auto simp: enclosed_def split: if_splits)
  qed
qed

lemma written_length:
  shows "ber_one u bs \<Longrightarrow> written_as s u = Some out \<Longrightarrow> length out \<le> 5 * length bs"
    and "ber_seq ts bs \<Longrightarrow> join (map (written_as s) ts) = Some out \<Longrightarrow> length out \<le> 5 * length bs"
proof (induction arbitrary: s out and s out rule: ber_one_ber_seq.inducts)
  case (primitive t body l)
  have "0 < length l" using ber_length_nonempty [OF primitive.hyps(2)] by simp
  then have "length (der_element t body) \<le> 5 * length (der_tag t @ l @ body)"
    using length_der_element_le [of t body] unfolding length_append by presburger
  then show ?case
    using primitive.prems unfolding written_as_Primitive [OF primitive.hyps(1)]
    by (auto simp: enclosed_def out_tag_def primitive.hyps(1) der_checked_def split: if_splits)
next
  case (definite t ts body l)
  obtain k where "length l = Suc k" using ber_length_nonempty [OF definite.hyps(3)] by (cases l) auto
  moreover have "length out \<le> length (der_tag t) + 5 + 5 * length body"
    by (rule enclosed_length [OF definite.prems [unfolded written_as_Constructed [OF definite.hyps(1)]]]) (rule definite.IH)
  ultimately show ?case by simp
next
  case (indefinite t ts body)
  have "length out \<le> length (der_tag t) + 5 + 5 * length body"
    by (rule enclosed_length [OF indefinite.prems [unfolded written_as_Constructed [OF indefinite.hyps(1)]]]) (rule indefinite.IH)
  then show ?case by simp
next
  case (more t bs ts cs)
  then obtain a b where "written_as s t = Some a" "join (map (written_as s) ts) = Some b" "out = a @ b"
    by (auto split: option.splits)
  then show ?case using more.IH(1) [of s a] more.IH(2) [of s b] by simp
qed simp

subsection \<open>Looking for BER\<close>

fun b_find :: "nat \<Rightarrow> nat \<Rightarrow> bool \<Rightarrow> bytes \<Rightarrow> bool option" where
  "b_find n depth ber_found bs =
     (if bs = [] then Some ber_found
      else
        (case n of
           0 \<Rightarrow> None
         | Suc n \<Rightarrow>
             (case b_element True bs of
                None \<Rightarrow> None
              | Some ((e, t, hl, f), rest) \<Rightarrow>
                  if f then Some True
                  else if constructed t then
                    (if is_string_type t then Some True
                     else if kMaxDepth < depth + 1 then None
                     else
                       (case b_find n (depth + 1) False (drop hl e) of
                          None \<Rightarrow> None
                        | Some found \<Rightarrow> b_find n depth found rest))
                  else b_find n depth f rest)))"

declare b_find.simps [simp del]

lemma b_find_numeral:
  "b_find (numeral k) depth ber_found bs =
     (if bs = [] then Some ber_found
      else
        (case b_element True bs of
           None \<Rightarrow> None
         | Some ((e, t, hl, f), rest) \<Rightarrow>
             if f then Some True
             else if constructed t then
               (if is_string_type t then Some True
                else if kMaxDepth < depth + 1 then None
                else
                  (case b_find (pred_numeral k) (depth + 1) False (drop hl e) of
                     None \<Rightarrow> None
                   | Some found \<Rightarrow> b_find (pred_numeral k) depth found rest))
             else b_find (pred_numeral k) depth f rest))"
  by (subst b_find.simps) (simp only: numeral_eq_Suc nat.case)

lemma find_ber_loop_eq: "wf_cbs c \<Longrightarrow> find_ber_loop n depth found c = b_find n depth found (view c)"
proof (induction n arbitrary: depth found c)
  case 0
  then show ?case using CBS_len_zero [OF 0] by (subst find_ber_loop.simps, subst b_find.simps) simp
next
  case (Suc n)
  show ?case
  proof (cases "CBS_len c = 0")
    case True
    then show ?thesis using CBS_len_zero [OF Suc.prems] by (subst find_ber_loop.simps, subst b_find.simps) simp
  next
    case False
    then have some: "view c \<noteq> []" using CBS_len_zero [OF Suc.prems] by simp
    from Suc.prems show ?thesis
    proof (cases rule: get_ber_element)
      case (Malformed c')
      then show ?thesis using False some by (subst find_ber_loop.simps, subst b_find.simps) simp
    next
      case (Element out t hl f c1)
      obtain body where "CBS_skip hl out = (Some (), body)" "wf_cbs body" "view body = drop hl (view out)"
        using ber_header_skipped [OF Element(3) b_element_facts(2) [OF Element(2)]] by blast
      then show ?thesis
        using False some Element Suc.IH [OF Element(4)] Suc.IH [of body]
        by (subst find_ber_loop.simps, subst b_find.simps) (simp split: option.split)
    qed
  qed
qed

lemma cbs_find_ber_eq:
  assumes "wf_cbs c"
  shows "cbs_find_ber 0 c = b_find (length (view c)) 0 False (view c)"
proof -
  have "wf_cbs (CBS_init (CBS_data c) (CBS_len c))" "view (CBS_init (CBS_data c) (CBS_len c)) = view c"
    using assms by (simp_all add: CBS_data_def CBS_len_def view_def wf_cbs_def CBS_init_def)
  then show ?thesis using find_ber_loop_eq length_view [OF assms] by (simp add: cbs_find_ber_def CBS_len_def)
qed

text \<open>
  A form that only BER allows goes unnoticed when a sibling in DER follows the element it is in: the
  OCTET STRING in constructed form in the inner SEQUENCE is found in the second window and missed in
  the first.
\<close>

theorem nested_ber_is_missed:
  "cbs_find_ber 0 (CBS_init [0x30, 0x06, 0x30, 0x02, 0x24, 0x00, 0x05, 0x00] 8) = Some False \<and>
   cbs_find_ber 0 (CBS_init [0x30, 0x04, 0x30, 0x02, 0x24, 0x00] 6) = Some True"
proof -
  have find: "b_find 8 0 False [0x30, 0x06, 0x30, 0x02, 0x24, 0x00, 0x05, 0x00] = Some False"
    "b_find 6 0 False [0x30, 0x04, 0x30, 0x02, 0x24, 0x00] = Some True"
    by (simp_all add: b_find_numeral b_element_def is_string_type_def)
  have view: "view (CBS_init [0x30, 0x06, 0x30, 0x02, 0x24, 0x00, 0x05, 0x00] 8) = [0x30, 0x06, 0x30, 0x02, 0x24, 0x00, 0x05, 0x00]"
    "view (CBS_init [0x30, 0x04, 0x30, 0x02, 0x24, 0x00] 6) = [0x30, 0x04, 0x30, 0x02, 0x24, 0x00]"
    by simp_all
  have len: "length [0x30, 0x06, 0x30, 0x02, 0x24, 0x00, 0x05, 0x00 :: u8] = 8"
    "length [0x30, 0x04, 0x30, 0x02, 0x24, 0x00 :: u8] = 6"
    by simp_all
  have wf: "wf_cbs (CBS_init [0x30, 0x06, 0x30, 0x02, 0x24, 0x00, 0x05, 0x00] 8)"
    "wf_cbs (CBS_init [0x30, 0x04, 0x30, 0x02, 0x24, 0x00] 6)"
    by simp_all
  show ?thesis by (simp only: cbs_find_ber_eq [OF wf(1)] cbs_find_ber_eq [OF wf(2)] view len find simp_thms)
qed

subsection \<open>CBS_asn1_ber_to_der\<close>

lemma written_as_0: "written_as 0 = ber_der"
  by (simp add: fun_eq_iff written_as_def)

lemma written_None:
  assumes "does hp 0 None w" "n < 2 ^ 64"
  shows "written hp n w = None"
proof (cases "CBB_init hp n")
  case (Some cbb)
  then have "cbb = cbb_init (fresh_bytes hp n) True" by (auto simp: CBB_init_def split: if_splits)
  then have "ready 0 cbb" using assms(2) wf_cbb_init [of "fresh_bytes hp n"] by (simp add: ready_def cbb_init_def)
  then have "\<not> fst (w cbb)" using assms(1) by (simp add: does_def)
  then show ?thesis using Some by (cases "w cbb") (auto simp: written_def)
qed (simp add: written_def)

text \<open>The first element, when no conversion is needed.\<close>

lemma first_element:
  assumes "wf_cbs c"
  shows "(\<exists>out c'. p_bind CBS_get_any_asn1_element (\<lambda>(out, tag, header_len). p_return (out, None :: bytes option)) c = (Some (out, None), c') \<and>
      view out = e \<and> view c' = rest) \<longleftrightarrow>
    (\<exists>t contents. length contents < 2 ^ 32 \<and> e = der_element t contents \<and> view c = e @ rest)"
proof -
  have "reads_as (\<lambda>(out, st) (t, contents). shows_bytes out (der_element t contents) \<and> st = None)
      (p_bind CBS_get_any_asn1_element (\<lambda>x. p_return (case x of (out, tag, header_len) \<Rightarrow> (out, None :: bytes option)))) b_der"
    by (rule reads_as_map_id [OF CBS_get_any_asn1_element_reads]) auto
  moreover have "(\<lambda>x. p_return (case x of (out, tag, header_len) \<Rightarrow> (out, None :: bytes option))) =
      (\<lambda>(out, tag :: u32, header_len :: nat). p_return (out :: CBS, None))" by (auto simp: fun_eq_iff)
  ultimately have R: "reads_as (\<lambda>(out, st) (t, contents). shows_bytes out (der_element t contents) \<and> st = None)
      (p_bind CBS_get_any_asn1_element (\<lambda>(out, tag, header_len). p_return (out, None :: bytes option))) b_der" by simp
  obtain r c' where p: "p_bind CBS_get_any_asn1_element (\<lambda>(out, tag, header_len). p_return (out, None :: bytes option)) c = (r, c')"
    by fastforce
  note D = reads_asD [OF R assms p]
  show ?thesis
  proof (cases "b_der (view c)")
    case None
    then have "\<not> (length contents < 2 ^ 32 \<and> view c = der_element t contents @ rest)" for t contents
      using b_der_iff [of "view c" t contents rest] by simp
    then show ?thesis using D(3) [OF None] p by auto
  next
    case (Some x)
    obtain t cs r' where x: "x = ((t, cs), r')" by (metis prod.exhaust)
    then obtain out where out: "r = Some (out, None)" "view out = der_element t cs" "view c' = r'"
      using D(4) [of "(t, cs)" r'] Some by (auto simp: shows_bytes_def)
    have el: "length contents < 2 ^ 32 \<and> view c = der_element t' contents @ rest \<longleftrightarrow> t' = t \<and> contents = cs \<and> rest = r'" for t' contents
      using b_der_iff [of "view c" t' contents rest] Some x by auto
    have "(\<exists>t contents. length contents < 2 ^ 32 \<and> e = der_element t contents \<and> view c = e @ rest) \<longleftrightarrow>
        (\<exists>t contents. (length contents < 2 ^ 32 \<and> view c = der_element t contents @ rest) \<and> e = der_element t contents)"
      by blast
    also have "\<dots> \<longleftrightarrow> e = der_element t cs \<and> rest = r'" unfolding el by blast
    finally show ?thesis using out p by auto
  qed
qed

text \<open>
  C10. CBS_asn1_ber_to_der on a window of less than 2 to the 60 bytes, given memory. When the walk has
  found a form of BER, the call succeeds exactly if the window is a sequence of BER elements, nested
  at most 2048 deep, in whose constructed strings all fragments have the type of the string; the
  storage it returns then holds the DER encoding of these values: definite lengths in the fewest
  bytes, and each constructed string replaced by the primitive one with the joined fragments. When
  the walk has found none, the result is the first element of the window, which is in DER at its
  outer level, and nothing is allocated.
\<close>

theorem ber_to_der_exact:
  assumes hp: "\<forall>k. hp_serves hp k" and wf: "wf_cbs c" and len: "c_len c < 2 ^ 60"
  shows "(cbs_find_ber 0 c = Some True \<longrightarrow>
      ((\<exists>out storage c'. CBS_asn1_ber_to_der hp c = (Some (out, Some storage), c') \<and> view out = der) \<longleftrightarrow>
       (\<exists>ts. ber_seq ts (view c) \<and> heights ts \<le> kMaxDepth \<and> join (map ber_der ts) = Some der))) \<and>
    (cbs_find_ber 0 c = Some False \<longrightarrow>
      ((\<exists>out c'. CBS_asn1_ber_to_der hp c = (Some (out, None), c') \<and> view out = e \<and> view c' = rest) \<longleftrightarrow>
       (\<exists>t contents. length contents < 2 ^ 32 \<and> e = der_element t contents \<and> view c = e @ rest))) \<and>
    (cbs_find_ber 0 c = None \<longrightarrow> fst (CBS_asn1_ber_to_der hp c) = None)"
proof (intro conjI impI)
  assume found: "cbs_find_ber 0 c = Some True"
  let ?n = "CBS_len c"
  have n: "length (view c) = ?n" using length_view [OF wf] by (simp add: CBS_len_def)
  have run: "CBS_asn1_ber_to_der hp c =
      (case CBB_init hp ?n of
         None \<Rightarrow> (None, c)
       | Some cbb \<Rightarrow>
           (case cbs_convert_ber hp ?n 0 0 False 0 c cbb of
              (ok, c', cbb) \<Rightarrow>
                if \<not> ok then (None, c')
                else (case CBB_finish hp 0 True cbb of
                        (None, cbb) \<Rightarrow> (None, c')
                      | (Some st, cbb) \<Rightarrow> (Some (CBS_init st (length st), Some st), c'))))"
    by (simp add: CBS_asn1_ber_to_der_def found)
  then have result: "(\<exists>out st c'. CBS_asn1_ber_to_der hp c = (Some (out, Some st), c') \<and> view out = der) \<longleftrightarrow>
      written hp ?n (conv hp ?n 0 0 False 0 c) = Some der"
    by (auto simp: written_def conv_def split: option.splits prod.splits)
  note out = conv_outcome_holds [OF wf, of hp ?n 0 0 False 0]
  show "(\<exists>out st c'. CBS_asn1_ber_to_der hp c = (Some (out, Some st), c') \<and> view out = der) \<longleftrightarrow>
      (\<exists>ts. ber_seq ts (view c) \<and> heights ts \<le> kMaxDepth \<and> join (map ber_der ts) = Some der)"
    unfolding result
  proof (cases "\<exists>ts der. forest ?n False 0 (view c) = Some (ts, []) \<and> join (map ber_der ts) = Some der")
    case True
    then obtain ts der' where ts: "forest ?n False 0 (view c) = Some (ts, [])" "join (map ber_der ts) = Some der'" by blast
    have seq: "ber_seq ts (view c)" "heights ts \<le> kMaxDepth" using ts(1) forest_iff [of "view c" ?n 0 ts] n by auto
    have "length der' \<le> 5 * length (view c)" using written_length(2) [OF seq(1), of 0 der'] ts(2) by (simp add: written_as_0)
    then have short: "length der' < 2 ^ 64" using len n by (simp add: CBS_len_def)
    have w: "appends hp 0 der' True (conv hp ?n 0 0 False 0 c)"
      using out ts by (simp add: conv_outcome_def does_def written_as_0)
    have "written hp ?n (conv hp ?n 0 0 False 0 c) = Some der'"
      by (intro written_eq [OF hp _ w]) (use len short in \<open>simp_all add: CBS_len_def\<close>)
    then have "written hp ?n (conv hp ?n 0 0 False 0 c) = Some der \<longleftrightarrow> join (map ber_der ts) = Some der"
      using ts(2) by simp
    moreover have unique: "us = ts" if "ber_seq us (view c)" "heights us \<le> kMaxDepth" for us
      using that ts(1) forest_iff [of "view c" ?n 0 us] n by simp
    ultimately show "written hp ?n (conv hp ?n 0 0 False 0 c) = Some der \<longleftrightarrow>
        (\<exists>ts. ber_seq ts (view c) \<and> heights ts \<le> kMaxDepth \<and> join (map ber_der ts) = Some der)"
      using seq by (metis (no_types, lifting))
  next
    case False
    have "does hp 0 None (conv hp ?n 0 0 False 0 c)"
    proof (cases "forest ?n False 0 (view c)")
      case (Some p)
      then obtain ts where "forest ?n False 0 (view c) = Some (ts, [])" using forest_rest by (cases p) blast
      then show ?thesis using out False by (simp add: conv_outcome_def written_as_0)
    qed (use out in \<open>simp add: conv_outcome_def\<close>)
    then have "written hp ?n (conv hp ?n 0 0 False 0 c) = None"
      by (rule written_None) (use len in \<open>simp add: CBS_len_def\<close>)
    moreover have "\<not> (ber_seq us (view c) \<and> heights us \<le> kMaxDepth \<and> join (map ber_der us) = Some der)" for us
      using False forest_iff [of "view c" ?n 0 us] n by auto
    ultimately show "written hp ?n (conv hp ?n 0 0 False 0 c) = Some der \<longleftrightarrow>
        (\<exists>ts. ber_seq ts (view c) \<and> heights ts \<le> kMaxDepth \<and> join (map ber_der ts) = Some der)" by simp
  qed
next
  assume found: "cbs_find_ber 0 c = Some False"
  have "CBS_asn1_ber_to_der hp c =
      p_bind CBS_get_any_asn1_element (\<lambda>(out, tag, header_len). p_return (out, None)) c"
    by (simp add: CBS_asn1_ber_to_der_def found)
  then show "(\<exists>out c'. CBS_asn1_ber_to_der hp c = (Some (out, None), c') \<and> view out = e \<and> view c' = rest) \<longleftrightarrow>
      (\<exists>t contents. length contents < 2 ^ 32 \<and> e = der_element t contents \<and> view c = e @ rest)"
    using first_element [OF wf] by simp
next
  assume "cbs_find_ber 0 c = None"
  then show "fst (CBS_asn1_ber_to_der hp c) = None" by (simp add: CBS_asn1_ber_to_der_def)
qed

text \<open>An OCTET STRING of two fragments and indefinite length becomes a primitive one.\<close>

theorem ber_to_der_exact_witness:
  "\<exists>out storage c'. CBS_asn1_ber_to_der (sample_heap\<lparr>hp_serves := \<lambda>k. True\<rparr>)
      (CBS_init [0x24, 0x80, 0x04, 0x01, 0xAA, 0x04, 0x01, 0xBB, 0x00, 0x00] 10) = (Some (out, Some storage), c') \<and>
     view out = [0x04, 0x02, 0xAA, 0xBB]"
proof -
  let ?bs = "[0x24, 0x80, 0x04, 0x01, 0xAA, 0x04, 0x01, 0xBB, 0x00, 0x00] :: bytes"
  let ?ts = "[Constructed 0x20000004 [Primitive 4 [0xAA], Primitive 4 [0xBB]]]"
  have wf: "wf_cbs (CBS_init ?bs 10)" by simp
  have view: "view (CBS_init ?bs 10) = ?bs" and len: "length ?bs = 10" by simp_all
  have el: "b_element True ?bs = Some (([0x24, 0x80], 0x20000004, 2, True), drop 2 ?bs)"
    "b_element True (drop 2 ?bs) = Some (([0x04, 0x01, 0xAA], 4, 2, False), drop 5 ?bs)"
    "b_element True (drop 5 ?bs) = Some (([0x04, 0x01, 0xBB], 4, 2, False), drop 8 ?bs)"
    "b_element True (drop 8 ?bs) = Some (([0x00, 0x00], 0, 2, False), [])"
    by (simp_all add: b_element_def)
  have "forest 10 False 0 ?bs = Some (?ts, [])"
    by (simp add: forest_numeral el [simplified])
  then have ts: "ber_seq ?ts ?bs" "heights ?ts \<le> kMaxDepth" using forest_iff [of ?bs 10 0 ?ts] by simp_all
  have der: "join (map ber_der ?ts) = Some [0x04, 0x02, 0xAA, 0xBB]" by code_simp
  have "b_find 10 0 False ?bs = Some True" by (simp add: b_find_numeral b_element_def is_string_type_def)
  then have found: "cbs_find_ber 0 (CBS_init ?bs 10) = Some True" by (simp only: cbs_find_ber_eq [OF wf] view len)
  have hp: "\<forall>k. hp_serves (sample_heap\<lparr>hp_serves := \<lambda>k. True\<rparr>) k" by simp
  have short: "c_len (CBS_init ?bs 10) < 2 ^ 60" by (simp add: CBS_init_def)
  note main = conjunct1 [OF ber_to_der_exact [OF hp wf short, of "[0x04, 0x02, 0xAA, 0xBB]"], rule_format, OF found]
  show ?thesis by (rule main [THEN iffD2], unfold view) (use ts der in blast)
qed

end
