(* ===== verification/Constant_Time.thy ===== *)
theory Constant_Time
  imports Codec_Prelude
begin

text \<open>
  The constant-time helpers of BoringSSL crypto/internal.h. A crypto_word_t is 64 bits wide
  (OPENSSL_64_BIT); value_barrier_w returns its argument. A mask is all ones for true and zero for
  false. The lemmas say which condition each mask stands for, and that a select is a conditional.
\<close>

unbundle bit_operations_syntax

definition constant_time_msb_w :: "u64 \<Rightarrow> u64" where
  "constant_time_msb_w a = 0 - drop_bit 63 a"

definition constant_time_lt_w :: "u64 \<Rightarrow> u64 \<Rightarrow> u64" where
  "constant_time_lt_w a b = constant_time_msb_w (a XOR ((a XOR b) OR ((a - b) XOR a)))"

definition constant_time_lt_8 :: "u64 \<Rightarrow> u64 \<Rightarrow> u8" where
  "constant_time_lt_8 a b = ucast (constant_time_lt_w a b)"

definition constant_time_ge_w :: "u64 \<Rightarrow> u64 \<Rightarrow> u64" where
  "constant_time_ge_w a b = NOT (constant_time_lt_w a b)"

definition constant_time_ge_8 :: "u64 \<Rightarrow> u64 \<Rightarrow> u8" where
  "constant_time_ge_8 a b = ucast (constant_time_ge_w a b)"

definition constant_time_is_zero_w :: "u64 \<Rightarrow> u64" where
  "constant_time_is_zero_w a = constant_time_msb_w (NOT a AND (a - 1))"

definition constant_time_is_zero_8 :: "u64 \<Rightarrow> u8" where
  "constant_time_is_zero_8 a = ucast (constant_time_is_zero_w a)"

definition constant_time_eq_w :: "u64 \<Rightarrow> u64 \<Rightarrow> u64" where
  "constant_time_eq_w a b = constant_time_is_zero_w (a XOR b)"

definition constant_time_eq_8 :: "u64 \<Rightarrow> u64 \<Rightarrow> u8" where
  "constant_time_eq_8 a b = ucast (constant_time_eq_w a b)"

text \<open>An int is a signed 32-bit value; its conversion to crypto_word_t extends the sign.\<close>

definition constant_time_eq_int :: "u32 \<Rightarrow> u32 \<Rightarrow> u64" where
  "constant_time_eq_int a b = constant_time_eq_w (scast a) (scast b)"

definition constant_time_eq_int_8 :: "u32 \<Rightarrow> u32 \<Rightarrow> u8" where
  "constant_time_eq_int_8 a b = constant_time_eq_8 (scast a) (scast b)"

definition constant_time_select_w :: "u64 \<Rightarrow> u64 \<Rightarrow> u64 \<Rightarrow> u64" where
  "constant_time_select_w mask_w a b = (mask_w AND a) OR (NOT mask_w AND b)"

definition constant_time_select_8 :: "u8 \<Rightarrow> u8 \<Rightarrow> u8 \<Rightarrow> u8" where
  "constant_time_select_8 mask_8 a b = ucast (constant_time_select_w (ucast mask_8) (ucast a) (ucast b))"

definition constant_time_select_int :: "u64 \<Rightarrow> u32 \<Rightarrow> u32 \<Rightarrow> u32" where
  "constant_time_select_int mask_w a b = ucast (constant_time_select_w mask_w (scast a) (scast b))"

subsection \<open>What the masks stand for\<close>

text \<open>The mask of a truth value, at any width.\<close>

definition truth :: "bool \<Rightarrow> 'a::len word" where
  "truth P = (if P then - 1 else 0)"

lemma truth_simps [simp]: "truth True = - 1" "truth False = 0"
  by (simp_all add: truth_def)

lemma ucast_truth: "LENGTH('b) \<le> LENGTH('a) \<Longrightarrow> (ucast (truth P :: 'a::len word) :: 'b::len word) = truth P"
  by (rule bit_word_eqI) (auto simp: truth_def bit_simps)

lemma ucast_truth_u8 [simp]: "(ucast (truth P :: u64) :: u8) = truth P"
  by (rule ucast_truth) simp

lemma truth_u8_and: "(truth P :: u8) AND a = (if P then a else 0)"
  by (simp add: truth_def)

lemma not_truth [simp]: "NOT (truth P :: 'a::len word) = truth (\<not> P)"
  by (simp add: truth_def)

lemma or_truth [simp]: "(truth P :: 'a::len word) OR truth Q = truth (P \<or> Q)"
  by (simp add: truth_def)

lemma msb_w_truth: "constant_time_msb_w a = truth (2 ^ 63 \<le> unat a)"
proof -
  have lt: "unat a < 2 ^ 64" using unat_lt_2p [of a] by simp
  have eq: "unat (drop_bit 63 a) = unat a div 2 ^ 63" by (rule unat_drop_bit)
  show ?thesis
  proof (cases "2 ^ 63 \<le> unat a")
    case True
    with lt have "unat a div 2 ^ 63 = 1" by (intro div_nat_eqI) simp_all
    with eq have "drop_bit 63 a = 1" by (simp add: word_unat_eq_iff)
    with True show ?thesis by (simp add: constant_time_msb_w_def)
  next
    case False
    then have "unat a div 2 ^ 63 = 0" by simp
    with eq have "drop_bit 63 a = 0" by (simp add: word_unat_eq_iff)
    with False show ?thesis by (simp add: constant_time_msb_w_def)
  qed
qed

lemma high_bit_iff: "2 ^ 63 \<le> unat (a :: u64) \<longleftrightarrow> bit a 63"
proof -
  have lt: "unat a < 2 ^ 64" using unat_lt_2p [of a] by simp
  have "bit a 63 \<longleftrightarrow> odd (unat a div 2 ^ 63)" 
  proof -
    have "bit a 63 \<longleftrightarrow> bit (unat a) 63" by (simp add: bit_unsigned_iff)
    then show ?thesis by (simp only: bit_iff_odd)
  qed
  moreover have "2 ^ 63 \<le> unat a \<Longrightarrow> unat a div 2 ^ 63 = 1"
    using lt by (intro div_nat_eqI) simp_all
  moreover have "\<not> 2 ^ 63 \<le> unat a \<Longrightarrow> unat a div 2 ^ 63 = 0" by simp
  ultimately show ?thesis by (cases "2 ^ 63 \<le> unat a") (simp_all only: odd_one even_zero simp_thms)
qed

text \<open>The formula for a < b, by the two cases of the comment in the source.\<close>

lemma lt_w_truth: "constant_time_lt_w a b = truth (a < b)"
proof -
  have la: "unat a < 2 ^ 64" and lb: "unat b < 2 ^ 64" using unat_lt_2p [of a] unat_lt_2p [of b] by simp_all
  have "2 ^ 63 \<le> unat (a XOR ((a XOR b) OR ((a - b) XOR a))) \<longleftrightarrow>
      (if bit a 63 = bit b 63 then bit (a - b) 63 else bit b 63)"
    unfolding high_bit_iff by (auto simp: bit_simps)
  also have "\<dots> \<longleftrightarrow> a < b"
  proof (cases "a < b")
    case True
    then have "unat a < unat b" by (simp add: word_less_nat_alt)
    moreover have "unat (a - b) + unat b = 2 ^ 64 + unat a"
      using True lb by (simp add: unat_sub_if_size word_less_nat_alt word_size not_le del: unat_lt_2p unat_u64_lt)
    ultimately show ?thesis using True la lb unfolding high_bit_iff [symmetric]
      by (cases "2 ^ 63 \<le> unat a"; cases "2 ^ 63 \<le> unat b") (simp_all del: unat_lt_2p unat_u64_lt)
  next
    case False
    then have le: "b \<le> a" by simp
    then have "unat b \<le> unat a" by (simp add: word_le_nat_alt)
    moreover have "unat (a - b) = unat a - unat b" using le by (simp add: unat_sub word_le_nat_alt)
    ultimately show ?thesis using False la lb unfolding high_bit_iff [symmetric]
      by (cases "2 ^ 63 \<le> unat a"; cases "2 ^ 63 \<le> unat b") (simp_all del: unat_lt_2p unat_u64_lt)
  qed
  finally show ?thesis by (simp only: constant_time_lt_w_def msb_w_truth)
qed

lemma lt_8_truth: "constant_time_lt_8 a b = truth (a < b)"
  by (simp add: constant_time_lt_8_def lt_w_truth)

lemma ge_w_truth: "constant_time_ge_w a b = truth (b \<le> a)"
  by (simp add: constant_time_ge_w_def lt_w_truth not_less)

lemma ge_8_truth: "constant_time_ge_8 a b = truth (b \<le> a)"
  by (simp add: constant_time_ge_8_def ge_w_truth)

lemma is_zero_w_truth: "constant_time_is_zero_w a = truth (a = 0)"
proof (cases "a = 0")
  case True
  then show ?thesis by (simp add: constant_time_is_zero_w_def constant_time_msb_w_def)
next
  case False
  then have pos: "0 < unat a" by (simp add: unat_gt_0)
  have lt: "unat a < 2 ^ 64" using unat_lt_2p [of a] by simp
  have "unat (a - 1) = unat a - 1" using False by (simp add: unat_minus_one)
  with pos lt have "2 ^ 63 \<le> unat (a - 1) \<Longrightarrow> 2 ^ 63 \<le> unat a" by simp
  then have "\<not> 2 ^ 63 \<le> unat (NOT a AND (a - 1))"
    unfolding high_bit_iff by (auto simp: bit_simps)
  with False show ?thesis by (simp add: constant_time_is_zero_w_def msb_w_truth)
qed

lemma is_zero_8_truth: "constant_time_is_zero_8 a = truth (a = 0)"
  by (simp add: constant_time_is_zero_8_def is_zero_w_truth)

lemma eq_w_truth: "constant_time_eq_w a b = truth (a = b)"
proof -
  have "a XOR b = 0 \<longleftrightarrow> a = b" by (auto simp: bit_eq_iff bit_simps)
  then show ?thesis by (simp add: constant_time_eq_w_def is_zero_w_truth)
qed

lemma eq_8_truth: "constant_time_eq_8 a b = truth (a = b)"
  by (simp add: constant_time_eq_8_def eq_w_truth)

lemma ucast_scast_id: "(ucast (scast (a :: u32) :: u64) :: u32) = a"
  by (rule bit_word_eqI) (simp add: bit_simps)

lemma scast_u64_inj: "(scast (a :: u32) :: u64) = scast b \<longleftrightarrow> a = b"
proof
  assume "(scast a :: u64) = scast b"
  then have "(ucast (scast a :: u64) :: u32) = ucast (scast b :: u64)" by simp
  then show "a = b" by (simp add: ucast_scast_id)
qed simp

lemma eq_int_truth: "constant_time_eq_int a b = truth (a = b)"
  by (simp add: constant_time_eq_int_def eq_w_truth scast_u64_inj)

lemma eq_int_8_truth: "constant_time_eq_int_8 a b = truth (a = b)"
  by (simp add: constant_time_eq_int_8_def eq_8_truth scast_u64_inj)

lemma select_w_truth: "constant_time_select_w (truth P) a b = (if P then a else b)"
  by (simp add: constant_time_select_w_def truth_def)

lemma select_8_truth: "constant_time_select_8 (truth P) a b = (if P then a else b)"
  by (rule bit_word_eqI) (auto simp: constant_time_select_8_def constant_time_select_w_def truth_def bit_simps)

lemma select_int_truth: "constant_time_select_int (truth P) a b = (if P then a else b)"
  by (simp add: constant_time_select_int_def select_w_truth ucast_scast_id)

lemmas constant_time_truth = lt_w_truth lt_8_truth ge_w_truth ge_8_truth is_zero_w_truth is_zero_8_truth
  eq_w_truth eq_8_truth eq_int_truth eq_int_8_truth select_w_truth select_8_truth select_int_truth

end
