(* ===== verification/Base64.thy ===== *)
theory Base64
  imports Constant_Time
begin

text \<open>
  BoringSSL crypto/base64/base64.c: base64 of whole buffers and of streams.

  An output pointer is the list of the bytes written from it on: each store starts at or before
  the end of what is written already, so that the length of the list is the extent of the writes.
  Input and output do not overlap. The definitions of a stream work on \<open>EVP_ENCODE_CTX\<close>, the record
  of base64.h.
\<close>

unbundle bit_operations_syntax

definition put :: "nat \<Rightarrow> bytes \<Rightarrow> bytes \<Rightarrow> bytes" where
  "put i xs buf = take i buf @ xs @ drop (i + length xs) buf"

definition INT_MAX :: nat where
  "INT_MAX = 2147483647"

record EVP_ENCODE_CTX =
  data_used :: nat
  enc_data :: bytes
  eof_seen :: bool
  error_encountered :: bool

definition cleared_ctx :: EVP_ENCODE_CTX where
  "cleared_ctx = \<lparr>data_used = 0, enc_data = replicate 48 0, eof_seen = False, error_encountered = False\<rparr>"

subsection \<open>Encoding\<close>

definition constant_time_lt_args_8 :: "u8 \<Rightarrow> u8 \<Rightarrow> u8" where
  "constant_time_lt_args_8 a b = ucast (constant_time_msb_w (ucast a - ucast b))"

definition constant_time_in_range_8 :: "u8 \<Rightarrow> u8 \<Rightarrow> u8 \<Rightarrow> u8" where
  "constant_time_in_range_8 a mn mx = (let a = a - mn in constant_time_lt_args_8 a (mx - mn + 1))"

definition conv_bin2ascii :: "u8 \<Rightarrow> u8" where
  "conv_bin2ascii a =
     (let a = a AND 0x3F;
          ret = constant_time_select_8 (constant_time_eq_8 (ucast a) 62) 0x2B 0x2F;
          ret = constant_time_select_8 (constant_time_lt_args_8 a 62) (a - 52 + 0x30) ret;
          ret = constant_time_select_8 (constant_time_lt_args_8 a 52) (a - 26 + 0x61) ret;
          ret = constant_time_select_8 (constant_time_lt_args_8 a 26) (a + 0x41) ret
      in ret)"

definition EVP_EncodedLength :: "nat \<Rightarrow> nat option" where
  "EVP_EncodedLength n =
     (if size_add n 2 < n then None
      else
        (let n = size_add n 2 div 3 in
         if ((n * 4) mod 2 ^ 64) div 4 \<noteq> n then None
         else
           (let n = (n * 4) mod 2 ^ 64 in
            if size_add n 1 < n then None
            else Some (size_add n 1))))"

definition EVP_ENCODE_CTX_new :: "bool \<Rightarrow> EVP_ENCODE_CTX option" where
  "EVP_ENCODE_CTX_new served = (if served then Some cleared_ctx else None)"

definition EVP_EncodeInit :: "EVP_ENCODE_CTX \<Rightarrow> EVP_ENCODE_CTX" where
  "EVP_EncodeInit ctx = cleared_ctx"

text \<open>The loop of EVP_EncodeBlock; \<open>dst\<close> is what is written and \<open>ret\<close> the count.\<close>

fun encode_block_loop :: "bytes \<Rightarrow> bytes \<Rightarrow> nat \<Rightarrow> bytes \<times> nat" where
  "encode_block_loop [] dst ret = (dst, ret)"
| "encode_block_loop [a] dst ret =
     (let l = push_bit 16 (ucast a :: u32) in
      (dst @ [conv_bin2ascii (ucast (drop_bit 18 l)), conv_bin2ascii (ucast (drop_bit 12 l)), 0x3D, 0x3D],
       size_add ret 4))"
| "encode_block_loop [a, b] dst ret =
     (let l = push_bit 16 (ucast a :: u32) OR push_bit 8 (ucast b) in
      (dst @ [conv_bin2ascii (ucast (drop_bit 18 l)), conv_bin2ascii (ucast (drop_bit 12 l)),
              conv_bin2ascii (ucast (drop_bit 6 l)), 0x3D],
       size_add ret 4))"
| "encode_block_loop (a # b # c # src) dst ret =
     (let l = push_bit 16 (ucast a :: u32) OR push_bit 8 (ucast b) OR ucast c in
      encode_block_loop src
        (dst @ [conv_bin2ascii (ucast (drop_bit 18 l)), conv_bin2ascii (ucast (drop_bit 12 l)),
                conv_bin2ascii (ucast (drop_bit 6 l)), conv_bin2ascii (ucast l)])
        (size_add ret 4))"

definition EVP_EncodeBlock :: "bytes \<Rightarrow> bytes \<times> nat" where
  "EVP_EncodeBlock src = (case encode_block_loop src [] 0 of (dst, ret) \<Rightarrow> (dst @ [0], ret))"

text \<open>
  A block and a newline at position \<open>tot\<close> (the total) of the output. The loop of EVP_EncodeUpdate runs over
  whole blocks of 48 bytes; it returns None where the tot wraps.
\<close>

definition put_line :: "nat \<Rightarrow> bytes \<Rightarrow> bytes \<Rightarrow> bytes \<times> nat" where
  "put_line tot src out =
     (case EVP_EncodeBlock src of
        (dst, encoded) \<Rightarrow> (put (tot + encoded) [0x0A, 0] (put tot dst out), encoded))"

function encode_update_loop :: "bytes \<Rightarrow> bytes \<Rightarrow> nat \<Rightarrow> bytes \<times> (bytes \<times> nat) option" where
  "encode_update_loop inp out tot =
     (if 48 \<le> length inp then
        (case put_line tot (take 48 inp) out of
           (out, encoded) \<Rightarrow>
             if size_add (size_add tot encoded) 1 < tot then (out, None)
             else encode_update_loop (drop 48 inp) out (size_add (size_add tot encoded) 1))
      else (out, Some (inp, tot)))"
  by pat_completeness auto
termination
  by (relation "measure (\<lambda>(inp, out, tot). length inp)") auto

declare encode_update_loop.simps [simp del]

text \<open>The result is None where the assertion of the code fails, and the context, the output and
  \<open>*out_len\<close> otherwise.\<close>

definition encode_update_rest :: "EVP_ENCODE_CTX \<Rightarrow> bytes \<Rightarrow> bytes \<Rightarrow> nat \<Rightarrow> EVP_ENCODE_CTX \<times> bytes \<times> nat" where
  "encode_update_rest ctx inp out tot =
     (case encode_update_loop inp out tot of
        (out, None) \<Rightarrow> (ctx, out, 0)
      | (out, Some (inp, tot)) \<Rightarrow>
          (let ctx = (if length inp \<noteq> 0 then ctx\<lparr>enc_data := put 0 inp (enc_data ctx)\<rparr> else ctx);
               ctx = ctx\<lparr>data_used := length inp\<rparr>;
               tot = (if INT_MAX < tot then 0 else tot)
           in (ctx, out, tot)))"

definition EVP_EncodeUpdate :: "EVP_ENCODE_CTX \<Rightarrow> bytes \<Rightarrow> (EVP_ENCODE_CTX \<times> bytes \<times> nat) option" where
  "EVP_EncodeUpdate ctx inp =
     (if length inp = 0 then Some (ctx, [], 0)
      else if \<not> data_used ctx < 48 then None
      else if length inp < 48 - data_used ctx then
        Some (ctx\<lparr>enc_data := put (data_used ctx) inp (enc_data ctx),
                  data_used := data_used ctx + length inp\<rparr>, [], 0)
      else if data_used ctx \<noteq> 0 then
        (let todo = 48 - data_used ctx;
             ctx = ctx\<lparr>enc_data := put (data_used ctx) (take todo inp) (enc_data ctx)\<rparr>;
             inp = drop todo inp
         in case put_line 0 (enc_data ctx) [] of
              (out, encoded) \<Rightarrow>
                Some (encode_update_rest (ctx\<lparr>data_used := 0\<rparr>) inp out (size_add encoded 1)))
      else Some (encode_update_rest ctx inp [] 0))"

definition EVP_EncodeFinal :: "EVP_ENCODE_CTX \<Rightarrow> EVP_ENCODE_CTX \<times> bytes \<times> nat" where
  "EVP_EncodeFinal ctx =
     (if data_used ctx = 0 then (ctx, [], 0)
      else
        (case EVP_EncodeBlock (take (data_used ctx) (enc_data ctx)) of
           (out, encoded) \<Rightarrow>
             (ctx\<lparr>data_used := 0\<rparr>, put (encoded + 1) [0] (put encoded [0x0A] out), encoded + 1)))"

subsection \<open>Decoding\<close>

definition EVP_DecodedLength :: "nat \<Rightarrow> nat option" where
  "EVP_DecodedLength n = (if n mod 4 \<noteq> 0 then None else Some (n div 4 * 3))"

definition EVP_DecodeInit :: "EVP_ENCODE_CTX \<Rightarrow> EVP_ENCODE_CTX" where
  "EVP_DecodeInit ctx = cleared_ctx"

definition base64_ascii_to_bin :: "u8 \<Rightarrow> u8" where
  "base64_ascii_to_bin a =
     (let is_upper = constant_time_in_range_8 a 0x41 0x5A;
          is_lower = constant_time_in_range_8 a 0x61 0x7A;
          is_digit = constant_time_in_range_8 a 0x30 0x39;
          is_plus = constant_time_eq_8 (ucast a) 0x2B;
          is_slash = constant_time_eq_8 (ucast a) 0x2F;
          is_equals = constant_time_eq_8 (ucast a) 0x3D;
          ret = 0;
          ret = ret OR (is_upper AND (a - 0x41));
          ret = ret OR (is_lower AND (a - 0x61 + 26));
          ret = ret OR (is_digit AND (a - 0x30 + 52));
          ret = ret OR (is_plus AND 62);
          ret = ret OR (is_slash AND 63);
          is_valid = is_upper OR is_lower OR is_digit OR is_plus OR is_slash OR is_equals
      in ret OR NOT is_valid)"

text \<open>The bytes written, or None on error.\<close>

definition base64_decode_quad :: "u8 \<Rightarrow> u8 \<Rightarrow> u8 \<Rightarrow> u8 \<Rightarrow> bytes option" where
  "base64_decode_quad in0 in1 in2 in3 =
     (let a = base64_ascii_to_bin in0;
          b = base64_ascii_to_bin in1;
          c = base64_ascii_to_bin in2;
          d = base64_ascii_to_bin in3
      in if a = 0xFF \<or> b = 0xFF \<or> c = 0xFF \<or> d = 0xFF then None
         else
           (let v = push_bit 18 (ucast a :: u32) OR push_bit 12 (ucast b) OR push_bit 6 (ucast c) OR ucast d;
                padding_pattern = push_bit 3 (of_bool (in0 = 0x3D)) OR push_bit 2 (of_bool (in1 = 0x3D)) OR
                  push_bit 1 (of_bool (in2 = 0x3D)) OR (of_bool (in3 = 0x3D) :: u32)
            in if padding_pattern = 0 then Some [ucast (drop_bit 16 v), ucast (drop_bit 8 v), ucast v]
               else if padding_pattern = 1 then Some [ucast (drop_bit 16 v), ucast (drop_bit 8 v)]
               else if padding_pattern = 3 then Some [ucast (drop_bit 16 v)]
               else None))"

definition is_blank :: "u8 \<Rightarrow> bool" where
  "is_blank c \<longleftrightarrow> c = 0x20 \<or> c = 0x09 \<or> c = 0x0D \<or> c = 0x0A"

text \<open>The loop of EVP_DecodeUpdate: \<open>out\<close> is what is written and \<open>bytes_out\<close> the count; the flag is
  False where the loop returns -1.\<close>

fun decode_update_loop :: "EVP_ENCODE_CTX \<Rightarrow> bytes \<Rightarrow> nat \<Rightarrow> bytes \<Rightarrow> bool \<times> EVP_ENCODE_CTX \<times> bytes \<times> nat" where
  "decode_update_loop ctx out bytes_out [] = (True, ctx, out, bytes_out)"
| "decode_update_loop ctx out bytes_out (c # inp) =
     (if is_blank c then decode_update_loop ctx out bytes_out inp
      else if eof_seen ctx then (False, ctx\<lparr>error_encountered := True\<rparr>, out, bytes_out)
      else
        (let ctx = ctx\<lparr>enc_data := put (data_used ctx) [c] (enc_data ctx), data_used := data_used ctx + 1\<rparr> in
         if data_used ctx = 4 then
           (case base64_decode_quad (enc_data ctx ! 0) (enc_data ctx ! 1) (enc_data ctx ! 2) (enc_data ctx ! 3) of
              None \<Rightarrow> (False, ctx\<lparr>error_encountered := True\<rparr>, out, bytes_out)
            | Some bs \<Rightarrow>
                (let ctx = ctx\<lparr>data_used := 0\<rparr>;
                     ctx = (if length bs < 3 then ctx\<lparr>eof_seen := True\<rparr> else ctx)
                 in decode_update_loop ctx (out @ bs) (size_add bytes_out (length bs)) inp))
         else decode_update_loop ctx out bytes_out inp))"

text \<open>The result is the return value, the context, the output and \<open>*out_len\<close>.\<close>

definition EVP_DecodeUpdate :: "EVP_ENCODE_CTX \<Rightarrow> bytes \<Rightarrow> int \<times> EVP_ENCODE_CTX \<times> bytes \<times> nat" where
  "EVP_DecodeUpdate ctx inp =
     (if error_encountered ctx then (-1, ctx, [], 0)
      else
        (case decode_update_loop ctx [] 0 inp of
           (ok, ctx, out, bytes_out) \<Rightarrow>
             if \<not> ok then (-1, ctx, out, 0)
             else if INT_MAX < bytes_out then (-1, ctx\<lparr>error_encountered := True\<rparr>, out, 0)
             else if eof_seen ctx then (0, ctx, out, bytes_out)
             else (1, ctx, out, bytes_out)))"

definition EVP_DecodeFinal :: "EVP_ENCODE_CTX \<Rightarrow> int" where
  "EVP_DecodeFinal ctx = (if error_encountered ctx \<or> data_used ctx \<noteq> 0 then -1 else 1)"

text \<open>The loop of EVP_DecodeBase64 over the quads; a rest shorter than four characters is never reached.\<close>

fun decode_base64_loop :: "bytes \<Rightarrow> nat \<Rightarrow> bytes \<Rightarrow> bool \<times> bytes \<times> nat" where
  "decode_base64_loop out bytes_out (in0 # in1 # in2 # in3 # inp) =
     (case base64_decode_quad in0 in1 in2 in3 of
        None \<Rightarrow> (False, out, bytes_out)
      | Some bs \<Rightarrow>
          if length bs \<noteq> 3 \<and> inp \<noteq> [] then (False, out @ bs, size_add bytes_out (length bs))
          else decode_base64_loop (out @ bs) (size_add bytes_out (length bs)) inp)"
| "decode_base64_loop out bytes_out inp = (True, out, bytes_out)"

definition EVP_DecodeBase64 :: "nat \<Rightarrow> bytes \<Rightarrow> bool \<times> bytes \<times> nat" where
  "EVP_DecodeBase64 max_out inp =
     (if length inp mod 4 \<noteq> 0 then (False, [], 0)
      else
        (case EVP_DecodedLength (length inp) of
           None \<Rightarrow> (False, [], 0)
         | Some max_len \<Rightarrow>
             if max_out < max_len then (False, [], 0)
             else
               (case decode_base64_loop [] 0 inp of
                  (ok, out, bytes_out) \<Rightarrow> if ok then (True, out, bytes_out) else (False, out, 0))))"

fun trim_front :: "bytes \<Rightarrow> bytes" where
  "trim_front [] = []"
| "trim_front (c # src) = (if c \<noteq> 0x20 \<and> c \<noteq> 0x09 then c # src else trim_front src)"

function trim_back :: "bytes \<Rightarrow> bytes" where
  "trim_back src = (if src \<noteq> [] \<and> is_blank (last src) then trim_back (butlast src) else src)"
  by pat_completeness auto
termination
  by (relation "measure length") auto

declare trim_back.simps [simp del]

text \<open>The zero bytes that stand for the padding.\<close>

function pad_zeros :: "bytes \<Rightarrow> nat \<Rightarrow> bytes \<times> nat" where
  "pad_zeros dst n = (if n mod 3 \<noteq> 0 then pad_zeros (put n [0] dst) (n + 1) else (dst, n))"
  by pat_completeness auto
termination
  by (relation "measure (\<lambda>(dst, n). (2 * n) mod 3)") (auto, presburger)

declare pad_zeros.simps [simp del]

definition EVP_DecodeBlock :: "bytes \<Rightarrow> int \<times> bytes" where
  "EVP_DecodeBlock src =
     (let src = trim_back (trim_front src) in
      case EVP_DecodedLength (length src) of
        None \<Rightarrow> (-1, [])
      | Some dst_len \<Rightarrow>
          if INT_MAX < dst_len then (-1, [])
          else
            (case EVP_DecodeBase64 dst_len src of
               (ok, dst, dst_len) \<Rightarrow>
                 if \<not> ok then (-1, dst)
                 else (case pad_zeros dst dst_len of (dst, dst_len) \<Rightarrow> (int dst_len, dst))))"

end
