(* ===== verification/Base64_Spec.thy ===== *)
theory Base64_Spec
  imports Base64
begin

text \<open>
  Base64 after RFC 4648, and what the functions of base64.c do in its terms: \<open>sextets\<close> groups bytes
  into digit values, \<open>octets\<close> groups digit values into bytes, \<open>base64_text\<close> writes digits with their
  padding.
\<close>

unbundle bit_operations_syntax

definition base64_alphabet :: string where
  "base64_alphabet = ''ABCDEFGHIJKLMNOPQRSTUVWXYZabcdefghijklmnopqrstuvwxyz0123456789+/''"

definition b64_digit :: "nat \<Rightarrow> u8" where
  "b64_digit n = of_char (base64_alphabet ! n)"

definition quad :: "nat \<Rightarrow> nat list" where
  "quad n = [n div 64 ^ 3 mod 64, n div 64 ^ 2 mod 64, n div 64 mod 64, n mod 64]"

fun sextets :: "bytes \<Rightarrow> nat list" where
  "sextets [] = []"
| "sextets [a] = take 2 (quad (be_nat [a, 0, 0]))"
| "sextets [a, b] = take 3 (quad (be_nat [a, b, 0]))"
| "sextets (a # b # c # bs) = quad (be_nat [a, b, c]) @ sextets bs"

definition unquad :: "nat \<Rightarrow> nat \<Rightarrow> nat \<Rightarrow> nat \<Rightarrow> nat" where
  "unquad a b c d = ((a * 64 + b) * 64 + c) * 64 + d"

fun octets :: "nat list \<Rightarrow> bytes" where
  "octets (a # b # c # d # ds) = be_bytes 3 (unquad a b c d) @ octets ds"
| "octets [a, b, c] = take 2 (be_bytes 3 (unquad a b c 0))"
| "octets [a, b] = take 1 (be_bytes 3 (unquad a b 0 0))"
| "octets _ = []"

definition base64_text :: "nat list \<Rightarrow> bytes" where
  "base64_text ds = map b64_digit ds @ replicate ((4 - length ds mod 4) mod 4) 0x3D"

definition base64 :: "bytes \<Rightarrow> bytes" where
  "base64 bs = base64_text (sextets bs)"

definition digits_ok :: "nat list \<Rightarrow> bool" where
  "digits_ok ds \<longleftrightarrow> list_all (\<lambda>d. d < 64) ds \<and> length ds mod 4 \<noteq> 1"

subsection \<open>Characters and digits\<close>

lemma unat_wide: "unat (ucast (x :: u8) :: u64) = unat x"
  by (simp add: unat_ucast_word) (rule mod_less, use unat_u8_lt [of x] in linarith)

lemma lt_args_8_truth: "constant_time_lt_args_8 a b = truth (a < b)"
proof -
  have "2 ^ 63 \<le> unat ((ucast a :: u64) - ucast b) \<longleftrightarrow> unat a < unat b"
  proof (cases "unat a < unat b")
    case True
    then have "unat ((ucast a :: u64) - ucast b) + unat b = 2 ^ 64 + unat a"
      using unat_u8_lt [of b] by (simp add: unat_sub_if_size word_size unat_wide del: unat_u8_lt)
    then show ?thesis using True unat_u8_lt [of b] by (simp del: unat_u8_lt)
  next
    case False
    then have "unat ((ucast a :: u64) - ucast b) + unat b = unat a"
      by (simp add: unat_sub_if_size unat_wide)
    then show ?thesis using False unat_u8_lt [of a] by (simp del: unat_u8_lt)
  qed
  then show ?thesis
    by (simp add: constant_time_lt_args_8_def msb_w_truth word_less_nat_alt)
qed

lemma in_range_8_truth:
  assumes "mn \<le> mx" "mx < 255"
  shows "constant_time_in_range_8 a mn mx = truth (mn \<le> a \<and> a \<le> mx)"
proof -
  have mx: "unat mx < 255" using assms(2) by (simp add: word_less_nat_alt)
  have d: "unat (mx - mn) = unat mx - unat mn"
    using assms(1) by (simp add: unat_sub word_le_nat_alt)
  have "unat (mx - mn + 1) = unat mx - unat mn + 1"
    using mx d by (simp add: unat_word_ariths)
  then have "a - mn < mx - mn + 1 \<longleftrightarrow> unat (a - mn) < unat mx - unat mn + 1"
    by (simp add: word_less_nat_alt)
  also have "\<dots> \<longleftrightarrow> mn \<le> a \<and> a \<le> mx"
    using assms(1) mx unat_u8_lt [of a] unat_u8_lt [of mn]
    by (auto simp: unat_sub_if_size word_le_nat_alt word_size)
  finally show ?thesis by (simp add: constant_time_in_range_8_def lt_args_8_truth)
qed

lemma b64_digit_eq:
  assumes "n < 64"
  shows "b64_digit n =
    (if n < 26 then of_nat n + 65 else if n < 52 then of_nat n - 26 + 97
     else if n < 62 then of_nat n - 52 + 48 else if n = 62 then 43 else 47)"
proof -
  have "list_all (\<lambda>n. b64_digit n =
    (if n < 26 then of_nat n + 65 else if n < 52 then of_nat n - 26 + 97
     else if n < 62 then of_nat n - 52 + 48 else if n = 62 then 43 else 47)) [0..<64]"
    by code_simp
  with assms show ?thesis by (auto simp only: list_all_iff set_upt atLeastLessThan_iff)
qed

lemma conv_bin2ascii_digit: "conv_bin2ascii a = b64_digit (unat a mod 64)"
proof -
  define n where "n = unat a mod 64"
  have n: "n < 64" by (simp add: n_def)
  have a: "a AND 0x3F = of_nat n"
    by (simp add: n_def and_mask_word_numerals word_unat_eq_iff unat_take_bit)
  have lt: "(of_nat n :: u8) < of_nat k \<longleftrightarrow> n < k" "(of_nat n :: u8) = of_nat k \<longleftrightarrow> n = k" if "k < 64" for k
    using n that by (simp_all add: word_less_nat_alt word_unat_eq_iff)
  have ucast_eq: "(ucast (of_nat n :: u8) :: u64) = 62 \<longleftrightarrow> n = 62"
    using n by (simp add: word_unat_eq_iff unat_ucast_word)
  show ?thesis
    unfolding conv_bin2ascii_def Let_def a eq_8_truth lt_args_8_truth select_8_truth ucast_eq
    using lt [of 62] lt [of 52] lt [of 26] n
    by (simp add: b64_digit_eq n_def [symmetric])
qed

lemma ascii_to_bin_eq:
  "base64_ascii_to_bin a =
    (if 0x41 \<le> a \<and> a \<le> 0x5A then a - 0x41
     else if 0x61 \<le> a \<and> a \<le> 0x7A then a - 0x61 + 26
     else if 0x30 \<le> a \<and> a \<le> 0x39 then a - 0x30 + 52
     else if a = 0x2B then 62 else if a = 0x2F then 63
     else if a = 0x3D then 0 else 0xFF)"
proof -
  have u: "(ucast a :: u64) = 0x2B \<longleftrightarrow> a = 0x2B" "(ucast a :: u64) = 0x2F \<longleftrightarrow> a = 0x2F"
    "(ucast a :: u64) = 0x3D \<longleftrightarrow> a = 0x3D"
    by (simp_all add: word_unat_eq_iff unat_wide)
  have r: "constant_time_in_range_8 a 0x41 0x5A = truth (0x41 \<le> a \<and> a \<le> 0x5A)"
    "constant_time_in_range_8 a 0x61 0x7A = truth (0x61 \<le> a \<and> a \<le> 0x7A)"
    "constant_time_in_range_8 a 0x30 0x39 = truth (0x30 \<le> a \<and> a \<le> 0x39)"
    by (rule in_range_8_truth, simp, simp)+
  show ?thesis
    unfolding base64_ascii_to_bin_def Let_def r eq_8_truth truth_u8_and
    by (auto simp: u word_le_nat_alt)
qed

lemma equals_bin: "base64_ascii_to_bin 0x3D = 0"
  by (simp add: ascii_to_bin_eq)

lemma digit_bin:
  assumes "n < 64"
  shows "base64_ascii_to_bin (b64_digit n) = of_nat n" "b64_digit n \<noteq> 0x3D" "\<not> is_blank (b64_digit n)"
proof -
  have "list_all (\<lambda>n. base64_ascii_to_bin (b64_digit n) = of_nat n \<and> b64_digit n \<noteq> 0x3D \<and> \<not> is_blank (b64_digit n)) [0..<64]"
    unfolding ascii_to_bin_eq by code_simp
  with assms show "base64_ascii_to_bin (b64_digit n) = of_nat n" "b64_digit n \<noteq> 0x3D" "\<not> is_blank (b64_digit n)"
    by (auto simp only: list_all_iff set_upt atLeastLessThan_iff)
qed

lemma bin_digit:
  assumes "base64_ascii_to_bin a \<noteq> 0xFF" "a \<noteq> 0x3D"
  obtains n where "n < 64" "a = b64_digit n"
proof -
  let ?n = "unat (base64_ascii_to_bin a)"
  have "?n < 64 \<and> a = b64_digit ?n"
    using assms
    by (auto simp: ascii_to_bin_eq b64_digit_eq word_le_nat_alt unat_word_ariths unat_sub_if_size word_size
        word_unat_eq_iff split: if_splits)
  then show ?thesis using that by blast
qed

lemma b64_digit_inj: "m < 64 \<Longrightarrow> n < 64 \<Longrightarrow> b64_digit m = b64_digit n \<Longrightarrow> m = n"
proof -
  assume a: "m < 64" "n < 64" "b64_digit m = b64_digit n"
  then have "(of_nat m :: u8) = of_nat n" using digit_bin(1) by metis
  with a show "m = n" by (simp add: word_unat_eq_iff)
qed

subsection \<open>Quads\<close>

text \<open>Three bytes as one number, and the number as four digits.\<close>

lemma length_quad [simp]: "length (quad n) = 4"
  by (simp add: quad_def)

lemma quad_digits: "list_all (\<lambda>d. d < 64) (quad n)"
  by (simp add: quad_def)

lemma base64_place:
  fixes x y :: nat
  assumes "y < 64"
  shows "(x * 64 + y) div 64 = x" "(x * 64 + y) mod 64 = y"
  using assms by simp_all

lemma div_64_power:
  fixes n :: nat
  shows "n div 64 ^ 3 = n div 64 div 64 div 64" "n div 64 ^ 2 = n div 64 div 64"
  by (simp_all add: div_mult2_eq [symmetric])

lemma quad_unquad:
  assumes "a < 64" "b < 64" "c < 64" "d < 64"
  shows "quad (unquad a b c d) = [a, b, c, d]"
  unfolding quad_def unquad_def div_64_power by (simp only: base64_place assms mod_less)

lemma unquad_quad:
  assumes "n < 2 ^ 24"
  shows "unquad (n div 64 ^ 3 mod 64) (n div 64 ^ 2 mod 64) (n div 64 mod 64) (n mod 64) = n"
proof -
  have "n div 64 ^ 3 < 64" using assms by (simp add: div_less_iff_less_mult)
  then have 3: "n div 64 ^ 3 mod 64 = n div 64 div 64 div 64" by (simp add: div_mult2_eq [symmetric])
  have 2: "n div 64 ^ 2 mod 64 = n div 64 div 64 mod 64" by (simp add: div_mult2_eq [symmetric])
  show ?thesis unfolding unquad_def 3 2 by simp
qed

lemma be_nat3: "be_nat [a, b, c] = unat a * 65536 + unat b * 256 + unat c"
  by (simp add: algebra_simps)

lemma be_nat3_lt: "be_nat [a, b, c] < 2 ^ 24"
  using be_nat_lt [of "[a, b, c]"] by (simp del: be_nat.simps)

lemma be_bytes_be_nat3: "be_bytes 3 (be_nat [a, b, c]) = [a, b, c]"
  using be_bytes_be_nat [of "[a, b, c]"] by (simp only: list.size numeral_3_eq_3 add_0 add_Suc plus_1_eq_Suc)

lemma quad_short:
  "quad (be_nat [a, 0, 0]) = [be_nat [a, 0, 0] div 64 ^ 3 mod 64, be_nat [a, 0, 0] div 64 ^ 2 mod 64, 0, 0]"
  "quad (be_nat [a, b, 0]) = [be_nat [a, b, 0] div 64 ^ 3 mod 64, be_nat [a, b, 0] div 64 ^ 2 mod 64,
     be_nat [a, b, 0] div 64 mod 64, 0]"
proof -
  have 1: "be_nat [a, 0, 0] = (unat a * 16 * 64 + 0) * 64 + 0" by (simp add: be_nat3 del: be_nat.simps)
  have 2: "be_nat [a, b, 0] = (unat a * 1024 + unat b * 4) * 64 + 0" by (simp add: be_nat3 del: be_nat.simps)
  have "be_nat [a, 0, 0] div 64 mod 64 = 0" "be_nat [a, 0, 0] mod 64 = 0"
    unfolding 1 by (simp_all only: base64_place zero_less_numeral)
  then show "quad (be_nat [a, 0, 0]) = [be_nat [a, 0, 0] div 64 ^ 3 mod 64, be_nat [a, 0, 0] div 64 ^ 2 mod 64, 0, 0]"
    by (simp only: quad_def)
  have "be_nat [a, b, 0] mod 64 = 0"
    unfolding 2 by (simp only: base64_place zero_less_numeral)
  then show "quad (be_nat [a, b, 0]) = [be_nat [a, b, 0] div 64 ^ 3 mod 64, be_nat [a, b, 0] div 64 ^ 2 mod 64,
     be_nat [a, b, 0] div 64 mod 64, 0]"
    by (simp only: quad_def)
qed

lemma octets_quad: "octets (quad (be_nat [a, b, c]) @ ds) = a # b # c # octets ds"
  unfolding quad_def append.simps octets.simps unquad_quad [OF be_nat3_lt] be_bytes_be_nat3 by simp

lemma octets_short: "octets [x, y] = take 1 (octets [x, y, 0, 0])" "octets [x, y, z] = take 2 (octets [x, y, z, 0])"
  by simp_all

lemma take_quad: "take 2 [x, y, z, w] = [x, y]" "take 3 [x, y, z, w] = [x, y, z]"
  by (simp_all add: eval_nat_numeral)

lemma octets_sextets [simp]: "octets (sextets bs) = bs"
proof (induction bs rule: sextets.induct)
  case (2 a)
  have "octets (quad (be_nat [a, 0, 0])) = [a, 0, 0]" using octets_quad [of a 0 0 "[]"] by simp
  then show ?case unfolding sextets.simps quad_short(1) take_quad octets_short by (simp del: octets.simps be_nat.simps)
next
  case (3 a b)
  have "octets (quad (be_nat [a, b, 0])) = [a, b, 0]" using octets_quad [of a b 0 "[]"] by simp
  then show ?case unfolding sextets.simps quad_short(2) take_quad octets_short by (simp add: numeral_2_eq_2 del: octets.simps be_nat.simps)
next
  case (4 a b c bs)
  then show ?case by (simp only: sextets.simps octets_quad)
qed simp

lemma replicate_2: "replicate 2 x = [x, x]"
  by (simp add: numeral_2_eq_2)

lemma mod_4_add: "(4 + n) mod 4 = n mod 4" for n :: nat
  by simp

lemma sextets_ok: "digits_ok (sextets bs)"
proof (induction bs rule: sextets.induct)
  case (2 a)
  show ?case unfolding sextets.simps quad_def take_quad by (simp add: digits_ok_def del: be_nat.simps)
next
  case (3 a b)
  show ?case unfolding sextets.simps quad_def take_quad by (simp add: digits_ok_def del: be_nat.simps)
next
  case (4 a b c bs)
  then show ?case using quad_digits [of "be_nat [a, b, c]"]
    by (simp add: digits_ok_def del: be_nat.simps)
qed (simp add: digits_ok_def)

lemma length_base64: "length (base64 bs) = (length bs + 2) div 3 * 4"
proof (induction bs rule: sextets.induct)
  case (4 a b c bs)
  have "(length (a # b # c # bs) + 2) div 3 = (length bs + 2) div 3 + 1" by simp
  with 4 show ?case by (simp add: base64_def base64_text_def del: be_nat.simps)
qed (simp_all add: base64_def base64_text_def)

lemma base64_append: "length xs mod 3 = 0 \<Longrightarrow> base64 (xs @ ys) = base64 xs @ base64 ys"
proof (induction xs rule: sextets.induct)
  case (4 a b c bs)
  then have "length bs mod 3 = 0" by (simp add: mod_Suc split: if_splits)
  with 4 show ?case by (simp add: base64_def base64_text_def del: be_nat.simps)
qed (simp_all add: base64_def base64_text_def)

subsection \<open>What the block functions do\<close>

text \<open>The word of three bytes.\<close>

lemma join_bytes:
  "push_bit 16 (ucast a :: u32) OR push_bit 8 (ucast b) OR ucast c = of_nat (be_nat [a, b, c])"
proof -
  have "push_bit 16 (ucast a :: u32) OR push_bit 8 (ucast b) OR ucast c = le_word [c, b, a]"
    by (rule bit_word_eqI) (auto simp: bit_simps)
  then show ?thesis by (simp only: le_word_le_nat be_nat_eq_le rev.simps append.simps)
qed

lemma conv_quad:
  assumes "n < 2 ^ 24"
  shows "conv_bin2ascii (ucast (drop_bit 18 (of_nat n :: u32))) = b64_digit (n div 64 ^ 3 mod 64)"
    "conv_bin2ascii (ucast (drop_bit 12 (of_nat n :: u32))) = b64_digit (n div 64 ^ 2 mod 64)"
    "conv_bin2ascii (ucast (drop_bit 6 (of_nat n :: u32))) = b64_digit (n div 64 mod 64)"
    "conv_bin2ascii (ucast (of_nat n :: u32)) = b64_digit (n mod 64)"
proof -
  have n: "unat (of_nat n :: u32) = n" using assms by (simp add: unat_of_nat)
  have d: "unat (ucast (x :: u32) :: u8) mod 64 = unat x mod 64" for x
    by (simp add: unat_ucast_word mod_mod_cancel)
  show "conv_bin2ascii (ucast (drop_bit 18 (of_nat n :: u32))) = b64_digit (n div 64 ^ 3 mod 64)"
    "conv_bin2ascii (ucast (drop_bit 12 (of_nat n :: u32))) = b64_digit (n div 64 ^ 2 mod 64)"
    "conv_bin2ascii (ucast (drop_bit 6 (of_nat n :: u32))) = b64_digit (n div 64 mod 64)"
    "conv_bin2ascii (ucast (of_nat n :: u32)) = b64_digit (n mod 64)"
    unfolding conv_bin2ascii_digit d unat_drop_bit n by simp_all
qed

lemma encode_block_loop_eq:
  "ret + length (base64 src) < 2 ^ 64 \<Longrightarrow>
   encode_block_loop src dst ret = (dst @ base64 src, ret + length (base64 src))"
proof (induction src dst ret rule: encode_block_loop.induct)
  case (2 a dst ret)
  have l: "push_bit 16 (ucast a :: u32) = of_nat (be_nat [a, 0, 0])" using join_bytes [of a 0 0] by simp
  from 2 show ?case
    unfolding encode_block_loop.simps l Let_def conv_quad [OF be_nat3_lt]
    by (simp add: base64_def base64_text_def quad_def take_quad replicate_2 del: be_nat.simps)
next
  case (3 a b dst ret)
  have l: "push_bit 16 (ucast a :: u32) OR push_bit 8 (ucast b) = of_nat (be_nat [a, b, 0])"
    using join_bytes [of a b 0] by simp
  from 3 show ?case
    unfolding encode_block_loop.simps l Let_def conv_quad [OF be_nat3_lt]
    by (simp add: base64_def base64_text_def quad_def take_quad replicate_2 del: be_nat.simps)
next
  case (4 a b c src dst ret)
  have split: "base64 (a # b # c # src) = map b64_digit (quad (be_nat [a, b, c])) @ base64 src"
    by (simp add: base64_def base64_text_def del: be_nat.simps)
  from 4 show ?case
    by (simp add: join_bytes Let_def conv_quad [OF be_nat3_lt] split quad_def del: be_nat.simps)
qed (simp_all add: base64_def base64_text_def)

lemma EVP_EncodeBlock_eq:
  "(length src + 2) div 3 * 4 < 2 ^ 64 \<Longrightarrow> EVP_EncodeBlock src = (base64 src @ [0], length (base64 src))"
  using encode_block_loop_eq [of 0 src "[]"] by (simp add: EVP_EncodeBlock_def length_base64)

subsection \<open>Encoding a stream\<close>

text \<open>Lines of 48 bytes; a last line that is not full is left to EVP_EncodeFinal.\<close>

function full_lines :: "bytes \<Rightarrow> bytes" where
  "full_lines bs = (if 48 \<le> length bs then base64 (take 48 bs) @ 0x0A # full_lines (drop 48 bs) else [])"
  by pat_completeness auto
termination
  by (relation "measure length") auto

function last_line :: "bytes \<Rightarrow> bytes" where
  "last_line bs = (if 48 \<le> length bs then last_line (drop 48 bs) else bs)"
  by pat_completeness auto
termination
  by (relation "measure length") auto

declare full_lines.simps [simp del] last_line.simps [simp del]

definition base64_lines :: "bytes \<Rightarrow> bytes" where
  "base64_lines bs = full_lines bs @ (if last_line bs = [] then [] else base64 (last_line bs) @ [0x0A])"

lemma short_lines: "length bs < 48 \<Longrightarrow> full_lines bs = []" "length bs < 48 \<Longrightarrow> last_line bs = bs"
  by (simp_all add: full_lines.simps last_line.simps)

lemma length_last_line: "length (last_line bs) < 48"
  by (induction bs rule: last_line.induct) (subst last_line.simps, simp)

lemma length_full_lines: "length (full_lines bs) = length bs div 48 * 65"
proof (induction bs rule: full_lines.induct)
  case (1 bs)
  show ?case
  proof (cases "48 \<le> length bs")
    case True
    then have "length bs div 48 = Suc ((length bs - 48) div 48)" by (simp add: le_div_geq)
    moreover have "length (base64 (take 48 bs)) = 64" using True by (simp add: length_base64)
    ultimately show ?thesis using 1 [OF True] True by (subst full_lines.simps) simp
  qed (simp add: short_lines)
qed

lemma long_lines:
  "48 \<le> length bs \<Longrightarrow> full_lines bs = base64 (take 48 bs) @ 0x0A # full_lines (drop 48 bs)"
  "48 \<le> length bs \<Longrightarrow> last_line bs = last_line (drop 48 bs)"
  by (simp_all add: full_lines.simps [of bs] last_line.simps [of bs])

lemma lines_append:
  "full_lines (xs @ ys) = full_lines xs @ full_lines (last_line xs @ ys) \<and>
   last_line (xs @ ys) = last_line (last_line xs @ ys)"
proof (induction xs rule: full_lines.induct)
  case (1 xs)
  show ?case
  proof (cases "48 \<le> length xs")
    case True
    then have "48 \<le> length (xs @ ys)" by simp
    from 1 [OF True] show ?thesis unfolding long_lines [OF True] long_lines [OF \<open>48 \<le> length (xs @ ys)\<close>]
      using True by simp
  qed (simp add: short_lines)
qed

text \<open>One line put at a position of the output.\<close>

lemma put_line_eq:
  assumes "length src = 48" "tot \<le> length out"
  shows "put_line tot src out = (take tot out @ base64 src @ [0x0A, 0] @ drop (tot + 66) out, 64)"
proof -
  have len: "length (base64 src) = 64" using assms by (simp add: length_base64)
  have "EVP_EncodeBlock src = (base64 src @ [0], 64)" using assms by (simp add: EVP_EncodeBlock_eq len)
  then show ?thesis using assms len by (simp add: put_line_def put_def min_def)
qed

lemma encode_update_loop_eq:
  assumes "tot + length (full_lines inp) < 2 ^ 64" "tot \<le> length out"
  shows "\<exists>out'. encode_update_loop inp out tot = (out', Some (last_line inp, tot + length (full_lines inp))) \<and>
    take (tot + length (full_lines inp)) out' = take tot out @ full_lines inp"
  using assms
proof (induction inp out tot rule: encode_update_loop.induct)
  case (1 inp out tot)
  show ?case
  proof (cases "48 \<le> length inp")
    case True
    let ?out = "take tot out @ base64 (take 48 inp) @ [0x0A, 0] @ drop (tot + 66) out"
    have line: "put_line tot (take 48 inp) out = (?out, 64)"
      using True "1.prems" by (intro put_line_eq) simp_all
    have len: "length (base64 (take 48 inp)) = 64" using True by (simp add: length_base64)
    have lines: "full_lines inp = base64 (take 48 inp) @ 0x0A # full_lines (drop 48 inp)"
      "last_line inp = last_line (drop 48 inp)"
      using True by (simp_all add: full_lines.simps [of inp] last_line.simps [of inp])
    have add: "size_add (size_add tot 64) 1 = tot + 65" using "1.prems"(1) lines len by simp
    have "tot + 65 + length (full_lines (drop 48 inp)) < 2 ^ 64" "tot + 65 \<le> length ?out"
      using "1.prems" lines len by simp_all
    then obtain out' where
      "encode_update_loop (drop 48 inp) ?out (tot + 65) =
         (out', Some (last_line (drop 48 inp), tot + 65 + length (full_lines (drop 48 inp))))"
      "take (tot + 65 + length (full_lines (drop 48 inp))) out' = take (tot + 65) ?out @ full_lines (drop 48 inp)"
      using "1.IH" [OF True line [symmetric]] unfolding add by auto
    moreover have "take (tot + 65) ?out = take tot out @ base64 (take 48 inp) @ [0x0A]"
      using "1.prems"(2) len by simp
    ultimately show ?thesis
      using True len add by (simp add: encode_update_loop.simps [of inp] line lines ac_simps)
  next
    case False
    then show ?thesis by (simp add: encode_update_loop.simps [of inp] short_lines)
  qed
qed

text \<open>The context holds the bytes that wait for a full line.\<close>

definition holds_pending :: "EVP_ENCODE_CTX \<Rightarrow> bytes \<Rightarrow> bool" where
  "holds_pending ctx p \<longleftrightarrow>
     length (enc_data ctx) = 48 \<and> data_used ctx = length p \<and> length p < 48 \<and> take (length p) (enc_data ctx) = p"

lemma put_0: "length inp \<le> length buf \<Longrightarrow> put 0 inp buf = inp @ drop (length inp) buf"
  by (simp add: put_def)

lemma encode_update_rest_eq:
  assumes "length (enc_data ctx) = 48" "data_used ctx = 0" "tot \<le> length out"
    "tot + length (full_lines inp) \<le> INT_MAX"
  shows "\<exists>ctx' out'. encode_update_rest ctx inp out tot = (ctx', out', tot + length (full_lines inp)) \<and>
    take (tot + length (full_lines inp)) out' = take tot out @ full_lines inp \<and> holds_pending ctx' (last_line inp)"
proof -
  have "tot + length (full_lines inp) < 2 ^ 64" using assms(4) by (simp add: INT_MAX_def)
  then obtain out' where loop: "encode_update_loop inp out tot = (out', Some (last_line inp, tot + length (full_lines inp)))"
    and out: "take (tot + length (full_lines inp)) out' = take tot out @ full_lines inp"
    using encode_update_loop_eq [OF _ assms(3)] by blast
  have "length (last_line inp) < 48" by (rule length_last_line)
  then show ?thesis
    using assms loop out by (simp add: encode_update_rest_def Let_def holds_pending_def put_0 del: length_0_conv)
qed

lemma encode_update_eq:
  assumes ctx: "holds_pending ctx p" and len: "length inp < 2 ^ 30"
  shows "\<exists>ctx' out. EVP_EncodeUpdate ctx inp = Some (ctx', out, length (full_lines (p @ inp))) \<and>
    take (length (full_lines (p @ inp))) out = full_lines (p @ inp) \<and> holds_pending ctx' (last_line (p @ inp))"
proof -
  have p: "length (enc_data ctx) = 48" "data_used ctx = length p" "length p < 48"
    "take (length p) (enc_data ctx) = p"
    using ctx by (auto simp: holds_pending_def)
  have bound: "length (full_lines (p @ inp)) \<le> INT_MAX"
  proof -
    have "(length p + length inp) div 48 \<le> (47 + 2 ^ 30) div 48" using p(3) len by (intro div_le_mono) simp
    then show ?thesis by (simp add: length_full_lines INT_MAX_def)
  qed
  consider "inp = []" | "inp \<noteq> []" "length p + length inp < 48" | "48 \<le> length p + length inp" "p = []"
    | "48 \<le> length p + length inp" "p \<noteq> []" "inp \<noteq> []"
    using p(3) by (cases "inp = []"; cases "p = []") fastforce+
  then show ?thesis
  proof cases
    case 1
    then show ?thesis using ctx p by (simp add: EVP_EncodeUpdate_def short_lines)
  next
    case 2
    then have "length inp < 48 - length p" by simp
    then show ?thesis
      using p 2 by (simp add: EVP_EncodeUpdate_def short_lines holds_pending_def put_def)
  next
    case 3
    then have "inp \<noteq> []" "\<not> length inp < 48" by auto
    then show ?thesis
      using encode_update_rest_eq [of ctx 0 "[]" inp] p 3 bound
      by (auto simp: EVP_EncodeUpdate_def)
  next
    case 4
    let ?todo = "48 - length p"
    let ?data = "put (length p) (take ?todo inp) (enc_data ctx)"
    let ?out = "base64 ?data @ [0x0A, 0]"
    let ?ctx = "ctx\<lparr>enc_data := ?data, data_used := 0\<rparr>"
    have todo: "length (take ?todo inp) = ?todo" using 4 by simp
    have data: "?data = p @ take ?todo inp" unfolding put_def todo using p by simp
    moreover have "length ?data = 48" unfolding data length_append todo using p(3) by simp
    ultimately have data: "?data = p @ take ?todo inp" "length ?data = 48" by blast+
    have len64: "length (base64 ?data) = 64" using data by (simp add: length_base64)
    have line: "put_line 0 ?data [] = (?out, 64)" using put_line_eq [OF data(2), of 0 "[]"] by simp
    have lines: "full_lines (p @ inp) = base64 ?data @ 0x0A # full_lines (drop ?todo inp)"
      "last_line (p @ inp) = last_line (drop ?todo inp)"
      using long_lines [of "p @ inp"] data(1) 4 p(3) by simp_all
    have "65 + length (full_lines (drop ?todo inp)) \<le> INT_MAX" using bound lines(1) len64 by simp
    then obtain ctx' out' where rest:
      "encode_update_rest ?ctx (drop ?todo inp) ?out 65 = (ctx', out', 65 + length (full_lines (drop ?todo inp)))"
      "take (65 + length (full_lines (drop ?todo inp))) out' = take 65 ?out @ full_lines (drop ?todo inp)"
      "holds_pending ctx' (last_line (drop ?todo inp))"
      using encode_update_rest_eq [of ?ctx 65 ?out "drop ?todo inp"] data(2) len64 by auto
    have "EVP_EncodeUpdate ctx inp = Some (encode_update_rest ?ctx (drop ?todo inp) ?out 65)"
    proof -
      have "\<not> length inp < ?todo" "\<not> length inp = 0" using 4 by simp_all
      then show ?thesis using 4 p line by (simp add: EVP_EncodeUpdate_def Let_def del: length_0_conv)
    qed
    with rest lines len64 show ?thesis by simp
  qed
qed

text \<open>A caller that encodes a stream: the output of each call, up to the length the call returns.\<close>

primrec encode_updates :: "EVP_ENCODE_CTX \<Rightarrow> bytes list \<Rightarrow> (EVP_ENCODE_CTX \<times> bytes) option" where
  "encode_updates ctx [] = Some (ctx, [])"
| "encode_updates ctx (inp # inps) =
     (case EVP_EncodeUpdate ctx inp of
        None \<Rightarrow> None
      | Some (ctx, out, n) \<Rightarrow>
          (case encode_updates ctx inps of
             None \<Rightarrow> None
           | Some (ctx, outs) \<Rightarrow> Some (ctx, take n out @ outs)))"

definition encode_stream :: "EVP_ENCODE_CTX \<Rightarrow> bytes list \<Rightarrow> bytes option" where
  "encode_stream ctx inps =
     (case encode_updates (EVP_EncodeInit ctx) inps of
        None \<Rightarrow> None
      | Some (ctx, outs) \<Rightarrow> (case EVP_EncodeFinal ctx of (ctx, out, n) \<Rightarrow> Some (outs @ take n out)))"

lemma holds_pending_init: "holds_pending (EVP_EncodeInit ctx) []"
  by (simp add: holds_pending_def EVP_EncodeInit_def cleared_ctx_def)

lemma encode_updates_eq:
  assumes "holds_pending ctx p" "list_all (\<lambda>inp. length inp < 2 ^ 30) inps"
  shows "\<exists>ctx'. encode_updates ctx inps = Some (ctx', full_lines (p @ concat inps)) \<and>
    holds_pending ctx' (last_line (p @ concat inps))"
  using assms
proof (induction inps arbitrary: ctx p)
  case Nil
  then have "length p < 48" by (simp add: holds_pending_def)
  with Nil show ?case by (simp add: short_lines)
next
  case (Cons inp inps)
  from Cons.prems obtain ctx' out where step:
    "EVP_EncodeUpdate ctx inp = Some (ctx', out, length (full_lines (p @ inp)))"
    "take (length (full_lines (p @ inp))) out = full_lines (p @ inp)" "holds_pending ctx' (last_line (p @ inp))"
    using encode_update_eq [of ctx p inp] by auto
  from Cons.IH [OF step(3)] Cons.prems obtain ctx'' where
    "encode_updates ctx' inps = Some (ctx'', full_lines (last_line (p @ inp) @ concat inps))"
    "holds_pending ctx'' (last_line (last_line (p @ inp) @ concat inps))"
    by auto
  then show ?case
    using step lines_append [of "p @ inp" "concat inps"] by simp
qed

lemma encode_final_eq:
  assumes "holds_pending ctx p"
  shows "\<exists>ctx' out n. EVP_EncodeFinal ctx = (ctx', out, n) \<and>
    take n out = (if p = [] then [] else base64 p @ [0x0A])"
proof -
  have p: "data_used ctx = length p" "length p < 48" "take (length p) (enc_data ctx) = p"
    using assms by (auto simp: holds_pending_def)
  have "length p \<le> 47" using p(2) by simp
  then have "(length p + 2) div 3 \<le> (47 + 2) div 3" by (intro div_le_mono) simp
  then have "(length p + 2) div 3 * 4 < 2 ^ 64" by simp
  then have "EVP_EncodeBlock p = (base64 p @ [0], length (base64 p))" by (rule EVP_EncodeBlock_eq)
  with p show ?thesis by (simp add: EVP_EncodeFinal_def put_def)
qed

theorem encode_stream_eq:
  assumes "list_all (\<lambda>inp. length inp < 2 ^ 30) inps"
  shows "encode_stream ctx inps = Some (base64_lines (concat inps))"
proof -
  obtain ctx' where "encode_updates (EVP_EncodeInit ctx) inps = Some (ctx', full_lines (concat inps))"
    and pend: "holds_pending ctx' (last_line (concat inps))"
    using encode_updates_eq [OF holds_pending_init assms] by auto
  then show ?thesis
    using encode_final_eq [OF pend] by (auto simp: encode_stream_def base64_lines_def)
qed

subsection \<open>Decoding a quad\<close>

lemma join_digits:
  assumes "a < 64" "b < 64" "c < 64" "d < 64"
  shows "push_bit 18 (ucast (of_nat a :: u8) :: u32) OR push_bit 12 (ucast (of_nat b :: u8)) OR
    push_bit 6 (ucast (of_nat c :: u8)) OR ucast (of_nat d :: u8) = of_nat (unquad a b c d)"
proof -
  have u: "(ucast (of_nat n :: u8) :: u32) = of_nat n" if "n < 64" for n
    using that by (simp add: word_unat_eq_iff unat_ucast_word unat_of_nat)
  have lt: "d < 2 ^ 6" "c < 2 ^ 6" "b < 2 ^ 6" using assms by simp_all
  have "unquad a b c d = d + 2 ^ 6 * (c + 2 ^ 6 * (b + 2 ^ 6 * a))" by (simp add: unquad_def)
  then have "(of_nat (unquad a b c d) :: u32) =
      of_nat d OR push_bit 6 (of_nat c OR push_bit 6 (of_nat b OR push_bit 6 (of_nat a)))"
    by (simp only: of_nat_or_push_bit [of d 6] of_nat_or_push_bit [of c 6] of_nat_or_push_bit [of b 6] lt)
  also have "\<dots> = push_bit 18 (of_nat a) OR push_bit 12 (of_nat b) OR push_bit 6 (of_nat c) OR of_nat d"
    by (rule bit_word_eqI) (auto simp: bit_simps)
  finally show ?thesis by (simp only: u assms)
qed

lemma unquad_lt: "a < 64 \<Longrightarrow> b < 64 \<Longrightarrow> c < 64 \<Longrightarrow> d < 64 \<Longrightarrow> unquad a b c d < 2 ^ 24"
  by (simp add: unquad_def)

lemma word_octets:
  assumes "n < 2 ^ 24"
  shows "[ucast (drop_bit 16 (of_nat n :: u32)), ucast (drop_bit 8 (of_nat n :: u32)), ucast (of_nat n :: u32)]
    = be_bytes 3 n"
proof -
  have u: "(ucast (drop_bit k (of_nat n :: u32)) :: u8) = of_nat (n div 2 ^ k)" for k
    using assms by (simp add: word_unat_eq_iff unat_ucast_word unat_drop_bit unat_of_nat)
  from u [of 16] u [of 8] u [of 0] show ?thesis by (simp add: be_bytes_def le_bytes_expand)
qed

lemma take_be_bytes:
  "be_bytes 3 n = [x, y, z] \<Longrightarrow> take 2 (be_bytes 3 n) = [x, y] \<and> take 1 (be_bytes 3 n) = [x]"
  by (simp add: eval_nat_numeral)

lemma digit_not_bin [simp]: "n < 64 \<Longrightarrow> (of_nat n :: u8) \<noteq> 0xFF"
  by (simp add: word_unat_eq_iff)

lemma decode_quad_digits:
  assumes "a < 64" "b < 64"
  shows "c < 64 \<Longrightarrow> d < 64 \<Longrightarrow> base64_decode_quad (b64_digit a) (b64_digit b) (b64_digit c) (b64_digit d) =
      Some (octets [a, b, c, d])"
    "c < 64 \<Longrightarrow> base64_decode_quad (b64_digit a) (b64_digit b) (b64_digit c) 0x3D = Some (octets [a, b, c])"
    "base64_decode_quad (b64_digit a) (b64_digit b) 0x3D 0x3D = Some (octets [a, b])"
proof -
  note bytes = take_be_bytes [OF word_octets [OF unquad_lt, symmetric]]
  show "base64_decode_quad (b64_digit a) (b64_digit b) (b64_digit c) (b64_digit d) = Some (octets [a, b, c, d])"
    if "c < 64" "d < 64"
    using assms that join_digits [of a b c d] word_octets [OF unquad_lt [OF assms that]]
    by (simp add: base64_decode_quad_def digit_bin Let_def)
  show "base64_decode_quad (b64_digit a) (b64_digit b) (b64_digit c) 0x3D = Some (octets [a, b, c])" if "c < 64"
    using assms that join_digits [of a b c 0] bytes [of a b c 0]
    by (simp add: base64_decode_quad_def digit_bin equals_bin Let_def)
  show "base64_decode_quad (b64_digit a) (b64_digit b) 0x3D 0x3D = Some (octets [a, b])"
    using assms join_digits [of a b 0 0] bytes [of a b 0 0]
    by (simp add: base64_decode_quad_def digit_bin equals_bin Let_def)
qed

lemma decode_quad_cases:
  assumes "base64_decode_quad w x y z = Some bs"
  obtains a b c d where "a < 64" "b < 64" "c < 64" "d < 64"
      "[w, x, y, z] = base64_text [a, b, c, d]" "bs = octets [a, b, c, d]"
  | a b c where "a < 64" "b < 64" "c < 64" "[w, x, y, z] = base64_text [a, b, c]" "bs = octets [a, b, c]"
  | a b where "a < 64" "b < 64" "[w, x, y, z] = base64_text [a, b]" "bs = octets [a, b]"
proof -
  have valid: "base64_ascii_to_bin w \<noteq> 0xFF" "base64_ascii_to_bin x \<noteq> 0xFF"
    "base64_ascii_to_bin y \<noteq> 0xFF" "base64_ascii_to_bin z \<noteq> 0xFF"
    using assms by (auto simp: base64_decode_quad_def Let_def split: if_splits)
  have "w \<noteq> 0x3D \<and> x \<noteq> 0x3D \<and> (y = 0x3D \<longrightarrow> z = 0x3D)"
    using assms
    by (cases "w = 0x3D"; cases "x = 0x3D"; cases "y = 0x3D"; cases "z = 0x3D")
      (simp_all add: base64_decode_quad_def Let_def split: if_splits)
  moreover from this obtain a b where ab: "a < 64" "w = b64_digit a" "b < 64" "x = b64_digit b"
    using bin_digit valid(1,2) by metis
  ultimately consider "y \<noteq> 0x3D" "z \<noteq> 0x3D" | "y \<noteq> 0x3D" "z = 0x3D" | "y = 0x3D" "z = 0x3D" by blast
  then show ?thesis
  proof cases
    case 1
    then obtain c d where "c < 64" "y = b64_digit c" "d < 64" "z = b64_digit d"
      using bin_digit valid(3,4) by metis
    with ab assms show ?thesis by (intro that(1) [of a b c d]) (simp_all add: decode_quad_digits base64_text_def)
  next
    case 2
    then obtain c where "c < 64" "y = b64_digit c" using bin_digit valid(3) by metis
    with 2 ab assms show ?thesis by (intro that(2) [of a b c]) (simp_all add: decode_quad_digits base64_text_def)
  next
    case 3
    with ab assms show ?thesis
      by (intro that(3) [of a b]) (simp_all add: decode_quad_digits base64_text_def replicate_2)
  qed
qed

subsection \<open>Decoding a text\<close>

text \<open>A text, quad by quad; only the last quad may have padding.\<close>

fun b64_parse :: "bytes \<Rightarrow> bytes option" where
  "b64_parse [] = Some []"
| "b64_parse (w # x # y # z # r) =
     (case base64_decode_quad w x y z of
        None \<Rightarrow> None
      | Some bs \<Rightarrow> if length bs \<noteq> 3 \<and> r \<noteq> [] then None else map_option ((@) bs) (b64_parse r))"
| "b64_parse _ = None"

lemma octets_lengths:
  "length (octets [a, b, c, d]) = 3" "length (octets [a, b, c]) = 2" "length (octets [a, b]) = 1"
  by simp_all

lemma base64_text_quad:
  "base64_text (a # b # c # d # ds) = b64_digit a # b64_digit b # b64_digit c # b64_digit d # base64_text ds"
  by (simp add: base64_text_def)

lemma octets_Cons4: "octets (a # b # c # d # ds) = octets [a, b, c, d] @ octets ds"
  by simp

lemma digits_ok_Cons4:
  "digits_ok (a # b # c # d # ds) \<longleftrightarrow> a < 64 \<and> b < 64 \<and> c < 64 \<and> d < 64 \<and> digits_ok ds"
  by (simp add: digits_ok_def)

lemma b64_parse_sound: "b64_parse t = Some out \<Longrightarrow> \<exists>ds. digits_ok ds \<and> t = base64_text ds \<and> out = octets ds"
proof (induction t arbitrary: out rule: b64_parse.induct)
  case 1
  then show ?case by (intro exI [of _ "[]"]) (simp add: digits_ok_def base64_text_def)
next
  case (2 w x y z r)
  from 2(2) obtain bs rest where parse: "base64_decode_quad w x y z = Some bs" "length bs = 3 \<or> r = []"
    "b64_parse r = Some rest" "out = bs @ rest"
    by (auto split: option.splits if_splits)
  have ih: "\<exists>ds. digits_ok ds \<and> r = base64_text ds \<and> rest = octets ds"
    using 2(1) [OF parse(1) _ parse(3)] parse(2) by blast
  from parse(1) show ?case
  proof (cases rule: decode_quad_cases)
    case (1 a b c d)
    from ih obtain ds where "digits_ok ds" "r = base64_text ds" "rest = octets ds" by blast
    with 1 parse(4) show ?thesis
      by (intro exI [of _ "a # b # c # d # ds"])
        (simp add: digits_ok_Cons4 base64_text_def del: octets.simps(1), simp)
  next
    case (2 a b c)
    with parse(2) octets_lengths have "r = []" by auto
    with 2 parse(3,4) show ?thesis
      by (intro exI [of _ "[a, b, c]"]) (simp add: digits_ok_def)
  next
    case (3 a b)
    with parse(2) octets_lengths have "r = []" by auto
    with 3 parse(3,4) show ?thesis
      by (intro exI [of _ "[a, b]"]) (simp add: digits_ok_def)
  qed
qed simp_all

lemma b64_parse_complete: "digits_ok ds \<Longrightarrow> b64_parse (base64_text ds) = Some (octets ds)"
proof (induction ds rule: octets.induct)
  case (1 a b c d ds)
  then have lt: "a < 64" "b < 64" "c < 64" "d < 64" and ok: "digits_ok ds" by (auto simp: digits_ok_Cons4)
  show ?case
    unfolding base64_text_quad b64_parse.simps decode_quad_digits(1) [OF lt] octets_Cons4 [of a b c d ds]
    using 1(1) [OF ok] octets_lengths(1) by simp
next
  case (2 a b c)
  then have "a < 64" "b < 64" "c < 64" by (auto simp: digits_ok_def)
  then show ?case using decode_quad_digits(2) [of a b c] by (simp add: base64_text_def)
next
  case (3 a b)
  then have "a < 64" "b < 64" by (auto simp: digits_ok_def)
  then show ?case using decode_quad_digits(3) [of a b] by (simp add: base64_text_def replicate_2)
qed (simp_all add: digits_ok_def base64_text_def)

lemma b64_parse_iff:
  "b64_parse t = Some out \<longleftrightarrow> (\<exists>ds. digits_ok ds \<and> t = base64_text ds \<and> out = octets ds)"
  using b64_parse_sound b64_parse_complete by blast

lemma quad_length: "base64_decode_quad w x y z = Some bs \<Longrightarrow> length bs \<le> 3"
  by (erule decode_quad_cases) (simp_all only: octets_lengths)

lemma decode_base64_loop_eq:
  "length inp mod 4 = 0 \<Longrightarrow> n + length inp < 2 ^ 64 \<Longrightarrow>
   (case b64_parse inp of
      None \<Rightarrow> \<not> fst (decode_base64_loop out n inp)
    | Some bs \<Rightarrow> decode_base64_loop out n inp = (True, out @ bs, n + length bs))"
proof (induction inp arbitrary: out n rule: b64_parse.induct)
  case (2 w x y z r)
  show ?case
  proof (cases "base64_decode_quad w x y z")
    case (Some bs)
    have len: "length bs \<le> 3" by (rule quad_length [OF Some])
    show ?thesis
    proof (cases "length bs \<noteq> 3 \<and> r \<noteq> []")
      case False
      have bound: "length r mod 4 = 0" "n + length bs + length r < 2 ^ 64" using 2(2,3) len by simp_all
      have add: "size_add n (length bs) = n + length bs" using bound(2) by simp
      show ?thesis using 2(1) [OF Some False bound, of "out @ bs"] Some False add
        by (auto split: option.splits)
    qed (simp add: Some)
  qed simp
qed simp_all

lemma length_base64_text: "length (base64_text ds) mod 4 = 0"
proof -
  have "(r + (4 - r) mod 4) mod 4 = 0" if "r < 4" for r :: nat
  proof -
    from that consider "r = 0" | "r = 1" | "r = 2" | "r = 3" by linarith
    then show ?thesis by cases simp_all
  qed
  from this [of "length ds mod 4"] have "(length ds + (4 - length ds mod 4) mod 4) mod 4 = 0"
    by (simp add: mod_add_left_eq)
  then show ?thesis by (simp only: base64_text_def length_append length_map length_replicate)
qed

lemma EVP_DecodeBase64_eq:
  assumes "length inp < 2 ^ 64"
  shows "EVP_DecodeBase64 m inp = (True, out, n) \<longleftrightarrow>
    length inp div 4 * 3 \<le> m \<and> b64_parse inp = Some out \<and> n = length out"
proof (cases "length inp mod 4 = 0")
  case True
  then show ?thesis
    using decode_base64_loop_eq [of inp 0 "[]"] assms
    by (auto simp: EVP_DecodeBase64_def EVP_DecodedLength_def split: option.splits prod.splits if_splits)
next
  case False
  then have "b64_parse inp \<noteq> Some out" using b64_parse_sound length_base64_text by metis
  with False show ?thesis by (auto simp: EVP_DecodeBase64_def)
qed

end
