(* ===== verification/Base64_Stream.thy ===== *)
theory Base64_Stream
  imports Base64_Spec
begin

text \<open>
  Base64 streams in both directions: EVP_DecodeUpdate and EVP_DecodeFinal accept, however the input
  is cut into chunks, exactly the texts of \<open>Base64_Spec\<close> with blanks between the characters, and they
  read back what EVP_EncodeUpdate and EVP_EncodeFinal write.
\<close>

unbundle bit_operations_syntax

subsection \<open>Decoding a stream\<close>

text \<open>
  What EVP_DecodeUpdate does to the characters that are not blank: \<open>p\<close> is the quad begun, \<open>e\<close> says
  that a quad with padding was seen.
\<close>

fun consume :: "bytes \<Rightarrow> bool \<Rightarrow> bytes \<Rightarrow> (bytes \<times> bytes \<times> bool) option" where
  "consume p e [] = Some ([], p, e)"
| "consume p e (c # t) =
     (if e then None
      else if length p < 3 then consume (p @ [c]) e t
      else
        (case base64_decode_quad (p ! 0) (p ! 1) (p ! 2) c of
           None \<Rightarrow> None
         | Some bs \<Rightarrow>
             (case consume [] (length bs < 3) t of
                None \<Rightarrow> None
              | Some (out, p, e) \<Rightarrow> Some (bs @ out, p, e))))"

definition visible :: "bytes \<Rightarrow> bytes" where
  "visible t = filter (\<lambda>c. \<not> is_blank c) t"

definition holds_quad :: "EVP_ENCODE_CTX \<Rightarrow> bytes \<Rightarrow> bool \<Rightarrow> bool" where
  "holds_quad ctx p e \<longleftrightarrow>
     length (enc_data ctx) = 48 \<and> data_used ctx = length p \<and> length p < 4 \<and> take (length p) (enc_data ctx) = p \<and>
     eof_seen ctx = e \<and> \<not> error_encountered ctx"

lemma consume_append:
  "consume p e (s @ t) =
    (case consume p e s of
       None \<Rightarrow> None
     | Some (out, p, e) \<Rightarrow> (case consume p e t of None \<Rightarrow> None | Some (out', p, e) \<Rightarrow> Some (out @ out', p, e)))"
  by (induction p e s rule: consume.induct) (auto split: option.splits)

lemma consume_facts:
  "consume p e t = Some (out, p', e') \<Longrightarrow> length p < 4 \<Longrightarrow>
    length p' < 4 \<and> 4 * length out \<le> 3 * (length p + length t)"
proof (induction p e t arbitrary: out rule: consume.induct)
  case (2 p e c t)
  show ?case
  proof (cases "length p < 3")
    case True
    then show ?thesis using 2 by (auto split: if_splits)
  next
    case False
    with 2(3) obtain bs o' where quad: "\<not> e" "base64_decode_quad (p ! 0) (p ! 1) (p ! 2) c = Some bs"
      "consume [] (length bs < 3) t = Some (o', p', e')" "out = bs @ o'"
      by (auto split: option.splits if_splits)
    with 2(2) [OF quad(1) False quad(2,3)] quad_length [OF quad(2)] False show ?thesis by simp
  qed
qed simp

lemma consume_length:
  "consume p e t = Some (out, p', e') \<Longrightarrow> length p < 4 \<Longrightarrow> (length p + length t) mod 4 = length p' mod 4"
proof (induction p e t arbitrary: out rule: consume.induct)
  case (2 p e c t)
  show ?case
  proof (cases "length p < 3")
    case True
    then show ?thesis using 2 by (auto split: if_splits)
  next
    case False
    with 2(3) obtain bs o' where quad: "\<not> e" "base64_decode_quad (p ! 0) (p ! 1) (p ! 2) c = Some bs"
      "consume [] (length bs < 3) t = Some (o', p', e')"
      by (auto split: option.splits if_splits)
    from False 2(4) have "length p = 3" by simp
    with 2(2) [OF quad(1) False quad(2,3)] show ?thesis by simp
  qed
qed simp

text \<open>A text that is read to its end without a quad left over is one that parses.\<close>

lemma consume_quads:
  assumes "length t mod 4 = 0"
  shows "(case b64_parse t of None \<Rightarrow> consume [] False t = None
    | Some out \<Rightarrow> \<exists>e. consume [] False t = Some (out, [], e))"
  using assms
proof (induction t rule: b64_parse.induct)
  case (2 w x y z r)
  have step: "consume [] False (w # x # y # z # r) =
    (case base64_decode_quad w x y z of None \<Rightarrow> None
     | Some bs \<Rightarrow> (case consume [] (length bs < 3) r of None \<Rightarrow> None
         | Some (out, p, e) \<Rightarrow> Some (bs @ out, p, e)))"
    by simp
  show ?case
  proof (cases "base64_decode_quad w x y z")
    case (Some bs)
    have len: "length bs \<le> 3" by (rule quad_length [OF Some])
    show ?thesis
    proof (cases "length bs = 3")
      case True
      then show ?thesis using 2(1) [OF Some] 2(2) Some unfolding step
        by (auto split: option.splits)
    next
      case False
      then show ?thesis using len Some unfolding step by (cases r) auto
    qed
  qed (simp add: step)
qed auto

lemma consume_parse:
  "(\<exists>e. consume [] False t = Some (out, [], e)) \<longleftrightarrow> b64_parse t = Some out"
proof (cases "length t mod 4 = 0")
  case True
  then show ?thesis using consume_quads [OF True] by (auto split: option.splits)
next
  case False
  have "consume [] False t \<noteq> Some (out, [], e)" for e
    using consume_length [of "[]" False t out "[]" e] False by auto
  moreover have "b64_parse t \<noteq> Some out" using b64_parse_sound length_base64_text False by metis
  ultimately show ?thesis by blast
qed

lemma put_next:
  "length p < 48 \<Longrightarrow> length buf = 48 \<Longrightarrow> take (length p) buf = p \<Longrightarrow>
   length (put (length p) [c] buf) = 48 \<and> take (Suc (length p)) (put (length p) [c] buf) = p @ [c]"
  by (simp add: put_def)

lemma nth_take_eq: "take k xs = ys \<Longrightarrow> i < k \<Longrightarrow> xs ! i = ys ! i"
  by auto

definition reads_to :: "(bytes \<times> bytes \<times> bool) option \<Rightarrow> bytes \<Rightarrow> nat \<Rightarrow> bool \<times> EVP_ENCODE_CTX \<times> bytes \<times> nat \<Rightarrow> bool" where
  "reads_to r out n res \<longleftrightarrow>
     (case r of
        None \<Rightarrow> \<not> fst res \<and> error_encountered (fst (snd res))
      | Some (bs, p, e) \<Rightarrow> \<exists>ctx. res = (True, ctx, out @ bs, n + length bs) \<and> holds_quad ctx p e)"

lemma decode_update_loop_eq:
  "holds_quad ctx p e \<Longrightarrow> n + length p + length inp < 2 ^ 64 \<Longrightarrow>
   reads_to (consume p e (visible inp)) out n (decode_update_loop ctx out n inp)"
proof (induction inp arbitrary: ctx out n p e)
  case Nil
  then show ?case by (simp add: visible_def reads_to_def)
next
  case (Cons c inp)
  note held = \<open>holds_quad ctx p e\<close>
  show ?case
  proof (cases "is_blank c")
    case True
    then show ?thesis using Cons.IH [OF held, of n out] Cons.prems(2) by (simp add: visible_def)
  next
    case vis: False
    then have v: "visible (c # inp) = c # visible inp" by (simp add: visible_def)
    show ?thesis
    proof (cases e)
      case True
      then show ?thesis using held vis by (simp add: v holds_quad_def reads_to_def)
    next
      case noeof: False
      then have eof: "\<not> eof_seen ctx" using held by (simp add: holds_quad_def)
      define ctx1 where "ctx1 = ctx\<lparr>enc_data := put (data_used ctx) [c] (enc_data ctx), data_used := data_used ctx + 1\<rparr>"
      have round: "decode_update_loop ctx out n (c # inp) =
        (if data_used ctx1 = 4 then
           (case base64_decode_quad (enc_data ctx1 ! 0) (enc_data ctx1 ! 1) (enc_data ctx1 ! 2) (enc_data ctx1 ! 3) of
              None \<Rightarrow> (False, ctx1\<lparr>error_encountered := True\<rparr>, out, n)
            | Some bs \<Rightarrow> decode_update_loop
                (if length bs < 3 then ctx1\<lparr>data_used := 0, eof_seen := True\<rparr> else ctx1\<lparr>data_used := 0\<rparr>)
                (out @ bs) (size_add n (length bs)) inp)
         else decode_update_loop ctx1 out n inp)"
        using vis eof by (simp only: decode_update_loop.simps if_False Let_def ctx1_def [symmetric])
      have len: "length p < 4" using held by (simp add: holds_quad_def)
      have data: "length (enc_data ctx1) = 48" "take (Suc (length p)) (enc_data ctx1) = p @ [c]"
        "data_used ctx1 = Suc (length p)" "eof_seen ctx1 = e" "\<not> error_encountered ctx1"
        using held put_next [of p "enc_data ctx" c] by (auto simp: holds_quad_def ctx1_def)
      show ?thesis
      proof (cases "length p < 3")
        case True
        then have "holds_quad ctx1 (p @ [c]) e" using data by (simp add: holds_quad_def)
        moreover have "data_used ctx1 \<noteq> 4" using True data by simp
        ultimately show ?thesis
          using Cons.IH [of ctx1 "p @ [c]" e n out] Cons.prems(2) True vis eof noeof
          unfolding v round by simp
      next
        case False
        with len have three: "length p = 3" by simp
        then have "data_used ctx1 = 4" "enc_data ctx1 ! 0 = p ! 0" "enc_data ctx1 ! 1 = p ! 1"
          "enc_data ctx1 ! 2 = p ! 2" "enc_data ctx1 ! 3 = c"
          using data(3) nth_take_eq [OF data(2), of 0] nth_take_eq [OF data(2), of 1]
            nth_take_eq [OF data(2), of 2] nth_take_eq [OF data(2), of 3]
          by (simp_all add: nth_append)
        then have unfold: "decode_update_loop ctx out n (c # inp) =
           (case base64_decode_quad (p ! 0) (p ! 1) (p ! 2) c of
              None \<Rightarrow> (False, ctx1\<lparr>error_encountered := True\<rparr>, out, n)
            | Some bs \<Rightarrow> decode_update_loop
                (if length bs < 3 then ctx1\<lparr>data_used := 0, eof_seen := True\<rparr> else ctx1\<lparr>data_used := 0\<rparr>)
                (out @ bs) (size_add n (length bs)) inp)"
          unfolding round by simp
        show ?thesis
        proof (cases "base64_decode_quad (p ! 0) (p ! 1) (p ! 2) c")
          case None
          then show ?thesis using noeof three unfolding v unfold by (simp add: reads_to_def)
        next
          case (Some bs)
          let ?ctx = "if length bs < 3 then ctx1\<lparr>data_used := 0, eof_seen := True\<rparr> else ctx1\<lparr>data_used := 0\<rparr>"
          have bs: "length bs \<le> 3" by (rule quad_length [OF Some])
          have "holds_quad ?ctx [] (length bs < 3)" using data noeof by (simp add: holds_quad_def)
          moreover have "size_add n (length bs) = n + length bs" "n + length bs + length ([] :: bytes) + length inp < 2 ^ 64"
            using Cons.prems(2) bs three by simp_all
          ultimately have "reads_to (consume [] (length bs < 3) (visible inp)) (out @ bs) (n + length bs)
              (decode_update_loop ctx out n (c # inp))"
            using Cons.IH [of ?ctx "[]" "length bs < 3" "n + length bs" "out @ bs"] Some unfolding unfold by simp
          then show ?thesis
            using noeof three Some unfolding v
            by (auto simp: reads_to_def simp del: decode_update_loop.simps split: option.splits)
        qed
      qed
    qed
  qed
qed

lemma decode_update_eq:
  assumes "holds_quad ctx p e" "length inp < 2 ^ 31"
  shows "case consume p e (visible inp) of
      None \<Rightarrow> fst (EVP_DecodeUpdate ctx inp) = -1
    | Some (bs, p', e') \<Rightarrow> \<exists>ctx'. EVP_DecodeUpdate ctx inp = (if e' then 0 else 1, ctx', bs, length bs) \<and>
        holds_quad ctx' p' e'"
proof -
  have held: "\<not> error_encountered ctx" "length p < 4" using assms(1) by (auto simp: holds_quad_def)
  have "0 + length p + length inp < 2 ^ 64" using held assms(2) by simp
  then have loop: "reads_to (consume p e (visible inp)) [] 0 (decode_update_loop ctx [] 0 inp)"
    by (rule decode_update_loop_eq [OF assms(1)])
  show ?thesis
  proof (cases "consume p e (visible inp)")
    case None
    with loop obtain ctx' out n where "decode_update_loop ctx [] 0 inp = (False, ctx', out, n)"
      unfolding reads_to_def by (cases "decode_update_loop ctx [] 0 inp") auto
    with None held show ?thesis by (simp add: EVP_DecodeUpdate_def)
  next
    case (Some r)
    obtain bs p' e' where r: "r = (bs, p', e')" by (cases r)
    have "length (visible inp) \<le> length inp" by (simp add: visible_def)
    then have "length bs \<le> INT_MAX"
      using consume_facts [OF Some [unfolded r] held(2)] held(2) assms(2) by (simp add: INT_MAX_def)
    with loop held Some r show ?thesis
      by (auto simp: reads_to_def EVP_DecodeUpdate_def holds_quad_def)
  qed
qed

text \<open>A caller that decodes a stream and stops at the first error.\<close>

primrec decode_updates :: "EVP_ENCODE_CTX \<Rightarrow> bytes list \<Rightarrow> (EVP_ENCODE_CTX \<times> bytes) option" where
  "decode_updates ctx [] = Some (ctx, [])"
| "decode_updates ctx (inp # inps) =
     (case EVP_DecodeUpdate ctx inp of
        (ret, ctx, out, n) \<Rightarrow>
          if ret = -1 then None
          else
            (case decode_updates ctx inps of
               None \<Rightarrow> None
             | Some (ctx, outs) \<Rightarrow> Some (ctx, take n out @ outs)))"

definition decode_stream :: "EVP_ENCODE_CTX \<Rightarrow> bytes list \<Rightarrow> bytes option" where
  "decode_stream ctx inps =
     (case decode_updates (EVP_DecodeInit ctx) inps of
        None \<Rightarrow> None
      | Some (ctx, outs) \<Rightarrow> if EVP_DecodeFinal ctx = 1 then Some outs else None)"

lemma visible_append: "visible (xs @ ys) = visible xs @ visible ys"
  by (simp add: visible_def)

lemma decode_updates_eq:
  "holds_quad ctx p e \<Longrightarrow> list_all (\<lambda>inp. length inp < 2 ^ 31) inps \<Longrightarrow>
   (case consume p e (visible (concat inps)) of
      None \<Rightarrow> decode_updates ctx inps = None
    | Some (bs, p', e') \<Rightarrow> \<exists>ctx'. decode_updates ctx inps = Some (ctx', bs) \<and> holds_quad ctx' p' e')"
proof (induction inps arbitrary: ctx p e)
  case Nil
  then show ?case by (simp add: visible_def)
next
  case (Cons inp inps)
  have len: "length inp < 2 ^ 31" and rest: "list_all (\<lambda>inp. length inp < 2 ^ 31) inps" using Cons.prems(2) by simp_all
  have split: "visible (concat (inp # inps)) = visible inp @ visible (concat inps)" by (simp add: visible_append)
  show ?case
  proof (cases "consume p e (visible inp)")
    case None
    with decode_update_eq [OF Cons.prems(1) len] show ?thesis
      unfolding split by (cases "EVP_DecodeUpdate ctx inp") (simp add: consume_append)
  next
    case (Some r)
    obtain bs p' e' where r: "r = (bs, p', e')" by (cases r)
    from decode_update_eq [OF Cons.prems(1) len] obtain ctx' where
      "EVP_DecodeUpdate ctx inp = (if e' then 0 else 1, ctx', bs, length bs)" "holds_quad ctx' p' e'"
      by (auto simp: Some r)
    with Cons.IH [OF _ rest, of ctx' p' e'] show ?thesis
      unfolding split by (cases e') (auto simp: consume_append Some r split: option.splits)
  qed
qed

lemma holds_quad_init: "holds_quad (EVP_DecodeInit ctx) [] False"
  by (simp add: holds_quad_def EVP_DecodeInit_def cleared_ctx_def)

lemma decode_stream_eq:
  assumes "list_all (\<lambda>inp. length inp < 2 ^ 31) inps"
  shows "decode_stream ctx inps = Some out \<longleftrightarrow> b64_parse (visible (concat inps)) = Some out"
proof -
  have "decode_stream ctx inps = Some out \<longleftrightarrow>
      (\<exists>e. consume [] False (visible (concat inps)) = Some (out, [], e))"
    using decode_updates_eq [OF holds_quad_init assms, of ctx]
    by (auto simp: decode_stream_def EVP_DecodeFinal_def holds_quad_def split: option.splits if_splits)
  then show ?thesis by (simp only: consume_parse)
qed

lemma visible_base64: "visible (base64 bs) = base64 bs"
proof -
  have "list_all (\<lambda>d. d < 64) (sextets bs)" using sextets_ok by (simp add: digits_ok_def)
  then have "\<forall>c\<in>set (map b64_digit (sextets bs)). \<not> is_blank c"
    by (auto simp: list_all_iff digit_bin(3))
  moreover have "\<not> is_blank 0x3D" by (simp add: is_blank_def)
  ultimately show ?thesis by (auto simp: visible_def base64_def base64_text_def filter_id_conv)
qed

lemma visible_lines: "visible (base64_lines bs) = base64 bs"
proof -
  have newline: "visible (0x0A # t) = visible t" for t by (simp add: visible_def is_blank_def)
  have full: "visible (full_lines bs) @ base64 (last_line bs) = base64 bs"
  proof (induction bs rule: full_lines.induct)
    case (1 bs)
    show ?case
    proof (cases "48 \<le> length bs")
      case True
      have "base64 (take 48 bs @ drop 48 bs) = base64 (take 48 bs) @ base64 (drop 48 bs)"
        by (rule base64_append) (simp add: True min_absorb2)
      with 1 [OF True] show ?thesis
        by (simp add: long_lines True visible_append newline visible_base64)
    next
      case False
      then show ?thesis by (simp add: short_lines visible_def)
    qed
  qed
  show ?thesis
  proof (cases "last_line bs = []")
    case True
    then have "base64 (last_line bs) = []" by (simp add: base64_def base64_text_def)
    with full True show ?thesis by (simp add: base64_lines_def)
  next
    case False
    have "visible [0x0A] = []" by (simp add: visible_def is_blank_def)
    with full False show ?thesis by (simp add: base64_lines_def visible_append visible_base64)
  qed
qed

lemma parse_base64: "b64_parse (base64 bs) = Some bs"
  using b64_parse_complete [OF sextets_ok] by (simp add: base64_def)

lemma EncodedLength_eq:
  assumes "EVP_EncodedLength n = Some room"
  shows "(n + 2) div 3 * 4 + 1 < 2 ^ 64 \<and> room = (n + 2) div 3 * 4 + 1"
proof -
  have wrap: "a + b < 2 ^ 64" if "\<not> size_add a b < a" "b < 2 ^ 64" for a b
  proof (rule ccontr)
    assume "\<not> a + b < 2 ^ 64"
    then have "(a + b) mod 2 ^ 64 = (a + b - 2 ^ 64) mod 2 ^ 64" by (simp add: le_mod_geq)
    also have "\<dots> \<le> a + b - 2 ^ 64" by simp
    also have "\<dots> < a" using \<open>\<not> a + b < 2 ^ 64\<close> that(2) by simp
    finally show False using that(1) by (simp add: size_add_def)
  qed
  let ?k = "(n + 2) div 3"
  have 1: "n + 2 < 2 ^ 64" using assms wrap [of n 2] by (auto simp: EVP_EncodedLength_def split: if_splits)
  then have "(?k * 4 mod 2 ^ 64) div 4 = ?k"
    using assms by (auto simp: EVP_EncodedLength_def Let_def split: if_splits)
  moreover have "(x mod 2 ^ 64) div 4 < 2 ^ 62" for x :: nat
    by (simp add: div_less_iff_less_mult)
  ultimately have "?k < 2 ^ 62" by metis
  then have "?k * 4 + 1 < 2 ^ 64" by simp
  then show ?thesis using assms 1
    by (auto simp: EVP_EncodedLength_def Let_def split: if_splits)
qed

text \<open>
  C14. The base64 decoders accept exactly the texts of RFC 4648, whatever the bits below the last
  byte: EVP_DecodeBase64 a text that is digits with their padding, for which the output has room, and
  a stream of EVP_DecodeUpdate and EVP_DecodeFinal such a text with blanks anywhere, cut into chunks
  anywhere. Both return the bytes of the digits.
\<close>
theorem base64_decode_exact:
  assumes "length inp < 2 ^ 64" "list_all (\<lambda>chunk. length chunk < 2 ^ 31) chunks"
  shows "(EVP_DecodeBase64 max_out inp = (True, out, out_len) \<longleftrightarrow>
      length inp div 4 * 3 \<le> max_out \<and> out_len = length out \<and>
      (\<exists>ds. digits_ok ds \<and> inp = base64_text ds \<and> out = octets ds)) \<and>
    (decode_stream ctx chunks = Some out \<longleftrightarrow>
      (\<exists>ds. digits_ok ds \<and> visible (concat chunks) = base64_text ds \<and> out = octets ds))"
  using EVP_DecodeBase64_eq [OF assms(1)] decode_stream_eq [OF assms(2)] b64_parse_iff by auto

text \<open>
  C15. Base64 round trips. A buffer: EVP_EncodeBlock writes EVP_EncodedLength bytes with the zero at
  the end, and EVP_DecodeBase64 reads the text back. A stream: the encoder, given the data in any
  chunks, writes it in lines of 48 bytes, and the decoder, given these lines in any chunks, returns
  the data.
\<close>
theorem base64_round_trip:
  assumes "EVP_EncodedLength (length bs) = Some room" "list_all (\<lambda>chunk. length chunk < 2 ^ 30) chunks"
    "list_all (\<lambda>chunk. length chunk < 2 ^ 31) cuts" "encode_stream ctx chunks = Some (concat cuts)"
  shows "(case EVP_EncodeBlock bs of (text0, n) \<Rightarrow>
      length text0 = room \<and> last text0 = 0 \<and> n = room - 1 \<and>
      EVP_DecodeBase64 (n div 4 * 3) (take n text0) = (True, bs, length bs)) \<and>
    concat cuts = base64_lines (concat chunks) \<and> decode_stream ctx' cuts = Some (concat chunks)"
proof -
  let ?k = "(length bs + 2) div 3"
  from assms(1) have room: "?k * 4 + 1 < 2 ^ 64" "room = ?k * 4 + 1"
    using EncodedLength_eq by metis+
  have enc: "EVP_EncodeBlock bs = (base64 bs @ [0], ?k * 4)"
    using EVP_EncodeBlock_eq [of bs] room(1) by (simp add: length_base64)
  have dec: "EVP_DecodeBase64 (?k * 4 div 4 * 3) (base64 bs) = (True, bs, length bs)"
    using EVP_DecodeBase64_eq [of "base64 bs"] room(1) by (simp add: length_base64 parse_base64)
  have lines: "concat cuts = base64_lines (concat chunks)"
    using encode_stream_eq [OF assms(2)] assms(4) by simp
  have "decode_stream ctx' cuts = Some (concat chunks)"
    using decode_stream_eq [OF assms(3)] by (simp add: lines visible_lines parse_base64)
  then show ?thesis unfolding enc using room(2) dec lines by (simp add: length_base64)
qed

lemma sample_encode:
  "encode_stream cleared_ctx [[0x66, 0x6F], [0x6F, 0x62]] = Some [0x5A, 0x6D, 0x39, 0x76, 0x59, 0x67, 0x3D, 0x3D, 0x0A]"
proof -
  have "base64 [0x66, 0x6F, 0x6F, 0x62] = [0x5A, 0x6D, 0x39, 0x76, 0x59, 0x67, 0x3D, 0x3D]"
  proof -
    have "sextets [0x66, 0x6F, 0x6F, 0x62] = [25, 38, 61, 47, 24, 32]" by (simp add: quad_def take_quad)
    moreover have "base64_text [25, 38, 61, 47, 24, 32] = [0x5A, 0x6D, 0x39, 0x76, 0x59, 0x67, 0x3D, 0x3D]"
      by code_simp
    ultimately show ?thesis by (simp only: base64_def)
  qed
  then have "base64_lines (concat [[0x66, 0x6F], [0x6F, 0x62]]) = [0x5A, 0x6D, 0x39, 0x76, 0x59, 0x67, 0x3D, 0x3D, 0x0A]"
    by (simp add: base64_lines_def short_lines)
  then show ?thesis using encode_stream_eq [of "[[0x66, 0x6F], [0x6F, 0x62]]" cleared_ctx] by simp
qed

lemma base64_round_trip_witness:
  "EVP_EncodedLength (length [0x66 :: u8, 0x6F]) = Some 5 \<and>
   decode_stream cleared_ctx [[0x5A], [0x6D, 0x39, 0x76, 0x59, 0x67, 0x3D], [0x3D, 0x0A]] =
     Some [0x66, 0x6F, 0x6F, 0x62]"
proof -
  have room: "EVP_EncodedLength (length [0x66 :: u8, 0x6F]) = Some 5"
    by (simp add: EVP_EncodedLength_def)
  have "decode_stream cleared_ctx [[0x5A], [0x6D, 0x39, 0x76, 0x59, 0x67, 0x3D], [0x3D, 0x0A]] =
      Some (concat [[0x66, 0x6F], [0x6F, 0x62]])"
    using base64_round_trip [OF room, of "[[0x66, 0x6F], [0x6F, 0x62]]"
        "[[0x5A], [0x6D, 0x39, 0x76, 0x59, 0x67, 0x3D], [0x3D, 0x0A]]" cleared_ctx cleared_ctx] sample_encode
    by simp
  with room show ?thesis by simp
qed

lemma base64_decode_exact_witness:
  "EVP_DecodeBase64 3 [0x5A, 0x68, 0x3D, 0x3D] = (True, [0x66], 1) \<and>
   decode_stream cleared_ctx [[0x5A, 0x20], [0x68, 0x3D, 0x3D]] = Some [0x66]"
proof -
  have sample: "digits_ok [25, 33]" "[0x5A, 0x68, 0x3D, 0x3D] = base64_text [25, 33]" "[0x66] = octets [25, 33]"
  proof -
    show "digits_ok [25, 33]" by (simp add: digits_ok_def)
    show "[0x5A, 0x68, 0x3D, 0x3D] = base64_text [25, 33]" by code_simp
    have "unquad 25 33 0 0 = be_nat [0x66, 0x10, 0]" by (simp add: unquad_def)
    then show "[0x66] = octets [25, 33]" by (simp only: octets.simps be_bytes_be_nat3) simp
  qed
  have vis: "visible (concat [[0x5A, 0x20], [0x68, 0x3D, 0x3D]]) = base64_text [25, 33]"
    unfolding sample(2) [symmetric] by (simp add: visible_def is_blank_def)
  have room: "length [0x5A :: u8, 0x68, 0x3D, 0x3D] div 4 * 3 \<le> 3" "1 = length [0x66 :: u8]" by simp_all
  have pre: "length [0x5A :: u8, 0x68, 0x3D, 0x3D] < 2 ^ 64"
    "list_all (\<lambda>chunk. length chunk < 2 ^ 31) [[0x5A :: u8, 0x20], [0x68, 0x3D, 0x3D]]" by simp_all
  note exact = base64_decode_exact [OF pre, of 3 "[0x66]" 1 cleared_ctx]
  have "EVP_DecodeBase64 3 [0x5A, 0x68, 0x3D, 0x3D] = (True, [0x66], 1)"
    by (rule exact [THEN conjunct1, THEN iffD2]) (intro conjI exI [of _ "[25, 33]"] room sample)
  moreover have "decode_stream cleared_ctx [[0x5A, 0x20], [0x68, 0x3D, 0x3D]] = Some [0x66]"
    by (rule exact [THEN conjunct2, THEN iffD2]) (intro conjI exI [of _ "[25, 33]"] vis sample)
  ultimately show ?thesis by (rule conjI)
qed

end
