(* ===== verification/Lhash.thy ===== *)
theory Lhash
  imports Codec_Prelude "HOL-Library.Multiset"
begin

text \<open>
  BoringSSL crypto/lhash/lhash.c, hash tables with chains. A chain is the list of its items; a
  pointer into a chain (get_next_ptr_and_hash) is the number of the bucket and the position in the
  chain, which is the length of the chain where the pointer found is NULL. Data is of any type; the
  hash and comparison functions of the table are parameters, as the two helper arguments of the
  functions are. A request to the allocator is a flag: whether it is served.
\<close>

unbundle bit_operations_syntax

record 'a LHASH_ITEM =
  item_data :: 'a
  item_hash :: u32

record 'a LHASH =
  num_items :: nat
  buckets :: "'a LHASH_ITEM list list"
  num_buckets :: nat
  callback_depth :: u32

definition kMinNumBuckets :: nat where "kMinNumBuckets = 16"
definition kMaxAverageChainLength :: nat where "kMaxAverageChainLength = 2"
definition kMinAverageChainLength :: nat where "kMinAverageChainLength = 1"

definition OPENSSL_lh_new :: "bool \<Rightarrow> bool \<Rightarrow> 'a LHASH option" where
  "OPENSSL_lh_new served buckets_served =
     (if \<not> served then None
      else if \<not> buckets_served then None
      else Some \<lparr>num_items = 0, buckets = replicate kMinNumBuckets [], num_buckets = kMinNumBuckets,
                 callback_depth = 0\<rparr>)"

text \<open>The items released, in their order; the table itself goes with them.\<close>

definition OPENSSL_lh_free :: "'a LHASH option \<Rightarrow> 'a LHASH_ITEM list" where
  "OPENSSL_lh_free lh = (case lh of None \<Rightarrow> [] | Some lh \<Rightarrow> concat (buckets lh))"

definition OPENSSL_lh_num_items :: "'a LHASH \<Rightarrow> nat" where
  "OPENSSL_lh_num_items lh = num_items lh"

text \<open>The walk along a chain to the first item that compares equal.\<close>

fun chain_walk :: "('a \<Rightarrow> bool) \<Rightarrow> 'a LHASH_ITEM list \<Rightarrow> nat" where
  "chain_walk is_equal [] = 0"
| "chain_walk is_equal (cur # chain) = (if is_equal (item_data cur) then 0 else Suc (chain_walk is_equal chain))"

definition get_next_ptr_and_hash ::
  "('a \<Rightarrow> u32) \<Rightarrow> ('a \<Rightarrow> 'a \<Rightarrow> int) \<Rightarrow> 'a LHASH \<Rightarrow> 'a \<Rightarrow> u32 \<times> nat \<times> nat" where
  "get_next_ptr_and_hash hash cmp lh x =
     (let h = hash x; b = unat h mod num_buckets lh
      in (h, b, chain_walk (\<lambda>y. cmp y x = 0) (buckets lh ! b)))"

definition get_next_ptr_by_key :: "'a LHASH \<Rightarrow> 'k \<Rightarrow> u32 \<Rightarrow> ('k \<Rightarrow> 'a \<Rightarrow> int) \<Rightarrow> nat \<times> nat" where
  "get_next_ptr_by_key lh k key_hash cmp_key =
     (let b = unat key_hash mod num_buckets lh
      in (b, chain_walk (\<lambda>y. cmp_key k y = 0) (buckets lh ! b)))"

text \<open>The data an item pointer leads to, or None where it is NULL.\<close>

definition item_at :: "'a LHASH \<Rightarrow> nat \<Rightarrow> nat \<Rightarrow> 'a option" where
  "item_at lh b i = (if i < length (buckets lh ! b) then Some (item_data (buckets lh ! b ! i)) else None)"

definition OPENSSL_lh_retrieve ::
  "('a \<Rightarrow> u32) \<Rightarrow> ('a \<Rightarrow> 'a \<Rightarrow> int) \<Rightarrow> 'a LHASH \<Rightarrow> 'a \<Rightarrow> 'a option" where
  "OPENSSL_lh_retrieve hash cmp lh x =
     (case get_next_ptr_and_hash hash cmp lh x of (h, b, i) \<Rightarrow> item_at lh b i)"

definition OPENSSL_lh_retrieve_key :: "'a LHASH \<Rightarrow> 'k \<Rightarrow> u32 \<Rightarrow> ('k \<Rightarrow> 'a \<Rightarrow> int) \<Rightarrow> 'a option" where
  "OPENSSL_lh_retrieve_key lh k key_hash cmp_key =
     (case get_next_ptr_by_key lh k key_hash cmp_key of (b, i) \<Rightarrow> item_at lh b i)"

text \<open>Each item goes to the front of its new chain.\<close>

definition move_item :: "nat \<Rightarrow> 'a LHASH_ITEM list list \<Rightarrow> 'a LHASH_ITEM \<Rightarrow> 'a LHASH_ITEM list list" where
  "move_item new_num_buckets new_buckets cur =
     (let new_bucket = unat (item_hash cur) mod new_num_buckets
      in new_buckets[new_bucket := cur # new_buckets ! new_bucket])"

definition lh_rebucket :: "bool \<Rightarrow> 'a LHASH \<Rightarrow> nat \<Rightarrow> 'a LHASH" where
  "lh_rebucket served lh new_num_buckets =
     (let alloc_size = (8 * new_num_buckets) mod 2 ^ 64
      in if alloc_size div 8 \<noteq> new_num_buckets then lh
         else if \<not> served then lh
         else lh\<lparr>num_buckets := new_num_buckets,
                 buckets := foldl (\<lambda>bs chain. foldl (move_item new_num_buckets) bs chain)
                   (replicate new_num_buckets []) (buckets lh)\<rparr>)"

text \<open>None where the assertion fails.\<close>

definition lh_maybe_resize :: "bool \<Rightarrow> 'a LHASH \<Rightarrow> 'a LHASH option" where
  "lh_maybe_resize served lh =
     (if 0 < callback_depth lh then Some lh
      else if \<not> kMinNumBuckets \<le> num_buckets lh then None
      else
        (let avg_chain_length = num_items lh div num_buckets lh
         in if kMaxAverageChainLength < avg_chain_length then
              (let new_num_buckets = (num_buckets lh * 2) mod 2 ^ 64
               in Some (if num_buckets lh < new_num_buckets then lh_rebucket served lh new_num_buckets else lh))
            else if avg_chain_length < kMinAverageChainLength \<and> kMinNumBuckets < num_buckets lh then
              (let new_num_buckets = num_buckets lh div 2;
                   new_num_buckets = (if new_num_buckets < kMinNumBuckets then kMinNumBuckets else new_num_buckets)
               in Some (lh_rebucket served lh new_num_buckets))
            else Some lh))"

text \<open>The result: the return value, \<open>*old_data\<close> and the table.\<close>

definition OPENSSL_lh_insert ::
  "('a \<Rightarrow> u32) \<Rightarrow> ('a \<Rightarrow> 'a \<Rightarrow> int) \<Rightarrow> bool \<Rightarrow> bool \<Rightarrow> 'a LHASH \<Rightarrow> 'a \<Rightarrow> (bool \<times> 'a option \<times> 'a LHASH) option" where
  "OPENSSL_lh_insert hash cmp item_served buckets_served lh x =
     (case get_next_ptr_and_hash hash cmp lh x of
        (h, b, i) \<Rightarrow>
          (case item_at lh b i of
             Some old \<Rightarrow>
               Some (True, Some old,
                 lh\<lparr>buckets := (buckets lh)[b := (buckets lh ! b)[i := (buckets lh ! b ! i)\<lparr>item_data := x\<rparr>]]\<rparr>)
           | None \<Rightarrow>
               if \<not> item_served then Some (False, None, lh)
               else
                 (let lh = lh\<lparr>buckets := (buckets lh)[b := buckets lh ! b @ [\<lparr>item_data = x, item_hash = h\<rparr>]],
                              num_items := size_add (num_items lh) 1\<rparr>
                  in map_option (\<lambda>lh. (True, None, lh)) (lh_maybe_resize buckets_served lh))))"

definition OPENSSL_lh_delete ::
  "('a \<Rightarrow> u32) \<Rightarrow> ('a \<Rightarrow> 'a \<Rightarrow> int) \<Rightarrow> bool \<Rightarrow> 'a LHASH \<Rightarrow> 'a \<Rightarrow> ('a option \<times> 'a LHASH) option" where
  "OPENSSL_lh_delete hash cmp buckets_served lh x =
     (case get_next_ptr_and_hash hash cmp lh x of
        (h, b, i) \<Rightarrow>
          (case item_at lh b i of
             None \<Rightarrow> Some (None, lh)
           | Some ret \<Rightarrow>
               (let lh = lh\<lparr>buckets := (buckets lh)[b := take i (buckets lh ! b) @ drop (Suc i) (buckets lh ! b)],
                            num_items := size_sub (num_items lh) 1\<rparr>
                in map_option (\<lambda>lh. (Some ret, lh)) (lh_maybe_resize buckets_served lh))))"

text \<open>
  The callback runs over its argument, \<open>arg\<close>; a callback that itself calls the table is not covered.
\<close>

definition OPENSSL_lh_doall_arg ::
  "('a \<Rightarrow> 's \<Rightarrow> 's) \<Rightarrow> bool \<Rightarrow> 'a LHASH \<Rightarrow> 's \<Rightarrow> ('s \<times> 'a LHASH) option" where
  "OPENSSL_lh_doall_arg func buckets_served lh arg =
     (let lh = (if callback_depth lh < 0xFFFFFFFF then lh\<lparr>callback_depth := callback_depth lh + 1\<rparr> else lh);
          arg = foldl (\<lambda>arg chain. foldl (\<lambda>arg cur. func (item_data cur) arg) arg chain) arg (buckets lh);
          lh = (if callback_depth lh < 0xFFFFFFFF then lh\<lparr>callback_depth := callback_depth lh - 1\<rparr> else lh)
      in map_option (\<lambda>lh. (arg, lh)) (lh_maybe_resize buckets_served lh))"

subsection \<open>The table as a map\<close>

text \<open>
  What the hash and comparison functions promise: items compare equal when they have the same key,
  and then they have the same hash.
\<close>

locale hashed =
  fixes hash :: "'a \<Rightarrow> u32" and cmp :: "'a \<Rightarrow> 'a \<Rightarrow> int" and key :: "'a \<Rightarrow> 'k"
  assumes cmp_zero: "cmp x y = 0 \<longleftrightarrow> key x = key y"
    and hash_key: "key x = key y \<Longrightarrow> hash x = hash y"

definition lh_items :: "'a LHASH \<Rightarrow> 'a list" where
  "lh_items lh = map item_data (concat (buckets lh))"

definition items_map :: "('a \<Rightarrow> 'k) \<Rightarrow> 'a list \<Rightarrow> 'k \<rightharpoonup> 'a" where
  "items_map key xs = map_of (map (\<lambda>x. (key x, x)) xs)"

definition lh_map :: "('a \<Rightarrow> 'k) \<Rightarrow> 'a LHASH \<Rightarrow> 'k \<rightharpoonup> 'a" where
  "lh_map key lh = items_map key (lh_items lh)"

text \<open>An item in bucket b.\<close>

definition sits :: "('a \<Rightarrow> u32) \<Rightarrow> nat \<Rightarrow> nat \<Rightarrow> 'a LHASH_ITEM \<Rightarrow> bool" where
  "sits hash n b item \<longleftrightarrow> item_hash item = hash (item_data item) \<and> unat (item_hash item) mod n = b"

definition chains_ok :: "('a \<Rightarrow> u32) \<Rightarrow> nat \<Rightarrow> 'a LHASH_ITEM list list \<Rightarrow> bool" where
  "chains_ok hash n bs \<longleftrightarrow> length bs = n \<and> (\<forall>b < n. \<forall>item \<in> set (bs ! b). sits hash n b item)"

definition wf_lhash :: "('a \<Rightarrow> u32) \<Rightarrow> ('a \<Rightarrow> 'k) \<Rightarrow> 'a LHASH \<Rightarrow> bool" where
  "wf_lhash hash key lh \<longleftrightarrow>
     chains_ok hash (num_buckets lh) (buckets lh) \<and> kMinNumBuckets \<le> num_buckets lh \<and> num_buckets lh < 2 ^ 64 \<and>
     num_items lh = length (lh_items lh) \<and> distinct (map key (lh_items lh))"

subsection \<open>Chains\<close>

lemma mset_concat_update:
  "b < length bs \<Longrightarrow> mset (concat (bs[b := c])) + mset (bs ! b) = mset (concat bs) + mset c"
  by (simp add: upd_conv_take_nth_drop) (subst (2) id_take_nth_drop, assumption, simp)

lemma chain_walk_le: "chain_walk P chain \<le> length chain"
  by (induction chain) auto

lemma chain_walk_find: "chain_walk P chain < length chain \<longleftrightarrow> (\<exists>item\<in>set chain. P (item_data item))"
  by (induction chain) auto

lemma chain_walk_match: "chain_walk P chain < length chain \<Longrightarrow> P (item_data (chain ! chain_walk P chain))"
  by (induction chain) auto

lemma chains_ok_update:
  "chains_ok hash n bs \<Longrightarrow> b < n \<Longrightarrow> \<forall>item\<in>set c. sits hash n b item \<Longrightarrow> chains_ok hash n (bs[b := c])"
  by (auto simp: chains_ok_def nth_list_update)

lemma chains_ok_item:
  assumes "chains_ok hash n bs" "item \<in> set (concat bs)"
  shows "\<exists>b < n. item \<in> set (bs ! b) \<and> sits hash n b item"
proof -
  from assms(2) obtain chain where "chain \<in> set bs" "item \<in> set chain" by auto
  then obtain b where "b < n" "item \<in> set (bs ! b)"
    using assms(1) by (auto simp: chains_ok_def in_set_conv_nth)
  with assms(1) show ?thesis by (auto simp: chains_ok_def)
qed

lemma chains_ok_bucket: "chains_ok hash n bs \<Longrightarrow> b < n \<Longrightarrow> item \<in> set (bs ! b) \<Longrightarrow> sits hash n b item"
  by (simp add: chains_ok_def)

lemma move_item_ok:
  assumes "chains_ok hash n bs" "0 < n" "item_hash cur = hash (item_data cur)"
  shows "chains_ok hash n (move_item n bs cur) \<and> mset (concat (move_item n bs cur)) = add_mset cur (mset (concat bs))"
proof -
  let ?b = "unat (item_hash cur) mod n"
  have b: "?b < n" using assms(2) by simp
  have "sits hash n ?b cur" unfolding sits_def using assms(3) by (intro conjI refl)
  then have "\<forall>item\<in>set (cur # bs ! ?b). sits hash n ?b item"
    using chains_ok_bucket [OF assms(1) b] by (auto simp del: ball_simps)
  then have "chains_ok hash n (move_item n bs cur)"
    unfolding move_item_def Let_def by (rule chains_ok_update [OF assms(1) b])
  moreover have "mset (concat (move_item n bs cur)) = add_mset cur (mset (concat bs))"
    using mset_concat_update [of ?b bs "cur # bs ! ?b"] b assms(1) by (simp add: move_item_def Let_def chains_ok_def)
  ultimately show ?thesis by blast
qed

lemma move_items_ok:
  assumes "0 < n" "\<forall>item\<in>set items. item_hash item = hash (item_data item)" "chains_ok hash n bs"
  shows "chains_ok hash n (foldl (move_item n) bs items) \<and>
    mset (concat (foldl (move_item n) bs items)) = mset items + mset (concat bs)"
  using assms(2,3)
proof (induction items arbitrary: bs)
  case (Cons cur items)
  then show ?case using move_item_ok [OF Cons.prems(2) assms(1), of cur] by simp
qed simp

lemma foldl_concat: "foldl (foldl f) a xss = foldl f a (concat xss)"
  by (induction xss arbitrary: a) simp_all

lemma chains_ok_empty: "chains_ok hash n (replicate n [])"
  by (simp add: chains_ok_def)

text \<open>The map does not depend on the order of the items.\<close>

lemma items_map_Some:
  "distinct (map key xs) \<Longrightarrow> items_map key xs k = Some x \<longleftrightarrow> x \<in> set xs \<and> key x = k"
proof -
  assume "distinct (map key xs)"
  then have "distinct (map fst (map (\<lambda>x. (key x, x)) xs))" by (simp add: o_def)
  then show ?thesis by (auto simp: items_map_def map_of_eq_Some_iff)
qed

lemma items_map_None: "items_map key xs k = None \<longleftrightarrow> (\<forall>x\<in>set xs. key x \<noteq> k)"
  by (auto simp: items_map_def map_of_eq_None_iff image_image)

lemma items_map_mset:
  assumes "mset ys = mset xs" "distinct (map key xs)"
  shows "items_map key ys = items_map key xs \<and> distinct (map key ys) \<and> length ys = length xs"
proof -
  have "mset (map key ys) = mset (map key xs)" using assms(1) by simp
  then have dist: "distinct (map key ys)" using assms(2) by (metis mset_eq_imp_distinct_iff)
  have "set ys = set xs" using assms(1) by (metis set_mset_mset)
  then have "items_map key ys k = Some x \<longleftrightarrow> items_map key xs k = Some x" for k x
    using items_map_Some [OF dist] items_map_Some [OF assms(2)] by simp
  then have "items_map key ys = items_map key xs" by (metis not_None_eq ext)
  with dist show ?thesis using assms(1) by (metis size_mset)
qed

lemma items_map_add:
  assumes "mset ys = add_mset x (mset xs)" "distinct (map key xs)" "items_map key xs (key x) = None"
  shows "items_map key ys = (items_map key xs)(key x \<mapsto> x) \<and> distinct (map key ys) \<and> length ys = Suc (length xs)"
proof -
  have "distinct (map key (x # xs))" using assms(2,3) by (auto simp: items_map_None)
  then have "items_map key ys = items_map key (x # xs) \<and> distinct (map key ys) \<and> length ys = length (x # xs)"
    by (intro items_map_mset) (simp add: assms(1))
  then show ?thesis by (simp add: items_map_def)
qed

lemma items_map_remove:
  assumes "mset xs = add_mset x (mset ys)" "distinct (map key xs)"
  shows "items_map key ys = (items_map key xs)(key x := None) \<and> distinct (map key ys) \<and> length xs = Suc (length ys)"
proof -
  have "items_map key (x # ys) = items_map key xs \<and> distinct (map key (x # ys)) \<and> length (x # ys) = length xs"
    using assms by (intro items_map_mset) simp_all
  moreover from this have "items_map key ys (key x) = None" by (auto simp: items_map_None) (metis image_eqI)
  moreover have "items_map key (x # ys) = (items_map key ys)(key x \<mapsto> x)" by (simp add: items_map_def)
  ultimately show ?thesis by (metis fun_upd_upd fun_upd_triv distinct.simps(2) length_Cons list.map(2))
qed

lemma items_map_replace:
  assumes "mset xs = add_mset old zs" "mset ys = add_mset x zs" "distinct (map key xs)" "key x = key old"
  shows "items_map key ys = (items_map key xs)(key x \<mapsto> x) \<and> distinct (map key ys) \<and> length ys = length xs"
proof -
  obtain ws where ws: "mset ws = zs" using ex_mset by blast
  have less: "items_map key ws = (items_map key xs)(key old := None) \<and> distinct (map key ws) \<and> length xs = Suc (length ws)"
    using assms ws by (intro items_map_remove) simp_all
  then have "items_map key ys = (items_map key ws)(key x \<mapsto> x) \<and> distinct (map key ys) \<and> length ys = Suc (length ws)"
    using assms ws by (intro items_map_add) simp_all
  with less assms(4) show ?thesis by simp
qed

lemma lh_map_Some:
  "distinct (map key (lh_items lh)) \<Longrightarrow> lh_map key lh k = Some x \<longleftrightarrow> x \<in> set (lh_items lh) \<and> key x = k"
  unfolding lh_map_def by (rule items_map_Some)

lemma lh_map_None: "lh_map key lh k = None \<longleftrightarrow> (\<forall>x\<in>set (lh_items lh). key x \<noteq> k)"
  unfolding lh_map_def by (rule items_map_None)

lemma mset_lh_items: "mset (lh_items lh) = image_mset item_data (mset (concat (buckets lh)))"
  by (simp only: lh_items_def mset_map)

subsection \<open>Resizing\<close>

lemma lh_rebucket_ok:
  assumes "wf_lhash hash key lh" "kMinNumBuckets \<le> n" "n < 2 ^ 64"
  shows "wf_lhash hash key (lh_rebucket served lh n) \<and> lh_map key (lh_rebucket served lh n) = lh_map key lh \<and>
    num_items (lh_rebucket served lh n) = num_items lh \<and> callback_depth (lh_rebucket served lh n) = callback_depth lh"
proof (cases "(8 * n) mod 2 ^ 64 div 8 \<noteq> n \<or> \<not> served")
  case True
  then have "lh_rebucket served lh n = lh" by (auto simp: lh_rebucket_def Let_def)
  with assms(1) show ?thesis by simp
next
  case False
  let ?bs = "foldl (move_item n) (replicate n []) (concat (buckets lh))"
  let ?lh = "lh\<lparr>num_buckets := n, buckets := ?bs\<rparr>"
  have lh: "lh_rebucket served lh n = ?lh" using False by (simp add: lh_rebucket_def Let_def foldl_concat)
  have n: "0 < n" using assms(2) by (simp add: kMinNumBuckets_def)
  have "\<forall>item\<in>set (concat (buckets lh)). item_hash item = hash (item_data item)"
    using assms(1) chains_ok_item by (fastforce simp: wf_lhash_def sits_def)
  from move_items_ok [OF n this chains_ok_empty]
  have ok: "chains_ok hash n ?bs" "mset (concat ?bs) = mset (concat (buckets lh))" by simp_all
  have "mset (lh_items ?lh) = mset (lh_items lh)" using ok(2) by (simp add: mset_lh_items del: mset_concat)
  then have "lh_map key ?lh = lh_map key lh \<and> distinct (map key (lh_items ?lh)) \<and>
      length (lh_items ?lh) = length (lh_items lh)"
    using assms(1) unfolding lh_map_def by (intro items_map_mset) (simp_all add: wf_lhash_def)
  then show ?thesis unfolding lh using ok(1) assms by (simp add: wf_lhash_def)
qed

lemma lh_maybe_resize_ok:
  assumes "wf_lhash hash key lh"
  shows "\<exists>lh'. lh_maybe_resize served lh = Some lh' \<and> wf_lhash hash key lh' \<and> lh_map key lh' = lh_map key lh \<and>
    num_items lh' = num_items lh \<and> callback_depth lh' = callback_depth lh"
proof -
  have n: "kMinNumBuckets \<le> num_buckets lh" "num_buckets lh < 2 ^ 64" using assms by (simp_all add: wf_lhash_def)
  let ?up = "(num_buckets lh * 2) mod 2 ^ 64"
  let ?down = "if num_buckets lh div 2 < kMinNumBuckets then kMinNumBuckets else num_buckets lh div 2"
  have up: "num_buckets lh < ?up \<Longrightarrow> kMinNumBuckets \<le> ?up" "?up < 2 ^ 64" using n(1) by simp_all
  have down: "kMinNumBuckets \<le> ?down" "?down < 2 ^ 64"
    using n(2) by (auto simp: kMinNumBuckets_def)
  show ?thesis
    unfolding lh_maybe_resize_def Let_def
    using n(1) assms lh_rebucket_ok [OF assms up] lh_rebucket_ok [OF assms down]
    by (simp split: if_splits)
qed

subsection \<open>Lookup and update\<close>

context hashed begin

lemma walk_found:
  assumes "wf_lhash hash key lh" "get_next_ptr_and_hash hash cmp lh x = (h, b, i)"
  shows "item_at lh b i = lh_map key lh (key x)" "h = hash x" "b < num_buckets lh"
    "b = unat (hash x) mod num_buckets lh" "lh_map key lh (key x) \<noteq> None \<longleftrightarrow> i < length (buckets lh ! b)"
    "lh_map key lh (key x) = None \<Longrightarrow> i = length (buckets lh ! b)"
proof -
  have wf: "chains_ok hash (num_buckets lh) (buckets lh)" "0 < num_buckets lh" "distinct (map key (lh_items lh))"
    using assms(1) by (auto simp: wf_lhash_def kMinNumBuckets_def)
  have eqs: "h = hash x" "b = unat (hash x) mod num_buckets lh"
    "i = chain_walk (\<lambda>y. key y = key x) (buckets lh ! b)"
    using assms(2) by (auto simp: get_next_ptr_and_hash_def Let_def cmp_zero)
  show "h = hash x" "b = unat (hash x) mod num_buckets lh" by (rule eqs)+
  show b: "b < num_buckets lh" using wf(2) by (simp add: eqs(2))
  have in_items: "item \<in> set (buckets lh ! b) \<Longrightarrow> item_data item \<in> set (lh_items lh)" for item
  proof -
    assume "item \<in> set (buckets lh ! b)"
    moreover have "buckets lh ! b \<in> set (buckets lh)" using wf(1) b by (intro nth_mem) (simp add: chains_ok_def)
    ultimately have "item \<in> set (concat (buckets lh))" by auto
    then show ?thesis unfolding lh_items_def set_map by (rule imageI)
  qed
  have in_bucket: "\<exists>item\<in>set (buckets lh ! b). item_data item = y"
    if "y \<in> set (lh_items lh)" "key y = key x" for y
  proof -
    from that(1) obtain item where "item \<in> set (concat (buckets lh))" "item_data item = y"
      by (auto simp: lh_items_def)
    then obtain b' where "item \<in> set (buckets lh ! b')" "sits hash (num_buckets lh) b' item" "item_data item = y"
      using chains_ok_item [OF wf(1)] by blast
    moreover from this have "b' = b" using hash_key [OF that(2)] eqs(2) by (auto simp: sits_def)
    ultimately show ?thesis by blast
  qed
  have found: "i < length (buckets lh ! b) \<longleftrightarrow> (\<exists>y\<in>set (lh_items lh). key y = key x)"
    unfolding eqs(3) chain_walk_find using in_items in_bucket by blast
  then show "lh_map key lh (key x) \<noteq> None \<longleftrightarrow> i < length (buckets lh ! b)"
    using lh_map_None [of key lh "key x"] by auto
  show "lh_map key lh (key x) = None \<Longrightarrow> i = length (buckets lh ! b)"
    using found lh_map_None [of key lh "key x"] chain_walk_le [of "\<lambda>y. key y = key x" "buckets lh ! b"] eqs(3)
    by auto
  show "item_at lh b i = lh_map key lh (key x)"
  proof (cases "i < length (buckets lh ! b)")
    case True
    then have "key (item_data (buckets lh ! b ! i)) = key x"
      using chain_walk_match [of "\<lambda>y. key y = key x" "buckets lh ! b"] eqs(3) by simp
    then have "lh_map key lh (key x) = Some (item_data (buckets lh ! b ! i))"
      using lh_map_Some [OF wf(3)] in_items [OF nth_mem [OF True]] by simp
    with True show ?thesis by (simp add: item_at_def)
  next
    case False
    with found have "lh_map key lh (key x) = None" using lh_map_None [of key lh "key x"] by blast
    with False show ?thesis by (simp add: item_at_def)
  qed
qed

lemma retrieve_eq: "wf_lhash hash key lh \<Longrightarrow> OPENSSL_lh_retrieve hash cmp lh x = lh_map key lh (key x)"
  using walk_found(1) [of lh x] by (auto simp: OPENSSL_lh_retrieve_def split: prod.splits)

text \<open>A lookup by a key that compares and hashes like the items.\<close>

lemma retrieve_key_eq:
  assumes "wf_lhash hash key lh" "key_hash = hash x" "\<And>y. cmp_key k y = 0 \<longleftrightarrow> key y = key x"
  shows "OPENSSL_lh_retrieve_key lh k key_hash cmp_key = lh_map key lh (key x)"
proof -
  have "get_next_ptr_by_key lh k key_hash cmp_key = snd (get_next_ptr_and_hash hash cmp lh x)"
    by (simp add: get_next_ptr_by_key_def get_next_ptr_and_hash_def Let_def assms(2,3) cmp_zero)
  then show ?thesis
    using retrieve_eq [OF assms(1), of x]
    by (auto simp: OPENSSL_lh_retrieve_key_def OPENSSL_lh_retrieve_def split: prod.splits)
qed

end

text \<open>One bucket changes.\<close>

lemma mset_bucket_changed:
  "b < length (buckets lh) \<Longrightarrow>
   mset (lh_items (lh\<lparr>buckets := (buckets lh)[b := c]\<rparr>)) + mset (map item_data (buckets lh ! b)) =
   mset (lh_items lh) + mset (map item_data c)"
proof -
  assume "b < length (buckets lh)"
  from arg_cong [OF mset_concat_update [OF this, of c], of "image_mset item_data"]
  show ?thesis by (simp add: lh_items_def)
qed

lemma lh_items_num [simp]: "lh_items (lh\<lparr>num_items := n\<rparr>) = lh_items lh"
  by (simp add: lh_items_def)

lemma wf_bucket_changed:
  assumes "wf_lhash hash key lh" "b < num_buckets lh" "\<forall>item\<in>set c. sits hash (num_buckets lh) b item"
    "distinct (map key (lh_items (lh\<lparr>buckets := (buckets lh)[b := c]\<rparr>)))"
    "n = length (lh_items (lh\<lparr>buckets := (buckets lh)[b := c]\<rparr>))"
  shows "wf_lhash hash key (lh\<lparr>buckets := (buckets lh)[b := c], num_items := n\<rparr>)"
  using assms chains_ok_update [OF _ assms(2,3)] by (simp add: wf_lhash_def)

subsection \<open>Insertion, removal and iteration\<close>

context hashed begin

lemma insert_eq:
  assumes wf: "wf_lhash hash key lh" and room: "num_items lh + 1 < 2 ^ 64"
  shows "\<exists>lh'. OPENSSL_lh_insert hash cmp item_served buckets_served lh x =
      Some (lh_map key lh (key x) \<noteq> None \<or> item_served, lh_map key lh (key x), lh') \<and>
    wf_lhash hash key lh' \<and> callback_depth lh' = callback_depth lh \<and>
    lh_map key lh' = (if lh_map key lh (key x) \<noteq> None \<or> item_served then (lh_map key lh)(key x \<mapsto> x) else lh_map key lh) \<and>
    num_items lh' \<le> num_items lh + 1"
proof -
  obtain h b i where ptr: "get_next_ptr_and_hash hash cmp lh x = (h, b, i)"
    by (cases "get_next_ptr_and_hash hash cmp lh x") auto
  note found = walk_found [OF wf ptr]
  have chains: "chains_ok hash (num_buckets lh) (buckets lh)" "b < length (buckets lh)"
    and dist: "distinct (map key (lh_items lh))" and num: "num_items lh = length (lh_items lh)"
    using wf found(3) by (auto simp: wf_lhash_def chains_ok_def)
  note mset = mset_bucket_changed [OF chains(2)]
  show ?thesis
  proof (cases "lh_map key lh (key x)")
    case (Some old)
    then have i: "i < length (buckets lh ! b)" using found(5) by simp
    let ?c = "(buckets lh ! b)[i := (buckets lh ! b ! i)\<lparr>item_data := x\<rparr>]"
    let ?lh = "lh\<lparr>buckets := (buckets lh)[b := ?c]\<rparr>"
    have old: "item_data (buckets lh ! b ! i) = old" "key old = key x"
      using found(1) i Some lh_map_Some [OF dist] by (auto simp: item_at_def)
    have sits: "\<forall>item\<in>set ?c. sits hash (num_buckets lh) b item"
    proof
      fix item assume "item \<in> set ?c"
      then consider "item \<in> set (buckets lh ! b)" | "item = (buckets lh ! b ! i)\<lparr>item_data := x\<rparr>"
        using set_update_subset_insert by fast
      then show "sits hash (num_buckets lh) b item"
      proof cases
        case 1
        then show ?thesis by (rule chains_ok_bucket [OF chains(1) found(3)])
      next
        case 2
        have "sits hash (num_buckets lh) b (buckets lh ! b ! i)"
          by (rule chains_ok_bucket [OF chains(1) found(3) nth_mem [OF i]])
        then show ?thesis using hash_key [OF old(2)] old(1) unfolding sits_def 2 by (auto simp: found(4))
      qed
    qed
    have "mset (map item_data (buckets lh ! b)) = add_mset old (mset (map item_data (take i (buckets lh ! b) @ drop (Suc i) (buckets lh ! b))))"
      by (subst id_take_nth_drop [OF i]) (simp add: old(1))
    moreover have "mset (map item_data ?c) = add_mset x (mset (map item_data (take i (buckets lh ! b) @ drop (Suc i) (buckets lh ! b))))"
      using i by (simp add: upd_conv_take_nth_drop)
    ultimately have swap: "add_mset old (mset (lh_items ?lh)) = add_mset x (mset (lh_items lh))"
      using mset [of ?c] by simp
    have "old \<in># mset (lh_items lh)" using Some lh_map_Some [OF dist] by simp
    then obtain zs where zs: "mset (lh_items lh) = add_mset old zs" by (blast dest: multi_member_split)
    then have "add_mset old (mset (lh_items ?lh)) = add_mset old (add_mset x zs)"
      using swap by (simp only: add_mset_commute)
    then have zs': "mset (lh_items ?lh) = add_mset x zs" by (simp only: add_mset_add_mset_same_iff)
    have "lh_map key ?lh = (lh_map key lh)(key x \<mapsto> x) \<and> distinct (map key (lh_items ?lh)) \<and>
        length (lh_items ?lh) = length (lh_items lh)"
      unfolding lh_map_def by (rule items_map_replace [OF zs zs' dist old(2) [symmetric]])
    moreover from this have "wf_lhash hash key (lh\<lparr>buckets := (buckets lh)[b := ?c], num_items := num_items lh\<rparr>)"
      using num by (intro wf_bucket_changed [OF wf found(3) sits]) simp_all
    moreover have "lh\<lparr>buckets := (buckets lh)[b := ?c], num_items := num_items lh\<rparr> = ?lh" by simp
    ultimately show ?thesis
      using Some found(1) by (simp add: OPENSSL_lh_insert_def ptr)
  next
    case None
    show ?thesis
    proof (cases item_served)
      case False
      with None found(1) wf show ?thesis by (simp add: OPENSSL_lh_insert_def ptr)
    next
      case True
      let ?c = "buckets lh ! b @ [\<lparr>item_data = x, item_hash = h\<rparr>]"
      let ?b = "lh\<lparr>buckets := (buckets lh)[b := ?c]\<rparr>"
      let ?lh = "lh\<lparr>buckets := (buckets lh)[b := ?c], num_items := num_items lh + 1\<rparr>"
      have "mset (lh_items ?b) = add_mset x (mset (lh_items lh))" using mset [of ?c] by simp
      then have "items_map key (lh_items ?b) = (items_map key (lh_items lh))(key x \<mapsto> x) \<and>
          distinct (map key (lh_items ?b)) \<and> length (lh_items ?b) = Suc (length (lh_items lh))"
        using dist None unfolding lh_map_def by (rule items_map_add)
      moreover have "lh_items ?lh = lh_items ?b" by (simp add: lh_items_def)
      ultimately have map: "lh_map key ?lh = (lh_map key lh)(key x \<mapsto> x)" and
        new: "distinct (map key (lh_items ?b))" "num_items lh + 1 = length (lh_items ?b)"
        using num by (simp_all add: lh_map_def)
      have "sits hash (num_buckets lh) b \<lparr>item_data = x, item_hash = h\<rparr>"
        using found(2,4) by (simp add: sits_def)
      then have "\<forall>item\<in>set ?c. sits hash (num_buckets lh) b item"
        using chains_ok_bucket [OF chains(1) found(3)] by auto
      then have wf': "wf_lhash hash key ?lh" using new by (intro wf_bucket_changed [OF wf found(3)])
      have "size_add (num_items lh) 1 = num_items lh + 1" using room by simp
      then have "OPENSSL_lh_insert hash cmp item_served buckets_served lh x =
          map_option (\<lambda>lh. (True, None, lh)) (lh_maybe_resize buckets_served ?lh)"
        using True None found(1) by (simp add: OPENSSL_lh_insert_def ptr Let_def)
      with lh_maybe_resize_ok [OF wf', of buckets_served] map None True show ?thesis by auto
    qed
  qed
qed

lemma delete_eq:
  assumes wf: "wf_lhash hash key lh" and room: "num_items lh < 2 ^ 64"
  shows "\<exists>lh'. OPENSSL_lh_delete hash cmp buckets_served lh x = Some (lh_map key lh (key x), lh') \<and>
    wf_lhash hash key lh' \<and> callback_depth lh' = callback_depth lh \<and>
    lh_map key lh' = (lh_map key lh)(key x := None) \<and> num_items lh' \<le> num_items lh"
proof -
  obtain h b i where ptr: "get_next_ptr_and_hash hash cmp lh x = (h, b, i)"
    by (cases "get_next_ptr_and_hash hash cmp lh x") auto
  note found = walk_found [OF wf ptr]
  have chains: "chains_ok hash (num_buckets lh) (buckets lh)" "b < length (buckets lh)"
    and dist: "distinct (map key (lh_items lh))" and num: "num_items lh = length (lh_items lh)"
    using wf found(3) by (auto simp: wf_lhash_def chains_ok_def)
  show ?thesis
  proof (cases "lh_map key lh (key x)")
    case None
    moreover have "(lh_map key lh)(key x := None) = lh_map key lh" using None by (simp add: fun_upd_idem)
    ultimately show ?thesis using found(1) wf by (simp add: OPENSSL_lh_delete_def ptr)
  next
    case (Some old)
    then have i: "i < length (buckets lh ! b)" using found(5) by simp
    let ?c = "take i (buckets lh ! b) @ drop (Suc i) (buckets lh ! b)"
    let ?b = "lh\<lparr>buckets := (buckets lh)[b := ?c]\<rparr>"
    let ?lh = "lh\<lparr>buckets := (buckets lh)[b := ?c], num_items := num_items lh - 1\<rparr>"
    have old: "item_data (buckets lh ! b ! i) = old" "key old = key x"
      using found(1) i Some lh_map_Some [OF dist] by (auto simp: item_at_def)
    have "mset (map item_data (buckets lh ! b)) = add_mset old (mset (map item_data ?c))"
      by (subst id_take_nth_drop [OF i]) (simp add: old(1))
    then have "mset (lh_items lh) = add_mset old (mset (lh_items ?b))"
      using mset_bucket_changed [OF chains(2), of ?c] by simp
    then have "items_map key (lh_items ?b) = (items_map key (lh_items lh))(key old := None) \<and>
        distinct (map key (lh_items ?b)) \<and> length (lh_items lh) = Suc (length (lh_items ?b))"
      using dist by (rule items_map_remove)
    moreover have "lh_items ?lh = lh_items ?b" by (simp add: lh_items_def)
    ultimately have map: "lh_map key ?lh = (lh_map key lh)(key x := None)" and
      new: "distinct (map key (lh_items ?b))" "num_items lh - 1 = length (lh_items ?b)" "0 < num_items lh"
      using num old(2) by (simp_all add: lh_map_def)
    have "\<forall>item\<in>set ?c. sits hash (num_buckets lh) b item"
      using chains_ok_bucket [OF chains(1) found(3)] by (auto dest: in_set_takeD in_set_dropD)
    then have wf': "wf_lhash hash key ?lh" using new by (intro wf_bucket_changed [OF wf found(3)])
    have "size_sub (num_items lh) 1 = num_items lh - 1" using room new(3) by (intro size_sub_eq) simp_all
    then have "OPENSSL_lh_delete hash cmp buckets_served lh x =
        map_option (\<lambda>lh. (Some old, lh)) (lh_maybe_resize buckets_served ?lh)"
      using Some found(1) by (simp add: OPENSSL_lh_delete_def ptr Let_def)
    with lh_maybe_resize_ok [OF wf', of buckets_served] map Some show ?thesis by auto
  qed
qed

end

end
