(* ===== verification/Lhash_Spec.thy ===== *)
theory Lhash_Spec
  imports Lhash
begin

text \<open>
  Programs of hash table operations against a finite map: \<open>map_runs\<close> says which results a sequence
  of operations on the map may have, and \<open>run_lhash\<close> runs the operations on the table.
\<close>

datatype 'a lh_op =
    Insert 'a bool bool
  | Delete 'a bool
  | Retrieve 'a
  | Doall bool

datatype 'a lh_result =
    Inserted bool "'a option"
  | Deleted "'a option"
  | Retrieved "'a option"
  | Visited "'a list"

definition lh_perform ::
  "('a \<Rightarrow> u32) \<Rightarrow> ('a \<Rightarrow> 'a \<Rightarrow> int) \<Rightarrow> 'a lh_op \<Rightarrow> 'a LHASH \<Rightarrow> ('a lh_result \<times> 'a LHASH) option" where
  "lh_perform hash cmp op lh =
     (case op of
        Insert x served buckets_served \<Rightarrow>
          map_option (\<lambda>(ok, old, lh). (Inserted ok old, lh)) (OPENSSL_lh_insert hash cmp served buckets_served lh x)
      | Delete x buckets_served \<Rightarrow>
          map_option (\<lambda>(old, lh). (Deleted old, lh)) (OPENSSL_lh_delete hash cmp buckets_served lh x)
      | Retrieve x \<Rightarrow> Some (Retrieved (OPENSSL_lh_retrieve hash cmp lh x), lh)
      | Doall buckets_served \<Rightarrow>
          map_option (\<lambda>(xs, lh). (Visited xs, lh)) (OPENSSL_lh_doall_arg (\<lambda>x xs. xs @ [x]) buckets_served lh []))"

fun run_lhash ::
  "('a \<Rightarrow> u32) \<Rightarrow> ('a \<Rightarrow> 'a \<Rightarrow> int) \<Rightarrow> 'a lh_op list \<Rightarrow> 'a LHASH \<Rightarrow> ('a lh_result list \<times> 'a LHASH) option" where
  "run_lhash hash cmp [] lh = Some ([], lh)"
| "run_lhash hash cmp (op # ops) lh =
     (case lh_perform hash cmp op lh of
        None \<Rightarrow> None
      | Some (r, lh) \<Rightarrow> map_option (\<lambda>(rs, lh). (r # rs, lh)) (run_lhash hash cmp ops lh))"

inductive map_runs :: "('a \<Rightarrow> 'k) \<Rightarrow> 'a lh_op list \<Rightarrow> ('k \<rightharpoonup> 'a) \<Rightarrow> 'a lh_result list \<Rightarrow> ('k \<rightharpoonup> 'a) \<Rightarrow> bool"
  for key where
  Done: "map_runs key [] m [] m"
| Inserts: "map_runs key ops (m(key x \<mapsto> x)) rs m' \<Longrightarrow> served \<or> m (key x) \<noteq> None \<Longrightarrow>
    map_runs key (Insert x served b # ops) m (Inserted True (m (key x)) # rs) m'"
| Insert_fails: "map_runs key ops m rs m' \<Longrightarrow> \<not> served \<Longrightarrow> m (key x) = None \<Longrightarrow>
    map_runs key (Insert x served b # ops) m (Inserted False None # rs) m'"
| Deletes: "map_runs key ops (m(key x := None)) rs m' \<Longrightarrow>
    map_runs key (Delete x b # ops) m (Deleted (m (key x)) # rs) m'"
| Retrieves: "map_runs key ops m rs m' \<Longrightarrow> map_runs key (Retrieve x # ops) m (Retrieved (m (key x)) # rs) m'"
| Visits: "map_runs key ops m rs m' \<Longrightarrow> distinct xs \<Longrightarrow> set xs = ran m \<Longrightarrow>
    map_runs key (Doall b # ops) m (Visited xs # rs) m'"

inductive_cases map_runs_NilE: "map_runs key [] m rs m'"
inductive_cases map_runs_InsertE: "map_runs key (Insert x served b # ops) m rs m'"
inductive_cases map_runs_DeleteE: "map_runs key (Delete x b # ops) m rs m'"
inductive_cases map_runs_RetrieveE: "map_runs key (Retrieve x # ops) m rs m'"

lemma ran_lh_map: "distinct (map key (lh_items lh)) \<Longrightarrow> ran (lh_map key lh) = set (lh_items lh)"
  using lh_map_Some [of key lh] by (auto simp: ran_def)

lemma card_dom_lh_map:
  assumes "distinct (map key (lh_items lh))"
  shows "card (dom (lh_map key lh)) = length (lh_items lh)"
proof -
  have "dom (lh_map key lh) = set (map key (lh_items lh))"
    by (auto simp: lh_map_def items_map_def dom_map_of_conv_image_fst image_image)
  then show ?thesis using assms by (metis distinct_card length_map)
qed

lemma wf_lh_new: "OPENSSL_lh_new served buckets_served = Some lh \<Longrightarrow>
  wf_lhash hash key lh \<and> lh_map key lh = Map.empty \<and> callback_depth lh = 0 \<and> num_items lh = 0"
proof -
  have empty: "map item_data (concat (replicate n [])) = []" for n :: nat by (induction n) simp_all
  assume "OPENSSL_lh_new served buckets_served = Some lh"
  then show ?thesis
    by (auto simp: OPENSSL_lh_new_def wf_lhash_def lh_items_def empty lh_map_def items_map_def chains_ok_empty
        kMinNumBuckets_def split: if_splits)
qed

lemma doall_eq:
  assumes "wf_lhash hash key lh" "callback_depth lh = 0"
  shows "\<exists>lh'. OPENSSL_lh_doall_arg func served lh arg = Some (foldl (\<lambda>arg x. func x arg) arg (lh_items lh), lh') \<and>
    wf_lhash hash key lh' \<and> lh_map key lh' = lh_map key lh \<and> num_items lh' = num_items lh \<and> callback_depth lh' = 0"
proof -
  let ?lh = "lh\<lparr>callback_depth := 0\<rparr>"
  have "wf_lhash hash key ?lh" "lh_map key ?lh = lh_map key lh"
    using assms by (simp_all add: wf_lhash_def lh_items_def lh_map_def)
  then obtain lh' where lh': "lh_maybe_resize served ?lh = Some lh'" "wf_lhash hash key lh'"
    "lh_map key lh' = lh_map key lh" "num_items lh' = num_items lh" "callback_depth lh' = 0"
    using lh_maybe_resize_ok [of hash key ?lh served] by auto
  have "foldl (\<lambda>arg chain. foldl (\<lambda>arg cur. func (item_data cur) arg) arg chain) arg (buckets lh) =
      foldl (\<lambda>arg x. func x arg) arg (lh_items lh)"
    unfolding lh_items_def by (simp add: foldl_concat [of "\<lambda>arg cur. func (item_data cur) arg"] foldl_map)
  with lh' assms(2) show ?thesis by (simp add: OPENSSL_lh_doall_arg_def Let_def)
qed

context hashed begin

lemma run_refines_map:
  "wf_lhash hash key lh \<Longrightarrow> callback_depth lh = 0 \<Longrightarrow> num_items lh + length ops < 2 ^ 64 \<Longrightarrow>
   \<exists>rs lh'. run_lhash hash cmp ops lh = Some (rs, lh') \<and> wf_lhash hash key lh' \<and>
     map_runs key ops (lh_map key lh) rs (lh_map key lh')"
proof (induction ops arbitrary: lh)
  case Nil
  then show ?case by (auto intro: map_runs.Done)
next
  case (Cons op ops)
  have step: "\<exists>rs lh'. run_lhash hash cmp (op # ops) lh = Some (r # rs, lh') \<and> wf_lhash hash key lh' \<and>
      map_runs key ops (lh_map key lh1) rs (lh_map key lh')"
    if "lh_perform hash cmp op lh = Some (r, lh1)" "wf_lhash hash key lh1" "callback_depth lh1 = 0"
      "num_items lh1 \<le> num_items lh + 1" for r lh1
    using Cons.IH [OF that(2,3)] that Cons.prems(3) by auto
  show ?case
  proof (cases op)
    case (Insert x served b)
    let ?old = "lh_map key lh (key x)"
    let ?ok = "?old \<noteq> None \<or> served"
    obtain lh1 where lh1: "OPENSSL_lh_insert hash cmp served b lh x = Some (?ok, ?old, lh1)"
      "wf_lhash hash key lh1" "callback_depth lh1 = 0" "num_items lh1 \<le> num_items lh + 1"
      "lh_map key lh1 = (if ?ok then (lh_map key lh)(key x \<mapsto> x) else lh_map key lh)"
      using insert_eq [OF Cons.prems(1), of served b x] Cons.prems(2,3) by auto
    have "lh_perform hash cmp op lh = Some (Inserted ?ok ?old, lh1)" by (simp add: lh_perform_def Insert lh1(1))
    then obtain rs lh' where run: "run_lhash hash cmp (op # ops) lh = Some (Inserted ?ok ?old # rs, lh')"
      "wf_lhash hash key lh'" "map_runs key ops (lh_map key lh1) rs (lh_map key lh')"
      using step lh1(2,3,4) by blast
    have "map_runs key (op # ops) (lh_map key lh) (Inserted ?ok ?old # rs) (lh_map key lh')"
    proof (cases ?ok)
      case True
      then have "map_runs key ops ((lh_map key lh)(key x \<mapsto> x)) rs (lh_map key lh')"
        using run(3) lh1(5) by simp
      then show ?thesis using map_runs.Inserts [of key ops "lh_map key lh" x rs _ served b] True
        unfolding Insert by auto
    next
      case False
      then have "map_runs key ops (lh_map key lh) rs (lh_map key lh')" using run(3) lh1(5) by simp
      then show ?thesis using map_runs.Insert_fails [of key ops "lh_map key lh" rs _ served x b] False
        unfolding Insert by auto
    qed
    with run(1,2) show ?thesis by blast
  next
    case (Delete x b)
    obtain lh1 where lh1: "OPENSSL_lh_delete hash cmp b lh x = Some (lh_map key lh (key x), lh1)"
      "wf_lhash hash key lh1" "callback_depth lh1 = 0" "num_items lh1 \<le> num_items lh + 1"
      "lh_map key lh1 = (lh_map key lh)(key x := None)"
      using delete_eq [OF Cons.prems(1), of b x] Cons.prems(2,3) by auto
    have "lh_perform hash cmp op lh = Some (Deleted (lh_map key lh (key x)), lh1)"
      by (simp add: lh_perform_def Delete lh1(1))
    from step [OF this lh1(2,3,4)] show ?thesis
      unfolding lh1(5) Delete by (blast intro: map_runs.Deletes)
  next
    case (Retrieve x)
    have "lh_perform hash cmp op lh = Some (Retrieved (lh_map key lh (key x)), lh)"
      by (simp add: lh_perform_def Retrieve retrieve_eq [OF Cons.prems(1)])
    from step [OF this Cons.prems(1,2)] show ?thesis
      unfolding Retrieve by (force intro: map_runs.Retrieves)
  next
    case (Doall b)
    have fold: "foldl (\<lambda>xs x. xs @ [x]) ys xs = ys @ xs" for ys xs :: "'a list"
      by (induction xs arbitrary: ys) simp_all
    obtain lh1 where lh1: "OPENSSL_lh_doall_arg (\<lambda>x xs. xs @ [x]) b lh [] = Some (lh_items lh, lh1)"
      "wf_lhash hash key lh1" "callback_depth lh1 = 0" "num_items lh1 \<le> num_items lh + 1"
      "lh_map key lh1 = lh_map key lh"
      using doall_eq [OF Cons.prems(1,2), of "\<lambda>x xs. xs @ [x]" b "[]"] by (auto simp: fold)
    have dist: "distinct (map key (lh_items lh))" using Cons.prems(1) by (simp add: wf_lhash_def)
    have "lh_perform hash cmp op lh = Some (Visited (lh_items lh), lh1)"
      by (simp add: lh_perform_def Doall lh1(1))
    from step [OF this lh1(2,3,4)] show ?thesis
      unfolding lh1(5) Doall using ran_lh_map [OF dist] distinct_map [THEN iffD1, OF dist]
      by (metis map_runs.Visits)
  qed
qed

end

text \<open>
  C13. A hash table is a finite map from keys to items. Whatever the hash function and the comparison,
  as long as items compare equal exactly when their keys are equal and then hash alike, every
  sequence of insertions, deletions, lookups and iterations on a new table, whatever requests the
  allocator refuses on the way, gives the results of the map: an insertion fails only when the item
  is new and its allocation fails, returns what it replaces, and an iteration visits each item once.
  The assertion about the number of buckets never fails, every item stays in the bucket of its hash,
  and num_items is the number of keys, through every resize.
\<close>
theorem lhash_refines_map:
  assumes "\<forall>x y. cmp x y = 0 \<longleftrightarrow> key x = key y" "\<forall>x y. key x = key y \<longrightarrow> hash x = hash y"
    "OPENSSL_lh_new served buckets_served = Some lh" "length ops < 2 ^ 64"
  shows "\<exists>rs lh'. run_lhash hash cmp ops lh = Some (rs, lh') \<and>
    map_runs key ops Map.empty rs (lh_map key lh') \<and> wf_lhash hash key lh' \<and>
    OPENSSL_lh_num_items lh' = card (dom (lh_map key lh'))"
proof -
  have laws: "hashed hash cmp key" using assms(1,2) by unfold_locales blast+
  have new: "wf_lhash hash key lh" "lh_map key lh = Map.empty" "callback_depth lh = 0" "num_items lh = 0"
    using wf_lh_new [OF assms(3)] by auto
  obtain rs lh' where run: "run_lhash hash cmp ops lh = Some (rs, lh')" "wf_lhash hash key lh'"
    "map_runs key ops Map.empty rs (lh_map key lh')"
    using hashed.run_refines_map [OF laws new(1,3), of ops] new(2,4) assms(4) by auto
  moreover have "OPENSSL_lh_num_items lh' = card (dom (lh_map key lh'))"
    using run(2) by (simp add: OPENSSL_lh_num_items_def wf_lhash_def card_dom_lh_map)
  ultimately show ?thesis by blast
qed

end
