(* ===== verification/Mem.thy ===== *)
theory Mem
  imports Codec_Prelude
begin

text \<open>
  BoringSSL crypto/mem.c: blocks of the allocator and functions on C strings. A pointer to memory is
  the list of the bytes from there to the end of their object; a function is None where the code
  would read or write beyond it. malloc is a parameter: whether a request is served, and what the
  memory it returns holds. The functions of the file that the byte-string code calls are in \<open>Cbs\<close> and
  \<open>Asn1_Mbstring\<close>.
\<close>

unbundle bit_operations_syntax

subsection \<open>Allocation\<close>

definition OPENSSL_MALLOC_PREFIX :: nat where "OPENSSL_MALLOC_PREFIX = 8"

text \<open>A block without its prefix; the prefix holds the length of the block, \<open>size_t\<close>.\<close>

definition OPENSSL_malloc :: "bool \<Rightarrow> (nat \<Rightarrow> u8) \<Rightarrow> nat \<Rightarrow> bytes option" where
  "OPENSSL_malloc served uninit n =
     (if size_add n OPENSSL_MALLOC_PREFIX < n then None
      else if \<not> served then None
      else Some (map uninit [0..<n]))"

definition OPENSSL_cleanse :: "bytes \<Rightarrow> nat \<Rightarrow> bytes" where
  "OPENSSL_cleanse blk n = replicate n 0 @ drop n blk"

text \<open>What goes back to the system: the prefix and the block, both cleared.\<close>

definition OPENSSL_free :: "bytes option \<Rightarrow> bytes" where
  "OPENSSL_free orig =
     (case orig of
        None \<Rightarrow> []
      | Some blk \<Rightarrow>
          OPENSSL_cleanse (le_bytes 8 (length blk) @ blk) (size_add (length blk) OPENSSL_MALLOC_PREFIX))"

subsection \<open>Strings\<close>

text \<open>strlen of the C library.\<close>

fun cstrlen :: "bytes \<Rightarrow> nat option" where
  "cstrlen [] = None"
| "cstrlen (c # s) = (if c = 0 then Some 0 else map_option Suc (cstrlen s))"

fun hash32_loop :: "u32 \<Rightarrow> bytes \<Rightarrow> u32" where
  "hash32_loop h [] = h"
| "hash32_loop h (c # s) = hash32_loop ((h XOR ucast c) * 16777619) s"

definition OPENSSL_hash32 :: "bytes \<Rightarrow> nat \<Rightarrow> u32" where
  "OPENSSL_hash32 s n = hash32_loop 2166136261 (take n s)"

definition OPENSSL_strhash :: "bytes \<Rightarrow> u32 option" where
  "OPENSSL_strhash s = map_option (OPENSSL_hash32 s) (cstrlen s)"

text \<open>The outer option is about reading, the inner one is NULL.\<close>

definition OPENSSL_strdup :: "bool \<Rightarrow> (nat \<Rightarrow> u8) \<Rightarrow> bytes option \<Rightarrow> bytes option option" where
  "OPENSSL_strdup served uninit s =
     (case s of
        None \<Rightarrow> Some None
      | Some s \<Rightarrow>
          (case cstrlen s of
             None \<Rightarrow> None
           | Some n \<Rightarrow>
               (let n = size_add n 1 in
                case OPENSSL_malloc served uninit n of
                  None \<Rightarrow> Some None
                | Some ret \<Rightarrow> Some (Some (take n s @ drop n ret)))))"

text \<open>A char is signed; it is promoted to int.\<close>

definition OPENSSL_tolower :: "int \<Rightarrow> int" where
  "OPENSSL_tolower c = (if 65 \<le> c \<and> c \<le> 90 then c + (97 - 65) else c)"

fun OPENSSL_strcasecmp :: "bytes \<Rightarrow> bytes \<Rightarrow> int option" where
  "OPENSSL_strcasecmp (c # a) (d # b) =
     (let aa = OPENSSL_tolower (sint c); bb = OPENSSL_tolower (sint d)
      in if aa < bb then Some (-1) else if bb < aa then Some 1
         else if aa = 0 then Some 0 else OPENSSL_strcasecmp a b)"
| "OPENSSL_strcasecmp _ _ = None"

fun OPENSSL_strncasecmp :: "bytes \<Rightarrow> bytes \<Rightarrow> nat \<Rightarrow> int option" where
  "OPENSSL_strncasecmp a b 0 = Some 0"
| "OPENSSL_strncasecmp (c # a) (d # b) (Suc n) =
     (let aa = OPENSSL_tolower (sint c); bb = OPENSSL_tolower (sint d)
      in if aa < bb then Some (-1) else if bb < aa then Some 1
         else if aa = 0 then Some 0 else OPENSSL_strncasecmp a b n)"
| "OPENSSL_strncasecmp _ _ (Suc n) = None"

text \<open>The result: the memory from dst on, and the return value.\<close>

definition strlcpy_end :: "bytes \<Rightarrow> bytes \<Rightarrow> nat \<Rightarrow> nat \<Rightarrow> (bytes \<times> nat) option" where
  "strlcpy_end dst src dst_size l =
     (case cstrlen src of
        None \<Rightarrow> None
      | Some n \<Rightarrow>
          if dst_size = 0 then Some (dst, size_add l n)
          else (case dst of [] \<Rightarrow> None | _ # dst \<Rightarrow> Some (0 # dst, size_add l n)))"

fun strlcpy_loop :: "bytes \<Rightarrow> bytes \<Rightarrow> nat \<Rightarrow> nat \<Rightarrow> (bytes \<times> nat) option" where
  "strlcpy_loop dst [] dst_size l = strlcpy_end dst [] dst_size l"
| "strlcpy_loop dst (c # src) dst_size l =
     (if 1 < dst_size \<and> c \<noteq> 0 then
        (case dst of
           [] \<Rightarrow> None
         | _ # dst \<Rightarrow> map_option (\<lambda>(dst, r). (c # dst, r)) (strlcpy_loop dst src (dst_size - 1) (size_add l 1)))
      else strlcpy_end dst (c # src) dst_size l)"

definition OPENSSL_strlcpy :: "bytes \<Rightarrow> bytes \<Rightarrow> nat \<Rightarrow> (bytes \<times> nat) option" where
  "OPENSSL_strlcpy dst src dst_size = strlcpy_loop dst src dst_size 0"

fun strlcat_loop :: "bytes \<Rightarrow> bytes \<Rightarrow> nat \<Rightarrow> nat \<Rightarrow> (bytes \<times> nat) option" where
  "strlcat_loop dst src 0 l = map_option (\<lambda>(dst, r). (dst, size_add l r)) (OPENSSL_strlcpy dst src 0)"
| "strlcat_loop [] src (Suc n) l = None"
| "strlcat_loop (c # dst) src (Suc n) l =
     (if c \<noteq> 0 then map_option (\<lambda>(dst, r). (c # dst, r)) (strlcat_loop dst src n (size_add l 1))
      else map_option (\<lambda>(dst, r). (dst, size_add l r)) (OPENSSL_strlcpy (c # dst) src (Suc n)))"

definition OPENSSL_strlcat :: "bytes \<Rightarrow> bytes \<Rightarrow> nat \<Rightarrow> (bytes \<times> nat) option" where
  "OPENSSL_strlcat dst src dst_size = strlcat_loop dst src dst_size 0"

subsection \<open>What the functions do on strings\<close>

definition cstring :: "bytes \<Rightarrow> bool" where
  "cstring s \<longleftrightarrow> 0 \<notin> set s"

lemma strlen_eq: "cstring s \<Longrightarrow> cstrlen (s @ 0 # r) = Some (length s)"
  by (induction s) (auto simp: cstring_def)

lemma strhash_eq: "cstring s \<Longrightarrow> OPENSSL_strhash (s @ 0 # r) = Some (hash32_loop 2166136261 s)"
  by (simp add: OPENSSL_strhash_def strlen_eq OPENSSL_hash32_def)

lemma strlcpy_end_eq:
  assumes "cstring s" "length s < 2 ^ 63" "l < 2 ^ 63"
  shows "strlcpy_end dst (s @ 0 # r) 0 l = Some (dst, l + length s)"
    "strlcpy_end (c # dst) (s @ 0 # r) (Suc n) l = Some (0 # dst, l + length s)"
  using assms by (simp_all add: strlcpy_end_def strlen_eq)

lemma strlcpy_loop_eq:
  "cstring s \<Longrightarrow> l + length s < 2 ^ 63 \<Longrightarrow> dst_size \<le> length dst \<Longrightarrow>
   strlcpy_loop dst (s @ 0 # r) dst_size l =
     Some (if dst_size = 0 then dst
           else take (dst_size - 1) s @ 0 # drop (Suc (min (dst_size - 1) (length s))) dst, l + length s)"
proof (induction s arbitrary: dst dst_size l)
  case Nil
  then show ?case
    by (cases dst_size; cases dst) (simp_all add: strlcpy_end_def)
next
  case (Cons c s)
  have c: "c \<noteq> 0" "cstring s" using Cons.prems(1) by (simp_all add: cstring_def)
  show ?case
  proof (cases "1 < dst_size")
    case True
    then obtain n where n: "dst_size = Suc (Suc n)" by (intro that [of "dst_size - 2"]) (use True in linarith)
    with Cons.prems(3) obtain d dst' where dst: "dst = d # dst'" by (cases dst) auto
    have add: "size_add l 1 = l + 1" using Cons.prems(2) by simp
    show ?thesis using Cons.IH [OF c(2), of "l + 1" "Suc n" dst'] Cons.prems(2,3) c(1) n dst add
      by simp
  next
    case False
    then have "dst_size = 0 \<or> dst_size = Suc 0" by auto
    then show ?thesis
      using Cons.prems strlcpy_end_eq [OF Cons.prems(1), of l] c
      by (cases dst) (auto simp: strlcpy_end_def strlen_eq)
  qed
qed

lemma strlcpy_eq:
  assumes "cstring s" "length s < 2 ^ 63" "dst_size \<le> length dst"
  shows "OPENSSL_strlcpy dst (s @ 0 # r) dst_size =
     Some (if dst_size = 0 then dst
           else take (dst_size - 1) s @ 0 # drop (Suc (min (dst_size - 1) (length s))) dst, length s)"
  using strlcpy_loop_eq [OF assms(1), of 0 dst_size dst r] assms(2,3) by (simp add: OPENSSL_strlcpy_def)

lemma strlcat_loop_eq:
  "cstring d \<Longrightarrow> cstring s \<Longrightarrow> l + length d + length s < 2 ^ 63 \<Longrightarrow> length d < dst_size \<Longrightarrow>
   dst_size \<le> length (d @ 0 # z) \<Longrightarrow>
   strlcat_loop (d @ 0 # z) (s @ 0 # r) dst_size l =
     Some (d @ take (dst_size - length d - 1) s @ 0 # drop (min (dst_size - length d - 1) (length s)) z,
       l + length d + length s)"
proof (induction d arbitrary: dst_size l)
  case Nil
  then obtain n where "dst_size = Suc n" by (cases dst_size) auto
  with Nil show ?case using strlcpy_eq [OF Nil(2), of dst_size "0 # z" r] by simp
next
  case (Cons c d)
  then obtain n where n: "dst_size = Suc n" by (cases dst_size) auto
  have "size_add l 1 = l + 1" using Cons.prems(3) by simp
  then show ?case using Cons.IH [of "l + 1" n] Cons.prems n by (simp add: cstring_def)
qed

text \<open>The end of the string in dst is not among the first dst_size bytes: nothing is written.\<close>

lemma strlcat_loop_full:
  "cstring d \<Longrightarrow> cstring s \<Longrightarrow> l + length d + length s < 2 ^ 63 \<Longrightarrow>
   strlcat_loop (d @ z) (s @ 0 # r) (length d) l = Some (d @ z, l + length d + length s)"
proof (induction d arbitrary: l)
  case Nil
  then show ?case using strlcpy_eq [OF Nil(2), of 0 z r] by simp
next
  case (Cons c d)
  have "size_add l 1 = l + 1" using Cons.prems(3) by simp
  then show ?case using Cons.IH [of "l + 1"] Cons.prems by (simp add: cstring_def)
qed

definition lower :: "u8 \<Rightarrow> int" where
  "lower c = OPENSSL_tolower (sint c)"

lemma lower_zero [simp]: "lower c = 0 \<longleftrightarrow> c = 0"
proof -
  have "sint c = 0 \<longleftrightarrow> c = 0" by (rule signed_eq_0_iff)
  then show ?thesis by (auto simp: lower_def OPENSSL_tolower_def)
qed

lemma tolower_0 [simp]: "OPENSSL_tolower 0 = 0"
  by (simp add: OPENSSL_tolower_def)

lemma strcasecmp_zero:
  "cstring a \<Longrightarrow> cstring b \<Longrightarrow>
   \<exists>ret. OPENSSL_strcasecmp (a @ 0 # r) (b @ 0 # r') = Some ret \<and> (ret = 0 \<longleftrightarrow> map lower a = map lower b)"
proof (induction a arbitrary: b)
  case Nil
  show ?case
    by (cases b) (use Nil.prems in \<open>auto simp: cstring_def Let_def lower_def [symmetric] neq_iff\<close>)
next
  case (Cons c a)
  have c: "lower c \<noteq> 0" using Cons.prems(1) by (auto simp: cstring_def)
  show ?case
  proof (cases b)
    case Nil
    then show ?thesis using c by (auto simp: Let_def lower_def [symmetric] neq_iff)
  next
    case (Cons d b')
    then show ?thesis using Cons.IH [of b'] Cons.prems c by (auto simp: cstring_def Let_def lower_def [symmetric])
  qed
qed

text \<open>
  OPENSSL_strlcpy and OPENSSL_strlcat write at most dst_size bytes from dst on, end the string
  they write with a zero byte, truncate it to fit, and return the length it would have without
  truncation; when dst has no end within dst_size bytes, OPENSSL_strlcat writes nothing.
\<close>
theorem string_copies_bounded:
  assumes "cstring d" "cstring s" "length d + length s < 2 ^ 63" "dst_size \<le> length (d @ 0 # z)"
  shows "OPENSSL_strlcpy (d @ 0 # z) (s @ 0 # r) dst_size =
      Some (if dst_size = 0 then d @ 0 # z
            else take (dst_size - 1) s @ 0 # drop (Suc (min (dst_size - 1) (length s))) (d @ 0 # z), length s) \<and>
    OPENSSL_strlcat (d @ 0 # z) (s @ 0 # r) dst_size =
      Some (if length d < dst_size
            then d @ take (dst_size - length d - 1) s @ 0 # drop (min (dst_size - length d - 1) (length s)) z
            else d @ 0 # z,
        min dst_size (length d) + length s)"
proof (cases "length d < dst_size")
  case True
  then show ?thesis
    using strlcpy_eq [of s dst_size "d @ 0 # z" r] strlcat_loop_eq [of d s 0 dst_size z r] assms
    by (simp add: OPENSSL_strlcat_def)
next
  case False
  have "cstring (take dst_size d)" using assms(1) by (auto simp: cstring_def dest: in_set_takeD)
  then have "strlcat_loop (take dst_size d @ (drop dst_size d @ 0 # z)) (s @ 0 # r) (length (take dst_size d)) 0 =
      Some (take dst_size d @ (drop dst_size d @ 0 # z), 0 + length (take dst_size d) + length s)"
    using assms(2,3) False by (intro strlcat_loop_full) simp_all
  then show ?thesis
    using strlcpy_eq [of s dst_size "d @ 0 # z" r] assms False
    by (simp add: OPENSSL_strlcat_def flip: append_assoc)
qed

lemma string_copies_bounded_witness:
  "OPENSSL_strlcat [97, 0, 7, 8, 9] [98, 99, 100, 0] 4 = Some ([97, 98, 99, 0, 9], 4)"
  using string_copies_bounded [of "[97]" "[98, 99, 100]" 4 "[7, 8, 9]" "[]"]
  by (simp add: cstring_def)

end
