(* ===== verification/Obj_Tables.thy ===== *)
theory Obj_Tables
  imports Lhash_Spec Mem
begin

text \<open>
  The tables of objects added at run time in BoringSSL crypto/obj/obj.c: four hash tables over the
  same objects, by number, by contents and by the two names. Each pair of a hash and a comparison
  function meets the contract \<open>hashed\<close>. A string is the list of the characters its pointer leads to,
  with the terminator left out; a NULL pointer is None, and what the functions do with NULL, where the
  code does not call them, is left open by \<open>the\<close>.
\<close>

unbundle bit_operations_syntax

record ASN1_OBJECT =
  sn :: "bytes option"
  ln :: "bytes option"
  nid :: u32
  obj_data :: "bytes option"
  obj_flags :: u32

text \<open>memcmp and strcmp of the C library: the sign of the first difference.\<close>

fun compare_bytes :: "bytes \<Rightarrow> bytes \<Rightarrow> int" where
  "compare_bytes [] [] = 0"
| "compare_bytes [] (d # b) = -1"
| "compare_bytes (c # a) [] = 1"
| "compare_bytes (c # a) (d # b) = (if c < d then -1 else if d < c then 1 else compare_bytes a b)"

definition c_string :: "bytes \<Rightarrow> bytes" where
  "c_string s = takeWhile (\<lambda>c. c \<noteq> 0) s"

definition strcmp :: "bytes \<Rightarrow> bytes \<Rightarrow> int" where
  "strcmp a b = compare_bytes (c_string a) (c_string b)"

definition hash_nid :: "ASN1_OBJECT \<Rightarrow> u32" where
  "hash_nid obj = nid obj"

definition cmp_nid :: "ASN1_OBJECT \<Rightarrow> ASN1_OBJECT \<Rightarrow> int" where
  "cmp_nid a b = sint (nid a) - sint (nid b)"

definition hash_data :: "ASN1_OBJECT \<Rightarrow> u32" where
  "hash_data obj = OPENSSL_hash32 (the (obj_data obj)) (length (the (obj_data obj)))"

definition cmp_data :: "ASN1_OBJECT \<Rightarrow> ASN1_OBJECT \<Rightarrow> int" where
  "cmp_data a b =
     (let i = int (length (the (obj_data a))) - int (length (the (obj_data b)))
      in if i \<noteq> 0 then i else compare_bytes (the (obj_data a)) (the (obj_data b)))"

definition hash_short_name :: "ASN1_OBJECT \<Rightarrow> u32" where
  "hash_short_name obj = the (OPENSSL_strhash (the (sn obj) @ [0]))"

definition cmp_short_name :: "ASN1_OBJECT \<Rightarrow> ASN1_OBJECT \<Rightarrow> int" where
  "cmp_short_name a b = strcmp (the (sn a)) (the (sn b))"

definition hash_long_name :: "ASN1_OBJECT \<Rightarrow> u32" where
  "hash_long_name obj = the (OPENSSL_strhash (the (ln obj) @ [0]))"

definition cmp_long_name :: "ASN1_OBJECT \<Rightarrow> ASN1_OBJECT \<Rightarrow> int" where
  "cmp_long_name a b = strcmp (the (ln a)) (the (ln b))"

lemma compare_bytes_zero: "compare_bytes a b = 0 \<longleftrightarrow> a = b"
  by (induction a b rule: compare_bytes.induct) (auto simp: neq_iff)

lemma strhash_string: "the (OPENSSL_strhash (s @ [0])) = hash32_loop 2166136261 (c_string s)"
proof (cases "0 \<in> set s")
  case False
  then have "c_string s = s" by (simp add: c_string_def takeWhile_eq_all_conv) (metis)
  with False show ?thesis using strhash_eq [of s "[]"] by (simp add: cstring_def)
next
  case True
  then obtain a b where "s = a @ 0 # b" "0 \<notin> set a" by (meson split_list_first)
  moreover from this have "c_string s = a"
    unfolding c_string_def \<open>s = a @ 0 # b\<close> by (subst takeWhile_append2) (auto simp: \<open>0 \<notin> set a\<close>)
  ultimately show ?thesis using strhash_eq [of a "b @ [0]"] by (simp add: cstring_def)
qed

interpretation by_nid: hashed hash_nid cmp_nid nid
  by unfold_locales (auto simp: hash_nid_def cmp_nid_def signed_word_eqI)

interpretation by_data: hashed hash_data cmp_data "\<lambda>obj. the (obj_data obj)"
  by unfold_locales (auto simp: hash_data_def cmp_data_def Let_def compare_bytes_zero)

interpretation by_short_name: hashed hash_short_name cmp_short_name "\<lambda>obj. c_string (the (sn obj))"
  by unfold_locales (auto simp: hash_short_name_def cmp_short_name_def strcmp_def compare_bytes_zero strhash_string)

interpretation by_long_name: hashed hash_long_name cmp_long_name "\<lambda>obj. c_string (the (ln obj))"
  by unfold_locales (auto simp: hash_long_name_def cmp_long_name_def strcmp_def compare_bytes_zero strhash_string)

subsection \<open>Adding an object\<close>

record obj_tables =
  global_added_by_nid :: "ASN1_OBJECT LHASH option"
  global_added_by_data :: "ASN1_OBJECT LHASH option"
  global_added_by_short_name :: "ASN1_OBJECT LHASH option"
  global_added_by_long_name :: "ASN1_OBJECT LHASH option"

text \<open>The allocator's answers, request by request.\<close>

record obj_allocs =
  oa_new :: "(bool \<times> bool) \<times> (bool \<times> bool) \<times> (bool \<times> bool) \<times> (bool \<times> bool)"
  oa_insert :: "(bool \<times> bool) \<times> (bool \<times> bool) \<times> (bool \<times> bool) \<times> (bool \<times> bool)"

text \<open>An insertion into one of the tables; None where the table is NULL.\<close>

definition table_insert ::
  "(ASN1_OBJECT \<Rightarrow> u32) \<Rightarrow> (ASN1_OBJECT \<Rightarrow> ASN1_OBJECT \<Rightarrow> int) \<Rightarrow> bool \<times> bool \<Rightarrow> bool \<Rightarrow> ASN1_OBJECT LHASH option \<Rightarrow>
     ASN1_OBJECT \<Rightarrow> (bool \<times> ASN1_OBJECT LHASH option) option" where
  "table_insert hash cmp served wanted table obj =
     (if \<not> wanted then Some (True, table)
      else
        (case table of
           None \<Rightarrow> None
         | Some lh \<Rightarrow>
             map_option (\<lambda>(ok, old, lh). (ok, Some lh)) (OPENSSL_lh_insert hash cmp (fst served) (snd served) lh obj)))"

text \<open>The first object makes the tables.\<close>

definition started :: "obj_allocs \<Rightarrow> obj_tables \<Rightarrow> obj_tables" where
  "started allocs tables =
     (let (new1, new2, new3, new4) = oa_new allocs in
      if global_added_by_nid tables = None then
        \<lparr>global_added_by_nid = OPENSSL_lh_new (fst new1) (snd new1),
         global_added_by_data = OPENSSL_lh_new (fst new2) (snd new2),
         global_added_by_short_name = OPENSSL_lh_new (fst new3) (snd new3),
         global_added_by_long_name = OPENSSL_lh_new (fst new4) (snd new4)\<rparr>
      else tables)"

definition obj_add_object :: "obj_allocs \<Rightarrow> obj_tables \<Rightarrow> ASN1_OBJECT \<Rightarrow> (bool \<times> obj_tables) option" where
  "obj_add_object allocs tables obj =
     (let obj = obj\<lparr>obj_flags := obj_flags obj AND NOT (0x01 OR 0x04 OR 0x08)\<rparr>;
          tables = started allocs tables;
          (ins1, ins2, ins3, ins4) = oa_insert allocs
      in
        case table_insert hash_nid cmp_nid ins1 True (global_added_by_nid tables) obj of
          None \<Rightarrow> None
        | Some (ok1, t1) \<Rightarrow>
        case table_insert hash_data cmp_data ins2 (obj_data obj \<noteq> None \<and> length (the (obj_data obj)) \<noteq> 0)
               (global_added_by_data tables) obj of
          None \<Rightarrow> None
        | Some (ok2, t2) \<Rightarrow>
        case table_insert hash_short_name cmp_short_name ins3 (sn obj \<noteq> None) (global_added_by_short_name tables) obj of
          None \<Rightarrow> None
        | Some (ok3, t3) \<Rightarrow>
        case table_insert hash_long_name cmp_long_name ins4 (ln obj \<noteq> None) (global_added_by_long_name tables) obj of
          None \<Rightarrow> None
        | Some (ok4, t4) \<Rightarrow>
            Some (ok1 \<and> ok2 \<and> ok3 \<and> ok4,
              \<lparr>global_added_by_nid = t1, global_added_by_data = t2,
               global_added_by_short_name = t3, global_added_by_long_name = t4\<rparr>))"

text \<open>A table of objects as the map it stands for; no table is the empty map.\<close>

definition table_ok :: "(ASN1_OBJECT \<Rightarrow> u32) \<Rightarrow> (ASN1_OBJECT \<Rightarrow> 'k) \<Rightarrow> ASN1_OBJECT LHASH option \<Rightarrow> bool" where
  "table_ok hash key table \<longleftrightarrow>
     (case table of None \<Rightarrow> True | Some lh \<Rightarrow> wf_lhash hash key lh \<and> callback_depth lh = 0 \<and> num_items lh < 2 ^ 63)"

definition table_map :: "(ASN1_OBJECT \<Rightarrow> 'k) \<Rightarrow> ASN1_OBJECT LHASH option \<Rightarrow> 'k \<rightharpoonup> ASN1_OBJECT" where
  "table_map key table = (case table of None \<Rightarrow> Map.empty | Some lh \<Rightarrow> lh_map key lh)"

lemma table_insert_eq:
  assumes "hashed hash cmp key" "table_ok hash key table"
    "table_insert hash cmp served wanted table obj = Some (True, table')"
  shows "table_map key table' = (if wanted then (table_map key table)(key obj \<mapsto> obj) else table_map key table)"
proof (cases wanted)
  case True
  with assms(3) obtain lh where lh: "table = Some lh" by (auto simp: table_insert_def split: option.splits)
  then have "wf_lhash hash key lh" "num_items lh + 1 < 2 ^ 64" using assms(2) by (simp_all add: table_ok_def)
  from hashed.insert_eq [OF assms(1) this, of "fst served" "snd served" obj] show ?thesis
    using assms(3) True by (auto simp: table_insert_def lh table_map_def split: if_splits)
qed (use assms(3) in \<open>simp add: table_insert_def\<close>)

lemma table_ok_new:
  "hashed hash cmp key \<Longrightarrow> table_ok hash key (OPENSSL_lh_new served buckets_served) \<and>
   table_map key (OPENSSL_lh_new served buckets_served) = Map.empty"
  using wf_lh_new [of served buckets_served _ hash key]
  by (cases "OPENSSL_lh_new served buckets_served :: ASN1_OBJECT LHASH option") (auto simp: table_ok_def table_map_def)

definition tables_ok :: "obj_tables \<Rightarrow> bool" where
  "tables_ok tables \<longleftrightarrow>
     table_ok hash_nid nid (global_added_by_nid tables) \<and>
     table_ok hash_data (\<lambda>obj. the (obj_data obj)) (global_added_by_data tables) \<and>
     table_ok hash_short_name (\<lambda>obj. c_string (the (sn obj))) (global_added_by_short_name tables) \<and>
     table_ok hash_long_name (\<lambda>obj. c_string (the (ln obj))) (global_added_by_long_name tables)"

text \<open>
  The lookups. The built-in objects, generated tables that are searched after (or, by number, before)
  the tables here, are a parameter. A pattern sets the one field that its table reads.
\<close>

definition table_find ::
  "(ASN1_OBJECT \<Rightarrow> u32) \<Rightarrow> (ASN1_OBJECT \<Rightarrow> ASN1_OBJECT \<Rightarrow> int) \<Rightarrow> ASN1_OBJECT LHASH option \<Rightarrow> ASN1_OBJECT \<Rightarrow> ASN1_OBJECT option" where
  "table_find hash cmp table pattern =
     (case table of None \<Rightarrow> None | Some lh \<Rightarrow> OPENSSL_lh_retrieve hash cmp lh pattern)"

definition blank_object :: ASN1_OBJECT where
  "blank_object = \<lparr>sn = None, ln = None, nid = 0, obj_data = None, obj_flags = 0\<rparr>"

definition OBJ_obj2nid :: "(bytes \<Rightarrow> u32 option) \<Rightarrow> obj_tables \<Rightarrow> ASN1_OBJECT option \<Rightarrow> u32" where
  "OBJ_obj2nid builtin tables obj =
     (case obj of
        None \<Rightarrow> 0
      | Some obj \<Rightarrow>
          if nid obj \<noteq> 0 then nid obj
          else
            (case table_find hash_data cmp_data (global_added_by_data tables) obj of
               Some match \<Rightarrow> nid match
             | None \<Rightarrow> (case builtin (the (obj_data obj)) of None \<Rightarrow> 0 | Some n \<Rightarrow> n)))"

definition OBJ_sn2nid :: "(bytes \<Rightarrow> u32 option) \<Rightarrow> obj_tables \<Rightarrow> bytes \<Rightarrow> u32" where
  "OBJ_sn2nid builtin tables short_name =
     (case table_find hash_short_name cmp_short_name (global_added_by_short_name tables)
             (blank_object\<lparr>sn := Some short_name\<rparr>) of
        Some match \<Rightarrow> nid match
      | None \<Rightarrow> (case builtin short_name of None \<Rightarrow> 0 | Some n \<Rightarrow> n))"

definition OBJ_ln2nid :: "(bytes \<Rightarrow> u32 option) \<Rightarrow> obj_tables \<Rightarrow> bytes \<Rightarrow> u32" where
  "OBJ_ln2nid builtin tables long_name =
     (case table_find hash_long_name cmp_long_name (global_added_by_long_name tables)
             (blank_object\<lparr>ln := Some long_name\<rparr>) of
        Some match \<Rightarrow> nid match
      | None \<Rightarrow> (case builtin long_name of None \<Rightarrow> 0 | Some n \<Rightarrow> n))"

definition NUM_NID :: int where "NUM_NID = 963"

definition OBJ_nid2obj :: "(u32 \<Rightarrow> ASN1_OBJECT option) \<Rightarrow> obj_tables \<Rightarrow> u32 \<Rightarrow> ASN1_OBJECT option" where
  "OBJ_nid2obj builtin tables n =
     (if 0 \<le> sint n \<and> sint n < NUM_NID then builtin n
      else table_find hash_nid cmp_nid (global_added_by_nid tables) (blank_object\<lparr>nid := n\<rparr>))"

lemma table_find_eq:
  assumes "hashed hash cmp key" "table_ok hash key table"
  shows "table_find hash cmp table pattern = table_map key table (key pattern)"
  using assms hashed.retrieve_eq [OF assms(1)]
  by (auto simp: table_find_def table_ok_def table_map_def split: option.splits)

lemma table_insert_ok:
  assumes "hashed hash cmp key" "table_ok hash key table"
    "table_insert hash cmp served wanted table obj = Some (ok, table')" "\<forall>lh. table = Some lh \<longrightarrow> num_items lh + 1 < 2 ^ 63"
  shows "table_ok hash key table'"
proof (cases wanted)
  case True
  with assms(3) obtain lh where lh: "table = Some lh" by (auto simp: table_insert_def split: option.splits)
  then have "wf_lhash hash key lh" "num_items lh + 1 < 2 ^ 64" using assms(2,4) by (simp_all add: table_ok_def)
  from hashed.insert_eq [OF assms(1) this, of "fst served" "snd served" obj] show ?thesis
    using assms True by (auto simp: table_insert_def lh table_ok_def)
qed (use assms in \<open>simp add: table_insert_def\<close>)

lemmas obj_laws = by_nid.hashed_axioms by_data.hashed_axioms by_short_name.hashed_axioms by_long_name.hashed_axioms

text \<open>Room for one more object in every table.\<close>

definition tables_room :: "obj_tables \<Rightarrow> bool" where
  "tables_room tables \<longleftrightarrow>
     (\<forall>lh. global_added_by_nid tables = Some lh \<or> global_added_by_data tables = Some lh \<or>
        global_added_by_short_name tables = Some lh \<or> global_added_by_long_name tables = Some lh \<longrightarrow>
        num_items lh + 1 < 2 ^ 63)"

lemma lh_new_room: "OPENSSL_lh_new served buckets_served = Some lh \<Longrightarrow> num_items lh + 1 < 2 ^ 63"
  by (auto simp: OPENSSL_lh_new_def split: if_splits)

lemma started_ok:
  assumes "tables_ok tables" "tables_room tables"
  shows "tables_ok (started allocs tables)" "tables_room (started allocs tables)"
proof -
  show "tables_ok (started allocs tables)"
    using assms(1) obj_laws [THEN table_ok_new]
    by (auto simp: started_def tables_ok_def split: prod.splits)
  show "tables_room (started allocs tables)"
    using assms(2) by (auto simp: started_def tables_room_def dest: lh_new_room split: prod.splits)
qed

text \<open>The four tables are made together, before the first object is put into the one by number.\<close>

definition made_together :: "obj_tables \<Rightarrow> bool" where
  "made_together tables \<longleftrightarrow>
     (global_added_by_nid tables = None \<longrightarrow>
        global_added_by_data tables = None \<and> global_added_by_short_name tables = None \<and>
        global_added_by_long_name tables = None)"

text \<open>Making the tables adds no entries.\<close>

lemma table_map_None [simp]: "table_map key None = Map.empty"
  by (simp add: table_map_def)

lemma started_maps:
  assumes "made_together tables"
  shows "table_map nid (global_added_by_nid (started allocs tables)) = table_map nid (global_added_by_nid tables)"
    "table_map (\<lambda>obj. the (obj_data obj)) (global_added_by_data (started allocs tables)) =
     table_map (\<lambda>obj. the (obj_data obj)) (global_added_by_data tables)"
    "table_map (\<lambda>obj. c_string (the (sn obj))) (global_added_by_short_name (started allocs tables)) =
     table_map (\<lambda>obj. c_string (the (sn obj))) (global_added_by_short_name tables)"
    "table_map (\<lambda>obj. c_string (the (ln obj))) (global_added_by_long_name (started allocs tables)) =
     table_map (\<lambda>obj. c_string (the (ln obj))) (global_added_by_long_name tables)"
proof -
  note new = obj_laws [THEN table_ok_new, THEN conjunct2]
  show "table_map nid (global_added_by_nid (started allocs tables)) = table_map nid (global_added_by_nid tables)"
    using new(1) by (simp add: started_def split: prod.splits)
  show "table_map (\<lambda>obj. the (obj_data obj)) (global_added_by_data (started allocs tables)) =
      table_map (\<lambda>obj. the (obj_data obj)) (global_added_by_data tables)"
    using assms new(2) by (simp add: started_def made_together_def split: prod.splits)
  show "table_map (\<lambda>obj. c_string (the (sn obj))) (global_added_by_short_name (started allocs tables)) =
      table_map (\<lambda>obj. c_string (the (sn obj))) (global_added_by_short_name tables)"
    using assms new(3) by (simp add: started_def made_together_def split: prod.splits)
  show "table_map (\<lambda>obj. c_string (the (ln obj))) (global_added_by_long_name (started allocs tables)) =
      table_map (\<lambda>obj. c_string (the (ln obj))) (global_added_by_long_name tables)"
    using assms new(4) by (simp add: started_def made_together_def split: prod.splits)
qed

lemma obj_add_object_ok:
  assumes "tables_ok tables" "tables_room tables" "made_together tables"
    "obj_add_object allocs tables obj = Some (True, tables')"
    "obj' = obj\<lparr>obj_flags := obj_flags obj AND NOT (0x01 OR 0x04 OR 0x08)\<rparr>"
  shows "tables_ok tables'" "made_together tables'"
    "table_map nid (global_added_by_nid tables') = (table_map nid (global_added_by_nid tables))(nid obj \<mapsto> obj')"
    "table_map (\<lambda>obj. the (obj_data obj)) (global_added_by_data tables') =
      (case obj_data obj of
         None \<Rightarrow> table_map (\<lambda>obj. the (obj_data obj)) (global_added_by_data tables)
       | Some d \<Rightarrow>
           if d = [] then table_map (\<lambda>obj. the (obj_data obj)) (global_added_by_data tables)
           else (table_map (\<lambda>obj. the (obj_data obj)) (global_added_by_data tables))(d \<mapsto> obj'))"
    "table_map (\<lambda>obj. c_string (the (sn obj))) (global_added_by_short_name tables') =
      (case sn obj of
         None \<Rightarrow> table_map (\<lambda>obj. c_string (the (sn obj))) (global_added_by_short_name tables)
       | Some s \<Rightarrow> (table_map (\<lambda>obj. c_string (the (sn obj))) (global_added_by_short_name tables))(c_string s \<mapsto> obj'))"
    "table_map (\<lambda>obj. c_string (the (ln obj))) (global_added_by_long_name tables') =
      (case ln obj of
         None \<Rightarrow> table_map (\<lambda>obj. c_string (the (ln obj))) (global_added_by_long_name tables)
       | Some s \<Rightarrow> (table_map (\<lambda>obj. c_string (the (ln obj))) (global_added_by_long_name tables))(c_string s \<mapsto> obj'))"
proof -
  let ?t = "started allocs tables"
  note ok = started_ok(1) [OF assms(1,2), of allocs, unfolded tables_ok_def]
  note room = started_ok(2) [OF assms(1,2), of allocs, unfolded tables_room_def]
  note maps = started_maps [OF assms(3), of allocs]
  obtain ins1 ins2 ins3 ins4 where ins: "oa_insert allocs = (ins1, ins2, ins3, ins4)" by (cases "oa_insert allocs")
  from assms(4) obtain t1 t2 t3 t4 where t: "table_insert hash_nid cmp_nid ins1 True (global_added_by_nid ?t) obj' = Some (True, t1)"
    "table_insert hash_data cmp_data ins2 (obj_data obj' \<noteq> None \<and> length (the (obj_data obj')) \<noteq> 0) (global_added_by_data ?t) obj' = Some (True, t2)"
    "table_insert hash_short_name cmp_short_name ins3 (sn obj' \<noteq> None) (global_added_by_short_name ?t) obj' = Some (True, t3)"
    "table_insert hash_long_name cmp_long_name ins4 (ln obj' \<noteq> None) (global_added_by_long_name ?t) obj' = Some (True, t4)"
    and tables': "tables' = \<lparr>global_added_by_nid = t1, global_added_by_data = t2,
      global_added_by_short_name = t3, global_added_by_long_name = t4\<rparr>"
    unfolding obj_add_object_def Let_def ins assms(5) by (auto split: option.splits prod.splits)
  have obj': "nid obj' = nid obj" "obj_data obj' = obj_data obj" "sn obj' = sn obj" "ln obj' = ln obj"
    by (simp_all add: assms(5))
  have kept: "table_ok hash_nid nid t1" "table_ok hash_data (\<lambda>obj. the (obj_data obj)) t2"
    "table_ok hash_short_name (\<lambda>obj. c_string (the (sn obj))) t3" "table_ok hash_long_name (\<lambda>obj. c_string (the (ln obj))) t4"
    using ok room
    by (blast intro: table_insert_ok [OF obj_laws(1) _ t(1)] table_insert_ok [OF obj_laws(2) _ t(2)]
        table_insert_ok [OF obj_laws(3) _ t(3)] table_insert_ok [OF obj_laws(4) _ t(4)])+
  then show "tables_ok tables'" by (simp add: tables' tables_ok_def)
  have "t1 \<noteq> None" using t(1) by (auto simp: table_insert_def split: option.splits)
  then show "made_together tables'" by (auto simp: tables' made_together_def)
  show "table_map nid (global_added_by_nid tables') = (table_map nid (global_added_by_nid tables))(nid obj \<mapsto> obj')"
    using ok table_insert_eq [OF obj_laws(1) _ t(1)] maps(1) by (simp add: tables' obj')
  show "table_map (\<lambda>obj. the (obj_data obj)) (global_added_by_data tables') =
      (case obj_data obj of
         None \<Rightarrow> table_map (\<lambda>obj. the (obj_data obj)) (global_added_by_data tables)
       | Some d \<Rightarrow>
           if d = [] then table_map (\<lambda>obj. the (obj_data obj)) (global_added_by_data tables)
           else (table_map (\<lambda>obj. the (obj_data obj)) (global_added_by_data tables))(d \<mapsto> obj'))"
    using ok table_insert_eq [OF obj_laws(2) _ t(2)] maps(2) by (simp add: tables' obj' split: option.splits)
  show "table_map (\<lambda>obj. c_string (the (sn obj))) (global_added_by_short_name tables') =
      (case sn obj of
         None \<Rightarrow> table_map (\<lambda>obj. c_string (the (sn obj))) (global_added_by_short_name tables)
       | Some s \<Rightarrow> (table_map (\<lambda>obj. c_string (the (sn obj))) (global_added_by_short_name tables))(c_string s \<mapsto> obj'))"
    using ok table_insert_eq [OF obj_laws(3) _ t(3)] maps(3) by (simp add: tables' obj' split: option.splits)
  show "table_map (\<lambda>obj. c_string (the (ln obj))) (global_added_by_long_name tables') =
      (case ln obj of
         None \<Rightarrow> table_map (\<lambda>obj. c_string (the (ln obj))) (global_added_by_long_name tables)
       | Some s \<Rightarrow> (table_map (\<lambda>obj. c_string (the (ln obj))) (global_added_by_long_name tables))(c_string s \<mapsto> obj'))"
    using ok table_insert_eq [OF obj_laws(4) _ t(4)] maps(4) by (simp add: tables' obj' split: option.splits)
qed

lemma table_insert_served:
  assumes "hashed hash cmp key" "table_ok hash key table" "wanted \<longrightarrow> table \<noteq> None"
  shows "\<exists>table'. table_insert hash cmp (True, b) wanted table obj = Some (True, table')"
proof (cases wanted)
  case True
  with assms(3) obtain lh where lh: "table = Some lh" by auto
  then have "wf_lhash hash key lh" "num_items lh + 1 < 2 ^ 64" using assms(2) by (simp_all add: table_ok_def)
  from hashed.insert_eq [OF assms(1) this, of True b obj] show ?thesis
    using True by (auto simp: table_insert_def lh)
qed (simp add: table_insert_def)

text \<open>No tables yet, and every request for memory served.\<close>

definition no_tables :: obj_tables where
  "no_tables = \<lparr>global_added_by_nid = None, global_added_by_data = None,
     global_added_by_short_name = None, global_added_by_long_name = None\<rparr>"

definition served_allocs :: obj_allocs where
  "served_allocs =
     \<lparr>oa_new = ((True, True), (True, True), (True, True), (True, True)),
      oa_insert = ((True, True), (True, True), (True, True), (True, True))\<rparr>"

lemma no_tables_ok: "tables_ok no_tables" "tables_room no_tables" "made_together no_tables"
  by (simp_all add: no_tables_def tables_ok_def tables_room_def made_together_def table_ok_def)

text \<open>With memory the object is added, whether it is the first one or not.\<close>

lemma obj_add_object_served:
  assumes "tables_ok tables" "tables_room tables" "made_together tables"
    "global_added_by_nid tables \<noteq> None \<longrightarrow> global_added_by_data tables \<noteq> None \<and>
       global_added_by_short_name tables \<noteq> None \<and> global_added_by_long_name tables \<noteq> None"
  shows "\<exists>tables'. obj_add_object served_allocs tables obj = Some (True, tables')"
proof -
  let ?t = "started served_allocs tables"
  let ?obj = "obj\<lparr>obj_flags := obj_flags obj AND NOT (0x01 OR 0x04 OR 0x08)\<rparr>"
  note ok = started_ok(1) [OF assms(1,2), of served_allocs, unfolded tables_ok_def]
  have some: "OPENSSL_lh_new True True \<noteq> (None :: ASN1_OBJECT LHASH option)" by (simp add: OPENSSL_lh_new_def)
  then have made: "global_added_by_nid ?t \<noteq> None" "global_added_by_data ?t \<noteq> None"
    "global_added_by_short_name ?t \<noteq> None" "global_added_by_long_name ?t \<noteq> None"
    using assms(4) by (auto simp: started_def served_allocs_def)
  obtain t1 where "table_insert hash_nid cmp_nid (True, True) True (global_added_by_nid ?t) ?obj = Some (True, t1)"
    using table_insert_served [OF obj_laws(1)] ok made by blast
  moreover obtain t2 where "table_insert hash_data cmp_data (True, True)
      (obj_data ?obj \<noteq> None \<and> length (the (obj_data ?obj)) \<noteq> 0) (global_added_by_data ?t) ?obj = Some (True, t2)"
    using table_insert_served [OF obj_laws(2)] ok made by blast
  moreover obtain t3 where "table_insert hash_short_name cmp_short_name (True, True) (sn ?obj \<noteq> None)
      (global_added_by_short_name ?t) ?obj = Some (True, t3)"
    using table_insert_served [OF obj_laws(3)] ok made by blast
  moreover obtain t4 where "table_insert hash_long_name cmp_long_name (True, True) (ln ?obj \<noteq> None)
      (global_added_by_long_name ?t) ?obj = Some (True, t4)"
    using table_insert_served [OF obj_laws(4)] ok made by blast
  moreover have "oa_insert served_allocs = ((True, True), (True, True), (True, True), (True, True))"
    by (simp add: served_allocs_def)
  ultimately show ?thesis unfolding obj_add_object_def Let_def by simp
qed

text \<open>
  C38. Adding an object makes it known under everything it has, and changes no other lookup. Let
  obj_add_object succeed, as the first object (when it makes the four tables) or a later one. Then
  OBJ_obj2nid finds its number by its contents, OBJ_sn2nid and OBJ_ln2nid by its names, whatever
  object with the same name was there before, and OBJ_nid2obj finds the object by its number,
  unless the number is one of the built-in range: there the built-in object is returned and the
  added one is not found by number. Other numbers, contents and names give what they gave before.
  Assumed: the tables hold what their hashes say, have room for one more object and were made
  together; objects passed for lookup by contents have no number of their own. The tables keep
  these properties.
\<close>
theorem added_object_is_found:
  assumes "tables_ok tables" "tables_room tables" "made_together tables"
    "obj_add_object allocs tables obj = Some (True, tables')"
  shows "tables_ok tables' \<and> made_together tables' \<and>
    (\<forall>d. OBJ_obj2nid by_contents tables' (Some (blank_object\<lparr>obj_data := Some d\<rparr>)) =
       (if obj_data obj = Some d \<and> d \<noteq> [] then nid obj
        else OBJ_obj2nid by_contents tables (Some (blank_object\<lparr>obj_data := Some d\<rparr>)))) \<and>
    (\<forall>s. OBJ_sn2nid by_name tables' s =
       (if map_option c_string (sn obj) = Some (c_string s) then nid obj else OBJ_sn2nid by_name tables s)) \<and>
    (\<forall>s. OBJ_ln2nid by_name tables' s =
       (if map_option c_string (ln obj) = Some (c_string s) then nid obj else OBJ_ln2nid by_name tables s)) \<and>
    (\<forall>n. OBJ_nid2obj by_number tables' n =
       (if n = nid obj \<and> \<not> (0 \<le> sint n \<and> sint n < NUM_NID)
        then Some (obj\<lparr>obj_flags := obj_flags obj AND NOT (0x01 OR 0x04 OR 0x08)\<rparr>)
        else OBJ_nid2obj by_number tables n))"
proof -
  define obj' where "obj' = obj\<lparr>obj_flags := obj_flags obj AND NOT (0x01 OR 0x04 OR 0x08)\<rparr>"
  have obj': "nid obj' = nid obj" by (simp add: obj'_def)
  note add = obj_add_object_ok [OF assms obj'_def]
  note ok = assms(1) [unfolded tables_ok_def] and ok' = add(1) [unfolded tables_ok_def]
  note find = table_find_eq [OF obj_laws(1)] table_find_eq [OF obj_laws(2)] table_find_eq [OF obj_laws(3)]
    table_find_eq [OF obj_laws(4)]
  have contents: "OBJ_obj2nid by_contents tables' (Some (blank_object\<lparr>obj_data := Some d\<rparr>)) =
       (if obj_data obj = Some d \<and> d \<noteq> [] then nid obj
        else OBJ_obj2nid by_contents tables (Some (blank_object\<lparr>obj_data := Some d\<rparr>)))" for d
    using ok ok' add(4) obj' by (simp add: OBJ_obj2nid_def find blank_object_def split: option.splits)
  have short: "OBJ_sn2nid by_name tables' s =
       (if map_option c_string (sn obj) = Some (c_string s) then nid obj else OBJ_sn2nid by_name tables s)" for s
    using ok ok' add(5) obj' by (simp add: OBJ_sn2nid_def find split: option.splits)
  have long: "OBJ_ln2nid by_name tables' s =
       (if map_option c_string (ln obj) = Some (c_string s) then nid obj else OBJ_ln2nid by_name tables s)" for s
    using ok ok' add(6) obj' by (simp add: OBJ_ln2nid_def find split: option.splits)
  have number: "OBJ_nid2obj by_number tables' n =
       (if n = nid obj \<and> \<not> (0 \<le> sint n \<and> sint n < NUM_NID) then Some obj'
        else OBJ_nid2obj by_number tables n)" for n
    using ok ok' add(3) by (auto simp: OBJ_nid2obj_def find)
  show ?thesis
    using add(1,2) contents short long number unfolding obj'_def by simp
qed

lemma added_object_is_found_witness:
  "\<exists>tables'. obj_add_object served_allocs no_tables (blank_object\<lparr>nid := 1000, sn := Some [0x78]\<rparr>) = Some (True, tables') \<and>
     OBJ_sn2nid (\<lambda>s. None) tables' [0x78] = 1000 \<and> OBJ_sn2nid (\<lambda>s. None) tables' [0x79] = 0 \<and>
     map_option nid (OBJ_nid2obj (\<lambda>n. None) tables' 1000) = Some 1000"
proof -
  let ?obj = "blank_object\<lparr>nid := 1000, sn := Some [0x78]\<rparr>"
  obtain tables' where add: "obj_add_object served_allocs no_tables ?obj = Some (True, tables')"
    using obj_add_object_served [OF no_tables_ok] by (auto simp: no_tables_def)
  have "OBJ_sn2nid (\<lambda>s. None) no_tables [0x79] = 0"
    by (simp add: OBJ_sn2nid_def table_find_def no_tables_def)
  then show ?thesis
    using add added_object_is_found [OF no_tables_ok add, of "\<lambda>s. None" "\<lambda>s. None" "\<lambda>n. None"]
    by (simp add: c_string_def NUM_NID_def)
qed

text \<open>The first object while memory is short: a table that could not be made is used all the same.\<close>

lemma missing_table_is_used:
  "obj_add_object \<lparr>oa_new = ((True, True), (True, True), (False, True), (True, True)),
      oa_insert = ((True, True), (True, True), (True, True), (True, True))\<rparr>
     no_tables (blank_object\<lparr>nid := 1000, sn := Some [0x78]\<rparr>) = None"
proof -
  have none: "table_insert hash cmp served True None obj = None" for hash cmp served obj
    by (simp add: table_insert_def)
  have "OPENSSL_lh_new False True = (None :: ASN1_OBJECT LHASH option)" by (simp add: OPENSSL_lh_new_def)
  then show ?thesis
    by (simp add: obj_add_object_def Let_def started_def none no_tables_def blank_object_def split: option.split)
qed

lemma lhash_refines_map_witness:
  "\<exists>rs lh'. run_lhash hash_nid cmp_nid [Insert blank_object True True, Retrieve blank_object]
     (the (OPENSSL_lh_new True True)) = Some (rs, lh') \<and> OPENSSL_lh_num_items lh' = card (dom (lh_map nid lh'))"
proof -
  have 1: "\<forall>x y. cmp_nid x y = 0 \<longleftrightarrow> nid x = nid y" using by_nid.cmp_zero by blast
  have 2: "\<forall>x y. nid x = nid y \<longrightarrow> hash_nid x = hash_nid y" using by_nid.hash_key by blast
  have 3: "OPENSSL_lh_new True True = Some (the (OPENSSL_lh_new True True :: ASN1_OBJECT LHASH option))"
    by (simp add: OPENSSL_lh_new_def)
  have 4: "length [Insert blank_object True True, Retrieve blank_object] < 2 ^ 64" by simp
  show ?thesis using lhash_refines_map [OF 1 2 3 4] by blast
qed

end
