(* ===== verification/Bn_Words.thy ===== *)
theory Bn_Words
  imports Constant_Time
begin

text \<open>
  Arithmetic on arrays of words, BoringSSL crypto/fipsmodule/bn: generic.c, and the functions of bn.c,
  mul.c, shift.c and cmp.c that work on arrays. BN_ULONG is 64 bits wide and BN_ULLONG 128 bits. An
  array is the list of its words, the least significant first; a function that fills \<open>r\<close> returns the
  words it writes. The loops of generic.c are unrolled by four in the source; the model takes the same
  rounds one at a time. In every round a word of \<open>r\<close> is written after the words of \<open>a\<close> and \<open>b\<close> at that
  place are read, so that \<open>r\<close> may be one of them.
\<close>

unbundle bit_operations_syntax

type_synonym u128 = "128 word"

subsection \<open>generic.c\<close>

fun add_words_loop :: "u128 \<Rightarrow> u64 list \<Rightarrow> u64 list \<Rightarrow> u64 list \<times> u128" where
  "add_words_loop ll (a # as) (b # bs) =
     (let ll = ll + (ucast a + ucast b);
          r0 = ucast ll;
          ll = drop_bit 64 ll
      in case add_words_loop ll as bs of (r, ll) \<Rightarrow> (r0 # r, ll))"
| "add_words_loop ll _ _ = ([], ll)"

definition bn_add_words :: "u64 list \<Rightarrow> u64 list \<Rightarrow> nat \<Rightarrow> u64 list \<times> u64" where
  "bn_add_words a b n =
     (if n = 0 then ([], 0)
      else case add_words_loop 0 (take n a) (take n b) of (r, ll) \<Rightarrow> (r, ucast ll))"

fun sub_words_loop :: "bool \<Rightarrow> u64 list \<Rightarrow> u64 list \<Rightarrow> u64 list \<times> bool" where
  "sub_words_loop c (t1 # as) (t2 # bs) =
     (let r0 = t1 - t2 - of_bool c;
          c = (if t1 \<noteq> t2 then t1 < t2 else c)
      in case sub_words_loop c as bs of (r, c) \<Rightarrow> (r0 # r, c))"
| "sub_words_loop c _ _ = ([], c)"

definition bn_sub_words :: "u64 list \<Rightarrow> u64 list \<Rightarrow> nat \<Rightarrow> u64 list \<times> u64" where
  "bn_sub_words a b n =
     (if n = 0 then ([], 0)
      else case sub_words_loop False (take n a) (take n b) of (r, c) \<Rightarrow> (r, of_bool c))"

text \<open>The macro mul: the low and the high word of \<open>w * a + c\<close>.\<close>

definition mul_word :: "u64 \<Rightarrow> u64 \<Rightarrow> u64 \<Rightarrow> u64 \<times> u64" where
  "mul_word a w c = (let t = ucast w * ucast a + (ucast c :: u128) in (ucast t, ucast (drop_bit 64 t)))"

definition mul_add_word :: "u64 \<Rightarrow> u64 \<Rightarrow> u64 \<Rightarrow> u64 \<Rightarrow> u64 \<times> u64" where
  "mul_add_word r a w c =
     (let t = ucast w * ucast a + ucast r + (ucast c :: u128) in (ucast t, ucast (drop_bit 64 t)))"

fun mul_words_loop :: "u64 \<Rightarrow> u64 list \<Rightarrow> u64 \<Rightarrow> u64 list \<times> u64" where
  "mul_words_loop c [] w = ([], c)"
| "mul_words_loop c (a # as) w =
     (case mul_word a w c of (r0, c) \<Rightarrow> (case mul_words_loop c as w of (r, c) \<Rightarrow> (r0 # r, c)))"

definition bn_mul_words :: "u64 list \<Rightarrow> nat \<Rightarrow> u64 \<Rightarrow> u64 list \<times> u64" where
  "bn_mul_words a num w = (if num = 0 then ([], 0) else mul_words_loop 0 (take num a) w)"

fun mul_add_words_loop :: "u64 \<Rightarrow> u64 list \<Rightarrow> u64 list \<Rightarrow> u64 \<Rightarrow> u64 list \<times> u64" where
  "mul_add_words_loop c (r # rs) (a # as) w =
     (case mul_add_word r a w c of (r0, c) \<Rightarrow> (case mul_add_words_loop c rs as w of (r, c) \<Rightarrow> (r0 # r, c)))"
| "mul_add_words_loop c _ _ w = ([], c)"

definition bn_mul_add_words :: "u64 list \<Rightarrow> u64 list \<Rightarrow> nat \<Rightarrow> u64 \<Rightarrow> u64 list \<times> u64" where
  "bn_mul_add_words r a num w = (if num = 0 then ([], 0) else mul_add_words_loop 0 (take num r) (take num a) w)"

definition sqr_word :: "u64 \<Rightarrow> u64 list" where
  "sqr_word a = (let t = ucast a * (ucast a :: u128) in [ucast t, ucast (drop_bit 64 t)])"

definition bn_sqr_words :: "u64 list \<Rightarrow> nat \<Rightarrow> u64 list" where
  "bn_sqr_words a n = concat (map sqr_word (take n a))"

subsection \<open>The number an array stands for\<close>

fun wval :: "u64 list \<Rightarrow> nat" where
  "wval [] = 0"
| "wval (w # ws) = unat w + 2 ^ 64 * wval ws"

abbreviation limbs :: "nat \<Rightarrow> nat" where
  "limbs n \<equiv> (2 ^ 64) ^ n"

lemma wval_append: "wval (xs @ ys) = wval xs + limbs (length xs) * wval ys"
  by (induction xs) (simp_all add: algebra_simps)

lemma wval_lt: "wval ws < limbs (length ws)"
proof (induction ws)
  case (Cons w ws)
  have "unat w + 2 ^ 64 * wval ws < 2 ^ 64 * (wval ws + 1)" using unat_u64_lt [of w] by simp
  also have "\<dots> \<le> 2 ^ 64 * limbs (length ws)" using Cons by (intro mult_le_mono2) simp
  finally show ?case by simp
qed simp

lemma wval_replicate_0 [simp]: "wval (replicate n 0) = 0"
  by (induction n) simp_all

lemma wval_inj: "length xs = length ys \<Longrightarrow> wval xs = wval ys \<Longrightarrow> xs = ys"
proof (induction xs arbitrary: ys)
  case (Cons x xs)
  then obtain y ys' where ys: "ys = y # ys'" by (cases ys) auto
  have eq: "unat x + 2 ^ 64 * wval xs = unat y + 2 ^ 64 * wval ys'" using Cons.prems ys by simp
  have "(unat x + 2 ^ 64 * wval xs) mod 2 ^ 64 = unat x" "(unat y + 2 ^ 64 * wval ys') mod 2 ^ 64 = unat y"
    by simp_all
  with eq have "unat x = unat y" by simp
  then have "x = y" by (simp add: word_unat_eq_iff)
  with eq Cons ys show ?case by simp
qed simp

lemma wval_zero: "wval ws = 0 \<longleftrightarrow> (\<forall>w\<in>set ws. w = 0)"
  by (induction ws) (auto simp: unat_eq_0)

text \<open>The carry of a sum of words.\<close>

lemma add_overflow: "unat ((x :: u64) + y) + 2 ^ 64 * of_bool (x + y < y) = unat x + unat y"
proof (cases "unat x + unat y < 2 ^ 64")
  case True
  then have "unat (x + y) = unat x + unat y" by (simp add: unat_word_ariths)
  then show ?thesis by (simp add: word_less_nat_alt)
next
  case False
  moreover have "unat x < 2 ^ 64" "unat y < 2 ^ 64" by simp_all
  moreover have "unat (x + y) = (unat x + unat y) mod 2 ^ 64" by (simp add: unat_word_ariths)
  moreover from calculation have "(unat x + unat y) mod 2 ^ 64 = unat x + unat y - 2 ^ 64"
    by (simp only: le_mod_geq not_less) (subst mod_less; linarith)
  ultimately have "unat (x + y) = unat x + unat y - 2 ^ 64" "unat x + unat y - 2 ^ 64 < unat y" "2 ^ 64 \<le> unat x + unat y"
    by linarith+
  then show ?thesis by (simp only: word_less_nat_alt) simp
qed

text \<open>The halves of a double word.\<close>

lemma halves: "unat (ucast (t :: u128) :: u64) + 2 ^ 64 * unat (ucast (drop_bit 64 t) :: u64) = unat t"
proof -
  have t: "unat t < 2 ^ 128" using unat_lt_2p [of t] by simp
  have lo: "unat (ucast t :: u64) = unat t mod 2 ^ 64" by (simp add: unat_ucast_word)
  have "unat t div 2 ^ 64 < 2 ^ 64"
    using t by (simp add: div_less_iff_less_mult)
  then have hi: "unat (ucast (drop_bit 64 t) :: u64) = unat t div 2 ^ 64"
    by (simp add: unat_ucast_word unat_drop_bit)
  show ?thesis unfolding lo hi by (rule mod_mult_div_eq)
qed

lemma unat_double: "unat (ucast (w :: u64) :: u128) = unat w"
proof -
  have "unat w < 2 ^ 128" by (rule less_trans [OF unat_u64_lt]) simp
  then show ?thesis by (simp add: unat_ucast_word)
qed

lemma double_add_unat:
  "unat (x :: u128) + unat y < 2 ^ 128 \<Longrightarrow> unat (x + y) = unat x + unat y"
  by (simp add: unat_word_ariths)

lemma double_mult_unat:
  "unat (ucast (v :: u64) * ucast (w :: u64) :: u128) = unat v * unat w"
proof -
  have "unat v * unat w < 2 ^ 64 * 2 ^ 64"
    using unat_u64_lt [of v] unat_u64_lt [of w] by (intro mult_strict_mono) simp_all
  then show ?thesis by (simp add: unat_word_ariths unat_double)
qed

lemma add_words_loop_eq:
  "length as = length bs \<Longrightarrow> unat ll \<le> 1 \<Longrightarrow>
   (case add_words_loop ll as bs of (r, c) \<Rightarrow>
      length r = length as \<and> unat c \<le> 1 \<and> wval r + limbs (length as) * unat c = wval as + wval bs + unat ll)"
proof (induction ll as bs rule: add_words_loop.induct)
  case (1 ll a as b bs)
  let ?t = "ll + (ucast a + ucast b)"
  have "unat (ucast a + ucast b :: u128) = unat a + unat b"
    using unat_u64_lt [of a] unat_u64_lt [of b] by (subst double_add_unat) (simp_all add: unat_double del: unat_u64_lt)
  then have t: "unat ?t = unat ll + unat a + unat b"
    using unat_u64_lt [of a] unat_u64_lt [of b] 1(3) by (subst double_add_unat) (simp_all del: unat_u64_lt)
  have "unat ?t div 2 ^ 64 \<le> 1"
    using unat_u64_lt [of a] unat_u64_lt [of b] 1(3) unfolding t by (simp del: unat_u64_lt)
  then have le: "unat (drop_bit 64 ?t) \<le> 1" by (simp only: unat_drop_bit)
  obtain r c where rc: "add_words_loop (drop_bit 64 ?t) as bs = (r, c)" by force
  have ih: "length r = length as \<and> unat c \<le> 1 \<and>
      wval r + limbs (length as) * unat c = wval as + wval bs + unat (drop_bit 64 ?t)"
    using 1(1) [OF refl refl refl _ le] 1(2) rc by simp
  have low: "unat (ucast ?t :: u64) + 2 ^ 64 * unat (drop_bit 64 ?t) = unat ll + unat a + unat b"
    unfolding t [symmetric] by (simp add: unat_ucast_word unat_drop_bit)
  have "wval (ucast ?t # r) + limbs (Suc (length as)) * unat c =
      unat (ucast ?t :: u64) + 2 ^ 64 * (wval r + limbs (length as) * unat c)"
    by (simp add: algebra_simps)
  also have "\<dots> = unat ll + unat a + unat b + 2 ^ 64 * (wval as + wval bs)"
    using low ih by (simp add: algebra_simps)
  finally show ?case using ih rc by (simp add: Let_def algebra_simps)
qed simp_all

lemma unat_minus_one_u64: "unat (- 1 :: u64) = 18446744073709551615"
  by (simp add: unsigned_minus_1_eq_mask mask_eq_exp_minus_1)

lemma sub_word_eq:
  "unat (t1 - t2 - of_bool c :: u64) + unat t2 + of_bool c =
    unat t1 + 2 ^ 64 * of_bool (if t1 \<noteq> t2 then t1 < t2 else c)"
proof -
  have d: "unat (t1 - t2) + unat t2 = unat t1 + 2 ^ 64 * of_bool (t1 < t2)"
    using unat_u64_lt [of t2]
    by (simp add: unat_sub_if_size word_size word_less_nat_alt del: unat_u64_lt)
  show ?thesis
  proof (cases c)
    case False
    then show ?thesis using d by auto
  next
    case True
    show ?thesis
    proof (cases "t1 = t2")
      case True
      then show ?thesis using \<open>c\<close> by (simp add: unat_minus_one_u64)
    next
      case False
      then have "t1 - t2 \<noteq> 0" by simp
      then have "unat (t1 - t2 - 1) + 1 = unat (t1 - t2)"
        by (metis Suc_eq_plus1 Suc_pred' unat_gt_0 unat_minus_one)
      with d False \<open>c\<close> show ?thesis by simp
    qed
  qed
qed

lemma sub_words_loop_eq:
  "length as = length bs \<Longrightarrow>
   (case sub_words_loop c as bs of (r, c') \<Rightarrow>
      length r = length as \<and> wval r + wval bs + of_bool c = wval as + limbs (length as) * of_bool c')"
proof (induction c as bs rule: sub_words_loop.induct)
  case (1 c a as b bs)
  let ?r0 = "a - b - of_bool c" and ?c = "if a \<noteq> b then a < b else c"
  obtain r c' where rc: "sub_words_loop ?c as bs = (r, c')" by force
  have ih: "length r = length as \<and> wval r + wval bs + of_bool ?c = wval as + limbs (length as) * of_bool c'"
    using 1(1) [OF refl refl] 1(2) rc by simp
  have "wval (?r0 # r) + wval (b # bs) + of_bool c =
      unat ?r0 + unat b + of_bool c + 2 ^ 64 * (wval r + wval bs)"
    by (simp add: algebra_simps)
  also have "\<dots> = unat a + 2 ^ 64 * (wval r + wval bs + of_bool ?c)"
    unfolding sub_word_eq by (simp add: algebra_simps)
  also have "\<dots> = unat a + 2 ^ 64 * (wval as + limbs (length as) * of_bool c')" using ih by simp
  also have "\<dots> = wval (a # as) + limbs (length (a # as)) * of_bool c'" by (simp add: algebra_simps)
  finally have "wval (?r0 # r) + wval (b # bs) + of_bool c = wval (a # as) + limbs (length (a # as)) * of_bool c'" .
  with ih rc show ?case by (simp only: sub_words_loop.simps Let_def prod.case length_Cons)
qed simp_all

lemma mul_add_word_eq:
  "case mul_add_word r a w c of (l, h) \<Rightarrow> unat l + 2 ^ 64 * unat h = unat w * unat a + unat r + unat c"
proof -
  have le: "unat (v :: u64) \<le> 2 ^ 64 - 1" for v using unat_u64_lt [of v] by (simp del: unat_u64_lt)
  have prod: "unat w * unat a \<le> (2 ^ 64 - 1) * (2 ^ 64 - 1)" using le [of w] le [of a] by (rule mult_le_mono)
  have 1: "unat (ucast w * ucast a + ucast r :: u128) = unat w * unat a + unat r"
    using prod le [of r] by (subst double_add_unat) (simp_all add: double_mult_unat unat_double)
  have "unat (ucast w * ucast a + ucast r + ucast c :: u128) = unat w * unat a + unat r + unat c"
    using prod le [of r] le [of c] by (subst double_add_unat) (simp_all add: 1 unat_double)
  then show ?thesis unfolding mul_add_word_def Let_def prod.case halves .
qed

lemma mul_word_eq: "case mul_word a w c of (l, h) \<Rightarrow> unat l + 2 ^ 64 * unat h = unat w * unat a + unat c"
proof -
  have "mul_word a w c = mul_add_word 0 a w c" by (simp add: mul_word_def mul_add_word_def)
  then show ?thesis using mul_add_word_eq [where r = 0 and a = a and w = w and c = c] by simp
qed

lemma mul_words_loop_eq:
  "case mul_words_loop c as w of (r, c') \<Rightarrow>
     length r = length as \<and> wval r + limbs (length as) * unat c' = wval as * unat w + unat c"
proof (induction c as w rule: mul_words_loop.induct)
  case (2 c a as w)
  obtain l h where lh: "mul_word a w c = (l, h)" by force
  obtain r c' where rc: "mul_words_loop h as w = (r, c')" by force
  have "unat l + 2 ^ 64 * unat h = unat w * unat a + unat c" using mul_word_eq [where a = a and w = w and c = c] lh by simp
  moreover have "length r = length as \<and> wval r + limbs (length as) * unat c' = wval as * unat w + unat h"
    using 2 [OF lh [symmetric]] rc by simp
  moreover have "wval (l # r) + limbs (length (a # as)) * unat c' = unat l + 2 ^ 64 * (wval r + limbs (length as) * unat c')"
    by (simp add: algebra_simps)
  ultimately show ?case using lh rc by (simp add: algebra_simps)
qed simp

lemma mul_add_words_loop_eq:
  "length rs = length as \<Longrightarrow>
   (case mul_add_words_loop c rs as w of (r, c') \<Rightarrow>
     length r = length as \<and> wval r + limbs (length as) * unat c' = wval rs + wval as * unat w + unat c)"
proof (induction c rs as w rule: mul_add_words_loop.induct)
  case (1 c r0 rs a as w)
  obtain l h where lh: "mul_add_word r0 a w c = (l, h)" by force
  obtain r c' where rc: "mul_add_words_loop h rs as w = (r, c')" by force
  have "unat l + 2 ^ 64 * unat h = unat w * unat a + unat r0 + unat c" using mul_add_word_eq [where r = r0 and a = a and w = w and c = c] lh by simp
  moreover have "length r = length as \<and> wval r + limbs (length as) * unat c' = wval rs + wval as * unat w + unat h"
    using 1(1) [OF lh [symmetric]] 1(2) rc by simp
  moreover have "wval (l # r) + limbs (length (a # as)) * unat c' = unat l + 2 ^ 64 * (wval r + limbs (length as) * unat c')"
    by (simp add: algebra_simps)
  ultimately show ?case using lh rc by (simp add: algebra_simps)
qed simp_all

text \<open>The functions, on arrays that are long enough.\<close>

lemma bn_add_words_eq:
  assumes "n \<le> length a" "n \<le> length b"
  shows "case bn_add_words a b n of (r, c) \<Rightarrow> length r = n \<and> unat c \<le> 1 \<and>
    wval r + limbs n * unat c = wval (take n a) + wval (take n b)"
proof (cases "n = 0")
  case False
  obtain r ll where loop: "add_words_loop 0 (take n a) (take n b) = (r, ll)" by force
  have "length r = n" "unat ll \<le> 1" "wval r + limbs n * unat ll = wval (take n a) + wval (take n b)"
    using add_words_loop_eq [of "take n a" "take n b" 0] assms loop by (simp_all add: min_absorb2)
  moreover from this have "unat (ucast ll :: u64) = unat ll" by (simp add: unat_ucast_word)
  ultimately show ?thesis using False loop by (simp add: bn_add_words_def)
qed (simp add: bn_add_words_def)

lemma bn_sub_words_eq:
  assumes "n \<le> length a" "n \<le> length b"
  shows "case bn_sub_words a b n of (r, c) \<Rightarrow> length r = n \<and> (c = 0 \<or> c = 1) \<and>
    wval r + wval (take n b) = wval (take n a) + limbs n * unat c"
proof (cases "n = 0")
  case False
  obtain r c where loop: "sub_words_loop False (take n a) (take n b) = (r, c)" by force
  then show ?thesis
    using sub_words_loop_eq [of "take n a" "take n b" False] assms False
    by (cases c) (simp_all add: bn_sub_words_def min_absorb2)
qed (simp add: bn_sub_words_def)

lemma bn_mul_words_eq:
  assumes "n \<le> length a"
  shows "case bn_mul_words a n w of (r, c) \<Rightarrow> length r = n \<and> wval r + limbs n * unat c = wval (take n a) * unat w"
  using mul_words_loop_eq [where c = 0 and as = "take n a" and w = w] assms by (auto simp: bn_mul_words_def min_absorb2 split: prod.splits)

lemma bn_mul_add_words_eq:
  assumes "n \<le> length r" "n \<le> length a"
  shows "case bn_mul_add_words r a n w of (r', c) \<Rightarrow> length r' = n \<and>
    wval r' + limbs n * unat c = wval (take n r) + wval (take n a) * unat w"
  using mul_add_words_loop_eq [where c = 0 and rs = "take n r" and as = "take n a" and w = w] assms
  by (auto simp: bn_mul_add_words_def min_absorb2 split: prod.splits)

end
