(* ===== verification/Bn.thy ===== *)
theory Bn
  imports Bn_Words
begin

text \<open>
  BIGNUM of BoringSSL, crypto/fipsmodule/bn/bn.c: a sign and words in an array that may be longer than
  the number. The array is the list \<open>bn_d\<close> (NULL is the empty list), of which the first \<open>bn_width\<close>
  words count. A request to the allocator is a flag, whether it is served, and a function that says
  what the fresh words hold. A number is passed by value; where the code passes a pointer to the
  result that is also an operand, the operand is read before it changes.
\<close>

unbundle bit_operations_syntax

record BIGNUM =
  bn_d :: "u64 list"
  bn_width :: nat
  bn_dmax :: nat
  bn_neg :: bool
  bn_static :: bool
  bn_malloced :: bool

type_synonym word_alloc = "bool \<times> (nat \<Rightarrow> u64)"

definition BN_init :: BIGNUM where
  "BN_init = \<lparr>bn_d = [], bn_width = 0, bn_dmax = 0, bn_neg = False, bn_static = False, bn_malloced = False\<rparr>"

definition BN_new :: "bool \<Rightarrow> BIGNUM option" where
  "BN_new served = (if served then Some (BN_init\<lparr>bn_malloced := True\<rparr>) else None)"

text \<open>The number that is left, or None where its own memory is released too.\<close>

definition BN_free :: "BIGNUM option \<Rightarrow> BIGNUM option" where
  "BN_free bn =
     (case bn of
        None \<Rightarrow> None
      | Some bn \<Rightarrow> if bn_malloced bn then None else Some (bn\<lparr>bn_d := []\<rparr>))"

definition bn_wexpand :: "word_alloc \<Rightarrow> BIGNUM \<Rightarrow> nat \<Rightarrow> bool \<times> BIGNUM" where
  "bn_wexpand al bn words =
     (if words \<le> bn_dmax bn then (True, bn)
      else if 2147483647 div (4 * 64) < words then (False, bn)
      else if bn_static bn then (False, bn)
      else if \<not> fst al then (False, bn)
      else
        (True, bn\<lparr>bn_d := take (bn_width bn) (bn_d bn) @ map (snd al) [bn_width bn..<words], bn_dmax := words\<rparr>))"

definition bn_expand :: "word_alloc \<Rightarrow> BIGNUM \<Rightarrow> nat \<Rightarrow> bool \<times> BIGNUM" where
  "bn_expand al bn bits =
     (if size_add bits 63 < bits then (False, bn)
      else bn_wexpand al bn (size_add bits 63 div 64))"

text \<open>Words stored at the front of the array.\<close>

definition put_words :: "BIGNUM \<Rightarrow> u64 list \<Rightarrow> BIGNUM" where
  "put_words bn ws = bn\<lparr>bn_d := ws @ drop (length ws) (bn_d bn)\<rparr>"

definition BN_copy :: "word_alloc \<Rightarrow> BIGNUM \<Rightarrow> BIGNUM \<Rightarrow> bool \<times> BIGNUM" where
  "BN_copy al dest src =
     (case bn_wexpand al dest (bn_width src) of
        (ok, dest) \<Rightarrow>
          if \<not> ok then (False, dest)
          else (True, (put_words dest (take (bn_width src) (bn_d src)))\<lparr>bn_width := bn_width src, bn_neg := bn_neg src\<rparr>))"

definition BN_dup :: "bool \<Rightarrow> word_alloc \<Rightarrow> BIGNUM option \<Rightarrow> BIGNUM option" where
  "BN_dup served al src =
     (case src of
        None \<Rightarrow> None
      | Some src \<Rightarrow>
          (case BN_new served of
             None \<Rightarrow> None
           | Some copy \<Rightarrow> (case BN_copy al copy src of (ok, copy) \<Rightarrow> if ok then Some copy else None)))"

definition BN_clear :: "BIGNUM \<Rightarrow> BIGNUM" where
  "BN_clear bn = bn\<lparr>bn_d := replicate (length (bn_d bn)) 0, bn_width := 0, bn_neg := False\<rparr>"

text \<open>One of the blocks of BN_num_bits_word.\<close>

definition num_bits_step :: "nat \<Rightarrow> u64 \<times> nat \<Rightarrow> u64 \<times> nat" where
  "num_bits_step k = (\<lambda>(l, bits).
     let x = drop_bit k l;
         msk = 0 - x;
         msk = 0 - drop_bit 63 msk;
         bits = bits + unat (of_nat k AND msk);
         l = l XOR ((x XOR l) AND msk)
     in (l, bits))"

definition BN_num_bits_word :: "u64 \<Rightarrow> nat" where
  "BN_num_bits_word l =
     snd (num_bits_step 1 (num_bits_step 2 (num_bits_step 4 (num_bits_step 8 (num_bits_step 16
       (num_bits_step 32 (l, of_bool (l \<noteq> 0))))))))"

fun minimal_width_loop :: "u64 list \<Rightarrow> nat \<Rightarrow> nat" where
  "minimal_width_loop d 0 = 0"
| "minimal_width_loop d (Suc ret) = (if d ! ret = 0 then minimal_width_loop d ret else Suc ret)"

definition bn_minimal_width :: "BIGNUM \<Rightarrow> nat" where
  "bn_minimal_width bn = minimal_width_loop (bn_d bn) (bn_width bn)"

definition bn_set_minimal_width :: "BIGNUM \<Rightarrow> BIGNUM" where
  "bn_set_minimal_width bn =
     (let bn = bn\<lparr>bn_width := bn_minimal_width bn\<rparr>
      in if bn_width bn = 0 then bn\<lparr>bn_neg := False\<rparr> else bn)"

definition BN_num_bits :: "BIGNUM \<Rightarrow> nat" where
  "BN_num_bits bn =
     (let width = bn_minimal_width bn
      in if width = 0 then 0 else (width - 1) * 64 + BN_num_bits_word (bn_d bn ! (width - 1)))"

definition BN_num_bytes :: "BIGNUM \<Rightarrow> nat" where
  "BN_num_bytes bn = (BN_num_bits bn + 7) div 8"

definition BN_zero :: "BIGNUM \<Rightarrow> BIGNUM" where
  "BN_zero bn = bn\<lparr>bn_width := 0, bn_neg := False\<rparr>"

definition BN_set_word :: "word_alloc \<Rightarrow> BIGNUM \<Rightarrow> u64 \<Rightarrow> bool \<times> BIGNUM" where
  "BN_set_word al bn v =
     (if v = 0 then (True, BN_zero bn)
      else
        (case bn_wexpand al bn 1 of
           (ok, bn) \<Rightarrow>
             if \<not> ok then (False, bn)
             else (True, (put_words (bn\<lparr>bn_neg := False\<rparr>) [v])\<lparr>bn_width := 1\<rparr>)))"

definition BN_one :: "word_alloc \<Rightarrow> BIGNUM \<Rightarrow> bool \<times> BIGNUM" where
  "BN_one al bn = BN_set_word al bn 1"

definition BN_set_u64 :: "word_alloc \<Rightarrow> BIGNUM \<Rightarrow> u64 \<Rightarrow> bool \<times> BIGNUM" where
  "BN_set_u64 al bn v = BN_set_word al bn v"

definition bn_set_words :: "word_alloc \<Rightarrow> BIGNUM \<Rightarrow> u64 list \<Rightarrow> nat \<Rightarrow> bool \<times> BIGNUM" where
  "bn_set_words al bn words num =
     (case bn_wexpand al bn num of
        (ok, bn) \<Rightarrow>
          if \<not> ok then (False, bn)
          else (True, (put_words bn (take num words))\<lparr>bn_width := num, bn_neg := False\<rparr>))"

definition bn_set_static_words :: "BIGNUM \<Rightarrow> u64 list \<Rightarrow> nat \<Rightarrow> BIGNUM" where
  "bn_set_static_words bn words num =
     bn\<lparr>bn_d := words, bn_width := num, bn_dmax := num, bn_neg := False, bn_static := True\<rparr>"

definition bn_fits_in_words :: "BIGNUM \<Rightarrow> nat \<Rightarrow> bool" where
  "bn_fits_in_words bn num = (foldl (OR) 0 (drop num (take (bn_width bn) (bn_d bn))) = 0)"

definition bn_copy_words :: "nat \<Rightarrow> BIGNUM \<Rightarrow> u64 list option" where
  "bn_copy_words num bn =
     (if bn_neg bn then None
      else if num < bn_width bn \<and> \<not> bn_fits_in_words bn num then None
      else
        (let width = (if num < bn_width bn then num else bn_width bn)
         in Some (take width (bn_d bn) @ replicate (num - width) 0)))"

definition BN_is_zero :: "BIGNUM \<Rightarrow> bool" where
  "BN_is_zero bn = bn_fits_in_words bn 0"

definition BN_is_negative :: "BIGNUM \<Rightarrow> bool" where
  "BN_is_negative bn = bn_neg bn"

definition BN_set_negative :: "BIGNUM \<Rightarrow> bool \<Rightarrow> BIGNUM" where
  "BN_set_negative bn sign_set = (if sign_set \<and> \<not> BN_is_zero bn then bn\<lparr>bn_neg := True\<rparr> else bn\<lparr>bn_neg := False\<rparr>)"

definition bn_resize_words :: "word_alloc \<Rightarrow> BIGNUM \<Rightarrow> nat \<Rightarrow> bool \<times> BIGNUM" where
  "bn_resize_words al bn words =
     (if bn_width bn \<le> words then
        (case bn_wexpand al bn words of
           (ok, bn) \<Rightarrow>
             if \<not> ok then (False, bn)
             else (True, (put_words bn (take (bn_width bn) (bn_d bn) @ replicate (words - bn_width bn) 0))\<lparr>bn_width := words\<rparr>))
      else if \<not> bn_fits_in_words bn words then (False, bn)
      else (True, bn\<lparr>bn_width := words\<rparr>))"

definition bn_select_words :: "u64 \<Rightarrow> u64 list \<Rightarrow> u64 list \<Rightarrow> nat \<Rightarrow> u64 list" where
  "bn_select_words msk a b num = map2 (constant_time_select_w msk) (take num a) (take num b)"

subsection \<open>The number\<close>

text \<open>The fields fit together; width and dmax are of type int.\<close>

definition wf_bn :: "BIGNUM \<Rightarrow> bool" where
  "wf_bn bn \<longleftrightarrow> length (bn_d bn) = bn_dmax bn \<and> bn_width bn \<le> bn_dmax bn \<and> bn_dmax bn < 2 ^ 31"

definition bn_words :: "BIGNUM \<Rightarrow> u64 list" where
  "bn_words bn = take (bn_width bn) (bn_d bn)"

definition bn_nat :: "BIGNUM \<Rightarrow> nat" where
  "bn_nat bn = wval (bn_words bn)"

definition bn_int :: "BIGNUM \<Rightarrow> int" where
  "bn_int bn = (if bn_neg bn then - int (bn_nat bn) else int (bn_nat bn))"

text \<open>No negative zero.\<close>

definition canonical :: "BIGNUM \<Rightarrow> bool" where
  "canonical bn \<longleftrightarrow> wf_bn bn \<and> (bn_neg bn \<longrightarrow> bn_nat bn \<noteq> 0)"

lemma length_bn_words: "wf_bn bn \<Longrightarrow> length (bn_words bn) = bn_width bn"
  by (simp add: bn_words_def wf_bn_def)

text \<open>Growing keeps the number; it fails only for want of memory, or for a number too long, or in static data.\<close>

lemma bn_wexpand_eq:
  assumes "wf_bn bn" "bn_wexpand al bn words = (ok, bn')"
  shows "wf_bn bn' \<and> bn_words bn' = bn_words bn \<and> bn_width bn' = bn_width bn \<and> bn_neg bn' = bn_neg bn \<and>
    (ok \<longrightarrow> words \<le> bn_dmax bn') \<and> (\<not> ok \<longrightarrow> bn' = bn) \<and>
    (fst al \<and> words \<le> 8388607 \<and> \<not> bn_static bn \<longrightarrow> ok)"
  using assms by (auto simp: bn_wexpand_def wf_bn_def bn_words_def split: if_splits)

text \<open>When there is room for \<open>n\<close> words: in the array, or by an allocation that is served.\<close>

definition room :: "word_alloc \<Rightarrow> BIGNUM \<Rightarrow> nat \<Rightarrow> bool" where
  "room al bn n \<longleftrightarrow> n \<le> bn_dmax bn \<or> (fst al \<and> n \<le> 8388607 \<and> \<not> bn_static bn)"

lemma bn_wexpand_ok: "bn_wexpand al bn n = (ok, bn') \<Longrightarrow> ok \<longleftrightarrow> room al bn n"
  by (auto simp: bn_wexpand_def room_def split: if_splits)

lemma put_words_eq:
  "wf_bn bn \<Longrightarrow> length ws \<le> bn_dmax bn \<Longrightarrow>
   wf_bn ((put_words bn ws)\<lparr>bn_width := length ws\<rparr>) \<and> bn_words ((put_words bn ws)\<lparr>bn_width := length ws\<rparr>) = ws \<and>
   bn_dmax (put_words bn ws) = bn_dmax bn \<and> bn_neg (put_words bn ws) = bn_neg bn"
  by (simp add: put_words_def wf_bn_def bn_words_def)

lemma foldl_or_zero: "foldl (OR) m ws = (0 :: u64) \<longleftrightarrow> m = 0 \<and> (\<forall>w\<in>set ws. w = 0)"
  by (induction ws arbitrary: m) (auto simp: or_eq_0_iff)

lemma bn_fits_in_words_eq:
  assumes "wf_bn bn"
  shows "bn_fits_in_words bn num \<longleftrightarrow> bn_nat bn < limbs num"
proof -
  let ?ws = "bn_words bn"
  have fits: "bn_fits_in_words bn num \<longleftrightarrow> wval (drop num ?ws) = 0"
    by (simp add: bn_fits_in_words_def bn_words_def foldl_or_zero wval_zero)
  show ?thesis
  proof (cases "num \<le> length ?ws")
    case True
    then have split: "wval ?ws = wval (take num ?ws) + limbs num * wval (drop num ?ws)"
      using wval_append [of "take num ?ws" "drop num ?ws"] by (simp add: min_absorb2)
    have lt: "wval (take num ?ws) < limbs num" using wval_lt [of "take num ?ws"] True by (simp add: min_absorb2)
    show ?thesis
    proof (cases "wval (drop num ?ws) = 0")
      case False
      then have "limbs num * 1 \<le> limbs num * wval (drop num ?ws)" by (intro mult_le_mono2) simp
      then have "limbs num \<le> wval ?ws" using split by linarith
      then have "\<not> wval ?ws < limbs num" by (simp only: not_less)
      moreover have "\<not> bn_fits_in_words bn num" using fits False by simp
      ultimately show ?thesis by (simp only: bn_nat_def)
    qed (use fits split lt in \<open>simp add: bn_nat_def\<close>)
  next
    case False
    then have "limbs (length ?ws) \<le> limbs num" by (intro power_increasing) simp_all
    then have "wval ?ws < limbs num" using wval_lt [of ?ws] by (rule less_le_trans [rotated])
    with False fits show ?thesis by (simp add: bn_nat_def)
  qed
qed

lemma BN_is_zero_eq: "wf_bn bn \<Longrightarrow> BN_is_zero bn \<longleftrightarrow> bn_nat bn = 0"
  by (simp add: BN_is_zero_def bn_fits_in_words_eq)

lemma minimal_width_loop_le: "minimal_width_loop d n \<le> n"
  by (induction n) simp_all

lemma minimal_width_loop_wval:
  "n \<le> length d \<Longrightarrow> wval (take (minimal_width_loop d n) d) = wval (take n d)"
proof (induction n)
  case (Suc n)
  then show ?case by (auto simp: take_Suc_conv_app_nth wval_append)
qed simp

lemma minimal_width_loop_top:
  "0 < minimal_width_loop d n \<Longrightarrow> d ! (minimal_width_loop d n - 1) \<noteq> 0"
  by (induction n) (auto split: if_splits)

lemma bn_set_minimal_width_eq:
  assumes "wf_bn bn"
  shows "canonical (bn_set_minimal_width bn) \<and> bn_nat (bn_set_minimal_width bn) = bn_nat bn \<and>
    bn_int (bn_set_minimal_width bn) = bn_int bn"
proof -
  let ?w = "bn_minimal_width bn"
  have w: "?w \<le> bn_width bn" "wval (take ?w (bn_d bn)) = bn_nat bn"
    using minimal_width_loop_le minimal_width_loop_wval assms
    by (simp_all add: bn_minimal_width_def bn_nat_def bn_words_def wf_bn_def)
  have pos: "bn_nat bn \<noteq> 0" if "0 < ?w"
  proof -
    have "bn_d bn ! (?w - 1) \<noteq> 0" using minimal_width_loop_top that by (simp add: bn_minimal_width_def)
    moreover have "bn_d bn ! (?w - 1) \<in> set (take ?w (bn_d bn))"
      using that w(1) assms by (auto simp: in_set_conv_nth wf_bn_def intro: exI [of _ "?w - 1"])
    ultimately show ?thesis using wval_zero [of "take ?w (bn_d bn)"] w(2) by auto
  qed
  show ?thesis
  proof (cases "?w = 0")
    case True
    then have "bn_nat bn = 0" using w(2) by simp
    with True assms show ?thesis
      by (simp add: bn_set_minimal_width_def Let_def canonical_def wf_bn_def bn_nat_def bn_words_def bn_int_def)
  next
    case False
    with w assms pos show ?thesis
      by (simp add: bn_set_minimal_width_def Let_def canonical_def wf_bn_def bn_nat_def bn_words_def bn_int_def)
  qed
qed

text \<open>The number of bits.\<close>

definition bit_length :: "nat \<Rightarrow> nat \<Rightarrow> bool" where
  "bit_length v n \<longleftrightarrow> v < 2 ^ n \<and> (n = 0 \<or> 2 ^ (n - 1) \<le> v)"

lemma num_bits_step_eq:
  assumes "0 < k" "k < 64"
  shows "num_bits_step k (l, bits) = (if unat l < 2 ^ k then (l, bits) else (drop_bit k l, bits + k))"
proof -
  have x: "unat (drop_bit k l) = unat l div 2 ^ k" by (subst unat_drop_bit_eq) (simp only: drop_bit_eq_div)
  have zero: "drop_bit k l = 0 \<longleftrightarrow> unat l < 2 ^ k" using x by (metis div_eq_0_iff unat_eq_0 zero_less_numeral zero_less_power not_numeral_le_zero unat_0 zero_neq_numeral power_eq_0_iff)
  show ?thesis
  proof (cases "drop_bit k l = 0")
    case False
    have "unat l div 2 ^ k \<le> unat l div 2 ^ 1" using assms by (intro div_le_mono2 power_increasing) simp_all
    moreover have "unat l div 2 ^ 1 < 2 ^ 63" using unat_u64_lt [of l] by (simp del: unat_u64_lt unat_lt_2p)
    ultimately have "unat (drop_bit k l) < 2 ^ 63" unfolding x by (rule le_less_trans)
    moreover have "0 < unat (drop_bit k l)" using False by (simp add: unat_gt_0)
    ultimately have "unat (0 - drop_bit k l) = 2 ^ 64 - unat (drop_bit k l)"
      "0 < unat (drop_bit k l)" "unat (drop_bit k l) < 2 ^ 63"
      unfolding unat_sub_if' by simp_all
    moreover have "(2 ^ 64 - y) div 2 ^ 63 = 1" if "0 < y" "y < 2 ^ 63" for y :: nat
      using that by (intro div_nat_eqI) simp_all
    ultimately have "unat (0 - drop_bit k l) div 2 ^ 63 = 1" by simp
    then have "unat (drop_bit 63 (0 - drop_bit k l)) = unat (1 :: u64)"
      by (subst unat_drop_bit_eq) (simp only: drop_bit_eq_div unat_1)
    then have top: "drop_bit 63 (- drop_bit k l) = 1" by (simp only: word_unat_eq_iff diff_0)
    have "unat (of_nat k :: u64) = k" using assms by (simp add: unat_of_nat take_bit_nat_eq_self)
    with False zero top show ?thesis by (simp add: num_bits_step_def xor.commute [of "drop_bit k l"] xor.assoc [symmetric])
  qed (use zero in \<open>simp add: num_bits_step_def\<close>)
qed

definition bits_found :: "u64 \<Rightarrow> nat \<Rightarrow> u64 \<times> nat \<Rightarrow> bool" where
  "bits_found l k st \<longleftrightarrow> (\<exists>s. st = (drop_bit s l, s + of_bool (l \<noteq> 0)) \<and> unat (drop_bit s l) < 2 ^ k \<and>
     (l \<noteq> 0 \<longrightarrow> drop_bit s l \<noteq> 0))"

lemma bits_found_step:
  assumes "bits_found l j st" "j = 2 * k" "0 < k" "k < 64"
  shows "bits_found l k (num_bits_step k st)"
proof -
  obtain s where s: "st = (drop_bit s l, s + of_bool (l \<noteq> 0))" "unat (drop_bit s l) < 2 ^ j"
    "l \<noteq> 0 \<longrightarrow> drop_bit s l \<noteq> 0"
    using assms(1) unfolding bits_found_def by blast
  note step = num_bits_step_eq [OF assms(3,4), of "drop_bit s l" "s + of_bool (l \<noteq> 0)"]
  show ?thesis
  proof (cases "unat (drop_bit s l) < 2 ^ k")
    case True
    then have "num_bits_step k st = st" using step s(1) by simp
    with s True show ?thesis unfolding bits_found_def by auto
  next
    case False
    have next_bits: "num_bits_step k st = (drop_bit (s + k) l, s + k + of_bool (l \<noteq> 0))"
      using step s(1) False by (simp add: drop_bit_drop_bit add.commute)
    have div: "unat (drop_bit (s + k) l) = unat (drop_bit s l) div 2 ^ k"
      by (subst (1 2) unat_drop_bit_eq) (simp only: drop_bit_eq_div power_add div_mult2_eq)
    have "unat (drop_bit s l) < 2 ^ k * 2 ^ k" using s(2) assms(2) by (simp only: mult_2 power_add)
    then have lt: "unat (drop_bit (s + k) l) < 2 ^ k" unfolding div by (rule less_mult_imp_div_less)
    have "0 < unat (drop_bit (s + k) l)" unfolding div using False by (simp add: div_greater_zero_iff)
    then have "drop_bit (s + k) l \<noteq> 0" by (auto simp only: unat_0)
    with next_bits lt show ?thesis unfolding bits_found_def by blast
  qed
qed

lemma BN_num_bits_word_eq: "bit_length (unat l) (BN_num_bits_word l)"
proof -
  have "bits_found l 64 (l, of_bool (l \<noteq> 0))"
    unfolding bits_found_def by (intro exI [of _ 0]) simp
  then have "bits_found l 1 (num_bits_step 1 (num_bits_step 2 (num_bits_step 4 (num_bits_step 8 (num_bits_step 16
       (num_bits_step 32 (l, of_bool (l \<noteq> 0))))))))"
    by (intro bits_found_step [where j = 2] bits_found_step [where j = 4] bits_found_step [where j = 8]
        bits_found_step [where j = 16] bits_found_step [where j = 32] bits_found_step [where j = 64]) simp_all
  then obtain s where s: "BN_num_bits_word l = s + of_bool (l \<noteq> 0)" "unat (drop_bit s l) < 2"
    "l \<noteq> 0 \<longrightarrow> drop_bit s l \<noteq> 0"
    unfolding bits_found_def BN_num_bits_word_def by auto
  show ?thesis
  proof (cases "l = 0")
    case True
    have "num_bits_step k (0, n) = (0, n)" for k n by (simp add: num_bits_step_def)
    with True show ?thesis by (simp add: bit_length_def BN_num_bits_word_def)
  next
    case False
    then have "unat (drop_bit s l) = 1" using s(2,3) unat_eq_0 [of "drop_bit s l"] by linarith
    then have one: "unat l div 2 ^ s = 1" by (subst (asm) unat_drop_bit_eq) (simp only: drop_bit_eq_div)
    have "2 ^ s \<le> unat l" using one by (metis div_less leI zero_neq_one)
    moreover have "unat l < 2 ^ s * 2" using one by (metis div_less_iff_less_mult mult.commute one_less_numeral_iff semiring_norm(76) zero_less_numeral zero_less_power)
    ultimately show ?thesis using False s(1) by (simp add: bit_length_def)
  qed
qed

lemma bn_minimal_width_eq:
  assumes "wf_bn bn"
  shows "bn_minimal_width bn \<le> bn_width bn" "wval (take (bn_minimal_width bn) (bn_d bn)) = bn_nat bn"
    "0 < bn_minimal_width bn \<Longrightarrow> bn_d bn ! (bn_minimal_width bn - 1) \<noteq> 0"
  using minimal_width_loop_le minimal_width_loop_wval minimal_width_loop_top assms
  by (simp_all add: bn_minimal_width_def bn_nat_def bn_words_def wf_bn_def)

lemma BN_num_bits_eq:
  assumes "wf_bn bn"
  shows "bit_length (bn_nat bn) (BN_num_bits bn)"
proof (cases "bn_minimal_width bn")
  case 0
  then show ?thesis using bn_minimal_width_eq(2) [OF assms] by (simp add: BN_num_bits_def bit_length_def)
next
  case (Suc w)
  define top bits where "top = bn_d bn ! w" and "bits = BN_num_bits_word top"
  have "w < length (bn_d bn)" using bn_minimal_width_eq(1) [OF assms] Suc assms by (simp add: wf_bn_def)
  then have "bn_nat bn = wval (take w (bn_d bn)) + limbs w * unat top"
    using bn_minimal_width_eq(2) [OF assms] Suc by (simp add: top_def take_Suc_conv_app_nth wval_append)
  moreover have "wval (take w (bn_d bn)) < limbs w" using wval_lt [of "take w (bn_d bn)"] \<open>w < _\<close> by (simp add: min_absorb2)
  moreover have "top \<noteq> 0" using bn_minimal_width_eq(3) [OF assms] Suc by (simp add: top_def)
  moreover have top_bits: "bit_length (unat top) bits" by (simp add: bits_def BN_num_bits_word_eq)
  moreover have pos: "0 < bits" using top_bits \<open>top \<noteq> 0\<close> by (cases bits) (simp_all add: bit_length_def unat_eq_0)
  moreover have limbs: "limbs w = 2 ^ (w * 64)" by (simp only: mult.commute [of w] power_mult)
  ultimately have nat: "bn_nat bn < 2 ^ (w * 64) * (unat top + 1)" "2 ^ (w * 64) * unat top \<le> bn_nat bn"
    "unat top + 1 \<le> 2 ^ bits" "2 ^ (bits - 1) \<le> unat top"
    by (simp_all add: bit_length_def)
  have "bn_nat bn < 2 ^ (w * 64) * 2 ^ bits" using nat(1) mult_le_mono2 [OF nat(3)] by (rule less_le_trans)
  moreover have "2 ^ (w * 64) * 2 ^ (bits - 1) \<le> bn_nat bn" using mult_le_mono2 [OF nat(4)] nat(2) by (rule le_trans)
  moreover have "w * 64 + bits - 1 = w * 64 + (bits - 1)" using pos by simp
  moreover have "BN_num_bits bn = w * 64 + bits" by (simp add: BN_num_bits_def Suc top_def bits_def)
  ultimately show ?thesis by (simp add: bit_length_def power_add)
qed

text \<open>A copy has the value and the sign of the original; zero and a word are what they say.\<close>

lemma BN_copy_eq:
  assumes "wf_bn dest" "wf_bn src" "BN_copy al dest src = (ok, dest')"
  shows "wf_bn dest' \<and> (ok \<longrightarrow> bn_words dest' = bn_words src \<and> bn_neg dest' = bn_neg src) \<and> (\<not> ok \<longrightarrow> dest' = dest)"
proof -
  obtain ok' d where grow: "bn_wexpand al dest (bn_width src) = (ok', d)" by force
  note grown = bn_wexpand_eq [OF assms(1) grow]
  show ?thesis
  proof (cases ok')
    case True
    have "wf_bn ((put_words d (bn_words src))\<lparr>bn_width := length (bn_words src)\<rparr>) \<and>
      bn_words ((put_words d (bn_words src))\<lparr>bn_width := length (bn_words src)\<rparr>) = bn_words src"
      using put_words_eq [of d "bn_words src"] grown True assms(2) by (simp add: length_bn_words)
    with assms(2,3) grow True show ?thesis
      by (auto simp: BN_copy_def bn_words_def [of src, symmetric] length_bn_words wf_bn_def bn_words_def [of "_\<lparr>bn_neg := _\<rparr>"]
          bn_words_def [of "_\<lparr>bn_width := _\<rparr>"])
  next
    case False
    with grown assms(1,3) grow show ?thesis by (simp add: BN_copy_def)
  qed
qed

lemma BN_set_word_eq:
  assumes "wf_bn bn" "BN_set_word al bn v = (ok, bn')"
  shows "wf_bn bn' \<and> (ok \<longrightarrow> canonical bn' \<and> bn_nat bn' = unat v \<and> \<not> bn_neg bn') \<and> (\<not> ok \<longrightarrow> bn' = bn)"
proof (cases "v = 0")
  case True
  with assms show ?thesis by (auto simp: BN_set_word_def BN_zero_def canonical_def wf_bn_def bn_nat_def bn_words_def)
next
  case False
  obtain ok' d where grow: "bn_wexpand al bn 1 = (ok', d)" by force
  note grown = bn_wexpand_eq [OF assms(1) grow]
  show ?thesis
  proof (cases ok')
    case True
    with False assms(2) grow have "ok" "bn' = (put_words (d\<lparr>bn_neg := False\<rparr>) [v])\<lparr>bn_width := 1\<rparr>"
      by (simp_all add: BN_set_word_def)
    with grown True show ?thesis
      by (simp add: canonical_def wf_bn_def put_words_def bn_nat_def bn_words_def)
  next
    case notok: False
    with False assms grow grown show ?thesis by (simp add: BN_set_word_def)
  qed
qed

text \<open>Numbers moved in and out of arrays of a fixed length.\<close>

lemma wval_padded: "wval (ws @ replicate n 0) = wval ws"
  by (simp add: wval_append)

lemma bn_set_words_eq:
  assumes "wf_bn bn" "num \<le> length words" "bn_set_words al bn words num = (ok, bn')"
  shows "wf_bn bn' \<and> (ok \<longrightarrow> canonical bn' \<and> bn_words bn' = take num words \<and> \<not> bn_neg bn') \<and>
    (ok \<longleftrightarrow> room al bn num)"
proof -
  obtain ok1 d where grow: "bn_wexpand al bn num = (ok1, d)" by force
  note grown = bn_wexpand_eq [OF assms(1) grow] and room = bn_wexpand_ok [OF grow]
  show ?thesis
  proof (cases ok1)
    case True
    then have "ok" "bn' = (put_words d (take num words))\<lparr>bn_width := num, bn_neg := False\<rparr>"
      using assms(3) grow by (simp_all add: bn_set_words_def)
    with grown room True assms(2) show ?thesis
      by (simp add: canonical_def wf_bn_def bn_words_def put_words_def min_absorb2)
  next
    case False
    with assms grow grown room show ?thesis by (simp add: bn_set_words_def)
  qed
qed

lemma bn_copy_words_eq:
  assumes "wf_bn bn"
  shows "bn_copy_words num bn =
    (if bn_neg bn \<or> limbs num \<le> bn_nat bn then None else Some (take num (bn_words bn @ replicate num 0)))"
proof (cases "num < bn_width bn \<and> \<not> bn_fits_in_words bn num")
  case True
  with bn_fits_in_words_eq [OF assms] show ?thesis by (simp add: bn_copy_words_def)
next
  case False
  have "bn_nat bn < limbs num"
  proof (cases "num < bn_width bn")
    case True
    with False bn_fits_in_words_eq [OF assms] show ?thesis by simp
  next
    case narrow: False
    have "bn_nat bn < limbs (bn_width bn)" using wval_lt [of "bn_words bn"] length_bn_words [OF assms] by (simp add: bn_nat_def)
    also have "\<dots> \<le> limbs num" using narrow by (intro power_increasing) simp_all
    finally show ?thesis .
  qed
  moreover have "take (if num < bn_width bn then num else bn_width bn) (bn_d bn) @
      replicate (num - (if num < bn_width bn then num else bn_width bn)) 0 = take num (bn_words bn @ replicate num 0)"
    using assms by (auto simp: bn_words_def wf_bn_def min_def)
  ultimately show ?thesis unfolding bn_copy_words_def if_not_P [OF False] Let_def by simp
qed

lemma bn_resize_words_eq:
  assumes "wf_bn bn" "bn_resize_words al bn words = (ok, bn')"
  shows "wf_bn bn' \<and> (ok \<longrightarrow> bn_nat bn' = bn_nat bn \<and> bn_neg bn' = bn_neg bn \<and> bn_width bn' = words) \<and>
    (\<not> ok \<longrightarrow> bn' = bn)"
proof (cases "bn_width bn \<le> words")
  case True
  obtain ok1 d where grow: "bn_wexpand al bn words = (ok1, d)" by force
  note grown = bn_wexpand_eq [OF assms(1) grow]
  show ?thesis
  proof (cases ok1)
    case True': True
    let ?ws = "bn_words d @ replicate (words - bn_width d) 0"
    have "ok" "bn' = (put_words d ?ws)\<lparr>bn_width := words\<rparr>"
      using assms(2) True True' grow grown by (simp_all add: bn_resize_words_def bn_words_def)
    moreover have "length ?ws = words" using grown True length_bn_words [of d] by simp
    ultimately show ?thesis using put_words_eq [of d ?ws] grown True'
      by (simp add: bn_nat_def wval_padded put_words_def)
  next
    case False
    with assms True grow grown show ?thesis by (simp add: bn_resize_words_def)
  qed
next
  case False
  show ?thesis
  proof (cases "bn_fits_in_words bn words")
    case True
    then have run: "ok" "bn' = bn\<lparr>bn_width := words\<rparr>" using assms(2) False by (simp_all add: bn_resize_words_def)
    have "wval (drop words (bn_words bn)) = 0"
      using True by (simp add: bn_fits_in_words_def bn_words_def foldl_or_zero wval_zero)
    moreover have "bn_words bn = take words (bn_words bn) @ drop words (bn_words bn)" by simp
    ultimately have "wval (bn_words bn) = wval (take words (bn_words bn))" by (metis add.right_neutral mult_0_right wval_append)
    moreover have "bn_words bn' = take words (bn_words bn)" using run(2) False by (simp add: bn_words_def min_absorb1)
    ultimately show ?thesis using run False assms(1) by (simp add: bn_nat_def wf_bn_def)
  next
    case no: False
    with False assms show ?thesis by (simp add: bn_resize_words_def)
  qed
qed

lemma BN_num_bytes_eq:
  assumes "wf_bn bn"
  shows "bn_nat bn < 256 ^ BN_num_bytes bn \<and> (bn_nat bn = 0 \<longleftrightarrow> BN_num_bytes bn = 0) \<and>
    (0 < BN_num_bytes bn \<longrightarrow> 256 ^ (BN_num_bytes bn - 1) \<le> bn_nat bn)"
proof -
  define n where "n = BN_num_bits bn"
  have bits: "bn_nat bn < 2 ^ n" "n = 0 \<or> 2 ^ (n - 1) \<le> bn_nat bn"
    using BN_num_bits_eq [OF assms] by (simp_all add: bit_length_def n_def)
  have bytes: "BN_num_bytes bn = (n + 7) div 8" by (simp add: BN_num_bytes_def n_def)
  have p: "(256 :: nat) ^ m = 2 ^ (8 * m)" for m by (simp add: power_mult)
  have "(2 :: nat) ^ n \<le> 2 ^ (8 * ((n + 7) div 8))" by (intro power_increasing) simp_all
  then have "bn_nat bn < 256 ^ BN_num_bytes bn" unfolding p bytes using bits(1) by linarith
  moreover have "n = 0 \<longleftrightarrow> bn_nat bn = 0" using bits by (cases n) auto
  moreover have "2 ^ (8 * ((n + 7) div 8 - 1)) \<le> bn_nat bn" if "0 < n"
  proof -
    have "(2 :: nat) ^ (8 * ((n + 7) div 8 - 1)) \<le> 2 ^ (n - 1)" using that by (intro power_increasing) simp_all
    also have "\<dots> \<le> bn_nat bn" using bits(2) that by simp
    finally show ?thesis .
  qed
  ultimately show ?thesis unfolding p bytes by auto
qed

lemma bn_select_words_truth:
  "length a = num \<Longrightarrow> length b = num \<Longrightarrow> bn_select_words (truth P) a b num = (if P then a else b)"
  by (auto simp: bn_select_words_def select_w_truth map2_map_map [of "\<lambda>x. x"] intro: nth_equalityI)

end
