(* ===== verification/Bn_Arith.thy ===== *)
theory Bn_Arith
  imports Bn
begin

text \<open>
  Addition, subtraction and comparison of BIGNUMs: crypto/fipsmodule/bn/add.c and cmp.c. An \<open>int\<close> of
  cmp.c that is selected in constant time is a word of 32 bits. A result is the return value and the
  BIGNUM as the call leaves it, also when the call fails.
\<close>

unbundle bit_operations_syntax

subsection \<open>cmp.c\<close>

fun cmp_words_loop :: "u32 \<Rightarrow> u64 list \<Rightarrow> u64 list \<Rightarrow> u32" where
  "cmp_words_loop ret (a # as) (b # bs) =
     (let eq = constant_time_eq_w a b;
          lt = constant_time_lt_w a b
      in cmp_words_loop (constant_time_select_int eq ret (constant_time_select_int lt (-1) 1)) as bs)"
| "cmp_words_loop ret _ _ = ret"

definition bn_cmp_words_consttime :: "u64 list \<Rightarrow> nat \<Rightarrow> u64 list \<Rightarrow> nat \<Rightarrow> int" where
  "bn_cmp_words_consttime a a_len b b_len =
     (let n = (if a_len < b_len then a_len else b_len);
          ret = cmp_words_loop 0 (take n a) (take n b)
      in sint
        (if a_len < b_len then
           constant_time_select_int
             (constant_time_is_zero_w (foldl (OR) 0 (drop a_len (take b_len b)))) ret (-1)
         else if b_len < a_len then
           constant_time_select_int
             (constant_time_is_zero_w (foldl (OR) 0 (drop b_len (take a_len a)))) ret 1
         else ret))"

definition BN_ucmp :: "BIGNUM \<Rightarrow> BIGNUM \<Rightarrow> int" where
  "BN_ucmp a b = bn_cmp_words_consttime (bn_d a) (bn_width a) (bn_d b) (bn_width b)"

definition BN_cmp :: "BIGNUM option \<Rightarrow> BIGNUM option \<Rightarrow> int" where
  "BN_cmp a b =
     (case (a, b) of
        (Some _, None) \<Rightarrow> -1
      | (None, Some _) \<Rightarrow> 1
      | (None, None) \<Rightarrow> 0
      | (Some a, Some b) \<Rightarrow>
          if bn_neg a \<noteq> bn_neg b then (if bn_neg a then -1 else 1)
          else (let ret = BN_ucmp a b in if bn_neg a then - ret else ret))"

definition bn_less_than_words :: "u64 list \<Rightarrow> u64 list \<Rightarrow> nat \<Rightarrow> bool" where
  "bn_less_than_words a b len \<longleftrightarrow> bn_cmp_words_consttime a len b len < 0"

definition BN_abs_is_word :: "BIGNUM \<Rightarrow> u64 \<Rightarrow> bool" where
  "BN_abs_is_word bn w =
     (if bn_width bn = 0 then w = 0
      else foldl (OR) (bn_d bn ! 0 XOR w) (drop 1 (take (bn_width bn) (bn_d bn))) = 0)"

definition BN_cmp_word :: "BIGNUM option \<Rightarrow> u64 \<Rightarrow> int" where
  "BN_cmp_word a b =
     BN_cmp a (Some (BN_init\<lparr>bn_d := [b], bn_width := of_bool (0 < b), bn_dmax := 1, bn_static := True\<rparr>))"

definition BN_is_one :: "BIGNUM \<Rightarrow> bool" where
  "BN_is_one bn \<longleftrightarrow> \<not> bn_neg bn \<and> BN_abs_is_word bn 1"

definition BN_is_word :: "BIGNUM \<Rightarrow> u64 \<Rightarrow> bool" where
  "BN_is_word bn w \<longleftrightarrow> BN_abs_is_word bn w \<and> (w = 0 \<or> \<not> bn_neg bn)"

definition BN_is_odd :: "BIGNUM \<Rightarrow> bool" where
  "BN_is_odd bn \<longleftrightarrow> 0 < bn_width bn \<and> bn_d bn ! 0 AND 1 = 1"

definition BN_is_pow2 :: "BIGNUM \<Rightarrow> bool" where
  "BN_is_pow2 bn =
     (let width = bn_minimal_width bn
      in if width = 0 \<or> bn_neg bn then False
         else if \<not> list_all (\<lambda>w. w = 0) (take (width - 1) (bn_d bn)) then False
         else bn_d bn ! (width - 1) AND (bn_d bn ! (width - 1) - 1) = 0)"

definition BN_equal_consttime :: "BIGNUM \<Rightarrow> BIGNUM \<Rightarrow> bool" where
  "BN_equal_consttime a b =
     (let msk = foldl (OR) 0 (drop (bn_width a) (take (bn_width b) (bn_d b)));
          msk = foldl (OR) msk (drop (bn_width b) (take (bn_width a) (bn_d a)));
          n = (if bn_width a < bn_width b then bn_width a else bn_width b);
          msk = foldl (OR) msk (map2 (XOR) (take n (bn_d a)) (take n (bn_d b)));
          msk = msk OR of_bool (bn_neg a \<noteq> bn_neg b)
      in msk = 0)"

subsection \<open>add.c\<close>

fun add_carry_loop :: "u64 \<Rightarrow> u64 list \<Rightarrow> u64 list \<times> u64" where
  "add_carry_loop carry [] = ([], carry)"
| "add_carry_loop carry (a # as) =
     (let tmp = carry + a
      in case add_carry_loop (of_bool (tmp < a)) as of (r, carry) \<Rightarrow> (tmp # r, carry))"

definition bn_uadd_consttime :: "word_alloc \<Rightarrow> BIGNUM \<Rightarrow> BIGNUM \<Rightarrow> BIGNUM \<Rightarrow> bool \<times> BIGNUM" where
  "bn_uadd_consttime al r a b =
     (let (a, b) = (if bn_width a < bn_width b then (b, a) else (a, b));
          big = bn_width a;
          small = bn_width b
      in case bn_wexpand al r (big + 1) of
           (ok, r) \<Rightarrow>
             if \<not> ok then (False, r)
             else
               (case bn_add_words (bn_d a) (bn_d b) small of
                  (lo, carry) \<Rightarrow>
                    (case add_carry_loop carry (drop small (take big (bn_d a))) of
                       (hi, carry) \<Rightarrow> (True, (put_words r (lo @ hi @ [carry]))\<lparr>bn_width := big + 1\<rparr>))))"

definition BN_uadd :: "word_alloc \<Rightarrow> BIGNUM \<Rightarrow> BIGNUM \<Rightarrow> BIGNUM \<Rightarrow> bool \<times> BIGNUM" where
  "BN_uadd al r a b =
     (case bn_uadd_consttime al r a b of
        (ok, r) \<Rightarrow> if \<not> ok then (False, r) else (True, bn_set_minimal_width r))"

fun sub_borrow_loop :: "u64 \<Rightarrow> u64 list \<Rightarrow> u64 list \<times> u64" where
  "sub_borrow_loop borrow [] = ([], borrow)"
| "sub_borrow_loop borrow (a # as) =
     (let r0 = a - borrow
      in case sub_borrow_loop (of_bool (a < r0)) as of (r, borrow) \<Rightarrow> (r0 # r, borrow))"

definition bn_usub_consttime :: "word_alloc \<Rightarrow> BIGNUM \<Rightarrow> BIGNUM \<Rightarrow> BIGNUM \<Rightarrow> bool \<times> BIGNUM" where
  "bn_usub_consttime al r a b =
     (if bn_width a < bn_width b \<and> \<not> bn_fits_in_words b (bn_width a) then (False, r)
      else
        (let b_width = (if bn_width a < bn_width b then bn_width a else bn_width b)
         in case bn_wexpand al r (bn_width a) of
              (ok, r) \<Rightarrow>
                if \<not> ok then (False, r)
                else
                  (case bn_sub_words (bn_d a) (bn_d b) b_width of
                     (lo, borrow) \<Rightarrow>
                       (case sub_borrow_loop borrow (drop b_width (take (bn_width a) (bn_d a))) of
                          (hi, borrow) \<Rightarrow>
                            (let r = put_words r (lo @ hi)
                             in if borrow \<noteq> 0 then (False, r)
                                else (True, r\<lparr>bn_width := bn_width a, bn_neg := False\<rparr>))))))"

definition BN_usub :: "word_alloc \<Rightarrow> BIGNUM \<Rightarrow> BIGNUM \<Rightarrow> BIGNUM \<Rightarrow> bool \<times> BIGNUM" where
  "BN_usub al r a b =
     (case bn_usub_consttime al r a b of
        (ok, r) \<Rightarrow> if \<not> ok then (False, r) else (True, bn_set_minimal_width r))"

text \<open>The end of BN_add and of BN_sub: \<open>a - b\<close> for numbers without signs.\<close>

definition usub_signed :: "word_alloc \<Rightarrow> BIGNUM \<Rightarrow> BIGNUM \<Rightarrow> BIGNUM \<Rightarrow> bool \<times> BIGNUM" where
  "usub_signed al r a b =
     (if BN_ucmp a b < 0 then
        (case BN_usub al r b a of (ok, r) \<Rightarrow> if \<not> ok then (False, r) else (True, r\<lparr>bn_neg := True\<rparr>))
      else
        (case BN_usub al r a b of (ok, r) \<Rightarrow> if \<not> ok then (False, r) else (True, r\<lparr>bn_neg := False\<rparr>)))"

definition BN_add :: "word_alloc \<Rightarrow> BIGNUM \<Rightarrow> BIGNUM \<Rightarrow> BIGNUM \<Rightarrow> bool \<times> BIGNUM" where
  "BN_add al r a b =
     (let a_neg = bn_neg a
      in if a_neg \<noteq> bn_neg b then
           (let (a, b) = (if a_neg then (b, a) else (a, b)) in usub_signed al r a b)
         else (case BN_uadd al r a b of (ret, r) \<Rightarrow> (ret, r\<lparr>bn_neg := a_neg\<rparr>)))"

definition BN_sub :: "word_alloc \<Rightarrow> BIGNUM \<Rightarrow> BIGNUM \<Rightarrow> BIGNUM \<Rightarrow> bool \<times> BIGNUM" where
  "BN_sub al r a b =
     (let (a, b, add, ng) =
            (if bn_neg a then (if bn_neg b then (b, a, False, False) else (a, b, True, True))
             else (a, b, bn_neg b, False))
      in if add then (case BN_uadd al r a b of (ok, r) \<Rightarrow> if \<not> ok then (False, r) else (True, r\<lparr>bn_neg := ng\<rparr>))
         else usub_signed al r a b)"

text \<open>The loops of BN_add_word and BN_sub_word; that of BN_sub_word also returns the last index, or
  None where it runs over the end of the array.\<close>

fun add_word_loop :: "u64 list \<Rightarrow> u64 \<Rightarrow> u64 list \<times> u64" where
  "add_word_loop [] w = ([], w)"
| "add_word_loop (d # ds) w =
     (if w = 0 then (d # ds, w)
      else
        (let l = d + w
         in case add_word_loop ds (if l < w then 1 else 0) of (r, w) \<Rightarrow> (l # r, w)))"

fun sub_word_loop :: "u64 list \<Rightarrow> u64 \<Rightarrow> (u64 list \<times> nat) option" where
  "sub_word_loop [] w = None"
| "sub_word_loop (d # ds) w =
     (if w \<le> d then Some ((d - w) # ds, 0)
      else map_option (\<lambda>(r, i). ((d - w) # r, Suc i)) (sub_word_loop ds 1))"

function BN_add_word :: "word_alloc \<Rightarrow> BIGNUM \<Rightarrow> u64 \<Rightarrow> (bool \<times> BIGNUM) option"
  and BN_sub_word :: "word_alloc \<Rightarrow> BIGNUM \<Rightarrow> u64 \<Rightarrow> (bool \<times> BIGNUM) option" where
  "BN_add_word al a w =
     (if w = 0 then Some (True, a)
      else if BN_is_zero a then Some (BN_set_word al a w)
      else if bn_neg a then
        map_option (\<lambda>(i, a). (i, if \<not> BN_is_zero a then a\<lparr>bn_neg := \<not> bn_neg a\<rparr> else a))
          (BN_sub_word al (a\<lparr>bn_neg := False\<rparr>) w)
      else
        (case add_word_loop (take (bn_width a) (bn_d a)) w of
           (ds, w) \<Rightarrow>
             (let a = put_words a ds
              in if w \<noteq> 0 then
                   (case bn_wexpand al a (bn_width a + 1) of
                      (ok, a) \<Rightarrow>
                        if \<not> ok then Some (False, a)
                        else Some (True, a\<lparr>bn_d := (bn_d a)[bn_width a := w], bn_width := bn_width a + 1\<rparr>))
                 else Some (True, a))))"
| "BN_sub_word al a w =
     (if w = 0 then Some (True, a)
      else if BN_is_zero a then
        (case BN_set_word al a w of (i, a) \<Rightarrow> Some (i, if i then BN_set_negative a True else a))
      else if bn_neg a then
        map_option (\<lambda>(i, a). (i, a\<lparr>bn_neg := True\<rparr>)) (BN_add_word al (a\<lparr>bn_neg := False\<rparr>) w)
      else if bn_minimal_width a = 1 \<and> bn_d a ! 0 < w then
        Some (True, a\<lparr>bn_d := (bn_d a)[0 := w - bn_d a ! 0], bn_neg := True\<rparr>)
      else
        (case sub_word_loop (bn_d a) w of
           None \<Rightarrow> None
         | Some (ds, i) \<Rightarrow>
             (let a = a\<lparr>bn_d := ds\<rparr>
              in Some (True, if ds ! i = 0 \<and> i = bn_width a - 1 then a\<lparr>bn_width := bn_width a - 1\<rparr> else a))))"
  by pat_completeness auto
termination
  by (relation "measure (\<lambda>x. case x of Inl (al, a, w) \<Rightarrow> of_bool (bn_neg a) | Inr (al, a, w) \<Rightarrow> of_bool (bn_neg a))")
     auto

declare BN_add_word.simps [simp del] BN_sub_word.simps [simp del]

subsection \<open>The loops\<close>

lemma sub_underflow: "unat ((x :: u64) - y) + unat y = unat x + 2 ^ 64 * of_bool (x < x - y)"
proof (cases "y \<le> x")
  case True
  then have "unat (x - y) = unat x - unat y" "unat y \<le> unat x" by (simp_all add: unat_sub word_le_nat_alt)
  then show ?thesis by (simp add: word_less_nat_alt)
next
  case False
  moreover have "unat y < 2 ^ 64" by simp
  ultimately have "unat (x - y) = unat x + 2 ^ 64 - unat y" "unat x < unat y" "unat y < 2 ^ 64"
    unfolding unat_sub_if' by (simp_all add: word_le_nat_alt)
  moreover from this have "unat x < unat (x - y)" by linarith
  ultimately show ?thesis by (simp add: word_less_nat_alt)
qed

lemma unat_of_bool_u64: "unat (of_bool P :: u64) = of_bool P"
  by (cases P) simp_all

lemma add_carry_loop_eq:
  "case add_carry_loop carry as of (r, c) \<Rightarrow> length r = length as \<and> (as \<noteq> [] \<longrightarrow> unat c \<le> 1) \<and>
     wval r + limbs (length as) * unat c = wval as + unat carry"
proof (induction carry as rule: add_carry_loop.induct)
  case (2 carry a as)
  obtain r c where rc: "add_carry_loop (of_bool (carry + a < a)) as = (r, c)" by force
  have ih: "length r = length as" "as \<noteq> [] \<longrightarrow> unat c \<le> 1"
    "wval r + limbs (length as) * unat c = wval as + of_bool (carry + a < a)"
    using 2 [OF refl] unfolding rc prod.case unat_of_bool_u64 by blast+
  have c: "unat c \<le> 1" using ih(2) rc by (cases "as = []") auto
  have "wval ((carry + a) # r) + limbs (length (a # as)) * unat c =
      unat (carry + a) + 2 ^ 64 * (wval r + limbs (length as) * unat c)" by (simp add: algebra_simps)
  also have "\<dots> = wval (a # as) + unat carry" unfolding ih(3) using add_overflow [of carry a] by (simp add: algebra_simps)
  finally have "wval ((carry + a) # r) + limbs (length (a # as)) * unat c = wval (a # as) + unat carry" .
  with rc ih c show ?case by (simp add: Let_def)
qed simp

lemma sub_borrow_loop_eq:
  "case sub_borrow_loop borrow as of (r, c) \<Rightarrow> length r = length as \<and>
     wval r + unat borrow = wval as + limbs (length as) * unat c"
proof (induction borrow as rule: sub_borrow_loop.induct)
  case (2 borrow a as)
  obtain r c where rc: "sub_borrow_loop (of_bool (a < a - borrow)) as = (r, c)" by force
  have ih: "length r = length as" "wval r + of_bool (a < a - borrow) = wval as + limbs (length as) * unat c"
    using 2 [OF refl] unfolding rc prod.case unat_of_bool_u64 by blast+
  have "wval ((a - borrow) # r) + unat borrow + 2 ^ 64 * of_bool (a < a - borrow) =
      unat a + 2 ^ 64 * of_bool (a < a - borrow) + 2 ^ 64 * (wval r + of_bool (a < a - borrow))"
    using sub_underflow [of a borrow] by (simp add: algebra_simps)
  then have "wval ((a - borrow) # r) + unat borrow = wval (a # as) + limbs (length (a # as)) * unat c"
    unfolding ih(2) by (simp add: algebra_simps)
  with rc ih show ?case by (simp add: Let_def)
qed simp

lemma wval_less_Cons: "wval (a # as) < wval (b # bs) \<longleftrightarrow> wval as < wval bs \<or> (wval as = wval bs \<and> a < b)"
proof -
  have lt: "unat a < 2 ^ 64" "unat b < 2 ^ 64" by simp_all
  consider "wval as < wval bs" | "wval as = wval bs" | "wval bs < wval as" by linarith
  then show ?thesis
  proof cases
    case 1
    then have "2 ^ 64 * (wval as + 1) \<le> 2 ^ 64 * wval bs" by (intro mult_le_mono2) simp
    with 1 lt show ?thesis by (simp del: unat_u64_lt unat_lt_2p)
  next
    case 3
    then have "2 ^ 64 * (wval bs + 1) \<le> 2 ^ 64 * wval as" by (intro mult_le_mono2) simp
    with 3 lt show ?thesis by (simp del: unat_u64_lt unat_lt_2p)
  qed (simp add: word_less_nat_alt)
qed

lemma cmp_words_loop_eq:
  "length as = length bs \<Longrightarrow>
   cmp_words_loop ret as bs = (if wval as < wval bs then - 1 else if wval as = wval bs then ret else 1)"
proof (induction ret as bs rule: cmp_words_loop.induct)
  case (1 ret a as b bs)
  have eq: "wval (a # as) = wval (b # bs) \<longleftrightarrow> wval as = wval bs \<and> a = b"
    using wval_less_Cons [of a as b bs] wval_less_Cons [of b bs a as] by (metis less_irrefl not_less_iff_gr_or_eq)
  have len: "length as = length bs" using 1(2) by simp
  define ret' where "ret' = (if a = b then ret else if a < b then - 1 else 1)"
  have "cmp_words_loop ret (a # as) (b # bs) = cmp_words_loop ret' as bs"
    unfolding cmp_words_loop.simps Let_def eq_w_truth lt_w_truth select_int_truth ret'_def ..
  also have "\<dots> = (if wval as < wval bs then - 1 else if wval as = wval bs then ret' else 1)"
    using 1(1) [OF refl refl len] unfolding eq_w_truth lt_w_truth select_int_truth ret'_def .
  finally show ?case unfolding eq wval_less_Cons by (simp add: ret'_def)
qed simp_all

subsection \<open>Comparisons\<close>

definition order :: "nat \<Rightarrow> nat \<Rightarrow> int" where
  "order x y = (if x < y then -1 else if x = y then 0 else 1)"

lemma take_split_wval:
  assumes "m \<le> n" "n \<le> length ws"
  shows "wval (take n ws) = wval (take m ws) + limbs m * wval (drop m (take n ws))"
proof -
  have "take n ws = take m ws @ drop m (take n ws)" using assms by (metis append_take_drop_id min_absorb1 take_take)
  then have "wval (take n ws) = wval (take m ws) + limbs (length (take m ws)) * wval (drop m (take n ws))"
    by (metis wval_append)
  then show ?thesis using assms by (simp add: min_absorb2)
qed

lemma wval_take_lt: "n \<le> length ws \<Longrightarrow> wval (take n ws) < limbs n"
  using wval_lt [of "take n ws"] by (simp add: min_absorb2)

lemma select_int_mask: "constant_time_select_int (- 1) a b = a" "constant_time_select_int 0 a b = b"
  using select_int_truth [of True a b] select_int_truth [of False a b] by simp_all

lemma bn_cmp_words_consttime_eq:
  assumes "a_len \<le> length a" "b_len \<le> length b"
  shows "bn_cmp_words_consttime a a_len b b_len = order (wval (take a_len a)) (wval (take b_len b))"
proof -
  define n where "n = (if a_len < b_len then a_len else b_len)"
  have n: "n \<le> length a" "n \<le> length b" using assms by (auto simp: n_def)
  let ?ret = "cmp_words_loop 0 (take n a) (take n b)"
  have ret: "?ret = (if wval (take n a) < wval (take n b) then - 1 else if wval (take n a) = wval (take n b) then 0 else 1)"
    using cmp_words_loop_eq [of "take n a" "take n b" 0] n by (simp add: min_absorb2)
  consider "a_len < b_len" | "b_len < a_len" | "a_len = b_len" by linarith
  then show ?thesis
  proof cases
    case 1
    let ?hi = "drop a_len (take b_len b)"
    have b: "wval (take b_len b) = wval (take a_len b) + limbs a_len * wval ?hi"
      using take_split_wval [of a_len b_len b] 1 assms by simp
    have hi: "foldl (OR) 0 ?hi = 0 \<longleftrightarrow> wval ?hi = 0" by (simp add: foldl_or_zero wval_zero)
    have less: "wval (take a_len a) < wval (take b_len b)" if "wval ?hi \<noteq> 0"
    proof -
      have "wval (take a_len a) < limbs a_len * 1" using wval_take_lt [OF assms(1)] by simp
      also have "\<dots> \<le> limbs a_len * wval ?hi" using that by (intro mult_le_mono2) simp
      finally show ?thesis unfolding b by linarith
    qed
    have nn: "n = a_len" using 1 by (simp add: n_def)
    show ?thesis
    proof (cases "wval ?hi = 0")
      case True
      then have "wval (take b_len b) = wval (take a_len b)" using b by simp
      with 1 True hi ret nn show ?thesis
        by (simp add: bn_cmp_words_consttime_def Let_def is_zero_w_truth select_int_mask order_def)
    next
      case False
      with 1 hi less nn show ?thesis
        by (simp add: bn_cmp_words_consttime_def Let_def is_zero_w_truth select_int_mask order_def)
    qed
  next
    case 2
    let ?hi = "drop b_len (take a_len a)"
    have a: "wval (take a_len a) = wval (take b_len a) + limbs b_len * wval ?hi"
      using take_split_wval [of b_len a_len a] 2 assms by simp
    have hi: "foldl (OR) 0 ?hi = 0 \<longleftrightarrow> wval ?hi = 0" by (simp add: foldl_or_zero wval_zero)
    have less: "wval (take b_len b) < wval (take a_len a)" if "wval ?hi \<noteq> 0"
    proof -
      have "wval (take b_len b) < limbs b_len * 1" using wval_take_lt [OF assms(2)] by simp
      also have "\<dots> \<le> limbs b_len * wval ?hi" using that by (intro mult_le_mono2) simp
      finally show ?thesis unfolding a by linarith
    qed
    have nn: "n = b_len" using 2 by (simp add: n_def)
    show ?thesis
    proof (cases "wval ?hi = 0")
      case True
      then have "wval (take a_len a) = wval (take b_len a)" using a by simp
      with 2 True hi ret nn show ?thesis
        by (simp add: bn_cmp_words_consttime_def Let_def is_zero_w_truth select_int_mask order_def)
    next
      case False
      with 2 hi less nn show ?thesis
        by (simp add: bn_cmp_words_consttime_def Let_def is_zero_w_truth select_int_mask order_def)
    qed
  next
    case 3
    with ret show ?thesis by (simp add: bn_cmp_words_consttime_def Let_def order_def n_def)
  qed
qed

lemma BN_ucmp_eq: "wf_bn a \<Longrightarrow> wf_bn b \<Longrightarrow> BN_ucmp a b = order (bn_nat a) (bn_nat b)"
  by (simp add: BN_ucmp_def bn_cmp_words_consttime_eq wf_bn_def bn_nat_def bn_words_def)

lemma BN_cmp_eq:
  assumes "canonical a" "canonical b"
  shows "BN_cmp (Some a) (Some b) = (if bn_int a < bn_int b then -1 else if bn_int a = bn_int b then 0 else 1)"
  using assms by (auto simp: BN_cmp_def canonical_def BN_ucmp_eq order_def bn_int_def Let_def)

lemma BN_abs_is_word_eq:
  assumes "wf_bn bn"
  shows "BN_abs_is_word bn w \<longleftrightarrow> bn_nat bn = unat w"
proof (cases "bn_words bn")
  case Nil
  then have "bn_width bn = 0" using assms by (auto simp: bn_words_def wf_bn_def)
  then show ?thesis by (auto simp: BN_abs_is_word_def bn_nat_def bn_words_def unat_eq_0)
next
  case (Cons v vs)
  then have "0 < bn_width bn" "bn_d bn ! 0 = v" "drop 1 (take (bn_width bn) (bn_d bn)) = vs"
    using assms by (cases "bn_d bn"; auto simp: bn_words_def wf_bn_def take_Cons' split: if_splits)+
  moreover have "v XOR w = 0 \<longleftrightarrow> v = w" by (auto simp: bit_eq_iff bit_simps)
  moreover have "unat v + 2 ^ 64 * wval vs = unat w \<longleftrightarrow> v = w \<and> wval vs = 0"
  proof -
    have "unat w < 2 ^ 64" by simp
    moreover have "2 ^ 64 \<le> 2 ^ 64 * wval vs" if "wval vs \<noteq> 0" using that by simp
    ultimately have "unat v + 2 ^ 64 * wval vs \<noteq> unat w" if "wval vs \<noteq> 0" using that by linarith
    then show ?thesis by (cases "wval vs = 0") (simp_all add: word_unat_eq_iff)
  qed
  ultimately show ?thesis using Cons by (simp add: BN_abs_is_word_def foldl_or_zero bn_nat_def wval_zero)
qed

lemma BN_is_word_eq:
  assumes "canonical bn"
  shows "BN_is_word bn w \<longleftrightarrow> bn_int bn = int (unat w)"
proof -
  have "w = 0 \<longleftrightarrow> unat w = 0" by (simp only: unat_eq_0)
  then show ?thesis using assms by (auto simp only: BN_is_word_def BN_abs_is_word_eq canonical_def bn_int_def split: if_splits)
qed

lemma BN_cmp_word_eq:
  assumes "canonical a"
  shows "BN_cmp_word (Some a) w = (if bn_int a < int (unat w) then -1 else if bn_int a = int (unat w) then 0 else 1)"
proof -
  let ?b = "BN_init\<lparr>bn_d := [w], bn_width := of_bool (0 < w), bn_dmax := 1, bn_static := True\<rparr>"
  have "canonical ?b" by (simp add: canonical_def wf_bn_def BN_init_def)
  moreover have "bn_int ?b = int (unat w)" by (cases "w = 0") (simp_all add: bn_int_def bn_nat_def bn_words_def BN_init_def word_gt_0)
  ultimately show ?thesis using BN_cmp_eq [OF assms, of ?b] by (simp only: BN_cmp_word_def)
qed

lemma BN_is_odd_eq: "wf_bn bn \<Longrightarrow> BN_is_odd bn \<longleftrightarrow> odd (bn_nat bn)"
proof (cases "bn_words bn")
  case (Cons v vs)
  assume "wf_bn bn"
  with Cons have "0 < bn_width bn" "bn_d bn ! 0 = v"
    by (cases "bn_d bn"; auto simp: bn_words_def wf_bn_def take_Cons' split: if_splits)+
  moreover have "bit (unat v) 0 \<longleftrightarrow> bit v 0" by (subst bit_unsigned_iff) simp
  then have "v AND 1 = 1 \<longleftrightarrow> odd (unat v)" by (simp add: and_one_eq odd_iff_mod_2_eq_one [symmetric] bit_0)
  ultimately show ?thesis using Cons by (simp add: BN_is_odd_def bn_nat_def)
qed (auto simp: BN_is_odd_def bn_nat_def bn_words_def wf_bn_def)

subsection \<open>Addition and subtraction\<close>

lemma set_words_eq:
  assumes "wf_bn r" "length ws = n" "n \<le> bn_dmax r"
  shows "wf_bn ((put_words r ws)\<lparr>bn_width := n\<rparr>)" "bn_nat ((put_words r ws)\<lparr>bn_width := n\<rparr>) = wval ws"
    "bn_neg ((put_words r ws)\<lparr>bn_width := n\<rparr>) = bn_neg r"
  using put_words_eq [OF assms(1), of ws] assms(2,3) by (auto simp: bn_nat_def)

lemma bn_nat_split:
  assumes "wf_bn a" "m \<le> bn_width a"
  shows "bn_nat a = wval (take m (bn_d a)) + limbs m * wval (drop m (take (bn_width a) (bn_d a)))"
  using take_split_wval [OF assms(2), of "bn_d a"] assms(1) by (simp add: bn_nat_def bn_words_def wf_bn_def)

lemma xor_zero_words:
  "length xs = length ys \<Longrightarrow> (\<forall>w\<in>set (map2 (XOR) xs ys). w = (0 :: u64)) \<longleftrightarrow> xs = ys"
proof (induction xs ys rule: list_induct2)
  case (Cons x xs y ys)
  have "x XOR y = 0 \<longleftrightarrow> x = y" by (auto simp: bit_eq_iff bit_simps)
  with Cons show ?case by simp
qed simp

lemma BN_equal_consttime_eq:
  assumes "canonical a" "canonical b"
  shows "BN_equal_consttime a b \<longleftrightarrow> bn_int a = bn_int b"
proof -
  have wf: "wf_bn a" "wf_bn b" using assms by (simp_all add: canonical_def)
  define n where "n = (if bn_width a < bn_width b then bn_width a else bn_width b)"
  let ?ha = "drop (bn_width b) (take (bn_width a) (bn_d a))" and ?hb = "drop (bn_width a) (take (bn_width b) (bn_d b))"
  have n: "n \<le> length (bn_d a)" "n \<le> length (bn_d b)" using wf by (auto simp: n_def wf_bn_def)
  have eq: "BN_equal_consttime a b \<longleftrightarrow>
      wval ?ha = 0 \<and> wval ?hb = 0 \<and> take n (bn_d a) = take n (bn_d b) \<and> bn_neg a = bn_neg b"
    using xor_zero_words [of "take n (bn_d a)" "take n (bn_d b)"] n
    by (auto simp: BN_equal_consttime_def Let_def n_def [symmetric] or_eq_0_iff foldl_or_zero wval_zero)
  have low: "take n (bn_d a) = take n (bn_d b) \<longleftrightarrow> wval (take n (bn_d a)) = wval (take n (bn_d b))"
    using wval_inj [of "take n (bn_d a)" "take n (bn_d b)"] n by (auto simp: min_absorb2)
  have a: "bn_nat a = wval (take n (bn_d a)) + limbs n * wval (drop n (take (bn_width a) (bn_d a)))"
    using bn_nat_split [OF wf(1), of n] by (simp add: n_def)
  have b: "bn_nat b = wval (take n (bn_d b)) + limbs n * wval (drop n (take (bn_width b) (bn_d b)))"
    using bn_nat_split [OF wf(2), of n] by (simp add: n_def)
  have ha: "wval (drop n (take (bn_width a) (bn_d a))) = wval ?ha" and hb: "wval (drop n (take (bn_width b) (bn_d b))) = wval ?hb"
    by (auto simp: n_def)
  have unique: "x + limbs n * x' = y + limbs n * y' \<Longrightarrow> x < limbs n \<Longrightarrow> y < limbs n \<Longrightarrow> x = y \<and> x' = y'" for x x' y y'
  proof -
    assume eq: "x + limbs n * x' = y + limbs n * y'" and lt: "x < limbs n" "y < limbs n"
    have "(x + limbs n * x') mod limbs n = x" "(y + limbs n * y') mod limbs n = y" using lt by simp_all
    moreover have "(x + limbs n * x') div limbs n = x'" "(y + limbs n * y') div limbs n = y'" using lt by simp_all
    ultimately show ?thesis using eq by metis
  qed
  have one_zero: "wval ?ha = 0 \<or> wval ?hb = 0" by (cases "bn_width a < bn_width b") simp_all
  have "bn_nat a = bn_nat b \<longleftrightarrow> wval ?ha = 0 \<and> wval ?hb = 0 \<and> wval (take n (bn_d a)) = wval (take n (bn_d b))"
    using unique [of "wval (take n (bn_d a))" "wval ?ha" "wval (take n (bn_d b))" "wval ?hb"] one_zero
      wval_take_lt [OF n(1)] wval_take_lt [OF n(2)]
    unfolding a b ha hb by auto
  with eq low have "BN_equal_consttime a b \<longleftrightarrow> bn_nat a = bn_nat b \<and> bn_neg a = bn_neg b" by blast
  with assms show ?thesis by (auto simp: canonical_def bn_int_def)
qed

lemma pow2_nat: "0 < n \<Longrightarrow> n AND (n - 1) = 0 \<longleftrightarrow> (\<exists>k. n = 2 ^ k)" for n :: nat
proof (induction n rule: less_induct)
  case (less n)
  show ?case
  proof (cases "even n")
    case True
    then obtain m where m: "n = 2 * m" by (elim evenE)
    then have "0 < m" using less.prems by simp
    moreover have "(2 * m - Suc 0) div 2 = m - 1" using \<open>0 < m\<close> by (cases m) simp_all
    ultimately have "n AND (n - 1) = 2 * (m AND (m - 1))" using m by (subst and_nat_rec) simp
    moreover have "(\<exists>k. n = 2 ^ k) \<longleftrightarrow> (\<exists>k. m = 2 ^ k)"
    proof
      assume "\<exists>k. n = 2 ^ k"
      then obtain k where k: "2 * m = 2 ^ k" using m by auto
      then obtain j where "k = Suc j" using \<open>0 < m\<close> by (cases k) auto
      with k show "\<exists>k. m = 2 ^ k" by auto
    next
      assume "\<exists>k. m = 2 ^ k"
      then obtain k where "m = 2 ^ k" ..
      then have "n = 2 ^ Suc k" using m by simp
      then show "\<exists>k. n = 2 ^ k" ..
    qed
    ultimately show ?thesis using less.IH [of m] m \<open>0 < m\<close> by simp
  next
    case False
    then obtain m where m: "n = 2 * m + 1" by (elim oddE)
    have "n AND (n - 1) = 2 * m" unfolding m by (subst and_nat_rec) simp
    moreover have "(\<exists>k. n = 2 ^ k) \<longleftrightarrow> m = 0"
    proof
      assume "\<exists>k. n = 2 ^ k"
      then obtain k where "n = 2 ^ k" ..
      then show "m = 0" using m False by (cases k) simp_all
    next
      assume "m = 0"
      then have "n = 2 ^ 0" using m by simp
      then show "\<exists>k. n = 2 ^ k" ..
    qed
    ultimately show ?thesis by simp
  qed
qed

lemma pow2_word: "w \<noteq> 0 \<Longrightarrow> w AND (w - 1) = 0 \<longleftrightarrow> (\<exists>k. unat w = 2 ^ k)" for w :: u64
proof -
  assume w: "w \<noteq> 0"
  then have "0 < unat w" by (simp add: unat_eq_0 neq0_conv [symmetric] del: neq0_conv)
  moreover have "w AND (w - 1) = 0 \<longleftrightarrow> unat w AND (unat w - 1) = 0"
    using w by (simp add: word_unat_eq_iff unsigned_and_eq unat_minus_one)
  ultimately show ?thesis using pow2_nat by simp
qed

lemma pow2_split:
  assumes "lo < 2 ^ e" "0 < (t :: nat)"
  shows "(\<exists>k. lo + 2 ^ e * t = 2 ^ k) \<longleftrightarrow> lo = 0 \<and> (\<exists>k. t = 2 ^ k)"
proof
  assume "\<exists>k. lo + 2 ^ e * t = 2 ^ k"
  then obtain k where k: "lo + 2 ^ e * t = 2 ^ k" ..
  have "2 ^ e * 1 \<le> 2 ^ e * t" using assms(2) by (intro mult_le_mono2) simp
  then have "(2 :: nat) ^ e \<le> 2 ^ k" using k by linarith
  then have "e \<le> k" by simp
  then have split: "(2 :: nat) ^ k = 2 ^ e * 2 ^ (k - e)" by (simp flip: power_add)
  then have "(lo + 2 ^ e * t) mod 2 ^ e = 0" unfolding k by simp
  then have "lo = 0" using assms(1) by simp
  with k split show "lo = 0 \<and> (\<exists>k. t = 2 ^ k)" by auto
next
  assume "lo = 0 \<and> (\<exists>k. t = 2 ^ k)"
  then obtain k where "lo + 2 ^ e * t = 2 ^ (e + k)" by (auto simp: power_add)
  then show "\<exists>k. lo + 2 ^ e * t = 2 ^ k" ..
qed

lemma BN_is_pow2_eq:
  assumes "canonical bn"
  shows "BN_is_pow2 bn \<longleftrightarrow> (\<exists>k. bn_int bn = 2 ^ k)"
proof -
  have wf: "wf_bn bn" using assms by (simp add: canonical_def)
  note mw = bn_minimal_width_eq [OF wf]
  consider (none) "bn_minimal_width bn = 0" | (neg) "bn_minimal_width bn \<noteq> 0" "bn_neg bn"
    | (pos) "bn_minimal_width bn \<noteq> 0" "\<not> bn_neg bn" by blast
  then show ?thesis
  proof cases
    case none
    then have "bn_int bn = 0" using mw(2) by (simp add: bn_int_def)
    with none show ?thesis by (simp add: BN_is_pow2_def)
  next
    case neg
    have "bn_int bn \<noteq> 2 ^ k" for k
    proof -
      have "bn_int bn \<le> 0" using neg by (simp add: bn_int_def)
      then show ?thesis by (metis not_le zero_less_numeral zero_less_power)
    qed
    with neg show ?thesis by (simp add: BN_is_pow2_def)
  next
    case pos
    define m where "m = bn_minimal_width bn - 1"
    have m: "bn_minimal_width bn = Suc m" "m < length (bn_d bn)" using pos mw(1) wf by (auto simp: m_def wf_bn_def)
    let ?t = "bn_d bn ! m" and ?lo = "take m (bn_d bn)"
    have nat: "bn_nat bn = wval ?lo + 2 ^ (64 * m) * unat ?t"
      using mw(2) m by (simp add: take_Suc_conv_app_nth wval_append power_mult)
    have lo: "wval ?lo < 2 ^ (64 * m)" using wval_take_lt [of m "bn_d bn"] m(2) by (simp only: power_mult less_imp_le)
    have top: "?t \<noteq> 0" using mw(3) m by simp
    then have "0 < unat ?t" by (simp add: unat_eq_0 neq0_conv [symmetric] del: neq0_conv)
    then have "(\<exists>k. bn_nat bn = 2 ^ k) \<longleftrightarrow> wval ?lo = 0 \<and> ?t AND (?t - 1) = 0"
      unfolding nat pow2_word [OF top] by (rule pow2_split [OF lo])
    moreover have "(\<exists>k. bn_int bn = 2 ^ k) \<longleftrightarrow> (\<exists>k. bn_nat bn = 2 ^ k)"
      using pos by (simp add: bn_int_def)
    moreover have "list_all (\<lambda>w. w = 0) ?lo \<longleftrightarrow> wval ?lo = 0" by (simp add: wval_zero list_all_iff)
    ultimately show ?thesis using pos m by (simp add: BN_is_pow2_def Let_def)
  qed
qed

lemma bn_uadd_consttime_swap:
  "bn_uadd_consttime al r a b =
   (if bn_width a < bn_width b then bn_uadd_consttime al r b a else bn_uadd_consttime al r a b)"
  by (auto simp: bn_uadd_consttime_def)

lemma uadd_longer:
  assumes "wf_bn r" "wf_bn a" "wf_bn b" "bn_width b \<le> bn_width a" "bn_uadd_consttime al r a b = (ok, r')"
  shows "wf_bn r' \<and> (ok \<longrightarrow> bn_nat r' = bn_nat a + bn_nat b \<and> bn_neg r' = bn_neg r) \<and> (\<not> ok \<longrightarrow> r' = r) \<and>
    (ok \<longleftrightarrow> room al r (bn_width a + 1))"
proof -
  obtain ok1 r1 where grow: "bn_wexpand al r (bn_width a + 1) = (ok1, r1)" by force
  note grown = bn_wexpand_eq [OF assms(1) grow] and room = bn_wexpand_ok [OF grow]
  obtain lo c where lo: "bn_add_words (bn_d a) (bn_d b) (bn_width b) = (lo, c)" by force
  let ?hi = "drop (bn_width b) (take (bn_width a) (bn_d a))"
  obtain hi c' where hi: "add_carry_loop c ?hi = (hi, c')" by force
  have len: "bn_width b \<le> length (bn_d a)" "bn_width b \<le> length (bn_d b)" "length ?hi = bn_width a - bn_width b"
    using assms(2-4) by (auto simp: wf_bn_def)
  have L: "length lo = bn_width b" "wval lo + limbs (bn_width b) * unat c = wval (take (bn_width b) (bn_d a)) + bn_nat b"
    using bn_add_words_eq [OF len(1,2)] lo by (simp_all add: bn_nat_def bn_words_def)
  have H: "length hi = bn_width a - bn_width b" "wval hi + limbs (bn_width a - bn_width b) * unat c' = wval ?hi + unat c"
    using add_carry_loop_eq [where carry = c and as = ?hi] unfolding hi prod.case len(3) by blast+
  let ?ws = "lo @ hi @ [c']"
  have "wval ?ws = wval lo + limbs (bn_width b) * (wval hi + limbs (bn_width a - bn_width b) * unat c')"
    by (simp add: wval_append L(1) H(1))
  also have "\<dots> = wval lo + limbs (bn_width b) * unat c + limbs (bn_width b) * wval ?hi"
    unfolding H(2) by (simp add: algebra_simps)
  also have "\<dots> = bn_nat a + bn_nat b" unfolding L(2) using bn_nat_split [OF assms(2,4)] by simp
  finally have sum: "wval ?ws = bn_nat a + bn_nat b" .
  have wlen: "length ?ws = bn_width a + 1" using L(1) H(1) assms(4) by simp
  show ?thesis
  proof (cases ok1)
    case True
    then have "ok" "r' = (put_words r1 ?ws)\<lparr>bn_width := bn_width a + 1\<rparr>"
      using assms(4,5) grow lo hi by (simp_all add: bn_uadd_consttime_def not_less [symmetric])
    with grown True set_words_eq [OF _ wlen, of r1] sum room show ?thesis by simp
  next
    case False
    with assms(1,4,5) grow grown room show ?thesis by (simp add: bn_uadd_consttime_def not_less [symmetric])
  qed
qed

lemma bn_uadd_consttime_eq:
  assumes "wf_bn r" "wf_bn a" "wf_bn b" "bn_uadd_consttime al r a b = (ok, r')"
  shows "wf_bn r' \<and> (ok \<longrightarrow> bn_nat r' = bn_nat a + bn_nat b \<and> bn_neg r' = bn_neg r) \<and> (\<not> ok \<longrightarrow> r' = r) \<and>
    (ok \<longleftrightarrow> room al r (max (bn_width a) (bn_width b) + 1))"
proof (cases "bn_width a < bn_width b")
  case True
  with assms(4) bn_uadd_consttime_swap [of al r a b] have "bn_uadd_consttime al r b a = (ok, r')" by simp
  from uadd_longer [OF assms(1,3,2) _ this] True show ?thesis by (simp add: max_def)
next
  case False
  with uadd_longer [OF assms(1-3) _ assms(4)] show ?thesis by (simp add: max_def)
qed

lemma BN_uadd_eq:
  assumes "wf_bn r" "wf_bn a" "wf_bn b" "BN_uadd al r a b = (ok, r')"
  shows "wf_bn r' \<and> (ok \<longrightarrow> bn_nat r' = bn_nat a + bn_nat b) \<and> (\<not> ok \<longrightarrow> r' = r) \<and>
    (ok \<longleftrightarrow> room al r (max (bn_width a) (bn_width b) + 1))"
proof -
  obtain ok1 r1 where add: "bn_uadd_consttime al r a b = (ok1, r1)" by force
  note eq = bn_uadd_consttime_eq [OF assms(1-3) add]
  show ?thesis using assms(4) eq bn_set_minimal_width_eq [of r1]
    by (cases ok1) (auto simp: BN_uadd_def add canonical_def)
qed

text \<open>Subtraction of the smaller number succeeds; otherwise the sign and the width of r stay.\<close>

lemma bn_usub_consttime_eq:
  assumes "wf_bn r" "wf_bn a" "wf_bn b" "bn_usub_consttime al r a b = (ok, r')"
  shows "wf_bn r' \<and> (ok \<longrightarrow> bn_nat r' + bn_nat b = bn_nat a \<and> \<not> bn_neg r') \<and>
    (ok \<longleftrightarrow> bn_nat b \<le> bn_nat a \<and> room al r (bn_width a))"
proof (cases "bn_width a < bn_width b \<and> \<not> bn_fits_in_words b (bn_width a)")
  case True
  have "bn_nat a < limbs (bn_width a)" using wval_lt [of "bn_words a"] length_bn_words [OF assms(2)] by (simp add: bn_nat_def)
  also have "\<dots> \<le> bn_nat b" using True bn_fits_in_words_eq [OF assms(3), of "bn_width a"] by simp
  finally show ?thesis using True assms by (simp add: bn_usub_consttime_def)
next
  case False
  define n where "n = (if bn_width a < bn_width b then bn_width a else bn_width b)"
  obtain ok1 r1 where grow: "bn_wexpand al r (bn_width a) = (ok1, r1)" by force
  note grown = bn_wexpand_eq [OF assms(1) grow] and room = bn_wexpand_ok [OF grow]
  obtain lo c where lo: "bn_sub_words (bn_d a) (bn_d b) n = (lo, c)" by force
  let ?hi = "drop n (take (bn_width a) (bn_d a))"
  obtain hi c' where hi: "sub_borrow_loop c ?hi = (hi, c')" by force
  have len: "n \<le> length (bn_d a)" "n \<le> length (bn_d b)" "length ?hi = bn_width a - n" "n \<le> bn_width a" "n \<le> bn_width b"
    using assms(2,3) by (auto simp: wf_bn_def n_def)
  have b: "bn_nat b = wval (take n (bn_d b))"
  proof (cases "bn_width a < bn_width b")
    case True
    with False have "bn_nat b < limbs n" using bn_fits_in_words_eq [OF assms(3), of "bn_width a"] by (simp add: n_def)
    then have "limbs n * wval (drop n (take (bn_width b) (bn_d b))) < limbs n * 1"
      using bn_nat_split [OF assms(3) len(5)] by linarith
    then have "wval (drop n (take (bn_width b) (bn_d b))) = 0" unfolding mult_less_cancel1 by simp
    then show ?thesis using bn_nat_split [OF assms(3) len(5)] by simp
  qed (simp add: n_def bn_nat_def bn_words_def)
  have L: "length lo = n" "wval lo + bn_nat b = wval (take n (bn_d a)) + limbs n * unat c"
    using bn_sub_words_eq [OF len(1,2)] lo b by simp_all
  have H: "length hi = bn_width a - n" "wval hi + unat c = wval ?hi + limbs (bn_width a - n) * unat c'"
    using sub_borrow_loop_eq [where borrow = c and as = ?hi] unfolding hi prod.case len(3) by blast+
  have "wval (lo @ hi) + bn_nat b = wval (take n (bn_d a)) + limbs n * (wval hi + unat c)"
    using L by (simp add: wval_append algebra_simps)
  also have "\<dots> = bn_nat a + limbs (n + (bn_width a - n)) * unat c'"
    unfolding H(2) using bn_nat_split [OF assms(2) len(4)] by (simp add: algebra_simps power_add)
  finally have diff: "wval (lo @ hi) + bn_nat b = bn_nat a + limbs (bn_width a) * unat c'" using len(4) by simp
  have wlen: "length (lo @ hi) = bn_width a" using L(1) H(1) len(4) by simp
  have c': "c' = 0 \<longleftrightarrow> bn_nat b \<le> bn_nat a"
  proof
    assume "c' = 0"
    with diff show "bn_nat b \<le> bn_nat a" by simp
  next
    assume le: "bn_nat b \<le> bn_nat a"
    have "wval (lo @ hi) < limbs (bn_width a)" using wval_lt [of "lo @ hi"] wlen by simp
    with diff le have "limbs (bn_width a) * unat c' < limbs (bn_width a) * 1" by linarith
    then have "unat c' = 0" unfolding mult_less_cancel1 by simp
    then show "c' = 0" by (simp only: unat_eq_0)
  qed
  have run: "(ok, r') = (if ok1 then (if c' \<noteq> 0 then (False, put_words r1 (lo @ hi))
       else (True, (put_words r1 (lo @ hi))\<lparr>bn_width := bn_width a, bn_neg := False\<rparr>)) else (False, r1))"
    unfolding assms(4) [symmetric] bn_usub_consttime_def if_not_P [OF False] n_def [symmetric] Let_def
    by (simp add: grow lo hi)
  show ?thesis
  proof (cases "ok1 \<and> c' = 0")
    case True
    then have "ok" "r' = (put_words r1 (lo @ hi))\<lparr>bn_width := bn_width a, bn_neg := False\<rparr>" using run by simp_all
    moreover have "bn_width a \<le> bn_dmax r1" using grown True by simp
    ultimately show ?thesis using True c' diff room grown set_words_eq [OF _ wlen, of r1]
      by (simp add: wf_bn_def bn_nat_def bn_words_def)
  next
    case notok: False
    then have "\<not> ok" "wf_bn r'" using run grown wlen by (auto simp: wf_bn_def put_words_def split: if_splits)
    with notok c' room show ?thesis by blast
  qed
qed

lemma BN_usub_eq:
  assumes "wf_bn r" "wf_bn a" "wf_bn b" "BN_usub al r a b = (ok, r')"
  shows "wf_bn r' \<and> (ok \<longrightarrow> canonical r' \<and> bn_nat r' + bn_nat b = bn_nat a \<and> \<not> bn_neg r') \<and>
    (ok \<longleftrightarrow> bn_nat b \<le> bn_nat a \<and> room al r (bn_width a))"
proof -
  obtain ok1 r1 where sub: "bn_usub_consttime al r a b = (ok1, r1)" by force
  note eq = bn_usub_consttime_eq [OF assms(1-3) sub]
  have "bn_neg (bn_set_minimal_width r1) = (bn_neg r1 \<and> bn_width (bn_set_minimal_width r1) \<noteq> 0)"
    by (simp add: bn_set_minimal_width_def Let_def)
  with assms(4) eq bn_set_minimal_width_eq [of r1] show ?thesis
    by (cases ok1) (auto simp: BN_usub_def sub canonical_def)
qed

lemma usub_signed_eq:
  assumes "wf_bn r" "wf_bn a" "wf_bn b" "usub_signed al r a b = (ok, r')"
  shows "wf_bn r' \<and> (ok \<longrightarrow> canonical r' \<and> bn_int r' = int (bn_nat a) - int (bn_nat b)) \<and>
    (ok \<longleftrightarrow> room al r (if bn_nat a < bn_nat b then bn_width b else bn_width a))"
proof (cases "bn_nat a < bn_nat b")
  case True
  obtain ok1 r1 where sub: "BN_usub al r b a = (ok1, r1)" by force
  have "r' = (if ok1 then r1\<lparr>bn_neg := True\<rparr> else r1)" "ok = ok1"
    using assms(4) True sub by (auto simp: usub_signed_def BN_ucmp_eq assms order_def split: if_splits)
  with BN_usub_eq [OF assms(1,3,2) sub] True show ?thesis
    by (auto simp: canonical_def wf_bn_def bn_int_def bn_nat_def bn_words_def)
next
  case False
  obtain ok1 r1 where sub: "BN_usub al r a b = (ok1, r1)" by force
  have "r' = (if ok1 then r1\<lparr>bn_neg := False\<rparr> else r1)" "ok = ok1"
    using assms(4) False sub by (auto simp: usub_signed_def BN_ucmp_eq assms order_def split: if_splits)
  with BN_usub_eq [OF assms(1-3) sub] False show ?thesis
    by (auto simp: canonical_def wf_bn_def bn_int_def bn_nat_def bn_words_def)
qed

lemma room_mono: "room al r n \<Longrightarrow> m \<le> n \<Longrightarrow> room al r m"
  by (auto simp: room_def)

lemma BN_add_eq:
  assumes "wf_bn r" "canonical a" "canonical b" "BN_add al r a b = (ok, r')"
  shows "wf_bn r' \<and> (ok \<longrightarrow> canonical r' \<and> bn_int r' = bn_int a + bn_int b) \<and>
    (room al r (max (bn_width a) (bn_width b) + 1) \<longrightarrow> ok)"
proof -
  have wf: "wf_bn a" "wf_bn b" using assms(2,3) by (simp_all add: canonical_def)
  consider (pos) "\<not> bn_neg a" "bn_neg b" | (neg) "bn_neg a" "\<not> bn_neg b" | (same) "bn_neg a = bn_neg b" by blast
  then show ?thesis
  proof cases
    case pos
    then have "usub_signed al r a b = (ok, r')" using assms(4) by (simp add: BN_add_def)
    from usub_signed_eq [OF assms(1) wf this] pos show ?thesis
      by (auto simp: bn_int_def elim: room_mono split: if_splits)
  next
    case neg
    then have "usub_signed al r b a = (ok, r')" using assms(4) by (simp add: BN_add_def)
    from usub_signed_eq [OF assms(1) wf(2,1) this] neg show ?thesis
      by (auto simp: bn_int_def elim: room_mono split: if_splits)
  next
    case same
    obtain ok1 r1 where add: "BN_uadd al r a b = (ok1, r1)" by force
    then have "ok = ok1" "r' = r1\<lparr>bn_neg := bn_neg a\<rparr>" using assms(4) same by (simp_all add: BN_add_def Let_def)
    with BN_uadd_eq [OF assms(1) wf add] same assms(2,3) show ?thesis
      by (auto simp: bn_int_def canonical_def wf_bn_def bn_nat_def bn_words_def)
  qed
qed

lemma BN_sub_eq:
  assumes "wf_bn r" "canonical a" "canonical b" "BN_sub al r a b = (ok, r')"
  shows "wf_bn r' \<and> (ok \<longrightarrow> canonical r' \<and> bn_int r' = bn_int a - bn_int b) \<and>
    (room al r (max (bn_width a) (bn_width b) + 1) \<longrightarrow> ok)"
proof -
  have wf: "wf_bn a" "wf_bn b" using assms(2,3) by (simp_all add: canonical_def)
  consider (pos) "\<not> bn_neg a" "\<not> bn_neg b" | (neg) "bn_neg a" "bn_neg b" | (diff) "bn_neg a \<noteq> bn_neg b" by blast
  then show ?thesis
  proof cases
    case pos
    then have "usub_signed al r a b = (ok, r')" using assms(4) by (simp add: BN_sub_def)
    from usub_signed_eq [OF assms(1) wf this] pos show ?thesis
      by (auto simp: bn_int_def elim: room_mono split: if_splits)
  next
    case neg
    then have "usub_signed al r b a = (ok, r')" using assms(4) by (simp add: BN_sub_def)
    from usub_signed_eq [OF assms(1) wf(2,1) this] neg show ?thesis
      by (auto simp: bn_int_def elim: room_mono split: if_splits)
  next
    case diff
    obtain ok1 r1 where add: "BN_uadd al r a b = (ok1, r1)" by force
    then have "ok = ok1" "r' = (if ok1 then r1\<lparr>bn_neg := bn_neg a\<rparr> else r1)" using assms(4) diff
      by (auto simp: BN_sub_def Let_def split: if_splits)
    with BN_uadd_eq [OF assms(1) wf add] diff assms(2,3) show ?thesis
      by (auto simp: bn_int_def canonical_def wf_bn_def bn_nat_def bn_words_def)
  qed
qed

subsection \<open>Words\<close>

lemma add_word_loop_eq:
  "case add_word_loop ds w of (r, w') \<Rightarrow> length r = length ds \<and> wval r + limbs (length ds) * unat w' = wval ds + unat w"
proof (induction ds w rule: add_word_loop.induct)
  case (2 d ds w)
  show ?case
  proof (cases "w = 0")
    case False
    let ?w = "if d + w < w then 1 else 0 :: u64"
    obtain r w' where rw: "add_word_loop ds ?w = (r, w')" by force
    have ih: "length r = length ds" "wval r + limbs (length ds) * unat w' = wval ds + unat ?w"
      using 2 [OF False refl] unfolding rw prod.case by blast+
    have "wval ((d + w) # r) + limbs (length (d # ds)) * unat w' =
        unat (d + w) + 2 ^ 64 * (wval r + limbs (length ds) * unat w')" by (simp add: algebra_simps)
    also have "\<dots> = wval (d # ds) + unat w"
      unfolding ih(2) using add_overflow [of d w] by (cases "d + w < w") (simp_all add: algebra_simps)
    finally have "wval ((d + w) # r) + limbs (length (d # ds)) * unat w' = wval (d # ds) + unat w" .
    with False rw ih(1) show ?thesis by (simp add: Let_def)
  qed simp
qed simp

lemma sub_word_loop_eq:
  assumes "n \<le> length ds" "unat w \<le> wval (take n ds)" "w \<noteq> 0"
  obtains r i where "sub_word_loop ds w = Some (r, i)" "i < n" "length r = length ds"
    "wval (take n r) + unat w = wval (take n ds)"
  using assms
proof (induction ds arbitrary: n w thesis)
  case Nil
  then show ?case by (simp add: unat_eq_0)
next
  case (Cons d ds)
  have "n \<noteq> 0" using Cons.prems(3,4) by (cases "n = 0") (simp_all add: unat_eq_0)
  then obtain m where n: "n = Suc m" by (cases n) simp_all
  show ?case
  proof (cases "w \<le> d")
    case True
    then have "sub_word_loop (d # ds) w = Some ((d - w) # ds, 0)" "unat (d - w) + unat w = unat d"
      by (simp_all add: unat_sub word_le_nat_alt)
    then show ?thesis using n by (intro Cons.prems(1) [of "(d - w) # ds" 0]) simp_all
  next
    case False
    then have less: "unat d < unat w" by (simp add: word_le_nat_alt)
    have "1 \<le> wval (take m ds)" using Cons.prems(3) less n by (cases "wval (take m ds)") simp_all
    then obtain r i where ih: "sub_word_loop ds 1 = Some (r, i)" "i < m" "length r = length ds"
        "wval (take m r) + 1 = wval (take m ds)"
      using Cons.IH [where n = m and w = 1] Cons.prems(2) n by auto
    have "d < d - w" using sub_underflow [of d w] less by (cases "d < d - w") simp_all
    then have "unat (d - w) + unat w = unat d + 2 ^ 64" using sub_underflow [of d w] by simp
    then have "wval (take n ((d - w) # r)) + unat w = wval (take n (d # ds))"
      using ih(4) [symmetric] n by (simp add: algebra_simps)
    with ih n False show ?thesis by (intro Cons.prems(1) [of "(d - w) # r" "Suc i"]) simp_all
  qed
qed

lemma true_suffices [simp]: "\<exists>ok. ok \<and> (P \<longrightarrow> ok)"
  by blast

lemma add_word_nonneg:
  assumes "wf_bn a" "\<not> bn_neg a"
  shows "\<exists>ok a'. BN_add_word al a w = Some (ok, a') \<and> wf_bn a' \<and>
    (ok \<longrightarrow> bn_nat a' = bn_nat a + unat w \<and> \<not> bn_neg a') \<and> (room al a (bn_width a + 1) \<longrightarrow> ok)"
proof -
  consider (none) "w = 0" | (zero) "w \<noteq> 0" "BN_is_zero a" | (loop) "w \<noteq> 0" "\<not> BN_is_zero a" by blast
  then show ?thesis
  proof cases
    case none
    then show ?thesis using assms by (auto simp: BN_add_word.simps)
  next
    case zero
    obtain ok a' where set: "BN_set_word al a w = (ok, a')" by force
    have "ok \<longleftrightarrow> room al a 1"
      using set bn_wexpand_ok zero(1) by (auto simp: BN_set_word_def split: prod.splits if_splits)
    with zero set BN_set_word_eq [OF assms(1) set] BN_is_zero_eq [OF assms(1)] room_mono [of al a "bn_width a + 1" 1]
    show ?thesis by (simp add: BN_add_word.simps)
  next
    case loop
    obtain ds w' where dw: "add_word_loop (take (bn_width a) (bn_d a)) w = (ds, w')" by force
    have len: "length (take (bn_width a) (bn_d a)) = bn_width a" using assms(1) by (simp add: wf_bn_def)
    have D: "length ds = bn_width a" "wval ds + limbs (bn_width a) * unat w' = bn_nat a + unat w"
      using add_word_loop_eq [of "take (bn_width a) (bn_d a)" w] unfolding dw prod.case len bn_nat_def bn_words_def by blast+
    let ?a = "put_words a ds"
    have A: "wf_bn ?a" "bn_words ?a = ds" "bn_width ?a = bn_width a" "bn_dmax ?a = bn_dmax a" "\<not> bn_neg ?a"
      using assms D(1) by (simp_all add: put_words_def wf_bn_def bn_words_def)
    show ?thesis
    proof (cases "w' = 0")
      case True
      with loop assms dw A D show ?thesis by (simp add: BN_add_word.simps bn_nat_def)
    next
      case False
      obtain ok1 a1 where grow: "bn_wexpand al ?a (bn_width a + 1) = (ok1, a1)" by force
      note G = bn_wexpand_eq [OF A(1) grow] and R = bn_wexpand_ok [OF grow]
      have room: "room al ?a (bn_width a + 1) \<longleftrightarrow> room al a (bn_width a + 1)" by (simp add: room_def put_words_def)
      have run: "BN_add_word al a w = Some (if ok1 then (True, a1\<lparr>bn_d := (bn_d a1)[bn_width a1 := w'], bn_width := bn_width a1 + 1\<rparr>) else (False, a1))"
        using loop assms(2) dw False grow A(3) by (simp add: BN_add_word.simps)
      show ?thesis
      proof (cases ok1)
        case True
        have lt: "bn_width a1 < length (bn_d a1)" "bn_words a1 = ds" "bn_width a1 = bn_width a"
          using G True A by (auto simp: wf_bn_def)
        have "bn_words (a1\<lparr>bn_d := (bn_d a1)[bn_width a1 := w'], bn_width := bn_width a1 + 1\<rparr>) = ds @ [w']"
          using lt by (simp add: bn_words_def take_Suc_conv_app_nth)
        then have "bn_nat (a1\<lparr>bn_d := (bn_d a1)[bn_width a1 := w'], bn_width := bn_width a1 + 1\<rparr>) = bn_nat a + unat w"
          using D by (simp add: bn_nat_def wval_append)
        with True run G lt A(5) show ?thesis by (simp add: wf_bn_def)
      next
        case False
        with run G R room A(1) show ?thesis by (intro exI [of _ False] exI [of _ a1]) simp
      qed
    qed
  qed
qed

lemma sub_word_nonneg:
  assumes "wf_bn a" "\<not> bn_neg a"
  shows "\<exists>ok a'. BN_sub_word al a w = Some (ok, a') \<and> wf_bn a' \<and>
    (ok \<longrightarrow> canonical a' \<and> bn_int a' = int (bn_nat a) - int (unat w)) \<and> (room al a 1 \<longrightarrow> ok)"
proof -
  consider (none) "w = 0" | (zero) "w \<noteq> 0" "BN_is_zero a"
    | (one) "w \<noteq> 0" "\<not> BN_is_zero a" "bn_minimal_width a = 1 \<and> bn_d a ! 0 < w"
    | (loop) "w \<noteq> 0" "\<not> BN_is_zero a" "\<not> (bn_minimal_width a = 1 \<and> bn_d a ! 0 < w)" by blast
  then show ?thesis
  proof cases
    case none
    then show ?thesis using assms by (auto simp: BN_sub_word.simps canonical_def bn_int_def)
  next
    case zero
    obtain ok a' where set: "BN_set_word al a w = (ok, a')" by force
    have ok: "ok \<longleftrightarrow> room al a 1"
      using set bn_wexpand_ok zero(1) by (auto simp: BN_set_word_def split: prod.splits if_splits)
    have "unat w \<noteq> 0" using zero(1) by (simp add: unat_eq_0)
    with zero set ok BN_set_word_eq [OF assms(1) set] BN_is_zero_eq [OF assms(1)] BN_is_zero_eq [of a']
    show ?thesis
      by (auto simp: BN_sub_word.simps BN_set_negative_def canonical_def bn_int_def bn_nat_def bn_words_def wf_bn_def)
  next
    case one
    let ?d = "bn_d a ! 0"
    let ?a = "a\<lparr>bn_d := (bn_d a)[0 := w - ?d], bn_neg := True\<rparr>"
    have m: "bn_minimal_width a = 1" "?d < w" using one(3) by simp_all
    have width: "1 \<le> bn_width a" using bn_minimal_width_eq(1) [OF assms(1)] m(1) by simp
    then obtain ds where d: "bn_d a = ?d # ds" using assms(1) by (cases "bn_d a") (auto simp: wf_bn_def)
    have one_word: "bn_nat a = unat ?d"
      using bn_minimal_width_eq(2) [OF assms(1)] m(1) by (subst (asm) d) simp
    have "bn_nat a = unat ?d + 2 ^ 64 * wval (take (bn_width a - 1) ds)"
      unfolding bn_nat_def bn_words_def using width by (subst d) (simp add: take_Cons')
    with one_word have rest: "wval (take (bn_width a - 1) ds) = 0" by simp
    have words: "bn_words ?a = (w - ?d) # take (bn_width a - 1) ds"
      unfolding bn_words_def using width by (subst d) (simp add: take_Cons')
    have sub: "unat (w - ?d) = unat w - unat ?d" "unat ?d < unat w" using m(2) by (simp_all add: unat_sub word_less_nat_alt less_imp_le)
    have "bn_nat ?a = unat w - bn_nat a" unfolding bn_nat_def [of ?a] words using rest sub one_word by simp
    moreover have "wf_bn ?a" using assms(1) by (simp add: wf_bn_def)
    moreover have "BN_sub_word al a w = Some (True, ?a)" using one assms(2) by (simp add: BN_sub_word.simps)
    ultimately show ?thesis using sub(2) one_word by (simp add: canonical_def bn_int_def)
  next
    case loop
    have big: "unat w \<le> bn_nat a"
    proof (cases "bn_minimal_width a = 1")
      case True
      then have "w \<le> bn_d a ! 0" using loop(3) by simp
      moreover have "0 < length (bn_d a)" using bn_minimal_width_eq(1) [OF assms(1)] True assms(1) by (auto simp: wf_bn_def)
      ultimately show ?thesis using bn_minimal_width_eq(2) [OF assms(1)] True by (cases "bn_d a") (simp_all add: word_le_nat_alt)
    next
      case False
      let ?m = "bn_minimal_width a"
      have "?m \<noteq> 0" using bn_minimal_width_eq(2) [OF assms(1)] loop(2) BN_is_zero_eq [OF assms(1)] by (cases "?m = 0") simp_all
      have top: "1 \<le> ?m - 1" "?m - 1 < length (bn_d a)" "bn_d a ! (?m - 1) \<noteq> 0"
        using False \<open>?m \<noteq> 0\<close> bn_minimal_width_eq [OF assms(1)] assms(1) unfolding wf_bn_def by linarith+
      then have "take ?m (bn_d a) = take (?m - 1) (bn_d a) @ [bn_d a ! (?m - 1)]"
        using take_Suc_conv_app_nth [of "?m - 1" "bn_d a"] by simp
      then have "bn_nat a = wval (take (?m - 1) (bn_d a)) + limbs (?m - 1) * unat (bn_d a ! (?m - 1))"
        using bn_minimal_width_eq(2) [OF assms(1)] top(2) by (simp add: wval_append min_absorb2)
      then have "limbs (?m - 1) * unat (bn_d a ! (?m - 1)) \<le> bn_nat a" by simp
      moreover have "unat (bn_d a ! (?m - 1)) \<noteq> 0" using top(3) by (simp only: unat_eq_0 not_False_eq_True)
      moreover have "limbs 1 \<le> limbs (?m - 1)" using top(1) by (intro power_increasing) simp_all
      ultimately have "limbs 1 * 1 \<le> bn_nat a"
        using mult_le_mono [of "limbs 1" "limbs (?m - 1)" 1 "unat (bn_d a ! (?m - 1))"] by linarith
      moreover have "unat w < 2 ^ 64" by simp
      ultimately show ?thesis by (simp del: unat_u64_lt unat_lt_2p)
    qed
    obtain ds i where D: "sub_word_loop (bn_d a) w = Some (ds, i)" "i < bn_width a" "length ds = length (bn_d a)"
        "wval (take (bn_width a) ds) + unat w = bn_nat a"
      using sub_word_loop_eq [of "bn_width a" "bn_d a" w] big loop(1) assms(1)
      by (auto simp: wf_bn_def bn_nat_def bn_words_def)
    let ?a = "a\<lparr>bn_d := ds\<rparr>"
    define cut where "cut \<longleftrightarrow> ds ! i = 0 \<and> i = bn_width a - 1"
    have "wval (take (bn_width a - 1) ds) = wval (take (bn_width a) ds)" if cut
    proof -
      have "take (bn_width a) ds = take (bn_width a - 1) ds @ [ds ! (bn_width a - 1)]"
      proof -
        have "bn_width a - 1 < length ds" "Suc (bn_width a - 1) = bn_width a" using D(2,3) assms(1) unfolding wf_bn_def by linarith+
        then show ?thesis using take_Suc_conv_app_nth [of "bn_width a - 1" ds] by simp
      qed
      moreover have "ds ! (bn_width a - 1) = 0" using that unfolding cut_def by auto
      ultimately show ?thesis by (simp add: wval_append)
    qed
    moreover have "bn_width a - 1 \<le> bn_dmax a" using assms(1) unfolding wf_bn_def by linarith
    ultimately have "wf_bn (if cut then ?a\<lparr>bn_width := bn_width a - 1\<rparr> else ?a) \<and>
        bn_nat (if cut then ?a\<lparr>bn_width := bn_width a - 1\<rparr> else ?a) + unat w = bn_nat a"
      using assms(1) D by (cases cut) (simp_all add: wf_bn_def bn_nat_def bn_words_def)
    moreover have "BN_sub_word al a w = Some (True, if cut then ?a\<lparr>bn_width := bn_width a - 1\<rparr> else ?a)"
      using loop assms(2) D(1) by (auto simp: BN_sub_word.simps cut_def Let_def)
    moreover have "\<not> bn_neg (if cut then ?a\<lparr>bn_width := bn_width a - 1\<rparr> else ?a)" using assms(2) by simp
    ultimately obtain a' where "BN_sub_word al a w = Some (True, a')" "wf_bn a'" "bn_nat a' + unat w = bn_nat a" "\<not> bn_neg a'"
      by blast
    moreover from this have "int (bn_nat a') = int (bn_nat a) - int (unat w)" by linarith
    ultimately show ?thesis by (intro exI [of _ True] exI [of _ a']) (simp add: canonical_def bn_int_def)
  qed
qed

lemma BN_add_word_eq:
  assumes "canonical a"
  shows "\<exists>ok a'. BN_add_word al a w = Some (ok, a') \<and> wf_bn a' \<and>
    (ok \<longrightarrow> canonical a' \<and> bn_int a' = bn_int a + int (unat w)) \<and> (room al a (bn_width a + 1) \<longrightarrow> ok)"
proof (cases "bn_neg a \<and> w \<noteq> 0")
  case False
  show ?thesis
  proof (cases "w = 0")
    case True
    with assms show ?thesis by (auto simp: BN_add_word.simps canonical_def)
  next
    case w: False
    obtain ok a' where "BN_add_word al a w = Some (ok, a')" "wf_bn a'"
      "ok \<longrightarrow> bn_nat a' = bn_nat a + unat w \<and> \<not> bn_neg a'" "room al a (bn_width a + 1) \<longrightarrow> ok"
      using add_word_nonneg [of a al w] assms False w by (auto simp: canonical_def)
    moreover have "bn_int a = int (bn_nat a)" using False w by (simp add: bn_int_def)
    ultimately show ?thesis by (intro exI [of _ ok] exI [of _ a']) (simp add: canonical_def bn_int_def)
  qed
next
  case True
  let ?a = "a\<lparr>bn_neg := False\<rparr>"
  have a: "wf_bn ?a" "bn_nat ?a = bn_nat a" "room al ?a n = room al a n" "\<not> BN_is_zero a" for n
    using assms True by (simp_all add: canonical_def wf_bn_def bn_nat_def bn_words_def room_def BN_is_zero_eq)
  obtain ok a1 where sub: "BN_sub_word al ?a w = Some (ok, a1)" "wf_bn a1"
      "ok \<longrightarrow> canonical a1 \<and> bn_int a1 = int (bn_nat a) - int (unat w)" "room al a 1 \<longrightarrow> ok"
    using sub_word_nonneg [OF a(1), of al w] unfolding a(2,3) by auto
  let ?r = "if \<not> BN_is_zero a1 then a1\<lparr>bn_neg := \<not> bn_neg a1\<rparr> else a1"
  have run: "BN_add_word al a w = Some (ok, ?r)"
    using True a(4) sub(1) by (simp add: BN_add_word.simps [of al a])
  have r: "wf_bn ?r" "bn_nat ?r = bn_nat a1" using sub(2) by (simp_all add: wf_bn_def bn_nat_def bn_words_def)
  have z: "BN_is_zero a1 \<longleftrightarrow> bn_nat a1 = 0" using BN_is_zero_eq [OF sub(2)] .
  have "canonical ?r \<and> bn_int ?r = bn_int a + int (unat w)" if ok
    using sub(3) that True r z by (auto simp: canonical_def bn_int_def wf_bn_def split: if_splits)
  moreover have "room al a (bn_width a + 1) \<longrightarrow> ok" using sub(4) room_mono [of al a "bn_width a + 1" 1] by simp
  ultimately show ?thesis using run r(1) by blast
qed

lemma BN_sub_word_eq:
  assumes "canonical a"
  shows "\<exists>ok a'. BN_sub_word al a w = Some (ok, a') \<and> wf_bn a' \<and>
    (ok \<longrightarrow> canonical a' \<and> bn_int a' = bn_int a - int (unat w)) \<and> (room al a (bn_width a + 1) \<longrightarrow> ok)"
proof (cases "bn_neg a \<and> w \<noteq> 0")
  case False
  show ?thesis
  proof (cases "w = 0")
    case True
    with assms show ?thesis by (auto simp: BN_sub_word.simps canonical_def)
  next
    case w: False
    obtain ok a' where "BN_sub_word al a w = Some (ok, a')" "wf_bn a'"
      "ok \<longrightarrow> canonical a' \<and> bn_int a' = int (bn_nat a) - int (unat w)" "room al a 1 \<longrightarrow> ok"
      using sub_word_nonneg [of a al w] assms False w by (auto simp: canonical_def)
    moreover have "room al a (bn_width a + 1) \<longrightarrow> room al a 1" using room_mono [of al a "bn_width a + 1" 1] by simp
    moreover have "bn_int a = int (bn_nat a)" using False w by (simp add: bn_int_def)
    ultimately show ?thesis by (intro exI [of _ ok] exI [of _ a']) auto
  qed
next
  case True
  let ?a = "a\<lparr>bn_neg := False\<rparr>"
  have a: "wf_bn ?a" "bn_nat ?a = bn_nat a" "room al ?a n = room al a n" "\<not> BN_is_zero a" "bn_nat a \<noteq> 0" for n
    using assms True by (simp_all add: canonical_def wf_bn_def bn_nat_def bn_words_def room_def BN_is_zero_eq)
  obtain ok a1 where add: "BN_add_word al ?a w = Some (ok, a1)" "wf_bn a1"
      "ok \<longrightarrow> bn_nat a1 = bn_nat a + unat w \<and> \<not> bn_neg a1" "room al a (bn_width a + 1) \<longrightarrow> ok"
    using add_word_nonneg [OF a(1), of al w] unfolding a(2,3) by auto
  let ?r = "a1\<lparr>bn_neg := True\<rparr>"
  have run: "BN_sub_word al a w = Some (ok, ?r)"
    using True a(4) add(1) by (simp add: BN_sub_word.simps [of al a])
  have r: "wf_bn ?r" "bn_nat ?r = bn_nat a1" using add(2) by (simp_all add: wf_bn_def bn_nat_def bn_words_def)
  have "canonical ?r \<and> bn_int ?r = bn_int a - int (unat w)" if ok
    using add(3) that True r a(5) by (auto simp: canonical_def bn_int_def)
  with run r(1) add(4) show ?thesis by blast
qed

end
