(* ===== verification/Bn_Comba.thy ===== *)
theory Bn_Comba
  imports Bn_Words
begin

text \<open>
  The multiplications and squarings of 4 and of 8 words of crypto/fipsmodule/bn/generic.c, column by
  column (Comba). The three words of a column rotate through c1, c2 and c3 in the source; a column here
  starts with its own three words: the two that the last column leaves, and zero. The steps of a
  column are listed in the order of the source.
\<close>

unbundle bit_operations_syntax

type_synonym column = "u64 \<times> u64 \<times> u64"

subsection \<open>generic.c\<close>

definition mul_add_c :: "u64 \<Rightarrow> u64 \<Rightarrow> column \<Rightarrow> column" where
  "mul_add_c a b = (\<lambda>(c0, c1, c2).
     let t = ucast a * (ucast b :: u128);
         t = t + ucast c0;
         c0 = ucast t;
         hi = ucast (drop_bit 64 t);
         c1 = c1 + hi;
         c2 = (if c1 < hi then c2 + 1 else c2)
     in (c0, c1, c2))"

definition mul_add_c2 :: "u64 \<Rightarrow> u64 \<Rightarrow> column \<Rightarrow> column" where
  "mul_add_c2 a b = (\<lambda>(c0, c1, c2).
     let t = ucast a * (ucast b :: u128);
         tt = t + ucast c0;
         c0 = (ucast tt :: u64);
         hi = ucast (drop_bit 64 tt);
         c1 = c1 + hi;
         c2 = (if c1 < hi then c2 + 1 else c2);
         t = t + ucast c0;
         c0 = ucast t;
         hi = ucast (drop_bit 64 t);
         c1 = c1 + hi;
         c2 = (if c1 < hi then c2 + 1 else c2)
     in (c0, c1, c2))"

datatype comba_step = Mul_add_c nat nat | Sqr_add_c nat | Sqr_add_c2 nat nat

fun run_step :: "u64 list \<Rightarrow> u64 list \<Rightarrow> comba_step \<Rightarrow> column \<Rightarrow> column" where
  "run_step a b (Mul_add_c i j) = mul_add_c (a ! i) (b ! j)"
| "run_step a b (Sqr_add_c i) = mul_add_c (a ! i) (a ! i)"
| "run_step a b (Sqr_add_c2 i j) = mul_add_c2 (a ! i) (a ! j)"

text \<open>The words of r: one for each column, and the second word of the last.\<close>

fun comba :: "u64 list \<Rightarrow> u64 list \<Rightarrow> column \<Rightarrow> comba_step list list \<Rightarrow> u64 list" where
  "comba a b c [] = [fst c]"
| "comba a b c (col # cols) =
     (case fold (run_step a b) col c of (c0, c1, c2) \<Rightarrow> c0 # comba a b (c1, c2, 0) cols)"

definition mul_comba8_columns :: "comba_step list list" where
  "mul_comba8_columns = [
     [Mul_add_c 0 0],
     [Mul_add_c 0 1, Mul_add_c 1 0],
     [Mul_add_c 2 0, Mul_add_c 1 1, Mul_add_c 0 2],
     [Mul_add_c 0 3, Mul_add_c 1 2, Mul_add_c 2 1, Mul_add_c 3 0],
     [Mul_add_c 4 0, Mul_add_c 3 1, Mul_add_c 2 2, Mul_add_c 1 3, Mul_add_c 0 4],
     [Mul_add_c 0 5, Mul_add_c 1 4, Mul_add_c 2 3, Mul_add_c 3 2, Mul_add_c 4 1, Mul_add_c 5 0],
     [Mul_add_c 6 0, Mul_add_c 5 1, Mul_add_c 4 2, Mul_add_c 3 3, Mul_add_c 2 4, Mul_add_c 1 5, Mul_add_c 0 6],
     [Mul_add_c 0 7, Mul_add_c 1 6, Mul_add_c 2 5, Mul_add_c 3 4, Mul_add_c 4 3, Mul_add_c 5 2, Mul_add_c 6 1,
      Mul_add_c 7 0],
     [Mul_add_c 7 1, Mul_add_c 6 2, Mul_add_c 5 3, Mul_add_c 4 4, Mul_add_c 3 5, Mul_add_c 2 6, Mul_add_c 1 7],
     [Mul_add_c 2 7, Mul_add_c 3 6, Mul_add_c 4 5, Mul_add_c 5 4, Mul_add_c 6 3, Mul_add_c 7 2],
     [Mul_add_c 7 3, Mul_add_c 6 4, Mul_add_c 5 5, Mul_add_c 4 6, Mul_add_c 3 7],
     [Mul_add_c 4 7, Mul_add_c 5 6, Mul_add_c 6 5, Mul_add_c 7 4],
     [Mul_add_c 7 5, Mul_add_c 6 6, Mul_add_c 5 7],
     [Mul_add_c 6 7, Mul_add_c 7 6],
     [Mul_add_c 7 7]]"

definition bn_mul_comba8 :: "u64 list \<Rightarrow> u64 list \<Rightarrow> u64 list" where
  "bn_mul_comba8 a b = comba a b (0, 0, 0) mul_comba8_columns"

definition mul_comba4_columns :: "comba_step list list" where
  "mul_comba4_columns = [
     [Mul_add_c 0 0],
     [Mul_add_c 0 1, Mul_add_c 1 0],
     [Mul_add_c 2 0, Mul_add_c 1 1, Mul_add_c 0 2],
     [Mul_add_c 0 3, Mul_add_c 1 2, Mul_add_c 2 1, Mul_add_c 3 0],
     [Mul_add_c 3 1, Mul_add_c 2 2, Mul_add_c 1 3],
     [Mul_add_c 2 3, Mul_add_c 3 2],
     [Mul_add_c 3 3]]"

definition bn_mul_comba4 :: "u64 list \<Rightarrow> u64 list \<Rightarrow> u64 list" where
  "bn_mul_comba4 a b = comba a b (0, 0, 0) mul_comba4_columns"

definition sqr_comba8_columns :: "comba_step list list" where
  "sqr_comba8_columns = [
     [Sqr_add_c 0],
     [Sqr_add_c2 1 0],
     [Sqr_add_c 1, Sqr_add_c2 2 0],
     [Sqr_add_c2 3 0, Sqr_add_c2 2 1],
     [Sqr_add_c 2, Sqr_add_c2 3 1, Sqr_add_c2 4 0],
     [Sqr_add_c2 5 0, Sqr_add_c2 4 1, Sqr_add_c2 3 2],
     [Sqr_add_c 3, Sqr_add_c2 4 2, Sqr_add_c2 5 1, Sqr_add_c2 6 0],
     [Sqr_add_c2 7 0, Sqr_add_c2 6 1, Sqr_add_c2 5 2, Sqr_add_c2 4 3],
     [Sqr_add_c 4, Sqr_add_c2 5 3, Sqr_add_c2 6 2, Sqr_add_c2 7 1],
     [Sqr_add_c2 7 2, Sqr_add_c2 6 3, Sqr_add_c2 5 4],
     [Sqr_add_c 5, Sqr_add_c2 6 4, Sqr_add_c2 7 3],
     [Sqr_add_c2 7 4, Sqr_add_c2 6 5],
     [Sqr_add_c 6, Sqr_add_c2 7 5],
     [Sqr_add_c2 7 6],
     [Sqr_add_c 7]]"

definition bn_sqr_comba8 :: "u64 list \<Rightarrow> u64 list" where
  "bn_sqr_comba8 a = comba a a (0, 0, 0) sqr_comba8_columns"

definition sqr_comba4_columns :: "comba_step list list" where
  "sqr_comba4_columns = [
     [Sqr_add_c 0],
     [Sqr_add_c2 1 0],
     [Sqr_add_c 1, Sqr_add_c2 2 0],
     [Sqr_add_c2 3 0, Sqr_add_c2 2 1],
     [Sqr_add_c 2, Sqr_add_c2 3 1],
     [Sqr_add_c2 3 2],
     [Sqr_add_c 3]]"

definition bn_sqr_comba4 :: "u64 list \<Rightarrow> u64 list" where
  "bn_sqr_comba4 a = comba a a (0, 0, 0) sqr_comba4_columns"

subsection \<open>The products\<close>

text \<open>The number of a column, and the pairs whose products a step adds.\<close>

fun colval :: "column \<Rightarrow> nat" where
  "colval (c0, c1, c2) = unat c0 + 2 ^ 64 * unat c1 + 2 ^ 128 * unat c2"

fun step_pairs :: "comba_step \<Rightarrow> (nat \<times> nat) list" where
  "step_pairs (Mul_add_c i j) = [(i, j)]"
| "step_pairs (Sqr_add_c i) = [(i, i)]"
| "step_pairs (Sqr_add_c2 i j) = [(i, j), (j, i)]"

definition col_pairs :: "comba_step list \<Rightarrow> (nat \<times> nat) list" where
  "col_pairs col = concat (map step_pairs col)"

definition pairs_sum :: "u64 list \<Rightarrow> u64 list \<Rightarrow> (nat \<times> nat) list \<Rightarrow> nat" where
  "pairs_sum a b ps = (\<Sum>(i, j)\<leftarrow>ps. unat (a ! i) * unat (b ! j))"

lemma word_product_lt: "unat (a :: u64) * unat (b :: u64) \<le> (2 ^ 64 - 1) * (2 ^ 64 - 1)"
proof -
  have "unat v \<le> 2 ^ 64 - 1" for v :: u64 using unat_u64_lt [of v] by (simp del: unat_u64_lt)
  then show ?thesis by (intro mult_le_mono) 
qed

lemma add_to_product:
  "unat (ucast a * ucast b + (ucast c :: u128)) = unat (a :: u64) * unat (b :: u64) + unat (c :: u64)"
proof -
  have "unat c \<le> 2 ^ 64 - 1" using unat_u64_lt [of c] by (simp del: unat_u64_lt)
  then have "unat a * unat b + unat c < 2 ^ 128" using word_product_lt [of a b] by simp
  then show ?thesis by (subst double_add_unat) (simp_all add: double_mult_unat unat_double)
qed

text \<open>A carry into the third word.\<close>

lemma carry_up:
  assumes "unat c1 + unat hi + 2 ^ 64 * unat c2 < 2 ^ 128"
  shows "unat (c1 + hi) + 2 ^ 64 * unat (if c1 + hi < hi then c2 + 1 else c2) =
    unat (c1 :: u64) + unat (hi :: u64) + 2 ^ 64 * unat (c2 :: u64)"
proof -
  have sum: "unat (c1 + hi) + 2 ^ 64 * of_bool (c1 + hi < hi) = unat c1 + unat hi" by (rule add_overflow)
  show ?thesis
  proof (cases "c1 + hi < hi")
    case True
    then have "2 ^ 64 * (unat c2 + 1) < 2 ^ 64 * 2 ^ 64" using sum assms by simp
    then have "unat c2 + 1 < 2 ^ 64" unfolding mult_less_cancel1 by simp
    then have "unat (c2 + 1) = unat c2 + 1" by (simp add: unat_word_ariths)
    with True sum show ?thesis by simp
  qed (use sum in simp)
qed

lemma mul_add_c_eq:
  assumes "colval c + unat a * unat b < 2 ^ 192"
  shows "colval (mul_add_c a b c) = colval c + unat a * unat b"
proof -
  obtain c0 c1 c2 where c: "c = (c0, c1, c2)" by (cases c)
  define t :: u128 where "t = ucast a * ucast b + ucast c0"
  define lo hi where "lo = (ucast t :: u64)" and "hi = (ucast (drop_bit 64 t) :: u64)"
  have t: "unat lo + 2 ^ 64 * unat hi = unat a * unat b + unat c0"
    unfolding lo_def hi_def halves t_def by (rule add_to_product)
  have "2 ^ 64 * (unat c1 + unat hi + 2 ^ 64 * unat c2) < 2 ^ 64 * 2 ^ 128"
    using assms t by (simp add: c algebra_simps)
  then have up: "unat (c1 + hi) + 2 ^ 64 * unat (if c1 + hi < hi then c2 + 1 else c2) = unat c1 + unat hi + 2 ^ 64 * unat c2"
    unfolding mult_less_cancel1 by (intro carry_up) simp
  have "colval (mul_add_c a b c) = unat lo + 2 ^ 64 * (unat (c1 + hi) + 2 ^ 64 * unat (if c1 + hi < hi then c2 + 1 else c2))"
    by (simp add: c mul_add_c_def Let_def t_def lo_def hi_def)
  also have "\<dots> = colval c + unat a * unat b" unfolding up using t by (simp add: c algebra_simps)
  finally show ?thesis .
qed

lemma mul_add_c2_twice: "mul_add_c2 a b c = mul_add_c a b (mul_add_c a b c)"
  by (cases c) (simp add: mul_add_c2_def mul_add_c_def Let_def)

lemma pairs_sum_simps [simp]:
  "pairs_sum a b [] = 0" "pairs_sum a b ((i, j) # ps) = unat (a ! i) * unat (b ! j) + pairs_sum a b ps"
  "pairs_sum a b (ps @ qs) = pairs_sum a b ps + pairs_sum a b qs"
  by (simp_all add: pairs_sum_def)

lemma run_step_eq:
  assumes "a = b \<or> (\<exists>i j. st = Mul_add_c i j)" "colval c + pairs_sum a b (step_pairs st) < 2 ^ 192"
  shows "colval (run_step a b st c) = colval c + pairs_sum a b (step_pairs st)"
proof (cases st)
  case (Sqr_add_c2 i j)
  then have b: "b = a" using assms(1) by simp
  have "colval c + unat (a ! i) * unat (a ! j) < 2 ^ 192" using assms(2) Sqr_add_c2 b by simp
  then have one: "colval (mul_add_c (a ! i) (a ! j) c) = colval c + unat (a ! i) * unat (a ! j)" by (rule mul_add_c_eq)
  have "colval (mul_add_c (a ! i) (a ! j) (mul_add_c (a ! i) (a ! j) c)) =
      colval (mul_add_c (a ! i) (a ! j) c) + unat (a ! i) * unat (a ! j)"
    using assms(2) Sqr_add_c2 b by (intro mul_add_c_eq) (simp add: one mult.commute)
  then show ?thesis using Sqr_add_c2 b by (simp add: mul_add_c2_twice one mult.commute)
qed (use assms in \<open>simp_all add: mul_add_c_eq\<close>)

definition steps_for :: "u64 list \<Rightarrow> u64 list \<Rightarrow> comba_step list \<Rightarrow> bool" where
  "steps_for a b col \<longleftrightarrow> a = b \<or> list_all (\<lambda>st. \<exists>i j. st = Mul_add_c i j) col"

lemma col_pairs_simps [simp]: "col_pairs [] = []" "col_pairs (st # col) = step_pairs st @ col_pairs col"
  by (simp_all add: col_pairs_def)

lemma column_eq:
  "steps_for a b col \<Longrightarrow> colval c + pairs_sum a b (col_pairs col) < 2 ^ 192 \<Longrightarrow>
   colval (fold (run_step a b) col c) = colval c + pairs_sum a b (col_pairs col)"
proof (induction col arbitrary: c)
  case (Cons st col)
  have "colval (run_step a b st c) = colval c + pairs_sum a b (step_pairs st)"
    using Cons.prems by (intro run_step_eq) (auto simp: steps_for_def)
  moreover have "colval (fold (run_step a b) col (run_step a b st c)) =
      colval (run_step a b st c) + pairs_sum a b (col_pairs col)"
    using Cons.prems calculation by (intro Cons.IH) (auto simp: steps_for_def)
  ultimately show ?case by simp
qed simp

text \<open>The sum of all columns, each with its weight.\<close>

fun cols_sum :: "u64 list \<Rightarrow> u64 list \<Rightarrow> comba_step list list \<Rightarrow> nat" where
  "cols_sum a b [] = 0"
| "cols_sum a b (col # cols) = pairs_sum a b (col_pairs col) + 2 ^ 64 * cols_sum a b cols"

lemma pairs_sum_le: "pairs_sum a b ps \<le> length ps * 2 ^ 128"
proof (induction ps)
  case (Cons p ps)
  obtain i j where p: "p = (i, j)" by (cases p)
  have "unat (a ! i) * unat (b ! j) \<le> 2 ^ 128" using word_product_lt [of "a ! i" "b ! j"] by simp
  with Cons p show ?case by simp
qed simp

lemma comba_eq:
  assumes "list_all (\<lambda>col. steps_for a b col \<and> length (col_pairs col) \<le> 8) cols"
    "colval c < 2 ^ 128" "colval c + cols_sum a b cols < limbs (Suc (length cols))"
  shows "length (comba a b c cols) = Suc (length cols) \<and> wval (comba a b c cols) = colval c + cols_sum a b cols"
  using assms
proof (induction cols arbitrary: c)
  case Nil
  obtain c0 c1 c2 where c: "c = (c0, c1, c2)" by (cases c)
  have "c1 = 0 \<and> c2 = 0"
  proof (rule ccontr)
    assume "\<not> (c1 = 0 \<and> c2 = 0)"
    then have "1 \<le> unat c1 \<or> 1 \<le> unat c2" by (auto simp: unat_eq_0 Suc_le_eq neq0_conv [symmetric] simp del: neq0_conv)
    with Nil(3) show False by (auto simp: c)
  qed
  then show ?case by (simp add: c)
next
  case (Cons col cols)
  obtain c0 c1 c2 where run: "fold (run_step a b) col c = (c0, c1, c2)" by (cases "fold (run_step a b) col c")
  have "pairs_sum a b (col_pairs col) \<le> length (col_pairs col) * 2 ^ 128" by (rule pairs_sum_le)
  also have "\<dots> \<le> 8 * 2 ^ 128" using Cons.prems(1) by (intro mult_le_mono1) simp
  finally have small: "colval c + pairs_sum a b (col_pairs col) < 9 * 2 ^ 128" using Cons.prems(2) by simp
  then have "colval (c0, c1, c2) = colval c + pairs_sum a b (col_pairs col)"
    using Cons.prems(1) column_eq [of a b col c] by (simp add: run)
  then have col: "unat c0 + 2 ^ 64 * colval (c1, c2, 0) = colval c + pairs_sum a b (col_pairs col)" by simp
  then have "2 ^ 64 * colval (c1, c2, 0) < 2 ^ 64 * 2 ^ 128" using small by simp
  then have lt: "colval (c1, c2, 0) < 2 ^ 128" unfolding mult_less_cancel1 by simp
  have sum: "unat c0 + 2 ^ 64 * (colval (c1, c2, 0) + cols_sum a b cols) = colval c + cols_sum a b (col # cols)"
    using col by (simp add: algebra_simps)
  then have "2 ^ 64 * (colval (c1, c2, 0) + cols_sum a b cols) < 2 ^ 64 * limbs (Suc (length cols))"
    using Cons.prems(3) by simp
  then have "colval (c1, c2, 0) + cols_sum a b cols < limbs (Suc (length cols))" unfolding mult_less_cancel1 by simp
  with Cons.IH [of "(c1, c2, 0)"] Cons.prems(1) lt
  have "length (comba a b (c1, c2, 0) cols) = Suc (length cols) \<and>
      wval (comba a b (c1, c2, 0) cols) = colval (c1, c2, 0) + cols_sum a b cols" by simp
  with sum run show ?case by simp
qed

text \<open>The columns of a table hold every pair of indices once, each in the column of its weight.\<close>

fun placed :: "nat \<Rightarrow> comba_step list list \<Rightarrow> bool" where
  "placed k [] = True"
| "placed k (col # cols) = (list_all (\<lambda>(i, j). i + j = k) (col_pairs col) \<and> placed (Suc k) cols)"

definition all_pairs :: "comba_step list list \<Rightarrow> (nat \<times> nat) list" where
  "all_pairs cols = concat (map col_pairs cols)"

definition full_table :: "nat \<Rightarrow> comba_step list list \<Rightarrow> bool" where
  "full_table n cols \<longleftrightarrow> placed 0 cols \<and> distinct (all_pairs cols) \<and> length (all_pairs cols) = n * n \<and>
     list_all (\<lambda>(i, j). i < n \<and> j < n) (all_pairs cols) \<and> length cols = 2 * n - 1 \<and>
     list_all (\<lambda>col. length (col_pairs col) \<le> 8) cols"

definition weighted :: "u64 list \<Rightarrow> u64 list \<Rightarrow> nat \<times> nat \<Rightarrow> nat" where
  "weighted a b = (\<lambda>(i, j). (limbs i * unat (a ! i)) * (limbs j * unat (b ! j)))"

lemma weighted_column:
  "list_all (\<lambda>(i, j). i + j = k) ps \<Longrightarrow> limbs k * pairs_sum a b ps = sum_list (map (weighted a b) ps)"
proof (induction ps)
  case (Cons p ps)
  obtain i j where p: "p = (i, j)" by (cases p)
  with Cons have "k = i + j" by simp
  then have "limbs k * (unat (a ! i) * unat (b ! j)) = weighted a b p"
    by (simp add: p weighted_def power_add algebra_simps)
  with Cons p show ?case by (simp add: distrib_left)
qed simp

lemma weighted_columns:
  "placed k cols \<Longrightarrow> limbs k * cols_sum a b cols = sum_list (map (weighted a b) (all_pairs cols))"
proof (induction cols arbitrary: k)
  case (Cons col cols)
  have "limbs k * cols_sum a b (col # cols) =
      limbs k * pairs_sum a b (col_pairs col) + limbs (Suc k) * cols_sum a b cols"
    by (simp add: algebra_simps)
  also have "\<dots> = sum_list (map (weighted a b) (col_pairs col)) + sum_list (map (weighted a b) (all_pairs cols))"
  proof -
    have "limbs (Suc k) * cols_sum a b cols = sum_list (map (weighted a b) (all_pairs cols))"
      using Cons.prems by (intro Cons.IH) simp
    moreover have "limbs k * pairs_sum a b (col_pairs col) = sum_list (map (weighted a b) (col_pairs col))"
      using Cons.prems by (intro weighted_column) simp
    ultimately show ?thesis by (simp only:)
  qed
  finally show ?case by (simp add: all_pairs_def)
qed (simp add: all_pairs_def)

lemma wval_sum: "wval ws = (\<Sum>i<length ws. limbs i * unat (ws ! i))"
proof (induction ws)
  case (Cons w ws)
  have "(\<Sum>i<length (w # ws). limbs i * unat ((w # ws) ! i)) =
      unat w + (\<Sum>i<length ws. 2 ^ 64 * (limbs i * unat (ws ! i)))"
    by (simp add: sum.lessThan_Suc_shift mult.assoc del: sum.lessThan_Suc)
  also have "\<dots> = wval (w # ws)" using Cons by (simp add: sum_distrib_left)
  finally show ?case by simp
qed simp

lemma full_table_sum:
  assumes "full_table n cols" "length a = n" "length b = n"
  shows "cols_sum a b cols = wval a * wval b"
proof -
  let ?ps = "all_pairs cols"
  have sub: "set ?ps \<subseteq> {..<n} \<times> {..<n}" using assms(1) by (auto simp: full_table_def list_all_iff)
  have "card (set ?ps) = n * n" using assms(1) by (simp add: full_table_def distinct_card)
  then have set: "set ?ps = {..<n} \<times> {..<n}" using sub by (intro card_subset_eq) simp_all
  have "cols_sum a b cols = sum_list (map (weighted a b) ?ps)"
    using weighted_columns [of 0 cols a b] assms(1) by (simp add: full_table_def)
  also have "\<dots> = sum (weighted a b) ({..<n} \<times> {..<n})"
    using assms(1) set by (simp add: full_table_def sum_list_distinct_conv_sum_set)
  also have "\<dots> = (\<Sum>i<n. \<Sum>j<n. (limbs i * unat (a ! i)) * (limbs j * unat (b ! j)))"
    by (simp add: weighted_def sum.cartesian_product)
  also have "\<dots> = wval a * wval b" by (simp add: wval_sum assms(2,3) sum_product)
  finally show ?thesis .
qed

lemma product_lt: "length a = n \<Longrightarrow> length b = m \<Longrightarrow> wval a * wval b < limbs (n + m)"
  using wval_lt [of a] wval_lt [of b] by (auto simp: power_add intro: mult_strict_mono)

lemma comba_product:
  assumes "full_table n cols" "0 < n" "length a = n" "length b = n" "list_all (steps_for a b) cols"
  shows "length (comba a b (0, 0, 0) cols) = 2 * n \<and> wval (comba a b (0, 0, 0) cols) = wval a * wval b"
proof -
  have len: "Suc (length cols) = 2 * n" using assms(1,2) by (simp add: full_table_def)
  have "cols_sum a b cols < limbs (Suc (length cols))"
    using product_lt [OF assms(3,4)] full_table_sum [OF assms(1,3,4)] len by (simp add: mult_2)
  then show ?thesis
    using comba_eq [of a b cols "(0, 0, 0)"] full_table_sum [OF assms(1,3,4)] assms(1,5) len
    by (simp add: full_table_def list_all_iff)
qed

lemmas table_defs = full_table_def all_pairs_def col_pairs_def

lemma tables_full:
  "full_table 4 mul_comba4_columns" "full_table 4 sqr_comba4_columns"
  "full_table 8 mul_comba8_columns" "full_table 8 sqr_comba8_columns"
  by (simp_all add: table_defs mul_comba4_columns_def sqr_comba4_columns_def mul_comba8_columns_def sqr_comba8_columns_def)

lemma bn_mul_comba4_eq:
  assumes "length a = 4" "length b = 4"
  shows "length (bn_mul_comba4 a b) = 8 \<and> wval (bn_mul_comba4 a b) = wval a * wval b"
  using comba_product [OF tables_full(1) _ assms]
  by (simp add: bn_mul_comba4_def steps_for_def mul_comba4_columns_def)

lemma bn_mul_comba8_eq:
  assumes "length a = 8" "length b = 8"
  shows "length (bn_mul_comba8 a b) = 16 \<and> wval (bn_mul_comba8 a b) = wval a * wval b"
  using comba_product [OF tables_full(3) _ assms]
  by (simp add: bn_mul_comba8_def steps_for_def mul_comba8_columns_def)

lemma bn_sqr_comba4_eq:
  assumes "length a = 4"
  shows "length (bn_sqr_comba4 a) = 8 \<and> wval (bn_sqr_comba4 a) = wval a * wval a"
  using comba_product [OF tables_full(2) _ assms assms] by (simp add: bn_sqr_comba4_def steps_for_def list_all_iff)

lemma bn_sqr_comba8_eq:
  assumes "length a = 8"
  shows "length (bn_sqr_comba8 a) = 16 \<and> wval (bn_sqr_comba8 a) = wval a * wval a"
  using comba_product [OF tables_full(4) _ assms assms] by (simp add: bn_sqr_comba8_def steps_for_def list_all_iff)

end
