(* ===== verification/Bn_Mul.thy ===== *)
theory Bn_Mul
  imports Bn_Arith Bn_Comba
begin

text \<open>
  Multiplication of arrays of words: crypto/fipsmodule/bn/mul.c, up to Karatsuba's algorithm. A pointer
  into an array is the list from there on. The scratch array t of the source is split into the parts
  the code names, t0 to t3 and the space that a recursive call gets; each part is written before it is
  read, so that the model has a value for it and no array. The result is None where an assertion of
  the code fails.
\<close>

unbundle bit_operations_syntax

subsection \<open>Multiplication by rows\<close>

text \<open>The loop of bn_mul_normal, unrolled by four in the source: \<open>rs\<close> are the words from r on.\<close>

fun mul_normal_loop :: "u64 list \<Rightarrow> nat \<Rightarrow> u64 list \<Rightarrow> u64 list \<Rightarrow> u64 list" where
  "mul_normal_loop a na rs [] = rs"
| "mul_normal_loop a na rs (b # bs) =
     (case bn_mul_add_words (tl rs) a na b of
        (r, c) \<Rightarrow> hd rs # mul_normal_loop a na (r @ [c]) bs)"

definition bn_mul_normal :: "u64 list \<Rightarrow> nat \<Rightarrow> u64 list \<Rightarrow> nat \<Rightarrow> u64 list" where
  "bn_mul_normal a na b nb =
     (let (a, na, b, nb) = (if na < nb then (b, nb, a, na) else (a, na, b, nb))
      in if nb = 0 then replicate na 0
         else (case bn_mul_words a na (b ! 0) of
                 (r, c) \<Rightarrow> mul_normal_loop a na (r @ [c]) (drop 1 (take nb b))))"

subsection \<open>Differences\<close>

text \<open>The loop of bn_sub_part_words where a is the shorter one.\<close>

fun neg_borrow_loop :: "u64 \<Rightarrow> u64 list \<Rightarrow> u64 list \<times> u64" where
  "neg_borrow_loop borrow [] = ([], borrow)"
| "neg_borrow_loop borrow (b # bs) =
     (let r0 = 0 - b - borrow
      in case neg_borrow_loop (borrow OR of_bool (r0 \<noteq> 0)) bs of (r, borrow) \<Rightarrow> (r0 # r, borrow))"

definition bn_sub_part_words :: "u64 list \<Rightarrow> u64 list \<Rightarrow> nat \<Rightarrow> int \<Rightarrow> u64 list \<times> u64" where
  "bn_sub_part_words a b cl dl =
     (case bn_sub_words a b cl of
        (lo, borrow) \<Rightarrow>
          if dl = 0 then (lo, borrow)
          else
            (case (if dl < 0 then neg_borrow_loop borrow (take (nat (- dl)) (drop cl b))
                   else sub_borrow_loop borrow (take (nat dl) (drop cl a))) of
               (hi, borrow) \<Rightarrow> (lo @ hi, borrow)))"

definition bn_abs_sub_part_words :: "u64 list \<Rightarrow> u64 list \<Rightarrow> nat \<Rightarrow> int \<Rightarrow> u64 list \<times> u64" where
  "bn_abs_sub_part_words a b cl dl =
     (case (bn_sub_part_words a b cl dl, bn_sub_part_words b a cl (- dl)) of
        ((tmp, borrow), (r, _)) \<Rightarrow>
          (let r_len = cl + nat (if dl < 0 then - dl else dl);
               borrow = 0 - borrow
           in (bn_select_words borrow r tmp r_len, borrow)))"

definition bn_abs_sub_words :: "u64 list \<Rightarrow> u64 list \<Rightarrow> nat \<Rightarrow> u64 list" where
  "bn_abs_sub_words a b num =
     (case (bn_sub_words a b num, bn_sub_words b a num) of
        ((tmp, borrow), (r, _)) \<Rightarrow> bn_select_words (0 - borrow) r tmp num)"

subsection \<open>Karatsuba's algorithm\<close>

text \<open>
  The end of bn_mul_recursive and of bn_mul_part_recursive: r0,r1 and r2,r3 are the products of the
  low and of the high halves, t2,t3 is the product of the differences, and the mask its sign.
\<close>

definition karatsuba_join :: "nat \<Rightarrow> u64 \<Rightarrow> u64 list \<Rightarrow> u64 list \<Rightarrow> u64 list \<Rightarrow> u64 list option" where
  "karatsuba_join n neg_mask r01 r23 t23 =
     (let n2 = 2 * n;
          r = r01 @ r23;
          (t01, c) = bn_add_words r01 r23 n2;
          (t_neg, borrow) = bn_sub_words t01 t23 n2;
          c_neg = c - borrow;
          (t_pos, carry) = bn_add_words t01 t23 n2;
          c_pos = c + carry;
          t23 = bn_select_words neg_mask t_neg t_pos n2;
          c = constant_time_select_w neg_mask c_neg c_pos;
          (r12, carry) = bn_add_words (drop n r) t23 n2;
          c = c + carry;
          (r3, c) = add_carry_loop c (drop (n + n2) r)
      in if c \<noteq> 0 then None else Some (take n r @ r12 @ r3))"

definition power_of_two :: "nat \<Rightarrow> bool" where
  "power_of_two n \<longleftrightarrow> n \<noteq> 0 \<and> n AND (n - 1) = 0"

function bn_mul_recursive :: "u64 list \<Rightarrow> u64 list \<Rightarrow> nat \<Rightarrow> int \<Rightarrow> int \<Rightarrow> u64 list option" where
  "bn_mul_recursive a b n2 dna dnb =
     (if \<not> power_of_two n2 then None
      else if \<not> (- 8 \<le> dna \<and> dna \<le> 0) then None
      else if \<not> (- 8 \<le> dnb \<and> dnb \<le> 0) then None
      else if n2 = 8 \<and> dna = 0 \<and> dnb = 0 then Some (bn_mul_comba8 (take 8 a) (take 8 b))
      else if n2 < 16 then
        Some (bn_mul_normal a (nat (int n2 + dna)) b (nat (int n2 + dnb)) @
          (if dna + dnb < 0 then replicate (nat (- (dna + dnb))) 0 else []))
      else
        (let n = n2 div 2;
             tna = int n + dna;
             tnb = int n + dnb;
             (t0, neg0) = bn_abs_sub_part_words a (drop n a) (nat tna) (int n - tna);
             (t1, neg1) = bn_abs_sub_part_words (drop n b) b (nat tnb) (tnb - int n);
             neg_mask = neg0 XOR neg1
         in if n = 4 \<and> dna = 0 \<and> dnb = 0 then
              karatsuba_join n neg_mask (bn_mul_comba4 (take 4 a) (take 4 b))
                (bn_mul_comba4 (take 4 (drop n a)) (take 4 (drop n b))) (bn_mul_comba4 t0 t1)
            else if n = 8 \<and> dna = 0 \<and> dnb = 0 then
              karatsuba_join n neg_mask (bn_mul_comba8 (take 8 a) (take 8 b))
                (bn_mul_comba8 (take 8 (drop n a)) (take 8 (drop n b))) (bn_mul_comba8 t0 t1)
            else
              (case bn_mul_recursive t0 t1 n 0 0 of
                 None \<Rightarrow> None
               | Some t23 \<Rightarrow>
                   (case bn_mul_recursive a b n 0 0 of
                      None \<Rightarrow> None
                    | Some r01 \<Rightarrow>
                        (case bn_mul_recursive (drop n a) (drop n b) n dna dnb of
                           None \<Rightarrow> None
                         | Some r23 \<Rightarrow> karatsuba_join n neg_mask r01 r23 t23)))))"
  by pat_completeness auto
termination
  by (relation "measure (\<lambda>(a, b, n2, dna, dnb). n2)") auto

text \<open>
  The loop of bn_mul_part_recursive that looks for the size of the part: whether the recursive call is
  of bn_mul_part_recursive, and its size.
\<close>

function part_half :: "nat \<Rightarrow> int \<Rightarrow> int \<Rightarrow> bool \<times> nat" where
  "part_half i tna tnb =
     (let i = i div 2
      in if int i < tna \<or> int i < tnb then (True, i)
         else if int i = tna \<or> int i = tnb then (False, i)
         else if i = 0 then (False, 0)
         else part_half i tna tnb)"
  by pat_completeness auto
termination
  by (relation "measure (\<lambda>(i, tna, tnb). i)") auto

declare bn_mul_recursive.simps [simp del] part_half.simps [simp del]

lemma part_half_le: "snd (part_half i tna tnb) \<le> i div 2"
proof (induction i tna tnb rule: part_half.induct)
  case (1 i tna tnb)
  show ?case
  proof (cases "\<not> (int (i div 2) < tna \<or> int (i div 2) < tnb) \<and> \<not> (int (i div 2) = tna \<or> int (i div 2) = tnb) \<and> i div 2 \<noteq> 0")
    case True
    with 1 [OF refl] have "snd (part_half (i div 2) tna tnb) \<le> i div 2 div 2" by blast
    with True show ?thesis by (subst part_half.simps) (simp add: Let_def)
  qed (subst part_half.simps; auto simp: Let_def)
qed

lemma part_half_less: "(part, i) = part_half n tna tnb \<Longrightarrow> \<not> n < 8 \<Longrightarrow> i < n"
  using part_half_le [of n tna tnb] by (cases "part_half n tna tnb") auto

text \<open>
  Words after the product that a memset has cleared before. The branch of bn_mul_part_recursive for
  \<open>n < 8\<close> clears bytes where it means words, and leaves words of r as they were; it has no value here,
  and is not reached.
\<close>

definition filled :: "nat \<Rightarrow> u64 list \<Rightarrow> u64 list" where
  "filled n ws = ws @ replicate (n - length ws) 0"

function bn_mul_part_recursive :: "u64 list \<Rightarrow> u64 list \<Rightarrow> nat \<Rightarrow> int \<Rightarrow> int \<Rightarrow> u64 list option" where
  "bn_mul_part_recursive a b n tna tnb =
     (if \<not> power_of_two n then None
      else if \<not> (0 \<le> tna \<and> tna < int n) then None
      else if \<not> (0 \<le> tnb \<and> tnb < int n) then None
      else if \<not> (- 1 \<le> tna - tnb \<and> tna - tnb \<le> 1) then None
      else if n < 8 then None
      else
        (let n2 = n * 2;
             (t0, neg0) = bn_abs_sub_part_words a (drop n a) (nat tna) (int n - tna);
             (t1, neg1) = bn_abs_sub_part_words (drop n b) b (nat tnb) (tnb - int n);
             neg_mask = neg0 XOR neg1
         in if n = 8 then
              karatsuba_join n neg_mask (bn_mul_comba8 (take 8 a) (take 8 b))
                (filled n2 (bn_mul_normal (drop n a) (nat tna) (drop n b) (nat tnb))) (bn_mul_comba8 t0 t1)
            else
              (case bn_mul_recursive t0 t1 n 0 0 of
                 None \<Rightarrow> None
               | Some t23 \<Rightarrow>
                   (case bn_mul_recursive a b n 0 0 of
                      None \<Rightarrow> None
                    | Some r01 \<Rightarrow>
                        (case (if tna < 16 \<and> tnb < 16
                               then Some (bn_mul_normal (drop n a) (nat tna) (drop n b) (nat tnb))
                               else
                                 (case part_half n tna tnb of
                                    (part, i) \<Rightarrow>
                                      if part then bn_mul_part_recursive (drop n a) (drop n b) i (tna - int i) (tnb - int i)
                                      else bn_mul_recursive (drop n a) (drop n b) i (tna - int i) (tnb - int i))) of
                           None \<Rightarrow> None
                         | Some r23 \<Rightarrow> karatsuba_join n neg_mask r01 (filled n2 r23) t23)))))"
  by pat_completeness auto
termination
  by (relation "measure (\<lambda>(a, b, n, tna, tnb). n)", simp, simp only: in_measure prod.case, erule part_half_less)

declare bn_mul_part_recursive.simps [simp del]

subsection \<open>What the functions compute\<close>

lemma mul_normal_loop_eq:
  "length rs = Suc na \<Longrightarrow> na \<le> length a \<Longrightarrow>
   length (mul_normal_loop a na rs bs) = Suc na + length bs \<and>
   wval (mul_normal_loop a na rs bs) = wval rs + 2 ^ 64 * (wval (take na a) * wval bs)"
proof (induction bs arbitrary: rs)
  case (Cons b bs)
  obtain r0 rs' where rs: "rs = r0 # rs'" "length rs' = na" using Cons.prems(1) by (cases rs) auto
  obtain r c where rc: "bn_mul_add_words rs' a na b = (r, c)" by force
  have step: "length r = na" "wval r + limbs na * unat c = wval rs' + wval (take na a) * unat b"
    using bn_mul_add_words_eq [of na rs' a b] rs(2) Cons.prems(2) unfolding rc by simp_all
  have "wval (r @ [c]) = wval rs' + wval (take na a) * unat b" using step by (simp add: wval_append)
  with Cons.IH [of "r @ [c]"] Cons.prems(2) step(1) show ?case by (simp add: rs(1) rc algebra_simps)
qed simp

lemma bn_mul_normal_longer:
  assumes "na \<le> length a" "nb \<le> length b" "nb \<le> na"
  shows "length (bn_mul_normal a na b nb) = na + nb \<and>
    wval (bn_mul_normal a na b nb) = wval (take na a) * wval (take nb b)"
proof (cases nb)
  case 0
  then show ?thesis by (simp add: bn_mul_normal_def)
next
  case (Suc m)
  obtain b0 bs where b: "take nb b = b0 # bs" "b ! 0 = b0" "length bs = m" using assms(2) Suc by (cases b) (auto simp: min_absorb2)
  obtain r c where rc: "bn_mul_words a na b0 = (r, c)" by force
  have step: "length r = na" "wval r + limbs na * unat c = wval (take na a) * unat b0"
    using bn_mul_words_eq [OF assms(1), of b0] unfolding rc by simp_all
  have run: "bn_mul_normal a na b nb = mul_normal_loop a na (r @ [c]) bs"
    using assms(3) Suc b rc by (simp add: bn_mul_normal_def)
  have "wval (r @ [c]) = wval (take na a) * unat b0" using step by (simp add: wval_append)
  then show ?thesis unfolding run using mul_normal_loop_eq [of "r @ [c]" na a bs] assms(1) step(1) Suc b
    by (simp add: algebra_simps)
qed

lemma bn_mul_normal_eq:
  assumes "na \<le> length a" "nb \<le> length b"
  shows "length (bn_mul_normal a na b nb) = na + nb \<and>
    wval (bn_mul_normal a na b nb) = wval (take na a) * wval (take nb b)"
proof (cases "na < nb")
  case True
  have "bn_mul_normal a na b nb = bn_mul_normal b nb a na" using True by (simp add: bn_mul_normal_def)
  with bn_mul_normal_longer [OF assms(2,1)] True show ?thesis by (simp add: mult.commute add.commute)
qed (use assms bn_mul_normal_longer in simp)

lemma neg_borrow_loop_eq:
  "borrow = of_bool c \<Longrightarrow>
   \<exists>r c'. neg_borrow_loop borrow bs = (r, of_bool c') \<and> length r = length bs \<and>
     wval r + wval bs + of_bool c = limbs (length bs) * of_bool c'"
proof (induction borrow bs arbitrary: c rule: neg_borrow_loop.induct)
  case (1 borrow)
  then show ?case by auto
next
  case (2 borrow b bs)
  let ?r0 = "0 - b - borrow"
  have next_borrow: "borrow OR of_bool (?r0 \<noteq> 0) = of_bool (c \<or> b \<noteq> 0)"
    using 2(2) by (cases c; cases "b = 0") auto
  then obtain r c' where ih: "neg_borrow_loop (borrow OR of_bool (?r0 \<noteq> 0)) bs = (r, of_bool c')" "length r = length bs"
      "wval r + wval bs + of_bool (c \<or> b \<noteq> 0) = limbs (length bs) * of_bool c'"
    using 2(1) [OF refl next_borrow] by blast
  have r0: "unat ?r0 + unat b + of_bool c = 2 ^ 64 * of_bool (c \<or> b \<noteq> 0)"
    using sub_word_eq [of 0 b c] 2(2) by (cases c; cases "b = 0") (auto simp: word_gt_0)
  have "wval (?r0 # r) + wval (b # bs) + of_bool c = unat ?r0 + unat b + of_bool c + 2 ^ 64 * (wval r + wval bs)"
    by (simp add: algebra_simps)
  also have "\<dots> = 2 ^ 64 * (wval r + wval bs + of_bool (c \<or> b \<noteq> 0))" unfolding r0 by (simp add: algebra_simps)
  finally show ?case unfolding ih(3) using ih(1,2) by (intro exI [of _ "?r0 # r"] exI [of _ c']) (simp add: Let_def)
qed

lemma borrow_le_1:
  assumes "wval r + x = v + limbs n * unat (c :: u64)" "length r = n" "x \<le> 1"
  shows "c = 0 \<or> c = 1"
proof -
  have "wval r < limbs n" using wval_lt [of r] assms(2) by simp
  then have "limbs n * unat c \<le> limbs n" using assms(1,3) by linarith
  then have "unat c \<le> 1" by simp
  then have "unat c = 0 \<or> unat c = 1" by linarith
  then show ?thesis by (simp add: word_unat_eq_iff)
qed

text \<open>The arrays are \<open>cl\<close> words and what \<open>dl\<close> says longer.\<close>

lemma bn_sub_part_words_eq:
  assumes "length a = cl + nat dl" "length b = cl + nat (- dl)"
  shows "\<exists>r c. bn_sub_part_words a b cl dl = (r, of_bool c) \<and> length r = cl + nat \<bar>dl\<bar> \<and>
    wval r + wval b = wval a + limbs (cl + nat \<bar>dl\<bar>) * of_bool c"
proof -
  obtain lo c where lo: "bn_sub_words a b cl = (lo, c)" by force
  have L: "length lo = cl" "c = 0 \<or> c = 1" "wval lo + wval (take cl b) = wval (take cl a) + limbs cl * unat c"
    using bn_sub_words_eq [of cl a b] assms unfolding lo by simp_all
  have split: "wval a = wval (take cl a) + limbs cl * wval (drop cl a)" "wval b = wval (take cl b) + limbs cl * wval (drop cl b)"
    using take_split_wval [of cl "length a" a] take_split_wval [of cl "length b" b] assms by simp_all
  consider "dl = 0" | "dl < 0" | "0 < dl" by linarith
  then show ?thesis
  proof cases
    case 1
    then have "a = take cl a" "b = take cl b" using assms by simp_all
    with 1 L lo show ?thesis
      by (intro exI [of _ lo] exI [of _ "c = 1"]) (auto simp: bn_sub_part_words_def)
  next
    case 2
    have b: "take (nat (- dl)) (drop cl b) = drop cl b" "length (drop cl b) = nat (- dl)" "drop cl a = []" using 2 assms by simp_all
    obtain r c' where R: "neg_borrow_loop c (drop cl b) = (r, of_bool c')" "length r = nat (- dl)"
        "wval r + wval (drop cl b) + of_bool (c = 1) = limbs (nat (- dl)) * of_bool c'"
      using neg_borrow_loop_eq [of c "c = 1" "drop cl b"] L(2) b(2) by auto
    have c: "unat c = of_bool (c = 1)" using L(2) by auto
    have "wval (lo @ r) + wval b = wval (take cl a) + limbs cl * (wval r + wval (drop cl b) + of_bool (c = 1))"
      using L split c by (simp add: wval_append algebra_simps)
    also have "\<dots> = wval a + limbs (cl + nat (- dl)) * of_bool c'" unfolding R(3) using split b(3) by (simp add: power_add)
    finally show ?thesis using 2 lo R(1,2) L(1) b(1)
      by (intro exI [of _ "lo @ r"] exI [of _ c']) (simp add: bn_sub_part_words_def)
  next
    case 3
    have a: "take (nat dl) (drop cl a) = drop cl a" "length (drop cl a) = nat dl" "drop cl b = []" using 3 assms by simp_all
    obtain r c' where rc: "sub_borrow_loop c (drop cl a) = (r, c')" by force
    have R: "length r = nat dl" "wval r + unat c = wval (drop cl a) + limbs (nat dl) * unat c'"
      using sub_borrow_loop_eq [where borrow = c and as = "drop cl a"] unfolding rc prod.case a(2) by blast+
    have c: "unat c \<le> 1" using L(2) by auto
    have c': "c' = 0 \<or> c' = 1" by (rule borrow_le_1 [OF R(2,1) c])
    have "take cl b = b" using a(3) by simp
    then have "wval (lo @ r) + wval b = wval (take cl a) + limbs cl * (wval r + unat c)"
      using L(1,3) by (simp add: wval_append algebra_simps)
    also have "\<dots> = wval a + limbs (cl + nat dl) * unat c'"
      unfolding R(2) split(1) by (simp add: power_add algebra_simps)
    finally show ?thesis using 3 lo rc R(1) L(1) a(1) c'
      by (intro exI [of _ "lo @ r"] exI [of _ "c' = 1"]) (auto simp: bn_sub_part_words_def)
  qed
qed

text \<open>The absolute value of a difference of natural numbers.\<close>

definition dist :: "nat \<Rightarrow> nat \<Rightarrow> nat" where
  "dist x y = (if x < y then y - x else x - y)"

lemma borrow_mask: "(0 - of_bool c :: u64) = truth c"
  by (cases c) simp_all

lemma bn_abs_sub_part_words_eq:
  assumes "length a = cl + nat dl" "length b = cl + nat (- dl)"
  shows "\<exists>r. bn_abs_sub_part_words a b cl dl = (r, truth (wval a < wval b)) \<and> length r = cl + nat \<bar>dl\<bar> \<and>
    wval r = dist (wval a) (wval b)"
proof -
  let ?n = "cl + nat \<bar>dl\<bar>"
  obtain t c where T: "bn_sub_part_words a b cl dl = (t, of_bool c)" "length t = ?n"
      "wval t + wval b = wval a + limbs ?n * of_bool c"
    using bn_sub_part_words_eq [OF assms] by blast
  obtain r d where R: "bn_sub_part_words b a cl (- dl) = (r, of_bool d)" "length r = ?n"
      "wval r + wval a = wval b + limbs ?n * of_bool d"
    using bn_sub_part_words_eq [of b cl "- dl" a] assms by auto
  have t: "wval t < limbs ?n" and r: "wval r < limbs ?n" using wval_lt [of t] wval_lt [of r] T(2) R(2) by simp_all
  have c: "c \<longleftrightarrow> wval a < wval b" using T(3) t by (cases c) simp_all
  have d: "d \<longleftrightarrow> wval b < wval a" using R(3) r by (cases d) simp_all
  have len: "cl + nat (if dl < 0 then - dl else dl) = ?n" by simp
  have "bn_abs_sub_part_words a b cl dl = (bn_select_words (truth c) r t ?n, truth c)"
    by (simp only: bn_abs_sub_part_words_def T(1) R(1) prod.case Let_def len borrow_mask)
  also have "\<dots> = (if c then r else t, truth c)" using bn_select_words_truth [OF R(2) T(2)] by simp
  finally show ?thesis using T(2,3) R(2,3) c d by (auto simp: dist_def)
qed

lemma bn_abs_sub_words_eq:
  assumes "length a = n" "length b = n"
  shows "length (bn_abs_sub_words a b n) = n \<and> wval (bn_abs_sub_words a b n) = dist (wval a) (wval b)"
proof -
  have "bn_abs_sub_words a b n = fst (bn_abs_sub_part_words a b n 0)"
    by (simp add: bn_abs_sub_words_def bn_abs_sub_part_words_def bn_sub_part_words_def Let_def split: prod.splits)
  moreover obtain r where "bn_abs_sub_part_words a b n 0 = (r, truth (wval a < wval b))" "length r = n"
      "wval r = dist (wval a) (wval b)"
    using bn_abs_sub_part_words_eq [of a n 0 b] assms by auto
  ultimately show ?thesis by simp
qed

text \<open>The identity behind the algorithm.\<close>

lemma karatsuba_middle:
  "if (a0 < a1) \<noteq> (b1 < b0) then a0 * b1 + a1 * b0 + dist a0 a1 * dist b0 b1 = a0 * b0 + a1 * (b1 :: nat)
   else a0 * b1 + a1 * b0 = a0 * b0 + a1 * b1 + dist a0 a1 * dist b0 b1"
proof -
  have a: "(\<exists>d. a1 = a0 + d \<and> dist a0 a1 = d \<and> a0 < a1) \<or> (\<exists>d. a0 = a1 + d \<and> dist a0 a1 = d \<and> \<not> a0 < a1)"
    by (cases "a0 < a1") (auto simp: dist_def intro: exI [of _ "a1 - a0"] exI [of _ "a0 - a1"])
  have b: "(\<exists>e. b0 = b1 + e \<and> dist b0 b1 = e \<and> b1 < b0) \<or> (\<exists>e. b1 = b0 + e \<and> dist b0 b1 = e \<and> \<not> b1 < b0)"
    by (cases "b1 < b0") (auto simp: dist_def intro: exI [of _ "b0 - b1"] exI [of _ "b1 - b0"])
  from a b show ?thesis by (elim disjE exE conjE) (simp_all add: algebra_simps)
qed

lemma unat_add_small: "unat (x :: u64) + unat (y :: u64) \<le> 4 \<Longrightarrow> unat (x + y) = unat x + unat y"
  by (simp add: unat_word_ariths)

lemma karatsuba_signed_sum:
  fixes c borrow carry :: u64 and B2 :: nat
  assumes "wval t01 + B2 * unat c = S" "unat c \<le> 1"
    "borrow = 0 \<or> borrow = 1" "wval t_neg + T = wval t01 + B2 * unat borrow" "wval t_neg < B2"
    "unat carry \<le> 1" "wval t_pos + B2 * unat carry = wval t01 + T"
    "if P then M + T = S else M = S + T"
  shows "wval (if P then t_neg else t_pos) + B2 * unat (if P then c - borrow else c + carry) = M"
proof (cases P)
  case True
  have c: "c = 0 \<or> c = 1" using assms(2) by (metis le_Suc_eq le_zero_eq One_nat_def unat_eq_0 unat_1 word_unat_eq_iff)
  have "\<not> (c = 0 \<and> borrow = 1)"
  proof
    assume "c = 0 \<and> borrow = 1"
    then have "wval t01 = S" "wval t_neg + T = wval t01 + B2" using assms(1,4) by simp_all
    then show False using assms(5,8) True by simp
  qed
  with c assms(1,3,4,8) True show ?thesis by auto
next
  case False
  have "unat (c + carry) = unat c + unat carry" using assms(2,6) by (intro unat_add_small) simp
  with False assms(1,7,8) show ?thesis by (simp add: algebra_simps)
qed

lemma karatsuba_join_eq:
  assumes len: "length r01 = 2 * n" "length r23 = 2 * n" "length t23 = 2 * n"
    and val: "wval r01 = a0 * b0" "wval r23 = a1 * b1"
    and sign_mask: "neg_mask = truth P"
    and middle: "if P then a0 * b1 + a1 * b0 + wval t23 = a0 * b0 + a1 * b1
      else a0 * b1 + a1 * b0 = a0 * b0 + a1 * b1 + wval t23"
    and lt: "a0 < limbs n" "a1 < limbs n" "b0 < limbs n" "b1 < limbs n"
  shows "\<exists>r. karatsuba_join n neg_mask r01 r23 t23 = Some r \<and> length r = 4 * n \<and>
    wval r = (a0 + limbs n * a1) * (b0 + limbs n * b1)"
proof -
  define B where "B = limbs n"
  have B2: "limbs (2 * n) = B * B" by (simp add: B_def power_add [symmetric] mult_2)
  let ?r = "r01 @ r23"
  let ?M = "a0 * b1 + a1 * b0"
  obtain t01 c where t01: "bn_add_words r01 r23 (2 * n) = (t01, c)" by force
  have S: "length t01 = 2 * n" "unat c \<le> 1" "wval t01 + (B * B) * unat c = a0 * b0 + a1 * b1"
    using bn_add_words_eq [of "2 * n" r01 r23] len unfolding t01 B2 prod.case by (simp_all add: val)
  obtain tn bw where tn: "bn_sub_words t01 t23 (2 * n) = (tn, bw)" by force
  have N: "length tn = 2 * n" "bw = 0 \<or> bw = 1" "wval tn + wval t23 = wval t01 + (B * B) * unat bw"
    using bn_sub_words_eq [of "2 * n" t01 t23] len S(1) unfolding tn B2 prod.case by (simp_all add: val)
  obtain tp cy where tp: "bn_add_words t01 t23 (2 * n) = (tp, cy)" by force
  have P: "length tp = 2 * n" "unat cy \<le> 1" "wval tp + (B * B) * unat cy = wval t01 + wval t23"
    using bn_add_words_eq [of "2 * n" t01 t23] len S(1) unfolding tp B2 prod.case by (simp_all add: val)
  define t where "t = (if P then tn else tp)"
  define c' where "c' = (if P then c - bw else c + cy)"
  have "wval tn < B * B" using wval_lt [of tn] N(1) B2 by simp
  then have M: "wval t + (B * B) * unat c' = ?M" unfolding t_def c'_def
    using middle by (intro karatsuba_signed_sum [OF S(3,2) N(2,3) _ P(2,3)]) simp_all
  have "a0 * b1 < B * B" "a1 * b0 < B * B" using lt unfolding B_def by (auto intro: mult_strict_mono)
  then have "(B * B) * unat c' < (B * B) * 2" using M by linarith
  then have c': "unat c' \<le> 1" unfolding mult_less_cancel1 by simp
  obtain r12 cc where r12: "bn_add_words (drop n ?r) t (2 * n) = (r12, cc)" by force
  have t_len: "length t = 2 * n" using N(1) P(1) by (simp add: t_def)
  have R: "length r12 = 2 * n" "unat cc \<le> 1" "wval r12 + (B * B) * unat cc = wval (take (2 * n) (drop n ?r)) + wval t"
    using bn_add_words_eq [of "2 * n" "drop n ?r" t] len t_len unfolding r12 B2 prod.case by simp_all
  have cc: "unat (c' + cc) = unat c' + unat cc" using c' R(2) by (intro unat_add_small) simp
  obtain r3 cf where r3: "add_carry_loop (c' + cc) (drop (n + 2 * n) ?r) = (r3, cf)" by force
  have len3: "length (drop (n + 2 * n) ?r) = n" using len by simp
  have R3: "length r3 = n" "wval r3 + B * unat cf = wval (drop (n + 2 * n) ?r) + unat (c' + cc)"
    using add_carry_loop_eq [where carry = "c' + cc" and as = "drop (n + 2 * n) ?r"]
    unfolding r3 prod.case len3 B_def by blast+
  let ?res = "take n ?r @ r12 @ r3"
  have whole: "wval ?r = wval (take n ?r) + B * (wval (take (2 * n) (drop n ?r)) + (B * B) * wval (drop (n + 2 * n) ?r))"
  proof -
    have "drop (n + 2 * n) ?r = drop (2 * n) (drop n ?r)" by (simp only: drop_drop add.commute)
    then have "?r = take n ?r @ take (2 * n) (drop n ?r) @ drop (n + 2 * n) ?r" by (simp only: append_take_drop_id)
    moreover have "length (take n ?r) = n" "length (take (2 * n) (drop n ?r)) = 2 * n" using len by simp_all
    ultimately show ?thesis by (metis wval_append B2 B_def)
  qed
  have "wval ?res + (B * (B * B) * B) * unat cf = wval (take n ?r) + B * (wval r12 + (B * B) * (wval r3 + B * unat cf))"
  proof -
    have "limbs n = B" by (simp only: B_def)
    then show ?thesis using len R(1) B2 by (simp add: wval_append algebra_simps)
  qed
  also have "\<dots> = wval (take n ?r) + B * ((wval r12 + (B * B) * unat cc) + (B * B) * (wval (drop (n + 2 * n) ?r) + unat c'))"
    unfolding R3(2) cc by (simp add: algebra_simps)
  also have "\<dots> = wval ?r + B * (wval t + (B * B) * unat c')"
    unfolding R(3) whole by (simp add: algebra_simps)
  also have "\<dots> = (a0 + B * a1) * (b0 + B * b1)"
  proof -
    have "wval ?r = a0 * b0 + (B * B) * (a1 * b1)" using B2 by (simp add: wval_append len(1) val)
    then show ?thesis unfolding M by (simp add: algebra_simps)
  qed
  finally have total: "wval ?res + (B * (B * B) * B) * unat cf = (a0 + B * a1) * (b0 + B * b1)" .
  have half: "x + B * y < B * B" if "x < B" "y < B" for x y
  proof -
    have "x + B * y < B * (y + 1)" using that by simp
    also have "\<dots> \<le> B * B" using that by (intro mult_le_mono2) simp
    finally show ?thesis .
  qed
  have "(a0 + B * a1) * (b0 + B * b1) < (B * B) * (B * B)"
    using half lt unfolding B_def [symmetric] by (intro mult_strict_mono) simp_all
  moreover have "(B * B) * (B * B) = B * (B * B) * B" by (simp only: mult.assoc)
  ultimately have "(B * (B * B) * B) * unat cf < (B * (B * B) * B) * 1" using total by linarith
  then have cf: "cf = 0" unfolding mult_less_cancel1 by (simp add: unat_eq_0)
  have "karatsuba_join n neg_mask r01 r23 t23 = Some ?res"
    using S(1) N(1) P(1) cf r12 r3
    by (simp add: karatsuba_join_def t01 tn tp sign_mask bn_select_words_truth select_w_truth t_def c'_def)
  moreover have "length ?res = 4 * n" using len R(1) R3(1) by simp
  ultimately show ?thesis using total cf unfolding B_def by (intro exI [of _ ?res]) simp
qed

lemma bn_abs_sub_part_words_take:
  "bn_abs_sub_part_words a b cl dl = bn_abs_sub_part_words (take (cl + nat dl) a) (take (cl + nat (- dl)) b) cl dl"
proof -
  have words: "bn_sub_words x y cl = bn_sub_words (take (cl + m) x) (take (cl + k) y) cl" for x y m k
    by (simp add: bn_sub_words_def min_absorb1)
  have rest: "take m (drop cl (take (cl + m) x)) = take m (drop cl x)" for m and x :: "u64 list"
    by (simp add: drop_take)
  have "bn_sub_part_words a b cl dl = bn_sub_part_words (take (cl + nat dl) a) (take (cl + nat (- dl)) b) cl dl"
    unfolding bn_sub_part_words_def words [of a b "nat dl" "nat (- dl)"] rest ..
  moreover have "bn_sub_part_words b a cl (- dl) = bn_sub_part_words (take (cl + nat (- dl)) b) (take (cl + nat dl) a) cl (- dl)"
    unfolding bn_sub_part_words_def words [of b a "nat (- dl)" "nat dl"] minus_minus rest ..
  ultimately show ?thesis by (simp only: bn_abs_sub_part_words_def)
qed

lemma dist_commute: "dist x y = dist y x"
  by (auto simp: dist_def)

lemma xor_truth: "(truth P :: u64) XOR truth Q = truth (P \<noteq> Q)"
  by (cases P; cases Q) simp_all

text \<open>The two differences of the halves, and the sign of their product.\<close>

lemma half_differences:
  assumes "n + ta \<le> length a" "n + tb \<le> length b" "ta \<le> n" "tb \<le> n"
  defines "a0 \<equiv> wval (take n a)" and "a1 \<equiv> wval (take ta (drop n a))"
    and "b0 \<equiv> wval (take n b)" and "b1 \<equiv> wval (take tb (drop n b))"
  obtains t0 t1 where
    "bn_abs_sub_part_words a (drop n a) ta (int n - int ta) = (t0, truth (a0 < a1))"
    "bn_abs_sub_part_words (drop n b) b tb (int tb - int n) = (t1, truth (b1 < b0))"
    "length t0 = n" "length t1 = n" "wval t0 = dist a0 a1" "wval t1 = dist b0 b1"
proof -
  have n: "ta + nat (int n - int ta) = n" "ta + nat (- (int n - int ta)) = ta" "ta + nat \<bar>int n - int ta\<bar> = n"
    "tb + nat (int tb - int n) = tb" "tb + nat (- (int tb - int n)) = n" "tb + nat \<bar>int tb - int n\<bar> = n"
    using assms(3,4) by simp_all
  obtain t0 where "bn_abs_sub_part_words a (drop n a) ta (int n - int ta) = (t0, truth (a0 < a1))" "length t0 = n"
      "wval t0 = dist a0 a1"
    using bn_abs_sub_part_words_eq [of "take n a" ta "int n - int ta" "take ta (drop n a)"] assms(1)
      bn_abs_sub_part_words_take [of a "drop n a" ta "int n - int ta"]
    unfolding n a0_def a1_def by (auto simp: min_absorb2)
  moreover obtain t1 where "bn_abs_sub_part_words (drop n b) b tb (int tb - int n) = (t1, truth (b1 < b0))" "length t1 = n"
      "wval t1 = dist b0 b1"
    using bn_abs_sub_part_words_eq [of "take tb (drop n b)" tb "int tb - int n" "take n b"] assms(2)
      bn_abs_sub_part_words_take [of "drop n b" b tb "int tb - int n"]
    unfolding n b0_def b1_def dist_commute [of "wval (take n b)"] by (auto simp: min_absorb2)
  ultimately show ?thesis by (intro that)
qed

definition product_words :: "u64 list \<Rightarrow> nat \<Rightarrow> nat \<Rightarrow> bool" where
  "product_words r n v \<longleftrightarrow> length r = n \<and> wval r = v"

text \<open>The three products of the halves make the product.\<close>

lemma karatsuba_join_products:
  assumes "n + ta \<le> length a" "n + tb \<le> length b" "ta \<le> n" "tb \<le> n"
    "product_words r01 (2 * n) (wval (take n a) * wval (take n b))"
    "product_words r23 (2 * n) (wval (take ta (drop n a)) * wval (take tb (drop n b)))"
    "product_words t23 (2 * n) (dist (wval (take n a)) (wval (take ta (drop n a))) * dist (wval (take n b)) (wval (take tb (drop n b))))"
  shows "\<exists>r. karatsuba_join n (truth (wval (take n a) < wval (take ta (drop n a))) XOR truth (wval (take tb (drop n b)) < wval (take n b)))
      r01 r23 t23 = Some r \<and> product_words r (4 * n) (wval (take (n + ta) a) * wval (take (n + tb) b))"
proof -
  have whole: "wval (take (n + ta) a) = wval (take n a) + limbs n * wval (take ta (drop n a))"
    "wval (take (n + tb) b) = wval (take n b) + limbs n * wval (take tb (drop n b))"
    using assms(1,2) by (simp_all add: take_add wval_append min_absorb2)
  have lt: "wval (take m x) < limbs n" if "m \<le> n" for m x
  proof -
    have "wval (take m x) < limbs (length (take m x))" by (rule wval_lt)
    also have "\<dots> \<le> limbs n" using that by (intro power_increasing) auto
    finally show ?thesis .
  qed
  show ?thesis unfolding product_words_def whole xor_truth
    using karatsuba_middle [of "wval (take n a)" "wval (take ta (drop n a))" "wval (take tb (drop n b))" "wval (take n b)"]
      assms(5-7) lt assms(3,4) unfolding product_words_def
    by (intro karatsuba_join_eq [OF _ _ _ _ _ refl]) simp_all
qed

lemma power_of_two_half:
  assumes "power_of_two n" "1 < n"
  shows "power_of_two (n div 2) \<and> 2 * (n div 2) = n"
proof -
  obtain k where k: "n = 2 ^ k" using assms(1) pow2_nat [of n] by (auto simp: power_of_two_def)
  then obtain j where "k = Suc j" using assms(2) by (cases k) auto
  then have "n div 2 = 2 ^ j" "2 * (n div 2) = n" using k by simp_all
  then show ?thesis using pow2_nat [of "2 ^ j"] by (auto simp: power_of_two_def)
qed

lemma bn_mul_recursive_eq:
  assumes "power_of_two n2" "- 8 \<le> dna" "dna \<le> 0" "- 8 \<le> dnb" "dnb \<le> 0" "0 \<le> int n2 + dna" "0 \<le> int n2 + dnb"
    "nat (int n2 + dna) \<le> length a" "nat (int n2 + dnb) \<le> length b"
  shows "\<exists>r. bn_mul_recursive a b n2 dna dnb = Some r \<and>
    product_words r (2 * n2) (wval (take (nat (int n2 + dna)) a) * wval (take (nat (int n2 + dnb)) b))"
  using assms
proof (induction n2 arbitrary: a b dna dnb rule: less_induct)
  case (less n2)
  note pre = less.prems
  consider (comba) "n2 = 8 \<and> dna = 0 \<and> dnb = 0" | (normal) "\<not> (n2 = 8 \<and> dna = 0 \<and> dnb = 0)" "n2 < 16" | (split) "16 \<le> n2" by linarith
  then show ?case
  proof cases
    case comba
    then show ?thesis using pre bn_mul_comba8_eq [of "take 8 a" "take 8 b"]
      by (subst bn_mul_recursive.simps) (simp add: product_words_def min_absorb2)
  next
    case normal
    let ?r = "bn_mul_normal a (nat (int n2 + dna)) b (nat (int n2 + dnb)) @
        (if dna + dnb < 0 then replicate (nat (- (dna + dnb))) 0 else [])"
    have run: "bn_mul_recursive a b n2 dna dnb = Some ?r"
      using pre(1-5) normal by (subst bn_mul_recursive.simps) auto
    have "product_words ?r (2 * n2) (wval (take (nat (int n2 + dna)) a) * wval (take (nat (int n2 + dnb)) b))"
    proof -
      have "nat (int n2 + dna) + nat (int n2 + dnb) + nat (- dna - dnb) = 2 * n2" using pre(2-7) by linarith
      moreover have "dna = 0 \<and> dnb = 0" if "\<not> dna + dnb < 0" using that pre(2-5) by linarith
      ultimately show ?thesis
        using bn_mul_normal_eq [OF pre(8,9)] by (auto simp: product_words_def wval_append)
    qed
    with run show ?thesis by blast
  next
    case split
    define n where "n = n2 div 2"
    have n: "power_of_two n" "2 * n = n2" "8 \<le> n" "n < n2"
      using power_of_two_half [OF pre(1)] split by (auto simp: n_def)
    define ta tb where "ta = nat (int n + dna)" and "tb = nat (int n + dnb)"
    have t: "int ta = int n + dna" "int tb = int n + dnb" "ta \<le> n" "tb \<le> n"
      "nat (int n2 + dna) = n + ta" "nat (int n2 + dnb) = n + tb"
      using n pre(2-5) by (auto simp: ta_def tb_def)
    have len: "n + ta \<le> length a" "n + tb \<le> length b" using pre(8,9) t by simp_all
    obtain t0 t1 where T: "bn_abs_sub_part_words a (drop n a) ta (int n - int ta) = (t0, truth (wval (take n a) < wval (take ta (drop n a))))"
        "bn_abs_sub_part_words (drop n b) b tb (int tb - int n) = (t1, truth (wval (take tb (drop n b)) < wval (take n b)))"
        "length t0 = n" "length t1 = n" "wval t0 = dist (wval (take n a)) (wval (take ta (drop n a)))"
        "wval t1 = dist (wval (take n b)) (wval (take tb (drop n b)))"
      using half_differences [OF len t(3,4)] by blast
    let ?neg = "truth (wval (take n a) < wval (take ta (drop n a))) XOR truth (wval (take tb (drop n b)) < wval (take n b)) :: u64"
    note join = karatsuba_join_products [OF len t(3,4)]
    have four: "4 * n = 2 * n2" using n(2) by simp
    show ?thesis
    proof (cases "n = 8 \<and> dna = 0 \<and> dnb = 0")
      case True
      have r: "product_words (bn_mul_comba8 (take 8 a) (take 8 b)) (2 * n) (wval (take n a) * wval (take n b))"
        "product_words (bn_mul_comba8 (take 8 (drop n a)) (take 8 (drop n b))) (2 * n) (wval (take ta (drop n a)) * wval (take tb (drop n b)))"
        "product_words (bn_mul_comba8 t0 t1) (2 * n) (wval t0 * wval t1)"
        using bn_mul_comba8_eq [of "take 8 a" "take 8 b"] bn_mul_comba8_eq [of "take 8 (drop n a)" "take 8 (drop n b)"]
          bn_mul_comba8_eq [of t0 t1] len T(3,4) t(1,2) True by (simp_all add: product_words_def min_absorb2)
      have run: "bn_mul_recursive a b n2 dna dnb = karatsuba_join n ?neg (bn_mul_comba8 (take 8 a) (take 8 b))
          (bn_mul_comba8 (take 8 (drop n a)) (take 8 (drop n b))) (bn_mul_comba8 t0 t1)"
        using pre(1-5) split True T(1,2) t(1,2)
        by (subst bn_mul_recursive.simps) (simp add: Let_def n_def [symmetric] ta_def [symmetric] tb_def [symmetric])
      show ?thesis unfolding run t(5,6) four [symmetric] using join r unfolding T(5,6) by blast
    next
      case False
      have full: "take n t0 = t0" "take n t1 = t1" using T(3,4) by simp_all
      obtain r01 where R01: "bn_mul_recursive a b n 0 0 = Some r01" "product_words r01 (2 * n) (wval (take n a) * wval (take n b))"
        using less.IH [of n 0 0 a b] n len by auto
      obtain r23 where R23: "bn_mul_recursive (drop n a) (drop n b) n dna dnb = Some r23"
          "product_words r23 (2 * n) (wval (take ta (drop n a)) * wval (take tb (drop n b)))"
      proof -
        have "ta \<le> length (drop n a)" "tb \<le> length (drop n b)" using len by simp_all
        then show ?thesis using that less.IH [of n dna dnb "drop n a" "drop n b"] n pre(2-5) t(1,2)
          unfolding ta_def [symmetric] tb_def [symmetric] by auto
      qed
      obtain t23 where T23: "bn_mul_recursive t0 t1 n 0 0 = Some t23" "product_words t23 (2 * n) (wval t0 * wval t1)"
        using less.IH [of n 0 0 t0 t1] n T(3,4) by auto
      have run: "bn_mul_recursive a b n2 dna dnb = karatsuba_join n ?neg r01 r23 t23"
        using pre(1-5) split False T(1,2) t(1,2) n(3) R01(1) R23(1) T23(1)
        by (subst bn_mul_recursive.simps) (auto simp: Let_def n_def [symmetric] ta_def [symmetric] tb_def [symmetric])
      show ?thesis unfolding run t(5,6) four [symmetric] using join R01(2) R23(2) T23(2) unfolding T(5,6) by blast
    qed
  qed
qed

lemma part_half_eq:
  assumes "power_of_two n" "ta < n" "tb < n" "0 < max ta tb" "part_half n (int ta) (int tb) = (part, i)"
  shows "power_of_two i \<and> i < n \<and>
    (if part then i < max ta tb \<and> ta < 2 * i \<and> tb < 2 * i else i = max ta tb)"
  using assms
proof (induction n arbitrary: part i rule: less_induct)
  case (less n)
  have big: "1 < n" using less.prems(2-4) by (auto simp: max_def split: if_splits)
  define h where "h = n div 2"
  have h: "power_of_two h" "2 * h = n" using power_of_two_half [OF less.prems(1) big] by (simp_all add: h_def)
  consider "h < max ta tb" | "h = max ta tb" | "max ta tb < h" by linarith
  then show ?case
  proof cases
    case 1
    then have "part_half n (int ta) (int tb) = (True, h)" by (subst part_half.simps) (auto simp: Let_def h_def)
    with 1 less.prems h show ?thesis by auto
  next
    case 2
    then have "part_half n (int ta) (int tb) = (False, h)" by (subst part_half.simps) (auto simp: Let_def h_def max_def split: if_splits)
    with 2 less.prems h show ?thesis by auto
  next
    case 3
    then have "part_half n (int ta) (int tb) = part_half h (int ta) (int tb)"
      by (subst part_half.simps) (auto simp: Let_def h_def)
    with 3 less.prems less.IH [of h part i] h show ?thesis by auto
  qed
qed

lemma filled_product: "product_words r m v \<Longrightarrow> m \<le> n \<Longrightarrow> product_words (filled n r) n v"
  by (auto simp: product_words_def filled_def wval_append)

lemma bn_mul_part_recursive_eq:
  assumes "power_of_two n" "8 \<le> n" "ta < n" "tb < n" "ta \<le> tb + 1" "tb \<le> ta + 1"
    "n + ta \<le> length a" "n + tb \<le> length b"
  shows "\<exists>r. bn_mul_part_recursive a b n (int ta) (int tb) = Some r \<and>
    product_words r (4 * n) (wval (take (n + ta) a) * wval (take (n + tb) b))"
  using assms
proof (induction n arbitrary: a b ta tb rule: less_induct)
  case (less n)
  note pre = less.prems
  have le: "ta \<le> n" "tb \<le> n" using pre by simp_all
  obtain t0 t1 where T: "bn_abs_sub_part_words a (drop n a) ta (int n - int ta) = (t0, truth (wval (take n a) < wval (take ta (drop n a))))"
      "bn_abs_sub_part_words (drop n b) b tb (int tb - int n) = (t1, truth (wval (take tb (drop n b)) < wval (take n b)))"
      "length t0 = n" "length t1 = n" "wval t0 = dist (wval (take n a)) (wval (take ta (drop n a)))"
      "wval t1 = dist (wval (take n b)) (wval (take tb (drop n b)))"
    using half_differences [OF pre(7,8) le] by blast
  let ?neg = "truth (wval (take n a) < wval (take ta (drop n a))) XOR truth (wval (take tb (drop n b)) < wval (take n b)) :: u64"
  let ?v23 = "wval (take ta (drop n a)) * wval (take tb (drop n b))"
  note join = karatsuba_join_products [OF pre(7,8) le]
  have lens: "ta \<le> length (drop n a)" "tb \<le> length (drop n b)" using pre(7,8) by simp_all
  have normal: "product_words (bn_mul_normal (drop n a) ta (drop n b) tb) (ta + tb) ?v23"
    using bn_mul_normal_eq [OF lens] by (simp add: product_words_def)
  have full: "take n t0 = t0" "take n t1 = t1" using T(3,4) by simp_all
  show ?case
  proof (cases "n = 8")
    case True
    have r: "product_words (bn_mul_comba8 (take 8 a) (take 8 b)) (2 * n) (wval (take n a) * wval (take n b))"
      "product_words (bn_mul_comba8 t0 t1) (2 * n) (wval t0 * wval t1)"
      using bn_mul_comba8_eq [of "take 8 a" "take 8 b"] bn_mul_comba8_eq [of t0 t1] pre(7,8) T(3,4) True
      by (simp_all add: product_words_def min_absorb2)
    have r23: "product_words (filled (2 * n) (bn_mul_normal (drop n a) ta (drop n b) tb)) (2 * n) ?v23"
      using normal pre(3,4) by (intro filled_product) auto
    have run: "bn_mul_part_recursive a b n (int ta) (int tb) = karatsuba_join n ?neg (bn_mul_comba8 (take 8 a) (take 8 b))
        (filled (2 * n) (bn_mul_normal (drop n a) ta (drop n b) tb)) (bn_mul_comba8 t0 t1)"
      using pre(1,3-6) True T(1,2) by (subst bn_mul_part_recursive.simps) (simp add: Let_def)
    show ?thesis unfolding run using join r(1) r23 r(2) unfolding T(5,6) by blast
  next
    case False
    obtain r01 where R01: "bn_mul_recursive a b n 0 0 = Some r01" "product_words r01 (2 * n) (wval (take n a) * wval (take n b))"
      using bn_mul_recursive_eq [OF pre(1), of 0 0 a b] pre(7,8) by auto
    obtain t23 where T23: "bn_mul_recursive t0 t1 n 0 0 = Some t23" "product_words t23 (2 * n) (wval t0 * wval t1)"
      using bn_mul_recursive_eq [OF pre(1), of 0 0 t0 t1] T(3,4) full by auto
    obtain part i where half: "part_half n (int ta) (int tb) = (part, i)" by force
    define high where "high =
      (if int ta < 16 \<and> int tb < 16 then Some (bn_mul_normal (drop n a) (nat (int ta)) (drop n b) (nat (int tb)))
       else if part then bn_mul_part_recursive (drop n a) (drop n b) i (int ta - int i) (int tb - int i)
       else bn_mul_recursive (drop n a) (drop n b) i (int ta - int i) (int tb - int i))"
    have "\<exists>r23 m. high = Some r23 \<and> m \<le> 2 * n \<and> product_words r23 m ?v23"
    proof (cases "ta < 16 \<and> tb < 16")
      case True
      with normal pre(3,4) show ?thesis by (auto simp: high_def intro: exI [of _ "ta + tb"])
    next
      case big: False
      have i: "power_of_two i" "i < n" "if part then i < max ta tb \<and> ta < 2 * i \<and> tb < 2 * i else i = max ta tb"
        using part_half_eq [OF pre(1,3,4) _ half] big by auto
      have "2 * i \<le> n"
      proof -
        obtain j k where jk: "i = 2 ^ j" "n = 2 ^ k"
          using i(1) pre(1) pow2_nat [of i] pow2_nat [of n] by (auto simp: power_of_two_def)
        then have "j < k" using i(2) by simp
        then have "(2 :: nat) ^ Suc j \<le> 2 ^ k" by (intro power_increasing) simp_all
        with jk show ?thesis by simp
      qed
      show ?thesis
      proof (cases part)
        case True
        then have p: "i < max ta tb" "ta < 2 * i" "tb < 2 * i" using i(3) by simp_all
        then have q: "i \<le> ta" "i \<le> tb" "8 \<le> i" using pre(5,6) big by linarith+
        have s: "ta - i < i" "tb - i < i" "ta - i \<le> tb - i + 1" "tb - i \<le> ta - i + 1" "i + (ta - i) = ta" "i + (tb - i) = tb"
          using p q pre(5,6) by linarith+
        obtain r23 where "bn_mul_part_recursive (drop n a) (drop n b) i (int (ta - i)) (int (tb - i)) = Some r23"
            "product_words r23 (4 * i) ?v23"
          using less.IH [OF i(2,1) q(3) s(1-4), of "drop n a" "drop n b"] lens unfolding s(5,6) by blast
        then show ?thesis using True big q \<open>2 * i \<le> n\<close>
          by (auto simp: high_def of_nat_diff intro: exI [of _ "4 * i"])
      next
        case False
        then have p: "i = max ta tb" using i(3) by simp
        have q: "- 8 \<le> int ta - int i" "int ta - int i \<le> 0" "- 8 \<le> int tb - int i" "int tb - int i \<le> 0"
          using p pre(5,6) by linarith+
        then obtain r23 where "bn_mul_recursive (drop n a) (drop n b) i (int ta - int i) (int tb - int i) = Some r23"
            "product_words r23 (2 * i) ?v23"
          using bn_mul_recursive_eq [OF i(1) q, of "drop n a" "drop n b"] lens by auto
        then show ?thesis using False big i(2)
          by (auto simp: high_def intro: exI [of _ "2 * i"])
      qed
    qed
    then obtain r23 m where R23: "high = Some r23" "m \<le> 2 * n" "product_words r23 m ?v23" by blast
    have run: "bn_mul_part_recursive a b n (int ta) (int tb) = karatsuba_join n ?neg r01 (filled (2 * n) r23) t23"
      using pre(1-6) False T(1,2) R01(1) T23(1) R23(1) [unfolded high_def]
      by (subst bn_mul_part_recursive.simps) (auto simp: Let_def half mult.commute [of n 2])
    show ?thesis unfolding run using join R01(2) filled_product [OF R23(3,2)] T23(2) unfolding T(5,6) by blast
  qed
qed

end
