(* ===== verification/Bn_Product.thy ===== *)
theory Bn_Product
  imports Bn_Mul
begin

text \<open>
  Products of BIGNUMs, the rest of crypto/fipsmodule/bn/mul.c: BN_mul, BN_mul_word and BN_sqr with what
  they are made of. The numbers that BN_CTX_get returns and the requests to the allocator are in the
  environment of a call; \<open>aliased\<close> says that the result is also an operand, which the code finds out
  by comparing pointers. The result is None where an assertion fails.
\<close>

unbundle bit_operations_syntax

record mul_env =
  env_rr :: "BIGNUM option"
  env_t :: "BIGNUM option"
  env_grow_rr :: word_alloc
  env_grow_t :: word_alloc
  env_copy :: word_alloc

subsection \<open>mul.c: products\<close>

text \<open>bn_mul_impl between the choice of rr and the label end.\<close>

definition bn_mul_into :: "mul_env \<Rightarrow> BIGNUM \<Rightarrow> BIGNUM \<Rightarrow> BIGNUM \<Rightarrow> (bool \<times> BIGNUM) option" where
  "bn_mul_into env rr a b =
     (let al = bn_width a; bl = bn_width b; i = int al - int bl; width = al + bl
      in if i = 0 \<and> al = 8 then
           (case bn_wexpand (env_grow_rr env) rr 16 of
              (ok, rr) \<Rightarrow>
                if \<not> ok then Some (False, rr)
                else Some (True, (put_words rr (bn_mul_comba8 (take 8 (bn_d a)) (take 8 (bn_d b))))\<lparr>bn_width := 16\<rparr>))
         else if 16 \<le> al \<and> 16 \<le> bl \<and> - 1 \<le> i \<and> i \<le> 1 then
           (let j = (if 0 \<le> i then BN_num_bits_word (of_nat al) else BN_num_bits_word (of_nat bl));
                j = 2 ^ (j - 1)
            in if \<not> (j \<le> al \<or> j \<le> bl) then None
               else
                 (case env_t env of
                    None \<Rightarrow> Some (False, rr)
                  | Some t \<Rightarrow>
                      if j < al \<or> j < bl then
                        if \<not> (j \<le> al \<and> j \<le> bl) then None
                        else if \<not> fst (bn_wexpand (env_grow_t env) t (j * 8)) then Some (False, rr)
                        else
                          (case bn_wexpand (env_grow_rr env) rr (j * 4) of
                             (ok, rr) \<Rightarrow>
                               if \<not> ok then Some (False, rr)
                               else map_option (\<lambda>ws. (True, (put_words rr ws)\<lparr>bn_width := width\<rparr>))
                                 (bn_mul_part_recursive (bn_d a) (bn_d b) j (int al - int j) (int bl - int j)))
                      else if \<not> fst (bn_wexpand (env_grow_t env) t (j * 4)) then Some (False, rr)
                      else
                        (case bn_wexpand (env_grow_rr env) rr (j * 2) of
                           (ok, rr) \<Rightarrow>
                             if \<not> ok then Some (False, rr)
                             else map_option (\<lambda>ws. (True, (put_words rr ws)\<lparr>bn_width := width\<rparr>))
                               (bn_mul_recursive (bn_d a) (bn_d b) j (int al - int j) (int bl - int j)))))
         else
           (case bn_wexpand (env_grow_rr env) rr width of
              (ok, rr) \<Rightarrow>
                if \<not> ok then Some (False, rr)
                else Some (True, (put_words rr (bn_mul_normal (bn_d a) al (bn_d b) bl))\<lparr>bn_width := width\<rparr>)))"

definition bn_mul_impl :: "mul_env \<Rightarrow> bool \<Rightarrow> BIGNUM \<Rightarrow> BIGNUM \<Rightarrow> BIGNUM \<Rightarrow> (bool \<times> BIGNUM) option" where
  "bn_mul_impl env aliased r a b =
     (if bn_width a = 0 \<or> bn_width b = 0 then Some (True, BN_zero r)
      else
        (case (if aliased then env_rr env else Some r) of
           None \<Rightarrow> Some (False, r)
         | Some rr \<Rightarrow>
             (case bn_mul_into env (rr\<lparr>bn_neg := (bn_neg a \<noteq> bn_neg b)\<rparr>) a b of
                None \<Rightarrow> None
              | Some (ok, rr) \<Rightarrow>
                  Some (if \<not> aliased then (ok, rr)
                        else if \<not> ok then (False, r)
                        else BN_copy (env_copy env) r rr))))"

definition BN_mul :: "mul_env \<Rightarrow> bool \<Rightarrow> BIGNUM \<Rightarrow> BIGNUM \<Rightarrow> BIGNUM \<Rightarrow> (bool \<times> BIGNUM) option" where
  "BN_mul env aliased r a b =
     map_option (\<lambda>(ok, r). if \<not> ok then (False, r) else (True, bn_set_minimal_width r)) (bn_mul_impl env aliased r a b)"

definition bn_mul_consttime :: "mul_env \<Rightarrow> bool \<Rightarrow> BIGNUM \<Rightarrow> BIGNUM \<Rightarrow> BIGNUM \<Rightarrow> (bool \<times> BIGNUM) option" where
  "bn_mul_consttime env aliased r a b =
     (if bn_neg a \<or> bn_neg b then Some (False, r) else bn_mul_impl env aliased r a b)"

text \<open>None where the code aborts.\<close>

definition bn_mul_small :: "nat \<Rightarrow> u64 list \<Rightarrow> nat \<Rightarrow> u64 list \<Rightarrow> nat \<Rightarrow> u64 list option" where
  "bn_mul_small num_r a num_a b num_b =
     (if num_r \<noteq> num_a + num_b then None
      else if num_a = 8 \<and> num_b = 8 then Some (bn_mul_comba8 (take 8 a) (take 8 b))
      else Some (bn_mul_normal a num_a b num_b))"

definition BN_mul_word :: "word_alloc \<Rightarrow> BIGNUM \<Rightarrow> u64 \<Rightarrow> bool \<times> BIGNUM" where
  "BN_mul_word al bn w =
     (if bn_width bn = 0 then (True, bn)
      else if w = 0 then (True, BN_zero bn)
      else
        (case bn_mul_words (bn_d bn) (bn_width bn) w of
           (r, ll) \<Rightarrow>
             (let bn = put_words bn r
              in if ll \<noteq> 0 then
                   (case bn_wexpand al bn (bn_width bn + 1) of
                      (ok, bn) \<Rightarrow>
                        if \<not> ok then (False, bn)
                        else (True, bn\<lparr>bn_d := (bn_d bn)[bn_width bn := ll], bn_width := bn_width bn + 1\<rparr>))
                 else (True, bn))))"

subsection \<open>What the products are\<close>

definition env_ok :: "mul_env \<Rightarrow> bool" where
  "env_ok env \<longleftrightarrow> (\<forall>rr. env_rr env = Some rr \<longrightarrow> wf_bn rr) \<and> (\<forall>t. env_t env = Some t \<longrightarrow> wf_bn t)"

text \<open>When the environment has room for numbers of \<open>n\<close> words.\<close>

definition mul_room :: "mul_env \<Rightarrow> bool \<Rightarrow> BIGNUM \<Rightarrow> nat \<Rightarrow> bool" where
  "mul_room env aliased r n \<longleftrightarrow>
     (case env_t env of None \<Rightarrow> False | Some t \<Rightarrow> room (env_grow_t env) t n) \<and>
     (if aliased then
        (case env_rr env of None \<Rightarrow> False | Some rr \<Rightarrow> room (env_grow_rr env) rr n) \<and> room (env_copy env) r n
      else room (env_grow_rr env) r n)"

lemma wval_take_small: "wval ws < limbs n \<Longrightarrow> n \<le> length ws \<Longrightarrow> wval (take n ws) = wval ws"
proof -
  assume lt: "wval ws < limbs n" and n: "n \<le> length ws"
  have split: "wval ws = wval (take n ws) + limbs n * wval (drop n ws)"
    using take_split_wval [of n "length ws" ws] n by simp
  then have "limbs n * wval (drop n ws) < limbs n * 1" using lt by linarith
  then have "wval (drop n ws) = 0" unfolding mult_less_cancel1 by simp
  with split show ?thesis by simp
qed

text \<open>Words stored in a number that has grown, of which the first \<open>width\<close> count.\<close>

lemma stored_product:
  assumes "wf_bn rr" "bn_wexpand al rr m = (ok, r1)" "product_words ws n v" "n \<le> m" "v < limbs width" "width \<le> n"
  shows "wf_bn ((put_words r1 ws)\<lparr>bn_width := width\<rparr>) \<or> \<not> ok"
    "ok \<Longrightarrow> bn_nat ((put_words r1 ws)\<lparr>bn_width := width\<rparr>) = v"
    "bn_neg ((put_words r1 ws)\<lparr>bn_width := width\<rparr>) = bn_neg rr" "wf_bn r1" "ok \<longleftrightarrow> room al rr m"
proof -
  note grown = bn_wexpand_eq [OF assms(1,2)]
  show "wf_bn r1" "ok \<longleftrightarrow> room al rr m" using grown bn_wexpand_ok [OF assms(2)] by simp_all
  show "bn_neg ((put_words r1 ws)\<lparr>bn_width := width\<rparr>) = bn_neg rr" using grown by (simp add: put_words_def)
  show "wf_bn ((put_words r1 ws)\<lparr>bn_width := width\<rparr>) \<or> \<not> ok"
    using grown assms(3,4,6) by (auto simp: wf_bn_def put_words_def product_words_def)
  show "bn_nat ((put_words r1 ws)\<lparr>bn_width := width\<rparr>) = v" if ok
  proof -
    have "width \<le> length ws" using assms(3,6) by (simp add: product_words_def)
    moreover have "wval (take width ws) = v"
      using wval_take_small [of ws width] assms(3,5,6) by (simp add: product_words_def)
    ultimately show ?thesis by (simp add: bn_nat_def bn_words_def put_words_def)
  qed
qed

lemma bn_product_lt: "wf_bn a \<Longrightarrow> wf_bn b \<Longrightarrow> bn_nat a * bn_nat b < limbs (bn_width a + bn_width b)"
  unfolding bn_nat_def by (intro product_lt length_bn_words)

lemma power_of_two_pow: "power_of_two (2 ^ k)"
  using pow2_nat [of "2 ^ k"] by (auto simp: power_of_two_def)

text \<open>The power of two that bn_mul_impl chooses.\<close>

lemma top_power:
  assumes "0 < n" "n < 2 ^ 64"
  shows "2 ^ (BN_num_bits_word (of_nat n) - 1) \<le> n \<and> n < 2 * 2 ^ (BN_num_bits_word (of_nat n) - 1)"
proof -
  define k where "k = BN_num_bits_word (of_nat n)"
  have n: "unat (of_nat n :: u64) = n" using assms(2) by (simp add: unat_of_nat take_bit_nat_eq_self)
  have bits: "bit_length n k" using BN_num_bits_word_eq [of "of_nat n"] unfolding n k_def .
  have "k \<noteq> 0" using bits assms(1) by (cases k) (simp_all add: bit_length_def)
  then show ?thesis using bits by (cases k) (simp_all add: bit_length_def k_def [symmetric])
qed

lemma bn_mul_into_eq:
  assumes wf: "wf_bn rr" "wf_bn a" "wf_bn b" and ctx: "env_ok env"
    and pos: "0 < bn_width a" "0 < bn_width b"
  shows "\<exists>ok r'. bn_mul_into env rr a b = Some (ok, r') \<and> wf_bn r' \<and>
    (ok \<longrightarrow> bn_nat r' = bn_nat a * bn_nat b \<and> bn_neg r' = bn_neg rr \<and> bn_width r' \<le> 2 * max (bn_width a) (bn_width b)) \<and>
    (mul_room env False rr (8 * max (bn_width a) (bn_width b)) \<longrightarrow> ok)"
proof -
  define al bl where "al = bn_width a" and "bl = bn_width b"
  define n where "n = max al bl"
  have n: "al \<le> n" "bl \<le> n" "0 < n" using pos by (auto simp: n_def al_def bl_def)
  have small: "bn_width a < 2 ^ 64" "bn_width b < 2 ^ 64" using wf by (auto simp: wf_bn_def)
  have words: "take al (bn_d a) = bn_words a" "take bl (bn_d b) = bn_words b" by (simp_all add: bn_words_def al_def bl_def)
  have lens: "al \<le> length (bn_d a)" "bl \<le> length (bn_d b)" using wf by (simp_all add: wf_bn_def al_def bl_def)
  have lt: "bn_nat a * bn_nat b < limbs (al + bl)" unfolding al_def bl_def by (rule bn_product_lt [OF wf(2,3)])
  have grow: "room (env_grow_rr env) rr m" if "mul_room env False rr (8 * n)" "m \<le> 8 * n" for m
  proof -
    have "room (env_grow_rr env) rr (8 * n)" using that(1) by (auto simp: mul_room_def split: option.splits)
    then show ?thesis by (rule room_mono [OF _ that(2)])
  qed
  note store = stored_product [OF wf(1)]
  consider (comba) "al = 8 \<and> bl = 8"
    | (karatsuba) "16 \<le> al" "16 \<le> bl" "al \<le> bl + 1" "bl \<le> al + 1"
    | (normal) "\<not> (al = 8 \<and> bl = 8)" "\<not> (16 \<le> al \<and> 16 \<le> bl \<and> al \<le> bl + 1 \<and> bl \<le> al + 1)" by linarith
  then show ?thesis
  proof cases
    case comba
    let ?ws = "bn_mul_comba8 (take 8 (bn_d a)) (take 8 (bn_d b))"
    have ws: "product_words ?ws 16 (bn_nat a * bn_nat b)"
      using bn_mul_comba8_eq [of "take 8 (bn_d a)" "take 8 (bn_d b)"] comba lens words
      by (simp add: product_words_def bn_nat_def min_absorb2)
    obtain ok r1 where g: "bn_wexpand (env_grow_rr env) rr 16 = (ok, r1)" by force
    have "bn_mul_into env rr a b = Some (if ok then (True, (put_words r1 ?ws)\<lparr>bn_width := 16\<rparr>) else (False, r1))"
      using comba g by (simp add: bn_mul_into_def al_def bl_def)
    moreover have "16 \<le> 8 * n" using comba by (simp add: n_def)
    ultimately show ?thesis using store [OF g ws, of 16] lt comba grow [of 16] unfolding al_def [symmetric] bl_def [symmetric] n_def [symmetric]
      by (cases ok) (auto simp: n_def)
  next
    case normal
    let ?ws = "bn_mul_normal (bn_d a) al (bn_d b) bl"
    have ws: "product_words ?ws (al + bl) (bn_nat a * bn_nat b)"
      using bn_mul_normal_eq [OF lens] words by (simp add: product_words_def bn_nat_def)
    obtain ok r1 where g: "bn_wexpand (env_grow_rr env) rr (al + bl) = (ok, r1)" by force
    have "bn_mul_into env rr a b = Some (if ok then (True, (put_words r1 ?ws)\<lparr>bn_width := al + bl\<rparr>) else (False, r1))"
      using normal g by (auto simp: bn_mul_into_def Let_def al_def bl_def)
    moreover have "al + bl \<le> 2 * n" using n by simp
    ultimately show ?thesis using store [OF g ws, of "al + bl"] lt grow [of "al + bl"] unfolding al_def [symmetric] bl_def [symmetric] n_def [symmetric]
      by (cases ok) auto
  next
    case karatsuba
    define j :: nat where "j = 2 ^ ((if 0 \<le> int al - int bl then BN_num_bits_word (of_nat al) else BN_num_bits_word (of_nat bl)) - 1)"
    have j: "j \<le> n" "n < 2 * j" "power_of_two j"
      using top_power [of al] top_power [of bl] pos small by (auto simp: j_def n_def al_def bl_def max_def power_of_two_pow)
    have "8 \<le> j" using j(2) karatsuba n by linarith
    have either: "j \<le> al \<or> j \<le> bl" using j(1) by (auto simp: n_def max_def split: if_splits)
    have not8: "\<not> (int al - int bl = 0 \<and> al = 8)" using karatsuba by simp
    have branch: "16 \<le> al \<and> 16 \<le> bl \<and> - 1 \<le> int al - int bl \<and> int al - int bl \<le> 1" using karatsuba by linarith
    show ?thesis
    proof (cases "env_t env")
      case None
      have "bn_mul_into env rr a b = Some (False, rr)"
        unfolding bn_mul_into_def Let_def al_def [symmetric] bl_def [symmetric] if_not_P [OF not8] if_P [OF branch] j_def [symmetric]
        using either None by simp
      then show ?thesis using wf(1) None by (intro exI [of _ False] exI [of _ rr]) (simp add: mul_room_def)
    next
      case (Some t)
      have t: "room (env_grow_t env) t m" if "mul_room env False rr (8 * n)" "m \<le> 8 * n" for m
      proof -
        have "room (env_grow_t env) t (8 * n)" using that(1) Some by (simp add: mul_room_def)
        then show ?thesis by (rule room_mono [OF _ that(2)])
      qed
      have tok: "fst (bn_wexpand (env_grow_t env) t m) \<longleftrightarrow> room (env_grow_t env) t m" for m
        using bn_wexpand_ok [of "env_grow_t env" t m] by (cases "bn_wexpand (env_grow_t env) t m") simp
      show ?thesis
      proof (cases "j < al \<or> j < bl")
        case True
        then have both: "j \<le> al" "j \<le> bl" using karatsuba by linarith+
        obtain ws where ws: "bn_mul_part_recursive (bn_d a) (bn_d b) j (int al - int j) (int bl - int j) = Some ws"
            "product_words ws (4 * j) (bn_nat a * bn_nat b)"
        proof -
          have "al - j < j" "bl - j < j" "al - j \<le> bl - j + 1" "bl - j \<le> al - j + 1" "j + (al - j) = al" "j + (bl - j) = bl"
            using both j(2) n karatsuba by linarith+
          from bn_mul_part_recursive_eq [OF j(3) \<open>8 \<le> j\<close> this(1-4), of "bn_d a" "bn_d b"] lens this(5,6) show ?thesis
            using both that unfolding bn_nat_def words [symmetric] by (auto simp: of_nat_diff)
        qed
        obtain ok r1 where g: "bn_wexpand (env_grow_rr env) rr (j * 4) = (ok, r1)" by force
        have run: "bn_mul_into env rr a b =
            (if \<not> room (env_grow_t env) t (j * 8) then Some (False, rr)
             else Some (if ok then (True, (put_words r1 ws)\<lparr>bn_width := al + bl\<rparr>) else (False, r1)))"
          unfolding bn_mul_into_def Let_def al_def [symmetric] bl_def [symmetric] if_not_P [OF not8] if_P [OF branch] j_def [symmetric]
          using either Some True both g ws(1) tok by simp
        have sizes: "4 * j \<le> j * 4" "al + bl \<le> 4 * j" "j * 8 \<le> 8 * n" "j * 4 \<le> 8 * n" "al + bl \<le> 2 * n" using j n by linarith+
        show ?thesis unfolding run
          using store [OF g ws(2) sizes(1) lt sizes(2)] grow [OF _ sizes(4)] t [OF _ sizes(3)] sizes(5) wf(1)
          unfolding al_def [symmetric] bl_def [symmetric] n_def [symmetric] by (cases ok) auto
      next
        case False
        obtain ws where ws: "bn_mul_recursive (bn_d a) (bn_d b) j (int al - int j) (int bl - int j) = Some ws"
            "product_words ws (2 * j) (bn_nat a * bn_nat b)"
        proof -
          have "- 8 \<le> int al - int j" "int al - int j \<le> 0" "- 8 \<le> int bl - int j" "int bl - int j \<le> 0"
            using False either karatsuba by linarith+
          from bn_mul_recursive_eq [OF j(3) this, of "bn_d a" "bn_d b"] lens show ?thesis
            using that unfolding bn_nat_def words [symmetric] by auto
        qed
        obtain ok r1 where g: "bn_wexpand (env_grow_rr env) rr (j * 2) = (ok, r1)" by force
        have run: "bn_mul_into env rr a b =
            (if \<not> room (env_grow_t env) t (j * 4) then Some (False, rr)
             else Some (if ok then (True, (put_words r1 ws)\<lparr>bn_width := al + bl\<rparr>) else (False, r1)))"
          unfolding bn_mul_into_def Let_def al_def [symmetric] bl_def [symmetric] if_not_P [OF not8] if_P [OF branch] j_def [symmetric]
          using either Some False g ws(1) tok by simp
        have sizes: "2 * j \<le> j * 2" "al + bl \<le> 2 * j" "j * 4 \<le> 8 * n" "j * 2 \<le> 8 * n" "al + bl \<le> 2 * n" using j n False by linarith+
        show ?thesis unfolding run
          using store [OF g ws(2) sizes(1) lt sizes(2)] grow [OF _ sizes(4)] t [OF _ sizes(3)] sizes(5) wf(1)
          unfolding al_def [symmetric] bl_def [symmetric] n_def [symmetric] by (cases ok) auto
      qed
    qed
  qed
qed

lemma false_suffices [simp]: "\<exists>ok. \<not> ok \<and> (ok \<longrightarrow> P)"
  by blast

lemma bn_mul_impl_eq:
  assumes wf: "wf_bn r" "wf_bn a" "wf_bn b" and ctx: "env_ok env"
  shows "\<exists>ok r'. bn_mul_impl env aliased r a b = Some (ok, r') \<and> wf_bn r' \<and>
    (ok \<longrightarrow> bn_int r' = bn_int a * bn_int b) \<and>
    (mul_room env aliased r (8 * max (bn_width a) (bn_width b)) \<longrightarrow> ok)"
proof (cases "bn_width a = 0 \<or> bn_width b = 0")
  case True
  then have "bn_nat a = 0 \<or> bn_nat b = 0" by (auto simp: bn_nat_def bn_words_def)
  then have "bn_int a * bn_int b = 0" by (auto simp: bn_int_def)
  with True wf(1) show ?thesis
    by (simp add: bn_mul_impl_def BN_zero_def wf_bn_def bn_int_def bn_nat_def bn_words_def)
next
  case False
  let ?neg = "bn_neg a \<noteq> bn_neg b" and ?n = "8 * max (bn_width a) (bn_width b)"
  have product: "bn_int x = bn_int a * bn_int b" if "bn_nat x = bn_nat a * bn_nat b" "bn_neg x = ?neg" for x
    using that by (auto simp: bn_int_def)
  show ?thesis
  proof (cases "if aliased then env_rr env else Some r")
    case None
    then have "bn_mul_impl env aliased r a b = Some (False, r)" using False by (simp only: bn_mul_impl_def if_False option.case)
    moreover have "\<not> mul_room env aliased r ?n" using None by (auto simp: mul_room_def split: if_splits)
    ultimately show ?thesis using wf(1) by (intro exI [of _ False] exI [of _ r]) simp
  next
    case (Some rr)
    let ?rr = "rr\<lparr>bn_neg := ?neg\<rparr>"
    have "wf_bn rr" using Some wf(1) ctx by (auto simp: env_ok_def split: if_splits)
    then have rr: "wf_bn ?rr" by (simp add: wf_bn_def)
    obtain ok r1 where into: "bn_mul_into env ?rr a b = Some (ok, r1)" "wf_bn r1"
      "ok \<longrightarrow> bn_nat r1 = bn_nat a * bn_nat b \<and> bn_neg r1 = ?neg \<and> bn_width r1 \<le> 2 * max (bn_width a) (bn_width b)"
      "mul_room env False ?rr ?n \<longrightarrow> ok"
      using bn_mul_into_eq [OF rr wf(2,3) ctx] False by auto
    have run: "bn_mul_impl env aliased r a b =
        Some (if \<not> aliased then (ok, r1) else if \<not> ok then (False, r) else BN_copy (env_copy env) r r1)"
      using False Some into(1) by (simp only: bn_mul_impl_def if_False option.case prod.case)
    have room: "mul_room env False ?rr m = mul_room env False rr m" for m by (simp add: mul_room_def room_def)
    show ?thesis
    proof (cases "aliased \<and> ok")
      case True
      obtain ok' r' where copy: "BN_copy (env_copy env) r r1 = (ok', r')" by force
      note copied = BN_copy_eq [OF wf(1) into(2) copy]
      have "ok' \<longleftrightarrow> room (env_copy env) r (bn_width r1)"
        using copy bn_wexpand_ok by (auto simp: BN_copy_def split: prod.splits if_splits)
      moreover have "bn_width r1 \<le> ?n" using into(3) True by simp
      ultimately have "mul_room env aliased r ?n \<longrightarrow> ok'"
        using True room_mono [of "env_copy env" r ?n "bn_width r1"] by (simp add: mul_room_def)
      moreover have "ok' \<longrightarrow> bn_int r' = bn_int a * bn_int b" using copied into(3) True product [of r'] by (auto simp: bn_nat_def)
      ultimately show ?thesis using run True copy copied by simp
    next
      case no: False
      show ?thesis
      proof (cases aliased)
        case True
        then have "mul_room env aliased r ?n \<longrightarrow> ok"
          using into(4) Some unfolding room by (auto simp: mul_room_def)
        then show ?thesis using run True no wf(1) by (intro exI [of _ False] exI [of _ r]) simp
      next
        case False
        then have "mul_room env aliased r ?n \<longrightarrow> ok" using into(4) Some unfolding room by simp
        then show ?thesis using run False into(2,3) product by (intro exI [of _ ok] exI [of _ r1]) auto
      qed
    qed
  qed
qed

lemma BN_mul_eq:
  assumes "wf_bn r" "wf_bn a" "wf_bn b" "env_ok env"
  shows "\<exists>ok r'. BN_mul env aliased r a b = Some (ok, r') \<and> wf_bn r' \<and>
    (ok \<longrightarrow> canonical r' \<and> bn_int r' = bn_int a * bn_int b) \<and>
    (mul_room env aliased r (8 * max (bn_width a) (bn_width b)) \<longrightarrow> ok)"
proof -
  obtain ok r1 where impl: "bn_mul_impl env aliased r a b = Some (ok, r1)" "wf_bn r1"
    "ok \<longrightarrow> bn_int r1 = bn_int a * bn_int b" "mul_room env aliased r (8 * max (bn_width a) (bn_width b)) \<longrightarrow> ok"
    using bn_mul_impl_eq [OF assms] by blast
  have "wf_bn (bn_set_minimal_width r1)" using bn_set_minimal_width_eq [OF impl(2)] by (simp add: canonical_def)
  with impl bn_set_minimal_width_eq [OF impl(2)] show ?thesis by (cases ok) (simp_all add: BN_mul_def)
qed

lemma bn_mul_small_eq:
  assumes "num_a \<le> length a" "num_b \<le> length b" "num_r = num_a + num_b"
  shows "\<exists>r. bn_mul_small num_r a num_a b num_b = Some r \<and> product_words r num_r (wval (take num_a a) * wval (take num_b b))"
  using assms bn_mul_normal_eq [OF assms(1,2)] bn_mul_comba8_eq [of "take 8 a" "take 8 b"]
  by (auto simp: bn_mul_small_def product_words_def min_absorb2)

lemma BN_mul_word_eq:
  assumes "canonical bn" "BN_mul_word al bn w = (ok, bn')"
  shows "wf_bn bn' \<and> (ok \<longrightarrow> canonical bn' \<and> bn_int bn' = bn_int bn * int (unat w)) \<and>
    (room al bn (bn_width bn + 1) \<longrightarrow> ok)"
proof -
  have wf: "wf_bn bn" using assms(1) by (simp add: canonical_def)
  consider (none) "bn_width bn = 0" | (zero) "bn_width bn \<noteq> 0" "w = 0" | (mul) "bn_width bn \<noteq> 0" "w \<noteq> 0" by blast
  then show ?thesis
  proof cases
    case none
    then have "bn_int bn = 0" by (simp add: bn_int_def bn_nat_def bn_words_def)
    with none assms wf show ?thesis by (auto simp: BN_mul_word_def)
  next
    case zero
    with assms(2) wf show ?thesis
      by (auto simp: BN_mul_word_def BN_zero_def canonical_def wf_bn_def bn_int_def bn_nat_def bn_words_def)
  next
    case mul
    obtain r ll where rl: "bn_mul_words (bn_d bn) (bn_width bn) w = (r, ll)" by force
    have R: "length r = bn_width bn" "wval r + limbs (bn_width bn) * unat ll = bn_nat bn * unat w"
      using bn_mul_words_eq [of "bn_width bn" "bn_d bn" w] wf unfolding rl by (simp_all add: wf_bn_def bn_nat_def bn_words_def)
    let ?b = "put_words bn r"
    have B: "wf_bn ?b" "bn_words ?b = r" "bn_width ?b = bn_width bn" "bn_neg ?b = bn_neg bn"
      using wf R(1) by (simp_all add: put_words_def wf_bn_def bn_words_def)
    have done': "canonical x \<and> bn_int x = bn_int bn * int (unat w)"
      if "wf_bn x" "bn_neg x = bn_neg bn" "bn_nat x = bn_nat bn * unat w" for x
    proof -
      have "unat w \<noteq> 0" using mul(2) by (simp only: unat_eq_0 not_False_eq_True)
      with that assms(1) show ?thesis by (auto simp: canonical_def bn_int_def)
    qed
    show ?thesis
    proof (cases "ll = 0")
      case True
      then have "ok" "bn' = ?b" using assms(2) mul rl by (simp_all add: BN_mul_word_def)
      moreover have "bn_nat ?b = bn_nat bn * unat w" using B(2) R(2) True by (simp add: bn_nat_def)
      ultimately show ?thesis using done' [OF B(1,4)] B(1) by simp
    next
      case False
      obtain ok1 b1 where grow: "bn_wexpand al ?b (bn_width bn + 1) = (ok1, b1)" by force
      note G = bn_wexpand_eq [OF B(1) grow] and ok1 = bn_wexpand_ok [OF grow]
      have room: "room al ?b (bn_width bn + 1) \<longleftrightarrow> room al bn (bn_width bn + 1)" by (simp add: room_def put_words_def)
      let ?x = "b1\<lparr>bn_d := (bn_d b1)[bn_width b1 := ll], bn_width := bn_width b1 + 1\<rparr>"
      have run: "(ok, bn') = (if ok1 then (True, ?x) else (False, b1))"
        using assms(2) mul rl False grow B(3) by (cases ok1) (simp_all add: BN_mul_word_def)
      show ?thesis
      proof (cases ok1)
        case True
        have lt: "bn_width b1 < length (bn_d b1)" "bn_words b1 = r" "bn_width b1 = bn_width bn"
          using G True B by (auto simp: wf_bn_def)
        then have "bn_words ?x = r @ [ll]" by (simp add: bn_words_def take_Suc_conv_app_nth)
        then have "bn_nat ?x = bn_nat bn * unat w" using R by (simp add: bn_nat_def wval_append)
        moreover have "wf_bn ?x" "bn_neg ?x = bn_neg bn" using G lt B(4) by (simp_all add: wf_bn_def)
        ultimately show ?thesis using done' [of ?x] run True by simp
      next
        case no: False
        with run G ok1 room B(1) show ?thesis by simp
      qed
    qed
  qed
qed

end
