(* ===== verification/Bn_Square.thy ===== *)
theory Bn_Square
  imports Bn_Product
begin

text \<open>
  Squares: bn_sqr_normal, bn_sqr_recursive, BN_sqr and bn_sqr_small of crypto/fipsmodule/bn/mul.c, and
  bn_abs_sub_consttime. The environment is that of a product; \<open>env_t\<close> is the number tmp.
\<close>

unbundle bit_operations_syntax

subsection \<open>mul.c: squares\<close>

text \<open>
  The rows of bn_sqr_normal: \<open>rp\<close> are the words of r that a row adds to, as many as it has words to
  multiply. With its carry it leaves one more, of which the next rows do not touch the first two.
\<close>

fun sqr_rows :: "u64 list \<Rightarrow> u64 list \<Rightarrow> u64 list" where
  "sqr_rows rp (a0 # a1 # as) =
     (case bn_mul_add_words rp (a1 # as) (length (a1 # as)) a0 of
        (r, c) \<Rightarrow> take 2 (r @ [c]) @ sqr_rows (drop 2 (r @ [c])) (a1 # as))"
| "sqr_rows rp _ = []"

definition bn_sqr_normal :: "u64 list \<Rightarrow> nat \<Rightarrow> u64 list" where
  "bn_sqr_normal a n =
     (if n = 0 then []
      else
        (let size2 = n * 2;
             rows = (if 1 < n
                     then (case bn_mul_words (drop 1 a) (n - 1) (a ! 0) of
                             (r, c) \<Rightarrow> take 2 (r @ [c]) @ sqr_rows (drop 2 (r @ [c])) (drop 1 (take n a)))
                     else []);
             r = 0 # rows @ [0];
             r = fst (bn_add_words r r size2);
             tmp = bn_sqr_words a n
         in fst (bn_add_words r tmp size2)))"

function bn_sqr_recursive :: "u64 list \<Rightarrow> nat \<Rightarrow> u64 list option" where
  "bn_sqr_recursive a n2 =
     (if \<not> power_of_two n2 then None
      else if n2 = 4 then Some (bn_sqr_comba4 (take 4 a))
      else if n2 = 8 then Some (bn_sqr_comba8 (take 8 a))
      else if n2 < 16 then Some (bn_sqr_normal a n2)
      else
        (let n = n2 div 2;
             t0 = bn_abs_sub_words a (drop n a) n
         in case bn_sqr_recursive t0 n of
              None \<Rightarrow> None
            | Some t23 \<Rightarrow>
                (case bn_sqr_recursive a n of
                   None \<Rightarrow> None
                 | Some r01 \<Rightarrow>
                     (case bn_sqr_recursive (drop n a) n of
                        None \<Rightarrow> None
                      | Some r23 \<Rightarrow>
                          (let r = r01 @ r23;
                               (t01, c) = bn_add_words r01 r23 n2;
                               (t23, borrow) = bn_sub_words t01 t23 n2;
                               c = c - borrow;
                               (r12, carry) = bn_add_words (drop n r) t23 n2;
                               c = c + carry;
                               (r3, c) = add_carry_loop c (drop (n + n2) r)
                           in if c \<noteq> 0 then None else Some (take n r @ r12 @ r3))))))"
  by pat_completeness auto
termination
  by (relation "measure (\<lambda>(a, n2). n2)") auto

declare bn_sqr_recursive.simps [simp del]

text \<open>bn_sqr_consttime from the first bn_wexpand on; None where an assertion fails.\<close>

definition bn_sqr_into :: "mul_env \<Rightarrow> BIGNUM \<Rightarrow> BIGNUM \<Rightarrow> BIGNUM \<Rightarrow> (bool \<times> BIGNUM) option" where
  "bn_sqr_into env tmp rr a =
     (let al = bn_width a; size2 = 2 * al
      in case bn_wexpand (env_grow_rr env) rr size2 of
           (ok, rr) \<Rightarrow>
             if \<not> ok then Some (False, rr)
             else
               (let stored = (\<lambda>ws. (True, (put_words rr ws)\<lparr>bn_neg := False, bn_width := size2\<rparr>))
                in if al = 4 then Some (stored (bn_sqr_comba4 (take 4 (bn_d a))))
                   else if al = 8 then Some (stored (bn_sqr_comba8 (take 8 (bn_d a))))
                   else if al < 16 then Some (stored (bn_sqr_normal (bn_d a) al))
                   else if al AND (al - 1) = 0 then
                     (if \<not> fst (bn_wexpand (env_grow_t env) tmp (al * 4)) then Some (False, rr)
                      else map_option stored (bn_sqr_recursive (bn_d a) al))
                   else if \<not> fst (bn_wexpand (env_grow_t env) tmp size2) then Some (False, rr)
                   else Some (stored (bn_sqr_normal (bn_d a) al))))"

definition bn_sqr_consttime :: "mul_env \<Rightarrow> bool \<Rightarrow> BIGNUM \<Rightarrow> BIGNUM \<Rightarrow> (bool \<times> BIGNUM) option" where
  "bn_sqr_consttime env aliased r a =
     (if bn_width a = 0 then Some (True, r\<lparr>bn_width := 0, bn_neg := False\<rparr>)
      else
        (case (if aliased then env_rr env else Some r, env_t env) of
           (Some rr, Some tmp) \<Rightarrow>
             (case bn_sqr_into env tmp rr a of
                None \<Rightarrow> None
              | Some (ok, rr) \<Rightarrow>
                  Some (if \<not> aliased then (ok, rr)
                        else if \<not> ok then (False, r)
                        else BN_copy (env_copy env) r rr))
         | _ \<Rightarrow> Some (False, r)))"

definition BN_sqr :: "mul_env \<Rightarrow> bool \<Rightarrow> BIGNUM \<Rightarrow> BIGNUM \<Rightarrow> (bool \<times> BIGNUM) option" where
  "BN_sqr env aliased r a =
     map_option (\<lambda>(ok, r). if \<not> ok then (False, r) else (True, bn_set_minimal_width r)) (bn_sqr_consttime env aliased r a)"

text \<open>None where the code aborts; BN_SMALL_MAX_WORDS is 9.\<close>

definition bn_sqr_small :: "nat \<Rightarrow> u64 list \<Rightarrow> nat \<Rightarrow> u64 list option" where
  "bn_sqr_small num_r a num_a =
     (if num_r \<noteq> 2 * num_a \<or> 9 < num_a then None
      else if num_a = 4 then Some (bn_sqr_comba4 (take 4 a))
      else if num_a = 8 then Some (bn_sqr_comba8 (take 8 a))
      else Some (bn_sqr_normal a num_a))"

definition bn_abs_sub_consttime :: "mul_env \<Rightarrow> BIGNUM \<Rightarrow> BIGNUM \<Rightarrow> BIGNUM \<Rightarrow> bool \<times> BIGNUM" where
  "bn_abs_sub_consttime env r a b =
     (let cl = (if bn_width a < bn_width b then bn_width a else bn_width b);
          dl = int (bn_width a) - int (bn_width b);
          r_len = (if bn_width a < bn_width b then bn_width b else bn_width a)
      in case env_t env of
           None \<Rightarrow> (False, r)
         | Some tmp \<Rightarrow>
             (case bn_wexpand (env_grow_rr env) r r_len of
                (ok, r) \<Rightarrow>
                  if \<not> ok then (False, r)
                  else if \<not> fst (bn_wexpand (env_grow_t env) tmp r_len) then (False, r)
                  else (True, (put_words r (fst (bn_abs_sub_part_words (bn_d a) (bn_d b) cl dl)))\<lparr>bn_width := r_len\<rparr>)))"

subsection \<open>What the squares are\<close>

fun diagonal :: "u64 list \<Rightarrow> nat" where
  "diagonal [] = 0"
| "diagonal (a # as) = unat a * unat a + 2 ^ 128 * diagonal as"

fun cross :: "u64 list \<Rightarrow> nat" where
  "cross [] = 0"
| "cross (a # as) = unat a * wval as + 2 ^ 128 * cross as"

lemma square_eq: "wval as * wval as = diagonal as + 2 * (2 ^ 64 * cross as)"
proof (induction as)
  case (Cons a as)
  have "wval (a # as) * wval (a # as) =
      unat a * unat a + 2 * (2 ^ 64 * (unat a * wval as)) + 2 ^ 128 * (wval as * wval as)"
    by (simp add: algebra_simps)
  then show ?case unfolding Cons by (simp add: algebra_simps)
qed simp

lemma bn_sqr_words_eq:
  assumes "n \<le> length a"
  shows "length (bn_sqr_words a n) = 2 * n \<and> wval (bn_sqr_words a n) = diagonal (take n a)"
proof -
  have word: "length (sqr_word x) = 2 \<and> wval (sqr_word x) = unat x * unat x" for x
    using halves [of "ucast x * ucast x"] by (simp add: sqr_word_def Let_def double_mult_unat)
  have "length (concat (map sqr_word xs)) = 2 * length xs \<and> wval (concat (map sqr_word xs)) = diagonal xs" for xs
    by (induction xs) (simp_all add: word wval_append)
  then show ?thesis using assms by (simp add: bn_sqr_words_def min_absorb2)
qed

lemma two_words: "2 \<le> length w \<Longrightarrow> wval w = wval (take 2 w) + 2 ^ 128 * wval (drop 2 w)"
  using take_split_wval [of 2 "length w" w] by (simp add: power2_eq_square)

lemma two_words_append: "2 \<le> length w \<Longrightarrow> wval (take 2 w @ xs) = wval (take 2 w) + 2 ^ 128 * wval xs"
  by (simp add: wval_append min_absorb2 power2_eq_square del: take_append)

lemma two_words_length: "2 \<le> length w \<Longrightarrow> length (take 2 w @ xs) = 2 + length xs"
  by simp

lemma sqr_rows_eq:
  "Suc (length rp) = length as \<Longrightarrow>
   length (sqr_rows rp as) = 2 * length rp \<and> wval (sqr_rows rp as) = wval rp + cross as"
proof (induction rp as rule: sqr_rows.induct)
  case (1 rp a0 a1 as)
  obtain r c where rc: "bn_mul_add_words rp (a1 # as) (length (a1 # as)) a0 = (r, c)" by force
  have R: "length r = length rp" "wval r + limbs (length rp) * unat c = wval rp + wval (a1 # as) * unat a0"
    using bn_mul_add_words_eq [of "length (a1 # as)" rp "a1 # as" a0] 1(2) unfolding rc by simp_all
  let ?w = "r @ [c]"
  have w: "wval ?w = wval rp + wval (a1 # as) * unat a0" using R by (simp add: wval_append)
  have len: "2 \<le> length ?w" "Suc (length (drop 2 ?w)) = length (a1 # as)" using R(1) 1(2) by simp_all
  have ih: "length (sqr_rows (drop 2 ?w) (a1 # as)) = 2 * length (drop 2 ?w)"
    "wval (sqr_rows (drop 2 ?w) (a1 # as)) = wval (drop 2 ?w) + cross (a1 # as)"
    using 1(1) [OF rc [symmetric] len(2)] by simp_all
  have run: "sqr_rows rp (a0 # a1 # as) = take 2 ?w @ sqr_rows (drop 2 ?w) (a1 # as)" using rc by simp
  have "wval (sqr_rows rp (a0 # a1 # as)) = wval (take 2 ?w) + 2 ^ 128 * (wval (drop 2 ?w) + cross (a1 # as))"
    unfolding run two_words_append [OF len(1)] ih(2) ..
  also have "\<dots> = wval ?w + 2 ^ 128 * cross (a1 # as)" unfolding two_words [OF len(1)] by (simp add: algebra_simps)
  finally have "wval (sqr_rows rp (a0 # a1 # as)) = wval rp + cross (a0 # a1 # as)" unfolding w by (simp add: algebra_simps)
  moreover have "length (sqr_rows rp (a0 # a1 # as)) = 2 * length rp"
    unfolding run two_words_length [OF len(1)] ih(1) using len(2) 1(2) by simp
  ultimately show ?case by blast
qed simp_all

lemma bn_add_words_fits:
  assumes "length a = n" "length b = n" "wval a + wval b < limbs n"
  shows "length (fst (bn_add_words a b n)) = n \<and> wval (fst (bn_add_words a b n)) = wval a + wval b"
proof -
  obtain r c where rc: "bn_add_words a b n = (r, c)" by force
  have R: "length r = n" "wval r + limbs n * unat c = wval a + wval b"
    using bn_add_words_eq [of n a b] assms(1,2) unfolding rc by simp_all
  then have "limbs n * unat c < limbs n * 1" using assms(3) by linarith
  then have "unat c = 0" unfolding mult_less_cancel1 by simp
  with R rc show ?thesis by simp
qed

lemma bn_sqr_normal_eq:
  assumes "n \<le> length a"
  shows "product_words (bn_sqr_normal a n) (2 * n) (wval (take n a) * wval (take n a))"
proof (cases "n = 0")
  case False
  obtain a0 as where a: "take n a = a0 # as" "length as = n - 1" using assms False by (cases a) (auto simp: take_Cons' min_absorb2)
  have a': "a ! 0 = a0" "take (n - 1) (drop 1 a) = as" "drop 1 (take n a) = as"
    using a(1) False by (cases a; simp add: take_Cons' split: if_splits)+
  define rows where "rows = (if 1 < n
      then (case bn_mul_words (drop 1 a) (n - 1) (a ! 0) of
              (r, c) \<Rightarrow> take 2 (r @ [c]) @ sqr_rows (drop 2 (r @ [c])) (drop 1 (take n a)))
      else [])"
  have rows: "length rows = 2 * (n - 1) \<and> wval rows = cross (take n a)"
  proof (cases "1 < n")
    case True
    obtain r c where rc: "bn_mul_words (drop 1 a) (n - 1) (a ! 0) = (r, c)" by force
    have R: "length r = n - 1" "wval r + limbs (n - 1) * unat c = wval as * unat a0"
      using bn_mul_words_eq [of "n - 1" "drop 1 a" "a ! 0"] assms a' unfolding rc by simp_all
    let ?w = "r @ [c]"
    have w: "wval ?w = unat a0 * wval as" using R by (simp add: wval_append)
    have len: "2 \<le> length ?w" "Suc (length (drop 2 ?w)) = length as" using R(1) True a(2) by simp_all
    have run: "rows = take 2 ?w @ sqr_rows (drop 2 ?w) as" using True rc a'(3) by (simp add: rows_def)
    have "wval rows = wval (take 2 ?w) + 2 ^ 128 * (wval (drop 2 ?w) + cross as)"
      unfolding run two_words_append [OF len(1)] using sqr_rows_eq [OF len(2)] by (simp only:)
    also have "\<dots> = wval ?w + 2 ^ 128 * cross as" unfolding two_words [OF len(1)] by (simp add: algebra_simps)
    finally have "wval rows = cross (take n a)" unfolding w by (simp add: a(1))
    moreover have "length rows = 2 * (n - 1)"
      unfolding run two_words_length [OF len(1)] sqr_rows_eq [OF len(2), THEN conjunct1] using len(2) a(2) by linarith
    ultimately show ?thesis by blast
  next
    case no: False
    then have "as = []" using a(2) by simp
    with no a(1) show ?thesis by (simp add: rows_def)
  qed
  let ?r = "0 # rows @ [0]" and ?v = "wval (take n a) * wval (take n a)"
  have r: "length ?r = n * 2" "wval ?r = 2 ^ 64 * cross (take n a)" using rows False by (auto simp: wval_append)
  have lt: "?v < limbs (n * 2)" using product_lt [of "take n a" n "take n a" n] assms by (simp add: min_absorb2 mult_2_right)
  note sq = square_eq [of "take n a"]
  have twice: "length (fst (bn_add_words ?r ?r (n * 2))) = n * 2 \<and>
      wval (fst (bn_add_words ?r ?r (n * 2))) = 2 * (2 ^ 64 * cross (take n a))"
    using bn_add_words_fits [OF r(1) r(1)] r(2) lt sq by simp
  have sqr: "length (bn_sqr_words a n) = n * 2" "wval (bn_sqr_words a n) = diagonal (take n a)"
    using bn_sqr_words_eq [OF assms] by simp_all
  have "bn_sqr_normal a n = fst (bn_add_words (fst (bn_add_words ?r ?r (n * 2))) (bn_sqr_words a n) (n * 2))"
    using False by (simp add: bn_sqr_normal_def Let_def rows_def)
  moreover have "length \<dots> = n * 2 \<and> wval \<dots> = ?v"
    using bn_add_words_fits [of "fst (bn_add_words ?r ?r (n * 2))" "n * 2" "bn_sqr_words a n"] twice sqr lt sq by simp
  ultimately show ?thesis by (simp add: product_words_def)
qed (simp add: bn_sqr_normal_def product_words_def)

lemma dist_square: "2 * (x * y) + dist x y * dist x y = x * x + y * y"
proof -
  have "(\<exists>d. y = x + d \<and> dist x y = d) \<or> (\<exists>d. x = y + d \<and> dist x y = d)"
    by (cases "x < y") (auto simp: dist_def intro: exI [of _ "y - x"] exI [of _ "x - y"])
  then show ?thesis by (elim disjE exE conjE) (simp_all add: algebra_simps)
qed

lemma bn_sqr_recursive_eq:
  assumes "power_of_two n2" "n2 \<le> length a"
  shows "\<exists>r. bn_sqr_recursive a n2 = Some r \<and> product_words r (2 * n2) (wval (take n2 a) * wval (take n2 a))"
  using assms
proof (induction n2 arbitrary: a rule: less_induct)
  case (less n2)
  consider (comba4) "n2 = 4" | (comba8) "n2 = 8" | (normal) "n2 \<noteq> 4" "n2 \<noteq> 8" "n2 < 16" | (split) "16 \<le> n2" by linarith
  then show ?case
  proof cases
    case comba4
    with less.prems bn_sqr_comba4_eq [of "take 4 a"] show ?thesis
      by (subst bn_sqr_recursive.simps) (simp add: product_words_def min_absorb2)
  next
    case comba8
    with less.prems bn_sqr_comba8_eq [of "take 8 a"] show ?thesis
      by (subst bn_sqr_recursive.simps) (simp add: product_words_def min_absorb2)
  next
    case normal
    with less.prems bn_sqr_normal_eq show ?thesis by (subst bn_sqr_recursive.simps) simp
  next
    case split
    define n where "n = n2 div 2"
    have n: "power_of_two n" "2 * n = n2" "n < n2" using power_of_two_half [OF less.prems(1)] split by (auto simp: n_def)
    let ?a0 = "wval (take n a)" and ?a1 = "wval (take n (drop n a))"
    have len: "n \<le> length a" "n \<le> length (drop n a)" using less.prems(2) n(2) by simp_all
    have abs: "bn_abs_sub_words a (drop n a) n = bn_abs_sub_words (take n a) (take n (drop n a)) n"
      by (simp add: bn_abs_sub_words_def bn_sub_words_def)
    define t0 where "t0 = bn_abs_sub_words a (drop n a) n"
    have t0: "length t0 = n" "wval t0 = dist ?a0 ?a1"
      using bn_abs_sub_words_eq [of "take n a" n "take n (drop n a)"] len unfolding t0_def abs by (simp_all add: min_absorb2)
    obtain t23 where T: "bn_sqr_recursive t0 n = Some t23" "product_words t23 (2 * n) (dist ?a0 ?a1 * dist ?a0 ?a1)"
      using less.IH [of n t0] n t0 by auto
    obtain r01 where R0: "bn_sqr_recursive a n = Some r01" "product_words r01 (2 * n) (?a0 * ?a0)"
      using less.IH [of n a] n len by auto
    obtain r23 where R1: "bn_sqr_recursive (drop n a) n = Some r23" "product_words r23 (2 * n) (?a1 * ?a1)"
      using less.IH [of n "drop n a"] n len by blast
    have run: "bn_sqr_recursive a n2 = karatsuba_join n (truth True) r01 r23 t23"
    proof -
      obtain x cx where x: "bn_add_words r01 r23 n2 = (x, cx)" by force
      obtain y cy where y: "bn_sub_words x t23 n2 = (y, cy)" by force
      obtain z cz where z: "bn_add_words x t23 n2 = (z, cz)" by force
      have "length x = n2" "length y = n2" "length z = n2"
        using bn_add_words_eq [of n2 r01 r23] bn_sub_words_eq [of n2 x t23] bn_add_words_eq [of n2 x t23] x y z
          R0(2) R1(2) T(2) n(2) by (auto simp: product_words_def)
      then have sel: "bn_select_words (truth True) y z n2 = y" using bn_select_words_truth [of y n2 z True] by simp
      have pick: "constant_time_select_w (truth True) p q = p" for p q by (simp only: select_w_truth if_True)
      have "\<not> (n2 = 4)" "\<not> n2 = 8" "\<not> n2 < 16" using split by simp_all
      then show ?thesis
        using less.prems(1) T(1) R0(1) R1(1)
        by (subst bn_sqr_recursive.simps)
          (simp add: Let_def n_def [symmetric] t0_def [symmetric] karatsuba_join_def n(2) x y z sel pick del: truth_simps)
    qed
    have lt: "?a0 < limbs n" "?a1 < limbs n" using wval_take_lt len by blast+
    have "n2 - n = n" "n \<le> n2" using n(2) by simp_all
    then have whole: "wval (take n2 a) = ?a0 + limbs n * ?a1"
      using take_split_wval [of n n2 a] less.prems(2) by (simp add: drop_take)
    have middle: "if True then ?a0 * ?a1 + ?a1 * ?a0 + wval t23 = ?a0 * ?a0 + ?a1 * ?a1
        else ?a0 * ?a1 + ?a1 * ?a0 = ?a0 * ?a0 + ?a1 * ?a1 + wval t23"
      using dist_square [of ?a0 ?a1] T(2) by (simp add: product_words_def mult.commute)
    obtain r where "karatsuba_join n (truth True) r01 r23 t23 = Some r" "length r = 4 * n"
        "wval r = (?a0 + limbs n * ?a1) * (?a0 + limbs n * ?a1)"
      using karatsuba_join_eq [OF _ _ _ _ _ refl middle lt lt] R0(2) R1(2) T(2) unfolding product_words_def by blast
    then show ?thesis unfolding run whole product_words_def using n(2) by simp
  qed
qed

lemma bn_sqr_into_eq:
  assumes wf: "wf_bn rr" "wf_bn a" and t: "env_t env = Some tmp"
  shows "\<exists>ok r'. bn_sqr_into env tmp rr a = Some (ok, r') \<and> wf_bn r' \<and>
    (ok \<longrightarrow> bn_nat r' = bn_nat a * bn_nat a \<and> \<not> bn_neg r' \<and> bn_width r' = 2 * bn_width a) \<and>
    (mul_room env False rr (8 * bn_width a) \<longrightarrow> ok)"
proof -
  define al where "al = bn_width a"
  have words: "take al (bn_d a) = bn_words a" "al \<le> length (bn_d a)" using wf(2) by (simp_all add: bn_words_def al_def wf_bn_def)
  have lt: "bn_nat a * bn_nat a < limbs (2 * al)" using bn_product_lt [OF wf(2,2)] by (simp add: al_def mult_2)
  obtain ok r1 where g: "bn_wexpand (env_grow_rr env) rr (2 * al) = (ok, r1)" by force
  define stored where "stored = (\<lambda>ws. (True, (put_words r1 ws)\<lparr>bn_neg := False, bn_width := 2 * al\<rparr>))"
  have store: "wf_bn r1 \<and> (ok \<longleftrightarrow> room (env_grow_rr env) rr (2 * al))"
    using bn_wexpand_eq [OF wf(1) g] bn_wexpand_ok [OF g] by simp
  have good: "\<exists>x. stored ws = (True, x) \<and> wf_bn x \<and> bn_nat x = bn_nat a * bn_nat a \<and> \<not> bn_neg x \<and> bn_width x = 2 * al"
    if ok "product_words ws (2 * al) (bn_nat a * bn_nat a)" for ws
    using stored_product [OF wf(1) g that(2) _ lt] that(1) unfolding stored_def
    by (auto simp: wf_bn_def bn_nat_def bn_words_def put_words_def)
  have tok: "fst (bn_wexpand (env_grow_t env) tmp m) \<longleftrightarrow> room (env_grow_t env) tmp m" for m
    using bn_wexpand_ok [of "env_grow_t env" tmp m] by (cases "bn_wexpand (env_grow_t env) tmp m") simp
  have rooms: "room (env_grow_rr env) rr (2 * al)" "room (env_grow_t env) tmp (al * 4)" "room (env_grow_t env) tmp (2 * al)"
    if "mul_room env False rr (8 * al)"
  proof -
    have "room (env_grow_rr env) rr (8 * al)" "room (env_grow_t env) tmp (8 * al)" using that t by (simp_all add: mul_room_def)
    then show "room (env_grow_rr env) rr (2 * al)" "room (env_grow_t env) tmp (al * 4)" "room (env_grow_t env) tmp (2 * al)"
      by (auto elim!: room_mono)
  qed
  have run: "bn_sqr_into env tmp rr a =
      (if \<not> ok then Some (False, r1)
       else if al = 4 then Some (stored (bn_sqr_comba4 (take 4 (bn_d a))))
       else if al = 8 then Some (stored (bn_sqr_comba8 (take 8 (bn_d a))))
       else if al < 16 then Some (stored (bn_sqr_normal (bn_d a) al))
       else if al AND (al - 1) = 0 then
         (if \<not> room (env_grow_t env) tmp (al * 4) then Some (False, r1)
          else map_option stored (bn_sqr_recursive (bn_d a) al))
       else if \<not> room (env_grow_t env) tmp (2 * al) then Some (False, r1)
       else Some (stored (bn_sqr_normal (bn_d a) al)))"
    unfolding bn_sqr_into_def al_def [symmetric] Let_def g prod.case tok stored_def ..
  have normal: "product_words (bn_sqr_normal (bn_d a) al) (2 * al) (bn_nat a * bn_nat a)"
    using bn_sqr_normal_eq [OF words(2)] by (simp add: words(1) bn_nat_def)
  have comba4: "product_words (bn_sqr_comba4 (take 4 (bn_d a))) (2 * al) (bn_nat a * bn_nat a)" if "al = 4"
    using bn_sqr_comba4_eq [of "take 4 (bn_d a)"] words that by (simp add: product_words_def bn_nat_def min_absorb2)
  have comba8: "product_words (bn_sqr_comba8 (take 8 (bn_d a))) (2 * al) (bn_nat a * bn_nat a)" if "al = 8"
    using bn_sqr_comba8_eq [of "take 8 (bn_d a)"] words that by (simp add: product_words_def bn_nat_def min_absorb2)
  have rec_product: "\<exists>r. bn_sqr_recursive (bn_d a) al = Some r \<and> product_words r (2 * al) (bn_nat a * bn_nat a)"
    if "16 \<le> al" "al AND (al - 1) = 0"
    using bn_sqr_recursive_eq [of al "bn_d a"] that words by (simp add: power_of_two_def bn_nat_def)
  let ?goal = "\<exists>ok r'. bn_sqr_into env tmp rr a = Some (ok, r') \<and> wf_bn r' \<and>
        (ok \<longrightarrow> bn_nat r' = bn_nat a * bn_nat a \<and> \<not> bn_neg r' \<and> bn_width r' = 2 * al) \<and> (mul_room env False rr (8 * al) \<longrightarrow> ok)"
  consider (fail) "\<not> ok" | (four) ok "al = 4" | (eight) ok "al = 8" | (low) ok "al \<noteq> 4" "al \<noteq> 8" "al < 16"
    | (rec) ok "16 \<le> al" "al AND (al - 1) = 0" | (high) ok "16 \<le> al" "al AND (al - 1) \<noteq> 0" by linarith
  then have ?goal
  proof cases
    case fail
    then show ?goal
      using run store rooms(1) by (intro exI [of _ False] exI [of _ r1]) auto
  next
    case four
    with run good [OF _ comba4] show ?goal
      by auto
  next
    case eight
    with run good [OF _ comba8] show ?goal
      by auto
  next
    case low
    with run good [OF _ normal] show ?goal
      by auto
  next
    case rec
    obtain r where r: "bn_sqr_recursive (bn_d a) al = Some r" "product_words r (2 * al) (bn_nat a * bn_nat a)"
      using rec_product [OF rec(2,3)] by blast
    show ?goal using run rec good [OF rec(1) r(2)] r(1) rooms(2) store
      by (cases "room (env_grow_t env) tmp (al * 4)") auto
  next
    case high
    with run good [OF _ normal] rooms(3) store show ?goal
      by (cases "room (env_grow_t env) tmp (2 * al)") auto
  qed
  then show ?thesis by (simp only: al_def)
qed

lemma bn_sqr_consttime_eq:
  assumes wf: "wf_bn r" "wf_bn a" and ctx: "env_ok env"
  shows "\<exists>ok r'. bn_sqr_consttime env aliased r a = Some (ok, r') \<and> wf_bn r' \<and>
    (ok \<longrightarrow> bn_int r' = bn_int a * bn_int a) \<and>
    (mul_room env aliased r (8 * bn_width a) \<longrightarrow> ok)"
proof (cases "bn_width a = 0")
  case True
  then have "bn_int a = 0" by (simp add: bn_int_def bn_nat_def bn_words_def)
  with True wf(1) show ?thesis
    by (simp add: bn_sqr_consttime_def wf_bn_def bn_int_def bn_nat_def bn_words_def)
next
  case False
  show ?thesis
  proof (cases "(if aliased then env_rr env else Some r) = None \<or> env_t env = None")
    case True
    define target where "target = (if aliased then env_rr env else Some r)"
    have "bn_sqr_consttime env aliased r a = Some (False, r)"
      using True False unfolding bn_sqr_consttime_def target_def [symmetric]
      by (cases target; cases "env_t env") simp_all
    moreover have "\<not> mul_room env aliased r (8 * bn_width a)" using True by (auto simp: mul_room_def split: if_splits)
    ultimately show ?thesis using wf(1) by (intro exI [of _ False] exI [of _ r]) simp
  next
    case there: False
    then obtain rr tmp where rr: "(if aliased then env_rr env else Some r) = Some rr" and tmp: "env_t env = Some tmp"
      by (metis not_None_eq)
    have wrr: "wf_bn rr" using rr wf(1) ctx by (auto simp: env_ok_def split: if_splits)
    obtain ok r1 where into: "bn_sqr_into env tmp rr a = Some (ok, r1)" "wf_bn r1"
      "ok \<longrightarrow> bn_nat r1 = bn_nat a * bn_nat a \<and> \<not> bn_neg r1 \<and> bn_width r1 = 2 * bn_width a"
      "mul_room env False rr (8 * bn_width a) \<longrightarrow> ok"
      using bn_sqr_into_eq [OF wrr wf(2) tmp] by blast
    have square: "bn_int x = bn_int a * bn_int a" if "bn_nat x = bn_nat a * bn_nat a" "\<not> bn_neg x" for x
      using that by (simp add: bn_int_def)
    have run: "bn_sqr_consttime env aliased r a =
        Some (if \<not> aliased then (ok, r1) else if \<not> ok then (False, r) else BN_copy (env_copy env) r r1)"
      using False rr tmp into(1) by (simp only: bn_sqr_consttime_def if_False option.case prod.case)
    show ?thesis
    proof (cases "aliased \<and> ok")
      case True
      obtain ok' r' where copy: "BN_copy (env_copy env) r r1 = (ok', r')" by force
      note copied = BN_copy_eq [OF wf(1) into(2) copy]
      have "ok' \<longleftrightarrow> room (env_copy env) r (bn_width r1)"
        using copy bn_wexpand_ok by (auto simp: BN_copy_def split: prod.splits if_splits)
      moreover have "bn_width r1 \<le> 8 * bn_width a" using into(3) True by simp
      ultimately have "mul_room env aliased r (8 * bn_width a) \<longrightarrow> ok'"
        using True room_mono [of "env_copy env" r "8 * bn_width a" "bn_width r1"] by (simp add: mul_room_def)
      moreover have "ok' \<longrightarrow> bn_int r' = bn_int a * bn_int a" using copied into(3) True square [of r'] by (auto simp: bn_nat_def)
      ultimately show ?thesis using run True copy copied by simp
    next
      case no: False
      show ?thesis
      proof (cases aliased)
        case True
        then have "mul_room env aliased r (8 * bn_width a) \<longrightarrow> ok" using into(4) rr by (auto simp: mul_room_def)
        then show ?thesis using run True no wf(1) by (intro exI [of _ False] exI [of _ r]) simp
      next
        case False
        then have "mul_room env aliased r (8 * bn_width a) \<longrightarrow> ok" using into(4) rr by simp
        then show ?thesis using run False into(2,3) square by (intro exI [of _ ok] exI [of _ r1]) auto
      qed
    qed
  qed
qed

lemma BN_sqr_eq:
  assumes "wf_bn r" "wf_bn a" "env_ok env"
  shows "\<exists>ok r'. BN_sqr env aliased r a = Some (ok, r') \<and> wf_bn r' \<and>
    (ok \<longrightarrow> canonical r' \<and> bn_int r' = bn_int a * bn_int a) \<and>
    (mul_room env aliased r (8 * bn_width a) \<longrightarrow> ok)"
proof -
  obtain ok r1 where impl: "bn_sqr_consttime env aliased r a = Some (ok, r1)" "wf_bn r1"
    "ok \<longrightarrow> bn_int r1 = bn_int a * bn_int a" "mul_room env aliased r (8 * bn_width a) \<longrightarrow> ok"
    using bn_sqr_consttime_eq [OF assms] by blast
  have "wf_bn (bn_set_minimal_width r1)" using bn_set_minimal_width_eq [OF impl(2)] by (simp add: canonical_def)
  with impl bn_set_minimal_width_eq [OF impl(2)] show ?thesis by (cases ok) (simp_all add: BN_sqr_def)
qed

lemma bn_sqr_small_eq:
  assumes "num_a \<le> length a" "num_a \<le> 9"
  shows "\<exists>r. bn_sqr_small (2 * num_a) a num_a = Some r \<and> product_words r (2 * num_a) (wval (take num_a a) * wval (take num_a a))"
  using assms bn_sqr_normal_eq [OF assms(1)] bn_sqr_comba4_eq [of "take 4 a"] bn_sqr_comba8_eq [of "take 8 a"]
  by (auto simp: bn_sqr_small_def product_words_def min_absorb2)

text \<open>The absolute value of a difference; the sign of r stays what it was.\<close>

lemma bn_abs_sub_consttime_eq:
  assumes wf: "wf_bn r" "wf_bn a" "wf_bn b" and run: "bn_abs_sub_consttime env r a b = (ok, r')"
  shows "wf_bn r' \<and> (ok \<longrightarrow> bn_nat r' = dist (bn_nat a) (bn_nat b)) \<and>
    (mul_room env False r (max (bn_width a) (bn_width b)) \<longrightarrow> ok)"
proof -
  let ?cl = "if bn_width a < bn_width b then bn_width a else bn_width b"
  let ?dl = "int (bn_width a) - int (bn_width b)"
  let ?len = "if bn_width a < bn_width b then bn_width b else bn_width a"
  have n: "?cl + nat ?dl = bn_width a" "?cl + nat (- ?dl) = bn_width b" "?cl + nat \<bar>?dl\<bar> = ?len" "?len = max (bn_width a) (bn_width b)"
    by auto
  obtain ws where ws: "fst (bn_abs_sub_part_words (bn_d a) (bn_d b) ?cl ?dl) = ws" "length ws = ?len"
      "wval ws = dist (bn_nat a) (bn_nat b)"
  proof -
    have len: "length (bn_words a) = ?cl + nat ?dl" "length (bn_words b) = ?cl + nat (- ?dl)"
      using length_bn_words wf(2,3) n by simp_all
    show ?thesis
      using bn_abs_sub_part_words_eq [OF len] that
        bn_abs_sub_part_words_take [of "bn_d a" "bn_d b" ?cl ?dl]
      unfolding n(1-3) bn_words_def [symmetric] bn_nat_def by auto
  qed
  show ?thesis
  proof (cases "env_t env")
    case None
    then show ?thesis using run wf(1) by (auto simp: bn_abs_sub_consttime_def Let_def mul_room_def)
  next
    case (Some tmp)
    obtain ok1 r1 where g: "bn_wexpand (env_grow_rr env) r ?len = (ok1, r1)" by force
    note grown = bn_wexpand_eq [OF wf(1) g] and ok1 = bn_wexpand_ok [OF g]
    have tok: "fst (bn_wexpand (env_grow_t env) tmp m) \<longleftrightarrow> room (env_grow_t env) tmp m" for m
      using bn_wexpand_ok [of "env_grow_t env" tmp m] by (cases "bn_wexpand (env_grow_t env) tmp m") simp
    have "(ok, r') = (if \<not> ok1 then (False, r1) else if \<not> room (env_grow_t env) tmp ?len then (False, r1)
        else (True, (put_words r1 ws)\<lparr>bn_width := ?len\<rparr>))"
      unfolding run [symmetric] bn_abs_sub_consttime_def Let_def Some option.case g prod.case tok ws(1) ..
    moreover have "ok1 \<Longrightarrow> ?len \<le> bn_dmax r1" using grown by simp
    ultimately show ?thesis using set_words_eq [OF _ ws(2), of r1] ws(3) grown ok1 Some unfolding n(4) [symmetric]
      by (auto simp: mul_room_def split: if_splits)
  qed
qed

end
