(* ===== verification/Bn_Bytes.thy ===== *)
theory Bn_Bytes
  imports Bn
begin

text \<open>
  BIGNUMs and bytes: crypto/fipsmodule/bn/bytes.c. Where the code treats the array of words as memory,
  the model takes the bytes of the words in the order of a little-endian machine, as the code demands.
\<close>

unbundle bit_operations_syntax

subsection \<open>bytes.c\<close>

text \<open>The loop of BN_bin2bn over the bytes: \<open>d\<close> is the array.\<close>

fun bin2bn_loop :: "bytes \<Rightarrow> u64 \<Rightarrow> nat \<Rightarrow> nat \<Rightarrow> u64 list \<Rightarrow> u64 list" where
  "bin2bn_loop [] word m num_words d = d"
| "bin2bn_loop (b # inp) word m num_words d =
     (let word = push_bit 8 word OR ucast b
      in if m = 0 then bin2bn_loop inp 0 7 (num_words - 1) (d[num_words - 1 := word])
         else bin2bn_loop inp word (m - 1) num_words d)"

text \<open>The number that is returned, None for NULL; a number that is passed in and cannot grow stays as it is.\<close>

definition BN_bin2bn :: "bool \<Rightarrow> word_alloc \<Rightarrow> bytes \<Rightarrow> BIGNUM option \<Rightarrow> BIGNUM option" where
  "BN_bin2bn served al inp ret =
     (case (case ret of None \<Rightarrow> BN_new served | Some ret \<Rightarrow> Some ret) of
        None \<Rightarrow> None
      | Some ret \<Rightarrow>
          let len = length inp
          in if len = 0 then Some (ret\<lparr>bn_width := 0\<rparr>)
             else
               (let num_words = (len - 1) div 8 + 1;
                    m = (len - 1) mod 8
                in case bn_wexpand al ret num_words of
                     (ok, ret) \<Rightarrow>
                       if \<not> ok then None
                       else
                         (let ret = ret\<lparr>bn_width := num_words, bn_neg := False\<rparr>
                          in Some (ret\<lparr>bn_d := bin2bn_loop inp 0 m num_words (bn_d ret)\<rparr>))))"

definition array_bytes :: "u64 list \<Rightarrow> bytes" where
  "array_bytes ws = concat (map (\<lambda>w. le_bytes 8 (unat w)) ws)"

fun array_words :: "bytes \<Rightarrow> u64 list" where
  "array_words [] = []"
| "array_words (b # bs) = le_word (take 8 (b # bs)) # array_words (drop 7 bs)"

definition BN_le2bn :: "bool \<Rightarrow> word_alloc \<Rightarrow> bytes \<Rightarrow> BIGNUM option \<Rightarrow> BIGNUM option" where
  "BN_le2bn served al inp ret =
     (case (case ret of None \<Rightarrow> BN_new served | Some ret \<Rightarrow> Some ret) of
        None \<Rightarrow> None
      | Some ret \<Rightarrow>
          let len = length inp
          in if len = 0 then Some (ret\<lparr>bn_width := 0, bn_neg := False\<rparr>)
             else
               (let num_words = (len - 1) div 8 + 1
                in case bn_wexpand al ret num_words of
                     (ok, ret) \<Rightarrow>
                       if \<not> ok then None
                       else
                         (let ret = ret\<lparr>bn_width := num_words\<rparr>;
                              d = (bn_d ret)[num_words - 1 := 0]
                          in Some (ret\<lparr>bn_d := array_words (inp @ drop len (array_bytes d))\<rparr>))))"

definition BN_bn2bin :: "BIGNUM \<Rightarrow> bytes" where
  "BN_bn2bin bn =
     map (\<lambda>i. ucast (drop_bit (8 * (i mod 8)) (bn_d bn ! (i div 8))) AND 0xFF) (rev [0..<BN_num_bytes bn])"

definition fits_in_bytes :: "bytes \<Rightarrow> nat \<Rightarrow> nat \<Rightarrow> bool" where
  "fits_in_bytes bs num_bytes len = (foldl (OR) 0 (drop len (take num_bytes bs)) = 0)"

definition BN_bn2le_padded :: "nat \<Rightarrow> BIGNUM \<Rightarrow> bytes option" where
  "BN_bn2le_padded len bn =
     (let bs = array_bytes (bn_d bn);
          num_bytes = bn_width bn * 8
      in if len < num_bytes \<and> \<not> fits_in_bytes bs num_bytes len then None
         else
           (let num_bytes = (if len < num_bytes then len else num_bytes)
            in Some (take num_bytes bs @ replicate (len - num_bytes) 0)))"

definition BN_bn2bin_padded :: "nat \<Rightarrow> BIGNUM \<Rightarrow> bytes option" where
  "BN_bn2bin_padded len bn =
     (let bs = array_bytes (bn_d bn);
          num_bytes = bn_width bn * 8
      in if len < num_bytes \<and> \<not> fits_in_bytes bs num_bytes len then None
         else
           (let num_bytes = (if len < num_bytes then len else num_bytes)
            in Some (replicate (len - num_bytes) 0 @ rev (take num_bytes bs))))"

definition BN_get_word :: "BIGNUM \<Rightarrow> u64" where
  "BN_get_word bn =
     (let width = bn_minimal_width bn
      in if width = 0 then 0 else if width = 1 then bn_d bn ! 0 else - 1)"

definition BN_get_u64 :: "BIGNUM \<Rightarrow> u64 option" where
  "BN_get_u64 bn =
     (let width = bn_minimal_width bn
      in if width = 0 then Some 0 else if width = 1 then Some (bn_d bn ! 0) else None)"

subsection \<open>Bytes and numbers\<close>

lemma limbs_bytes: "limbs n = 256 ^ (8 * n)"
  by (simp add: power_mult)

lemma le_nat_word_bytes: "le_nat (le_bytes 8 (unat (w :: u64))) = unat w"
  by (simp add: mod_less)

lemma le_nat_zeros: "le_nat (replicate n 0) = 0"
  by (induction n) simp_all

lemma le_bytes_zero: "le_bytes n 0 = replicate n 0"
  by (induction n) simp_all

lemma length_array_bytes [simp]: "length (array_bytes ws) = 8 * length ws"
  by (induction ws) (simp_all add: array_bytes_def)

lemma array_bytes_simps [simp]:
  "array_bytes [] = []" "array_bytes (w # ws) = le_bytes 8 (unat w) @ array_bytes ws"
  "array_bytes (xs @ ys) = array_bytes xs @ array_bytes ys"
  by (simp_all add: array_bytes_def)

lemma le_nat_array_bytes: "le_nat (array_bytes ws) = wval ws"
  by (induction ws) (simp_all add: le_nat_append)

lemma take_array_bytes: "take (8 * n) (array_bytes ws) = array_bytes (take n ws)"
proof (induction ws arbitrary: n)
  case (Cons w ws)
  then show ?case by (cases n) simp_all
qed simp

lemma array_words_eq:
  "length bs = 8 * n \<Longrightarrow> length (array_words bs) = n \<and> array_bytes (array_words bs) = bs"
proof (induction n arbitrary: bs)
  case (Suc n)
  then obtain b bs' where bs: "bs = b # bs'" by (cases bs) simp_all
  have "length (drop 8 bs) = 8 * n" using Suc.prems by simp
  from Suc.IH [OF this] have ih: "length (array_words (drop 8 bs)) = n" "array_bytes (array_words (drop 8 bs)) = drop 8 bs"
    by simp_all
  have words: "array_words bs = le_word (take 8 bs) # array_words (drop 8 bs)" by (simp add: bs)
  have len: "length (take 8 bs) = 8" using Suc.prems by simp
  have "unat (le_word (take 8 bs) :: u64) = le_nat (take 8 bs)"
    using le_nat_lt [of "take 8 bs"] unfolding len le_word_le_nat by (simp add: unat_of_nat take_bit_nat_eq_self)
  moreover have "le_bytes 8 (le_nat (take 8 bs)) = take 8 bs" using le_bytes_le_nat [of "take 8 bs"] unfolding len .
  ultimately have "le_bytes 8 (unat (le_word (take 8 bs) :: u64)) = take 8 bs" by simp
  then show ?case unfolding words using ih by simp
qed simp

lemma array_words_wval: "length bs = 8 * n \<Longrightarrow> wval (array_words bs) = le_nat bs"
  using array_words_eq [of bs n] le_nat_array_bytes [of "array_words bs"] by simp

subsection \<open>Reading\<close>

lemma bin2bn_step:
  "unat (word :: u64) < 256 ^ k \<Longrightarrow> k < 8 \<Longrightarrow>
   unat (push_bit 8 word OR ucast b) = unat word * 256 + unat (b :: u8) \<and> unat word * 256 + unat b < 256 ^ (k + 1)"
proof -
  assume word: "unat word < 256 ^ k" and k: "k < 8"
  have b: "unat b < 256" by simp
  have "(256 :: nat) ^ k \<le> 256 ^ 7" using k by (intro power_increasing) simp_all
  then have small: "unat word < 2 ^ 56" using word by simp
  have "unat (push_bit 8 word) = unat word * 256"
    using small by (simp add: unat_push_bit mod_less)
  moreover have "unat (ucast b :: u64) = unat b" by (simp add: unat_ucast_word mod_less less_trans [OF b])
  moreover have "push_bit 8 word OR ucast b = push_bit 8 word + (ucast b :: u64)"
  proof -
    have "push_bit 8 word AND (ucast b :: u64) = 0"
      by (rule bit_word_eqI) (auto simp: bit_simps dest: bit_imp_le_length)
    then show ?thesis by (simp add: disjunctive_add_eq_or)
  qed
  moreover have "unat word * 256 + unat b < 2 ^ 64"
    using small b by (simp del: unat_u8_lt unat_u64_lt unat_lt_2p)
  ultimately have "unat (push_bit 8 word OR ucast b) = unat word * 256 + unat b"
    by (simp add: unat_word_ariths mod_less)
  moreover have "x * 256 + y < 256 * p" if "x < p" "y < 256" for x y p :: nat
    using that by linarith
  then have "unat word * 256 + unat b < 256 * 256 ^ k" using word b .
  ultimately show ?thesis by simp
qed

lemma bin2bn_loop_eq:
  assumes "if inp = [] then num = 0 \<and> word = 0 else 0 < num \<and> length inp = 8 * (num - 1) + m + 1"
    "m \<le> 7" "num \<le> length d" "unat word < 256 ^ (7 - m)"
  shows "length (bin2bn_loop inp word m num d) = length d \<and>
    drop num (bin2bn_loop inp word m num d) = drop num d \<and>
    wval (take num (bin2bn_loop inp word m num d)) = unat word * 256 ^ length inp + be_nat inp"
  using assms
proof (induction inp word m num d rule: bin2bn_loop.induct)
  case (2 b inp word m num d)
  let ?w = "push_bit 8 word OR ucast b :: u64"
  have num: "0 < num" "length inp = 8 * (num - 1) + m" using 2(3) by simp_all
  have w: "unat ?w = unat word * 256 + unat b" "unat ?w < 256 ^ (7 - m + 1)"
    using bin2bn_step [OF 2(6), of b] by auto
  show ?case
  proof (cases "m = 0")
    case True
    let ?d = "d[num - 1 := ?w]"
    let ?r = "bin2bn_loop inp 0 7 (num - 1) ?d"
    have "if inp = [] then num - 1 = 0 \<and> (0 :: u64) = 0 else 0 < num - 1 \<and> length inp = 8 * (num - 1 - 1) + 7 + 1"
      using num True by (cases "num - 1") auto
    then have ih: "length ?r = length ?d" "drop (num - 1) ?r = drop (num - 1) ?d"
      "wval (take (num - 1) ?r) = be_nat inp"
      using 2(1) [OF refl True] 2(5) by simp_all
    have lt: "num - 1 < length d" using num(1) 2(5) by simp
    have "?r ! (num - 1) = drop (num - 1) ?r ! 0" using ih(1) lt by simp
    also have "\<dots> = ?w" unfolding ih(2) using lt by simp
    finally have top: "?r ! (num - 1) = ?w" .
    have "take num ?r = take (num - 1) ?r @ [?w]"
      using take_Suc_conv_app_nth [of "num - 1" ?r] ih(1) lt num(1) top by simp
    then have "wval (take num ?r) = be_nat inp + limbs (num - 1) * unat ?w"
      using ih(1,3) lt by (simp add: wval_append min_absorb2)
    moreover have "limbs (num - 1) = 256 ^ length inp" using num(2) True by (simp only: limbs_bytes add_0_right)
    moreover have "drop num ?r = drop num d"
    proof -
      have "drop num ?r = drop 1 (drop (num - 1) ?r)" using num(1) by simp
      also have "\<dots> = drop num d" unfolding ih(2) using num(1) lt by simp
      finally show ?thesis .
    qed
    ultimately show ?thesis using True ih(1) w(1) by (simp add: algebra_simps)
  next
    case False
    have pow: "7 - m + 1 = 7 - (m - 1)" using False 2(4) by simp
    have inp: "inp \<noteq> []" using num(2) False by auto
    have ih: "length (bin2bn_loop inp ?w (m - 1) num d) = length d"
      "drop num (bin2bn_loop inp ?w (m - 1) num d) = drop num d"
      "wval (take num (bin2bn_loop inp ?w (m - 1) num d)) = unat ?w * 256 ^ length inp + be_nat inp"
      using 2(2) [OF refl False] 2(4,5) num inp False w(2) unfolding pow by auto
    show ?thesis using False ih w(1) by (simp add: algebra_simps)
  qed
qed simp

lemma words_for: "inp \<noteq> [] \<Longrightarrow> length inp = 8 * ((length inp - 1) div 8) + (length inp - 1) mod 8 + 1"
  by (cases inp) simp_all

text \<open>
  The number read is that of the bytes. With no bytes BN_bin2bn keeps the sign of the number that is
  passed in, which makes it a negative zero; BN_le2bn keeps the sign when there are bytes.
\<close>

lemma BN_bin2bn_eq:
  assumes "wf_bn ret"
  shows "(case BN_bin2bn served al inp (Some ret) of
      None \<Rightarrow> inp \<noteq> [] \<and> \<not> room al ret ((length inp - 1) div 8 + 1)
    | Some bn \<Rightarrow> wf_bn bn \<and> bn_nat bn = be_nat inp \<and> bn_neg bn = (inp = [] \<and> bn_neg ret))"
proof (cases "inp = []")
  case True
  with assms show ?thesis by (simp add: BN_bin2bn_def wf_bn_def bn_nat_def bn_words_def)
next
  case False
  define num where "num = (length inp - 1) div 8 + 1"
  define m where "m = (length inp - 1) mod 8"
  obtain ok r where grow: "bn_wexpand al ret num = (ok, r)" by force
  note grown = bn_wexpand_eq [OF assms grow] and room = bn_wexpand_ok [OF grow]
  let ?d = "bin2bn_loop inp 0 m num (bn_d r)"
  have run: "BN_bin2bn served al inp (Some ret) = (if ok then Some (r\<lparr>bn_width := num, bn_neg := False, bn_d := ?d\<rparr>) else None)"
    using False grow by (simp add: BN_bin2bn_def Let_def num_def m_def)
  show ?thesis
  proof (cases ok)
    case True
    have "length ?d = length (bn_d r) \<and> wval (take num ?d) = be_nat inp"
      using bin2bn_loop_eq [of inp num 0 m "bn_d r"] False words_for [OF False] grown True
      by (simp add: num_def m_def wf_bn_def)
    with True run grown False show ?thesis by (simp add: wf_bn_def bn_nat_def bn_words_def)
  next
    case no: False
    with run room False show ?thesis by (simp add: num_def)
  qed
qed

lemma BN_le2bn_eq:
  assumes "wf_bn ret"
  shows "(case BN_le2bn served al inp (Some ret) of
      None \<Rightarrow> inp \<noteq> [] \<and> \<not> room al ret ((length inp - 1) div 8 + 1)
    | Some bn \<Rightarrow> wf_bn bn \<and> bn_nat bn = le_nat inp \<and> bn_neg bn = (inp \<noteq> [] \<and> bn_neg ret))"
proof (cases "inp = []")
  case True
  with assms show ?thesis by (simp add: BN_le2bn_def wf_bn_def bn_nat_def bn_words_def)
next
  case False
  define num where "num = (length inp - 1) div 8 + 1"
  obtain ok r where grow: "bn_wexpand al ret num = (ok, r)" by force
  note grown = bn_wexpand_eq [OF assms grow] and room = bn_wexpand_ok [OF grow]
  let ?mem = "inp @ drop (length inp) (array_bytes ((bn_d r)[num - 1 := 0]))"
  have run: "BN_le2bn served al inp (Some ret) = (if ok then Some (r\<lparr>bn_width := num, bn_d := array_words ?mem\<rparr>) else None)"
    using False grow by (simp add: BN_le2bn_def Let_def num_def)
  show ?thesis
  proof (cases ok)
    case True
    then have num: "num \<le> length (bn_d r)" using grown by (simp add: wf_bn_def)
    have len: "length inp \<le> 8 * num" "8 * (num - 1) < length inp"
      using words_for [OF False] by (simp_all add: num_def)
    have mem: "length ?mem = 8 * length (bn_d r)" using num len by simp
    have bytes: "array_bytes (array_words ?mem) = ?mem" "length (array_words ?mem) = length (bn_d r)"
      using array_words_eq [OF mem] by simp_all
    have "wval (take num (array_words ?mem)) = le_nat (take (8 * num) ?mem)"
      using take_array_bytes [of num "array_words ?mem"] bytes(1) le_nat_array_bytes by metis
    also have "take (8 * num) ?mem = inp @ take (8 * num - length inp) (drop (length inp) (array_bytes ((bn_d r)[num - 1 := 0])))"
      using len(1) by simp
    also have "take (8 * num - length inp) (drop (length inp) (array_bytes ((bn_d r)[num - 1 := 0]))) = replicate (8 * num - length inp) 0"
    proof -
      let ?ws = "(bn_d r)[num - 1 := 0]"
      have num1: "num - 1 < length (bn_d r)" "0 < num" using num by (simp_all add: num_def)
      have "take num ?ws = take (num - 1) ?ws @ [0]"
        using take_Suc_conv_app_nth [of "num - 1" ?ws] num1 by simp
      then have "take (8 * num) (array_bytes ?ws) = array_bytes (take (num - 1) ?ws) @ replicate 8 0"
        by (simp only: take_array_bytes array_bytes_simps append_Nil2 unat_0 le_bytes_zero)
      moreover have "length (array_bytes (take (num - 1) ?ws)) \<le> length inp" using len(2) num1 by (simp add: min_absorb2)
      ultimately have "drop (length inp) (take (8 * num) (array_bytes ?ws)) = drop (length inp - 8 * (num - 1)) (replicate 8 0)"
        using num1 by (simp add: min_absorb2)
      moreover have "8 - (length inp - 8 * (num - 1)) = 8 * num - length inp"
        "8 + 8 * (num - Suc 0) - length inp = 8 * num - length inp" "8 * num - length inp + length inp = 8 * num"
        using len num1(2) by linarith+
      ultimately show ?thesis by (simp add: take_drop)
    qed
    finally have "wval (take num (array_words ?mem)) = le_nat inp"
      by (simp add: le_nat_append le_nat_zeros)
    with True run grown False bytes(2) num show ?thesis by (simp add: wf_bn_def bn_nat_def bn_words_def)
  next
    case no: False
    with run room False show ?thesis by (simp add: num_def)
  qed
qed

subsection \<open>Writing\<close>

lemma le_bytes_nth: "i < n \<Longrightarrow> le_bytes n v ! i = of_nat (v div 256 ^ i)"
proof (induction n arbitrary: v i)
  case (Suc n)
  then show ?case by (cases i) (simp_all add: div_mult2_eq)
qed simp

lemma le_bytes_take: "n \<le> length bs \<Longrightarrow> le_bytes n (le_nat bs) = take n bs"
proof (induction n arbitrary: bs)
  case (Suc n)
  then obtain b bs' where bs: "bs = b # bs'" by (cases bs) simp_all
  have "(unat b + 256 * le_nat bs') div 256 = le_nat bs'" using unat_u8_lt [of b] by simp
  moreover have "(of_nat (unat b + 256 * le_nat bs') :: u8) = b"
    by (simp only: word_unat_eq_iff unat_of_nat take_bit_eq_mod) simp
  ultimately show ?case using Suc bs by (simp del: of_nat_add of_nat_mult)
qed simp

lemma le_nat_eq_0: "le_nat bs = 0 \<longleftrightarrow> (\<forall>b \<in> set bs. b = 0)"
  by (induction bs) (auto simp: unat_eq_zero)

lemma foldl_or_zero_bytes: "foldl (OR) (a :: u8) bs = 0 \<longleftrightarrow> a = 0 \<and> (\<forall>b \<in> set bs. b = 0)"
  by (induction bs arbitrary: a) (auto simp: or_eq_0_iff)

lemma le_nat_less_iff: "le_nat bs < 256 ^ n \<longleftrightarrow> (\<forall>b \<in> set (drop n bs). b = 0)"
proof (cases "n \<le> length bs")
  case True
  have split: "le_nat bs = le_nat (take n bs) + 256 ^ n * le_nat (drop n bs)"
    using le_nat_append [of "take n bs" "drop n bs"] True by (simp add: min_absorb2)
  have "le_nat (take n bs) < 256 ^ n" using le_nat_lt [of "take n bs"] True by (simp add: min_absorb2)
  moreover have "256 ^ n * le_nat (drop n bs) < 256 ^ n \<longleftrightarrow> le_nat (drop n bs) = 0" by simp
  ultimately have "le_nat bs < 256 ^ n \<longleftrightarrow> le_nat (drop n bs) = 0"
    unfolding split by (cases "le_nat (drop n bs)") auto
  then show ?thesis by (simp add: le_nat_eq_0)
next
  case False
  then have "le_nat bs < 256 ^ n"
    using le_nat_lt [of bs] power_increasing [of "length bs" n "256 :: nat"] by linarith
  with False show ?thesis by simp
qed

lemma array_bytes_nth:
  "i < 8 * length ws \<Longrightarrow> array_bytes ws ! i = ucast (drop_bit (8 * (i mod 8)) (ws ! (i div 8)))"
proof (induction ws arbitrary: i)
  case (Cons w ws)
  show ?case
  proof (cases "i < 8")
    case True
    then have "array_bytes (w # ws) ! i = of_nat (unat w div 256 ^ i)" by (simp add: nth_append le_bytes_nth)
    also have "\<dots> = ucast (drop_bit (8 * i) w)"
    proof -
      have "drop_bit (8 * i) (unat w) = unat w div 256 ^ i" by (simp add: drop_bit_eq_div power_mult)
      then have "unat (drop_bit (8 * i) w) = unat w div 256 ^ i" by (simp only: unat_drop_bit_eq)
      then show ?thesis by (simp only: word_unat_eq_iff unat_of_nat unat_ucast_word take_bit_eq_mod)
    qed
    finally show ?thesis using True by simp
  next
    case False
    then obtain j where "i = j + 8" using le_Suc_ex by (metis add.commute not_less)
    moreover have "(j + 8) div 8 = Suc (j div 8)" by simp
    ultimately show ?thesis using Cons by (simp add: nth_append)
  qed
qed simp

lemma and_byte: "(b :: u8) AND 0xFF = b"
proof -
  have "(0xFF :: u8) = - 1" by simp
  then show ?thesis by (simp only: and.right_neutral)
qed

lemma bn_bytes: "wf_bn bn \<Longrightarrow> take (8 * bn_width bn) (array_bytes (bn_d bn)) = array_bytes (bn_words bn)"
  by (simp add: take_array_bytes bn_words_def)

lemma BN_num_bytes_le: "wf_bn bn \<Longrightarrow> BN_num_bytes bn \<le> 8 * bn_width bn"
proof -
  assume bn: "wf_bn bn"
  have "bn_nat bn < 256 ^ (8 * bn_width bn)"
    using wval_lt [of "bn_words bn"] bn by (simp only: bn_nat_def length_bn_words limbs_bytes)
  then have "256 ^ (BN_num_bytes bn - 1) < (256 :: nat) ^ (8 * bn_width bn)" if "0 < BN_num_bytes bn"
    using BN_num_bytes_eq [OF bn] that by linarith
  then show ?thesis by (cases "BN_num_bytes bn") simp_all
qed

lemma BN_bn2bin_eq: "wf_bn bn \<Longrightarrow> BN_bn2bin bn = be_bytes (BN_num_bytes bn) (bn_nat bn)"
proof -
  assume bn: "wf_bn bn"
  let ?n = "BN_num_bytes bn"
  have n: "?n \<le> 8 * bn_width bn" "bn_width bn \<le> length (bn_d bn)"
    using BN_num_bytes_le [OF bn] bn by (simp_all add: wf_bn_def)
  have "BN_bn2bin bn = rev (map (\<lambda>i. array_bytes (bn_d bn) ! i) [0..<?n])"
    unfolding BN_bn2bin_def rev_map using n
    by (intro arg_cong [where f = rev] map_cong refl)
      (simp add: array_bytes_nth and_byte)
  also have "map (\<lambda>i. array_bytes (bn_d bn) ! i) [0..<?n] = take ?n (array_bytes (bn_words bn))"
    using n unfolding bn_bytes [OF bn, symmetric] by (intro nth_equalityI) auto
  also have "\<dots> = le_bytes ?n (bn_nat bn)"
    using le_bytes_take [of ?n "array_bytes (bn_words bn)"] n(1) length_bn_words [OF bn]
    by (simp add: le_nat_array_bytes bn_nat_def)
  finally show ?thesis by (simp add: be_bytes_def)
qed

lemma padded_cases:
  fixes len :: nat
  assumes bn: "wf_bn bn"
  defines "k \<equiv> if len < bn_width bn * 8 then len else bn_width bn * 8"
  shows "(len < bn_width bn * 8 \<and> \<not> fits_in_bytes (array_bytes (bn_d bn)) (bn_width bn * 8) len) \<longleftrightarrow> \<not> bn_nat bn < 256 ^ len"
    and "bn_nat bn < 256 ^ len \<Longrightarrow> take k (array_bytes (bn_d bn)) @ replicate (len - k) 0 = le_bytes len (bn_nat bn)"
proof -
  let ?bs = "array_bytes (bn_words bn)"
  have bs: "take (bn_width bn * 8) (array_bytes (bn_d bn)) = ?bs" "length ?bs = bn_width bn * 8" "le_nat ?bs = bn_nat bn"
    using bn_bytes [OF bn] length_bn_words [OF bn] by (simp_all add: le_nat_array_bytes bn_nat_def mult.commute)
  have fits: "bn_nat bn < 256 ^ len \<longleftrightarrow> (\<forall>b \<in> set (drop len ?bs). b = 0)" using le_nat_less_iff [of ?bs len] bs(3) by simp
  then show "(len < bn_width bn * 8 \<and> \<not> fits_in_bytes (array_bytes (bn_d bn)) (bn_width bn * 8) len) \<longleftrightarrow> \<not> bn_nat bn < 256 ^ len"
    unfolding fits_in_bytes_def bs(1) foldl_or_zero_bytes using bs(2) by (cases "len < bn_width bn * 8") auto
  assume small: "bn_nat bn < 256 ^ len"
  have "take k (array_bytes (bn_d bn)) = take k ?bs" unfolding bs(1) [symmetric] by (simp add: k_def)
  moreover have "le_nat (take k ?bs @ replicate (len - k) 0) = bn_nat bn"
  proof -
    have "le_nat (take k ?bs @ replicate (len - k) 0) = le_nat (take k ?bs)" by (simp add: le_nat_append le_nat_zeros)
    also have "\<dots> = le_nat ?bs"
    proof (cases "len < bn_width bn * 8")
      case True
      then have "le_nat (drop len ?bs) = 0" using small fits by (simp add: le_nat_eq_0)
      then show ?thesis using le_nat_append [of "take len ?bs" "drop len ?bs"] True by (simp add: k_def)
    qed (use bs(2) in \<open>simp add: k_def\<close>)
    finally show ?thesis using bs(3) by simp
  qed
  moreover have "length (take k ?bs @ replicate (len - k) 0) = len" using bs(2) by (simp add: k_def)
  ultimately show "take k (array_bytes (bn_d bn)) @ replicate (len - k) 0 = le_bytes len (bn_nat bn)"
    by (metis le_bytes_le_nat)
qed

lemma BN_bn2le_padded_eq:
  "wf_bn bn \<Longrightarrow> BN_bn2le_padded len bn = (if bn_nat bn < 256 ^ len then Some (le_bytes len (bn_nat bn)) else None)"
  unfolding BN_bn2le_padded_def Let_def using padded_cases [of bn len] by auto

lemma BN_bn2bin_padded_eq:
  assumes bn: "wf_bn bn"
  shows "BN_bn2bin_padded len bn = (if bn_nat bn < 256 ^ len then Some (be_bytes len (bn_nat bn)) else None)"
proof (cases "bn_nat bn < 256 ^ len")
  case True
  let ?k = "if len < bn_width bn * 8 then len else bn_width bn * 8"
  have "replicate (len - ?k) 0 @ rev (take ?k (array_bytes (bn_d bn))) =
      rev (take ?k (array_bytes (bn_d bn)) @ replicate (len - ?k) 0)"
    unfolding rev_append rev_replicate ..
  also have "\<dots> = be_bytes len (bn_nat bn)" unfolding padded_cases(2) [OF bn True] be_bytes_def ..
  finally show ?thesis using padded_cases(1) [OF bn, of len] True unfolding BN_bn2bin_padded_def Let_def by argo
next
  case False
  with padded_cases(1) [OF bn, of len] show ?thesis unfolding BN_bn2bin_padded_def Let_def by argo
qed

lemma one_word:
  assumes "wf_bn bn"
  shows "bn_minimal_width bn = 0 \<longleftrightarrow> bn_nat bn = 0" "bn_minimal_width bn = 1 \<Longrightarrow> bn_d bn ! 0 = of_nat (bn_nat bn)"
    "bn_minimal_width bn \<le> 1 \<longleftrightarrow> bn_nat bn < 2 ^ 64"
proof -
  define m where "m = bn_minimal_width bn"
  note min = bn_minimal_width_eq [OF assms, folded m_def]
  have len: "m \<le> length (bn_d bn)" using min(1) assms by (simp add: wf_bn_def)
  have low: "limbs (m - 1) \<le> bn_nat bn" if m: "0 < m"
  proof -
    have "take m (bn_d bn) = take (m - 1) (bn_d bn) @ [bn_d bn ! (m - 1)]"
      using take_Suc_conv_app_nth [of "m - 1" "bn_d bn"] len m by simp
    then have "bn_nat bn = wval (take (m - 1) (bn_d bn)) + limbs (m - 1) * unat (bn_d bn ! (m - 1))"
      unfolding min(2) [symmetric] using len m by (simp add: wval_append min_absorb2)
    moreover have "0 < unat (bn_d bn ! (m - 1))" using min(3) m by (simp add: unat_gt_0)
    ultimately show ?thesis by (cases "unat (bn_d bn ! (m - 1))") simp_all
  qed
  have one: "unat (bn_d bn ! 0) = bn_nat bn" if "m = 1"
    using min(2) that len by (cases "bn_d bn") simp_all
  have "0 < bn_nat bn" if "0 < m" using low [OF that] by (rule less_le_trans [rotated]) simp
  moreover have "bn_nat bn = 0" if "m = 0" using min(2) that by simp
  ultimately show "bn_minimal_width bn = 0 \<longleftrightarrow> bn_nat bn = 0" unfolding m_def by (cases "bn_minimal_width bn") auto
  show "bn_minimal_width bn = 1 \<Longrightarrow> bn_d bn ! 0 = of_nat (bn_nat bn)" using one [symmetric] by (simp add: m_def)
  show "bn_minimal_width bn \<le> 1 \<longleftrightarrow> bn_nat bn < 2 ^ 64"
  proof (cases "m \<le> 1")
    case True
    have "bn_nat bn < limbs m" using min(2) wval_lt [of "take m (bn_d bn)"] len by (simp add: min_absorb2)
    also have "limbs m \<le> limbs 1" using True by (intro power_increasing) simp_all
    finally show ?thesis using True by (simp add: m_def)
  next
    case False
    have "limbs 1 \<le> limbs (m - 1)" using False by (intro power_increasing) simp_all
    with low False show ?thesis by (simp add: m_def)
  qed
qed

lemma BN_get_word_eq: "wf_bn bn \<Longrightarrow> BN_get_word bn = (if bn_nat bn < 2 ^ 64 then of_nat (bn_nat bn) else - 1)"
  using one_word [of bn] by (auto simp: BN_get_word_def Let_def)

lemma BN_get_u64_eq: "wf_bn bn \<Longrightarrow> BN_get_u64 bn = (if bn_nat bn < 2 ^ 64 then Some (of_nat (bn_nat bn)) else None)"
  using one_word [of bn] by (auto simp: BN_get_u64_def Let_def)

end
