(* ===== verification/Bn_Shift.thy ===== *)
theory Bn_Shift
  imports Bn
begin

text \<open>
  Shifts and single bits of a BIGNUM: crypto/fipsmodule/bn/shift.c. A shift distance is an int.
\<close>

unbundle bit_operations_syntax

subsection \<open>shift.c\<close>

text \<open>The loops of BN_lshift; \<open>f\<close> is the array of the operand, \<open>t\<close> that of the result.\<close>

fun lshift_words_loop :: "nat \<Rightarrow> u64 list \<Rightarrow> nat \<Rightarrow> u64 list \<Rightarrow> u64 list" where
  "lshift_words_loop nw f 0 t = t"
| "lshift_words_loop nw f (Suc i) t = lshift_words_loop nw f i (t[nw + i := f ! i])"

fun lshift_bits_loop :: "nat \<Rightarrow> nat \<Rightarrow> u64 list \<Rightarrow> nat \<Rightarrow> u64 list \<Rightarrow> u64 list" where
  "lshift_bits_loop lb nw f 0 t = t"
| "lshift_bits_loop lb nw f (Suc i) t =
     (let l = f ! i;
          t = t[nw + i + 1 := t ! (nw + i + 1) OR drop_bit (64 - lb) l];
          t = t[nw + i := push_bit lb l]
      in lshift_bits_loop lb nw f i t)"

definition BN_lshift :: "word_alloc \<Rightarrow> BIGNUM \<Rightarrow> BIGNUM \<Rightarrow> int \<Rightarrow> bool \<times> BIGNUM" where
  "BN_lshift al r a n =
     (if n < 0 then (False, r)
      else
        (let r = r\<lparr>bn_neg := bn_neg a\<rparr>;
             nw = nat n div 64
         in case bn_wexpand al r (bn_width a + nw + 1) of
              (ok, r) \<Rightarrow>
                if \<not> ok then (False, r)
                else
                  (let lb = nat n mod 64;
                       t = (bn_d r)[bn_width a + nw := 0];
                       t = (if lb = 0 then lshift_words_loop nw (bn_d a) (bn_width a) t
                            else lshift_bits_loop lb nw (bn_d a) (bn_width a) t);
                       t = replicate nw 0 @ drop nw t
                   in (True, bn_set_minimal_width (r\<lparr>bn_d := t, bn_width := bn_width a + nw + 1\<rparr>)))))"

fun lshift1_loop :: "u64 \<Rightarrow> u64 list \<Rightarrow> u64 list \<times> u64" where
  "lshift1_loop c [] = ([], c)"
| "lshift1_loop c (t # ap) =
     (case lshift1_loop (drop_bit 63 t) ap of (rp, c') \<Rightarrow> ((push_bit 1 t OR c) # rp, c'))"

text \<open>Where the result is the operand, its sign and its width are those of the operand already.\<close>

definition BN_lshift1 :: "word_alloc \<Rightarrow> BIGNUM \<Rightarrow> BIGNUM \<Rightarrow> bool \<times> BIGNUM" where
  "BN_lshift1 al r a =
     (let r = r\<lparr>bn_neg := bn_neg a\<rparr>
      in case bn_wexpand al r (bn_width a + 1) of
           (ok, r) \<Rightarrow>
             if \<not> ok then (False, r)
             else
               (let r = r\<lparr>bn_width := bn_width a\<rparr>
                in case lshift1_loop 0 (take (bn_width a) (bn_d a)) of
                     (rp, c) \<Rightarrow>
                       (let r = put_words r rp
                        in (True,
                            if c \<noteq> 0 then r\<lparr>bn_d := (bn_d r)[bn_width a := 1], bn_width := bn_width r + 1\<rparr> else r))))"

definition bn_rshift_words :: "u64 list \<Rightarrow> nat \<Rightarrow> nat \<Rightarrow> u64 list" where
  "bn_rshift_words a shift num =
     (let shift_bits = shift mod 64;
          shift_words = shift div 64
      in if num \<le> shift_words then replicate num 0
         else
           (if shift_bits = 0 then take (num - shift_words) (drop shift_words a)
            else
              map (\<lambda>i. drop_bit shift_bits (a ! i) OR push_bit (64 - shift_bits) (a ! (i + 1))) [shift_words..<num - 1]
              @ [drop_bit shift_bits (a ! (num - 1))])
           @ replicate shift_words 0)"

definition BN_rshift :: "word_alloc \<Rightarrow> BIGNUM \<Rightarrow> BIGNUM \<Rightarrow> int \<Rightarrow> bool \<times> BIGNUM" where
  "BN_rshift al r a n =
     (if n < 0 then (False, r)
      else
        (case bn_wexpand al r (bn_width a) of
           (ok, r) \<Rightarrow>
             if \<not> ok then (False, r)
             else
               (True, bn_set_minimal_width
                 ((put_words r (bn_rshift_words (bn_d a) (nat n) (bn_width a)))\<lparr>bn_neg := bn_neg a, bn_width := bn_width a\<rparr>))))"

lemma div_power_less: "0 < m div 2 ^ i \<Longrightarrow> m div (2 * 2 ^ i) < m div (2 ^ i :: nat)"
  by (simp add: mult.commute [of 2] div_mult2_eq)

text \<open>The loop of bn_rshift_secret_shift, from its bit \<open>i\<close> on.\<close>

function secret_shift_loop :: "nat \<Rightarrow> u32 \<Rightarrow> nat \<Rightarrow> u64 list \<Rightarrow> u64 list" where
  "secret_shift_loop max_bits n i rd =
     (if max_bits div 2 ^ i = 0 then rd
      else
        (let msk = 0 - ucast (drop_bit i n AND 1);
             tmp = bn_rshift_words rd (2 ^ i) (length rd)
         in secret_shift_loop max_bits n (i + 1) (bn_select_words msk tmp rd (length rd))))"
  by pat_completeness auto
termination
  by (relation "measure (\<lambda>(max_bits, n, i, rd). max_bits div 2 ^ i)") (simp_all add: div_power_less)

declare secret_shift_loop.simps [simp del]

definition bn_rshift_secret_shift ::
    "BIGNUM option \<Rightarrow> word_alloc \<Rightarrow> word_alloc \<Rightarrow> BIGNUM \<Rightarrow> BIGNUM \<Rightarrow> u32 \<Rightarrow> bool \<times> BIGNUM" where
  "bn_rshift_secret_shift tmp al grow_tmp r a n =
     (case tmp of
        None \<Rightarrow> (False, r)
      | Some tmp \<Rightarrow>
          (case BN_copy al r a of
             (ok, r) \<Rightarrow>
               if \<not> ok then (False, r)
               else if \<not> fst (bn_wexpand grow_tmp tmp (bn_width r)) then (False, r)
               else (True, put_words r (secret_shift_loop (64 * bn_width r) n 0 (take (bn_width r) (bn_d r))))))"

definition bn_rshift1_words :: "u64 list \<Rightarrow> nat \<Rightarrow> u64 list" where
  "bn_rshift1_words a num =
     (if num = 0 then []
      else map (\<lambda>i. drop_bit 1 (a ! i) OR push_bit 63 (a ! (i + 1))) [0..<num - 1] @ [drop_bit 1 (a ! (num - 1))])"

definition BN_rshift1 :: "word_alloc \<Rightarrow> BIGNUM \<Rightarrow> BIGNUM \<Rightarrow> bool \<times> BIGNUM" where
  "BN_rshift1 al r a =
     (case bn_wexpand al r (bn_width a) of
        (ok, r) \<Rightarrow>
          if \<not> ok then (False, r)
          else
            (True, bn_set_minimal_width
              ((put_words r (bn_rshift1_words (bn_d a) (bn_width a)))\<lparr>bn_width := bn_width a, bn_neg := bn_neg a\<rparr>)))"

definition BN_set_bit :: "word_alloc \<Rightarrow> BIGNUM \<Rightarrow> int \<Rightarrow> bool \<times> BIGNUM" where
  "BN_set_bit al a n =
     (if n < 0 then (False, a)
      else
        (let i = nat n div 64;
             j = nat n mod 64
         in case (if bn_width a \<le> i then
                    (case bn_wexpand al a (i + 1) of
                       (ok, a) \<Rightarrow>
                         if \<not> ok then (False, a)
                         else
                           (True, a\<lparr>bn_d := take (bn_width a) (bn_d a) @ replicate (i + 1 - bn_width a) 0 @ drop (i + 1) (bn_d a),
                                    bn_width := i + 1\<rparr>))
                  else (True, a)) of
              (ok, a) \<Rightarrow>
                if \<not> ok then (False, a)
                else (True, a\<lparr>bn_d := (bn_d a)[i := bn_d a ! i OR push_bit j 1]\<rparr>)))"

definition BN_clear_bit :: "BIGNUM \<Rightarrow> int \<Rightarrow> bool \<times> BIGNUM" where
  "BN_clear_bit a n =
     (if n < 0 then (False, a)
      else
        (let i = nat n div 64;
             j = nat n mod 64
         in if bn_width a \<le> i then (False, a)
            else (True, bn_set_minimal_width (a\<lparr>bn_d := (bn_d a)[i := bn_d a ! i AND NOT (push_bit j 1)]\<rparr>))))"

definition bn_is_bit_set_words :: "u64 list \<Rightarrow> nat \<Rightarrow> nat \<Rightarrow> bool" where
  "bn_is_bit_set_words a num n =
     (let i = n div 64;
          j = n mod 64
      in if num \<le> i then False else drop_bit j (a ! i) AND 1 = 1)"

definition BN_is_bit_set :: "BIGNUM \<Rightarrow> int \<Rightarrow> bool" where
  "BN_is_bit_set a n = (if n < 0 then False else bn_is_bit_set_words (bn_d a) (bn_width a) (nat n))"

definition BN_mask_bits :: "BIGNUM \<Rightarrow> int \<Rightarrow> bool \<times> BIGNUM" where
  "BN_mask_bits a n =
     (if n < 0 then (False, a)
      else
        (let w = nat n div 64;
             b = nat n mod 64
         in if bn_width a \<le> w then (True, a)
            else
              (True, bn_set_minimal_width
                (if b = 0 then a\<lparr>bn_width := w\<rparr>
                 else a\<lparr>bn_width := w + 1, bn_d := (bn_d a)[w := bn_d a ! w AND NOT (push_bit b (- 1))]\<rparr>))))"

text \<open>One of the blocks of bn_count_low_zero_bits_word; the last leaves l as it is.\<close>

definition low_zero_step :: "nat \<Rightarrow> u64 \<times> u64 \<Rightarrow> u64 \<times> u64" where
  "low_zero_step k = (\<lambda>(l, bits).
     let msk = constant_time_is_zero_w (push_bit (64 - k) l);
         bits = bits + (of_nat k AND msk);
         l = constant_time_select_w msk (drop_bit k l) l
     in (l, bits))"

definition bn_count_low_zero_bits_word :: "u64 \<Rightarrow> u64" where
  "bn_count_low_zero_bits_word l =
     (case low_zero_step 2 (low_zero_step 4 (low_zero_step 8 (low_zero_step 16 (low_zero_step 32 (l, 0))))) of
        (l, bits) \<Rightarrow> bits + (1 AND constant_time_is_zero_w (push_bit 63 l)))"

fun count_low_loop :: "nat \<Rightarrow> u64 list \<Rightarrow> u64 \<Rightarrow> u64 \<Rightarrow> u64" where
  "count_low_loop i [] saw_nonzero ret = ret"
| "count_low_loop i (d # ds) saw_nonzero ret =
     (let nonzero = NOT (constant_time_is_zero_w d);
          first_nonzero = NOT saw_nonzero AND nonzero;
          saw_nonzero = saw_nonzero OR nonzero;
          bits = bn_count_low_zero_bits_word d
      in count_low_loop (i + 1) ds saw_nonzero (ret OR (first_nonzero AND (of_nat (i * 64) + bits))))"

definition BN_count_low_zero_bits :: "BIGNUM \<Rightarrow> nat" where
  "BN_count_low_zero_bits bn = unat (count_low_loop 0 (take (bn_width bn) (bn_d bn)) 0 0)"

subsection \<open>Bits of the number\<close>

lemma bit_wval: "bit (wval ws) n \<longleftrightarrow> n div 64 < length ws \<and> bit (ws ! (n div 64)) (n mod 64)"
proof (induction ws arbitrary: n)
  case (Cons w ws)
  have lo: "take_bit 64 (unat w + 2 ^ 64 * wval ws) = unat w"
    using unat_u64_lt [of w] by (simp add: take_bit_eq_mod mod_less)
  have hi: "drop_bit 64 (unat w + 2 ^ 64 * wval ws) = wval ws"
    using unat_u64_lt [of w] by (simp add: drop_bit_eq_div)
  show ?case
  proof (cases "n < 64")
    case True
    then have "bit (wval (w # ws)) n \<longleftrightarrow> bit (take_bit 64 (unat w + 2 ^ 64 * wval ws)) n" by (simp add: bit_take_bit_iff)
    also have "\<dots> \<longleftrightarrow> bit w n" unfolding lo by (simp add: bit_unsigned_iff)
    finally show ?thesis using True by simp
  next
    case False
    then obtain m where m: "n = m + 64" using le_Suc_ex by (metis add.commute not_less)
    have "(m + 64) div 64 = Suc (m div 64)" by simp
    note m = m this
    have "bit (wval (w # ws)) n \<longleftrightarrow> bit (drop_bit 64 (unat w + 2 ^ 64 * wval ws)) m" by (simp add: bit_drop_bit_eq m add.commute)
    also have "\<dots> \<longleftrightarrow> bit (wval ws) m" unfolding hi ..
    finally show ?thesis using Cons [of m] by (simp add: m)
  qed
qed simp

subsection \<open>Shifts to the left\<close>

lemma lshift_words_loop_eq:
  "i \<le> length f \<Longrightarrow> nw + i \<le> length t \<Longrightarrow>
   lshift_words_loop nw f i t = take nw t @ take i f @ drop (nw + i) t"
proof (induction i arbitrary: t)
  case (Suc i)
  then have "lshift_words_loop nw f (Suc i) t = take nw t @ take i f @ drop (nw + i) (t[nw + i := f ! i])" by simp
  moreover have "drop (nw + i) (t[nw + i := f ! i]) = f ! i # drop (Suc (nw + i)) t"
    using Suc.prems by (simp add: Cons_nth_drop_Suc [symmetric])
  ultimately show ?case using Suc.prems by (simp add: take_Suc_conv_app_nth)
qed simp

lemma unat_push_u64: "unat (push_bit k (l :: u64)) = unat l * 2 ^ k mod 2 ^ 64"
  by (subst unsigned_push_bit_eq) (simp add: take_bit_eq_mod push_bit_eq_mult)

lemma unat_drop_u64: "unat (drop_bit k (l :: u64)) = unat l div 2 ^ k"
  by (subst unat_drop_bit_eq) (simp only: drop_bit_eq_div)

lemma lshift_split:
  assumes "0 < lb" "lb < 64"
  shows "unat (push_bit lb (l :: u64)) + 2 ^ 64 * unat (drop_bit (64 - lb) l) = unat l * 2 ^ lb"
proof -
  have "(2 :: nat) ^ 64 = 2 ^ (64 - lb) * 2 ^ lb" using assms by (simp flip: power_add)
  then have "unat l * 2 ^ lb div 2 ^ 64 = unat l div 2 ^ (64 - lb)"
    using div_mult_mult2 [of "2 ^ lb" "unat l" "2 ^ (64 - lb)"] by simp
  then show ?thesis unfolding unat_push_u64 unat_drop_u64 by (metis mod_mult_div_eq mult.commute)
qed

lemma lshift_bits_loop_eq:
  assumes lb: "0 < lb" "lb < 64"
  shows "length lo = nw + i \<Longrightarrow> i \<le> length f \<Longrightarrow> take_bit lb x = 0 \<Longrightarrow>
    \<exists>ws. lshift_bits_loop lb nw f i (lo @ x # hi) = take nw lo @ ws @ hi \<and> length ws = i + 1 \<and>
      wval ws = wval (take i f) * 2 ^ lb + limbs i * unat x"
proof (induction i arbitrary: lo x hi)
  case (Suc i)
  define l where "l = f ! i"
  define lo' where "lo' = take (nw + i) lo"
  have lo: "lo = lo' @ [lo ! (nw + i)]" "length lo' = nw + i"
    using Suc.prems take_Suc_conv_app_nth [of "nw + i" lo] by (simp_all add: lo'_def)
  let ?x = "x OR drop_bit (64 - lb) l"
  have upd: "(pre @ u # v # hi)[Suc (length pre) := w] = pre @ u # w # hi" for pre hi and u v w :: u64
    by (induction pre) simp_all
  have upd0: "(pre @ u # hi)[length pre := w] = pre @ w # hi" for pre hi and u w :: u64 by simp
  have step: "lshift_bits_loop lb nw f (Suc i) (lo @ x # hi) = lshift_bits_loop lb nw f i (lo' @ push_bit lb l # ?x # hi)"
    using lo(2) upd [of lo'] upd0 [of lo'] by (subst lo(1)) (simp add: l_def nth_append Let_def)
  have "x AND drop_bit (64 - lb) l = 0"
  proof (rule bit_word_eqI)
    fix n
    assume "n < LENGTH(64)"
    then have "\<not> bit l (64 - lb + n)" if "lb \<le> n" using bit_imp_le_length [of l "64 - lb + n"] that lb by auto
    moreover have "\<not> bit x n" if "n < lb" using Suc.prems(3) that by (metis bit_take_bit_iff bit_0_eq bot_apply bot_bool_def)
    ultimately show "bit (x AND drop_bit (64 - lb) l) n = bit 0 n"
      by (cases "lb \<le> n") (auto simp: bit_simps not_le)
  qed
  then have x: "unat ?x = unat x + unat (drop_bit (64 - lb) l)" by (rule unat_or_disjoint)
  have "take_bit lb (push_bit lb l) = 0" by (rule bit_word_eqI) (auto simp: bit_simps)
  then obtain ws where ws: "lshift_bits_loop lb nw f i (lo' @ push_bit lb l # ?x # hi) = take nw lo' @ ws @ ?x # hi"
    "length ws = i + 1" "wval ws = wval (take i f) * 2 ^ lb + limbs i * unat (push_bit lb l)"
    using Suc.IH [of lo' "push_bit lb l" "?x # hi"] lo(2) Suc.prems by auto
  have "wval (ws @ [?x]) = wval (take i f) * 2 ^ lb + limbs i * (unat (push_bit lb l) + 2 ^ 64 * unat (drop_bit (64 - lb) l)) + limbs (Suc i) * unat x"
    by (simp add: wval_append ws x algebra_simps)
  also have "\<dots> = wval (take (Suc i) f) * 2 ^ lb + limbs (Suc i) * unat x"
    unfolding lshift_split [OF lb] using Suc.prems by (simp add: take_Suc_conv_app_nth wval_append l_def algebra_simps)
  finally show ?case unfolding step ws(1) using ws(2) by (intro exI [of _ "ws @ [?x]"]) (simp add: lo'_def)
qed simp

lemma lshift1_loop_eq:
  "unat c \<le> 1 \<Longrightarrow>
   (case lshift1_loop c ap of (rp, c') \<Rightarrow>
      length rp = length ap \<and> unat c' \<le> 1 \<and> wval rp + limbs (length ap) * unat c' = 2 * wval ap + unat c)"
proof (induction ap arbitrary: c)
  case (Cons t ap)
  obtain rp c' where run: "lshift1_loop (drop_bit 63 t) ap = (rp, c')" by force
  have "unat (drop_bit 63 t) \<le> 1" unfolding unat_drop_u64
    using less_mult_imp_div_less [of "unat t" 2 "2 ^ 63"] by simp
  from Cons.IH [OF this] have ih: "length rp = length ap" "unat c' \<le> 1"
    "wval rp + limbs (length ap) * unat c' = 2 * wval ap + unat (drop_bit 63 t)"
    unfolding run by simp_all
  have "c = 0 \<or> c = 1" using Cons.prems by (cases "unat c") (auto simp: word_unat_eq_iff)
  then have "push_bit 1 t AND c = 0"
  proof
    assume "c = 1"
    moreover have "even (push_bit 1 t)" by simp
    ultimately show ?thesis by (simp only: and_one_eq even_iff_mod_2_eq_zero)
  qed simp
  then have low: "unat (push_bit 1 t OR c) = unat (push_bit 1 t) + unat c" by (rule unat_or_disjoint)
  have split: "unat (push_bit 1 t) + 2 ^ 64 * unat (drop_bit 63 t) = unat t * 2" using lshift_split [of 1 t] by simp
  have "wval ((push_bit 1 t OR c) # rp) + limbs (length (t # ap)) * unat c' =
      unat (push_bit 1 t) + unat c + 2 ^ 64 * (wval rp + limbs (length ap) * unat c')"
    unfolding wval.simps low by (simp add: algebra_simps)
  also have "\<dots> = unat t * 2 + unat c + 2 ^ 64 * (2 * wval ap)" unfolding ih(3) split [symmetric] by (simp add: algebra_simps)
  finally show ?case using ih run by (simp add: algebra_simps)
qed simp

text \<open>A shift to the left multiplies by a power of two, the sign included.\<close>

lemma BN_lshift_eq:
  assumes "wf_bn r" "wf_bn a" "BN_lshift al r a n = (ok, r')"
  shows "wf_bn r' \<and> (ok \<longrightarrow> canonical r' \<and> bn_int r' = bn_int a * 2 ^ nat n) \<and>
    (ok \<longleftrightarrow> 0 \<le> n \<and> room al r (bn_width a + nat n div 64 + 1))"
proof (cases "n < 0")
  case True
  with assms show ?thesis by (auto simp: BN_lshift_def)
next
  case False
  define nw lb where "nw = nat n div 64" and "lb = nat n mod 64"
  define r0 where "r0 = r\<lparr>bn_neg := bn_neg a\<rparr>"
  obtain ok1 d where grow: "bn_wexpand al r0 (bn_width a + nw + 1) = (ok1, d)" by force
  have r0: "wf_bn r0" using assms(1) by (simp add: r0_def wf_bn_def)
  note grown = bn_wexpand_eq [OF r0 grow] and room = bn_wexpand_ok [OF grow]
  have rr: "room al r0 k \<longleftrightarrow> room al r k" for k by (simp add: r0_def room_def)
  show ?thesis
  proof (cases ok1)
    case no: False
    with assms(3) grow False have "\<not> ok" "r' = d" by (simp_all add: BN_lshift_def nw_def r0_def Let_def)
    with no grown r0 room rr show ?thesis by (simp add: nw_def)
  next
    case True
    define t where "t = (bn_d d)[bn_width a + nw := 0]"
    define t' where "t' = (if lb = 0 then lshift_words_loop nw (bn_d a) (bn_width a) t
      else lshift_bits_loop lb nw (bn_d a) (bn_width a) t)"
    have r': "ok" "r' = bn_set_minimal_width (d\<lparr>bn_d := replicate nw 0 @ drop nw t', bn_width := bn_width a + nw + 1\<rparr>)"
      using assms(3) True False
      by (simp_all only: BN_lshift_def nw_def [symmetric] lb_def [symmetric] r0_def [symmetric] Let_def grow t_def [symmetric]
          t'_def [symmetric] prod.case if_False if_True simp_thms prod.inject)
    have len: "bn_width a + nw + 1 \<le> length t" "length t = bn_dmax d" "bn_width a \<le> length (bn_d a)"
      using grown True assms(2) by (simp_all add: wf_bn_def t_def)
    have t: "t = take (nw + bn_width a) t @ 0 # drop (nw + bn_width a + 1) t"
      using len id_take_nth_drop [of "nw + bn_width a" t] by (simp add: t_def add.commute)
    have "\<exists>ws. t' = take nw t @ ws @ drop (nw + bn_width a + 1) t \<and> length ws = bn_width a + 1 \<and> wval ws = bn_nat a * 2 ^ lb"
    proof (cases "lb = 0")
      case True
      have "t' = take nw t @ take (bn_width a) (bn_d a) @ drop (nw + bn_width a) t"
        using True lshift_words_loop_eq [of "bn_width a" "bn_d a" nw t] len by (simp add: t'_def)
      moreover have "drop (nw + bn_width a) t = 0 # drop (nw + bn_width a + 1) t"
        by (subst t) (use len in \<open>simp add: min_absorb2\<close>)
      ultimately show ?thesis
        using True len by (intro exI [of _ "take (bn_width a) (bn_d a) @ [0]"]) (simp add: wval_append bn_nat_def bn_words_def min_absorb2)
    next
      case False
      have "lb < 64" by (simp add: lb_def)
      from lshift_bits_loop_eq [of lb "take (nw + bn_width a) t" nw "bn_width a" "bn_d a" 0 "drop (nw + bn_width a + 1) t", OF _ this]
      show ?thesis using False len t by (auto simp: t'_def bn_nat_def bn_words_def min_absorb1 min_absorb2)
    qed
    then obtain ws where ws: "t' = take nw t @ ws @ drop (nw + bn_width a + 1) t" "length ws = bn_width a + 1"
      "wval ws = bn_nat a * 2 ^ lb"
      by blast
    let ?r = "d\<lparr>bn_d := replicate nw 0 @ drop nw t', bn_width := bn_width a + nw + 1\<rparr>"
    have wf: "wf_bn ?r" using grown len ws by (simp add: wf_bn_def)
    have "bn_nat ?r = limbs nw * wval ws" using ws len by (simp add: bn_nat_def bn_words_def wval_append)
    also have "limbs nw = 2 ^ (64 * nw)" by (simp only: power_mult)
    also have "2 ^ (64 * nw) * wval ws = bn_nat a * 2 ^ (lb + 64 * nw)" by (simp add: ws(3) power_add)
    also have "lb + 64 * nw = nat n" by (simp add: lb_def nw_def)
    finally have nat: "bn_nat ?r = bn_nat a * 2 ^ nat n" .
    have "bn_neg ?r = bn_neg a" using grown by (simp add: r0_def)
    then have "bn_int ?r = bn_int a * 2 ^ nat n" using nat unfolding bn_int_def by simp
    with bn_set_minimal_width_eq [OF wf] have "canonical r'" "bn_int r' = bn_int a * 2 ^ nat n" unfolding r'(2) by simp_all
    moreover from this(1) have "wf_bn r'" by (simp add: canonical_def)
    ultimately show ?thesis using r'(1) True room rr False by (simp add: nw_def)
  qed
qed

lemma BN_lshift1_eq:
  assumes "wf_bn r" "canonical a" "BN_lshift1 al r a = (ok, r')"
  shows "wf_bn r' \<and> (ok \<longrightarrow> canonical r' \<and> bn_int r' = 2 * bn_int a) \<and> (ok \<longleftrightarrow> room al r (bn_width a + 1))"
proof -
  define r0 where "r0 = r\<lparr>bn_neg := bn_neg a\<rparr>"
  obtain ok1 d where grow: "bn_wexpand al r0 (bn_width a + 1) = (ok1, d)" by force
  have r0: "wf_bn r0" "wf_bn a" using assms(1,2) by (simp_all add: r0_def wf_bn_def canonical_def)
  note grown = bn_wexpand_eq [OF r0(1) grow] and room = bn_wexpand_ok [OF grow]
  have rr: "room al r0 k \<longleftrightarrow> room al r k" for k by (simp add: r0_def room_def)
  show ?thesis
  proof (cases ok1)
    case False
    with assms(3) grow have "\<not> ok" "r' = d" by (simp_all add: BN_lshift1_def r0_def Let_def)
    with False grown r0 room rr show ?thesis by simp
  next
    case True
    obtain rp c where run: "lshift1_loop 0 (take (bn_width a) (bn_d a)) = (rp, c)" by force
    have "bn_width a \<le> length (bn_d a)" using r0(2) by (simp add: wf_bn_def)
    with lshift1_loop_eq [of 0 "take (bn_width a) (bn_d a)"]
    have rp: "length rp = bn_width a" "unat c \<le> 1" "wval rp + limbs (bn_width a) * unat c = 2 * bn_nat a"
      unfolding run by (simp_all add: bn_nat_def bn_words_def min_absorb2)
    let ?d = "put_words (d\<lparr>bn_width := bn_width a\<rparr>) rp"
    have r': "ok" "r' = (if c \<noteq> 0 then ?d\<lparr>bn_d := (bn_d ?d)[bn_width a := 1], bn_width := bn_width ?d + 1\<rparr> else ?d)"
      using assms(3) grow True run by (simp_all add: BN_lshift1_def r0_def Let_def)
    have len: "bn_width a + 1 \<le> length (bn_d d)" using grown True by (simp add: wf_bn_def)
    have c: "c = 0 \<or> c = 1" using rp(2) by (cases "unat c") (auto simp: word_unat_eq_iff)
    have "bn_nat r' = wval rp + limbs (bn_width a) * unat c \<and> wf_bn r' \<and> bn_neg r' = bn_neg a"
      using c
    proof
      assume "c = 0"
      with r' rp(1) grown len show ?thesis by (simp add: bn_nat_def bn_words_def put_words_def wf_bn_def r0_def)
    next
      assume "c = 1"
      have "(rp @ drop (bn_width a) (bn_d d))[bn_width a := 1] = (rp @ [1]) @ drop (bn_width a + 1) (bn_d d)"
        using rp(1) len by (simp add: list_update_append Cons_nth_drop_Suc [symmetric])
      with r' rp(1) grown len \<open>c = 1\<close> show ?thesis
        by (simp add: bn_nat_def bn_words_def put_words_def wf_bn_def r0_def wval_append)
    qed
    with rp(3) have "bn_nat r' = 2 * bn_nat a" "wf_bn r'" "bn_neg r' = bn_neg a" by simp_all
    with r'(1) True room rr assms(2) show ?thesis by (simp add: canonical_def bn_int_def)
  qed
qed

subsection \<open>Shifts to the right\<close>

lemma wval_div_limbs: "wval ws div limbs k = wval (drop k ws)"
proof (cases "k \<le> length ws")
  case True
  have "wval ws = wval (take k ws) + limbs k * wval (drop k ws)"
    using wval_append [of "take k ws" "drop k ws"] True by (simp add: min_absorb2)
  moreover have "wval (take k ws) < limbs k" using wval_lt [of "take k ws"] True by (simp add: min_absorb2)
  ultimately show ?thesis by simp
next
  case False
  then have "limbs (length ws) \<le> limbs k" by (intro power_increasing) simp_all
  with wval_lt [of ws] have "wval ws < limbs k" by (rule less_le_trans)
  with False show ?thesis by simp
qed

text \<open>One word of a shift: its own bits and the low bits of the next word.\<close>

lemma rshift_word:
  assumes s: "0 < s" "s < 64"
  shows "unat (drop_bit s (w :: u64) OR push_bit (64 - s) v) + 2 ^ 64 * ((unat v + 2 ^ 64 * x) div 2 ^ s) =
    (unat w + 2 ^ 64 * (unat v + 2 ^ 64 * x)) div 2 ^ s"
proof -
  define t :: nat where "t = 64 - s"
  have two: "(2 :: nat) ^ 64 = 2 ^ s * 2 ^ t" using s by (simp add: t_def flip: power_add)
  have "drop_bit s w AND push_bit t v = 0"
  proof (rule bit_word_eqI)
    fix n
    have "\<not> bit w (s + n)" if "t \<le> n" using bit_imp_le_length [of w "s + n"] that s by (auto simp: t_def)
    then show "bit (drop_bit s w AND push_bit t v) n = bit 0 n" by (cases "t \<le> n") (auto simp: bit_simps)
  qed
  then have low: "unat (drop_bit s w OR push_bit t v) = unat w div 2 ^ s + unat v * 2 ^ t mod 2 ^ 64"
    by (simp only: unat_or_disjoint unat_drop_u64 unat_push_u64)
  have "unat v * 2 ^ t mod 2 ^ 64 = (unat v mod 2 ^ s) * 2 ^ t" unfolding two by (simp only: mult_mod_left)
  moreover have "(unat v + 2 ^ 64 * x) mod 2 ^ s = unat v mod 2 ^ s" unfolding two by (simp add: mult.assoc)
  ultimately have "unat v * 2 ^ t mod 2 ^ 64 + 2 ^ 64 * ((unat v + 2 ^ 64 * x) div 2 ^ s) =
      2 ^ t * ((unat v + 2 ^ 64 * x) mod 2 ^ s + 2 ^ s * ((unat v + 2 ^ 64 * x) div 2 ^ s))"
    unfolding two by (simp add: algebra_simps)
  also have "\<dots> = 2 ^ t * (unat v + 2 ^ 64 * x)" by (simp only: mod_mult_div_eq)
  finally have "unat (drop_bit s w OR push_bit t v) + 2 ^ 64 * ((unat v + 2 ^ 64 * x) div 2 ^ s) =
      unat w div 2 ^ s + 2 ^ t * (unat v + 2 ^ 64 * x)"
    unfolding low by linarith
  also have "\<dots> = (unat w + 2 ^ s * (2 ^ t * (unat v + 2 ^ 64 * x))) div 2 ^ s" by simp
  also have "2 ^ s * (2 ^ t * (unat v + 2 ^ 64 * x)) = 2 ^ 64 * (unat v + 2 ^ 64 * x)" unfolding two by simp
  finally show ?thesis unfolding t_def .
qed

lemma rshift_list:
  assumes s: "0 < s" "s < 64" and ws: "ws \<noteq> []"
  shows "wval (map (\<lambda>i. drop_bit s (ws ! i) OR push_bit (64 - s) (ws ! (i + 1))) [0..<length ws - 1]
      @ [drop_bit s (ws ! (length ws - 1))]) = wval ws div 2 ^ s"
  using ws
proof (induction ws)
  case (Cons w ws)
  note ih = Cons.IH
  show ?case
  proof (cases ws)
    case Nil
    then show ?thesis by (simp add: unat_drop_u64)
  next
    case (Cons v vs)
    let ?f = "\<lambda>xs i. drop_bit s (xs ! i) OR push_bit (64 - s) (xs ! (i + 1))"
    have "map (?f (w # ws)) [0..<length (w # ws) - 1] = ?f (w # ws) 0 # map (?f ws) [0..<length ws - 1]"
      unfolding Cons by (simp add: map_upt_Suc del: upt_Suc)
    then have "wval (map (?f (w # ws)) [0..<length (w # ws) - 1] @ [drop_bit s ((w # ws) ! (length (w # ws) - 1))]) =
        unat (drop_bit s w OR push_bit (64 - s) v) +
        2 ^ 64 * wval (map (?f ws) [0..<length ws - 1] @ [drop_bit s (ws ! (length ws - 1))])"
      unfolding Cons by simp
    also have "\<dots> = unat (drop_bit s w OR push_bit (64 - s) v) + 2 ^ 64 * (wval ws div 2 ^ s)"
      by (subst ih) (simp_all add: Cons)
    also have "\<dots> = wval (w # ws) div 2 ^ s" unfolding Cons wval.simps by (rule rshift_word [OF s])
    finally show ?thesis .
  qed
qed simp

lemma bn_rshift_words_eq:
  assumes "num \<le> length a"
  shows "length (bn_rshift_words a shift num) = num \<and> wval (bn_rshift_words a shift num) = wval (take num a) div 2 ^ shift"
proof -
  define sw sb where "sw = shift div 64" and "sb = shift mod 64"
  have shift: "(2 :: nat) ^ shift = limbs sw * 2 ^ sb" unfolding power_mult [symmetric] power_add [symmetric] by (simp add: sw_def sb_def)
  let ?ws = "drop sw (take num a)"
  have val: "wval (take num a) div 2 ^ shift = wval ?ws div 2 ^ sb"
    unfolding shift div_mult2_eq wval_div_limbs ..
  show ?thesis
  proof (cases "num \<le> sw")
    case True
    then show ?thesis unfolding val by (simp add: bn_rshift_words_def sw_def)
  next
    case False
    let ?shifted = "if sb = 0 then take (num - sw) (drop sw a)
      else map (\<lambda>i. drop_bit sb (a ! i) OR push_bit (64 - sb) (a ! (i + 1))) [sw..<num - 1] @ [drop_bit sb (a ! (num - 1))]"
    have run: "bn_rshift_words a shift num = ?shifted @ replicate sw 0"
      using False by (simp add: bn_rshift_words_def sw_def sb_def Let_def)
    have "length ?shifted = num - sw \<and> wval ?shifted = wval ?ws div 2 ^ sb"
    proof (cases "sb = 0")
      case True
      then show ?thesis using assms False by (simp add: take_drop min_absorb2)
    next
      case nz: False
      have ws: "?ws \<noteq> []" "length ?ws = num - sw" using False assms by simp_all
      have "map (\<lambda>i. drop_bit sb (a ! i) OR push_bit (64 - sb) (a ! (i + 1))) [sw..<num - 1] =
          map (\<lambda>i. drop_bit sb (?ws ! i) OR push_bit (64 - sb) (?ws ! (i + 1))) [0..<length ?ws - 1]"
        unfolding ws(2) using assms by (intro nth_equalityI) (auto simp: add.commute)
      moreover have "a ! (num - 1) = ?ws ! (length ?ws - 1)" using assms False by (simp add: ws(2))
      moreover have "Suc (num - Suc sw) = num - sw" using False by simp
      ultimately show ?thesis using rshift_list [of sb ?ws] nz ws False by (simp add: sb_def)
    qed
    then show ?thesis unfolding run val using False by (simp add: wval_padded)
  qed
qed

text \<open>A shift to the right divides, towards zero.\<close>

lemma shifted_eq:
  assumes "wf_bn r" "wf_bn a" "bn_wexpand al r (bn_width a) = (True, d)" "length ws = bn_width a"
    "wval ws = bn_nat a div 2 ^ n" "r' = bn_set_minimal_width ((put_words d ws)\<lparr>bn_neg := bn_neg a, bn_width := bn_width a\<rparr>)"
  shows "canonical r' \<and> bn_nat r' = bn_nat a div 2 ^ n \<and> bn_int r' = (if bn_neg a then - 1 else 1) * int (bn_nat a div 2 ^ n)"
proof -
  note grown = bn_wexpand_eq [OF assms(1,3)]
  let ?r = "(put_words d ws)\<lparr>bn_neg := bn_neg a, bn_width := bn_width a\<rparr>"
  have "wf_bn ?r" "bn_nat ?r = bn_nat a div 2 ^ n"
    using grown assms(4,5) by (simp_all add: wf_bn_def put_words_def bn_nat_def bn_words_def)
  moreover have "bn_neg ?r = bn_neg a" by simp
  ultimately have "bn_int ?r = (if bn_neg a then - 1 else 1) * int (bn_nat a div 2 ^ n)"
    unfolding bn_int_def by (simp only: if_distrib) simp
  with bn_set_minimal_width_eq [OF \<open>wf_bn ?r\<close>] \<open>bn_nat ?r = _\<close> show ?thesis
    unfolding assms(6) by (simp only: simp_thms)
qed

lemma BN_rshift_eq:
  assumes "wf_bn r" "wf_bn a" "BN_rshift al r a n = (ok, r')"
  shows "wf_bn r' \<and> (ok \<longrightarrow> canonical r' \<and> bn_int r' = (if bn_neg a then - 1 else 1) * int (bn_nat a div 2 ^ nat n)) \<and>
    (ok \<longleftrightarrow> 0 \<le> n \<and> room al r (bn_width a))"
proof (cases "n < 0")
  case True
  with assms show ?thesis by (auto simp: BN_rshift_def)
next
  case False
  obtain ok1 d where grow: "bn_wexpand al r (bn_width a) = (ok1, d)" by force
  note grown = bn_wexpand_eq [OF assms(1) grow] and room = bn_wexpand_ok [OF grow]
  have ws: "length (bn_rshift_words (bn_d a) (nat n) (bn_width a)) = bn_width a"
    "wval (bn_rshift_words (bn_d a) (nat n) (bn_width a)) = bn_nat a div 2 ^ nat n"
    using bn_rshift_words_eq [of "bn_width a" "bn_d a" "nat n"] assms(2) by (simp_all add: wf_bn_def bn_nat_def bn_words_def)
  show ?thesis
  proof (cases ok1)
    case True
    with assms(3) grow False have r': "ok" "r' = bn_set_minimal_width
        ((put_words d (bn_rshift_words (bn_d a) (nat n) (bn_width a)))\<lparr>bn_neg := bn_neg a, bn_width := bn_width a\<rparr>)"
      by (simp_all add: BN_rshift_def)
    note shifted = shifted_eq [OF assms(1,2) grow [unfolded True[THEN eqTrueI]] ws r'(2)]
    then have "wf_bn r'" by (simp add: canonical_def)
    with shifted r'(1) True room False show ?thesis by simp
  next
    case no: False
    with assms(1,3) grow False grown room show ?thesis by (auto simp: BN_rshift_def)
  qed
qed

lemma bn_rshift1_words_eq: "bn_rshift1_words a num = bn_rshift_words a 1 num"
  by (cases num) (simp_all add: bn_rshift1_words_def bn_rshift_words_def)

lemma BN_rshift1_eq:
  assumes "wf_bn r" "wf_bn a" "BN_rshift1 al r a = (ok, r')"
  shows "wf_bn r' \<and> (ok \<longrightarrow> canonical r' \<and> bn_int r' = (if bn_neg a then - 1 else 1) * int (bn_nat a div 2)) \<and>
    (ok \<longleftrightarrow> room al r (bn_width a))"
proof -
  have "x\<lparr>bn_width := w, bn_neg := s\<rparr> = x\<lparr>bn_neg := s, bn_width := w\<rparr>" for x :: BIGNUM and w s by (cases x) simp
  moreover have "nat 1 = 1" by simp
  ultimately have "BN_rshift1 al r a = BN_rshift al r a 1"
    unfolding BN_rshift1_def BN_rshift_def bn_rshift1_words_eq by (simp only: if_False) simp
  with BN_rshift_eq [OF assms(1,2), of al 1 ok r'] assms(3) show ?thesis by simp
qed

text \<open>The shift by a secret distance takes the distance modulo a power of two above the number of bits.\<close>

lemma secret_shift_loop_eq:
  "bit_length max_bits k \<Longrightarrow> i \<le> k \<Longrightarrow>
   length (secret_shift_loop max_bits n i rd) = length rd \<and>
   wval (secret_shift_loop max_bits n i rd) = wval rd div 2 ^ (unat n mod 2 ^ k div 2 ^ i * 2 ^ i)"
proof (induction max_bits n i rd rule: secret_shift_loop.induct)
  case (1 max_bits n i rd)
  show ?case
  proof (cases "max_bits div 2 ^ i = 0")
    case True
    then have "max_bits < 2 ^ i" by (simp add: div_eq_0_iff)
    have "\<not> i < k"
    proof
      assume "i < k"
      then have "(2 :: nat) ^ i \<le> 2 ^ (k - 1)" by (intro power_increasing) simp_all
      moreover have "2 ^ (k - 1) \<le> max_bits" using 1(2) \<open>i < k\<close> by (simp add: bit_length_def)
      ultimately show False using \<open>max_bits < 2 ^ i\<close> by linarith
    qed
    with 1(3) have "i = k" by simp
    moreover have "secret_shift_loop max_bits n i rd = rd" using True by (subst secret_shift_loop.simps) simp
    ultimately show ?thesis by simp
  next
    case False
    then have "2 ^ i \<le> max_bits" by (simp add: div_eq_0_iff)
    moreover have "max_bits < 2 ^ k" using 1(2) by (simp add: bit_length_def)
    ultimately have "(2 :: nat) ^ i < 2 ^ k" by (rule le_less_trans)
    then have i: "i < k" by (simp add: power_strict_increasing_iff)
    define b where "b = bit n i"
    have msk: "0 - ucast (drop_bit i n AND 1) = (truth b :: u64)"
      by (simp add: b_def truth_def and_one_eq bit_iff_odd_drop_bit even_iff_mod_2_eq_zero odd_iff_mod_2_eq_one)
    let ?rd = "bn_select_words (0 - ucast (drop_bit i n AND 1)) (bn_rshift_words rd (2 ^ i) (length rd)) rd (length rd)"
    have rs: "length (bn_rshift_words rd (2 ^ i) (length rd)) = length rd"
      "wval (bn_rshift_words rd (2 ^ i) (length rd)) = wval rd div 2 ^ 2 ^ i"
      using bn_rshift_words_eq [of "length rd" rd "2 ^ i"] by simp_all
    have rd: "?rd = (if b then bn_rshift_words rd (2 ^ i) (length rd) else rd)"
      unfolding msk by (rule bn_select_words_truth) (simp_all add: rs)
    have len: "length ?rd = length rd" and val: "wval ?rd = wval rd div 2 ^ (of_bool b * 2 ^ i)"
      unfolding rd using rs by simp_all
    have step: "secret_shift_loop max_bits n i rd = secret_shift_loop max_bits n (i + 1) ?rd"
      using False by (subst secret_shift_loop.simps) simp
    from 1(1) [OF False refl refl 1(2)] i
    have ih: "length (secret_shift_loop max_bits n (i + 1) ?rd) = length ?rd"
      "wval (secret_shift_loop max_bits n (i + 1) ?rd) = wval ?rd div 2 ^ (unat n mod 2 ^ k div 2 ^ (i + 1) * 2 ^ (i + 1))"
      by simp_all
    define q where "q = unat n mod 2 ^ k"
    have "bit q i \<longleftrightarrow> b" using i by (simp add: q_def b_def flip: take_bit_eq_mod) (simp add: bit_take_bit_iff bit_unsigned_iff)
    then have "of_bool b = q div 2 ^ i mod 2" by (simp add: bit_iff_odd mod_2_eq_odd)
    moreover have "q div 2 ^ (i + 1) = q div 2 ^ i div 2" by (simp add: div_mult2_eq [symmetric] mult.commute)
    ultimately have "q div 2 ^ i = of_bool b + 2 * (q div 2 ^ (i + 1))" by (simp only: mod_mult_div_eq)
    then have "of_bool b * 2 ^ i + q div 2 ^ (i + 1) * 2 ^ (i + 1) = q div 2 ^ i * 2 ^ i" by (simp add: algebra_simps)
    then have "wval ?rd div 2 ^ (q div 2 ^ (i + 1) * 2 ^ (i + 1)) = wval rd div 2 ^ (q div 2 ^ i * 2 ^ i)"
      unfolding val by (simp only: div_mult2_eq [symmetric] power_add [symmetric])
    then show ?thesis unfolding step using ih len by (simp only: q_def)
  qed
qed

lemma bn_rshift_secret_shift_eq:
  assumes "wf_bn r" "wf_bn a" "bit_length (64 * bn_width a) k"
    "bn_rshift_secret_shift tmp al grow_tmp r a n = (ok, r')"
  shows "wf_bn r' \<and> (ok \<longrightarrow> bn_nat r' = bn_nat a div 2 ^ (unat n mod 2 ^ k) \<and> bn_neg r' = bn_neg a)"
proof -
  obtain ok1 d where copy: "BN_copy al r a = (ok1, d)" by force
  note copied = BN_copy_eq [OF assms(1,2) copy]
  show ?thesis
  proof (cases "tmp = None \<or> \<not> ok1 \<or> \<not> fst (bn_wexpand grow_tmp (the tmp) (bn_width d))")
    case True
    with assms(1,4) copy copied show ?thesis by (auto simp: bn_rshift_secret_shift_def split: option.splits if_splits)
  next
    case False
    let ?ws = "secret_shift_loop (64 * bn_width d) n 0 (take (bn_width d) (bn_d d))"
    have run: "ok" "r' = put_words d ?ws"
      using False assms(4) copy by (auto simp: bn_rshift_secret_shift_def)
    have d: "wf_bn d" "bn_words d = bn_words a" "bn_neg d = bn_neg a" using copied False by simp_all
    then have width: "bn_width d = bn_width a" using length_bn_words assms(2) by metis
    have "length ?ws = bn_width d \<and> wval ?ws = bn_nat a div 2 ^ (unat n mod 2 ^ k)"
      using secret_shift_loop_eq [of "64 * bn_width d" k 0 n "bn_words d"] assms(3) d length_bn_words [OF d(1)] width
      by (simp add: bn_words_def [of d] bn_nat_def wf_bn_def min_absorb2)
    with run d show ?thesis by (simp add: wf_bn_def put_words_def bn_nat_def bn_words_def)
  qed
qed

subsection \<open>Single bits\<close>

lemma minimal_copy:
  "wf_bn bn \<Longrightarrow> bn' = bn_set_minimal_width bn \<Longrightarrow> wf_bn bn' \<and> canonical bn' \<and> bn_nat bn' = bn_nat bn \<and> bn_int bn' = bn_int bn"
  using bn_set_minimal_width_eq [of bn] canonical_def [of bn'] by blast

lemma bit_bn_nat: "wf_bn a \<Longrightarrow> bit (bn_nat a) n \<longleftrightarrow> n div 64 < bn_width a \<and> bit (bn_d a ! (n div 64)) (n mod 64)"
  by (auto simp: bn_nat_def bit_wval length_bn_words) (auto simp: bn_words_def)

lemma same_bit: "m div 64 = n div 64 \<Longrightarrow> m mod 64 = n mod 64 \<longleftrightarrow> m = (n :: nat)"
  by (metis mult_div_mod_eq)

lemma bit_of_power: "bit ((2 :: u64) ^ (k mod 64)) m \<longleftrightarrow> m = k mod 64"
  by (auto simp: bit_exp_iff possible_bit_word)

text \<open>A number with one word changed, bit by bit.\<close>

lemma bit_updated:
  assumes "wf_bn a" "n div 64 < bn_width a"
  shows "wf_bn (a\<lparr>bn_d := (bn_d a)[n div 64 := w]\<rparr>) \<and>
    (bit (bn_nat (a\<lparr>bn_d := (bn_d a)[n div 64 := w]\<rparr>)) m \<longleftrightarrow>
      (if m div 64 = n div 64 then bit w (m mod 64) else bit (bn_nat a) m))"
proof -
  have wf: "wf_bn (a\<lparr>bn_d := (bn_d a)[n div 64 := w]\<rparr>)" using assms(1) by (simp add: wf_bn_def)
  with assms show ?thesis by (auto simp: bit_bn_nat wf_bn_def nth_list_update)
qed

lemma BN_is_bit_set_eq: "wf_bn a \<Longrightarrow> BN_is_bit_set a n \<longleftrightarrow> 0 \<le> n \<and> bit (bn_nat a) (nat n)"
proof -
  have "drop_bit k (w :: u64) AND 1 = 1 \<longleftrightarrow> bit w k" for k w
    by (simp add: and_one_eq bit_iff_odd_drop_bit odd_iff_mod_2_eq_one)
  then show "wf_bn a \<Longrightarrow> BN_is_bit_set a n \<longleftrightarrow> 0 \<le> n \<and> bit (bn_nat a) (nat n)"
    by (auto simp: BN_is_bit_set_def bn_is_bit_set_words_def bit_bn_nat Let_def)
qed

lemma BN_set_bit_eq:
  assumes "wf_bn a" "BN_set_bit al a n = (ok, a')"
  shows "wf_bn a' \<and> (ok \<longrightarrow> bn_nat a' = set_bit (nat n) (bn_nat a) \<and> bn_neg a' = bn_neg a) \<and> (\<not> ok \<longrightarrow> a' = a) \<and>
    (ok \<longleftrightarrow> 0 \<le> n \<and> (nat n div 64 < bn_width a \<or> room al a (nat n div 64 + 1)))"
proof (cases "n < 0")
  case True
  with assms show ?thesis by (simp add: BN_set_bit_def)
next
  case False
  define i j where "i = nat n div 64" and "j = nat n mod 64"
  have set: "wf_bn b' \<and> bn_nat b' = set_bit (nat n) (bn_nat b) \<and> bn_neg b' = bn_neg b"
    if "wf_bn b" "i < bn_width b" "b' = b\<lparr>bn_d := (bn_d b)[i := bn_d b ! i OR push_bit j 1]\<rparr>" for b b'
  proof -
    note upd = bit_updated [OF that(1,2) [unfolded i_def]]
    have "bit (bn_nat b') m \<longleftrightarrow> bit (set_bit (nat n) (bn_nat b)) m" for m
      unfolding that(3) i_def using upd that(1,2) same_bit [of m "nat n"]
      by (auto simp: bit_set_bit_iff bit_or_iff bit_of_power bit_bn_nat i_def j_def)
    then show ?thesis using upd that(3) by (auto simp: i_def intro: bit_eqI)
  qed
  show ?thesis
  proof (cases "i < bn_width a")
    case True
    with assms(2) False have "ok" "a' = a\<lparr>bn_d := (bn_d a)[i := bn_d a ! i OR push_bit j 1]\<rparr>"
      by (simp_all add: BN_set_bit_def i_def j_def Let_def)
    with set [OF assms(1) True] True False show ?thesis by (simp add: i_def)
  next
    case wide: False
    obtain ok1 d where grow: "bn_wexpand al a (i + 1) = (ok1, d)" by force
    note grown = bn_wexpand_eq [OF assms(1) grow] and room = bn_wexpand_ok [OF grow]
    show ?thesis
    proof (cases ok1)
      case no: False
      with assms(2) False wide grow have "\<not> ok" "a' = d" by (simp_all add: BN_set_bit_def i_def Let_def)
      with no grown room wide assms(1) show ?thesis by (simp add: i_def)
    next
      case True
      let ?d = "d\<lparr>bn_d := take (bn_width d) (bn_d d) @ replicate (i + 1 - bn_width d) 0 @ drop (i + 1) (bn_d d), bn_width := i + 1\<rparr>"
      have "ok" "a' = ?d\<lparr>bn_d := (bn_d ?d)[i := bn_d ?d ! i OR push_bit j 1]\<rparr>"
        using assms(2) False wide grow True by (simp_all add: BN_set_bit_def i_def j_def Let_def)
      moreover have "bn_words ?d = bn_words d @ replicate (i + 1 - bn_width d) 0"
        using grown True wide by (simp add: bn_words_def [of "_\<lparr>bn_width := _\<rparr>"] bn_words_def [of d] wf_bn_def)
      then have "bn_nat ?d = bn_nat a" using grown by (simp only: bn_nat_def wval_padded)
      moreover have "wf_bn ?d" "bn_neg ?d = bn_neg a" "i < bn_width ?d"
        using grown True wide by (simp_all add: wf_bn_def)
      ultimately show ?thesis using set [of ?d a'] room True wide False by (simp add: i_def)
    qed
  qed
qed

lemma BN_clear_bit_eq:
  assumes "wf_bn a" "BN_clear_bit a n = (ok, a')"
  shows "wf_bn a' \<and> (ok \<longrightarrow> canonical a' \<and> bn_nat a' = unset_bit (nat n) (bn_nat a)) \<and> (\<not> ok \<longrightarrow> a' = a) \<and>
    (ok \<longleftrightarrow> 0 \<le> n \<and> nat n div 64 < bn_width a)"
proof (cases "0 \<le> n \<and> nat n div 64 < bn_width a")
  case False
  with assms show ?thesis by (auto simp: BN_clear_bit_def Let_def split: if_splits)
next
  case True
  let ?a = "a\<lparr>bn_d := (bn_d a)[nat n div 64 := bn_d a ! (nat n div 64) AND NOT (push_bit (nat n mod 64) 1)]\<rparr>"
  have run: "ok" "a' = bn_set_minimal_width ?a" using assms(2) True by (simp_all add: BN_clear_bit_def Let_def)
  note upd = bit_updated [OF assms(1) True [THEN conjunct2]]
  have "bit (bn_nat ?a) m \<longleftrightarrow> bit (unset_bit (nat n) (bn_nat a)) m" for m
    using upd True assms(1) same_bit [of m "nat n"]
    by (auto simp: bit_unset_bit_iff bit_and_iff bit_not_iff bit_of_power bit_bn_nat)
  then have "bn_nat ?a = unset_bit (nat n) (bn_nat a)" by (rule bit_eqI)
  moreover have "wf_bn ?a" using upd by simp
  note minimal_copy [OF this run(2)]
  ultimately show ?thesis using run(1) True by simp
qed

lemma BN_mask_bits_eq:
  assumes "canonical a" "BN_mask_bits a n = (ok, a')"
  shows "wf_bn a' \<and> (ok \<longrightarrow> canonical a' \<and> bn_nat a' = bn_nat a mod 2 ^ nat n \<and>
      bn_int a' = (if bn_neg a then - 1 else 1) * int (bn_nat a mod 2 ^ nat n)) \<and> (\<not> ok \<longrightarrow> a' = a) \<and> (ok \<longleftrightarrow> 0 \<le> n)"
proof (cases "n < 0")
  case True
  with assms show ?thesis by (simp add: BN_mask_bits_def canonical_def)
next
  case False
  define w b where "w = nat n div 64" and "b = nat n mod 64"
  have a: "wf_bn a" using assms(1) by (simp add: canonical_def)
  have bits: "bit (bn_nat a mod 2 ^ nat n) m \<longleftrightarrow> m < nat n \<and> bit (bn_nat a) m" for m
    by (simp add: bit_take_bit_iff flip: take_bit_eq_mod)
  have n: "nat n = 64 * w + b" "b < 64" by (simp_all add: w_def b_def)
  show ?thesis
  proof (cases "bn_width a \<le> w")
    case True
    have "bn_nat a < limbs (bn_width a)" using wval_lt [of "bn_words a"] length_bn_words [OF a] by (simp only: bn_nat_def)
    also have "limbs (bn_width a) = 2 ^ (64 * bn_width a)" by (simp only: power_mult)
    also have "\<dots> \<le> (2 :: nat) ^ nat n" using True n by (intro power_increasing) simp_all
    finally show ?thesis using True False assms a by (simp add: BN_mask_bits_def w_def Let_def bn_int_def)
  next
    case inside: False
    let ?a = "if b = 0 then a\<lparr>bn_width := w\<rparr> else a\<lparr>bn_width := w + 1, bn_d := (bn_d a)[w := bn_d a ! w AND NOT (push_bit b (- 1))]\<rparr>"
    have run: "ok" "a' = bn_set_minimal_width ?a" 
      using assms(2) False inside by (auto simp: BN_mask_bits_def w_def b_def Let_def split: if_splits)
    have wf: "wf_bn ?a" using a inside by (simp add: wf_bn_def)
    have "bit (bn_nat ?a) m \<longleftrightarrow> bit (bn_nat a mod 2 ^ nat n) m" for m
    proof -
      have m: "m = 64 * (m div 64) + m mod 64" "m mod 64 < 64" by simp_all
      have less: "m < nat n \<longleftrightarrow> m div 64 < w \<or> (m div 64 = w \<and> m mod 64 < b)"
        using n m by linarith
      show ?thesis
      proof (cases "b = 0")
        case True
        with wf a inside less show ?thesis by (auto simp: bit_bn_nat bits)
      next
        case False
        have "bit (bn_nat ?a) m \<longleftrightarrow> m div 64 < w + 1 \<and> bit ((bn_d a)[w := bn_d a ! w AND NOT (push_bit b (- 1))] ! (m div 64)) (m mod 64)"
          using wf False by (simp add: bit_bn_nat)
        also have "\<dots> \<longleftrightarrow> m < nat n \<and> bit (bn_nat a) m"
          using False a inside less m(2)
          by (auto simp: bit_bn_nat nth_list_update wf_bn_def bit_and_iff bit_mask_iff possible_bit_word)
        finally show ?thesis by (simp add: bits)
      qed
    qed
    then have nat: "bn_nat ?a = bn_nat a mod 2 ^ nat n" by (rule bit_eqI)
    have "bn_neg ?a = bn_neg a" by simp
    then have "bn_int ?a = (if bn_neg a then - 1 else 1) * int (bn_nat a mod 2 ^ nat n)" unfolding bn_int_def nat by simp
    with minimal_copy [OF wf run(2)] nat run(1) False show ?thesis by simp
  qed
qed

subsection \<open>The lowest bit that is set\<close>

definition low_bit :: "nat \<Rightarrow> nat \<Rightarrow> bool" where
  "low_bit v z \<longleftrightarrow> bit v z \<and> (\<forall>i<z. \<not> bit v i)"

lemma push_bit_zero_iff: "k \<le> 64 \<Longrightarrow> push_bit (64 - k) (l :: u64) = 0 \<longleftrightarrow> (\<forall>i<k. \<not> bit l i)"
proof
  assume k: "k \<le> 64" and zero: "push_bit (64 - k) l = 0"
  show "\<forall>i<k. \<not> bit l i"
  proof (intro allI impI)
    fix i assume "i < k"
    then have "bit (push_bit (64 - k) l) (64 - k + i) \<longleftrightarrow> bit l i" 
      using k by (auto simp: bit_push_bit_iff possible_bit_word dest: bit_imp_le_length)
    then show "\<not> bit l i" using zero by simp
  qed
next
  assume "k \<le> 64" "\<forall>i<k. \<not> bit l i"
  then show "push_bit (64 - k) l = 0" by (intro bit_word_eqI) (auto simp: bit_push_bit_iff)
qed

lemma low_zero_step_eq:
  assumes "0 < k" "k < 64" "low_bit (unat (l :: u64)) z"
  shows "low_zero_step k (l, bits) = (if k \<le> z then (drop_bit k l, bits + of_nat k) else (l, bits)) \<and>
    low_bit (unat (fst (low_zero_step k (l, bits)))) (if k \<le> z then z - k else z)"
proof -
  have bits: "bit l z" "\<forall>i<z. \<not> bit l i" using assms(3) by (simp_all add: low_bit_def bit_unsigned_iff)
  have "(\<forall>i<k. \<not> bit l i) \<longleftrightarrow> k \<le> z"
  proof
    show "k \<le> z" if "\<forall>i<k. \<not> bit l i" using that bits(1) not_less by blast
    show "\<forall>i<k. \<not> bit l i" if "k \<le> z" using that bits(2) less_le_trans by blast
  qed
  then have zero: "push_bit (64 - k) l = 0 \<longleftrightarrow> k \<le> z" using push_bit_zero_iff [of k l] assms(2) by simp
  have run: "low_zero_step k (l, bits) = (if k \<le> z then (drop_bit k l, bits + of_nat k) else (l, bits))"
    unfolding low_zero_step_def Let_def prod.case is_zero_w_truth select_w_truth zero
    by (cases "k \<le> z") (simp_all add: truth_def)
  have "low_bit (unat (drop_bit k l)) (z - k)" if "k \<le> z"
    using bits that by (auto simp: low_bit_def bit_unsigned_iff bit_drop_bit_eq)
  with run assms(3) show ?thesis by simp
qed

lemma bn_count_low_zero_bits_word_eq:
  assumes "low_bit (unat (l :: u64)) z"
  shows "bn_count_low_zero_bits_word l = of_nat z"
proof -
  have z: "z < 64" using assms bit_imp_le_length [of l z] by (simp add: low_bit_def bit_unsigned_iff)
  define s where "s k p = (low_zero_step k p :: u64 \<times> u64)" for k p
  define inv where "inv n p \<longleftrightarrow> (\<exists>y. low_bit (unat (fst p)) y \<and> y < n \<and> snd p + of_nat y = of_nat z)" for n and p :: "u64 \<times> u64"
  have step: "inv k (s k p)" if "inv (2 * k) p" "0 < k" "k < 64" for k p
  proof -
    obtain y where y: "low_bit (unat (fst p)) y" "y < 2 * k" "snd p + of_nat y = of_nat z" using \<open>inv (2 * k) p\<close> by (auto simp: inv_def)
    from low_zero_step_eq [OF that(2,3) y(1), of "snd p"] y(2,3) show ?thesis
      by (cases "k \<le> y") (auto simp: inv_def s_def of_nat_diff intro!: exI [of _ "if k \<le> y then y - k else y"])
  qed
  have "inv 64 (l, 0)" using assms z by (auto simp: inv_def)
  then have "inv 32 (s 32 (l, 0))" using step [of 32] by simp
  then have "inv 16 (s 16 (s 32 (l, 0)))" using step [of 16] by simp
  then have "inv 8 (s 8 (s 16 (s 32 (l, 0))))" using step [of 8] by simp
  then have "inv 4 (s 4 (s 8 (s 16 (s 32 (l, 0)))))" using step [of 4] by simp
  then have "inv 2 (s 2 (s 4 (s 8 (s 16 (s 32 (l, 0))))))" using step [of 2] by simp
  then obtain w b y where last: "s 2 (s 4 (s 8 (s 16 (s 32 (l, 0))))) = (w, b)" "low_bit (unat w) y" "y < 2" "b + of_nat y = of_nat z"
    by (auto simp: inv_def) (metis prod.collapse)
  have "push_bit 63 w = 0 \<longleftrightarrow> \<not> bit w 0" using push_bit_zero_iff [of 1 w] by simp
  moreover have "y = (if bit w 0 then 0 else 1)" using last(2,3) by (cases y) (auto simp: low_bit_def bit_unsigned_iff)
  ultimately have "1 AND constant_time_is_zero_w (push_bit 63 w) = of_nat y" by (simp add: is_zero_w_truth truth_def)
  then show ?thesis using last(1,4) unfolding bn_count_low_zero_bits_word_def s_def by simp
qed

lemma low_bit_exists: "v \<noteq> 0 \<Longrightarrow> \<exists>z. low_bit v z"
proof -
  assume "v \<noteq> 0"
  then obtain n where "bit v n" by (metis bit_eqI bit_0_eq bot_apply bot_bool_def)
  then show ?thesis by (intro exI [of _ "LEAST n. bit v n"]) (auto simp: low_bit_def intro: LeastI dest: not_less_Least)
qed

lemma low_bit_unique: "low_bit v y \<Longrightarrow> low_bit v z \<Longrightarrow> z = y"
  by (cases y z rule: linorder_cases) (auto simp: low_bit_def)

lemma count_low_done: "count_low_loop i ds (- 1) ret = ret"
  by (induction ds arbitrary: i) simp_all

lemma count_low_loop_eq:
  "64 * (i + length ds) < 2 ^ 64 \<Longrightarrow>
   (wval ds = 0 \<longrightarrow> count_low_loop i ds 0 0 = 0) \<and>
   (\<forall>z. low_bit (wval ds) z \<longrightarrow> count_low_loop i ds 0 0 = of_nat (64 * i + z))"
proof (induction ds arbitrary: i)
  case (Cons d ds)
  show ?case
  proof (cases "d = 0")
    case True
    have step: "count_low_loop i (d # ds) 0 0 = count_low_loop (i + 1) ds 0 0"
      using True by (simp add: is_zero_w_truth truth_def)
    have "low_bit (wval ds) (z - 64) \<and> 64 \<le> z" if "low_bit (wval (d # ds)) z" for z
    proof -
      have "\<not> bit (wval (d # ds)) n" if "n < 64" for n using that True by (simp add: bit_wval del: wval.simps)
      then have z: "64 \<le> z" using that by (auto simp: low_bit_def not_less [symmetric])
      have "(n + 64) div 64 = Suc (n div 64)" for n :: nat by simp
      then have "bit (wval ds) n \<longleftrightarrow> bit (wval (d # ds)) (n + 64)" for n by (simp add: bit_wval del: wval.simps)
      with z that show ?thesis by (auto simp: low_bit_def simp del: wval.simps)
    qed
    note low = this
    have "64 * (i + 1 + length ds) < 2 ^ 64" using Cons.prems by simp
    note ih = Cons.IH [OF this]
    have "count_low_loop (i + 1) ds 0 0 = of_nat (64 * i + z)" if "low_bit (wval (d # ds)) z" for z
    proof -
      have "count_low_loop (i + 1) ds 0 0 = of_nat (64 * (i + 1) + (z - 64))" using ih low [OF that] by blast
      moreover have "64 * (i + 1) + (z - 64) = 64 * i + z" using low [OF that] by simp
      ultimately show ?thesis by simp
    qed
    then show ?thesis using ih True unfolding step by simp
  next
    case False
    then obtain y where y: "low_bit (unat d) y" using low_bit_exists [of "unat d"] by (auto simp: unat_eq_0)
    have "y < 64" using y bit_imp_le_length [of d y] by (simp add: low_bit_def bit_unsigned_iff)
    moreover have "bit (wval (d # ds)) n \<longleftrightarrow> bit (unat d) n" if "n < 64" for n
      using that by (simp add: bit_wval bit_unsigned_iff del: wval.simps)
    ultimately have "low_bit (wval (d # ds)) y" using y by (simp add: low_bit_def del: wval.simps)
    then have low: "low_bit (wval (d # ds)) z \<longleftrightarrow> z = y" for z using low_bit_unique by blast
    have "count_low_loop i (d # ds) 0 0 = of_nat (i * 64) + bn_count_low_zero_bits_word d"
      using False by (simp add: is_zero_w_truth truth_def count_low_done)
    with low False show ?thesis by (simp add: bn_count_low_zero_bits_word_eq [OF y] unat_eq_0 algebra_simps)
  qed
qed (simp add: low_bit_def)

text \<open>The number of low zero bits, which is zero for zero.\<close>

lemma BN_count_low_zero_bits_eq:
  assumes "wf_bn bn"
  shows "if bn_nat bn = 0 then BN_count_low_zero_bits bn = 0 else low_bit (bn_nat bn) (BN_count_low_zero_bits bn)"
proof (cases "bn_nat bn = 0")
  case True
  have "64 * (0 + length (bn_words bn)) < 2 ^ 64" using assms by (simp add: length_bn_words wf_bn_def)
  with count_low_loop_eq [OF this] True show ?thesis by (simp add: BN_count_low_zero_bits_def bn_nat_def bn_words_def)
next
  case False
  have len: "64 * (0 + length (bn_words bn)) < 2 ^ 64" using assms by (simp add: length_bn_words wf_bn_def)
  obtain z where z: "low_bit (bn_nat bn) z" using low_bit_exists [OF False] ..
  then have "z div 64 < bn_width bn" using assms by (simp add: low_bit_def bit_bn_nat)
  then have "z div 64 < 2147483648" using assms by (simp add: wf_bn_def)
  then have "z < 2 ^ 64" by simp
  with count_low_loop_eq [OF len] z False show ?thesis
    by (simp add: BN_count_low_zero_bits_def bn_nat_def bn_words_def unat_of_nat take_bit_eq_mod mod_less)
qed

end
