(* ===== verification/Bn_Program.thy ===== *)
theory Bn_Program
  imports Bn_Square Bn_Bytes Bn_Shift
begin

text \<open>
  Programs over BIGNUMs. The numbers are the registers of a machine, an operation is one call of
  bn.c, add.c, mul.c or shift.c whose operands and result are registers, possibly the same one, and a
  program stops at the first call that fails, as the callers of these functions do. The theorems
  say that a program computes with integers what its calls say: no assertion of the code fails,
  and the registers stay well formed even when a call fails.
\<close>

subsection \<open>Programs\<close>

datatype bn_op =
    Op_zero nat
  | Op_set_word nat u64
  | Op_copy nat nat
  | Op_set_negative nat bool
  | Op_add nat nat nat
  | Op_sub nat nat nat
  | Op_mul nat nat nat
  | Op_sqr nat nat
  | Op_add_word nat u64
  | Op_sub_word nat u64
  | Op_mul_word nat u64
  | Op_lshift nat nat int
  | Op_lshift1 nat nat
  | Op_rshift nat nat int
  | Op_rshift1 nat nat
  | Op_mask_bits nat int

text \<open>The allocator during a call, and what BN_CTX_get returns to a product.\<close>

record bn_env =
  env_alloc :: word_alloc
  env_mul :: mul_env

text \<open>The register that receives the result.\<close>

fun op_result :: "bn_op \<Rightarrow> nat" where
  "op_result (Op_zero r) = r"
| "op_result (Op_set_word r w) = r"
| "op_result (Op_copy r a) = r"
| "op_result (Op_set_negative r s) = r"
| "op_result (Op_add r a b) = r"
| "op_result (Op_sub r a b) = r"
| "op_result (Op_mul r a b) = r"
| "op_result (Op_sqr r a) = r"
| "op_result (Op_add_word r w) = r"
| "op_result (Op_sub_word r w) = r"
| "op_result (Op_mul_word r w) = r"
| "op_result (Op_lshift r a n) = r"
| "op_result (Op_lshift1 r a) = r"
| "op_result (Op_rshift r a n) = r"
| "op_result (Op_rshift1 r a) = r"
| "op_result (Op_mask_bits r n) = r"

fun op_operands :: "bn_op \<Rightarrow> nat list" where
  "op_operands (Op_copy r a) = [a]"
| "op_operands (Op_add r a b) = [a, b]"
| "op_operands (Op_sub r a b) = [a, b]"
| "op_operands (Op_mul r a b) = [a, b]"
| "op_operands (Op_sqr r a) = [a]"
| "op_operands (Op_lshift r a n) = [a]"
| "op_operands (Op_lshift1 r a) = [a]"
| "op_operands (Op_rshift r a n) = [a]"
| "op_operands (Op_rshift1 r a) = [a]"
| "op_operands _ = []"

definition op_valid :: "nat \<Rightarrow> bn_op \<Rightarrow> bool" where
  "op_valid n op \<longleftrightarrow> op_result op < n \<and> (\<forall>a \<in> set (op_operands op). a < n)"

text \<open>One call: None where an assertion fails, otherwise whether it succeeds and the new value of the result.\<close>

fun bn_call :: "bn_env \<Rightarrow> bn_op \<Rightarrow> BIGNUM list \<Rightarrow> (bool \<times> BIGNUM) option" where
  "bn_call env (Op_zero r) rs = Some (True, BN_zero (rs ! r))"
| "bn_call env (Op_set_word r w) rs = Some (BN_set_word (env_alloc env) (rs ! r) w)"
| "bn_call env (Op_copy r a) rs = Some (BN_copy (env_alloc env) (rs ! r) (rs ! a))"
| "bn_call env (Op_set_negative r s) rs = Some (True, BN_set_negative (rs ! r) s)"
| "bn_call env (Op_add r a b) rs = Some (BN_add (env_alloc env) (rs ! r) (rs ! a) (rs ! b))"
| "bn_call env (Op_sub r a b) rs = Some (BN_sub (env_alloc env) (rs ! r) (rs ! a) (rs ! b))"
| "bn_call env (Op_mul r a b) rs = BN_mul (env_mul env) (r = a \<or> r = b) (rs ! r) (rs ! a) (rs ! b)"
| "bn_call env (Op_sqr r a) rs = BN_sqr (env_mul env) (r = a) (rs ! r) (rs ! a)"
| "bn_call env (Op_add_word r w) rs = BN_add_word (env_alloc env) (rs ! r) w"
| "bn_call env (Op_sub_word r w) rs = BN_sub_word (env_alloc env) (rs ! r) w"
| "bn_call env (Op_mul_word r w) rs = Some (BN_mul_word (env_alloc env) (rs ! r) w)"
| "bn_call env (Op_lshift r a n) rs = Some (BN_lshift (env_alloc env) (rs ! r) (rs ! a) n)"
| "bn_call env (Op_lshift1 r a) rs = Some (BN_lshift1 (env_alloc env) (rs ! r) (rs ! a))"
| "bn_call env (Op_rshift r a n) rs = Some (BN_rshift (env_alloc env) (rs ! r) (rs ! a) n)"
| "bn_call env (Op_rshift1 r a) rs = Some (BN_rshift1 (env_alloc env) (rs ! r) (rs ! a))"
| "bn_call env (Op_mask_bits r n) rs = Some (BN_mask_bits (rs ! r) n)"

definition bn_step :: "bn_env \<Rightarrow> bn_op \<Rightarrow> BIGNUM list \<Rightarrow> (bool \<times> BIGNUM list) option" where
  "bn_step env op rs = map_option (\<lambda>(ok, v). (ok, rs[op_result op := v])) (bn_call env op rs)"

fun bn_run :: "(bn_env \<times> bn_op) list \<Rightarrow> BIGNUM list \<Rightarrow> (bool \<times> BIGNUM list) option" where
  "bn_run [] rs = Some (True, rs)"
| "bn_run ((env, op) # prog) rs =
     (case bn_step env op rs of
        None \<Rightarrow> None
      | Some (ok, rs) \<Rightarrow> if ok then bn_run prog rs else Some (False, rs))"

subsection \<open>The same programs on integers\<close>

text \<open>Division by a power of two towards zero, and its remainder, with the sign of the operand.\<close>

definition shift_right :: "int \<Rightarrow> nat \<Rightarrow> int" where
  "shift_right x n = (if x < 0 then - (- x div 2 ^ n) else x div 2 ^ n)"

definition low_bits :: "int \<Rightarrow> nat \<Rightarrow> int" where
  "low_bits x n = (if x < 0 then - (- x mod 2 ^ n) else x mod 2 ^ n)"

fun int_call :: "bn_op \<Rightarrow> int list \<Rightarrow> int" where
  "int_call (Op_zero r) xs = 0"
| "int_call (Op_set_word r w) xs = uint w"
| "int_call (Op_copy r a) xs = xs ! a"
| "int_call (Op_set_negative r s) xs = (if s then - \<bar>xs ! r\<bar> else \<bar>xs ! r\<bar>)"
| "int_call (Op_add r a b) xs = xs ! a + xs ! b"
| "int_call (Op_sub r a b) xs = xs ! a - xs ! b"
| "int_call (Op_mul r a b) xs = xs ! a * xs ! b"
| "int_call (Op_sqr r a) xs = xs ! a * xs ! a"
| "int_call (Op_add_word r w) xs = xs ! r + uint w"
| "int_call (Op_sub_word r w) xs = xs ! r - uint w"
| "int_call (Op_mul_word r w) xs = xs ! r * uint w"
| "int_call (Op_lshift r a n) xs = xs ! a * 2 ^ nat n"
| "int_call (Op_lshift1 r a) xs = 2 * xs ! a"
| "int_call (Op_rshift r a n) xs = shift_right (xs ! a) (nat n)"
| "int_call (Op_rshift1 r a) xs = shift_right (xs ! a) 1"
| "int_call (Op_mask_bits r n) xs = low_bits (xs ! r) (nat n)"

definition int_step :: "bn_op \<Rightarrow> int list \<Rightarrow> int list" where
  "int_step op xs = xs[op_result op := int_call op xs]"

subsection \<open>One call\<close>

text \<open>The shape of every lemma about an operation: it succeeds or not, the result fits together, and has the value.\<close>

definition call_ok :: "(bool \<times> BIGNUM) option \<Rightarrow> int \<Rightarrow> bool" where
  "call_ok res x \<longleftrightarrow> (\<exists>ok v. res = Some (ok, v) \<and> wf_bn v \<and> (ok \<longrightarrow> canonical v \<and> bn_int v = x))"

lemma call_okI: "(\<And>ok v. p = (ok, v) \<Longrightarrow> wf_bn v \<and> (ok \<longrightarrow> canonical v \<and> bn_int v = x)) \<Longrightarrow> call_ok (Some p) x"
  by (cases p) (auto simp: call_ok_def)

lemma bn_int_sign: "canonical bn \<Longrightarrow> bn_int bn < 0 \<longleftrightarrow> bn_neg bn"
  by (auto simp: canonical_def bn_int_def)

lemma shift_right_bn_int:
  "canonical bn \<Longrightarrow> (if bn_neg bn then - 1 else 1) * int (bn_nat bn div 2 ^ n) = shift_right (bn_int bn) n"
  by (auto simp: shift_right_def bn_int_sign) (simp_all add: bn_int_def zdiv_int)

lemma BN_set_negative_eq:
  assumes "canonical bn"
  shows "canonical (BN_set_negative bn s) \<and> bn_int (BN_set_negative bn s) = (if s then - \<bar>bn_int bn\<bar> else \<bar>bn_int bn\<bar>)"
proof -
  have "BN_is_zero bn \<longleftrightarrow> bn_nat bn = 0" using assms bn_fits_in_words_eq [of bn 0] by (simp add: BN_is_zero_def canonical_def)
  moreover have "bn_nat (bn\<lparr>bn_neg := b\<rparr>) = bn_nat bn" "wf_bn (bn\<lparr>bn_neg := b\<rparr>) = wf_bn bn" for b
    by (simp_all add: bn_nat_def bn_words_def wf_bn_def)
  ultimately show ?thesis using assms by (auto simp: BN_set_negative_def canonical_def bn_int_def)
qed

lemma low_bits_bn_int:
  "canonical bn \<Longrightarrow> (if bn_neg bn then - 1 else 1) * int (bn_nat bn mod 2 ^ n) = low_bits (bn_int bn) n"
  by (auto simp: low_bits_def bn_int_sign) (simp_all add: bn_int_def zmod_int)

lemma bn_call_eq:
  assumes "env_ok (env_mul env)" "op_valid (length rs) op" "\<forall>r \<in> set rs. canonical r"
  shows "call_ok (bn_call env op rs) (int_call op (map bn_int rs))"
proof -
  have reg: "canonical (rs ! k)" "wf_bn (rs ! k)" "map bn_int rs ! k = bn_int (rs ! k)" if "k < length rs" for k
    using assms(3) that by (auto simp: canonical_def)
  note value_simps = call_ok_def shift_right_bn_int [symmetric]
  show ?thesis
  proof (cases op)
    case (Op_zero r)
    then have r: "r < length rs" using assms(2) by (simp add: op_valid_def)
    show ?thesis unfolding Op_zero bn_call.simps int_call.simps
      by (rule call_okI) (use reg(2) [OF r] in \<open>auto simp: BN_zero_def canonical_def wf_bn_def bn_int_def bn_nat_def bn_words_def\<close>)
  next
    case (Op_set_word r w)
    then have r: "r < length rs" using assms(2) by (simp add: op_valid_def)
    show ?thesis unfolding Op_set_word bn_call.simps int_call.simps
      by (rule call_okI) (use BN_set_word_eq [OF reg(2) [OF r]] in \<open>auto simp: bn_int_def\<close>)
  next
    case (Op_copy r a)
    then have ra: "r < length rs" "a < length rs" using assms(2) by (simp_all add: op_valid_def)
    have "wf_bn v \<and> (ok \<longrightarrow> canonical v \<and> bn_int v = bn_int (rs ! a))"
      if "BN_copy (env_alloc env) (rs ! r) (rs ! a) = (ok, v)" for ok v
      using BN_copy_eq [OF reg(2) [OF ra(1)] reg(2) [OF ra(2)] that] reg(1) [OF ra(2)]
      by (auto simp: canonical_def bn_int_def bn_nat_def)
    then show ?thesis unfolding Op_copy bn_call.simps int_call.simps reg(3) [OF ra(2)] by (rule call_okI)
  next
    case (Op_set_negative r b)
    then have r: "r < length rs" using assms(2) by (simp add: op_valid_def)
    show ?thesis unfolding Op_set_negative bn_call.simps int_call.simps reg(3) [OF r]
      by (rule call_okI) (use BN_set_negative_eq [OF reg(1) [OF r], of b] in \<open>auto simp: canonical_def\<close>)
  next
    case (Op_add r a b)
    then have ra: "r < length rs" "a < length rs" "b < length rs" using assms(2) by (simp_all add: op_valid_def)
    show ?thesis unfolding Op_add bn_call.simps int_call.simps reg(3) [OF ra(2)] reg(3) [OF ra(3)]
      by (rule call_okI) (use BN_add_eq [OF reg(2) [OF ra(1)] reg(1) [OF ra(2)] reg(1) [OF ra(3)]] in blast)
  next
    case (Op_sub r a b)
    then have ra: "r < length rs" "a < length rs" "b < length rs" using assms(2) by (simp_all add: op_valid_def)
    show ?thesis unfolding Op_sub bn_call.simps int_call.simps reg(3) [OF ra(2)] reg(3) [OF ra(3)]
      by (rule call_okI) (use BN_sub_eq [OF reg(2) [OF ra(1)] reg(1) [OF ra(2)] reg(1) [OF ra(3)]] in blast)
  next
    case (Op_mul r a b)
    then have ra: "r < length rs" "a < length rs" "b < length rs" using assms(2) by (simp_all add: op_valid_def)
    show ?thesis unfolding Op_mul bn_call.simps int_call.simps reg(3) [OF ra(2)] reg(3) [OF ra(3)] call_ok_def
      using BN_mul_eq [OF reg(2) [OF ra(1)] reg(2) [OF ra(2)] reg(2) [OF ra(3)] assms(1)] by blast
  next
    case (Op_sqr r a)
    then have ra: "r < length rs" "a < length rs" using assms(2) by (simp_all add: op_valid_def)
    show ?thesis unfolding Op_sqr bn_call.simps int_call.simps reg(3) [OF ra(2)] call_ok_def
      using BN_sqr_eq [OF reg(2) [OF ra(1)] reg(2) [OF ra(2)] assms(1)] by blast
  next
    case (Op_add_word r w)
    then have r: "r < length rs" using assms(2) by (simp add: op_valid_def)
    show ?thesis unfolding Op_add_word bn_call.simps int_call.simps reg(3) [OF r] call_ok_def uint_nat [of w]
      using BN_add_word_eq [OF reg(1) [OF r]] by blast
  next
    case (Op_sub_word r w)
    then have r: "r < length rs" using assms(2) by (simp add: op_valid_def)
    show ?thesis unfolding Op_sub_word bn_call.simps int_call.simps reg(3) [OF r] call_ok_def uint_nat [of w]
      using BN_sub_word_eq [OF reg(1) [OF r]] by blast
  next
    case (Op_mul_word r w)
    then have r: "r < length rs" using assms(2) by (simp add: op_valid_def)
    show ?thesis unfolding Op_mul_word bn_call.simps int_call.simps reg(3) [OF r] uint_nat [of w]
      by (rule call_okI) (use BN_mul_word_eq [OF reg(1) [OF r]] in blast)
  next
    case (Op_lshift r a n)
    then have ra: "r < length rs" "a < length rs" using assms(2) by (simp_all add: op_valid_def)
    show ?thesis unfolding Op_lshift bn_call.simps int_call.simps reg(3) [OF ra(2)]
      by (rule call_okI) (use BN_lshift_eq [OF reg(2) [OF ra(1)] reg(2) [OF ra(2)]] in blast)
  next
    case (Op_lshift1 r a)
    then have ra: "r < length rs" "a < length rs" using assms(2) by (simp_all add: op_valid_def)
    show ?thesis unfolding Op_lshift1 bn_call.simps int_call.simps reg(3) [OF ra(2)]
      by (rule call_okI) (use BN_lshift1_eq [OF reg(2) [OF ra(1)] reg(1) [OF ra(2)]] in blast)
  next
    case (Op_rshift r a n)
    then have ra: "r < length rs" "a < length rs" using assms(2) by (simp_all add: op_valid_def)
    show ?thesis unfolding Op_rshift bn_call.simps int_call.simps reg(3) [OF ra(2)] shift_right_bn_int [OF reg(1) [OF ra(2)], symmetric]
      by (rule call_okI) (use BN_rshift_eq [OF reg(2) [OF ra(1)] reg(2) [OF ra(2)]] in blast)
  next
    case (Op_rshift1 r a)
    then have ra: "r < length rs" "a < length rs" using assms(2) by (simp_all add: op_valid_def)
    show ?thesis unfolding Op_rshift1 bn_call.simps int_call.simps reg(3) [OF ra(2)] shift_right_bn_int [OF reg(1) [OF ra(2)], symmetric] power_one_right
      by (rule call_okI) (use BN_rshift1_eq [OF reg(2) [OF ra(1)] reg(2) [OF ra(2)]] in blast)
  next
    case (Op_mask_bits r n)
    then have r: "r < length rs" using assms(2) by (simp add: op_valid_def)
    show ?thesis unfolding Op_mask_bits bn_call.simps int_call.simps reg(3) [OF r] low_bits_bn_int [OF reg(1) [OF r], symmetric]
      by (rule call_okI) (use BN_mask_bits_eq [OF reg(1) [OF r]] in blast)
  qed
qed

subsection \<open>When a call succeeds\<close>

text \<open>The allocator serves every request, and BN_CTX_get returns numbers whose arrays may grow.\<close>

definition env_serves :: "bn_env \<Rightarrow> bool" where
  "env_serves env \<longleftrightarrow> fst (env_alloc env) \<and> fst (env_grow_rr (env_mul env)) \<and> fst (env_grow_t (env_mul env)) \<and>
     fst (env_copy (env_mul env)) \<and>
     (case env_rr (env_mul env) of None \<Rightarrow> False | Some rr \<Rightarrow> \<not> bn_static rr) \<and>
     (case env_t (env_mul env) of None \<Rightarrow> False | Some t \<Rightarrow> \<not> bn_static t)"

text \<open>The distance of a shift, which may not be negative.\<close>

fun op_distance :: "bn_op \<Rightarrow> int" where
  "op_distance (Op_lshift r a n) = n"
| "op_distance (Op_rshift r a n) = n"
| "op_distance (Op_mask_bits r n) = n"
| "op_distance _ = 0"

text \<open>The operands and the result are short enough: bn_wexpand allows 8388607 words, a product needs eight times its operands.\<close>

definition op_fits :: "bn_op \<Rightarrow> BIGNUM list \<Rightarrow> bool" where
  "op_fits op rs \<longleftrightarrow> 0 \<le> op_distance op \<and> \<not> bn_static (rs ! op_result op) \<and>
     (\<forall>a \<in> set (op_result op # op_operands op). 8 * bn_width (rs ! a) + nat (op_distance op) div 64 + 1 \<le> 8388607)"

lemma room_served: "fst al \<Longrightarrow> \<not> bn_static bn \<Longrightarrow> n \<le> 8388607 \<Longrightarrow> room al bn n"
  by (simp add: room_def)

lemma mul_room_served: "env_serves env \<Longrightarrow> \<not> bn_static r \<Longrightarrow> n \<le> 8388607 \<Longrightarrow> mul_room (env_mul env) aliased r n"
  by (auto simp: env_serves_def mul_room_def room_served split: option.splits)

lemma call_served: "\<exists>ok r. x = Some (ok, r) \<and> wf_bn r \<and> Q ok r \<and> (served \<longrightarrow> ok) \<Longrightarrow> served \<Longrightarrow> \<exists>v. x = Some (True, v)"
  by auto

lemma bn_call_succeeds:
  assumes "env_ok (env_mul env)" "op_valid (length rs) op" "\<forall>r \<in> set rs. canonical r" "env_serves env" "op_fits op rs"
  shows "\<exists>v. bn_call env op rs = Some (True, v)"
proof -
  have al: "fst (env_alloc env)" using assms(4) by (simp add: env_serves_def)
  have reg: "canonical (rs ! k)" "wf_bn (rs ! k)" if "k < length rs" for k
    using assms(3) that by (auto simp: canonical_def)
  have rooms: "room (env_alloc env) (rs ! op_result op) n" "mul_room (env_mul env) aliased (rs ! op_result op) n"
    if "n \<le> 8388607" for n aliased
    using al assms(4,5) that by (simp_all add: op_fits_def room_served mul_room_served)
  have res: "p = (True, snd p)" if "\<And>ok v. p = (ok, v) \<Longrightarrow> ok" for p :: "bool \<times> BIGNUM" using that [of "fst p" "snd p"] by (cases p) simp
  have fits: "8 * bn_width (rs ! a) + nat (op_distance op) div 64 + 1 \<le> 8388607" if "a \<in> set (op_result op # op_operands op)" for a
    using assms(5) that unfolding op_fits_def by blast
  show ?thesis
  proof (cases op)
    case (Op_set_word r w)
    then have r: "room (env_alloc env) (rs ! r) 1" using rooms(1) [of 1] by simp
    obtain ok d where grow: "bn_wexpand (env_alloc env) (rs ! r) 1 = (ok, d)" by force
    with bn_wexpand_ok [OF this] r show ?thesis by (auto simp: Op_set_word BN_set_word_def)
  next
    case (Op_copy r a)
    then have r: "room (env_alloc env) (rs ! r) (bn_width (rs ! a))" using rooms(1) fits [of a] by simp
    obtain ok d where grow: "bn_wexpand (env_alloc env) (rs ! r) (bn_width (rs ! a)) = (ok, d)" by force
    with bn_wexpand_ok [OF this] r show ?thesis by (auto simp: Op_copy BN_copy_def)
  next
    case (Op_add r a b)
    have "r < length rs" "a < length rs" "b < length rs" using assms(2) by (simp_all add: Op_add op_valid_def)
    with BN_add_eq [of "rs ! r" "rs ! a" "rs ! b" "env_alloc env"] reg rooms(1) [of "max (bn_width (rs ! a)) (bn_width (rs ! b)) + 1"] fits [of a] fits [of b]
    show ?thesis by (intro exI) (auto simp: Op_add intro!: res)
  next
    case (Op_sub r a b)
    have "r < length rs" "a < length rs" "b < length rs" using assms(2) by (simp_all add: Op_sub op_valid_def)
    with BN_sub_eq [of "rs ! r" "rs ! a" "rs ! b" "env_alloc env"] reg rooms(1) [of "max (bn_width (rs ! a)) (bn_width (rs ! b)) + 1"] fits [of a] fits [of b]
    show ?thesis by (intro exI) (auto simp: Op_sub intro!: res)
  next
    case (Op_mul r a b)
    have ra: "r < length rs" "a < length rs" "b < length rs" using assms(2) by (simp_all add: Op_mul op_valid_def)
    have "mul_room (env_mul env) (r = a \<or> r = b) (rs ! r) (8 * max (bn_width (rs ! a)) (bn_width (rs ! b)))"
      using rooms(2) fits [of a] fits [of b] by (simp add: Op_mul max_def)
    with BN_mul_eq [OF reg(2) [OF ra(1)] reg(2) [OF ra(2)] reg(2) [OF ra(3)] assms(1), of "r = a \<or> r = b"] show ?thesis
      unfolding Op_mul bn_call.simps by (rule call_served)
  next
    case (Op_sqr r a)
    have ra: "r < length rs" "a < length rs" using assms(2) by (simp_all add: Op_sqr op_valid_def)
    have "mul_room (env_mul env) (r = a) (rs ! r) (8 * bn_width (rs ! a))"
      using rooms(2) fits [of a] by (simp add: Op_sqr)
    with BN_sqr_eq [OF reg(2) [OF ra(1)] reg(2) [OF ra(2)] assms(1), of "r = a"] show ?thesis
      unfolding Op_sqr bn_call.simps by (rule call_served)
  next
    case (Op_add_word r w)
    have "r < length rs" using assms(2) by (simp add: Op_add_word op_valid_def)
    with BN_add_word_eq [of "rs ! r" "env_alloc env" w] reg rooms(1) [of "bn_width (rs ! r) + 1"] fits [of r] show ?thesis
      by (auto simp: Op_add_word)
  next
    case (Op_sub_word r w)
    have "r < length rs" using assms(2) by (simp add: Op_sub_word op_valid_def)
    with BN_sub_word_eq [of "rs ! r" "env_alloc env" w] reg rooms(1) [of "bn_width (rs ! r) + 1"] fits [of r] show ?thesis
      by (auto simp: Op_sub_word)
  next
    case (Op_mul_word r w)
    have "r < length rs" using assms(2) by (simp add: Op_mul_word op_valid_def)
    with BN_mul_word_eq [of "rs ! r" "env_alloc env" w] reg rooms(1) [of "bn_width (rs ! r) + 1"] fits [of r] show ?thesis
      by (intro exI) (auto simp: Op_mul_word intro!: res)
  next
    case (Op_lshift r a n)
    have "r < length rs" "a < length rs" using assms(2) by (simp_all add: Op_lshift op_valid_def)
    moreover have "0 \<le> n" using assms(5) by (simp add: Op_lshift op_fits_def)
    ultimately show ?thesis
      using BN_lshift_eq [of "rs ! r" "rs ! a" "env_alloc env" n] reg rooms(1) [of "bn_width (rs ! a) + nat n div 64 + 1"] fits [of a]
      by (intro exI) (auto simp: Op_lshift intro!: res)
  next
    case (Op_lshift1 r a)
    have "r < length rs" "a < length rs" using assms(2) by (simp_all add: Op_lshift1 op_valid_def)
    then show ?thesis
      using BN_lshift1_eq [of "rs ! r" "rs ! a" "env_alloc env"] reg rooms(1) [of "bn_width (rs ! a) + 1"] fits [of a]
      by (intro exI) (auto simp: Op_lshift1 intro!: res)
  next
    case (Op_rshift r a n)
    have "r < length rs" "a < length rs" using assms(2) by (simp_all add: Op_rshift op_valid_def)
    moreover have "0 \<le> n" using assms(5) by (simp add: Op_rshift op_fits_def)
    ultimately show ?thesis
      using BN_rshift_eq [of "rs ! r" "rs ! a" "env_alloc env" n] reg rooms(1) [of "bn_width (rs ! a)"] fits [of a]
      by (intro exI) (auto simp: Op_rshift intro!: res)
  next
    case (Op_rshift1 r a)
    have "r < length rs" "a < length rs" using assms(2) by (simp_all add: Op_rshift1 op_valid_def)
    then show ?thesis
      using BN_rshift1_eq [of "rs ! r" "rs ! a" "env_alloc env"] reg rooms(1) [of "bn_width (rs ! a)"] fits [of a]
      by (intro exI) (auto simp: Op_rshift1 intro!: res)
  next
    case (Op_mask_bits r n)
    have "r < length rs" using assms(2) by (simp add: Op_mask_bits op_valid_def)
    moreover have "0 \<le> n" using assms(5) by (simp add: Op_mask_bits op_fits_def)
    ultimately show ?thesis using BN_mask_bits_eq [of "rs ! r" n] reg by (intro exI) (auto simp: Op_mask_bits intro!: res)
  qed simp_all
qed

subsection \<open>Programs and integers\<close>

lemma canonical_update:
  "\<forall>r \<in> set rs. canonical r \<Longrightarrow> canonical v \<Longrightarrow> \<forall>r \<in> set (rs[k := v]). canonical r"
  using set_update_subset_insert [of rs k v] by blast

lemma wf_update:
  "\<forall>r \<in> set rs. canonical r \<Longrightarrow> wf_bn v \<Longrightarrow> \<forall>r \<in> set (rs[k := v]). wf_bn r"
  using set_update_subset_insert [of rs k v] by (auto simp: canonical_def)

text \<open>
  C17. From numbers that are in canonical form every call of an operation returns, with no assertion of
  the code violated. Whether it succeeds or not, every register is a well-formed BIGNUM, only the
  result has changed, and after success every register is in canonical form again.
\<close>

theorem bn_step_typed:
  assumes "env_ok (env_mul env)" "op_valid (length rs) op" "\<forall>r \<in> set rs. canonical r"
  shows "\<exists>ok rs'. bn_step env op rs = Some (ok, rs') \<and> length rs' = length rs \<and> (\<forall>r \<in> set rs'. wf_bn r) \<and>
    (ok \<longrightarrow> (\<forall>r \<in> set rs'. canonical r)) \<and> (\<forall>k < length rs. k \<noteq> op_result op \<longrightarrow> rs' ! k = rs ! k)"
proof -
  obtain ok v where call: "bn_call env op rs = Some (ok, v)" "wf_bn v" "ok \<longrightarrow> canonical v"
    using bn_call_eq [OF assms] by (auto simp: call_ok_def)
  then have "bn_step env op rs = Some (ok, rs[op_result op := v])" by (simp add: bn_step_def)
  with call wf_update [OF assms(3) call(2)] canonical_update [OF assms(3), of v] show ?thesis by auto
qed

lemma bn_run_eq:
  assumes "\<forall>(env, op) \<in> set prog. env_ok (env_mul env) \<and> op_valid (length rs) op" "\<forall>r \<in> set rs. canonical r"
  shows "\<exists>ok rs'. bn_run prog rs = Some (ok, rs') \<and>
    (ok \<longrightarrow> (\<forall>r \<in> set rs'. canonical r) \<and> map bn_int rs' = fold int_step (map snd prog) (map bn_int rs))"
  using assms
proof (induction prog rs rule: bn_run.induct)
  case (2 env op prog rs)
  then have "env_ok (env_mul env)" "op_valid (length rs) op" by auto
  from bn_call_eq [OF this 2(3)] obtain ok v where call: "bn_call env op rs = Some (ok, v)"
    "ok \<longrightarrow> canonical v \<and> bn_int v = int_call op (map bn_int rs)"
    by (auto simp: call_ok_def)
  then have step: "bn_step env op rs = Some (ok, rs[op_result op := v])" by (simp add: bn_step_def)
  show ?case
  proof (cases ok)
    case True
    have "map bn_int (rs[op_result op := v]) = int_step op (map bn_int rs)"
      using call(2) True by (simp add: int_step_def map_update)
    with 2(1) [OF step refl True] 2(2) canonical_update [OF 2(3), of v] call(2) True step show ?thesis by auto
  next
    case False
    with step show ?thesis by auto
  qed
qed auto

text \<open>
  C11. A program over big numbers refines the same program over integers: it runs with no assertion
  violated, and when every call succeeds the registers hold the integers that the program computes
  with exact arithmetic, in canonical form, whatever registers coincide and whatever the allocator
  leaves in fresh memory.
\<close>

theorem bn_program_refines:
  assumes "\<forall>(env, op) \<in> set prog. env_ok (env_mul env) \<and> op_valid (length rs) op" "\<forall>r \<in> set rs. canonical r"
  shows "\<exists>ok rs'. bn_run prog rs = Some (ok, rs') \<and>
    (ok \<longrightarrow> (\<forall>r \<in> set rs'. canonical r) \<and> map bn_int rs' = fold int_step (map snd prog) (map bn_int rs))"
  using assms by (rule bn_run_eq)

text \<open>
  C39. Nothing but memory makes a call fail: with an allocator that serves every request, operands that
  are short enough for bn_wexpand and a shift distance that is not negative, every operation
  succeeds and stores the exact integer result.
\<close>

theorem bn_step_succeeds:
  assumes "env_ok (env_mul env)" "op_valid (length rs) op" "\<forall>r \<in> set rs. canonical r" "env_serves env" "op_fits op rs"
  shows "\<exists>rs'. bn_step env op rs = Some (True, rs') \<and> map bn_int rs' = int_step op (map bn_int rs)"
proof -
  obtain v where call: "bn_call env op rs = Some (True, v)" using bn_call_succeeds [OF assms] ..
  then have "bn_int v = int_call op (map bn_int rs)" using bn_call_eq [OF assms(1-3)] by (auto simp: call_ok_def)
  with call show ?thesis by (simp add: bn_step_def int_step_def map_update)
qed

subsection \<open>An example\<close>

text \<open>Three numbers, 5, -3 and 0, the last with no array; fresh memory holds sevens.\<close>

definition example_numbers :: "BIGNUM list" where
  "example_numbers =
     [BN_init\<lparr>bn_d := [5], bn_width := 1, bn_dmax := 1\<rparr>,
      BN_init\<lparr>bn_d := [3, 9], bn_width := 1, bn_dmax := 2, bn_neg := True\<rparr>,
      BN_init]"

definition example_env :: bn_env where
  "example_env =
     \<lparr>env_alloc = (True, \<lambda>_. 7),
      env_mul = \<lparr>env_rr = Some BN_init, env_t = Some BN_init, env_grow_rr = (True, \<lambda>_. 7), env_grow_t = (True, \<lambda>_. 7),
        env_copy = (True, \<lambda>_. 7)\<rparr>\<rparr>"

lemma example_canonical: "\<forall>r \<in> set example_numbers. canonical r"
  by (simp add: example_numbers_def canonical_def wf_bn_def BN_init_def bn_nat_def bn_words_def)

lemma example_int: "map bn_int example_numbers = [5, - 3, 0]"
  by (simp add: example_numbers_def BN_init_def bn_int_def bn_nat_def bn_words_def)

lemma example_length: "length example_numbers = 3"
  by (simp add: example_numbers_def)

lemma example_env_ok: "env_ok (env_mul example_env)" "env_serves example_env"
  by (simp_all add: example_env_def env_ok_def env_serves_def wf_bn_def BN_init_def)

lemma example_fits: "op_fits (Op_mul 1 0 1) example_numbers"
  by (simp add: op_fits_def example_numbers_def BN_init_def)

lemma bn_step_typed_witness:
  "\<exists>ok rs'. bn_step example_env (Op_mul 1 0 1) example_numbers = Some (ok, rs') \<and> length rs' = 3 \<and> (\<forall>r \<in> set rs'. wf_bn r)"
proof -
  have "op_valid (length example_numbers) (Op_mul 1 0 1)" by (simp add: op_valid_def example_length)
  from bn_step_typed [OF example_env_ok(1) this example_canonical] show ?thesis unfolding example_length by blast
qed

lemma bn_program_refines_witness:
  "\<exists>ok rs'. bn_run [(example_env, Op_mul 2 0 1), (example_env, Op_lshift 2 2 70), (example_env, Op_sub 0 2 0)] example_numbers = Some (ok, rs') \<and>
    (ok \<longrightarrow> map bn_int rs' = [- 15 * 2 ^ 70 - 5, - 3, - 15 * 2 ^ 70])"
proof -
  let ?prog = "[(example_env, Op_mul 2 0 1), (example_env, Op_lshift 2 2 70), (example_env, Op_sub 0 2 0)]"
  have "\<forall>(env, op) \<in> set ?prog. env_ok (env_mul env) \<and> op_valid (length example_numbers) op"
    by (simp add: op_valid_def example_length example_env_ok)
  from bn_program_refines [OF this example_canonical] obtain ok rs' where
    run: "bn_run ?prog example_numbers = Some (ok, rs')"
    "ok \<longrightarrow> map bn_int rs' = fold int_step (map snd ?prog) (map bn_int example_numbers)"
    by blast
  have "fold int_step (map snd ?prog) (map bn_int example_numbers) = [- 15 * 2 ^ 70 - 5, - 3, - 15 * 2 ^ 70]"
    unfolding example_int by (simp add: int_step_def)
  with run show ?thesis by (intro exI [of _ ok] exI [of _ rs']) simp
qed

lemma bn_step_succeeds_witness:
  "\<exists>rs'. bn_step example_env (Op_mul 1 0 1) example_numbers = Some (True, rs') \<and> map bn_int rs' = [5, - 15, 0]"
proof -
  have valid: "op_valid (length example_numbers) (Op_mul 1 0 1)" by (simp add: op_valid_def example_length)
  from bn_step_succeeds [OF example_env_ok(1) valid example_canonical example_env_ok(2) example_fits] show ?thesis
    unfolding example_int by (simp add: int_step_def)
qed

end
