(* ===== verification/Bn_Properties.thy ===== *)
theory Bn_Properties
  imports Bn_Program
begin

text \<open>
  What the algorithms on big numbers promise on their own: the products of Karatsuba's method, the
  encodings as bytes, and the shift that runs in constant time.
\<close>

subsection \<open>Products\<close>

text \<open>
  C12. Karatsuba's method computes the product: bn_mul_recursive and bn_mul_part_recursive return with
  none of their assertions violated, in particular without a carry that is left over, and the words
  of the result stand for the product of the numbers that the operands stand for.
\<close>

theorem karatsuba_product:
  assumes "power_of_two n" "8 \<le> n" "ta < n" "tb < n" "ta \<le> tb + 1" "tb \<le> ta + 1" "n + ta \<le> length a" "n + tb \<le> length b"
    "da \<le> 8" "db \<le> 8" "n - da \<le> length a" "n - db \<le> length b"
  shows "(\<exists>r. bn_mul_part_recursive a b n (int ta) (int tb) = Some r \<and> length r = 4 * n \<and>
      wval r = wval (take (n + ta) a) * wval (take (n + tb) b)) \<and>
    (\<exists>r. bn_mul_recursive a b n (- int da) (- int db) = Some r \<and> length r = 2 * n \<and>
      wval r = wval (take (n - da) a) * wval (take (n - db) b))"
proof
  show "\<exists>r. bn_mul_part_recursive a b n (int ta) (int tb) = Some r \<and> length r = 4 * n \<and>
      wval r = wval (take (n + ta) a) * wval (take (n + tb) b)"
    using bn_mul_part_recursive_eq [OF assms(1-8)] by (simp only: product_words_def)
  have width: "nat (int n + (- int k)) = n - k" "0 \<le> int n + (- int k)" if "k \<le> 8" for k
    using that assms(2) by simp_all
  show "\<exists>r. bn_mul_recursive a b n (- int da) (- int db) = Some r \<and> length r = 2 * n \<and>
      wval r = wval (take (n - da) a) * wval (take (n - db) b)"
    using bn_mul_recursive_eq [of n "- int da" "- int db" a b] assms(1,9-12) width [OF assms(9)] width [OF assms(10)]
    by (simp only: product_words_def simp_thms)
qed

lemma karatsuba_product_witness:
  "\<exists>r. bn_mul_recursive (replicate 24 (- 1)) (replicate 24 (- 1)) 16 (- 1) 0 = Some r \<and> length r = 32 \<and>
    wval r = wval (replicate 15 (- 1)) * wval (replicate 16 (- 1))"
proof -
  have "power_of_two 16" by (simp add: power_of_two_def)
  from karatsuba_product [OF this, of 7 8 "replicate 24 (- 1)" "replicate 24 (- 1)" 1 0] show ?thesis by simp
qed

subsection \<open>Bytes\<close>

text \<open>
  C18. The absolute value of a number that fits in \<open>len\<close> bytes is written, padded with zeros, in either
  byte order, and reading the bytes into a number that can grow gives the absolute value back; a
  number that does not fit is refused. The form without padding takes the least number of bytes.
  The sign is not written. BN_bin2bn makes the result positive when there is a byte to read, and
  keeps the sign of the number it reads into when there is none; BN_le2bn does the opposite: it keeps
  that sign when there is a byte and clears it when there is none.
\<close>

theorem bn_bytes_round_trip:
  assumes "wf_bn bn" "wf_bn ret" "room al ret ((len - 1) div 8 + 1)"
  shows "(if bn_nat bn < 256 ^ len then
      (\<exists>bs v. BN_bn2bin_padded len bn = Some bs \<and> length bs = len \<and> BN_bin2bn served al bs (Some ret) = Some v \<and>
        bn_nat v = bn_nat bn \<and> bn_neg v = (len = 0 \<and> bn_neg ret)) \<and>
      (\<exists>bs v. BN_bn2le_padded len bn = Some bs \<and> length bs = len \<and> BN_le2bn served al bs (Some ret) = Some v \<and>
        bn_nat v = bn_nat bn \<and> bn_neg v = (len \<noteq> 0 \<and> bn_neg ret))
    else BN_bn2bin_padded len bn = None \<and> BN_bn2le_padded len bn = None) \<and>
    be_nat (BN_bn2bin bn) = bn_nat bn \<and> (BN_bn2bin bn \<noteq> [] \<longrightarrow> hd (BN_bn2bin bn) \<noteq> 0)"
proof
  let ?be = "be_bytes len (bn_nat bn)" and ?le = "le_bytes len (bn_nat bn)"
  have nil: "?be = [] \<longleftrightarrow> len = 0" "?le = [] \<longleftrightarrow> len = 0" by (metis length_be_bytes length_0_conv, metis length_le_bytes length_0_conv)
  have be: "\<exists>v. BN_bin2bn served al ?be (Some ret) = Some v \<and> bn_nat v = be_nat ?be \<and> bn_neg v = (len = 0 \<and> bn_neg ret)"
    using BN_bin2bn_eq [OF assms(2), where served = served and al = al and inp = ?be] assms(3) nil
    by (auto split: option.splits)
  have le: "\<exists>v. BN_le2bn served al ?le (Some ret) = Some v \<and> bn_nat v = le_nat ?le \<and> bn_neg v = (len \<noteq> 0 \<and> bn_neg ret)"
    using BN_le2bn_eq [OF assms(2), where served = served and al = al and inp = ?le] assms(3) nil
    by (auto split: option.splits)
  show "if bn_nat bn < 256 ^ len then
      (\<exists>bs v. BN_bn2bin_padded len bn = Some bs \<and> length bs = len \<and> BN_bin2bn served al bs (Some ret) = Some v \<and>
        bn_nat v = bn_nat bn \<and> bn_neg v = (len = 0 \<and> bn_neg ret)) \<and>
      (\<exists>bs v. BN_bn2le_padded len bn = Some bs \<and> length bs = len \<and> BN_le2bn served al bs (Some ret) = Some v \<and>
        bn_nat v = bn_nat bn \<and> bn_neg v = (len \<noteq> 0 \<and> bn_neg ret))
    else BN_bn2bin_padded len bn = None \<and> BN_bn2le_padded len bn = None"
  proof (cases "bn_nat bn < 256 ^ len")
    case True
    then have "bn_nat bn mod 256 ^ len = bn_nat bn" by simp
    with be le True show ?thesis
      by (simp only: BN_bn2bin_padded_eq [OF assms(1)] BN_bn2le_padded_eq [OF assms(1)] be_nat_be_bytes
          le_nat_le_bytes if_True) simp
  qed (simp add: BN_bn2bin_padded_eq [OF assms(1)] BN_bn2le_padded_eq [OF assms(1)])
  note bytes = BN_num_bytes_eq [OF assms(1)]
  have val: "be_nat (BN_bn2bin bn) = bn_nat bn" using bytes by (simp add: BN_bn2bin_eq [OF assms(1)] mod_less)
  moreover have "hd (BN_bn2bin bn) \<noteq> 0" if nonempty: "BN_bn2bin bn \<noteq> []"
  proof
    assume "hd (BN_bn2bin bn) = 0"
    then obtain bs where bs: "BN_bn2bin bn = 0 # bs" using nonempty by (cases "BN_bn2bin bn") auto
    have len: "length (BN_bn2bin bn) = BN_num_bytes bn" by (simp add: BN_bn2bin_eq [OF assms(1)])
    then have "BN_num_bytes bn - 1 = length bs" by (simp add: bs)
    then have "bn_nat bn < 256 ^ (BN_num_bytes bn - 1)" using val be_nat_lt [of bs] by (simp only: bs) simp
    moreover have "0 < BN_num_bytes bn" using len bs by simp
    ultimately show False using bytes by simp
  qed
  ultimately show "be_nat (BN_bn2bin bn) = bn_nat bn \<and> (BN_bn2bin bn \<noteq> [] \<longrightarrow> hd (BN_bn2bin bn) \<noteq> 0)" by blast
qed

lemma bn_bytes_round_trip_witness:
  "(\<exists>bs v. BN_bn2bin_padded 3 (BN_init\<lparr>bn_d := [77], bn_width := 1, bn_dmax := 1\<rparr>) = Some bs \<and> length bs = 3 \<and>
     BN_bin2bn True (True, \<lambda>_. 5) bs (Some (BN_init\<lparr>bn_neg := True\<rparr>)) = Some v \<and> bn_int v = 77) \<and>
   (\<exists>bs v. BN_bn2le_padded 3 (BN_init\<lparr>bn_d := [77], bn_width := 1, bn_dmax := 1\<rparr>) = Some bs \<and> length bs = 3 \<and>
     BN_le2bn True (True, \<lambda>_. 5) bs (Some (BN_init\<lparr>bn_neg := True\<rparr>)) = Some v \<and> bn_int v = - 77)"
proof -
  let ?n = "BN_init\<lparr>bn_d := [77], bn_width := 1, bn_dmax := 1\<rparr>" and ?ret = "BN_init\<lparr>bn_neg := True\<rparr>"
  have "wf_bn ?n" "bn_nat ?n = 77" by (simp_all add: wf_bn_def bn_nat_def bn_words_def)
  moreover have "wf_bn ?ret" "bn_neg ?ret" "room (True, \<lambda>_. 5) ?ret ((3 - 1) div 8 + 1)"
    by (simp_all add: wf_bn_def BN_init_def room_def)
  ultimately show ?thesis
    using bn_bytes_round_trip [of ?n ?ret "(True, \<lambda>_. 5)" 3 True] by (auto simp: bn_int_def)
qed

subsection \<open>The shift in constant time\<close>

text \<open>
  C40. bn_rshift_secret_shift is BN_rshift for every distance below the first power of two above the
  number of bits of the operand's words: both results stand for the same integer. A longer distance
  is taken modulo that power, where BN_rshift goes on to zero. The results differ in form: the
  secret shift keeps the sign of the operand also when nothing is left, so it can return a
  negative zero, while BN_rshift clears the sign of zero.
\<close>

theorem secret_shift_is_rshift:
  assumes "wf_bn r" "wf_bn a" "bit_length (64 * bn_width a) k" "unat n < 2 ^ 31"
    "bn_rshift_secret_shift tmp al grow_tmp r a n = (True, r1)" "BN_rshift al' r' a (int (unat n)) = (True, r2)" "wf_bn r'"
  shows "bn_nat r1 = bn_nat a div 2 ^ (unat n mod 2 ^ k) \<and> bn_nat r2 = bn_nat a div 2 ^ unat n \<and>
    bn_neg r1 = bn_neg a \<and> bn_neg r2 = (bn_neg a \<and> bn_nat r2 \<noteq> 0) \<and>
    (unat n < 2 ^ k \<longrightarrow> bn_int r1 = bn_int r2)"
proof -
  have secret: "bn_nat r1 = bn_nat a div 2 ^ (unat n mod 2 ^ k)" "bn_neg r1 = bn_neg a"
    using bn_rshift_secret_shift_eq [OF assms(1-3,5)] by simp_all
  have plain: "canonical r2" "bn_int r2 = (if bn_neg a then - 1 else 1) * int (bn_nat a div 2 ^ nat (int (unat n)))"
    using BN_rshift_eq [OF assms(7,2,6)] by blast+
  then have nat2: "bn_nat r2 = bn_nat a div 2 ^ unat n"
    by (auto simp: bn_int_def nat_int split: if_splits simp del: of_nat_unat)
  have neg2: "bn_neg r2 = (bn_neg a \<and> bn_nat r2 \<noteq> 0)"
  proof (cases "bn_nat r2 = 0")
    case True
    then show ?thesis using plain(1) by (simp add: canonical_def)
  next
    case False
    then have "0 < bn_nat a div 2 ^ unat n" by (simp add: nat2)
    then show ?thesis
      using plain(2) nat2 False by (auto simp: bn_int_def nat_int split: if_splits simp del: of_nat_unat)
  qed
  have "bn_int r1 = bn_int r2" if "unat n < 2 ^ k"
    using that secret nat2 neg2 by (auto simp: bn_int_def)
  with secret nat2 neg2 show ?thesis by simp
qed

lemma secret_shift_is_rshift_witness:
  "\<exists>r1 r2. bn_rshift_secret_shift (Some BN_init) (True, \<lambda>_. 5) (True, \<lambda>_. 5) BN_init
      (BN_init\<lparr>bn_d := [1], bn_width := 1, bn_dmax := 1, bn_neg := True\<rparr>) 1 = (True, r1) \<and>
    BN_rshift (True, \<lambda>_. 5) BN_init (BN_init\<lparr>bn_d := [1], bn_width := 1, bn_dmax := 1, bn_neg := True\<rparr>) 1 = (True, r2) \<and>
    bn_int r1 = 0 \<and> bn_int r2 = 0 \<and> bn_neg r1 \<and> \<not> bn_neg r2"
proof -
  let ?a = "BN_init\<lparr>bn_d := [1], bn_width := 1, bn_dmax := 1, bn_neg := True\<rparr>" and ?al = "(True, \<lambda>_. 5) :: word_alloc"
  obtain ok1 r1 where r1: "bn_rshift_secret_shift (Some BN_init) ?al ?al BN_init ?a 1 = (ok1, r1)" by force
  obtain ok2 r2 where r2: "BN_rshift ?al BN_init ?a 1 = (ok2, r2)" by force
  have ok: ok1 ok2
    using r1 r2 by (auto simp: bn_rshift_secret_shift_def BN_copy_def BN_rshift_def bn_wexpand_def BN_init_def split: if_splits)
  have wf: "wf_bn BN_init" "wf_bn ?a" "bn_nat ?a = 1" "bn_width ?a = 1" "bn_neg ?a"
    by (simp_all add: wf_bn_def BN_init_def bn_nat_def bn_words_def)
  have "bit_length (64 * bn_width ?a) 7" by (simp add: bit_length_def)
  from secret_shift_is_rshift [OF wf(1,2) this _ r1 [unfolded ok(1) [THEN eqTrueI]] _ wf(1), of ?al r2] r2 ok
  have "bn_nat r1 = 0 \<and> bn_nat r2 = 0 \<and> bn_neg r1 \<and> \<not> bn_neg r2" using wf(3,5) by simp
  with r1 r2 ok show ?thesis by (simp add: bn_int_def)
qed

end
