(* ===== verification/Spec2Isabelle.thy ===== *)
theory Spec2Isabelle
  imports Pb_Proto3 Pb_Decode_Spec Asn1_Oid_Text Cbb_Failure Asn1_Mbstring_Spec Ber_Spec Base64_Stream Obj_Tables Mem Bn_Properties
begin

text \<open>
  Verification library for the C libraries that the app links. The repository is an iOS app in
  Swift; its C code is in the pods under src/Ijara/ijara/Pods: nanopb (protocol buffers for the
  Firebase SDK) and BoringSSL (for gRPC). This library models nanopb completely and, of BoringSSL, the
  byte-string and ASN.1 code, base64, hash tables, the tables of objects and the arithmetic of big
  numbers, and proves what the operations promise.

  Parts and theories

  \<^item> Codec_Prelude: words, bytes, \<open>size_t\<close> arithmetic (\<open>size_add\<close> wraps at 2 to the 64), little- and
    big-endian numbers, and the interfaces that the components share as locales: \<open>prefix_codec\<close> and
    \<open>canonical_codec\<close> (an encoding that a decoder inverts) and \<open>byte_source\<close> (something bytes are
    fetched from).
  \<^item> Pb_Ostream, Pb_Istream, Pb_Wire: nanopb/pb_encode.c and pb_decode.c, streams and primitive values.
    A stream is a record with the fields of \<open>pb_ostream_s\<close> or \<open>pb_istream_s\<close>; a callback is a
    function parameter with its state. Pb_Wire holds the wire format and the round trips.
  \<^item> Pb_Field: pb.h and pb_common.c, descriptors, memory and the field iterator.
  \<^item> Pb_Encode, Pb_Encode_Spec: messages to bytes, and the refinement of the wire records a message
    stands for.
  \<^item> Pb_Proto3: what a proto3 message stands for, stated without the code of the encoder (which
    fields are present, by their values alone), and the proof that pb_encode writes exactly those records.
    Embedded submessages are asked what \<open>embedded_ok\<close> says, for their encoding to tell whether
    they are empty; a value that the encoder loses outside that condition, an allocated one at an
    unlucky address in an embedded submessage, is a property of its own.
  \<^item> Pb_Heap, Pb_Decode, Pb_Decode_Spec: allocation and release, bytes to messages, safety of the
    decoder on every input.
  \<^item> Cbs, Cbs_Asn1: BoringSSL crypto/bytestring/cbs.c. A CBS is its two fields, data and length; a
    function that advances a CBS is a parser, from a CBS to an optional result and a CBS. Cbs states
    what the readers read as functions of the bytes of the window (\<open>reads_as\<close>).
  \<^item> Asn1_Der, Asn1_Values: the DER encoding as functions from values to bytes, and the proof that the
    parsers accept exactly it.
  \<^item> Cbb, Cbb_Asn1: crypto/bytestring/cbb.c. A CBB tree shares one buffer and at most one child is
    pending at each level, so that the model keeps the list of pending children and names a CBB by its
    depth; a handle deeper than the list is one that was flushed.
  \<^item> Cbb_Spec: the abstract builder (contents and pending children, without offsets) and what
    CBB_flush does to it. Cbb_Builder: contracts of writers and how they compose. Cbb_Writers: the
    writers of cbb.c meet them. Cbb_Program, Cbb_Properties: sequences of operations, refinement,
    invariant and progress. Cbb_Failure: which failures set the error flag and stick, and which do not.
  \<^item> Asn1_Writers, Asn1_Oid, Asn1_Oid_Text, Asn1_Set_Of: the ASN.1 writers against the parsers, object
    identifiers as text in both directions, and the order of SET OF.

  \<^item> Unicode: crypto/bytestring/unicode.c, the readers and writers of UTF-8, Latin-1, UCS-2 and UTF-32;
    a UTF-8 reader accepts exactly the shortest forms of code points. Asn1_Mbstring,
    Asn1_Mbstring_Spec: crypto/asn1/a_mbstr.c and the ASN1_STRING operations of asn1_lib.c, with the
    allocator as a parameter; what a conversion between string types writes, and when it fails.
  \<^item> Ber, Ber_Spec: crypto/bytestring/ber.c and asn1_compat.c; a grammar of BER elements, and the
    proof that the conversion writes the DER of the forest it reads.

  \<^item> Constant_Time: the masks and selections of crypto/internal.h. Base64, Base64_Spec, Base64_Stream:
    crypto/base64/base64.c; the texts of RFC 4648 as a relation, and the proof that the decoders, in
    one buffer or streamed, accept exactly them. Mem: the C strings and copies of crypto/mem.c.
  \<^item> Lhash, Lhash_Spec: crypto/lhash/lhash.c, an array of chains that refines a finite map.
    Obj_Tables: crypto/obj/obj.c, the objects added at run time and their four tables.
  \<^item> Bn_Words, Bn_Comba: crypto/fipsmodule/bn/generic.c, loops over 64-bit words with a double-width
    type; \<open>wval\<close> is the number that an array of words stands for. Bn: bn.c, the record of a BIGNUM,
    its well-formedness \<open>wf_bn\<close>, the integer \<open>bn_int\<close> and the canonical form (no negative zero).
    Bn_Arith: add.c and cmp.c. Bn_Mul, Bn_Product, Bn_Square: mul.c, from Karatsuba on arrays to BN_mul
    and BN_sqr. Bn_Bytes: bytes.c. Bn_Shift: shift.c. Bn_Program: sequences of calls on registers that
    may coincide, against the same sequences on integers. Bn_Properties: products, byte encodings and
    the constant-time shift on their own.

  How they interact: the writers of Cbb_Asn1 are composed from those of Cbb; CBB_flush_asn1_set_of
  parses the buffer of a CBB with a CBS, and CBS_asn1_oid_to_text prints into a CBB. The nanopb
  encoder and decoder run over the streams and walk memory through the iterator. The tables of objects
  are four hash tables with functions of their own for hashing and comparison. Every operation on big
  numbers that stores a result grows its array with bn_wexpand, and those of mul.c run the loops of
  generic.c and the masks of crypto/internal.h.

  Bounds and fuel. Machine integers are words where the code computes with them; sizes are natural
  numbers below 2 to the 64 with the wrap-around written out. Loops over a window terminate because
  it shrinks; recursion into submessages, split_elements and the walks over BER take fuel, which the theorems show to be
  enough: the nesting depth, and one round for each byte. Properties of a whole buffer assume that it
  is shorter than 2 to the 58 to 2 to the 63 bytes, which every buffer in a 64-bit address space is.
  A chunk that is encoded in base64 is shorter than 2 to the 30 bytes, one that is decoded shorter
  than 2 to the 31; the width of a BIGNUM is below 2 to the 31, the range of its type, and
  bn_wexpand allocates at most 8388607 words. The recursions on arrays of words need no fuel: they
  halve the array.

  Parameters. The allocator (whether a request is served, what fresh memory holds) and user
  callbacks are arguments of the definitions; no property depends on what fresh memory holds. So are
  the numbers that BN_CTX_get returns, the searches in the generated tables of objects, and the
  comparison and hash functions of a hash table.

  Not modelled: the Swift, Objective-C and C++ code, generated tables and message code, and the rest
  of BoringSSL (division and modular arithmetic, curves, ciphers, X.509, input and output); the
  manifest lists each with its reason. Assembly that replaces the C code on some processors is
  outside the model.
\<close>

end
